(* ===== verification/Prelude.thy ===== *)
theory Prelude
  imports Main "HOL-Library.Word" "HOL-Library.Sublist" "HOL-Library.AList"
    "HOL-Library.Monad_Syntax" "HOL-Library.Code_Target_Nat"
begin

text \<open>
  The parts of the Rust standard library that the engine's crates share, and the
  generic lemmas about them.  A Rust \<^verbatim>\<open>char\<close> is its Unicode scalar value, a natural
  number; a \<^verbatim>\<open>str\<close> is the list of its characters.  Byte offsets and byte lengths
  are computed from the UTF-8 width of each character (\<open>utf8_len\<close>, \<open>blen\<close>), and a
  byte slice (\<open>byte_slice\<close>) is \<open>None\<close> where Rust's \<^verbatim>\<open>str::get\<close> is: out of range or
  off a character boundary.  A \<^verbatim>\<open>HashMap\<close> is an association list with one entry for
  a key (\<open>map_of\<close> to look up, \<open>AList.update\<close> to insert).  ASCII literals of the
  source are written \<open>asc CHR ''x''\<close> and \<open>str ''abc''\<close>.
\<close>

named_theorems text_simps \<open>rewriting of the text primitives\<close>
named_theorems inv_intros \<open>preservation of component invariants\<close>

section \<open>Characters and strings\<close>

type_synonym uchar = nat
type_synonym ustr = "uchar list"
type_synonym u32 = "32 word"
type_synonym u64 = "64 word"

abbreviation asc :: "char \<Rightarrow> uchar" where
  "asc c \<equiv> of_char c"

abbreviation str :: "string \<Rightarrow> ustr" where
  "str s \<equiv> map of_char s"

definition utf8_len :: "uchar \<Rightarrow> nat" where
  "utf8_len c = (if c < 0x80 then 1 else if c < 0x800 then 2 else if c < 0x10000 then 3 else 4)"

text \<open>\<^verbatim>\<open>str::len\<close>: the number of UTF-8 bytes.\<close>

fun blen :: "ustr \<Rightarrow> nat" where
  "blen [] = 0"
| "blen (c # cs) = utf8_len c + blen cs"

text \<open>The UTF-8 bytes of a string, each below 256.\<close>

definition utf8_char :: "uchar \<Rightarrow> nat list" where
  "utf8_char c =
     (if c < 0x80 then [c]
      else if c < 0x800 then [0xC0 + c div 0x40, 0x80 + c mod 0x40]
      else if c < 0x10000 then
        [0xE0 + c div 0x1000, 0x80 + c div 0x40 mod 0x40, 0x80 + c mod 0x40]
      else [0xF0 + c div 0x40000, 0x80 + c div 0x1000 mod 0x40,
            0x80 + c div 0x40 mod 0x40, 0x80 + c mod 0x40])"

definition utf8_bytes :: "ustr \<Rightarrow> nat list" where
  "utf8_bytes s = concat (map utf8_char s)"

fun take_bytes :: "nat \<Rightarrow> ustr \<Rightarrow> ustr option" where
  "take_bytes 0 s = Some []"
| "take_bytes (Suc n) [] = None"
| "take_bytes (Suc n) (c # cs) =
     (if utf8_len c \<le> Suc n then map_option ((#) c) (take_bytes (Suc n - utf8_len c) cs)
      else None)"

fun drop_bytes :: "nat \<Rightarrow> ustr \<Rightarrow> ustr option" where
  "drop_bytes 0 s = Some s"
| "drop_bytes (Suc n) [] = None"
| "drop_bytes (Suc n) (c # cs) =
     (if utf8_len c \<le> Suc n then drop_bytes (Suc n - utf8_len c) cs else None)"

text \<open>\<^verbatim>\<open>s.get(a..b)\<close>.\<close>

definition byte_slice :: "ustr \<Rightarrow> nat \<Rightarrow> nat \<Rightarrow> ustr option" where
  "byte_slice s a b =
     (if a \<le> b then Option.bind (drop_bytes a s) (take_bytes (b - a)) else None)"

subsection \<open>ASCII classes\<close>

definition is_ascii :: "uchar \<Rightarrow> bool" where
  "is_ascii c \<longleftrightarrow> c < 128"

definition is_ascii_digit :: "uchar \<Rightarrow> bool" where
  "is_ascii_digit c \<longleftrightarrow> 48 \<le> c \<and> c \<le> 57"

definition is_ascii_uppercase :: "uchar \<Rightarrow> bool" where
  "is_ascii_uppercase c \<longleftrightarrow> 65 \<le> c \<and> c \<le> 90"

definition is_ascii_lowercase :: "uchar \<Rightarrow> bool" where
  "is_ascii_lowercase c \<longleftrightarrow> 97 \<le> c \<and> c \<le> 122"

definition is_ascii_alphabetic :: "uchar \<Rightarrow> bool" where
  "is_ascii_alphabetic c \<longleftrightarrow> is_ascii_uppercase c \<or> is_ascii_lowercase c"

definition is_ascii_alphanumeric :: "uchar \<Rightarrow> bool" where
  "is_ascii_alphanumeric c \<longleftrightarrow> is_ascii_alphabetic c \<or> is_ascii_digit c"

definition ascii_lower :: "uchar \<Rightarrow> uchar" where
  "ascii_lower c = (if is_ascii_uppercase c then c + 32 else c)"

abbreviation to_ascii_lowercase :: "ustr \<Rightarrow> ustr" where
  "to_ascii_lowercase s \<equiv> map ascii_lower s"

definition eq_ignore_ascii_case :: "ustr \<Rightarrow> ustr \<Rightarrow> bool" where
  "eq_ignore_ascii_case s t \<longleftrightarrow> to_ascii_lowercase s = to_ascii_lowercase t"

lemmas ascii_defs = is_ascii_def is_ascii_digit_def is_ascii_uppercase_def
  is_ascii_lowercase_def is_ascii_alphabetic_def is_ascii_alphanumeric_def

text \<open>\<^verbatim>\<open>char::is_whitespace\<close>: the Unicode property White_Space.\<close>

definition is_whitespace :: "uchar \<Rightarrow> bool" where
  "is_whitespace c \<longleftrightarrow>
     (9 \<le> c \<and> c \<le> 13) \<or> c = 32 \<or> c = 0x85 \<or> c = 0xA0 \<or> c = 0x1680
     \<or> (0x2000 \<le> c \<and> c \<le> 0x200A) \<or> c = 0x2028 \<or> c = 0x2029 \<or> c = 0x202F
     \<or> c = 0x205F \<or> c = 0x3000"

subsection \<open>Operations on strings\<close>

definition trim_start :: "ustr \<Rightarrow> ustr" where
  "trim_start s = dropWhile is_whitespace s"

definition trim_end :: "ustr \<Rightarrow> ustr" where
  "trim_end s = rev (dropWhile is_whitespace (rev s))"

definition trim :: "ustr \<Rightarrow> ustr" where
  "trim s = trim_end (trim_start s)"

definition trim_matches :: "(uchar \<Rightarrow> bool) \<Rightarrow> ustr \<Rightarrow> ustr" where
  "trim_matches P s = rev (dropWhile P (rev (dropWhile P s)))"

abbreviation starts_with :: "ustr \<Rightarrow> ustr \<Rightarrow> bool" where
  "starts_with s p \<equiv> prefix p s"

abbreviation ends_with :: "ustr \<Rightarrow> ustr \<Rightarrow> bool" where
  "ends_with s p \<equiv> suffix p s"

fun strip_prefix :: "ustr \<Rightarrow> ustr \<Rightarrow> ustr option" where
  "strip_prefix [] s = Some s"
| "strip_prefix (p # ps) [] = None"
| "strip_prefix (p # ps) (c # cs) = (if p = c then strip_prefix ps cs else None)"

definition contains_str :: "ustr \<Rightarrow> ustr \<Rightarrow> bool" where
  "contains_str s t \<longleftrightarrow> sublist t s"

text \<open>\<^verbatim>\<open>s.split_once(c)\<close> and \<^verbatim>\<open>s.split(c)\<close> for a character.\<close>

fun split_once :: "uchar \<Rightarrow> ustr \<Rightarrow> (ustr \<times> ustr) option" where
  "split_once x [] = None"
| "split_once x (c # cs) =
     (if c = x then Some ([], cs) else map_option (\<lambda>(a, b). (c # a, b)) (split_once x cs))"

fun split_char :: "uchar \<Rightarrow> ustr \<Rightarrow> ustr list" where
  "split_char x [] = [[]]"
| "split_char x (c # cs) =
     (if c = x then [] # split_char x cs
      else (case split_char x cs of [] \<Rightarrow> [[c]] | p # ps \<Rightarrow> (c # p) # ps))"

text \<open>
  \<^verbatim>\<open>str::lines\<close>: pieces ended by a line feed, each without its line feed and the
  carriage return before it; a last piece with no line feed is kept as it is, and an
  empty one is not a line.
\<close>

definition strip_cr :: "ustr \<Rightarrow> ustr" where
  "strip_cr l = (if l \<noteq> [] \<and> last l = 13 then butlast l else l)"

fun lines_from :: "ustr \<Rightarrow> ustr \<Rightarrow> ustr list" where
  "lines_from acc [] = (if acc = [] then [] else [acc])"
| "lines_from acc (c # cs) =
     (if c = 10 then strip_cr acc # lines_from [] cs else lines_from (acc @ [c]) cs)"

definition str_lines :: "ustr \<Rightarrow> ustr list" where
  "str_lines s = lines_from [] s"

text \<open>Decimal rendering of an unsigned integer (\<^verbatim>\<open>format!("{}", n)\<close>).\<close>

fun show_nat :: "nat \<Rightarrow> ustr" where
  "show_nat n = (if n < 10 then [48 + n] else show_nat (n div 10) @ [48 + n mod 10])"

declare show_nat.simps [simp del]

text \<open>\<^verbatim>\<open>[T]::join\<close>.\<close>

fun join :: "ustr \<Rightarrow> ustr list \<Rightarrow> ustr" where
  "join sep [] = []"
| "join sep [s] = s"
| "join sep (s # t # ss) = s @ sep @ join sep (t # ss)"

text \<open>The value of a run of digits, and \<^verbatim>\<open>str::parse::<u32>\<close>.\<close>

definition digits_value :: "ustr \<Rightarrow> nat" where
  "digits_value s = foldl (\<lambda>n c. 10 * n + (c - 48)) 0 s"

definition parse_u32 :: "ustr \<Rightarrow> nat option" where
  "parse_u32 s =
     (let ds = (case s of c # cs \<Rightarrow> if c = asc CHR ''+'' then cs else s | [] \<Rightarrow> [])
      in if ds \<noteq> [] \<and> list_all is_ascii_digit ds \<and> digits_value ds < 2 ^ 32
         then Some (digits_value ds) else None)"

section \<open>Lemmas\<close>

lemma utf8_len_pos [simp, intro]: "0 < utf8_len c"
  by (simp add: utf8_len_def)

lemma utf8_len_ascii [simp]: "c < 128 \<Longrightarrow> utf8_len c = 1"
  by (simp add: utf8_len_def)

lemma blen_append [simp]: "blen (s @ t) = blen s + blen t"
  by (induction s) auto

lemma blen_eq_0_iff [simp]: "blen s = 0 \<longleftrightarrow> s = []"
  by (cases s) auto

lemma length_le_blen: "length s \<le> blen s"
proof (induction s)
  case (Cons c s)
  then have "Suc (length s) \<le> utf8_len c + blen s" using utf8_len_pos [of c] by linarith
  then show ?case by simp
qed simp

lemma take_bytes_code [code]:
  "take_bytes n s =
     (if n = 0 then Some []
      else (case s of [] \<Rightarrow> None
            | c # cs \<Rightarrow> if utf8_len c \<le> n then map_option ((#) c) (take_bytes (n - utf8_len c) cs) else None))"
  by (cases n; cases s) auto

lemma drop_bytes_code [code]:
  "drop_bytes n s =
     (if n = 0 then Some s
      else (case s of [] \<Rightarrow> None
            | c # cs \<Rightarrow> if utf8_len c \<le> n then drop_bytes (n - utf8_len c) cs else None))"
  by (cases n; cases s) auto

lemma blen_ascii: "\<forall>c \<in> set s. c < 128 \<Longrightarrow> blen s = length s"
  by (induction s) auto

lemma take_bytes_blen [simp]: "take_bytes (blen s) (s @ t) = Some s"
proof (induction s)
  case (Cons c s)
  obtain k where k: "utf8_len c + blen s = Suc k"
    using utf8_len_pos [of c] by (cases "utf8_len c + blen s") auto
  then have le: "utf8_len c \<le> Suc k" by simp
  from k have "Suc k - utf8_len c = blen s" by simp
  with Cons le k show ?case by simp
qed simp

lemma drop_bytes_blen [simp]: "drop_bytes (blen s) (s @ t) = Some t"
proof (induction s)
  case (Cons c s)
  obtain k where k: "utf8_len c + blen s = Suc k"
    using utf8_len_pos [of c] by (cases "utf8_len c + blen s") auto
  then have le: "utf8_len c \<le> Suc k" by simp
  from k have "Suc k - utf8_len c = blen s" by simp
  with Cons le k show ?case by simp
qed simp

lemma take_bytes_all [simp]: "take_bytes (blen s) s = Some s"
  using take_bytes_blen [of s "[]"] by simp

lemma drop_bytes_SomeD: "drop_bytes n s = Some t \<Longrightarrow> \<exists>p. s = p @ t \<and> blen p = n"
proof (induction n s rule: drop_bytes.induct)
  case (3 n c cs)
  then have le: "utf8_len c \<le> Suc n" and d: "drop_bytes (Suc n - utf8_len c) cs = Some t"
    by (auto split: if_splits)
  from "3.IH" [OF le d] obtain p where "cs = p @ t" "blen p = Suc n - utf8_len c" by blast
  with le have "c # cs = (c # p) @ t \<and> blen (c # p) = Suc n" by simp
  then show ?case by blast
qed auto

lemma take_bytes_SomeD: "take_bytes n s = Some t \<Longrightarrow> \<exists>r. s = t @ r \<and> blen t = n"
proof (induction n s arbitrary: t rule: take_bytes.induct)
  case (3 n c cs)
  then obtain t' where le: "utf8_len c \<le> Suc n"
    and d: "take_bytes (Suc n - utf8_len c) cs = Some t'" and t: "t = c # t'"
    by (auto split: if_splits)
  from "3.IH" [OF le d] obtain r where "cs = t' @ r" "blen t' = Suc n - utf8_len c" by blast
  with le t show ?case by simp
qed auto

lemma byte_slice_middle: "byte_slice (p @ m @ q) (blen p) (blen p + blen m) = Some m"
  by (simp add: byte_slice_def)

lemma byte_slice_SomeD:
  "byte_slice s a b = Some m \<Longrightarrow> \<exists>p q. s = p @ m @ q \<and> blen p = a \<and> a + blen m = b"
  by (auto simp: byte_slice_def Option.bind_eq_Some_conv split: if_splits
      dest!: drop_bytes_SomeD take_bytes_SomeD)

subsection \<open>ASCII case\<close>

lemma ascii_lower_idem [simp]: "ascii_lower (ascii_lower c) = ascii_lower c"
  by (simp add: ascii_lower_def is_ascii_uppercase_def)

lemma ascii_lower_comp [simp]: "ascii_lower \<circ> ascii_lower = ascii_lower"
  by (rule ext) simp

lemma to_ascii_lowercase_idem:
  "to_ascii_lowercase (to_ascii_lowercase s) = to_ascii_lowercase s"
  by simp

lemma ascii_lower_not_upper: "\<not> is_ascii_uppercase c \<Longrightarrow> ascii_lower c = c"
  by (simp add: ascii_lower_def)

lemma to_ascii_lowercase_id: "\<forall>c \<in> set s. \<not> is_ascii_uppercase c \<Longrightarrow> to_ascii_lowercase s = s"
  by (induction s) (auto simp: ascii_lower_not_upper)

lemma ascii_lower_ascii [simp]: "ascii_lower c < 128 \<longleftrightarrow> c < 128"
  by (auto simp: ascii_lower_def is_ascii_uppercase_def)

lemma utf8_len_ascii_lower [simp]: "utf8_len (ascii_lower c) = utf8_len c"
  by (auto simp: ascii_lower_def is_ascii_uppercase_def)

lemma eq_ignore_ascii_case_refl [simp]: "eq_ignore_ascii_case s s"
  by (simp add: eq_ignore_ascii_case_def)

lemma eq_ignore_ascii_case_sym: "eq_ignore_ascii_case s t \<longleftrightarrow> eq_ignore_ascii_case t s"
  by (auto simp: eq_ignore_ascii_case_def)

subsection \<open>Prefixes, splitting and lines\<close>

lemma strip_prefix_eq_Some: "strip_prefix p s = Some t \<longleftrightarrow> s = p @ t"
  by (induction p s rule: strip_prefix.induct) auto

lemma split_once_SomeD: "split_once x s = Some (a, b) \<Longrightarrow> s = a @ x # b \<and> x \<notin> set a"
  by (induction s arbitrary: a) (auto split: if_splits)

lemma split_once_None_iff: "split_once x s = None \<longleftrightarrow> x \<notin> set s"
  by (induction s) auto

lemma split_once_append: "x \<notin> set a \<Longrightarrow> split_once x (a @ x # b) = Some (a, b)"
  by (induction a) auto

lemma split_char_not_Nil [simp]: "split_char x s \<noteq> []"
  by (induction s) (auto split: list.splits)

lemma split_char_none: "x \<notin> set l \<Longrightarrow> split_char x l = [l]"
  by (induction l) auto

lemma split_char_append: "split_char x (a @ x # b) = split_char x a @ split_char x b"
  by (induction a) (auto split: list.splits)

lemma split_char_inj: "split_char x a = split_char x b \<Longrightarrow> a = b"
proof (induction a arbitrary: b)
  case Nil
  then show ?case by (cases b) (auto split: if_splits list.splits simp: split_char_not_Nil [symmetric])
next
  case (Cons c a)
  then show ?case
    by (cases b) (auto split: if_splits list.splits simp: split_char_not_Nil [symmetric])
qed

lemma split_char_pieces: "p \<in> set (split_char x s) \<Longrightarrow> x \<notin> set p"
  by (induction s arbitrary: p) (auto split: if_splits list.splits)

lemma join_append: "xs \<noteq> [] \<Longrightarrow> ys \<noteq> [] \<Longrightarrow> join sep (xs @ ys) = join sep xs @ sep @ join sep ys"
proof (induction sep xs rule: join.induct)
  case (2 sep s)
  then show ?case by (cases ys) auto
qed auto

lemma join_split_char [simp]: "join [x] (split_char x s) = s"
proof (induction s)
  case (Cons c s)
  obtain p ps where "split_char x s = p # ps" by (cases "split_char x s") auto
  with Cons show ?case by (cases ps) auto
qed simp

lemma trim_start_suffix: "suffix (trim_start s) s"
  by (metis suffix_dropWhile trim_start_def)

end
