(* ===== verification/String_Table.thy ===== *)
theory String_Table
  imports Prelude
begin

text \<open>
  The sharded string interner, \<^verbatim>\<open>engine/crates/string_table/src/string_table.rs\<close>.

  A table owns 64 shards (the permanent storage) and a slab of overlay slots.  An
  \<^verbatim>\<open>Arc<OverlayRegion>\<close> is an address of the heap \<open>regions\<close>; the heap holds exactly the
  live regions, a handle or guard is the address it owns, and a \<^verbatim>\<open>Weak\<close> upgrades when its
  address is still in the heap.  Dropping the last owner is \<open>drop_region\<close>.  Every
  operation is atomic here; the locks are not modelled.  The hash function (\<^verbatim>\<open>FxHasher\<close>,
  a crate outside the repository) and the Unicode tables behind \<^verbatim>\<open>str::to_lowercase\<close> are
  the parameter \<open>text_env\<close>.  A failed \<^verbatim>\<open>assert!\<close> of \<^verbatim>\<open>Shard::push\<close> (a panic) is \<open>None\<close>.

  The lemmas give the identifier layout, the table invariant and its preservation, that
  interned ids resolve, stay resolved and are canonical, and that the ids of a dead
  overlay region do not resolve.
\<close>

section \<open>Parameters\<close>

record text_env =
  env_lowercase :: "ustr \<Rightarrow> ustr"       \<comment> \<open>\<^verbatim>\<open>str::to_lowercase\<close>\<close>
  env_hash :: "nat list \<Rightarrow> u64"          \<comment> \<open>\<^verbatim>\<open>FxHasher\<close>: the digest of the bytes written\<close>
  env_alphanumeric :: "uchar \<Rightarrow> bool"     \<comment> \<open>\<^verbatim>\<open>char::is_alphanumeric\<close> beyond ASCII\<close>

text \<open>
  What the interner relies on of \<^verbatim>\<open>str::to_lowercase\<close>: on ASCII text it is the ASCII
  mapping, a lowercase text is its own lowercase form, and no text lowers to the empty one.
\<close>

definition lowercase_ok :: "text_env \<Rightarrow> bool" where
  "lowercase_ok E \<longleftrightarrow>
     (\<forall>s. list_all is_ascii s \<longrightarrow> env_lowercase E s = to_ascii_lowercase s)
     \<and> (\<forall>s. env_lowercase E (env_lowercase E s) = env_lowercase E s)
     \<and> (\<forall>s. env_lowercase E s = [] \<longleftrightarrow> s = [])"

section \<open>Constants and identifiers\<close>

definition SHARD_BITS :: nat where "SHARD_BITS = 6"
definition SHARD_COUNT :: nat where "SHARD_COUNT = 2 ^ SHARD_BITS"
definition SLOT_BITS :: nat where "SLOT_BITS = 32 - SHARD_BITS"
definition SLOT_MASK :: u32 where "SLOT_MASK = push_bit SLOT_BITS 1 - 1"
definition OVERLAY_BIT :: u32 where "OVERLAY_BIT = push_bit (SLOT_BITS - 1) 1"
definition OVERLAY_GEN_SHIFT :: nat where "OVERLAY_GEN_SHIFT = SLOT_BITS"
definition OVERLAY_GEN_MASK :: u32 where "OVERLAY_GEN_MASK = push_bit (32 - SLOT_BITS) 1 - 1"
definition OVERLAY_REGION_BITS :: nat where "OVERLAY_REGION_BITS = 8"
definition OVERLAY_INDEX_BITS :: nat where
  "OVERLAY_INDEX_BITS = SLOT_BITS - 1 - OVERLAY_REGION_BITS"
definition OVERLAY_INDEX_MASK :: u32 where "OVERLAY_INDEX_MASK = push_bit OVERLAY_INDEX_BITS 1 - 1"
definition OVERLAY_REGION_MASK :: u32 where
  "OVERLAY_REGION_MASK = push_bit OVERLAY_REGION_BITS 1 - 1"
definition MAX_OVERLAY_REGIONS :: nat where "MAX_OVERLAY_REGIONS = 2 ^ OVERLAY_REGION_BITS"
definition MAX_OVERLAY_ENTRIES :: nat where "MAX_OVERLAY_ENTRIES = 2 ^ OVERLAY_INDEX_BITS"

lemmas const_defs = SHARD_BITS_def SHARD_COUNT_def SLOT_BITS_def SLOT_MASK_def
  OVERLAY_BIT_def OVERLAY_GEN_SHIFT_def OVERLAY_GEN_MASK_def OVERLAY_REGION_BITS_def
  OVERLAY_INDEX_BITS_def OVERLAY_INDEX_MASK_def OVERLAY_REGION_MASK_def
  MAX_OVERLAY_REGIONS_def MAX_OVERLAY_ENTRIES_def

datatype string_id = StringId (id_word: u32)

record string_tokens =
  tok_lower :: string_id
  tok_normal :: string_id

definition EMPTY_TOKENS :: string_tokens where
  "EMPTY_TOKENS = \<lparr>tok_lower = StringId 0, tok_normal = StringId 0\<rparr>"

unbundle bit_operations_syntax

definition is_overlay :: "string_id \<Rightarrow> bool" where
  "is_overlay i \<longleftrightarrow> id_word i AND OVERLAY_BIT \<noteq> 0"

definition split_overlay_id :: "string_id \<Rightarrow> u32 \<times> u32 \<times> nat" where
  "split_overlay_id i =
     (drop_bit OVERLAY_GEN_SHIFT (id_word i) AND OVERLAY_GEN_MASK,
      drop_bit OVERLAY_INDEX_BITS (id_word i) AND OVERLAY_REGION_MASK,
      unat (id_word i AND OVERLAY_INDEX_MASK))"

definition split_id :: "string_id \<Rightarrow> nat \<times> nat" where
  "split_id i = (unat (drop_bit SLOT_BITS (id_word i)), unat (id_word i AND SLOT_MASK))"

definition shard_of :: "text_env \<Rightarrow> ustr \<Rightarrow> nat" where
  "shard_of E s =
     unat (drop_bit (64 - SHARD_BITS)
       (env_hash E
         (if list_all is_ascii s then map ascii_lower (utf8_bytes s)
          else utf8_bytes (env_lowercase E s))))"

text \<open>\<^verbatim>\<open>lowered\<close>: the lowercase spelling, \<open>None\<close> when the text is already lowercase.\<close>

definition lowered :: "text_env \<Rightarrow> ustr \<Rightarrow> ustr option" where
  "lowered E s =
     (if list_all (\<lambda>c. is_ascii c \<and> \<not> is_ascii_uppercase c) s then None
      else let lower = env_lowercase E s in if lower \<noteq> s then Some lower else None)"

section \<open>Shards\<close>

record shard =
  exact_map :: "(ustr \<times> string_tokens) list"
  id_to_string :: "ustr list"

definition Shard_new :: shard where
  "Shard_new = \<lparr>exact_map = [], id_to_string = [[]]\<rparr>"

definition shard_id :: "nat \<Rightarrow> u32 \<Rightarrow> string_id" where
  "shard_id idx slot = StringId (push_bit SLOT_BITS (of_nat idx) OR slot)"

definition Shard_push :: "shard \<Rightarrow> nat \<Rightarrow> ustr \<Rightarrow> (string_id \<times> shard) option" where
  "Shard_push sh idx text =
     (let slot = of_nat (length (id_to_string sh)) :: u32 in
      if slot < OVERLAY_BIT
      then Some (shard_id idx slot, sh\<lparr>id_to_string := id_to_string sh @ [text]\<rparr>)
      else None)"

definition intern_locked :: "text_env \<Rightarrow> shard \<Rightarrow> nat \<Rightarrow> ustr \<Rightarrow> (string_tokens \<times> shard) option" where
  "intern_locked E sh idx s =
     (case map_of (exact_map sh) s of
        Some existing \<Rightarrow> Some (existing, sh)
      | None \<Rightarrow> do {
          (normal_id, sh1) \<leftarrow> Shard_push sh idx s;
          (lower_id, sh2) \<leftarrow>
            (case lowered E s of
               None \<Rightarrow> Some (normal_id, sh1)
             | Some lower_key \<Rightarrow>
                 (case map_of (exact_map sh1) lower_key of
                    Some known \<Rightarrow> Some (tok_lower known, sh1)
                  | None \<Rightarrow> do {
                      (i, sh') \<leftarrow> Shard_push sh1 idx lower_key;
                      Some (i, sh'\<lparr>exact_map :=
                        AList.update lower_key \<lparr>tok_lower = i, tok_normal = i\<rparr> (exact_map sh')\<rparr>)
                    }));
          let token = \<lparr>tok_lower = lower_id, tok_normal = normal_id\<rparr>;
          Some (token, sh2\<lparr>exact_map := AList.update s token (exact_map sh2)\<rparr>)
        })"

section \<open>Overlay regions\<close>

record region_state =
  ov_region :: u32
  ov_generation :: u32
  ov_exact_map :: "(ustr \<times> string_tokens) list"
  ov_id_to_string :: "ustr list"

definition overlay_id :: "u32 \<Rightarrow> u32 \<Rightarrow> u32 \<Rightarrow> string_id" where
  "overlay_id generation region index =
     StringId (OVERLAY_BIT OR push_bit OVERLAY_GEN_SHIFT generation
       OR push_bit OVERLAY_INDEX_BITS region OR index)"

definition OverlayRegion_push :: "region_state \<Rightarrow> ustr \<Rightarrow> string_id \<times> region_state" where
  "OverlayRegion_push r text =
     (overlay_id (ov_generation r) (ov_region r) (of_nat (length (ov_id_to_string r))),
      r\<lparr>ov_id_to_string := ov_id_to_string r @ [text]\<rparr>)"

definition OverlayRegion_intern ::
  "region_state \<Rightarrow> ustr \<Rightarrow> ustr option \<Rightarrow> string_id option \<Rightarrow> (string_tokens \<times> region_state) option"
where
  "OverlayRegion_intern r s lower_key base_lower =
     (case map_of (ov_exact_map r) s of
        Some existing \<Rightarrow> Some (existing, r)
      | None \<Rightarrow>
          (let known_lower =
                 (case base_lower of
                    Some i \<Rightarrow> Some i
                  | None \<Rightarrow> map_option tok_lower
                      (Option.bind lower_key (map_of (ov_exact_map r))));
               needs_lower = (lower_key \<noteq> None \<and> known_lower = None);
               needed = (if needs_lower then 2 else 1)
           in if length (ov_id_to_string r) + needed > MAX_OVERLAY_ENTRIES then None
              else
                (let (normal_id, r1) = OverlayRegion_push r s;
                     (lower_id, r2) =
                       (case (lower_key, known_lower) of
                          (None, _) \<Rightarrow> (normal_id, r1)
                        | (Some _, Some i) \<Rightarrow> (i, r1)
                        | (Some key, None) \<Rightarrow>
                            (let (i, r') = OverlayRegion_push r1 key in
                             (i, r'\<lparr>ov_exact_map := AList.update key
                                   \<lparr>tok_lower = i, tok_normal = i\<rparr> (ov_exact_map r')\<rparr>)));
                     token = \<lparr>tok_lower = lower_id, tok_normal = normal_id\<rparr>
                 in Some (token, r2\<lparr>ov_exact_map := AList.update s token (ov_exact_map r2)\<rparr>))))"

section \<open>The table\<close>

type_synonym region_addr = nat
type_synonym handle = "region_addr option"    \<comment> \<open>the \<^verbatim>\<open>overlay\<close> field of a \<^verbatim>\<open>StringTable\<close>\<close>

record overlay_slot =
  slot_generation :: u32
  slot_region :: "region_addr option"          \<comment> \<open>\<^verbatim>\<open>Weak\<close>; \<open>None\<close> is \<^verbatim>\<open>Weak::new()\<close>\<close>

record string_table =
  shards :: "shard list"
  overlays :: "overlay_slot list"
  regions :: "region_addr \<Rightarrow> region_state option"   \<comment> \<open>the live regions\<close>
  next_region :: region_addr                     \<comment> \<open>the next unused address\<close>

definition StringTable_new :: string_table where
  "StringTable_new =
     \<lparr>shards = replicate SHARD_COUNT Shard_new, overlays = [],
      regions = (\<lambda>_. None), next_region = 0\<rparr>"

text \<open>\<^verbatim>\<open>Weak::upgrade\<close>; \<^verbatim>\<open>strong_count() == 0\<close> is \<open>upgrade w T = None\<close>.\<close>

definition upgrade :: "region_addr option \<Rightarrow> string_table \<Rightarrow> region_state option" where
  "upgrade w T = Option.bind w (regions T)"

text \<open>The last owner of a region goes away.\<close>

definition drop_region :: "region_addr \<Rightarrow> string_table \<Rightarrow> string_table" where
  "drop_region a T = T\<lparr>regions := (regions T)(a := None)\<rparr>"

fun position :: "('a \<Rightarrow> bool) \<Rightarrow> 'a list \<Rightarrow> nat option" where
  "position p [] = None"
| "position p (x # xs) = (if p x then Some 0 else map_option Suc (position p xs))"

definition with_overlay :: "string_table \<Rightarrow> handle \<times> string_table" where
  "with_overlay T =
     (let install = (\<lambda>index slab.
            (let a = next_region T;
                 slot = slab ! index;
                 region = \<lparr>ov_region = of_nat index, ov_generation = slot_generation slot,
                           ov_exact_map = [], ov_id_to_string = []\<rparr>
             in (Some a, T\<lparr>overlays := slab[index := slot\<lparr>slot_region := Some a\<rparr>],
                          regions := (regions T)(a \<mapsto> region), next_region := Suc a\<rparr>)))
      in case position (\<lambda>s. upgrade (slot_region s) T = None) (overlays T) of
           Some i \<Rightarrow>
             install i ((overlays T)[i := (overlays T ! i)\<lparr>slot_generation :=
                (slot_generation (overlays T ! i) + 1) AND OVERLAY_GEN_MASK\<rparr>])
         | None \<Rightarrow>
             (if length (overlays T) \<ge> MAX_OVERLAY_REGIONS then (None, T)
              else install (length (overlays T))
                (overlays T @ [\<lparr>slot_generation = 0, slot_region = None\<rparr>])))"

definition overlay_guard :: "handle \<Rightarrow> region_addr option" where
  "overlay_guard h = h"

definition rebound :: "region_addr option \<Rightarrow> handle" where
  "rebound guard = guard"

definition intern :: "text_env \<Rightarrow> handle \<Rightarrow> ustr \<Rightarrow> string_table \<Rightarrow> (string_tokens \<times> string_table) option"
where
  "intern E h s T =
     (if s = [] then Some (EMPTY_TOKENS, T)
      else
        (let idx = shard_of E s; sh = shards T ! idx in
         case map_of (exact_map sh) s of
           Some existing \<Rightarrow> Some (existing, T)
         | None \<Rightarrow>
             (case Option.bind h (\<lambda>a. Option.bind (regions T a) (\<lambda>r.
                     let lower_key = lowered E s;
                         base_lower = Option.bind lower_key
                           (\<lambda>key. map_option tok_lower (map_of (exact_map sh) key))
                     in map_option (\<lambda>(tok, r'). (tok, T\<lparr>regions := (regions T)(a \<mapsto> r')\<rparr>))
                          (OverlayRegion_intern r s lower_key base_lower))) of
                Some res \<Rightarrow> Some res
              | None \<Rightarrow>
                  map_option (\<lambda>(tok, sh'). (tok, T\<lparr>shards := (shards T)[idx := sh']\<rparr>))
                    (intern_locked E sh idx s))))"

definition overlay_region :: "handle \<Rightarrow> string_table \<Rightarrow> string_id \<Rightarrow> region_state option" where
  "overlay_region h T i =
     (let (generation, region, _) = split_overlay_id i in
      case Option.bind h (\<lambda>a. case regions T a of
             Some own \<Rightarrow> if ov_region own = region \<and> ov_generation own = generation
                          then Some own else None
           | None \<Rightarrow> None) of
        Some own \<Rightarrow> Some own
      | None \<Rightarrow>
          (if unat region < length (overlays T) then
             (let slot = overlays T ! unat region in
              if slot_generation slot \<noteq> generation then None
              else upgrade (slot_region slot) T)
           else None))"

text \<open>\<^verbatim>\<open>slice::get\<close>.\<close>

definition list_get :: "'a list \<Rightarrow> nat \<Rightarrow> 'a option" where
  "list_get xs i = (if i < length xs then Some (xs ! i) else None)"

definition get_string :: "handle \<Rightarrow> string_table \<Rightarrow> string_id \<Rightarrow> ustr option" where
  "get_string h T i =
     (if is_overlay i then
        Option.bind (overlay_region h T i)
          (\<lambda>region. list_get (ov_id_to_string region) (snd (snd (split_overlay_id i))))
      else
        (let (idx, slot) = split_id i in list_get (id_to_string (shards T ! idx)) slot))"

definition intern_cold ::
  "text_env \<Rightarrow> handle \<Rightarrow> ustr \<Rightarrow> string_table \<Rightarrow> (string_tokens \<times> string_table) option" where
  "intern_cold E h s T =
     (if s = [] then Some (EMPTY_TOKENS, T)
      else if h \<noteq> None then intern E h s T
      else
        (let idx = shard_of E s in
         map_option (\<lambda>(tok, sh'). (tok, T\<lparr>shards := (shards T)[idx := sh']\<rparr>))
           (intern_locked E (shards T ! idx) idx s)))"

fun intern_batch ::
  "text_env \<Rightarrow> handle \<Rightarrow> ustr list \<Rightarrow> string_table \<Rightarrow> (string_tokens list \<times> string_table) option" where
  "intern_batch E h [] T = Some ([], T)"
| "intern_batch E h (s # ss) T = do {
     (tok, T1) \<leftarrow> intern_cold E h s T;
     (toks, T2) \<leftarrow> intern_batch E h ss T1;
     Some (tok # toks, T2)
   }"

definition table_len :: "string_table \<Rightarrow> nat" where
  "table_len T =
     (\<Sum>sh\<leftarrow>shards T. length (filter (\<lambda>(_, t). tok_lower t = tok_normal t) (exact_map sh)))"

definition table_is_empty :: "string_table \<Rightarrow> bool" where
  "table_is_empty T \<longleftrightarrow> table_len T = 0"

record table_stats =
  st_entries :: nat
  st_id_to_string_bytes :: nat
  st_map_key_bytes :: nat
  st_overlay_regions :: nat
  st_overlay_entries :: nat

definition stats :: "string_table \<Rightarrow> table_stats" where
  "stats T =
     (let live = List.map_filter (\<lambda>slot. upgrade (slot_region slot) T) (overlays T) in
      \<lparr>st_entries = (\<Sum>sh\<leftarrow>shards T. length (id_to_string sh)),
       st_id_to_string_bytes = (\<Sum>sh\<leftarrow>shards T. sum_list (map blen (id_to_string sh))),
       st_map_key_bytes = (\<Sum>sh\<leftarrow>shards T. sum_list (map (blen \<circ> fst) (exact_map sh))),
       st_overlay_regions = length live,
       st_overlay_entries = (\<Sum>r\<leftarrow>live. length (ov_id_to_string r))\<rparr>)"

definition total_bytes :: "table_stats \<Rightarrow> nat" where
  "total_bytes st = st_id_to_string_bytes st + st_map_key_bytes st"

text \<open>\<^verbatim>\<open>OverlayGuard::entries\<close>.\<close>

definition guard_entries :: "region_addr \<Rightarrow> string_table \<Rightarrow> nat" where
  "guard_entries a T = (case regions T a of Some r \<Rightarrow> length (ov_id_to_string r) | None \<Rightarrow> 0)"

subsection \<open>The resolver of \<^verbatim>\<open>with_read\<close>\<close>

record resolver =
  res_guards :: "shard list"
  res_overlays :: "(u32 \<times> ustr list) option list"

definition with_read :: "string_table \<Rightarrow> resolver" where
  "with_read T =
     \<lparr>res_guards = shards T,
      res_overlays = map (\<lambda>slot. map_option
          (\<lambda>r. (slot_generation slot, ov_id_to_string r)) (upgrade (slot_region slot) T))
        (overlays T)\<rparr>"

definition resolver_get :: "resolver \<Rightarrow> string_id \<Rightarrow> ustr option" where
  "resolver_get R i =
     (if is_overlay i then
        (let (generation, region, index) = split_overlay_id i in
         case Option.bind (list_get (res_overlays R) (unat region)) id of
           None \<Rightarrow> None
         | Some (live_generation, entries) \<Rightarrow>
             (if live_generation \<noteq> generation then None else list_get entries index))
      else (let (idx, slot) = split_id i in list_get (id_to_string (res_guards R ! idx)) slot))"

section \<open>Identifier layout\<close>

lemma bit_unat_less:
  assumes "bit (w :: u32) n" and "unat w < 2 ^ m"
  shows "n < m"
proof (rule ccontr)
  assume "\<not> n < m"
  then have "(2::nat) ^ m \<le> 2 ^ n" by (simp add: power_increasing)
  with assms(2) have "unat w < 2 ^ n" by linarith
  then have "unat w div 2 ^ n = 0" by (rule div_less)
  then have "\<not> bit (unat w) n" by (simp add: bit_iff_odd)
  with assms(1) show False by (simp add: bit_unsigned_iff bit_imp_le_length)
qed

lemma push_or_low:
  assumes "unat (b :: u32) < 2 ^ k"
  shows "(push_bit k a OR b) AND mask k = b"
proof (rule bit_word_eqI)
  fix n assume "n < LENGTH(32)"
  then show "bit ((push_bit k a OR b) AND mask k) n = bit b n"
    using bit_unat_less [OF _ assms, of n] by (auto simp: bit_simps)
qed

lemma push_or_high:
  assumes "unat (b :: u32) < 2 ^ k" and "unat (a :: u32) < 2 ^ (32 - k)" and "k \<le> 32"
  shows "drop_bit k (push_bit k a OR b) = a"
proof (rule bit_word_eqI)
  fix n assume "n < LENGTH(32)"
  then show "bit (drop_bit k (push_bit k a OR b)) n = bit a n"
    using bit_unat_less [OF _ assms(1), of "k + n"] bit_unat_less [OF _ assms(2), of n] assms(3)
    by (auto simp: bit_simps)
qed

lemma overlay_word:
  fixes gen reg ix :: u32
  assumes "unat gen < 2 ^ 6" and "unat reg < 2 ^ 8" and "unat ix < 2 ^ 17"
  defines "w \<equiv> 2 ^ 25 OR push_bit 26 gen OR push_bit 17 reg OR ix"
  shows "bit w 25" and "drop_bit 26 w AND mask 6 = gen"
    and "drop_bit 17 w AND mask 8 = reg" and "w AND mask 17 = ix"
proof -
  note g = bit_unat_less [OF _ assms(1)]
  note r = bit_unat_less [OF _ assms(2)]
  note i = bit_unat_less [OF _ assms(3)]
  have b: "bit w n \<longleftrightarrow> n = 25 \<or> (26 \<le> n \<and> n < 32 \<and> bit gen (n - 26))
      \<or> (17 \<le> n \<and> n < 32 \<and> bit reg (n - 17)) \<or> bit ix n" for n
    unfolding w_def
    by (simp only: bit_or_iff bit_push_bit_iff bit_exp_iff possible_bit_word) auto
  show "bit w 25" by (simp add: b)
  show "drop_bit 26 w AND mask 6 = gen"
  proof (rule bit_word_eqI)
    fix n assume n: "n < LENGTH(32)"
    show "bit (drop_bit 26 w AND mask 6) n = bit gen n"
      using n g [of n] r [of "n + 9"] i [of "n + 26"]
      by (auto simp: bit_and_iff bit_drop_bit_eq bit_mask_iff b add.commute)
  qed
  show "drop_bit 17 w AND mask 8 = reg"
  proof (rule bit_word_eqI)
    fix n assume n: "n < LENGTH(32)"
    show "bit (drop_bit 17 w AND mask 8) n = bit reg n"
      using n r [of n] i [of "n + 17"]
      by (auto simp: bit_and_iff bit_drop_bit_eq bit_mask_iff b add.commute)
  qed
  show "w AND mask 17 = ix"
  proof (rule bit_word_eqI)
    fix n assume n: "n < LENGTH(32)"
    show "bit (w AND mask 17) n = bit ix n"
      using n i [of n] by (auto simp: bit_and_iff bit_mask_iff b)
  qed
qed

lemma mask_consts:
  "SLOT_MASK = mask 26" "OVERLAY_GEN_MASK = mask 6" "OVERLAY_INDEX_MASK = mask 17"
  "OVERLAY_REGION_MASK = mask 8" "OVERLAY_BIT = 2 ^ 25"
  by (simp_all add: const_defs mask_eq_exp_minus_1)

lemma num_consts:
  "SLOT_BITS = 26" "SHARD_COUNT = 64" "OVERLAY_GEN_SHIFT = 26" "OVERLAY_INDEX_BITS = 17"
  "MAX_OVERLAY_REGIONS = 256" "MAX_OVERLAY_ENTRIES = 131072" "SHARD_BITS = 6"
  by (simp_all add: const_defs)

lemma is_overlay_bit: "is_overlay i \<longleftrightarrow> bit (id_word i) 25"
  unfolding is_overlay_def mask_consts and_exp_eq_0_iff_not_bit by simp

lemma unat_of_nat_u32: "n < 2 ^ 32 \<Longrightarrow> unat (of_nat n :: u32) = n"
  by (simp add: unat_of_nat take_bit_nat_eq_self_iff)

lemma shard_id_layout:
  assumes "idx < 64" and "slot < 2 ^ 25"
  shows "\<not> is_overlay (shard_id idx (of_nat slot))"
    and "split_id (shard_id idx (of_nat slot)) = (idx, slot)"
proof -
  let ?a = "of_nat idx :: u32" and ?b = "of_nat slot :: u32"
  have ua: "unat ?a = idx" and ub: "unat ?b = slot"
    using assms by (simp_all add: unat_of_nat_u32)
  show "\<not> is_overlay (shard_id idx (of_nat slot))"
    using bit_unat_less [of ?b 25 25] assms(2) ub
    by (auto simp: is_overlay_bit shard_id_def num_consts bit_or_iff bit_push_bit_iff)
  have "drop_bit 26 (push_bit 26 ?a OR ?b) = ?a"
    by (rule push_or_high) (use assms ua ub in auto)
  moreover have "(push_bit 26 ?a OR ?b) AND mask 26 = ?b"
    by (rule push_or_low) (use assms ub in auto)
  ultimately show "split_id (shard_id idx (of_nat slot)) = (idx, slot)"
    by (simp add: split_id_def shard_id_def num_consts mask_consts ua ub)
qed

lemma overlay_id_layout:
  assumes "unat gen < 64" and "unat reg < 256" and "index < 2 ^ 17"
  shows "is_overlay (overlay_id gen reg (of_nat index))"
    and "split_overlay_id (overlay_id gen reg (of_nat index)) = (gen, reg, index)"
proof -
  let ?i = "of_nat index :: u32"
  have ui: "unat ?i = index" using assms(3) by (simp add: unat_of_nat_u32)
  have lim: "unat gen < 2 ^ 6" "unat reg < 2 ^ 8" "unat ?i < 2 ^ 17"
    using assms ui by simp_all
  note w = overlay_word [OF lim]
  show "is_overlay (overlay_id gen reg (of_nat index))"
    using w(1) by (simp only: is_overlay_bit overlay_id_def num_consts mask_consts string_id.sel)
  show "split_overlay_id (overlay_id gen reg (of_nat index)) = (gen, reg, index)"
    unfolding split_overlay_id_def overlay_id_def num_consts mask_consts string_id.sel w ui ..
qed

lemma shard_id_inj:
  "idx < 64 \<Longrightarrow> n < 2 ^ 25 \<Longrightarrow> m < 2 ^ 25 \<Longrightarrow>
   shard_id idx (of_nat n) = shard_id idx (of_nat m) \<Longrightarrow> n = m"
  by (metis shard_id_layout(2) prod.inject)

section \<open>Lowercase forms\<close>

lemma utf8_bytes_ascii: "list_all is_ascii s \<Longrightarrow> utf8_bytes s = s"
  by (induction s) (auto simp: utf8_bytes_def utf8_char_def is_ascii_def)

lemma list_all_is_ascii_lower: "list_all is_ascii s \<Longrightarrow> list_all is_ascii (map ascii_lower s)"
  by (simp add: list_all_iff is_ascii_def)

lemma lowered_eq:
  assumes "lowercase_ok E"
  shows "lowered E s = (if env_lowercase E s = s then None else Some (env_lowercase E s))"
proof (cases "list_all (\<lambda>c. is_ascii c \<and> \<not> is_ascii_uppercase c) s")
  case True
  then have "list_all is_ascii s" and "\<forall>c \<in> set s. \<not> is_ascii_uppercase c"
    by (auto simp: list_all_iff)
  with assms have "env_lowercase E s = s"
    by (simp add: lowercase_ok_def to_ascii_lowercase_id)
  with True show ?thesis by (simp add: lowered_def)
qed (simp add: lowered_def Let_def)

lemma shard_of_lowercase:
  assumes E: "lowercase_ok E"
  shows "shard_of E (env_lowercase E s) = shard_of E s"
proof (cases "list_all is_ascii s")
  case True
  with E have "env_lowercase E s = to_ascii_lowercase s" by (simp add: lowercase_ok_def)
  with True show ?thesis
    by (simp add: shard_of_def utf8_bytes_ascii list_all_is_ascii_lower)
next
  case s: False
  show ?thesis
  proof (cases "list_all is_ascii (env_lowercase E s)")
    case True
    with E have "map ascii_lower (env_lowercase E s) = env_lowercase E s"
      unfolding lowercase_ok_def by metis
    with s True show ?thesis by (simp add: shard_of_def utf8_bytes_ascii)
  next
    case False
    with s E show ?thesis by (simp add: shard_of_def lowercase_ok_def)
  qed
qed

lemma shard_of_less: "shard_of E s < 64"
proof -
  have "unat (drop_bit 58 (w :: u64)) < 64" for w
  proof -
    have "unat w < 2 ^ LENGTH(64)" by (rule unsigned_less)
    then have "unat w div 2 ^ 58 < 64" by (simp add: less_mult_imp_div_less)
    then show ?thesis by (simp only: unat_drop_bit_eq drop_bit_nat_def)
  qed
  then show ?thesis by (simp add: shard_of_def num_consts)
qed


section \<open>The table invariant\<close>

text \<open>\<open>i\<close> is the id of an entry of shard \<open>idx\<close> (not its reserved slot 0) that holds \<open>s\<close>.\<close>

definition sid_at :: "nat \<Rightarrow> ustr list \<Rightarrow> string_id \<Rightarrow> ustr \<Rightarrow> bool" where
  "sid_at idx ids i s \<longleftrightarrow>
     (\<exists>n. 0 < n \<and> n < length ids \<and> ids ! n = s \<and> i = shard_id idx (of_nat n))"

definition entry_ok ::
  "text_env \<Rightarrow> nat \<Rightarrow> ustr list \<Rightarrow> (ustr \<times> string_tokens) list \<Rightarrow> ustr \<Rightarrow> string_tokens \<Rightarrow> bool" where
  "entry_ok E idx ids m k t \<longleftrightarrow>
     k \<noteq> [] \<and> shard_of E k = idx \<and> sid_at idx ids (tok_normal t) k
     \<and> sid_at idx ids (tok_lower t) (env_lowercase E k)
     \<and> map_of m (env_lowercase E k) = Some \<lparr>tok_lower = tok_lower t, tok_normal = tok_lower t\<rparr>"

definition shard_ok :: "text_env \<Rightarrow> nat \<Rightarrow> shard \<Rightarrow> bool" where
  "shard_ok E idx sh \<longleftrightarrow>
     id_to_string sh \<noteq> [] \<and> id_to_string sh ! 0 = [] \<and> length (id_to_string sh) \<le> 2 ^ 25
     \<and> distinct (map fst (exact_map sh))
     \<and> (\<forall>k t. map_of (exact_map sh) k = Some t \<longrightarrow>
          entry_ok E idx (id_to_string sh) (exact_map sh) k t)
     \<and> (\<forall>n. 0 < n \<and> n < length (id_to_string sh) \<longrightarrow>
          (\<exists>t. map_of (exact_map sh) (id_to_string sh ! n) = Some t
             \<and> tok_normal t = shard_id idx (of_nat n)))"

definition base_at :: "string_table \<Rightarrow> string_id \<Rightarrow> ustr \<Rightarrow> bool" where
  "base_at T i s \<longleftrightarrow> (\<exists>idx < 64. sid_at idx (id_to_string (shards T ! idx)) i s)"

definition oid_at :: "region_state \<Rightarrow> string_id \<Rightarrow> ustr \<Rightarrow> bool" where
  "oid_at r i s \<longleftrightarrow>
     (\<exists>n. n < length (ov_id_to_string r) \<and> ov_id_to_string r ! n = s
        \<and> i = overlay_id (ov_generation r) (ov_region r) (of_nat n))"

definition region_ok :: "text_env \<Rightarrow> string_table \<Rightarrow> region_state \<Rightarrow> bool" where
  "region_ok E T r \<longleftrightarrow>
     length (ov_id_to_string r) \<le> 2 ^ 17 \<and> distinct (map fst (ov_exact_map r))
     \<and> (\<forall>k t. map_of (ov_exact_map r) k = Some t \<longrightarrow>
          oid_at r (tok_normal t) k
          \<and> (oid_at r (tok_lower t) (env_lowercase E k) \<or> base_at T (tok_lower t) (env_lowercase E k)))"

definition table_ok :: "text_env \<Rightarrow> string_table \<Rightarrow> bool" where
  "table_ok E T \<longleftrightarrow>
     length (shards T) = 64 \<and> (\<forall>i < 64. shard_ok E i (shards T ! i))
     \<and> length (overlays T) \<le> 256
     \<and> (\<forall>i < length (overlays T). unat (slot_generation (overlays T ! i)) < 64)
     \<and> (\<forall>i < length (overlays T). \<forall>a. slot_region (overlays T ! i) = Some a \<longrightarrow> a < next_region T)
     \<and> (\<forall>i < length (overlays T). \<forall>a r. slot_region (overlays T ! i) = Some a
          \<and> regions T a = Some r \<longrightarrow> unat (ov_region r) = i)
     \<and> (\<forall>a r. regions T a = Some r \<longrightarrow>
          a < next_region T \<and> region_ok E T r \<and> unat (ov_region r) < length (overlays T)
          \<and> slot_region (overlays T ! unat (ov_region r)) = Some a
          \<and> slot_generation (overlays T ! unat (ov_region r)) = ov_generation r)"

definition handle_ok :: "handle \<Rightarrow> string_table \<Rightarrow> bool" where
  "handle_ok h T \<longleftrightarrow> (case h of None \<Rightarrow> True | Some a \<Rightarrow> regions T a \<noteq> None)"

subsection \<open>Growing a shard\<close>

lemma sid_at_append [text_simps]: "sid_at idx ids i s \<Longrightarrow> sid_at idx (ids @ zs) i s"
  unfolding sid_at_def by (metis length_append nth_append trans_less_add1)

lemma entry_ok_mono:
  assumes "entry_ok E idx ids m k t"
    and "\<And>k t. map_of m k = Some t \<Longrightarrow> map_of m' k = Some t"
  shows "entry_ok E idx (ids @ zs) m' k t"
  using assms by (auto simp: entry_ok_def sid_at_append)

lemma Shard_push_Some:
  assumes "Shard_push sh idx text = Some (i, sh')" and "length (id_to_string sh) \<le> 2 ^ 25"
  shows "length (id_to_string sh) < 2 ^ 25"
    and "i = shard_id idx (of_nat (length (id_to_string sh)))"
    and "sh' = sh\<lparr>id_to_string := id_to_string sh @ [text]\<rparr>"
proof -
  let ?n = "length (id_to_string sh)"
  have "unat (of_nat ?n :: u32) = ?n" using assms(2) by (simp add: unat_of_nat_u32)
  moreover have "unat OVERLAY_BIT = 2 ^ 25" by (simp add: mask_consts)
  ultimately have "(of_nat ?n :: u32) < OVERLAY_BIT \<longleftrightarrow> ?n < 2 ^ 25"
    by (simp add: word_less_nat_alt)
  with assms(1) show "?n < 2 ^ 25" and "i = shard_id idx (of_nat ?n)"
    and "sh' = sh\<lparr>id_to_string := id_to_string sh @ [text]\<rparr>"
    by (auto simp: Shard_push_def Let_def split: if_splits)
qed

lemma map_of_AList_update: "map_of (AList.update k v m) k' = (if k' = k then Some v else map_of m k')"
  by (simp add: update_conv')

lemma lowercase_idem: "lowercase_ok E \<Longrightarrow> env_lowercase E (env_lowercase E s) = env_lowercase E s"
  by (simp add: lowercase_ok_def)

text \<open>
  The general step: the shard gets the strings \<open>zs\<close> and a map that extends the old one,
  each new entry is well-formed and each new slot has its entry.
\<close>

lemma shard_ok_extend:
  assumes ok: "shard_ok E idx sh"
    and ids: "id_to_string sh' = id_to_string sh @ zs" and len: "length (id_to_string sh') \<le> 2 ^ 25"
    and dist: "distinct (map fst (exact_map sh'))"
    and ext: "\<And>k t. map_of (exact_map sh) k = Some t \<Longrightarrow> map_of (exact_map sh') k = Some t"
    and new: "\<And>k t. map_of (exact_map sh') k = Some t \<Longrightarrow> map_of (exact_map sh) k = None \<Longrightarrow>
        entry_ok E idx (id_to_string sh') (exact_map sh') k t"
    and slots: "\<And>n. n < length zs \<Longrightarrow> \<exists>t. map_of (exact_map sh') (zs ! n) = Some t
        \<and> tok_normal t = shard_id idx (of_nat (length (id_to_string sh) + n))"
  shows "shard_ok E idx sh'"
proof -
  have entries: "entry_ok E idx (id_to_string sh') (exact_map sh') k t"
    if "map_of (exact_map sh') k = Some t" for k t
  proof (cases "map_of (exact_map sh) k")
    case None
    with that show ?thesis by (rule new)
  next
    case (Some u)
    with ext that have "u = t" by fastforce
    with Some ok have "entry_ok E idx (id_to_string sh) (exact_map sh) k t"
      by (simp add: shard_ok_def)
    then show ?thesis unfolding ids using ext by (rule entry_ok_mono)
  qed
  have complete: "\<exists>t. map_of (exact_map sh') (id_to_string sh' ! n) = Some t
      \<and> tok_normal t = shard_id idx (of_nat n)"
    if "0 < n" and "n < length (id_to_string sh')" for n
  proof (cases "n < length (id_to_string sh)")
    case True
    with that ok ext show ?thesis unfolding shard_ok_def ids by (metis nth_append)
  next
    case False
    then show ?thesis using that slots [of "n - length (id_to_string sh)"]
      by (auto simp: ids nth_append)
  qed
  show ?thesis
    unfolding shard_ok_def using ok len dist entries complete ids
    by (auto simp: shard_ok_def nth_append)
qed

lemma sid_at_last: "ids \<noteq> [] \<Longrightarrow> sid_at idx (ids @ s # zs) (shard_id idx (of_nat (length ids))) s"
  unfolding sid_at_def by (rule exI [of _ "length ids"]) simp

lemma intern_locked_cases:
  assumes E: "lowercase_ok E" and ok: "shard_ok E idx sh"
    and r: "intern_locked E sh idx s = Some (tok, sh')"
  obtains
    (known) "map_of (exact_map sh) s = Some tok" and "sh' = sh"
  | (lower) "map_of (exact_map sh) s = None" and "env_lowercase E s = s"
      and "length (id_to_string sh) < 2 ^ 25"
      and "tok = \<lparr>tok_lower = shard_id idx (of_nat (length (id_to_string sh))),
                  tok_normal = shard_id idx (of_nat (length (id_to_string sh)))\<rparr>"
      and "sh' = sh\<lparr>exact_map := AList.update s tok (exact_map sh),
                  id_to_string := id_to_string sh @ [s]\<rparr>"
  | (shared) l where "map_of (exact_map sh) s = None" and "env_lowercase E s \<noteq> s"
      and "map_of (exact_map sh) (env_lowercase E s) = Some l"
      and "length (id_to_string sh) < 2 ^ 25"
      and "tok = \<lparr>tok_lower = tok_lower l,
                  tok_normal = shard_id idx (of_nat (length (id_to_string sh)))\<rparr>"
      and "sh' = sh\<lparr>exact_map := AList.update s tok (exact_map sh),
                  id_to_string := id_to_string sh @ [s]\<rparr>"
  | (both) i where "map_of (exact_map sh) s = None" and "env_lowercase E s \<noteq> s"
      and "map_of (exact_map sh) (env_lowercase E s) = None"
      and "Suc (length (id_to_string sh)) < 2 ^ 25"
      and "i = shard_id idx (of_nat (Suc (length (id_to_string sh))))"
      and "tok = \<lparr>tok_lower = i, tok_normal = shard_id idx (of_nat (length (id_to_string sh)))\<rparr>"
      and "sh' = sh\<lparr>exact_map := AList.update s tok
             (AList.update (env_lowercase E s) \<lparr>tok_lower = i, tok_normal = i\<rparr> (exact_map sh)),
           id_to_string := id_to_string sh @ [s, env_lowercase E s]\<rparr>"
proof -
  have len: "length (id_to_string sh) \<le> 2 ^ 25" using ok by (simp add: shard_ok_def)
  show thesis
  proof (cases "map_of (exact_map sh) s")
    case (Some t)
    with r have "t = tok" and "sh' = sh" by (simp_all add: intern_locked_def)
    with Some show thesis by (intro known) auto
  next
    case None
    from r None obtain i0 sh1 where p1: "Shard_push sh idx s = Some (i0, sh1)"
      by (auto simp: intern_locked_def Option.bind_eq_Some_conv)
    note p1' = Shard_push_Some [OF p1 len]
    show thesis
    proof (cases "env_lowercase E s = s")
      case True
      with r None p1 p1'(3) E have "tok = \<lparr>tok_lower = i0, tok_normal = i0\<rparr>"
        and "sh' = sh\<lparr>exact_map := AList.update s tok (exact_map sh),
                  id_to_string := id_to_string sh @ [s]\<rparr>"
        by (auto simp: intern_locked_def lowered_eq Let_def)
      with None True p1' show thesis by (intro lower) auto
    next
      case False
      then have low: "lowered E s = Some (env_lowercase E s)" using E by (simp add: lowered_eq)
      show thesis
      proof (cases "map_of (exact_map sh) (env_lowercase E s)")
        case (Some l)
        with r None p1 p1'(3) low have "tok = \<lparr>tok_lower = tok_lower l, tok_normal = i0\<rparr>"
          and "sh' = sh\<lparr>exact_map := AList.update s tok (exact_map sh),
                    id_to_string := id_to_string sh @ [s]\<rparr>"
          by (auto simp: intern_locked_def Let_def)
        with None False Some p1' show thesis by (intro shared) auto
      next
        case l: None
        from r None p1 p1'(3) low l obtain i sh2
          where p2: "Shard_push sh1 idx (env_lowercase E s) = Some (i, sh2)"
          by (auto simp: intern_locked_def Option.bind_eq_Some_conv)
        have len1: "length (id_to_string sh1) \<le> 2 ^ 25" using p1'(1,3) by simp
        note p2' = Shard_push_Some [OF p2 len1]
        from r None p1 p1'(3) low l p2 p2'(3)
        have "tok = \<lparr>tok_lower = i, tok_normal = i0\<rparr>"
          and "sh' = sh\<lparr>exact_map := AList.update s tok
             (AList.update (env_lowercase E s) \<lparr>tok_lower = i, tok_normal = i\<rparr> (exact_map sh)),
           id_to_string := id_to_string sh @ [s, env_lowercase E s]\<rparr>"
          by (auto simp: intern_locked_def Let_def)
        with None False l p1' p2' show thesis by (intro both) auto
      qed
    qed
  qed
qed

text \<open>What an insertion into a shard gives: the invariant, the entry, and only growth.\<close>

definition shard_grows :: "shard \<Rightarrow> shard \<Rightarrow> bool" where
  "shard_grows sh sh' \<longleftrightarrow>
     (\<exists>zs. id_to_string sh' = id_to_string sh @ zs \<and> length zs \<le> 2)
     \<and> (\<forall>k t. map_of (exact_map sh) k = Some t \<longrightarrow> map_of (exact_map sh') k = Some t)"

lemma intern_locked_ok:
  assumes E: "lowercase_ok E" and ok: "shard_ok E idx sh"
    and s: "s \<noteq> []" "shard_of E s = idx"
    and r: "intern_locked E sh idx s = Some (tok, sh')"
  shows "shard_ok E idx sh' \<and> map_of (exact_map sh') s = Some tok \<and> shard_grows sh sh'"
proof -
  let ?l = "env_lowercase E s" and ?n = "length (id_to_string sh)"
  have ne: "id_to_string sh \<noteq> []" and dist: "distinct (map fst (exact_map sh))"
    using ok by (simp_all add: shard_ok_def)
  have l: "?l \<noteq> []" "shard_of E ?l = idx" "env_lowercase E ?l = ?l"
    using E s by (simp_all add: lowercase_ok_def shard_of_lowercase)
  note at = sid_at_last [OF ne, of idx]
  from E ok r show ?thesis
  proof (cases rule: intern_locked_cases)
    case known
    then show ?thesis using ok by (auto simp: shard_grows_def intro: exI [of _ "[]"])
  next
    case lower
    have "shard_ok E idx sh'"
    proof (rule shard_ok_extend [OF ok, where zs = "[s]"])
      show "entry_ok E idx (id_to_string sh') (exact_map sh') k t"
        if "map_of (exact_map sh') k = Some t" "map_of (exact_map sh) k = None" for k t
        using that lower s at [of s "[]"]
        by (auto simp: entry_ok_def map_of_AList_update split: if_splits)
    qed (use lower dist in \<open>auto simp: map_of_AList_update distinct_update\<close>)
    with lower show ?thesis by (auto simp: shard_grows_def map_of_AList_update)
  next
    case (shared t)
    from ok shared(3) have t: "entry_ok E idx (id_to_string sh) (exact_map sh) ?l t"
      by (simp add: shard_ok_def)
    have "shard_ok E idx sh'"
    proof (rule shard_ok_extend [OF ok, where zs = "[s]"])
      show "entry_ok E idx (id_to_string sh') (exact_map sh') k u"
        if "map_of (exact_map sh') k = Some u" "map_of (exact_map sh) k = None" for k u
        using that shared(1,2,3,5,6) s t l at [of s "[]"]
        by (auto simp: entry_ok_def map_of_AList_update sid_at_append split: if_splits)
    qed (use shared dist in \<open>auto simp: map_of_AList_update distinct_update\<close>)
    with shared show ?thesis by (auto simp: shard_grows_def map_of_AList_update)
  next
    case (both i)
    have at2: "sid_at idx (id_to_string sh @ [s, ?l]) i ?l"
      using sid_at_last [of "id_to_string sh @ [s]" idx ?l "[]"] both(5) by simp
    have "shard_ok E idx sh'"
    proof (rule shard_ok_extend [OF ok, where zs = "[s, ?l]"])
      show "entry_ok E idx (id_to_string sh') (exact_map sh') k u"
        if "map_of (exact_map sh') k = Some u" "map_of (exact_map sh) k = None" for k u
        using that both(1,2,3,6,7) s l at2 at [of s "[?l]"]
        by (auto simp: entry_ok_def map_of_AList_update split: if_splits)
      show "\<exists>t. map_of (exact_map sh') ([s, ?l] ! n) = Some t
          \<and> tok_normal t = shard_id idx (of_nat (?n + n))" if "n < length [s, ?l]" for n
        using that both(2,5,6,7) by (cases n) (auto simp: map_of_AList_update)
    qed (use both dist in \<open>auto simp: map_of_AList_update distinct_update\<close>)
    with both show ?thesis by (auto simp: shard_grows_def map_of_AList_update)
  qed
qed

subsection \<open>Growing an overlay region\<close>

definition region_grows :: "region_state \<Rightarrow> region_state \<Rightarrow> bool" where
  "region_grows r r' \<longleftrightarrow>
     ov_region r' = ov_region r \<and> ov_generation r' = ov_generation r
     \<and> (\<exists>zs. ov_id_to_string r' = ov_id_to_string r @ zs)
     \<and> (\<forall>k t. map_of (ov_exact_map r) k = Some t \<longrightarrow> map_of (ov_exact_map r') k = Some t)"

lemma region_grows_refl [simp]: "region_grows r r"
  by (simp add: region_grows_def)

lemma oid_at_grows: "oid_at r i s \<Longrightarrow> region_grows r r' \<Longrightarrow> oid_at r' i s"
  unfolding oid_at_def region_grows_def by (metis length_append nth_append trans_less_add1)

lemma region_ok_extend:
  assumes ok: "region_ok E T r" and grows: "region_grows r r'"
    and len: "length (ov_id_to_string r') \<le> 2 ^ 17" and dist: "distinct (map fst (ov_exact_map r'))"
    and new: "\<And>k t. map_of (ov_exact_map r') k = Some t \<Longrightarrow> map_of (ov_exact_map r) k = None \<Longrightarrow>
       oid_at r' (tok_normal t) k
       \<and> (oid_at r' (tok_lower t) (env_lowercase E k) \<or> base_at T (tok_lower t) (env_lowercase E k))"
  shows "region_ok E T r'"
proof -
  have "oid_at r' (tok_normal t) k
      \<and> (oid_at r' (tok_lower t) (env_lowercase E k) \<or> base_at T (tok_lower t) (env_lowercase E k))"
    if "map_of (ov_exact_map r') k = Some t" for k t
  proof (cases "map_of (ov_exact_map r) k")
    case None
    with that show ?thesis by (rule new)
  next
    case (Some u)
    with grows that have "u = t" by (auto simp: region_grows_def)
    with Some ok grows show ?thesis unfolding region_ok_def by (blast intro: oid_at_grows)
  qed
  then show ?thesis using len dist by (simp add: region_ok_def)
qed

lemma oid_at_last: "ov_id_to_string r' = ov_id_to_string r @ s # zs \<Longrightarrow>
    ov_region r' = ov_region r \<Longrightarrow> ov_generation r' = ov_generation r \<Longrightarrow>
    oid_at r' (overlay_id (ov_generation r) (ov_region r) (of_nat (length (ov_id_to_string r)))) s"
  unfolding oid_at_def by (rule exI [of _ "length (ov_id_to_string r)"]) simp

text \<open>One string more, and its entry: the shape of every insertion but the last case.\<close>

lemma region_ok_add:
  fixes r :: region_state
  assumes ok: "region_ok E T r" and None: "map_of (ov_exact_map r) s = None"
    and r1: "r1 = r\<lparr>ov_id_to_string := ov_id_to_string r @ [s],
                    ov_exact_map := AList.update s tok (ov_exact_map r)\<rparr>"
    and len: "Suc (length (ov_id_to_string r)) \<le> 2 ^ 17"
    and tok: "tok_normal tok = overlay_id (ov_generation r) (ov_region r)
                (of_nat (length (ov_id_to_string r)))"
    and low: "oid_at r1 (tok_lower tok) (env_lowercase E s)
                \<or> base_at T (tok_lower tok) (env_lowercase E s)"
  shows "region_ok E T r1 \<and> map_of (ov_exact_map r1) s = Some tok \<and> region_grows r r1"
proof -
  have dist: "distinct (map fst (ov_exact_map r))" using ok by (simp add: region_ok_def)
  have g: "region_grows r r1" using None by (auto simp: r1 region_grows_def map_of_AList_update)
  have at: "oid_at r1 (tok_normal tok) s"
    unfolding tok by (rule oid_at_last [where zs = "[]"]) (simp_all add: r1)
  have "region_ok E T r1"
  proof (rule region_ok_extend [OF ok g])
    fix k t assume "map_of (ov_exact_map r1) k = Some t" "map_of (ov_exact_map r) k = None"
    then have "k = s" "t = tok" by (auto simp: r1 map_of_AList_update split: if_splits)
    with at low show "oid_at r1 (tok_normal t) k
        \<and> (oid_at r1 (tok_lower t) (env_lowercase E k) \<or> base_at T (tok_lower t) (env_lowercase E k))"
      by simp
  qed (use len dist in \<open>auto simp: r1 distinct_update\<close>)
  with g show ?thesis by (simp add: r1 map_of_AList_update)
qed

lemma region_ok_add_both:
  fixes r :: region_state
  assumes E: "lowercase_ok E" and ok: "region_ok E T r"
    and None: "map_of (ov_exact_map r) s = None" "map_of (ov_exact_map r) (env_lowercase E s) = None"
    and len: "Suc (Suc (length (ov_id_to_string r))) \<le> 2 ^ 17"
    and i: "i = overlay_id (ov_generation r) (ov_region r) (of_nat (length (ov_id_to_string r)))"
    and j: "j = overlay_id (ov_generation r) (ov_region r) (of_nat (Suc (length (ov_id_to_string r))))"
    and tok: "tok = \<lparr>tok_lower = j, tok_normal = i\<rparr>"
    and r': "r' = r\<lparr>ov_id_to_string := ov_id_to_string r @ [s, env_lowercase E s], ov_exact_map :=
        AList.update s tok (AList.update (env_lowercase E s) \<lparr>tok_lower = j, tok_normal = j\<rparr>
          (ov_exact_map r))\<rparr>"
  shows "region_ok E T r' \<and> map_of (ov_exact_map r') s = Some tok \<and> region_grows r r'"
proof -
  have dist: "distinct (map fst (ov_exact_map r))" using ok by (simp add: region_ok_def)
  have g: "region_grows r r'" using None by (auto simp: r' region_grows_def map_of_AList_update)
  have at: "oid_at r' i s"
    unfolding i by (rule oid_at_last [where zs = "[env_lowercase E s]"]) (simp_all add: r')
  have at2: "oid_at r' j (env_lowercase E s)"
    unfolding oid_at_def j
    by (rule exI [of _ "Suc (length (ov_id_to_string r))"]) (simp add: r' nth_append)
  have "region_ok E T r'"
  proof (rule region_ok_extend [OF ok g])
    fix k u assume "map_of (ov_exact_map r') k = Some u" "map_of (ov_exact_map r) k = None"
    then have "k = s \<and> u = tok \<or> k = env_lowercase E s \<and> u = \<lparr>tok_lower = j, tok_normal = j\<rparr>"
      by (auto simp: r' map_of_AList_update split: if_splits)
    with at at2 tok E show "oid_at r' (tok_normal u) k
        \<and> (oid_at r' (tok_lower u) (env_lowercase E k) \<or> base_at T (tok_lower u) (env_lowercase E k))"
      by (auto simp: lowercase_idem)
  qed (use len dist in \<open>auto simp: r' distinct_update\<close>)
  with g show ?thesis by (simp add: r' map_of_AList_update)
qed

lemmas OverlayRegion_intern_simps =
  OverlayRegion_intern_def OverlayRegion_push_def num_consts Let_def

lemma OverlayRegion_intern_ok:
  assumes E: "lowercase_ok E" and ok: "region_ok E T r"
    and base: "\<And>i. base_lower = Some i \<Longrightarrow> base_at T i (env_lowercase E s)"
    and r: "OverlayRegion_intern r s (lowered E s) base_lower = Some (tok, r')"
  shows "region_ok E T r' \<and> map_of (ov_exact_map r') s = Some tok \<and> region_grows r r'"
proof (cases "map_of (ov_exact_map r) s")
  case (Some t)
  with r ok show ?thesis by (simp add: OverlayRegion_intern_def)
next
  case None
  let ?l = "env_lowercase E s"
  define known where "known = (case base_lower of Some i \<Rightarrow> Some i
      | None \<Rightarrow> map_option tok_lower (map_of (ov_exact_map r) ?l))"
  consider (lower) "?l = s" | (known) i where "?l \<noteq> s" "known = Some i" | (both) "?l \<noteq> s" "known = None"
    by fastforce
  then show ?thesis
  proof cases
    case lower
    then have "lowered E s = None" using E by (simp add: lowered_eq)
    with r None show ?thesis
      by (intro region_ok_add [OF ok None])
        (auto simp: OverlayRegion_intern_simps lower split: if_splits option.splits
          intro!: oid_at_last [where zs = "[]"])
  next
    case (known i)
    have low: "lowered E s = Some ?l" using E known by (simp add: lowered_eq)
    have "oid_at r i ?l \<or> base_at T i ?l"
    proof (cases base_lower)
      case None
      with known obtain u where u: "map_of (ov_exact_map r) ?l = Some u" "i = tok_lower u"
        by (auto simp: known_def)
      with ok E show ?thesis unfolding region_ok_def by (metis lowercase_idem)
    qed (use known base in \<open>simp add: known_def\<close>)
    moreover have "region_grows r r'"
      using r None low known
      by (auto simp: OverlayRegion_intern_simps known_def region_grows_def map_of_AList_update
          split: if_splits option.splits)
    ultimately have "oid_at r' i ?l \<or> base_at T i ?l" by (blast intro: oid_at_grows)
    with r None low known show ?thesis
      by (intro region_ok_add [OF ok None])
        (auto simp: OverlayRegion_intern_simps known_def split: if_splits option.splits)
  next
    case both
    have low: "lowered E s = Some ?l" using E both by (simp add: lowered_eq)
    from both have "map_of (ov_exact_map r) ?l = None"
      by (auto simp: known_def split: option.splits)
    with r None low both show ?thesis
      by (intro region_ok_add_both [OF E ok None _ _ refl refl])
        (auto simp: OverlayRegion_intern_simps known_def split: if_splits option.splits)
  qed
qed

subsection \<open>Resolving an id of a well-formed table\<close>

lemma base_at_get:
  assumes "table_ok E T" and "base_at T i s"
  shows "get_string h T i = Some s" and "\<not> is_overlay i"
proof -
  from assms(2) obtain idx n where n: "idx < 64" "0 < n" "n < length (id_to_string (shards T ! idx))"
    "id_to_string (shards T ! idx) ! n = s" "i = shard_id idx (of_nat n)"
    by (auto simp: base_at_def sid_at_def)
  with assms(1) have "n < 2 ^ 25" by (fastforce simp: table_ok_def shard_ok_def)
  with n(1) have "\<not> is_overlay i" "split_id i = (idx, n)"
    unfolding n(5) by (simp_all only: shard_id_layout) simp_all
  with n show "get_string h T i = Some s" and "\<not> is_overlay i"
    by (simp_all add: get_string_def list_get_def)
qed

lemma overlay_region_live:
  assumes T: "table_ok E T" and r: "regions T a = Some r" and n: "n < 2 ^ 17"
  shows "overlay_region h T (overlay_id (ov_generation r) (ov_region r) (of_nat n)) = Some r"
proof -
  let ?slot = "overlays T ! unat (ov_region r)"
  from T r have slot: "unat (ov_region r) < length (overlays T)" "slot_region ?slot = Some a"
    "slot_generation ?slot = ov_generation r" "length (overlays T) \<le> 256"
    unfolding table_ok_def by blast+
  moreover have "\<forall>i < length (overlays T). unat (slot_generation (overlays T ! i)) < 64"
    using T unfolding table_ok_def by blast
  ultimately have "unat (ov_generation r) < 64" "unat (ov_region r) < 256"
    by fastforce+
  note split = overlay_id_layout(2) [OF this n]
  have own: "own = r" if "regions T b = Some own" "ov_region own = ov_region r" for b own
  proof -
    from T that have "slot_region (overlays T ! unat (ov_region own)) = Some b"
      unfolding table_ok_def by blast
    with that slot(2) r show ?thesis by simp
  qed
  show ?thesis
  proof (cases "Option.bind h (\<lambda>b. case regions T b of
             Some own \<Rightarrow> if ov_region own = ov_region r \<and> ov_generation own = ov_generation r
                          then Some own else None
           | None \<Rightarrow> None)")
    case None
    then show ?thesis using slot r by (simp add: overlay_region_def split upgrade_def)
  next
    case (Some x)
    then have "x = r" using own by (auto simp: Option.bind_eq_Some_conv split: option.splits if_splits)
    with Some show ?thesis by (simp add: overlay_region_def split)
  qed
qed

lemma region_limits:
  assumes T: "table_ok E T" and r: "regions T a = Some r"
  shows "unat (ov_generation r) < 64" and "unat (ov_region r) < 256"
    and "length (ov_id_to_string r) \<le> 2 ^ 17" and "region_ok E T r"
proof -
  from T r have *: "unat (ov_region r) < length (overlays T)"
      "slot_generation (overlays T ! unat (ov_region r)) = ov_generation r" "region_ok E T r"
    unfolding table_ok_def by blast+
  moreover have "length (overlays T) \<le> 256"
    "\<forall>i < length (overlays T). unat (slot_generation (overlays T ! i)) < 64"
    using T unfolding table_ok_def by blast+
  ultimately show "unat (ov_generation r) < 64" and "unat (ov_region r) < 256"
    by fastforce+
  show "region_ok E T r" by (rule *(3))
  then show "length (ov_id_to_string r) \<le> 2 ^ 17" by (simp add: region_ok_def)
qed

lemma oid_at_get:
  assumes T: "table_ok E T" and r: "regions T a = Some r" and i: "oid_at r i s"
  shows "get_string h T i = Some s" and "is_overlay i"
proof -
  note lim = region_limits [OF T r]
  from i obtain n where n: "n < length (ov_id_to_string r)" "ov_id_to_string r ! n = s"
    "i = overlay_id (ov_generation r) (ov_region r) (of_nat n)"
    by (auto simp: oid_at_def)
  with lim(3) have "n < 2 ^ 17" by linarith
  with n(3) show "is_overlay i" and "get_string h T i = Some s"
    using overlay_id_layout [OF lim(1,2)] overlay_region_live [OF T r] n
    by (simp_all add: get_string_def list_get_def)
qed

subsection \<open>Interning keeps the invariant\<close>

text \<open>What one table operation may do to another observer: nothing resolved is lost.\<close>

definition table_grows :: "string_table \<Rightarrow> string_table \<Rightarrow> bool" where
  "table_grows T T' \<longleftrightarrow>
     (\<forall>i < 64. \<exists>zs. id_to_string (shards T' ! i) = id_to_string (shards T ! i) @ zs)
     \<and> (\<forall>i < 64. \<forall>k t. map_of (exact_map (shards T ! i)) k = Some t \<longrightarrow>
           map_of (exact_map (shards T' ! i)) k = Some t)
     \<and> overlays T' = overlays T \<and> dom (regions T') = dom (regions T)
     \<and> (\<forall>a r. regions T a = Some r \<longrightarrow> (\<exists>r'. regions T' a = Some r' \<and> region_grows r r'))"

lemma table_grows_refl [simp]: "table_grows T T"
  by (simp add: table_grows_def)

lemma base_at_grows: "base_at T i s \<Longrightarrow> table_grows T T' \<Longrightarrow> base_at T' i s"
  unfolding base_at_def table_grows_def by (metis sid_at_append)

lemma region_ok_table_grows: "region_ok E T r \<Longrightarrow> table_grows T T' \<Longrightarrow> region_ok E T' r"
  unfolding region_ok_def by (blast intro: base_at_grows)

lemma table_ok_shard:
  assumes T: "table_ok E T" and idx: "idx < 64"
    and sh: "shard_ok E idx sh'" "shard_grows (shards T ! idx) sh'"
  defines "T' \<equiv> T\<lparr>shards := (shards T)[idx := sh']\<rparr>"
  shows "table_ok E T' \<and> table_grows T T'"
proof -
  have len: "length (shards T) = 64" using T by (simp add: table_ok_def)
  have g: "table_grows T T'"
    using sh(2) len idx by (auto simp: table_grows_def T'_def shard_grows_def nth_list_update)
  have "table_ok E T'"
    using T sh(1) len idx region_ok_table_grows [OF _ g, of E]
    by (auto simp: table_ok_def T'_def nth_list_update)
  with g show ?thesis by simp
qed

lemma table_ok_region:
  assumes T: "table_ok E T" and r: "regions T a = Some r"
    and r': "region_ok E T r'" "region_grows r r'"
  defines "T' \<equiv> T\<lparr>regions := (regions T)(a \<mapsto> r')\<rparr>"
  shows "table_ok E T' \<and> table_grows T T'"
proof -
  have g: "table_grows T T'" using r r'(2) by (auto simp: table_grows_def T'_def)
  have gr: "ov_region r' = ov_region r" "ov_generation r' = ov_generation r"
    using r'(2) by (simp_all add: region_grows_def)
  from T have shards: "length (shards T') = 64" "\<forall>i < 64. shard_ok E i (shards T' ! i)"
    and slab: "length (overlays T') \<le> 256"
      "\<forall>i < length (overlays T'). unat (slot_generation (overlays T' ! i)) < 64"
      "\<forall>i < length (overlays T'). \<forall>a. slot_region (overlays T' ! i) = Some a \<longrightarrow> a < next_region T'"
    by (simp_all add: table_ok_def T'_def)
  have weak: "unat (ov_region x) = i"
    if "i < length (overlays T')" "slot_region (overlays T' ! i) = Some b" "regions T' b = Some x" for i b x
  proof -
    note b = that(3)
    obtain y where "regions T b = Some y" "ov_region y = ov_region x"
      using b gr(1) r by (cases "b = a") (auto simp: T'_def)
    with that T show ?thesis unfolding table_ok_def T'_def by simp metis
  qed
  have live: "b < next_region T' \<and> region_ok E T' x \<and> unat (ov_region x) < length (overlays T')
      \<and> slot_region (overlays T' ! unat (ov_region x)) = Some b
      \<and> slot_generation (overlays T' ! unat (ov_region x)) = ov_generation x"
    if "regions T' b = Some x" for b x
  proof -
    note b = that
    obtain y where y: "regions T b = Some y" "ov_region y = ov_region x"
      "ov_generation y = ov_generation x"
      using b gr r by (cases "b = a") (auto simp: T'_def)
    have "region_ok E T x"
      using that r'(1) region_limits(4) [OF T] by (auto simp: T'_def split: if_splits)
    then have "region_ok E T' x" by (rule region_ok_table_grows [OF _ g])
    moreover have "b < next_region T \<and> unat (ov_region y) < length (overlays T)
      \<and> slot_region (overlays T ! unat (ov_region y)) = Some b
      \<and> slot_generation (overlays T ! unat (ov_region y)) = ov_generation y"
      using T y(1) unfolding table_ok_def by blast
    ultimately show ?thesis using y by (simp add: T'_def)
  qed
  from shards slab weak live have "table_ok E T'" unfolding table_ok_def by blast
  with g show ?thesis by simp
qed

text \<open>The entry an insertion leaves behind, wherever it lands.\<close>

definition interned :: "text_env \<Rightarrow> handle \<Rightarrow> string_table \<Rightarrow> ustr \<Rightarrow> string_tokens \<Rightarrow> bool" where
  "interned E h T s tok \<longleftrightarrow>
     map_of (exact_map (shards T ! shard_of E s)) s = Some tok
     \<or> map_of (exact_map (shards T ! shard_of E s)) s = None
       \<and> (\<exists>a r. h = Some a \<and> regions T a = Some r \<and> map_of (ov_exact_map r) s = Some tok)"

lemma base_lower_ok:
  assumes E: "lowercase_ok E" and T: "table_ok E T"
    and i: "Option.bind (lowered E s)
        (\<lambda>key. map_option tok_lower (map_of (exact_map (shards T ! shard_of E s)) key)) = Some i"
  shows "base_at T i (env_lowercase E s)"
proof -
  from i E obtain t where t: "map_of (exact_map (shards T ! shard_of E s)) (env_lowercase E s) = Some t"
    "i = tok_lower t"
    by (auto simp: Option.bind_eq_Some_conv lowered_eq split: if_splits)
  from T shard_of_less have "shard_ok E (shard_of E s) (shards T ! shard_of E s)"
    by (simp add: table_ok_def)
  with t(1) have "entry_ok E (shard_of E s) (id_to_string (shards T ! shard_of E s))
      (exact_map (shards T ! shard_of E s)) (env_lowercase E s) t"
    unfolding shard_ok_def by blast
  with t(2) E have "sid_at (shard_of E s) (id_to_string (shards T ! shard_of E s)) i (env_lowercase E s)"
    by (simp add: entry_ok_def lowercase_idem)
  with shard_of_less show ?thesis unfolding base_at_def by blast
qed

lemma intern_ok:
  assumes E: "lowercase_ok E" and T: "table_ok E T" and s: "s \<noteq> []"
    and r: "intern E h s T = Some (tok, T')"
  shows "table_ok E T' \<and> table_grows T T' \<and> interned E h T' s tok"
proof -
  define idx where "idx = shard_of E s"
  have idx: "idx < 64" by (simp add: idx_def shard_of_less)
  with T have sh: "shard_ok E idx (shards T ! idx)" by (simp add: table_ok_def)
  show ?thesis
  proof (cases "map_of (exact_map (shards T ! idx)) s")
    case (Some t)
    with r s T show ?thesis by (auto simp: intern_def interned_def idx_def Let_def)
  next
    case None
    let ?base = "Option.bind (lowered E s) (\<lambda>key. map_option tok_lower (map_of (exact_map (shards T ! idx)) key))"
    let ?o = "Option.bind h (\<lambda>a. Option.bind (regions T a) (\<lambda>r.
       map_option (\<lambda>(tok, r'). (tok, T\<lparr>regions := (regions T)(a \<mapsto> r')\<rparr>))
         (OverlayRegion_intern r s (lowered E s) ?base)))"
    have i: "intern E h s T = (case ?o of Some res \<Rightarrow> Some res
        | None \<Rightarrow> map_option (\<lambda>(tok, sh'). (tok, T\<lparr>shards := (shards T)[idx := sh']\<rparr>))
            (intern_locked E (shards T ! idx) idx s))"
      using s None unfolding intern_def Let_def idx_def by simp
    show ?thesis
    proof (cases ?o)
      case (Some res)
      with r i obtain a ro r' where a: "h = Some a" "regions T a = Some ro"
        and o: "OverlayRegion_intern ro s (lowered E s) ?base = Some (tok, r')"
        and T': "T' = T\<lparr>regions := (regions T)(a \<mapsto> r')\<rparr>"
        by (auto simp: Option.bind_eq_Some_conv)
      have ok: "region_ok E T r' \<and> map_of (ov_exact_map r') s = Some tok \<and> region_grows ro r'"
        by (rule OverlayRegion_intern_ok [OF E region_limits(4) [OF T a(2)] _ o])
          (use base_lower_ok [OF E T, of s] in \<open>simp add: idx_def\<close>)
      then have "table_ok E T' \<and> table_grows T T'"
        unfolding T' by (intro table_ok_region [OF T a(2)]) auto
      with ok a None show ?thesis by (auto simp: interned_def T' idx_def)
    next
      case No: None
      with r i obtain sh' where l: "intern_locked E (shards T ! idx) idx s = Some (tok, sh')"
        and T': "T' = T\<lparr>shards := (shards T)[idx := sh']\<rparr>"
        by auto
      from intern_locked_ok [OF E sh s _ l] idx_def
      have ok: "shard_ok E idx sh' \<and> map_of (exact_map sh') s = Some tok
          \<and> shard_grows (shards T ! idx) sh'" by simp
      then have "table_ok E T' \<and> table_grows T T'"
        unfolding T' by (intro table_ok_shard [OF T idx]) auto
      moreover have "interned E h T' s tok"
        using ok T idx by (simp add: interned_def T' idx_def table_ok_def)
      ultimately show ?thesis by simp
    qed
  qed
qed

lemma intern_grows:
  assumes "lowercase_ok E" and "table_ok E T" and "intern E h s T = Some (tok, T')"
  shows "table_ok E T'" and "table_grows T T'"
  using assms intern_ok [OF assms(1,2) _ assms(3)] by (cases "s = []"; simp add: intern_def)+

lemma split_id_less: "fst (split_id i) < 64"
proof -
  have "unat (id_word i) < 2 ^ LENGTH(32)" by (rule unsigned_less)
  then have "unat (id_word i) div 2 ^ 26 < 64" by (simp add: less_mult_imp_div_less)
  then show ?thesis by (simp only: split_id_def fst_conv num_consts unat_drop_bit_eq drop_bit_nat_def)
qed

lemma list_get_append: "list_get xs n = Some x \<Longrightarrow> list_get (xs @ zs) n = Some x"
  by (auto simp: list_get_def nth_append split: if_splits)

lemma own_region_grows:
  assumes g: "table_grows T T'"
  shows "(case regions T' a of Some own \<Rightarrow> if ov_region own = reg \<and> ov_generation own = gen
            then Some own else None | None \<Rightarrow> None) = None
     \<longleftrightarrow> (case regions T a of Some own \<Rightarrow> if ov_region own = reg \<and> ov_generation own = gen
            then Some own else None | None \<Rightarrow> None) = None"
proof (cases "regions T a")
  case None
  with g have "regions T' a = None" unfolding table_grows_def by (metis domIff)
  with None show ?thesis by simp
next
  case (Some r)
  with g obtain r' where "regions T' a = Some r'" "region_grows r r'"
    unfolding table_grows_def by blast
  with Some show ?thesis by (simp add: region_grows_def)
qed

lemma overlay_region_grows:
  assumes g: "table_grows T T'" and r: "overlay_region h T i = Some r"
  shows "\<exists>r'. overlay_region h T' i = Some r' \<and> region_grows r r'"
proof -
  obtain gen reg ix where sp: "split_overlay_id i = (gen, reg, ix)" by (cases "split_overlay_id i")
  let ?own = "\<lambda>T a. case regions T a of Some own \<Rightarrow>
      if ov_region own = reg \<and> ov_generation own = gen then Some own else None | None \<Rightarrow> None"
  have ov: "overlays T' = overlays T" using g by (simp add: table_grows_def)
  have up: "upgrade w T = Some x \<Longrightarrow> \<exists>y. upgrade w T' = Some y \<and> region_grows x y" for w x
    using g by (auto simp: upgrade_def table_grows_def Option.bind_eq_Some_conv)
  show ?thesis
  proof (cases "Option.bind h (?own T)")
    case None
    then have "Option.bind h (?own T') = None"
      using own_region_grows [OF g, of reg gen] by (cases h) auto
    with None r up show ?thesis
      by (auto simp: overlay_region_def sp ov Let_def split: if_splits)
  next
    case (Some x)
    then obtain a where a: "h = Some a" "regions T a = Some x" "ov_region x = reg" "ov_generation x = gen"
      by (auto simp: Option.bind_eq_Some_conv split: option.splits if_splits)
    with g obtain y where y: "regions T' a = Some y" "region_grows x y"
      unfolding table_grows_def by blast
    from Some r have "r = x" by (simp add: overlay_region_def sp)
    with a y show ?thesis by (auto simp: overlay_region_def sp region_grows_def)
  qed
qed

lemma get_string_grows:
  assumes g: "table_grows T T'" and s: "get_string h T i = Some s"
  shows "get_string h T' i = Some s"
proof (cases "is_overlay i")
  case True
  with s obtain r where r: "overlay_region h T i = Some r"
    and l: "list_get (ov_id_to_string r) (snd (snd (split_overlay_id i))) = Some s"
    by (auto simp: get_string_def Option.bind_eq_Some_conv)
  from overlay_region_grows [OF g r] obtain r' zs where r': "overlay_region h T' i = Some r'"
    "ov_id_to_string r' = ov_id_to_string r @ zs" unfolding region_grows_def by blast
  with True l show ?thesis by (simp add: get_string_def list_get_append)
next
  case False
  from g split_id_less [of i] obtain zs where
    "id_to_string (shards T' ! fst (split_id i)) = id_to_string (shards T ! fst (split_id i)) @ zs"
    unfolding table_grows_def by blast
  with False s show ?thesis by (auto simp: get_string_def list_get_append split: prod.splits)
qed

lemma interned_resolves:
  assumes E: "lowercase_ok E" and T: "table_ok E T" and i: "interned E h T s tok"
  shows "get_string h' T (tok_normal tok) = Some s"
    and "get_string h' T (tok_lower tok) = Some (env_lowercase E s)"
proof -
  let ?sh = "shards T ! shard_of E s"
  have sh: "shard_ok E (shard_of E s) ?sh" using T shard_of_less by (simp add: table_ok_def)
  from i consider (base) "map_of (exact_map ?sh) s = Some tok"
    | (over) a r where "regions T a = Some r" "map_of (ov_exact_map r) s = Some tok"
    by (auto simp: interned_def)
  then have "get_string h' T (tok_normal tok) = Some s
     \<and> get_string h' T (tok_lower tok) = Some (env_lowercase E s)"
  proof cases
    case base
    with sh have "entry_ok E (shard_of E s) (id_to_string ?sh) (exact_map ?sh) s tok"
      unfolding shard_ok_def by blast
    then have "base_at T (tok_normal tok) s" "base_at T (tok_lower tok) (env_lowercase E s)"
      unfolding base_at_def entry_ok_def using shard_of_less by blast+
    then show ?thesis by (simp add: base_at_get [OF T])
  next
    case over
    from region_limits(4) [OF T over(1)] over(2)
    have "oid_at r (tok_normal tok) s" and
      "oid_at r (tok_lower tok) (env_lowercase E s) \<or> base_at T (tok_lower tok) (env_lowercase E s)"
      unfolding region_ok_def by blast+
    then show ?thesis using base_at_get [OF T] oid_at_get [OF T over(1)] by blast
  qed
  then show "get_string h' T (tok_normal tok) = Some s"
    and "get_string h' T (tok_lower tok) = Some (env_lowercase E s)" by simp_all
qed

lemma interned_again:
  assumes "interned E h T s tok" and "s \<noteq> []"
  shows "intern E h s T = Some (tok, T)"
  using assms by (auto simp: interned_def intern_def Let_def OverlayRegion_intern_def fun_upd_idem)

lemma get_string_empty:
  assumes "table_ok E T"
  shows "get_string h T (StringId 0) = Some []"
proof -
  have "shard_id 0 (of_nat 0) = StringId 0" by (simp add: shard_id_def)
  with shard_id_layout [of 0 0] have "\<not> is_overlay (StringId 0)" "split_id (StringId 0) = (0, 0)"
    by simp_all
  moreover have "id_to_string (shards T ! 0) \<noteq> []" "id_to_string (shards T ! 0) ! 0 = []"
    using assms by (auto simp: table_ok_def shard_ok_def)
  ultimately show ?thesis by (simp add: get_string_def list_get_def)
qed

subsection \<open>Opening and dropping overlay regions\<close>

lemma table_ok_new: "table_ok E StringTable_new"
  by (auto simp: table_ok_def StringTable_new_def num_consts shard_ok_def Shard_new_def)

lemma table_ok_drop: "table_ok E T \<Longrightarrow> table_ok E (drop_region a T)"
  unfolding table_ok_def drop_region_def region_ok_def base_at_def by simp blast

lemma region_limit_word: "i < 256 \<Longrightarrow> unat (of_nat i :: u32) = i"
  by (simp add: unat_of_nat_u32)

lemma position_Some: "position p xs = Some i \<Longrightarrow> i < length xs \<and> p (xs ! i)"
  by (induction xs arbitrary: i) (auto split: if_splits)

text \<open>
  The new region takes a slot that no live region uses: the slot \<open>i\<close> of the slab, whose
  generation moved on when it had been used before.
\<close>

definition opened :: "string_table \<Rightarrow> string_table \<Rightarrow> nat \<Rightarrow> u32 \<Rightarrow> bool" where
  "opened T T' i g \<longleftrightarrow>
     shards T' = shards T \<and> next_region T' = Suc (next_region T)
     \<and> i < length (overlays T') \<and> length (overlays T) \<le> length (overlays T')
     \<and> (\<forall>k. k < length (overlays T') \<and> k \<noteq> i \<longrightarrow> k < length (overlays T)
          \<and> overlays T' ! k = overlays T ! k)
     \<and> overlays T' ! i = \<lparr>slot_generation = g, slot_region = Some (next_region T)\<rparr>
     \<and> (i < length (overlays T) \<longrightarrow> upgrade (slot_region (overlays T ! i)) T = None
          \<and> g = (slot_generation (overlays T ! i) + 1) AND OVERLAY_GEN_MASK)
     \<and> (\<not> i < length (overlays T) \<longrightarrow> g = 0)
     \<and> regions T' = (regions T)(next_region T \<mapsto>
          \<lparr>ov_region = of_nat i, ov_generation = g, ov_exact_map = [], ov_id_to_string = []\<rparr>)
     \<and> length (overlays T') \<le> 256"

lemma with_overlay_cases:
  assumes "with_overlay T = (h, T')" and "length (overlays T) \<le> 256"
  obtains (plain) "h = None" and "T' = T" and "256 \<le> length (overlays T)"
  | (opened) i g where "h = Some (next_region T)" and "opened T T' i g"
proof (cases "position (\<lambda>s. upgrade (slot_region s) T = None) (overlays T)")
  case (Some i)
  let ?g = "(slot_generation (overlays T ! i) + 1) AND OVERLAY_GEN_MASK"
  from position_Some [OF Some] have "i < length (overlays T)"
    "upgrade (slot_region (overlays T ! i)) T = None" by simp_all
  with Some assms have "h = Some (next_region T)" "opened T T' i ?g"
    by (auto simp: with_overlay_def opened_def Let_def nth_list_update)
  then show thesis by (rule that(2))
next
  case None
  show thesis
  proof (cases "256 \<le> length (overlays T)")
    case True
    with None assms have "h = None" "T' = T" by (auto simp: with_overlay_def num_consts)
    with True show thesis by (intro that(1))
  next
    case False
    with None assms have "h = Some (next_region T)" "opened T T' (length (overlays T)) 0"
      by (auto simp: with_overlay_def opened_def Let_def num_consts nth_append nth_list_update)
    then show thesis by (rule that(2))
  qed
qed

lemma unat_gen_mask: "unat (w AND OVERLAY_GEN_MASK) = unat w mod 64"
proof -
  have "unat (w AND mask 6 :: u32) = unat w mod 2 ^ 6"
    by (simp only: unsigned_take_bit_eq take_bit_nat_def flip: take_bit_eq_mask)
  then show ?thesis by (simp add: mask_consts)
qed

lemma gen_mask_less: "unat (w AND OVERLAY_GEN_MASK) < 64"
  by (simp add: unat_gen_mask)

lemma opened_ok:
  assumes T: "table_ok E T" and o: "opened T T' i g"
  shows "table_ok E T'"
proof -
  let ?a = "next_region T"
  have i: "i < length (overlays T')" "length (overlays T') \<le> 256" "unat (of_nat i :: u32) = i"
    using o by (auto simp: opened_def region_limit_word)
  have slots: "overlays T' ! k = overlays T ! k \<and> k < length (overlays T)"
    if "k < length (overlays T')" "k \<noteq> i" for k
    using o that by (simp add: opened_def)
  have old: "a < ?a" if "regions T a = Some r" for a r using T that unfolding table_ok_def by blast
  have "region_ok E T' r" if "region_ok E T r" for r
    using that o by (simp add: region_ok_def base_at_def opened_def)
  then have live: "a < next_region T' \<and> region_ok E T' r \<and> unat (ov_region r) < length (overlays T')
      \<and> slot_region (overlays T' ! unat (ov_region r)) = Some a
      \<and> slot_generation (overlays T' ! unat (ov_region r)) = ov_generation r"
    if r: "regions T' a = Some r" for a r
  proof (cases "a = ?a")
    case True
    with r o i show ?thesis by (auto simp: opened_def region_ok_def)
  next
    case False
    with r o have r: "regions T a = Some r" by (simp add: opened_def)
    with T have *: "region_ok E T r" "unat (ov_region r) < length (overlays T)"
      "slot_region (overlays T ! unat (ov_region r)) = Some a"
      "slot_generation (overlays T ! unat (ov_region r)) = ov_generation r"
      unfolding table_ok_def by blast+
    have "unat (ov_region r) \<noteq> i"
      using * r o by (auto simp: opened_def upgrade_def)
    with * old [OF r] o \<open>\<And>r. region_ok E T r \<Longrightarrow> region_ok E T' r\<close> show ?thesis
      by (auto simp: opened_def)
  qed
  have gens: "unat (slot_generation (overlays T' ! k)) < 64" if "k < length (overlays T')" for k
  proof (cases "k = i")
    case True
    then show ?thesis using o gen_mask_less by (cases "i < length (overlays T)") (auto simp: opened_def)
  qed (use slots that T in \<open>auto simp: table_ok_def\<close>)
  have addr: "a < next_region T'" if "k < length (overlays T')" "slot_region (overlays T' ! k) = Some a" for k a
  proof (cases "k = i")
    case False
    with slots that T have "a < ?a" unfolding table_ok_def by metis
    with o show ?thesis by (simp add: opened_def)
  qed (use that o in \<open>auto simp: opened_def\<close>)
  have weak: "unat (ov_region r) = k"
    if k: "k < length (overlays T')" "slot_region (overlays T' ! k) = Some a" "regions T' a = Some r" for k a r
  proof (cases "k = i")
    case False
    with slots k have k': "k < length (overlays T)" "slot_region (overlays T ! k) = Some a" by auto
    with T have "a < ?a" unfolding table_ok_def by blast
    with k(3) o have "regions T a = Some r" by (auto simp: opened_def)
    with k' T show ?thesis unfolding table_ok_def by blast
  qed (use k o i in \<open>auto simp: opened_def\<close>)
  have "length (shards T') = 64" "\<forall>i < 64. shard_ok E i (shards T' ! i)"
    using T o by (auto simp: table_ok_def opened_def)
  with i live gens addr weak show ?thesis unfolding table_ok_def by blast
qed

lemma with_overlay_ok:
  assumes T: "table_ok E T" and w: "with_overlay T = (h, T')"
  shows "table_ok E T'"
proof -
  have "length (overlays T) \<le> 256" using T by (simp add: table_ok_def)
  with w show ?thesis by (rule with_overlay_cases) (use T opened_ok in auto)
qed

section \<open>Histories of a table\<close>

text \<open>
  Every way the front ends use one table: handles intern, overlays are opened for a parse
  and dropped with the last owner of its identifiers.
\<close>

datatype table_event = Intern handle ustr | OpenRegion | DropRegion region_addr

fun table_step :: "text_env \<Rightarrow> table_event \<Rightarrow> string_table \<Rightarrow> string_table option" where
  "table_step E (Intern h s) T = map_option snd (intern E h s T)"
| "table_step E OpenRegion T = Some (snd (with_overlay T))"
| "table_step E (DropRegion a) T = Some (drop_region a T)"

fun table_run :: "text_env \<Rightarrow> table_event list \<Rightarrow> string_table \<Rightarrow> string_table option" where
  "table_run E [] T = Some T"
| "table_run E (e # es) T = Option.bind (table_step E e T) (table_run E es)"

lemma table_step_ok:
  assumes "lowercase_ok E" and "table_ok E T" and "table_step E e T = Some T'"
  shows "table_ok E T'"
  using assms
proof (cases e)
  case (Intern h s)
  with assms show ?thesis by (auto intro: intern_grows(1))
next
  case OpenRegion
  with assms show ?thesis by (cases "with_overlay T") (auto intro: with_overlay_ok)
qed (auto simp: table_ok_drop)

lemma table_run_ok:
  "lowercase_ok E \<Longrightarrow> table_ok E T \<Longrightarrow> table_run E es T = Some T' \<Longrightarrow> table_ok E T'"
  by (induction es arbitrary: T) (auto simp: Option.bind_eq_Some_conv dest: table_step_ok)

subsection \<open>Stale identifiers\<close>

fun opens :: "table_event list \<Rightarrow> nat" where
  "opens [] = 0"
| "opens (e # es) = (if e = OpenRegion then 1 else 0) + opens es"

text \<open>Slot \<open>k\<close> was reopened \<open>m\<close> times since its region of generation \<open>g\<close> died.\<close>

definition stale_slot :: "nat \<Rightarrow> u32 \<Rightarrow> nat \<Rightarrow> string_table \<Rightarrow> bool" where
  "stale_slot k g m T \<longleftrightarrow>
     k < length (overlays T) \<and> unat (slot_generation (overlays T ! k)) = (unat g + m) mod 64
     \<and> (m = 0 \<longrightarrow> upgrade (slot_region (overlays T ! k)) T = None)"

lemma stale_slot_step:
  assumes E: "lowercase_ok E" and T: "table_ok E T" and s: "stale_slot k g m T"
    and st: "table_step E e T = Some T'"
  shows "\<exists>m'. stale_slot k g m' T' \<and> m' \<le> m + opens [e]"
proof (cases e)
  case (Intern h s)
  with st obtain tok where i: "intern E h s T = Some (tok, T')" by auto
  have g: "table_grows T T'" by (rule intern_grows(2) [OF E T i])
  then have "overlays T' = overlays T" by (simp add: table_grows_def)
  moreover have "upgrade w T = None \<longleftrightarrow> upgrade w T' = None" for w
  proof -
    have "dom (regions T') = dom (regions T)" using g by (simp add: table_grows_def)
    then have "regions T' a = None \<longleftrightarrow> regions T a = None" for a by (metis domIff)
    then show ?thesis by (cases w) (auto simp: upgrade_def)
  qed
  ultimately show ?thesis using s by (intro exI [of _ m]) (simp add: stale_slot_def)
next
  case (DropRegion a)
  have "upgrade w T = None \<Longrightarrow> upgrade w (drop_region a T) = None" for w
    by (auto simp: upgrade_def drop_region_def Option.bind_eq_None_conv)
  with DropRegion s st show ?thesis
    by (intro exI [of _ m]) (auto simp: stale_slot_def drop_region_def)
next
  case OpenRegion
  obtain h U where w: "with_overlay T = (h, U)" by (cases "with_overlay T")
  with OpenRegion st have U: "T' = U" by simp
  have k: "k < length (overlays T)" using s by (simp add: stale_slot_def)
  have "length (overlays T) \<le> 256" using T by (simp add: table_ok_def)
  with w show ?thesis
  proof (cases rule: with_overlay_cases)
    case plain
    with U s show ?thesis by (intro exI [of _ m]) simp
  next
    case (opened i g')
    show ?thesis
    proof (cases "i = k")
      case True
      with opened(2) k have g': "g' = (slot_generation (overlays T ! k) + 1) AND OVERLAY_GEN_MASK"
        by (simp add: opened_def)
      have "unat (slot_generation (overlays T ! k)) < 64" using T k by (simp add: table_ok_def)
      then have "unat (slot_generation (overlays T ! k) + 1) = Suc (unat (slot_generation (overlays T ! k)))"
        by (simp add: unat_word_ariths)
      with g' s have "unat g' = (unat g + Suc m) mod 64"
        by (simp add: unat_gen_mask stale_slot_def mod_Suc_eq)
      with True opened(2) U OpenRegion show ?thesis
        by (intro exI [of _ "Suc m"]) (simp add: stale_slot_def opened_def)
    next
      case False
      with opened(2) k have slot: "k < length (overlays T')" "overlays T' ! k = overlays T ! k"
        by (auto simp: opened_def U)
      have "upgrade (slot_region (overlays T ! k)) T' = upgrade (slot_region (overlays T ! k)) T"
      proof (cases "slot_region (overlays T ! k)")
        case (Some a)
        with T k have "a < next_region T" by (simp add: table_ok_def)
        with opened(2) Some show ?thesis by (simp add: U opened_def upgrade_def)
      qed (simp add: upgrade_def)
      with slot s show ?thesis by (intro exI [of _ m]) (simp add: stale_slot_def)
    qed
  qed
qed

lemma stale_slot_run:
  "lowercase_ok E \<Longrightarrow> table_ok E T \<Longrightarrow> stale_slot k g m T \<Longrightarrow> table_run E es T = Some T' \<Longrightarrow>
   \<exists>m'. stale_slot k g m' T' \<and> m' \<le> m + opens es"
proof (induction es arbitrary: T m)
  case Nil
  then show ?case by auto
next
  case (Cons e es)
  from Cons.prems obtain U where U: "table_step E e T = Some U" "table_run E es U = Some T'"
    by (auto simp: Option.bind_eq_Some_conv)
  from stale_slot_step [OF Cons.prems(1-3) U(1)] obtain m1
    where m1: "stale_slot k g m1 U" "m1 \<le> m + opens [e]" by blast
  from Cons.IH [OF Cons.prems(1) table_step_ok [OF Cons.prems(1,2) U(1)] m1(1) U(2)]
  obtain m' where "stale_slot k g m' T'" "m' \<le> m1 + opens es" by blast
  with m1(2) show ?case by (intro exI [of _ m']) simp
qed

lemma stale_slot_unresolved:
  assumes T: "table_ok E T" and s: "stale_slot k g m T" and m: "m < 64"
    and i: "is_overlay i" "split_overlay_id i = (g, reg, n)" "unat reg = k" "unat g < 64"
  shows "get_string h T i = None"
proof -
  have live: "slot_generation (overlays T ! k) = g \<Longrightarrow> upgrade (slot_region (overlays T ! k)) T = None"
    using s m i(4) unfolding stale_slot_def by (cases "m = 0") (auto simp: mod_if split: if_splits)
  have "\<not> (regions T a = Some own \<and> ov_region own = reg \<and> ov_generation own = g)" for a own
  proof
    assume a: "regions T a = Some own \<and> ov_region own = reg \<and> ov_generation own = g"
    with T have "slot_region (overlays T ! k) = Some a" "slot_generation (overlays T ! k) = g"
      unfolding table_ok_def i(3)[symmetric] by blast+
    with live a show False by (simp add: upgrade_def)
  qed
  then have "Option.bind h (\<lambda>a. case regions T a of Some own \<Rightarrow>
      if ov_region own = reg \<and> ov_generation own = g then Some own else None | None \<Rightarrow> None) = None"
    by (cases h) (auto split: option.splits)
  with live i have "overlay_region h T i = None" by (simp add: overlay_region_def Let_def)
  with i show ?thesis by (simp add: get_string_def)
qed

section \<open>The interner interface\<close>

text \<open>
  What the parser and the validators rely on: an interned text resolves, whatever was
  resolvable stays so, and the answer is the same the next time.
\<close>

locale interner =
  fixes intern_op :: "ustr \<Rightarrow> 't \<Rightarrow> ('tok \<times> 't) option"
    and resolve :: "'t \<Rightarrow> 'id \<Rightarrow> ustr option"
    and id_of :: "'tok \<Rightarrow> 'id"
    and invar :: "'t \<Rightarrow> bool"
  assumes intern_invar: "invar T \<Longrightarrow> intern_op s T = Some (tok, T') \<Longrightarrow> invar T'"
    and intern_resolve: "invar T \<Longrightarrow> intern_op s T = Some (tok, T') \<Longrightarrow>
          resolve T' (id_of tok) = Some s"
    and intern_stable: "invar T \<Longrightarrow> intern_op s T = Some (tok, T') \<Longrightarrow>
          resolve T i = Some x \<Longrightarrow> resolve T' i = Some x"
    and intern_again: "invar T \<Longrightarrow> intern_op s T = Some (tok, T') \<Longrightarrow>
          intern_op s T' = Some (tok, T')"
begin

lemma intern_injective:
  assumes "invar T" and "intern_op s T = Some (tok, T')" and "intern_op s' T' = Some (tok', T'')"
    and "id_of tok = id_of tok'"
  shows "s = s'"
  using assms by (metis intern_invar intern_resolve intern_stable option.inject)

end

text \<open>Interning a list of texts one after the other.\<close>

fun run_intern :: "(ustr \<Rightarrow> 't \<Rightarrow> ('tok \<times> 't) option) \<Rightarrow> ustr list \<Rightarrow> 't \<Rightarrow> ('tok list \<times> 't) option" where
  "run_intern op [] T = Some ([], T)"
| "run_intern op (s # ss) T = do {
     (tok, T1) \<leftarrow> op s T;
     (toks, T2) \<leftarrow> run_intern op ss T1;
     Some (tok # toks, T2)
   }"

context interner
begin

lemma run_stable:
  "invar T \<Longrightarrow> run_intern intern_op ss T = Some (toks, T') \<Longrightarrow> resolve T i = Some x \<Longrightarrow>
   invar T' \<and> resolve T' i = Some x"
  by (induction ss arbitrary: T toks)
    (auto simp: Option.bind_eq_Some_conv dest: intern_invar intern_stable)

lemma run_invar: "invar T \<Longrightarrow> run_intern intern_op ss T = Some (toks, T') \<Longrightarrow> invar T'"
  by (induction ss arbitrary: T toks) (auto simp: Option.bind_eq_Some_conv dest: intern_invar)

lemma run_resolves:
  "invar T \<Longrightarrow> run_intern intern_op ss T = Some (toks, T') \<Longrightarrow>
   list_all2 (\<lambda>s tok. resolve T' (id_of tok) = Some s) ss toks"
proof (induction ss arbitrary: T toks)
  case (Cons s ss)
  then obtain tok T1 toks' where h: "intern_op s T = Some (tok, T1)"
    "run_intern intern_op ss T1 = Some (toks', T')" "toks = tok # toks'"
    by (auto simp: Option.bind_eq_Some_conv)
  from h Cons.prems(1) have "invar T1" "resolve T1 (id_of tok) = Some s"
    by (blast intro: intern_invar intern_resolve)+
  with h Cons.IH show ?case by (auto dest: run_stable)
qed simp

end

lemma intern_resolves_aux:
  assumes E: "lowercase_ok E" and T: "table_ok E T" and r: "intern E h s T = Some (tok, T')"
  shows "get_string h' T' (tok_normal tok) = Some s
       \<and> get_string h' T' (tok_lower tok) = Some (env_lowercase E s)"
proof (cases "s = []")
  case True
  with r have "tok = EMPTY_TOKENS" "T' = T" by (simp_all add: intern_def)
  with True E get_string_empty [OF T] show ?thesis by (simp add: EMPTY_TOKENS_def lowercase_ok_def)
next
  case False
  from intern_ok [OF E T False r] interned_resolves [OF E] show ?thesis by blast
qed

lemma intern_again_aux:
  assumes E: "lowercase_ok E" and T: "table_ok E T" and r: "intern E h s T = Some (tok, T')"
  shows "intern E h s T' = Some (tok, T')"
proof (cases "s = []")
  case True
  with r show ?thesis by (simp add: intern_def)
next
  case False
  from intern_ok [OF E T False r] interned_again False show ?thesis by blast
qed

interpretation st: interner "intern E h" "get_string h'" tok_normal
  "\<lambda>T. lowercase_ok E \<and> table_ok E T" for E h h'
proof unfold_locales
  fix s T tok T' i x
  assume inv: "lowercase_ok E \<and> table_ok E T" and r: "intern E h s T = Some (tok, T')"
  then have E: "lowercase_ok E" and T: "table_ok E T" by simp_all
  show "lowercase_ok E \<and> table_ok E T'" using E intern_grows(1) [OF E T r] by simp
  show "get_string h' T' (tok_normal tok) = Some s" using intern_resolves_aux [OF E T r] by simp
  show "intern E h s T' = Some (tok, T')" by (rule intern_again_aux [OF E T r])
  show "get_string h' T i = Some x \<Longrightarrow> get_string h' T' i = Some x"
    by (rule get_string_grows [OF intern_grows(2) [OF E T r]])
qed

text \<open>\<^verbatim>\<open>intern_cold\<close> skips the read lock; it answers as \<^verbatim>\<open>intern\<close> does.\<close>

lemma intern_cold_eq:
  assumes "length (shards T) = 64"
  shows "intern_cold E h s T = intern E h s T"
proof -
  have "shard_of E s < length (shards T)" using assms shard_of_less by simp
  then show ?thesis
    by (cases h) (auto simp: intern_cold_def intern_def Let_def intern_locked_def
        split: option.splits)
qed

lemma intern_batch_run:
  "lowercase_ok E \<Longrightarrow> table_ok E T \<Longrightarrow> intern_batch E h ss T = run_intern (intern E h) ss T"
proof (induction ss arbitrary: T)
  case (Cons s ss)
  have "length (shards T) = 64" using Cons.prems(2) by (simp add: table_ok_def)
  then have cold: "intern_cold E h s T = intern E h s T" by (rule intern_cold_eq)
  show ?case
  proof (cases "intern E h s T")
    case None
    then show ?thesis by (simp only: intern_batch.simps run_intern.simps cold Option.bind.simps)
  next
    case (Some p)
    obtain tok T1 where p: "p = (tok, T1)" by (cases p)
    from Some p Cons.prems have "table_ok E T1" by (blast intro: intern_grows(1))
    then have "intern_batch E h ss T1 = run_intern (intern E h) ss T1"
      by (rule Cons.IH [OF Cons.prems(1)])
    with Some p show ?thesis
      by (simp only: intern_batch.simps run_intern.simps cold Option.bind.simps prod.case)
  qed
qed simp

subsection \<open>Room\<close>

text \<open>The id space: entries of the shards together.  An insertion adds two at most.\<close>

definition table_size :: "string_table \<Rightarrow> nat" where
  "table_size T = (\<Sum>sh\<leftarrow>shards T. length (id_to_string sh))"

lemma shard_size_le: "i < length (shards T) \<Longrightarrow> length (id_to_string (shards T ! i)) \<le> table_size T"
  unfolding table_size_def by (intro member_le_sum_list) auto

lemma table_size_update:
  assumes "i < length (shards T)"
  shows "table_size (T\<lparr>shards := (shards T)[i := sh]\<rparr>) + length (id_to_string (shards T ! i))
       = table_size T + length (id_to_string sh)"
proof -
  let ?f = "\<lambda>sh. length (id_to_string sh)"
  have "map ?f ((shards T)[i := sh]) = (map ?f (shards T))[i := ?f sh]" by (simp add: map_update)
  moreover have "sum_list ((map ?f (shards T))[i := ?f sh]) + map ?f (shards T) ! i
      = sum_list (map ?f (shards T)) + ?f sh"
    using assms elem_le_sum_list [of i "map ?f (shards T)"] by (simp add: sum_list_update)
  ultimately show ?thesis using assms by (simp add: table_size_def)
qed

lemma Shard_push_total:
  assumes "length (id_to_string sh) < 2 ^ 25"
  shows "Shard_push sh idx text = Some (shard_id idx (of_nat (length (id_to_string sh))),
     sh\<lparr>id_to_string := id_to_string sh @ [text]\<rparr>)"
proof -
  let ?n = "length (id_to_string sh)"
  have "unat (of_nat ?n :: u32) = ?n" using assms by (simp add: unat_of_nat_u32)
  with assms have "(of_nat ?n :: u32) < OVERLAY_BIT"
    by (simp add: word_less_nat_alt mask_consts)
  then show ?thesis by (simp add: Shard_push_def)
qed

lemma intern_locked_total:
  assumes "length (id_to_string sh) + 2 \<le> 2 ^ 25"
  shows "\<exists>tok sh'. intern_locked E sh idx s = Some (tok, sh')"
  using assms by (auto simp: intern_locked_def Shard_push_total Let_def split: option.splits)

lemma intern_total_aux:
  assumes E: "lowercase_ok E" and T: "table_ok E T" and room: "table_size T + 2 \<le> 2 ^ 25"
  shows "\<exists>tok T'. intern E h s T = Some (tok, T') \<and> table_size T' \<le> table_size T + 2"
proof (cases "s = []")
  case True
  then show ?thesis by (simp add: intern_def)
next
  case s: False
  let ?idx = "shard_of E s"
  have len: "?idx < length (shards T)" using T shard_of_less by (simp add: table_ok_def)
  have "length (id_to_string (shards T ! ?idx)) + 2 \<le> 2 ^ 25"
    using shard_size_le [OF len] room by linarith
  from intern_locked_total [OF this, of E ?idx s] obtain tok sh'
    where l: "intern_locked E (shards T ! ?idx) ?idx s = Some (tok, sh')" by blast
  have ok: "shard_ok E ?idx (shards T ! ?idx)" using T shard_of_less by (simp add: table_ok_def)
  from intern_locked_ok [OF E ok s refl l]
  have "length (id_to_string sh') \<le> length (id_to_string (shards T ! ?idx)) + 2"
    by (auto simp: shard_grows_def)
  with table_size_update [OF len, of sh']
  have size: "table_size (T\<lparr>shards := (shards T)[?idx := sh']\<rparr>) \<le> table_size T + 2" by linarith
  have regs: "table_size (T\<lparr>regions := f\<rparr>) = table_size T" for f by (simp add: table_size_def)
  show ?thesis using s l size regs
    by (auto simp: intern_def Let_def Option.bind_eq_Some_conv split: option.splits)
qed

section \<open>Properties\<close>

text \<open>The environment of the witnesses: ASCII case, one hash value.\<close>

definition ascii_env :: text_env where
  "ascii_env = \<lparr>env_lowercase = map ascii_lower, env_hash = (\<lambda>_. 0), env_alphanumeric = (\<lambda>_. False)\<rparr>"

lemma ascii_env_ok: "lowercase_ok ascii_env"
  by (simp add: lowercase_ok_def ascii_env_def)

lemma table_size_new: "table_size StringTable_new = 64"
  by (simp add: table_size_def StringTable_new_def num_consts Shard_new_def sum_list_replicate)

lemma intern_new_total: "\<exists>tok T'. intern ascii_env h s StringTable_new = Some (tok, T')"
  using intern_total_aux [OF ascii_env_ok table_ok_new, of h s] by (auto simp: table_size_new)

text \<open>
  C4. An interned text resolves: on a well-formed table, the tokens \<^verbatim>\<open>StringTable::intern\<close>
  returns resolve, through every handle to the table, to the text itself (\<open>normal\<close>) and
  to its lowercase form (\<open>lower\<close>), and the table stays well-formed.
\<close>

theorem intern_resolves:
  assumes "lowercase_ok E" and "table_ok E T" and "intern E h s T = Some (tok, T')"
  shows "get_string h' T' (tok_normal tok) = Some s
    \<and> get_string h' T' (tok_lower tok) = Some (env_lowercase E s) \<and> table_ok E T'"
  using intern_resolves_aux [OF assms] intern_grows(1) [OF assms] by simp

theorem intern_resolves_witness:
  "\<exists>tok T'. intern ascii_env None (str ''Foo'') StringTable_new = Some (tok, T')
     \<and> get_string None T' (tok_normal tok) = Some (str ''Foo'')
     \<and> get_string None T' (tok_lower tok) = Some (str ''foo'')"
proof -
  obtain tok T' where r: "intern ascii_env None (str ''Foo'') StringTable_new = Some (tok, T')"
    using intern_new_total by blast
  have "env_lowercase ascii_env (str ''Foo'') = str ''foo''"
    by (simp add: ascii_env_def ascii_lower_def is_ascii_uppercase_def)
  with r intern_resolves [OF ascii_env_ok table_ok_new r] show ?thesis by auto
qed

text \<open>
  Identifiers are stable: interning, through any handle, loses no string that any
  handle could resolve before.
\<close>

theorem intern_stable:
  assumes "lowercase_ok E" and "table_ok E T" and "intern E h s T = Some (tok, T')"
    and "get_string h' T i = Some x"
  shows "get_string h' T' i = Some x"
  using st.intern_stable [of E T h s tok T' h' i x] assms by simp

theorem intern_stable_witness:
  "\<exists>tok T'. intern ascii_env None (str ''Foo'') StringTable_new = Some (tok, T')
     \<and> get_string None T' (StringId 0) = Some []"
proof -
  obtain tok T' where r: "intern ascii_env None (str ''Foo'') StringTable_new = Some (tok, T')"
    using intern_new_total by blast
  moreover have "get_string None T' (StringId 0) = Some []"
    by (rule intern_stable [OF ascii_env_ok table_ok_new r get_string_empty [OF table_ok_new]])
  ultimately show ?thesis by blast
qed

text \<open>
  Interning is canonical: right after a text was interned, interning a text gives the
  same \<open>normal\<close> id exactly when it is the same text, and interning the same text again
  returns the same tokens and leaves the table as it is.
\<close>

theorem intern_canonical:
  assumes "lowercase_ok E" and "table_ok E T"
    and "intern E h s T = Some (tok, T')" and "intern E h s' T' = Some (tok', T'')"
  shows "(tok_normal tok = tok_normal tok' \<longleftrightarrow> s = s') \<and> intern E h s T' = Some (tok, T')"
  using st.intern_injective [of E T h s tok T' s' tok' T''] st.intern_again [of E T h s tok T'] assms
  by auto

theorem intern_canonical_witness:
  "\<exists>tok T' tok' T''. intern ascii_env None (str ''Foo'') StringTable_new = Some (tok, T')
     \<and> intern ascii_env None (str ''foo'') T' = Some (tok', T'') \<and> tok_normal tok \<noteq> tok_normal tok'"
proof -
  obtain tok T' where r: "intern ascii_env None (str ''Foo'') StringTable_new = Some (tok, T')"
    and size: "table_size T' \<le> 66"
    using intern_total_aux [OF ascii_env_ok table_ok_new, of None "str ''Foo''"]
    by (auto simp: table_size_new)
  have "table_ok ascii_env T'" by (rule intern_grows(1) [OF ascii_env_ok table_ok_new r])
  from intern_total_aux [OF ascii_env_ok this, of None "str ''foo''"] size
  obtain tok' T'' where r': "intern ascii_env None (str ''foo'') T' = Some (tok', T'')" by fastforce
  have "tok_normal tok \<noteq> tok_normal tok'"
    using intern_canonical [OF ascii_env_ok table_ok_new r r'] by simp
  with r r' show ?thesis by blast
qed

lemma plain_entry:
  assumes E: "lowercase_ok E" and T: "table_ok E T" and r: "intern E None s T = Some (tok, T')" and s: "s \<noteq> []"
  shows "map_of (exact_map (shards T' ! shard_of E s)) (env_lowercase E s)
    = Some \<lparr>tok_lower = tok_lower tok, tok_normal = tok_lower tok\<rparr>"
proof -
  from intern_ok [OF E T s r] have T': "table_ok E T'"
    and m: "map_of (exact_map (shards T' ! shard_of E s)) s = Some tok"
    by (auto simp: interned_def)
  from T' have "shard_ok E (shard_of E s) (shards T' ! shard_of E s)"
    using shard_of_less by (simp add: table_ok_def)
  with m show ?thesis unfolding shard_ok_def entry_ok_def by blast
qed

text \<open>
  Case folding: for a plain handle, two texts share their \<open>lower\<close> id exactly when
  their lowercase forms are equal, so comparing \<open>lower\<close> ids is the case-insensitive
  comparison of the engine.
\<close>

theorem lower_id_is_case_folding:
  assumes E: "lowercase_ok E" and T: "table_ok E T"
    and r: "intern E None s T = Some (tok, T')" and r': "intern E None s' T' = Some (tok', T'')"
  shows "tok_lower tok = tok_lower tok' \<longleftrightarrow> env_lowercase E s = env_lowercase E s'"
proof -
  have T': "table_ok E T'" by (rule intern_grows(1) [OF E T r])
  have res: "get_string None T'' (tok_lower tok) = Some (env_lowercase E s)"
    "get_string None T'' (tok_lower tok') = Some (env_lowercase E s')"
    using intern_resolves_aux [OF E T r] intern_resolves_aux [OF E T' r']
      get_string_grows [OF intern_grows(2) [OF E T' r']] by blast+
  show ?thesis
  proof
    assume eq: "env_lowercase E s = env_lowercase E s'"
    show "tok_lower tok = tok_lower tok'"
    proof (cases "s = []")
      case True
      with eq E have "s' = []" by (metis lowercase_ok_def)
      with True r r' show ?thesis by (simp add: intern_def)
    next
      case False
      with eq E have s': "s' \<noteq> []" by (metis lowercase_ok_def)
      have sh: "shard_of E s' = shard_of E s" using shard_of_lowercase [OF E] eq by metis
      have "map_of (exact_map (shards T'' ! shard_of E s)) (env_lowercase E s)
          = Some \<lparr>tok_lower = tok_lower tok, tok_normal = tok_lower tok\<rparr>"
        using plain_entry [OF E T r False] intern_grows(2) [OF E T' r'] shard_of_less
        unfolding table_grows_def by blast
      with plain_entry [OF E T' r' s'] show ?thesis by (simp add: sh eq)
    qed
  qed (use res in auto)
qed

theorem lower_id_is_case_folding_witness:
  "\<exists>tok T' tok' T''. intern ascii_env None (str ''Foo'') StringTable_new = Some (tok, T')
     \<and> intern ascii_env None (str ''foo'') T' = Some (tok', T'') \<and> tok_lower tok = tok_lower tok'"
proof -
  obtain tok T' where r: "intern ascii_env None (str ''Foo'') StringTable_new = Some (tok, T')"
    and size: "table_size T' \<le> 66"
    using intern_total_aux [OF ascii_env_ok table_ok_new, of None "str ''Foo''"]
    by (auto simp: table_size_new)
  have "table_ok ascii_env T'" by (rule intern_grows(1) [OF ascii_env_ok table_ok_new r])
  from intern_total_aux [OF ascii_env_ok this, of None "str ''foo''"] size
  obtain tok' T'' where r': "intern ascii_env None (str ''foo'') T' = Some (tok', T'')" by fastforce
  have "env_lowercase ascii_env (str ''Foo'') = env_lowercase ascii_env (str ''foo'')"
    by (simp add: ascii_env_def ascii_lower_def is_ascii_uppercase_def)
  with lower_id_is_case_folding [OF ascii_env_ok table_ok_new r r'] r r' show ?thesis by blast
qed

text \<open>
  C3. Every history keeps the table well-formed: whatever sequence of interning, opening
  and dropping of overlay regions a new table goes through, the invariant holds at its end.
\<close>

theorem table_history_ok:
  assumes "lowercase_ok E" and "table_run E es StringTable_new = Some T"
  shows "table_ok E T"
  using assms(1) table_ok_new assms(2) by (rule table_run_ok)

theorem table_history_ok_witness:
  "\<exists>T. table_run ascii_env [OpenRegion, DropRegion 0, OpenRegion] StringTable_new = Some T
     \<and> table_ok ascii_env T"
proof -
  obtain T where "table_run ascii_env [OpenRegion, DropRegion 0, OpenRegion] StringTable_new = Some T"
    by simp
  with table_history_ok [OF ascii_env_ok this] show ?thesis by blast
qed

text \<open>
  C5. A dead overlay does not answer: once the region an identifier came from is dropped,
  that identifier resolves through no handle, however the table is used afterwards, until
  64 more overlays have been opened (the generation is a 6-bit counter).
\<close>

theorem stale_overlay_id:
  assumes E: "lowercase_ok E" and T: "table_ok E T" and r: "regions T a = Some r" and i: "oid_at r i s"
    and run: "table_run E (DropRegion a # es) T = Some T'" and few: "opens es < 64"
  shows "get_string h T' i = None"
proof -
  let ?k = "unat (ov_region r)"
  note lim = region_limits [OF T r]
  from i obtain n where n: "n < length (ov_id_to_string r)"
    and id: "i = overlay_id (ov_generation r) (ov_region r) (of_nat n)"
    by (auto simp: oid_at_def)
  with lim(3) have "n < 2 ^ 17" by linarith
  note lay = overlay_id_layout [OF lim(1,2) this, folded id]
  from T r have "?k < length (overlays T)" "slot_region (overlays T ! ?k) = Some a"
    "slot_generation (overlays T ! ?k) = ov_generation r"
    unfolding table_ok_def by blast+
  with lim(1) have stale: "stale_slot ?k (ov_generation r) 0 (drop_region a T)"
    by (simp add: stale_slot_def drop_region_def upgrade_def)
  from run have run': "table_run E es (drop_region a T) = Some T'" by simp
  have D: "table_ok E (drop_region a T)" by (rule table_ok_drop [OF T])
  from stale_slot_run [OF E D stale run'] obtain m
    where m: "stale_slot ?k (ov_generation r) m T'" "m \<le> opens es" by auto
  from few m(2) have "m < 64" by simp
  with m(1) table_run_ok [OF E D run'] lay lim(1) show ?thesis
    by (intro stale_slot_unresolved [where m = m]) auto
qed

theorem stale_overlay_id_witness:
  "\<exists>T T'. regions T 0 \<noteq> None \<and> table_run ascii_env [DropRegion 0, OpenRegion] T = Some T'
     \<and> get_string (Some 1) T' (overlay_id 0 0 0) = None"
proof -
  obtain h T0 where w: "with_overlay StringTable_new = (h, T0)" by (cases "with_overlay StringTable_new")
  define r where "r = \<lparr>ov_region = 0, ov_generation = 0,
     ov_exact_map = [(str ''foo'', \<lparr>tok_lower = overlay_id 0 0 0, tok_normal = overlay_id 0 0 0\<rparr>)],
     ov_id_to_string = [str ''foo'']\<rparr>"
  define T where "T = T0\<lparr>regions := (regions T0)(0 \<mapsto> r)\<rparr>"
  have T0: "table_ok ascii_env T0" by (rule with_overlay_ok [OF table_ok_new w])
  have r0: "regions T0 0 = Some \<lparr>ov_region = 0, ov_generation = 0, ov_exact_map = [], ov_id_to_string = []\<rparr>"
    using w by (auto simp: with_overlay_def StringTable_new_def Let_def num_consts)
  have low: "env_lowercase ascii_env (str ''foo'') = str ''foo''"
    by (simp add: ascii_env_def ascii_lower_def is_ascii_uppercase_def)
  have i: "oid_at r (overlay_id 0 0 0) (str ''foo'')" by (simp add: oid_at_def r_def)
  then have "region_ok ascii_env T0 r" using low by (auto simp: region_ok_def r_def)
  then have T: "table_ok ascii_env T"
    using table_ok_region [OF T0 r0] unfolding T_def by (simp add: region_grows_def r_def)
  have r: "regions T 0 = Some r" by (simp add: T_def)
  obtain T' where run: "table_run ascii_env [DropRegion 0, OpenRegion] T = Some T'" by simp
  have "get_string (Some 1) T' (overlay_id 0 0 0) = None"
    by (rule stale_overlay_id [OF ascii_env_ok T r i run]) simp
  with r run show ?thesis by blast
qed

lemma overlay_region_any_handle:
  assumes T: "table_ok E T"
  shows "overlay_region h T i = overlay_region None T i"
proof -
  obtain gen reg ix where sp: "split_overlay_id i = (gen, reg, ix)" by (cases "split_overlay_id i")
  show ?thesis
  proof (cases "Option.bind h (\<lambda>b. case regions T b of
             Some own \<Rightarrow> if ov_region own = reg \<and> ov_generation own = gen then Some own else None
           | None \<Rightarrow> None)")
    case None
    then show ?thesis by (simp add: overlay_region_def sp)
  next
    case (Some x)
    then obtain a where a: "h = Some a" "regions T a = Some x" "ov_region x = reg" "ov_generation x = gen"
      by (auto simp: Option.bind_eq_Some_conv split: option.splits if_splits)
    with T have "unat reg < length (overlays T)" "slot_region (overlays T ! unat reg) = Some a"
      "slot_generation (overlays T ! unat reg) = gen"
      unfolding table_ok_def by blast+
    with a Some show ?thesis by (simp add: overlay_region_def sp upgrade_def Let_def)
  qed
qed

lemma resolver_get_eq:
  assumes T: "table_ok E T"
  shows "resolver_get (with_read T) i = get_string h T i"
proof (cases "is_overlay i")
  case True
  obtain gen reg ix where sp: "split_overlay_id i = (gen, reg, ix)" by (cases "split_overlay_id i")
  show ?thesis
    unfolding get_string_def overlay_region_any_handle [OF T, of h]
    using True by (auto simp: resolver_get_def with_read_def overlay_region_def sp Let_def list_get_def
        split: option.splits if_splits)
qed (simp add: resolver_get_def with_read_def get_string_def)

text \<open>
  The lock-free resolver agrees with the table: on a well-formed table, the resolver
  that \<^verbatim>\<open>with_read\<close> hands to its closure answers every identifier, live, stale or made up,
  as \<^verbatim>\<open>get_string\<close> does through any handle.
\<close>

theorem resolver_agrees:
  assumes T: "table_ok E T"
  shows "resolver_get (with_read T) i = get_string h T i"
  using assms by (rule resolver_get_eq)

theorem resolver_agrees_witness:
  "table_ok ascii_env StringTable_new
   \<and> resolver_get (with_read StringTable_new) (StringId 0) = get_string (Some 3) StringTable_new (StringId 0)"
  using resolver_agrees [OF table_ok_new [of ascii_env]] table_ok_new by blast

text \<open>
  Interning never hits the panic of \<^verbatim>\<open>Shard::push\<close> while the shards together hold at
  most \<open>2 ^ 25 - 2\<close> entries, and it adds two entries at most.
\<close>

theorem intern_total:
  assumes "lowercase_ok E" and "table_ok E T" and "table_size T + 2 \<le> 2 ^ 25"
  shows "\<exists>tok T'. intern E h s T = Some (tok, T') \<and> table_size T' \<le> table_size T + 2"
  using assms by (rule intern_total_aux)

theorem intern_total_witness:
  "\<exists>tok T'. intern ascii_env None (str ''Foo'') StringTable_new = Some (tok, T') \<and> table_size T' \<le> 66"
  using intern_total [OF ascii_env_ok table_ok_new, of None "str ''Foo''"] by (simp add: table_size_new)

text \<open>
  Batch interning: \<^verbatim>\<open>intern_batch\<close>, which skips the read lock, returns one token pair
  for each text, in order, and each resolves to its text in the final table.
\<close>

theorem intern_batch_resolves:
  assumes "lowercase_ok E" and "table_ok E T" and "intern_batch E h ss T = Some (toks, T')"
  shows "list_all2 (\<lambda>s tok. get_string h' T' (tok_normal tok) = Some s) ss toks \<and> table_ok E T'"
  using st.run_resolves [of E T h ss toks T' h'] st.run_invar [of E T h ss toks T']
    assms intern_batch_run [OF assms(1,2)] by simp

theorem intern_batch_resolves_witness:
  "\<exists>toks T'. intern_batch ascii_env None [str ''Foo''] StringTable_new = Some (toks, T')
     \<and> list_all2 (\<lambda>s tok. get_string None T' (tok_normal tok) = Some s) [str ''Foo''] toks"
proof -
  obtain tok T' where r: "intern ascii_env None (str ''Foo'') StringTable_new = Some (tok, T')"
    using intern_new_total by blast
  have "intern_batch ascii_env None [str ''Foo''] StringTable_new = Some ([tok], T')"
    unfolding intern_batch_run [OF ascii_env_ok table_ok_new] using r by simp
  with intern_batch_resolves [OF ascii_env_ok table_ok_new this] show ?thesis by blast
qed

text \<open>
  The identifier layout: a base id carries its shard and slot, an overlay id its
  generation, region and index, each reads back, and no base id is taken for an overlay id.
\<close>

theorem id_layout:
  assumes "idx < 64" and "slot < 2 ^ 25"
    and "unat gen < 64" and "unat reg < 256" and "index < 2 ^ 17"
  shows "split_id (shard_id idx (of_nat slot)) = (idx, slot) \<and> \<not> is_overlay (shard_id idx (of_nat slot))
       \<and> split_overlay_id (overlay_id gen reg (of_nat index)) = (gen, reg, index)
       \<and> is_overlay (overlay_id gen reg (of_nat index))"
  using shard_id_layout [OF assms(1,2)] overlay_id_layout [OF assms(3,4,5)] by simp

theorem id_layout_witness:
  "split_id (shard_id 5 (of_nat 77)) = (5, 77) \<and> split_overlay_id (overlay_id 63 255 (of_nat 9)) = (63, 255, 9)"
  using id_layout [of 5 77 63 255 9] by simp

end
