(* ===== verification/Paradox_Ast.thy ===== *)
theory Paradox_Ast
  imports String_Table
begin

text \<open>
  The syntax tree of Paradox scripts, \<^verbatim>\<open>engine/crates/parser/src/ast.rs\<close>.

  A parsed file owns an arena of leaves, leaf values and comments; a clause lists
  \<^verbatim>\<open>Child\<close> indices into it.  Lines and arena indices are natural numbers: they stay below
  \<open>2 ^ 32\<close> for any input shorter than 4 GiB, so the \<^verbatim>\<open>u32\<close> of the source never wraps there.
  A float is the exact decimal number its literal denotes (\<open>decimal\<close>); its rounding to
  \<^verbatim>\<open>f64\<close> is not modelled.

  The inductive predicate \<open>arena_tree\<close> says that a child list is a tree laid out in the
  arena: each index of a range occurs exactly once, in the order of a post-order walk, and
  clauses nest no deeper than a bound.
\<close>

section \<open>Data\<close>

datatype parse_error = Pos (err_line: nat) (err_col: nat) (err_text: ustr)

datatype operator = Equals | GreaterThan | LessThan | GreaterThanOrEqual | LessThanOrEqual
  | NotEqual | EqualEqual | QuestionEqual

fun operator_str :: "operator \<Rightarrow> ustr" where
  "operator_str Equals = str ''=''"
| "operator_str GreaterThan = str ''>''"
| "operator_str LessThan = str ''<''"
| "operator_str GreaterThanOrEqual = str ''>=''"
| "operator_str LessThanOrEqual = str ''<=''"
| "operator_str NotEqual = str ''!=''"
| "operator_str EqualEqual = str ''==''"
| "operator_str QuestionEqual = str ''?=''"

record source_pos =
  pos_line :: nat
  pos_col :: nat

record source_range =
  range_start :: source_pos
  range_end :: source_pos

datatype child = CLeaf nat | CLeafValue nat | CComment nat

record decimal =
  dec_negative :: bool
  dec_digits :: nat       \<comment> \<open>the number is \<open>dec_digits / 10 ^ dec_scale\<close>, with its sign\<close>
  dec_scale :: nat

datatype pvalue =
    VString string_tokens
  | VQString string_tokens
  | VFloat decimal
  | VInt int
  | VBool bool
  | VClause "child list"

datatype color_prefix = Rgb | Hsv | Hsv360

record leaf =
  leaf_key :: string_tokens
  leaf_val :: pvalue
  leaf_op :: operator
  leaf_pos :: source_range
  leaf_val_pos :: source_range
  leaf_color :: "color_prefix option"

record leaf_value =
  lv_value :: pvalue
  lv_pos :: source_range
  lv_color :: "color_prefix option"

record comment_range =
  cr_start :: nat
  cr_end :: nat

record comment =
  comment_range_of :: comment_range
  comment_pos :: source_range

record arena =
  leaves :: "leaf list"
  leaf_values :: "leaf_value list"
  comments :: "comment list"
  comment_pool :: "ustr option"

definition Arena_new :: arena where
  "Arena_new = \<lparr>leaves = [], leaf_values = [], comments = [], comment_pool = None\<rparr>"

definition comment_text :: "arena \<Rightarrow> comment \<Rightarrow> ustr option" where
  "comment_text A c =
     Option.bind (comment_pool A)
       (\<lambda>pool. byte_slice pool (cr_start (comment_range_of c)) (cr_end (comment_range_of c)))"

definition push_leaf :: "leaf \<Rightarrow> arena \<Rightarrow> nat \<times> arena" where
  "push_leaf l A = (length (leaves A), A\<lparr>leaves := leaves A @ [l]\<rparr>)"

definition push_leaf_value :: "leaf_value \<Rightarrow> arena \<Rightarrow> nat \<times> arena" where
  "push_leaf_value l A = (length (leaf_values A), A\<lparr>leaf_values := leaf_values A @ [l]\<rparr>)"

definition push_comment :: "comment \<Rightarrow> arena \<Rightarrow> nat \<times> arena" where
  "push_comment c A = (length (comments A), A\<lparr>comments := comments A @ [c]\<rparr>)"

record keyed_view =
  kc_key :: string_tokens
  kc_children :: "child list"
  kc_pos :: source_range

text \<open>
  \<^verbatim>\<open>Arena::keyed_clause\<close>.  The outer \<open>None\<close> is the panic of indexing the arena out of range.
\<close>

definition keyed_clause :: "arena \<Rightarrow> child \<Rightarrow> keyed_view option option" where
  "keyed_clause A ch =
     (case ch of
        CLeaf i \<Rightarrow>
          if i < length (leaves A)
          then Some
            (case leaf_val (leaves A ! i) of
               VClause cs \<Rightarrow> Some \<lparr>kc_key = leaf_key (leaves A ! i), kc_children = cs,
                                  kc_pos = leaf_pos (leaves A ! i)\<rparr>
             | _ \<Rightarrow> None)
          else None
      | _ \<Rightarrow> Some None)"

record parsed_file =
  pf_arena :: arena
  root_children :: "child list"
  pf_errors :: "parse_error list"
  unclosed_leaf_value_quote_line :: "nat option"
  pf_overlay :: "region_addr option"

definition ParsedFile_new :: "arena \<Rightarrow> child list \<Rightarrow> parse_error list \<Rightarrow> parsed_file" where
  "ParsedFile_new A cs es =
     \<lparr>pf_arena = A, root_children = cs, pf_errors = es, unclosed_leaf_value_quote_line = None,
      pf_overlay = None\<rparr>"

definition file_with_overlay :: "parsed_file \<Rightarrow> region_addr option \<Rightarrow> parsed_file" where
  "file_with_overlay f g = f\<lparr>pf_overlay := g\<rparr>"

section \<open>Positions\<close>

definition pos_le :: "source_pos \<Rightarrow> source_pos \<Rightarrow> bool" where
  "pos_le a b \<longleftrightarrow> pos_line a < pos_line b \<or> (pos_line a = pos_line b \<and> pos_col a \<le> pos_col b)"

lemma pos_le_refl [simp, intro]: "pos_le a a"
  by (simp add: pos_le_def)

lemma pos_le_trans [trans]: "pos_le a b \<Longrightarrow> pos_le b c \<Longrightarrow> pos_le a c"
  by (auto simp: pos_le_def)

definition range_ok :: "source_range \<Rightarrow> bool" where
  "range_ok r \<longleftrightarrow> pos_le (range_start r) (range_end r)"

text \<open>A leaf's value lies inside the leaf, and every range is ordered.\<close>

definition leaf_ranges_ok :: "leaf \<Rightarrow> bool" where
  "leaf_ranges_ok l \<longleftrightarrow>
     pos_le (range_start (leaf_pos l)) (range_start (leaf_val_pos l))
     \<and> range_ok (leaf_val_pos l)
     \<and> pos_le (range_end (leaf_val_pos l)) (range_end (leaf_pos l))"

definition arena_ranges_ok :: "arena \<Rightarrow> bool" where
  "arena_ranges_ok A \<longleftrightarrow>
     (\<forall>l \<in> set (leaves A). leaf_ranges_ok l)
     \<and> (\<forall>l \<in> set (leaf_values A). range_ok (lv_pos l))
     \<and> (\<forall>c \<in> set (comments A). range_ok (comment_pos c))"

section \<open>Trees in an arena\<close>

text \<open>
  \<open>arena_tree k A cs (a, b, c) (a', b', c')\<close>: walking \<open>cs\<close> and, before each leaf or leaf
  value, the clause it holds, meets exactly the leaves \<open>a, \<dots>, a' - 1\<close>, the leaf values
  \<open>b, \<dots>, b' - 1\<close> and the comments \<open>c, \<dots>, c' - 1\<close> of the arena, in that order, with
  at most \<open>k\<close> levels of children.
\<close>

fun clause_children :: "pvalue \<Rightarrow> child list" where
  "clause_children (VClause cs) = cs"
| "clause_children _ = []"

inductive arena_tree ::
  "nat \<Rightarrow> arena \<Rightarrow> child list \<Rightarrow> nat \<times> nat \<times> nat \<Rightarrow> nat \<times> nat \<times> nat \<Rightarrow> bool"
where
  at_Nil: "arena_tree k A [] s s"
| at_Leaf:
    "arena_tree k A (clause_children (leaf_val (leaves A ! i))) s (i, b, c)
     \<Longrightarrow> i < length (leaves A) \<Longrightarrow> arena_tree (Suc k) A cs (Suc i, b, c) s'
     \<Longrightarrow> arena_tree (Suc k) A (CLeaf i # cs) s s'"
| at_LeafValue:
    "arena_tree k A (clause_children (lv_value (leaf_values A ! i))) s (a, i, c)
     \<Longrightarrow> i < length (leaf_values A) \<Longrightarrow> arena_tree (Suc k) A cs (a, Suc i, c) s'
     \<Longrightarrow> arena_tree (Suc k) A (CLeafValue i # cs) s s'"
| at_Comment:
    "i < length (comments A) \<Longrightarrow> arena_tree (Suc k) A cs (a, b, Suc i) s'
     \<Longrightarrow> arena_tree (Suc k) A (CComment i # cs) (a, b, i) s'"

inductive_simps arena_tree_Nil [simp]: "arena_tree k A [] s s'"
inductive_cases arena_tree_ConsE: "arena_tree k A (c # cs) s s'"

definition arena_extends :: "arena \<Rightarrow> arena \<Rightarrow> bool" where
  "arena_extends A B \<longleftrightarrow> prefix (leaves A) (leaves B) \<and> prefix (leaf_values A) (leaf_values B)
     \<and> prefix (comments A) (comments B)"

lemma arena_extends_refl [simp, intro]: "arena_extends A A"
  by (simp add: arena_extends_def)

lemma arena_extends_trans [trans]:
  "arena_extends A B \<Longrightarrow> arena_extends B C \<Longrightarrow> arena_extends A C"
  by (auto simp: arena_extends_def intro: prefix_order.trans)

lemma nth_prefix: "prefix xs ys \<Longrightarrow> i < length xs \<Longrightarrow> ys ! i = xs ! i"
  by (auto simp: prefix_def nth_append)

lemma arena_tree_extends:
  "arena_tree k A cs s s' \<Longrightarrow> arena_extends A B \<Longrightarrow> arena_tree k B cs s s'"
proof (induction rule: arena_tree.induct)
  case (at_Leaf k A i s b c cs s')
  then have "i < length (leaves B)" "leaves B ! i = leaves A ! i"
    by (auto simp: arena_extends_def nth_prefix dest: prefix_length_le)
  with at_Leaf show ?case by (metis arena_tree.at_Leaf)
next
  case (at_LeafValue k A i s a c cs s')
  then have "i < length (leaf_values B)" "leaf_values B ! i = leaf_values A ! i"
    by (auto simp: arena_extends_def nth_prefix dest: prefix_length_le)
  with at_LeafValue show ?case by (metis arena_tree.at_LeafValue)
next
  case (at_Comment i A k cs a b s')
  then have "i < length (comments B)"
    by (auto simp: arena_extends_def dest: prefix_length_le)
  with at_Comment show ?case by (auto intro: arena_tree.at_Comment)
qed (auto intro: arena_tree.intros)

lemma arena_tree_append:
  "arena_tree k A cs s s' \<Longrightarrow> arena_tree k A ds s' s'' \<Longrightarrow> arena_tree k A (cs @ ds) s s''"
  by (induction rule: arena_tree.induct) (auto intro: arena_tree.intros)

end
