(* ===== verification/Paradox_Parser.thy ===== *)
theory Paradox_Parser
  imports Paradox_Ast
begin

text \<open>
  The recursive-descent parser of Paradox scripts, \<^verbatim>\<open>engine/crates/parser/src/parser.rs\<close>.

  The mutable \<^verbatim>\<open>Parser\<close> is the record \<open>parser\<close>, passed and returned by every operation.
  Its \<^verbatim>\<open>Chars\<close> iterator is the text still to read (\<open>p_rest\<close>); a byte position of the source is
  that suffix too, and a slice of the input between two positions is \<open>between\<close>.  The
  string table is a component of the state, and the handle's overlay is the parameter \<open>h\<close>.
  The mutual recursion through \<^verbatim>\<open>parse_clause\<close> and \<^verbatim>\<open>parse_statement\<close> carries fuel, spent once
  for each turn of a clause loop; \<open>None\<close> means that the fuel ran out or that the string table
  panicked, and \<open>parse_string_total\<close> in \<open>Parser_Properties\<close> shows that one more than the
  length of the input is always enough.
\<close>

section \<open>State\<close>

datatype comment_mode = Preserve | Discard

record parser =
  p_rest :: ustr
  p_line :: nat
  p_col :: nat
  p_table :: string_table
  p_arena :: arena
  p_errors :: "parse_error list"
  p_mode :: comment_mode
  p_depth :: nat
  p_unclosed :: "nat option"
  p_pool :: ustr

record cursor =
  c_rest :: ustr
  c_line :: nat
  c_col :: nat
  c_errors_len :: nat

definition Parser_new :: "ustr \<Rightarrow> string_table \<Rightarrow> comment_mode \<Rightarrow> nat \<Rightarrow> parser" where
  "Parser_new input T mode initial_col =
     \<lparr>p_rest = input, p_line = 1, p_col = initial_col, p_table = T, p_arena = Arena_new,
      p_errors = [], p_mode = mode, p_depth = 0, p_unclosed = None, p_pool = []\<rparr>"

definition pos_of :: "parser \<Rightarrow> source_pos" where
  "pos_of p = \<lparr>pos_line = p_line p, pos_col = p_col p\<rparr>"

text \<open>The text between two byte positions, each given by the text that follows it.\<close>

definition between :: "ustr \<Rightarrow> ustr \<Rightarrow> ustr" where
  "between a b = take (length a - length b) a"

definition save :: "parser \<Rightarrow> cursor" where
  "save p = \<lparr>c_rest = p_rest p, c_line = p_line p, c_col = p_col p,
             c_errors_len = length (p_errors p)\<rparr>"

definition restore :: "cursor \<Rightarrow> parser \<Rightarrow> parser" where
  "restore c p = p\<lparr>p_errors := take (c_errors_len c) (p_errors p), p_rest := c_rest c,
                   p_line := c_line c, p_col := c_col c\<rparr>"

definition push_error :: "nat \<Rightarrow> nat \<Rightarrow> ustr \<Rightarrow> parser \<Rightarrow> parser" where
  "push_error l c msg p = p\<lparr>p_errors := p_errors p @ [Pos l c msg]\<rparr>"

definition error_here :: "ustr \<Rightarrow> parser \<Rightarrow> parser" where
  "error_here msg p = push_error (p_line p) (p_col p) msg p"

section \<open>Cursor\<close>

definition step :: "uchar \<Rightarrow> parser \<Rightarrow> parser" where
  "step c p =
     (if c = 10 then p\<lparr>p_line := p_line p + 1, p_col := 0\<rparr>
      else if c \<noteq> 13 then p\<lparr>p_col := min 65535 (p_col p + 1)\<rparr>
      else p)"

definition advance :: "parser \<Rightarrow> uchar option \<times> parser" where
  "advance p =
     (case p_rest p of
        [] \<Rightarrow> (None, p)
      | c # cs \<Rightarrow> (Some c, step c (p\<lparr>p_rest := cs\<rparr>)))"

definition next_if :: "(uchar \<Rightarrow> bool) \<Rightarrow> parser \<Rightarrow> uchar option \<times> parser" where
  "next_if pred p =
     (case p_rest p of
        [] \<Rightarrow> (None, p)
      | c # cs \<Rightarrow> if pred c then (Some c, step c (p\<lparr>p_rest := cs\<rparr>)) else (None, p))"

definition peek :: "parser \<Rightarrow> uchar option" where
  "peek p = (case p_rest p of [] \<Rightarrow> None | c # _ \<Rightarrow> Some c)"

text \<open>\<^verbatim>\<open>peek_n\<close>: the filled part of the buffer.\<close>

definition peek_n :: "nat \<Rightarrow> parser \<Rightarrow> uchar list" where
  "peek_n n p = take n (p_rest p)"

lemma step_simps [simp]:
  "p_rest (step c p) = p_rest p" "p_table (step c p) = p_table p" "p_arena (step c p) = p_arena p"
  "p_errors (step c p) = p_errors p" "p_mode (step c p) = p_mode p" "p_depth (step c p) = p_depth p"
  "p_unclosed (step c p) = p_unclosed p" "p_pool (step c p) = p_pool p"
  by (auto simp: step_def)

lemma next_if_SomeD:
  "next_if pred p = (Some c, q) \<Longrightarrow> p_rest p = c # p_rest q \<and> pred c"
  by (auto simp: next_if_def split: list.splits if_splits)

lemma next_if_shorter: "(Some c, q) = next_if pred p \<Longrightarrow> length (p_rest q) < length (p_rest p)"
  by (drule sym, drule next_if_SomeD) simp

lemma next_if_le: "length (p_rest (snd (next_if pred p))) \<le> length (p_rest p)"
  by (simp add: next_if_def split: list.split)

lemmas next_if_less = le_less_trans [OF next_if_le next_if_shorter]

lemma next_if_NoneD: "next_if pred p = (None, q) \<Longrightarrow> q = p"
  by (auto simp: next_if_def split: list.splits if_splits)

function advance_while :: "(uchar \<Rightarrow> bool) \<Rightarrow> parser \<Rightarrow> parser" where
  "advance_while pred p =
     (case next_if pred p of
        (Some _, q) \<Rightarrow> advance_while pred q
      | (None, q) \<Rightarrow> q)"
  by pat_completeness auto
termination
  by (relation "measure (length \<circ> p_rest \<circ> snd)") (simp_all add: next_if_shorter)

declare advance_while.simps [simp del]

fun advance_n :: "nat \<Rightarrow> parser \<Rightarrow> parser" where
  "advance_n 0 p = p"
| "advance_n (Suc n) p = advance_n n (snd (advance p))"

lemma advance_n_code [code]: "advance_n n p = (if n = 0 then p else advance_n (n - 1) (snd (advance p)))"
  by (cases n) auto

definition skip_whitespace :: "parser \<Rightarrow> parser" where
  "skip_whitespace p = advance_while is_whitespace p"

definition consume_comment :: "parser \<Rightarrow> comment option \<times> parser" where
  "consume_comment p =
     (if peek p = Some (asc CHR ''#'') then
        (let start = pos_of p;
             start_byte = p_rest p;
             p1 = advance_while (\<lambda>c. c \<noteq> 10) p;
             end = pos_of p1;
             text_start = blen (p_pool p1);
             p2 = p1\<lparr>p_pool := p_pool p1 @ between start_byte (p_rest p1)\<rparr>
         in (Some \<lparr>comment_range_of = \<lparr>cr_start = text_start, cr_end = blen (p_pool p2)\<rparr>,
                   comment_pos = \<lparr>range_start = start, range_end = end\<rparr>\<rparr>, p2))
      else (None, p))"

definition skip_comment :: "parser \<Rightarrow> bool \<times> parser" where
  "skip_comment p =
     (if peek p = Some (asc CHR ''#'') then (True, advance_while (\<lambda>c. c \<noteq> 10) p) else (False, p))"

function skip_quoted_body :: "parser \<Rightarrow> parser" where
  "skip_quoted_body p =
     (case next_if (\<lambda>c. c \<noteq> 10) p of
        (None, q) \<Rightarrow> q
      | (Some c, q) \<Rightarrow>
          if c = asc CHR 0x22 then q
          else if c = asc CHR 0x5C
          then skip_quoted_body (snd (next_if (\<lambda>n. n = asc CHR 0x22 \<or> n = asc CHR 0x5C) q))
          else skip_quoted_body q)"
  by pat_completeness auto
termination
  by (relation "measure (length \<circ> p_rest)") (simp_all add: next_if_shorter next_if_less)

declare skip_quoted_body.simps [simp del]

section \<open>Lexing\<close>

definition ascii_class :: "ustr \<Rightarrow> uchar \<Rightarrow> bool" where
  "ascii_class extra c \<longleftrightarrow> is_ascii_alphanumeric c \<or> c \<in> set extra"

definition VALUE_CHAR :: "uchar \<Rightarrow> bool" where
  "VALUE_CHAR = ascii_class (str ''_.-:;'' @ [39] @ str ''[]@+`%/!,<>?$'' @ [92] @ str ''|^*&()'')"

definition KEY_CHAR :: "uchar \<Rightarrow> bool" where
  "KEY_CHAR = ascii_class (str ''_:@.'' @ [34, 45, 39] @ str ''[]!<>$^&|()?'')"

definition is_value_char :: "text_env \<Rightarrow> uchar \<Rightarrow> bool" where
  "is_value_char E c =
     (if is_ascii c then VALUE_CHAR c
      else env_alphanumeric E c \<or> c = 0x161 \<or> c = 0x160 \<or> c = 0x2019)"

definition is_key_char :: "text_env \<Rightarrow> uchar \<Rightarrow> bool" where
  "is_key_char E c = (if is_ascii c then KEY_CHAR c else env_alphanumeric E c)"

definition is_alphanumeric :: "text_env \<Rightarrow> uchar \<Rightarrow> bool" where
  "is_alphanumeric E c = (if is_ascii c then is_ascii_alphanumeric c else env_alphanumeric E c)"

definition is_bare_string_value :: "text_env \<Rightarrow> ustr \<Rightarrow> bool" where
  "is_bare_string_value E value \<longleftrightarrow>
     value \<noteq> [] \<and> value \<noteq> str ''yes'' \<and> value \<noteq> str ''no''
     \<and> (case value of [] \<Rightarrow> False
        | c # _ \<Rightarrow> \<not> (c = asc CHR ''+'' \<or> c = asc CHR ''-'') \<and> \<not> is_ascii_digit c)
     \<and> list_all (is_value_char E) value"

definition match_operator :: "ustr \<Rightarrow> operator option" where
  "match_operator s =
     (if prefix (str ''<='') s then Some LessThanOrEqual
      else if prefix (str ''>='') s then Some GreaterThanOrEqual
      else if prefix (str ''!='') s then Some NotEqual
      else if prefix (str ''=='') s then Some EqualEqual
      else if prefix (str ''?='') s then Some QuestionEqual
      else if prefix (str ''='') s then Some Equals
      else if prefix (str ''>'') s then Some GreaterThan
      else if prefix (str ''<'') s then Some LessThan
      else None)"

definition parse_operator :: "parser \<Rightarrow> operator option \<times> parser" where
  "parse_operator p =
     (case match_operator (p_rest p) of
        Some op \<Rightarrow> (Some op, skip_whitespace (advance_n (length (operator_str op)) p))
      | None \<Rightarrow> (None, p))"

text \<open>The scanning loop of \<^verbatim>\<open>read_quoted\<close>: unescaped buffer, start of the open segment, closed.\<close>

function read_quoted_loop ::
  "ustr option \<Rightarrow> ustr \<Rightarrow> parser \<Rightarrow> ustr option \<times> ustr \<times> bool \<times> parser" where
  "read_quoted_loop unescaped seg p =
     (case next_if (\<lambda>c. c \<noteq> 10) p of
        (None, p1) \<Rightarrow> (unescaped, seg, False, p1)
      | (Some c, p1) \<Rightarrow>
          if c = asc CHR 0x5C then
            (let esc_start = c # p_rest p1 in
             case next_if (\<lambda>e. e = asc CHR 0x22 \<or> e = asc CHR 0x5C) p1 of
               (Some e, p2) \<Rightarrow>
                 (let buf = (case unescaped of None \<Rightarrow> [asc CHR 0x22] | Some b \<Rightarrow> b) in
                  read_quoted_loop (Some (buf @ between seg esc_start @ [e])) (p_rest p2) p2)
             | (None, p2) \<Rightarrow> read_quoted_loop unescaped seg p2)
          else if c = asc CHR 0x22 then (unescaped, seg, True, p1)
          else read_quoted_loop unescaped seg p1)"
  by pat_completeness auto
termination
  by (relation "measure (\<lambda>(u, s, p). length (p_rest p))")
    (auto dest!: next_if_shorter dest: next_if_NoneD [OF sym])

declare read_quoted_loop.simps [simp del]

definition unclosed_message :: "nat \<Rightarrow> ustr" where
  "unclosed_message l = str ''unclosed quoted string starting at line '' @ show_nat l"

definition read_quoted :: "bool \<Rightarrow> parser \<Rightarrow> ustr \<times> parser" where
  "read_quoted report_unclosed p =
     (let quote_start = pos_of p;
          start_byte = p_rest p;
          p1 = snd (advance p);
          (unescaped, seg, closed, p2) = read_quoted_loop None (p_rest p1) p1;
          p3 = (if closed then p2
                else if report_unclosed
                then push_error (pos_line quote_start) (pos_col quote_start)
                       (unclosed_message (pos_line quote_start)) p2
                else p2\<lparr>p_unclosed := (case p_unclosed p2 of
                                          None \<Rightarrow> Some (pos_line quote_start)
                                        | Some l \<Rightarrow> Some l)\<rparr>);
          end_byte = p_rest p3;
          body_end = (if closed then asc CHR 0x22 # end_byte else end_byte)
      in (case unescaped of
            Some buf \<Rightarrow> buf @ between seg body_end @ [asc CHR 0x22]
          | None \<Rightarrow>
              if closed then between start_byte end_byte
              else between start_byte body_end @ [asc CHR 0x22],
          p3))"

function read_key_loop :: "text_env \<Rightarrow> parser \<Rightarrow> parser" where
  "read_key_loop E p =
     (let p1 = advance_while (\<lambda>c. c \<noteq> asc CHR ''?'' \<and> is_key_char E c) p in
      if \<not> prefix (str ''?'') (p_rest p1) \<or> prefix (str ''?='') (p_rest p1) then p1
      else read_key_loop E (snd (advance p1)))"
  by pat_completeness auto

lemma advance_while_suffix: "suffix (p_rest (advance_while pred p)) (p_rest p)"
proof (induction pred p rule: advance_while.induct)
  case (1 pred p)
  show ?case
  proof (cases "next_if pred p")
    case (Pair a q)
    show ?thesis
    proof (cases a)
      case None
      with Pair show ?thesis by (subst advance_while.simps) (auto dest: next_if_NoneD)
    next
      case (Some c)
      with Pair have "p_rest p = c # p_rest q" by (auto dest: next_if_SomeD)
      with Some Pair 1 show ?thesis by (subst advance_while.simps) (simp add: suffix_ConsI)
    qed
  qed
qed

lemma advance_while_le: "length (p_rest (advance_while pred p)) \<le> length (p_rest p)"
  by (rule suffix_length_le [OF advance_while_suffix])

lemma advance_rest: "p_rest (snd (advance p)) = tl (p_rest p)"
  by (simp add: advance_def split: list.split)

lemma advance_while_rest: "p_rest (advance_while P p) = dropWhile P (p_rest p)"
proof (induction "p_rest p" arbitrary: p)
  case Nil
  then show ?case by (subst advance_while.simps) (simp add: next_if_def flip: Nil)
next
  case (Cons c cs)
  then show ?case by (subst advance_while.simps) (simp add: next_if_def flip: Cons(2))
qed

lemma advance_n_rest: "p_rest (advance_n n p) = drop n (p_rest p)"
  by (induction n arbitrary: p) (auto simp: advance_rest drop_Suc)

termination read_key_loop
proof (relation "measure (length \<circ> p_rest \<circ> snd)", simp)
  fix E p x
  assume x: "x = advance_while (\<lambda>c. c \<noteq> asc CHR ''?'' \<and> is_key_char E c) p"
    and g: "\<not> (\<not> prefix (str ''?'') (p_rest x) \<or> prefix (str ''?='') (p_rest x))"
  from g have "0 < length (p_rest x)" by (cases "p_rest x") auto
  with advance_while_le [of "\<lambda>c. c \<noteq> asc CHR ''?'' \<and> is_key_char E c" p, folded x]
  have "length (p_rest x) - 1 < length (p_rest p)" by linarith
  then show "((E, snd (advance x)), E, p) \<in> measure (length \<circ> p_rest \<circ> snd)"
    by (simp add: advance_rest)
qed

declare read_key_loop.simps [simp del]

definition read_key :: "text_env \<Rightarrow> parser \<Rightarrow> ustr option \<times> parser" where
  "read_key E p =
     (if peek p = Some (asc CHR 0x22) then
        (let (raw, p1) = read_quoted True p in (Some raw, skip_whitespace p1))
      else
        (let start = p_rest p;
             p1 = read_key_loop E p;
             s = between start (p_rest p1)
         in if s = [] then (None, p1) else (Some s, skip_whitespace p1)))"

section \<open>Values\<close>

definition intern_str ::
  "text_env \<Rightarrow> handle \<Rightarrow> ustr \<Rightarrow> parser \<Rightarrow> (string_tokens \<times> parser) option" where
  "intern_str E h s p =
     map_option (\<lambda>(tok, T). (tok, p\<lparr>p_table := T\<rparr>)) (intern E h s (p_table p))"

text \<open>\<^verbatim>\<open>str::parse\<close> for \<^verbatim>\<open>i64\<close> and, on the sign, digits and dot the caller lets through, for \<^verbatim>\<open>f64\<close>.\<close>

definition split_sign :: "ustr \<Rightarrow> bool \<times> ustr" where
  "split_sign s =
     (case s of
        c # cs \<Rightarrow> if c = asc CHR ''-'' then (True, cs) else if c = asc CHR ''+'' then (False, cs) else (False, s)
      | [] \<Rightarrow> (False, []))"

definition parse_i64 :: "ustr \<Rightarrow> int option" where
  "parse_i64 s =
     (let (neg, ds) = split_sign s;
          v = (if neg then - int (digits_value ds) else int (digits_value ds))
      in if ds \<noteq> [] \<and> list_all is_ascii_digit ds \<and> - (2 ^ 63) \<le> v \<and> v < 2 ^ 63 then Some v else None)"

definition parse_f64 :: "ustr \<Rightarrow> decimal option" where
  "parse_f64 s =
     (let (neg, body) = split_sign s;
          (whole, frac) = (case split_once (asc CHR ''.'') body of
                             Some parts \<Rightarrow> parts | None \<Rightarrow> (body, []))
      in if whole @ frac \<noteq> [] \<and> list_all is_ascii_digit (whole @ frac)
         then Some \<lparr>dec_negative = neg, dec_digits = digits_value (whole @ frac), dec_scale = length frac\<rparr>
         else None)"

function read_number :: "bool \<Rightarrow> parser \<Rightarrow> parser" where
  "read_number had_dot p =
     (case next_if (\<lambda>c. is_ascii_digit c \<or> (c = asc CHR ''.'' \<and> \<not> had_dot)) p of
        (Some c, q) \<Rightarrow> read_number (had_dot \<or> c = asc CHR ''.'') q
      | (None, q) \<Rightarrow> q)"
  by pat_completeness auto
termination
  by (relation "measure (length \<circ> p_rest \<circ> snd)") (simp_all add: next_if_shorter)

declare read_number.simps [simp del]

definition parse_number_or_string ::
  "text_env \<Rightarrow> handle \<Rightarrow> parser \<Rightarrow> (pvalue option \<times> parser) option" where
  "parse_number_or_string E h p =
     (let num_saved = save p;
          num_start = p_rest p;
          p1 = snd (next_if (\<lambda>c. c = asc CHR ''-'' \<or> c = asc CHR ''+'') p);
          p2 = read_number False p1;
          num_str = between num_start (p_rest p2);
          num_token_ends = (case peek p2 of None \<Rightarrow> True | Some c \<Rightarrow> \<not> is_value_char E c);
          num_value =
            (if num_token_ends \<and> num_str \<noteq> [] \<and> num_str \<noteq> str ''-'' \<and> num_str \<noteq> str ''+'' then
               (case parse_i64 num_str of
                  Some i \<Rightarrow> Some (VInt i)
                | None \<Rightarrow> map_option VFloat (parse_f64 num_str))
             else None)
      in case num_value of
           Some v \<Rightarrow> Some (Some v, p2)
         | None \<Rightarrow>
             (let p3 = restore num_saved p2;
                  start = p_rest p3;
                  p4 = advance_while (is_value_char E) p3;
                  s = between start (p_rest p4)
              in if s = [] then Some (None, p4)
                 else do { (tokens, p5) \<leftarrow> intern_str E h s p4; Some (Some (VString tokens), p5) }))"

definition parse_quoted_value ::
  "text_env \<Rightarrow> handle \<Rightarrow> bool \<Rightarrow> parser \<Rightarrow> (pvalue \<times> parser) option" where
  "parse_quoted_value E h leafvalue p =
     (let (raw, p1) = read_quoted (\<not> leafvalue) p in
      do { (tokens, p2) \<leftarrow> intern_str E h raw p1; Some (VQString tokens, p2) })"

definition parse_bool_keyword :: "text_env \<Rightarrow> uchar list \<Rightarrow> parser \<Rightarrow> pvalue option \<times> parser" where
  "parse_bool_keyword E peek7 p =
     (let ends = (\<lambda>q. case peek q of Some c \<Rightarrow> \<not> is_value_char E c | None \<Rightarrow> True) in
      if length peek7 \<ge> 3 \<and> peek7 ! 0 = asc CHR ''y'' \<and> peek7 ! 1 = asc CHR ''e'' \<and> peek7 ! 2 = asc CHR ''s''
         \<and> ends (advance_n 3 p)
      then (Some (VBool True), advance_n 3 p)
      else if length peek7 \<ge> 2 \<and> peek7 ! 0 = asc CHR ''n'' \<and> peek7 ! 1 = asc CHR ''o''
         \<and> ends (advance_n 2 p)
      then (Some (VBool False), advance_n 2 p)
      else (None, p))"

definition parse_metaprogramming ::
  "text_env \<Rightarrow> handle \<Rightarrow> parser \<Rightarrow> (pvalue option \<times> parser) option" where
  "parse_metaprogramming E h p =
     (if peek p \<noteq> Some (asc CHR ''@'') then Some (None, p) else
      let start = p_rest p; p1 = snd (advance p) in
      if peek p1 \<noteq> Some (asc CHR 0x5C) then Some (None, p1) else
      let p2 = snd (advance p1) in
      if peek p2 \<noteq> Some (asc CHR ''['') then Some (None, p2) else
      let p3 = snd (advance p2);
          p4 = advance_while (\<lambda>c. c \<noteq> asc CHR '']'') p3
      in case next_if (\<lambda>c. c = asc CHR '']'') p4 of
           (None, p5) \<Rightarrow>
             Some (None, error_here (str ''unclosed metaprogramming bracket: expected '' @ [39] @ str '']'' @ [39]) p5)
         | (Some _, p5) \<Rightarrow>
             do { (tokens, p6) \<leftarrow> intern_str E h (between start (p_rest p5)) p5;
                  Some (Some (VString tokens), p6) })"

definition finish_value ::
  "source_pos \<Rightarrow> pvalue \<Rightarrow> color_prefix option \<Rightarrow> parser
   \<Rightarrow> (pvalue \<times> source_range \<times> color_prefix option) \<times> parser" where
  "finish_value start v cp p =
     ((v, \<lparr>range_start = start, range_end = pos_of p\<rparr>, cp), skip_whitespace p)"

definition finish_opt ::
  "source_pos \<Rightarrow> pvalue option \<times> parser
   \<Rightarrow> (pvalue \<times> source_range \<times> color_prefix option) option \<times> parser" where
  "finish_opt start r =
     (case r of
        (Some v, p) \<Rightarrow> map_prod Some id (finish_value start v None p)
      | (None, p) \<Rightarrow> (None, p))"

section \<open>Clauses and statements\<close>

definition MAX_CLAUSE_DEPTH :: nat where "MAX_CLAUSE_DEPTH = 256"

definition unclosed_clause_message :: ustr where
  "unclosed_clause_message =
     str ''unclosed clause: expected '' @ [39] @ str ''}'' @ [39] @ str '' before end of file''"

lemma skip_quoted_body_suffix: "suffix (p_rest (skip_quoted_body p)) (p_rest p)"
proof (induction p rule: skip_quoted_body.induct)
  case (1 p)
  have sub: "suffix (p_rest (snd (next_if P q))) (p_rest q)" for P q
    by (auto simp: next_if_def suffix_ConsI split: list.splits)
  show ?case
  proof (cases "next_if (\<lambda>c. c \<noteq> 10) p")
    case (Pair a q)
    show ?thesis
    proof (cases a)
      case None
      with Pair show ?thesis by (subst skip_quoted_body.simps) (auto dest: next_if_NoneD)
    next
      case (Some c)
      with Pair have "suffix (p_rest q) (p_rest p)" by (auto dest!: next_if_SomeD simp: suffix_ConsI)
      with Some Pair 1 sub show ?thesis
        by (subst skip_quoted_body.simps) (auto intro: suffix_order.trans
          suffix_order.trans [OF suffix_order.trans [OF _ sub]])
    qed
  qed
qed

text \<open>The loop of \<^verbatim>\<open>skip_clause\<close>, with the number of clauses still open.\<close>

function skip_clause_loop :: "nat \<Rightarrow> parser \<Rightarrow> parser" where
  "skip_clause_loop open_count p =
     (if open_count = 0 then p else
      case advance p of
        (None, q) \<Rightarrow> error_here unclosed_clause_message q
      | (Some c, q) \<Rightarrow>
          if c = asc CHR ''#'' then skip_clause_loop open_count (advance_while (\<lambda>c. c \<noteq> 10) q)
          else if c = asc CHR 0x22 then skip_clause_loop open_count (skip_quoted_body q)
          else if c = asc CHR ''{'' then skip_clause_loop (open_count + 1) q
          else if c = asc CHR ''}'' then skip_clause_loop (open_count - 1) q
          else skip_clause_loop open_count q)"
  by pat_completeness auto

lemma advance_SomeD: "advance p = (Some c, q) \<Longrightarrow> p_rest p = c # p_rest q"
  by (auto simp: advance_def split: list.splits)

lemma advance_shorter: "(Some c, q) = advance p \<Longrightarrow> length (p_rest q) < length (p_rest p)"
  by (drule sym, drule advance_SomeD) simp

termination skip_clause_loop
  by (relation "measure (length \<circ> p_rest \<circ> snd)")
    (simp_all add: advance_shorter le_less_trans [OF advance_while_le advance_shorter]
      le_less_trans [OF suffix_length_le [OF skip_quoted_body_suffix] advance_shorter])

declare skip_clause_loop.simps [simp del]

definition skip_clause :: "parser \<Rightarrow> parser" where
  "skip_clause p = skip_clause_loop 1 (snd (advance p))"

text \<open>Leading whitespace and comments of \<^verbatim>\<open>parse_value\<close>.\<close>

function skip_comments :: "parser \<Rightarrow> parser" where
  "skip_comments p =
     (let p1 = skip_whitespace p in
      case skip_comment p1 of
        (True, p2) \<Rightarrow> skip_comments p2
      | (False, p2) \<Rightarrow> p2)"
  by pat_completeness auto

lemma skip_whitespace_le: "length (p_rest (skip_whitespace p)) \<le> length (p_rest p)"
  by (simp add: skip_whitespace_def advance_while_le)

lemma skip_comment_shorter:
  assumes "(True, q) = skip_comment p" shows "length (p_rest q) < length (p_rest p)"
proof -
  from assms have hash: "peek p = Some (asc CHR ''#'')" and q: "q = advance_while (\<lambda>c. c \<noteq> 10) p"
    by (auto simp: skip_comment_def split: if_splits)
  from hash obtain cs where rest: "p_rest p = asc CHR ''#'' # cs"
    by (auto simp: peek_def split: list.splits)
  then obtain r where n: "next_if (\<lambda>c. c \<noteq> 10) p = (Some (asc CHR ''#''), r)"
    by (simp add: next_if_def)
  then have "q = advance_while (\<lambda>c. c \<noteq> 10) r" unfolding q by (subst advance_while.simps) simp
  with advance_while_le [of "\<lambda>c. c \<noteq> 10" r] next_if_shorter [OF n [symmetric]] show ?thesis by simp
qed

termination skip_comments
  by (relation "measure (length \<circ> p_rest)")
    (simp_all add: less_le_trans [OF skip_comment_shorter skip_whitespace_le])

declare skip_comments.simps [simp del]

definition add_leaf :: "leaf \<Rightarrow> child list \<Rightarrow> parser \<Rightarrow> child list \<times> parser" where
  "add_leaf l out p = (let (idx, A) = push_leaf l (p_arena p) in (out @ [CLeaf idx], p\<lparr>p_arena := A\<rparr>))"

definition add_leaf_value :: "leaf_value \<Rightarrow> child list \<Rightarrow> parser \<Rightarrow> child list \<times> parser" where
  "add_leaf_value l out p =
     (let (idx, A) = push_leaf_value l (p_arena p) in (out @ [CLeafValue idx], p\<lparr>p_arena := A\<rparr>))"

definition add_comment :: "comment \<Rightarrow> child list \<Rightarrow> parser \<Rightarrow> child list \<times> parser" where
  "add_comment c out p =
     (let (idx, A) = push_comment c (p_arena p) in (out @ [CComment idx], p\<lparr>p_arena := A\<rparr>))"

definition no_value_message :: "handle \<Rightarrow> string_tokens \<Rightarrow> parser \<Rightarrow> ustr" where
  "no_value_message h key p =
     str ''key '' @ [39]
     @ (case get_string h (p_table p) (tok_normal key) of Some s \<Rightarrow> s | None \<Rightarrow> [])
     @ [39] @ str '' has no value after '' @ [39] @ str ''='' @ [39]"

definition key_eats_structure :: "ustr \<Rightarrow> bool" where
  "key_eats_structure raw_key \<longleftrightarrow> list_ex (\<lambda>c. c \<in> set (str ''=<>!?{}'')) raw_key"

definition is_keyword3 :: "string \<Rightarrow> uchar list \<Rightarrow> bool" where
  "is_keyword3 w peek7 \<longleftrightarrow>
     length peek7 \<ge> 3 \<and> ascii_lower (peek7 ! 0) = asc (w ! 0)
     \<and> ascii_lower (peek7 ! 1) = asc (w ! 1) \<and> ascii_lower (peek7 ! 2) = asc (w ! 2)"

text \<open>The seven characters \<^verbatim>\<open>parse_value\<close> peeks at when a keyword can start here.\<close>

definition keyword_window :: "parser \<Rightarrow> uchar list" where
  "keyword_window p =
     (case peek p of
        Some c \<Rightarrow> if c \<in> set (str ''rRhHyn@'') then peek_n 7 p else []
      | None \<Rightarrow> [])"

text \<open>The color keyword, with or without its \<^verbatim>\<open>360\<close>, is not followed by a letter or digit.\<close>

definition color_keyword_ends :: "text_env \<Rightarrow> uchar list \<Rightarrow> bool" where
  "color_keyword_ends E peek7 \<longleftrightarrow>
     (let kw_len = (if length peek7 \<ge> 6 \<and> peek7 ! 3 = asc CHR ''3'' \<and> peek7 ! 4 = asc CHR ''6''
                       \<and> peek7 ! 5 = asc CHR ''0'' then 6 else 3)
      in if length peek7 > kw_len then \<not> is_alphanumeric E (peek7 ! kw_len) else True)"

text \<open>The part of \<^verbatim>\<open>parse_color_clause\<close> before the clause: keyword, \<^verbatim>\<open>360\<close>, equals sign.\<close>

definition skip_color_keyword :: "parser \<Rightarrow> bool \<times> parser" where
  "skip_color_keyword p =
     (let p1 = skip_whitespace (advance_n 3 p);
          has_360_suffix = (peek_n 3 p1 = str ''360'');
          p2 = (if has_360_suffix then skip_whitespace (advance_n 3 p1) else p1);
          p3 = (if peek p2 = Some (asc CHR ''='') then skip_whitespace (snd (advance p2)) else p2)
      in (has_360_suffix, p3))"

text \<open>
  The mutually recursive part.  \<open>clause_loop\<close> is the loop of \<^verbatim>\<open>parse_clause\<close>;
  \<open>statement_value\<close> is the part of \<^verbatim>\<open>parse_statement\<close> after the key was given up.
\<close>

function (sequential)
  parse_clause :: "text_env \<Rightarrow> handle \<Rightarrow> nat \<Rightarrow> parser \<Rightarrow> (pvalue option \<times> parser) option"
  and clause_loop :: "text_env \<Rightarrow> handle \<Rightarrow> nat \<Rightarrow> child list \<Rightarrow> parser \<Rightarrow> (child list \<times> parser) option"
  and parse_color_clause ::
    "text_env \<Rightarrow> handle \<Rightarrow> nat \<Rightarrow> parser \<Rightarrow> ((pvalue \<times> bool) option \<times> parser) option"
  and parse_value ::
    "text_env \<Rightarrow> handle \<Rightarrow> nat \<Rightarrow> bool \<Rightarrow> parser
     \<Rightarrow> ((pvalue \<times> source_range \<times> color_prefix option) option \<times> parser) option"
  and statement_value ::
    "text_env \<Rightarrow> handle \<Rightarrow> nat \<Rightarrow> source_pos \<Rightarrow> bool \<Rightarrow> child list \<Rightarrow> parser
     \<Rightarrow> (child list \<times> parser) option"
  and parse_statement ::
    "text_env \<Rightarrow> handle \<Rightarrow> nat \<Rightarrow> child list \<Rightarrow> parser \<Rightarrow> (child list \<times> parser) option"
where
  "parse_clause E h n p =
     (if peek p \<noteq> Some (asc CHR ''{'') then Some (None, p)
      else if p_depth p \<ge> MAX_CLAUSE_DEPTH then
        Some (Some (VClause []),
          skip_clause (error_here
            (str ''clause nesting deeper than the limit of '' @ show_nat MAX_CLAUSE_DEPTH
             @ str ''; this subtree was skipped'') p))
      else
        (let p1 = skip_whitespace (snd (advance p)) in
         do { (children, p2) \<leftarrow> clause_loop E h n [] (p1\<lparr>p_depth := p_depth p1 + 1\<rparr>);
              Some (Some (VClause children), p2\<lparr>p_depth := p_depth p2 - 1\<rparr>) }))"
| "clause_loop E h 0 children p = None"
| "clause_loop E h (Suc n) children p =
     (let p1 = skip_whitespace p in
      case peek p1 of
        None \<Rightarrow> Some (children, error_here unclosed_clause_message p1)
      | Some c \<Rightarrow>
          if c = asc CHR ''}'' then Some (children, snd (advance p1))
          else do { (children1, p2) \<leftarrow> parse_statement E h n children p1;
                    clause_loop E h n children1 p2 })"
| "parse_color_clause E h n p =
     (let (has_360_suffix, p1) = skip_color_keyword p in
      do { (r, p2) \<leftarrow> parse_clause E h n p1;
           Some (map_option (\<lambda>v. (v, has_360_suffix)) r, p2) })"
| "parse_value E h n leafvalue p0 =
     (let p = skip_comments p0;
          start = pos_of p;
          peek7 = keyword_window p
      in if peek p = Some (asc CHR ''{'') then
           map_option (finish_opt start) (parse_clause E h n p)
         else if peek p = Some (asc CHR 0x22) then
           do { (v, p1) \<leftarrow> parse_quoted_value E h leafvalue p;
                Some (finish_opt start (Some v, p1)) }
         else do {
           (color, p1) \<leftarrow>
             (if (is_keyword3 ''rgb'' peek7 \<or> is_keyword3 ''hsv'' peek7) \<and> color_keyword_ends E peek7
              then parse_color_clause E h n p else Some (None, p));
           case color of
             Some (v, has_360_suffix) \<Rightarrow>
               Some (map_prod Some id (finish_value start v
                 (Some (if is_keyword3 ''rgb'' peek7 then Rgb
                        else if has_360_suffix then Hsv360 else Hsv)) p1))
           | None \<Rightarrow>
               (let p2 = restore (save p) p1 in
                case parse_bool_keyword E peek7 p2 of
                  (Some b, p3) \<Rightarrow> Some (finish_opt start (Some b, p3))
                | (None, p3) \<Rightarrow>
                    if length peek7 \<ge> 3 \<and> peek7 ! 0 = asc CHR ''@'' \<and> peek7 ! 1 = asc CHR 0x5C
                       \<and> peek7 ! 2 = asc CHR ''[''
                    then map_option (finish_opt start) (parse_metaprogramming E h p3)
                    else map_option (finish_opt start) (parse_number_or_string E h p3))
         })"
| "statement_value E h n saved eats out p =
     do { (r, p1) \<leftarrow> parse_value E h n True p;
          case r of
            Some (v, value_pos, color) \<Rightarrow>
              (let p2 = (if eats
                         then push_error (pos_line saved) (pos_col saved)
                                (unclosed_message (pos_line saved)) p1
                         else p1)
               in Some (add_leaf_value \<lparr>lv_value = v, lv_pos = value_pos, lv_color = color\<rparr> out p2))
          | None \<Rightarrow> Some (out, snd (advance p1)) }"
| "parse_statement E h n out p0 =
     (let p = skip_whitespace p0 in
      if peek p = Some (asc CHR ''#'') then
        (if p_mode p = Preserve then
           (case consume_comment p of
              (Some c, p1) \<Rightarrow> Some (add_comment c out p1)
            | (None, p1) \<Rightarrow> Some (out, p1))
         else Some (out, snd (skip_comment p)))
      else
        (let saved = pos_of p; saved_cursor = save p in
         case read_key E p of
           (None, p1) \<Rightarrow> statement_value E h n saved False out p1
         | (Some raw_key, p1) \<Rightarrow>
             (let eats = (length (p_errors p1) > c_errors_len saved_cursor \<and> key_eats_structure raw_key)
              in case parse_operator p1 of
                   (Some op, p2) \<Rightarrow>
                     do { (key, p3) \<leftarrow> intern_str E h raw_key p2;
                          (r, p4) \<leftarrow> parse_value E h n False p3;
                          case r of
                            Some (v, value_pos, color) \<Rightarrow>
                              Some (add_leaf \<lparr>leaf_key = key, leaf_val = v, leaf_op = op,
                                leaf_pos = \<lparr>range_start = saved, range_end = pos_of p4\<rparr>,
                                leaf_val_pos = value_pos, leaf_color = color\<rparr> out p4)
                          | None \<Rightarrow>
                              do { (empty, p5) \<leftarrow> intern_str E h [] p4;
                                   let end = pos_of p4;
                                       (out1, p6) = add_leaf \<lparr>leaf_key = key, leaf_val = VString empty,
                                         leaf_op = op, leaf_pos = \<lparr>range_start = saved, range_end = end\<rparr>,
                                         leaf_val_pos = \<lparr>range_start = end, range_end = end\<rparr>,
                                         leaf_color = None\<rparr> out p5
                                   in Some (out1, push_error (pos_line saved) (pos_col saved)
                                                    (no_value_message h key p6) p6) } }
                 | (None, p1') \<Rightarrow>
                     (let p2 = skip_whitespace p1' in
                      if peek p2 = Some (asc CHR ''{'') then
                        do { (key, p3) \<leftarrow> intern_str E h raw_key p2;
                             (r, p4) \<leftarrow> parse_clause E h n p3;
                             case r of
                               Some v \<Rightarrow>
                                 (let p5 = skip_whitespace p4 in
                                  Some (add_leaf \<lparr>leaf_key = key, leaf_val = v, leaf_op = Equals,
                                    leaf_pos = \<lparr>range_start = saved, range_end = pos_of p5\<rparr>,
                                    leaf_val_pos = \<lparr>range_start = pos_of p3, range_end = pos_of p4\<rparr>,
                                    leaf_color = None\<rparr> out p5))
                             | None \<Rightarrow> statement_value E h n saved eats out (restore saved_cursor p4) }
                      else statement_value E h n saved eats out (restore saved_cursor p2)))))"
  by pat_completeness auto
termination
  by (relation "measures
      [\<lambda>x. case x of
          Inl (Inl (E, h, n, p)) \<Rightarrow> n | Inl (Inr (Inl (E, h, n, cs, p))) \<Rightarrow> n
        | Inl (Inr (Inr (E, h, n, p))) \<Rightarrow> n | Inr (Inl (E, h, n, l, p)) \<Rightarrow> n
        | Inr (Inr (Inl (E, h, n, s, e, cs, p))) \<Rightarrow> n | Inr (Inr (Inr (E, h, n, cs, p))) \<Rightarrow> n,
       \<lambda>x. case x of
          Inl (Inl (E, h, n, p)) \<Rightarrow> 1 | Inl (Inr (Inl (E, h, n, cs, p))) \<Rightarrow> 0
        | Inl (Inr (Inr (E, h, n, p))) \<Rightarrow> 2 | Inr (Inl (E, h, n, l, p)) \<Rightarrow> 3
        | Inr (Inr (Inl (E, h, n, s, e, cs, p))) \<Rightarrow> 4 | Inr (Inr (Inr (E, h, n, cs, p))) \<Rightarrow> 5]")
    simp_all

declare parse_clause.simps [simp del] clause_loop.simps [simp del] parse_color_clause.simps [simp del]
  parse_value.simps [simp del] statement_value.simps [simp del] parse_statement.simps [simp del]

section \<open>Files\<close>

text \<open>The loop of \<^verbatim>\<open>Parser::parse\<close>, with fuel for its turns and for the clause loops.\<close>

fun parse_loop ::
  "text_env \<Rightarrow> handle \<Rightarrow> nat \<Rightarrow> child list \<Rightarrow> parser \<Rightarrow> (child list \<times> parser) option" where
  "parse_loop E h 0 root p = None"
| "parse_loop E h (Suc n) root p =
     (if peek p = None then Some (root, p)
      else do { (root1, p1) \<leftarrow> parse_statement E h n root p; parse_loop E h n root1 p1 })"

definition parse :: "text_env \<Rightarrow> handle \<Rightarrow> parser \<Rightarrow> (parsed_file \<times> string_table) option" where
  "parse E h p0 =
     (let p = skip_whitespace p0 in
      do { (root, p1) \<leftarrow> parse_loop E h (Suc (length (p_rest p))) [] p;
           Some (\<lparr>pf_arena = (p_arena p1)\<lparr>comment_pool := (if p_pool p1 = [] then None else Some (p_pool p1))\<rparr>,
                  root_children = root, pf_errors = p_errors p1,
                  unclosed_leaf_value_quote_line = p_unclosed p1,
                  pf_overlay = overlay_guard h\<rparr>, p_table p1) })"

definition parse_string_with_comment_mode ::
  "text_env \<Rightarrow> handle \<Rightarrow> comment_mode \<Rightarrow> ustr \<Rightarrow> string_table \<Rightarrow> (parsed_file \<times> string_table) option"
where
  "parse_string_with_comment_mode E h mode input T =
     (let has_bom = prefix [0xFEFF] input;
          stripped = (case strip_prefix [0xFEFF] input of Some s \<Rightarrow> s | None \<Rightarrow> input)
      in parse E h (Parser_new stripped T mode (if has_bom then 1 else 0)))"

definition parse_string ::
  "text_env \<Rightarrow> handle \<Rightarrow> ustr \<Rightarrow> string_table \<Rightarrow> (parsed_file \<times> string_table) option" where
  "parse_string E h input T = parse_string_with_comment_mode E h Preserve input T"

definition parse_string_without_comments ::
  "text_env \<Rightarrow> handle \<Rightarrow> ustr \<Rightarrow> string_table \<Rightarrow> (parsed_file \<times> string_table) option" where
  "parse_string_without_comments E h input T = parse_string_with_comment_mode E h Discard input T"

end
