(* ===== verification/Parser_Relations.thy ===== *)
theory Parser_Relations
  imports Paradox_Parser
begin

text \<open>
  How one run of the parser relates the state before to the state after, for every operation of
  \<open>Paradox_Parser\<close>.  \<open>post\<close> says what a run that returns returns.  Three locales, each
  extending the one before, take a relation that the primitive moves of the cursor, the error
  list and the arena keep, and give it for the scanners, the lexer and the mutually recursive
  parser; the interpretations instantiate it with "the arena is only extended, the depth comes
  back", "the text only shrinks", "the position only moves forward", "the string table only
  grows" and "the comment pool is the comments' texts in order".
\<close>

section \<open>Outcomes\<close>

definition post :: "('a \<times> 's) option \<Rightarrow> ('a \<Rightarrow> 's \<Rightarrow> bool) \<Rightarrow> bool" where
  "post m Q \<longleftrightarrow> (\<forall>r q. m = Some (r, q) \<longrightarrow> Q r q)"

lemma post_Some [simp]: "post (Some x) Q \<longleftrightarrow> Q (fst x) (snd x)"
  by (cases x) (auto simp: post_def)

lemma post_None [simp]: "post None Q"
  by (simp add: post_def)

lemma post_bind [simp]: "post (m \<bind> f) Q \<longleftrightarrow> post m (\<lambda>r q. post (f (r, q)) Q)"
  by (auto simp: post_def Option.bind_eq_Some_conv)

lemma post_map [simp]:
  "post (map_option g m) Q \<longleftrightarrow> post m (\<lambda>r q. Q (fst (g (r, q))) (snd (g (r, q))))"
  by (cases m) auto

lemma post_if [simp]: "post (if b then x else y) Q \<longleftrightarrow> (b \<longrightarrow> post x Q) \<and> (\<not> b \<longrightarrow> post y Q)"
  by simp

lemma post_mono: "post m P \<Longrightarrow> (\<And>r q. P r q \<Longrightarrow> Q r q) \<Longrightarrow> post m Q"
  by (auto simp: post_def)

lemma post_LetI: "(\<And>x. x = e \<Longrightarrow> post (f x) Q) \<Longrightarrow> post (Let e f) Q"
  by simp

lemma post_ifI: "(b \<Longrightarrow> post x Q) \<Longrightarrow> (\<not> b \<Longrightarrow> post y Q) \<Longrightarrow> post (if b then x else y) Q"
  by simp

lemma post_optI:
  "(x = None \<Longrightarrow> post a Q) \<Longrightarrow> (\<And>y. x = Some y \<Longrightarrow> post (f y) Q)
   \<Longrightarrow> post (case x of None \<Rightarrow> a | Some y \<Rightarrow> f y) Q"
  by (cases x) auto

lemma post_prodI: "post (f (fst x) (snd x)) Q \<Longrightarrow> post (case x of (a, b) \<Rightarrow> f a b) Q"
  by (simp add: case_prod_unfold)

lemma post_bindI: "post m (\<lambda>r q. post (f (r, q)) Q) \<Longrightarrow> post (m \<bind> f) Q"
  by simp

lemma post_mapI:
  "post m (\<lambda>r q. Q (fst (g (r, q))) (snd (g (r, q)))) \<Longrightarrow> post (map_option g m) Q"
  by simp

lemma post_SomeI: "Q (fst x) (snd x) \<Longrightarrow> post (Some x) Q"
  by simp

lemmas post_intros = post_LetI post_ifI post_optI post_prodI post_bindI post_mapI post_SomeI post_None

lemma postD: "post m Q \<Longrightarrow> m = Some (r, q) \<Longrightarrow> Q r q"
  by (simp add: post_def)

section \<open>Relations kept by every operation\<close>

text \<open>
  A \<open>scan_relation\<close> relates a parser state to every state that moving the cursor, restoring it
  and reporting errors reach from it; a \<open>lexer_relation\<close> also survives interning, and a
  \<open>parse_relation\<close> what the statements add to the arena.
\<close>

locale scan_relation =
  fixes R :: "parser \<Rightarrow> parser \<Rightarrow> bool"
  assumes R_refl: "R p p"
    and R_trans: "R p q \<Longrightarrow> R q r \<Longrightarrow> R p r"
    and R_step: "p_rest p = c # cs \<Longrightarrow> R p (step c (p\<lparr>p_rest := cs\<rparr>))"
    and R_errors: "R p (p\<lparr>p_errors := es\<rparr>)"
    and R_unclosed: "R p (p\<lparr>p_unclosed := u\<rparr>)"
    and R_restore: "R p q \<Longrightarrow> R p (restore (save p) q)"
begin

lemma R_push_error: "R p (push_error l c m p)"
  by (simp add: push_error_def R_errors)

lemma R_error_here: "R p (error_here m p)"
  by (simp add: error_here_def R_push_error)

lemma R_advance: "R p (snd (advance p))"
  by (auto simp: advance_def R_refl R_step split: list.split)

lemma R_next_if: "R p (snd (next_if pred p))"
  by (auto simp: next_if_def R_refl R_step split: list.split)

lemma R_next_ifD: "next_if pred p = (r, q) \<Longrightarrow> R p q"
  using R_next_if [of p pred] by simp

lemma R_advance_while: "R p (advance_while pred p)"
proof (induction pred p rule: advance_while.induct)
  case (1 pred p)
  then show ?case
    by (subst advance_while.simps) (auto split: prod.split option.split intro: R_next_ifD R_trans)
qed

lemma R_advance_n: "R p (advance_n n p)"
  by (induction n arbitrary: p) (auto intro: R_refl R_trans R_advance)

lemma R_skip_whitespace: "R p (skip_whitespace p)"
  by (simp add: skip_whitespace_def R_advance_while)

lemma R_skip_comment: "R p (snd (skip_comment p))"
  by (auto simp: skip_comment_def R_refl R_advance_while)

lemma R_next_if2: "next_if pred p = (r, q) \<Longrightarrow> R p (snd (next_if pred' q))"
  by (rule R_trans [OF R_next_ifD R_next_if])

lemma R_skip_quoted_body: "R p (skip_quoted_body p)"
proof (induction "length (p_rest p)" arbitrary: p rule: less_induct)
  case less
  have IH: "R p (skip_quoted_body q)" if "R p q" "length (p_rest q) < length (p_rest p)" for q
    using R_trans [OF that(1) less(1) [OF that(2)]] .
  show ?case
    by (subst skip_quoted_body.simps)
      (auto split: prod.split option.split intro: R_next_ifD
        intro!: IH R_next_if2 simp: next_if_shorter [OF sym] next_if_less [OF sym])
qed

lemma R_parse_operator: "R p (snd (parse_operator p))"
  by (auto simp: parse_operator_def R_refl intro: R_trans R_skip_whitespace R_advance_n split: option.split)

lemma R_read_quoted_loop: "R p (snd (snd (snd (read_quoted_loop u s p))))"
proof (induction "length (p_rest p)" arbitrary: u s p rule: less_induct)
  case less
  have IH: "R p (snd (snd (snd (read_quoted_loop u s q))))"
    if "R p q" "length (p_rest q) < length (p_rest p)" for u s q
    using R_trans [OF that(1) less(1) [OF that(2)]] .
  show ?case
  proof (cases "next_if (\<lambda>c. c \<noteq> 10) p")
    case (Pair a p1)
    note R1 = R_next_ifD [OF Pair]
    show ?thesis
    proof (cases a)
      case (Some c)
      note l1 = next_if_shorter [OF Pair [unfolded Some, symmetric]]
      obtain b p2 where n2: "next_if (\<lambda>e. e = asc CHR 0x22 \<or> e = asc CHR 0x5C) p1 = (b, p2)"
        by fastforce
      with next_if_le [of _ p1] l1 have "length (p_rest p2) < length (p_rest p)"
        by (metis le_less_trans snd_conv)
      with R_trans [OF R1 R_next_ifD [OF n2]] R1 l1 Some Pair n2 show ?thesis
        by (subst read_quoted_loop.simps) (auto simp: Let_def intro: IH split: option.split)
    qed (subst read_quoted_loop.simps, simp add: Pair R1)
  qed
qed

lemma R_read_quoted: "R p (snd (read_quoted b p))"
proof -
  obtain u s cl q where l: "read_quoted_loop None (p_rest (snd (advance p))) (snd (advance p)) = (u, s, cl, q)"
    by (metis prod_cases4)
  have "R p q" using R_trans [OF R_advance R_read_quoted_loop [of "snd (advance p)" None "p_rest (snd (advance p))"]]
    unfolding l by simp
  then show ?thesis
    using R_trans R_push_error R_unclosed by (simp add: read_quoted_def Let_def l)
qed

lemma R_read_key_loop: "R p (read_key_loop E p)"
proof (induction E p rule: read_key_loop.induct)
  case (1 E p)
  let ?q = "advance_while (\<lambda>c. c \<noteq> asc CHR ''?'' \<and> is_key_char E c) p"
  have "R p ?q" "R ?q (snd (advance ?q))" by (rule R_advance_while, rule R_advance)
  with 1 show ?case
    by (subst read_key_loop.simps) (auto simp: Let_def intro: R_trans)
qed

lemma R_read_key: "R p (snd (read_key E p))"
proof (cases "peek p = Some (asc CHR 0x22)")
  case True
  then have "snd (read_key E p) = skip_whitespace (snd (read_quoted True p))"
    by (simp add: read_key_def case_prod_unfold Let_def)
  then show ?thesis by (simp add: R_trans [OF R_read_quoted R_skip_whitespace])
next
  case False
  then show ?thesis
    by (auto simp: read_key_def Let_def R_read_key_loop intro: R_trans R_skip_whitespace R_read_key_loop)
qed

lemma R_read_number: "R p (read_number d p)"
proof (induction d p rule: read_number.induct)
  case (1 d p)
  then show ?case
    by (subst read_number.simps) (auto split: prod.split option.split intro: R_next_ifD R_trans)
qed

lemma R_skip_clause_loop: "R p (skip_clause_loop n p)"
proof (induction "length (p_rest p)" arbitrary: n p rule: less_induct)
  case less
  have IH: "R p (skip_clause_loop n q)" if "R p q" "length (p_rest q) < length (p_rest p)" for n q
    using R_trans [OF that(1) less(1) [OF that(2)]] .
  show ?case
  proof (cases "advance p")
    case (Pair a q)
    with R_advance [of p] have R1: "R p q" by simp
    show ?thesis
    proof (cases a)
      case None
      with Pair R1 show ?thesis
        by (subst skip_clause_loop.simps) (auto simp: R_refl intro: R_trans R_error_here)
    next
      case (Some c)
      note l1 = advance_shorter [OF Pair [unfolded Some, symmetric]]
      note sub = le_less_trans [OF advance_while_le l1] le_less_trans [OF suffix_length_le [OF skip_quoted_body_suffix] l1]
      with R1 l1 Some Pair show ?thesis
        by (subst skip_clause_loop.simps)
          (auto simp: R_refl intro!: IH intro: R_trans [OF _ R_advance_while] R_trans [OF _ R_skip_quoted_body])
    qed
  qed
qed

lemma R_skip_clause: "R p (skip_clause p)"
  by (simp add: skip_clause_def R_trans [OF R_advance R_skip_clause_loop])

lemma R_skip_comments: "R p (skip_comments p)"
proof (induction p rule: skip_comments.induct)
  case (1 p)
  have a: "R p (skip_whitespace p)" by (rule R_skip_whitespace)
  obtain b q where sc: "skip_comment (skip_whitespace p) = (b, q)" by fastforce
  with R_trans [OF a R_skip_comment] have "R p q" by (metis snd_conv)
  with 1 sc show ?case
    by (subst skip_comments.simps) (cases b; auto simp: Let_def intro: R_trans)
qed

lemma R_if: "R p a \<Longrightarrow> R p b \<Longrightarrow> R p (if c then a else b)"
  by simp

lemma R_skip_color_keyword: "R p (snd (skip_color_keyword p))"
  by (simp add: skip_color_keyword_def Let_def)
    (intro R_if R_refl R_trans [OF _ R_skip_whitespace] R_trans [OF _ R_advance] R_trans [OF _ R_advance_n] conjI impI)

lemma R_finish_value: "R p (snd (finish_value s v c p))"
  by (simp add: finish_value_def R_skip_whitespace)

lemma R_finish_opt: "R p (snd (finish_opt s (r, p)))"
  by (auto simp: finish_opt_def R_finish_value R_refl split: option.split)

lemmas R_prims = R_push_error R_error_here R_advance R_next_if R_advance_while R_advance_n
  R_skip_whitespace R_skip_comment R_skip_quoted_body R_parse_operator
  R_read_quoted R_read_key R_read_number R_skip_clause R_skip_comments
  R_finish_value R_finish_opt R_skip_color_keyword

lemmas R_ext = R_prims [THEN [2] R_trans] R_if

lemma R_restore_ext: "R p p0 \<Longrightarrow> R p0 q \<Longrightarrow> R p (restore (save p0) q)"
  by (rule R_trans [OF _ R_restore])

lemma R_transR: "R q r \<Longrightarrow> R p q \<Longrightarrow> R p r"
  by (rule R_trans)

lemma R_parse_bool_keyword: "R p (snd (parse_bool_keyword E w p))"
  by (simp add: parse_bool_keyword_def Let_def R_refl R_advance_n)

end

locale lexer_relation = scan_relation R for R :: "parser \<Rightarrow> parser \<Rightarrow> bool" +
  fixes E :: text_env and h :: handle
  assumes R_intern: "intern E h t (p_table p) = Some (tok, T) \<Longrightarrow> R p (p\<lparr>p_table := T\<rparr>)"
begin

lemma R_intern_str: "intern_str E h s p = Some (tok, q) \<Longrightarrow> R p q"
  by (auto simp: intern_str_def R_intern)

lemma post_intern: "post (intern_str E h s p) (\<lambda>_. R p)"
  by (auto simp: post_def R_intern_str)

lemmas post_intern_mono = post_mono [OF post_intern]

lemma post_number_or_string: "post (parse_number_or_string E h p) (\<lambda>_. R p)"
  unfolding parse_number_or_string_def
  by (intro post_intros post_intern_mono; (hypsubst+)?;
      (simp only: fst_conv snd_conv)?; (intro R_ext R_refl R_restore_ext | erule R_transR)+)

lemma post_quoted_value: "post (parse_quoted_value E h b p) (\<lambda>_. R p)"
  unfolding parse_quoted_value_def
  by (intro post_intros post_intern_mono; (simp only: fst_conv snd_conv)?;
      (intro R_ext R_refl | erule R_transR)+)

lemma post_metaprogramming: "post (parse_metaprogramming E h p) (\<lambda>_. R p)"
  unfolding parse_metaprogramming_def
  by (intro post_intros post_intern_mono; (hypsubst+)?; (simp only: fst_conv snd_conv)?)
    ((intro R_ext R_refl | erule R_transR)+)

end

locale parse_relation = lexer_relation +
  assumes R_add_leaf: "R p (snd (add_leaf l out p))"
    and R_add_leaf_value: "R p (snd (add_leaf_value v out p))"
    and R_comment: "consume_comment p = (Some c, q) \<Longrightarrow> R p (snd (add_comment c out q))"
    and R_depth: "R (p\<lparr>p_depth := p_depth p + 1\<rparr>) q \<Longrightarrow> R p (q\<lparr>p_depth := p_depth q - 1\<rparr>)"
begin

lemmas R_add_ext = R_add_leaf [THEN [2] R_trans] R_add_leaf_value [THEN [2] R_trans]

lemma R_comment_ext:
  "fst (consume_comment p) = Some c \<Longrightarrow> R r p \<Longrightarrow> R r (snd (add_comment c out (snd (consume_comment p))))"
  by (rule R_trans [OF _ R_comment]) (auto simp: prod_eq_iff)

lemma R_no_comment: "fst (consume_comment p) = None \<Longrightarrow> R r p \<Longrightarrow> R r (snd (consume_comment p))"
  by (simp add: consume_comment_def Let_def split: if_splits)

definition keeps :: "nat \<Rightarrow> bool" where
  "keeps n \<longleftrightarrow> (\<forall>cs p. post (clause_loop E h n cs p) (\<lambda>_. R p))"

lemma post_clause:
  assumes "keeps n" shows "post (parse_clause E h n p) (\<lambda>_. R p)"
proof -
  have "post (clause_loop E h n cs (q\<lparr>p_depth := p_depth q + 1\<rparr>))
      (\<lambda>r q'. R q (q'\<lparr>p_depth := p_depth q' - 1\<rparr>))" for cs q
    using assms unfolding keeps_def by (blast intro: post_mono R_depth)
  note loop = post_mono [OF this]
  show ?thesis
    by (subst parse_clause.simps)
      (intro post_intros loop; (hypsubst+)?; (simp only: fst_conv snd_conv)?; (intro R_ext R_refl | erule R_transR)+)
qed

lemma post_color_clause:
  assumes "keeps n" shows "post (parse_color_clause E h n p) (\<lambda>_. R p)"
proof -
  note clause = post_mono [OF post_clause [OF assms]]
  show ?thesis
    by (subst parse_color_clause.simps)
      (intro post_intros clause; (hypsubst+)?; (simp only: fst_conv snd_conv)?;
        (intro R_ext R_refl | erule R_transR)+)
qed

lemma post_value:
  assumes "keeps n" shows "post (parse_value E h n b p) (\<lambda>_. R p)"
proof -
  note mono = post_mono [OF post_clause [OF assms]] post_mono [OF post_color_clause [OF assms]]
    post_mono [OF post_quoted_value] post_mono [OF post_metaprogramming] post_mono [OF post_number_or_string]
  note bool = R_trans [OF _ R_parse_bool_keyword]
  show ?thesis
    by (subst parse_value.simps)
      (intro post_intros mono; (hypsubst+)?;
        (simp only: fst_conv snd_conv fst_map_prod snd_map_prod id_apply)?;
        (intro R_ext bool R_restore_ext R_refl | erule R_transR)+)
qed

lemma post_statement_value:
  assumes "keeps n" shows "post (statement_value E h n s b out p) (\<lambda>_. R p)"
proof -
  note mono = post_mono [OF post_value [OF assms]]
  show ?thesis
    by (subst statement_value.simps)
      (intro post_intros mono; (hypsubst+)?; (simp only: fst_conv snd_conv)?;
        (intro R_ext R_add_ext R_refl | erule R_transR)+)
qed

lemma post_statement:
  assumes "keeps n" shows "post (parse_statement E h n out p) (\<lambda>_. R p)"
proof -
  note mono = post_mono [OF post_value [OF assms]] post_mono [OF post_clause [OF assms]]
    post_mono [OF post_statement_value [OF assms]] post_intern_mono
  show ?thesis
    by (subst parse_statement.simps)
      (intro post_intros mono; (hypsubst+)?; (simp only: fst_conv snd_conv)?;
        (erule R_comment_ext R_no_comment | intro R_ext R_add_ext R_restore_ext R_refl | erule R_transR)+)
qed

lemma keeps_all: "keeps n"
proof (induction n)
  case 0
  then show ?case by (simp add: keeps_def clause_loop.simps)
next
  case (Suc n)
  note mono = post_mono [OF post_statement [OF Suc]] Suc [unfolded keeps_def, rule_format, THEN post_mono]
  have "post (clause_loop E h (Suc n) cs p) (\<lambda>_. R p)" for cs p
    by (subst clause_loop.simps)
      (intro post_intros mono; (hypsubst+)?; (simp only: fst_conv snd_conv)?;
        (intro R_ext R_add_ext R_refl | erule R_transR)+)
  then show ?case by (simp add: keeps_def)
qed

lemmas post_all = post_clause [OF keeps_all] post_color_clause [OF keeps_all] post_value [OF keeps_all]
  post_statement_value [OF keeps_all] post_statement [OF keeps_all]
  keeps_all [unfolded keeps_def, rule_format]

lemma post_parse_loop: "post (parse_loop E h n cs p) (\<lambda>_. R p)"
proof (induction n arbitrary: cs p)
  case (Suc n)
  note mono = post_mono [OF post_statement [OF keeps_all]] post_mono [OF Suc]
  show ?case
    by (subst parse_loop.simps)
      (intro post_intros mono; (simp only: fst_conv snd_conv)?; (intro R_refl | erule R_transR)+)
qed simp

end

section \<open>What the lexical operations leave alone\<close>

definition frame :: "parser \<Rightarrow> parser \<Rightarrow> bool" where
  "frame p q \<longleftrightarrow> p_arena q = p_arena p \<and> p_pool q = p_pool p \<and> p_mode q = p_mode p
     \<and> p_depth q = p_depth p"

interpretation lex: lexer_relation frame E h
  by unfold_locales (auto simp: frame_def restore_def)

section \<open>What moving the cursor leaves alone\<close>

definition shrinks :: "parser \<Rightarrow> parser \<Rightarrow> bool" where
  "shrinks p q \<longleftrightarrow> p_table q = p_table p \<and> length (p_rest q) \<le> length (p_rest p)"

interpretation sc: scan_relation shrinks
  by unfold_locales (auto simp: shrinks_def restore_def save_def)

section \<open>The cursor moves forward\<close>

definition moves :: "parser \<Rightarrow> parser \<Rightarrow> bool" where
  "moves p q \<longleftrightarrow> suffix (p_rest q) (p_rest p) \<and> p_mode q = p_mode p \<and> p_depth q = p_depth p
     \<and> (p_col p \<le> 65535 \<longrightarrow> p_col q \<le> 65535 \<and> pos_le (pos_of p) (pos_of q))"

lemma moves_simps [simp]:
  "moves p (p\<lparr>p_errors := es\<rparr>)" "moves p (p\<lparr>p_unclosed := u\<rparr>)" "moves p (p\<lparr>p_table := T\<rparr>)"
  "moves p (p\<lparr>p_arena := A\<rparr>)" "moves p (p\<lparr>p_pool := s\<rparr>)" "moves p p"
  by (simp_all add: moves_def pos_of_def)

lemma moves_trans: "moves p q \<Longrightarrow> moves q r \<Longrightarrow> moves p r"
  by (auto simp: moves_def intro: suffix_order.trans pos_le_trans)

lemma moves_step: "p_rest p = c # cs \<Longrightarrow> moves p (step c (p\<lparr>p_rest := cs\<rparr>))"
  by (auto simp: moves_def step_def pos_of_def pos_le_def suffix_ConsI)

interpretation mvl: lexer_relation moves E h
  by unfold_locales (simp, (erule (1) moves_trans), erule moves_step, simp, simp,
    simp add: moves_def restore_def save_def pos_of_def, simp)

lemma moves_consume_comment: "moves p (snd (consume_comment p))"
  by (auto simp: consume_comment_def Let_def intro: moves_trans [OF mvl.R_advance_while] moves_simps)

interpretation mv: parse_relation moves E h
proof unfold_locales
  show "consume_comment p = (Some c, q) \<Longrightarrow> moves p (snd (add_comment c out q))" for p c q out
    using moves_consume_comment [of p] by (simp add: add_comment_def push_comment_def moves_trans)
  show "moves (p\<lparr>p_depth := p_depth p + 1\<rparr>) q \<Longrightarrow> moves p (q\<lparr>p_depth := p_depth q - 1\<rparr>)" for p q
    by (simp add: moves_def pos_of_def)
qed (simp_all add: add_leaf_def push_leaf_def add_leaf_value_def push_leaf_value_def)

section \<open>The string table grows\<close>

definition tables :: "text_env \<Rightarrow> parser \<Rightarrow> parser \<Rightarrow> bool" where
  "tables E p q \<longleftrightarrow>
     (lowercase_ok E \<longrightarrow> table_ok E (p_table p) \<longrightarrow>
        table_ok E (p_table q)
        \<and> (\<forall>h i s. get_string h (p_table p) i = Some s \<longrightarrow> get_string h (p_table q) i = Some s))"

lemma tables_simps [simp]:
  "tables E p (p\<lparr>p_errors := es\<rparr>)" "tables E p (p\<lparr>p_unclosed := u\<rparr>)" "tables E p (p\<lparr>p_arena := A\<rparr>)"
  "tables E p (p\<lparr>p_pool := s\<rparr>)" "tables E p (step c q) = tables E p q" "tables E p p"
  "tables E p (q\<lparr>p_depth := d\<rparr>) = tables E p q" "tables E (p\<lparr>p_depth := d\<rparr>) q = tables E p q"
  by (simp_all add: tables_def)

lemma tables_trans: "tables E p q \<Longrightarrow> tables E q r \<Longrightarrow> tables E p r"
  by (auto simp: tables_def)

lemma tables_intern:
  "intern E h t (p_table p) = Some (tok, T) \<Longrightarrow> tables E p (p\<lparr>p_table := T\<rparr>)"
  using st.intern_stable [of E "p_table p" h t tok T] st.intern_invar [of E "p_table p" h t tok T]
  by (simp add: tables_def)

interpretation tbl: lexer_relation "tables E" E h
  by unfold_locales (simp_all add: tables_def [of _ _ "p\<lparr>p_rest := cs\<rparr>" for p cs] tables_intern restore_def,
   auto simp: tables_def)

interpretation tb: parse_relation "tables E" E h
proof unfold_locales
  show "consume_comment p = (Some c, q) \<Longrightarrow> tables E p (snd (add_comment c out q))" for p c q out
    using tbl.R_advance_while [of E p "\<lambda>c. c \<noteq> 10"]
    by (auto simp: consume_comment_def add_comment_def push_comment_def Let_def tables_def split: if_splits)
qed (simp_all add: add_leaf_def push_leaf_def add_leaf_value_def push_leaf_value_def)

section \<open>Comments and their pool\<close>

text \<open>
  The ranges of the comments split the pool from left to right, and each piece is a comment
  of one line.
\<close>

fun ranges_split :: "comment list \<Rightarrow> nat \<Rightarrow> ustr \<Rightarrow> bool" where
  "ranges_split [] k s \<longleftrightarrow> s = []"
| "ranges_split (c # cs) k s \<longleftrightarrow>
     (\<exists>t u. s = t @ u \<and> t \<noteq> [] \<and> hd t = asc CHR ''#'' \<and> 10 \<notin> set t
       \<and> comment_range_of c = \<lparr>cr_start = k, cr_end = k + blen t\<rparr>
       \<and> ranges_split cs (k + blen t) u)"

definition comments_ok :: "parser \<Rightarrow> bool" where
  "comments_ok p \<longleftrightarrow> ranges_split (comments (p_arena p)) 0 (p_pool p)"

definition pooled :: "parser \<Rightarrow> parser \<Rightarrow> bool" where
  "pooled p q \<longleftrightarrow> (comments_ok p \<longrightarrow> comments_ok q)"

lemma ranges_split_snoc:
  "ranges_split cs k s \<Longrightarrow> t \<noteq> [] \<Longrightarrow> hd t = asc CHR ''#'' \<Longrightarrow> 10 \<notin> set t
   \<Longrightarrow> comment_range_of c = \<lparr>cr_start = k + blen s, cr_end = k + blen s + blen t\<rparr>
   \<Longrightarrow> ranges_split (cs @ [c]) k (s @ t)"
proof (induction cs arbitrary: k s)
  case (Cons d cs)
  then obtain v u where vu: "s = v @ u" "v \<noteq> []" "hd v = asc CHR ''#''" "10 \<notin> set v"
      "comment_range_of d = \<lparr>cr_start = k, cr_end = k + blen v\<rparr>" "ranges_split cs (k + blen v) u"
    by auto
  with Cons.prems have "ranges_split (cs @ [c]) (k + blen v) (u @ t)"
    by (intro Cons.IH) (auto simp: add.assoc)
  with vu show ?case unfolding append_Cons ranges_split.simps
    by (intro exI [of _ v] exI [of _ "u @ t"]) simp
qed simp

lemma advance_while_split:
  "\<exists>t. p_rest p = t @ p_rest (advance_while P p) \<and> list_all P t
     \<and> (\<forall>c cs. p_rest (advance_while P p) = c # cs \<longrightarrow> \<not> P c)"
proof (induction P p rule: advance_while.induct)
  case (1 P p)
  show ?case
  proof (cases "next_if P p")
    case (Pair a q)
    show ?thesis
    proof (cases a)
      case None
      with Pair have "advance_while P p = q" by (subst advance_while.simps) simp
      with None Pair show ?thesis by (auto simp: next_if_def split: list.splits if_splits)
    next
      case (Some c)
      from 1 [OF Pair [symmetric] Some] obtain t where "p_rest q = t @ p_rest (advance_while P q)" "list_all P t"
        "\<forall>c cs. p_rest (advance_while P q) = c # cs \<longrightarrow> \<not> P c" by blast
      moreover from Some Pair have "advance_while P p = advance_while P q"
        by (subst advance_while.simps) simp
      ultimately show ?thesis
        using next_if_SomeD [OF Pair [unfolded Some]] by (intro exI [of _ "c # t"]) simp
    qed
  qed
qed

lemma between_append [simp]: "between (t @ s) s = t"
  by (simp add: between_def)

interpretation pol: lexer_relation pooled E h
  by unfold_locales (auto simp: pooled_def comments_ok_def restore_def)

lemma comment_text_shape:
  assumes "peek p = Some (asc CHR ''#'')"
  defines "t \<equiv> between (p_rest p) (p_rest (advance_while (\<lambda>c. c \<noteq> 10) p))"
  shows "t \<noteq> [] \<and> hd t = asc CHR ''#'' \<and> 10 \<notin> set t"
proof -
  obtain u where u: "p_rest p = u @ p_rest (advance_while (\<lambda>c. c \<noteq> 10) p)" "list_all (\<lambda>c. c \<noteq> 10) u"
    "\<forall>c cs. p_rest (advance_while (\<lambda>c. c \<noteq> 10) p) = c # cs \<longrightarrow> c = 10"
    using advance_while_split [of p "\<lambda>c. c \<noteq> 10"] by auto
  then have "t = u" unfolding t_def by (metis between_append)
  moreover from assms(1) obtain cs where "p_rest p = asc CHR ''#'' # cs"
    by (auto simp: peek_def split: list.splits)
  ultimately show ?thesis using u by (cases u) (auto simp: list_all_iff)
qed

lemma pooled_comment:
  assumes "consume_comment p = (Some c, q)" shows "pooled p (snd (add_comment c out q))"
proof -
  let ?a = "advance_while (\<lambda>c. c \<noteq> 10) p"
  from assms have hash: "peek p = Some (asc CHR ''#'')"
    and q: "q = ?a\<lparr>p_pool := p_pool ?a @ between (p_rest p) (p_rest ?a)\<rparr>"
    and c: "comment_range_of c = \<lparr>cr_start = blen (p_pool ?a), cr_end = blen (p_pool q)\<rparr>"
    by (auto simp: consume_comment_def Let_def split: if_splits)
  have fr: "p_arena ?a = p_arena p" "p_pool ?a = p_pool p"
    using lex.R_advance_while [of p "\<lambda>c. c \<noteq> 10"] by (simp_all add: frame_def)
  show ?thesis
    using comment_text_shape [OF hash] c
    by (simp add: pooled_def comments_ok_def add_comment_def push_comment_def q fr ranges_split_snoc)
qed

interpretation po: parse_relation pooled E h
proof unfold_locales
  show "pooled (p\<lparr>p_depth := p_depth p + 1\<rparr>) q \<Longrightarrow> pooled p (q\<lparr>p_depth := p_depth q - 1\<rparr>)" for p q
    by (simp add: pooled_def comments_ok_def)
qed (simp_all add: add_leaf_def push_leaf_def add_leaf_value_def push_leaf_value_def pooled_comment,
     simp_all add: pooled_def comments_ok_def)

end
