(* ===== verification/Parser_Tree.thy ===== *)
theory Parser_Tree
  imports Parser_Relations
begin

text \<open>
  The shape of what the parser builds: every child list it returns is a forest over exactly the
  arena entries it pushed, numbered in post-order, and no clause is deeper than the limit.
\<close>

lemmas lexer_frame [simp] =
  lex.R_prims [unfolded frame_def, THEN conjunct1]
  lex.R_prims [unfolded frame_def, THEN conjunct2, THEN conjunct2, THEN conjunct1]
  lex.R_prims [unfolded frame_def, THEN conjunct2, THEN conjunct2, THEN conjunct2]
  lex.R_parse_bool_keyword [unfolded frame_def, THEN conjunct1]
  lex.R_parse_bool_keyword [unfolded frame_def, THEN conjunct2, THEN conjunct2, THEN conjunct2]

lemma restore_arena [simp]: "p_arena (restore c p) = p_arena p" "p_depth (restore c p) = p_depth p"
  by (simp_all add: restore_def)

lemma consume_comment_arena [simp]:
  "p_arena (snd (consume_comment p)) = p_arena p" "p_depth (snd (consume_comment p)) = p_depth p"
  by (simp_all add: consume_comment_def Let_def)

definition counts :: "arena \<Rightarrow> nat \<times> nat \<times> nat" where
  "counts A = (length (leaves A), length (leaf_values A), length (comments A))"

definition built :: "nat \<Rightarrow> arena \<Rightarrow> arena \<Rightarrow> child list \<Rightarrow> bool" where
  "built k A B cs \<longleftrightarrow> arena_extends A B \<and> arena_tree k B cs (counts A) (counts B)"

lemma built_Nil [simp]: "built k A A []"
  by (simp add: built_def)

lemma built_append: "built k A B cs \<Longrightarrow> built k B C ds \<Longrightarrow> built k A C (cs @ ds)"
  unfolding built_def
  by (auto intro: arena_extends_trans arena_tree_append arena_tree_extends)

lemma built_leaf:
  assumes "built k A B (clause_children (leaf_val l))"
  shows "built (Suc k) A (B\<lparr>leaves := leaves B @ [l]\<rparr>) [CLeaf (length (leaves B))]"
proof -
  let ?C = "B\<lparr>leaves := leaves B @ [l]\<rparr>"
  have ext: "arena_extends B ?C" by (simp add: arena_extends_def)
  with assms have "arena_extends A ?C" "arena_tree k ?C (clause_children (leaf_val l)) (counts A) (counts B)"
    by (auto simp: built_def intro: arena_extends_trans arena_tree_extends)
  then show ?thesis
    unfolding built_def by (auto simp: counts_def intro!: at_Leaf)
qed

lemma built_leaf_value:
  assumes "built k A B (clause_children (lv_value l))"
  shows "built (Suc k) A (B\<lparr>leaf_values := leaf_values B @ [l]\<rparr>) [CLeafValue (length (leaf_values B))]"
proof -
  let ?C = "B\<lparr>leaf_values := leaf_values B @ [l]\<rparr>"
  have ext: "arena_extends B ?C" by (simp add: arena_extends_def)
  with assms have "arena_extends A ?C" "arena_tree k ?C (clause_children (lv_value l)) (counts A) (counts B)"
    by (auto simp: built_def intro: arena_extends_trans arena_tree_extends)
  then show ?thesis
    unfolding built_def by (auto simp: counts_def intro!: at_LeafValue)
qed

lemma built_comment:
  "built (Suc k) A (A\<lparr>comments := comments A @ [c]\<rparr>) [CComment (length (comments A))]"
  unfolding built_def by (auto simp: counts_def arena_extends_def intro!: at_Comment)

definition opt_children :: "pvalue option \<Rightarrow> child list" where
  "opt_children r = (case r of None \<Rightarrow> [] | Some v \<Rightarrow> clause_children v)"

lemma opt_children_simps [simp]:
  "opt_children None = []" "opt_children (Some v) = clause_children v"
  by (simp_all add: opt_children_def)

lemma opt_children_float [simp]: "opt_children (map_option VFloat r) = []"
  by (cases r) simp_all

definition plain :: "parser \<Rightarrow> pvalue option \<Rightarrow> parser \<Rightarrow> bool" where
  "plain p r q \<longleftrightarrow> p_arena q = p_arena p \<and> p_depth q = p_depth p \<and> opt_children r = []"

lemma finish_result [simp]:
  "map_option fst (fst (finish_opt s x)) = fst x" "fst (fst (finish_value s v c p)) = v"
  by (cases x; auto simp: finish_opt_def finish_value_def split: option.split)
    (simp add: finish_value_def)

lemma frame_arena: "frame p q \<Longrightarrow> p_arena q = p_arena p \<and> p_depth q = p_depth p"
  by (simp add: frame_def)

lemma plain_number_or_string: "post (parse_number_or_string E h p) (plain p)"
  unfolding parse_number_or_string_def
  by (intro post_intros lex.post_intern_mono) (auto simp: plain_def frame_arena split: option.splits if_splits)

lemma plain_quoted_value: "post (parse_quoted_value E h b p) (\<lambda>v. plain p (Some v))"
  unfolding parse_quoted_value_def
  by (intro post_intros lex.post_intern_mono) (simp add: plain_def frame_arena)

lemma plain_metaprogramming: "post (parse_metaprogramming E h p) (plain p)"
  unfolding parse_metaprogramming_def
  by (intro post_intros lex.post_intern_mono) (simp_all add: plain_def frame_arena)

lemma bool_keyword_plain: "fst (parse_bool_keyword E w p) = Some b \<Longrightarrow> clause_children b = []"
  by (auto simp: parse_bool_keyword_def Let_def split: if_splits)

section \<open>The tree\<close>

definition clause_built ::
  "arena \<Rightarrow> nat \<Rightarrow> pvalue option \<Rightarrow> arena \<Rightarrow> nat \<Rightarrow> bool" where
  "clause_built A d r B d' \<longleftrightarrow> d' = d \<and> (d \<le> 256 \<longrightarrow> built (256 - d) A B (opt_children r))"

definition children_built ::
  "child list \<Rightarrow> arena \<Rightarrow> nat \<Rightarrow> child list \<Rightarrow> arena \<Rightarrow> nat \<Rightarrow> bool" where
  "children_built out A d out' B d' \<longleftrightarrow> d' = d \<and>
     (d \<le> 256 \<longrightarrow> (\<exists>new. out' = out @ new \<and> built (Suc (256 - d)) A B new))"

abbreviation clause_tree :: "parser \<Rightarrow> pvalue option \<Rightarrow> parser \<Rightarrow> bool" where
  "clause_tree p r q \<equiv> clause_built (p_arena p) (p_depth p) r (p_arena q) (p_depth q)"

abbreviation child_tree :: "child list \<Rightarrow> parser \<Rightarrow> child list \<Rightarrow> parser \<Rightarrow> bool" where
  "child_tree out p out' q \<equiv> children_built out (p_arena p) (p_depth p) out' (p_arena q) (p_depth q)"

lemma children_built_trans [trans]:
  "children_built out A d out1 B d1 \<Longrightarrow> children_built out1 B d1 out2 C d2
   \<Longrightarrow> children_built out A d out2 C d2"
  unfolding children_built_def by (auto intro: built_append)

lemma children_built_refl [simp]: "children_built out A d out A d"
  by (simp add: children_built_def)

lemma clause_built_plain [simp]: "opt_children r = [] \<Longrightarrow> clause_built A d r A d"
  by (simp add: clause_built_def)

lemma clause_built_None: "clause_built A d None B d' \<Longrightarrow> children_built out A d out B d'"
  by (auto simp: clause_built_def children_built_def built_def counts_def)

lemma clause_built_empty:
  "clause_built A d None B d' \<Longrightarrow> opt_children r = [] \<Longrightarrow> clause_built A d r B d'"
  by (simp add: clause_built_def)

lemma child_tree_comment_at:
  assumes "p_arena q = p_arena p" "p_depth q = p_depth p"
  shows "child_tree out p (fst (add_comment c out q)) (snd (add_comment c out q))"
  using built_comment [of "256 - p_depth p" "p_arena p" c] assms
  by (auto simp: children_built_def add_comment_def push_comment_def)

lemma child_tree_leaf:
  assumes "clause_built A d (Some (leaf_val l)) (p_arena q) (p_depth q)"
  shows "children_built out A d (fst (add_leaf l out q)) (p_arena (snd (add_leaf l out q)))
    (p_depth (snd (add_leaf l out q)))"
  using assms built_leaf [of "256 - d" A "p_arena q" l]
  by (auto simp: clause_built_def children_built_def add_leaf_def push_leaf_def)

lemma child_tree_leaf_value:
  assumes "clause_built A d (Some (lv_value l)) (p_arena q) (p_depth q)"
  shows "children_built out A d (fst (add_leaf_value l out q)) (p_arena (snd (add_leaf_value l out q)))
    (p_depth (snd (add_leaf_value l out q)))"
  using assms built_leaf_value [of "256 - d" A "p_arena q" l]
  by (auto simp: clause_built_def children_built_def add_leaf_value_def push_leaf_value_def)

definition trees :: "nat \<Rightarrow> bool" where
  "trees n \<longleftrightarrow> (\<forall>E h cs p. post (clause_loop E h n cs p) (child_tree cs p))"

lemma tree_clause:
  assumes "trees n" shows "post (parse_clause E h n p) (clause_tree p)"
proof -
  have "post (clause_loop E h n [] (q\<lparr>p_depth := p_depth q + 1\<rparr>))
      (\<lambda>cs q'. p_depth q < 256 \<longrightarrow> clause_built (p_arena q) (p_depth q) (Some (VClause cs)) (p_arena q') (p_depth q' - 1))" for q
    using assms [unfolded trees_def, rule_format, of E h "[]" "q\<lparr>p_depth := p_depth q + 1\<rparr>"]
  proof (rule post_mono)
    have "d < 256 \<Longrightarrow> Suc (255 - d) = 256 - d" for d :: nat by simp
    then show "p_depth q < 256 \<longrightarrow> clause_built (p_arena q) (p_depth q) (Some (VClause cs)) (p_arena q') (p_depth q' - 1)"
      if "child_tree [] (q\<lparr>p_depth := p_depth q + 1\<rparr>) cs q'" for cs q'
      using that by (auto simp: clause_built_def children_built_def)
  qed
  note loop = post_mono [OF this]
  show ?thesis
    by (subst parse_clause.simps) (intro post_intros loop; simp add: MAX_CLAUSE_DEPTH_def)
qed

lemma tree_color_clause:
  assumes "trees n"
  shows "post (parse_color_clause E h n p) (\<lambda>r. clause_tree p (map_option fst r))"
proof -
  note mono = post_mono [OF tree_clause [OF assms]]
  show ?thesis
    by (subst parse_color_clause.simps)
      (intro post_intros mono; simp add: comp_def option.map_comp option.map_ident)
qed

lemma tree_value:
  assumes "trees n"
  shows "post (parse_value E h n b p) (\<lambda>r. clause_tree p (map_option fst r))"
proof -
  note mono = post_mono [OF tree_clause [OF assms]] post_mono [OF tree_color_clause [OF assms]]
    post_mono [OF plain_quoted_value] post_mono [OF plain_metaprogramming] post_mono [OF plain_number_or_string]
  show ?thesis
    by (subst parse_value.simps)
      (intro post_intros mono; auto simp: clause_built_def plain_def bool_keyword_plain)
qed

lemma tree_statement_value:
  assumes "trees n" shows "post (statement_value E h n s b out p) (child_tree out p)"
proof -
  note mono = post_mono [OF tree_value [OF assms]]
  show ?thesis
    by (subst statement_value.simps)
      (intro post_intros mono; simp add: clause_built_None child_tree_leaf_value)
qed

lemma tree_statement:
  assumes "trees n" shows "post (parse_statement E h n out p) (child_tree out p)"
proof -
  note mono = post_mono [OF tree_value [OF assms]] post_mono [OF tree_clause [OF assms]]
    post_mono [OF tree_statement_value [OF assms]] lex.post_intern_mono
  show ?thesis
    by (subst parse_statement.simps)
      (intro post_intros mono; auto simp: clause_built_None frame_arena clause_built_empty
        intro: children_built_trans [OF clause_built_None] child_tree_leaf child_tree_comment_at)
qed

lemma trees_all: "trees n"
proof (induction n)
  case 0
  then show ?case by (simp add: trees_def clause_loop.simps)
next
  case (Suc n)
  note mono = post_mono [OF tree_statement [OF Suc]] Suc [unfolded trees_def, rule_format, THEN post_mono]
  have "post (clause_loop E h (Suc n) cs p) (child_tree cs p)" for E h cs p
    by (subst clause_loop.simps)
      (intro post_intros mono; auto simp: frame_arena error_here_def push_error_def intro: children_built_trans)
  then show ?case by (simp add: trees_def)
qed

lemma tree_loop: "post (parse_loop E h n cs p) (child_tree cs p)"
proof (induction n arbitrary: cs p)
  case (Suc n)
  note mono = post_mono [OF tree_statement [OF trees_all]] post_mono [OF Suc]
  show ?case
    by (subst parse_loop.simps) (intro post_intros mono; auto intro: children_built_trans)
qed simp

end
