(* ===== verification/Parser_Ranges.thy ===== *)
theory Parser_Ranges
  imports Parser_Tree
begin

text \<open>
  What the arena holds while the parser runs: tokens that resolve in the string table and source
  ranges that run forward, a value's inside its leaf's.
\<close>

definition tokens_resolve :: "text_env \<Rightarrow> string_table \<Rightarrow> string_tokens \<Rightarrow> bool" where
  "tokens_resolve E T tok \<longleftrightarrow>
     (\<exists>s. get_string None T (tok_normal tok) = Some s
        \<and> get_string None T (tok_lower tok) = Some (env_lowercase E s))"

fun value_resolves :: "text_env \<Rightarrow> string_table \<Rightarrow> pvalue \<Rightarrow> bool" where
  "value_resolves E T (VString tok) = tokens_resolve E T tok"
| "value_resolves E T (VQString tok) = tokens_resolve E T tok"
| "value_resolves E T _ = True"

definition leaf_good :: "text_env \<Rightarrow> string_table \<Rightarrow> leaf \<Rightarrow> bool" where
  "leaf_good E T l \<longleftrightarrow> leaf_ranges_ok l \<and> tokens_resolve E T (leaf_key l) \<and> value_resolves E T (leaf_val l)"

definition leaf_value_good :: "text_env \<Rightarrow> string_table \<Rightarrow> leaf_value \<Rightarrow> bool" where
  "leaf_value_good E T l \<longleftrightarrow> range_ok (lv_pos l) \<and> value_resolves E T (lv_value l)"

definition arena_good :: "text_env \<Rightarrow> string_table \<Rightarrow> arena \<Rightarrow> bool" where
  "arena_good E T A \<longleftrightarrow> (\<forall>l \<in> set (leaves A). leaf_good E T l)
     \<and> (\<forall>l \<in> set (leaf_values A). leaf_value_good E T l)
     \<and> (\<forall>c \<in> set (comments A). range_ok (comment_pos c))"

definition starts_ok :: "text_env \<Rightarrow> parser \<Rightarrow> bool" where
  "starts_ok E p \<longleftrightarrow> lowercase_ok E \<and> table_ok E (p_table p) \<and> p_col p \<le> 65535"

definition goes :: "text_env \<Rightarrow> parser \<Rightarrow> parser \<Rightarrow> bool" where
  "goes E p q \<longleftrightarrow> moves p q \<and> tables E p q
     \<and> (starts_ok E p \<longrightarrow> arena_good E (p_table p) (p_arena p) \<longrightarrow> arena_good E (p_table q) (p_arena q))"

lemma tokens_resolve_grows: "starts_ok E p \<Longrightarrow> tables E p q \<Longrightarrow>
    tokens_resolve E (p_table p) tok \<Longrightarrow> tokens_resolve E (p_table q) tok"
  by (auto simp: tokens_resolve_def starts_ok_def tables_def)

lemma value_resolves_grows: "starts_ok E p \<Longrightarrow> tables E p q \<Longrightarrow>
    value_resolves E (p_table p) v \<Longrightarrow> value_resolves E (p_table q) v"
  by (cases v) (auto intro: tokens_resolve_grows)

lemma arena_good_grows: "starts_ok E p \<Longrightarrow> tables E p q \<Longrightarrow>
    arena_good E (p_table p) A \<Longrightarrow> arena_good E (p_table q) A"
  by (auto simp: arena_good_def leaf_good_def leaf_value_good_def
      intro: tokens_resolve_grows value_resolves_grows)

lemma starts_ok_goes: "starts_ok E p \<Longrightarrow> goes E p q \<Longrightarrow> starts_ok E q"
  by (auto simp: starts_ok_def goes_def moves_def tables_def)

lemma goes_arena: "moves p q \<Longrightarrow> tables E p q \<Longrightarrow> p_arena q = p_arena p \<Longrightarrow> goes E p q"
  by (auto simp: goes_def intro: arena_good_grows)

lemma goes_trans: "goes E p q \<Longrightarrow> goes E q r \<Longrightarrow> goes E p r"
  by (auto simp: goes_def intro: moves_trans tables_trans dest: starts_ok_goes [unfolded goes_def])

interpretation go: lexer_relation "goes E" E h
proof unfold_locales
  show "goes E p q \<Longrightarrow> goes E q r \<Longrightarrow> goes E p r" for p q r by (rule goes_trans)
  show "goes E p q \<Longrightarrow> goes E p (restore (save p) q)" for p q
    using mvl.R_restore [of p q] tbl.R_restore [of E p q]
    by (auto simp: goes_def) (simp_all add: restore_def)
qed (auto intro: goes_arena mvl.R_step mvl.R_intern tbl.R_step tbl.R_intern)

lemma goes_pos: "goes E p q \<Longrightarrow> starts_ok E p \<Longrightarrow> pos_le (pos_of p) (pos_of q)"
  by (simp add: goes_def moves_def starts_ok_def)

definition opt_resolves :: "text_env \<Rightarrow> parser \<Rightarrow> pvalue option \<Rightarrow> parser \<Rightarrow> bool" where
  "opt_resolves E p r q \<longleftrightarrow> goes E p q
     \<and> (starts_ok E p \<longrightarrow> (\<forall>v. r = Some v \<longrightarrow> value_resolves E (p_table q) v))"

definition value_at ::
  "text_env \<Rightarrow> parser \<Rightarrow> (pvalue \<times> source_range \<times> color_prefix option) option \<Rightarrow> parser \<Rightarrow> bool" where
  "value_at E p r q \<longleftrightarrow> goes E p q
     \<and> (starts_ok E p \<longrightarrow>
         (\<forall>v vp c. r = Some (v, vp, c) \<longrightarrow> value_resolves E (p_table q) v \<and> pos_le (pos_of p) (range_start vp)
            \<and> range_ok vp \<and> pos_le (range_end vp) (pos_of q)))"

lemma intern_str_resolves:
  "post (intern_str E h s p) (\<lambda>tok q. goes E p q \<and> (starts_ok E p \<longrightarrow> tokens_resolve E (p_table q) tok))"
  using go.post_intern [of E h s p] intern_resolves_aux [of E "p_table p" h s _ _ None]
  by (auto simp: post_def starts_ok_def tokens_resolve_def intern_str_def)

lemmas intern_mono = post_mono [OF intern_str_resolves]

lemma opt_resolves_ext:
  "goes E p p' \<Longrightarrow> opt_resolves E p' r q \<Longrightarrow> opt_resolves E p r q"
  by (auto simp: opt_resolves_def intro: goes_trans dest: starts_ok_goes)

lemma opt_resolves_basic:
  "goes E p q \<Longrightarrow> \<forall>v. r = Some v \<longrightarrow> value_resolves E (p_table q) v \<Longrightarrow> opt_resolves E p r q"
  by (simp add: opt_resolves_def)

lemma opt_resolves_intern:
  "goes E p p1 \<Longrightarrow> goes E p1 q \<and> (starts_ok E p1 \<longrightarrow> tokens_resolve E (p_table q) tok)
   \<Longrightarrow> opt_resolves E p (Some (VString tok)) q \<and> opt_resolves E p (Some (VQString tok)) q"
  by (auto simp: opt_resolves_def intro: goes_trans dest: starts_ok_goes)

lemmas opt_resolves_string = conjunct1 [OF opt_resolves_intern] conjunct2 [OF opt_resolves_intern]

lemma number_or_string_resolves: "post (parse_number_or_string E h p) (opt_resolves E p)"
  unfolding parse_number_or_string_def
  apply (intro post_intros intern_mono; (hypsubst+)?; (simp only: fst_conv snd_conv)?)
  subgoal by (rule opt_resolves_basic, (intro go.R_ext go.R_restore_ext go.R_refl)+, simp)
  subgoal by (erule opt_resolves_string [rotated], (intro go.R_ext go.R_restore_ext go.R_refl)+)
  subgoal by (rule opt_resolves_basic, (intro go.R_ext go.R_restore_ext go.R_refl)+, auto split: option.splits if_splits)
  done

lemma quoted_value_resolves:
  "post (parse_quoted_value E h b p) (\<lambda>v. opt_resolves E p (Some v))"
  unfolding parse_quoted_value_def
  by (intro post_intros intern_mono; (simp only: fst_conv snd_conv)?; erule opt_resolves_string [rotated];
      (intro go.R_ext go.R_refl)+)

lemma metaprogramming_resolves: "post (parse_metaprogramming E h p) (opt_resolves E p)"
  unfolding parse_metaprogramming_def
  apply (intro post_intros intern_mono; (hypsubst+)?; (simp only: fst_conv snd_conv)?)
  subgoal by (rule opt_resolves_basic) (simp_all add: go.R_refl)
  subgoal by (rule opt_resolves_basic, (intro go.R_ext go.R_refl)+, simp)
  subgoal by (rule opt_resolves_basic, (intro go.R_ext go.R_refl)+, simp)
  subgoal by (rule opt_resolves_basic, (intro go.R_ext go.R_refl)+, simp)
  subgoal by (erule opt_resolves_string [rotated], (intro go.R_ext go.R_refl)+)
  done

lemma bool_keyword_resolves:
  "fst (parse_bool_keyword E w p) = Some b \<Longrightarrow> value_resolves E T b"
  by (auto simp: parse_bool_keyword_def Let_def split: if_splits)

lemma goes_tables: "goes E p q \<Longrightarrow> tables E p q"
  by (simp add: goes_def)

lemma value_at_finish:
  assumes "goes E p q" and "starts_ok E p \<Longrightarrow> value_resolves E (p_table q) v"
  shows "value_at E p (Some (fst (finish_value (pos_of p) v c q))) (snd (finish_value (pos_of p) v c q))"
proof -
  have g: "goes E q (skip_whitespace q)" by (rule go.R_skip_whitespace)
  with assms(1) have "goes E p (skip_whitespace q)" by (rule goes_trans)
  moreover have "starts_ok E p \<Longrightarrow> starts_ok E q" by (rule starts_ok_goes [OF _ assms(1)])
  ultimately show ?thesis
    using assms g by (auto simp: value_at_def finish_value_def range_ok_def
        intro: value_resolves_grows goes_tables goes_pos)
qed

lemma value_at_finish_opt:
  assumes "opt_resolves E p r q"
  shows "value_at E p (fst (finish_opt (pos_of p) (r, q))) (snd (finish_opt (pos_of p) (r, q)))"
proof (cases r)
  case None
  with assms show ?thesis by (simp add: opt_resolves_def value_at_def finish_opt_def)
next
  case (Some v)
  with assms show ?thesis
    using value_at_finish [of E p q v None] by (simp add: opt_resolves_def finish_opt_def)
qed

lemma value_at_color:
  "opt_resolves E p (map_option fst (Some y)) q
   \<Longrightarrow> value_at E p (fst (map_prod Some id (finish_value (pos_of p) (fst y) c q)))
         (snd (map_prod Some id (finish_value (pos_of p) (fst y) c q)))"
  using value_at_finish [of E p q "fst y" c] by (simp add: opt_resolves_def)

lemma value_at_bool:
  assumes "fst (parse_bool_keyword E w q) = Some b" and "goes E p q"
  shows "value_at E p (fst (finish_opt (pos_of p) (Some b, snd (parse_bool_keyword E w q))))
    (snd (finish_opt (pos_of p) (Some b, snd (parse_bool_keyword E w q))))"
  by (rule value_at_finish_opt, rule opt_resolves_basic)
    (use assms in \<open>auto intro: goes_trans go.R_parse_bool_keyword bool_keyword_resolves\<close>)

lemma opt_resolves_goes: "opt_resolves E p r q \<Longrightarrow> goes E p q"
  by (simp add: opt_resolves_def)

lemma value_at_ext: "goes E p p' \<Longrightarrow> value_at E p' r q \<Longrightarrow> value_at E p r q"
  by (auto simp: value_at_def intro: goes_trans pos_le_trans [OF goes_pos] dest: starts_ok_goes)

section \<open>The induction\<close>

definition resolved :: "text_env \<Rightarrow> nat \<Rightarrow> bool" where
  "resolved E n \<longleftrightarrow> (\<forall>h cs p. post (clause_loop E h n cs p) (\<lambda>_. goes E p))"

lemma goes_depth: "goes E (p\<lparr>p_depth := p_depth p + 1\<rparr>) q \<Longrightarrow> goes E p (q\<lparr>p_depth := p_depth q - 1\<rparr>)"
  using mv.R_depth [of p q] by (auto simp: goes_def tables_def starts_ok_def)

lemma goes_clause:
  assumes "resolved E n" shows "post (parse_clause E h n p) (opt_resolves E p)"
proof -
  have "post (clause_loop E h n [] (q\<lparr>p_depth := p_depth q + 1\<rparr>))
      (\<lambda>r q'. goes E q (q'\<lparr>p_depth := p_depth q' - 1\<rparr>))" for q
    using assms unfolding resolved_def by (blast intro: post_mono goes_depth)
  note loop = post_mono [OF this]
  show ?thesis
    by (subst parse_clause.simps)
      (intro post_intros loop; (hypsubst+)?; (simp only: fst_conv snd_conv)?; rule opt_resolves_basic;
        simp?; (intro go.R_ext go.R_refl | erule go.R_transR)+)
qed

lemma goes_color_clause:
  assumes "resolved E n"
  shows "post (parse_color_clause E h n p) (\<lambda>r. opt_resolves E p (map_option fst r))"
proof -
  note mono = post_mono [OF goes_clause [OF assms]]
  have "opt_resolves E p (map_option fst (map_option (\<lambda>v. (v, b)) r)) q"
    if "opt_resolves E (snd (skip_color_keyword p)) r q" for b :: bool and r q
    using opt_resolves_ext [OF go.R_skip_color_keyword that]
    by (simp add: option.map_comp comp_def option.map_ident)
  then show ?thesis
    by (subst parse_color_clause.simps) (intro post_intros mono; simp)
qed

lemma goes_value:
  assumes "resolved E n" shows "post (parse_value E h n b p) (value_at E p)"
proof -
  note mono = post_mono [OF goes_clause [OF assms]] post_mono [OF goes_color_clause [OF assms]]
    post_mono [OF quoted_value_resolves] post_mono [OF metaprogramming_resolves]
    post_mono [OF number_or_string_resolves]
  have skip: "goes E p (skip_comments p)" by (rule go.R_skip_comments)
  note ext = value_at_ext [OF skip]
  show ?thesis
    by (subst parse_value.simps)
     (intro post_intros mono; (hypsubst+)?; (simp only: fst_conv snd_conv)?; rule ext;
      (rule value_at_finish_opt value_at_color, assumption | erule value_at_bool
       | rule value_at_finish_opt, erule opt_resolves_ext [rotated] | simp only: option.distinct);
      (assumption | intro go.R_trans [OF _ go.R_parse_bool_keyword] go.R_restore_ext go.R_refl | erule opt_resolves_goes)+)
qed

lemma goes_add_leaf:
  assumes p: "goes E p q" and l: "starts_ok E p \<Longrightarrow> leaf_good E (p_table q) l"
  shows "goes E p (snd (add_leaf l out q))"
proof -
  let ?r = "snd (add_leaf l out q)"
  have "moves p ?r" "tables E p ?r"
    using p mv.R_add_leaf [of q l out] tb.R_add_leaf [of E q l out]
    by (auto simp: goes_def intro: moves_trans tables_trans)
  moreover have "p_arena ?r = (p_arena q)\<lparr>leaves := leaves (p_arena q) @ [l]\<rparr>" "p_table ?r = p_table q"
    by (simp_all add: add_leaf_def push_leaf_def)
  ultimately show ?thesis
    using p l by (simp add: goes_def arena_good_def)
qed

lemma goes_add_leaf_value:
  assumes p: "goes E p q" and l: "starts_ok E p \<Longrightarrow> leaf_value_good E (p_table q) l"
  shows "goes E p (snd (add_leaf_value l out q))"
proof -
  let ?r = "snd (add_leaf_value l out q)"
  have "moves p ?r" "tables E p ?r"
    using p mv.R_add_leaf_value [of q l out] tb.R_add_leaf_value [of E q l out]
    by (auto simp: goes_def intro: moves_trans tables_trans)
  moreover have "p_arena ?r = (p_arena q)\<lparr>leaf_values := leaf_values (p_arena q) @ [l]\<rparr>"
    "p_table ?r = p_table q"
    by (simp_all add: add_leaf_value_def push_leaf_value_def)
  ultimately show ?thesis
    using p l by (simp add: goes_def arena_good_def)
qed

lemma goes_comment:
  assumes c: "fst (consume_comment p) = Some c" and p: "goes E p0 p"
  shows "goes E p0 (snd (add_comment c out (snd (consume_comment p))))"
proof (rule goes_trans [OF p])
  let ?q = "snd (add_comment c out (snd (consume_comment p)))"
  from c have cc: "consume_comment p = (Some c, snd (consume_comment p))" by (metis prod.collapse)
  have "range_ok (comment_pos c)" if "starts_ok E p"
    using c goes_pos [OF go.R_advance_while that, of "\<lambda>c. c \<noteq> 10"]
    by (auto simp: consume_comment_def Let_def range_ok_def split: if_splits)
  moreover have "tables E p ?q" "moves p ?q" by (rule tb.R_comment [OF cc], rule mv.R_comment [OF cc])
  moreover have "p_arena ?q = (p_arena p)\<lparr>comments := comments (p_arena p) @ [c]\<rparr>"
    by (simp add: add_comment_def push_comment_def)
  ultimately show "goes E p ?q"
    using arena_good_grows [of E p ?q "p_arena p"] by (auto simp: goes_def arena_good_def)
qed

lemma key_resolves:
  assumes "goes E p2 p3 \<and> (starts_ok E p2 \<longrightarrow> tokens_resolve E (p_table p3) key)"
    and "goes E p p2" and "goes E p3 q" and "starts_ok E p"
  shows "tokens_resolve E (p_table q) key"
proof (rule tokens_resolve_grows [OF _ goes_tables [OF assms(3)]])
  have "starts_ok E p2" by (rule starts_ok_goes [OF assms(4,2)])
  with assms(1) show "tokens_resolve E (p_table p3) key" "starts_ok E p3"
    by (auto intro: starts_ok_goes)
qed

lemma goes_leaf_value:
  assumes p: "goes E p p2" and k: "goes E p2 p3 \<and> (starts_ok E p2 \<longrightarrow> tokens_resolve E (p_table p3) key)"
    and v: "value_at E p3 (Some y) p4"
  shows "goes E p (snd (add_leaf \<lparr>leaf_key = key, leaf_val = fst y, leaf_op = op,
    leaf_pos = \<lparr>range_start = pos_of p, range_end = pos_of p4\<rparr>,
    leaf_val_pos = fst (snd y), leaf_color = snd (snd y)\<rparr> out p4))"
proof (rule goes_add_leaf)
  from p k have p3: "goes E p p3" by (blast intro: goes_trans)
  from v have p4: "goes E p3 p4" by (simp add: value_at_def)
  with p3 show "goes E p p4" by (rule goes_trans)
  assume E: "starts_ok E p"
  have E3: "starts_ok E p3" by (rule starts_ok_goes [OF E p3])
  have "pos_le (pos_of p) (range_start (fst (snd y)))"
    using goes_pos [OF p3 E] v E3 by (cases y) (auto simp: value_at_def intro: pos_le_trans)
  with v E3 key_resolves [OF k p p4 E]
  show "leaf_good E (p_table p4) \<lparr>leaf_key = key, leaf_val = fst y, leaf_op = op,
    leaf_pos = \<lparr>range_start = pos_of p, range_end = pos_of p4\<rparr>,
    leaf_val_pos = fst (snd y), leaf_color = snd (snd y)\<rparr>"
    by (cases y) (simp add: leaf_good_def leaf_ranges_ok_def value_at_def)
qed

lemma goes_leaf_clause:
  assumes p: "goes E p p2" and k: "goes E p2 p3 \<and> (starts_ok E p2 \<longrightarrow> tokens_resolve E (p_table p3) key)"
    and v: "opt_resolves E p3 (Some v) p4"
  shows "goes E p (snd (add_leaf \<lparr>leaf_key = key, leaf_val = v, leaf_op = op,
    leaf_pos = \<lparr>range_start = pos_of p, range_end = pos_of (skip_whitespace p4)\<rparr>,
    leaf_val_pos = \<lparr>range_start = pos_of p3, range_end = pos_of p4\<rparr>, leaf_color = c\<rparr>
    out (skip_whitespace p4)))"
proof -
  have "value_at E p3 (Some (fst (finish_value (pos_of p3) v c p4))) (snd (finish_value (pos_of p3) v c p4))"
    using v by (intro value_at_finish) (auto simp: opt_resolves_def)
  from goes_leaf_value [OF p k this, of op out] show ?thesis by (simp add: finish_value_def)
qed

lemma goes_leaf_empty:
  assumes p: "goes E p p2" and k: "goes E p2 p3 \<and> (starts_ok E p2 \<longrightarrow> tokens_resolve E (p_table p3) key)"
    and v: "value_at E p3 None p4" and e: "goes E p4 p5 \<and> (starts_ok E p4 \<longrightarrow> tokens_resolve E (p_table p5) etok)"
  shows "goes E p (snd (add_leaf \<lparr>leaf_key = key, leaf_val = VString etok, leaf_op = op,
    leaf_pos = \<lparr>range_start = pos_of p, range_end = pos_of p4\<rparr>,
    leaf_val_pos = \<lparr>range_start = pos_of p4, range_end = pos_of p4\<rparr>, leaf_color = c\<rparr> out p5))"
proof (rule goes_add_leaf)
  from v e have p35: "goes E p3 p5" by (auto simp: value_at_def intro: goes_trans)
  from p k v have p4: "goes E p p4" by (auto simp: value_at_def intro: goes_trans)
  with e show "goes E p p5" by (blast intro: goes_trans)
  assume E: "starts_ok E p"
  with p4 have "pos_le (pos_of p) (pos_of p4)" "starts_ok E p4" by (auto intro: goes_pos starts_ok_goes)
  with e key_resolves [OF k p p35 E]
  show "leaf_good E (p_table p5) \<lparr>leaf_key = key, leaf_val = VString etok, leaf_op = op,
    leaf_pos = \<lparr>range_start = pos_of p, range_end = pos_of p4\<rparr>,
    leaf_val_pos = \<lparr>range_start = pos_of p4, range_end = pos_of p4\<rparr>, leaf_color = c\<rparr>"
    by (simp add: leaf_good_def leaf_ranges_ok_def range_ok_def)
qed

lemma goes_statement_value:
  assumes "resolved E n" shows "post (statement_value E h n s b out p) (\<lambda>_. goes E p)"
proof -
  note mono = post_mono [OF goes_value [OF assms]]
  have g: "goes E p (snd (add_leaf_value \<lparr>lv_value = v, lv_pos = vp, lv_color = c\<rparr> out
      (if b then push_error l k m q else q)))"
    if "value_at E p (Some (v, vp, c)) q" for v vp c l k m q
    using that by (intro goes_add_leaf_value)
      (auto simp: value_at_def leaf_value_good_def push_error_def intro: goes_trans go.R_errors)
  show ?thesis
    by (subst statement_value.simps)
      (intro post_intros mono; (hypsubst+)?; (simp only: fst_conv snd_conv prod.collapse)?;
       (rule g, simp only: prod.collapse | intro go.R_ext, simp add: value_at_def))
qed

lemma goes_statement:
  assumes "resolved E n" shows "post (parse_statement E h n out p) (\<lambda>_. goes E p)"
proof -
  note mono = post_mono [OF goes_value [OF assms]] post_mono [OF goes_clause [OF assms]]
    post_mono [OF goes_statement_value [OF assms]] intern_mono
  have skip: "goes E p (skip_whitespace p)" by (rule go.R_skip_whitespace)
  note ext = goes_trans [OF skip]
  show ?thesis
    apply (subst parse_statement.simps)
    apply (intro post_intros mono; (hypsubst+)?; (simp only: fst_conv snd_conv)?; rule ext)
    subgoal by (simp add: consume_comment_def Let_def go.R_refl split: if_splits)
    subgoal by (erule goes_comment) (rule go.R_refl)
    subgoal by (intro go.R_ext go.R_refl)
    subgoal by (erule go.R_transR) (intro go.R_ext go.R_refl)
    subgoal by (erule go.R_transR) (intro go.R_restore_ext go.R_refl,
        erule go.R_transR [OF opt_resolves_goes], erule conjE, erule go.R_transR, intro go.R_ext go.R_refl)
    subgoal by (rule goes_leaf_clause; (assumption | intro go.R_ext go.R_refl)?)
    subgoal by (erule go.R_transR) (intro go.R_ext go.R_restore_ext go.R_refl)
    subgoal by (rule go.R_push_error [THEN go.R_transR], rule goes_leaf_empty; (assumption | intro go.R_ext go.R_refl)?)
    subgoal by (rule goes_leaf_value; (assumption | intro go.R_ext go.R_refl)?)
    done
qed

lemma resolved_all: "resolved E n"
proof (induction n)
  case 0
  then show ?case by (simp add: resolved_def clause_loop.simps)
next
  case (Suc n)
  note mono = post_mono [OF goes_statement [OF Suc]] Suc [unfolded resolved_def, rule_format, THEN post_mono]
  have "post (clause_loop E h (Suc n) cs p) (\<lambda>_. goes E p)" for h cs p
    by (subst clause_loop.simps)
      (intro post_intros mono; (hypsubst+)?; (simp only: fst_conv snd_conv)?;
        (intro go.R_ext go.R_refl | erule go.R_transR)+)
  then show ?case by (simp add: resolved_def)
qed

lemma goes_parse_loop: "post (parse_loop E h n cs p) (\<lambda>_. goes E p)"
proof (induction n arbitrary: cs p)
  case (Suc n)
  note mono = post_mono [OF goes_statement [OF resolved_all]] post_mono [OF Suc]
  show ?case
    by (subst parse_loop.simps)
      (intro post_intros mono; (simp only: fst_conv snd_conv)?; (intro go.R_refl | erule go.R_transR)+)
qed simp
end
