(* ===== verification/Parser_Total.thy ===== *)
theory Parser_Total
  imports Parser_Tree
begin

text \<open>
  Totality: \<open>returns\<close> says that a run returns and what it returns.  A statement that starts
  at some text consumes at least one character, so one turn of fuel for each character, and one
  more, is enough; the string table has room for two new strings for each character read.
\<close>

section \<open>Computations that return\<close>

definition returns :: "('a \<times> 's) option \<Rightarrow> ('a \<Rightarrow> 's \<Rightarrow> bool) \<Rightarrow> bool" where
  "returns m Q \<longleftrightarrow> (\<exists>r q. m = Some (r, q) \<and> Q r q)"

lemma returns_mono: "returns m P \<Longrightarrow> (\<And>r q. P r q \<Longrightarrow> Q r q) \<Longrightarrow> returns m Q"
  by (auto simp: returns_def)

lemma returns_LetI: "(\<And>x. x = e \<Longrightarrow> returns (f x) Q) \<Longrightarrow> returns (Let e f) Q"
  by simp

lemma returns_ifI: "(b \<Longrightarrow> returns x Q) \<Longrightarrow> (\<not> b \<Longrightarrow> returns y Q) \<Longrightarrow> returns (if b then x else y) Q"
  by simp

lemma returns_optI:
  "(x = None \<Longrightarrow> returns a Q) \<Longrightarrow> (\<And>y. x = Some y \<Longrightarrow> returns (f y) Q)
   \<Longrightarrow> returns (case x of None \<Rightarrow> a | Some y \<Rightarrow> f y) Q"
  by (cases x) auto

lemma returns_prodI: "returns (f (fst x) (snd x)) Q \<Longrightarrow> returns (case x of (a, b) \<Rightarrow> f a b) Q"
  by (simp add: case_prod_unfold)

lemma returns_bindI: "returns m (\<lambda>r q. returns (f (r, q)) Q) \<Longrightarrow> returns (m \<bind> f) Q"
  by (auto simp: returns_def)

lemma returns_mapI:
  "returns m (\<lambda>r q. Q (fst (g (r, q))) (snd (g (r, q)))) \<Longrightarrow> returns (map_option g m) Q"
  by (force simp: returns_def)

lemma returns_SomeI: "Q (fst x) (snd x) \<Longrightarrow> returns (Some x) Q"
  by (cases x) (simp add: returns_def)

lemmas returns_intros = returns_LetI returns_ifI returns_optI returns_prodI returns_bindI
  returns_mapI returns_SomeI

section \<open>Room in the string table\<close>

definition weight :: "parser \<Rightarrow> nat" where
  "weight p = table_size (p_table p) + 2 * length (p_rest p)"

definition room :: "text_env \<Rightarrow> parser \<Rightarrow> bool" where
  "room E p \<longleftrightarrow> lowercase_ok E \<and> table_ok E (p_table p) \<and> weight p \<le> 2 ^ 25"

definition lighter :: "text_env \<Rightarrow> parser \<Rightarrow> parser \<Rightarrow> bool" where
  "lighter E p q \<longleftrightarrow> table_ok E (p_table q) \<and> weight q \<le> weight p
     \<and> length (p_rest q) \<le> length (p_rest p)"

definition consumes :: "parser \<Rightarrow> parser \<Rightarrow> bool" where
  "consumes p q \<longleftrightarrow> length (p_rest q) < length (p_rest p)"

lemma room_lighter: "room E p \<Longrightarrow> lighter E p q \<Longrightarrow> room E q"
  by (simp add: room_def lighter_def)

lemma lighter_trans: "lighter E p q \<Longrightarrow> lighter E q r \<Longrightarrow> lighter E p r"
  by (auto simp: lighter_def)

lemma shrinks_lighter: "room E p \<Longrightarrow> shrinks p q \<Longrightarrow> lighter E p q"
  by (auto simp: room_def lighter_def shrinks_def weight_def)

lemma shrinks_trans: "shrinks p q \<Longrightarrow> shrinks q r \<Longrightarrow> shrinks p r"
  by (rule sc.R_trans)

lemma consumes_trans:
  "consumes p q \<Longrightarrow> shrinks q r \<Longrightarrow> consumes p r" "shrinks p q \<Longrightarrow> consumes q r \<Longrightarrow> consumes p r"
  "consumes p q \<Longrightarrow> lighter E q r \<Longrightarrow> consumes p r" "lighter E p q \<Longrightarrow> consumes q r \<Longrightarrow> consumes p r"
  by (auto simp: consumes_def shrinks_def lighter_def)

lemma returns_intern:
  assumes "room E p" "shrinks p q" "consumes p q"
  shows "returns (intern_str E h s q) (\<lambda>_ r. lighter E p r \<and> consumes p r)"
proof -
  have q: "lowercase_ok E" "table_ok E (p_table q)" "table_size (p_table q) + 2 \<le> 2 ^ 25"
    using assms by (auto simp: room_def shrinks_def consumes_def weight_def)
  from intern_total_aux [OF q] obtain tok T where
    i: "intern E h s (p_table q) = Some (tok, T)" "table_size T \<le> table_size (p_table q) + 2" by blast
  with intern_grows(1) [OF q(1,2) i(1)] assms show ?thesis
    by (auto simp: returns_def intern_str_def lighter_def weight_def shrinks_def consumes_def)
qed

lemma returns_intern_rest:
  assumes "room E p" "shrinks p q" "consumes p q"
  shows "returns (intern_str E h s q) (\<lambda>_ r. (lighter E p r \<and> consumes p r) \<and> peek r = peek q)"
  using returns_intern [OF assms, of h s] by (auto simp: returns_def intern_str_def peek_def)

lemma intern_Nil: "intern_str E h [] p = Some (EMPTY_TOKENS, p)"
  by (simp add: intern_str_def intern_def)

lemma returns_intern_Nil: "Q EMPTY_TOKENS p \<Longrightarrow> returns (intern_str E h [] p) Q"
  by (simp add: intern_Nil returns_def)

lemma between_consumes: "between (p_rest p) (p_rest q) \<noteq> [] \<Longrightarrow> consumes p q"
  by (auto simp: between_def consumes_def)

definition value_result :: "text_env \<Rightarrow> parser \<Rightarrow> 'a option \<Rightarrow> parser \<Rightarrow> bool" where
  "value_result E p r q \<longleftrightarrow> lighter E p q \<and> (r \<noteq> None \<longrightarrow> consumes p q)"

lemma value_result_shrinks:
  "room E p \<Longrightarrow> shrinks p q \<Longrightarrow> (r \<noteq> None \<Longrightarrow> consumes p q) \<Longrightarrow> value_result E p r q"
  by (simp add: value_result_def shrinks_lighter)

lemma value_result_lighter: "lighter E p q \<and> consumes p q \<Longrightarrow> value_result E p r q"
  by (simp add: value_result_def)

lemma rest_restore [simp]: "p_rest (restore (save p) q) = p_rest p"
  by (simp add: restore_def save_def)

lemma restore_lighter:
  "room E p \<Longrightarrow> p_table q = p_table p \<Longrightarrow> lighter E p (restore (save p) q)"
  by (simp add: lighter_def room_def weight_def restore_def save_def)

lemma returns_number_or_string:
  assumes "room E p"
  shows "returns (parse_number_or_string E h p) (value_result E p)"
proof -
  note intern = returns_mono [OF returns_intern [OF assms]]
  show ?thesis
    unfolding parse_number_or_string_def
    apply (intro returns_intros)
      apply ((hypsubst+)?; (simp only: fst_conv snd_conv)?)
    subgoal by (rule value_result_shrinks [OF assms]) ((intro sc.R_ext sc.R_restore_ext sc.R_refl)+, simp)
    subgoal
      by (rule intern; hypsubst?; (intro sc.R_ext sc.R_restore_ext sc.R_refl)?; (intro returns_intros)?;
          auto simp: between_def consumes_def intro: value_result_lighter)
    subgoal by (rule value_result_shrinks [OF assms]; hypsubst?; simp only: fst_conv snd_conv;
          (intro sc.R_ext sc.R_refl)?; auto simp: between_def consumes_def split: if_splits)
    done
qed

lemma peek_Some: "peek p = Some c \<longleftrightarrow> (\<exists>cs. p_rest p = c # cs)"
  by (auto simp: peek_def split: list.split)

lemma consumes_advance: "peek p = Some c \<Longrightarrow> consumes p (snd (advance p))"
  by (auto simp: consumes_def advance_rest peek_Some)

lemma consumes_read_quoted:
  assumes "peek p = Some c" shows "consumes p (snd (read_quoted b p))"
proof -
  let ?l = "read_quoted_loop None (p_rest (snd (advance p))) (snd (advance p))"
  have "shrinks (snd (advance p)) (snd (snd (snd ?l)))" by (rule sc.R_read_quoted_loop)
  with consumes_advance [OF assms] have "consumes p (snd (snd (snd ?l)))" by (rule consumes_trans)
  then show ?thesis
    by (auto simp: read_quoted_def Let_def case_prod_unfold consumes_def push_error_def)
qed

lemma returns_quoted_value:
  assumes "room E p" "peek p = Some c"
  shows "returns (parse_quoted_value E h b p) (\<lambda>_ q. lighter E p q \<and> consumes p q)"
  unfolding parse_quoted_value_def
  by (intro returns_intros returns_mono [OF returns_intern [OF assms(1)]])
    (simp_all add: sc.R_read_quoted consumes_read_quoted [OF assms(2)])

lemma returns_metaprogramming:
  assumes "room E p" shows "returns (parse_metaprogramming E h p) (value_result E p)"
proof -
  note intern = returns_mono [OF returns_intern [OF assms]]
  show ?thesis
    unfolding parse_metaprogramming_def
    apply (intro returns_intros; (hypsubst+)?; (simp only: fst_conv snd_conv)?)
    subgoal by (rule value_result_shrinks [OF assms sc.R_refl]) simp
    subgoal by (rule value_result_shrinks [OF assms]) ((intro sc.R_ext sc.R_refl)+, simp)
    subgoal by (rule value_result_shrinks [OF assms]) ((intro sc.R_ext sc.R_refl)+, simp)
    subgoal by (rule value_result_shrinks [OF assms]) ((intro sc.R_ext sc.R_refl)+, simp)
    subgoal
      by (rule intern; (intro sc.R_ext sc.R_refl)?; (intro returns_intros)?;
          (rule consumes_trans(1) [OF consumes_advance], simp, intro sc.R_ext sc.R_refl)?;
          simp add: value_result_lighter)
    done
qed

section \<open>The induction\<close>

definition clause_result :: "text_env \<Rightarrow> parser \<Rightarrow> 'a option \<Rightarrow> parser \<Rightarrow> bool" where
  "clause_result E p r q \<longleftrightarrow> lighter E p q
     \<and> (if peek p = Some (asc CHR ''{'') then r \<noteq> None \<and> consumes p q else r = None \<and> q = p)"

definition loops_return :: "text_env \<Rightarrow> handle \<Rightarrow> nat \<Rightarrow> bool" where
  "loops_return E h n \<longleftrightarrow>
     (\<forall>cs p. room E p \<longrightarrow> length (p_rest p) < n \<longrightarrow> returns (clause_loop E h n cs p) (\<lambda>_. lighter E p))"

lemma weight_depth [simp]:
  "room E (p\<lparr>p_depth := d\<rparr>) = room E p" "lighter E (p\<lparr>p_depth := d\<rparr>) q = lighter E p q"
  "lighter E p (q\<lparr>p_depth := d\<rparr>) = lighter E p q" "consumes p (q\<lparr>p_depth := d\<rparr>) = consumes p q"
  by (simp_all add: room_def lighter_def weight_def consumes_def)

lemma returns_clause:
  assumes n: "loops_return E h n" and p: "room E p" and len: "length (p_rest p) \<le> n"
  shows "returns (parse_clause E h n p) (clause_result E p)"
proof (cases "peek p = Some (asc CHR ''{'')")
  case False
  with p show ?thesis
    by (simp add: parse_clause.simps returns_def clause_result_def shrinks_lighter sc.R_refl)
next
  case True
  let ?p1 = "skip_whitespace (snd (advance p))"
  note c = consumes_advance [OF True]
  have s1: "shrinks p ?p1" by (intro sc.R_ext sc.R_refl)
  have s2: "shrinks (snd (advance p)) ?p1" by (intro sc.R_ext sc.R_refl)
  from c have c1: "consumes p ?p1" using s2 by (rule consumes_trans)
  note l1 = shrinks_lighter [OF p s1]
  have "returns (clause_loop E h n [] (?p1\<lparr>p_depth := p_depth ?p1 + 1\<rparr>)) (\<lambda>_. lighter E (?p1\<lparr>p_depth := p_depth ?p1 + 1\<rparr>))"
    using n room_lighter [OF p l1] c1 len by (simp add: loops_return_def consumes_def)
  then have loop: "returns (clause_loop E h n [] (?p1\<lparr>p_depth := p_depth ?p1 + 1\<rparr>))
      (\<lambda>cs q. clause_result E p (Some (VClause cs)) (q\<lparr>p_depth := p_depth q - 1\<rparr>))"
    by (rule returns_mono) (use True in \<open>auto simp: clause_result_def intro: lighter_trans [OF l1] consumes_trans(3) [OF c1]\<close>)
  let ?e = "error_here (str ''clause nesting deeper than the limit of '' @ show_nat MAX_CLAUSE_DEPTH
             @ str ''; this subtree was skipped'') p"
  have "shrinks p (skip_clause ?e)" by (intro sc.R_ext sc.R_refl)
  moreover have "consumes p (skip_clause ?e)"
  proof -
    have rest: "p_rest ?e = p_rest p" by (simp add: error_here_def push_error_def)
    with True have "peek ?e = Some (asc CHR ''{'')" by (simp add: peek_def)
    then have "consumes ?e (snd (advance ?e))" by (rule consumes_advance)
    then have "consumes ?e (skip_clause ?e)"
      unfolding skip_clause_def by (rule consumes_trans(1) [OF _ sc.R_skip_clause_loop])
    with rest show ?thesis by (simp add: consumes_def)
  qed
  ultimately have deep: "clause_result E p (Some (VClause [])) (skip_clause ?e)"
    using True shrinks_lighter [OF p] by (simp add: clause_result_def)
  show ?thesis
  proof (cases "MAX_CLAUSE_DEPTH \<le> p_depth p")
    case d: True
    with True deep show ?thesis by (subst parse_clause.simps) (simp add: returns_def)
  next
    case False
    with True show ?thesis
      by (subst parse_clause.simps, simp only: simp_thms if_False Let_def)
        (intro returns_intros returns_mono [OF loop]; simp)
  qed
qed

lemma clause_result_value: "clause_result E p r q \<Longrightarrow> value_result E p r q"
  by (auto simp: clause_result_def value_result_def split: if_splits)

definition color_result :: "text_env \<Rightarrow> parser \<Rightarrow> 'a option \<Rightarrow> parser \<Rightarrow> bool" where
  "color_result E p r q \<longleftrightarrow> value_result E p r q \<and> (r = None \<longrightarrow> p_table q = p_table p)"

lemma returns_color_clause:
  assumes n: "loops_return E h n" and p: "room E p" and len: "length (p_rest p) \<le> n"
  shows "returns (parse_color_clause E h n p) (color_result E p)"
proof -
  let ?q = "snd (skip_color_keyword p)"
  have s: "shrinks p ?q" by (rule sc.R_skip_color_keyword)
  then have l: "lighter E p ?q" by (rule shrinks_lighter [OF p])
  have "length (p_rest ?q) \<le> n" using s len by (simp add: shrinks_def)
  note clause = returns_mono [OF returns_clause [OF n room_lighter [OF p l] this]]
  show ?thesis
    by (subst parse_color_clause.simps, simp only: Let_def)
      (intro returns_intros clause;
       use s in \<open>auto simp: color_result_def value_result_def clause_result_def shrinks_def
         intro: lighter_trans [OF l] consumes_trans(2) [OF s] split: if_splits\<close>)
qed

lemma value_result_ext:
  "lighter E p p' \<Longrightarrow> value_result E p' r q \<Longrightarrow> value_result E p r q"
  by (auto simp: value_result_def intro: lighter_trans consumes_trans(4))

lemma finish_opt_value:
  assumes p: "room E p" and r: "value_result E p r q"
  shows "value_result E p (fst (finish_opt s (r, q))) (snd (finish_opt s (r, q)))"
proof -
  from r p have q: "room E q" by (auto simp: value_result_def intro: room_lighter)
  have s: "shrinks q (snd (finish_opt s (r, q)))" by (rule sc.R_finish_opt)
  show ?thesis
    using r shrinks_lighter [OF q s] consumes_trans(1) [OF _ s, of p]
    by (auto simp: value_result_def finish_opt_def split: option.splits intro: lighter_trans)
qed

lemma finish_color_value:
  assumes p: "room E p" and r: "color_result E p (Some y) q"
  shows "value_result E p (fst (map_prod Some id (finish_value s v c q))) (snd (map_prod Some id (finish_value s v c q)))"
proof -
  from r p have q: "room E q" by (auto simp: color_result_def value_result_def intro: room_lighter)
  have s: "shrinks q (snd (finish_value s v c q))" by (rule sc.R_finish_value)
  show ?thesis
    using r shrinks_lighter [OF q s] consumes_trans(1) [OF _ s, of p]
    by (auto simp: color_result_def value_result_def intro: lighter_trans)
qed

lemma bool_keyword_value:
  assumes "room E p" and k: "fst (parse_bool_keyword E w p) = Some b"
    and w: "w = keyword_window p"
  shows "value_result E p (Some b) (snd (parse_bool_keyword E w p))"
proof (rule value_result_shrinks [OF assms(1) sc.R_parse_bool_keyword])
  from k w have "p_rest p \<noteq> []"
    by (auto simp: parse_bool_keyword_def Let_def keyword_window_def peek_def split: if_splits)
  then obtain c cs where r: "p_rest p = c # cs" by (cases "p_rest p") auto
  have "consumes p (advance_n (Suc n) p)" for n
  proof -
    have "consumes p (snd (advance p))" using consumes_advance [of p c] r by (simp add: peek_def)
    then have "consumes p (advance_n n (snd (advance p)))" by (rule consumes_trans(1) [OF _ sc.R_advance_n])
    then show ?thesis by simp
  qed
  from this [of 2] this [of 1] k show "consumes p (snd (parse_bool_keyword E w p))"
    by (auto simp: parse_bool_keyword_def Let_def numeral_eq_Suc split: if_splits)
qed

lemma bool_keyword_None: "fst (parse_bool_keyword E w p) = None \<Longrightarrow> snd (parse_bool_keyword E w p) = p"
  by (auto simp: parse_bool_keyword_def Let_def split: if_splits)

lemma returns_scalar:
  assumes q: "room E q" and w: "w = keyword_window q"
  shows "returns (case parse_bool_keyword E w q of
      (None, r) \<Rightarrow> if c then map_option (finish_opt s) (parse_metaprogramming E h r)
                  else map_option (finish_opt s) (parse_number_or_string E h r)
    | (Some b, r) \<Rightarrow> Some (finish_opt s (Some b, r))) (value_result E q)"
proof -
  note mono = returns_mono [OF returns_metaprogramming [OF q]] returns_mono [OF returns_number_or_string [OF q]]
  note finish = finish_opt_value [OF q]
  show ?thesis
  proof (cases "fst (parse_bool_keyword E w q)")
    case None
    with bool_keyword_None [OF None] show ?thesis
      by (intro returns_prodI) (simp, intro conjI impI; intro returns_mapI mono finish; assumption)
  next
    case (Some b)
    with finish [OF bool_keyword_value [OF q Some w], of s] show ?thesis
      by (intro returns_prodI) (simp add: returns_SomeI)
  qed
qed

lemma returns_value:
  assumes n: "loops_return E h n" and p0: "room E p0" and len0: "length (p_rest p0) \<le> n"
  shows "returns (parse_value E h n b p0) (value_result E p0)"
proof -
  let ?p = "skip_comments p0"
  have s: "shrinks p0 ?p" by (rule sc.R_skip_comments)
  then have l: "lighter E p0 ?p" by (rule shrinks_lighter [OF p0])
  then have p: "room E ?p" by (rule room_lighter [OF p0])
  have len: "length (p_rest ?p) \<le> n" using s len0 by (simp add: shrinks_def)
  note ext = value_result_ext [OF l]
  note mono = returns_mono [OF returns_clause [OF n p len]] returns_mono [OF returns_color_clause [OF n p len]]
    returns_mono [OF returns_quoted_value [OF p]]
  have restored: "returns (case parse_bool_keyword E (keyword_window ?p) (restore (save ?p) q) of
      (None, r) \<Rightarrow> if c then map_option (finish_opt s) (parse_metaprogramming E h r)
                  else map_option (finish_opt s) (parse_number_or_string E h r)
    | (Some b, r) \<Rightarrow> Some (finish_opt s (Some b, r))) (value_result E p0)"
    if "p_table q = p_table ?p" for q c s
  proof -
    from restore_lighter [OF p that] have lq: "lighter E ?p (restore (save ?p) q)" .
    have "peek (restore (save ?p) q) = peek ?p" "peek_n 7 (restore (save ?p) q) = peek_n 7 ?p"
      by (simp_all add: peek_def peek_n_def)
    then have "keyword_window ?p = keyword_window (restore (save ?p) q)"
      unfolding keyword_window_def by (simp cong: option.case_cong if_cong)
    from returns_scalar [OF room_lighter [OF p lq] this, of c s h] show ?thesis
      by (rule returns_mono) (rule ext, rule value_result_ext [OF lq])
  qed
  show ?thesis
    apply (subst parse_value.simps, simp only: Let_def)
    apply (rule returns_ifI)
    subgoal by (intro returns_mapI mono ext finish_opt_value [OF p]) (simp add: clause_result_value)
    apply (rule returns_ifI)
    subgoal by (intro returns_bindI mono returns_prodI) (auto intro!: returns_SomeI ext finish_opt_value [OF p] simp: value_result_def)
    apply (rule returns_bindI, rule returns_ifI)
    subgoal
      apply (rule mono(2), rule returns_prodI, rule returns_optI)
      subgoal for r q by (simp only: fst_conv snd_conv) (rule restored, simp add: color_result_def)
      subgoal for r q y
        by (cases y) (simp only: fst_conv snd_conv prod.case, intro returns_SomeI ext, use finish_color_value [OF p, of y] in simp)
      done
    subgoal by (rule returns_SomeI, simp only: fst_conv snd_conv prod.case option.case) (simp add: restored)
    done
qed
lemma value_result_strict:
  "value_result E p (Some y) q \<Longrightarrow> lighter E p q \<and> consumes p q"
  by (simp add: value_result_def)

definition progress :: "text_env \<Rightarrow> parser \<Rightarrow> parser \<Rightarrow> bool" where
  "progress E p q \<longleftrightarrow> lighter E p q \<and> (p_rest p \<noteq> [] \<longrightarrow> consumes p q)"

lemma progress_shrinks:
  assumes "lighter E p q" "p_rest p \<noteq> [] \<Longrightarrow> consumes p q" "room E q" "shrinks q r"
  shows "progress E p r"
  using assms shrinks_lighter [OF assms(3,4)] consumes_trans(1) [OF _ assms(4), of p]
  by (auto simp: progress_def intro: lighter_trans)

lemma returns_statement_value:
  assumes n: "loops_return E h n" and p: "room E p" and len: "length (p_rest p) \<le> n"
  shows "returns (statement_value E h n s b out p) (\<lambda>_. progress E p)"
proof -
  note mono = returns_mono [OF returns_value [OF n p len]]
  have none: "progress E p (snd (advance q))" if v: "value_result E p None q" for q :: parser and v :: "'a option"
  proof -
    from v p have l: "lighter E p q" "room E q" by (auto simp: value_result_def intro: room_lighter)
    have s: "shrinks q (snd (advance q))" by (rule sc.R_advance)
    from l shrinks_lighter [OF l(2) s] have "lighter E p (snd (advance q))" by (blast intro: lighter_trans)
    moreover have "consumes p (snd (advance q))" if "p_rest p \<noteq> []"
      using that l(1) by (cases "p_rest q") (auto simp: consumes_def advance_rest lighter_def)
    ultimately show ?thesis by (simp add: progress_def)
  qed
  have some: "progress E p (snd (add_leaf_value l out (if b then push_error i j m q else q)))"
    if "value_result E p (Some y) q" for l i j m q and y :: "pvalue \<times> source_range \<times> color_prefix option"
  proof -
    from value_result_strict [OF that] p have l: "lighter E p q" "consumes p q" "room E q"
      by (auto intro: room_lighter)
    show ?thesis
      by (rule progress_shrinks [OF l]) (simp_all add: shrinks_def add_leaf_value_def push_leaf_value_def push_error_def)
  qed
  show ?thesis
    by (subst statement_value.simps)
      (intro returns_intros mono; (hypsubst+)?; (simp only: fst_conv snd_conv)?; (erule none | erule some))
qed

lemma between_Nil: "suffix b a \<Longrightarrow> between a b = [] \<Longrightarrow> b = a"
  by (auto simp: between_def suffix_def)

lemma read_key_None: "fst (read_key E p) = None \<Longrightarrow> p_rest (snd (read_key E p)) = p_rest p"
  using mvl.R_read_key_loop [of p E]
  by (auto simp: read_key_def Let_def moves_def case_prod_unfold dest: between_Nil split: if_splits)

lemma read_key_Some:
  assumes "fst (read_key E p) = Some k" shows "consumes p (snd (read_key E p))"
proof (cases "peek p = Some (asc CHR 0x22)")
  case True
  then have "snd (read_key E p) = skip_whitespace (snd (read_quoted True p))"
    by (simp add: read_key_def case_prod_unfold Let_def)
  with consumes_trans(1) [OF consumes_read_quoted [OF True] sc.R_skip_whitespace] show ?thesis by simp
next
  case False
  with assms have "between (p_rest p) (p_rest (read_key_loop E p)) \<noteq> []"
    "snd (read_key E p) = skip_whitespace (read_key_loop E p)"
    by (auto simp: read_key_def Let_def split: if_splits)
  with consumes_trans(1) [OF between_consumes sc.R_skip_whitespace] show ?thesis by simp
qed

lemma key_consumed:
  assumes "fst (read_key E p) = Some k"
  shows "consumes p (snd (parse_operator (snd (read_key E p))))"
    "consumes p (skip_whitespace (snd (parse_operator (snd (read_key E p)))))"
  by (rule consumes_trans(1) [OF read_key_Some [OF assms]]; intro sc.R_ext sc.R_refl)+

lemma progress_same:
  assumes "room E p" "shrinks p q" "p_rest q = p_rest p" "progress E q r" shows "progress E p r"
  using assms shrinks_lighter [OF assms(1,2)] by (auto simp: progress_def consumes_def intro: lighter_trans)

lemma progress_final:
  assumes p: "room E p" and q: "lighter E p q \<and> consumes p q" and r: "lighter E q r" and t: "shrinks r t"
  shows "progress E p t"
proof -
  from q r have l: "lighter E p r" "consumes p r" by (auto intro: lighter_trans consumes_trans)
  show ?thesis by (rule progress_shrinks [OF l room_lighter [OF p l(1)] t])
qed

lemma shrinks_add [simp]:
  "shrinks p (snd (add_leaf l out q)) = shrinks p q" "shrinks p (push_error i j m q) = shrinks p q"
  by (simp_all add: shrinks_def add_leaf_def push_leaf_def push_error_def)

lemma progress_comment:
  assumes p: "room E p" and hash: "peek p = Some (asc CHR ''#'')"
  shows "progress E p (snd (add_comment c out (snd (consume_comment p))))" "progress E p (snd (skip_comment p))"
    "fst (consume_comment p) \<noteq> None"
proof -
  let ?a = "advance_while (\<lambda>c. c \<noteq> 10) p"
  have s: "shrinks p ?a" by (rule sc.R_advance_while)
  have "skip_comment p = (True, ?a)" using hash by (simp add: skip_comment_def)
  with skip_comment_shorter [of ?a p] have c: "consumes p ?a" by (simp add: consumes_def)
  show "progress E p (snd (skip_comment p))"
    using hash c shrinks_lighter [OF p s] by (simp add: skip_comment_def progress_def)
  show "progress E p (snd (add_comment c out (snd (consume_comment p))))"
    using hash c shrinks_lighter [OF p s]
    by (simp add: consume_comment_def Let_def progress_def add_comment_def push_comment_def lighter_def
        weight_def consumes_def)
  show "fst (consume_comment p) \<noteq> None" using hash by (simp add: consume_comment_def Let_def)
qed

lemma returns_statement:
  assumes n: "loops_return E h n" and p0: "room E p0" and len0: "length (p_rest p0) \<le> n"
  shows "returns (parse_statement E h n out p0) (\<lambda>_. progress E p0)"
proof -
  define p where "p = skip_whitespace p0"
  have s: "shrinks p0 p" unfolding p_def by (rule sc.R_skip_whitespace)
  then have l: "lighter E p0 p" by (rule shrinks_lighter [OF p0])
  then have R: "room E p" by (rule room_lighter [OF p0])
  have len: "length (p_rest p) \<le> n" using s len0 by (simp add: shrinks_def)
  have ext: "progress E p0 q" if "progress E p q" for q
    using that l by (cases "p_rest p") (auto simp: progress_def lighter_def consumes_def)
  note ext_mono = returns_mono [where P = "\<lambda>_. progress E p", OF _ ext]
  have same: "returns (statement_value E h n b c out q) (\<lambda>_. progress E p)"
    if "shrinks p q" "p_rest q = p_rest p" for b c q
  proof (rule returns_mono [OF returns_statement_value])
    show "loops_return E h n" by (rule n)
    show "room E q" by (rule room_lighter [OF R shrinks_lighter [OF R that(1)]])
    show "length (p_rest q) \<le> n" using len that(2) by simp
    show "progress E q r \<Longrightarrow> progress E p r" for r by (rule progress_same [OF R that])
  qed
  have after: "room E q" "length (p_rest q) \<le> n" if "lighter E p q \<and> consumes p q" for q
    using that room_lighter [OF R] len by (auto simp: consumes_def)
  note clause = returns_mono [OF returns_clause [OF n after]]
  note val = returns_mono [OF returns_value [OF n after]]
  note intern = returns_mono [OF returns_intern_rest [OF R]]
  have clause_leaf: "progress E p (snd (add_leaf x out (skip_whitespace r)))"
    if "(lighter E p q \<and> consumes p q) \<and> b" "clause_result E q v r" for x q b r and v :: "pvalue option"
    using that by (intro progress_final [OF R, of q r])
      (auto simp: clause_result_def intro: sc.R_skip_whitespace)
  have value_leaf: "progress E p (snd (add_leaf x out r))"
    "progress E p (push_error i j m (snd (add_leaf x out r)))"
    if "(lighter E p q \<and> consumes p q) \<and> b" "value_result E q v r"
    for x q b r i j m and v :: "(pvalue \<times> source_range \<times> color_prefix option) option"
    using that by (intro progress_final [OF R, of q r]; auto simp: value_result_def sc.R_refl)+
  show ?thesis
    apply (subst parse_statement.simps, fold p_def)
    apply (rule ext_mono)
    apply (intro returns_intros; (hypsubst+)?; (simp only: fst_conv snd_conv)?)
    subgoal by (drule progress_comment(3) [OF R]) simp
    subgoal by (rule progress_comment(1) [OF R])
    subgoal by (rule progress_comment(2) [OF R])
    subgoal by (rule same [OF sc.R_read_key read_key_None])
    subgoal
      apply (rule intern, intro sc.R_ext sc.R_refl, erule key_consumed)
      apply (simp only: prod.case, rule returns_bindI, rule clause, blast, blast, simp only: prod.case)
      apply (rule returns_optI)
      subgoal by (simp add: clause_result_def)
      subgoal by (simp only: Let_def, rule returns_SomeI, erule clause_leaf, assumption)
      done
    subgoal by (rule same) ((intro sc.R_restore_ext sc.R_ext sc.R_refl)+, simp)
    subgoal
      apply (rule intern, intro sc.R_ext sc.R_refl, erule key_consumed)
      apply (simp only: prod.case, rule returns_bindI, rule val, blast, blast, simp only: prod.case)
      apply (rule returns_optI)
      subgoal by (rule returns_bindI, rule returns_intern_Nil)
          (simp only: prod.case Let_def, rule returns_prodI, rule returns_SomeI, simp only: snd_conv, erule value_leaf, assumption)
      subgoal by (rule returns_prodI, rule returns_prodI, rule returns_SomeI, erule value_leaf, assumption)
      done
    subgoal by assumption
    done
qed

lemma loops_return_all: "loops_return E h n"
proof (induction n)
  case 0
  then show ?case by (simp add: loops_return_def)
next
  case (Suc n)
  have "returns (clause_loop E h (Suc n) cs p) (\<lambda>_. lighter E p)"
    if p: "room E p" and len: "length (p_rest p) < Suc n" for cs p
  proof -
    define q where "q = skip_whitespace p"
    have s: "shrinks p q" unfolding q_def by (rule sc.R_skip_whitespace)
    note l = shrinks_lighter [OF p s]
    note q = room_lighter [OF p l]
    have len_q: "length (p_rest q) \<le> n" using s len by (simp add: shrinks_def)
    have next_turn: "returns (clause_loop E h n cs' r) (\<lambda>_. lighter E p)"
      if "peek q = Some c" "progress E q r" for c cs' r
    proof (rule returns_mono)
      from that have "length (p_rest r) < n" "lighter E q r"
        using len_q by (auto simp: progress_def consumes_def peek_Some)
      with Suc room_lighter [OF q] show "returns (clause_loop E h n cs' r) (\<lambda>_. lighter E r)"
        by (simp add: loops_return_def)
      show "lighter E r t \<Longrightarrow> lighter E p t" for t
        using l \<open>lighter E q r\<close> by (blast intro: lighter_trans)
    qed
    have stop: "lighter E p (error_here m q)" "lighter E p (snd (advance q))" for m
      by (rule shrinks_lighter [OF p]; rule shrinks_trans [OF s]; rule sc.R_error_here sc.R_advance)+
    show ?thesis
      apply (subst clause_loop.simps, fold q_def)
      apply (simp only: Let_def, rule returns_optI)
      subgoal by (rule returns_SomeI) (simp add: stop)
      subgoal
        by (intro returns_ifI returns_bindI returns_mono [OF returns_statement [OF Suc q len_q]])
          (auto intro: returns_SomeI next_turn simp: stop)
      done
  qed
  then show ?case by (simp add: loops_return_def)
qed

lemma returns_loop:
  "room E p \<Longrightarrow> length (p_rest p) < n \<Longrightarrow> returns (parse_loop E h n cs p) (\<lambda>_ q. lighter E p q \<and> p_rest q = [])"
proof (induction n arbitrary: cs p)
  case (Suc n)
  then have len: "length (p_rest p) \<le> n" by simp
  have next_turn: "returns (parse_loop E h n cs' r) (\<lambda>_ q. lighter E p q \<and> p_rest q = [])"
    if "peek p \<noteq> None" "progress E p r" for cs' r
  proof (rule returns_mono [OF Suc.IH])
    from that show "length (p_rest r) < n" using len by (auto simp: progress_def consumes_def peek_def split: list.splits)
    from that show "room E r" using Suc.prems(1) by (auto simp: progress_def intro: room_lighter)
    from that show "lighter E r q \<and> p_rest q = [] \<Longrightarrow> lighter E p q \<and> p_rest q = []" for q
      by (auto simp: progress_def intro: lighter_trans)
  qed
  show ?case
    apply (subst parse_loop.simps)
    apply (rule returns_ifI)
    subgoal by (rule returns_SomeI)
      (auto simp: peek_def intro: shrinks_lighter [OF Suc.prems(1) sc.R_refl] split: list.splits)
    subgoal by (intro returns_bindI returns_mono [OF returns_statement [OF loops_return_all Suc.prems(1) len]])
        (auto intro: next_turn)
    done
qed simp
end
