(* ===== verification/Parser_Comments.thy ===== *)
theory Parser_Comments
  imports Parser_Tree
begin

text \<open>
  Preserving or discarding comments: \<open>discard\<close> forgets the comments of a state, and a
  run that preserves comments mirrors, step by step, the run that discards them.
\<close>

section \<open>Forgetting comments\<close>

definition strip_children :: "child list \<Rightarrow> child list" where
  "strip_children cs = filter (\<lambda>c. case c of CComment _ \<Rightarrow> False | _ \<Rightarrow> True) cs"

fun strip_value :: "pvalue \<Rightarrow> pvalue" where
  "strip_value (VClause cs) = VClause (strip_children cs)"
| "strip_value v = v"

definition strip_leaf :: "leaf \<Rightarrow> leaf" where
  "strip_leaf l = l\<lparr>leaf_val := strip_value (leaf_val l)\<rparr>"

definition strip_leaf_value :: "leaf_value \<Rightarrow> leaf_value" where
  "strip_leaf_value l = l\<lparr>lv_value := strip_value (lv_value l)\<rparr>"

definition strip_arena :: "arena \<Rightarrow> arena" where
  "strip_arena A = \<lparr>leaves = map strip_leaf (leaves A), leaf_values = map strip_leaf_value (leaf_values A),
     comments = [], comment_pool = None\<rparr>"

definition discard :: "parser \<Rightarrow> parser" where
  "discard p = p\<lparr>p_mode := Discard, p_pool := [], p_arena := strip_arena (p_arena p)\<rparr>"

lemma discard_simps [simp]:
  "p_rest (discard p) = p_rest p" "p_line (discard p) = p_line p" "p_col (discard p) = p_col p"
  "p_table (discard p) = p_table p" "p_errors (discard p) = p_errors p" "p_depth (discard p) = p_depth p"
  "p_unclosed (discard p) = p_unclosed p" "p_mode (discard p) = Discard"
  "p_arena (discard p) = strip_arena (p_arena p)"
  by (simp_all add: discard_def)

lemma discard_update [simp]:
  "discard (p\<lparr>p_rest := r\<rparr>) = (discard p)\<lparr>p_rest := r\<rparr>"
  "discard (p\<lparr>p_line := l\<rparr>) = (discard p)\<lparr>p_line := l\<rparr>"
  "discard (p\<lparr>p_col := c\<rparr>) = (discard p)\<lparr>p_col := c\<rparr>"
  "discard (p\<lparr>p_table := t\<rparr>) = (discard p)\<lparr>p_table := t\<rparr>"
  "discard (p\<lparr>p_errors := es\<rparr>) = (discard p)\<lparr>p_errors := es\<rparr>"
  "discard (p\<lparr>p_depth := d\<rparr>) = (discard p)\<lparr>p_depth := d\<rparr>"
  "discard (p\<lparr>p_unclosed := u\<rparr>) = (discard p)\<lparr>p_unclosed := u\<rparr>"
  "discard (p\<lparr>p_pool := s\<rparr>) = discard p"
  by (simp_all add: discard_def)

lemma discard_peek [simp]:
  "peek (discard p) = peek p" "pos_of (discard p) = pos_of p" "peek_n n (discard p) = peek_n n p"
  "save (discard p) = save p"
  "no_value_message h k (discard p) = no_value_message h k p"
  by (simp_all add: peek_def pos_of_def peek_n_def save_def no_value_message_def)

lemma discard_keyword_window [simp]: "keyword_window (discard p) = keyword_window p"
  unfolding keyword_window_def by (simp cong: option.case_cong if_cong)

lemma discard_step [simp]: "step c (discard p) = discard (step c p)"
  by (simp add: step_def)

lemma discard_restore [simp]: "restore c (discard p) = discard (restore c p)"
  by (simp add: restore_def)

lemma discard_error [simp]: "push_error l c m (discard p) = discard (push_error l c m p)"
  "error_here m (discard p) = discard (error_here m p)"
  by (simp_all add: push_error_def error_here_def)

lemma discard_advance [simp]: "advance (discard p) = map_prod id discard (advance p)"
  by (simp add: advance_def flip: discard_update split: list.split)

lemma discard_next_if [simp]: "next_if P (discard p) = map_prod id discard (next_if P p)"
  by (simp add: next_if_def flip: discard_update split: list.split)

lemma discard_advance_while [simp]: "advance_while P (discard p) = discard (advance_while P p)"
proof (induction P p rule: advance_while.induct)
  case (1 P p)
  then show ?case
    by (subst (1 2) advance_while.simps) (cases "next_if P p"; auto split: option.split)
qed

lemma discard_advance_n [simp]: "advance_n n (discard p) = discard (advance_n n p)"
  by (induction n arbitrary: p) simp_all

lemma discard_skip_whitespace [simp]: "skip_whitespace (discard p) = discard (skip_whitespace p)"
  by (simp add: skip_whitespace_def)

lemma discard_skip_comment [simp]: "skip_comment (discard p) = map_prod id discard (skip_comment p)"
  by (simp add: skip_comment_def)

lemma discard_skip_quoted_body [simp]: "skip_quoted_body (discard p) = discard (skip_quoted_body p)"
proof (induction p rule: skip_quoted_body.induct)
  case (1 p)
  then show ?case
    by (subst (1 2) skip_quoted_body.simps) (cases "next_if (\<lambda>c. c \<noteq> 10) p"; auto split: option.split)
qed

lemma discard_parse_operator [simp]: "parse_operator (discard p) = map_prod id discard (parse_operator p)"
  by (simp add: parse_operator_def split: option.split)

lemma discard_read_quoted_loop [simp]:
  "read_quoted_loop u s (discard p) = (let (u', s', c, q) = read_quoted_loop u s p in (u', s', c, discard q))"
proof (induction "length (p_rest p)" arbitrary: u s p rule: less_induct)
  case less
  note sh = next_if_shorter [OF sym] 
  obtain a p1 where n1: "next_if (\<lambda>c. c \<noteq> 10) p = (a, p1)" by fastforce
  obtain b p2 where n2: "next_if (\<lambda>e. e = asc CHR 0x22 \<or> e = asc CHR 0x5C) p1 = (b, p2)" by fastforce
  have le: "length (p_rest p2) \<le> length (p_rest p1)" using next_if_le [of _ p1] n2 by (metis snd_conv)
  show ?case
  proof (cases a)
    case None
    with n1 show ?thesis by (subst (1 2) read_quoted_loop.simps) simp
  next
    case (Some c)
    with n1 sh have l1: "length (p_rest p1) < length (p_rest p)" by simp
    with le have l2: "length (p_rest p2) < length (p_rest p)" by simp
    note IH = less [OF l1] less [OF l2]
    show ?thesis
      by (subst (1 2) read_quoted_loop.simps, cases "c = asc CHR 0x5C"; cases b)
        (use n2 in \<open>simp_all add: n1 Some IH Let_def split: option.split\<close>)
  qed
qed

lemma discard_read_quoted [simp]: "read_quoted b (discard p) = map_prod id discard (read_quoted b p)"
proof -
  obtain u s c q where "read_quoted_loop None (p_rest (snd (advance p))) (snd (advance p)) = (u, s, c, q)"
    by (metis prod_cases4)
  then show ?thesis
    by (cases u; cases c; cases b) (simp_all add: read_quoted_def Let_def)
qed

lemma discard_read_key_loop [simp]: "read_key_loop E (discard p) = discard (read_key_loop E p)"
proof (induction E p rule: read_key_loop.induct)
  case (1 E p)
  then show ?case
    by (subst (1 2) read_key_loop.simps) (simp add: Let_def)
qed

lemma discard_read_key [simp]: "read_key E (discard p) = map_prod id discard (read_key E p)"
  by (simp add: read_key_def Let_def case_prod_unfold)

lemma discard_read_number [simp]: "read_number d (discard p) = discard (read_number d p)"
proof (induction d p rule: read_number.induct)
  case (1 d p)
  then show ?case
    by (subst (1 2) read_number.simps)
      (cases "next_if (\<lambda>c. is_ascii_digit c \<or> (c = asc CHR ''.'' \<and> \<not> d)) p"; auto split: option.split)
qed

lemma discard_skip_clause_loop [simp]: "skip_clause_loop n (discard p) = discard (skip_clause_loop n p)"
proof (induction n p rule: skip_clause_loop.induct)
  case (1 n p)
  then show ?case
    by (subst (1 2) skip_clause_loop.simps) (cases "advance p"; auto split: option.split)
qed

lemma discard_skip_clause [simp]: "skip_clause (discard p) = discard (skip_clause p)"
  by (simp add: skip_clause_def)

lemma discard_skip_comments [simp]: "skip_comments (discard p) = discard (skip_comments p)"
proof (induction p rule: skip_comments.induct)
  case (1 p)
  then show ?case
    by (subst (1 2) skip_comments.simps) (cases "skip_comment (skip_whitespace p)"; auto simp: Let_def split: bool.split)
qed

lemma discard_skip_color_keyword [simp]:
  "skip_color_keyword (discard p) = map_prod id discard (skip_color_keyword p)"
  by (simp add: skip_color_keyword_def Let_def)

lemma discard_bool_keyword [simp]:
  "parse_bool_keyword E w (discard p) = map_prod id discard (parse_bool_keyword E w p)"
  by (simp add: parse_bool_keyword_def Let_def)

section \<open>Computations that agree up to comments\<close>

definition mirrors :: "('a \<times> parser) option \<Rightarrow> ('a \<times> parser) option \<Rightarrow> ('a \<Rightarrow> 'a) \<Rightarrow> bool" where
  "mirrors m m' F \<longleftrightarrow> m' = map_option (map_prod F discard) m"

lemma mirrors_SomeI: "x' = map_prod F discard x \<Longrightarrow> mirrors (Some x) (Some x') F"
  by (simp add: mirrors_def)

lemma mirrors_Some_iff [simp]: "mirrors (Some x) (Some x') F \<longleftrightarrow> x' = map_prod F discard x"
  by (auto simp: mirrors_def)

lemma mirrors_bindI:
  "mirrors m m' F \<Longrightarrow> (\<And>r q. mirrors (f (r, q)) (f' (F r, discard q)) G) \<Longrightarrow> mirrors (m \<bind> f) (m' \<bind> f') G"
  by (cases m) (auto simp: mirrors_def)

lemma mirrors_ifI:
  "b = b' \<Longrightarrow> mirrors x x' F \<Longrightarrow> mirrors y y' F \<Longrightarrow> mirrors (if b then x else y) (if b' then x' else y') F"
  by simp

lemma mirrors_mapI:
  "mirrors m m' F \<Longrightarrow> (\<And>r q. g' (F r, discard q) = map_prod G discard (g (r, q)))
   \<Longrightarrow> mirrors (map_option g m) (map_option g' m') G"
  by (cases m) (auto simp: mirrors_def)

lemma mirrors_intern: "mirrors (intern_str E h s p) (intern_str E h s (discard p)) (\<lambda>r. r)"
  by (auto simp: mirrors_def intern_str_def option.map_comp comp_def case_prod_unfold intro!: option.map_cong)

lemmas mirrors_intern_bind = mirrors_bindI [OF mirrors_intern]

lemma mirrors_optI:
  "x' = map_option K x \<Longrightarrow> (x = None \<Longrightarrow> mirrors a a' F) \<Longrightarrow> (\<And>y. x = Some y \<Longrightarrow> mirrors (f y) (f' (K y)) F)
   \<Longrightarrow> mirrors (case x of None \<Rightarrow> a | Some y \<Rightarrow> f y) (case x' of None \<Rightarrow> a' | Some y \<Rightarrow> f' y) F"
  by (cases x) auto

lemma mirrors_sameI:
  "x' = x \<Longrightarrow> (x = None \<Longrightarrow> mirrors a a' F) \<Longrightarrow> (\<And>y. x = Some y \<Longrightarrow> mirrors (f y) (f' y) F)
   \<Longrightarrow> mirrors (case x of None \<Rightarrow> a | Some y \<Rightarrow> f y) (case x' of None \<Rightarrow> a' | Some y \<Rightarrow> f' y) F"
  by (cases x) auto

lemma mirrors_prodI:
  "x' = map_prod K discard x \<Longrightarrow> mirrors (f (fst x) (snd x)) (f' (K (fst x)) (discard (snd x))) F
   \<Longrightarrow> mirrors (case x of (a, b) \<Rightarrow> f a b) (case x' of (a, b) \<Rightarrow> f' a b) F"
  by (simp add: case_prod_unfold)

lemma mirrors_pairI:
  "x' = map_prod id discard x \<Longrightarrow> mirrors (f (fst x) (snd x)) (f' (fst x) (discard (snd x))) F
   \<Longrightarrow> mirrors (case x of (a, b) \<Rightarrow> f a b) (case x' of (a, b) \<Rightarrow> f' a b) F"
  by (simp add: case_prod_unfold)

lemma mirrors_LetI:
  "mirrors (f e) (f' e') F \<Longrightarrow> mirrors (Let e f) (Let e' f') F"
  by simp

lemmas discard_all = discard_simps(1-7) discard_peek discard_keyword_window discard_restore discard_error
  discard_advance discard_next_if discard_advance_while discard_advance_n discard_skip_whitespace
  discard_skip_comment discard_parse_operator discard_read_quoted discard_read_key discard_read_number
  discard_skip_clause discard_skip_comments discard_skip_color_keyword discard_bool_keyword
  fst_map_prod snd_map_prod

lemma strip_scalar [simp]:
  "map_option strip_value (map_option VFloat d) = map_option VFloat d"
  by (cases d) simp_all

lemma mirrors_number_or_string:
  "mirrors (parse_number_or_string E h p) (parse_number_or_string E h (discard p)) (map_option strip_value)"
proof -
  have scalar: "strip_value v = v"
    if "(if b then (case parse_i64 s of None \<Rightarrow> map_option VFloat (parse_f64 s) | Some i \<Rightarrow> Some (VInt i)) else None)
      = Some v" for b s v
    using that by (auto split: option.splits if_splits)
  show ?thesis
    unfolding parse_number_or_string_def Let_def discard_all
    by (intro mirrors_sameI mirrors_ifI mirrors_intern_bind mirrors_SomeI refl)
      (simp_all only: prod.case, (simp add: mirrors_SomeI | drule scalar, simp)+)
qed

lemma mirrors_quoted_value:
  "mirrors (parse_quoted_value E h b p) (parse_quoted_value E h b (discard p)) strip_value"
  unfolding parse_quoted_value_def Let_def discard_all
  by (rule mirrors_pairI [OF refl], rule mirrors_intern_bind) simp

lemma mirrors_metaprogramming:
  "mirrors (parse_metaprogramming E h p) (parse_metaprogramming E h (discard p)) (map_option strip_value)"
  unfolding parse_metaprogramming_def Let_def discard_all
  by (intro mirrors_ifI mirrors_pairI mirrors_sameI refl; (simp only: discard_all)?;
      (intro mirrors_intern_bind)?; simp)

definition strip_result ::
  "(pvalue \<times> source_range \<times> color_prefix option) option \<Rightarrow> (pvalue \<times> source_range \<times> color_prefix option) option"
where
  "strip_result = map_option (map_prod strip_value id)"

lemma mirrors_finish_opt:
  "mirrors m m' (map_option strip_value)
   \<Longrightarrow> mirrors (map_option (finish_opt s) m) (map_option (finish_opt s) m') strip_result"
  by (erule mirrors_mapI)
    (auto simp: finish_opt_def finish_value_def strip_result_def split: option.split)

lemma finish_opt_discard:
  "finish_opt s (map_option strip_value r, discard q) = map_prod strip_result discard (finish_opt s (r, q))"
  by (auto simp: finish_opt_def finish_value_def strip_result_def split: option.split)

section \<open>The induction\<close>

definition mirror_loops :: "text_env \<Rightarrow> handle \<Rightarrow> nat \<Rightarrow> bool" where
  "mirror_loops E h n \<longleftrightarrow>
     (\<forall>cs p. mirrors (clause_loop E h n cs p) (clause_loop E h n (strip_children cs) (discard p)) strip_children)"

lemma mirrors_clause:
  assumes "mirror_loops E h n"
  shows "mirrors (parse_clause E h n p) (parse_clause E h n (discard p)) (map_option strip_value)"
proof -
  have loop: "mirrors (clause_loop E h n [] (q\<lparr>p_depth := d\<rparr>)) (clause_loop E h n [] ((discard q)\<lparr>p_depth := d\<rparr>)) strip_children" for q d
    using assms [unfolded mirror_loops_def, rule_format, of "[]" "q\<lparr>p_depth := d\<rparr>"] by (simp add: strip_children_def)
  show ?thesis
    apply (subst (1 2) parse_clause.simps)
    unfolding Let_def discard_all
    by (intro mirrors_ifI mirrors_bindI [OF loop] refl) (simp_all add: mirrors_SomeI strip_children_def)
qed

lemma mirrors_color_clause:
  assumes "mirror_loops E h n"
  shows "mirrors (parse_color_clause E h n p) (parse_color_clause E h n (discard p)) (map_option (map_prod strip_value id))"
  apply (subst (1 2) parse_color_clause.simps)
  unfolding Let_def discard_all
  by (rule mirrors_pairI [OF refl], rule mirrors_bindI [OF mirrors_clause [OF assms]])
    (simp add: option.map_comp comp_def)

lemma bool_keyword_scalar: "fst (parse_bool_keyword E w p) = Some b \<Longrightarrow> map_option strip_value (Some b) = Some b"
  by (auto simp: parse_bool_keyword_def Let_def split: if_splits)

lemma finish_bool_discard:
  "fst (parse_bool_keyword E w p) = Some b
   \<Longrightarrow> finish_opt s (Some b, discard q) = map_prod strip_result discard (finish_opt s (Some b, q))"
  using finish_opt_discard [of s "Some b" q] bool_keyword_scalar [of E w p b] by simp

lemma mirrors_value:
  assumes "mirror_loops E h n"
  shows "mirrors (parse_value E h n b p) (parse_value E h n b (discard p)) strip_result"
  apply (subst (1 2) parse_value.simps)
  unfolding Let_def discard_all
  apply (intro mirrors_ifI refl)
  apply (rule mirrors_finish_opt [OF mirrors_clause [OF assms]])
  apply (rule mirrors_bindI [OF mirrors_quoted_value], simp only: prod.case, rule mirrors_SomeI,
      use finish_opt_discard [of _ "Some _"] in simp)
  apply (rule mirrors_bindI [where F = "map_option (map_prod strip_value id)"])
  apply (intro mirrors_ifI refl mirrors_color_clause [OF assms])
  apply (simp add: mirrors_SomeI)
  unfolding prod.case
  apply (rule mirrors_optI, rule refl)
  unfolding Let_def discard_all
  subgoal for r q
    by (intro mirrors_pairI mirrors_sameI mirrors_ifI refl mirrors_finish_opt mirrors_metaprogramming
        mirrors_number_or_string mirrors_SomeI finish_bool_discard)
  subgoal for r q y
    by (cases y) (simp add: mirrors_SomeI finish_value_def strip_result_def)
  done

lemma strip_append [simp]: "strip_children (cs @ ds) = strip_children cs @ strip_children ds"
  by (simp add: strip_children_def)

lemma discard_add:
  "add_leaf l' (strip_children out) (discard q) = map_prod strip_children discard (add_leaf l out q)"
    if "l' = strip_leaf l"
  using that by (simp add: add_leaf_def push_leaf_def strip_children_def discard_def strip_arena_def)

lemma discard_add_value:
  "add_leaf_value l' (strip_children out) (discard q) = map_prod strip_children discard (add_leaf_value l out q)"
    if "l' = strip_leaf_value l"
  using that by (simp add: add_leaf_value_def push_leaf_value_def strip_children_def discard_def strip_arena_def)

lemma mirrors_statement_value:
  assumes "mirror_loops E h n"
  shows "mirrors (statement_value E h n s b out p) (statement_value E h n s b (strip_children out) (discard p)) strip_children"
proof -
  have err: "(if b then push_error i j m (discard q) else discard q) = discard (if b then push_error i j m q else q)" for i j m q
    by simp
  show ?thesis
    apply (subst (1 2) statement_value.simps)
    apply (rule mirrors_bindI [OF mirrors_value [OF assms]])
    apply (simp only: prod.case strip_result_def)
    apply (rule mirrors_optI, rule refl)
    subgoal by simp
    subgoal for r q y
      by (cases y) (simp only: prod.case map_prod_simp id_apply Let_def err mirrors_Some_iff,
        rule discard_add_value, simp add: strip_leaf_value_def)
    done
qed

lemma mirrors_comment:
  "mirrors
     (if p_mode q = Preserve
      then case consume_comment q of (None, p1) \<Rightarrow> Some (out, p1) | (Some c, p1) \<Rightarrow> Some (add_comment c out p1)
      else Some (out, snd (skip_comment q)))
     (Some (strip_children out, discard (snd (skip_comment q)))) strip_children"
  by (auto simp: consume_comment_def skip_comment_def Let_def add_comment_def push_comment_def)
    (simp_all add: strip_children_def discard_def strip_arena_def)

lemma mirrors_statement:
  assumes "mirror_loops E h n"
  shows "mirrors (parse_statement E h n out p) (parse_statement E h n (strip_children out) (discard p)) strip_children"
proof -
  define q where "q = skip_whitespace p"
  have q': "skip_whitespace (discard p) = discard q" by (simp add: q_def)
  have dp: "(Discard = Preserve) = False" by simp
  note stmt = mirrors_statement_value [OF assms]
  show ?thesis
    apply (subst (1 2) parse_statement.simps, fold q_def, simp only: q' Let_def)
    unfolding discard_all discard_simps(8) dp if_False
    apply (rule mirrors_ifI, rule refl, rule mirrors_comment)
    apply (rule mirrors_pairI [OF refl], rule mirrors_sameI [OF refl], rule stmt)
    unfolding discard_all
    apply (rule mirrors_pairI [OF refl], rule mirrors_sameI [OF refl])
    unfolding discard_all
    subgoal
      apply (rule mirrors_ifI, rule refl)
      subgoal
        apply (rule mirrors_intern_bind, simp only: prod.case, rule mirrors_bindI [OF mirrors_clause [OF assms]])
        apply (simp only: prod.case, rule mirrors_optI, rule refl)
        unfolding discard_all
        subgoal by (rule stmt)
        subgoal by (simp only: mirrors_Some_iff, rule discard_add, simp add: strip_leaf_def)
        done
      subgoal by (rule stmt)
      done
    subgoal
      apply (rule mirrors_intern_bind, simp only: prod.case, rule mirrors_bindI [OF mirrors_value [OF assms]])
      apply (simp only: prod.case strip_result_def, rule mirrors_optI, rule refl)
      unfolding discard_all
      subgoal
        apply (rule mirrors_intern_bind, simp only: prod.case)
        apply (rule mirrors_prodI [where K = strip_children], rule discard_add)
        unfolding discard_all
        by (simp_all add: strip_leaf_def)
      subgoal for r q' r' q'' y
        by (cases y) (simp only: prod.case map_prod_simp id_apply mirrors_Some_iff,
          rule discard_add, simp add: strip_leaf_def)
      done
    done
qed

lemma mirror_loops_all: "mirror_loops E h n"
proof (induction n)
  case 0
  then show ?case by (simp add: mirror_loops_def clause_loop.simps mirrors_def)
next
  case (Suc n)
  have "mirrors (clause_loop E h (Suc n) cs p) (clause_loop E h (Suc n) (strip_children cs) (discard p)) strip_children" for cs p
    apply (subst (1 2) clause_loop.simps)
    unfolding Let_def discard_all
    apply (rule mirrors_sameI [OF refl])
    subgoal by simp
    subgoal
      by (rule mirrors_ifI, rule refl, simp, rule mirrors_bindI [OF mirrors_statement [OF Suc]])
        (use Suc in \<open>simp add: mirror_loops_def\<close>)
    done
  then show ?case by (simp add: mirror_loops_def)
qed

lemma mirrors_loop:
  "mirrors (parse_loop E h n cs p) (parse_loop E h n (strip_children cs) (discard p)) strip_children"
proof (induction n arbitrary: cs p)
  case (Suc n)
  show ?case
    apply (subst (1 2) parse_loop.simps)
    unfolding discard_all
    by (rule mirrors_ifI, rule refl, simp, rule mirrors_bindI [OF mirrors_statement [OF mirror_loops_all]])
      (simp add: Suc)
qed (simp add: mirrors_def)

end
