(* ===== verification/Parser_Properties.thy ===== *)
theory Parser_Properties
  imports Parser_Ranges Parser_Total Parser_Comments
begin

text \<open>
  The properties of the parser of \<^verbatim>\<open>engine/crates/parser/src/parser.rs\<close>, for whole files, for
  quoted strings and for bare values.
\<close>

section \<open>From the loop to the file\<close>

definition start_state :: "comment_mode \<Rightarrow> ustr \<Rightarrow> string_table \<Rightarrow> parser" where
  "start_state mode input T =
     skip_whitespace (Parser_new (case strip_prefix [0xFEFF] input of Some s \<Rightarrow> s | None \<Rightarrow> input) T mode
       (if prefix [0xFEFF] input then 1 else 0))"

definition file_of :: "handle \<Rightarrow> child list \<Rightarrow> parser \<Rightarrow> parsed_file" where
  "file_of h root p =
     \<lparr>pf_arena = (p_arena p)\<lparr>comment_pool := (if p_pool p = [] then None else Some (p_pool p))\<rparr>,
      root_children = root, pf_errors = p_errors p, unclosed_leaf_value_quote_line = p_unclosed p,
      pf_overlay = overlay_guard h\<rparr>"

lemma parse_string_unfold:
  "parse_string_with_comment_mode E h mode input T =
     map_option (\<lambda>(root, p). (file_of h root p, p_table p))
       (parse_loop E h (Suc (length (p_rest (start_state mode input T)))) [] (start_state mode input T))"
  unfolding parse_string_with_comment_mode_def parse_def Let_def start_state_def [symmetric]
    file_of_def [symmetric]
  by (cases "parse_loop E h (Suc (length (p_rest (start_state mode input T)))) [] (start_state mode input T)") auto

lemma parse_stringE:
  assumes "parse_string_with_comment_mode E h mode input T = Some (f, T')"
  obtains root p where "f = file_of h root p" "T' = p_table p"
    "parse_loop E h (Suc (length (p_rest (start_state mode input T)))) [] (start_state mode input T) = Some (root, p)"
  using assms unfolding parse_string_unfold by auto

lemma start_state_simps [simp]:
  "p_table (start_state mode input T) = T" "p_arena (start_state mode input T) = Arena_new"
  "p_depth (start_state mode input T) = 0" "p_pool (start_state mode input T) = []"
  "p_mode (start_state mode input T) = mode"
proof -
  let ?n = "Parser_new (case strip_prefix [0xFEFF] input of Some s \<Rightarrow> s | None \<Rightarrow> input) T mode
       (if prefix [0xFEFF] input then 1 else 0)"
  have "shrinks ?n (skip_whitespace ?n)" "frame ?n (skip_whitespace ?n)"
    by (rule sc.R_skip_whitespace, rule lex.R_skip_whitespace)
  then show "p_table (start_state mode input T) = T" "p_arena (start_state mode input T) = Arena_new"
    "p_depth (start_state mode input T) = 0" "p_pool (start_state mode input T) = []"
    "p_mode (start_state mode input T) = mode"
    by (simp_all add: shrinks_def frame_def start_state_def Parser_new_def)
qed

lemma start_state_col: "p_col (start_state mode input T) \<le> 65535"
  using mvl.R_skip_whitespace [of "Parser_new (case strip_prefix [0xFEFF] input of Some s \<Rightarrow> s | None \<Rightarrow> input) T mode
       (if prefix [0xFEFF] input then 1 else 0)"]
  by (simp add: moves_def start_state_def Parser_new_def split: if_splits)

lemma start_state_length: "length (p_rest (start_state mode input T)) \<le> length input"
proof -
  have "length (case strip_prefix [0xFEFF] input of Some s \<Rightarrow> s | None \<Rightarrow> input) \<le> length input"
    by (auto simp: strip_prefix_eq_Some split: option.split)
  then show ?thesis
    using skip_whitespace_le [of "Parser_new (case strip_prefix [0xFEFF] input of Some s \<Rightarrow> s | None \<Rightarrow> input) T mode
       (if prefix [0xFEFF] input then 1 else 0)"]
    by (simp add: start_state_def Parser_new_def)
qed

lemma parse_total_aux:
  assumes "lowercase_ok E" "table_ok E T" "table_size T + 2 * length input \<le> 2 ^ 25"
  shows "\<exists>f T'. parse_string_with_comment_mode E h mode input T = Some (f, T')"
proof -
  let ?p = "start_state mode input T"
  have "room E ?p" using assms start_state_length [of mode input T] by (simp add: room_def weight_def)
  from returns_loop [OF this lessI, of h "[]"] show ?thesis
    by (auto simp: returns_def parse_string_unfold)
qed

lemma file_of_arena [simp]:
  "leaves (pf_arena (file_of h r p)) = leaves (p_arena p)"
  "leaf_values (pf_arena (file_of h r p)) = leaf_values (p_arena p)"
  "comments (pf_arena (file_of h r p)) = comments (p_arena p)"
  "comment_pool (pf_arena (file_of h r p)) = (if p_pool p = [] then None else Some (p_pool p))"
  "root_children (file_of h r p) = r"
  by (simp_all add: file_of_def)

lemma parse_small_total:
  assumes "length input \<le> 100"
  shows "\<exists>f T'. parse_string_with_comment_mode ascii_env h mode input StringTable_new = Some (f, T')"
  using parse_total_aux [OF ascii_env_ok table_ok_new, of input] assms by (simp add: table_size_new)

section \<open>Properties\<close>

text \<open>
  C1. The parser returns: with a well-formed string table that has room for two entries for
  each character, parsing any text, balanced or not, yields a file (no panic, no endless loop).
\<close>

theorem parse_string_total:
  assumes "lowercase_ok E" and "table_ok E T" and "table_size T + 2 * length input \<le> 2 ^ 25"
  shows "\<exists>f T'. parse_string_with_comment_mode E h mode input T = Some (f, T')"
  using assms by (rule parse_total_aux)

theorem parse_string_total_witness:
  "\<exists>f T'. parse_string_with_comment_mode ascii_env None Preserve (str ''a = { b = } } }'') StringTable_new = Some (f, T')"
  by (rule parse_string_total [OF ascii_env_ok table_ok_new]) (simp add: table_size_new)

lemma parsed_tree:
  assumes "parse_string_with_comment_mode E h mode input T = Some (f, T')"
  shows "arena_tree 257 (pf_arena f) (root_children f) (0, 0, 0)
    (length (leaves (pf_arena f)), length (leaf_values (pf_arena f)), length (comments (pf_arena f)))"
proof -
  obtain root p where f: "f = file_of h root p" "T' = p_table p" and
    r: "parse_loop E h (Suc (length (p_rest (start_state mode input T)))) [] (start_state mode input T) = Some (root, p)"
    using parse_stringE [OF assms] .
  from postD [OF tree_loop r] have "arena_tree 257 (p_arena p) root (counts Arena_new) (counts (p_arena p))"
    by (simp add: children_built_def built_def)
  moreover have "arena_extends (p_arena p) (pf_arena f)" by (simp add: arena_extends_def f)
  ultimately show ?thesis
    by (auto simp: f counts_def Arena_new_def dest: arena_tree_extends)
qed

text \<open>
  C2. The tree of a parsed file: walking the root children in post-order meets every leaf,
  leaf value and comment of the arena exactly once and in index order, and no clause lies
  deeper than 256 clauses below the root.
\<close>

theorem parse_string_tree:
  assumes "parse_string_with_comment_mode E h mode input T = Some (f, T')"
  shows "arena_tree 257 (pf_arena f) (root_children f) (0, 0, 0)
    (length (leaves (pf_arena f)), length (leaf_values (pf_arena f)), length (comments (pf_arena f)))"
  using assms by (rule parsed_tree)

theorem parse_string_tree_witness:
  "\<exists>f T'. parse_string_with_comment_mode ascii_env None Preserve (str ''a = { b c }'') StringTable_new = Some (f, T')
     \<and> arena_tree 257 (pf_arena f) (root_children f) (0, 0, 0)
         (length (leaves (pf_arena f)), length (leaf_values (pf_arena f)), length (comments (pf_arena f)))"
proof -
  obtain f T' where "parse_string_with_comment_mode ascii_env None Preserve (str ''a = { b c }'') StringTable_new = Some (f, T')"
    using parse_small_total [of "str ''a = { b c }''" None Preserve] by auto
  with parse_string_tree [OF this] show ?thesis by blast
qed

lemma parsed_arena:
  assumes "lowercase_ok E" and "table_ok E T"
    and "parse_string_with_comment_mode E h mode input T = Some (f, T')"
  shows "table_ok E T' \<and> arena_good E T' (pf_arena f)"
proof -
  let ?p = "start_state mode input T"
  obtain root p where f: "f = file_of h root p" "T' = p_table p" and
    r: "parse_loop E h (Suc (length (p_rest ?p))) [] ?p = Some (root, p)"
    using parse_stringE [OF assms(3)] .
  have "starts_ok E ?p" using assms start_state_col by (simp add: starts_ok_def)
  moreover have "arena_good E T Arena_new" by (simp add: arena_good_def Arena_new_def)
  ultimately have "arena_good E (p_table p) (p_arena p)" "starts_ok E p"
    using postD [OF goes_parse_loop r] starts_ok_goes [of E ?p p] by (auto simp: goes_def)
  then show ?thesis by (simp add: f arena_good_def starts_ok_def)
qed

text \<open>
  C33. What the arena holds is usable: in the table the parser leaves behind, both ids of every
  key and of every string value resolve, to the text and to its lowercase form; and every
  source range runs forward, a value's inside its leaf's.
\<close>

theorem parse_string_arena:
  assumes "lowercase_ok E" and "table_ok E T"
    and "parse_string_with_comment_mode E h mode input T = Some (f, T')"
  shows "table_ok E T' \<and> arena_good E T' (pf_arena f)"
  using assms by (rule parsed_arena)

theorem parse_string_arena_witness:
  "\<exists>f T'. parse_string_with_comment_mode ascii_env None Discard (str ''a = { b c }'') StringTable_new = Some (f, T')
     \<and> arena_good ascii_env T' (pf_arena f)"
proof -
  obtain f T' where "parse_string_with_comment_mode ascii_env None Discard (str ''a = { b c }'') StringTable_new = Some (f, T')"
    using parse_small_total [of "str ''a = { b c }''" None Discard] by auto
  with parse_string_arena [OF ascii_env_ok table_ok_new this] show ?thesis by blast
qed

lemma ranges_split_slices:
  "ranges_split cs (blen w) s \<Longrightarrow> pool = w @ s \<Longrightarrow>
   \<exists>ts. s = concat ts \<and> list_all2 (\<lambda>c t. byte_slice pool (cr_start (comment_range_of c)) (cr_end (comment_range_of c)) = Some t
      \<and> t \<noteq> [] \<and> hd t = asc CHR ''#'' \<and> 10 \<notin> set t) cs ts"
proof (induction cs arbitrary: w s)
  case (Cons c cs)
  then obtain t u where s: "s = t @ u" and t: "t \<noteq> []" "hd t = asc CHR ''#''" "10 \<notin> set t"
    and c: "comment_range_of c = \<lparr>cr_start = blen w, cr_end = blen w + blen t\<rparr>"
    and rest: "ranges_split cs (blen (w @ t)) u"
    by auto
  from Cons.IH [OF rest] Cons.prems(2) s obtain ts where ts: "u = concat ts"
    "list_all2 (\<lambda>c t. byte_slice pool (cr_start (comment_range_of c)) (cr_end (comment_range_of c)) = Some t
      \<and> t \<noteq> [] \<and> hd t = asc CHR ''#'' \<and> 10 \<notin> set t) cs ts"
    by auto
  have "byte_slice pool (blen w) (blen w + blen t) = Some t"
    using byte_slice_middle [of w t u] Cons.prems(2) s by simp
  with s t c ts show ?case by (intro exI [of _ "t # ts"]) simp
qed simp

lemma parsed_comments:
  assumes "parse_string_with_comment_mode E h mode input T = Some (f, T')"
  shows "\<exists>ts. list_all2 (\<lambda>c t. comment_text (pf_arena f) c = Some t \<and> t \<noteq> [] \<and> hd t = asc CHR ''#'' \<and> 10 \<notin> set t)
      (comments (pf_arena f)) ts
    \<and> comment_pool (pf_arena f) = (if ts = [] then None else Some (concat ts))"
proof -
  obtain root p where f: "f = file_of h root p" "T' = p_table p" and
    r: "parse_loop E h (Suc (length (p_rest (start_state mode input T)))) [] (start_state mode input T) = Some (root, p)"
    using parse_stringE [OF assms] .
  from postD [OF po.post_parse_loop r] have "ranges_split (comments (p_arena p)) (blen []) (p_pool p)"
    by (simp add: pooled_def comments_ok_def Arena_new_def)
  from ranges_split_slices [OF this, of "p_pool p"] obtain ts where ts: "p_pool p = concat ts"
    "list_all2 (\<lambda>c t. byte_slice (p_pool p) (cr_start (comment_range_of c)) (cr_end (comment_range_of c)) = Some t
      \<and> t \<noteq> [] \<and> hd t = asc CHR ''#'' \<and> 10 \<notin> set t) (comments (p_arena p)) ts"
    by auto
  then have ne: "p_pool p = [] \<longleftrightarrow> ts = []"
    by (cases ts) (auto simp: list_all2_Cons2)
  have "list_all2 (\<lambda>c t. comment_text (pf_arena f) c = Some t \<and> t \<noteq> [] \<and> hd t = asc CHR ''#'' \<and> 10 \<notin> set t) (comments (p_arena p)) ts"
  proof (cases "ts = []")
    case False
    with ne ts(2) show ?thesis
      by (auto simp: f comment_text_def elim!: list.rel_mono_strong)
  qed (use ts in simp)
  with ne ts(1) show ?thesis by (auto simp: f)
qed

text \<open>
  Comments are kept whole: \<^verbatim>\<open>comment_text\<close> returns, for every comment of a parsed file, a
  text of one line that starts with \<^verbatim>\<open>#\<close>, and the pool is these texts one after the other.
\<close>

theorem parse_string_comments:
  assumes "parse_string_with_comment_mode E h mode input T = Some (f, T')"
  shows "\<exists>ts. list_all2 (\<lambda>c t. comment_text (pf_arena f) c = Some t \<and> t \<noteq> [] \<and> hd t = asc CHR ''#'' \<and> 10 \<notin> set t)
      (comments (pf_arena f)) ts
    \<and> comment_pool (pf_arena f) = (if ts = [] then None else Some (concat ts))"
  using assms by (rule parsed_comments)

theorem parse_string_comments_witness:
  "\<exists>f T'. parse_string_with_comment_mode ascii_env None Preserve (str ''a #b'') StringTable_new = Some (f, T')
     \<and> (\<exists>ts. list_all2 (\<lambda>c t. comment_text (pf_arena f) c = Some t \<and> t \<noteq> [] \<and> hd t = asc CHR ''#'' \<and> 10 \<notin> set t)
           (comments (pf_arena f)) ts)"
proof -
  obtain f T' where "parse_string_with_comment_mode ascii_env None Preserve (str ''a #b'') StringTable_new = Some (f, T')"
    using parse_small_total [of "str ''a #b''" None Preserve] by auto
  with parse_string_comments [OF this] show ?thesis by blast
qed

definition strip_file :: "parsed_file \<Rightarrow> parsed_file" where
  "strip_file f = f\<lparr>pf_arena := strip_arena (pf_arena f), root_children := strip_children (root_children f)\<rparr>"

lemma discard_start: "discard (start_state Preserve input T) = start_state Discard input T"
  unfolding start_state_def discard_skip_whitespace [symmetric]
  by (simp add: Parser_new_def discard_def strip_arena_def Arena_new_def)

lemma strip_file_of: "file_of h (strip_children root) (discard p) = strip_file (file_of h root p)"
  by (simp add: file_of_def strip_file_def discard_def strip_arena_def)

text \<open>
  Discarding comments loses comments only: \<^verbatim>\<open>parse_string_without_comments\<close> gives what
  \<^verbatim>\<open>parse_string\<close> gives with the comments, their pool and the comment children taken out: the
  same leaves, leaf values, errors, positions and string table, on every input.
\<close>

theorem parse_without_comments:
  "parse_string_without_comments E h input T =
     map_option (map_prod strip_file id) (parse_string E h input T)"
proof -
  have "mirrors (parse_loop E h n [] (start_state Preserve input T))
     (parse_loop E h n [] (start_state Discard input T)) strip_children" for n
    using mirrors_loop [of E h n "[]" "start_state Preserve input T"]
    by (simp add: discard_start strip_children_def)
  moreover have "p_rest (start_state Discard input T) = p_rest (start_state Preserve input T)"
    by (simp flip: discard_start)
  ultimately show ?thesis
    unfolding parse_string_without_comments_def parse_string_def parse_string_unfold
    by (simp add: mirrors_def option.map_comp comp_def case_prod_unfold strip_file_of del: parse_loop.simps)
qed

section \<open>Quoted strings\<close>

text \<open>How a text is written between quotes: quotes and backslashes get a backslash.\<close>

definition escape :: "ustr \<Rightarrow> ustr" where
  "escape s = concat (map (\<lambda>c. if c = asc CHR 0x22 \<or> c = asc CHR 0x5C then [asc CHR 0x5C, c] else [c]) s)"

lemma escape_simps [simp]:
  "escape [] = []"
  "escape (c # s) = (if c = 34 \<or> c = 92 then 92 # c # escape s else c # escape s)"
  by (simp_all add: escape_def)

lemma next_if_Cons:
  "p_rest p = c # cs \<Longrightarrow> P c \<Longrightarrow> next_if P p = (Some c, step c (p\<lparr>p_rest := cs\<rparr>))"
  by (simp add: next_if_def)

definition buffered :: "ustr option \<Rightarrow> ustr" where
  "buffered u = (case u of None \<Rightarrow> [34] | Some b \<Rightarrow> b)"

lemma between_Cons [simp]: "between (w @ a # b) (a # b) = w"
  using between_append [of w "a # b"] by simp

definition body_read :: "parser \<Rightarrow> ustr \<Rightarrow> ustr \<Rightarrow> ustr option \<Rightarrow> ustr \<Rightarrow> ustr option \<times> ustr \<times> bool \<times> parser \<Rightarrow> bool" where
  "body_read p s rest u w r \<longleftrightarrow> (case r of (u', seg', closed, q) \<Rightarrow> closed \<and> p_rest q = rest
     \<and> p_errors q = p_errors p \<and> p_unclosed q = p_unclosed p
     \<and> (u' = None \<longrightarrow> u = None \<and> escape s = s)
     \<and> (\<forall>buf. u' = Some buf \<longrightarrow> buf @ between seg' (34 # rest) = buffered u @ w @ s))"

lemma read_quoted_loop_escape:
  assumes "p_rest p = escape s @ 34 # rest" "10 \<notin> set s" "seg = w @ p_rest p"
  shows "body_read p s rest u w (read_quoted_loop u seg p)"
  using assms
proof (induction s arbitrary: p u seg w)
  case Nil
  then have "p_rest p = 34 # rest" by simp
  from next_if_Cons [OF this, of "\<lambda>c. c \<noteq> 10"] Nil show ?case
    by (subst read_quoted_loop.simps) (auto simp: buffered_def body_read_def)
next
  case (Cons c s)
  show ?case
  proof (cases "c = 34 \<or> c = 92")
    case False
    let ?q = "step c (p\<lparr>p_rest := escape s @ 34 # rest\<rparr>)"
    from False Cons.prems have r: "p_rest p = c # escape s @ 34 # rest" "c \<noteq> 10" by auto
    then have "read_quoted_loop u seg p = read_quoted_loop u seg ?q"
      using next_if_Cons [OF r(1), of "\<lambda>c. c \<noteq> 10"] False by (subst read_quoted_loop.simps) simp
    moreover have "seg = (w @ [c]) @ p_rest ?q" using Cons.prems(3) r by simp
    ultimately show ?thesis
      using Cons.IH [of ?q seg "w @ [c]" u] Cons.prems(2) False
      by (simp add: body_read_def split: prod.splits)
  next
    case True
    let ?p1 = "step 92 (p\<lparr>p_rest := c # escape s @ 34 # rest\<rparr>)"
    let ?p2 = "step c (?p1\<lparr>p_rest := escape s @ 34 # rest\<rparr>)"
    let ?u = "Some (buffered u @ between seg (92 # p_rest ?p1) @ [c])"
    from True Cons.prems have r: "p_rest p = 92 # c # escape s @ 34 # rest" by auto
    have n1: "next_if (\<lambda>c. c \<noteq> 10) p = (Some 92, ?p1)" using next_if_Cons [OF r, of "\<lambda>c. c \<noteq> 10"] by simp
    have n2: "next_if (\<lambda>e. e = 34 \<or> e = 92) ?p1 = (Some c, ?p2)" by (rule next_if_Cons) (use True in auto)
    have step: "read_quoted_loop u seg p = read_quoted_loop ?u (p_rest ?p2) ?p2"
      by (subst read_quoted_loop.simps) (cases u; simp add: n1 n2 buffered_def)
    have w: "between seg (92 # p_rest ?p1) = w" using Cons.prems(3) r by simp
    have "body_read ?p2 s rest ?u [] (read_quoted_loop ?u (p_rest ?p2) ?p2)"
      using Cons.prems(2) by (intro Cons.IH) auto
    with w show ?thesis
      unfolding step by (auto simp: body_read_def buffered_def [of "Some _"])
  qed
qed

text \<open>
  Reading back a quoted string: a text of one line, written between quotes with its quotes
  and backslashes escaped, is read as that text between quotes, to its closing quote and no
  further, without a diagnostic.
\<close>

theorem read_quoted_escape:
  assumes "10 \<notin> set s" and "p_rest p = asc CHR 0x22 # escape s @ asc CHR 0x22 # rest"
  shows "fst (read_quoted b p) = asc CHR 0x22 # s @ [asc CHR 0x22]
    \<and> p_rest (snd (read_quoted b p)) = rest \<and> p_errors (snd (read_quoted b p)) = p_errors p
    \<and> p_unclosed (snd (read_quoted b p)) = p_unclosed p"
proof -
  let ?p1 = "step 34 (p\<lparr>p_rest := escape s @ 34 # rest\<rparr>)"
  have adv: "snd (advance p) = ?p1" using assms(2) by (simp add: advance_def)
  obtain u seg c q where r: "read_quoted_loop None (p_rest ?p1) ?p1 = (u, seg, c, q)" by (metis prod_cases4)
  have "body_read ?p1 s rest None [] (u, seg, c, q)"
    unfolding r [symmetric] by (rule read_quoted_loop_escape) (use assms(1) in simp_all)
  then have l: "c" "p_rest q = rest" "p_errors q = p_errors p" "p_unclosed q = p_unclosed p"
    "u = None \<Longrightarrow> escape s = s" "u = Some buf \<Longrightarrow> buf @ between seg (34 # rest) = 34 # s" for buf
    by (auto simp: body_read_def buffered_def)
  have "between (p_rest p) rest = 34 # escape s @ [34]"
    using assms(2) between_append [of "34 # escape s @ [34]" rest] by simp
  with l r adv show ?thesis
    by (cases u) (auto simp: read_quoted_def Let_def)
qed

theorem read_quoted_escape_witness:
  "\<exists>p. p_rest p = [34, 97, 92, 34, 34, 98] \<and> fst (read_quoted True p) = [34, 97, 34, 34] \<and> p_rest (snd (read_quoted True p)) = [98]"
proof -
  define p where "p = Parser_new [34, 97, 92, 34, 34, 98] StringTable_new Preserve 0"
  have r: "p_rest p = [34, 97, 92, 34, 34, 98]" by (simp add: p_def Parser_new_def)
  from read_quoted_escape [of "[97, 34]" p "[98]" True] r show ?thesis by auto
qed

section \<open>Bare values\<close>

definition alphanumeric_ok :: "text_env \<Rightarrow> bool" where
  "alphanumeric_ok E \<longleftrightarrow> (\<forall>c. env_alphanumeric E c \<longrightarrow> \<not> is_whitespace c)"

text \<open>The bare values that are not spelled like the start of something else.\<close>

definition plain_start :: "ustr \<Rightarrow> bool" where
  "plain_start v \<longleftrightarrow> \<not> is_keyword3 ''rgb'' v \<and> \<not> is_keyword3 ''hsv'' v
     \<and> \<not> prefix (str ''.'') v \<and> \<not> prefix [asc CHR ''@'', asc CHR 0x5C, asc CHR ''[''] v"

lemma value_char_plain:
  assumes "alphanumeric_ok E" "is_value_char E c"
  shows "\<not> is_whitespace c \<and> c \<noteq> 35 \<and> c \<noteq> 123 \<and> c \<noteq> 34"
proof (cases "is_ascii c")
  case True
  with assms(2) have "is_ascii_alphanumeric c \<or> c \<in> set (str ''_.-:;'' @ [39] @ str ''[]@+`%/!,<>?$'' @ [92] @ str ''|^*&()'')"
    by (simp add: is_value_char_def VALUE_CHAR_def ascii_class_def)
  then show ?thesis
    by (auto simp: ascii_defs is_whitespace_def)
next
  case False
  with assms show ?thesis
    by (auto simp: alphanumeric_ok_def is_value_char_def is_ascii_def is_whitespace_def)
qed

lemma skip_whitespace_Cons: "p_rest p = c # cs \<Longrightarrow> \<not> is_whitespace c \<Longrightarrow> skip_whitespace p = p"
  by (simp add: skip_whitespace_def advance_while.simps next_if_def)

lemma skip_comments_Cons:
  "p_rest p = c # cs \<Longrightarrow> \<not> is_whitespace c \<Longrightarrow> c \<noteq> 35 \<Longrightarrow> skip_comments p = p"
  by (simp add: skip_comments.simps skip_whitespace_Cons skip_comment_def peek_def)

lemma lower_letter_value: "ascii_lower d = c \<Longrightarrow> is_ascii_lowercase c \<Longrightarrow> is_value_char E d"
  by (auto simp: is_value_char_def VALUE_CHAR_def ascii_class_def ascii_lower_def ascii_defs split: if_splits)

lemma value_prefix_length:
  assumes "rest = [] \<or> \<not> P (hd rest)" "k \<le> length (v @ rest)" "\<forall>i < k. P ((v @ rest) ! i)"
  shows "k \<le> length v"
proof (rule ccontr)
  assume "\<not> k \<le> length v"
  then have "length v < k" by simp
  with assms(3) have "P ((v @ rest) ! length v)" by blast
  moreover from \<open>length v < k\<close> assms(2) have "rest \<noteq> []" by auto
  ultimately show False using assms(1) by (cases rest) auto
qed

lemma keyword_take7: "is_keyword3 w (take 7 s) = is_keyword3 w s"
  by (auto simp: is_keyword3_def)

lemma keyword_take:
  assumes "rest = [] \<or> \<not> is_value_char E (hd rest)" "list_all is_ascii_lowercase (map asc w)" "length w = 3"
    and "is_keyword3 w (take 7 (v @ rest))"
  shows "is_keyword3 w v"
proof -
  let ?s = "v @ rest"
  have w: "is_ascii_lowercase (asc (w ! 0))" "is_ascii_lowercase (asc (w ! 1))" "is_ascii_lowercase (asc (w ! 2))"
    using assms(2,3) by (auto simp: list_all_length)
  from assms(4) [unfolded keyword_take7, unfolded is_keyword3_def] have k: "3 \<le> length ?s" "ascii_lower (?s ! 0) = asc (w ! 0)" "ascii_lower (?s ! 1) = asc (w ! 1)"
    "ascii_lower (?s ! 2) = asc (w ! 2)"
    by blast+
  have "\<forall>i < 3. is_value_char E (?s ! i)"
    using lower_letter_value [OF k(2) w(1)] lower_letter_value [OF k(3) w(2)] lower_letter_value [OF k(4) w(3)]
    by (auto simp: less_Suc_eq numeral_eq_Suc)
  then have "3 \<le> length v" by (rule value_prefix_length [where P = "is_value_char E", OF assms(1) k(1)])
  then obtain x y z u where "v = x # y # z # u" by (auto simp: numeral_eq_Suc Suc_le_length_iff)
  with k show ?thesis by (simp add: is_keyword3_def)
qed

lemma take_three: "3 \<le> length s \<Longrightarrow> take 3 s = [s ! 0, s ! 1, s ! 2]"
  by (cases s; cases "tl s"; cases "tl (tl s)") (auto simp: numeral_eq_Suc)

lemma take_two: "2 \<le> length s \<Longrightarrow> take 2 s = [s ! 0, s ! 1]"
  by (cases s; cases "tl s") (auto simp: numeral_eq_Suc)

lemma window_three:
  "3 \<le> length (take 7 s) \<Longrightarrow> take 7 s ! 0 = a \<Longrightarrow> take 7 s ! 1 = b \<Longrightarrow> take 7 s ! 2 = c
   \<Longrightarrow> take 3 s = [a, b, c] \<and> 3 \<le> length s"
  using take_three [of s] by simp

lemma window_two:
  "2 \<le> length (take 7 s) \<Longrightarrow> take 7 s ! 0 = a \<Longrightarrow> take 7 s ! 1 = b \<Longrightarrow> take 2 s = [a, b] \<and> 2 \<le> length s"
  using take_two [of s] by simp

lemma bare_not_bool:
  assumes rest: "rest = [] \<or> \<not> is_value_char E (hd rest)" and v: "is_bare_string_value E v"
    and p: "p_rest p = v @ rest"
  shows "parse_bool_keyword E (take 7 (v @ rest)) p = (None, p)"
proof -
  have more: "(case peek (advance_n n p) of Some c \<Rightarrow> \<not> is_value_char E c | None \<Rightarrow> True) = False"
    if n: "length w = n" and w: "take n (v @ rest) = w" "v \<noteq> w" "list_all (is_value_char E) w" "n \<le> length (v @ rest)" for w n
  proof -
    note w = w [folded n]
    have "(v @ rest) ! i = w ! i" if "i < length w" for i
      using w(1) that by (metis nth_take)
    with w(3) have "\<forall>i < length w. is_value_char E ((v @ rest) ! i)" by (simp add: list_all_length)
    then have "length w \<le> length v" by (rule value_prefix_length [where P = "is_value_char E", OF rest w(4)])
    with w(1) have "take (length w) v = w" by simp
    with w(2) have "length w < length v" by (metis take_all_iff not_le)
    then have "drop (length w) (v @ rest) = v ! length w # drop (Suc (length w)) v @ rest"
      by (simp add: Cons_nth_drop_Suc)
    moreover have "is_value_char E (v ! length w)"
      using v \<open>length w < length v\<close> by (simp add: is_bare_string_value_def list_all_length)
    ultimately show ?thesis by (simp add: peek_def advance_n_rest p flip: n)
  qed
  have yes: "(case peek (advance_n 3 p) of Some c \<Rightarrow> \<not> is_value_char E c | None \<Rightarrow> True) = False"
    if "take 3 (v @ rest) = str ''yes''" "3 \<le> length (v @ rest)"
    by (rule more [OF _ that(1) _ _ that(2)])
      (use v in \<open>auto simp: is_bare_string_value_def is_value_char_def VALUE_CHAR_def ascii_class_def ascii_defs\<close>)
  have no: "(case peek (advance_n 2 p) of Some c \<Rightarrow> \<not> is_value_char E c | None \<Rightarrow> True) = False"
    if "take 2 (v @ rest) = str ''no''" "2 \<le> length (v @ rest)"
    by (rule more [OF _ that(1) _ _ that(2)])
      (use v in \<open>auto simp: is_bare_string_value_def is_value_char_def VALUE_CHAR_def ascii_class_def ascii_defs\<close>)
  show ?thesis
  proof -
    let ?s = "v @ rest"
    have yes7: "take 3 ?s = str ''yes'' \<and> 3 \<le> length ?s"
      if "3 \<le> length (take 7 ?s)" "take 7 ?s ! 0 = asc CHR ''y''" "take 7 ?s ! 1 = asc CHR ''e''" "take 7 ?s ! 2 = asc CHR ''s''"
      using window_three [OF that] by simp
    have no7: "take 2 ?s = str ''no'' \<and> 2 \<le> length ?s"
      if "2 \<le> length (take 7 ?s)" "take 7 ?s ! 0 = asc CHR ''n''" "take 7 ?s ! 1 = asc CHR ''o''"
      using window_two [OF that] by simp
    show ?thesis
      unfolding parse_bool_keyword_def Let_def
      using yes yes7 no no7 by (auto split: if_splits)
  qed
qed

lemma bare_number_or_string:
  assumes rest: "rest = [] \<or> \<not> is_value_char E (hd rest)" and v: "is_bare_string_value E v"
    and dot: "\<not> prefix (str ''.'') v" and p: "p_rest p = v @ rest"
    and i: "intern E h v (p_table p) = Some (tok, T)"
  shows "parse_number_or_string E h p
    = Some (Some (VString tok), (advance_while (is_value_char E) p)\<lparr>p_table := T\<rparr>)"
proof -
  from v obtain c cs where vc: "v = c # cs" by (cases v) (auto simp: is_bare_string_value_def)
  with v dot have c: "c \<noteq> 45" "c \<noteq> 43" "\<not> is_ascii_digit c" "c \<noteq> 46"
    by (auto simp: is_bare_string_value_def)
  have n: "next_if (\<lambda>c. c = 45 \<or> c = 43) p = (None, p)" "read_number False p = p"
    using c vc p by (simp_all add: next_if_def read_number.simps)
  have restored: "restore (save p) p = p" by (simp add: restore_def save_def)
  have "list_all (is_value_char E) v" using v by (simp add: is_bare_string_value_def)
  then have "dropWhile (is_value_char E) (v @ rest) = rest"
    using rest by (cases rest) (auto simp: dropWhile_append list_all_iff)
  then have after: "p_rest (advance_while (is_value_char E) p) = rest"
    by (simp add: advance_while_rest p)
  have "p_table (advance_while (is_value_char E) p) = p_table p"
    using sc.R_advance_while [of p "is_value_char E"] by (simp add: shrinks_def)
  then have "intern_str E h v (advance_while (is_value_char E) p)
      = Some (tok, (advance_while (is_value_char E) p)\<lparr>p_table := T\<rparr>)"
    using i by (simp add: intern_str_def)
  moreover have "between (v @ rest) (v @ rest) = []" by (simp add: between_def)
  moreover have "between (v @ rest) rest = v" by (rule between_append)
  moreover have "v \<noteq> []" using vc by simp
  ultimately show ?thesis
    by (simp add: parse_number_or_string_def n restored after p Let_def)
qed

text \<open>
  \<^verbatim>\<open>is_bare_string_value\<close> is right about the values that do not start like a number, a
  color keyword or an inline expression: written without quotes, and followed by something that
  is not a value character, such a text parses to the string value of its own tokens.
\<close>

theorem bare_string_parses:
  assumes "alphanumeric_ok E" and "is_bare_string_value E v" and "plain_start v"
    and "p_rest p = v @ rest" and "rest = [] \<or> \<not> is_value_char E (hd rest)"
    and "intern E h v (p_table p) = Some (tok, T)"
  shows "\<exists>r q. parse_value E h n b p = Some (Some (VString tok, r, None), q) \<and> range_start r = pos_of p
    \<and> p_table q = T \<and> p_rest q = dropWhile is_whitespace rest"
proof -
  from assms(2) obtain c cs where vc: "v = c # cs" by (cases v) (auto simp: is_bare_string_value_def)
  have c: "\<not> is_whitespace c" "c \<noteq> 35" "c \<noteq> 123" "c \<noteq> 34"
    using value_char_plain [OF assms(1), of c] assms(2) vc by (auto simp: is_bare_string_value_def)
  have skip: "skip_comments p = p" by (rule skip_comments_Cons) (use assms(4) vc c in auto)
  have not_color: "\<not> is_keyword3 w (take 7 (v @ rest))" if "w = ''rgb'' \<or> w = ''hsv''" for w
    using keyword_take [OF assms(5), of w v] assms(3) that
    by (auto simp: plain_start_def ascii_defs)
  have window: "keyword_window p = take 7 (v @ rest) \<or> keyword_window p = []"
    by (simp add: keyword_window_def peek_n_def assms(4) split: option.split)
  have bool: "parse_bool_keyword E (keyword_window p) p = (None, p)"
    using window
  proof
    assume "keyword_window p = take 7 (v @ rest)"
    then show ?thesis by (simp only: bare_not_bool [OF assms(5,2,4)])
  qed (simp add: parse_bool_keyword_def Let_def)
  have no_color: "\<not> is_keyword3 ''rgb'' (keyword_window p)" "\<not> is_keyword3 ''hsv'' (keyword_window p)"
  proof -
    have none: "\<not> is_keyword3 w []" for w by (simp add: is_keyword3_def)
    have "\<not> is_keyword3 w (keyword_window p)" if w: "w = ''rgb'' \<or> w = ''hsv''" for w
      using window
    proof
      assume k: "keyword_window p = take 7 (v @ rest)"
      show ?thesis unfolding k by (rule not_color [OF w])
    next
      assume k: "keyword_window p = []"
      show ?thesis unfolding k by (rule none)
    qed
    then show "\<not> is_keyword3 ''rgb'' (keyword_window p)" "\<not> is_keyword3 ''hsv'' (keyword_window p)"
      by blast+
  qed
  have no_meta: "\<not> (length (keyword_window p) \<ge> 3 \<and> keyword_window p ! 0 = asc CHR ''@''
      \<and> keyword_window p ! 1 = asc CHR 0x5C \<and> keyword_window p ! 2 = asc CHR ''['')"
  proof
    assume w: "length (keyword_window p) \<ge> 3 \<and> keyword_window p ! 0 = asc CHR ''@''
      \<and> keyword_window p ! 1 = asc CHR 0x5C \<and> keyword_window p ! 2 = asc CHR ''[''"
    with window have "keyword_window p = take 7 (v @ rest)" by auto
    note w [unfolded this]
    then have "3 \<le> length (take 7 (v @ rest))" "take 7 (v @ rest) ! 0 = asc CHR ''@''"
      "take 7 (v @ rest) ! 1 = asc CHR 0x5C" "take 7 (v @ rest) ! 2 = asc CHR ''[''" by blast+
    from window_three [OF this] have s: "take 3 (v @ rest) = [asc CHR ''@'', asc CHR 0x5C, asc CHR ''['']"
      "3 \<le> length (v @ rest)" by auto
    then have at: "(v @ rest) ! 0 = 64" "(v @ rest) ! 1 = 92" "(v @ rest) ! 2 = 91"
      using take_three [OF s(2)] by auto
    have "is_value_char E 64" "is_value_char E 92" "is_value_char E 91"
      by (simp_all add: is_value_char_def VALUE_CHAR_def ascii_class_def ascii_defs)
    with at have "\<forall>i < 3. is_value_char E ((v @ rest) ! i)" by (auto simp: less_Suc_eq numeral_eq_Suc)
    then have "3 \<le> length v" by (rule value_prefix_length [where P = "is_value_char E", OF assms(5) s(2)])
    with s(1) have "take 3 v = [asc CHR ''@'', asc CHR 0x5C, asc CHR ''['']" by simp
    then have "prefix [asc CHR ''@'', asc CHR 0x5C, asc CHR ''[''] v" by (metis take_is_prefix)
    with assms(3) show False by (simp add: plain_start_def)
  qed
  have restored: "restore (save p) p = p" by (simp add: restore_def save_def)
  have number: "parse_number_or_string E h p
    = Some (Some (VString tok), (advance_while (is_value_char E) p)\<lparr>p_table := T\<rparr>)"
    by (rule bare_number_or_string [OF assms(5,2) _ assms(4,6)]) (use assms(3) in \<open>simp add: plain_start_def\<close>)
  have peek: "peek p = Some c" using assms(4) vc by (simp add: peek_def)
  define q where "q = (advance_while (is_value_char E) p)\<lparr>p_table := T\<rparr>"
  have "list_all (is_value_char E) v" using assms(2) by (simp add: is_bare_string_value_def)
  then have "dropWhile (is_value_char E) (v @ rest) = rest"
    using assms(5) by (cases rest) (auto simp: dropWhile_append list_all_iff)
  then have q: "p_rest q = rest" "p_table q = T"
    by (simp_all add: q_def advance_while_rest assms(4))
  have tab: "p_table (skip_whitespace q) = T" using sc.R_advance_while [of q is_whitespace] q
    by (simp add: shrinks_def skip_whitespace_def)
  have "parse_value E h n b p = Some (finish_opt (pos_of p) (Some (VString tok), q))"
    apply (subst parse_value.simps)
    apply (simp only: Let_def skip)
    apply (simp only: peek no_color no_meta)
    apply (simp only: option.inject c if_False simp_thms prod.case Option.bind.simps option.case bool restored number q_def [symmetric])
    using c by simp
  then show ?thesis using tab
    by (simp add: finish_opt_def finish_value_def tab q skip_whitespace_def advance_while_rest)
qed

theorem bare_string_parses_witness:
  "\<exists>tok T r q. parse_value ascii_env None 0 False (Parser_new (str ''foo }'') StringTable_new Preserve 0)
      = Some (Some (VString tok, r, None), q)
    \<and> get_string None T (tok_normal tok) = Some (str ''foo'') \<and> p_table q = T"
proof -
  let ?p = "Parser_new (str ''foo }'') StringTable_new Preserve 0"
  obtain tok T where i: "intern ascii_env None (str ''foo'') StringTable_new = Some (tok, T)"
    using intern_new_total by blast
  have "\<exists>r q. parse_value ascii_env None 0 False ?p = Some (Some (VString tok, r, None), q)
    \<and> range_start r = pos_of ?p \<and> p_table q = T \<and> p_rest q = dropWhile is_whitespace (str '' }'')"
  proof (rule bare_string_parses [of ascii_env "str ''foo''" ?p "str '' }''"])
    show "alphanumeric_ok ascii_env" by (simp add: alphanumeric_ok_def ascii_env_def)
    show "is_bare_string_value ascii_env (str ''foo'')" by code_simp
    show "plain_start (str ''foo'')" by code_simp
    show "p_rest ?p = str ''foo'' @ str '' }''" by (simp add: Parser_new_def)
    show "str '' }'' = [] \<or> \<not> is_value_char ascii_env (hd (str '' }''))" by code_simp
    show "intern ascii_env None (str ''foo'') (p_table ?p) = Some (tok, T)" using i by (simp add: Parser_new_def)
  qed
  with intern_resolves_aux [OF ascii_env_ok table_ok_new i] show ?thesis by blast
qed

definition at_input :: "ustr \<Rightarrow> parser" where
  "at_input input = Parser_new input StringTable_new Preserve 0"

text \<open>
  The three exceptions the previous property leaves out are real: each of these texts passes
  \<^verbatim>\<open>is_bare_string_value\<close>, and without quotes the first parses to a number, the second to
  an error and no value, and the third, before a clause, to a color clause.
\<close>

theorem bare_string_exceptions:
  "list_all (is_bare_string_value ascii_env) [str ''.5'', [64, 92, 91, 120], str ''rgb'']
   \<and> map_option (map_option fst \<circ> fst) (parse_value ascii_env h 1 b (at_input (str ''.5'')))
       = Some (Some (VFloat \<lparr>dec_negative = False, dec_digits = 5, dec_scale = 1\<rparr>))
   \<and> map_option (\<lambda>(r, q). (map_option fst r, length (p_errors q))) (parse_value ascii_env h 1 b (at_input [64, 92, 91, 120]))
       = Some (None, 1)
   \<and> map_option (map_option (\<lambda>(v, _, c). (v, c)) \<circ> fst) (parse_value ascii_env h 1 b (at_input (str ''rgb {}'')))
       = Some (Some (VClause [], Some Rgb))"
  by (intro conjI; code_simp)

end
