(* ===== verification/Text_Fix.thy ===== *)
theory Text_Fix
  imports Paradox_Parser "HOL-Library.Product_Lexorder" "HOL-Library.List_Lexorder"
    "HOL-Library.Multiset"
begin

text \<open>
  Source positions and text edits, \<^verbatim>\<open>engine/crates/parser/src/fix.rs\<close>.

  A byte offset of the text is a natural number, as is a line number; columns are natural
  numbers below \<open>2 ^ 16\<close>, and the conversions to \<^verbatim>\<open>u16\<close> are written out.  Slicing a
  text off a character boundary panics in the source and is \<open>None\<close> here.  The lookup's cache
  of column offsets (\<^verbatim>\<open>PositionLookup\<close>) is state that is passed and returned.
\<close>

section \<open>Edits\<close>

definition EOF_POS :: source_pos where
  "EOF_POS = \<lparr>pos_line = 0, pos_col = 0\<rparr>"

record span_edit =
  edit_range :: source_range
  edit_replacement :: ustr

record suggested_fix =
  fix_title :: ustr
  fix_edits :: "span_edit list"
  fix_create_loc_key :: "ustr option"

definition SuggestedFix_replace :: "ustr \<Rightarrow> source_range \<Rightarrow> ustr \<Rightarrow> suggested_fix" where
  "SuggestedFix_replace title rng replacement =
     \<lparr>fix_title = title, fix_edits = [\<lparr>edit_range = rng, edit_replacement = replacement\<rparr>],
      fix_create_loc_key = None\<rparr>"

definition SuggestedFix_delete :: "ustr \<Rightarrow> source_range \<Rightarrow> suggested_fix" where
  "SuggestedFix_delete title rng = SuggestedFix_replace title rng []"

definition SuggestedFix_create_loc_key :: "ustr \<Rightarrow> ustr \<Rightarrow> suggested_fix" where
  "SuggestedFix_create_loc_key title key =
     \<lparr>fix_title = title, fix_edits = [], fix_create_loc_key = Some key\<rparr>"

text \<open>\<^verbatim>\<open>char_len as u16\<close> keeps the low sixteen bits.\<close>

definition key_token_range :: "source_pos \<Rightarrow> nat \<Rightarrow> source_range" where
  "key_token_range start char_len =
     \<lparr>range_start = start,
      range_end = \<lparr>pos_line = pos_line start,
                   pos_col = min 65535 (pos_col start + char_len mod 65536)\<rparr>\<rparr>"

section \<open>Positions\<close>

definition line_start_bytes :: "ustr \<Rightarrow> nat list" where
  "line_start_bytes text = 0 # [i + 1. (i, b) \<leftarrow> enumerate 0 (utf8_bytes text), b = 10]"

record line_offsets =
  lo_offsets :: "nat list"
  lo_complete :: bool

record position_lookup =
  pl_text :: ustr
  pl_line_starts :: "nat list"
  pl_lines :: "line_offsets option list"

definition PositionLookup_new :: "ustr \<Rightarrow> nat list \<Rightarrow> position_lookup" where
  "PositionLookup_new text line_starts =
     \<lparr>pl_text = text, pl_line_starts = line_starts, pl_lines = replicate (length line_starts) None\<rparr>"

text \<open>The loop of \<^verbatim>\<open>LineOffsets::byte_at\<close>.\<close>

function fill_offsets :: "ustr \<Rightarrow> nat \<Rightarrow> line_offsets \<Rightarrow> line_offsets option" where
  "fill_offsets text col L =
     (if length (lo_offsets L) \<le> col \<and> \<not> lo_complete L then
        (if lo_offsets L = [] then None
         else
           do { rest \<leftarrow> drop_bytes (last (lo_offsets L)) text;
                case rest of
                  [] \<Rightarrow> Some (L\<lparr>lo_complete := True\<rparr>)
                | ch # _ \<Rightarrow>
                    if ch = 10 then Some (L\<lparr>lo_complete := True\<rparr>)
                    else fill_offsets text col
                      (L\<lparr>lo_offsets := lo_offsets L @ [last (lo_offsets L) + utf8_len ch]\<rparr>) })
      else Some L)"
  by pat_completeness auto
termination
  by (relation "measure (\<lambda>(text, col, L). Suc col - length (lo_offsets L))") auto

declare fill_offsets.simps [simp del]

definition byte_at :: "ustr \<Rightarrow> nat \<Rightarrow> line_offsets \<Rightarrow> (nat \<times> line_offsets) option" where
  "byte_at text col L =
     do { L1 \<leftarrow> fill_offsets text col L;
          (if lo_offsets L1 = [] then None
           else Some (lo_offsets L1 ! min col (length (lo_offsets L1) - 1), L1)) }"

definition byte_offset :: "source_pos \<Rightarrow> position_lookup \<Rightarrow> (nat \<times> position_lookup) option" where
  "byte_offset pos P =
     (let line_idx = pos_line pos - 1 in
      if line_idx \<ge> length (pl_line_starts P) then Some (blen (pl_text P), P)
      else if line_idx \<ge> length (pl_lines P) then None
      else
        (let line_start = pl_line_starts P ! line_idx;
             line = (case pl_lines P ! line_idx of
                       Some L \<Rightarrow> L
                     | None \<Rightarrow> \<lparr>lo_offsets = [line_start], lo_complete = False\<rparr>)
         in do { (b, line1) \<leftarrow> byte_at (pl_text P) (pos_col pos) line;
                 Some (b, P\<lparr>pl_lines := (pl_lines P)[line_idx := Some line1]\<rparr>) }))"

text \<open>The loop of \<^verbatim>\<open>pos_to_byte\<close>: requested column, current column, current byte.\<close>

fun column_loop :: "nat \<Rightarrow> nat \<Rightarrow> nat \<Rightarrow> ustr \<Rightarrow> nat" where
  "column_loop want col byte [] = byte"
| "column_loop want col byte (ch # cs) =
     (if col \<ge> want \<or> ch = 10 then byte else column_loop want (col + 1) (byte + utf8_len ch) cs)"

definition pos_to_byte :: "ustr \<Rightarrow> nat list \<Rightarrow> source_pos \<Rightarrow> nat option" where
  "pos_to_byte text line_starts pos =
     (let line_idx = pos_line pos - 1 in
      if line_idx \<ge> length line_starts then Some (blen text)
      else
        (let line_start = line_starts ! line_idx in
         map_option (column_loop (pos_col pos) 0 line_start) (drop_bytes line_start text)))"

definition edit_pos_to_byte :: "source_pos \<Rightarrow> position_lookup \<Rightarrow> (nat \<times> position_lookup) option" where
  "edit_pos_to_byte pos P =
     (if pos = EOF_POS then Some (blen (pl_text P), P) else byte_offset pos P)"

section \<open>Planning and applying edits\<close>

text \<open>
  The keys \<^verbatim>\<open>sort_by_key\<close> sorts by, computed once each: how often the sort asks for a key is
  not visible, because a lookup answers the same whatever is cached (\<open>lookup_answers\<close>).
\<close>

fun start_keys ::
  "('a \<times> span_edit) list \<Rightarrow> position_lookup \<Rightarrow> ((nat \<times> 'a \<times> span_edit) list \<times> position_lookup) option"
where
  "start_keys [] P = Some ([], P)"
| "start_keys (pe # pes) P =
     do { (k, P1) \<leftarrow> edit_pos_to_byte (range_start (edit_range (snd pe))) P;
          (ks, P2) \<leftarrow> start_keys pes P1;
          Some ((k, pe) # ks, P2) }"

fun plan_loop ::
  "('a \<times> span_edit) list \<Rightarrow> nat \<Rightarrow> bool \<Rightarrow> span_edit list \<Rightarrow> 'a list \<Rightarrow> position_lookup
   \<Rightarrow> (span_edit list \<times> 'a list) option"
where
  "plan_loop [] last_end first kept skipped P = Some (kept, skipped)"
| "plan_loop ((tag, edit) # rest) last_end first kept skipped P =
     do { (s, P1) \<leftarrow> edit_pos_to_byte (range_start (edit_range edit)) P;
          (e, P2) \<leftarrow> edit_pos_to_byte (range_end (edit_range edit)) P1;
          if \<not> first \<and> s < last_end then plan_loop rest last_end first kept (skipped @ [tag]) P2
          else plan_loop rest e False (kept @ [edit]) skipped P2 }"

definition plan_file_edits :: "ustr \<Rightarrow> ('a \<times> span_edit) list \<Rightarrow> (span_edit list \<times> 'a list) option" where
  "plan_file_edits text planned =
     do { (keyed, lookup) \<leftarrow> start_keys planned (PositionLookup_new text (line_start_bytes text));
          plan_loop (map snd (sort_key fst keyed)) 0 True [] [] lookup }"

fun edit_ranges ::
  "span_edit list \<Rightarrow> position_lookup \<Rightarrow> ((nat \<times> nat \<times> ustr) list \<times> position_lookup) option" where
  "edit_ranges [] P = Some ([], P)"
| "edit_ranges (e # es) P =
     do { (s, P1) \<leftarrow> edit_pos_to_byte (range_start (edit_range e)) P;
          (t, P2) \<leftarrow> edit_pos_to_byte (range_end (edit_range e)) P1;
          (rs, P3) \<leftarrow> edit_ranges es P2;
          Some ((s, t, edit_replacement e) # rs, P3) }"

fun apply_loop :: "ustr \<Rightarrow> (nat \<times> nat \<times> ustr) list \<Rightarrow> nat \<Rightarrow> ustr \<Rightarrow> nat \<times> ustr" where
  "apply_loop text [] cursor out = (cursor, out)"
| "apply_loop text ((start, end, replacement) # rest) cursor out =
     (if start < cursor then apply_loop text rest cursor out
      else
        case (byte_slice text cursor start, byte_slice text start end) of
          (Some unchanged, Some _) \<Rightarrow> apply_loop text rest end (out @ unchanged @ replacement)
        | _ \<Rightarrow> apply_loop text rest cursor out)"

text \<open>
  The order of \<^verbatim>\<open>ranges.sort_by\<close> is the lexicographic one of start, end and replacement; UTF-8
  orders texts as their characters do.
\<close>

definition apply_edits :: "ustr \<Rightarrow> span_edit list \<Rightarrow> ustr option" where
  "apply_edits text edits =
     do { (ranges, lookup) \<leftarrow> edit_ranges edits (PositionLookup_new text (line_start_bytes text));
          let (cursor, out) = apply_loop text (sort ranges) 0 [] in
          map_option (\<lambda>tail. out @ tail) (drop_bytes cursor text) }"

section \<open>Lines\<close>

text \<open>Where a line feed of the text ends, its first byte being at \<open>k\<close>.\<close>

fun starts_from :: "nat \<Rightarrow> ustr \<Rightarrow> nat list" where
  "starts_from k [] = []"
| "starts_from k (c # cs) = (if c = 10 then [k + 1] else []) @ starts_from (k + utf8_len c) cs"

lemma utf8_char_length: "length (utf8_char c) = utf8_len c"
  by (simp add: utf8_char_def utf8_len_def)

lemma utf8_char_newline: "b \<in> set (utf8_char c) \<Longrightarrow> b = 10 \<Longrightarrow> c = 10"
  by (auto simp: utf8_char_def split: if_splits)

lemma no_newline_bytes: "\<forall>b \<in> set bs. b \<noteq> 10 \<Longrightarrow> [i + 1. (i, b) \<leftarrow> enumerate k bs, b = (10::nat)] = []"
  by (induction bs arbitrary: k) auto

lemma newline_bytes:
  "[i + 1. (i, b) \<leftarrow> enumerate k (utf8_bytes s), b = 10] = starts_from k s"
proof (induction s arbitrary: k)
  case (Cons c s)
  have split: "enumerate k (utf8_bytes (c # s))
      = enumerate k (utf8_char c) @ enumerate (k + utf8_len c) (utf8_bytes s)"
    by (simp add: utf8_bytes_def enumerate_append_eq utf8_char_length)
  show ?case
  proof (cases "c = 10")
    case True
    then have "utf8_char c = [10]" by (simp add: utf8_char_def)
    with True split Cons [of "k + utf8_len c"] show ?thesis by simp
  next
    case False
    then have none: "\<forall>b \<in> set (utf8_char c). b \<noteq> 10" using utf8_char_newline by blast
    show ?thesis using False split no_newline_bytes [OF none, of k] Cons [of "k + utf8_len c"] by simp
  qed
qed (simp add: utf8_bytes_def)

lemma line_starts: "line_start_bytes text = 0 # starts_from 0 text"
  unfolding line_start_bytes_def newline_bytes ..

lemma starts_from_boundary:
  "x \<in> set (starts_from k s) \<Longrightarrow> \<exists>a b. s = a @ 10 # b \<and> x = k + blen a + 1"
proof (induction s arbitrary: k)
  case (Cons c s)
  show ?case
  proof (cases "c = 10 \<and> x = k + 1")
    case True
    then have "c # s = [] @ 10 # s \<and> x = k + blen [] + 1" by simp
    then show ?thesis by blast
  next
    case False
    with Cons.prems have "x \<in> set (starts_from (k + utf8_len c) s)" by (auto split: if_splits)
    from Cons.IH [OF this] obtain a b where "s = a @ 10 # b" "x = k + utf8_len c + blen a + 1" by blast
    then have "c # s = (c # a) @ 10 # b \<and> x = k + blen (c # a) + 1" by simp
    then show ?thesis by blast
  qed
qed simp

lemma line_start_boundary:
  assumes "x \<in> set (line_start_bytes text)"
  obtains b where "drop_bytes x text = Some b"
proof (cases "x = 0")
  case True
  with that show thesis by simp
next
  case False
  with assms obtain a b where "text = a @ 10 # b" "x = blen a + 1"
    using starts_from_boundary [of x 0 "text"] by (auto simp: line_starts)
  then have "text = (a @ [10]) @ b" "x = blen (a @ [10])" by simp_all
  then have "drop_bytes x text = Some b" using drop_bytes_blen by metis
  with that show thesis .
qed

lemma starts_from_append: "starts_from k (a @ b) = starts_from k a @ starts_from (k + blen a) b"
  by (induction a arbitrary: k) (auto simp: add.assoc)

lemma starts_from_length: "length (starts_from k s) = count_list s 10"
  by (induction s arbitrary: k) auto

section \<open>The column cache\<close>

text \<open>The text of the line that starts at a byte, without its line feed.\<close>

definition line_at :: "ustr \<Rightarrow> nat \<Rightarrow> ustr" where
  "line_at text start = (case drop_bytes start text of Some b \<Rightarrow> takeWhile (\<lambda>c. c \<noteq> 10) b | None \<Rightarrow> [])"

lemma column_loop_eq: "column_loop want col byte b = byte + blen (take (want - col) (takeWhile (\<lambda>c. c \<noteq> 10) b))"
proof (induction want col byte b rule: column_loop.induct)
  case (2 want col byte ch cs)
  show ?case
  proof (cases "want \<le> col \<or> ch = 10")
    case False
    then have "want - col = Suc (want - Suc col)" by arith
    with False 2 show ?thesis by simp
  qed auto
qed simp

definition cached :: "ustr \<Rightarrow> nat \<Rightarrow> line_offsets \<Rightarrow> bool" where
  "cached text start L \<longleftrightarrow>
     lo_offsets L \<noteq> [] \<and> length (lo_offsets L) \<le> Suc (length (line_at text start))
     \<and> lo_offsets L = map (\<lambda>i. start + blen (take i (line_at text start))) [0 ..< length (lo_offsets L)]
     \<and> (lo_complete L \<longrightarrow> length (lo_offsets L) = Suc (length (line_at text start)))"

lemma cached_new: "cached text start \<lparr>lo_offsets = [start], lo_complete = False\<rparr>"
  by (simp add: cached_def)

lemma cached_nth: "cached text start L \<Longrightarrow> i < length (lo_offsets L)
    \<Longrightarrow> lo_offsets L ! i = start + blen (take i (line_at text start))"
  unfolding cached_def by (metis (no_types, lifting) add_0 diff_zero length_upt nth_map nth_upt)

lemma line_at_rest:
  assumes b: "drop_bytes start text = Some b" and k: "k \<le> length (line_at text start)"
  obtains r where "drop_bytes (start + blen (take k (line_at text start))) text = Some r"
    and "case r of [] \<Rightarrow> k = length (line_at text start)
      | c # _ \<Rightarrow> if c = 10 then k = length (line_at text start)
                 else k < length (line_at text start) \<and> line_at text start ! k = c"
proof -
  let ?w = "line_at text start" let ?d = "dropWhile (\<lambda>c. c \<noteq> 10) b"
  have w: "?w = takeWhile (\<lambda>c. c \<noteq> 10) b" using b by (simp add: line_at_def)
  obtain a where a: "text = a @ b" "blen a = start" using drop_bytes_SomeD [OF b] by blast
  have split: "b = take k ?w @ drop k ?w @ ?d" unfolding w by (simp flip: append_assoc)
  have "text = (a @ take k ?w) @ drop k ?w @ ?d" unfolding append_assoc split [symmetric] by (rule a(1))
  then have 1: "drop_bytes (blen (a @ take k ?w)) text = Some (drop k ?w @ ?d)"
    using drop_bytes_blen by metis
  show thesis
  proof (rule that)
    show "drop_bytes (start + blen (take k ?w)) text = Some (drop k ?w @ ?d)" using 1 a(2) by simp
    show "case drop k ?w @ ?d of [] \<Rightarrow> k = length ?w
      | c # _ \<Rightarrow> if c = 10 then k = length ?w else k < length ?w \<and> ?w ! k = c"
    proof (cases "k < length ?w")
      case True
      then have "drop k ?w = ?w ! k # drop (Suc k) ?w" by (simp add: Cons_nth_drop_Suc)
      moreover have "?w ! k \<noteq> 10"
        using nth_mem [OF True] unfolding w by (rule set_takeWhileD [THEN conjunct2])
      ultimately show ?thesis using True by simp
    next
      case False
      with k have none: "drop k ?w = []" and len: "k = length ?w" by simp_all
      show ?thesis
      proof (cases ?d)
        case Nil
        show ?thesis unfolding none Nil append_Nil list.case by (rule len)
      next
        case (Cons c cs)
        then have "c = 10" using hd_dropWhile [of "\<lambda>c. c \<noteq> 10" b] by simp
        then show ?thesis unfolding none Cons append_Nil list.case using len by simp
      qed
    qed
  qed
qed

lemma fill_offsets_ok:
  assumes "drop_bytes start text = Some b" and "cached text start L"
  shows "\<exists>L'. fill_offsets text col L = Some L' \<and> cached text start L'
    \<and> (col < length (lo_offsets L') \<or> lo_complete L')"
  using assms
proof (induction "Suc col - length (lo_offsets L)" arbitrary: L rule: less_induct)
  case less
  let ?w = "line_at text start" let ?n = "length (lo_offsets L)"
  show ?case
  proof (cases "?n \<le> col \<and> \<not> lo_complete L")
    case False
    with less.prems show ?thesis by (subst fill_offsets.simps) auto
  next
    case True
    have L: "lo_offsets L \<noteq> []" "?n \<le> Suc (length ?w)" using less.prems(2) by (simp_all add: cached_def)
    then obtain k where k: "?n = Suc k" by (cases ?n) auto
    have last: "last (lo_offsets L) = start + blen (take k ?w)"
      using cached_nth [OF less.prems(2), of k] k L by (simp add: last_conv_nth)
    obtain r where r: "drop_bytes (start + blen (take k ?w)) text = Some r"
      and c: "case r of [] \<Rightarrow> k = length ?w
        | c # _ \<Rightarrow> if c = 10 then k = length ?w else k < length ?w \<and> ?w ! k = c"
      by (rule line_at_rest [OF less.prems(1), of k]) (use L k in auto)
    have fin: "cached text start (L\<lparr>lo_complete := True\<rparr>)" if "k = length ?w"
      using less.prems(2) that k by (simp add: cached_def)
    show ?thesis
    proof (cases r)
      case Nil
      with True L r c fin last show ?thesis by (subst fill_offsets.simps) auto
    next
      case (Cons ch cs)
      show ?thesis
      proof (cases "ch = 10")
        case newline: True
        with True L r c fin last Cons show ?thesis by (subst fill_offsets.simps) auto
      next
        case False
        let ?L = "L\<lparr>lo_offsets := lo_offsets L @ [last (lo_offsets L) + utf8_len ch]\<rparr>"
        have k': "k < length ?w" "?w ! k = ch" using c Cons False by auto
        have "cached text start ?L"
          using less.prems(2) True k k' last
          by (simp add: cached_def take_Suc_conv_app_nth)
        moreover have "Suc col - length (lo_offsets ?L) < Suc col - ?n" using True by auto
        ultimately obtain L' where "fill_offsets text col ?L = Some L' \<and> cached text start L'
            \<and> (col < length (lo_offsets L') \<or> lo_complete L')"
          using less.hyps [of ?L] less.prems(1) by blast
        with True L r Cons False last show ?thesis by (subst fill_offsets.simps) auto
      qed
    qed
  qed
qed

lemma byte_at_ok:
  assumes "drop_bytes start text = Some b" and "cached text start L"
  shows "\<exists>L'. byte_at text col L = Some (start + blen (take col (line_at text start)), L') \<and> cached text start L'"
proof -
  obtain L' where L': "fill_offsets text col L = Some L'" "cached text start L'"
    and le: "col < length (lo_offsets L') \<or> lo_complete L'"
    using fill_offsets_ok [OF assms] by blast
  let ?m = "min col (length (lo_offsets L') - 1)"
  have n: "lo_offsets L' \<noteq> []" using L'(2) by (simp add: cached_def)
  then have "lo_offsets L' ! ?m = start + blen (take ?m (line_at text start))"
    by (intro cached_nth [OF L'(2)]) (cases "lo_offsets L'", auto)
  moreover have "take ?m (line_at text start) = take col (line_at text start)"
    using le L'(2) by (auto simp: cached_def min_def)
  ultimately show ?thesis using L' n by (simp add: byte_at_def)
qed

section \<open>Lookups\<close>

text \<open>The byte a position addresses, without a cache.\<close>

definition address :: "ustr \<Rightarrow> source_pos \<Rightarrow> nat" where
  "address text pos =
     (if pos_line pos - 1 \<ge> length (line_start_bytes text) then blen text
      else line_start_bytes text ! (pos_line pos - 1)
           + blen (take (pos_col pos) (line_at text (line_start_bytes text ! (pos_line pos - 1)))))"

definition edit_address :: "ustr \<Rightarrow> source_pos \<Rightarrow> nat" where
  "edit_address text pos = (if pos = EOF_POS then blen text else address text pos)"

definition lookup_ok :: "ustr \<Rightarrow> position_lookup \<Rightarrow> bool" where
  "lookup_ok text P \<longleftrightarrow>
     pl_text P = text \<and> pl_line_starts P = line_start_bytes text
     \<and> length (pl_lines P) = length (line_start_bytes text)
     \<and> (\<forall>i L. i < length (pl_lines P) \<longrightarrow> pl_lines P ! i = Some L \<longrightarrow> cached text (line_start_bytes text ! i) L)"

lemma lookup_ok_new [inv_intros]: "lookup_ok text (PositionLookup_new text (line_start_bytes text))"
  by (simp add: lookup_ok_def PositionLookup_new_def)

lemma pos_to_byte_address: "pos_to_byte text (line_start_bytes text) pos = Some (address text pos)"
proof (cases "pos_line pos - 1 \<ge> length (line_start_bytes text)")
  case False
  then obtain b where "drop_bytes (line_start_bytes text ! (pos_line pos - 1)) text = Some b"
    using line_start_boundary [of "line_start_bytes text ! (pos_line pos - 1)" "text"] by force
  with False show ?thesis by (simp add: pos_to_byte_def address_def Let_def column_loop_eq line_at_def)
qed (simp add: pos_to_byte_def address_def)

lemma byte_offset_ok:
  assumes "lookup_ok text P"
  shows "\<exists>P'. byte_offset pos P = Some (address text pos, P') \<and> lookup_ok text P'"
proof (cases "pos_line pos - 1 \<ge> length (line_start_bytes text)")
  case True
  with assms show ?thesis by (simp add: byte_offset_def lookup_ok_def address_def)
next
  case False
  let ?i = "pos_line pos - 1" let ?start = "line_start_bytes text ! ?i"
  let ?line = "case pl_lines P ! ?i of Some L \<Rightarrow> L | None \<Rightarrow> \<lparr>lo_offsets = [?start], lo_complete = False\<rparr>"
  obtain b where b: "drop_bytes ?start text = Some b"
    using False line_start_boundary [of ?start "text"] by force
  have "cached text ?start ?line"
    using assms False cached_new by (auto simp: lookup_ok_def split: option.split)
  from byte_at_ok [OF b this] obtain L' where
    L': "byte_at text (pos_col pos) ?line = Some (address text pos, L')" "cached text ?start L'"
    using False by (auto simp: address_def)
  have "byte_offset pos P = Some (address text pos, P\<lparr>pl_lines := (pl_lines P)[?i := Some L']\<rparr>)"
    using assms False L'(1) by (simp add: byte_offset_def lookup_ok_def Let_def del: One_nat_def)
  moreover have "cached text (line_start_bytes text ! i) L"
    if "i < length (pl_lines P)" "(pl_lines P)[?i := Some L'] ! i = Some L" for i L
    using that assms L'(2) by (cases "i = ?i") (simp_all add: lookup_ok_def del: One_nat_def)
  then have "lookup_ok text (P\<lparr>pl_lines := (pl_lines P)[?i := Some L']\<rparr>)"
    using assms by (simp add: lookup_ok_def)
  ultimately show ?thesis by blast
qed

lemma edit_pos_ok:
  assumes "lookup_ok text P"
  shows "\<exists>P'. edit_pos_to_byte pos P = Some (edit_address text pos, P') \<and> lookup_ok text P'"
  using byte_offset_ok [OF assms, of pos] assms by (auto simp: edit_pos_to_byte_def edit_address_def lookup_ok_def)

lemma address_boundary: "\<exists>u v. text = u @ v \<and> blen u = address text pos"
proof (cases "pos_line pos - 1 \<ge> length (line_start_bytes text)")
  case True
  then have "text = text @ [] \<and> blen text = address text pos" by (simp add: address_def)
  then show ?thesis by blast
next
  case False
  let ?start = "line_start_bytes text ! (pos_line pos - 1)"
  obtain b where b: "drop_bytes ?start text = Some b"
    using False line_start_boundary [of ?start "text"] by force
  let ?w = "line_at text ?start" let ?k = "min (pos_col pos) (length ?w)"
  obtain r where "drop_bytes (?start + blen (take ?k ?w)) text = Some r"
    by (rule line_at_rest [OF b, of ?k]) auto
  moreover have "take ?k ?w = take (pos_col pos) ?w" by (simp add: min_def)
  ultimately have "drop_bytes (address text pos) text = Some r" using False by (simp add: address_def)
  from drop_bytes_SomeD [OF this] show ?thesis by auto
qed

lemma edit_address_boundary: "\<exists>u v. text = u @ v \<and> blen u = edit_address text pos"
proof (cases "pos = EOF_POS")
  case True
  then have "text = text @ [] \<and> blen text = edit_address text pos" by (simp add: edit_address_def)
  then show ?thesis by blast
next
  case False
  then show ?thesis using address_boundary [of "text" pos] by (simp add: edit_address_def)
qed

section \<open>Clients of a lookup\<close>

abbreviation starts_at :: "(source_pos \<Rightarrow> nat) \<Rightarrow> 'a \<times> span_edit \<Rightarrow> nat" where
  "starts_at a pe \<equiv> a (range_start (edit_range (snd pe)))"

abbreviation ends_at :: "(source_pos \<Rightarrow> nat) \<Rightarrow> 'a \<times> span_edit \<Rightarrow> nat" where
  "ends_at a pe \<equiv> a (range_end (edit_range (snd pe)))"

abbreviation placed_at :: "(source_pos \<Rightarrow> nat) \<Rightarrow> span_edit \<Rightarrow> nat \<times> nat \<times> ustr" where
  "placed_at a e \<equiv> (a (range_start (edit_range e)), a (range_end (edit_range e)), edit_replacement e)"

text \<open>The choice \<^verbatim>\<open>plan_file_edits\<close> makes among sorted edits: kept and skipped ones.\<close>

fun keep_edits ::
  "(source_pos \<Rightarrow> nat) \<Rightarrow> nat \<Rightarrow> bool \<Rightarrow> ('a \<times> span_edit) list \<Rightarrow> ('a \<times> span_edit) list \<times> ('a \<times> span_edit) list"
where
  "keep_edits a last_end first [] = ([], [])"
| "keep_edits a last_end first (pe # pes) =
     (if \<not> first \<and> starts_at a pe < last_end
      then (let (K, S) = keep_edits a last_end first pes in (K, pe # S))
      else (let (K, S) = keep_edits a (ends_at a pe) False pes in (pe # K, S)))"

lemma sort_key_map: "sort_key f (map g xs) = map g (sort_key (f \<circ> g) xs)"
proof (induction xs)
  case (Cons x xs)
  have "insort_key f (g x) (map g ys) = map g (insort_key (f \<circ> g) x ys)" for ys
    by (induction ys) auto
  with Cons show ?case by (simp add: comp_def)
qed simp

locale position_oracle =
  fixes ok :: "position_lookup \<Rightarrow> bool" and answer :: "source_pos \<Rightarrow> nat"
  assumes answers: "ok P \<Longrightarrow> \<exists>P'. edit_pos_to_byte pos P = Some (answer pos, P') \<and> ok P'"
begin

lemma start_keys_answer:
  "ok P \<Longrightarrow> \<exists>P'. start_keys pes P = Some (map (\<lambda>pe. (starts_at answer pe, pe)) pes, P') \<and> ok P'"
proof (induction pes arbitrary: P)
  case (Cons pe pes)
  obtain P1 where P1: "edit_pos_to_byte (range_start (edit_range (snd pe))) P = Some (starts_at answer pe, P1)"
    "ok P1" using answers [OF Cons.prems] by blast
  from Cons.IH [OF P1(2)] obtain P2 where
    "start_keys pes P1 = Some (map (\<lambda>pe. (starts_at answer pe, pe)) pes, P2)" "ok P2" by blast
  with P1 show ?case by simp
qed simp

lemma edit_ranges_answer:
  "ok P \<Longrightarrow> \<exists>P'. edit_ranges es P = Some (map (placed_at answer) es, P') \<and> ok P'"
proof (induction es arbitrary: P)
  case (Cons e es)
  obtain P1 where P1: "edit_pos_to_byte (range_start (edit_range e)) P = Some (answer (range_start (edit_range e)), P1)"
    "ok P1" using answers [OF Cons.prems] by blast
  obtain P2 where P2: "edit_pos_to_byte (range_end (edit_range e)) P1 = Some (answer (range_end (edit_range e)), P2)"
    "ok P2" using answers [OF P1(2)] by blast
  from Cons.IH [OF P2(2)] obtain P3 where
    "edit_ranges es P2 = Some (map (placed_at answer) es, P3)" "ok P3" by blast
  with P1 P2 show ?case by simp
qed simp

lemma plan_loop_answer:
  "ok P \<Longrightarrow> keep_edits answer last_end first pes = (K, S)
   \<Longrightarrow> plan_loop pes last_end first kept skipped P = Some (kept @ map snd K, skipped @ map fst S)"
proof (induction pes arbitrary: P last_end first kept skipped K S)
  case (Cons pe pes)
  obtain tag e where pe: "pe = (tag, e)" by (cases pe)
  obtain P1 where P1: "edit_pos_to_byte (range_start (edit_range e)) P = Some (answer (range_start (edit_range e)), P1)"
    "ok P1" using answers [OF Cons.prems(1)] by blast
  obtain P2 where P2: "edit_pos_to_byte (range_end (edit_range e)) P1 = Some (answer (range_end (edit_range e)), P2)"
    "ok P2" using answers [OF P1(2)] by blast
  show ?case
  proof (cases "\<not> first \<and> answer (range_start (edit_range e)) < last_end")
    case True
    obtain K' S' where k: "keep_edits answer last_end first pes = (K', S')" by fastforce
    with Cons.prems(2) True pe have "K = K'" "S = pe # S'" by auto
    with Cons.IH [OF P2(2) k, of kept "skipped @ [tag]"] True P1 P2 pe show ?thesis by simp
  next
    case False
    obtain K' S' where k: "keep_edits answer (answer (range_end (edit_range e))) False pes = (K', S')" by fastforce
    with Cons.prems(2) False pe have "K = pe # K'" "S = S'" by auto
    with Cons.IH [OF P2(2) k, of "kept @ [e]" skipped] False P1 P2 pe show ?thesis by auto
  qed
qed auto

lemma plan_answer:
  assumes "ok P" and "keep_edits answer 0 True (sort_key (starts_at answer) pes) = (K, S)"
  shows "do { (keyed, lookup) \<leftarrow> start_keys pes P; plan_loop (map snd (sort_key fst keyed)) 0 True [] [] lookup }
    = Some (map snd K, map fst S)"
proof -
  from start_keys_answer [OF assms(1)] obtain P' where
    P': "start_keys pes P = Some (map (\<lambda>pe. (starts_at answer pe, pe)) pes, P')" "ok P'" by blast
  have "map snd (sort_key fst (map (\<lambda>pe. (starts_at answer pe, pe)) pes)) = sort_key (starts_at answer) pes"
    by (simp add: sort_key_map comp_def)
  with plan_loop_answer [OF P'(2) assms(2), of "[]" "[]"] P'(1) show ?thesis by simp
qed

end

interpretation text_lookup: position_oracle "lookup_ok text" "edit_address text" for "text"
  by unfold_locales (rule edit_pos_ok)

lemma plan_file_edits_keep:
  assumes "keep_edits (edit_address text) 0 True (sort_key (starts_at (edit_address text)) planned) = (K, S)"
  shows "plan_file_edits text planned = Some (map snd K, map fst S)"
  unfolding plan_file_edits_def by (rule text_lookup.plan_answer [OF lookup_ok_new assms])

lemma apply_edits_loop:
  "apply_edits text edits =
     (let (cursor, out) = apply_loop text (sort (map (placed_at (edit_address text)) edits)) 0 [] in
      map_option (\<lambda>tail. out @ tail) (drop_bytes cursor text))"
  using text_lookup.edit_ranges_answer [OF lookup_ok_new [of "text"], of edits] by (auto simp: apply_edits_def)

section \<open>Kept and skipped edits\<close>

lemma keep_edits_mset: "keep_edits a last_end first pes = (K, S) \<Longrightarrow> mset K + mset S = mset pes"
  by (induction a last_end first pes arbitrary: K S rule: keep_edits.induct)
    (auto split: if_splits prod.splits)

lemma keep_edits_apart:
  assumes "keep_edits a last_end first pes = (K, S)" and "sorted (map (starts_at a) pes)"
    and "\<forall>pe \<in> set pes. starts_at a pe \<le> ends_at a pe"
    and "\<not> first \<longrightarrow> k0 \<in> set K0 \<and> ends_at a k0 = last_end \<and> (\<forall>pe \<in> set pes. starts_at a k0 \<le> starts_at a pe)"
  shows "sorted_wrt (\<lambda>x y. ends_at a x \<le> starts_at a y) K
    \<and> (\<not> first \<longrightarrow> (\<forall>x \<in> set K. last_end \<le> starts_at a x))
    \<and> (\<forall>s \<in> set S. \<exists>k \<in> set K0 \<union> set K. starts_at a k \<le> starts_at a s \<and> starts_at a s < ends_at a k)"
  using assms
proof (induction a last_end first pes arbitrary: K S k0 K0 rule: keep_edits.induct)
  case (2 a last_end first pe pes)
  show ?case
  proof (cases "\<not> first \<and> starts_at a pe < last_end")
    case True
    obtain K' S' where k: "keep_edits a last_end first pes = (K', S')" by fastforce
    with "2.prems"(1) True have KS: "K = K'" "S = pe # S'" by auto
    have "sorted_wrt (\<lambda>x y. ends_at a x \<le> starts_at a y) K'
      \<and> (\<not> first \<longrightarrow> (\<forall>x \<in> set K'. last_end \<le> starts_at a x))
      \<and> (\<forall>s \<in> set S'. \<exists>k \<in> set K0 \<union> set K'. starts_at a k \<le> starts_at a s \<and> starts_at a s < ends_at a k)"
      by (rule "2.IH"(1) [OF True k, of k0]) (use "2.prems" True in auto)
    with KS True "2.prems"(4) show ?thesis by auto
  next
    case False
    obtain K' S' where k: "keep_edits a (ends_at a pe) False pes = (K', S')" by fastforce
    with "2.prems"(1) False have KS: "K = pe # K'" "S = S'" by auto
    have "sorted_wrt (\<lambda>x y. ends_at a x \<le> starts_at a y) K'
      \<and> (\<not> False \<longrightarrow> (\<forall>x \<in> set K'. ends_at a pe \<le> starts_at a x))
      \<and> (\<forall>s \<in> set S'. \<exists>k \<in> set [pe] \<union> set K'. starts_at a k \<le> starts_at a s \<and> starts_at a s < ends_at a k)"
      by (rule "2.IH"(2) [OF False k, of pe]) (use "2.prems" in auto)
    moreover from "2.prems"(3) have "starts_at a pe \<le> ends_at a pe" by simp
    ultimately show ?thesis using KS False by (auto intro: order_trans)
  qed
qed simp

section \<open>Applied edits\<close>

text \<open>
  A piece is unchanged text, the text replaced after it and its replacement.  \<open>placed\<close> gives
  the byte ranges and replacements of pieces that start at a byte.
\<close>

type_synonym piece = "ustr \<times> ustr \<times> ustr"

definition before_edit :: "piece list \<Rightarrow> ustr" where
  "before_edit ps = concat (map (\<lambda>(u, old, new). u @ old) ps)"

definition after_edit :: "piece list \<Rightarrow> ustr" where
  "after_edit ps = concat (map (\<lambda>(u, old, new). u @ new) ps)"

fun placed :: "nat \<Rightarrow> piece list \<Rightarrow> (nat \<times> nat \<times> ustr) list" where
  "placed k [] = []"
| "placed k ((u, old, new) # ps) =
     (k + blen u, k + blen u + blen old, new) # placed (k + blen u + blen old) ps"

lemma edit_Nil [simp]: "before_edit [] = []" "after_edit [] = []"
  by (simp_all add: before_edit_def after_edit_def)

lemma edit_Cons [simp]:
  "before_edit ((u, old, new) # ps) = u @ old @ before_edit ps"
  "after_edit ((u, old, new) # ps) = u @ new @ after_edit ps"
  by (simp_all add: before_edit_def after_edit_def)

lemma byte_slice_rest:
  assumes "text = a @ b" and "byte_slice text (blen a) n = Some u"
  shows "\<exists>r. b = u @ r \<and> n = blen (a @ u)"
proof -
  from assms have t: "take_bytes (n - blen a) b = Some u" and "blen a \<le> n"
    by (auto simp: byte_slice_def split: if_splits)
  from take_bytes_SomeD [OF t] obtain r where "b = u @ r" "blen u = n - blen a" by blast
  with \<open>blen a \<le> n\<close> show ?thesis by auto
qed


lemma boundary_slice:
  assumes "\<exists>u v. text = u @ v \<and> blen u = x" "\<exists>u v. text = u @ v \<and> blen u = y" "x \<le> y"
  shows "byte_slice text x y \<noteq> None"
proof -
  obtain u v u' v' where t: "text = u @ v" "blen u = x" "text = u' @ v'" "blen u' = y" using assms by blast
  then have eq: "u @ v = u' @ v'" by simp
  have "\<exists>m. u' = u @ m"
  proof (cases "length u \<le> length u'")
    case True
    with eq show ?thesis by (metis append_eq_append_conv_if append_take_drop_id)
  next
    case False
    with eq obtain m where m: "u = u' @ m" by (metis append_eq_append_conv_if append_take_drop_id)
    with t assms(3) have "blen m = 0" by (simp del: blen_eq_0_iff)
    with m show ?thesis by simp
  qed
  then obtain m where "u' = u @ m" by blast
  with t have "text = u @ m @ v'" "y = blen u + blen m" by simp_all
  then show ?thesis using t(2) byte_slice_middle [of u m v'] by simp
qed

text \<open>Ranges that follow each other on character boundaries are all applied.\<close>

fun chained :: "nat \<Rightarrow> (nat \<times> nat \<times> ustr) list \<Rightarrow> bool" where
  "chained c [] = True"
| "chained c ((s, e, w) # rs) = (c \<le> s \<and> s \<le> e \<and> chained e rs)"

lemma apply_loop_all:
  assumes "text = a @ b" and "chained (blen a) rs"
    and "\<forall>(s, e, w) \<in> set rs. (\<exists>u v. text = u @ v \<and> blen u = s) \<and> (\<exists>u v. text = u @ v \<and> blen u = e)"
  shows "\<exists>ps tail. b = before_edit ps @ tail \<and> placed (blen a) ps = rs
     \<and> apply_loop text rs (blen a) out = (blen (a @ before_edit ps), out @ after_edit ps)"
  using assms
proof (induction rs arbitrary: a b out)
  case Nil
  have "b = before_edit [] @ b \<and> placed (blen a) [] = []
     \<and> apply_loop text [] (blen a) out = (blen (a @ before_edit []), out @ after_edit [])" by simp
  then show ?case by blast
next
  case (Cons r rs)
  obtain s e w where r: "r = (s, e, w)" by (cases r)
  have le: "blen a \<le> s" "s \<le> e" "chained e rs" using Cons.prems(2) r by simp_all
  have bs: "\<exists>u v. text = u @ v \<and> blen u = s" "\<exists>u v. text = u @ v \<and> blen u = e"
    using Cons.prems(3) r by auto
  have "\<exists>u v. text = u @ v \<and> blen u = blen a" using Cons.prems(1) by blast
  from boundary_slice [OF this bs(1) le(1)] obtain u where u: "byte_slice text (blen a) s = Some u" by blast
  from boundary_slice [OF bs le(2)] obtain old where old: "byte_slice text s e = Some old" by blast
  obtain c where c: "b = u @ c" "s = blen (a @ u)"
    using byte_slice_rest [OF Cons.prems(1) u] by blast
  with Cons.prems have t: "text = (a @ u) @ c" by simp
  obtain d where d: "c = old @ d" "e = blen ((a @ u) @ old)"
    using byte_slice_rest [OF t old [unfolded c(2)]] by blast
  have 1: "text = (a @ u @ old) @ d" using t d(1) by simp
  have 2: "chained (blen (a @ u @ old)) rs" using le(3) d(2) by simp
  have 3: "\<forall>(s, e, w) \<in> set rs. (\<exists>u v. text = u @ v \<and> blen u = s) \<and> (\<exists>u v. text = u @ v \<and> blen u = e)"
    using Cons.prems(3) by simp
  from Cons.IH [OF 1 2 3, of "out @ u @ w"] obtain ps tail where
    ps: "d = before_edit ps @ tail" "placed (blen (a @ u @ old)) ps = rs"
      "apply_loop text rs (blen (a @ u @ old)) (out @ u @ w)
        = (blen ((a @ u @ old) @ before_edit ps), (out @ u @ w) @ after_edit ps)"
    by blast
  have "b = before_edit ((u, old, w) # ps) @ tail" using c d ps(1) by simp
  moreover have "placed (blen a) ((u, old, w) # ps) = r # rs"
    using r c(2) d(2) ps(2) by (simp add: add.assoc)
  moreover have "e = blen (a @ u @ old)" using d(2) by simp
  with le u old r ps(3)
  have "apply_loop text (r # rs) (blen a) out
      = (blen (a @ before_edit ((u, old, w) # ps)), out @ after_edit ((u, old, w) # ps))"
    by (simp add: add.assoc)
  ultimately show ?case by blast
qed

lemma sorted_wrt_permute:
  assumes "mset xs = mset ys" and "sorted_wrt P xs" and "\<And>x y. P x y \<Longrightarrow> P y x"
  shows "sorted_wrt P ys"
  using assms(1,2)
proof (induction ys arbitrary: xs)
  case (Cons y ys)
  then have "y \<in> set xs" by (metis list.set_intros(1) set_mset_mset)
  then obtain l r where xs: "xs = l @ y # r" by (metis split_list)
  with Cons.prems have "mset (l @ r) = mset ys" "sorted_wrt P (l @ r)" by (auto simp: sorted_wrt_append)
  with Cons.IH have "sorted_wrt P ys" by blast
  moreover have "\<forall>z \<in> set (l @ r). P y z"
    using Cons.prems(2) assms(3) unfolding xs by (auto simp: sorted_wrt_append)
  with \<open>mset (l @ r) = mset ys\<close> have "\<forall>z \<in> set ys. P y z" by (metis set_mset_mset)
  ultimately show ?case by simp
qed simp

definition apart :: "nat \<times> nat \<times> ustr \<Rightarrow> nat \<times> nat \<times> ustr \<Rightarrow> bool" where
  "apart x y \<longleftrightarrow> fst (snd x) \<le> fst y \<or> fst (snd y) \<le> fst x"

lemma sorted_apart_chained:
  assumes "sorted rs" and "sorted_wrt apart rs" and "\<forall>r \<in> set rs. c \<le> fst r \<and> fst r \<le> fst (snd r)"
  shows "chained c rs"
  using assms
proof (induction rs arbitrary: c)
  case (Cons r rs)
  obtain s e w where r: "r = (s, e, w)" by (cases r)
  have "e \<le> fst r'" if r': "r' \<in> set rs" for r'
  proof -
    obtain s' e' w' where q: "r' = (s', e', w')" by (cases r')
    have "r \<le> r'" "apart r r'" using Cons.prems(1,2) r' by auto
    moreover have "s \<le> e" "s' \<le> e'" using Cons.prems(3) r' r q by auto
    ultimately show ?thesis using r q by (auto simp: apart_def)
  qed
  then have "chained e rs" using Cons.IH [of e] Cons.prems by auto
  with Cons.prems(3) r show ?case by simp
qed simp

lemma placed_at_boundaries:
  "\<forall>(s, e, w) \<in> set (map (placed_at (edit_address text)) es).
     (\<exists>u v. text = u @ v \<and> blen u = s) \<and> (\<exists>u v. text = u @ v \<and> blen u = e)"
  using edit_address_boundary by auto

section \<open>Properties\<close>

fun ask_positions :: "source_pos list \<Rightarrow> position_lookup \<Rightarrow> (nat list \<times> position_lookup) option" where
  "ask_positions [] P = Some ([], P)"
| "ask_positions (pos # ps) P =
     do { (b, P1) \<leftarrow> byte_offset pos P;
          (bs, P2) \<leftarrow> ask_positions ps P1;
          Some (b # bs, P2) }"

lemma ask_positions_ok:
  "lookup_ok text P \<Longrightarrow> \<exists>P'. ask_positions ps P = Some (map (address text) ps, P')"
proof (induction ps arbitrary: P)
  case (Cons pos ps)
  obtain P1 where P1: "byte_offset pos P = Some (address text pos, P1)" "lookup_ok text P1"
    using byte_offset_ok [OF Cons.prems] by blast
  with Cons.IH [OF P1(2)] show ?case by auto
qed simp

text \<open>
  C27. The column cache never shows: whatever positions are asked for, in whatever order, a
  lookup answers each as \<^verbatim>\<open>pos_to_byte\<close> does without a cache, neither panics, and every
  answer lies on a character boundary of the text.
\<close>

theorem lookup_answers:
  "\<exists>P. ask_positions ps (PositionLookup_new text (line_start_bytes text))
         = Some (map (\<lambda>pos. the (pos_to_byte text (line_start_bytes text) pos)) ps, P)
     \<and> list_all (\<lambda>pos. \<exists>u v. text = u @ v \<and> pos_to_byte text (line_start_bytes text) pos = Some (blen u)) ps"
proof -
  have "\<exists>u v. text = u @ v \<and> pos_to_byte text (line_start_bytes text) pos = Some (blen u)" for pos
    using address_boundary [of "text" pos] by (auto simp: pos_to_byte_address)
  then show ?thesis
    using ask_positions_ok [OF lookup_ok_new [of "text"], of ps] by (auto simp: pos_to_byte_address list_all_iff)
qed


text \<open>
  The result of applying edits does not depend on the order they are given in.
\<close>

theorem apply_edits_order:
  assumes "mset edits = mset edits'"
  shows "apply_edits text edits = apply_edits text edits'"
proof -
  have "mset (map (placed_at (edit_address text)) edits) = mset (map (placed_at (edit_address text)) edits')"
    using assms by simp
  then have "sort (map (placed_at (edit_address text)) edits) = sort (map (placed_at (edit_address text)) edits')"
    by (intro properties_for_sort) simp_all
  then show ?thesis by (simp only: apply_edits_loop)
qed

definition insert_at :: "nat \<Rightarrow> nat \<Rightarrow> ustr \<Rightarrow> span_edit" where
  "insert_at l c s =
     \<lparr>edit_range = \<lparr>range_start = \<lparr>pos_line = l, pos_col = c\<rparr>, range_end = \<lparr>pos_line = l, pos_col = c\<rparr>\<rparr>,
      edit_replacement = s\<rparr>"

theorem apply_edits_order_witness:
  "apply_edits (str ''ab'') [insert_at 1 1 (str ''x''), insert_at 1 0 (str ''y'')]
   = apply_edits (str ''ab'') [insert_at 1 0 (str ''y''), insert_at 1 1 (str ''x'')]"
  by (rule apply_edits_order) simp

text \<open>
  Planning loses no edit: the kept edits and the skipped tags together are the planned ones,
  each once.
\<close>

theorem plan_file_edits_partition:
  "\<exists>K S. plan_file_edits text planned = Some (map snd K, map fst S) \<and> mset K + mset S = mset planned"
proof -
  obtain K S where k: "keep_edits (edit_address text) 0 True (sort_key (starts_at (edit_address text)) planned) = (K, S)"
    by fastforce
  from keep_edits_mset [OF k] plan_file_edits_keep [OF k] show ?thesis by auto
qed

text \<open>
  A plan of forward edits is conflict free and greedy: the kept edits come in text order
  and none starts before the one before it ends, every skipped edit starts inside a kept one,
  and applying the kept edits applies all of them.
\<close>

theorem plan_file_edits_apart:
  assumes "\<forall>(tag, e) \<in> set planned.
    edit_address text (range_start (edit_range e)) \<le> edit_address text (range_end (edit_range e))"
  shows "\<exists>K S. plan_file_edits text planned = Some (map snd K, map fst S) \<and> mset K + mset S = mset planned
    \<and> sorted_wrt (\<lambda>x y. ends_at (edit_address text) x \<le> starts_at (edit_address text) y) K
    \<and> (\<forall>s \<in> set S. \<exists>k \<in> set K. starts_at (edit_address text) k \<le> starts_at (edit_address text) s
          \<and> starts_at (edit_address text) s < ends_at (edit_address text) k)
    \<and> (\<exists>ps tail. text = before_edit ps @ tail \<and> apply_edits text (map snd K) = Some (after_edit ps @ tail)
          \<and> mset (placed 0 ps) = mset (map (placed_at (edit_address text)) (map snd K)))"
proof -
  let ?a = "edit_address text" let ?sorted = "sort_key (starts_at ?a) planned"
  obtain K S where k: "keep_edits ?a 0 True ?sorted = (K, S)" by fastforce
  note m = keep_edits_mset [OF k]
  from assms have le: "\<forall>pe \<in> set planned. starts_at ?a pe \<le> ends_at ?a pe" by auto
  then have fwd: "\<forall>pe \<in> set ?sorted. starts_at ?a pe \<le> ends_at ?a pe" by simp
  have 1: "sorted_wrt (\<lambda>x y. ends_at ?a x \<le> starts_at ?a y) K"
    and 2: "\<forall>s \<in> set S. \<exists>k \<in> set K. starts_at ?a k \<le> starts_at ?a s \<and> starts_at ?a s < ends_at ?a k"
    using keep_edits_apart [OF k sorted_sort_key fwd, where ?K0.0 = "[]"] by auto
  let ?rs = "map (placed_at ?a) (map snd K)"
  have "set K \<subseteq> set planned" using m by (metis mset_subset_eq_add_left mset_sort set_mset_mono set_mset_mset)
  then have good: "\<forall>r \<in> set ?rs. 0 \<le> fst r \<and> fst r \<le> fst (snd r)" using le by auto
  have "sorted_wrt apart ?rs" using 1 by (auto simp: sorted_wrt_map apart_def elim: sorted_wrt_mono_rel [rotated])
  then have "sorted_wrt apart (sort ?rs)"
    by (rule sorted_wrt_permute [rotated]) (auto simp: apart_def)
  then have chain: "chained 0 (sort ?rs)"
    by (intro sorted_apart_chained) (use good in auto)
  have "\<forall>(s, e, w) \<in> set (sort ?rs). (\<exists>u v. text = u @ v \<and> blen u = s) \<and> (\<exists>u v. text = u @ v \<and> blen u = e)"
    using placed_at_boundaries [of "text" "map snd K"] by simp
  then obtain ps tail where ps: "text = before_edit ps @ tail" "placed 0 ps = sort ?rs"
    "apply_loop text (sort ?rs) 0 [] = (blen (before_edit ps), after_edit ps)"
    using apply_loop_all [of "text" "[]" "text" "sort ?rs" "[]"] chain by auto
  have "drop_bytes (blen (before_edit ps)) text = Some tail"
    using ps(1) drop_bytes_blen by metis
  with ps(3) have "apply_edits text (map snd K) = Some (after_edit ps @ tail)" by (simp add: apply_edits_loop)
  moreover have "mset (placed 0 ps) = mset ?rs" using ps(2) by simp
  ultimately show ?thesis using plan_file_edits_keep [OF k] m 1 2 ps(1) by auto
qed

theorem plan_file_edits_apart_witness:
  "\<exists>K S. plan_file_edits (str ''ab'') [(1::nat, insert_at 1 1 (str ''x'')), (2, insert_at 1 0 (str ''y''))]
     = Some (map snd K, map fst S)
   \<and> mset K + mset S = mset [(1::nat, insert_at 1 1 (str ''x'')), (2, insert_at 1 0 (str ''y''))]
   \<and> sorted_wrt (\<lambda>x y. ends_at (edit_address (str ''ab'')) x \<le> starts_at (edit_address (str ''ab'')) y) K"
proof -
  have "\<forall>(tag, e) \<in> set [(1::nat, insert_at 1 1 (str ''x'')), (2, insert_at 1 0 (str ''y''))].
    edit_address (str ''ab'') (range_start (edit_range e)) \<le> edit_address (str ''ab'') (range_end (edit_range e))"
    by (simp add: insert_at_def)
  from plan_file_edits_apart [OF this] show ?thesis by (elim exE conjE) (intro exI conjI)
qed

section \<open>Positions of the parser\<close>

lemma advance_n_append: "advance_n (m + n) p = advance_n n (advance_n m p)"
  by (induction m arbitrary: p) auto

lemma advance_Cons: "p_rest p = c # cs \<Longrightarrow> snd (advance p) = step c (p\<lparr>p_rest := cs\<rparr>)"
  by (simp add: advance_def)

lemma pos_advance_n:
  assumes "p_rest p = u @ w" and "13 \<notin> set u"
  shows "p_line (advance_n (length u) p) = p_line p + count_list u 10
    \<and> (10 \<notin> set u \<longrightarrow> p_col p + length u \<le> 65535 \<longrightarrow> p_col (advance_n (length u) p) = p_col p + length u)"
  using assms
proof (induction u arbitrary: p)
  case (Cons c u)
  let ?q = "step c (p\<lparr>p_rest := u @ w\<rparr>)"
  have adv: "snd (advance p) = ?q" using Cons.prems(1) by (simp add: advance_Cons)
  have "p_rest ?q = u @ w" by simp
  from Cons.IH [OF this] Cons.prems(2)
  have "p_line (advance_n (length u) ?q) = p_line ?q + count_list u 10
    \<and> (10 \<notin> set u \<longrightarrow> p_col ?q + length u \<le> 65535 \<longrightarrow> p_col (advance_n (length u) ?q) = p_col ?q + length u)"
    by simp
  moreover have "p_line ?q = p_line p + (if c = 10 then 1 else 0)" using Cons.prems(2) by (auto simp: step_def)
  moreover have "c \<noteq> 10 \<Longrightarrow> p_col p < 65535 \<Longrightarrow> p_col ?q = p_col p + 1" using Cons.prems(2) by (auto simp: step_def)
  ultimately show ?case by (auto simp: adv)
qed simp

lemma pos_after_newline:
  assumes "p_rest p = u @ 10 # w" and "13 \<notin> set u"
  shows "p_col (advance_n (length (u @ [10])) p) = 0"
proof -
  have "p_rest (advance_n (length u) p) = 10 # w" by (simp add: advance_n_rest assms(1))
  then have "snd (advance (advance_n (length u) p)) = step 10 ((advance_n (length u) p)\<lparr>p_rest := w\<rparr>)"
    by (simp add: advance_def)
  then show ?thesis using advance_n_append [of "length u" 1 p] by (simp add: step_def)
qed

lemma line_start_nth:
  assumes "a = [] \<or> last a = 10" shows "line_start_bytes (a @ s) ! count_list a 10 = blen a"
proof (cases "a = []")
  case True
  then show ?thesis by (simp add: line_starts)
next
  case False
  with assms have a: "a = butlast a @ [10]" by (metis append_butlast_last_id)
  have "starts_from 0 a = starts_from 0 (butlast a) @ [blen (butlast a) + 1]"
    by (subst a) (simp add: starts_from_append)
  moreover have "count_list a 10 = Suc (count_list (butlast a) 10)" by (subst a) simp
  moreover have "blen a = blen (butlast a) + 1" by (subst a) simp
  ultimately show ?thesis
    using starts_from_length [of 0 "butlast a"]
    by (simp add: line_starts starts_from_append nth_append)
qed

lemma line_count: "length (line_start_bytes text) = Suc (count_list text 10)"
  by (simp add: line_starts starts_from_length)

lemma address_of_prefix:
  assumes "a = [] \<or> last a = 10" and "10 \<notin> set l"
  shows "address (a @ l @ w) \<lparr>pos_line = Suc (count_list a 10), pos_col = length l\<rparr> = blen (a @ l)"
proof -
  have "line_at (a @ l @ w) (blen a) = l @ takeWhile (\<lambda>c. c \<noteq> 10) w"
  proof -
    have "takeWhile (\<lambda>c. c \<noteq> 10) (l @ w) = l @ takeWhile (\<lambda>c. c \<noteq> 10) w"
      using assms(2) by (induction l) auto
    then show ?thesis by (simp add: line_at_def)
  qed
  moreover have "count_list a 10 < length (line_start_bytes (a @ l @ w))" by (simp add: line_count)
  ultimately show ?thesis using line_start_nth [OF assms(1), of "l @ w"] by (simp add: address_def)
qed

lemma split_char_last: "l \<in> set (split_char x (a @ x # l))" if "x \<notin> set l"
  using that by (simp add: split_char_append split_char_none)

text \<open>
  Positions the parser records and byte offsets of the text agree: after reading any prefix
  of a file, with or without a byte order mark, whose lines have no carriage return and fewer
  than 65535 characters, the parser's position addresses the byte right after that prefix in the
  file as it is on disk.
\<close>

theorem position_addresses_byte:
  assumes "text = b @ u @ w" and "b = [] \<or> b = [0xFEFF]" and "13 \<notin> set u"
    and "\<forall>l \<in> set (split_char 10 u). length l < 65535"
  shows "pos_to_byte text (line_start_bytes text)
           (pos_of (advance_n (length u) (Parser_new (u @ w) T mode (length b)))) = Some (blen (b @ u))"
proof -
  let ?p = "Parser_new (u @ w) T mode (length b)"
  let ?q = "advance_n (length u) ?p"
  have new: "p_rest ?p = u @ w" "p_line ?p = 1" "p_col ?p = length b" by (simp_all add: Parser_new_def)
  have line: "p_line ?q = Suc (count_list u 10)"
    using pos_advance_n [OF new(1) assms(3)] new(2) by simp
  show ?thesis
  proof (cases "10 \<in> set u")
    case False
    then have "length u < 65535" "10 \<notin> set (b @ u)" using assms(2,4) by (auto simp: split_char_none)
    then have "p_col ?q = length (b @ u)"
      using pos_advance_n [OF new(1) assms(3)] new(3) False assms(2) by auto
    moreover have "p_line ?q = Suc (count_list [] 10)" using line False by simp
    ultimately have "pos_of ?q = \<lparr>pos_line = Suc (count_list [] 10), pos_col = length (b @ u)\<rparr>"
      by (simp add: pos_of_def)
    moreover have "text = [] @ (b @ u) @ w" using assms(1) by simp
    ultimately show ?thesis
      using address_of_prefix [of "[]" "b @ u" w] \<open>10 \<notin> set (b @ u)\<close> by (simp add: pos_to_byte_address)
  next
    case True
    then obtain a l where u: "u = a @ 10 # l" "10 \<notin> set l" by (metis split_list_last)
    let ?r = "advance_n (length (a @ [10])) ?p"
    have "p_rest ?p = a @ 10 # l @ w" "13 \<notin> set a" using new(1) u assms(3) by auto
    then have r1: "p_col ?r = 0" by (rule pos_after_newline)
    have "p_rest ?r = drop (length (a @ [10])) (u @ w)" by (simp only: advance_n_rest new(1))
    then have r2: "p_rest ?r = l @ w" using u(1) by simp
    have "?q = advance_n (length l) ?r"
      using advance_n_append [of "length (a @ [10])" "length l" ?p] u(1) by simp
    moreover have "length l < 65535" using assms(4) split_char_last [OF u(2), of a] u(1) by blast
    ultimately have "p_col ?q = length l"
      using pos_advance_n [OF r2] r1 u assms(3) by (auto simp del: length_append)
    moreover have "count_list (b @ a @ [10]) 10 = count_list u 10" using u assms(2) by auto
    ultimately have "pos_of ?q = \<lparr>pos_line = Suc (count_list (b @ a @ [10]) 10), pos_col = length l\<rparr>"
      using line by (simp add: pos_of_def)
    moreover have "text = (b @ a @ [10]) @ l @ w" using assms(1) u(1) by simp
    ultimately show ?thesis
      using address_of_prefix [of "b @ a @ [10]" l w] u by (simp add: pos_to_byte_address)
  qed
qed

theorem position_addresses_byte_witness:
  "pos_to_byte ([0xFEFF, 97, 0xE9, 10, 98, 99]) (line_start_bytes [0xFEFF, 97, 0xE9, 10, 98, 99])
     (pos_of (advance_n 4 (Parser_new [97, 0xE9, 10, 98, 99] StringTable_new Preserve 1))) = Some 8"
proof -
  have "pos_to_byte ([0xFEFF, 97, 0xE9, 10, 98, 99]) (line_start_bytes [0xFEFF, 97, 0xE9, 10, 98, 99])
     (pos_of (advance_n (length [97, 0xE9, 10, 98 :: nat]) (Parser_new ([97, 0xE9, 10, 98] @ [99]) StringTable_new Preserve
       (length [0xFEFF :: nat])))) = Some (blen ([0xFEFF] @ [97, 0xE9, 10, 98]))"
    by (rule position_addresses_byte) simp_all
  moreover have "length [97, 0xE9, 10, 98 :: nat] = 4" "length [0xFEFF :: nat] = 1"
    "blen ([0xFEFF] @ [97, 0xE9, 10, 98]) = 8" "[97, 0xE9, 10, 98 :: nat] @ [99] = [97, 0xE9, 10, 98, 99]"
    by (simp_all add: utf8_len_def)
  ultimately show ?thesis by (simp only:)
qed

text \<open>
  The limit of the previous property is real: after a carriage return inside a line the
  parser's column is one short of the number of characters, so its position addresses an
  earlier byte than the one it was at.
\<close>

theorem carriage_return_shifts:
  "pos_of (advance_n 3 (Parser_new [97, 13, 98, 99] StringTable_new Preserve 0)) = \<lparr>pos_line = 1, pos_col = 2\<rparr>
   \<and> pos_to_byte [97, 13, 98, 99] (line_start_bytes [97, 13, 98, 99]) \<lparr>pos_line = 1, pos_col = 2\<rparr> = Some 2
   \<and> blen [97, 13, 98] = 3"
  by (intro conjI; code_simp)

end
