(* ===== verification/Scope_Registry.thy ===== *)
theory Scope_Registry
  imports Prelude "HOL-Library.Multiset"
begin

text \<open>
  The games, \<^verbatim>\<open>engine/crates/game/src/constants.rs\<close>, and the registry of scopes and links a
  game's configuration declares, \<^verbatim>\<open>engine/crates/game/src/scope_registry.rs\<close>.

  The hash maps of the registry are association lists.  \<^verbatim>\<open>from_config\<close> walks one of them
  (\<open>by_id\<close>), and the order of that walk is the hash map's: it is the parameter \<open>iter\<close>, of
  which only that it permutes is assumed.  Scope ids are natural numbers; the counter of
  \<^verbatim>\<open>from_config\<close> starts at 100 and stays below \<open>2 ^ 32\<close> for fewer than four billion scopes.
\<close>

section \<open>Games\<close>

datatype game = Hoi4 | Stellaris | Eu4 | Ck2 | Ck3 | Vic2 | Vic3 | Ir | Eu5 | Custom

fun game_display :: "game \<Rightarrow> ustr" where
  "game_display Hoi4 = str ''hoi4''"
| "game_display Stellaris = str ''stellaris''"
| "game_display Eu4 = str ''eu4''"
| "game_display Ck2 = str ''ck2''"
| "game_display Ck3 = str ''ck3''"
| "game_display Vic2 = str ''vic2''"
| "game_display Vic3 = str ''vic3''"
| "game_display Ir = str ''ir''"
| "game_display Eu5 = str ''eu5''"
| "game_display Custom = str ''custom''"

text \<open>\<^verbatim>\<open>Game::from_str\<close>, for the \<^verbatim>\<open>str::to_lowercase\<close> given.\<close>

definition game_from_str :: "(ustr \<Rightarrow> ustr) \<Rightarrow> ustr \<Rightarrow> game option" where
  "game_from_str lowercase s =
     (let l = lowercase s in
      if l = str ''hoi4'' then Some Hoi4
      else if l = str ''stellaris'' \<or> l = str ''stl'' then Some Stellaris
      else if l = str ''eu4'' then Some Eu4
      else if l = str ''ck2'' then Some Ck2
      else if l = str ''ck3'' then Some Ck3
      else if l = str ''vic2'' then Some Vic2
      else if l = str ''vic3'' then Some Vic3
      else if l = str ''ir'' \<or> l = str ''imperator'' then Some Ir
      else if l = str ''eu5'' then Some Eu5
      else if l = str ''custom'' then Some Custom
      else None)"

section \<open>Scopes and links\<close>

type_synonym scope_id = nat

definition SCOPE_ANY :: scope_id where "SCOPE_ANY = 0"

definition SCOPE_INVALID :: scope_id where "SCOPE_INVALID = 1"

record scope_link =
  link_valid_scopes :: "scope_id list"
  link_target :: "scope_id option"
  link_ignore_keys :: "ustr list"

record scope_input =
  si_name :: ustr
  si_aliases :: "ustr list"
  si_is_subscope_of :: "ustr list"

record link_input =
  li_name :: ustr
  li_output_scope :: "ustr option"
  li_input_scopes :: "ustr list"
  li_prefix :: "ustr option"
  li_from_data :: bool
  li_data_source :: "ustr list"

record scope_def =
  def_name :: ustr
  def_aliases :: "ustr list"
  def_subscope_of :: "scope_id list"

record scope_registry =
  by_id :: "(scope_id \<times> scope_def) list"
  by_name :: "(ustr \<times> scope_id) list"
  reg_links :: "(ustr \<times> scope_link) list"
  reg_prefix_links :: "(ustr \<times> scope_link) list"

definition registry_default :: scope_registry where
  "registry_default = \<lparr>by_id = [], by_name = [], reg_links = [], reg_prefix_links = []\<rparr>"

definition name_of :: "scope_registry \<Rightarrow> scope_id \<Rightarrow> ustr" where
  "name_of reg sid =
     (if sid = SCOPE_ANY then str ''any''
      else if sid = SCOPE_INVALID then str ''invalid''
      else
        case map_of (by_id reg) sid of
          Some d \<Rightarrow> (case def_aliases d of a # _ \<Rightarrow> a | [] \<Rightarrow> def_name d)
        | None \<Rightarrow> str ''scope_'' @ show_nat sid)"

definition id_of :: "scope_registry \<Rightarrow> ustr \<Rightarrow> scope_id option" where
  "id_of reg name =
     (let trimmed = trim name in
      if eq_ignore_ascii_case trimmed (str ''any'') \<or> eq_ignore_ascii_case trimmed (str ''all'')
         \<or> eq_ignore_ascii_case trimmed (str ''none'')
      then Some SCOPE_ANY
      else if eq_ignore_ascii_case trimmed (str ''invalid'') then Some SCOPE_INVALID
      else
        case map_of (by_name reg) trimmed of
          Some sid \<Rightarrow> Some sid
        | None \<Rightarrow>
            if list_ex is_ascii_uppercase trimmed
            then map_of (by_name reg) (to_ascii_lowercase trimmed)
            else None)"

definition registry_is_empty :: "scope_registry \<Rightarrow> bool" where
  "registry_is_empty reg \<longleftrightarrow> by_id reg = []"

text \<open>The depth-first search of \<^verbatim>\<open>is_subscope_or_eq\<close>: stack, top last, and visited scopes.\<close>

function subscope_search ::
  "scope_registry \<Rightarrow> scope_id \<Rightarrow> scope_id list \<Rightarrow> scope_id list \<Rightarrow> bool" where
  "subscope_search reg target stack seen =
     (if stack = [] then False
      else
        let c = last stack; stack1 = butlast stack in
        if c = target then True
        else if c \<in> set seen then subscope_search reg target stack1 seen
        else
          subscope_search reg target
            (case map_of (by_id reg) c of Some d \<Rightarrow> stack1 @ def_subscope_of d | None \<Rightarrow> stack1)
            (seen @ [c]))"
  by pat_completeness auto

termination
proof (relation "measures [\<lambda>(reg, target, stack, seen). card (dom (map_of (by_id reg)) - set seen),
    \<lambda>(reg, target, stack, seen). length stack]", goal_cases)
  case (3 reg target stack seen c stack1)
  show ?case
  proof (cases "map_of (by_id reg) c")
    case None
    then have "dom (map_of (by_id reg)) - set (seen @ [c]) = dom (map_of (by_id reg)) - set seen" by auto
    with None 3 show ?thesis by simp
  next
    case (Some d)
    have "dom (map_of (by_id reg)) - set (seen @ [c]) \<subset> dom (map_of (by_id reg)) - set seen"
      using Some 3 by auto
    then have "card (dom (map_of (by_id reg)) - set (seen @ [c])) < card (dom (map_of (by_id reg)) - set seen)"
      by (intro psubset_card_mono) (simp_all add: finite_dom_map_of)
    then show ?thesis by simp
  qed
qed simp_all

declare subscope_search.simps [simp del]

definition is_subscope_or_eq :: "scope_registry \<Rightarrow> scope_id \<Rightarrow> scope_id \<Rightarrow> bool" where
  "is_subscope_or_eq reg current target =
     (if current = target \<or> current = SCOPE_ANY \<or> target = SCOPE_ANY then True
      else subscope_search reg target [current] [])"

section \<open>Building a registry\<close>

text \<open>The turn of the first loop of \<^verbatim>\<open>from_config\<close>, with the next sid.\<close>

definition register_scope :: "scope_input \<Rightarrow> scope_registry \<times> scope_id \<Rightarrow> scope_registry \<times> scope_id" where
  "register_scope si = (\<lambda>(reg, next_id).
     (let is_named = (\<lambda>w. eq_ignore_ascii_case (si_name si) w
                        \<or> list_ex (\<lambda>a. eq_ignore_ascii_case a w) (si_aliases si));
          is_invalid = is_named (str ''invalid'');
          is_any = is_named (str ''any'');
          (sid, next_id1) = (if is_invalid then (SCOPE_INVALID, next_id)
                            else if is_any then (SCOPE_ANY, next_id)
                            else (next_id, next_id + 1));
          reg1 = reg\<lparr>by_name := fold (\<lambda>a. AList.update (to_ascii_lowercase a) sid) (si_aliases si)
                                   (AList.update (to_ascii_lowercase (si_name si)) sid (by_name reg))\<rparr>
      in (if sid \<noteq> SCOPE_ANY \<and> sid \<noteq> SCOPE_INVALID
          then reg1\<lparr>by_id := AList.update sid
                      \<lparr>def_name = si_name si, def_aliases = si_aliases si, def_subscope_of = []\<rparr> (by_id reg1)\<rparr>
          else reg1,
          next_id1)))"

definition set_parents :: "scope_input \<Rightarrow> scope_registry \<Rightarrow> scope_registry" where
  "set_parents si reg =
     (case id_of reg (si_name si) of
        None \<Rightarrow> reg
      | Some sid \<Rightarrow>
          let parents = List.map_filter (id_of reg) (si_is_subscope_of si) in
          (case map_of (by_id reg) sid of
             Some d \<Rightarrow> reg\<lparr>by_id := AList.update sid (d\<lparr>def_subscope_of := parents\<rparr>) (by_id reg)\<rparr>
           | None \<Rightarrow> reg))"

definition add_link :: "link_input \<Rightarrow> scope_registry \<Rightarrow> scope_registry" where
  "add_link li reg =
     (let target = Option.bind (li_output_scope li) (id_of reg);
          valid = map (\<lambda>n. case id_of reg n of Some sid \<Rightarrow> sid | None \<Rightarrow> SCOPE_ANY) (li_input_scopes li);
          link = \<lparr>link_valid_scopes = valid, link_target = target, link_ignore_keys = []\<rparr>
      in case li_prefix li of
           Some p \<Rightarrow> reg\<lparr>reg_prefix_links := reg_prefix_links reg @ [(to_ascii_lowercase p, link)]\<rparr>
         | None \<Rightarrow> reg\<lparr>reg_links := AList.update (to_ascii_lowercase (li_name li)) link (reg_links reg)\<rparr>)"

definition scope_aliases :: "(scope_id \<times> scope_def) list \<Rightarrow> (ustr \<times> scope_id) list" where
  "scope_aliases defs =
     concat (map (\<lambda>(sid, d). map (\<lambda>a. (to_ascii_lowercase a, sid))
       (filter (list_all (\<lambda>c. is_ascii_alphanumeric c \<or> c = asc CHR ''_'')) (def_name d # def_aliases d))) defs)"

definition group_prefixes :: "ustr list" where
  "group_prefixes = [str ''every_'', str ''random_'', str ''any_'', str ''all_'']"

text \<open>\<^verbatim>\<open>links.entry(key).or_insert(link)\<close>.\<close>

definition or_insert :: "'k \<Rightarrow> 'v \<Rightarrow> ('k \<times> 'v) list \<Rightarrow> ('k \<times> 'v) list" where
  "or_insert k v al = (case map_of al k of Some _ \<Rightarrow> al | None \<Rightarrow> AList.update k v al)"

definition group_link :: "scope_id \<Rightarrow> scope_link" where
  "group_link sid = \<lparr>link_valid_scopes = [], link_target = Some sid, link_ignore_keys = []\<rparr>"

definition add_group_links :: "ustr \<times> scope_id \<Rightarrow> (ustr \<times> scope_link) list \<Rightarrow> (ustr \<times> scope_link) list" where
  "add_group_links = (\<lambda>(alias, sid) links. fold (\<lambda>pre. or_insert (pre @ alias) (group_link sid)) group_prefixes links)"

definition from_config ::
  "((scope_id \<times> scope_def) list \<Rightarrow> (scope_id \<times> scope_def) list)
   \<Rightarrow> scope_input list \<Rightarrow> link_input list \<Rightarrow> scope_registry" where
  "from_config iter scope_inputs link_inputs =
     (if scope_inputs = [] then registry_default
      else
        let (reg1, next_id) = fold register_scope scope_inputs (registry_default, 100);
            reg2 = fold set_parents scope_inputs reg1;
            reg3 = fold add_link link_inputs reg2
        in reg3\<lparr>reg_links := fold add_group_links (scope_aliases (iter (by_id reg3))) (reg_links reg3)\<rparr>)"

section \<open>Subscopes\<close>

definition parents_rel :: "scope_registry \<Rightarrow> (scope_id \<times> scope_id) set" where
  "parents_rel reg = {(c, p). \<exists>d. map_of (by_id reg) c = Some d \<and> p \<in> set (def_subscope_of d)}"

lemma parents_rel_image:
  "parents_rel reg `` {c} = (case map_of (by_id reg) c of Some d \<Rightarrow> set (def_subscope_of d) | None \<Rightarrow> {})"
  by (auto simp: parents_rel_def split: option.split)

lemma search_push:
  "set (case map_of (by_id reg) c of Some d \<Rightarrow> stack @ def_subscope_of d | None \<Rightarrow> stack)
   = set stack \<union> parents_rel reg `` {c}"
  by (auto simp: parents_rel_image split: option.split)

lemma set_last: "stack \<noteq> [] \<Longrightarrow> set stack = insert (last stack) (set (butlast stack))"
  by (metis append_butlast_last_id list.simps(15) rotate1.simps(2) set_rotate1)

lemma search_Nil [simp]: "subscope_search reg target [] seen = False"
  by (simp add: subscope_search.simps)

lemma search_step:
  "stack \<noteq> [] \<Longrightarrow> subscope_search reg target stack seen =
     (last stack = target
      \<or> (if last stack \<in> set seen then subscope_search reg target (butlast stack) seen
         else subscope_search reg target
           (case map_of (by_id reg) (last stack) of Some d \<Rightarrow> butlast stack @ def_subscope_of d | None \<Rightarrow> butlast stack)
           (seen @ [last stack])))"
  by (subst subscope_search.simps) (simp add: Let_def)

lemma search_sound:
  "subscope_search reg target stack seen \<Longrightarrow> \<exists>c \<in> set stack. (c, target) \<in> (parents_rel reg)\<^sup>*"
proof (induction reg target stack seen rule: subscope_search.induct)
  case (1 reg target stack seen)
  let ?c = "last stack"
  from "1.prems" have ne: "stack \<noteq> []" by auto
  note set = set_last [OF ne]
  show ?case
  proof (cases "?c = target")
    case True
    with set show ?thesis by auto
  next
    case c: False
    show ?thesis
    proof (cases "?c \<in> set seen")
      case True
      with ne c "1.prems" have "subscope_search reg target (butlast stack) seen" by (simp add: search_step)
      with "1.IH"(1) [OF ne refl refl c True] set show ?thesis by auto
    next
      case fresh: False
      with ne c "1.prems" have "subscope_search reg target
          (case map_of (by_id reg) ?c of Some d \<Rightarrow> butlast stack @ def_subscope_of d | None \<Rightarrow> butlast stack) (seen @ [?c])"
        by (simp add: search_step)
      from "1.IH"(2) [OF ne refl refl c fresh this, unfolded search_push] set
      show ?thesis by (auto intro: converse_rtrancl_into_rtrancl)
    qed
  qed
qed

lemma search_complete:
  assumes "\<not> subscope_search reg target stack seen" and "target \<notin> set seen"
    and "parents_rel reg `` set seen \<subseteq> set seen \<union> set stack"
  shows "\<exists>S. set stack \<union> set seen \<subseteq> S \<and> target \<notin> S \<and> parents_rel reg `` S \<subseteq> S"
  using assms
proof (induction reg target stack seen rule: subscope_search.induct)
  case (1 reg target stack seen)
  let ?c = "last stack"
  show ?case
  proof (cases "stack = []")
    case True
    with "1.prems" show ?thesis by auto
  next
    case ne: False
    note set = set_last [OF ne]
    from ne "1.prems"(1) have c: "?c \<noteq> target" by (simp add: search_step)
    show ?thesis
    proof (cases "?c \<in> set seen")
      case True
      with ne c "1.prems"(1) have 1: "\<not> subscope_search reg target (butlast stack) seen"
        by (simp add: search_step)
      have 2: "parents_rel reg `` set seen \<subseteq> set seen \<union> set (butlast stack)"
        using "1.prems"(3) True set by auto
      from "1.IH"(1) [OF ne refl refl c True 1 "1.prems"(2) 2] obtain S where
        S: "set (butlast stack) \<union> set seen \<subseteq> S" "target \<notin> S" "parents_rel reg `` S \<subseteq> S" by blast
      moreover have "set stack \<union> set seen \<subseteq> S" using S(1) True set by auto
      ultimately show ?thesis by blast
    next
      case fresh: False
      let ?push = "case map_of (by_id reg) ?c of Some d \<Rightarrow> butlast stack @ def_subscope_of d | None \<Rightarrow> butlast stack"
      have 1: "\<not> subscope_search reg target ?push (seen @ [?c])"
        using fresh ne c "1.prems"(1) by (simp add: search_step)
      have 2: "target \<notin> set (seen @ [?c])" using c "1.prems"(2) by auto
      have 3: "parents_rel reg `` set (seen @ [?c]) \<subseteq> set (seen @ [?c]) \<union> set ?push"
        using "1.prems"(3) set unfolding search_push by auto
      from "1.IH"(2) [OF ne refl refl c fresh 1 2 3] obtain S where
        S: "set ?push \<union> set (seen @ [?c]) \<subseteq> S" "target \<notin> S" "parents_rel reg `` S \<subseteq> S" by blast
      moreover have "set stack \<union> set seen \<subseteq> S" using S(1) set unfolding search_push by auto
      ultimately show ?thesis by blast
    qed
  qed
qed

lemma subscope_search_iff:
  "subscope_search reg target [c] [] \<longleftrightarrow> (c, target) \<in> (parents_rel reg)\<^sup>*"
proof
  assume r: "(c, target) \<in> (parents_rel reg)\<^sup>*"
  show "subscope_search reg target [c] []"
  proof (rule ccontr)
    assume "\<not> subscope_search reg target [c] []"
    from search_complete [OF this] obtain S where S: "c \<in> S" "target \<notin> S" "parents_rel reg `` S \<subseteq> S" by auto
    from r S(1,3) have "target \<in> S" by (induction rule: rtrancl_induct) auto
    with S(2) show False ..
  qed
qed (auto dest: search_sound)

lemma is_subscope_reach:
  "is_subscope_or_eq reg current target \<longleftrightarrow>
     current = SCOPE_ANY \<or> target = SCOPE_ANY \<or> (current, target) \<in> (parents_rel reg)\<^sup>*"
  by (auto simp: is_subscope_or_eq_def subscope_search_iff)

section \<open>Lookups of a built registry\<close>

definition reserved :: "ustr list" where
  "reserved = map str [''any'', ''all'', ''none'', ''invalid'']"

text \<open>The lowercase spellings an input declares, and the inputs that declare ordinary scopes.\<close>

definition spellings :: "scope_input \<Rightarrow> ustr list" where
  "spellings si = map to_ascii_lowercase (si_name si # si_aliases si)"

definition plain_inputs :: "scope_input list \<Rightarrow> bool" where
  "plain_inputs inputs \<longleftrightarrow>
     (\<forall>si \<in> set inputs. \<forall>a \<in> set (si_name si # si_aliases si). trim a = a \<and> to_ascii_lowercase a \<notin> set reserved)
     \<and> (\<forall>i < length inputs. \<forall>j < length inputs. i \<noteq> j \<longrightarrow> set (spellings (inputs ! i)) \<inter> set (spellings (inputs ! j)) = {})"

lemma is_whitespace_lower [simp]: "is_whitespace (ascii_lower c) = is_whitespace c"
  by (auto simp: is_whitespace_def ascii_lower_def is_ascii_uppercase_def)

lemma dropWhile_lower: "dropWhile is_whitespace (to_ascii_lowercase s) = to_ascii_lowercase (dropWhile is_whitespace s)"
  by (induction s) auto

lemma trim_lower: "trim (to_ascii_lowercase s) = to_ascii_lowercase (trim s)"
  by (simp add: trim_def trim_end_def trim_start_def dropWhile_lower rev_map)

lemma upper_changes:
  assumes "list_ex is_ascii_uppercase s" shows "to_ascii_lowercase s \<noteq> s"
proof
  assume eq: "to_ascii_lowercase s = s"
  from assms obtain i where i: "i < length s" "is_ascii_uppercase (s ! i)" by (auto simp: list_ex_length)
  from eq i(1) have "ascii_lower (s ! i) = s ! i" by (metis nth_map)
  with i(2) show False by (simp add: ascii_lower_def)
qed

definition lower_keys :: "('a list \<Rightarrow> 'a list) \<Rightarrow> ('a list \<times> 'v) list \<Rightarrow> bool" where
  "lower_keys f al \<longleftrightarrow> (\<forall>k \<in> dom (map_of al). f k = k)"

text \<open>Over lowercase keys, \<^verbatim>\<open>id_of\<close> looks up the trimmed lowercase name.\<close>

definition id_of_key :: "scope_registry \<Rightarrow> ustr \<Rightarrow> scope_id option" where
  "id_of_key reg l =
     (if l \<in> {str ''any'', str ''all'', str ''none''} then Some SCOPE_ANY
      else if l = str ''invalid'' then Some SCOPE_INVALID
      else map_of (by_name reg) l)"

lemma id_of_lower:
  assumes "lower_keys to_ascii_lowercase (by_name reg)"
  shows "id_of reg a = id_of_key reg (to_ascii_lowercase (trim a))"
proof -
  let ?t = "trim a"
  have low: "to_ascii_lowercase (str ''any'') = str ''any''" "to_ascii_lowercase (str ''all'') = str ''all''"
    "to_ascii_lowercase (str ''none'') = str ''none''" "to_ascii_lowercase (str ''invalid'') = str ''invalid''"
    by (simp_all add: ascii_lower_def is_ascii_uppercase_def)
  have "(case map_of (by_name reg) ?t of Some sid \<Rightarrow> Some sid
       | None \<Rightarrow> if list_ex is_ascii_uppercase ?t then map_of (by_name reg) (to_ascii_lowercase ?t) else None)
     = map_of (by_name reg) (to_ascii_lowercase ?t)"
  proof (cases "list_ex is_ascii_uppercase ?t")
    case True
    then have "map_of (by_name reg) ?t = None"
      using assms upper_changes [OF True] by (auto simp: lower_keys_def)
    with True show ?thesis by simp
  next
    case False
    then have "to_ascii_lowercase ?t = ?t" by (intro to_ascii_lowercase_id) (auto simp: list_ex_iff)
    with False show ?thesis by (auto split: option.split)
  qed
  then show ?thesis
    unfolding id_of_def id_of_key_def Let_def eq_ignore_ascii_case_def low by auto
qed

subsection \<open>Registering scopes\<close>

definition plain_def :: "scope_input \<Rightarrow> scope_def" where
  "plain_def si = \<lparr>def_name = si_name si, def_aliases = si_aliases si, def_subscope_of = []\<rparr>"

definition plain_input :: "scope_input \<Rightarrow> bool" where
  "plain_input si \<longleftrightarrow> (\<forall>a \<in> set (si_name si # si_aliases si). trim a = a \<and> to_ascii_lowercase a \<notin> set reserved)"

lemma map_of_fold_update:
  "map_of (fold (\<lambda>a. AList.update (f a) v) as al) k = (if k \<in> f ` set as then Some v else map_of al k)"
  by (induction as arbitrary: al) (auto simp: update_conv)

lemma register_scope_names:
  "register_scope si (reg, n) = (reg', n') \<Longrightarrow> k \<notin> set (spellings si) \<Longrightarrow> map_of (by_name reg') k = map_of (by_name reg) k"
  by (auto simp: register_scope_def Let_def spellings_def map_of_fold_update update_conv split: if_splits prod.splits)

lemma register_scope_lower:
  assumes "register_scope si (reg, n) = (reg', n')" "lower_keys to_ascii_lowercase (by_name reg)"
  shows "lower_keys to_ascii_lowercase (by_name reg')"
  unfolding lower_keys_def
proof
  fix k assume k: "k \<in> dom (map_of (by_name reg'))"
  show "to_ascii_lowercase k = k"
  proof (cases "k \<in> set (spellings si)")
    case True
    then show ?thesis by (auto simp: spellings_def)
  next
    case False
    with k assms register_scope_names [OF assms(1) False] show ?thesis by (auto simp: lower_keys_def dom_def)
  qed
qed

lemma register_scope_frame:
  "register_scope si (reg, n) = (reg', n') \<Longrightarrow> reg_links reg' = reg_links reg \<and> reg_prefix_links reg' = reg_prefix_links reg"
  by (auto simp: register_scope_def Let_def split: if_splits prod.splits)

lemma register_scope_plain:
  assumes "plain_input si" and "100 \<le> n"
  shows "\<exists>reg'. register_scope si (reg, n) = (reg', n + 1)
    \<and> (\<forall>k. map_of (by_name reg') k = (if k \<in> set (spellings si) then Some n else map_of (by_name reg) k))
    \<and> map_of (by_id reg') = (map_of (by_id reg))(n \<mapsto> plain_def si)"
proof -
  have no: "\<not> eq_ignore_ascii_case a w" if "a \<in> set (si_name si # si_aliases si)" "w = str ''any'' \<or> w = str ''invalid''" for a w
  proof -
    have "to_ascii_lowercase a \<notin> set reserved" using assms(1) that(1) by (auto simp: plain_input_def)
    moreover have "to_ascii_lowercase w = w" "w \<in> set reserved"
      using that(2) by (auto simp: ascii_lower_def is_ascii_uppercase_def reserved_def)
    ultimately show ?thesis by (auto simp: eq_ignore_ascii_case_def)
  qed
  then have "\<not> eq_ignore_ascii_case (si_name si) w" "\<not> list_ex (\<lambda>a. eq_ignore_ascii_case a w) (si_aliases si)"
    if "w = str ''any'' \<or> w = str ''invalid''" for w
    using that by (auto simp: list_ex_iff)
  then show ?thesis using assms(2)
    unfolding register_scope_def Let_def
    by (auto simp: SCOPE_ANY_def SCOPE_INVALID_def map_of_fold_update update_conv spellings_def plain_def_def update_conv')
qed

definition disjoint_inputs :: "scope_input list \<Rightarrow> bool" where
  "disjoint_inputs inputs \<longleftrightarrow>
     (\<forall>i j. i < j \<longrightarrow> j < length inputs \<longrightarrow> set (spellings (inputs ! i)) \<inter> set (spellings (inputs ! j)) = {})"

lemma disjoint_Cons:
  "disjoint_inputs (si # inputs) \<longleftrightarrow>
     (\<forall>sj \<in> set inputs. set (spellings si) \<inter> set (spellings sj) = {}) \<and> disjoint_inputs inputs"
  (is "?l = ?r")
proof
  assume l: ?l
  have "set (spellings si) \<inter> set (spellings (inputs ! j)) = {}" if "j < length inputs" for j
    using l [unfolded disjoint_inputs_def, rule_format, of 0 "Suc j"] that by simp
  moreover have "set (spellings (inputs ! i)) \<inter> set (spellings (inputs ! j)) = {}" if "i < j" "j < length inputs" for i j
    using l [unfolded disjoint_inputs_def, rule_format, of "Suc i" "Suc j"] that by simp
  ultimately show ?r by (metis disjoint_inputs_def in_set_conv_nth)
next
  assume r: ?r
  show ?l unfolding disjoint_inputs_def
  proof (intro allI impI)
    fix i j assume "i < j" "j < length (si # inputs)"
    then obtain k where j: "j = Suc k" "k < length inputs" by (cases j) auto
    show "set (spellings ((si # inputs) ! i)) \<inter> set (spellings ((si # inputs) ! j)) = {}"
    proof (cases i)
      case 0
      with r j nth_mem [OF j(2)] show ?thesis by auto
    next
      case (Suc l)
      with r j \<open>i < j\<close> show ?thesis by (simp add: disjoint_inputs_def)
    qed
  qed
qed

lemma fold_register:
  assumes "list_all plain_input inputs" and "disjoint_inputs inputs" and "100 \<le> n"
  shows "\<exists>reg'. fold register_scope inputs (reg, n) = (reg', n + length inputs)
    \<and> (\<forall>i < length inputs. \<forall>k \<in> set (spellings (inputs ! i)). map_of (by_name reg') k = Some (n + i))
    \<and> (\<forall>k. (\<forall>si \<in> set inputs. k \<notin> set (spellings si)) \<longrightarrow> map_of (by_name reg') k = map_of (by_name reg) k)
    \<and> map_of (by_id reg') = (\<lambda>x. if n \<le> x \<and> x < n + length inputs then Some (plain_def (inputs ! (x - n))) else map_of (by_id reg) x)"
  using assms
proof (induction inputs arbitrary: reg n)
  case Nil
  then show ?case by (auto simp: fun_eq_iff)
next
  case (Cons si inputs)
  obtain reg1 where reg1: "register_scope si (reg, n) = (reg1, n + 1)"
    "\<forall>k. map_of (by_name reg1) k = (if k \<in> set (spellings si) then Some n else map_of (by_name reg) k)"
    "map_of (by_id reg1) = (map_of (by_id reg))(n \<mapsto> plain_def si)"
    using register_scope_plain [of si n reg] Cons.prems by auto
  have d: "\<forall>sj \<in> set inputs. set (spellings si) \<inter> set (spellings sj) = {}" "disjoint_inputs inputs"
    using Cons.prems(2) by (simp_all add: disjoint_Cons)
  obtain reg' where reg': "fold register_scope inputs (reg1, n + 1) = (reg', n + 1 + length inputs)"
    "\<forall>i < length inputs. \<forall>k \<in> set (spellings (inputs ! i)). map_of (by_name reg') k = Some (n + 1 + i)"
    "\<forall>k. (\<forall>si \<in> set inputs. k \<notin> set (spellings si)) \<longrightarrow> map_of (by_name reg') k = map_of (by_name reg1) k"
    "map_of (by_id reg') = (\<lambda>x. if n + 1 \<le> x \<and> x < n + 1 + length inputs then Some (plain_def (inputs ! (x - (n + 1)))) else map_of (by_id reg1) x)"
    using Cons.IH [of "n + 1" reg1] Cons.prems d by auto
  have "map_of (by_name reg') k = Some (n + i)" if "i < length (si # inputs)" "k \<in> set (spellings ((si # inputs) ! i))" for i k
  proof (cases i)
    case 0
    then have "\<forall>sj \<in> set inputs. k \<notin> set (spellings sj)" using d(1) that by auto
    with 0 reg'(3) reg1(2) that show ?thesis by simp
  next
    case (Suc j)
    with reg'(2) that show ?thesis by simp
  qed
  moreover have "map_of (by_name reg') k = map_of (by_name reg) k" if "\<forall>sj \<in> set (si # inputs). k \<notin> set (spellings sj)" for k
    using reg'(3) reg1(2) that by simp
  moreover have "map_of (by_id reg') = (\<lambda>x. if n \<le> x \<and> x < n + length (si # inputs)
      then Some (plain_def ((si # inputs) ! (x - n))) else map_of (by_id reg) x)"
  proof
    fix x
    consider "x < n" | "x = n" | y where "x = Suc (n + y)" by (metis less_iff_Suc_add linorder_neqE_nat)
    then show "map_of (by_id reg') x = (if n \<le> x \<and> x < n + length (si # inputs)
      then Some (plain_def ((si # inputs) ! (x - n))) else map_of (by_id reg) x)"
      by cases (auto simp: reg'(4) reg1(3))
  qed
  ultimately show ?case using reg1(1) reg'(1) by simp
qed

subsection \<open>Parents and links\<close>

lemma id_of_names:
  assumes "by_name reg' = by_name reg" shows "id_of reg' = id_of reg"
  by (rule ext) (unfold id_of_def assms, rule refl)

lemma set_parents_frame [simp]:
  "by_name (set_parents si reg) = by_name reg" "reg_links (set_parents si reg) = reg_links reg"
  "reg_prefix_links (set_parents si reg) = reg_prefix_links reg"
  by (simp_all add: set_parents_def Let_def split: option.split)

lemma fold_set_parents_frame [simp]:
  "by_name (fold set_parents sis reg) = by_name reg" "reg_links (fold set_parents sis reg) = reg_links reg"
  "reg_prefix_links (fold set_parents sis reg) = reg_prefix_links reg"
  by (induction sis arbitrary: reg) simp_all

lemma add_link_frame [simp]: "by_name (add_link li reg) = by_name reg" "by_id (add_link li reg) = by_id reg"
  by (simp_all add: add_link_def Let_def split: option.split)

lemma fold_add_link_frame [simp]:
  "by_name (fold add_link lis reg) = by_name reg" "by_id (fold add_link lis reg) = by_id reg"
  by (induction lis arbitrary: reg) simp_all

lemma map_of_set_parents:
  "map_of (by_id (set_parents si reg)) x =
     (if id_of reg (si_name si) = Some x
      then map_option (\<lambda>d. d\<lparr>def_subscope_of := List.map_filter (id_of reg) (si_is_subscope_of si)\<rparr>) (map_of (by_id reg) x)
      else map_of (by_id reg) x)"
  by (auto simp: set_parents_def Let_def update_conv split: option.split)

lemma fold_set_parents:
  assumes "\<And>i j. i < j \<Longrightarrow> j < length sis \<Longrightarrow> id_of reg (si_name (sis ! i)) \<noteq> id_of reg (si_name (sis ! j))"
  shows "map_of (by_id (fold set_parents sis reg)) x =
     (case find (\<lambda>si. id_of reg (si_name si) = Some x) sis of
        Some si \<Rightarrow> map_option (\<lambda>d. d\<lparr>def_subscope_of := List.map_filter (id_of reg) (si_is_subscope_of si)\<rparr>) (map_of (by_id reg) x)
      | None \<Rightarrow> map_of (by_id reg) x)"
  using assms
proof (induction sis arbitrary: reg)
  case (Cons si sis)
  let ?reg = "set_parents si reg"
  have f: "id_of ?reg = id_of reg" by (rule id_of_names) simp
  have "id_of ?reg (si_name (sis ! i)) \<noteq> id_of ?reg (si_name (sis ! j))" if "i < j" "j < length sis" for i j
    using Cons.prems [of "Suc i" "Suc j"] that by (simp add: f)
  note IH = Cons.IH [OF this]
  have "find (\<lambda>si. id_of reg (si_name si) = Some x) sis = None" if "id_of reg (si_name si) = Some x"
  proof -
    have "id_of reg (si_name sj) \<noteq> Some x" if sj: "sj \<in> set sis" for sj
    proof -
      obtain j where "j < length sis" "sj = sis ! j" using sj by (metis in_set_conv_nth)
      then show ?thesis using Cons.prems [of 0 "Suc j"] \<open>id_of reg (si_name si) = Some x\<close> by simp
    qed
    then show ?thesis by (auto simp: find_None_iff)
  qed
  then show ?case by (auto simp: IH f map_of_set_parents split: option.split)
qed simp

text \<open>The link \<^verbatim>\<open>from_config\<close> builds for an input, by the names of a registry.\<close>

definition link_of :: "scope_registry \<Rightarrow> link_input \<Rightarrow> scope_link" where
  "link_of reg li =
     \<lparr>link_valid_scopes = map (\<lambda>n. case id_of reg n of Some sid \<Rightarrow> sid | None \<Rightarrow> SCOPE_ANY) (li_input_scopes li),
      link_target = Option.bind (li_output_scope li) (id_of reg), link_ignore_keys = []\<rparr>"

lemma add_link_eq:
  "add_link li reg =
     (case li_prefix li of
        Some p \<Rightarrow> reg\<lparr>reg_prefix_links := reg_prefix_links reg @ [(to_ascii_lowercase p, link_of reg li)]\<rparr>
      | None \<Rightarrow> reg\<lparr>reg_links := AList.update (to_ascii_lowercase (li_name li)) (link_of reg li) (reg_links reg)\<rparr>)"
  unfolding add_link_def link_of_def Let_def ..

lemma map_filter_append: "List.map_filter f (xs @ ys) = List.map_filter f xs @ List.map_filter f ys"
  by (simp add: List.map_filter_def)

lemma fold_add_link:
  "map_of (reg_links (fold add_link lis reg)) k =
     (case find (\<lambda>li. li_prefix li = None \<and> to_ascii_lowercase (li_name li) = k) (rev lis) of
        Some li \<Rightarrow> Some (link_of reg li) | None \<Rightarrow> map_of (reg_links reg) k)"
  "reg_prefix_links (fold add_link lis reg) = reg_prefix_links reg
     @ List.map_filter (\<lambda>li. map_option (\<lambda>p. (to_ascii_lowercase p, link_of reg li)) (li_prefix li)) lis"
proof (induction lis rule: rev_induct)
  case (snoc li lis)
  case 1
  have "id_of (fold add_link lis reg) = id_of reg" by (rule id_of_names) simp
  then have l: "link_of (fold add_link lis reg) li = link_of reg li" by (simp add: link_of_def)
  show ?case using snoc(1) add_link_eq [of li "fold add_link lis reg", unfolded l]
    by (auto simp: update_conv split: option.split)
next
  case (snoc li lis)
  case 2
  have "id_of (fold add_link lis reg) = id_of reg" by (rule id_of_names) simp
  then have l: "link_of (fold add_link lis reg) li = link_of reg li" by (simp add: link_of_def)
  show ?case using snoc(2) add_link_eq [of li "fold add_link lis reg", unfolded l]
    by (auto simp: List.map_filter_simps map_filter_append split: option.split)
qed (simp_all add: List.map_filter_simps)

subsection \<open>Group links\<close>

lemma map_of_or_insert: "map_of (or_insert k v al) x = (case map_of al x of Some y \<Rightarrow> Some y | None \<Rightarrow> if x = k then Some v else None)"
  by (auto simp: or_insert_def update_conv split: option.split)

definition group_entries :: "(ustr \<times> scope_id) list \<Rightarrow> (ustr \<times> scope_link) list" where
  "group_entries xs = concat (map (\<lambda>(alias, sid). map (\<lambda>pre. (pre @ alias, group_link sid)) group_prefixes) xs)"

lemma fold_or_insert:
  "map_of (fold (\<lambda>(k, v). or_insert k v) L al) x = (case map_of al x of Some y \<Rightarrow> Some y | None \<Rightarrow> map_of L x)"
  by (induction L arbitrary: al) (auto simp: map_of_or_insert split: option.splits)

lemma fold_add_group_links:
  "fold add_group_links xs al = fold (\<lambda>(k, v). or_insert k v) (group_entries xs) al"
  by (induction xs arbitrary: al) (auto simp: group_entries_def add_group_links_def fold_map comp_def)

subsection \<open>The built registry\<close>

lemma registry_default_fields [simp]:
  "by_id registry_default = []" "by_name registry_default = []" "reg_links registry_default = []"
  "reg_prefix_links registry_default = []"
  by (simp_all add: registry_default_def)

lemma from_config_fields:
  assumes "inputs \<noteq> []" and "fold register_scope inputs (registry_default, 100) = (reg1, n)"
  defines "reg2 \<equiv> fold set_parents inputs reg1"
  shows "by_name (from_config iter inputs lis) = by_name reg1"
    and "by_id (from_config iter inputs lis) = by_id reg2"
    and "reg_prefix_links (from_config iter inputs lis) = reg_prefix_links (fold add_link lis reg2)"
    and "reg_links (from_config iter inputs lis)
      = fold (\<lambda>(k, v). or_insert k v) (group_entries (scope_aliases (iter (by_id reg2)))) (reg_links (fold add_link lis reg2))"
  using assms(1,2) by (simp_all add: from_config_def Let_def reg2_def fold_add_group_links)

lemma fold_register_frame:
  "fold register_scope inputs (reg, n) = (reg', n') \<Longrightarrow>
     reg_links reg' = reg_links reg \<and> reg_prefix_links reg' = reg_prefix_links reg
     \<and> (lower_keys to_ascii_lowercase (by_name reg) \<longrightarrow> lower_keys to_ascii_lowercase (by_name reg'))"
proof (induction inputs arbitrary: reg n)
  case (Cons si inputs)
  obtain reg1 n1 where r: "register_scope si (reg, n) = (reg1, n1)" by fastforce
  with Cons.prems have "fold register_scope inputs (reg1, n1) = (reg', n')" by simp
  from Cons.IH [OF this] register_scope_frame [OF r] register_scope_lower [OF r] show ?case by auto
qed simp

lemma from_config_lower: "lower_keys to_ascii_lowercase (by_name (from_config iter inputs lis))"
proof (cases "inputs = []")
  case True
  then show ?thesis by (simp add: from_config_def registry_default_def lower_keys_def)
next
  case False
  obtain reg1 n where r: "fold register_scope inputs (registry_default, 100) = (reg1, n)" by fastforce
  have "lower_keys to_ascii_lowercase (by_name registry_default)" by (simp add: registry_default_def lower_keys_def)
  with fold_register_frame [OF r] from_config_fields(1) [OF False r] show ?thesis by simp
qed

lemma from_config_plain:
  assumes "inputs \<noteq> []" "list_all plain_input inputs" "disjoint_inputs inputs"
  shows "i < length inputs \<Longrightarrow> k \<in> set (spellings (inputs ! i)) \<Longrightarrow>
      id_of_key (from_config iter inputs lis) k = Some (100 + i)"
    and "map_of (by_id (from_config iter inputs lis)) =
      (\<lambda>x. if 100 \<le> x \<and> x < 100 + length inputs
           then Some ((plain_def (inputs ! (x - 100)))\<lparr>def_subscope_of :=
             List.map_filter (id_of (from_config iter inputs lis)) (si_is_subscope_of (inputs ! (x - 100)))\<rparr>)
           else None)"
proof -
  obtain reg1 where r: "fold register_scope inputs (registry_default, 100) = (reg1, 100 + length inputs)"
    and names: "\<forall>i < length inputs. \<forall>k \<in> set (spellings (inputs ! i)). map_of (by_name reg1) k = Some (100 + i)"
    and ids0: "map_of (by_id reg1) = (\<lambda>x. if 100 \<le> x \<and> x < 100 + length inputs
        then Some (plain_def (inputs ! (x - 100))) else map_of (by_id registry_default) x)"
    using fold_register [OF assms(2,3), of 100 registry_default] by blast
  have ids: "map_of (by_id reg1) x = (if 100 \<le> x \<and> x < 100 + length inputs
        then Some (plain_def (inputs ! (x - 100))) else None)" for x
    by (simp add: ids0)
  note fields = from_config_fields [OF assms(1) r]
  have f: "id_of (from_config iter inputs lis) = id_of reg1" by (rule id_of_names) (rule fields(1))
  have res: "k \<notin> set reserved" if "i < length inputs" "k \<in> set (spellings (inputs ! i))" for i k
    using assms(2) that by (auto simp: list_all_length plain_input_def spellings_def)
  have key: "id_of_key (from_config iter inputs lis) k = Some (100 + i)"
    if "i < length inputs" "k \<in> set (spellings (inputs ! i))" for i k
    using res [OF that] names that unfolding id_of_key_def fields(1) by (auto simp: reserved_def)
  then show "i < length inputs \<Longrightarrow> k \<in> set (spellings (inputs ! i)) \<Longrightarrow>
      id_of_key (from_config iter inputs lis) k = Some (100 + i)" .
  have name: "id_of reg1 (si_name (inputs ! i)) = Some (100 + i)" if "i < length inputs" for i
  proof -
    have "trim (si_name (inputs ! i)) = si_name (inputs ! i)"
      using assms(2) that by (simp add: list_all_length plain_input_def)
    moreover have "to_ascii_lowercase (si_name (inputs ! i)) \<in> set (spellings (inputs ! i))"
      by (simp add: spellings_def)
    ultimately show ?thesis
      using id_of_lower [OF from_config_lower, of iter inputs lis "si_name (inputs ! i)"] key [OF that] by (simp add: f)
  qed
  have find: "find (\<lambda>si. id_of reg1 (si_name si) = Some x) inputs =
      (if 100 \<le> x \<and> x < 100 + length inputs then Some (inputs ! (x - 100)) else None)" for x
  proof (cases "100 \<le> x \<and> x < 100 + length inputs")
    case True
    then have "x - 100 < length inputs \<and> id_of reg1 (si_name (inputs ! (x - 100))) = Some x
        \<and> (\<forall>j < x - 100. id_of reg1 (si_name (inputs ! j)) \<noteq> Some x)"
      using name by auto
    then have "find (\<lambda>si. id_of reg1 (si_name si) = Some x) inputs = Some (inputs ! (x - 100))"
      by (auto simp: find_Some_iff)
    with True show ?thesis by simp
  next
    case False
    then have "id_of reg1 (si_name si) \<noteq> Some x" if "si \<in> set inputs" for si
      using that name by (auto simp: in_set_conv_nth)
    then have "find (\<lambda>si. id_of reg1 (si_name si) = Some x) inputs = None" by (auto simp: find_None_iff)
    with False show ?thesis by simp
  qed
  have "map_of (by_id (fold set_parents inputs reg1)) x =
     (case find (\<lambda>si. id_of reg1 (si_name si) = Some x) inputs of
        Some si \<Rightarrow> map_option (\<lambda>d. d\<lparr>def_subscope_of := List.map_filter (id_of reg1) (si_is_subscope_of si)\<rparr>) (map_of (by_id reg1) x)
      | None \<Rightarrow> map_of (by_id reg1) x)" for x
    by (rule fold_set_parents) (simp add: name)
  then show "map_of (by_id (from_config iter inputs lis)) =
      (\<lambda>x. if 100 \<le> x \<and> x < 100 + length inputs
           then Some ((plain_def (inputs ! (x - 100)))\<lparr>def_subscope_of :=
             List.map_filter (id_of (from_config iter inputs lis)) (si_is_subscope_of (inputs ! (x - 100)))\<rparr>)
           else None)"
    by (auto simp: fields(2) f find ids)
qed

subsection \<open>Independence of the walk\<close>

lemma map_of_functional:
  assumes "set xs = set ys" and "\<And>k v w. (k, v) \<in> set xs \<Longrightarrow> (k, w) \<in> set xs \<Longrightarrow> v = w"
  shows "map_of xs k = map_of ys k"
proof (cases "map_of xs k")
  case None
  then have "map_of ys k = None" using assms(1) by (simp add: map_of_eq_None_iff)
  with None show ?thesis by simp
next
  case (Some v)
  then have v: "(k, v) \<in> set xs" by (rule map_of_SomeD)
  with assms(1) have "map_of ys k \<noteq> None" by (metis weak_map_of_SomeI option.discI)
  then obtain w where w: "map_of ys k = Some w" by blast
  then have "(k, w) \<in> set xs" using map_of_SomeD assms(1) by fast
  with Some w assms(2) [OF v] show ?thesis by simp
qed

lemma register_scope_distinct:
  "distinct (map fst (by_id reg)) \<Longrightarrow> register_scope si (reg, n) = (reg', n') \<Longrightarrow> distinct (map fst (by_id reg'))"
  by (auto simp: register_scope_def Let_def distinct_update split: if_splits prod.splits)

lemma fold_register_distinct:
  "distinct (map fst (by_id reg)) \<Longrightarrow> fold register_scope sis (reg, n) = (reg', n') \<Longrightarrow> distinct (map fst (by_id reg'))"
proof (induction sis arbitrary: reg n)
  case (Cons si sis)
  obtain reg1 n1 where r: "register_scope si (reg, n) = (reg1, n1)" by fastforce
  with Cons register_scope_distinct [OF Cons.prems(1) r] show ?case by simp
qed simp

lemma fold_set_parents_distinct:
  "distinct (map fst (by_id reg)) \<Longrightarrow> distinct (map fst (by_id (fold set_parents sis reg)))"
proof (induction sis arbitrary: reg)
  case (Cons si sis)
  have "distinct (map fst (by_id (set_parents si reg)))"
    using Cons.prems by (simp add: set_parents_def Let_def distinct_update split: option.split)
  with Cons.IH show ?case by simp
qed simp

lemma from_config_distinct: "distinct (map fst (by_id (from_config iter inputs lis)))"
proof (cases "inputs = []")
  case False
  obtain reg1 n where r: "fold register_scope inputs (registry_default, 100) = (reg1, n)" by fastforce
  from fold_register_distinct [OF _ r] have "distinct (map fst (by_id reg1))" by simp
  from fold_set_parents_distinct [OF this] show ?thesis by (simp add: from_config_fields(2) [OF False r])
qed (simp add: from_config_def)

lemma group_prefix_unique:
  assumes "pre \<in> set group_prefixes" "pre' \<in> set group_prefixes" "pre @ a = pre' @ b"
  shows "pre = pre' \<and> a = b"
  using assms by (auto simp: group_prefixes_def)

lemma group_entries_functional:
  assumes "\<And>a x y. (a, x) \<in> set xs \<Longrightarrow> (a, y) \<in> set xs \<Longrightarrow> x = y"
    and "(k, v) \<in> set (group_entries xs)" "(k, w) \<in> set (group_entries xs)"
  shows "v = w"
proof -
  from assms(2) obtain a x pre where 1: "(a, x) \<in> set xs" "pre \<in> set group_prefixes" "k = pre @ a" "v = group_link x"
    by (auto simp: group_entries_def)
  from assms(3) obtain b y pre' where 2: "(b, y) \<in> set xs" "pre' \<in> set group_prefixes" "k = pre' @ b" "w = group_link y"
    by (auto simp: group_entries_def)
  from group_prefix_unique [OF 1(2) 2(2)] 1(3) 2(3) have "a = b" by simp
  with assms(1) 1 2 show ?thesis by auto
qed

lemma config_alias_unique:
  assumes "inputs \<noteq> []" "list_all plain_input inputs" "disjoint_inputs inputs"
    and "set defs = set (by_id (from_config iter inputs lis))"
    and "(a, x) \<in> set (scope_aliases defs)" "(a, y) \<in> set (scope_aliases defs)"
  shows "x = y"
proof -
  let ?reg = "from_config iter inputs lis"
  have at: "\<exists>i < length inputs. z = 100 + i \<and> a \<in> set (spellings (inputs ! i))"
    if z: "(a, z) \<in> set (scope_aliases defs)" for z
  proof -
    from z obtain d c where d: "(z, d) \<in> set defs" "c \<in> set (def_name d # def_aliases d)" "a = to_ascii_lowercase c"
      by (fastforce simp: scope_aliases_def split: if_splits)
    with assms(4) from_config_distinct have "map_of (by_id ?reg) z = Some d" by simp
    then have "100 \<le> z" "z < 100 + length inputs" "def_name d = si_name (inputs ! (z - 100))"
      "def_aliases d = si_aliases (inputs ! (z - 100))"
      using from_config_plain(2) [OF assms(1,2,3), of iter lis] by (auto simp: plain_def_def split: if_splits)
    with d have "z - 100 < length inputs \<and> z = 100 + (z - 100) \<and> a \<in> set (spellings (inputs ! (z - 100)))"
      by (auto simp: spellings_def)
    then show ?thesis by blast
  qed
  from at [OF assms(5)] obtain i where i: "i < length inputs" "x = 100 + i" "a \<in> set (spellings (inputs ! i))" by blast
  from at [OF assms(6)] obtain j where j: "j < length inputs" "y = 100 + j" "a \<in> set (spellings (inputs ! j))" by blast
  have "i = j" using assms(3) i j unfolding disjoint_inputs_def by (metis disjoint_iff linorder_neqE_nat)
  with i j show ?thesis by simp
qed

section \<open>Properties\<close>

text \<open>
  C30. \<^verbatim>\<open>is_subscope_or_eq\<close> always returns, also when the subscope declarations form a cycle, and
  it decides reachability: the target is the current scope, or an ancestor of it by any number
  of subscope declarations, or one of the two is the scope "any".
\<close>

theorem is_subscope_iff:
  "is_subscope_or_eq reg current target \<longleftrightarrow>
     current = SCOPE_ANY \<or> target = SCOPE_ANY \<or> (current, target) \<in> (parents_rel reg)\<^sup>*"
  by (rule is_subscope_reach)


definition sample_scopes :: "scope_input list" where
  "sample_scopes =
     [\<lparr>si_name = str ''Country'', si_aliases = [str ''country''], si_is_subscope_of = []\<rparr>,
      \<lparr>si_name = str ''Province'', si_aliases = [str ''province'', str ''land''], si_is_subscope_of = [str ''Country'']\<rparr>]"

lemma sample_scopes_ok: "sample_scopes \<noteq> []" "list_all plain_input sample_scopes" "disjoint_inputs sample_scopes"
proof -
  show "list_all plain_input sample_scopes" by code_simp
  have "disjoint_inputs []" by (simp add: disjoint_inputs_def)
  then show "disjoint_inputs sample_scopes"
    by (simp add: sample_scopes_def disjoint_Cons spellings_def ascii_lower_def is_ascii_uppercase_def)
qed (simp add: sample_scopes_def)


text \<open>
  The order of the hash map never shows: with inputs that share no spelling, however the
  walk over the scopes is ordered, \<^verbatim>\<open>from_config\<close> builds the same registry.
\<close>

theorem config_order_irrelevant:
  assumes "list_all plain_input inputs" and "disjoint_inputs inputs"
    and "\<And>xs. mset (iter xs) = mset xs" and "\<And>xs. mset (iter' xs) = mset xs"
  shows "map_of (reg_links (from_config iter inputs lis)) = map_of (reg_links (from_config iter' inputs lis))
    \<and> by_id (from_config iter inputs lis) = by_id (from_config iter' inputs lis)
    \<and> by_name (from_config iter inputs lis) = by_name (from_config iter' inputs lis)
    \<and> reg_prefix_links (from_config iter inputs lis) = reg_prefix_links (from_config iter' inputs lis)"
proof (cases "inputs = []")
  case False
  obtain reg1 n where r: "fold register_scope inputs (registry_default, 100) = (reg1, n)" by fastforce
  note f = from_config_fields [OF False r]
  let ?B = "by_id (fold set_parents inputs reg1)"
  have sets: "set (iter ?B) = set ?B" "set (iter' ?B) = set ?B" using assms(3,4) by (metis set_mset_mset)+
  have "set (group_entries (scope_aliases (iter ?B))) = set (group_entries (scope_aliases (iter' ?B)))"
    by (simp add: group_entries_def scope_aliases_def sets)
  then have "map_of (group_entries (scope_aliases (iter ?B))) k = map_of (group_entries (scope_aliases (iter' ?B))) k" for k
  proof (rule map_of_functional)
    fix k v w assume "(k, v) \<in> set (group_entries (scope_aliases (iter ?B)))" "(k, w) \<in> set (group_entries (scope_aliases (iter ?B)))"
    then show "v = w"
      by (rule group_entries_functional [rotated])
        (rule config_alias_unique [OF False assms(1,2), of _ iter lis], auto simp: f sets)
  qed
  then have "map_of (reg_links (from_config iter inputs lis)) = map_of (reg_links (from_config iter' inputs lis))"
    by (intro ext) (simp add: f(4) fold_or_insert cong: option.case_cong)
  then show ?thesis by (simp add: f)
qed (simp add: from_config_def)

theorem config_order_irrelevant_witness:
  "map_of (reg_links (from_config rev sample_scopes [])) = map_of (reg_links (from_config (\<lambda>xs. xs) sample_scopes []))"
  using config_order_irrelevant [OF sample_scopes_ok(2,3), of rev "\<lambda>xs. xs" "[]"] by simp

text \<open>
  A link lookup finds the last declared link of that name, with its scopes and target
  resolved, and only without one an iteration link (\<^verbatim>\<open>every_\<close>, \<^verbatim>\<open>random_\<close>, \<^verbatim>\<open>any_\<close>,
  \<^verbatim>\<open>all_\<close>) of a scope; links with a prefix are kept in the order of the configuration.
\<close>

theorem config_links:
  assumes "inputs \<noteq> []"
  shows "map_of (reg_links (from_config iter inputs lis)) k =
     (case find (\<lambda>li. li_prefix li = None \<and> to_ascii_lowercase (li_name li) = k) (rev lis) of
        Some li \<Rightarrow> Some (link_of (from_config iter inputs lis) li)
      | None \<Rightarrow> map_of (group_entries (scope_aliases (iter (by_id (from_config iter inputs lis))))) k)
    \<and> reg_prefix_links (from_config iter inputs lis)
      = List.map_filter (\<lambda>li. map_option (\<lambda>p. (to_ascii_lowercase p, link_of (from_config iter inputs lis) li)) (li_prefix li)) lis"
proof -
  obtain reg1 n where r: "fold register_scope inputs (registry_default, 100) = (reg1, n)" by fastforce
  note f = from_config_fields [OF assms r]
  let ?reg2 = "fold set_parents inputs reg1"
  have "reg_links reg1 = []" "reg_prefix_links reg1 = []" using fold_register_frame [OF r] by simp_all
  moreover have "id_of (from_config iter inputs lis) = id_of ?reg2" by (rule id_of_names) (simp add: f)
  then have "link_of (from_config iter inputs lis) = link_of ?reg2" by (intro ext) (simp add: link_of_def)
  ultimately show ?thesis
    by (auto simp: f fold_or_insert fold_add_link split: option.split)
qed

theorem config_links_witness:
  "map_of (reg_links (from_config rev sample_scopes [])) (str ''every_land'')
     = map_of (group_entries (scope_aliases (rev (by_id (from_config rev sample_scopes []))))) (str ''every_land'')"
  using config_links [OF sample_scopes_ok(1), of rev "[]" "str ''every_land''"] by simp

end
