(* ===== verification/Scope_Engine.thy ===== *)
theory Scope_Engine
  imports Scope_Registry
begin

text \<open>
  The scope context of a script position, \<^verbatim>\<open>engine/crates/game/src/scope_engine/engine.rs\<close>:
  the stack of entered scopes, the root and FROM scopes, and the moves between them.
  A stack is a list with the current scope last.
\<close>

section \<open>State\<close>

datatype scope_result =
    NewScope scope_id "ustr list"
  | WrongScope (wrong_command: ustr) scope_id "scope_id list"
  | VarFound
  | VarNotFound ustr
  | ValueFound
  | NotFound
  | AnyScope

record saved_context =
  saved_root :: scope_id
  saved_scopes :: "scope_id list"
  saved_from :: "scope_id list"

record scope_context =
  ctx_root :: scope_id
  ctx_scopes :: "scope_id list"
  ctx_from :: "scope_id list"
  ctx_registry :: scope_registry

definition from_registry :: "scope_registry \<Rightarrow> scope_id \<Rightarrow> scope_context" where
  "from_registry reg root = \<lparr>ctx_root = root, ctx_scopes = [root], ctx_from = [], ctx_registry = reg\<rparr>"

definition ScopeContext_new :: "scope_id \<Rightarrow> scope_context" where
  "ScopeContext_new root = from_registry registry_default root"

definition current :: "scope_context \<Rightarrow> scope_id" where
  "current ctx = (if ctx_scopes ctx = [] then ctx_root ctx else last (ctx_scopes ctx))"

definition scope_depth :: "scope_context \<Rightarrow> nat" where
  "scope_depth ctx = length (ctx_scopes ctx)"

definition push_scope :: "scope_id \<Rightarrow> scope_context \<Rightarrow> scope_context" where
  "push_scope s ctx = ctx\<lparr>ctx_scopes := ctx_scopes ctx @ [s]\<rparr>"

definition get_from :: "scope_context \<Rightarrow> nat \<Rightarrow> scope_id" where
  "get_from ctx i = (if i \<ge> 1 \<and> length (ctx_from ctx) \<ge> i then ctx_from ctx ! (i - 1) else SCOPE_ANY)"

definition save_context :: "scope_context \<Rightarrow> saved_context" where
  "save_context ctx =
     \<lparr>saved_root = ctx_root ctx, saved_scopes = ctx_scopes ctx, saved_from = ctx_from ctx\<rparr>"

definition restore_context :: "saved_context \<Rightarrow> scope_context \<Rightarrow> scope_context" where
  "restore_context s ctx =
     ctx\<lparr>ctx_root := saved_root s, ctx_scopes := saved_scopes s, ctx_from := saved_from s\<rparr>"

text \<open>The closure \<^verbatim>\<open>resolve\<close> of \<^verbatim>\<open>apply_replace_scope\<close>.\<close>

definition resolve_name :: "scope_registry \<Rightarrow> ustr \<Rightarrow> scope_id option" where
  "resolve_name reg name = (case id_of reg name of Some sid \<Rightarrow> Some sid | None \<Rightarrow> parse_u32 (trim name))"

definition apply_replace_scope ::
  "ustr option \<Rightarrow> ustr option \<Rightarrow> ustr list \<Rightarrow> ustr list \<Rightarrow> scope_context \<Rightarrow> scope_context" where
  "apply_replace_scope root this froms prevs ctx =
     (let resolve = resolve_name (ctx_registry ctx);
          root_id = Option.bind root resolve;
          this_id = Option.bind this resolve;
          from_ids = List.map_filter resolve froms;
          prev_ids = List.map_filter resolve prevs;
          ctx1 = (case root_id of Some r \<Rightarrow> ctx\<lparr>ctx_root := r\<rparr> | None \<Rightarrow> ctx);
          ctx2 = (case this_id of
                    Some t \<Rightarrow> if ctx_scopes ctx1 = [] then ctx1
                              else ctx1\<lparr>ctx_scopes := butlast (ctx_scopes ctx1) @ [t]\<rparr>
                  | None \<Rightarrow> ctx1);
          ctx3 = (if from_ids = [] then ctx2 else ctx2\<lparr>ctx_from := from_ids\<rparr>)
      in if prev_ids = [] then ctx3
         else ctx3\<lparr>ctx_scopes := prev_ids @ [current ctx3]\<rparr>)"

section \<open>Moves\<close>

fun pop_scopes :: "nat \<Rightarrow> scope_id list \<Rightarrow> scope_id list" where
  "pop_scopes 0 scopes = scopes"
| "pop_scopes (Suc n) scopes = pop_scopes n (if length scopes > 1 then butlast scopes else scopes)"

definition apply_prev :: "nat \<Rightarrow> scope_context \<Rightarrow> scope_result \<times> scope_context" where
  "apply_prev hops ctx =
     (let ctx1 = ctx\<lparr>ctx_scopes := pop_scopes hops (ctx_scopes ctx)\<rparr> in (NewScope (current ctx1) [], ctx1))"

definition apply_from :: "nat \<Rightarrow> scope_context \<Rightarrow> scope_result \<times> scope_context" where
  "apply_from i ctx = (let scope = get_from ctx i in (NewScope scope [], push_scope scope ctx))"

definition block_keywords :: "ustr list" where
  "block_keywords = map str [''and'', ''or'', ''not'', ''nor'', ''nand'', ''if'', ''else'', ''else_if'',
     ''hidden_effect'', ''hidden_trigger'', ''limit'', ''trigger_if'', ''trigger_else'', ''trigger_else_if'']"

definition resolve_meta_keyword :: "ustr \<Rightarrow> scope_context \<Rightarrow> (scope_result \<times> scope_context) option" where
  "resolve_meta_keyword lower ctx =
     (if lower = str ''this'' \<or> lower = str ''self''
      then Some (NewScope (current ctx) [], push_scope (current ctx) ctx)
      else if lower = str ''root'' then Some (NewScope (ctx_root ctx) [], push_scope (ctx_root ctx) ctx)
      else if lower = str ''prev'' then Some (apply_prev 1 ctx)
      else if lower = str ''prevprev'' \<or> lower = str ''prev_prev'' then Some (apply_prev 2 ctx)
      else if lower = str ''prevprevprev'' \<or> lower = str ''prev_prev_prev'' then Some (apply_prev 3 ctx)
      else if lower = str ''prevprevprevprev'' \<or> lower = str ''prev_prev_prev_prev'' then Some (apply_prev 4 ctx)
      else if lower = str ''from'' then Some (apply_from 1 ctx)
      else if lower = str ''fromfrom'' then Some (apply_from 2 ctx)
      else if lower = str ''fromfromfrom'' then Some (apply_from 3 ctx)
      else if lower = str ''fromfromfromfrom'' then Some (apply_from 4 ctx)
      else if lower = str ''root_from'' then Some (apply_from 1 (push_scope (ctx_root ctx) ctx))
      else if lower = str ''root_fromfrom'' then Some (apply_from 2 (push_scope (ctx_root ctx) ctx))
      else if lower = str ''root_fromfromfrom'' then Some (apply_from 3 (push_scope (ctx_root ctx) ctx))
      else if lower = str ''root_fromfromfromfrom'' then Some (apply_from 4 (push_scope (ctx_root ctx) ctx))
      else if lower \<in> set block_keywords then Some (NewScope (current ctx) [], ctx)
      else None)"

definition resolve_single_with_lower :: "ustr \<Rightarrow> ustr \<Rightarrow> scope_context \<Rightarrow> scope_result \<times> scope_context" where
  "resolve_single_with_lower key lower ctx =
     (if starts_with lower (str ''@'') then (VarFound, push_scope SCOPE_ANY ctx)
      else
        case resolve_meta_keyword lower ctx of
          Some result \<Rightarrow> result
        | None \<Rightarrow>
           (case map_of (reg_links (ctx_registry ctx)) lower of
              Some link \<Rightarrow>
                if current ctx = SCOPE_ANY \<or> link_valid_scopes link = []
                   \<or> list_ex (\<lambda>s. is_subscope_or_eq (ctx_registry ctx) (current ctx) s) (link_valid_scopes link)
                then
                  (case link_target link of
                     Some target \<Rightarrow> (NewScope target (link_ignore_keys link), push_scope target ctx)
                   | None \<Rightarrow> (ValueFound, ctx))
                else (WrongScope key (current ctx) (link_valid_scopes link), ctx)
            | None \<Rightarrow> (NotFound, ctx)))"

definition lower_key :: "ustr \<Rightarrow> ustr" where
  "lower_key key = (if list_ex is_ascii_uppercase key then to_ascii_lowercase key else key)"

definition resolve_single :: "ustr \<Rightarrow> scope_context \<Rightarrow> scope_result \<times> scope_context" where
  "resolve_single key ctx = resolve_single_with_lower key (lower_key key) ctx"

text \<open>
  The loop of \<^verbatim>\<open>change_scope_dotted\<close>.  A \<^verbatim>\<open>VarFound\<close> or \<^verbatim>\<open>ValueFound\<close> ends it with that
  result whether or not it is the last segment's.
\<close>

fun dotted_loop :: "scope_result \<Rightarrow> ustr list \<Rightarrow> scope_context \<Rightarrow> scope_result \<times> scope_context" where
  "dotted_loop last_result [] ctx = (last_result, ctx)"
| "dotted_loop last_result (seg # segs) ctx =
     (let (result, ctx1) = resolve_single seg ctx in
      case result of
        NewScope s keys \<Rightarrow> dotted_loop result segs ctx1
      | AnyScope \<Rightarrow> dotted_loop result segs ctx1
      | _ \<Rightarrow> (result, ctx1))"

definition change_scope_dotted :: "ustr \<Rightarrow> scope_context \<Rightarrow> scope_result \<times> scope_context" where
  "change_scope_dotted key ctx = dotted_loop NotFound (split_char (asc CHR ''.'') key) ctx"

definition strip_hidden :: "ustr \<Rightarrow> ustr" where
  "strip_hidden key =
     (case take_bytes 7 key of
        Some p \<Rightarrow> if eq_ignore_ascii_case p (str ''hidden:'') then drop (length p) key else key
      | None \<Rightarrow> key)"

definition data_prefixes :: "ustr list" where
  "data_prefixes = map str [''event_target:'', ''parameter:'', ''scope:'', ''@'']"

definition change_scope :: "ustr \<Rightarrow> scope_context \<Rightarrow> scope_result \<times> scope_context" where
  "change_scope key0 ctx =
     (let key = strip_hidden key0;
          lower = lower_key key
      in case (if asc CHR '':'' \<in> set lower
               then find (\<lambda>(pfx, link). starts_with lower pfx) (reg_prefix_links (ctx_registry ctx))
               else None) of
           Some (pfx, link) \<Rightarrow>
             (case link_target link of
                Some target \<Rightarrow> (NewScope target (link_ignore_keys link), push_scope target ctx)
              | None \<Rightarrow> (AnyScope, push_scope SCOPE_ANY ctx))
         | None \<Rightarrow>
             if list_ex (\<lambda>p. starts_with lower p) data_prefixes then (AnyScope, push_scope SCOPE_ANY ctx)
             else if asc CHR ''.'' \<in> set key then change_scope_dotted key ctx
             else resolve_single_with_lower key lower ctx)"

section \<open>What a move does\<close>

lemma current_push [simp]: "current (push_scope s ctx) = s"
  by (simp add: current_def push_scope_def)

lemma push_scope_fields [simp]:
  "ctx_root (push_scope s ctx) = ctx_root ctx" "ctx_from (push_scope s ctx) = ctx_from ctx"
  "ctx_registry (push_scope s ctx) = ctx_registry ctx" "ctx_scopes (push_scope s ctx) = ctx_scopes ctx @ [s]"
  by (simp_all add: push_scope_def)

definition same_frame :: "scope_context \<Rightarrow> scope_context \<Rightarrow> bool" where
  "same_frame ctx ctx' \<longleftrightarrow> ctx_root ctx' = ctx_root ctx \<and> ctx_from ctx' = ctx_from ctx
     \<and> ctx_registry ctx' = ctx_registry ctx \<and> (ctx_scopes ctx \<noteq> [] \<longrightarrow> ctx_scopes ctx' \<noteq> [])"

lemma same_frame_refl [simp]: "same_frame ctx ctx"
  by (simp add: same_frame_def)

lemma same_frame_trans: "same_frame a b \<Longrightarrow> same_frame b c \<Longrightarrow> same_frame a c"
  by (simp add: same_frame_def)

lemma same_frame_push [simp]: "same_frame ctx (push_scope s ctx)"
  by (simp add: same_frame_def)

text \<open>A result and the context it leaves.\<close>

fun agrees :: "scope_result \<Rightarrow> scope_context \<Rightarrow> bool" where
  "agrees (NewScope s keys) ctx \<longleftrightarrow> current ctx = s"
| "agrees (WrongScope cmd c expected) ctx \<longleftrightarrow>
     c = current ctx \<and> expected \<noteq> [] \<and> list_all (\<lambda>s. \<not> is_subscope_or_eq (ctx_registry ctx) c s) expected"
| "agrees VarFound ctx \<longleftrightarrow> current ctx = SCOPE_ANY"
| "agrees (VarNotFound v) ctx \<longleftrightarrow> False"
| "agrees AnyScope ctx \<longleftrightarrow> current ctx = SCOPE_ANY"
| "agrees _ ctx \<longleftrightarrow> True"

fun fails :: "scope_result \<Rightarrow> bool" where
  "fails (WrongScope _ _ _) = True"
| "fails NotFound = True"
| "fails ValueFound = True"
| "fails _ = False"

definition sound_move :: "scope_context \<Rightarrow> scope_result \<times> scope_context \<Rightarrow> bool" where
  "sound_move ctx r \<longleftrightarrow> same_frame ctx (snd r) \<and> agrees (fst r) (snd r)"

definition single_move :: "scope_context \<Rightarrow> scope_result \<times> scope_context \<Rightarrow> bool" where
  "single_move ctx r \<longleftrightarrow> sound_move ctx r \<and> (fails (fst r) \<longrightarrow> snd r = ctx)"

lemma pop_scopes_not_Nil: "scopes \<noteq> [] \<Longrightarrow> pop_scopes n scopes \<noteq> []"
proof (induction n arbitrary: scopes)
  case (Suc n)
  have "(if length scopes > 1 then butlast scopes else scopes) \<noteq> []"
    using Suc.prems by (cases scopes rule: rev_cases) auto
  with Suc.IH show ?case by simp
qed simp

lemma single_move_prev [simp]: "single_move ctx (apply_prev n ctx)"
  by (simp add: apply_prev_def Let_def single_move_def sound_move_def same_frame_def pop_scopes_not_Nil)

lemma single_move_from [simp]: "single_move ctx (apply_from n ctx)"
  by (simp add: apply_from_def Let_def single_move_def sound_move_def)

lemma single_move_root_from [simp]: "single_move ctx (apply_from n (push_scope s ctx))"
  by (simp add: apply_from_def Let_def single_move_def sound_move_def same_frame_def)

lemma single_move_new [simp]: "single_move ctx (NewScope s keys, push_scope s ctx)" "single_move ctx (NewScope (current ctx) keys, ctx)"
  "single_move ctx (AnyScope, push_scope SCOPE_ANY ctx)" "single_move ctx (VarFound, push_scope SCOPE_ANY ctx)"
  "single_move ctx (NotFound, ctx)" "single_move ctx (ValueFound, ctx)"
  by (simp_all add: single_move_def sound_move_def)

definition move_if_any :: "scope_context \<Rightarrow> (scope_result \<times> scope_context) option \<Rightarrow> bool" where
  "move_if_any ctx m \<longleftrightarrow> (\<forall>r. m = Some r \<longrightarrow> single_move ctx r)"

lemma move_if_any_simps [simp]: "move_if_any ctx (Some r) = single_move ctx r" "move_if_any ctx None"
  by (simp_all add: move_if_any_def)

lemma move_if_any_if: "move_if_any ctx x \<Longrightarrow> move_if_any ctx y \<Longrightarrow> move_if_any ctx (if c then x else y)"
  by simp

lemma resolve_meta_keyword_move: "resolve_meta_keyword lower ctx = Some r \<Longrightarrow> single_move ctx r"
proof -
  have "move_if_any ctx (resolve_meta_keyword lower ctx)"
    unfolding resolve_meta_keyword_def by (intro move_if_any_if) simp_all
  then show "resolve_meta_keyword lower ctx = Some r \<Longrightarrow> single_move ctx r" by (simp add: move_if_any_def)
qed

lemma resolve_single_with_lower_move: "single_move ctx (resolve_single_with_lower key lower ctx)"
proof (cases "starts_with lower (str ''@'')")
  case True
  then show ?thesis by (simp add: resolve_single_with_lower_def)
next
  case no_at: False
  show ?thesis
  proof (cases "resolve_meta_keyword lower ctx")
    case (Some r)
    with no_at resolve_meta_keyword_move [OF Some] show ?thesis by (simp add: resolve_single_with_lower_def)
  next
    case no_meta: None
    show ?thesis
    proof (cases "map_of (reg_links (ctx_registry ctx)) lower")
      case None
      with no_at no_meta show ?thesis by (simp add: resolve_single_with_lower_def)
    next
      case (Some link)
      let ?valid = "current ctx = SCOPE_ANY \<or> link_valid_scopes link = []
        \<or> list_ex (\<lambda>s. is_subscope_or_eq (ctx_registry ctx) (current ctx) s) (link_valid_scopes link)"
      have r: "resolve_single_with_lower key lower ctx =
         (if ?valid
          then (case link_target link of
                  Some target \<Rightarrow> (NewScope target (link_ignore_keys link), push_scope target ctx)
                | None \<Rightarrow> (ValueFound, ctx))
          else (WrongScope key (current ctx) (link_valid_scopes link), ctx))"
        using no_at no_meta Some by (simp add: resolve_single_with_lower_def)
      show ?thesis unfolding r
        by (auto simp: single_move_def sound_move_def list_all_iff list_ex_iff split: option.split)
    qed
  qed
qed

lemma resolve_single_move: "single_move ctx (resolve_single key ctx)"
  by (simp add: resolve_single_def resolve_single_with_lower_move)

lemma dotted_loop_move:
  "agrees res ctx \<Longrightarrow> sound_move ctx (dotted_loop res segs ctx)"
proof (induction segs arbitrary: res ctx)
  case Nil
  then show ?case by (simp add: sound_move_def)
next
  case (Cons seg segs)
  obtain r ctx1 where r: "resolve_single seg ctx = (r, ctx1)" by fastforce
  then have m: "same_frame ctx ctx1" "agrees r ctx1"
    using resolve_single_move [of ctx seg] by (simp_all add: single_move_def sound_move_def)
  have go: "sound_move ctx (dotted_loop r segs ctx1)"
    using Cons.IH [OF m(2)] m(1) by (auto simp: sound_move_def intro: same_frame_trans)
  have stop: "sound_move ctx (r, ctx1)" using m by (simp add: sound_move_def)
  show ?case using r go stop by (cases r) simp_all
qed

lemma change_scope_cases:
  obtains (move) "single_move ctx (change_scope key ctx)"
    | (dotted) "asc CHR ''.'' \<in> set (strip_hidden key)"
        "change_scope key ctx = change_scope_dotted (strip_hidden key) ctx"
proof -
  let ?key = "strip_hidden key" let ?lower = "lower_key ?key"
  let ?found = "if asc CHR '':'' \<in> set ?lower
    then find (\<lambda>(pfx, link). starts_with ?lower pfx) (reg_prefix_links (ctx_registry ctx)) else None"
  have c: "change_scope key ctx = (case ?found of
      Some (pfx, link) \<Rightarrow>
        (case link_target link of
           Some target \<Rightarrow> (NewScope target (link_ignore_keys link), push_scope target ctx)
         | None \<Rightarrow> (AnyScope, push_scope SCOPE_ANY ctx))
    | None \<Rightarrow>
        if list_ex (\<lambda>p. starts_with ?lower p) data_prefixes then (AnyScope, push_scope SCOPE_ANY ctx)
        else if asc CHR ''.'' \<in> set ?key then change_scope_dotted ?key ctx
        else resolve_single_with_lower ?key ?lower ctx)"
    unfolding change_scope_def Let_def ..
  show thesis
  proof (cases ?found)
    case (Some pl)
    obtain pfx link where pl: "pl = (pfx, link)" by fastforce
    have "single_move ctx (change_scope key ctx)"
      unfolding c Some pl by (simp split: option.split)
    then show thesis by (rule move)
  next
    case None
    show thesis
    proof (cases "\<not> list_ex (\<lambda>p. starts_with ?lower p) data_prefixes \<and> asc CHR ''.'' \<in> set ?key")
      case True
      then have "change_scope key ctx = change_scope_dotted ?key ctx" unfolding c None by simp
      with True show thesis by (auto intro: dotted)
    next
      case False
      then have "single_move ctx (change_scope key ctx)"
        unfolding c None by (auto simp: resolve_single_with_lower_move)
      then show thesis by (rule move)
    qed
  qed
qed

lemma change_scope_move: "sound_move ctx (change_scope key ctx)"
proof (cases rule: change_scope_cases [of ctx key])
  case move
  then show ?thesis by (simp add: single_move_def)
next
  case dotted
  then show ?thesis by (simp add: change_scope_dotted_def dotted_loop_move)
qed

lemma apply_replace_scope_fields:
  "ctx_registry (apply_replace_scope root this froms prevs ctx) = ctx_registry ctx"
  "ctx_scopes ctx \<noteq> [] \<Longrightarrow> ctx_scopes (apply_replace_scope root this froms prevs ctx) \<noteq> []"
  by (auto simp: apply_replace_scope_def Let_def split: option.split)

section \<open>Letter case\<close>

fun unspelled :: "scope_result \<Rightarrow> scope_result" where
  "unspelled (WrongScope cmd c expected) = WrongScope (to_ascii_lowercase cmd) c expected"
| "unspelled r = r"

abbreviation same_move :: "scope_result \<times> scope_context \<Rightarrow> scope_result \<times> scope_context \<Rightarrow> bool" where
  "same_move r r' \<equiv> unspelled (fst r) = unspelled (fst r') \<and> snd r = snd r'"

lemma lower_key [simp]: "lower_key key = to_ascii_lowercase key"
  by (auto simp: lower_key_def list_ex_iff intro!: to_ascii_lowercase_id [symmetric])

lemma resolve_single_case:
  assumes "to_ascii_lowercase k = to_ascii_lowercase k'"
  shows "same_move (resolve_single_with_lower k l ctx) (resolve_single_with_lower k' l ctx)"
  using assms by (auto simp: resolve_single_with_lower_def split: option.split)

lemma dotted_loop_case:
  "map to_ascii_lowercase segs = map to_ascii_lowercase segs' \<Longrightarrow>
   same_move (dotted_loop res segs ctx) (dotted_loop res segs' ctx)"
proof (induction segs arbitrary: segs' res ctx)
  case (Cons s segs)
  then obtain s' segs1 where s': "segs' = s' # segs1" "to_ascii_lowercase s = to_ascii_lowercase s'"
    "map to_ascii_lowercase segs = map to_ascii_lowercase segs1" by (cases segs') auto
  obtain r c where r: "resolve_single s ctx = (r, c)" by fastforce
  obtain r' c' where r': "resolve_single s' ctx = (r', c')" by fastforce
  have same: "unspelled r = unspelled r'" "c = c'"
    using resolve_single_case [OF s'(2), of "to_ascii_lowercase s" ctx] r r' s'(2) by (simp_all add: resolve_single_def)
  show ?case
    using Cons.IH [OF s'(3)] s'(1) same r r' by (cases r; cases r') auto
qed auto

lemma to_ascii_lowercase_eq_length: "to_ascii_lowercase k = to_ascii_lowercase k' \<Longrightarrow> length k = length k'"
  by (metis length_map)

lemma ascii_lower_mem:
  assumes "\<not> is_ascii_uppercase c" "\<not> is_ascii_lowercase c" and "to_ascii_lowercase k = to_ascii_lowercase k'"
  shows "c \<in> set k \<longleftrightarrow> c \<in> set k'"
proof -
  have "c \<in> set s \<longleftrightarrow> c \<in> set (to_ascii_lowercase s)" for s
    using assms(1,2) by (auto simp: ascii_lower_def is_ascii_uppercase_def is_ascii_lowercase_def image_iff split: if_splits)
  then show ?thesis using assms(3) by metis
qed

lemma split_char_lower:
  assumes "\<not> is_ascii_uppercase x" "\<not> is_ascii_lowercase x"
  shows "split_char x (to_ascii_lowercase s) = map to_ascii_lowercase (split_char x s)"
proof (induction s)
  case (Cons c s)
  have "ascii_lower c = x \<longleftrightarrow> c = x"
    using assms by (auto simp: ascii_lower_def is_ascii_uppercase_def is_ascii_lowercase_def)
  with Cons show ?case by (auto split: list.splits)
qed simp

lemma take_bytes_lower: "take_bytes n (to_ascii_lowercase s) = map_option to_ascii_lowercase (take_bytes n s)"
  by (induction n s rule: take_bytes.induct) (auto simp: option.map_comp comp_def)

lemma strip_hidden_lower: "strip_hidden (to_ascii_lowercase k) = to_ascii_lowercase (strip_hidden k)"
  by (auto simp: strip_hidden_def take_bytes_lower eq_ignore_ascii_case_def drop_map split: option.split)

lemma change_scope_case:
  assumes "to_ascii_lowercase k = to_ascii_lowercase k'"
  shows "same_move (change_scope k ctx) (change_scope k' ctx)"
proof -
  let ?a = "strip_hidden k" let ?b = "strip_hidden k'"
  have ab: "to_ascii_lowercase ?a = to_ascii_lowercase ?b"
    using strip_hidden_lower [of k] strip_hidden_lower [of k'] assms by simp
  have dot: "asc CHR ''.'' \<in> set ?a \<longleftrightarrow> asc CHR ''.'' \<in> set ?b"
    by (rule ascii_lower_mem [OF _ _ ab]) (simp_all add: ascii_defs)
  have "map to_ascii_lowercase (split_char (asc CHR ''.'') ?a) = map to_ascii_lowercase (split_char (asc CHR ''.'') ?b)"
  proof -
    have "\<not> is_ascii_uppercase (asc CHR ''.'')" "\<not> is_ascii_lowercase (asc CHR ''.'')" by (simp_all add: ascii_defs)
    from split_char_lower [OF this, of ?a] split_char_lower [OF this, of ?b] show ?thesis by (simp only: ab)
  qed
  then have dotted: "same_move (change_scope_dotted ?a ctx) (change_scope_dotted ?b ctx)"
    unfolding change_scope_dotted_def by (rule dotted_loop_case)
  show ?thesis
    unfolding change_scope_def Let_def lower_key ab dot
    using dotted resolve_single_case [OF ab]
    by (simp split: option.split)
qed

section \<open>Properties\<close>

text \<open>
  The result of \<^verbatim>\<open>change_scope\<close> describes the context it leaves: a new scope is the current
  scope, "any scope" and a found variable leave the current scope "any", and a wrong scope
  names the current scope, of which no expected scope is an ancestor.  Root, FROM scopes and
  registry stay, and a key without a dot that fails leaves the whole context as it was.
\<close>

theorem change_scope_result:
  "agrees (fst (change_scope key ctx)) (snd (change_scope key ctx))
   \<and> ctx_root (snd (change_scope key ctx)) = ctx_root ctx \<and> ctx_from (snd (change_scope key ctx)) = ctx_from ctx
   \<and> ctx_registry (snd (change_scope key ctx)) = ctx_registry ctx
   \<and> (asc CHR ''.'' \<notin> set key \<longrightarrow> fails (fst (change_scope key ctx)) \<longrightarrow> snd (change_scope key ctx) = ctx)"
proof -
  have m: "sound_move ctx (change_scope key ctx)" by (rule change_scope_move)
  have "snd (change_scope key ctx) = ctx" if "asc CHR ''.'' \<notin> set key" "fails (fst (change_scope key ctx))"
  proof (cases rule: change_scope_cases [of ctx key])
    case move
    with that(2) show ?thesis by (simp add: single_move_def)
  next
    case dotted
    have "set (strip_hidden key) \<subseteq> set key"
      by (auto simp: strip_hidden_def split: option.split dest: in_set_dropD)
    with dotted(1) that(1) show ?thesis by blast
  qed
  with m show ?thesis by (simp add: sound_move_def same_frame_def)
qed

theorem change_scope_result_witness:
  "snd (change_scope (str ''nowhere'') (ScopeContext_new 7)) = ScopeContext_new 7
   \<and> fst (change_scope (str ''nowhere'') (ScopeContext_new 7)) = NotFound"
proof -
  have f: "fst (change_scope (str ''nowhere'') (ScopeContext_new 7)) = NotFound" by code_simp
  with change_scope_result [of "str ''nowhere''" "ScopeContext_new 7"] show ?thesis by simp
qed

text \<open>
  Keys are read without regard to the case of ASCII letters: two spellings of a key lead to
  the same context and the same result, up to the spelling a wrong-scope result repeats.
\<close>

theorem change_scope_ignores_case:
  assumes "to_ascii_lowercase k = to_ascii_lowercase k'"
  shows "snd (change_scope k ctx) = snd (change_scope k' ctx)
    \<and> unspelled (fst (change_scope k ctx)) = unspelled (fst (change_scope k' ctx))"
  using change_scope_case [OF assms] by simp

theorem change_scope_ignores_case_witness:
  "snd (change_scope (str ''Hidden:ROOT.prev'') ctx) = snd (change_scope (str ''hidden:root.PREV'') ctx)"
proof -
  have "to_ascii_lowercase (str ''Hidden:ROOT.prev'') = to_ascii_lowercase (str ''hidden:root.PREV'')"
    by code_simp
  from change_scope_ignores_case [OF this] show ?thesis by blast
qed

text \<open>
  Probing is free of effects: saving a context, resolving any key in it and restoring gives
  back the very context.
\<close>

theorem change_scope_probe:
  "restore_context (save_context ctx) (snd (change_scope key ctx)) = ctx"
  using change_scope_move [of ctx key]
  by (simp add: sound_move_def same_frame_def restore_context_def save_context_def)

text \<open>
  A dotted key that fails does change the context: \<^verbatim>\<open>owner.nowhere\<close>, with \<^verbatim>\<open>owner\<close> a link,
  is not found, and the scope of \<^verbatim>\<open>owner\<close> stays pushed.
\<close>

definition owner_registry :: scope_registry where
  "owner_registry = from_config (\<lambda>xs. xs) sample_scopes
     [\<lparr>li_name = str ''owner'', li_output_scope = Some (str ''country''), li_input_scopes = [str ''province''],
       li_prefix = None, li_from_data = False, li_data_source = []\<rparr>]"

theorem dotted_failure_keeps_scope:
  "(case change_scope (str ''owner.nowhere'') (from_registry owner_registry 101) of
      (result, ctx) \<Rightarrow> (result, ctx_scopes ctx)) = (NotFound, [101, 100])"
  by code_simp

end
