(* ===== verification/Scope_Rules.thy ===== *)
theory Scope_Rules
  imports Scope_Engine Paradox_Ast
begin

text \<open>
  How the validator moves a scope context through a script,
  \<^verbatim>\<open>engine/crates/validation/src/scope.rs\<close>, with the key tests of
  \<^verbatim>\<open>validation/src/common.rs\<close> it uses.  Of a rule's options only the fields these
  functions read are in the model.  The errors are values: the code and the arguments of its
  message.
\<close>

section \<open>Keys\<close>

definition looks_like_data_ref :: "ustr \<Rightarrow> bool" where
  "looks_like_data_ref key \<longleftrightarrow>
     key \<noteq> [] \<and>
     (asc CHR '':'' \<in> set key
      \<or> list_all is_ascii_digit key
      \<or> (2 \<le> blen key \<and> blen key \<le> 4
         \<and> list_all (\<lambda>b. is_ascii_uppercase b \<or> is_ascii_digit b) key \<and> list_ex is_ascii_uppercase key))"

definition scope_keywords :: "ustr list" where
  "scope_keywords = map str [''this'', ''root'', ''prev'', ''prevprev'', ''prevprevprev'',
     ''from'', ''fromfrom'', ''fromfromfrom'', ''fromfromfromfrom'']"

definition resolves_as_scope_key :: "scope_context \<Rightarrow> ustr \<Rightarrow> bool" where
  "resolves_as_scope_key ctx key \<longleftrightarrow>
     list_ex (eq_ignore_ascii_case key) scope_keywords
     \<or> (let k = to_ascii_lowercase key
        in id_of (ctx_registry ctx) k \<noteq> None \<or> map_of (reg_links (ctx_registry ctx)) k \<noteq> None)"

text \<open>\<^verbatim>\<open>TypeIndex::is_any_instance\<close>, by the lowercase names the index counts.\<close>

definition is_any_instance :: "ustr list \<Rightarrow> ustr \<Rightarrow> bool" where
  "is_any_instance names name =
     (if list_ex is_ascii_uppercase name then to_ascii_lowercase name \<in> set names else name \<in> set names)"

text \<open>\<^verbatim>\<open>split_whitespace().next()\<close>.\<close>

definition first_word :: "ustr \<Rightarrow> ustr option" where
  "first_word s =
     (let w = takeWhile (\<lambda>c. \<not> is_whitespace c) (dropWhile is_whitespace s) in if w = [] then None else Some w)"

section \<open>Rules\<close>

record replace_scopes =
  rs_root :: "ustr option"
  rs_this :: "ustr option"
  rs_froms :: "ustr list"
  rs_prevs :: "ustr list"

record rule_options =
  opt_push_scope :: "ustr option"
  opt_replace_scopes :: "replace_scopes option"

definition scope_matches_required :: "scope_id \<Rightarrow> scope_registry \<Rightarrow> ustr list \<Rightarrow> bool" where
  "scope_matches_required cur reg required =
     (if required = [] then True
      else if list_ex (\<lambda>s. eq_ignore_ascii_case s (str ''any'') \<or> eq_ignore_ascii_case s (str ''all'')) required then True
      else if cur = SCOPE_ANY then True
      else if registry_is_empty reg then True
      else list_ex (\<lambda>r. case id_of reg r of Some rid \<Rightarrow> is_subscope_or_eq reg cur rid | None \<Rightarrow> False) required)"

datatype scope_error_code = CW243_TARGET_WRONG_SCOPE | CW244_INVALID_TARGET | CW245_ERROR_IN_TARGET

record scope_error =
  se_code :: scope_error_code
  se_args :: "ustr list"
  se_start :: source_pos
  se_end :: source_pos

definition validate_scope_target ::
  "ustr \<Rightarrow> ustr list \<Rightarrow> leaf \<Rightarrow> scope_error list \<Rightarrow> scope_context \<Rightarrow> scope_error list \<times> scope_context" where
  "validate_scope_target target expected l errors ctx =
     (if target = [] \<or> looks_like_data_ref target then (errors, ctx)
      else if registry_is_empty (ctx_registry ctx) then (errors, ctx)
      else if list_ex (\<lambda>s. \<not> eq_ignore_ascii_case s (str ''any'') \<and> \<not> eq_ignore_ascii_case s (str ''all'')
                          \<and> id_of (ctx_registry ctx) s = None) expected
      then (errors, ctx)
      else
        (let saved = save_context ctx;
             (result, ctx1) = change_scope target ctx;
             ctx2 = restore_context saved ctx1;
             reg = ctx_registry ctx2;
             report = (\<lambda>code args. errors @ [\<lparr>se_code = code, se_args = args,
               se_start = range_start (leaf_pos l), se_end = range_end (leaf_pos l)\<rparr>])
         in case result of
              WrongScope command cur exp \<Rightarrow>
                (report CW245_ERROR_IN_TARGET
                   [command, name_of reg cur, join (str '' or '') (map (name_of reg) exp)], ctx2)
            | NewScope s keys \<Rightarrow>
                if expected \<noteq> [] \<and> \<not> scope_matches_required s reg expected
                then (report CW243_TARGET_WRONG_SCOPE [target, name_of reg s, join (str '' or '') expected], ctx2)
                else (errors, ctx2)
            | NotFound \<Rightarrow> (report CW244_INVALID_TARGET [target, join (str '' or '') expected], ctx2)
            | _ \<Rightarrow> (errors, ctx2)))"

definition apply_replace_scopes :: "replace_scopes \<Rightarrow> game option \<Rightarrow> scope_context \<Rightarrow> scope_context" where
  "apply_replace_scopes r g ctx =
     (if g \<noteq> None then apply_replace_scope (rs_root r) (rs_this r) (rs_froms r) (rs_prevs r) ctx else ctx)"

text \<open>The scope a \<^verbatim>\<open>push_scope\<close> option names: its first word, without braces.\<close>

definition pushed_name :: "ustr \<Rightarrow> ustr" where
  "pushed_name push =
     (case first_word (trim_matches (\<lambda>c. c = asc CHR ''{'' \<or> c = asc CHR ''}'' \<or> is_whitespace c) push) of
        Some w \<Rightarrow> w | None \<Rightarrow> push)"

definition seed_root_from_push :: "ustr \<Rightarrow> scope_context \<Rightarrow> scope_context" where
  "seed_root_from_push push ctx =
     (case id_of (ctx_registry ctx) (pushed_name push) of
        Some sid \<Rightarrow> ctx\<lparr>ctx_root := sid, ctx_scopes := [sid]\<rparr>
      | None \<Rightarrow> snd (change_scope push ctx))"

definition push_named_scope :: "ustr \<Rightarrow> scope_context \<Rightarrow> scope_context" where
  "push_named_scope push ctx =
     (case id_of (ctx_registry ctx) (pushed_name push) of
        Some sid \<Rightarrow> push_scope sid ctx
      | None \<Rightarrow> snd (change_scope push ctx))"

text \<open>\<^verbatim>\<open>root_opts\<close>: the options of the type's root rule, if it has one.\<close>

definition seed_root_scope ::
  "rule_options option \<Rightarrow> ustr option \<Rightarrow> ustr option \<Rightarrow> game option \<Rightarrow> scope_context \<Rightarrow> scope_context" where
  "seed_root_scope root_opts subtype_push node_key g ctx =
     (case subtype_push of
        Some ps \<Rightarrow> seed_root_from_push ps ctx
      | None \<Rightarrow>
          (case Option.bind root_opts opt_push_scope of
             Some push \<Rightarrow> seed_root_from_push push ctx
           | None \<Rightarrow>
               (case Option.bind root_opts opt_replace_scopes of
                  Some replace \<Rightarrow> apply_replace_scopes replace g ctx
                | None \<Rightarrow>
                    (case node_key of
                       Some k \<Rightarrow>
                         (let before = scope_depth ctx;
                              ctx1 = snd (change_scope k ctx)
                          in if scope_depth ctx1 = before \<and> looks_like_data_ref k
                             then push_scope SCOPE_ANY ctx1 else ctx1)
                     | None \<Rightarrow> ctx))))"

definition enter_block_scope ::
  "ustr \<Rightarrow> rule_options \<Rightarrow> game option \<Rightarrow> bool \<Rightarrow> ustr list option \<Rightarrow> scope_context \<Rightarrow> scope_context" where
  "enter_block_scope key opts g numeric_state_ok type_index ctx =
     (let before = scope_depth ctx;
          ctx1 =
            (if asc CHR '':'' \<in> set key then
               (let c = snd (change_scope key ctx) in
                if scope_depth c = before then push_scope SCOPE_ANY c else c)
             else
               case opt_push_scope opts of
                 Some push \<Rightarrow> push_named_scope push ctx
               | None \<Rightarrow>
                   (let c = snd (change_scope key ctx);
                        indexed_instance = (case type_index of Some names \<Rightarrow> is_any_instance names key | None \<Rightarrow> False)
                    in if scope_depth c = before \<and> (looks_like_data_ref key \<or> indexed_instance)
                       then
                         (let state_id = (if numeric_state_ok \<and> g = Some Hoi4 \<and> key \<noteq> [] \<and> list_all is_ascii_digit key
                                          then id_of (ctx_registry c) (str ''state'') else None)
                          in push_scope (case state_id of Some sid \<Rightarrow> sid | None \<Rightarrow> SCOPE_ANY) c)
                       else c))
      in case opt_replace_scopes opts of
           Some replace \<Rightarrow> apply_replace_scopes replace g ctx1
         | None \<Rightarrow> ctx1)"

section \<open>Invariants of a context\<close>

text \<open>What keeps a context in order under the moves of the engine, keeps it under the validator's.\<close>

locale context_invariant =
  fixes ok :: "scope_context \<Rightarrow> bool"
  assumes ok_push: "ok ctx \<Longrightarrow> ok (push_scope s ctx)"
    and ok_change: "ok ctx \<Longrightarrow> ok (snd (change_scope key ctx))"
    and ok_replace: "ok ctx \<Longrightarrow> ok (apply_replace_scope root this froms prevs ctx)"
    and ok_seed: "ok ctx \<Longrightarrow> ok (ctx\<lparr>ctx_root := s, ctx_scopes := [s]\<rparr>)"
begin

lemma ok_push_named: "ok ctx \<Longrightarrow> ok (push_named_scope push ctx)"
  by (auto simp: push_named_scope_def intro: ok_push ok_change split: option.split)

lemma ok_seed_from_push: "ok ctx \<Longrightarrow> ok (seed_root_from_push push ctx)"
  by (auto simp: seed_root_from_push_def intro: ok_seed ok_change split: option.split)

lemma ok_replace_scopes: "ok ctx \<Longrightarrow> ok (apply_replace_scopes r g ctx)"
  by (auto simp: apply_replace_scopes_def intro: ok_replace)

lemma ok_seed_root: "ok ctx \<Longrightarrow> ok (seed_root_scope opts sub key g ctx)"
  by (auto simp: seed_root_scope_def Let_def intro: ok_seed_from_push ok_replace_scopes ok_push ok_change split: option.split)

lemma ok_enter_block:
  assumes "ok ctx" shows "ok (enter_block_scope key opts g numeric names ctx)"
proof -
  have "ok (snd (change_scope key ctx))" by (rule ok_change [OF assms])
  then show ?thesis
    unfolding enter_block_scope_def Let_def
    by (auto intro: ok_replace_scopes ok_push ok_push_named [OF assms] split: option.split)
qed

end

text \<open>The current scope exists and the registry stays the one the context was made with.\<close>

definition stack_ok :: "scope_registry \<Rightarrow> scope_context \<Rightarrow> bool" where
  "stack_ok reg ctx \<longleftrightarrow> ctx_scopes ctx \<noteq> [] \<and> ctx_registry ctx = reg"

interpretation stack: context_invariant "stack_ok reg" for reg
proof unfold_locales
  show "stack_ok reg ctx \<Longrightarrow> stack_ok reg (snd (change_scope key ctx))" for ctx key
    using change_scope_move [of ctx key] by (simp add: stack_ok_def sound_move_def same_frame_def)
qed (simp_all add: stack_ok_def apply_replace_scope_fields)

lemma validate_scope_target_context: "snd (validate_scope_target target expected l errors ctx) = ctx"
proof -
  have r: "restore_context (save_context ctx) ctx1 = ctx" if "change_scope target ctx = (res, ctx1)" for res ctx1
    using change_scope_move [of ctx target] that
    by (simp add: sound_move_def same_frame_def restore_context_def save_context_def)
  show ?thesis
    by (auto simp: validate_scope_target_def Let_def r split: prod.split scope_result.split)
qed

text \<open>
  What a validator does with a context: it moves, enters and replaces scopes, and saves and
  later restores the context.  The second component holds the saved contexts.
\<close>

inductive scope_run :: "scope_registry \<Rightarrow> scope_context \<times> saved_context list \<Rightarrow> bool" for reg where
  start: "scope_run reg (from_registry reg root, [])"
| push: "scope_run reg (ctx, ss) \<Longrightarrow> scope_run reg (push_scope s ctx, ss)"
| change: "scope_run reg (ctx, ss) \<Longrightarrow> scope_run reg (snd (change_scope key ctx), ss)"
| named: "scope_run reg (ctx, ss) \<Longrightarrow> scope_run reg (push_named_scope push ctx, ss)"
| seed: "scope_run reg (ctx, ss) \<Longrightarrow> scope_run reg (seed_root_scope opts sub nkey g ctx, ss)"
| block: "scope_run reg (ctx, ss) \<Longrightarrow> scope_run reg (enter_block_scope key bopts g numeric names ctx, ss)"
| target: "scope_run reg (ctx, ss) \<Longrightarrow> scope_run reg (snd (validate_scope_target t expected l errors ctx), ss)"
| save: "scope_run reg (ctx, ss) \<Longrightarrow> scope_run reg (ctx, save_context ctx # ss)"
| restore: "scope_run reg (ctx, ss) \<Longrightarrow> s \<in> set ss \<Longrightarrow> scope_run reg (restore_context s ctx, ss)"

lemma scope_run_stack:
  "scope_run reg st \<Longrightarrow> stack_ok reg (fst st) \<and> (\<forall>s \<in> set (snd st). saved_scopes s \<noteq> [])"
proof (induction rule: scope_run.induct)
  case (start root)
  then show ?case by (simp add: stack_ok_def from_registry_def)
next
  case (restore ctx ss s)
  then show ?case by (simp add: stack_ok_def restore_context_def)
next
  case (save ctx ss)
  then show ?case by (simp add: stack_ok_def save_context_def)
qed (simp_all add: stack.ok_push stack.ok_change stack.ok_push_named stack.ok_seed_root stack.ok_enter_block
    validate_scope_target_context)

section \<open>Properties\<close>

text \<open>
  C35. The scope stack is never empty: however a validator moves, seeds, enters, probes, saves
  and restores a context made from a registry, there is a current scope, and the registry stays.
\<close>

theorem scope_stack_never_empty:
  assumes "scope_run reg (ctx, ss)"
  shows "ctx_scopes ctx \<noteq> [] \<and> current ctx = last (ctx_scopes ctx) \<and> ctx_registry ctx = reg"
  using scope_run_stack [OF assms] by (simp add: stack_ok_def current_def)

theorem scope_stack_never_empty_witness:
  "ctx_scopes (snd (change_scope (str ''prevprevprev'') (from_registry owner_registry 101))) \<noteq> []"
proof -
  have "scope_run owner_registry (snd (change_scope (str ''prevprevprev'') (from_registry owner_registry 101)), [])"
    by (rule change [OF start])
  from scope_stack_never_empty [OF this] show ?thesis by blast
qed

text \<open>
  What a target is reported for: only a target that is no data reference, in a registry that
  has scopes and knows every expected scope, and whose key moves the probe to a wrong scope, to
  a new scope that no expected scope covers, or nowhere; at most one error is added, at the
  leaf, and the context is as before.
\<close>

theorem validate_scope_target_reports:
  "snd (validate_scope_target target expected l errors ctx) = ctx
   \<and> (fst (validate_scope_target target expected l errors ctx) = errors
      \<or> (\<exists>e. fst (validate_scope_target target expected l errors ctx) = errors @ [e]
           \<and> se_start e = range_start (leaf_pos l) \<and> \<not> looks_like_data_ref target \<and> target \<noteq> []
           \<and> by_id (ctx_registry ctx) \<noteq> []
           \<and> (case fst (change_scope target ctx) of
                WrongScope cmd c ex \<Rightarrow> se_code e = CW245_ERROR_IN_TARGET \<and> c \<noteq> SCOPE_ANY
              | NewScope s keys \<Rightarrow> se_code e = CW243_TARGET_WRONG_SCOPE
                  \<and> list_all (\<lambda>r. \<forall>rid. id_of (ctx_registry ctx) r = Some rid \<longrightarrow> (s, rid) \<notin> (parents_rel (ctx_registry ctx))\<^sup>*) expected
              | NotFound \<Rightarrow> se_code e = CW244_INVALID_TARGET
              | _ \<Rightarrow> False)))"
proof -
  let ?reg = "ctx_registry ctx"
  obtain res ctx1 where r: "change_scope target ctx = (res, ctx1)" by fastforce
  have restored: "restore_context (save_context ctx) ctx1 = ctx"
    using change_scope_move [of ctx target]
    by (simp add: r sound_move_def same_frame_def restore_context_def save_context_def)
  have m: "agrees res ctx1" "ctx_registry ctx1 = ?reg"
    using change_scope_move [of ctx target] by (simp_all add: r sound_move_def same_frame_def)
  let ?quiet = "target = [] \<or> looks_like_data_ref target \<or> registry_is_empty ?reg
    \<or> list_ex (\<lambda>s. \<not> eq_ignore_ascii_case s (str ''any'') \<and> \<not> eq_ignore_ascii_case s (str ''all'') \<and> id_of ?reg s = None) expected"
  let ?report = "\<lambda>code args. errors @ [\<lparr>se_code = code, se_args = args,
    se_start = range_start (leaf_pos l), se_end = range_end (leaf_pos l)\<rparr>]"
  show ?thesis
  proof (cases ?quiet)
    case True
    then show ?thesis by (auto simp: validate_scope_target_def)
  next
    case False
    have v: "validate_scope_target target expected l errors ctx =
      (case res of
         WrongScope command cur exp \<Rightarrow>
           (?report CW245_ERROR_IN_TARGET [command, name_of ?reg cur, join (str '' or '') (map (name_of ?reg) exp)], ctx)
       | NewScope s keys \<Rightarrow>
           if expected \<noteq> [] \<and> \<not> scope_matches_required s ?reg expected
           then (?report CW243_TARGET_WRONG_SCOPE [target, name_of ?reg s, join (str '' or '') expected], ctx)
           else (errors, ctx)
       | NotFound \<Rightarrow> (?report CW244_INVALID_TARGET [target, join (str '' or '') expected], ctx)
       | _ \<Rightarrow> (errors, ctx))"
      using False unfolding validate_scope_target_def Let_def r prod.case restored by auto
    have required: "list_all (\<lambda>q. \<forall>rid. id_of ?reg q = Some rid \<longrightarrow> (s, rid) \<notin> (parents_rel ?reg)\<^sup>*) expected"
      if "\<not> scope_matches_required s ?reg expected" for s
      using that by (fastforce simp: scope_matches_required_def list_ex_iff list_all_iff is_subscope_reach
          split: if_splits option.splits)
    have wrong: "c \<noteq> SCOPE_ANY" if "agrees (WrongScope cmd c ex) ctx1" for cmd c ex
      using that by (cases ex) (auto simp: is_subscope_reach)
    show ?thesis
    proof (cases res)
      case (NewScope s keys)
      with v r False required show ?thesis by (auto simp: registry_is_empty_def)
    next
      case (WrongScope cmd c ex)
      with v r False wrong m(1) show ?thesis by (auto simp: registry_is_empty_def)
    qed (use v r False in \<open>auto simp: registry_is_empty_def\<close>)
  qed
qed

definition sample_leaf :: leaf where
  "sample_leaf =
     (let r = \<lparr>range_start = \<lparr>pos_line = 3, pos_col = 4\<rparr>, range_end = \<lparr>pos_line = 3, pos_col = 20\<rparr>\<rparr> in
      \<lparr>leaf_key = \<lparr>tok_lower = StringId 1, tok_normal = StringId 1\<rparr>, leaf_val = VInt 0, leaf_op = Equals,
       leaf_pos = r, leaf_val_pos = r, leaf_color = None\<rparr>)"

theorem validate_scope_target_reports_witness:
  "\<exists>e. fst (validate_scope_target (str ''nowhere'') [] sample_leaf [] (from_registry owner_registry 101)) = [e]
     \<and> se_code e = CW244_INVALID_TARGET \<and> pos_line (se_start e) = 3"
proof -
  have f: "fst (change_scope (str ''nowhere'') (from_registry owner_registry 101)) = NotFound" by code_simp
  have ne: "fst (validate_scope_target (str ''nowhere'') [] sample_leaf [] (from_registry owner_registry 101)) \<noteq> []"
    by code_simp
  show ?thesis
    using validate_scope_target_reports [of "str ''nowhere''" "[]" sample_leaf "[]" "from_registry owner_registry 101", unfolded f]
      ne
    by (auto simp: sample_leaf_def Let_def)
qed

end
