(* ===== verification/Loc_String.thy ===== *)
theory Loc_String
  imports Prelude
begin

text \<open>
  Localisation values, \<^verbatim>\<open>engine/crates/localization/src/loc_string.rs\<close>, and the languages of
  \<^verbatim>\<open>localization/src/commands.rs\<close>.

  A value is scanned for references (\<^verbatim>\<open>$key$\<close>), bracketed commands and text.  The source
  scans bytes and compares them with ASCII characters only, so every offset it keeps or slices
  at lies on a character boundary; here an offset counts characters.
\<close>

section \<open>Languages\<close>

datatype lang = English | French | German | Spanish | Russian | Polish | BrazPor | SimpChinese
  | Japanese | Korean | Turkish | Default

fun lang_display :: "lang \<Rightarrow> ustr" where
  "lang_display English = str ''english''"
| "lang_display French = str ''french''"
| "lang_display German = str ''german''"
| "lang_display Spanish = str ''spanish''"
| "lang_display Russian = str ''russian''"
| "lang_display Polish = str ''polish''"
| "lang_display BrazPor = str ''braz_por''"
| "lang_display SimpChinese = str ''simp_chinese''"
| "lang_display Japanese = str ''japanese''"
| "lang_display Korean = str ''korean''"
| "lang_display Turkish = str ''turkish''"
| "lang_display Default = str ''default''"

definition key_to_language :: "ustr \<Rightarrow> lang option" where
  "key_to_language pfx =
     map_of
       [(str ''l_english'', English), (str ''l_french'', French), (str ''l_german'', German),
        (str ''l_spanish'', Spanish), (str ''l_russian'', Russian), (str ''l_polish'', Polish),
        (str ''l_braz_por'', BrazPor), (str ''l_simp_chinese'', SimpChinese),
        (str ''l_japanese'', Japanese), (str ''l_korean'', Korean), (str ''l_turkish'', Turkish),
        (str ''l_default'', Default)]
       (to_ascii_lowercase pfx)"

definition lang_from_name :: "ustr \<Rightarrow> lang option" where
  "lang_from_name name =
     (let lower = to_ascii_lowercase (trim name) in
      if lower = str ''chinese'' \<or> lower = str ''simp_chinese'' then Some SimpChinese
      else if lower = str ''braz_por'' \<or> lower = str ''brazilian'' \<or> lower = str ''brazilian_portuguese''
      then Some BrazPor
      else key_to_language (if starts_with lower (str ''l_'') then lower else str ''l_'' @ lower))"

section \<open>Elements\<close>

datatype jomini_command = JominiCommand (jc_key: ustr) (jc_params: "jomini_param list")
  and jomini_param = JLiteral ustr | JCommands "jomini_command list"

datatype loc_element = Chars ustr | Ref ustr | Command ustr | Jomini "jomini_command list"

datatype jomini_error = UnclosedParen

section \<open>Command chains\<close>

text \<open>What is left of the shared iterator when the parameters have been read: after the first \<^verbatim>\<open>)\<close>.\<close>

definition after_params :: "ustr \<Rightarrow> ustr" where
  "after_params chars = tl (dropWhile (\<lambda>c. c \<noteq> asc CHR '')'') chars)"

lemma after_params_length [simp]: "length (after_params chars) \<le> length chars"
  unfolding after_params_def by (metis diff_le_self le_trans length_dropWhile_le length_tl)

lemma trim_length [simp]: "length (trim s) \<le> length s"
  unfolding trim_def trim_end_def trim_start_def
  by (metis le_trans length_dropWhile_le length_rev)

text \<open>\<open>jomini_loop\<close> and \<open>params_loop\<close> are the loops of \<^verbatim>\<open>parse_jomini\<close> and \<^verbatim>\<open>parse_jomini_params\<close>.\<close>

function (sequential)
  jomini_loop :: "ustr \<Rightarrow> jomini_command list \<Rightarrow> ustr \<Rightarrow> jomini_error + jomini_command list"
  and params_loop :: "ustr \<Rightarrow> jomini_param list \<Rightarrow> ustr \<Rightarrow> jomini_error + jomini_param list"
  and parse_jomini_param :: "ustr \<Rightarrow> jomini_error + jomini_param"
where
  "jomini_loop [] commands current =
     Inr (if current = [] then commands else commands @ [JominiCommand current []])"
| "jomini_loop (ch # chars) commands current =
     (if ch = asc CHR ''.'' then
        jomini_loop chars (if current = [] then commands else commands @ [JominiCommand current []]) []
      else if ch = asc CHR ''('' then
        (case params_loop chars [] [] of
           Inl e \<Rightarrow> Inl e
         | Inr params \<Rightarrow> jomini_loop (after_params chars) (commands @ [JominiCommand current params]) [])
      else if ch = asc CHR '' '' \<or> ch = asc CHR '','' then jomini_loop chars commands current
      else jomini_loop chars commands (current @ [ch]))"
| "params_loop [] params current = Inl UnclosedParen"
| "params_loop (ch # chars) params current =
     (if ch = asc CHR '')'' then
        (if trim current = [] then Inr params
         else (case parse_jomini_param current of Inl e \<Rightarrow> Inl e | Inr p \<Rightarrow> Inr (params @ [p])))
      else if ch = asc CHR '','' then
        (if trim current = [] then params_loop chars params []
         else (case parse_jomini_param current of Inl e \<Rightarrow> Inl e | Inr p \<Rightarrow> params_loop chars (params @ [p]) []))
      else params_loop chars params (current @ [ch]))"
| "parse_jomini_param s =
     (let trimmed = trim s in
      if length trimmed \<ge> 2 \<and> hd trimmed = 39 \<and> last trimmed = 39
      then Inr (JLiteral (butlast (tl trimmed)))
      else if asc CHR ''.'' \<in> set trimmed then
        (case jomini_loop trimmed [] [] of Inl e \<Rightarrow> Inl e | Inr commands \<Rightarrow> Inr (JCommands commands))
      else Inr (JLiteral trimmed))"
  by pat_completeness auto
termination
  by (relation "measures
      [\<lambda>x. case x of Inl (chars, _, _) \<Rightarrow> length chars
         | Inr (Inl (chars, _, current)) \<Rightarrow> length chars + length current | Inr (Inr s) \<Rightarrow> length s,
       \<lambda>x. case x of Inl _ \<Rightarrow> 0 | Inr (Inl (chars, _, current)) \<Rightarrow> length chars + 2 | Inr (Inr s) \<Rightarrow> 1]")
    (auto simp: less_Suc_eq_le le_imp_less_or_eq dest: order.trans)

declare jomini_loop.simps [simp del] params_loop.simps [simp del] parse_jomini_param.simps [simp del]

definition parse_jomini :: "ustr \<Rightarrow> jomini_error + jomini_command list" where
  "parse_jomini input = jomini_loop input [] []"

section \<open>References and brackets\<close>

text \<open>\<^verbatim>\<open>iter().position(P)\<close>.\<close>

definition position_of :: "(uchar \<Rightarrow> bool) \<Rightarrow> ustr \<Rightarrow> nat option" where
  "position_of P s = (let n = length (takeWhile (\<lambda>c. \<not> P c) s) in if n < length s then Some n else None)"

text \<open>\<^verbatim>\<open>&s[a..b]\<close>.\<close>

definition slice :: "ustr \<Rightarrow> nat \<Rightarrow> nat \<Rightarrow> ustr" where
  "slice s a b = take (b - a) (drop a s)"

definition next_special :: "ustr \<Rightarrow> nat \<Rightarrow> nat" where
  "next_special s start =
     (case position_of (\<lambda>b. b \<in> set (str ''$[]'')) (drop start s) of
        Some off \<Rightarrow> start + off | None \<Rightarrow> length s)"

definition is_loc_ref_key :: "ustr \<Rightarrow> bool" where
  "is_loc_ref_key key \<longleftrightarrow>
     key \<noteq> [] \<and> list_all (\<lambda>b. is_ascii_alphanumeric b \<or> b = asc CHR ''_'' \<or> b = asc CHR ''.'' \<or> b = asc CHR ''-'') key"

definition parse_ref :: "ustr \<Rightarrow> nat \<Rightarrow> (loc_element \<times> nat) option" where
  "parse_ref s start =
     (let content_start = start + 1 in
      case position_of (\<lambda>b. b = asc CHR ''$'' \<or> b = asc CHR ''|'') (drop content_start s) of
        None \<Rightarrow> None
      | Some off \<Rightarrow>
          (let key_end = content_start + off;
               key = slice s content_start key_end
           in if \<not> is_loc_ref_key key then None
              else if s ! key_end = asc CHR ''|'' then
                (let after_pipe = key_end + 1 in
                 case position_of (\<lambda>b. b = asc CHR ''$'') (drop after_pipe s) of
                   None \<Rightarrow> None
                 | Some off2 \<Rightarrow> Some (Ref key, after_pipe + off2 + 1))
              else Some (Ref key, key_end + 1)))"

text \<open>The loop of \<^verbatim>\<open>parse_bracket\<close> over the rest of the text: depth and offset.\<close>

fun bracket_loop :: "ustr \<Rightarrow> nat \<Rightarrow> nat \<Rightarrow> nat \<times> nat" where
  "bracket_loop [] depth i = (depth, i)"
| "bracket_loop (b # bs) depth i =
     (if depth = 0 then (depth, i)
      else bracket_loop bs (if b = asc CHR ''['' then depth + 1 else if b = asc CHR '']'' then depth - 1 else depth) (i + 1))"

definition parse_bracket :: "ustr \<Rightarrow> nat \<Rightarrow> (loc_element \<times> nat) option" where
  "parse_bracket s start =
     (let (depth, i) = bracket_loop (drop (start + 1) s) 1 (start + 1) in
      if depth \<noteq> 0 then None
      else
        (let content = slice s (start + 1) (i - 1);
             command = (case position_of (\<lambda>c. c = asc CHR ''|'') content of Some p \<Rightarrow> take p content | None \<Rightarrow> content)
         in if asc CHR ''.'' \<in> set content \<or> asc CHR ''('' \<in> set content
            then (case parse_jomini content of
                    Inr commands \<Rightarrow> Some (Jomini commands, i)
                  | Inl e \<Rightarrow> Some (Command command, i))
            else Some (Command command, i)))"

text \<open>\<^verbatim>\<open>unmatched_opens\<close>: the loop runs from the end; the result lists the last offset first.\<close>

fun unmatched_loop :: "(nat \<times> uchar) list \<Rightarrow> nat \<Rightarrow> nat list \<Rightarrow> nat list" where
  "unmatched_loop [] closers unmatched = unmatched"
| "unmatched_loop ((i, b) # rest) closers unmatched =
     (if b = asc CHR '']'' then unmatched_loop rest (closers + 1) unmatched
      else if b = asc CHR ''['' \<and> closers > 0 then unmatched_loop rest (closers - 1) unmatched
      else if b = asc CHR ''['' then unmatched_loop rest closers (unmatched @ [i])
      else unmatched_loop rest closers unmatched)"

definition unmatched_opens :: "ustr \<Rightarrow> nat list" where
  "unmatched_opens s = unmatched_loop (rev (enumerate 0 s)) 0 []"

text \<open>\<^verbatim>\<open>while u.last() <= i { u.pop() }\<close>.\<close>

definition pop_upto :: "nat \<Rightarrow> nat list \<Rightarrow> nat list" where
  "pop_upto i u = rev (dropWhile (\<lambda>p. p \<le> i) (rev u))"

section \<open>Scanning a value\<close>

lemma position_of_Some: "position_of P s = Some n \<Longrightarrow> n < length s"
  by (auto simp: position_of_def Let_def split: if_splits)

lemma next_special_ge: "start \<le> length s \<Longrightarrow> start \<le> next_special s start"
  by (auto simp: next_special_def split: option.split)

lemma parse_ref_forward: "parse_ref s i = Some (e, j) \<Longrightarrow> i < j"
  by (auto simp: parse_ref_def Let_def split: option.splits if_splits)

lemma bracket_loop_forward: "i \<le> snd (bracket_loop bs depth i)"
  by (induction bs depth i rule: bracket_loop.induct) auto

lemma parse_bracket_forward: "parse_bracket s i = Some (e, j) \<Longrightarrow> i < j"
  using bracket_loop_forward [of "i + 1" "drop (i + 1) s" 1]
  by (auto simp: parse_bracket_def Let_def split: prod.splits if_splits sum.splits)

text \<open>The element that starts at an offset, for the unmatched brackets known so far.\<close>

definition element_at :: "ustr \<Rightarrow> nat list option \<Rightarrow> nat \<Rightarrow> (loc_element \<times> nat) option" where
  "element_at s unmatched i =
     (if s ! i = asc CHR ''$'' then parse_ref s i
      else if s ! i = asc CHR ''['' \<and> (case unmatched of None \<Rightarrow> True | Some u \<Rightarrow> u = [] \<or> last u \<noteq> i)
      then parse_bracket s i
      else None)"

lemma element_at_forward: "element_at s u i = Some (e, j) \<Longrightarrow> i < j"
  by (auto simp: element_at_def split: if_splits dest: parse_ref_forward parse_bracket_forward)

lemma element_at_measure:
  "element_at s u i = Some (e, j) \<Longrightarrow> i < length s \<Longrightarrow> length s - j < length s - i"
  using element_at_forward [of s u i e j] by auto

lemma next_special_measure: "i < length s \<Longrightarrow> length s - next_special s (i + 1) < length s - i"
  using next_special_ge [of "i + 1" s] by auto

function elements_loop ::
  "ustr \<Rightarrow> nat \<Rightarrow> nat option \<Rightarrow> nat list option \<Rightarrow> loc_element list \<Rightarrow> loc_element list" where
  "elements_loop s i literal_start unmatched elements =
     (if i < length s then
        (case element_at s unmatched i of
           Some (elem, new_i) \<Rightarrow>
             elements_loop s new_i None unmatched
               (elements @ (case literal_start of Some start \<Rightarrow> [Chars (slice s start i)] | None \<Rightarrow> []) @ [elem])
         | None \<Rightarrow>
             elements_loop s (next_special s (i + 1))
               (Some (case literal_start of Some start \<Rightarrow> start | None \<Rightarrow> i))
               (if s ! i = asc CHR ''[''
                then Some (pop_upto i (case unmatched of Some u \<Rightarrow> u | None \<Rightarrow> unmatched_opens s))
                else unmatched)
               elements)
      else elements @ (case literal_start of Some start \<Rightarrow> [Chars (drop start s)] | None \<Rightarrow> []))"
  by pat_completeness auto

termination
  by (relation "measure (\<lambda>(s, i, l, u, es). length s - i)")
    (auto simp: element_at_measure next_special_measure [simplified])

declare elements_loop.simps [simp del]

definition parse_loc_elements :: "ustr \<Rightarrow> loc_element list" where
  "parse_loc_elements s = elements_loop s 0 None None []"

section \<open>The cache of unmatched brackets\<close>

text \<open>How many brackets a text closes beyond those it opens before them.\<close>

fun closers :: "ustr \<Rightarrow> nat" where
  "closers [] = 0"
| "closers (c # s) =
     (if c = asc CHR '']'' then closers s + 1 else if c = asc CHR ''['' then closers s - 1 else closers s)"

lemma bracket_loop_closes: "fst (bracket_loop bs depth i) = 0 \<longleftrightarrow> depth \<le> closers bs"
  by (induction bs depth i rule: bracket_loop.induct) auto

fun opens :: "nat \<Rightarrow> ustr \<Rightarrow> nat list" where
  "opens k [] = []"
| "opens k (c # s) = (if c = asc CHR ''['' \<and> closers s = 0 then [k] else []) @ opens (k + 1) s"

lemma unmatched_loop_opens:
  "unmatched_loop (rev (enumerate k s) @ rest) 0 us = unmatched_loop rest (closers s) (us @ rev (opens k s))"
  by (induction s arbitrary: k rest us) auto

lemma unmatched_opens_eq: "unmatched_opens s = rev (opens 0 s)"
  using unmatched_loop_opens [of 0 s "[]" "[]"] by (simp add: unmatched_opens_def)

lemma opens_closers: "p \<in> set (opens k s) \<Longrightarrow> k \<le> p \<and> p - k < length s \<and> s ! (p - k) = asc CHR ''['' \<and> closers (drop (p - k + 1) s) = 0"
proof (induction s arbitrary: k)
  case (Cons c s)
  show ?case
  proof (cases "p = k \<and> c = asc CHR ''['' \<and> closers s = 0")
    case True
    then show ?thesis by simp
  next
    case False
    with Cons.prems have "p \<in> set (opens (k + 1) s)" by (auto split: if_splits)
    from Cons.IH [OF this] obtain q where "p = k + 1 + q" "q < length s" "s ! q = asc CHR ''[''"
      "closers (drop (q + 1) s) = 0"
      by (metis add_diff_inverse_nat linorder_not_less)
    then show ?thesis by simp
  qed
qed simp

lemma unmatched_bracket_none: "p \<in> set (opens 0 s) \<Longrightarrow> parse_bracket s p = None"
  using opens_closers [of p 0 s] bracket_loop_closes [of "drop (p + 1) s" 1 "p + 1"]
  by (auto simp: parse_bracket_def Let_def split: prod.split)

lemma set_pop_upto: "set (pop_upto i u) \<subseteq> set u"
  unfolding pop_upto_def by (metis set_dropWhileD set_rev subsetI)

definition cache_ok :: "ustr \<Rightarrow> nat list option \<Rightarrow> bool" where
  "cache_ok s unmatched \<longleftrightarrow> (\<forall>u. unmatched = Some u \<longrightarrow> set u \<subseteq> set (opens 0 s))"

lemma element_at_cached:
  assumes "cache_ok s unmatched" shows "element_at s unmatched i = element_at s None i"
proof -
  have "parse_bracket s i = None" if "unmatched = Some u" "u \<noteq> []" "last u = i" for u
    using that assms last_in_set [of u] by (auto simp: cache_ok_def intro: unmatched_bracket_none)
  then show ?thesis by (auto simp: element_at_def split: option.splits)
qed

text \<open>The scan without the cache.\<close>

function plain_loop :: "ustr \<Rightarrow> nat \<Rightarrow> nat option \<Rightarrow> loc_element list \<Rightarrow> loc_element list" where
  "plain_loop s i literal_start elements =
     (if i < length s then
        (case element_at s None i of
           Some (elem, new_i) \<Rightarrow>
             plain_loop s new_i None
               (elements @ (case literal_start of Some start \<Rightarrow> [Chars (slice s start i)] | None \<Rightarrow> []) @ [elem])
         | None \<Rightarrow>
             plain_loop s (next_special s (i + 1))
               (Some (case literal_start of Some start \<Rightarrow> start | None \<Rightarrow> i)) elements)
      else elements @ (case literal_start of Some start \<Rightarrow> [Chars (drop start s)] | None \<Rightarrow> []))"
  by pat_completeness auto
termination
  by (relation "measure (\<lambda>(s, i, l, es). length s - i)")
    (auto simp: element_at_measure next_special_measure [simplified])

declare plain_loop.simps [simp del]

lemma elements_loop_plain: "cache_ok s u \<Longrightarrow> elements_loop s i l u es = plain_loop s i l es"
proof (induction s i l u es rule: elements_loop.induct)
  case (1 s i l u es)
  note at = element_at_cached [OF "1.prems", of i]
  have ok: "cache_ok s (if s ! i = asc CHR ''[''
      then Some (pop_upto i (case u of Some u \<Rightarrow> u | None \<Rightarrow> unmatched_opens s)) else u)"
    using "1.prems" set_pop_upto by (fastforce simp: cache_ok_def unmatched_opens_eq split: option.splits)
  show ?case
  proof (cases "i < length s")
    case True
    show ?thesis
    proof (cases "element_at s u i")
      case None
      with True at ok "1.IH"(1) [OF True None] show ?thesis
        by (subst elements_loop.simps, subst plain_loop.simps) simp
    next
      case (Some ej)
      obtain e j where ej: "ej = (e, j)" by fastforce
      with Some have s: "element_at s u i = Some (e, j)" by simp
      then have n: "element_at s None i = Some (e, j)" by (simp only: at)
      note IH = "1.IH"(2) [OF True Some ej [symmetric] "1.prems"]
      show ?thesis
        by (subst elements_loop.simps, subst plain_loop.simps)
          (simp only: True s n IH if_True option.case prod.case)
    qed
  next
    case False
    then show ?thesis by (subst elements_loop.simps, subst plain_loop.simps) simp
  qed
qed

section \<open>What an element spells\<close>

fun spells :: "loc_element \<Rightarrow> ustr \<Rightarrow> bool" where
  "spells (Chars t) p \<longleftrightarrow> p = t \<and> t \<noteq> []"
| "spells (Ref k) p \<longleftrightarrow> is_loc_ref_key k
     \<and> (p = asc CHR ''$'' # k @ [asc CHR ''$'']
        \<or> (\<exists>f. asc CHR ''$'' \<notin> set f \<and> p = asc CHR ''$'' # k @ asc CHR ''|'' # f @ [asc CHR ''$'']))"
| "spells (Command c) p \<longleftrightarrow> (\<exists>b. p = asc CHR ''['' # b @ [asc CHR '']'']
     \<and> c = takeWhile (\<lambda>x. x \<noteq> asc CHR ''|'') b)"
| "spells (Jomini commands) p \<longleftrightarrow> (\<exists>b. p = asc CHR ''['' # b @ [asc CHR '']''] \<and> parse_jomini b = Inr commands)"

lemma position_of_take: "position_of P s = Some n \<Longrightarrow> take n s = takeWhile (\<lambda>c. \<not> P c) s \<and> P (s ! n)"
  using nth_length_takeWhile [of "\<lambda>c. \<not> P c" s]
  by (auto simp: position_of_def Let_def takeWhile_eq_take [symmetric] split: if_splits)

lemma position_of_None:
  assumes "position_of P s = None" shows "takeWhile (\<lambda>c. \<not> P c) s = s"
proof -
  have split: "takeWhile (\<lambda>c. \<not> P c) s @ dropWhile (\<lambda>c. \<not> P c) s = s" by simp
  have "length s \<le> length (takeWhile (\<lambda>c. \<not> P c) s)"
    using assms by (auto simp: position_of_def Let_def split: if_splits)
  moreover have "length s = length (takeWhile (\<lambda>c. \<not> P c) s) + length (dropWhile (\<lambda>c. \<not> P c) s)"
    by (metis split length_append)
  ultimately have "dropWhile (\<lambda>c. \<not> P c) s = []" by (metis add_le_same_cancel1 le_zero_eq length_0_conv)
  with split show ?thesis by (simp only: append_Nil2)
qed

lemma slice_split:
  assumes "i \<le> j" "j \<le> k" shows "slice s i k = slice s i j @ slice s j k"
proof -
  have "k - i = (j - i) + (k - j)" "j - i + i = j" using assms by simp_all
  then show ?thesis by (simp only: slice_def take_add drop_drop)
qed

lemma slice_one: "i < length s \<Longrightarrow> slice s i (i + 1) = [s ! i]"
  by (simp add: slice_def take_Suc hd_drop_conv_nth)

lemma drop_slice:
  assumes "i \<le> j" shows "drop i s = slice s i j @ drop j s"
proof -
  have "drop (j - i) (drop i s) = drop j s" using assms by simp
  then show ?thesis by (metis append_take_drop_id slice_def)
qed

lemma parse_ref_spells:
  assumes "parse_ref s i = Some (e, j)" and "s ! i = asc CHR ''$''" and "i < length s"
  shows "j \<le> length s \<and> spells e (slice s i j)"
proof -
  let ?t = "drop (i + 1) s"
  obtain off where off: "position_of (\<lambda>b. b = asc CHR ''$'' \<or> b = asc CHR ''|'') ?t = Some off"
    using assms(1) by (auto simp: parse_ref_def Let_def split: option.splits)
  let ?e = "i + 1 + off" let ?k = "slice s (i + 1) ?e"
  have lt: "?e < length s" using position_of_Some [OF off] by simp
  have stop: "s ! ?e = asc CHR ''$'' \<or> s ! ?e = asc CHR ''|''"
    using position_of_take [OF off] lt by (simp add: add.commute add.left_commute)
  have key: "is_loc_ref_key ?k" using assms(1) off by (auto simp: parse_ref_def Let_def split: if_splits option.splits)
  have pre: "slice s i ?e = asc CHR ''$'' # ?k"
    using slice_split [of i "i + 1" ?e s] slice_one [OF assms(3)] assms(2) by simp
  show ?thesis
  proof (cases "s ! ?e = asc CHR ''|''")
    case False
    with stop have d: "s ! ?e = asc CHR ''$''" by simp
    with False assms(1) off key have r: "e = Ref ?k" "j = ?e + 1" by (auto simp: parse_ref_def Let_def)
    have "slice s i j = asc CHR ''$'' # ?k @ [asc CHR ''$'']"
      using slice_split [of i ?e "?e + 1" s] slice_one [OF lt] pre d r(2) by simp
    with r key lt show ?thesis by simp
  next
    case True
    obtain off2 where off2: "position_of (\<lambda>b. b = asc CHR ''$'') (drop (?e + 1) s) = Some off2"
      using assms(1) off key True by (auto simp: parse_ref_def Let_def split: option.splits)
    let ?c = "?e + 1 + off2" let ?f = "slice s (?e + 1) ?c"
    have r: "e = Ref ?k" "j = ?c + 1" using assms(1) off key True off2 by (auto simp: parse_ref_def Let_def)
    have c: "?c < length s" using position_of_Some [OF off2] by simp
    have d: "s ! ?c = asc CHR ''$''"
      using position_of_take [OF off2] c by (simp add: add.commute add.left_commute)
    have "?f = takeWhile (\<lambda>b. b \<noteq> asc CHR ''$'') (drop (?e + 1) s)"
      using position_of_take [OF off2] by (simp add: slice_def)
    then have f: "asc CHR ''$'' \<notin> set ?f" by (metis (mono_tags, lifting) set_takeWhileD)
    have "slice s i j = slice s i ?e @ slice s ?e (?e + 1) @ ?f @ slice s ?c (?c + 1)"
      using slice_split [of i ?e j s] slice_split [of ?e "?e + 1" j s] slice_split [of "?e + 1" ?c j s] r(2) by simp
    then have "slice s i j = asc CHR ''$'' # ?k @ asc CHR ''|'' # ?f @ [asc CHR ''$'']"
      using pre slice_one [OF lt] slice_one [OF c] True d by simp
    with r key f c show ?thesis by auto
  qed
qed

lemma bracket_loop_end:
  "bracket_loop bs depth i = (0, j) \<Longrightarrow> depth > 0 \<Longrightarrow> \<exists>u v. bs = u @ asc CHR '']'' # v \<and> j = i + length u + 1"
proof (induction bs depth i rule: bracket_loop.induct)
  case (2 b bs depth i)
  show ?case
  proof (cases "b = asc CHR '']'' \<and> depth = 1")
    case True
    with 2 have "j = i + 1" by (cases bs) auto
    with True have "b # bs = [] @ asc CHR '']'' # bs \<and> j = i + length [] + 1" by simp
    then show ?thesis by blast
  next
    case False
    with 2 obtain u v where "bs = u @ asc CHR '']'' # v" "j = i + 1 + length u + 1" by (auto split: if_splits)
    then have "b # bs = (b # u) @ asc CHR '']'' # v \<and> j = i + length (b # u) + 1" by simp
    then show ?thesis by blast
  qed
qed simp

lemma parse_bracket_spells:
  assumes "parse_bracket s i = Some (e, j)" and "s ! i = asc CHR ''[''" and "i < length s"
  shows "j \<le> length s \<and> spells e (slice s i j)"
proof -
  have d: "bracket_loop (drop (i + 1) s) 1 (i + 1) = (0, j)"
    using assms(1) by (auto simp: parse_bracket_def Let_def split: prod.splits if_splits sum.splits)
  obtain u v where u: "drop (i + 1) s = u @ asc CHR '']'' # v" "j = i + 1 + length u + 1"
    using bracket_loop_end [OF d] by auto
  have s: "drop i s = asc CHR ''['' # u @ asc CHR '']'' # v"
    using Cons_nth_drop_Suc [OF assms(3)] assms(2) u(1) by simp
  have len: "j \<le> length s" using arg_cong [OF s, of length] assms(3) u(2) by simp
  have p: "slice s i j = asc CHR ''['' # u @ [asc CHR '']'']" using s u(2) by (simp add: slice_def)
  have content: "slice s (i + 1) (j - 1) = u" using u by (simp add: slice_def)
  let ?command = "case position_of (\<lambda>c. c = asc CHR ''|'') u of Some p \<Rightarrow> take p u | None \<Rightarrow> u"
  have command: "?command = takeWhile (\<lambda>x. x \<noteq> asc CHR ''|'') u"
    by (cases "position_of (\<lambda>c. c = asc CHR ''|'') u") (simp_all add: position_of_take position_of_None)
  have "parse_bracket s i =
      (if asc CHR ''.'' \<in> set u \<or> asc CHR ''('' \<in> set u
       then (case parse_jomini u of Inr commands \<Rightarrow> Some (Jomini commands, j) | Inl e \<Rightarrow> Some (Command ?command, j))
       else Some (Command ?command, j))"
    unfolding parse_bracket_def Let_def d prod.case content by simp
  with assms(1) consider "e = Command ?command" | commands where "e = Jomini commands" "parse_jomini u = Inr commands"
    by (auto split: if_splits sum.splits)
  then have "spells e (slice s i j)"
  proof cases
    case 1
    then show ?thesis unfolding command p by auto
  next
    case 2
    then show ?thesis unfolding p by auto
  qed
  with len show ?thesis ..
qed

lemma element_at_spells:
  "element_at s None i = Some (e, j) \<Longrightarrow> i < length s \<Longrightarrow> j \<le> length s \<and> spells e (slice s i j)"
  using parse_ref_spells [of s i e j] parse_bracket_spells [of s i e j] by (auto simp: element_at_def split: if_splits)

lemma next_special_le: "next_special s start \<le> length s"
  by (auto simp: next_special_def dest: position_of_Some split: option.split)

lemma plain_loop_covers:
  "i \<le> length s \<Longrightarrow> (\<And>st. l = Some st \<Longrightarrow> st < i) \<Longrightarrow>
   \<exists>new ps. plain_loop s i l es = es @ new \<and> list_all2 spells new ps
     \<and> drop (case l of Some st \<Rightarrow> st | None \<Rightarrow> i) s = concat ps"
proof (induction s i l es rule: plain_loop.induct)
  case (1 s i l es)
  show ?case
  proof (cases "i < length s")
    case False
    then have "i = length s" using "1.prems" by simp
    show ?thesis
    proof (cases l)
      case None
      with False have "plain_loop s i l es = es @ []" by (subst plain_loop.simps) simp
      moreover have "drop i s = concat []" using \<open>i = length s\<close> by simp
      ultimately show ?thesis using None by (metis list.rel_inject(1) list_all2_Nil option.simps(4))
    next
      case (Some st)
      then have "st < length s" using "1.prems"(2) \<open>i = length s\<close> by simp
      then have "list_all2 spells [Chars (drop st s)] [drop st s]" by simp
      moreover have "plain_loop s i l es = es @ [Chars (drop st s)]" using False Some by (subst plain_loop.simps) simp
      moreover have "drop st s = concat [drop st s]" by simp
      ultimately show ?thesis unfolding Some option.case by blast
    qed
  next
    case i: True
    show ?thesis
    proof (cases "element_at s None i")
      case None
      let ?l = "Some (case l of Some st \<Rightarrow> st | None \<Rightarrow> i)" let ?n = "next_special s (i + 1)"
      have r: "plain_loop s i l es = plain_loop s ?n ?l es"
        by (subst plain_loop.simps) (simp only: i None if_True option.case)
      have "i < ?n" using next_special_ge [of "i + 1" s] i by simp
      then have "st < ?n" if "?l = Some st" for st
        using that "1.prems"(2) by (cases l) fastforce+
      with "1.IH"(1) [OF i None next_special_le] obtain new ps where
        "plain_loop s ?n ?l es = es @ new" "list_all2 spells new ps"
        "drop (case ?l of Some st \<Rightarrow> st | None \<Rightarrow> ?n) s = concat ps" by blast
      then show ?thesis unfolding r by auto
    next
      case (Some ej)
      obtain e j where ej: "ej = (e, j)" by fastforce
      let ?chars = "case l of Some start \<Rightarrow> [Chars (slice s start i)] | None \<Rightarrow> []"
      let ?texts = "case l of Some start \<Rightarrow> [slice s start i] | None \<Rightarrow> []"
      have sp: "j \<le> length s" "spells e (slice s i j)" "i < j"
        using element_at_spells [of s i e j] element_at_forward [of s None i e j] Some ej i by simp_all
      have r: "plain_loop s i l es = plain_loop s j None (es @ ?chars @ [e])"
        by (subst plain_loop.simps) (simp only: i Some ej if_True option.case prod.case)
      obtain new ps where n: "plain_loop s j None (es @ ?chars @ [e]) = (es @ ?chars @ [e]) @ new"
        "list_all2 spells new ps" "drop j s = concat ps"
        using "1.IH"(2) [OF i Some ej [symmetric] sp(1)] by auto
      have len: "length (slice s st i) = i - st" if "l = Some st" for st
        using i "1.prems"(2) [OF that] by (simp add: slice_def)
      have "list_all2 spells ?chars ?texts"
      proof (cases l)
        case (Some st)
        with len [OF Some] "1.prems"(2) [OF Some] show ?thesis by (auto simp flip: length_greater_0_conv)
      qed simp
      moreover have "drop (case l of Some st \<Rightarrow> st | None \<Rightarrow> i) s = concat (?texts @ [slice s i j] @ ps)"
      proof (cases l)
        case None
        then show ?thesis using drop_slice [of i j s] sp(3) n(3) by simp
      next
        case (Some st)
        have "drop st s = slice s st i @ slice s i j @ drop j s"
          using drop_slice [of st i s] drop_slice [of i j s] "1.prems"(2) [OF Some] sp(3) by simp
        with Some n(3) show ?thesis by simp
      qed
      moreover have "list_all2 spells ([e] @ new) ([slice s i j] @ ps)" using sp(2) n(2) by simp
      moreover have "plain_loop s i l es = es @ (?chars @ [e] @ new)" using r n(1) by simp
      ultimately show ?thesis by (blast intro: list_all2_appendI)
    qed
  qed
qed

section \<open>Printing a chain of calls\<close>

text \<open>A chain as a script author writes it: keys with quoted arguments, joined by dots.\<close>

definition show_literal :: "ustr \<Rightarrow> ustr" where
  "show_literal x = 39 # x @ [39]"

fun show_call :: "ustr \<times> ustr list \<Rightarrow> ustr" where
  "show_call (k, xs) =
     k @ (if xs = [] then [] else asc CHR ''('' # join (str '', '') (map show_literal xs) @ [asc CHR '')''])"

fun call_of :: "ustr \<times> ustr list \<Rightarrow> jomini_command" where
  "call_of (k, xs) = JominiCommand k (map JLiteral xs)"

definition chain_key :: "ustr \<Rightarrow> bool" where
  "chain_key k \<longleftrightarrow> k \<noteq> [] \<and> set k \<inter> set (str ''.( ,'') = {}"

definition chain_literal :: "ustr \<Rightarrow> bool" where
  "chain_literal x \<longleftrightarrow> set x \<inter> set (str '',)'') = {}"

lemma trim_quoted: "(\<And>c. c \<in> set ws \<Longrightarrow> is_whitespace c) \<Longrightarrow> trim (ws @ show_literal x) = show_literal x"
proof -
  assume "\<And>c. c \<in> set ws \<Longrightarrow> is_whitespace c"
  then have "trim_start (ws @ show_literal x) = show_literal x"
    by (simp add: trim_start_def show_literal_def dropWhile_append2 is_whitespace_def)
  then show ?thesis by (simp add: trim_def trim_end_def show_literal_def is_whitespace_def)
qed

lemma parse_quoted:
  "(\<And>c. c \<in> set ws \<Longrightarrow> is_whitespace c) \<Longrightarrow> parse_jomini_param (ws @ show_literal x) = Inr (JLiteral x)"
  by (subst parse_jomini_param.simps) (simp add: trim_quoted, simp add: show_literal_def butlast_append)

lemma params_loop_text:
  "set u \<inter> set (str '',)'') = {} \<Longrightarrow> params_loop (u @ rest) ps current = params_loop rest ps (current @ u)"
  by (induction u arbitrary: current) (auto simp: params_loop.simps)

lemma show_literal_clean: "chain_literal x \<Longrightarrow> set (show_literal x) \<inter> set (str '',)'') = {}"
  by (auto simp: chain_literal_def show_literal_def)

lemma params_loop_literals:
  "xs \<noteq> [] \<Longrightarrow> (\<And>x. x \<in> set xs \<Longrightarrow> chain_literal x) \<Longrightarrow> (\<And>c. c \<in> set ws \<Longrightarrow> c = 32)
   \<Longrightarrow> params_loop (join (str '', '') (map show_literal xs) @ asc CHR '')'' # rest) ps ws
       = Inr (ps @ map JLiteral xs)"
proof (induction xs arbitrary: ps ws rule: list_nonempty_induct)
  case (single x)
  have w: "\<And>c. c \<in> set ws \<Longrightarrow> is_whitespace c" using single(2) by (auto simp: is_whitespace_def)
  have "show_literal x \<noteq> []" by (simp add: show_literal_def)
  then show ?case
    using params_loop_text [OF show_literal_clean [OF single(1)], of x "asc CHR '')'' # rest" ps ws]
    by (simp add: params_loop.simps trim_quoted [OF w] parse_quoted [OF w])
next
  case (cons x xs)
  have w: "\<And>c. c \<in> set ws \<Longrightarrow> is_whitespace c" using cons.prems(2) by (auto simp: is_whitespace_def)
  have ne: "show_literal x \<noteq> []" by (simp add: show_literal_def)
  have x: "chain_literal x" using cons.prems(1) by simp
  obtain y ys where xs: "xs = y # ys" using cons.hyps by (cases xs) auto
  let ?rest = "join (str '', '') (map show_literal xs) @ asc CHR '')'' # rest"
  have "params_loop (join (str '', '') (map show_literal (x # xs)) @ asc CHR '')'' # rest) ps ws
      = params_loop (asc CHR '','' # asc CHR '' '' # ?rest) ps (ws @ show_literal x)"
    using params_loop_text [OF show_literal_clean [OF x], of "asc CHR '','' # asc CHR '' '' # ?rest" ps ws]
    by (simp add: xs)
  also have "\<dots> = params_loop ?rest (ps @ [JLiteral x]) [32]"
    by (simp add: params_loop.simps trim_quoted [OF w] parse_quoted [OF w] ne)
  also have "\<dots> = Inr ((ps @ [JLiteral x]) @ map JLiteral xs)"
    by (rule cons.IH) (use cons.prems(1) in auto)
  finally show ?case by simp
qed

lemma after_params_close: "asc CHR '')'' \<notin> set u \<Longrightarrow> after_params (u @ asc CHR '')'' # rest) = rest"
  by (subst after_params_def, subst dropWhile_append2) auto

lemma join_literals_open:
  "(\<And>x. x \<in> set xs \<Longrightarrow> chain_literal x) \<Longrightarrow> asc CHR '')'' \<notin> set (join (str '', '') (map show_literal xs))"
  by (induction xs rule: induct_list012) (auto simp: chain_literal_def show_literal_def)

lemma jomini_loop_key:
  "set k \<inter> set (str ''.( ,'') = {} \<Longrightarrow> jomini_loop (k @ rest) cs current = jomini_loop rest cs (current @ k)"
  by (induction k arbitrary: current) (auto simp: jomini_loop.simps)

lemma jomini_loop_call:
  assumes "chain_key k" and "\<And>x. x \<in> set xs \<Longrightarrow> chain_literal x"
  shows "jomini_loop (show_call (k, xs) @ rest) cs [] =
      (if xs = [] then jomini_loop rest cs k
       else jomini_loop rest (cs @ [JominiCommand k (map JLiteral xs)]) [])"
proof (cases "xs = []")
  case True
  then show ?thesis using assms(1) jomini_loop_key [of k rest cs "[]"] by (simp add: chain_key_def)
next
  case False
  let ?args = "join (str '', '') (map show_literal xs)"
  have "jomini_loop (show_call (k, xs) @ rest) cs [] = jomini_loop (asc CHR ''('' # ?args @ asc CHR '')'' # rest) cs k"
    using assms(1) False jomini_loop_key [of k "asc CHR ''('' # ?args @ asc CHR '')'' # rest" cs "[]"]
    by (simp add: chain_key_def)
  also have "\<dots> = jomini_loop rest (cs @ [JominiCommand k (map JLiteral xs)]) []"
    using params_loop_literals [of xs "[]" rest "[]"] False assms(2)
      after_params_close [OF join_literals_open, of xs rest]
    by (simp add: jomini_loop.simps)
  finally show ?thesis using False by simp
qed

lemma jomini_loop_chain:
  "(\<And>k xs. (k, xs) \<in> set calls \<Longrightarrow> chain_key k \<and> (\<forall>x\<in>set xs. chain_literal x)) \<Longrightarrow>
   jomini_loop (join (str ''.'') (map show_call calls)) cs [] = Inr (cs @ map call_of calls)"
proof (induction calls arbitrary: cs rule: induct_list012)
  case (2 call)
  obtain k xs where c: "call = (k, xs)" by fastforce
  have "k \<noteq> []" using 2 [of k xs] c by (simp add: chain_key_def)
  then show ?case using jomini_loop_call [of k xs "[]" cs] 2 [of k xs] c by (simp add: jomini_loop.simps)
next
  case (3 call call' calls)
  obtain k xs where c: "call = (k, xs)" by fastforce
  let ?rest = "join (str ''.'') (map show_call (call' # calls))"
  have ok: "k \<noteq> []" "chain_key k" "\<And>x. x \<in> set xs \<Longrightarrow> chain_literal x"
    using 3(3) [of k xs] c by (simp_all add: chain_key_def)
  have "jomini_loop (join (str ''.'') (map show_call (call # call' # calls))) cs []
      = jomini_loop (show_call (k, xs) @ asc CHR ''.'' # ?rest) cs []" using c by simp
  also have "\<dots> = jomini_loop ?rest (cs @ [call_of call]) []"
    using jomini_loop_call [OF ok(2,3), of xs "asc CHR ''.'' # ?rest" cs] ok(1) c by (simp add: jomini_loop.simps)
  also have "\<dots> = Inr ((cs @ [call_of call]) @ map call_of (call' # calls))"
    using 3(2) [of "cs @ [call_of call]"] 3(3) by fastforce
  finally show ?case by simp
qed (simp add: jomini_loop.simps)

section \<open>Properties\<close>

text \<open>The cache of unmatched brackets does not show: the loop of \<^verbatim>\<open>parse_loc_elements\<close>,
  which finds the brackets that close nothing once and then skips them, gives the elements of
  the scan that tries every bracket.\<close>
theorem parse_loc_elements_uncached: "parse_loc_elements s = plain_loop s 0 None []"
  using elements_loop_plain [of s None 0 None "[]"] by (simp add: parse_loc_elements_def cache_ok_def)

text \<open>Nothing of a localisation value is lost or invented: the value is the concatenation of
  one piece for each element, in order, where a text is itself and not empty, a reference is
  \<^verbatim>\<open>$key$\<close> or \<^verbatim>\<open>$key|format$\<close> with a key of the allowed characters, and a command or a
  parsed chain is the bracketed text it was read from.\<close>
theorem parse_loc_elements_cover: "\<exists>ps. s = concat ps \<and> list_all2 spells (parse_loc_elements s) ps"
  using plain_loop_covers [of 0 s None "[]"] elements_loop_plain [of s None 0 None "[]"]
  by (auto simp: parse_loc_elements_def cache_ok_def)

text \<open>A chain of calls with quoted arguments, written out, parses back to itself.\<close>
theorem parse_jomini_roundtrip:
  assumes "\<And>k xs. (k, xs) \<in> set calls \<Longrightarrow> chain_key k \<and> (\<forall>x\<in>set xs. chain_literal x)"
  shows "parse_jomini (join (str ''.'') (map show_call calls)) = Inr (map call_of calls)"
  using jomini_loop_chain [OF assms, of calls "[]"] by (simp add: parse_jomini_def)

theorem parse_jomini_roundtrip_witness:
  "parse_jomini (str ''Root.GetName('a.b', 'c').Custom'')
     = Inr [JominiCommand (str ''Root'') [], JominiCommand (str ''GetName'') [JLiteral (str ''a.b''), JLiteral (str ''c'')],
            JominiCommand (str ''Custom'') []]"
proof -
  let ?calls = "[(str ''Root'', []), (str ''GetName'', [str ''a.b'', str ''c'']), (str ''Custom'', [])]"
  have "parse_jomini (join (str ''.'') (map show_call ?calls)) = Inr (map call_of ?calls)"
    by (rule parse_jomini_roundtrip) (auto simp: chain_key_def chain_literal_def)
  then show ?thesis by (simp add: show_literal_def)
qed

text \<open>Every language is read back from the name it is shown under, in any letter case and with
  space around it, and from that name as a file header (\<^verbatim>\<open>l_english\<close>).\<close>
theorem lang_name_roundtrip:
  "to_ascii_lowercase (trim s) = lang_display l \<Longrightarrow>
   lang_from_name s = Some l \<and> key_to_language (str ''l_'' @ trim s) = Some l"
  by (cases l) (simp_all add: lang_from_name_def key_to_language_def Let_def ascii_lower_def is_ascii_uppercase_def)

theorem lang_name_roundtrip_witness:
  "lang_from_name (str ''  Braz_Por '') = Some BrazPor \<and> key_to_language (str ''l_Braz_Por'') = Some BrazPor"
  using lang_name_roundtrip [of "str ''  Braz_Por ''" BrazPor]
  by (simp add: trim_def trim_start_def trim_end_def is_whitespace_def ascii_lower_def is_ascii_uppercase_def)

end
