(* ===== verification/Loc_Yaml.thy ===== *)
theory Loc_Yaml
  imports Loc_String
begin

text \<open>
  Localisation files: \<^verbatim>\<open>engine/crates/localization/src/yaml_parser.rs\<close>, the line format of
  the \<^verbatim>\<open>.yml\<close> files, \<^verbatim>\<open>csv_parser.rs\<close>, the column format of the older games, and the
  records of \<^verbatim>\<open>commands.rs\<close>.  Columns are kept as the source computes them: a byte length
  stays a byte length (\<open>blen\<close>), a count of characters a count of characters.
\<close>

section \<open>Records\<close>

record loc_position =
  lpos_stream :: ustr
  lpos_line :: nat
  lpos_column :: nat

record loc_entry =
  le_key :: ustr
  le_value :: "nat option"
  le_desc :: ustr
  le_position :: loc_position
  le_desc_column :: nat
  le_error_range :: "loc_position option"
  le_refs :: "ustr list"
  le_commands :: "ustr list"
  le_jomini :: "jomini_command list list"

text \<open>The message of a parse error, up to the rendering of the text it quotes.\<close>

datatype loc_message = UnexpectedContent ustr

record loc_parse_error =
  lpe_line :: nat
  lpe_message :: loc_message

datatype file_encoding = Utf8Bom | Utf8NoBom | NonUtf8

record loc_file =
  lf_path :: ustr
  lf_language_prefix :: ustr
  lf_lang :: "lang option"
  lf_is_csv :: bool
  lf_entries :: "loc_entry list"
  lf_parse_errors :: "loc_parse_error list"
  lf_encoding :: "file_encoding option"

datatype missing_bom = MissingBomDiagnostic ustr

datatype lang_header_diag =
    MissingLocFileLangHeader ustr
  | MissingLocFileLang ustr
  | LocFileLangMismatch ustr lang lang

datatype loc_file_parse_error = EmptyFile | MissingColon ustr

section \<open>File-level checks\<close>

definition check_utf8_bom :: "nat list \<Rightarrow> ustr \<Rightarrow> missing_bom + unit" where
  "check_utf8_bom bytes file =
     (if length bytes \<ge> 3 \<and> take 3 bytes = [0xEF, 0xBB, 0xBF] then Inr () else Inl (MissingBomDiagnostic file))"

definition lang_from_filename :: "ustr \<Rightarrow> lang option" where
  "lang_from_filename stem =
     (let lower = to_ascii_lowercase stem in
      if contains_str lower (str ''l_english'') then Some English
      else if contains_str lower (str ''l_french'') then Some French
      else if contains_str lower (str ''l_german'') then Some German
      else if contains_str lower (str ''l_spanish'') then Some Spanish
      else if contains_str lower (str ''l_russian'') then Some Russian
      else if contains_str lower (str ''l_polish'') then Some Polish
      else if contains_str lower (str ''l_braz_por'') then Some BrazPor
      else if contains_str lower (str ''l_simp_chinese'') then Some SimpChinese
      else if contains_str lower (str ''l_japanese'') then Some Japanese
      else if contains_str lower (str ''l_korean'') then Some Korean
      else if contains_str lower (str ''l_turkish'') then Some Turkish
      else if contains_str lower (str ''l_default'') then Some Default
      else None)"

text \<open>\<^verbatim>\<open>Path::file_name\<close> for paths separated by \<^verbatim>\<open>/\<close>, and \<^verbatim>\<open>file_stem\<close>, \<^verbatim>\<open>extension\<close>: a name is
  divided at its last dot, unless that dot is its first character.\<close>

definition file_name :: "ustr \<Rightarrow> ustr option" where
  "file_name path =
     (case rev (filter (\<lambda>p. p \<noteq> [] \<and> p \<noteq> str ''.'') (split_char (asc CHR ''/'') path)) of
        [] \<Rightarrow> None
      | name # _ \<Rightarrow> if name = str ''..'' then None else Some name)"

definition divide_name :: "ustr \<Rightarrow> ustr \<times> ustr option" where
  "divide_name name =
     (let ext = rev (takeWhile (\<lambda>c. c \<noteq> asc CHR ''.'') (rev name));
          stem = butlast (take (length name - length ext) name)
      in if stem = [] then (name, None) else (stem, Some ext))"

definition file_stem :: "ustr \<Rightarrow> ustr option" where
  "file_stem path = map_option (fst \<circ> divide_name) (file_name path)"

definition file_extension :: "ustr \<Rightarrow> ustr option" where
  "file_extension path = Option.bind (file_name path) (snd \<circ> divide_name)"

definition check_loc_file_lang :: "ustr \<Rightarrow> ustr \<Rightarrow> lang_header_diag option" where
  "check_loc_file_lang file header_key =
     (let stem = (case file_stem file of Some s \<Rightarrow> s | None \<Rightarrow> file) in
      if eq_ignore_ascii_case stem (str ''languages'') then None
      else
        (let header_lang = key_to_language header_key in
         if eq_ignore_ascii_case header_key (str ''l_default'') then None
         else
           (case header_lang of
              None \<Rightarrow> Some (MissingLocFileLangHeader file)
            | Some header_lang \<Rightarrow>
                (case lang_from_filename stem of
                   None \<Rightarrow> Some (MissingLocFileLang file)
                 | Some filename_lang \<Rightarrow>
                     if filename_lang \<noteq> header_lang
                     then Some (LocFileLangMismatch file filename_lang header_lang)
                     else None))))"

section \<open>Values\<close>

definition is_loc_value_char :: "uchar \<Rightarrow> bool" where
  "is_loc_value_char u \<longleftrightarrow>
     is_ascii_alphabetic u
     \<or> (0x20 \<le> u \<and> u \<le> 0x7E) \<or> (0xA0 \<le> u \<and> u \<le> 0x24F) \<or> (0x400 \<le> u \<and> u \<le> 0x52F)
     \<or> (0x1E00 \<le> u \<and> u \<le> 0x1EFF) \<or> (0x2010 \<le> u \<and> u \<le> 0x2044) \<or> (0x2460 \<le> u \<and> u \<le> 0x24FF)
     \<or> (0x4E00 \<le> u \<and> u \<le> 0x9FFF) \<or> (0x3000 \<le> u \<and> u \<le> 0x30FF) \<or> (0x3400 \<le> u \<and> u \<le> 0x4DBF)
     \<or> (0xFE30 \<le> u \<and> u \<le> 0xFE4F) \<or> (0xFF00 \<le> u \<and> u \<le> 0xFFEF) \<or> (0x1100 \<le> u \<and> u \<le> 0x11FF)
     \<or> (0x3130 \<le> u \<and> u \<le> 0x318F) \<or> (0xAC00 \<le> u \<and> u \<le> 0xD7A3) \<or> (0x600 \<le> u \<and> u \<le> 0x6FF)
     \<or> (0x750 \<le> u \<and> u \<le> 0x77F) \<or> (0xFB50 \<le> u \<and> u \<le> 0xFDFF) \<or> (0xFE70 \<le> u \<and> u \<le> 0xFEFF)
     \<or> (0x250 \<le> u \<and> u \<le> 0x2FF) \<or> (0x300 \<le> u \<and> u \<le> 0x36F) \<or> (0x370 \<le> u \<and> u \<le> 0x3FF)
     \<or> (0x531 \<le> u \<and> u \<le> 0x58F) \<or> (0x900 \<le> u \<and> u \<le> 0x97F) \<or> (0x1200 \<le> u \<and> u \<le> 0x137F)
     \<or> (0x20A0 \<le> u \<and> u \<le> 0x20CF) \<or> (0x2100 \<le> u \<and> u \<le> 0x218F) \<or> (0x2190 \<le> u \<and> u \<le> 0x21FF)
     \<or> (0x2D30 \<le> u \<and> u \<le> 0x2D7F)"

text \<open>The byte offset of the first character the games cannot show.\<close>

fun invalid_loop :: "ustr \<Rightarrow> nat \<Rightarrow> nat option" where
  "invalid_loop [] offset = None"
| "invalid_loop (c # cs) offset = (if is_loc_value_char c then invalid_loop cs (offset + utf8_len c) else Some offset)"

definition find_invalid_loc_char :: "ustr \<Rightarrow> nat option" where
  "find_invalid_loc_char desc = invalid_loop desc 0"

text \<open>The loop over \<^verbatim>\<open>char_indices\<close>: \<^verbatim>\<open>quotes\<close> and \<^verbatim>\<open>last_quote\<close> at the end.\<close>

fun quote_loop :: "ustr \<Rightarrow> nat \<Rightarrow> bool \<Rightarrow> nat \<Rightarrow> nat \<Rightarrow> nat \<times> nat" where
  "quote_loop [] pos escaped quotes last_quote = (quotes, last_quote)"
| "quote_loop (ch # cs) pos escaped quotes last_quote =
     (let hit = (ch = 34 \<and> \<not> escaped) in
      quote_loop cs (pos + 1) (ch = 92 \<and> \<not> escaped)
        (if hit then quotes + 1 else quotes) (if hit then pos else last_quote))"

definition value_without_trailing_comment :: "ustr \<Rightarrow> ustr" where
  "value_without_trailing_comment desc =
     (let search =
        (if starts_with (trim_start desc) [34]
         then (let (quotes, last_quote) = quote_loop desc 0 False 0 0 in
               if quotes < 2 then None else Some (last_quote + 1))
         else Some 0)
      in case search of
           None \<Rightarrow> desc
         | Some search \<Rightarrow>
             (case position_of (\<lambda>c. c = asc CHR ''#'') (drop search desc) of
                None \<Rightarrow> desc
              | Some offset \<Rightarrow> take (search + offset) desc))"

section \<open>Entries\<close>

abbreviation MAX_LOC_VALUE_BYTES :: nat where
  "MAX_LOC_VALUE_BYTES \<equiv> 64 * 1024"

fun element_refs :: "loc_element \<Rightarrow> ustr list" where
  "element_refs (Ref s) = [s]" | "element_refs _ = []"

fun element_commands :: "loc_element \<Rightarrow> ustr list" where
  "element_commands (Command s) = [s]" | "element_commands _ = []"

fun element_jomini :: "loc_element \<Rightarrow> jomini_command list list" where
  "element_jomini (Jomini cmds) = [cmds]" | "element_jomini _ = []"

definition desc_elements :: "ustr \<Rightarrow> loc_element list" where
  "desc_elements desc =
     (if blen desc > MAX_LOC_VALUE_BYTES then []
      else parse_loc_elements (value_without_trailing_comment desc))"

definition is_entry_line :: "ustr \<Rightarrow> bool" where
  "is_entry_line line \<longleftrightarrow> trim_start line \<noteq> [] \<and> \<not> starts_with (trim_start line) (str ''#'')"

definition parse_entry :: "ustr \<Rightarrow> nat \<Rightarrow> ustr \<Rightarrow> loc_parse_error + loc_entry option" where
  "parse_entry line line_idx stream_name =
     (let trimmed = trim_start line in
      if \<not> is_entry_line line then Inr None
      else
        (case split_once (asc CHR '':'') trimmed of
           None \<Rightarrow> Inl \<lparr>lpe_line = line_idx + 1, lpe_message = UnexpectedContent trimmed\<rparr>
         | Some (before, after) \<Rightarrow>
             (let key = trim_end before;
                  digits = takeWhile is_ascii_digit after;
                  version = (if digits = [] then None else parse_u32 digits);
                  remainder = drop (length digits) after;
                  desc = (case strip_prefix (str '' '') remainder of Some r \<Rightarrow> r | None \<Rightarrow> remainder);
                  position = \<lparr>lpos_stream = stream_name, lpos_line = line_idx + 1, lpos_column = 1\<rparr>;
                  leading_ws = blen line - blen trimmed;
                  desc_col_offset = leading_ws + (blen trimmed - blen desc);
                  error_range =
                    map_option
                      (\<lambda>byte_off.
                         (let col = desc_col_offset + (case take_bytes byte_off desc of Some t \<Rightarrow> length t | None \<Rightarrow> 0) + 1
                          in \<lparr>lpos_stream = stream_name, lpos_line = line_idx + 1, lpos_column = col\<rparr>))
                      (find_invalid_loc_char desc);
                  elements = desc_elements desc
              in Inr (Some
                   \<lparr>le_key = key, le_value = version, le_desc = desc, le_position = position,
                    le_desc_column = desc_col_offset, le_error_range = error_range,
                    le_refs = concat (map element_refs elements),
                    le_commands = concat (map element_commands elements),
                    le_jomini = concat (map element_jomini elements)\<rparr>))))"

text \<open>The header loop: the first line that is neither blank nor a comment, and the lines after it.\<close>

fun header_loop :: "(nat \<times> ustr) list \<Rightarrow> (ustr \<times> (nat \<times> ustr) list) option" where
  "header_loop [] = None"
| "header_loop ((i, line) # rest) = (if is_entry_line line then Some (line, rest) else header_loop rest)"

fun entry_loop ::
  "(nat \<times> ustr) list \<Rightarrow> ustr \<Rightarrow> loc_entry list \<Rightarrow> loc_parse_error list \<Rightarrow> loc_entry list \<times> loc_parse_error list" where
  "entry_loop [] stream_name entries parse_errors = (entries, parse_errors)"
| "entry_loop ((i, line) # rest) stream_name entries parse_errors =
     (case parse_entry line i stream_name of
        Inr (Some entry) \<Rightarrow> entry_loop rest stream_name (entries @ [entry]) parse_errors
      | Inr None \<Rightarrow> entry_loop rest stream_name entries parse_errors
      | Inl pe \<Rightarrow> entry_loop rest stream_name entries (parse_errors @ [pe]))"

definition parse_loc_text :: "ustr \<Rightarrow> ustr \<Rightarrow> loc_file_parse_error + loc_file" where
  "parse_loc_text raw name =
     (let content = dropWhile (\<lambda>c. c = 0xFEFF) raw in
      case header_loop (enumerate 0 (str_lines content)) of
        None \<Rightarrow> Inl EmptyFile
      | Some (header, body) \<Rightarrow>
          (case split_once (asc CHR '':'') header of
             None \<Rightarrow> Inl (MissingColon header)
           | Some (before, _) \<Rightarrow>
               (let language_key = trim before;
                    (entries, parse_errors) = entry_loop body name [] []
                in Inr \<lparr>lf_path = name, lf_language_prefix = language_key,
                        lf_lang = key_to_language language_key, lf_is_csv = False,
                        lf_entries = entries, lf_parse_errors = parse_errors, lf_encoding = None\<rparr>)))"

section \<open>Columns\<close>

definition CK2_COLUMN_LANGS :: "lang option list" where
  "CK2_COLUMN_LANGS = [None, Some English, Some French, Some German, None, Some Spanish]"

definition csv_cell :: "ustr \<Rightarrow> bool \<Rightarrow> nat \<Rightarrow> ustr \<Rightarrow> ustr list \<Rightarrow> nat \<Rightarrow> lang \<Rightarrow> ustr \<times> lang \<times> loc_entry" where
  "csv_cell stream_name has_bom line_num line parts col_idx lang =
     (let key = trim (hd parts);
          leading_ws = length line - length (trim_start line);
          desc = (if col_idx < length parts then parts ! col_idx else []);
          prefix_chars = sum_list (map length (take (min col_idx (length parts)) parts)) + col_idx;
          desc_column = leading_ws + prefix_chars + (if has_bom \<and> line_num = 0 then 1 else 0)
      in (key, lang,
          \<lparr>le_key = key, le_value = None, le_desc = desc,
           le_position = \<lparr>lpos_stream = stream_name, lpos_line = line_num + 1, lpos_column = 1\<rparr>,
           le_desc_column = desc_column, le_error_range = None, le_refs = [], le_commands = [], le_jomini = []\<rparr>))"

definition csv_line ::
  "ustr \<Rightarrow> bool \<Rightarrow> lang option list \<Rightarrow> nat \<times> ustr \<Rightarrow> (ustr \<times> lang \<times> loc_entry) list" where
  "csv_line stream_name has_bom column_langs = (\<lambda>(line_num, line).
     (let trimmed = trim line in
      if trimmed = [] \<or> starts_with trimmed (str ''#'') then []
      else
        (let parts = split_char (asc CHR '';'') trimmed in
         if trim (hd parts) = [] then []
         else
           concat (map (\<lambda>(col_idx, maybe_lang).
               (case maybe_lang of
                  None \<Rightarrow> []
                | Some lang \<Rightarrow> [csv_cell stream_name has_bom line_num line parts col_idx lang]))
             (drop 1 (enumerate 0 column_langs))))))"

definition parse_csv_loc_per_lang :: "ustr \<Rightarrow> ustr \<Rightarrow> lang option list option \<Rightarrow> (ustr \<times> lang \<times> loc_entry) list" where
  "parse_csv_loc_per_lang raw name column_langs =
     (let column_langs = (case column_langs of Some ls \<Rightarrow> ls | None \<Rightarrow> CK2_COLUMN_LANGS);
          has_bom = starts_with raw [0xFEFF];
          content = (case strip_prefix [0xFEFF] raw of Some t \<Rightarrow> t | None \<Rightarrow> raw)
      in concat (map (csv_line name has_bom column_langs) (enumerate 0 (str_lines content))))"

section \<open>Printing a file\<close>

fun entry_line :: "ustr \<times> nat option \<times> ustr \<Rightarrow> ustr" where
  "entry_line (k, v, d) =
     asc CHR '' '' # k @ asc CHR '':'' # (case v of Some n \<Rightarrow> show_nat n | None \<Rightarrow> []) @ asc CHR '' '' # d"

definition loc_text :: "lang \<Rightarrow> (ustr \<times> nat option \<times> ustr) list \<Rightarrow> ustr" where
  "loc_text l items =
     0xFEFF # concat (map (\<lambda>ln. ln @ [10]) ((str ''l_'' @ lang_display l @ str '':'') # map entry_line items))"

definition loc_key :: "ustr \<Rightarrow> bool" where
  "loc_key k \<longleftrightarrow> k \<noteq> [] \<and> asc CHR '':'' \<notin> set k \<and> 10 \<notin> set k \<and> hd k \<noteq> asc CHR ''#''
     \<and> \<not> is_whitespace (hd k) \<and> \<not> is_whitespace (last k)"

fun loc_item :: "ustr \<times> nat option \<times> ustr \<Rightarrow> bool" where
  "loc_item (k, v, d) \<longleftrightarrow> loc_key k \<and> (case v of Some n \<Rightarrow> n < 2 ^ 32 | None \<Rightarrow> True)
     \<and> 10 \<notin> set d \<and> (d = [] \<or> last d \<noteq> 13)"

lemma digits_value_snoc: "digits_value (s @ [c]) = 10 * digits_value s + (c - 48)"
  by (simp add: digits_value_def)

lemma show_nat_digits: "digits_value (show_nat n) = n \<and> list_all is_ascii_digit (show_nat n) \<and> show_nat n \<noteq> []"
proof (induction n rule: show_nat.induct)
  case (1 n)
  show ?case
  proof (cases "n < 10")
    case True
    then show ?thesis by (subst (1 2 3) show_nat.simps) (simp add: digits_value_def is_ascii_digit_def)
  next
    case False
    have "is_ascii_digit (48 + n mod 10)" by (simp add: is_ascii_digit_def less_Suc_eq_le [symmetric])
    with 1 [OF False] False show ?thesis by (subst (1 2 3) show_nat.simps) (simp add: digits_value_snoc)
  qed
qed

lemma parse_u32_show: "n < 2 ^ 32 \<Longrightarrow> parse_u32 (show_nat n) = Some n"
proof -
  assume n: "n < 2 ^ 32"
  obtain c cs where s: "show_nat n = c # cs" using show_nat_digits [of n] by (cases "show_nat n") auto
  have "c \<noteq> asc CHR ''+''" using show_nat_digits [of n] s by (auto simp: is_ascii_digit_def)
  then show ?thesis using show_nat_digits [of n] s n by (simp add: parse_u32_def)
qed

lemma lines_from_piece: "10 \<notin> set l \<Longrightarrow> lines_from acc (l @ 10 # rest) = strip_cr (acc @ l) # lines_from [] rest"
  by (induction l arbitrary: acc) auto

lemma str_lines_concat:
  "(\<And>l. l \<in> set ls \<Longrightarrow> 10 \<notin> set l \<and> (l = [] \<or> last l \<noteq> 13)) \<Longrightarrow>
   str_lines (concat (map (\<lambda>l. l @ [10]) ls)) = ls"
proof (induction ls)
  case (Cons l ls)
  have "strip_cr l = l" using Cons.prems [of l] by (auto simp: strip_cr_def)
  with Cons show ?case by (simp add: str_lines_def lines_from_piece)
qed (simp add: str_lines_def)

lemma trim_start_indent: "(\<And>c. c \<in> set ws \<Longrightarrow> is_whitespace c) \<Longrightarrow> s \<noteq> [] \<Longrightarrow> \<not> is_whitespace (hd s) \<Longrightarrow> trim_start (ws @ s) = s"
  by (cases s) (simp_all add: trim_start_def dropWhile_append2)

lemma trim_end_id: "s \<noteq> [] \<Longrightarrow> \<not> is_whitespace (last s) \<Longrightarrow> trim_end s = s"
  by (cases s rule: rev_cases) (simp_all add: trim_end_def)

lemma invalid_loop_eq:
  "invalid_loop d off = (if list_all is_loc_value_char d then None else Some (off + blen (takeWhile is_loc_value_char d)))"
  by (induction d arbitrary: off) auto

lemma find_invalid_loc_char_eq:
  "find_invalid_loc_char d =
     (if list_all is_loc_value_char d then None else Some (blen (takeWhile is_loc_value_char d)))"
  by (simp add: find_invalid_loc_char_def invalid_loop_eq)

lemma take_bytes_valid: "take_bytes (blen (takeWhile P d)) d = Some (takeWhile P d)"
  by (metis take_bytes_blen takeWhile_dropWhile_id)

text \<open>What a well-formed line parses to.\<close>

lemma parse_entry_line:
  assumes k: "loc_key k" and v: "case v of Some n \<Rightarrow> n < 2 ^ 32 | None \<Rightarrow> True"
    and ws: "\<And>c. c \<in> set ws \<Longrightarrow> is_whitespace c"
  defines "digits \<equiv> (case v of Some n \<Rightarrow> show_nat n | None \<Rightarrow> [])"
  defines "column \<equiv> blen ws + blen k + 1 + blen digits + 1"
  shows "parse_entry (ws @ k @ asc CHR '':'' # digits @ asc CHR '' '' # d) i name
     = Inr (Some \<lparr>le_key = k, le_value = v, le_desc = d,
         le_position = \<lparr>lpos_stream = name, lpos_line = i + 1, lpos_column = 1\<rparr>,
         le_desc_column = column,
         le_error_range =
           (if list_all is_loc_value_char d then None
            else Some \<lparr>lpos_stream = name, lpos_line = i + 1,
                       lpos_column = column + length (takeWhile is_loc_value_char d) + 1\<rparr>),
         le_refs = concat (map element_refs (desc_elements d)),
         le_commands = concat (map element_commands (desc_elements d)),
         le_jomini = concat (map element_jomini (desc_elements d))\<rparr>)"
proof -
  let ?after = "digits @ asc CHR '' '' # d" and ?line = "ws @ k @ asc CHR '':'' # digits @ asc CHR '' '' # d"
  have kk: "k \<noteq> []" "asc CHR '':'' \<notin> set k" "hd k \<noteq> asc CHR ''#''" "\<not> is_whitespace (hd k)" "\<not> is_whitespace (last k)"
    using k by (simp_all add: loc_key_def)
  have t: "trim_start ?line = k @ asc CHR '':'' # ?after"
    using trim_start_indent [of ws "k @ asc CHR '':'' # ?after"] ws kk by simp
  have entry: "is_entry_line ?line"
    unfolding is_entry_line_def t using kk by (cases k) auto
  have split: "split_once (asc CHR '':'') (k @ asc CHR '':'' # ?after) = Some (k, ?after)"
    by (rule split_once_append [OF kk(2)])
  have digs: "list_all is_ascii_digit digits" using show_nat_digits by (simp add: digits_def split: option.split)
  have tw: "takeWhile is_ascii_digit ?after = digits"
    using digs by (subst takeWhile_append2) (auto simp: list_all_iff is_ascii_digit_def)
  have ver: "(if digits = [] then None else parse_u32 digits) = v"
    using v show_nat_digits parse_u32_show by (auto simp: digits_def split: option.splits)
  have col: "blen ?line - blen (trim_start ?line) + (blen (trim_start ?line) - blen d) = column"
    unfolding t column_def by simp
  show ?thesis
    unfolding parse_entry_def Let_def t split option.case prod.case tw trim_end_id [OF kk(1,5)] ver
    using entry col t by (simp add: find_invalid_loc_char_eq take_bytes_valid)
qed

section \<open>Every line is read\<close>

definition is_malformed_line :: "ustr \<Rightarrow> bool" where
  "is_malformed_line line \<longleftrightarrow> is_entry_line line \<and> asc CHR '':'' \<notin> set (trim_start line)"

lemma parse_entry_cases:
  "(case parse_entry line i name of
      Inl pe \<Rightarrow> is_malformed_line line \<and> lpe_line pe = i + 1
    | Inr None \<Rightarrow> \<not> is_entry_line line
    | Inr (Some e) \<Rightarrow> is_entry_line line \<and> \<not> is_malformed_line line \<and> lpos_line (le_position e) = i + 1)"
proof (cases "is_entry_line line")
  case False
  then show ?thesis by (simp add: parse_entry_def)
next
  case True
  show ?thesis
  proof (cases "split_once (asc CHR '':'') (trim_start line)")
    case None
    then show ?thesis using True split_once_None_iff [of "asc CHR '':''" "trim_start line"]
      by (simp add: parse_entry_def Let_def is_malformed_line_def)
  next
    case (Some ba)
    obtain b a where ba: "ba = (b, a)" by fastforce
    with Some have "asc CHR '':'' \<in> set (trim_start line)"
      using split_once_SomeD [of "asc CHR '':''" "trim_start line" b a] by simp
    with True Some ba show ?thesis by (simp add: parse_entry_def Let_def is_malformed_line_def)
  qed
qed

lemma entry_loop_append: "entry_loop body name es ps = (es @ fst (entry_loop body name [] []), ps @ snd (entry_loop body name [] []))"
proof (induction body arbitrary: es ps)
  case (Cons il body)
  obtain i line where il: "il = (i, line)" by fastforce
  show ?case
  proof (cases "parse_entry line i name")
    case (Inl pe)
    then show ?thesis using il by (simp add: Cons [of es] Cons [of "[]" "[pe]"])
  next
    case (Inr e)
    then show ?thesis using il by (cases e) (simp add: Cons [of es ps], simp add: Cons [of "es @ _"] Cons [of "[_]"])
  qed
qed simp

lemma entry_loop_lines:
  "map (lpos_line \<circ> le_position) (fst (entry_loop body name [] []))
     = map (\<lambda>(i, line). i + 1) (filter (\<lambda>(i, line). is_entry_line line \<and> \<not> is_malformed_line line) body)
   \<and> map lpe_line (snd (entry_loop body name [] []))
     = map (\<lambda>(i, line). i + 1) (filter (\<lambda>(i, line). is_malformed_line line) body)"
proof (induction body)
  case (Cons il body)
  obtain i line where il: "il = (i, line)" by fastforce
  have m: "is_malformed_line line \<Longrightarrow> is_entry_line line" by (simp add: is_malformed_line_def)
  show ?case
  proof (cases "parse_entry line i name")
    case (Inl pe)
    then show ?thesis using Cons parse_entry_cases [of line i name] il
      by (simp add: entry_loop_append [of body name "[]" "[pe]"])
  next
    case (Inr e)
    then show ?thesis using Cons parse_entry_cases [of line i name] il m
      by (cases e) (auto simp: entry_loop_append [of body name "[_]"])
  qed
qed simp

section \<open>Comments after a quoted value\<close>

lemma quote_loop_plain:
  "34 \<notin> set u \<Longrightarrow> 92 \<notin> set u \<Longrightarrow> quote_loop (u @ rest) pos False q l = quote_loop rest (pos + length u) False q l"
  by (induction u arbitrary: pos) auto

lemma quote_loop_none: "34 \<notin> set u \<Longrightarrow> quote_loop u pos e q l = (q, l)"
  by (induction u arbitrary: pos e) auto

lemma position_of_first: "(\<And>c. c \<in> set u \<Longrightarrow> \<not> P c) \<Longrightarrow> P x \<Longrightarrow> position_of P (u @ x # v) = Some (length u)"
  by (subst position_of_def, subst takeWhile_append2) auto

lemma whitespace_plain: "is_whitespace c \<Longrightarrow> c \<noteq> 34 \<and> c \<noteq> 92"
  by (auto simp: is_whitespace_def)

section \<open>Columns of a comma-separated file\<close>

lemma split_char_at:
  "j < length (split_char x s) \<Longrightarrow>
   \<exists>rest. drop (sum_list (map length (take j (split_char x s))) + j) s = split_char x s ! j @ rest"
proof (induction x s arbitrary: j rule: split_char.induct)
  case (1 x)
  then show ?case by simp
next
  case (2 x c cs)
  show ?case
  proof (cases "c = x")
    case True
    then show ?thesis using 2(1) [OF True] 2(3) by (cases j) auto
  next
    case False
    obtain p ps where p: "split_char x cs = p # ps" by (cases "split_char x cs") auto
    show ?thesis
    proof (cases j)
      case 0
      then show ?thesis using 2(2) [OF False, of 0] p False by auto
    next
      case (Suc k)
      then show ?thesis using 2(2) [OF False, of j] 2(3) p False by auto
    qed
  qed
qed

lemma trim_parts:
  obtains a b where "line = a @ trim line @ b" "length a = length line - length (trim_start line)"
proof -
  obtain a where a: "line = a @ trim_start line" using trim_start_suffix [of line] by (auto simp: suffix_def)
  obtain b where b: "trim_start line = trim line @ b"
    by (metis (no_types) rev_append rev_rev_ident suffix_def suffix_dropWhile trim_def trim_end_def)
  have "length a = length line - length (trim_start line)"
    using arg_cong [OF a, of length] by simp
  with a b that show ?thesis by metis
qed

lemma csv_cell_column:
  fixes line stream has_bom n langs j l
  defines "parts \<equiv> split_char (asc CHR '';'') (trim line)"
  defines "e \<equiv> snd (snd (csv_cell stream has_bom n line parts j l))"
  assumes "j < length parts"
  shows "take (length (le_desc e)) (drop (le_desc_column e - (if has_bom \<and> n = 0 then 1 else 0)) line) = le_desc e"
proof -
  let ?off = "sum_list (map length (take j parts)) + j" and ?ws = "length line - length (trim_start line)"
  obtain rest where rest: "drop ?off (trim line) = parts ! j @ rest"
    using split_char_at [of j "asc CHR '';''" "trim line"] assms(3) unfolding parts_def by blast
  obtain a b where a: "line = a @ trim line @ b" "length a = ?ws" using trim_parts by blast
  have "drop (?ws + ?off) line = drop ?off (trim line @ b)"
    by (subst (3) a(1)) (simp add: a(2) [symmetric])
  then have d: "take (length (parts ! j)) (drop (?ws + ?off) line) = parts ! j"
    using rest by (cases "?off \<le> length (trim line)") (auto dest: arg_cong [of _ _ length])
  have "le_desc e = parts ! j" "le_desc_column e - (if has_bom \<and> n = 0 then 1 else 0) = ?ws + ?off"
    using assms(3) by (simp_all add: e_def csv_cell_def Let_def min_def)
  with d show ?thesis by simp
qed

section \<open>Properties\<close>

lemma entry_line_parse:
  assumes "loc_item (k, v, d)"
  shows "\<exists>e. parse_entry (entry_line (k, v, d)) i name = Inr (Some e)
    \<and> le_key e = k \<and> le_value e = v \<and> le_desc e = d \<and> lpos_line (le_position e) = i + 1"
proof -
  have "\<And>c. c \<in> set (str '' '') \<Longrightarrow> is_whitespace c" by (simp add: is_whitespace_def)
  from parse_entry_line [of k v "str '' ''" d i name, OF _ _ this] assms show ?thesis by simp
qed

lemma entry_line_clean:
  assumes "loc_item (k, v, d)" shows "10 \<notin> set (entry_line (k, v, d)) \<and> last (entry_line (k, v, d)) \<noteq> 13"
proof -
  have "10 \<notin> set (show_nat n)" for n using show_nat_digits [of n] by (auto simp: list_all_iff is_ascii_digit_def)
  with assms show ?thesis by (auto simp: loc_key_def split: option.split)
qed

lemma entry_loop_items:
  "(\<And>x. x \<in> set items \<Longrightarrow> loc_item x) \<Longrightarrow>
   \<exists>es. entry_loop (enumerate n (map entry_line items)) name [] [] = (es, [])
     \<and> map (\<lambda>e. (le_key e, le_value e, le_desc e)) es = items
     \<and> map (\<lambda>e. lpos_line (le_position e)) es = [n + 1 ..< n + 1 + length items]"
proof (induction items arbitrary: n)
  case (Cons x items)
  obtain k v d where x: "x = (k, v, d)" using prod_cases3 by blast
  obtain e where e: "parse_entry (entry_line (k, v, d)) n name = Inr (Some e)" "le_key e = k" "le_value e = v"
    "le_desc e = d" "lpos_line (le_position e) = n + 1"
    using entry_line_parse [of k v d n name] Cons.prems [of x] x by auto
  obtain es where es: "entry_loop (enumerate (Suc n) (map entry_line items)) name [] [] = (es, [])"
    "map (\<lambda>e. (le_key e, le_value e, le_desc e)) es = items"
    "map (\<lambda>e. lpos_line (le_position e)) es = [Suc n + 1 ..< Suc n + 1 + length items]"
    using Cons.IH [of "Suc n"] Cons.prems by auto
  have "[n + 1 ..< n + 1 + length (x # items)] = (n + 1) # [Suc n + 1 ..< Suc n + 1 + length items]"
    by (subst upt_conv_Cons) simp_all
  moreover have "entry_loop (enumerate n (map entry_line (x # items))) name [] [] = (e # es, [])"
    using e(1) es(1) x by (simp del: entry_line.simps add: entry_loop_append [of _ _ "[e]"])
  ultimately show ?case using e es(2,3) x
    by (intro exI [of _ "e # es"]) simp
qed simp

lemma lang_header_line:
  "let header = str ''l_'' @ lang_display l @ str '':'' in
     is_entry_line header \<and> split_once (asc CHR '':'') header = Some (str ''l_'' @ lang_display l, [])
     \<and> trim (str ''l_'' @ lang_display l) = str ''l_'' @ lang_display l
     \<and> key_to_language (str ''l_'' @ lang_display l) = Some l \<and> 10 \<notin> set header \<and> last header \<noteq> 13"
  by (cases l) (simp_all add: is_entry_line_def trim_def trim_start_def trim_end_def is_whitespace_def
      key_to_language_def ascii_lower_def is_ascii_uppercase_def)

text \<open>C29. A localisation file round-trips.  Written out under the byte order mark and its language's
  header, a list of keys, optional version numbers and values parses to exactly these entries, in
  order, one for each line from the second, with the file's language and no parse error.\<close>
theorem parse_loc_text_roundtrip:
  assumes "\<And>x. x \<in> set items \<Longrightarrow> loc_item x"
  shows "\<exists>f. parse_loc_text (loc_text l items) name = Inr f \<and> lf_lang f = Some l \<and> lf_parse_errors f = []
     \<and> map (\<lambda>e. (le_key e, le_value e, le_desc e)) (lf_entries f) = items
     \<and> map (\<lambda>e. lpos_line (le_position e)) (lf_entries f) = [2 ..< 2 + length items]"
proof -
  let ?header = "str ''l_'' @ lang_display l @ str '':''"
  note h = lang_header_line [of l, unfolded Let_def]
  have body: "dropWhile (\<lambda>c. c = 0xFEFF) (loc_text l items)
      = concat (map (\<lambda>ln. ln @ [10]) (?header # map entry_line items))"
    by (simp add: loc_text_def)
  have "10 \<notin> set ln \<and> (ln = [] \<or> last ln \<noteq> 13)" if "ln \<in> set (?header # map entry_line items)" for ln
  proof (cases "ln = ?header")
    case True
    with h show ?thesis by blast
  next
    case False
    with that obtain x where x: "x \<in> set items" "ln = entry_line x" by auto
    obtain k v d where "x = (k, v, d)" using prod_cases3 by blast
    with x assms entry_line_clean [of k v d] show ?thesis by blast
  qed
  then have lines: "str_lines (dropWhile (\<lambda>c. c = 0xFEFF) (loc_text l items)) = ?header # map entry_line items"
    unfolding body by (rule str_lines_concat)
  obtain es where es: "entry_loop (enumerate 1 (map entry_line items)) name [] [] = (es, [])"
    "map (\<lambda>e. (le_key e, le_value e, le_desc e)) es = items"
    "map (\<lambda>e. lpos_line (le_position e)) es = [2 ..< 2 + length items]"
    using entry_loop_items [OF assms, of items 1 name, unfolded one_add_one] by blast
  have "header_loop (enumerate 0 (?header # map entry_line items))
      = Some (?header, enumerate 1 (map entry_line items))"
    using h by (simp only: enumerate_simps header_loop.simps if_True One_nat_def)
  with lines h es show ?thesis by (simp add: parse_loc_text_def Let_def del: append.simps)
qed

theorem parse_loc_text_roundtrip_witness:
  "\<exists>f. parse_loc_text (loc_text French [(str ''my_key.t'', Some 0, str ''\"Bonjour $x$\"''), (str ''b'', None, [])]) (str ''x.yml'') = Inr f
     \<and> map le_key (lf_entries f) = [str ''my_key.t'', str ''b'']"
proof -
  let ?items = "[(str ''my_key.t'', Some 0, str ''\"Bonjour $x$\"''), (str ''b'', None, [])]"
  have "loc_item (str ''my_key.t'', Some 0, str ''\"Bonjour $x$\"'')" "loc_item (str ''b'', None, [])"
    by (simp_all add: loc_key_def is_whitespace_def)
  moreover define items :: "(ustr \<times> nat option \<times> ustr) list" where "items = ?items"
  ultimately have ok: "loc_item x" if "x \<in> set items" for x using that by auto
  obtain f where f: "parse_loc_text (loc_text French items) (str ''x.yml'') = Inr f"
    "map (\<lambda>e. (le_key e, le_value e, le_desc e)) (lf_entries f) = items"
    using parse_loc_text_roundtrip [of items French "str ''x.yml''", OF ok] by blast
  from arg_cong [OF f(2), of "map fst"] have "map le_key (lf_entries f) = [str ''my_key.t'', str ''b'']"
    by (simp add: comp_def items_def)
  with f(1) have "\<exists>f. parse_loc_text (loc_text French items) (str ''x.yml'') = Inr f
      \<and> map le_key (lf_entries f) = [str ''my_key.t'', str ''b'']" by (intro exI [of _ f] conjI)
  then show ?thesis unfolding items_def .
qed

lemma header_loop_split:
  "header_loop ls = Some (header, body) \<Longrightarrow>
   \<exists>before i. ls = before @ (i, header) # body \<and> (\<forall>(j, ln) \<in> set before. \<not> is_entry_line ln) \<and> is_entry_line header"
proof (induction ls rule: header_loop.induct)
  case (2 i line rest)
  show ?case
  proof (cases "is_entry_line line")
    case True
    with 2(2) show ?thesis by (intro exI [of _ "[]"]) auto
  next
    case False
    with 2 obtain before j where "rest = before @ (j, header) # body" "\<forall>(j, ln) \<in> set before. \<not> is_entry_line ln" "is_entry_line header"
      by auto
    with False show ?thesis by (intro exI [of _ "(i, line) # before"]) auto
  qed
qed simp

text \<open>No line of a localisation file is dropped: before the header there are only blank lines and
  comments, and after it the entries are, by line number and in order, the lines with a colon and the
  parse errors the lines without one, blank lines and comments left out.\<close>
theorem parse_loc_text_lines:
  assumes "parse_loc_text raw name = Inr f"
  shows "\<exists>before i header body.
     enumerate 0 (str_lines (dropWhile (\<lambda>c. c = 0xFEFF) raw)) = before @ (i, header) # body
     \<and> (\<forall>(j, ln) \<in> set before. \<not> is_entry_line ln) \<and> is_entry_line header
     \<and> map (\<lambda>e. lpos_line (le_position e)) (lf_entries f)
         = map (\<lambda>(j, ln). j + 1) (filter (\<lambda>(j, ln). is_entry_line ln \<and> \<not> is_malformed_line ln) body)
     \<and> map lpe_line (lf_parse_errors f)
         = map (\<lambda>(j, ln). j + 1) (filter (\<lambda>(j, ln). is_malformed_line ln) body)"
proof -
  obtain header body where hb: "header_loop (enumerate 0 (str_lines (dropWhile (\<lambda>c. c = 0xFEFF) raw))) = Some (header, body)"
    using assms by (auto simp: parse_loc_text_def Let_def split: option.splits)
  obtain es ps where ep: "entry_loop body name [] [] = (es, ps)" by fastforce
  have "lf_entries f = es" "lf_parse_errors f = ps"
    using assms hb ep by (auto simp: parse_loc_text_def Let_def split: option.splits prod.splits)
  with entry_loop_lines [of body name] ep header_loop_split [OF hb] show ?thesis
    by (simp only: comp_def fst_conv snd_conv) blast
qed

theorem parse_loc_text_lines_witness:
  "\<exists>f. parse_loc_text (str ''l_english:'' @ [10] @ str '' a: 1'' @ [10] @ str ''oops'') [] = Inr f
     \<and> length (lf_entries f) + length (lf_parse_errors f) = 2"
proof -
  let ?raw = "str ''l_english:'' @ [10] @ str '' a: 1'' @ [10] @ str ''oops''"
  have e: "enumerate 0 (str_lines (dropWhile (\<lambda>c. c = 0xFEFF) ?raw))
      = [(0, str ''l_english:''), (1, str '' a: 1''), (2, str ''oops'')]"
    by (simp add: str_lines_def strip_cr_def)
  have parses: "case parse_loc_text ?raw [] of Inl _ \<Rightarrow> False | Inr _ \<Rightarrow> True" by code_simp
  obtain f where f: "parse_loc_text ?raw [] = Inr f"
    using parses by (cases "parse_loc_text ?raw []") simp_all
  from parse_loc_text_lines [OF f, unfolded e] obtain before i header body where
    b: "[(0, str ''l_english:''), (1, str '' a: 1''), (2, str ''oops'')] = before @ (i, header) # body"
    "\<forall>(j, ln) \<in> set before. \<not> is_entry_line ln"
    "map (\<lambda>e. lpos_line (le_position e)) (lf_entries f)
       = map (\<lambda>(j, ln). j + 1) (filter (\<lambda>(j, ln). is_entry_line ln \<and> \<not> is_malformed_line ln) body)"
    "map lpe_line (lf_parse_errors f) = map (\<lambda>(j, ln). j + 1) (filter (\<lambda>(j, ln). is_malformed_line ln) body)"
    by blast
  have ok: "is_entry_line (str ''l_english:'')" "is_entry_line (str '' a: 1'')" "is_entry_line (str ''oops'')"
    by (simp_all add: is_entry_line_def trim_start_def is_whitespace_def)
  with b(1,2) have body: "body = [(1, str '' a: 1''), (2, str ''oops'')]" by (cases before) auto
  have "length (lf_entries f) + length (lf_parse_errors f) = length body"
    using arg_cong [OF b(3), of length] arg_cong [OF b(4), of length] ok body
    by (simp add: is_malformed_line_def trim_start_def is_whitespace_def)
  with f body show ?thesis by simp
qed

text \<open>A comment after a quoted value is not part of it, and a hash inside the quotes is.  (The
  comment holds no quote and the value neither quote nor backslash; with a quote in the comment the
  last quote wins, as in the game.)\<close>
theorem quoted_value_ends_at_comment:
  assumes "\<And>c. c \<in> set ws \<Longrightarrow> is_whitespace c" and "34 \<notin> set body" "92 \<notin> set body"
    and "34 \<notin> set between" "asc CHR ''#'' \<notin> set between" and "34 \<notin> set comment"
  shows "value_without_trailing_comment (ws @ 34 # body @ 34 # between @ asc CHR ''#'' # comment)
     = ws @ 34 # body @ 34 # between"
proof -
  let ?tail = "between @ asc CHR ''#'' # comment" and ?d = "ws @ 34 # body @ 34 # between @ asc CHR ''#'' # comment"
  have ws: "34 \<notin> set ws" "92 \<notin> set ws" using assms(1) whitespace_plain by blast+
  have quoted: "starts_with (trim_start ?d) [34]"
    using trim_start_indent [of ws "34 # body @ 34 # ?tail"] assms(1) by (simp add: is_whitespace_def)
  have "34 \<notin> set ?tail" using assms by simp
  then have loop: "quote_loop ?d 0 False 0 0 = (2, length ws + length body + 1)"
    using quote_loop_plain [OF ws] quote_loop_plain [OF assms(2,3)] by (simp add: quote_loop_none)
  have "position_of (\<lambda>c. c = asc CHR ''#'') ?tail = Some (length between)"
    using assms(5) by (intro position_of_first) auto
  then show ?thesis using quoted loop by (simp add: value_without_trailing_comment_def)
qed

theorem quoted_value_ends_at_comment_witness:
  "value_without_trailing_comment (str ''\"a #1\" # note'') = str ''\"a #1\" ''"
  using quoted_value_ends_at_comment [of "[]" "str ''a #1''" "str '' ''" "str '' note''"] by simp

text \<open>In a comma-separated file the recorded column addresses the text: each entry is the cell
  found at that column of its line (past the byte order mark on the first), counted in characters.\<close>
theorem csv_column_addresses_cell:
  assumes "(k, l, e) \<in> set (csv_line stream has_bom langs (n, line))" and "le_desc e \<noteq> []"
  shows "take (length (le_desc e)) (drop (le_desc_column e - (if has_bom \<and> n = 0 then 1 else 0)) line) = le_desc e
     \<and> lpos_line (le_position e) = n + 1 \<and> Some l \<in> set langs"
proof -
  let ?parts = "split_char (asc CHR '';'') (trim line)"
  obtain j where j: "(j, Some l) \<in> set (drop 1 (enumerate 0 langs))" "(k, l, e) = csv_cell stream has_bom n line ?parts j l"
    using assms(1) by (auto simp: csv_line_def Let_def csv_cell_def split: if_splits option.splits)
  have "le_desc e = (if j < length ?parts then ?parts ! j else [])"
    using j(2) by (simp add: csv_cell_def Let_def)
  with assms(2) have "j < length ?parts" by (simp split: if_splits)
  moreover have "e = snd (snd (csv_cell stream has_bom n line ?parts j l))" by (metis j(2) snd_conv)
  moreover have "Some l \<in> set langs" using in_set_dropD [OF j(1)] by (auto simp: in_set_enumerate_eq intro: nth_mem dest: sym)
  moreover have "lpos_line (le_position e) = n + 1" using j(2) by (simp add: csv_cell_def Let_def)
  ultimately show ?thesis using csv_cell_column [of j line stream has_bom n l] by simp
qed

theorem csv_column_addresses_cell_witness:
  "take 3 (drop 9 (str '' KEY;Foo;Bar;'')) = str ''Bar''"
proof -
  let ?line = "str '' KEY;Foo;Bar;''"
  let ?e = "\<lparr>le_key = str ''KEY'', le_value = None, le_desc = str ''Bar'',
    le_position = \<lparr>lpos_stream = [], lpos_line = 1, lpos_column = 1\<rparr>, le_desc_column = 9,
    le_error_range = None, le_refs = [], le_commands = [], le_jomini = []\<rparr>"
  have "(str ''KEY'', French, ?e) \<in> set (csv_line [] False CK2_COLUMN_LANGS (0, ?line))"
    by code_simp
  from csv_column_addresses_cell [OF this] show ?thesis by simp
qed

text \<open>The column of a value counts the bytes before it, not the characters: a two-byte letter in the key
  moves it one past the value's first character.\<close>

lemma desc_column_counts_bytes:
  "\<exists>e. parse_entry [32, 233, 58, 32, 34, 120, 34] 1 [] = Inr (Some e)
     \<and> le_desc e = [34, 120, 34] \<and> le_desc_column e = 5 \<and> [32, 233, 58, 32, 34, 120, 34] ! 4 = (34 :: nat)"
  by (simp add: parse_entry_def is_entry_line_def trim_start_def trim_end_def is_whitespace_def is_ascii_digit_def
      utf8_len_def Let_def)

end
