(* ===== verification/Loc_Validation.thy ===== *)
theory Loc_Validation
  imports Loc_Yaml Text_Fix
begin

text \<open>
  The checks of localisation entries,
  \<^verbatim>\<open>engine/crates/localization/src/validation.rs\<close>: references, quotes, placeholders,
  characters, and the fix that puts a value in quotes.  The Unicode tables behind
  \<^verbatim>\<open>str::to_lowercase\<close> and \<^verbatim>\<open>char::is_lowercase\<close> are the functions of a record \<open>unicode\<close>;
  the sets of keys are sets, because the checks only ask for membership.
\<close>

section \<open>Errors\<close>

record unicode =
  uc_lowercase :: "ustr \<Rightarrow> ustr"
  uc_is_lowercase :: "uchar \<Rightarrow> bool"

datatype loc_error_kind =
    UndefinedLocReference ustr
  | RecursiveLocRef
  | ReplaceMe
  | LocMissingQuote
  | LocInvalidChars
  | LocKeyInvalidChars

record loc_validation_error =
  lve_line :: nat
  lve_col :: nat
  lve_key :: ustr
  lve_kind :: loc_error_kind
  lve_fix :: "suggested_fix option"

text \<open>An error of the given kind at the entry's position.\<close>

definition entry_error :: "loc_entry \<Rightarrow> loc_error_kind \<Rightarrow> suggested_fix option \<Rightarrow> loc_validation_error" where
  "entry_error entry kind fx =
     \<lparr>lve_line = lpos_line (le_position entry), lve_col = lpos_column (le_position entry),
      lve_key = le_key entry, lve_kind = kind, lve_fix = fx\<rparr>"

section \<open>Quotes\<close>

text \<open>\<^verbatim>\<open>trim_matches('"')\<close> and \<^verbatim>\<open>rfind\<close>.\<close>

definition trim_quotes :: "ustr \<Rightarrow> ustr" where
  "trim_quotes s = rev (dropWhile (\<lambda>c. c = 34) (rev (dropWhile (\<lambda>c. c = 34) s)))"

definition rfind :: "uchar \<Rightarrow> ustr \<Rightarrow> nat option" where
  "rfind c s = map_option (\<lambda>n. length s - 1 - n) (position_of (\<lambda>x. x = c) (rev s))"

definition cw268_quote_fix :: "loc_entry \<Rightarrow> suggested_fix option" where
  "cw268_quote_fix entry =
     (let desc = le_desc entry;
          lead = length desc - length (trim_start desc);
          trimmed = trim desc in
      if trimmed = [] then None
      else
        (let inner = trim_quotes trimmed in
         if 34 \<in> set inner \<or> asc CHR ''#'' \<in> set trimmed then None
         else
           (let start_col = le_desc_column entry + lead;
                end_col = start_col + length trimmed in
            if start_col > 65535 \<or> end_col > 65535 then None
            else
              (let line = lpos_line (le_position entry) mod 2 ^ 32;
                   rng = \<lparr>range_start = \<lparr>pos_line = line, pos_col = min start_col 65535\<rparr>,
                          range_end = \<lparr>pos_line = line, pos_col = min end_col 65535\<rparr>\<rparr>
               in Some (SuggestedFix_replace (str ''Wrap the value in quotes'') rng (34 # inner @ [34]))))))"

definition validate_quotes :: "loc_entry \<Rightarrow> bool" where
  "validate_quotes entry =
     (let trimmed = trim (le_desc entry);
          last_quote = rfind 34 trimmed;
          after_quote = (case last_quote of
              Some q \<Rightarrow> map_option (\<lambda>h. q + h) (position_of (\<lambda>c. c = asc CHR ''#'') (drop q trimmed))
            | None \<Rightarrow> None);
          first_hash_after_quote = (case after_quote of
              Some h \<Rightarrow> Some h
            | None \<Rightarrow> position_of (\<lambda>c. c = asc CHR ''#'') trimmed);
          effective = (case (first_hash_after_quote, last_quote) of
              (Some h, Some q) \<Rightarrow> if h > q then take h trimmed else trimmed
            | _ \<Rightarrow> trimmed);
          effective1 = (case rfind 34 effective of
              Some q \<Rightarrow> trim_end (take (q + 1) effective)
            | None \<Rightarrow> effective);
          starts = starts_with effective1 [34];
          ends = ends_with effective1 [34]
      in if starts \<and> ends \<and> blen effective1 = 1 then False else starts = ends)"

section \<open>Checks of one entry\<close>

definition is_valid_loc_key_char :: "uchar \<Rightarrow> bool" where
  "is_valid_loc_key_char c \<longleftrightarrow> is_ascii_alphanumeric c \<or> c = asc CHR ''_'' \<or> c = asc CHR ''.'' \<or> c = asc CHR ''-''"

text \<open>What each check pushes to the list of errors.\<close>

definition validate_key_chars :: "loc_entry \<Rightarrow> loc_validation_error list" where
  "validate_key_chars entry =
     (if list_ex (\<lambda>c. \<not> is_valid_loc_key_char c) (le_key entry)
      then [entry_error entry LocKeyInvalidChars None] else [])"

definition validate_invalid_chars :: "loc_entry \<Rightarrow> loc_validation_error list" where
  "validate_invalid_chars entry =
     (case le_error_range entry of
        Some rng \<Rightarrow> [\<lparr>lve_line = lpos_line rng, lve_col = lpos_column rng, lve_key = le_key entry,
                      lve_kind = LocInvalidChars, lve_fix = None\<rparr>]
      | None \<Rightarrow> [])"

definition is_replace_me :: "loc_entry \<Rightarrow> bool" where
  "is_replace_me entry \<longleftrightarrow>
     (let inner = trim_quotes (trim (le_desc entry)) in inner = str ''REPLACE_ME'' \<or> inner = str ''TODO_CD'')"

definition HARDCODED_LOC :: "ustr list" where
  "HARDCODED_LOC = map str [''Player'', ''Root'', ''From'', ''Prev'', ''Capital'', ''Random'', ''This'',
     ''Country'', ''Ruler'', ''GetName'', ''GetName2'', ''GetSpeciesName'', ''GetSpeciesNamePlural'',
     ''GetSpeciesAdj'', ''GetTitle'', ''Owner'', ''Controller'', ''GetGovernmentName'', ''GetClassName'',
     ''GetAdj'', ''GetIcon'', ''GetRegnalName'', ''Date'', ''GetDate'']"

definition hardcoded_loc_set :: "unicode \<Rightarrow> ustr set" where
  "hardcoded_loc_set U = uc_lowercase U ` set HARDCODED_LOC"

definition validate_ref ::
  "unicode \<Rightarrow> ustr set \<Rightarrow> ustr set \<Rightarrow> ustr set \<Rightarrow> ustr set \<Rightarrow> loc_entry \<Rightarrow> ustr \<Rightarrow> loc_validation_error list" where
  "validate_ref U all_keys additional_loc_keys extra_valid_refs hardcoded entry r =
     (let lowercase = uc_lowercase U r in
      if lowercase \<in> all_keys \<or> lowercase \<in> additional_loc_keys then
        (if lowercase = uc_lowercase U (le_key entry) \<and> lowercase \<notin> hardcoded
         then [entry_error entry RecursiveLocRef None] else [])
      else if lowercase \<in> extra_valid_refs then []
      else
        (let has_lower = list_ex (uc_is_lowercase U) r;
             first_space = position_of (\<lambda>c. c = asc CHR '' '') r;
             last_space = rfind (asc CHR '' '') r in
         if has_lower \<and> lowercase \<notin> hardcoded
            \<and> \<not> (first_space \<noteq> None \<and> last_space \<noteq> None \<and> first_space \<noteq> last_space)
         then [entry_error entry (UndefinedLocReference r) None] else []))"

definition validate_entry ::
  "unicode \<Rightarrow> ustr set \<Rightarrow> ustr set \<Rightarrow> ustr set \<Rightarrow> ustr set \<Rightarrow> loc_entry \<Rightarrow> loc_validation_error list" where
  "validate_entry U all_keys additional_loc_keys extra_valid_refs hardcoded entry =
     validate_key_chars entry
     @ validate_invalid_chars entry
     @ (if \<not> validate_quotes entry then [entry_error entry LocMissingQuote (cw268_quote_fix entry)] else [])
     @ concat (map (validate_ref U all_keys additional_loc_keys extra_valid_refs hardcoded entry) (le_refs entry))
     @ (if is_replace_me entry then [entry_error entry ReplaceMe None] else [])"

definition validate_loc_file_with_hardcoded ::
  "unicode \<Rightarrow> loc_file \<Rightarrow> ustr set \<Rightarrow> ustr set \<Rightarrow> ustr set \<Rightarrow> ustr set \<Rightarrow> loc_validation_error list" where
  "validate_loc_file_with_hardcoded U file all_keys additional_loc_keys extra_valid_refs hardcoded =
     concat (map (validate_entry U all_keys additional_loc_keys extra_valid_refs hardcoded) (lf_entries file))"

definition validate_loc_file ::
  "unicode \<Rightarrow> loc_file \<Rightarrow> ustr set \<Rightarrow> ustr set \<Rightarrow> ustr list \<Rightarrow> loc_validation_error list" where
  "validate_loc_file U file all_keys extra_valid_refs hardcoded_localisation =
     validate_loc_file_with_hardcoded U file all_keys {} extra_valid_refs (uc_lowercase U ` set hardcoded_localisation)"

section \<open>What the quote check asks for\<close>

lemma position_of_eq_None: "position_of P s = None \<longleftrightarrow> (\<forall>c \<in> set s. \<not> P c)"
proof
  assume "position_of P s = None"
  from position_of_None [OF this] show "\<forall>c \<in> set s. \<not> P c" by (metis set_takeWhileD)
next
  assume "\<forall>c \<in> set s. \<not> P c"
  then have "takeWhile (\<lambda>c. \<not> P c) s = s" by (simp add: takeWhile_eq_all_conv)
  then show "position_of P s = None" unfolding position_of_def Let_def by (simp only: less_irrefl if_False)
qed

lemma rfind_None [simp]: "c \<notin> set s \<Longrightarrow> rfind c s = None"
  by (auto simp: rfind_def position_of_eq_None)

lemma rfind_last: "c \<notin> set v \<Longrightarrow> rfind c (u @ c # v) = Some (length u)"
proof -
  assume "c \<notin> set v"
  then have "position_of (\<lambda>x. x = c) (rev v @ c # rev u) = Some (length (rev v))"
    by (intro position_of_first) auto
  then show ?thesis by (simp add: rfind_def)
qed

lemma trim_end_quote: "trim_end (u @ [34]) = u @ [34]"
  by (rule trim_end_id) (simp_all add: is_whitespace_def)

lemma validate_quotes_spec:
  "validate_quotes e \<longleftrightarrow>
     (let t = trim (le_desc e) in 34 \<notin> set t \<or> (hd t = 34 \<and> 2 \<le> count_list t 34))"
proof (cases "34 \<in> set (trim (le_desc e))")
  case False
  let ?t = "trim (le_desc e)"
  have "\<not> starts_with ?t [34]" "\<not> ends_with ?t [34]" using False by (auto simp: prefix_def suffix_def)
  with False show ?thesis by (simp add: validate_quotes_def Let_def split: option.split)
next
  case True
  let ?t = "trim (le_desc e)"
  from split_list_last [OF True] obtain u v where t: "?t = u @ 34 # v" "34 \<notin> set v" by blast
  have last: "rfind 34 ?t = Some (length u)" using rfind_last [OF t(2)] t(1) by simp
  have cut: "trim_end (take (q + 1) s) = u @ [34]" if "rfind 34 s = Some q" "\<exists>w. s = u @ 34 # w \<and> 34 \<notin> set w" for s q
  proof -
    from that(2) obtain w where w: "s = u @ 34 # w" "34 \<notin> set w" by blast
    with rfind_last [OF w(2)] that(1) have "q = length u" by simp
    with w show ?thesis by (simp add: trim_end_quote)
  qed
  have eff: "\<exists>w. take h ?t = u @ 34 # w \<and> 34 \<notin> set w" if "length u < h" for h
  proof -
    have "take h ?t = u @ 34 # take (h - length u - 1) v" using that t(1) by (cases "h - length u") simp_all
    moreover have "34 \<notin> set (take (h - length u - 1) v)" using t(2) by (meson in_set_takeD)
    ultimately show ?thesis by blast
  qed
  have whole: "\<exists>w. ?t = u @ 34 # w \<and> 34 \<notin> set w" using t by blast
  have rf: "rfind 34 s \<noteq> None" if "\<exists>w. s = u @ 34 # w \<and> 34 \<notin> set w" for s
    using that rfind_last by force
  let ?q = "Some (length u)"
  define hash where "hash = (case map_option (\<lambda>h. length u + h) (position_of (\<lambda>c. c = asc CHR ''#'') (drop (length u) ?t)) of
      Some h \<Rightarrow> Some h | None \<Rightarrow> position_of (\<lambda>c. c = asc CHR ''#'') ?t)"
  define effective where "effective = (case (hash, ?q) of (Some h, Some q) \<Rightarrow> if h > q then take h ?t else ?t | _ \<Rightarrow> ?t)"
  have e: "\<exists>w. effective = u @ 34 # w \<and> 34 \<notin> set w"
    unfolding effective_def using eff whole by (simp split: option.split)
  then have cut: "(case rfind 34 effective of Some q \<Rightarrow> trim_end (take (q + 1) effective) | None \<Rightarrow> effective) = u @ [34]"
    using rf [OF e] cut [OF _ e] by (auto split: option.split)
  have "validate_quotes e =
      (if starts_with (u @ [34]) [34] \<and> ends_with (u @ [34]) [34] \<and> blen (u @ [34]) = 1 then False
       else starts_with (u @ [34]) [34] = ends_with (u @ [34]) [34])"
    unfolding validate_quotes_def Let_def last option.case effective_def [symmetric, unfolded hash_def] cut ..
  also have "\<dots> \<longleftrightarrow> hd ?t = 34 \<and> 2 \<le> count_list ?t 34"
  proof (cases u)
    case Nil
    then show ?thesis using t by (simp add: count_list_0_iff)
  next
    case (Cons c cs)
    then show ?thesis using t utf8_len_pos [of c] by (auto simp: suffix_def)
  qed
  finally show ?thesis using True by (simp only: Let_def not_True_eq_False simp_thms)
qed

section \<open>A value in its line\<close>





section \<open>The fix for an unquoted value\<close>




section \<open>Properties\<close>

text \<open>What the quote check comes to: a value passes exactly when, trimmed, it has no quote, or starts
  with one and has a second one.  Where a hash stands makes no difference.\<close>
theorem validate_quotes_iff:
  "validate_quotes e \<longleftrightarrow>
     (let t = trim (le_desc e) in count_list t 34 = 0 \<or> (hd t = 34 \<and> 2 \<le> count_list t 34))"
  unfolding validate_quotes_spec count_list_0_iff ..



text \<open>Without the hypothesis that the text before the value is ASCII the repair fails: after a key with a
  two-byte letter the edit starts one character late, and the quote the value has stays beside the new one.\<close>

lemma quote_fix_misplaced:
  "(case parse_entry [32, 233, 58, 32, 34, 120] 0 [] of
      Inr (Some e) \<Rightarrow> Option.bind (cw268_quote_fix e) (\<lambda>fx. apply_edits [32, 233, 58, 32, 34, 120] (fix_edits fx))
    | _ \<Rightarrow> None) = Some [32, 233, 58, 32, 34, 34, 120, 34]"
  by code_simp

end
