(* ===== verification/Loc_Scopes.thy ===== *)
theory Loc_Scopes
  imports Loc_Yaml Scope_Rules
begin

text \<open>
  The scope checks of localisation commands,
  \<^verbatim>\<open>engine/crates/localization/src/scope_validation.rs\<close>: the chain of a bracketed command
  is walked through the scope engine (theory \<open>Scope_Engine\<close>), and at most one diagnostic is
  reported for it.  The registries of scripted names are functions given with the data.
\<close>

section \<open>Data\<close>

datatype loc_command_diagnostic =
    WrongScopeDiag ustr scope_id "scope_id list"
  | ChainEndsInScope ustr
  | NotFoundDiag ustr
  | ScriptedGuiNotFound ustr

record loc_scope_data =
  lsd_game :: "game option"
  lsd_terminal_commands :: "ustr list"
  lsd_question_mark_variable :: bool
  lsd_parameter_variables :: bool
  lsd_registry :: "scope_registry option"
  lsd_scripted_variables :: "(ustr \<Rightarrow> bool) option"
  lsd_scripted_locs :: "(ustr \<Rightarrow> bool) option"
  lsd_scripted_guis :: "(ustr \<Rightarrow> bool) option"

definition loc_scope_data_default :: loc_scope_data where
  "loc_scope_data_default =
     \<lparr>lsd_game = None, lsd_terminal_commands = [], lsd_question_mark_variable = True,
      lsd_parameter_variables = True, lsd_registry = None, lsd_scripted_variables = None,
      lsd_scripted_locs = None, lsd_scripted_guis = None\<rparr>"

definition build_loc_ctx :: "loc_scope_data \<Rightarrow> scope_id \<Rightarrow> scope_context" where
  "build_loc_ctx data initial =
     (case lsd_registry data of
        Some reg \<Rightarrow> from_registry reg initial
      | None \<Rightarrow> ScopeContext_new initial)"

section \<open>Names\<close>

definition is_bypass_prefix :: "ustr \<Rightarrow> loc_scope_data \<Rightarrow> bool" where
  "is_bypass_prefix lower data \<longleftrightarrow>
     starts_with lower (str ''event_target:'')
     \<or> starts_with lower (str ''scope:'')
     \<or> (lsd_parameter_variables data \<and> starts_with lower (str ''parameter:''))
     \<or> (lsd_question_mark_variable data \<and> starts_with lower (str ''?''))"

definition is_terminal_command :: "ustr \<Rightarrow> ustr list \<Rightarrow> bool" where
  "is_terminal_command lower terminal_set \<longleftrightarrow> starts_with lower (str ''get'') \<or> lower \<in> set terminal_set"

text \<open>\<^verbatim>\<open>str::parse::<f64>\<close> succeeds: an optional sign, then infinity, not-a-number, or digits with at most
  one point among them, at least one digit, and an optional exponent.\<close>

definition drop_sign :: "ustr \<Rightarrow> ustr" where
  "drop_sign s = (case s of c # cs \<Rightarrow> if c = asc CHR ''+'' \<or> c = asc CHR ''-'' then cs else s | [] \<Rightarrow> [])"

definition exponent_ok :: "ustr \<Rightarrow> bool" where
  "exponent_ok s \<longleftrightarrow>
     (case s of
        [] \<Rightarrow> True
      | c # cs \<Rightarrow> (c = asc CHR ''e'' \<or> c = asc CHR ''E'') \<and> drop_sign cs \<noteq> [] \<and> list_all is_ascii_digit (drop_sign cs))"

definition parses_f64 :: "ustr \<Rightarrow> bool" where
  "parses_f64 s \<longleftrightarrow>
     (let t = drop_sign s; lower = to_ascii_lowercase t in
      if lower = str ''inf'' \<or> lower = str ''infinity'' \<or> lower = str ''nan'' then True
      else
        (let whole = takeWhile is_ascii_digit t;
             rest = dropWhile is_ascii_digit t;
             (frac, tail) = (case rest of
                c # cs \<Rightarrow> if c = asc CHR ''.'' then (takeWhile is_ascii_digit cs, dropWhile is_ascii_digit cs) else ([], rest)
              | [] \<Rightarrow> ([], []))
         in (whole \<noteq> [] \<or> frac \<noteq> []) \<and> exponent_ok tail))"

definition is_known_name :: "ustr \<Rightarrow> (ustr \<Rightarrow> bool) option \<Rightarrow> bool" where
  "is_known_name segment lookup =
     (case lookup of
        None \<Rightarrow> False
      | Some lookup \<Rightarrow>
          (let name = trim (hd (split_char (asc CHR ''|'') segment)) in
           if name = [] \<or> asc CHR '':'' \<in> set name \<or> asc CHR ''$'' \<in> set name then True
           else parses_f64 name \<or> lookup name))"

definition reads_a_variable :: "ustr \<Rightarrow> loc_scope_data \<Rightarrow> bool" where
  "reads_a_variable segment data = is_known_name segment (lsd_scripted_variables data)"

definition is_scripted_loc :: "ustr \<Rightarrow> loc_scope_data \<Rightarrow> bool" where
  "is_scripted_loc segment data = is_known_name segment (lsd_scripted_locs data)"

text \<open>Whether the segment is a callback, and the diagnostics after it.\<close>

definition validate_scripted_gui_callback ::
  "ustr \<Rightarrow> loc_scope_data \<Rightarrow> loc_command_diagnostic list \<Rightarrow> bool \<times> loc_command_diagnostic list" where
  "validate_scripted_gui_callback segment data diags =
     (case strip_prefix (str ''!'') segment of
        None \<Rightarrow> (False, diags)
      | Some rest \<Rightarrow>
          (let callback = trim (hd (split_char (asc CHR ''|'') rest)) in
           (True,
            case lsd_scripted_guis data of
              Some lookup \<Rightarrow> if \<not> lookup callback then diags @ [ScriptedGuiNotFound callback] else diags
            | None \<Rightarrow> diags)))"

section \<open>Segments\<close>

datatype segment_pre = Bypass | TerminalStop | ScopeChange bool

definition classify_segment :: "ustr \<Rightarrow> bool \<Rightarrow> loc_scope_data \<Rightarrow> ustr list \<Rightarrow> segment_pre" where
  "classify_segment seg_lower is_last data terminal_set =
     (if is_bypass_prefix seg_lower data then Bypass
      else
        (let looks_terminal = is_terminal_command seg_lower terminal_set in
         if is_last \<and> looks_terminal then TerminalStop else ScopeChange looks_terminal))"

datatype scope_outcome =
    Advanced
  | AnyScopeOutcome
  | ValueEnd
  | ValueMid
  | Wrong ustr scope_id "scope_id list"
  | Unknown

fun classify_scope_result :: "scope_result \<Rightarrow> bool \<Rightarrow> scope_outcome" where
  "classify_scope_result (NewScope s keys) is_last = Advanced"
| "classify_scope_result VarFound is_last = Advanced"
| "classify_scope_result AnyScope is_last = AnyScopeOutcome"
| "classify_scope_result ValueFound is_last = (if is_last then ValueEnd else ValueMid)"
| "classify_scope_result (WrongScope command c expected) is_last = Wrong command c expected"
| "classify_scope_result NotFound is_last = Unknown"
| "classify_scope_result (VarNotFound v) is_last = Unknown"

section \<open>Command strings\<close>

fun command_loop ::
  "loc_scope_data \<Rightarrow> ustr \<Rightarrow> ustr list \<Rightarrow> scope_context \<Rightarrow> loc_command_diagnostic list \<Rightarrow> loc_command_diagnostic list" where
  "command_loop data cmd [] ctx diags = diags"
| "command_loop data cmd (seg # segs) ctx diags =
     (let is_last = (segs = []);
          callback = validate_scripted_gui_callback seg data diags in
      if is_last \<and> fst callback then snd callback
      else
        (case classify_segment (to_ascii_lowercase seg) is_last data (lsd_terminal_commands data) of
           Bypass \<Rightarrow> command_loop data cmd segs (push_scope SCOPE_ANY ctx) diags
         | TerminalStop \<Rightarrow> diags
         | ScopeChange looks_terminal \<Rightarrow>
             (let (result, ctx1) = change_scope seg ctx in
              case classify_scope_result result is_last of
                Wrong command c expected \<Rightarrow>
                  diags @ [WrongScopeDiag (command @ str '' (in '' @ cmd @ str '')'') c expected]
              | Unknown \<Rightarrow>
                  if is_last \<and> lsd_terminal_commands data \<noteq> [] \<and> \<not> looks_terminal
                     \<and> lsd_scripted_locs data \<noteq> None \<and> \<not> is_scripted_loc seg data
                  then command_loop data cmd segs ctx1 (diags @ [ChainEndsInScope cmd])
                  else if \<not> is_last then command_loop data cmd segs (push_scope SCOPE_ANY ctx1) diags
                  else command_loop data cmd segs ctx1 diags
              | _ \<Rightarrow> command_loop data cmd segs ctx1 diags)))"

definition validate_command_string ::
  "ustr \<Rightarrow> scope_id \<Rightarrow> loc_scope_data \<Rightarrow> loc_command_diagnostic list \<Rightarrow> loc_command_diagnostic list" where
  "validate_command_string cmd initial_scope data diags =
     (if is_bypass_prefix (to_ascii_lowercase cmd) data then diags
      else command_loop data cmd (split_char (asc CHR ''.'') cmd) (build_loc_ctx data initial_scope) diags)"

section \<open>Jomini chains\<close>

text \<open>The loop of \<^verbatim>\<open>validate_jomini_chain\<close>: \<open>lacks\<close> is \<^verbatim>\<open>lacks_loc_registry\<close>, \<open>lenient\<close> is
  \<^verbatim>\<open>had_lenient_intermediate\<close>.\<close>

fun chain_loop ::
  "loc_scope_data \<Rightarrow> bool \<Rightarrow> ustr list \<Rightarrow> scope_context \<Rightarrow> bool \<Rightarrow> loc_command_diagnostic list
   \<Rightarrow> loc_command_diagnostic list" where
  "chain_loop data lacks [] ctx lenient diags = diags"
| "chain_loop data lacks (seg # segs) ctx lenient diags =
     (let is_last = (segs = []);
          callback = validate_scripted_gui_callback seg data diags;
          seg_lower = to_ascii_lowercase seg in
      if is_last \<and> fst callback then snd callback
      else
        (case classify_segment seg_lower is_last data (lsd_terminal_commands data) of
           Bypass \<Rightarrow>
             chain_loop data lacks segs (push_scope SCOPE_ANY ctx)
               (if \<not> is_last \<and> \<not> starts_with seg_lower (str ''?'') then True else lenient) diags
         | TerminalStop \<Rightarrow> diags
         | ScopeChange looks_terminal \<Rightarrow>
             (let (result, ctx1) = change_scope seg ctx in
              case classify_scope_result result is_last of
                AnyScopeOutcome \<Rightarrow> chain_loop data lacks segs ctx1 (if \<not> is_last then True else lenient) diags
              | Advanced \<Rightarrow> chain_loop data lacks segs ctx1 lenient diags
              | ValueMid \<Rightarrow> chain_loop data lacks segs ctx1 lenient diags
              | ValueEnd \<Rightarrow> diags
              | Wrong command c expected \<Rightarrow> diags @ [WrongScopeDiag command c expected]
              | Unknown \<Rightarrow>
                  if is_last \<and> lsd_registry data \<noteq> None \<and> \<not> looks_terminal \<and> \<not> lenient \<and> \<not> lacks
                     \<and> \<not> reads_a_variable seg data \<and> \<not> is_scripted_loc seg data
                  then chain_loop data lacks segs ctx1 lenient (diags @ [NotFoundDiag seg])
                  else if \<not> is_last then chain_loop data lacks segs (push_scope SCOPE_ANY ctx1) True diags
                  else chain_loop data lacks segs ctx1 lenient diags)))"

definition validate_jomini_chain ::
  "jomini_command list \<Rightarrow> scope_id \<Rightarrow> loc_scope_data \<Rightarrow> loc_command_diagnostic list \<Rightarrow> loc_command_diagnostic list" where
  "validate_jomini_chain chain initial_scope data diags =
     (if chain = [] \<or> list_ex (\<lambda>cmd. jc_key cmd = []) chain then diags
      else
        (let ctx = build_loc_ctx data initial_scope;
             marker = strip_prefix (str ''?'') (jc_key (hd chain));
             has_q_mark = (lsd_question_mark_variable data \<and> marker \<noteq> None);
             reads_through_variable = (has_q_mark \<and> (case marker of Some m \<Rightarrow> reads_a_variable m data | None \<Rightarrow> False));
             lacks_variable_registry = (has_q_mark \<and> lsd_scripted_variables data = None);
             lacks_loc_registry = (\<not> has_q_mark \<and> lsd_scripted_locs data = None);
             had_lenient_intermediate = ((reads_through_variable \<or> lacks_variable_registry) \<and> length chain > 1)
         in chain_loop data lacks_loc_registry (map jc_key chain) ctx had_lenient_intermediate diags))"

definition validate_loc_commands :: "loc_entry \<Rightarrow> scope_id \<Rightarrow> loc_scope_data \<Rightarrow> loc_command_diagnostic list" where
  "validate_loc_commands entry initial_scope data =
     (if le_commands entry = [] \<and> le_jomini entry = [] then []
      else
        (let diags = fold (\<lambda>cmd diags. validate_command_string cmd initial_scope data diags) (le_commands entry) []
         in fold (\<lambda>chain diags. validate_jomini_chain chain initial_scope data diags) (le_jomini entry) diags))"

section \<open>One diagnostic at most\<close>

text \<open>What must hold of the data and the entry for a diagnostic to be reported.\<close>

definition loc_registry :: "loc_scope_data \<Rightarrow> scope_registry" where
  "loc_registry data = (case lsd_registry data of Some reg \<Rightarrow> reg | None \<Rightarrow> registry_default)"

fun justified :: "loc_scope_data \<Rightarrow> loc_command_diagnostic \<Rightarrow> bool" where
  "justified data (WrongScopeDiag command c expected) \<longleftrightarrow>
     reg_links (loc_registry data) \<noteq> [] \<and> expected \<noteq> [] \<and> list_all (\<lambda>s. \<not> is_subscope_or_eq (loc_registry data) c s) expected"
| "justified data (ChainEndsInScope command) \<longleftrightarrow>
     lsd_terminal_commands data \<noteq> [] \<and> (\<exists>lookup. lsd_scripted_locs data = Some lookup)"
| "justified data (NotFoundDiag command) \<longleftrightarrow>
     lsd_registry data \<noteq> None \<and> \<not> is_terminal_command (to_ascii_lowercase command) (lsd_terminal_commands data)
     \<and> \<not> reads_a_variable command data \<and> \<not> is_scripted_loc command data"
| "justified data (ScriptedGuiNotFound callback) \<longleftrightarrow> (\<exists>lookup. lsd_scripted_guis data = Some lookup \<and> \<not> lookup callback)"

definition adds_one :: "loc_scope_data \<Rightarrow> loc_command_diagnostic list \<Rightarrow> loc_command_diagnostic list \<Rightarrow> bool" where
  "adds_one data diags diags' \<longleftrightarrow> diags' = diags \<or> (\<exists>d. justified data d \<and> diags' = diags @ [d])"

lemma adds_one_refl [simp, intro]: "adds_one data diags diags"
  by (simp add: adds_one_def)

lemma adds_one_snoc [simp]: "adds_one data diags (diags @ [d]) \<longleftrightarrow> justified data d"
  by (auto simp: adds_one_def)

lemma callback_adds_one: "adds_one data diags (snd (validate_scripted_gui_callback seg data diags))"
  by (auto simp: validate_scripted_gui_callback_def Let_def split: option.split)

lemma build_loc_ctx_registry [simp]: "ctx_registry (build_loc_ctx data s) = loc_registry data"
  by (simp add: build_loc_ctx_def loc_registry_def from_registry_def ScopeContext_new_def split: option.split)

text \<open>No link, no wrong scope.\<close>

definition is_wrong :: "scope_result \<Rightarrow> bool" where
  "is_wrong r \<longleftrightarrow> (\<exists>command c expected. r = WrongScope command c expected)"

definition right_if_any :: "(scope_result \<times> scope_context) option \<Rightarrow> bool" where
  "right_if_any m \<longleftrightarrow> (\<forall>r. m = Some r \<longrightarrow> \<not> is_wrong (fst r))"

lemma right_if_any_if: "right_if_any x \<Longrightarrow> right_if_any y \<Longrightarrow> right_if_any (if c then x else y)"
  by simp

lemma right_if_any_simps [simp]: "right_if_any (Some (NewScope s keys, ctx))" "right_if_any (Some (apply_prev n ctx))"
  "right_if_any (Some (apply_from n ctx))" "right_if_any None"
  by (simp_all add: right_if_any_def is_wrong_def apply_prev_def apply_from_def Let_def)

lemma resolve_meta_keyword_right: "resolve_meta_keyword lower ctx = Some r \<Longrightarrow> \<not> is_wrong (fst r)"
proof -
  have "right_if_any (resolve_meta_keyword lower ctx)"
    unfolding resolve_meta_keyword_def by (intro right_if_any_if) simp_all
  then show "resolve_meta_keyword lower ctx = Some r \<Longrightarrow> \<not> is_wrong (fst r)" by (simp add: right_if_any_def)
qed

lemma resolve_single_right:
  "reg_links (ctx_registry ctx) = [] \<Longrightarrow> \<not> is_wrong (fst (resolve_single_with_lower key lower ctx))"
  using resolve_meta_keyword_right [of lower ctx]
  by (auto simp: resolve_single_with_lower_def split: option.split) (auto simp: is_wrong_def)

lemma dotted_loop_right:
  "reg_links (ctx_registry ctx) = [] \<Longrightarrow> \<not> is_wrong res \<Longrightarrow> \<not> is_wrong (fst (dotted_loop res segs ctx))"
proof (induction segs arbitrary: res ctx)
  case (Cons seg segs)
  obtain r ctx1 where r: "resolve_single seg ctx = (r, ctx1)" by fastforce
  then have "ctx_registry ctx1 = ctx_registry ctx"
    using resolve_single_move [of ctx seg] by (simp add: single_move_def sound_move_def same_frame_def)
  moreover have "\<not> is_wrong r"
    using resolve_single_right [OF Cons.prems(1), of seg "lower_key seg"] r by (simp add: resolve_single_def)
  ultimately show ?case using Cons r by (cases r) simp_all
qed simp

lemma change_scope_right:
  assumes "reg_links (ctx_registry ctx) = []" shows "\<not> is_wrong (fst (change_scope key ctx))"
proof -
  have "\<not> is_wrong (fst (change_scope_dotted k ctx))" for k
    unfolding change_scope_dotted_def by (rule dotted_loop_right [OF assms]) (simp add: is_wrong_def)
  with resolve_single_right [OF assms] show ?thesis
    unfolding change_scope_def Let_def by (simp add: is_wrong_def split: option.split prod.split)
qed

text \<open>A wrong-scope outcome comes from a context whose current scope none of the expected contains.\<close>

lemma wrong_outcome:
  assumes "change_scope seg ctx = (r, ctx1)" and "ctx_registry ctx = reg"
  shows "ctx_registry ctx1 = reg"
    and "classify_scope_result r l = Wrong command c expected \<Longrightarrow>
      reg_links reg \<noteq> [] \<and> expected \<noteq> [] \<and> list_all (\<lambda>s. \<not> is_subscope_or_eq reg c s) expected"
proof -
  have m: "same_frame ctx ctx1" "agrees r ctx1"
    using change_scope_move [of ctx seg] assms(1) by (simp_all add: sound_move_def)
  then show reg: "ctx_registry ctx1 = reg" using assms(2) by (simp add: same_frame_def)
  assume "classify_scope_result r l = Wrong command c expected"
  then have r: "r = WrongScope command c expected" by (cases r) (auto split: if_splits)
  then have "reg_links reg \<noteq> []"
    using change_scope_right [of ctx seg] assms by (auto simp: is_wrong_def)
  moreover have "agrees (WrongScope command c expected) ctx1" using m(2) by (simp only: r)
  ultimately show "reg_links reg \<noteq> [] \<and> expected \<noteq> [] \<and> list_all (\<lambda>s. \<not> is_subscope_or_eq reg c s) expected"
    unfolding agrees.simps reg by blast
qed

lemma classify_scope_change:
  "classify_segment l is_last data ts = ScopeChange t \<Longrightarrow> t = is_terminal_command l ts"
  by (simp add: classify_segment_def Let_def split: if_splits)

lemma command_loop_adds_one:
  "ctx_registry ctx = loc_registry data \<Longrightarrow> adds_one data diags (command_loop data cmd segs ctx diags)"
proof (induction segs arbitrary: ctx)
  case (Cons seg segs)
  obtain r ctx1 where r: "change_scope seg ctx = (r, ctx1)" by fastforce
  note w = wrong_outcome [OF r Cons.prems]
  have go: "adds_one data diags (command_loop data cmd segs ctx1 diags)"
    "adds_one data diags (command_loop data cmd segs (push_scope SCOPE_ANY ctx1) diags)"
    "adds_one data diags (command_loop data cmd segs (push_scope SCOPE_ANY ctx) diags)"
    using Cons.IH w(1) Cons.prems by simp_all
  show ?case
    using go callback_adds_one [of data diags seg] r w(2) [of "segs = []"]
    by (auto simp: Let_def split: segment_pre.split scope_outcome.split)
qed simp

lemma chain_loop_adds_one:
  "ctx_registry ctx = loc_registry data \<Longrightarrow> adds_one data diags (chain_loop data lacks segs ctx lenient diags)"
proof (induction segs arbitrary: ctx lenient)
  case (Cons seg segs)
  obtain r ctx1 where r: "change_scope seg ctx = (r, ctx1)" by fastforce
  note w = wrong_outcome [OF r Cons.prems]
  have go: "adds_one data diags (chain_loop data lacks segs ctx1 b diags)"
    "adds_one data diags (chain_loop data lacks segs (push_scope SCOPE_ANY ctx1) b diags)"
    "adds_one data diags (chain_loop data lacks segs (push_scope SCOPE_ANY ctx) b diags)" for b
    using Cons.IH w(1) Cons.prems by simp_all
  show ?case
    using go callback_adds_one [of data diags seg] r w(2) [of "segs = []"]
    by (auto simp: Let_def dest: classify_scope_change split: segment_pre.split scope_outcome.split)
qed simp

lemma validate_command_string_adds_one: "adds_one data diags (validate_command_string cmd s data diags)"
  by (simp add: validate_command_string_def command_loop_adds_one)

lemma validate_jomini_chain_adds_one: "adds_one data diags (validate_jomini_chain chain s data diags)"
  by (simp add: validate_jomini_chain_def Let_def chain_loop_adds_one)

lemma fold_adds_one:
  assumes "\<And>x diags. adds_one data diags (f x diags)"
  shows "\<exists>new. fold f xs diags = diags @ new \<and> length new \<le> length xs \<and> list_all (justified data) new"
proof (induction xs arbitrary: diags)
  case (Cons x xs)
  obtain new where n: "fold f xs (f x diags) = f x diags @ new" "length new \<le> length xs" "list_all (justified data) new"
    using Cons by blast
  from assms [of diags x] consider "f x diags = diags" | d where "justified data d" "f x diags = diags @ [d]"
    by (auto simp: adds_one_def)
  then show ?case
  proof cases
    case 1
    with n show ?thesis by (intro exI [of _ new]) simp
  next
    case 2
    with n show ?thesis by (intro exI [of _ "d # new"]) simp
  qed
qed simp

lemma validate_loc_commands_adds:
  "length (validate_loc_commands entry s data) \<le> length (le_commands entry) + length (le_jomini entry)
   \<and> list_all (justified data) (validate_loc_commands entry s data)"
proof -
  obtain a where a: "fold (\<lambda>cmd diags. validate_command_string cmd s data diags) (le_commands entry) [] = [] @ a"
    "length a \<le> length (le_commands entry)" "list_all (justified data) a"
    using fold_adds_one [of data "\<lambda>cmd diags. validate_command_string cmd s data diags" "le_commands entry" "[]"]
      validate_command_string_adds_one by blast
  obtain b where b: "fold (\<lambda>chain diags. validate_jomini_chain chain s data diags) (le_jomini entry) a = a @ b"
    "length b \<le> length (le_jomini entry)" "list_all (justified data) b"
    using fold_adds_one [of data "\<lambda>chain diags. validate_jomini_chain chain s data diags" "le_jomini entry" a]
      validate_jomini_chain_adds_one by blast
  from a b show ?thesis by (simp add: validate_loc_commands_def Let_def)
qed

section \<open>Properties\<close>


text \<open>With no configuration nothing is reported: without a scope registry and without registries of
  scripted localisations and callbacks, every entry passes.\<close>
theorem validate_loc_commands_lenient:
  assumes "lsd_registry data = None" "lsd_scripted_locs data = None" "lsd_scripted_guis data = None"
  shows "validate_loc_commands entry s data = []"
proof (rule ccontr)
  assume "validate_loc_commands entry s data \<noteq> []"
  then obtain d ds where "validate_loc_commands entry s data = d # ds" by (auto simp: neq_Nil_conv)
  with validate_loc_commands_adds [of entry s data] have "justified data d" by simp
  with assms show False by (cases d) (simp_all add: loc_registry_def)
qed

theorem validate_loc_commands_lenient_witness:
  "(case parse_entry (str '' k: \"[totally_unknown()]\"'') 1 [] of
      Inr (Some entry) \<Rightarrow> le_jomini entry \<noteq> [] \<and> validate_loc_commands entry SCOPE_ANY loc_scope_data_default = []
    | _ \<Rightarrow> False)"
proof -
  have p: "case parse_entry (str '' k: \"[totally_unknown()]\"'') 1 [] of
      Inr (Some entry) \<Rightarrow> le_jomini entry \<noteq> [] | _ \<Rightarrow> False" by code_simp
  have "validate_loc_commands entry SCOPE_ANY loc_scope_data_default = []" for entry
    by (rule validate_loc_commands_lenient) (simp_all add: loc_scope_data_default_def)
  with p show ?thesis by (simp split: sum.splits option.splits)
qed

text \<open>The registry of callbacks alone turns a check on: no scope registry is needed for it.\<close>

lemma callback_checked_without_registry:
  "validate_loc_commands
     \<lparr>le_key = [], le_value = None, le_desc = [], le_position = \<lparr>lpos_stream = [], lpos_line = 1, lpos_column = 1\<rparr>,
      le_desc_column = 0, le_error_range = None, le_refs = [], le_commands = [str ''!click''], le_jomini = []\<rparr>
     SCOPE_ANY (loc_scope_data_default\<lparr>lsd_scripted_guis := Some (\<lambda>_. False)\<rparr>)
   = [ScriptedGuiNotFound (str ''click'')]"
  by code_simp

end
