(* ===== verification/Loc_Index.thy ===== *)
theory Loc_Index
  imports Loc_Yaml
begin

text \<open>
  The loaded localisation files, \<^verbatim>\<open>engine/crates/localization/src/service.rs\<close>, and the
  index of their keys, \<^verbatim>\<open>loc_index.rs\<close>.  A set of keys is a set and a map from keys is a
  partial function.  Two things outside the sources are parameters: \<open>lc\<close> is
  \<^verbatim>\<open>str::to_lowercase\<close>, and \<open>iter\<close> the order in which a hash map of the languages of a
  comma-separated file is walked.  Reading files from disk (\<^verbatim>\<open>from_paths\<close>) is not modelled.
\<close>

section \<open>Files\<close>

record loc_service =
  ls_files :: "loc_file list"
  ls_errors :: "(ustr \<times> loc_file_parse_error) list"

definition is_csv_path :: "ustr \<Rightarrow> bool" where
  "is_csv_path path =
     (case file_extension path of Some e \<Rightarrow> eq_ignore_ascii_case e (str ''csv'') | None \<Rightarrow> False)"

text \<open>\<^verbatim>\<open>by_lang.entry(lang).or_default().push(entry)\<close>.\<close>

definition push_entry :: "ustr \<times> lang \<times> loc_entry \<Rightarrow> (lang \<times> loc_entry list) list \<Rightarrow> (lang \<times> loc_entry list) list" where
  "push_entry = (\<lambda>(key, lang, entry) by_lang.
     AList.update lang ((case map_of by_lang lang of Some es \<Rightarrow> es | None \<Rightarrow> []) @ [entry]) by_lang)"

definition parse_loc_files ::
  "((lang \<times> loc_entry list) list \<Rightarrow> (lang \<times> loc_entry list) list) \<Rightarrow> ustr \<Rightarrow> ustr \<Rightarrow> file_encoding option
   \<Rightarrow> loc_file_parse_error + loc_file list" where
  "parse_loc_files iter path content encoding =
     (if is_csv_path path then
        (let entries_by_lang = parse_csv_loc_per_lang content path None;
             by_lang = fold push_entry entries_by_lang []
         in Inr (map (\<lambda>(lang, entries).
                  \<lparr>lf_path = path, lf_language_prefix = lang_display lang, lf_lang = Some lang, lf_is_csv = True,
                   lf_entries = entries, lf_parse_errors = [], lf_encoding = encoding\<rparr>) (iter by_lang)))
      else
        (case parse_loc_text content path of
           Inr file \<Rightarrow> Inr [file\<lparr>lf_encoding := encoding\<rparr>]
         | Inl e \<Rightarrow> Inl e))"

definition parse_loc_file_entry ::
  "((lang \<times> loc_entry list) list \<Rightarrow> (lang \<times> loc_entry list) list) \<Rightarrow> ustr \<times> ustr \<times> file_encoding option
   \<Rightarrow> (ustr \<times> loc_file_parse_error) + loc_file list" where
  "parse_loc_file_entry iter = (\<lambda>(path, content, encoding).
     (case parse_loc_files iter path content encoding of Inr fs \<Rightarrow> Inr fs | Inl e \<Rightarrow> Inl (path, e)))"

fun from_results_loop ::
  "((ustr \<times> loc_file_parse_error) + loc_file list) list \<Rightarrow> loc_service \<Rightarrow> loc_service" where
  "from_results_loop [] s = s"
| "from_results_loop (Inr fs # rs) s = from_results_loop rs (s\<lparr>ls_files := ls_files s @ fs\<rparr>)"
| "from_results_loop (Inl e # rs) s = from_results_loop rs (s\<lparr>ls_errors := ls_errors s @ [e]\<rparr>)"

definition from_results :: "((ustr \<times> loc_file_parse_error) + loc_file list) list \<Rightarrow> loc_service" where
  "from_results results = from_results_loop results \<lparr>ls_files = [], ls_errors = []\<rparr>"

definition from_files_with_encoding ::
  "((lang \<times> loc_entry list) list \<Rightarrow> (lang \<times> loc_entry list) list) \<Rightarrow> (ustr \<times> ustr \<times> file_encoding option) list
   \<Rightarrow> loc_service" where
  "from_files_with_encoding iter files = from_results (map (parse_loc_file_entry iter) files)"

definition from_files ::
  "((lang \<times> loc_entry list) list \<Rightarrow> (lang \<times> loc_entry list) list) \<Rightarrow> (ustr \<times> ustr) list \<Rightarrow> loc_service" where
  "from_files iter files = from_files_with_encoding iter (map (\<lambda>(p, t). (p, t, None)) files)"

definition service_merge_from :: "loc_service \<Rightarrow> loc_service \<Rightarrow> loc_service" where
  "service_merge_from self other =
     self\<lparr>ls_files := ls_files self @ ls_files other, ls_errors := ls_errors self @ ls_errors other\<rparr>"

definition service_languages :: "loc_service \<Rightarrow> lang list" where
  "service_languages service =
     fold (\<lambda>f langs. (case lf_lang f of
              Some l \<Rightarrow> if l \<notin> set langs then langs @ [l] else langs
            | None \<Rightarrow> langs)) (ls_files service) []"

text \<open>The language of a file from its header alone: the text up to the first line that is neither blank
  nor a comment (\<^verbatim>\<open>split_inclusive\<close> keeps the line feed at the end of a line).\<close>

fun header_end :: "ustr \<Rightarrow> ustr \<Rightarrow> ustr" where
  "header_end line [] = line"
| "header_end line (c # cs) =
     (if c = 10 then
        (if is_entry_line (line @ [10]) then line @ [10] else (line @ [10]) @ header_end [] cs)
      else header_end (line @ [c]) cs)"

definition loc_header_language :: "ustr \<Rightarrow> ustr \<Rightarrow> lang option" where
  "loc_header_language raw path =
     (let content = dropWhile (\<lambda>c. c = 0xFEFF) raw in
      case parse_loc_text (header_end [] content) path of Inr f \<Rightarrow> lf_lang f | Inl _ \<Rightarrow> None)"

section \<open>The index\<close>

record loc_index =
  lx_per_language :: "lang \<rightharpoonup> ustr set"
  lx_union :: "ustr set"
  lx_languages_with_data :: "lang list"
  lx_entries :: "ustr \<rightharpoonup> loc_entry"

definition loc_index_default :: loc_index where
  "loc_index_default =
     \<lparr>lx_per_language = Map.empty, lx_union = {}, lx_languages_with_data = [], lx_entries = Map.empty\<rparr>"

text \<open>\<^verbatim>\<open>per_language.entry(lang).or_default()\<close>, and inserting a key there.\<close>

definition keys_of :: "(lang \<rightharpoonup> ustr set) \<Rightarrow> lang \<Rightarrow> ustr set" where
  "keys_of per lang = (case per lang of Some ks \<Rightarrow> ks | None \<Rightarrow> {})"

definition or_default :: "lang \<Rightarrow> (lang \<rightharpoonup> ustr set) \<Rightarrow> (lang \<rightharpoonup> ustr set)" where
  "or_default lang per = per(lang \<mapsto> keys_of per lang)"

definition insert_key :: "lang \<Rightarrow> ustr \<Rightarrow> (lang \<rightharpoonup> ustr set) \<Rightarrow> (lang \<rightharpoonup> ustr set)" where
  "insert_key lang key per = per(lang \<mapsto> insert key (keys_of per lang))"

text \<open>\<^verbatim>\<open>intern_key\<close>: the key, and the set with it.\<close>

definition intern_key :: "ustr set \<Rightarrow> ustr \<Rightarrow> ustr \<times> ustr set" where
  "intern_key un key = (if key \<in> un then (key, un) else (key, insert key un))"

record build_state =
  bs_per :: "lang \<rightharpoonup> ustr set"
  bs_union :: "ustr set"
  bs_cache :: "(ustr \<rightharpoonup> ustr) option"

text \<open>One entry of the first pass: the lowered key, from the memo when there is one.\<close>

definition index_entry :: "(ustr \<Rightarrow> ustr) \<Rightarrow> lang \<Rightarrow> loc_entry \<Rightarrow> build_state \<Rightarrow> build_state" where
  "index_entry lc lang entry st =
     (let (lower, st1) =
        (case bs_cache st of
           Some cache \<Rightarrow>
             (case cache (le_key entry) of
                Some lower \<Rightarrow> (lower, st)
              | None \<Rightarrow>
                  (let (lower, un) = intern_key (bs_union st) (lc (le_key entry))
                   in (lower, st\<lparr>bs_union := un, bs_cache := Some (cache(le_key entry \<mapsto> lower))\<rparr>)))
         | None \<Rightarrow>
             (let (lower, un) = intern_key (bs_union st) (lc (le_key entry)) in (lower, st\<lparr>bs_union := un\<rparr>)))
      in st1\<lparr>bs_per := insert_key lang lower (bs_per st1)\<rparr>)"

definition index_file :: "(ustr \<Rightarrow> ustr) \<Rightarrow> loc_file \<Rightarrow> build_state \<Rightarrow> build_state" where
  "index_file lc file st =
     (case lf_lang file of
        None \<Rightarrow> st
      | Some lang \<Rightarrow> fold (index_entry lc lang) (lf_entries file) (st\<lparr>bs_per := or_default lang (bs_per st)\<rparr>))"

text \<open>One entry of the second pass: the entries with commands, the English ones first.\<close>

definition keep_entry ::
  "(ustr \<Rightarrow> ustr) \<Rightarrow> build_state \<Rightarrow> ustr set option \<Rightarrow> lang \<Rightarrow> loc_entry \<Rightarrow> (ustr \<rightharpoonup> loc_entry) \<Rightarrow> (ustr \<rightharpoonup> loc_entry)" where
  "keep_entry lc st english lang entry entries =
     (if le_commands entry = [] \<and> le_jomini entry = [] then entries
      else
        (case (case bs_cache st of
                 Some cache \<Rightarrow> cache (le_key entry)
               | None \<Rightarrow> if lc (le_key entry) \<in> bs_union st then Some (lc (le_key entry)) else None) of
           None \<Rightarrow> entries
         | Some lower \<Rightarrow>
             if lang \<noteq> English \<and> (case english of Some s \<Rightarrow> lower \<in> s | None \<Rightarrow> False) then entries
             else if entries lower \<noteq> None \<and> lang \<noteq> English then entries
             else entries(lower \<mapsto> entry)))"

definition keep_file ::
  "(ustr \<Rightarrow> ustr) \<Rightarrow> build_state \<Rightarrow> ustr set option \<Rightarrow> loc_file \<Rightarrow> (ustr \<rightharpoonup> loc_entry) \<Rightarrow> (ustr \<rightharpoonup> loc_entry)" where
  "keep_file lc st english file entries =
     (case lf_lang file of
        None \<Rightarrow> entries
      | Some lang \<Rightarrow> fold (keep_entry lc st english lang) (lf_entries file) entries)"

definition build_scoped :: "(ustr \<Rightarrow> ustr) \<Rightarrow> loc_service \<Rightarrow> lang list option \<Rightarrow> loc_index" where
  "build_scoped lc service langs =
     (let languages = service_languages service;
          st = fold (index_file lc) (ls_files service)
                 \<lparr>bs_per = Map.empty, bs_union = {}, bs_cache = (if length languages > 1 then Some Map.empty else None)\<rparr>;
          english = bs_per st English;
          entries = fold (keep_file lc st english) (ls_files service) Map.empty
      in \<lparr>lx_per_language = bs_per st, lx_union = bs_union st,
          lx_languages_with_data = (case langs of Some set_langs \<Rightarrow> filter (\<lambda>l. l \<in> set set_langs) languages | None \<Rightarrow> languages),
          lx_entries = entries\<rparr>)"

definition index_build :: "(ustr \<Rightarrow> ustr) \<Rightarrow> loc_service \<Rightarrow> loc_index" where
  "index_build lc service = build_scoped lc service None"

text \<open>\<^verbatim>\<open>languages_with_data\<close> gains a language that is allowed and new.\<close>

definition note_language :: "lang list option \<Rightarrow> lang \<Rightarrow> loc_index \<Rightarrow> loc_index" where
  "note_language langs lang idx =
     (let allowed = (case langs of Some ls \<Rightarrow> lang \<in> set ls | None \<Rightarrow> True) in
      if allowed \<and> lang \<notin> set (lx_languages_with_data idx)
      then idx\<lparr>lx_languages_with_data := lx_languages_with_data idx @ [lang]\<rparr> else idx)"

definition merge_key :: "lang \<Rightarrow> ustr \<Rightarrow> loc_index \<Rightarrow> loc_index" where
  "merge_key lang key idx =
     (let (key, un) = intern_key (lx_union idx) key
      in idx\<lparr>lx_union := un, lx_per_language := insert_key lang key (lx_per_language idx)\<rparr>)"

definition merge_cached_keys :: "(lang \<times> ustr list) list \<Rightarrow> lang list option \<Rightarrow> loc_index \<Rightarrow> loc_index" where
  "merge_cached_keys per_language langs idx =
     fold (\<lambda>(lang, keys) idx.
         note_language langs lang
           (fold (merge_key lang) keys (idx\<lparr>lx_per_language := or_default lang (lx_per_language idx)\<rparr>)))
       per_language idx"

text \<open>\<^verbatim>\<open>merge_from\<close>.  Each key of the other index is visited once, so the order of the visit is not
  seen: the entries become the union of both maps, and a language's keys are added as a set.\<close>

definition merge_language :: "loc_index \<Rightarrow> lang list option \<Rightarrow> lang \<Rightarrow> loc_index \<Rightarrow> loc_index" where
  "merge_language other langs lang idx =
     (case lx_per_language other lang of
        None \<Rightarrow> idx
      | Some keys \<Rightarrow>
          note_language langs lang
            (idx\<lparr>lx_union := lx_union idx \<union> keys,
                 lx_per_language := (lx_per_language idx)(lang \<mapsto> keys_of (lx_per_language idx) lang \<union> keys)\<rparr>))"

definition merge_entries :: "loc_index \<Rightarrow> loc_index \<Rightarrow> (ustr \<rightharpoonup> loc_entry)" where
  "merge_entries other idx = (\<lambda>key.
     (case lx_entries idx key of
        Some entry \<Rightarrow> Some entry
      | None \<Rightarrow>
          (if (case lx_per_language idx English of Some s \<Rightarrow> key \<in> s | None \<Rightarrow> False) then None
           else lx_entries other key)))"

definition index_merge_from :: "loc_index \<Rightarrow> lang list option \<Rightarrow> loc_index \<Rightarrow> loc_index" where
  "index_merge_from other langs idx =
     fold (merge_language other langs) (lx_languages_with_data other) (idx\<lparr>lx_entries := merge_entries other idx\<rparr>)"

definition exists_any :: "loc_index \<Rightarrow> ustr \<Rightarrow> bool" where
  "exists_any idx key_lower = (key_lower \<in> lx_union idx)"

definition missing_synced_languages :: "loc_index \<Rightarrow> ustr \<Rightarrow> lang list" where
  "missing_synced_languages idx key_lower =
     filter (\<lambda>lang. (case lx_per_language idx lang of Some s \<Rightarrow> key_lower \<notin> s | None \<Rightarrow> True))
       (lx_languages_with_data idx)"

definition index_entry_of :: "loc_index \<Rightarrow> ustr \<Rightarrow> loc_entry option" where
  "index_entry_of idx key_lower = lx_entries idx key_lower"

definition index_key :: "(ustr \<Rightarrow> ustr) \<Rightarrow> loc_index \<Rightarrow> ustr \<Rightarrow> ustr option" where
  "index_key lc idx key = (if lc key \<in> lx_union idx then Some (lc key) else None)"

definition per_language_keys :: "(ustr \<Rightarrow> ustr) \<Rightarrow> loc_service \<Rightarrow> (ustr \<rightharpoonup> ustr set)" where
  "per_language_keys lc service =
     (let per = fold (\<lambda>file per.
          (case lf_lang file of
             None \<Rightarrow> per
           | Some lang \<Rightarrow> fold (\<lambda>entry per. insert_key lang (lc (le_key entry)) per) (lf_entries file) (or_default lang per)))
        (ls_files service) Map.empty
      in (\<lambda>name. Option.bind (map_of (map (\<lambda>l. (lang_display l, l))
            [English, French, German, Spanish, Russian, Polish, BrazPor, SimpChinese, Japanese, Korean, Turkish, Default]) name) per))"

section \<open>What the first pass collects\<close>

definition has_commands :: "loc_entry \<Rightarrow> bool" where
  "has_commands e \<longleftrightarrow> le_commands e \<noteq> [] \<or> le_jomini e \<noteq> []"

text \<open>The entries of the files with a language, tagged with it, in file order.\<close>

definition tagged :: "loc_file list \<Rightarrow> (lang \<times> loc_entry) list" where
  "tagged fs = concat (map (\<lambda>f. case lf_lang f of None \<Rightarrow> [] | Some l \<Rightarrow> map (Pair l) (lf_entries f)) fs)"

definition lang_keys :: "(ustr \<Rightarrow> ustr) \<Rightarrow> loc_file list \<Rightarrow> lang \<Rightarrow> ustr set" where
  "lang_keys lc fs l = {lc (le_key e) | e. (l, e) \<in> set (tagged fs)}"

definition file_langs :: "loc_file list \<Rightarrow> lang set" where
  "file_langs fs = {l. \<exists>f \<in> set fs. lf_lang f = Some l}"

lemma tagged_simps [simp]:
  "tagged [] = []"
  "tagged (fs @ [f]) = tagged fs @ (case lf_lang f of None \<Rightarrow> [] | Some l \<Rightarrow> map (Pair l) (lf_entries f))"
  by (simp_all add: tagged_def)

lemma file_langs_simps [simp]:
  "file_langs [] = {}"
  "file_langs (fs @ [f]) = file_langs fs \<union> set_option (lf_lang f)"
  by (auto simp: file_langs_def elem_set)

text \<open>A memo entry is the lowered key, already in the union.\<close>

definition memo_ok :: "(ustr \<Rightarrow> ustr) \<Rightarrow> build_state \<Rightarrow> bool" where
  "memo_ok lc st \<longleftrightarrow> (\<forall>c k v. bs_cache st = Some c \<longrightarrow> c k = Some v \<longrightarrow> v = lc k \<and> v \<in> bs_union st)"

definition memo_has :: "build_state \<Rightarrow> ustr \<Rightarrow> bool" where
  "memo_has st k \<longleftrightarrow> (\<forall>c. bs_cache st = Some c \<longrightarrow> c k \<noteq> None)"

lemma index_entry_effect:
  assumes "memo_ok lc st"
  shows "memo_ok lc (index_entry lc l e st)"
    and "bs_per (index_entry lc l e st) = insert_key l (lc (le_key e)) (bs_per st)"
    and "bs_union (index_entry lc l e st) = insert (lc (le_key e)) (bs_union st)"
    and "memo_has (index_entry lc l e st) (le_key e)"
    and "memo_has st k \<Longrightarrow> memo_has (index_entry lc l e st) k"
  using assms
  by (auto simp: index_entry_def memo_ok_def memo_has_def intern_key_def Let_def split: option.splits prod.splits if_splits)

lemma index_entries_effect:
  assumes "memo_ok lc st"
  shows "memo_ok lc (fold (index_entry lc l) es st)
    \<and> bs_per (fold (index_entry lc l) es st) = fold (\<lambda>e. insert_key l (lc (le_key e))) es (bs_per st)
    \<and> bs_union (fold (index_entry lc l) es st) = bs_union st \<union> (\<lambda>e. lc (le_key e)) ` set es
    \<and> (\<forall>k. k \<in> le_key ` set es \<or> memo_has st k \<longrightarrow> memo_has (fold (index_entry lc l) es st) k)"
  using assms
proof (induction es arbitrary: st)
  case (Cons e es)
  note eff = index_entry_effect [OF Cons.prems, where l = l and e = e]
  from Cons.IH [OF eff(1)] eff(2-5) show ?case by auto
qed simp

lemma fold_insert_key:
  "fold (\<lambda>e. insert_key l (g e)) es per x =
     (if x = l \<and> es \<noteq> [] then Some (keys_of per l \<union> g ` set es) else per x)"
  by (induction es arbitrary: per) (auto simp: insert_key_def keys_of_def)

lemma keys_of_or_default [simp]: "keys_of (or_default lang per) l = keys_of per l"
  by (simp add: keys_of_def or_default_def)

lemma index_file_effect:
  assumes "memo_ok lc st"
  shows "memo_ok lc (index_file lc f st)
    \<and> (\<forall>x. bs_per (index_file lc f st) x =
          (if lf_lang f = Some x then Some (keys_of (bs_per st) x \<union> (\<lambda>e. lc (le_key e)) ` set (lf_entries f)) else bs_per st x))
    \<and> bs_union (index_file lc f st) = bs_union st \<union>
          (if lf_lang f = None then {} else (\<lambda>e. lc (le_key e)) ` set (lf_entries f))
    \<and> (\<forall>k. (lf_lang f \<noteq> None \<and> k \<in> le_key ` set (lf_entries f)) \<or> memo_has st k \<longrightarrow> memo_has (index_file lc f st) k)"
proof (cases "lf_lang f")
  case None
  with assms show ?thesis by (simp add: index_file_def)
next
  case (Some l)
  let ?st = "st\<lparr>bs_per := or_default l (bs_per st)\<rparr>"
  have ok: "memo_ok lc ?st" using assms by (simp add: memo_ok_def)
  have has: "memo_has ?st k = memo_has st k" for k by (simp add: memo_has_def)
  have f: "index_file lc f st = fold (index_entry lc l) (lf_entries f) ?st" using Some by (simp add: index_file_def)
  have per: "fold (\<lambda>e. insert_key l (lc (le_key e))) es (bs_per ?st) x
      = (if l = x then Some (keys_of (bs_per st) x \<union> (\<lambda>e. lc (le_key e)) ` set es) else bs_per st x)" for es x
  proof (cases "es = []")
    case True
    then show ?thesis by (simp add: or_default_def)
  next
    case False
    then show ?thesis by (simp add: fold_insert_key) (simp add: or_default_def)
  qed
  show ?thesis
    using index_entries_effect [OF ok, of l "lf_entries f"] unfolding f has per by (simp add: Some per)
qed

lemma first_pass:
  fixes lc fs memo
  defines "st \<equiv> fold (index_file lc) fs \<lparr>bs_per = Map.empty, bs_union = {}, bs_cache = memo\<rparr>"
  assumes "memo = None \<or> memo = Some Map.empty"
  shows "memo_ok lc st \<and> (\<forall>l. bs_per st l = (if l \<in> file_langs fs then Some (lang_keys lc fs l) else None))
    \<and> bs_union st = (\<Union>l. lang_keys lc fs l) \<and> (\<forall>(l, e) \<in> set (tagged fs). memo_has st (le_key e))"
  unfolding st_def
proof (induction fs rule: rev_induct)
  case Nil
  with assms(2) show ?case by (auto simp: memo_ok_def lang_keys_def)
next
  case (snoc f fs)
  let ?st = "fold (index_file lc) fs \<lparr>bs_per = Map.empty, bs_union = {}, bs_cache = memo\<rparr>"
  from snoc have ok: "memo_ok lc ?st" by simp
  note eff = index_file_effect [OF ok, of f]
  show ?case
  proof (cases "lf_lang f")
    case None
    then have "tagged (fs @ [f]) = tagged fs" "index_file lc f ?st = ?st" by (simp_all add: index_file_def)
    with snoc None show ?thesis by (simp add: lang_keys_def)
  next
    case (Some l)
    then have keys: "lang_keys lc (fs @ [f]) x =
        lang_keys lc fs x \<union> (if x = l then (\<lambda>e. lc (le_key e)) ` set (lf_entries f) else {})" for x
      by (auto simp: lang_keys_def)
    have none: "x \<notin> file_langs fs \<Longrightarrow> lang_keys lc fs x = {}" for x
      by (auto simp: lang_keys_def tagged_def file_langs_def split: option.splits)
    have "memo_has (index_file lc f ?st) (le_key e)" if "(x, e) \<in> set (tagged (fs @ [f]))" for x e
      using that eff snoc.IH Some by auto
    moreover have "(\<Union>x. lang_keys lc (fs @ [f]) x) = (\<Union>x. lang_keys lc fs x) \<union> (\<lambda>e. lc (le_key e)) ` set (lf_entries f)"
      unfolding keys by (auto split: if_splits)
    ultimately show ?thesis using eff snoc.IH Some none keys by (auto simp: keys_of_def)
  qed
qed

section \<open>What the second pass keeps\<close>

text \<open>The effect of one tagged entry on what is kept for a key, with \<open>eng\<close> the English keys.\<close>

definition keep_step :: "(ustr \<Rightarrow> ustr) \<Rightarrow> ustr set \<Rightarrow> ustr \<Rightarrow> lang \<times> loc_entry \<Rightarrow> loc_entry option \<Rightarrow> loc_entry option" where
  "keep_step lc eng k = (\<lambda>(l, e) x.
     (if \<not> has_commands e \<or> lc (le_key e) \<noteq> k then x
      else if l = English then Some e
      else if k \<in> eng then x
      else (case x of None \<Rightarrow> Some e | Some y \<Rightarrow> Some y)))"

lemma keep_file_tagged:
  "fold (keep_file lc st english) fs m
     = fold (\<lambda>(l, e). keep_entry lc st english l e) (tagged fs) m"
proof (induction fs rule: rev_induct)
  case (snoc f fs)
  then show ?case by (cases "lf_lang f") (simp_all add: keep_file_def fold_map comp_def)
qed simp

lemma keep_entry_step:
  assumes "memo_ok lc st" "memo_has st (le_key e)" "lc (le_key e) \<in> bs_union st"
    and "eng = (case english of Some s \<Rightarrow> s | None \<Rightarrow> {})"
  shows "keep_entry lc st english l e m k = keep_step lc eng k (l, e) (m k)"
proof -
  have look: "(case bs_cache st of Some cache \<Rightarrow> cache (le_key e)
      | None \<Rightarrow> if lc (le_key e) \<in> bs_union st then Some (lc (le_key e)) else None) = Some (lc (le_key e))"
    using assms(1-3) by (auto simp: memo_ok_def memo_has_def split: option.split)
  show ?thesis
    unfolding keep_entry_def keep_step_def has_commands_def look option.case prod.case
    using assms(4) by (auto split: option.split)
qed

lemma keep_fold_step:
  assumes "\<And>l e. (l, e) \<in> set ts \<Longrightarrow> memo_has st (le_key e) \<and> lc (le_key e) \<in> bs_union st" "memo_ok lc st"
    and "eng = (case english of Some s \<Rightarrow> s | None \<Rightarrow> {})"
  shows "fold (\<lambda>(l, e). keep_entry lc st english l e) ts m k = fold (keep_step lc eng k) ts (m k)"
  using assms(1)
proof (induction ts arbitrary: m)
  case (Cons t ts)
  obtain l e where t: "t = (l, e)" by fastforce
  then have "memo_has st (le_key e)" "lc (le_key e) \<in> bs_union st" using Cons.prems [of l e] by simp_all
  note step = keep_entry_step [OF assms(2) this assms(3), of l m k]
  have "fold (\<lambda>(l, e). keep_entry lc st english l e) ts (keep_entry lc st english l e m) k
      = fold (keep_step lc eng k) ts (keep_entry lc st english l e m k)"
    by (rule Cons.IH) (meson Cons.prems list.set_intros(2))
  then show ?case unfolding step t by simp
qed simp

definition candidates :: "(ustr \<Rightarrow> ustr) \<Rightarrow> loc_file list \<Rightarrow> ustr \<Rightarrow> (lang \<times> loc_entry) list" where
  "candidates lc fs k = filter (\<lambda>(l, e). has_commands e \<and> lc (le_key e) = k) (tagged fs)"

lemma keep_step_simps [simp]:
  "keep_step lc eng k (l, e) x =
     (if \<not> has_commands e \<or> lc (le_key e) \<noteq> k then x
      else if l = English then Some e
      else if k \<in> eng then x
      else (case x of None \<Rightarrow> Some e | Some y \<Rightarrow> Some y))"
  by (simp add: keep_step_def)

lemma keep_steps_english:
  "k \<in> eng \<Longrightarrow> fold (keep_step lc eng k) ts x =
     (let es = filter (\<lambda>(l, e). l = English) (filter (\<lambda>(l, e). has_commands e \<and> lc (le_key e) = k) ts) in
      if es = [] then x else Some (snd (last es)))"
proof (induction ts arbitrary: x)
  case (Cons t ts)
  obtain l e where "t = (l, e)" by fastforce
  with Cons show ?case by (simp add: Let_def)
qed simp

lemma keep_steps_other:
  "k \<notin> eng \<Longrightarrow> (\<forall>e. (English, e) \<in> set ts \<longrightarrow> lc (le_key e) \<noteq> k) \<Longrightarrow>
   fold (keep_step lc eng k) ts x =
     (case x of Some y \<Rightarrow> Some y
      | None \<Rightarrow> (let es = filter (\<lambda>(l, e). has_commands e \<and> lc (le_key e) = k) ts in
                 if es = [] then None else Some (snd (hd es))))"
proof (induction ts arbitrary: x)
  case (Cons t ts)
  obtain l e where t: "t = (l, e)" by fastforce
  have "l = English \<Longrightarrow> lc (le_key e) \<noteq> k" using Cons.prems(2) t by simp
  moreover have "fold (keep_step lc eng k) ts y =
     (case y of Some y \<Rightarrow> Some y
      | None \<Rightarrow> (let es = filter (\<lambda>(l, e). has_commands e \<and> lc (le_key e) = k) ts in
                 if es = [] then None else Some (snd (hd es))))" for y
    by (rule Cons.IH [OF Cons.prems(1)]) (use Cons.prems(2) in auto)
  ultimately show ?case using t Cons.prems(1) by (cases x) (simp_all add: Let_def)
qed (simp split: option.split)

section \<open>Languages\<close>

lemma service_languages_fold:
  "distinct langs \<Longrightarrow>
   distinct (fold (\<lambda>f langs. (case lf_lang f of
       Some l \<Rightarrow> if l \<notin> set langs then langs @ [l] else langs | None \<Rightarrow> langs)) fs langs)
   \<and> set (fold (\<lambda>f langs. (case lf_lang f of
       Some l \<Rightarrow> if l \<notin> set langs then langs @ [l] else langs | None \<Rightarrow> langs)) fs langs) = set langs \<union> file_langs fs"
proof (induction fs arbitrary: langs)
  case (Cons f fs)
  then show ?case by (cases "lf_lang f") (auto simp: file_langs_def)
qed (simp add: file_langs_def)

lemma service_languages_spec:
  "distinct (service_languages s) \<and> set (service_languages s) = file_langs (ls_files s)"
  using service_languages_fold [of "[]" "ls_files s"] by (simp add: service_languages_def)

section \<open>The invariant of an index\<close>

definition index_ok :: "loc_index \<Rightarrow> bool" where
  "index_ok idx \<longleftrightarrow>
     lx_union idx = (\<Union>l. keys_of (lx_per_language idx) l)
     \<and> distinct (lx_languages_with_data idx)
     \<and> (\<forall>l \<in> set (lx_languages_with_data idx). lx_per_language idx l \<noteq> None)"

lemma build_scoped_keys:
  "lx_per_language (build_scoped lc s langs) l =
     (if l \<in> file_langs (ls_files s) then Some (lang_keys lc (ls_files s) l) else None)"
  "lx_union (build_scoped lc s langs) = (\<Union>l. lang_keys lc (ls_files s) l)"
  using first_pass [of "if length (service_languages s) > 1 then Some Map.empty else None" lc "ls_files s"]
  by (simp_all add: build_scoped_def Let_def)

lemma build_scoped_ok [inv_intros]: "index_ok (build_scoped lc s langs)"
proof -
  have "x \<notin> file_langs fs \<Longrightarrow> lang_keys lc fs x = {}" for x fs
    by (auto simp: lang_keys_def tagged_def file_langs_def split: option.splits)
  moreover have "distinct (lx_languages_with_data (build_scoped lc s langs))
      \<and> set (lx_languages_with_data (build_scoped lc s langs)) \<subseteq> file_langs (ls_files s)"
    using service_languages_spec [of s] by (auto simp: build_scoped_def Let_def split: option.split)
  moreover have "keys_of (lx_per_language (build_scoped lc s langs)) l = lang_keys lc (ls_files s) l" for l
    using calculation(1) [of l "ls_files s"] by (simp add: keys_of_def build_scoped_keys)
  ultimately show ?thesis
    unfolding index_ok_def by (auto simp: build_scoped_keys(2)) (auto simp: build_scoped_keys(1))
qed

lemma index_default_ok [inv_intros]: "index_ok loc_index_default"
  by (simp add: index_ok_def loc_index_default_def keys_of_def)

lemma note_language_ok [inv_intros]:
  "index_ok idx \<Longrightarrow> lx_per_language idx lang \<noteq> None \<Longrightarrow> index_ok (note_language langs lang idx)"
  by (simp add: index_ok_def note_language_def Let_def split: option.split)

lemma note_language_fields [simp]:
  "lx_per_language (note_language langs lang idx) = lx_per_language idx"
  "lx_union (note_language langs lang idx) = lx_union idx"
  "lx_entries (note_language langs lang idx) = lx_entries idx"
  by (simp_all add: note_language_def Let_def)

lemma merge_key_fields:
  "lx_per_language (merge_key lang key idx) = insert_key lang key (lx_per_language idx)"
  "lx_union (merge_key lang key idx) = insert key (lx_union idx)"
  "lx_languages_with_data (merge_key lang key idx) = lx_languages_with_data idx"
  by (auto simp: merge_key_def intern_key_def)

lemma keys_of_insert_key: "keys_of (insert_key lang key per) l = keys_of per l \<union> (if l = lang then {key} else {})"
  by (simp add: keys_of_def insert_key_def)

lemma merge_key_ok [inv_intros]: "index_ok idx \<Longrightarrow> index_ok (merge_key lang key idx)"
  unfolding index_ok_def merge_key_fields keys_of_insert_key
  by (auto simp: insert_key_def split: if_splits)

lemma or_default_ok [inv_intros]: "index_ok idx \<Longrightarrow> index_ok (idx\<lparr>lx_per_language := or_default lang (lx_per_language idx)\<rparr>)"
  by (auto simp: index_ok_def) (auto simp: or_default_def)

lemma merge_keys_ok: "index_ok idx \<Longrightarrow> index_ok (fold (merge_key lang) keys idx)"
  by (induction keys arbitrary: idx) (auto intro: merge_key_ok)

lemma merge_keys_fields:
  "keys_of (lx_per_language (fold (merge_key lang) keys idx)) l
     = keys_of (lx_per_language idx) l \<union> (if l = lang then set keys else {})"
  "lx_per_language idx lang \<noteq> None \<Longrightarrow> lx_per_language (fold (merge_key lang) keys idx) lang \<noteq> None"
  by (induction keys arbitrary: idx) (auto simp: merge_key_fields keys_of_insert_key, auto simp: merge_key_fields insert_key_def)

lemma merge_cached_ok [inv_intros]: "index_ok idx \<Longrightarrow> index_ok (merge_cached_keys per langs idx)"
proof (induction per arbitrary: idx)
  case (Cons lk per)
  obtain lang keys where lk: "lk = (lang, keys)" by fastforce
  let ?idx = "fold (merge_key lang) keys (idx\<lparr>lx_per_language := or_default lang (lx_per_language idx)\<rparr>)"
  have "index_ok ?idx" by (intro merge_keys_ok or_default_ok Cons.prems)
  moreover have "lx_per_language ?idx lang \<noteq> None"
    by (rule merge_keys_fields(2)) (simp add: or_default_def)
  ultimately have "index_ok (note_language langs lang ?idx)" by (rule note_language_ok)
  from Cons.IH [OF this] lk show ?case by (simp add: merge_cached_keys_def)
qed (simp add: merge_cached_keys_def)

lemma merge_language_ok [inv_intros]: "index_ok idx \<Longrightarrow> index_ok (merge_language other langs lang idx)"
proof (cases "lx_per_language other lang")
  case (Some keys)
  assume ok: "index_ok idx"
  let ?idx = "idx\<lparr>lx_union := lx_union idx \<union> keys,
      lx_per_language := (lx_per_language idx)(lang \<mapsto> keys_of (lx_per_language idx) lang \<union> keys)\<rparr>"
  have "index_ok ?idx"
  proof -
    have "keys_of (lx_per_language ?idx) l = keys_of (lx_per_language idx) l \<union> (if l = lang then keys else {})" for l
      by (simp add: keys_of_def)
    then have "(\<Union>l. keys_of (lx_per_language ?idx) l) = (\<Union>l. keys_of (lx_per_language idx) l) \<union> keys"
      by (auto split: if_splits)
    with ok show ?thesis unfolding index_ok_def by simp
  qed
  then have "index_ok (note_language langs lang ?idx)" by (rule note_language_ok) simp
  then show ?thesis using Some by (simp add: merge_language_def)
qed (simp add: merge_language_def)

lemma merge_from_ok [inv_intros]: "index_ok idx \<Longrightarrow> index_ok (index_merge_from other langs idx)"
proof -
  assume ok: "index_ok idx"
  have "index_ok idx' \<Longrightarrow> index_ok (fold (merge_language other langs) ls idx')" for ls idx'
    by (induction ls arbitrary: idx') (auto intro: merge_language_ok)
  moreover have "index_ok (idx\<lparr>lx_entries := merge_entries other idx\<rparr>)" using ok by (simp add: index_ok_def)
  ultimately show ?thesis by (simp add: index_merge_from_def)
qed

section \<open>The header alone\<close>

lemma is_entry_line_snoc: "is_whitespace w \<Longrightarrow> is_entry_line (s @ [w]) \<longleftrightarrow> is_entry_line s"
proof (cases "\<forall>c \<in> set s. is_whitespace c")
  case True
  assume "is_whitespace w"
  with True show ?thesis by (auto simp: is_entry_line_def trim_start_def)
next
  case False
  then obtain c where "c \<in> set s" "\<not> is_whitespace c" by blast
  then have "trim_start (s @ [w]) = trim_start s @ [w]" unfolding trim_start_def by (rule dropWhile_append1)
  moreover have "trim_start s \<noteq> []" using False by (auto simp: trim_start_def)
  ultimately show ?thesis by (cases "trim_start s") (simp_all add: is_entry_line_def)
qed

lemma is_entry_line_strip: "is_entry_line (strip_cr s) = is_entry_line (s @ [10])"
proof -
  have "is_whitespace 10" "is_whitespace 13" by (simp_all add: is_whitespace_def)
  then have "is_entry_line (s @ [10]) = is_entry_line s"
    and "s \<noteq> [] \<Longrightarrow> last s = 13 \<Longrightarrow> is_entry_line (butlast s) = is_entry_line s"
    using is_entry_line_snoc [of 10 s] is_entry_line_snoc [of 13 "butlast s"] append_butlast_last_id [of s]
    by (simp, metis)
  then show ?thesis by (simp add: strip_cr_def)
qed

lemma lines_from_no_feed: "10 \<notin> set s \<Longrightarrow> lines_from acc s = lines_from (acc @ s) []"
  by (induction s arbitrary: acc) auto

lemma header_end_find:
  "10 \<notin> set acc \<Longrightarrow> find is_entry_line (lines_from acc s) = find is_entry_line (lines_from [] (header_end acc s))"
proof (induction acc s rule: header_end.induct)
  case (1 line)
  then show ?case using lines_from_no_feed [of line "[]"] by simp
next
  case (2 line c cs)
  show ?case
  proof (cases "c = 10")
    case False
    with 2 show ?thesis by simp
  next
    case True
    show ?thesis
    proof (cases "is_entry_line (line @ [10])")
      case entry: True
      then show ?thesis
        using True is_entry_line_strip [of line] lines_from_piece [OF "2.prems", of "[]" "[]"] by simp
    next
      case False
      then show ?thesis
        using True is_entry_line_strip [of line] lines_from_piece [OF "2.prems", of "[]" "header_end [] cs"]
          "2.IH"(1) [OF True] False by simp
    qed
  qed
qed

lemma header_end_prefix: "prefix (header_end acc s) (acc @ s)"
proof (induction acc s rule: header_end.induct)
  case (2 line c cs)
  then show ?case by (cases "c = 10 \<and> \<not> is_entry_line (line @ [10])") auto
qed simp

definition lang_of_header :: "ustr option \<Rightarrow> lang option" where
  "lang_of_header header = Option.bind header (\<lambda>h. Option.bind (split_once (asc CHR '':'') h) (\<lambda>(b, _). key_to_language (trim b)))"

lemma header_loop_find: "map_option fst (header_loop (enumerate n ls)) = find is_entry_line ls"
  by (induction ls arbitrary: n) auto

lemma parse_loc_text_lang:
  "(case parse_loc_text raw path of Inr f \<Rightarrow> lf_lang f | Inl _ \<Rightarrow> None)
     = lang_of_header (find is_entry_line (str_lines (dropWhile (\<lambda>c. c = 0xFEFF) raw)))"
  unfolding header_loop_find [of 0, symmetric]
  by (auto simp: parse_loc_text_def lang_of_header_def Let_def split: option.split prod.split)

section \<open>Properties\<close>

text \<open>The index is consistent after every operation: the union holds exactly the keys of the
  languages, and a language with data is listed once and has a set of keys.  It holds of the empty index
  and of every index built, and merging cached keys or another index keeps it.\<close>
theorem index_invariant:
  "index_ok loc_index_default \<and> index_ok (build_scoped lc service langs)
   \<and> (index_ok idx \<longrightarrow> index_ok (merge_cached_keys per langs idx) \<and> index_ok (index_merge_from other langs idx))"
  by (auto intro: inv_intros)

theorem index_invariant_witness:
  "index_ok (merge_cached_keys [(French, [str ''k''])] None loc_index_default)
   \<and> exists_any (merge_cached_keys [(French, [str ''k''])] None loc_index_default) (str ''k'')"
proof -
  have "index_ok (merge_cached_keys [(French, [str ''k''])] None loc_index_default)"
    using index_invariant [of _ _ _ loc_index_default "[(French, [str ''k''])]"] by blast
  then show ?thesis
    by (simp add: merge_cached_keys_def exists_any_def merge_key_def intern_key_def loc_index_default_def Let_def)
qed

text \<open>The English text wins.  For a key some English file has, the index keeps the last English entry
  with commands; for any other key, the first entry with commands of any language.  The memo of lowered
  keys, used when there are several languages, changes none of this.\<close>
theorem index_entry_prefers_english:
  "index_entry_of (build_scoped lc service langs) k =
     (let es = candidates lc (ls_files service) k; english = filter (\<lambda>(l, e). l = English) es in
      if k \<in> lang_keys lc (ls_files service) English
      then (if english = [] then None else Some (snd (last english)))
      else (if es = [] then None else Some (snd (hd es))))"
proof -
  let ?fs = "ls_files service" let ?memo = "if length (service_languages service) > 1 then Some Map.empty else None"
  define st where "st = fold (index_file lc) ?fs \<lparr>bs_per = Map.empty, bs_union = {}, bs_cache = ?memo\<rparr>"
  have fp: "memo_ok lc st" "\<And>l. bs_per st l = (if l \<in> file_langs ?fs then Some (lang_keys lc ?fs l) else None)"
    "bs_union st = (\<Union>l. lang_keys lc ?fs l)" "\<And>l e. (l, e) \<in> set (tagged ?fs) \<Longrightarrow> memo_has st (le_key e)"
    using first_pass [of ?memo lc ?fs] unfolding st_def by auto
  let ?eng = "lang_keys lc ?fs English"
  have eng: "?eng = (case bs_per st English of Some s \<Rightarrow> s | None \<Rightarrow> {})"
    using fp(2) by (auto simp: lang_keys_def tagged_def file_langs_def split: option.splits)
  have known: "memo_has st (le_key e) \<and> lc (le_key e) \<in> bs_union st" if "(l, e) \<in> set (tagged ?fs)" for l e
    using that fp(3,4) by (auto simp: lang_keys_def)
  have "index_entry_of (build_scoped lc service langs) k
      = fold (keep_file lc st (bs_per st English)) ?fs Map.empty k"
    unfolding index_entry_of_def build_scoped_def Let_def st_def by simp
  also have "\<dots> = fold (keep_step lc ?eng k) (tagged ?fs) None"
    unfolding keep_file_tagged by (rule keep_fold_step [OF known fp(1) eng])
  also have "\<dots> = (let es = candidates lc ?fs k; english = filter (\<lambda>(l, e). l = English) es in
      if k \<in> ?eng then (if english = [] then None else Some (snd (last english)))
      else (if es = [] then None else Some (snd (hd es))))"
  proof (cases "k \<in> ?eng")
    case True
    then show ?thesis by (simp add: keep_steps_english candidates_def Let_def)
  next
    case False
    then have "lc (le_key e) \<noteq> k" if "(English, e) \<in> set (tagged ?fs)" for e using that by (auto simp: lang_keys_def)
    with False show ?thesis by (simp add: keep_steps_other candidates_def Let_def)
  qed
  finally show ?thesis .
qed

text \<open>Reading the header alone finds the language the whole file would be given: what
  \<^verbatim>\<open>loc_header_language\<close> answers is the language of the parsed file, and none when the file does not parse.\<close>
theorem loc_header_language_agrees:
  "loc_header_language raw path = (case parse_loc_text raw path of Inr f \<Rightarrow> lf_lang f | Inl _ \<Rightarrow> None)"
proof -
  let ?c = "dropWhile (\<lambda>c. c = 0xFEFF) raw"
  have "dropWhile (\<lambda>c. c = 0xFEFF) (header_end [] ?c) = header_end [] ?c"
  proof (cases "header_end [] ?c")
    case (Cons x xs)
    obtain zs where "?c = header_end [] ?c @ zs"
      using header_end_prefix [of "[]" ?c] unfolding prefix_def append_Nil by blast
    with Cons have c: "?c = x # (xs @ zs)" by (metis append_Cons)
    then have "x \<noteq> 0xFEFF" using hd_dropWhile [of "\<lambda>c. c = 0xFEFF" raw] by (metis list.distinct(1) list.sel(1))
    with Cons show ?thesis by simp
  qed simp
  moreover have "find is_entry_line (str_lines ?c) = find is_entry_line (str_lines (header_end [] ?c))"
    unfolding str_lines_def by (rule header_end_find) simp
  ultimately show ?thesis
    unfolding loc_header_language_def Let_def parse_loc_text_lang by simp
qed

end
