(* ===== verification/Loc_Pipeline.thy ===== *)
theory Loc_Pipeline
  imports Loc_Validation Loc_Scopes Loc_Index
begin

text \<open>
  The localisation diagnostics of a project,
  \<^verbatim>\<open>engine/crates/localization/src/pipeline.rs\<close>, with the codes and message templates of
  \<^verbatim>\<open>engine/crates/error_codes/src/lib.rs\<close> it uses.  What the sources take from outside is in
  the record \<open>pipeline_env\<close>: the Unicode tables, the translated templates of the active
  locale, and the \<^verbatim>\<open>Debug\<close> rendering of a text.  The parallel iterators of the source
  collect in order, so they are maps over lists.
\<close>

section \<open>Error codes\<close>

datatype error_severity = SevError | SevWarning | SevInformation | SevHint

record error_code =
  ec_id :: ustr
  ec_severity :: error_severity
  ec_template :: ustr

record pipeline_env =
  pe_unicode :: unicode
  pe_translation :: "ustr \<Rightarrow> ustr option"
  pe_debug :: "ustr \<Rightarrow> ustr"

definition ErrorCode_message :: "pipeline_env \<Rightarrow> error_code \<Rightarrow> ustr" where
  "ErrorCode_message env code =
     (case pe_translation env (ec_id code) of Some t \<Rightarrow> t | None \<Rightarrow> ec_template code)"

fun format_loop :: "ustr \<Rightarrow> ustr list \<Rightarrow> ustr" where
  "format_loop [] params = []"
| "format_loop [c] params = [c]"
| "format_loop (c # d # cs) params =
     (if c = asc CHR ''{'' \<and> d = asc CHR ''}'' then
        (case params of p # ps \<Rightarrow> p @ format_loop cs ps | [] \<Rightarrow> str ''{}'' @ format_loop cs [])
      else c # format_loop (d # cs) params)"

definition ErrorCode_format :: "pipeline_env \<Rightarrow> error_code \<Rightarrow> ustr list \<Rightarrow> ustr" where
  "ErrorCode_format env code params = format_loop (ErrorCode_message env code) params"

definition CW001_PARSE_ERROR :: error_code where
  "CW001_PARSE_ERROR = \<lparr>ec_id = str ''CW001'', ec_severity = SevError,
     ec_template = str ''Localisation file parse error: {}''\<rparr>"

definition CW226_INVALID_LOC_COMMAND :: error_code where
  "CW226_INVALID_LOC_COMMAND = \<lparr>ec_id = str ''CW226'', ec_severity = SevError,
     ec_template = str ''Localisation key \"{}\" uses command \"{}\" which doesn'' @ [39] @ str ''t exist''\<rparr>"

definition CW254_WRONG_ENCODING :: error_code where
  "CW254_WRONG_ENCODING = \<lparr>ec_id = str ''CW254'', ec_severity = SevError,
     ec_template = str ''Localisation files must be UTF-8 BOM, this file is not''\<rparr>"

definition CW260_LOC_COMMAND_WRONG_SCOPE :: error_code where
  "CW260_LOC_COMMAND_WRONG_SCOPE = \<lparr>ec_id = str ''CW260'', ec_severity = SevError,
     ec_template = str ''Loc command {} used in wrong scope. In {} but expected {}''\<rparr>"

definition CW266_LOC_COMMAND_NOT_IN_DATA_TYPE :: error_code where
  "CW266_LOC_COMMAND_NOT_IN_DATA_TYPE = \<lparr>ec_id = str ''CW266'', ec_severity = SevError,
     ec_template = str ''Localisation key {} uses command {} which does not exist in data type {}.''\<rparr>"

definition CW283_SCRIPTED_GUI_CALLBACK_NOT_FOUND :: error_code where
  "CW283_SCRIPTED_GUI_CALLBACK_NOT_FOUND = \<lparr>ec_id = str ''CW283'', ec_severity = SevError,
     ec_template = str ''Localisation key \"{}\" calls scripted GUI callback \"{}\" which does not exist''\<rparr>"

section \<open>Diagnostics of one file\<close>

record loc_diagnostic =
  ld_file :: ustr
  ld_line :: nat
  ld_col :: nat
  ld_code :: ustr
  ld_severity :: error_severity
  ld_message :: ustr
  ld_fix :: "suggested_fix option"

fun loc_error_code_severity :: "loc_error_kind \<Rightarrow> ustr \<times> error_severity" where
  "loc_error_code_severity (UndefinedLocReference other_key) = (str ''CW225'', SevError)"
| "loc_error_code_severity RecursiveLocRef = (str ''CW259'', SevError)"
| "loc_error_code_severity ReplaceMe = (str ''CW234'', SevInformation)"
| "loc_error_code_severity LocMissingQuote = (str ''CW268'', SevWarning)"
| "loc_error_code_severity LocInvalidChars = (str ''CW275'', SevWarning)"
| "loc_error_code_severity LocKeyInvalidChars = (str ''CW276'', SevWarning)"

definition loc_error_message :: "loc_error_kind \<Rightarrow> ustr \<Rightarrow> lang option \<Rightarrow> ustr" where
  "loc_error_message kind key lang =
     (let lang_label = (case lang of Some l \<Rightarrow> lang_display l | None \<Rightarrow> str ''?'') in
      case kind of
        UndefinedLocReference other_key \<Rightarrow>
          str ''Localisation key \"'' @ key @ str ''\" references \"'' @ other_key
          @ str ''\" which doesn'' @ [39] @ str ''t exist in '' @ lang_label
      | RecursiveLocRef \<Rightarrow> str ''This localisation string refers to itself''
      | ReplaceMe \<Rightarrow> str ''Localisation key '' @ key @ str '' is a placeholder for '' @ lang_label
      | LocMissingQuote \<Rightarrow>
          str ''Localisation key '' @ key @ str '' doesn'' @ [39] @ str ''t start and end with double quotes''
      | LocInvalidChars \<Rightarrow>
          str ''Localisation value for '' @ key @ str '' contains unexpected characters, and may not render correctly''
      | LocKeyInvalidChars \<Rightarrow>
          str ''Localisation key '' @ key
          @ str '' contains invalid characters (spaces or special characters are not allowed)'')"

fun lang_fsharp_name :: "lang \<Rightarrow> ustr" where
  "lang_fsharp_name English = str ''English''"
| "lang_fsharp_name French = str ''French''"
| "lang_fsharp_name German = str ''German''"
| "lang_fsharp_name Spanish = str ''Spanish''"
| "lang_fsharp_name Russian = str ''Russian''"
| "lang_fsharp_name Polish = str ''Polish''"
| "lang_fsharp_name BrazPor = str ''Braz_Por''"
| "lang_fsharp_name SimpChinese = str ''Chinese''"
| "lang_fsharp_name Japanese = str ''Japanese''"
| "lang_fsharp_name Korean = str ''Korean''"
| "lang_fsharp_name Turkish = str ''Turkish''"
| "lang_fsharp_name Default = str ''Default''"

text \<open>The code and message for the language of a file, and the diagnostic.\<close>

fun header_code_message :: "lang_header_diag \<Rightarrow> ustr \<times> ustr" where
  "header_code_message (MissingLocFileLangHeader _) =
     (str ''CW256'', str ''Localisation file should start with \"l_language:\" on the first line (or a comment)'')"
| "header_code_message (MissingLocFileLang _) =
     (str ''CW255'', str ''Localisation file name should contain (and ideally end with) \"l_language.yml\"'')"
| "header_code_message (LocFileLangMismatch _ filename_lang header_lang) =
     (str ''CW257'',
      str ''Localisation file'' @ [39] @ str ''s name has language '' @ lang_fsharp_name filename_lang
      @ str '' doesn'' @ [39] @ str ''t match the header language '' @ lang_fsharp_name header_lang)"

definition lang_header_diagnostic :: "loc_file \<Rightarrow> loc_diagnostic option" where
  "lang_header_diagnostic file =
     (if lf_is_csv file then None
      else
        map_option (\<lambda>d.
            \<lparr>ld_file = lf_path file, ld_line = 1, ld_col = 1, ld_code = fst (header_code_message d),
             ld_severity = SevError, ld_message = snd (header_code_message d), ld_fix = None\<rparr>)
          (check_loc_file_lang (lf_path file) (lf_language_prefix file)))"

fun loc_message_text :: "pipeline_env \<Rightarrow> loc_message \<Rightarrow> ustr" where
  "loc_message_text env (UnexpectedContent t) =
     str ''unexpected content (no '' @ [39] @ str '':'' @ [39] @ str '' separator): '' @ pe_debug env t"

definition loc_error_diagnostic :: "ustr \<Rightarrow> lang option \<Rightarrow> loc_validation_error \<Rightarrow> loc_diagnostic" where
  "loc_error_diagnostic file_path lang err =
     \<lparr>ld_file = file_path, ld_line = lve_line err, ld_col = lve_col err,
      ld_code = fst (loc_error_code_severity (lve_kind err)),
      ld_severity = snd (loc_error_code_severity (lve_kind err)),
      ld_message = loc_error_message (lve_kind err) (lve_key err) lang, ld_fix = lve_fix err\<rparr>"

definition build_diagnostics ::
  "pipeline_env \<Rightarrow> loc_file \<Rightarrow> ustr \<Rightarrow> ustr set \<Rightarrow> ustr set \<Rightarrow> ustr set \<Rightarrow> ustr set \<Rightarrow> bool \<Rightarrow> loc_diagnostic list" where
  "build_diagnostics env file file_path un additional_loc_keys extra_valid_refs hardcoded emit_cw254 =
     (case lang_header_diagnostic file of Some d \<Rightarrow> [d] | None \<Rightarrow> [])
     @ (if emit_cw254
        then [\<lparr>ld_file = file_path, ld_line = 1, ld_col = 1, ld_code = ec_id CW254_WRONG_ENCODING,
               ld_severity = SevError,
               ld_message = str ''Localisation files must be UTF-8 BOM, this file is not'', ld_fix = None\<rparr>]
        else [])
     @ map (\<lambda>pe. \<lparr>ld_file = file_path, ld_line = lpe_line pe, ld_col = 1, ld_code = ec_id CW001_PARSE_ERROR,
                   ld_severity = SevError,
                   ld_message = ErrorCode_format env CW001_PARSE_ERROR [loc_message_text env (lpe_message pe)],
                   ld_fix = None\<rparr>)
         (lf_parse_errors file)
     @ map (loc_error_diagnostic file_path (lf_lang file))
         (validate_loc_file_with_hardcoded (pe_unicode env) file un additional_loc_keys extra_valid_refs hardcoded)"

definition should_emit_cw254 :: "loc_file \<Rightarrow> bool" where
  "should_emit_cw254 file \<longleftrightarrow> lf_encoding file = Some Utf8NoBom \<or> lf_encoding file = Some NonUtf8"

definition lang_selected :: "loc_file \<Rightarrow> lang list option \<Rightarrow> bool" where
  "lang_selected file langs \<longleftrightarrow>
     (case langs of
        Some set_langs \<Rightarrow> (case lf_lang file of None \<Rightarrow> True | Some l \<Rightarrow> l \<in> set set_langs)
      | None \<Rightarrow> True)"

section \<open>Diagnostics of a project\<close>

text \<open>The sequential pass that gives each path one emitter of the encoding diagnostic.\<close>

fun cw254_emitters :: "lang list option \<Rightarrow> loc_file list \<Rightarrow> ustr set \<Rightarrow> bool list" where
  "cw254_emitters langs [] claimed = []"
| "cw254_emitters langs (file # files) claimed =
     (if lang_selected file langs \<and> should_emit_cw254 file
      then (lf_path file \<notin> claimed) # cw254_emitters langs files (insert (lf_path file) claimed)
      else False # cw254_emitters langs files claimed)"

definition validate_loc_project_with_union ::
  "pipeline_env \<Rightarrow> loc_service \<Rightarrow> lang list option \<Rightarrow> ustr set \<Rightarrow> ustr set \<Rightarrow> loc_diagnostic list" where
  "validate_loc_project_with_union env service langs un extra_valid_refs =
     (let hardcoded = hardcoded_loc_set (pe_unicode env);
          emitters = cw254_emitters langs (ls_files service) {}
      in concat (map (\<lambda>(file, emit).
             build_diagnostics env file (lf_path file) un {} extra_valid_refs hardcoded emit)
           (filter (\<lambda>(file, emit). lang_selected file langs) (zip (ls_files service) emitters))))"

definition validate_loc_project_scoped ::
  "pipeline_env \<Rightarrow> loc_service \<Rightarrow> lang list option \<Rightarrow> ustr set \<Rightarrow> loc_diagnostic list" where
  "validate_loc_project_scoped env service langs extra_valid_refs =
     (let un = set (concat (map (\<lambda>file. map (\<lambda>e. uc_lowercase (pe_unicode env) (le_key e)) (lf_entries file)) (ls_files service)))
      in validate_loc_project_with_union env service langs un extra_valid_refs)"

definition validate_loc_project :: "pipeline_env \<Rightarrow> loc_service \<Rightarrow> loc_diagnostic list" where
  "validate_loc_project env service = validate_loc_project_scoped env service None {}"

fun loc_command_parts ::
  "pipeline_env \<Rightarrow> loc_command_diagnostic \<Rightarrow> ustr \<Rightarrow> scope_registry option \<Rightarrow> error_code \<times> ustr" where
  "loc_command_parts env (WrongScopeDiag command current_scope expected_scopes) lkey registry =
     (let scope_name = (\<lambda>sid. (case registry of Some reg \<Rightarrow> name_of reg sid | None \<Rightarrow> show_nat sid));
          expected = join (str '', '') (map scope_name expected_scopes)
      in (CW260_LOC_COMMAND_WRONG_SCOPE,
          ErrorCode_format env CW260_LOC_COMMAND_WRONG_SCOPE [command, scope_name current_scope, expected]))"
| "loc_command_parts env (ChainEndsInScope command) lkey registry =
     (CW266_LOC_COMMAND_NOT_IN_DATA_TYPE,
      ErrorCode_format env CW266_LOC_COMMAND_NOT_IN_DATA_TYPE [lkey, command, str ''scope''])"
| "loc_command_parts env (NotFoundDiag command) lkey registry =
     (CW226_INVALID_LOC_COMMAND, ErrorCode_format env CW226_INVALID_LOC_COMMAND [lkey, command])"
| "loc_command_parts env (ScriptedGuiNotFound callback) lkey registry =
     (CW283_SCRIPTED_GUI_CALLBACK_NOT_FOUND,
      ErrorCode_format env CW283_SCRIPTED_GUI_CALLBACK_NOT_FOUND [lkey, callback])"

definition validate_loc_project_commands ::
  "pipeline_env \<Rightarrow> loc_service \<Rightarrow> lang list option \<Rightarrow> loc_scope_data \<Rightarrow> loc_diagnostic list" where
  "validate_loc_project_commands env service langs data =
     concat (map (\<lambda>file. concat (map (\<lambda>entry.
           map (\<lambda>diag.
               (let (code, message) = loc_command_parts env diag (le_key entry) (lsd_registry data)
                in \<lparr>ld_file = lf_path file, ld_line = lpos_line (le_position entry),
                    ld_col = lpos_column (le_position entry), ld_code = ec_id code, ld_severity = ec_severity code,
                    ld_message = message, ld_fix = None\<rparr>))
             (validate_loc_commands entry SCOPE_ANY data))
         (lf_entries file)))
       (filter (\<lambda>file. lang_selected file langs) (ls_files service)))"

definition validate_loc_file_text :: "pipeline_env \<Rightarrow> ustr \<Rightarrow> ustr \<Rightarrow> ustr set \<Rightarrow> ustr set \<Rightarrow> loc_diagnostic list" where
  "validate_loc_file_text env content path un extra_valid_refs =
     (case parse_loc_text content path of
        Inl _ \<Rightarrow> []
      | Inr file \<Rightarrow>
          build_diagnostics env file path un {} extra_valid_refs (hardcoded_loc_set (pe_unicode env)) False)"

definition validate_parsed_loc_files_with_additional_keys ::
  "pipeline_env \<Rightarrow> loc_file list \<Rightarrow> ustr \<Rightarrow> ustr set \<Rightarrow> ustr set \<Rightarrow> ustr set \<Rightarrow> loc_diagnostic list" where
  "validate_parsed_loc_files_with_additional_keys env files path un additional_loc_keys extra_valid_refs =
     concat (map (\<lambda>file.
         build_diagnostics env file path un additional_loc_keys extra_valid_refs
           (hardcoded_loc_set (pe_unicode env)) False)
       (filter (\<lambda>file. \<not> lf_is_csv file) files))"

definition validate_parsed_loc_files ::
  "pipeline_env \<Rightarrow> loc_file list \<Rightarrow> ustr \<Rightarrow> ustr set \<Rightarrow> ustr set \<Rightarrow> loc_diagnostic list" where
  "validate_parsed_loc_files env files path un extra_valid_refs =
     validate_parsed_loc_files_with_additional_keys env files path un {} extra_valid_refs"

section \<open>Where the encoding is reported\<close>

definition is_cw254 :: "ustr \<Rightarrow> loc_diagnostic \<Rightarrow> bool" where
  "is_cw254 path d \<longleftrightarrow> ld_code d = str ''CW254'' \<and> ld_file d = path"

lemma loc_error_code_not_254: "fst (loc_error_code_severity k) \<noteq> str ''CW254''"
  by (cases k) simp_all

lemma header_codes: "fst (header_code_message d) \<in> {str ''CW255'', str ''CW256'', str ''CW257''}"
  by (cases d) simp_all

lemma header_code_not:
  assumes "lang_header_diagnostic f = Some d" shows "ld_code d \<noteq> str ''CW254'' \<and> ld_code d \<noteq> str ''CW225''"
proof -
  obtain h where "ld_code d = fst (header_code_message h)"
    using assms by (auto simp: lang_header_diagnostic_def split: if_splits)
  with header_codes [of h] show ?thesis by auto
qed

lemma build_diagnostics_254:
  "filter (is_cw254 path) (build_diagnostics env file p un a x h emit)
     = (if emit \<and> p = path
        then [\<lparr>ld_file = p, ld_line = 1, ld_col = 1, ld_code = ec_id CW254_WRONG_ENCODING, ld_severity = SevError,
               ld_message = str ''Localisation files must be UTF-8 BOM, this file is not'', ld_fix = None\<rparr>]
        else [])"
proof -
  have "\<not> is_cw254 path d" if "lang_header_diagnostic file = Some d" for d
    using header_code_not [OF that] by (simp add: is_cw254_def)
  then have "filter (is_cw254 path) (case lang_header_diagnostic file of Some d \<Rightarrow> [d] | None \<Rightarrow> []) = []"
    by (simp split: option.split)
  moreover have "\<not> is_cw254 path (loc_error_diagnostic p l err)" for l err
    using loc_error_code_not_254 [of "lve_kind err"] by (simp add: is_cw254_def loc_error_diagnostic_def)
  then have "filter (is_cw254 path) (map (loc_error_diagnostic p l) errs) = []" for l errs by (simp add: filter_empty_conv)
  ultimately show ?thesis
    by (simp add: build_diagnostics_def is_cw254_def CW254_WRONG_ENCODING_def CW001_PARSE_ERROR_def comp_def)
qed

definition emits :: "lang list option \<Rightarrow> ustr \<Rightarrow> loc_file \<Rightarrow> bool" where
  "emits langs path file \<longleftrightarrow> lang_selected file langs \<and> should_emit_cw254 file \<and> lf_path file = path"

lemma cw254_count:
  "length (filter (is_cw254 path) (concat (map (\<lambda>(file, emit). build_diagnostics env file (lf_path file) un a x h emit)
       (filter (\<lambda>(file, emit). lang_selected file langs) (zip files (cw254_emitters langs files claimed))))))
   = (if path \<notin> claimed \<and> (\<exists>file \<in> set files. emits langs path file) then 1 else 0)"
proof (induction files arbitrary: claimed)
  case (Cons fl files)
  have sel: "length (filter (is_cw254 path) (build_diagnostics env fl (lf_path fl) un a x h emit))
      = (if emit \<and> lf_path fl = path then 1 else 0)" for emit
    by (simp add: build_diagnostics_254)
  show ?case
  proof (cases "lang_selected fl langs \<and> should_emit_cw254 fl")
    case True
    then have e: "emits langs path fl \<longleftrightarrow> lf_path fl = path" by (simp add: emits_def)
    from True show ?thesis
      by (simp add: sel Cons e ) auto
  next
    case False
    then have e: "\<not> emits langs path fl" by (auto simp: emits_def)
    show ?thesis
    proof (cases "lang_selected fl langs")
      case True
      with False have "\<not> should_emit_cw254 fl" by simp
      with True show ?thesis by (simp add: sel Cons e)
    next
      case False
      then show ?thesis by (simp add: Cons e)
    qed
  qed
qed simp

section \<open>Properties\<close>

text \<open>A file in the wrong encoding is reported once.  However many projections of it the project holds
  (a comma-separated file has one for each language), there is exactly one CW254 for its path when a
  selected projection lacks the byte order mark, and none otherwise.\<close>
theorem wrong_encoding_reported_once:
  "length (filter (\<lambda>d. ld_code d = str ''CW254'' \<and> ld_file d = path)
       (validate_loc_project_with_union env service langs un extra))
   = (if \<exists>file \<in> set (ls_files service). lang_selected file langs \<and> should_emit_cw254 file \<and> lf_path file = path
      then 1 else 0)"
  using cw254_count [of path env un "{}" extra "hardcoded_loc_set (pe_unicode env)" langs "ls_files service" "{}"]
  by (simp add: validate_loc_project_with_union_def Let_def emits_def is_cw254_def [abs_def])

text \<open>The two entry points of a file agree: checking a text and checking the files parsed from it give the
  same diagnostics, for every path that is not a comma-separated file; for such a path the second gives none.\<close>
theorem text_and_parsed_agree:
  "validate_parsed_loc_files env (case parse_loc_files iter path content encoding of Inr fs \<Rightarrow> fs | Inl _ \<Rightarrow> []) path un extra
   = (if is_csv_path path then [] else validate_loc_file_text env content path un extra)"
proof (cases "is_csv_path path")
  case True
  then show ?thesis
    by (simp add: parse_loc_files_def validate_parsed_loc_files_def validate_parsed_loc_files_with_additional_keys_def
        Let_def filter_empty_conv split: prod.split)
next
  case False
  have "build_diagnostics env (f\<lparr>lf_encoding := encoding\<rparr>) path un {} extra h False
      = build_diagnostics env f path un {} extra h False" for f h
    by (simp add: build_diagnostics_def lang_header_diagnostic_def validate_loc_file_with_hardcoded_def)
  moreover have "parse_loc_text content path = Inr f \<Longrightarrow> \<not> lf_is_csv f" for f
    by (auto simp: parse_loc_text_def Let_def split: option.splits prod.splits)
  ultimately show ?thesis using False
    by (auto simp: parse_loc_files_def validate_parsed_loc_files_def
        validate_parsed_loc_files_with_additional_keys_def validate_loc_file_text_def split: sum.split)
qed

text \<open>A project's own keys are never undefined references: when a diagnostic says that an entry refers to a
  missing key, no file of the project, in any language, has an entry with that key in any letter case.\<close>
theorem undefined_reference_is_undefined:
  assumes "d \<in> set (validate_loc_project_scoped env service langs extra)" and "ld_code d = str ''CW225''"
  shows "\<exists>file \<in> set (ls_files service). \<exists>entry \<in> set (lf_entries file). \<exists>r \<in> set (le_refs entry).
     ld_file d = lf_path file \<and> ld_line d = lpos_line (le_position entry)
     \<and> (\<forall>f \<in> set (ls_files service). \<forall>e \<in> set (lf_entries f).
          uc_lowercase (pe_unicode env) (le_key e) \<noteq> uc_lowercase (pe_unicode env) r)"
proof -
  let ?U = "pe_unicode env"
  let ?un = "set (concat (map (\<lambda>file. map (\<lambda>e. uc_lowercase ?U (le_key e)) (lf_entries file)) (ls_files service)))"
  obtain fl emit where f: "fl \<in> set (ls_files service)"
    "d \<in> set (build_diagnostics env fl (lf_path fl) ?un {} extra (hardcoded_loc_set ?U) emit)"
    using assms(1) by (auto simp: validate_loc_project_scoped_def validate_loc_project_with_union_def Let_def
        dest: set_zip_leftD)
  from f(2) assms(2) obtain err where err:
    "err \<in> set (validate_loc_file_with_hardcoded ?U fl ?un {} extra (hardcoded_loc_set ?U))"
    "fst (loc_error_code_severity (lve_kind err)) = str ''CW225''" "ld_file d = lf_path fl" "ld_line d = lve_line err"
    using header_code_not [of fl d]
    by (fastforce simp: build_diagnostics_def CW254_WRONG_ENCODING_def CW001_PARSE_ERROR_def loc_error_diagnostic_def
        split: option.splits if_splits)
  from err(2) obtain r where r: "lve_kind err = UndefinedLocReference r" by (cases "lve_kind err") auto
  obtain entry where entry: "entry \<in> set (lf_entries fl)"
    "err \<in> set (validate_entry ?U ?un {} extra (hardcoded_loc_set ?U) entry)"
    using err(1) by (auto simp: validate_loc_file_with_hardcoded_def)
  then obtain r' where r': "r' \<in> set (le_refs entry)" "err \<in> set (validate_ref ?U ?un {} extra (hardcoded_loc_set ?U) entry r')"
    using r by (auto simp: validate_entry_def validate_key_chars_def validate_invalid_chars_def entry_error_def
        split: if_splits option.splits)
  then have "uc_lowercase ?U r' \<notin> ?un" "lve_line err = lpos_line (le_position entry)"
    using r by (auto simp: validate_ref_def entry_error_def Let_def split: if_splits)
  moreover from this(1) have "\<forall>f \<in> set (ls_files service). \<forall>e \<in> set (lf_entries f). uc_lowercase ?U (le_key e) \<noteq> uc_lowercase ?U r'"
    by (fastforce simp: image_iff)
  ultimately show ?thesis
    using err(3,4) by (intro bexI [OF _ f(1)] bexI [OF _ entry(1)] bexI [OF _ r'(1)] conjI) simp_all
qed

theorem undefined_reference_is_undefined_witness:
  "\<exists>d. ld_code d = str ''CW225''
     \<and> (let service = from_files (\<lambda>xs. xs) [(str ''a_l_english.yml'', str ''l_english:'' @ [10] @ str '' k: \"$nope$\"'')] in
        d \<in> set (validate_loc_project_scoped
            \<lparr>pe_unicode = \<lparr>uc_lowercase = map ascii_lower, uc_is_lowercase = is_ascii_lowercase\<rparr>,
             pe_translation = Map.empty, pe_debug = (\<lambda>s. s)\<rparr> service None {})
        \<and> (\<exists>file \<in> set (ls_files service). ld_file d = lf_path file))"
proof -
  let ?env = "\<lparr>pe_unicode = \<lparr>uc_lowercase = map ascii_lower, uc_is_lowercase = is_ascii_lowercase\<rparr>,
    pe_translation = Map.empty, pe_debug = (\<lambda>s. s)\<rparr>"
  define service where
    "service = from_files (\<lambda>xs. xs) [(str ''a_l_english.yml'', str ''l_english:'' @ [10] @ str '' k: \"$nope$\"'')]"
  have "list_ex (\<lambda>d. ld_code d = str ''CW225'')
      (validate_loc_project_scoped ?env
        (from_files (\<lambda>xs. xs) [(str ''a_l_english.yml'', str ''l_english:'' @ [10] @ str '' k: \"$nope$\"'')]) None {})"
    by code_simp
  then obtain d where d: "d \<in> set (validate_loc_project_scoped ?env service None {})" "ld_code d = str ''CW225''"
    unfolding service_def list_ex_iff by blast
  have "\<exists>file \<in> set (ls_files service). ld_file d = lf_path file"
    using undefined_reference_is_undefined [OF d] by blast
  with d show ?thesis unfolding Let_def service_def [symmetric] by blast
qed

end
