(* ===== verification/Cache_Convert.thy ===== *)
theory Cache_Convert
  imports Parser_Properties
begin

text \<open>
  The on-disk form of a parsed file, \<^verbatim>\<open>engine/crates/cache/src/convert.rs\<close> and the structs of
  \<^verbatim>\<open>cache_format.rs\<close>.

  A cached file holds its strings inline; loading it interns them again, after checks that
  protect the rest of the engine from a damaged or hostile file: child indices are in range and
  in parse order, clauses nest at most 257 deep (a depth-first search with an explicit stack and
  a memo of settled depths), and the comments tile their pool.  The archived view that
  \<^verbatim>\<open>rkyv\<close> gives of a file has the values of the file, so one type stands for both.
  An index out of range and a string iterator that ends early are \<open>None\<close> where the source would
  panic; rejections are errors of the sum.
\<close>

section \<open>The cached file\<close>

datatype cached_child = CachedChild_Leaf nat | CachedChild_LeafValue nat | CachedChild_Comment nat

datatype cached_value =
    CachedValue_String ustr
  | CachedValue_QString ustr
  | CachedValue_Float decimal
  | CachedValue_Int int
  | CachedValue_Bool bool
  | CachedValue_Clause "cached_child list"

datatype cached_operator = CachedEquals | CachedGreaterThan | CachedLessThan | CachedGreaterThanOrEqual
  | CachedLessThanOrEqual | CachedNotEqual | CachedEqualEqual | CachedQuestionEqual

datatype cached_color_prefix = CachedRgb | CachedHsv | CachedHsv360

record cached_leaf =
  cl_key :: ustr
  cl_value :: cached_value
  cl_op :: cached_operator
  cl_start_line :: nat
  cl_start_col :: nat
  cl_end_line :: nat
  cl_end_col :: nat
  cl_value_start_line :: nat
  cl_value_start_col :: nat
  cl_value_end_line :: nat
  cl_value_end_col :: nat
  cl_color_prefix :: "cached_color_prefix option"

record cached_leaf_value =
  clv_value :: cached_value
  clv_start_line :: nat
  clv_start_col :: nat
  clv_end_line :: nat
  clv_end_col :: nat
  clv_color_prefix :: "cached_color_prefix option"

record cached_comment =
  cc_text_start :: nat
  cc_text_end :: nat
  cc_start_line :: nat
  cc_start_col :: nat
  cc_end_line :: nat
  cc_end_col :: nat

record cached_file =
  cf_root_children :: "cached_child list"
  cf_leaves :: "cached_leaf list"
  cf_leaf_values :: "cached_leaf_value list"
  cf_comments :: "cached_comment list"
  cf_comment_text_pool :: ustr

datatype cached_parse_error = CachedParseError_Pos nat nat ustr

record cached_source =
  cs_content_hash :: u64
  cs_inline_ignored :: "(nat \<times> ustr list) list"

record cached_errors =
  ce_errors :: "cached_parse_error list"
  ce_source :: "cached_source option"

datatype io_kind = NotFoundIo | AlreadyExists | Interrupted | InvalidInput | InvalidData | OtherIo

text \<open>
  \<^verbatim>\<open>CacheError\<close>; the errors of \<^verbatim>\<open>rkyv\<close> have the type \<open>'r\<close>.
\<close>

datatype 'r cache_error =
    CacheError_Io io_kind
  | CacheError_Serialize 'r
  | CacheError_Deserialize (cache_msg: ustr) (cache_source: "'r option")
  | CacheError_Compression io_kind

definition cache_rejected :: "ustr \<Rightarrow> 'r cache_error" where
  "cache_rejected msg = CacheError_Deserialize msg None"

section \<open>Writing\<close>

fun collect_value_tokens :: "pvalue \<Rightarrow> string_tokens list" where
  "collect_value_tokens (VString tokens) = [tokens]"
| "collect_value_tokens (VQString tokens) = [tokens]"
| "collect_value_tokens (VFloat _) = []"
| "collect_value_tokens (VInt _) = []"
| "collect_value_tokens (VBool _) = []"
| "collect_value_tokens (VClause _) = []"

fun next_owned_string :: "ustr list \<Rightarrow> (ustr \<times> ustr list) option" where
  "next_owned_string [] = None"
| "next_owned_string (s # ss) = Some (s, ss)"

fun child_to_cached :: "child \<Rightarrow> cached_child" where
  "child_to_cached (CLeaf i) = CachedChild_Leaf i"
| "child_to_cached (CLeafValue i) = CachedChild_LeafValue i"
| "child_to_cached (CComment i) = CachedChild_Comment i"

definition children_to_cached :: "child list \<Rightarrow> cached_child list" where
  "children_to_cached children = map child_to_cached children"

fun op_to_cached :: "operator \<Rightarrow> cached_operator" where
  "op_to_cached Equals = CachedEquals"
| "op_to_cached GreaterThan = CachedGreaterThan"
| "op_to_cached LessThan = CachedLessThan"
| "op_to_cached GreaterThanOrEqual = CachedGreaterThanOrEqual"
| "op_to_cached LessThanOrEqual = CachedLessThanOrEqual"
| "op_to_cached NotEqual = CachedNotEqual"
| "op_to_cached EqualEqual = CachedEqualEqual"
| "op_to_cached QuestionEqual = CachedQuestionEqual"

fun color_prefix_to_cached :: "color_prefix \<Rightarrow> cached_color_prefix" where
  "color_prefix_to_cached Rgb = CachedRgb"
| "color_prefix_to_cached Hsv = CachedHsv"
| "color_prefix_to_cached Hsv360 = CachedHsv360"

definition range_to_cached :: "source_range \<Rightarrow> nat \<times> nat \<times> nat \<times> nat" where
  "range_to_cached r =
     (pos_line (range_start r), pos_col (range_start r), pos_line (range_end r), pos_col (range_end r))"

fun value_to_cached :: "pvalue \<Rightarrow> ustr list \<Rightarrow> (cached_value \<times> ustr list) option" where
  "value_to_cached (VString _) strings =
     map_option (\<lambda>(s, strings). (CachedValue_String s, strings)) (next_owned_string strings)"
| "value_to_cached (VQString _) strings =
     map_option (\<lambda>(s, strings). (CachedValue_QString s, strings)) (next_owned_string strings)"
| "value_to_cached (VFloat f) strings = Some (CachedValue_Float f, strings)"
| "value_to_cached (VInt i) strings = Some (CachedValue_Int i, strings)"
| "value_to_cached (VBool b) strings = Some (CachedValue_Bool b, strings)"
| "value_to_cached (VClause children) strings = Some (CachedValue_Clause (children_to_cached children), strings)"

definition leaf_to_cached :: "leaf \<Rightarrow> ustr list \<Rightarrow> (cached_leaf \<times> ustr list) option" where
  "leaf_to_cached l strings =
     (let (sl, sc, el, ec) = range_to_cached (leaf_pos l);
          (vsl, vsc, vel, vec) = range_to_cached (leaf_val_pos l) in
      do {
        (key, strings) \<leftarrow> next_owned_string strings;
        (val, strings) \<leftarrow> value_to_cached (leaf_val l) strings;
        Some (\<lparr>cl_key = key, cl_value = val, cl_op = op_to_cached (leaf_op l),
          cl_start_line = sl, cl_start_col = sc, cl_end_line = el, cl_end_col = ec,
          cl_value_start_line = vsl, cl_value_start_col = vsc, cl_value_end_line = vel,
          cl_value_end_col = vec, cl_color_prefix = map_option color_prefix_to_cached (leaf_color l)\<rparr>, strings)
      })"

definition leaf_value_to_cached :: "leaf_value \<Rightarrow> ustr list \<Rightarrow> (cached_leaf_value \<times> ustr list) option" where
  "leaf_value_to_cached lv strings =
     (let (sl, sc, el, ec) = range_to_cached (lv_pos lv) in
      do {
        (val, strings) \<leftarrow> value_to_cached (lv_value lv) strings;
        Some (\<lparr>clv_value = val, clv_start_line = sl, clv_start_col = sc, clv_end_line = el, clv_end_col = ec,
          clv_color_prefix = map_option color_prefix_to_cached (lv_color lv)\<rparr>, strings)
      })"

text \<open>\<^verbatim>\<open>iter().map(|x| f(x, &mut state)).collect()\<close>, for a closure that may panic.\<close>

fun map_threading :: "('a \<Rightarrow> 's \<Rightarrow> ('b \<times> 's) option) \<Rightarrow> 'a list \<Rightarrow> 's \<Rightarrow> ('b list \<times> 's) option" where
  "map_threading f [] s = Some ([], s)"
| "map_threading f (x # xs) s = do {
     (y, s) \<leftarrow> f x s;
     (ys, s) \<leftarrow> map_threading f xs s;
     Some (y # ys, s)
   }"

definition arena_tokens :: "arena \<Rightarrow> string_tokens list" where
  "arena_tokens A =
     concat (map (\<lambda>l. leaf_key l # collect_value_tokens (leaf_val l)) (leaves A))
     @ concat (map (\<lambda>lv. collect_value_tokens (lv_value lv)) (leaf_values A))"

text \<open>The texts of the tokens, copied into one buffer with the end of each, and cut out again.\<close>

definition copy_texts :: "resolver \<Rightarrow> string_tokens list \<Rightarrow> ustr \<times> nat list" where
  "copy_texts table tokens =
     foldl (\<lambda>(text, ends) token.
         let text = text @ (case resolver_get table (tok_normal token) of Some s \<Rightarrow> s | None \<Rightarrow> []) in
         (text, ends @ [blen text]))
       ([], []) tokens"

fun cut_texts :: "ustr \<Rightarrow> nat \<Rightarrow> nat list \<Rightarrow> ustr list option" where
  "cut_texts text start [] = Some []"
| "cut_texts text start (e # ends) = do {
     string \<leftarrow> byte_slice text start e;
     strings \<leftarrow> cut_texts text e ends;
     Some (string # strings)
   }"

definition comment_to_cached :: "arena \<Rightarrow> comment \<Rightarrow> ustr \<Rightarrow> cached_comment \<times> ustr" where
  "comment_to_cached A c pool =
     (let text_start = blen pool;
          pool = (case comment_text A c of Some text \<Rightarrow> pool @ text | None \<Rightarrow> pool);
          (sl, sc, el, ec) = range_to_cached (comment_pos c) in
      (\<lparr>cc_text_start = text_start, cc_text_end = blen pool, cc_start_line = sl, cc_start_col = sc,
        cc_end_line = el, cc_end_col = ec\<rparr>, pool))"

fun comments_to_cached :: "arena \<Rightarrow> comment list \<Rightarrow> ustr \<Rightarrow> cached_comment list \<times> ustr" where
  "comments_to_cached A [] pool = ([], pool)"
| "comments_to_cached A (c # cs) pool =
     (let (cc, pool) = comment_to_cached A c pool; (ccs, pool) = comments_to_cached A cs pool in (cc # ccs, pool))"

definition arena_to_cached :: "arena \<Rightarrow> child list \<Rightarrow> string_table \<Rightarrow> cached_file option" where
  "arena_to_cached A root T =
     (let (text, ends) = copy_texts (with_read T) (arena_tokens A);
          (comments, pool) = comments_to_cached A (comments A) [] in
      do {
        strings \<leftarrow> cut_texts text 0 ends;
        (leaves, strings) \<leftarrow> map_threading leaf_to_cached (leaves A) strings;
        (leaf_values, strings) \<leftarrow> map_threading leaf_value_to_cached (leaf_values A) strings;
        Some \<lparr>cf_root_children = children_to_cached root, cf_leaves = leaves, cf_leaf_values = leaf_values,
          cf_comments = comments, cf_comment_text_pool = pool\<rparr>
      })"

fun error_to_cached :: "parse_error \<Rightarrow> cached_parse_error" where
  "error_to_cached (Pos line col message) = CachedParseError_Pos line col message"

definition errors_to_cached :: "parse_error list \<Rightarrow> cached_source option \<Rightarrow> cached_errors" where
  "errors_to_cached errors source = \<lparr>ce_errors = map error_to_cached errors, ce_source = source\<rparr>"

fun cached_error_to_parse :: "cached_parse_error \<Rightarrow> parse_error" where
  "cached_error_to_parse (CachedParseError_Pos line col message) = Pos line col message"

definition cached_errors_to_parse :: "cached_errors \<Rightarrow> parse_error list" where
  "cached_errors_to_parse cached = map cached_error_to_parse (ce_errors cached)"

section \<open>Checks of a loaded file\<close>

fun comment_pool_loop :: "ustr \<Rightarrow> nat \<Rightarrow> cached_comment list \<Rightarrow> 'r cache_error + nat" where
  "comment_pool_loop pool carried [] = Inr carried"
| "comment_pool_loop pool carried (c # cs) =
     (let start = cc_text_start c; stop = cc_text_end c in
      if stop < start \<or> start \<noteq> carried \<or> stop > blen pool
      then Inl (cache_rejected (str ''cache comment text range is out of order or past the comment text pool''))
      else if stop = start then Inl (cache_rejected (str ''cache comment text range is empty''))
      else if drop_bytes start pool = None \<or> drop_bytes stop pool = None
      then Inl (cache_rejected (str ''cache comment text range is not on a UTF-8 boundary''))
      else comment_pool_loop pool stop cs)"

definition validate_archived_comment_pool :: "cached_file \<Rightarrow> 'r cache_error + unit" where
  "validate_archived_comment_pool cached =
     (case comment_pool_loop (cf_comment_text_pool cached) 0 (cf_comments cached) of
        Inl e \<Rightarrow> Inl e
      | Inr carried \<Rightarrow>
          if carried \<noteq> blen (cf_comment_text_pool cached)
          then Inl (cache_rejected (str ''cache comment text pool is not fully covered by comment ranges''))
          else Inr ())"

datatype clause_owner = OwnerRoot | OwnerLeaf nat | OwnerLeafValue nat

fun child_slot :: "clause_owner \<Rightarrow> nat \<times> nat \<times> nat \<Rightarrow> cached_child \<Rightarrow> nat \<times> nat \<times> nat option" where
  "child_slot owner (leaf_count, leaf_value_count, comment_count) (CachedChild_Leaf i) =
     (i, leaf_count, (case owner of OwnerLeaf index \<Rightarrow> Some index | _ \<Rightarrow> None))"
| "child_slot owner (leaf_count, leaf_value_count, comment_count) (CachedChild_LeafValue i) =
     (i, leaf_value_count, (case owner of OwnerLeafValue index \<Rightarrow> Some index | _ \<Rightarrow> None))"
| "child_slot owner (leaf_count, leaf_value_count, comment_count) (CachedChild_Comment i) =
     (i, comment_count, None)"

fun check_archived_child_list ::
  "cached_child list \<Rightarrow> nat \<times> nat \<times> nat \<Rightarrow> clause_owner \<Rightarrow> 'r cache_error + unit" where
  "check_archived_child_list [] sizes owner = Inr ()"
| "check_archived_child_list (child # children) sizes owner =
     (let (index, count, owner_index) = child_slot owner sizes child in
      if index \<ge> count then Inl (cache_rejected (str ''cache child index out of bounds''))
      else if (case owner_index of Some slot \<Rightarrow> index \<ge> slot | None \<Rightarrow> False)
      then Inl (cache_rejected (str ''cache child index out of parse order''))
      else check_archived_child_list children sizes owner)"

fun check_clauses :: "(nat \<Rightarrow> clause_owner) \<Rightarrow> nat \<times> nat \<times> nat \<Rightarrow> nat \<Rightarrow> cached_value list \<Rightarrow> 'r cache_error + unit" where
  "check_clauses owner sizes index [] = Inr ()"
| "check_clauses owner sizes index (v # vs) =
     (case (case v of
              CachedValue_Clause children \<Rightarrow> check_archived_child_list children sizes (owner index)
            | _ \<Rightarrow> Inr ()) of
        Inl e \<Rightarrow> Inl e
      | Inr _ \<Rightarrow> check_clauses owner sizes (index + 1) vs)"

definition cf_counts :: "cached_file \<Rightarrow> nat \<times> nat \<times> nat" where
  "cf_counts cached = (length (cf_leaves cached), length (cf_leaf_values cached), length (cf_comments cached))"

definition validate_archived_child_bounds :: "cached_file \<Rightarrow> 'r cache_error + unit" where
  "validate_archived_child_bounds cached =
     (case check_archived_child_list (cf_root_children cached) (cf_counts cached) OwnerRoot of
        Inl e \<Rightarrow> Inl e
      | Inr _ \<Rightarrow>
          (case check_clauses OwnerLeaf (cf_counts cached) 0 (map cl_value (cf_leaves cached)) of
             Inl e \<Rightarrow> Inl e
           | Inr _ \<Rightarrow> check_clauses OwnerLeafValue (cf_counts cached) 0 (map clv_value (cf_leaf_values cached))))"

subsection \<open>The depth of clauses\<close>

definition MAX_CACHED_CLAUSE_DEPTH :: nat where
  "MAX_CACHED_CLAUSE_DEPTH = MAX_CLAUSE_DEPTH + 1"

definition UNRESOLVED_DEPTH :: nat where
  "UNRESOLVED_DEPTH = 2 ^ 32 - 1"

datatype archived_node = NodeLeaf nat | NodeLeafValue nat

record clause_depths =
  cd_leaves :: "nat list"
  cd_leaf_values :: "nat list"

fun depths_get :: "clause_depths \<Rightarrow> archived_node \<Rightarrow> nat option" where
  "depths_get D (NodeLeaf i) = list_get (cd_leaves D) i"
| "depths_get D (NodeLeafValue i) = list_get (cd_leaf_values D) i"

fun depths_set :: "clause_depths \<Rightarrow> archived_node \<Rightarrow> nat \<Rightarrow> clause_depths option" where
  "depths_set D (NodeLeaf i) depth =
     (if i < length (cd_leaves D) then Some (D\<lparr>cd_leaves := (cd_leaves D)[i := depth]\<rparr>) else None)"
| "depths_set D (NodeLeafValue i) depth =
     (if i < length (cd_leaf_values D) then Some (D\<lparr>cd_leaf_values := (cd_leaf_values D)[i := depth]\<rparr>) else None)"

record depth_frame =
  df_node :: archived_node
  df_next_child :: nat
  df_deepest_child :: nat

definition DepthFrame_new :: "archived_node \<Rightarrow> depth_frame" where
  "DepthFrame_new node = \<lparr>df_node = node, df_next_child = 0, df_deepest_child = 0\<rparr>"

fun node_value :: "cached_file \<Rightarrow> archived_node \<Rightarrow> cached_value option" where
  "node_value cached (NodeLeaf i) = map_option cl_value (list_get (cf_leaves cached) i)"
| "node_value cached (NodeLeafValue i) = map_option clv_value (list_get (cf_leaf_values cached) i)"

definition archived_clause_children :: "cached_file \<Rightarrow> archived_node \<Rightarrow> cached_child list option option" where
  "archived_clause_children cached node =
     map_option (\<lambda>v. case v of CachedValue_Clause children \<Rightarrow> Some children | _ \<Rightarrow> None) (node_value cached node)"

fun child_node :: "cached_child \<Rightarrow> archived_node option" where
  "child_node (CachedChild_Leaf i) = Some (NodeLeaf i)"
| "child_node (CachedChild_LeafValue i) = Some (NodeLeafValue i)"
| "child_node (CachedChild_Comment _) = None"

fun raise_owner :: "nat \<Rightarrow> depth_frame list \<Rightarrow> depth_frame list" where
  "raise_owner depth [] = []"
| "raise_owner depth (owner # stack) =
     owner\<lparr>df_deepest_child := max (df_deepest_child owner) depth\<rparr> # stack"

text \<open>The loop ends: a frame weighs more than all the frames that can be pushed above it.\<close>

definition children_left :: "cached_file \<Rightarrow> depth_frame \<Rightarrow> nat" where
  "children_left cached f =
     (case archived_clause_children cached (df_node f) of
        Some (Some children) \<Rightarrow> length children - df_next_child f | _ \<Rightarrow> 0)"

definition clause_length :: "cached_value \<Rightarrow> nat" where
  "clause_length v = (case v of CachedValue_Clause children \<Rightarrow> length children | _ \<Rightarrow> 0)"

definition stack_base :: "cached_file \<Rightarrow> nat" where
  "stack_base cached =
     sum_list (map (clause_length \<circ> cl_value) (cf_leaves cached))
     + sum_list (map (clause_length \<circ> clv_value) (cf_leaf_values cached)) + 2"

fun stack_weight :: "cached_file \<Rightarrow> depth_frame list \<Rightarrow> nat" where
  "stack_weight cached [] = 0"
| "stack_weight cached (f # stack) =
     (children_left cached f + 1) * stack_base cached ^ (MAX_CACHED_CLAUSE_DEPTH - length stack)
     + stack_weight cached stack"

lemma sum_list_member: "x \<in> set xs \<Longrightarrow> (g x :: nat) \<le> sum_list (map g xs)"
  by (rule member_le_sum_list) auto

lemma children_left_new: "children_left cached (DepthFrame_new node) + 1 < stack_base cached"
proof -
  have "children_left cached (DepthFrame_new node) \<le> stack_base cached - 2"
  proof (cases node)
    case (NodeLeaf i)
    then show ?thesis
      using sum_list_member [of "cf_leaves cached ! i" "cf_leaves cached" "clause_length \<circ> cl_value"]
      by (auto simp: children_left_def archived_clause_children_def list_get_def stack_base_def clause_length_def
          DepthFrame_new_def nth_mem split: cached_value.splits)
  next
    case (NodeLeafValue i)
    then show ?thesis
      using sum_list_member [of "cf_leaf_values cached ! i" "cf_leaf_values cached" "clause_length \<circ> clv_value"]
      by (auto simp: children_left_def archived_clause_children_def list_get_def stack_base_def clause_length_def
          DepthFrame_new_def nth_mem split: cached_value.splits)
  qed
  moreover have "2 \<le> stack_base cached" by (simp add: stack_base_def)
  ultimately show ?thesis by linarith
qed

lemma stack_base_pos [simp]: "0 < stack_base cached"
  by (simp add: stack_base_def)

lemma children_left_deepest [simp]:
  "children_left cached (f\<lparr>df_deepest_child := d\<rparr>) = children_left cached f"
  by (simp add: children_left_def split: option.split)

lemma stack_weight_push:
  assumes "length stack + 2 \<le> MAX_CACHED_CLAUSE_DEPTH" and "children_left cached f' < children_left cached f"
  shows "stack_weight cached (DepthFrame_new node # f' # stack) < stack_weight cached (f # stack)"
proof -
  let ?B = "stack_base cached" let ?e = "MAX_CACHED_CLAUSE_DEPTH - length stack"
  have e: "?B ^ ?e = ?B * ?B ^ (?e - 1)" using assms(1) by (cases ?e) auto
  have "(children_left cached (DepthFrame_new node) + 1) * ?B ^ (?e - 1) < ?B ^ ?e"
    unfolding e using children_left_new [of cached node] by (intro mult_strict_right_mono) simp_all
  moreover have "(children_left cached f' + 1) * ?B ^ ?e + ?B ^ ?e \<le> (children_left cached f + 1) * ?B ^ ?e"
    using mult_right_mono [of "children_left cached f' + 2" "children_left cached f + 1" "?B ^ ?e"] assms(2)
    by (simp add: add_mult_distrib)
  moreover have "stack_weight cached (DepthFrame_new node # f' # stack) =
      (children_left cached (DepthFrame_new node) + 1) * ?B ^ (?e - 1) + (children_left cached f' + 1) * ?B ^ ?e
      + stack_weight cached stack"
    by (simp only: stack_weight.simps list.size add_Suc_right add_0_right diff_Suc_eq_diff_pred) simp
  ultimately show ?thesis by (simp only: stack_weight.simps)
qed


lemma stack_weight_step:
  "children_left cached f' < children_left cached f \<Longrightarrow> stack_weight cached (f' # stack) < stack_weight cached (f # stack)"
  by simp

lemma stack_weight_raise: "stack_weight cached (raise_owner depth stack) = stack_weight cached stack"
  by (cases stack) simp_all

lemma stack_weight_pop: "stack_weight cached (raise_owner depth stack) < stack_weight cached (f # stack)"
  by (simp add: stack_weight_raise)

lemma children_left_next:
  "archived_clause_children cached (df_node f) = Some children \<Longrightarrow>
   Option.bind children (\<lambda>list. list_get list (df_next_child f)) = Some child \<Longrightarrow>
   df_node f' = df_node f \<Longrightarrow> df_next_child f' = df_next_child f + 1 \<Longrightarrow>
   children_left cached f' < children_left cached f"
  by (auto simp: children_left_def list_get_def split: option.splits if_splits bind_splits)

function depth_loop ::
  "cached_file \<Rightarrow> clause_depths \<Rightarrow> depth_frame list \<Rightarrow> ('r cache_error + clause_depths) option" where
  "depth_loop cached D [] = Some (Inr D)"
| "depth_loop cached D (fr # stack) =
     (case archived_clause_children cached (df_node fr) of
        None \<Rightarrow> None
      | Some children \<Rightarrow>
          (case Option.bind children (\<lambda>list. list_get list (df_next_child fr)) of
             None \<Rightarrow>
               (let depth = (case children of Some _ \<Rightarrow> df_deepest_child fr + 1 | None \<Rightarrow> 0) in
                if depth > MAX_CACHED_CLAUSE_DEPTH
                then Some (Inl (cache_rejected (str ''cache clause nesting too deep'')))
                else
                  (case depths_set D (df_node fr) depth of
                     None \<Rightarrow> None
                   | Some D' \<Rightarrow> depth_loop cached D' (raise_owner depth stack)))
           | Some child \<Rightarrow>
               (let fr' = fr\<lparr>df_next_child := df_next_child fr + 1\<rparr> in
                case child_node child of
                  None \<Rightarrow> depth_loop cached D (fr' # stack)
                | Some node \<Rightarrow>
                    (case depths_get D node of
                       None \<Rightarrow> None
                     | Some settled \<Rightarrow>
                         (if settled \<noteq> UNRESOLVED_DEPTH
                          then depth_loop cached D
                            (fr'\<lparr>df_deepest_child := max (df_deepest_child fr') settled\<rparr> # stack)
                          else
                            (case archived_clause_children cached node of
                               None \<Rightarrow> None
                             | Some None \<Rightarrow> depth_loop cached D (fr' # stack)
                             | Some (Some _) \<Rightarrow>
                                 (if length stack + 2 > MAX_CACHED_CLAUSE_DEPTH
                                  then Some (Inl (cache_rejected (str ''cache clause nesting too deep'')))
                                  else depth_loop cached D (DepthFrame_new node # fr' # stack))))))))"
  by pat_completeness auto

termination
proof (relation "measure (\<lambda>(cached, D, stack). stack_weight cached stack)", goal_cases)
  case (2 cached D fr stack children depth D')
  then show ?case by (simp add: stack_weight_pop del: stack_weight.simps)
next
  case (3 cached D fr stack children child fr')
  then show ?case
    using stack_weight_step [OF children_left_next] by (simp del: stack_weight.simps)
next
  case (4 cached D fr stack children child fr' node settled)
  then show ?case
    using stack_weight_step [OF children_left_next] by (simp del: stack_weight.simps)
next
  case (5 cached D fr stack children child fr' node settled c)
  then show ?case
    using stack_weight_step [OF children_left_next] by (simp del: stack_weight.simps)
next
  case (6 cached D fr stack children child fr' node settled c cs)
  then show ?case
    using stack_weight_push [OF _ children_left_next] by (simp del: stack_weight.simps)
qed simp

declare depth_loop.simps [simp del]

fun depth_nodes ::
  "cached_file \<Rightarrow> clause_depths \<Rightarrow> archived_node list \<Rightarrow> ('r cache_error + clause_depths) option" where
  "depth_nodes cached D [] = Some (Inr D)"
| "depth_nodes cached D (node # nodes) =
     (case depths_get D node of
        None \<Rightarrow> None
      | Some settled \<Rightarrow>
          if settled \<noteq> UNRESOLVED_DEPTH then depth_nodes cached D nodes
          else
            (case depth_loop cached D [DepthFrame_new node] of
               Some (Inr D') \<Rightarrow> depth_nodes cached D' nodes
             | r \<Rightarrow> r))"

definition archived_nodes :: "cached_file \<Rightarrow> archived_node list" where
  "archived_nodes cached =
     map NodeLeaf [0..<length (cf_leaves cached)] @ map NodeLeafValue [0..<length (cf_leaf_values cached)]"

definition validate_archived_clause_depth :: "cached_file \<Rightarrow> ('r cache_error + unit) option" where
  "validate_archived_clause_depth cached =
     map_option (map_sum id (\<lambda>_. ()))
       (depth_nodes cached
         \<lparr>cd_leaves = replicate (length (cf_leaves cached)) UNRESOLVED_DEPTH,
          cd_leaf_values = replicate (length (cf_leaf_values cached)) UNRESOLVED_DEPTH\<rparr>
         (archived_nodes cached))"


section \<open>Loading\<close>

fun collect_archived_value_strings :: "cached_value \<Rightarrow> ustr list" where
  "collect_archived_value_strings (CachedValue_String s) = [s]"
| "collect_archived_value_strings (CachedValue_QString s) = [s]"
| "collect_archived_value_strings (CachedValue_Float _) = []"
| "collect_archived_value_strings (CachedValue_Int _) = []"
| "collect_archived_value_strings (CachedValue_Bool _) = []"
| "collect_archived_value_strings (CachedValue_Clause _) = []"

fun child_from_archived :: "cached_child \<Rightarrow> child" where
  "child_from_archived (CachedChild_Leaf i) = CLeaf i"
| "child_from_archived (CachedChild_LeafValue i) = CLeafValue i"
| "child_from_archived (CachedChild_Comment i) = CComment i"

definition children_from_archived :: "cached_child list \<Rightarrow> child list" where
  "children_from_archived children = map child_from_archived children"

fun next_token :: "string_tokens list \<Rightarrow> 'r cache_error + (string_tokens \<times> string_tokens list)" where
  "next_token [] = Inl (CacheError_Deserialize (str ''interned token underrun'') None)"
| "next_token (t # ts) = Inr (t, ts)"

definition with_token ::
  "(string_tokens \<Rightarrow> 'a) \<Rightarrow> string_tokens list \<Rightarrow> 'r cache_error + ('a \<times> string_tokens list)" where
  "with_token f tokens = (case next_token tokens of Inl e \<Rightarrow> Inl e | Inr (t, tokens) \<Rightarrow> Inr (f t, tokens))"

fun archived_value_to_value ::
  "cached_value \<Rightarrow> string_tokens list \<Rightarrow> 'r cache_error + (pvalue \<times> string_tokens list)" where
  "archived_value_to_value (CachedValue_String _) tokens = with_token VString tokens"
| "archived_value_to_value (CachedValue_QString _) tokens = with_token VQString tokens"
| "archived_value_to_value (CachedValue_Float f) tokens = Inr (VFloat f, tokens)"
| "archived_value_to_value (CachedValue_Int i) tokens = Inr (VInt i, tokens)"
| "archived_value_to_value (CachedValue_Bool b) tokens = Inr (VBool b, tokens)"
| "archived_value_to_value (CachedValue_Clause children) tokens =
     Inr (VClause (children_from_archived children), tokens)"

fun archived_op_to_op :: "cached_operator \<Rightarrow> operator" where
  "archived_op_to_op CachedEquals = Equals"
| "archived_op_to_op CachedGreaterThan = GreaterThan"
| "archived_op_to_op CachedLessThan = LessThan"
| "archived_op_to_op CachedGreaterThanOrEqual = GreaterThanOrEqual"
| "archived_op_to_op CachedLessThanOrEqual = LessThanOrEqual"
| "archived_op_to_op CachedNotEqual = NotEqual"
| "archived_op_to_op CachedEqualEqual = EqualEqual"
| "archived_op_to_op CachedQuestionEqual = QuestionEqual"

fun archived_color_prefix :: "cached_color_prefix \<Rightarrow> color_prefix" where
  "archived_color_prefix CachedRgb = Rgb"
| "archived_color_prefix CachedHsv = Hsv"
| "archived_color_prefix CachedHsv360 = Hsv360"

definition cached_to_range :: "nat \<Rightarrow> nat \<Rightarrow> nat \<Rightarrow> nat \<Rightarrow> source_range" where
  "cached_to_range start_line start_col end_line end_col =
     \<lparr>range_start = \<lparr>pos_line = start_line, pos_col = start_col\<rparr>,
      range_end = \<lparr>pos_line = end_line, pos_col = end_col\<rparr>\<rparr>"

text \<open>The three loops of \<^verbatim>\<open>archived_to_arena\<close>.\<close>

fun load_leaves ::
  "cached_leaf list \<Rightarrow> string_tokens list \<Rightarrow> arena \<Rightarrow> 'r cache_error + (string_tokens list \<times> arena)" where
  "load_leaves [] tokens A = Inr (tokens, A)"
| "load_leaves (l # ls) tokens A =
     (case next_token tokens of
        Inl e \<Rightarrow> Inl e
      | Inr (key, tokens) \<Rightarrow>
          (case archived_value_to_value (cl_value l) tokens of
             Inl e \<Rightarrow> Inl e
           | Inr (val, tokens) \<Rightarrow>
               load_leaves ls tokens (snd (push_leaf
                 \<lparr>leaf_key = key, leaf_val = val, leaf_op = archived_op_to_op (cl_op l),
                  leaf_pos = cached_to_range (cl_start_line l) (cl_start_col l) (cl_end_line l) (cl_end_col l),
                  leaf_val_pos = cached_to_range (cl_value_start_line l) (cl_value_start_col l)
                    (cl_value_end_line l) (cl_value_end_col l),
                  leaf_color = map_option archived_color_prefix (cl_color_prefix l)\<rparr> A))))"

fun load_leaf_values ::
  "cached_leaf_value list \<Rightarrow> string_tokens list \<Rightarrow> arena \<Rightarrow> 'r cache_error + (string_tokens list \<times> arena)" where
  "load_leaf_values [] tokens A = Inr (tokens, A)"
| "load_leaf_values (lv # lvs) tokens A =
     (case archived_value_to_value (clv_value lv) tokens of
        Inl e \<Rightarrow> Inl e
      | Inr (val, tokens) \<Rightarrow>
          load_leaf_values lvs tokens (snd (push_leaf_value
            \<lparr>lv_value = val,
             lv_pos = cached_to_range (clv_start_line lv) (clv_start_col lv) (clv_end_line lv) (clv_end_col lv),
             lv_color = map_option archived_color_prefix (clv_color_prefix lv)\<rparr> A)))"

fun load_comments :: "cached_comment list \<Rightarrow> arena \<Rightarrow> arena" where
  "load_comments [] A = A"
| "load_comments (c # cs) A =
     load_comments cs (snd (push_comment
       \<lparr>comment_range_of = \<lparr>cr_start = cc_text_start c, cr_end = cc_text_end c\<rparr>,
        comment_pos = cached_to_range (cc_start_line c) (cc_start_col c) (cc_end_line c) (cc_end_col c)\<rparr> A))"

definition cached_strings :: "cached_file \<Rightarrow> ustr list" where
  "cached_strings cached =
     concat (map (\<lambda>l. cl_key l # collect_archived_value_strings (cl_value l)) (cf_leaves cached))
     @ concat (map (\<lambda>lv. collect_archived_value_strings (clv_value lv)) (cf_leaf_values cached))"

definition build_arena :: "cached_file \<Rightarrow> string_tokens list \<Rightarrow> 'r cache_error + (arena \<times> child list)" where
  "build_arena cached tokens =
     (let A = Arena_new\<lparr>comment_pool :=
        (if cf_comment_text_pool cached = [] then None else Some (cf_comment_text_pool cached))\<rparr> in
      case load_leaves (cf_leaves cached) tokens A of
        Inl e \<Rightarrow> Inl e
      | Inr (tokens, A) \<Rightarrow>
          (case load_leaf_values (cf_leaf_values cached) tokens A of
             Inl e \<Rightarrow> Inl e
           | Inr (tokens, A) \<Rightarrow>
               Inr (load_comments (cf_comments cached) A, children_from_archived (cf_root_children cached))))"

text \<open>The outer \<open>None\<close> is a panic; the table is returned with either outcome.\<close>

definition archived_to_arena ::
  "text_env \<Rightarrow> handle \<Rightarrow> cached_file \<Rightarrow> string_table
   \<Rightarrow> (('r cache_error + (arena \<times> child list)) \<times> string_table) option" where
  "archived_to_arena E h cached T =
     (case validate_archived_child_bounds cached of
        Inl e \<Rightarrow> Some (Inl e, T)
      | Inr _ \<Rightarrow>
          (case validate_archived_clause_depth cached of
             None \<Rightarrow> None
           | Some (Inl e) \<Rightarrow> Some (Inl e, T)
           | Some (Inr _) \<Rightarrow>
               (case validate_archived_comment_pool cached of
                  Inl e \<Rightarrow> Some (Inl e, T)
                | Inr _ \<Rightarrow>
                    map_option (\<lambda>(tokens, T'). (build_arena cached tokens, T'))
                      (intern_batch E h (cached_strings cached) T))))"

end
