(* ===== verification/Cache_Properties.thy ===== *)
theory Cache_Properties
  imports Cache_Convert
begin

text \<open>
  The properties of the cache conversion of \<^verbatim>\<open>engine/crates/cache/src/convert.rs\<close>: the depth
  check decides the nesting of clauses, whatever the file holds; and a parsed file written and
  loaded again is the same tree over the table it is loaded into.
\<close>

section \<open>The nesting of clauses\<close>

text \<open>
  The specification of the depth check: \<open>nests cached k node\<close> says that no clause lies more
  than \<open>k\<close> clauses deep in what hangs from a node, the node's own clause counted.
\<close>

fun nests :: "cached_file \<Rightarrow> nat \<Rightarrow> archived_node \<Rightarrow> bool" where
  "nests cached k node =
     (case archived_clause_children cached node of
        Some (Some children) \<Rightarrow>
          (case k of
             0 \<Rightarrow> False
           | Suc k' \<Rightarrow> list_all (\<lambda>child. case child_node child of None \<Rightarrow> True | Some n \<Rightarrow> nests cached k' n) children)
      | _ \<Rightarrow> True)"

declare nests.simps [simp del]

definition child_nests :: "cached_file \<Rightarrow> nat \<Rightarrow> cached_child \<Rightarrow> bool" where
  "child_nests cached k child = (case child_node child of None \<Rightarrow> True | Some n \<Rightarrow> nests cached k n)"

lemma nests_clause:
  "archived_clause_children cached node = Some (Some children) \<Longrightarrow>
   nests cached k node \<longleftrightarrow> (\<exists>k'. k = Suc k' \<and> list_all (child_nests cached k') children)"
  by (subst nests.simps) (auto simp: child_nests_def [abs_def] split: nat.splits)

lemma nests_plain: "archived_clause_children cached node = Some None \<Longrightarrow> nests cached k node"
  by (subst nests.simps) simp

lemma nests_mono: "nests cached k node \<Longrightarrow> k \<le> m \<Longrightarrow> nests cached m node"
proof (induction cached k node arbitrary: m rule: nests.induct)
  case (1 cached k node)
  show ?case
  proof (cases "archived_clause_children cached node")
    case (Some c)
    show ?thesis
    proof (cases c)
      case (Some children)
      note cl = nests_clause [OF \<open>archived_clause_children cached node = Some c\<close> [unfolded Some]]
      from 1(2) obtain k' where k: "k = Suc k'" and all: "list_all (child_nests cached k') children"
        by (auto simp: cl)
      from k 1(3) obtain m' where m: "m = Suc m'" "k' \<le> m'" by (cases m) auto
      have "child_nests cached m' ch" if "ch \<in> set children" for ch
        using that all m(2)
          1(1) [OF \<open>archived_clause_children cached node = Some c\<close> Some k that]
        by (auto simp: child_nests_def list_all_iff split: option.splits)
      then show ?thesis using m by (auto simp: cl list_all_iff)
    qed (use \<open>archived_clause_children cached node = Some c\<close> in \<open>simp add: nests_plain\<close>)
  qed (simp add: nests.simps)
qed

text \<open>A number is the exact depth of what a predicate of bounds describes.\<close>

definition exact_bound :: "(nat \<Rightarrow> bool) \<Rightarrow> nat \<Rightarrow> bool" where
  "exact_bound P d \<longleftrightarrow> (\<forall>k. P k \<longleftrightarrow> d \<le> k)"

lemma exact_bound_zero: "exact_bound (\<lambda>k. True) 0"
  by (simp add: exact_bound_def)

lemma exact_bound_max: "exact_bound P d \<Longrightarrow> exact_bound Q e \<Longrightarrow> exact_bound (\<lambda>k. P k \<and> Q k) (max d e)"
  by (simp add: exact_bound_def)

lemma exact_bound_clause:
  assumes "archived_clause_children cached node = Some (Some children)"
    and "exact_bound (\<lambda>k. list_all (child_nests cached k) children) d"
  shows "exact_bound (\<lambda>k. nests cached k node) (d + 1)"
  unfolding exact_bound_def
proof
  show "nests cached k node \<longleftrightarrow> d + 1 \<le> k" for k
    using assms(2) by (cases k) (auto simp: nests_clause [OF assms(1)] exact_bound_def)
qed

section \<open>The depth-first search\<close>

definition node_in :: "cached_file \<Rightarrow> archived_node \<Rightarrow> bool" where
  "node_in cached node \<longleftrightarrow> node_value cached node \<noteq> None"

definition bounds_ok :: "cached_file \<Rightarrow> bool" where
  "bounds_ok cached \<longleftrightarrow>
     (\<forall>node children. archived_clause_children cached node = Some (Some children) \<longrightarrow>
        (\<forall>child \<in> set children. \<forall>n. child_node child = Some n \<longrightarrow> node_in cached n))"

definition depths_ok :: "cached_file \<Rightarrow> clause_depths \<Rightarrow> bool" where
  "depths_ok cached D \<longleftrightarrow>
     (\<forall>node. depths_get D node = None \<longleftrightarrow> \<not> node_in cached node)
     \<and> (\<forall>node d. depths_get D node = Some d \<longrightarrow> d \<noteq> UNRESOLVED_DEPTH \<longrightarrow>
          d \<le> MAX_CACHED_CLAUSE_DEPTH \<and> exact_bound (\<lambda>k. nests cached k node) d)"

text \<open>
  The stack of the search, top first: each frame counts the children it has gone through,
  below the top all but the last, which is the node of the frame above.
\<close>

definition counts_children :: "cached_file \<Rightarrow> depth_frame \<Rightarrow> nat \<Rightarrow> bool" where
  "counts_children cached f n \<longleftrightarrow>
     (case archived_clause_children cached (df_node f) of
        None \<Rightarrow> False
      | Some None \<Rightarrow> True
      | Some (Some children) \<Rightarrow>
          n \<le> length children
          \<and> exact_bound (\<lambda>k. list_all (child_nests cached k) (take n children)) (df_deepest_child f))"

fun links :: "cached_file \<Rightarrow> archived_node \<Rightarrow> depth_frame list \<Rightarrow> bool" where
  "links cached node [] = True"
| "links cached node (f # stack) \<longleftrightarrow>
     (\<exists>children n. archived_clause_children cached (df_node f) = Some (Some children)
        \<and> df_next_child f = Suc n \<and> n < length children \<and> child_node (children ! n) = Some node
        \<and> counts_children cached f n \<and> links cached (df_node f) stack)"

definition stack_ok :: "cached_file \<Rightarrow> depth_frame list \<Rightarrow> bool" where
  "stack_ok cached stack \<longleftrightarrow>
     (case stack of [] \<Rightarrow> True
      | f # rest \<Rightarrow> counts_children cached f (df_next_child f) \<and> links cached (df_node f) rest)"

lemma links_nodes: "links cached node stack \<Longrightarrow> f \<in> set stack \<Longrightarrow> node_in cached (df_node f)"
  by (induction cached node stack rule: links.induct) (auto simp: archived_clause_children_def node_in_def)

lemma links_not_nests:
  "links cached node stack \<Longrightarrow> \<not> nests cached k node \<Longrightarrow>
   \<not> nests cached (k + length stack) (last (node # map df_node stack))"
proof (induction cached node stack arbitrary: k rule: links.induct)
  case (2 cached node f stack)
  then obtain children n where c: "archived_clause_children cached (df_node f) = Some (Some children)"
    "n < length children" "child_node (children ! n) = Some node" by auto
  have "\<not> nests cached (Suc k) (df_node f)"
    using c 2(3) by (auto simp: nests_clause [OF c(1)] list_all_length child_nests_def)
  from 2(1) [OF _ this] 2(2) show ?case by auto
qed simp

lemma depths_get_set:
  "depths_set D node d = Some D' \<Longrightarrow> depths_get D' m = (if m = node then Some d else depths_get D m)"
  by (cases node; cases m) (auto simp: list_get_def split: if_splits)

lemma depths_set_some: "depths_get D node \<noteq> None \<Longrightarrow> depths_set D node d \<noteq> None"
  by (cases node) (auto simp: list_get_def split: if_splits)


definition settled :: "clause_depths \<Rightarrow> archived_node \<Rightarrow> bool" where
  "settled D node \<longleftrightarrow> (\<exists>d. depths_get D node = Some d \<and> d \<noteq> UNRESOLVED_DEPTH)"

lemma max_depth_resolved: "d \<le> MAX_CACHED_CLAUSE_DEPTH \<Longrightarrow> d \<noteq> UNRESOLVED_DEPTH"
  by (simp add: MAX_CACHED_CLAUSE_DEPTH_def MAX_CLAUSE_DEPTH_def UNRESOLVED_DEPTH_def)

lemma depths_ok_set:
  assumes "depths_ok cached D" "node_in cached node" "d \<le> MAX_CACHED_CLAUSE_DEPTH"
    "exact_bound (\<lambda>k. nests cached k node) d"
  obtains D' where "depths_set D node d = Some D'" "depths_ok cached D'" "settled D' node"
    "\<And>n. settled D n \<Longrightarrow> settled D' n"
proof -
  from assms(1,2) have "depths_get D node \<noteq> None" by (simp add: depths_ok_def)
  then obtain D' where D': "depths_set D node d = Some D'" using depths_set_some by blast
  note get = depths_get_set [OF D']
  have "depths_ok cached D'" using assms unfolding depths_ok_def by (auto simp: get)
  moreover have "settled D' n" if "settled D n \<or> n = node" for n
    using that assms(3) max_depth_resolved by (auto simp: settled_def get)
  ultimately show thesis using that D' by blast
qed

lemma stack_ok_pop:
  assumes "links cached node rest" and "exact_bound (\<lambda>k. nests cached k node) d"
  shows "stack_ok cached (raise_owner d rest)"
proof (cases rest)
  case (Cons f stack)
  with assms(1) obtain children n where c: "archived_clause_children cached (df_node f) = Some (Some children)"
    "df_next_child f = Suc n" "n < length children" "child_node (children ! n) = Some node"
    "counts_children cached f n" "links cached (df_node f) stack" by auto
  have "exact_bound (\<lambda>k. list_all (child_nests cached k) (take n children) \<and> nests cached k node)
      (max (df_deepest_child f) d)"
    using c(1,5) assms(2) by (intro exact_bound_max) (auto simp: counts_children_def)
  with c show ?thesis
    by (simp add: Cons stack_ok_def counts_children_def take_Suc_conv_app_nth child_nests_def)
qed (simp add: stack_ok_def)

lemma counts_next:
  assumes "archived_clause_children cached (df_node f) = Some (Some children)"
    and "n < length children" and "counts_children cached f n"
    and "exact_bound (\<lambda>k. child_nests cached k (children ! n)) d"
  shows "counts_children cached (f\<lparr>df_next_child := m, df_deepest_child := max (df_deepest_child f) d\<rparr>) (Suc n)"
  using assms exact_bound_max [of "\<lambda>k. list_all (child_nests cached k) (take n children)" "df_deepest_child f" _ d]
  by (auto simp: counts_children_def take_Suc_conv_app_nth)

lemma counts_next_free:
  assumes "archived_clause_children cached (df_node f) = Some (Some children)"
    and "n < length children" and "counts_children cached f n"
    and "\<And>k. child_nests cached k (children ! n)"
  shows "counts_children cached (f\<lparr>df_next_child := m\<rparr>) (Suc n)"
  using counts_next [of cached f children n 0 m] assms by (simp add: exact_bound_def counts_children_def)

lemma counts_new: "node_in cached node \<Longrightarrow> counts_children cached (DepthFrame_new node) 0"
  by (auto simp: counts_children_def DepthFrame_new_def exact_bound_def archived_clause_children_def node_in_def
      split: cached_value.split option.split)

lemma counts_finished:
  assumes "counts_children cached f (df_next_child f)"
    and "archived_clause_children cached (df_node f) = Some (Some children)"
    and "list_get children (df_next_child f) = None"
  shows "exact_bound (\<lambda>k. nests cached k (df_node f)) (df_deepest_child f + 1)"
  using assms by (intro exact_bound_clause [OF assms(2)]) (auto simp: counts_children_def list_get_def split: if_splits)

lemma too_many_frames:
  assumes "links cached node (f # stack)" and "archived_clause_children cached node = Some (Some children)"
    and "length stack + 2 > MAX_CACHED_CLAUSE_DEPTH"
  shows "\<exists>n. node_in cached n \<and> \<not> nests cached MAX_CACHED_CLAUSE_DEPTH n"
proof -
  let ?n = "last (node # map df_node (f # stack))"
  have "\<not> nests cached 0 node" by (simp add: nests_clause [OF assms(2)])
  from links_not_nests [OF assms(1) this] have "\<not> nests cached (length stack + 1) ?n" by simp
  then have "\<not> nests cached MAX_CACHED_CLAUSE_DEPTH ?n" using nests_mono assms(3) by fastforce
  moreover have "?n \<in> set (map df_node (f # stack))" using last_in_set [of "map df_node (f # stack)"] by simp
  then have "node_in cached ?n" using links_nodes [OF assms(1)] by auto
  ultimately show ?thesis by blast
qed

text \<open>What the search returns: a rejection with a node that nests too deep, or depths that settle the bottom of the stack.\<close>

definition too_deep :: "'r cache_error" where
  "too_deep = cache_rejected (str ''cache clause nesting too deep'')"

definition searched ::
  "cached_file \<Rightarrow> clause_depths \<Rightarrow> depth_frame list \<Rightarrow> ('r cache_error + clause_depths) option \<Rightarrow> bool" where
  "searched cached D stack r \<longleftrightarrow>
     (case r of
        None \<Rightarrow> False
      | Some (Inl e) \<Rightarrow> e = too_deep \<and> (\<exists>n. node_in cached n \<and> \<not> nests cached MAX_CACHED_CLAUSE_DEPTH n)
      | Some (Inr D') \<Rightarrow> depths_ok cached D' \<and> (\<forall>n. settled D n \<longrightarrow> settled D' n)
          \<and> (stack \<noteq> [] \<longrightarrow> settled D' (df_node (last stack))))"

lemma searched_cong:
  "searched cached D stack r \<Longrightarrow> stack \<noteq> [] \<Longrightarrow> stack' \<noteq> [] \<Longrightarrow> df_node (last stack) = df_node (last stack') \<Longrightarrow>
   searched cached D stack' r"
  by (cases r) (auto simp: searched_def split: sum.splits)

lemma last_raise_owner: "stack \<noteq> [] \<Longrightarrow> df_node (last (raise_owner d stack)) = df_node (last stack)"
  by (cases stack) auto

lemma searched_pop:
  assumes "searched cached D' (raise_owner d stack) r" "settled D' (df_node f)" "\<And>n. settled D n \<Longrightarrow> settled D' n"
  shows "searched cached D (f # stack) r"
  using assms last_raise_owner [of stack d]
  by (cases stack) (auto simp: searched_def split: option.splits sum.splits)

lemma child_in:
  "bounds_ok cached \<Longrightarrow> archived_clause_children cached node = Some (Some children) \<Longrightarrow>
   n < length children \<Longrightarrow> child_node (children ! n) = Some m \<Longrightarrow> node_in cached m"
  unfolding bounds_ok_def using nth_mem by blast

lemma children_in: "node_in cached node \<Longrightarrow> \<exists>c. archived_clause_children cached node = Some c"
  by (auto simp: node_in_def archived_clause_children_def)

lemma depth_loop_searched:
  assumes "bounds_ok cached" "depths_ok cached D" "stack_ok cached stack"
    "\<And>f. f \<in> set stack \<Longrightarrow> node_in cached (df_node f)"
  shows "searched cached D stack (depth_loop cached D stack :: ('r cache_error + clause_depths) option)"
  using assms
proof (induction "cached" D stack rule: depth_loop.induct)
  case (1 cached D)
  then show ?case by (simp add: depth_loop.simps searched_def)
next
  case (2 cached D fr stack)
  let ?run = "depth_loop cached :: clause_depths \<Rightarrow> depth_frame list \<Rightarrow> ('r cache_error + clause_depths) option"
  note IH = 2(1-5) and B = 2(6) and D = 2(7)
  have counts: "counts_children cached fr (df_next_child fr)" and lk: "links cached (df_node fr) stack"
    using 2(8) by (simp_all add: stack_ok_def)
  have fr_in: "node_in cached (df_node fr)" and below: "\<And>f. f \<in> set stack \<Longrightarrow> node_in cached (df_node f)"
    using 2(9) by simp_all
  obtain c where c: "archived_clause_children cached (df_node fr) = Some c" using children_in [OF fr_in] by blast
  note step = depth_loop.simps(2) [of cached D fr stack] c
  show ?case
  proof (cases "Option.bind c (\<lambda>list. list_get list (df_next_child fr))")
    case None
    define depth where "depth = (case c of Some _ \<Rightarrow> df_deepest_child fr + 1 | None \<Rightarrow> 0)"
    have e: "exact_bound (\<lambda>k. nests cached k (df_node fr)) depth"
    proof (cases c)
      case c0: None
      then show ?thesis using c nests_plain by (auto simp: depth_def exact_bound_def)
    next
      case (Some cs)
      then show ?thesis using counts_finished [OF counts] c None by (simp add: depth_def)
    qed
    show ?thesis
    proof (cases "depth > MAX_CACHED_CLAUSE_DEPTH")
      case True
      with e have "\<not> nests cached MAX_CACHED_CLAUSE_DEPTH (df_node fr)" by (simp add: exact_bound_def)
      with True show ?thesis using fr_in by (auto simp: step None depth_def [symmetric] searched_def too_deep_def)
    next
      case False
      then have le: "depth \<le> MAX_CACHED_CLAUSE_DEPTH" by simp
      obtain D' where D': "depths_set D (df_node fr) depth = Some D'" "depths_ok cached D'" "settled D' (df_node fr)"
        "\<And>n. settled D n \<Longrightarrow> settled D' n"
        using depths_ok_set [OF D fr_in le e] by blast
      have "searched cached D' (raise_owner depth stack) (?run D' (raise_owner depth stack))"
        by (rule IH(1) [OF c None depth_def False D'(1) B D'(2) stack_ok_pop [OF lk e]])
          (use below in \<open>cases stack; auto\<close>)
      from searched_pop [OF this D'(3,4)] False show ?thesis
        by (simp add: step None depth_def [symmetric] D'(1))
    qed
  next
    case (Some child)
    then obtain cs where cs: "c = Some cs" "list_get cs (df_next_child fr) = Some child" by (cases c) auto
    let ?n = "df_next_child fr"
    from cs(2) have n: "?n < length cs" "child = cs ! ?n" by (auto simp: list_get_def split: if_splits)
    note c' = c [unfolded cs(1)]
    define fr' where "fr' = fr\<lparr>df_next_child := ?n + 1\<rparr>"
    have free: "stack_ok cached (fr' # stack)" if "\<And>k. child_nests cached k (cs ! ?n)"
      using counts_next_free [OF c' n(1) counts that] lk by (simp add: stack_ok_def fr'_def)
    have same: "searched cached D (fr # stack) r" if "searched cached D (f # stack) r" "df_node f = df_node fr" for r f
      using searched_cong [OF that(1), of "fr # stack"] that(2) by simp
    have all_in: "\<And>f. f \<in> set (f0 # stack) \<Longrightarrow> node_in cached (df_node f)" if "df_node f0 = df_node fr" for f0
      using that fr_in below by auto
    have node_fr' [simp]: "df_node fr' = df_node fr" by (simp add: fr'_def)
    show ?thesis
    proof (cases "child_node child")
      case None
      then have "stack_ok cached (fr' # stack)" by (intro free) (simp add: n(2) child_nests_def)
      then have "searched cached D (fr' # stack) (?run D (fr' # stack))"
        by (rule IH(2) [OF c \<open>Option.bind c _ = Some child\<close> fr'_def None B D]) (rule all_in [OF node_fr'])
      from same [OF this] show ?thesis
        using None \<open>Option.bind c _ = Some child\<close> by (simp add: step fr'_def)
    next
      case node: (Some node)
      have node_in: "node_in cached node" using child_in [OF B c' n(1)] node n(2) by simp
      then obtain d where d: "depths_get D node = Some d" using D by (fastforce simp: depths_ok_def)
      note go = step node \<open>Option.bind c _ = Some child\<close> d
      show ?thesis
      proof (cases "d \<noteq> UNRESOLVED_DEPTH")
        case True
        let ?f = "fr'\<lparr>df_deepest_child := max (df_deepest_child fr') d\<rparr>"
        have "exact_bound (\<lambda>k. child_nests cached k (cs ! ?n)) d"
          using D True d node n(2) by (auto simp: depths_ok_def child_nests_def)
        from counts_next [OF c' n(1) counts this, of "?n + 1"] have "stack_ok cached (?f # stack)"
          using lk by (simp add: stack_ok_def fr'_def)
        then have "searched cached D (?f # stack) (?run D (?f # stack))"
          by (rule IH(3) [OF c \<open>Option.bind c _ = Some child\<close> fr'_def node d True B D]) (rule all_in [of ?f]; simp)
        from same [OF this] show ?thesis using True by (simp add: go fr'_def)
      next
        case False
        obtain c2 where c2: "archived_clause_children cached node = Some c2" using children_in [OF node_in] by blast
        show ?thesis
        proof (cases c2)
          case None
          have "stack_ok cached (fr' # stack)"
            by (rule free) (use c2 None node n(2) in \<open>simp add: child_nests_def nests_plain\<close>)
          then have "searched cached D (fr' # stack) (?run D (fr' # stack))"
            by (rule IH(4) [OF c \<open>Option.bind c _ = Some child\<close> fr'_def node d False c2 None B D]) (rule all_in [OF node_fr'])
          from same [OF this] False show ?thesis by (simp add: go fr'_def c2 None)
        next
          case (Some cs2)
          have lk': "links cached node (fr' # stack)"
            using c' n node lk counts by (simp add: fr'_def counts_children_def)
          show ?thesis
          proof (cases "length stack + 2 > MAX_CACHED_CLAUSE_DEPTH")
            case True
            with too_many_frames [OF lk' c2 [unfolded Some]] False show ?thesis
              by (simp add: go fr'_def c2 Some searched_def too_deep_def)
          next
            case push: False
            let ?st = "DepthFrame_new node # fr' # stack"
            have "stack_ok cached ?st"
              using lk' counts_new [OF node_in] by (simp add: stack_ok_def DepthFrame_new_def)
            then have "searched cached D ?st (?run D ?st)"
              by (rule IH(5) [OF c \<open>Option.bind c _ = Some child\<close> fr'_def node d False c2 Some push B D])
                (use node_in fr_in below in \<open>auto simp: DepthFrame_new_def\<close>)
            then have "searched cached D (fr' # stack) (?run D ?st)"
              by (rule searched_cong) simp_all
            from same [OF this] False push show ?thesis by (simp add: go fr'_def c2 Some)
          qed
        qed
      qed
    qed
  qed
qed


lemma depth_nodes_searched:
  assumes "bounds_ok cached" "depths_ok cached D" "\<And>n. n \<in> set nodes \<Longrightarrow> node_in cached n"
  shows "(case (depth_nodes cached D nodes :: ('r cache_error + clause_depths) option) of
      None \<Rightarrow> False
    | Some (Inl e) \<Rightarrow> e = too_deep \<and> (\<exists>n. node_in cached n \<and> \<not> nests cached MAX_CACHED_CLAUSE_DEPTH n)
    | Some (Inr D') \<Rightarrow> depths_ok cached D' \<and> (\<forall>n. settled D n \<or> n \<in> set nodes \<longrightarrow> settled D' n))"
  using assms(2,3)
proof (induction nodes arbitrary: D)
  case (Cons n nodes)
  then obtain d where d: "depths_get D n = Some d" by (fastforce simp: depths_ok_def)
  show ?case
  proof (cases "d \<noteq> UNRESOLVED_DEPTH")
    case True
    then have "settled D n" using d by (simp add: settled_def)
    with True Cons.IH [OF Cons.prems(1)] Cons.prems(2) d show ?thesis
      by (auto split: option.splits sum.splits)
  next
    case False
    have "stack_ok cached [DepthFrame_new n]"
      using counts_new [of cached n] Cons.prems(2) by (simp add: stack_ok_def DepthFrame_new_def)
    then have r: "searched cached D [DepthFrame_new n]
        (depth_loop cached D [DepthFrame_new n] :: ('r cache_error + clause_depths) option)"
      using Cons.prems(2) by (intro depth_loop_searched [OF assms(1) Cons.prems(1)]) (auto simp: DepthFrame_new_def)
    show ?thesis
    proof (cases "depth_loop cached D [DepthFrame_new n] :: ('r cache_error + clause_depths) option")
      case (Some x)
      show ?thesis
      proof (cases x)
        case (Inr D1)
        with r Some have "depths_ok cached D1" "\<And>m. settled D m \<or> m = n \<Longrightarrow> settled D1 m"
          by (auto simp: searched_def DepthFrame_new_def)
        with Cons.IH [of D1] Cons.prems(2) False d Some Inr show ?thesis
          by (auto split: option.splits sum.splits)
      qed (use r Some False d in \<open>auto simp: searched_def\<close>)
    qed (use r in \<open>simp add: searched_def\<close>)
  qed
qed simp

lemma archived_nodes_in: "n \<in> set (archived_nodes cached) \<longleftrightarrow> node_in cached n"
  by (cases n) (auto simp: archived_nodes_def node_in_def list_get_def)

lemma depth_check_exact:
  assumes "bounds_ok cached"
  shows "(validate_archived_clause_depth cached :: ('r cache_error + unit) option) =
     Some (if list_all (nests cached 257) (archived_nodes cached) then Inr () else Inl too_deep)"
proof -
  let ?D = "\<lparr>cd_leaves = replicate (length (cf_leaves cached)) UNRESOLVED_DEPTH,
    cd_leaf_values = replicate (length (cf_leaf_values cached)) UNRESOLVED_DEPTH\<rparr>"
  let ?r = "depth_nodes cached ?D (archived_nodes cached) :: ('r cache_error + clause_depths) option"
  have "depths_get ?D n = (if node_in cached n then Some UNRESOLVED_DEPTH else None)" for n
    by (cases n) (auto simp: node_in_def list_get_def)
  then have "depths_ok cached ?D" by (auto simp: depths_ok_def split: if_splits)
  then have r: "case ?r of None \<Rightarrow> False
    | Some (Inl e) \<Rightarrow> e = too_deep \<and> (\<exists>n. node_in cached n \<and> \<not> nests cached MAX_CACHED_CLAUSE_DEPTH n)
    | Some (Inr D') \<Rightarrow> depths_ok cached D' \<and> (\<forall>n. settled ?D n \<or> node_in cached n \<longrightarrow> settled D' n)"
    using depth_nodes_searched [OF assms, of ?D "archived_nodes cached", where 'r = 'r, unfolded archived_nodes_in] by blast
  have max: "MAX_CACHED_CLAUSE_DEPTH = 257" by (simp add: MAX_CACHED_CLAUSE_DEPTH_def MAX_CLAUSE_DEPTH_def)
  obtain x where x: "?r = Some x" using r by (cases ?r) auto
  show ?thesis
  proof (cases x)
    case (Inl e)
    with r x have "e = too_deep" "\<not> list_all (nests cached 257) (archived_nodes cached)"
      by (auto simp: list_all_iff archived_nodes_in max)
    with x Inl show ?thesis by (auto simp: validate_archived_clause_depth_def)
  next
    case (Inr D')
    have "nests cached 257 n" if "node_in cached n" for n
    proof -
      from r x Inr that have "settled D' n" "depths_ok cached D'" by auto
      then show ?thesis by (auto simp: settled_def depths_ok_def exact_bound_def max)
    qed
    with x Inr show ?thesis by (simp add: validate_archived_clause_depth_def list_all_iff archived_nodes_in)
  qed
qed

section \<open>The bounds of children\<close>

lemma check_list_ok:
  "check_archived_child_list children sizes owner = Inr () \<longleftrightarrow>
     list_all (\<lambda>child. case child_slot owner sizes child of (index, count, slot) \<Rightarrow>
       index < count \<and> (case slot of Some s \<Rightarrow> index < s | None \<Rightarrow> True)) children"
  by (induction children sizes owner rule: check_archived_child_list.induct)
    (auto simp: Let_def split: prod.splits option.splits)

lemma check_clauses_ok:
  "check_clauses owner sizes i vs = (Inr () :: 'r cache_error + unit) \<longleftrightarrow>
     (\<forall>j children. j < length vs \<longrightarrow> vs ! j = CachedValue_Clause children \<longrightarrow>
        check_archived_child_list children sizes (owner (i + j)) = (Inr () :: 'r cache_error + unit))"
proof (induction vs arbitrary: i)
  case (Cons v vs)
  show ?case
  proof (cases v)
    case (CachedValue_Clause children)
    then show ?thesis
      using Cons [of "i + 1"] by (auto simp: All_less_Suc2 split: sum.splits)
  qed (use Cons [of "i + 1"] in \<open>auto simp: All_less_Suc2 split: sum.splits\<close>)
qed simp


definition children_placed :: "nat \<times> nat \<times> nat \<Rightarrow> clause_owner \<Rightarrow> cached_child list \<Rightarrow> bool" where
  "children_placed sizes owner children \<longleftrightarrow>
     list_all (\<lambda>child. case child_slot owner sizes child of (index, count, slot) \<Rightarrow>
       index < count \<and> (case slot of Some s \<Rightarrow> index < s | None \<Rightarrow> True)) children"

fun node_owner :: "archived_node \<Rightarrow> clause_owner" where
  "node_owner (NodeLeaf i) = OwnerLeaf i"
| "node_owner (NodeLeafValue i) = OwnerLeafValue i"

lemma node_value_clause:
  "archived_clause_children cached node = Some (Some children) \<longleftrightarrow>
   (case node of
      NodeLeaf i \<Rightarrow> i < length (cf_leaves cached) \<and> cl_value (cf_leaves cached ! i) = CachedValue_Clause children
    | NodeLeafValue i \<Rightarrow> i < length (cf_leaf_values cached)
        \<and> clv_value (cf_leaf_values cached ! i) = CachedValue_Clause children)"
  by (cases node) (auto simp: archived_clause_children_def list_get_def split: cached_value.splits if_splits)

lemma all_nodes: "(\<forall>node. P node) \<longleftrightarrow> (\<forall>i. P (NodeLeaf i)) \<and> (\<forall>i. P (NodeLeafValue i))"
  by (metis archived_node.exhaust)

lemma child_bounds_iff:
  "validate_archived_child_bounds cached = (Inr () :: 'r cache_error + unit) \<longleftrightarrow>
     children_placed (cf_counts cached) OwnerRoot (cf_root_children cached)
     \<and> (\<forall>node children. archived_clause_children cached node = Some (Some children) \<longrightarrow>
          children_placed (cf_counts cached) (node_owner node) children)"
proof -
  have check: "check_archived_child_list children (cf_counts cached) owner = (Inr () :: 'r cache_error + unit)
      \<longleftrightarrow> children_placed (cf_counts cached) owner children" for children owner
    by (simp add: check_list_ok children_placed_def)
  have "validate_archived_child_bounds cached = (Inr () :: 'r cache_error + unit) \<longleftrightarrow>
      check_archived_child_list (cf_root_children cached) (cf_counts cached) OwnerRoot = (Inr () :: 'r cache_error + unit)
      \<and> check_clauses OwnerLeaf (cf_counts cached) 0 (map cl_value (cf_leaves cached)) = (Inr () :: 'r cache_error + unit)
      \<and> check_clauses OwnerLeafValue (cf_counts cached) 0 (map clv_value (cf_leaf_values cached))
          = (Inr () :: 'r cache_error + unit)"
    by (auto simp: validate_archived_child_bounds_def split: sum.splits)
  then show ?thesis
    by (simp add: check check_clauses_ok node_value_clause all_nodes) blast
qed

lemma placed_nodes:
  "children_placed (cf_counts cached) owner children \<Longrightarrow> child \<in> set children \<Longrightarrow> child_node child = Some n \<Longrightarrow>
   node_in cached n"
  by (cases child)
    (auto simp: children_placed_def list_all_iff cf_counts_def node_in_def list_get_def split: prod.splits)

lemma child_bounds_ok: "validate_archived_child_bounds cached = (Inr () :: 'r cache_error + unit) \<Longrightarrow> bounds_ok cached"
  unfolding child_bounds_iff bounds_ok_def by (blast intro: placed_nodes)

section \<open>What is written\<close>

text \<open>The written file as a function of the text of each token.\<close>

definition token_text :: "string_table \<Rightarrow> string_tokens \<Rightarrow> ustr" where
  "token_text T token =
     (case resolver_get (with_read T) (tok_normal token) of Some s \<Rightarrow> s | None \<Rightarrow> [])"

fun cached_value_of :: "(string_tokens \<Rightarrow> ustr) \<Rightarrow> pvalue \<Rightarrow> cached_value" where
  "cached_value_of tx (VString t) = CachedValue_String (tx t)"
| "cached_value_of tx (VQString t) = CachedValue_QString (tx t)"
| "cached_value_of tx (VFloat f) = CachedValue_Float f"
| "cached_value_of tx (VInt i) = CachedValue_Int i"
| "cached_value_of tx (VBool b) = CachedValue_Bool b"
| "cached_value_of tx (VClause cs) = CachedValue_Clause (map child_to_cached cs)"

definition cached_leaf_of :: "(string_tokens \<Rightarrow> ustr) \<Rightarrow> leaf \<Rightarrow> cached_leaf" where
  "cached_leaf_of tx l =
     \<lparr>cl_key = tx (leaf_key l), cl_value = cached_value_of tx (leaf_val l), cl_op = op_to_cached (leaf_op l),
      cl_start_line = pos_line (range_start (leaf_pos l)), cl_start_col = pos_col (range_start (leaf_pos l)),
      cl_end_line = pos_line (range_end (leaf_pos l)), cl_end_col = pos_col (range_end (leaf_pos l)),
      cl_value_start_line = pos_line (range_start (leaf_val_pos l)),
      cl_value_start_col = pos_col (range_start (leaf_val_pos l)),
      cl_value_end_line = pos_line (range_end (leaf_val_pos l)),
      cl_value_end_col = pos_col (range_end (leaf_val_pos l)),
      cl_color_prefix = map_option color_prefix_to_cached (leaf_color l)\<rparr>"

definition cached_leaf_value_of :: "(string_tokens \<Rightarrow> ustr) \<Rightarrow> leaf_value \<Rightarrow> cached_leaf_value" where
  "cached_leaf_value_of tx lv =
     \<lparr>clv_value = cached_value_of tx (lv_value lv),
      clv_start_line = pos_line (range_start (lv_pos lv)), clv_start_col = pos_col (range_start (lv_pos lv)),
      clv_end_line = pos_line (range_end (lv_pos lv)), clv_end_col = pos_col (range_end (lv_pos lv)),
      clv_color_prefix = map_option color_prefix_to_cached (lv_color lv)\<rparr>"

definition cached_of :: "(string_tokens \<Rightarrow> ustr) \<Rightarrow> arena \<Rightarrow> child list \<Rightarrow> cached_file" where
  "cached_of tx A root =
     (let (cs, pool) = comments_to_cached A (comments A) [] in
      \<lparr>cf_root_children = map child_to_cached root, cf_leaves = map (cached_leaf_of tx) (leaves A),
       cf_leaf_values = map (cached_leaf_value_of tx) (leaf_values A), cf_comments = cs,
       cf_comment_text_pool = pool\<rparr>)"

lemma copy_texts_eq:
  "copy_texts (with_read T) tokens =
     (concat (map (token_text T) tokens),
      map (\<lambda>n. blen (concat (map (token_text T) (take (Suc n) tokens)))) [0..<length tokens])"
proof (induction tokens rule: rev_induct)
  case (snoc t tokens)
  then show ?case by (simp add: copy_texts_def Let_def token_text_def [of T t, symmetric])
qed (simp add: copy_texts_def)

lemma cut_texts_eq:
  "cut_texts (concat rs @ concat ss) (blen (concat rs))
     (map (\<lambda>n. blen (concat rs) + blen (concat (take (Suc n) ss))) [0..<length ss]) = Some ss"
proof (induction ss arbitrary: rs)
  case (Cons s ss)
  have "map (\<lambda>n. blen (concat rs) + blen (concat (take (Suc n) (s # ss)))) [0..<length (s # ss)] =
      (blen (concat rs) + blen s)
      # map (\<lambda>n. blen (concat (rs @ [s])) + blen (concat (take (Suc n) ss))) [0..<length ss]"
    by (simp add: upt_conv_Cons map_Suc_upt [symmetric] comp_def add.assoc del: upt_Suc)
  with Cons.IH [of "rs @ [s]"] byte_slice_middle [of "concat rs" s "concat ss"] show ?case
    by (simp add: add.assoc del: upt_Suc)
qed simp

lemma next_string_thread: "value_to_cached v (map tx (collect_value_tokens v) @ rest) = Some (cached_value_of tx v, rest)"
  by (cases v) (simp_all add: children_to_cached_def)

lemma leaf_thread:
  "leaf_to_cached l (map tx (leaf_key l # collect_value_tokens (leaf_val l)) @ rest) = Some (cached_leaf_of tx l, rest)"
  by (simp add: leaf_to_cached_def range_to_cached_def next_string_thread cached_leaf_of_def)

lemma leaf_value_thread:
  "leaf_value_to_cached lv (map tx (collect_value_tokens (lv_value lv)) @ rest) = Some (cached_leaf_value_of tx lv, rest)"
  by (simp add: leaf_value_to_cached_def range_to_cached_def next_string_thread cached_leaf_value_of_def)

lemma map_threading_eq:
  "(\<And>x rest. f x (g x @ rest) = Some (h x, rest)) \<Longrightarrow>
   map_threading f xs (concat (map g xs) @ rest) = Some (map h xs, rest)"
  by (induction xs) (simp_all add: append.assoc)

lemma arena_to_cached_eq: "arena_to_cached A root T = Some (cached_of (token_text T) A root)"
proof -
  let ?tx = "token_text T" let ?tokens = "arena_tokens A"
  have cut: "cut_texts (concat (map ?tx ?tokens)) 0
      (map (\<lambda>n. blen (concat (map ?tx (take (Suc n) ?tokens)))) [0..<length ?tokens]) = Some (map ?tx ?tokens)"
    using cut_texts_eq [of "[]" "map ?tx ?tokens"] by (simp add: take_map)
  have split: "map ?tx ?tokens =
      concat (map (\<lambda>l. map ?tx (leaf_key l # collect_value_tokens (leaf_val l))) (leaves A))
      @ concat (map (\<lambda>lv. map ?tx (collect_value_tokens (lv_value lv))) (leaf_values A)) @ []"
    by (simp add: arena_tokens_def map_concat comp_def)
  obtain cs pool where cs: "comments_to_cached A (comments A) [] = (cs, pool)" by fastforce
  have "arena_to_cached A root T = do {
      (leaves, strings) \<leftarrow> map_threading leaf_to_cached (leaves A) (map ?tx ?tokens);
      (leaf_values, strings) \<leftarrow> map_threading leaf_value_to_cached (leaf_values A) strings;
      Some \<lparr>cf_root_children = map child_to_cached root, cf_leaves = leaves, cf_leaf_values = leaf_values,
        cf_comments = cs, cf_comment_text_pool = pool\<rparr> }"
    by (simp add: arena_to_cached_def copy_texts_eq cut cs children_to_cached_def)
  then show ?thesis
    unfolding split map_threading_eq [where f = leaf_to_cached, OF leaf_thread] Option.bind.simps prod.case
      map_threading_eq [where f = leaf_value_to_cached, OF leaf_value_thread]
    by (simp add: cached_of_def cs)
qed


section \<open>A parsed file passes the checks\<close>

lemma comments_length: "length (fst (comments_to_cached A cs pool)) = length cs"
  by (induction cs arbitrary: pool) (simp_all add: Let_def split: prod.splits, metis fst_conv)

lemma cached_of_simps [simp]:
  "cf_root_children (cached_of tx A root) = map child_to_cached root"
  "cf_leaves (cached_of tx A root) = map (cached_leaf_of tx) (leaves A)"
  "cf_leaf_values (cached_of tx A root) = map (cached_leaf_value_of tx) (leaf_values A)"
  "cf_comments (cached_of tx A root) = fst (comments_to_cached A (comments A) [])"
  "cf_comment_text_pool (cached_of tx A root) = snd (comments_to_cached A (comments A) [])"
  by (simp_all add: cached_of_def split: prod.split)

lemma cached_of_counts:
  "cf_counts (cached_of tx A root) = (length (leaves A), length (leaf_values A), length (comments A))"
  by (simp add: cf_counts_def comments_length)

lemma cached_value_clause: "cached_value_of tx v = CachedValue_Clause cs \<longleftrightarrow> (\<exists>ds. v = VClause ds \<and> cs = map child_to_cached ds)"
  by (cases v) auto

fun node_pvalue :: "arena \<Rightarrow> archived_node \<Rightarrow> pvalue" where
  "node_pvalue A (NodeLeaf i) = leaf_val (leaves A ! i)"
| "node_pvalue A (NodeLeafValue i) = lv_value (leaf_values A ! i)"

lemma cached_of_clause:
  "archived_clause_children (cached_of tx A root) n = Some (Some cs) \<longleftrightarrow>
     node_in (cached_of tx A root) n \<and> (\<exists>ds. node_pvalue A n = VClause ds \<and> cs = map child_to_cached ds)"
  unfolding node_value_clause
  by (cases n) (auto simp: node_in_def list_get_def cached_leaf_of_def cached_leaf_value_of_def cached_value_clause)

fun within :: "arena \<Rightarrow> nat \<times> nat \<times> nat \<Rightarrow> child \<Rightarrow> bool" where
  "within A (a, b, c) (CLeaf j) \<longleftrightarrow> j < a \<and> j < length (leaves A)"
| "within A (a, b, c) (CLeafValue j) \<longleftrightarrow> j < b \<and> j < length (leaf_values A)"
| "within A (a, b, c) (CComment j) \<longleftrightarrow> j < length (comments A)"

definition node_sound :: "cached_file \<Rightarrow> nat \<Rightarrow> archived_node \<Rightarrow> bool" where
  "node_sound cached k n \<longleftrightarrow> nests cached k n \<and>
     (\<forall>children. archived_clause_children cached n = Some (Some children) \<longrightarrow>
        children_placed (cf_counts cached) (node_owner n) children)"

lemma node_sound_mono: "node_sound cached k n \<Longrightarrow> k \<le> m \<Longrightarrow> node_sound cached m n"
  by (auto simp: node_sound_def intro: nests_mono)

lemma placed_within:
  "list_all (within A (a, b, c)) ds \<Longrightarrow>
   (owner = OwnerLeaf i \<longrightarrow> a \<le> i) \<Longrightarrow> (owner = OwnerLeafValue i' \<longrightarrow> b \<le> i') \<Longrightarrow>
   owner \<in> {OwnerRoot, OwnerLeaf i, OwnerLeafValue i'} \<Longrightarrow>
   children_placed (cf_counts (cached_of tx A root)) owner (map child_to_cached ds)"
  unfolding children_placed_def cached_of_counts list_all_iff
proof (intro ballI)
  fix child
  assume *: "\<forall>x\<in>set ds. within A (a, b, c) x" "owner = OwnerLeaf i \<longrightarrow> a \<le> i" "owner = OwnerLeafValue i' \<longrightarrow> b \<le> i'"
    "owner \<in> {OwnerRoot, OwnerLeaf i, OwnerLeafValue i'}" "child \<in> set (map child_to_cached ds)"
  then obtain x where x: "child = child_to_cached x" "within A (a, b, c) x" by auto
  show "case child_slot owner (length (leaves A), length (leaf_values A), length (comments A)) child of
      (index, count, slot) \<Rightarrow> index < count \<and> (case slot of None \<Rightarrow> True | Some s \<Rightarrow> index < s)"
    using x *(2-4) by (cases x) auto
qed

lemma node_sound_clause:
  assumes "list_all (within A (a, b, c)) ds" "list_all (\<lambda>ch. child_nests C k (child_to_cached ch)) ds"
    and "clause_children (node_pvalue A n) = ds"
    and "n = NodeLeaf a \<or> n = NodeLeafValue b" and "C = cached_of tx A root" and "node_in C n"
  shows "node_sound C (Suc k) n"
proof -
  have "children_placed (cf_counts C) (node_owner n) (map child_to_cached ds)"
    using placed_within [OF assms(1), of "node_owner n" a b] assms(4,5) by auto
  moreover have "nests C (Suc k) n"
  proof (cases "archived_clause_children C n")
    case (Some x)
    then show ?thesis
      using assms(2,3) by (cases x)
        (auto simp: nests_plain nests_clause assms(5) cached_of_clause list_all_iff)
  qed (simp add: nests.simps)
  ultimately show ?thesis using assms(3) by (auto simp: node_sound_def assms(5) cached_of_clause)
qed


lemma within_mono:
  "within A (a, b, c) ch \<Longrightarrow> a \<le> a' \<Longrightarrow> b \<le> b' \<Longrightarrow> within A (a', b', c') ch"
  by (cases ch) auto

definition tree_sound :: "cached_file \<Rightarrow> arena \<Rightarrow> nat \<Rightarrow> child list \<Rightarrow> nat \<times> nat \<times> nat \<Rightarrow> nat \<times> nat \<times> nat \<Rightarrow> bool" where
  "tree_sound C A k cs s s' \<longleftrightarrow>
     fst s \<le> fst s' \<and> fst (snd s) \<le> fst (snd s')
     \<and> list_all (within A s') cs \<and> list_all (\<lambda>ch. child_nests C k (child_to_cached ch)) cs
     \<and> (\<forall>i. fst s \<le> i \<longrightarrow> i < fst s' \<longrightarrow> node_sound C k (NodeLeaf i))
     \<and> (\<forall>i. fst (snd s) \<le> i \<longrightarrow> i < fst (snd s') \<longrightarrow> node_sound C k (NodeLeafValue i))"

lemma arena_tree_sound:
  "arena_tree k A cs s s' \<Longrightarrow> C = cached_of tx A root \<Longrightarrow> tree_sound C A k cs s s'"
proof (induction rule: arena_tree.induct)
  case (at_Nil k A s)
  then show ?case by (simp add: tree_sound_def)
next
  case (at_Leaf k A i s b c cs s')
  obtain a0 b0 c0 a1 b1 c1 where s: "s = (a0, b0, c0)" "s' = (a1, b1, c1)" by (metis surj_pair)
  note IH = at_Leaf.IH(1) [OF at_Leaf.prems, unfolded tree_sound_def s, simplified]
    at_Leaf.IH(2) [OF at_Leaf.prems, unfolded tree_sound_def s, simplified]
  have "node_in C (NodeLeaf i)" using at_Leaf.hyps(2) at_Leaf.prems by (simp add: node_in_def list_get_def)
  then have node: "node_sound C (Suc k) (NodeLeaf i)"
    using IH(1) at_Leaf.prems by (intro node_sound_clause [of A i b c]) auto
  have "node_sound C (Suc k) (NodeLeaf j)" if "a0 \<le> j" "j < a1" for j
    using that IH node node_sound_mono [of C k _ "Suc k"] by (cases j i rule: linorder_cases) auto
  moreover have "node_sound C (Suc k) (NodeLeafValue j)" if "b0 \<le> j" "j < b1" for j
    using that IH node_sound_mono [of C k _ "Suc k"] by (cases "j < b") auto
  ultimately show ?case
    using IH node at_Leaf.hyps(2) by (auto simp: tree_sound_def s child_nests_def node_sound_def)
next
  case (at_LeafValue k A i s a c cs s')
  obtain a0 b0 c0 a1 b1 c1 where s: "s = (a0, b0, c0)" "s' = (a1, b1, c1)" by (metis surj_pair)
  note IH = at_LeafValue.IH(1) [OF at_LeafValue.prems, unfolded tree_sound_def s, simplified]
    at_LeafValue.IH(2) [OF at_LeafValue.prems, unfolded tree_sound_def s, simplified]
  have "node_in C (NodeLeafValue i)" using at_LeafValue.hyps(2) at_LeafValue.prems by (simp add: node_in_def list_get_def)
  then have node: "node_sound C (Suc k) (NodeLeafValue i)"
    using IH(1) at_LeafValue.prems by (intro node_sound_clause [of A a i c]) auto
  have "node_sound C (Suc k) (NodeLeafValue j)" if "b0 \<le> j" "j < b1" for j
    using that IH node node_sound_mono [of C k _ "Suc k"] by (cases j i rule: linorder_cases) auto
  moreover have "node_sound C (Suc k) (NodeLeaf j)" if "a0 \<le> j" "j < a1" for j
    using that IH node_sound_mono [of C k _ "Suc k"] by (cases "j < a") auto
  ultimately show ?case
    using IH node at_LeafValue.hyps(2) by (auto simp: tree_sound_def s child_nests_def node_sound_def)
next
  case (at_Comment i A k cs a b s')
  obtain a1 b1 c1 where s: "s' = (a1, b1, c1)" by (metis surj_pair)
  show ?case
    using at_Comment.IH [OF at_Comment.prems] at_Comment.hyps(1) by (auto simp: tree_sound_def s child_nests_def)
qed

lemma arena_tree_checked:
  assumes t: "arena_tree 257 A root (0, 0, 0) (length (leaves A), length (leaf_values A), c)"
  shows "validate_archived_child_bounds (cached_of tx A root) = (Inr () :: 'r cache_error + unit)"
    and "validate_archived_clause_depth (cached_of tx A root) = Some (Inr () :: 'r cache_error + unit)"
proof -
  let ?C = "cached_of tx A root"
  note sound = arena_tree_sound [OF t refl, of tx root, unfolded tree_sound_def, simplified]
  have node: "node_sound ?C 257 n" if "node_in ?C n" for n
    using that sound by (cases n) (auto simp: node_in_def list_get_def split: if_splits)
  have "children_placed (cf_counts ?C) OwnerRoot (map child_to_cached root)"
    using placed_within [of A "length (leaves A)" "length (leaf_values A)" c root OwnerRoot 0 0 tx root] sound by simp
  moreover have "children_placed (cf_counts ?C) (node_owner n) children"
    if "archived_clause_children ?C n = Some (Some children)" for n children
    using that node [of n] by (auto simp: cached_of_clause node_sound_def)
  ultimately show b: "validate_archived_child_bounds ?C = (Inr () :: 'r cache_error + unit)"
    unfolding child_bounds_iff by simp
  show "validate_archived_clause_depth ?C = Some (Inr () :: 'r cache_error + unit)"
    using node unfolding depth_check_exact [OF child_bounds_ok [OF b]]
    by (simp add: list_all_iff archived_nodes_in node_sound_def)
qed


lemma comments_tile:
  "list_all2 (\<lambda>c t. comment_text A c = Some t \<and> t \<noteq> []) cs ts \<Longrightarrow>
   \<exists>ccs. comments_to_cached A cs w = (ccs, w @ concat ts)
     \<and> comment_pool_loop (w @ concat ts @ z) (blen w) ccs = (Inr (blen (w @ concat ts)) :: 'r cache_error + nat)
     \<and> list_all2 (\<lambda>c u. byte_slice (w @ concat ts @ z) (cc_text_start c) (cc_text_end c) = Some u) ccs ts
     \<and> list_all2 (\<lambda>c cc. comment_pos c = cached_to_range (cc_start_line cc) (cc_start_col cc) (cc_end_line cc) (cc_end_col cc)) cs ccs"
proof (induction cs arbitrary: ts w)
  case (Cons c cs)
  then obtain t us where ts: "ts = t # us" "comment_text A c = Some t" "t \<noteq> []"
    "list_all2 (\<lambda>c t. comment_text A c = Some t \<and> t \<noteq> []) cs us"
    by (auto simp: list_all2_Cons1)
  from Cons.IH [OF ts(4), of "w @ t"] obtain ccs where ih:
    "comments_to_cached A cs (w @ t) = (ccs, w @ t @ concat us)"
    "comment_pool_loop (w @ t @ concat us @ z) (blen (w @ t)) ccs = (Inr (blen (w @ t @ concat us)) :: 'r cache_error + nat)"
    "list_all2 (\<lambda>c u. byte_slice (w @ t @ concat us @ z) (cc_text_start c) (cc_text_end c) = Some u) ccs us"
    "list_all2 (\<lambda>c cc. comment_pos c = cached_to_range (cc_start_line cc) (cc_start_col cc) (cc_end_line cc) (cc_end_col cc)) cs ccs"
    by auto
  have d: "drop_bytes (blen w) (w @ t @ concat us @ z) \<noteq> None"
    "drop_bytes (blen w + blen t) (w @ t @ concat us @ z) \<noteq> None"
    using drop_bytes_blen [of "w @ t" "concat us @ z"] by simp_all
  show ?case
    using ih d ts(2,3) byte_slice_middle [of w t "concat us @ z"]
    by (simp add: ts(1) comment_to_cached_def range_to_cached_def cached_to_range_def Let_def)
qed simp

lemma cached_pool_checked:
  assumes "list_all2 (\<lambda>c t. comment_text A c = Some t \<and> t \<noteq> []) (comments A) ts"
  shows "validate_archived_comment_pool (cached_of tx A root) = (Inr () :: 'r cache_error + unit)"
  using comments_tile [OF assms, of "[]" "[]", where 'r = 'r] by (auto simp: validate_archived_comment_pool_def)

section \<open>What is loaded\<close>

lemma child_from_to [simp]: "child_from_archived (child_to_cached c) = c"
  by (cases c) simp_all

lemma op_from_to [simp]: "archived_op_to_op (op_to_cached x) = x"
  by (cases x) simp_all

lemma color_from_to [simp]: "archived_color_prefix (color_prefix_to_cached x) = x"
  by (cases x) simp_all

lemma range_from_to [simp]:
  "cached_to_range (pos_line (range_start r)) (pos_col (range_start r)) (pos_line (range_end r)) (pos_col (range_end r)) = r"
  by (simp add: cached_to_range_def)

lemma map_color_from_to [simp]: "map_option archived_color_prefix (map_option color_prefix_to_cached x) = x"
  by (cases x) simp_all

text \<open>Two trees over two tables are the same up to the ids of their strings, which a relation \<open>R\<close> matches.\<close>

fun same_value :: "(string_tokens \<Rightarrow> string_tokens \<Rightarrow> bool) \<Rightarrow> pvalue \<Rightarrow> pvalue \<Rightarrow> bool" where
  "same_value R (VString t) v \<longleftrightarrow> (\<exists>t'. v = VString t' \<and> R t t')"
| "same_value R (VQString t) v \<longleftrightarrow> (\<exists>t'. v = VQString t' \<and> R t t')"
| "same_value R u v \<longleftrightarrow> u = v"

definition same_leaf :: "(string_tokens \<Rightarrow> string_tokens \<Rightarrow> bool) \<Rightarrow> leaf \<Rightarrow> leaf \<Rightarrow> bool" where
  "same_leaf R l l' \<longleftrightarrow> R (leaf_key l) (leaf_key l') \<and> same_value R (leaf_val l) (leaf_val l')
     \<and> leaf_op l' = leaf_op l \<and> leaf_pos l' = leaf_pos l \<and> leaf_val_pos l' = leaf_val_pos l
     \<and> leaf_color l' = leaf_color l"

definition same_leaf_value :: "(string_tokens \<Rightarrow> string_tokens \<Rightarrow> bool) \<Rightarrow> leaf_value \<Rightarrow> leaf_value \<Rightarrow> bool" where
  "same_leaf_value R l l' \<longleftrightarrow> same_value R (lv_value l) (lv_value l') \<and> lv_pos l' = lv_pos l
     \<and> lv_color l' = lv_color l"

definition same_arena :: "(string_tokens \<Rightarrow> string_tokens \<Rightarrow> bool) \<Rightarrow> arena \<Rightarrow> arena \<Rightarrow> bool" where
  "same_arena R A B \<longleftrightarrow> list_all2 (same_leaf R) (leaves A) (leaves B)
     \<and> list_all2 (same_leaf_value R) (leaf_values A) (leaf_values B)
     \<and> list_all2 (\<lambda>c d. comment_pos d = comment_pos c \<and> comment_text B d = comment_text A c) (comments A) (comments B)"

lemma load_value:
  assumes "list_all2 R (collect_value_tokens v) toks"
  shows "\<exists>v'. archived_value_to_value (cached_value_of tx v) (toks @ rest) = Inr (v', rest) \<and> same_value R v v'"
  using assms by (cases v) (auto simp: with_token_def list_all2_Cons1 children_from_archived_def comp_def)

lemma load_leaves_same:
  "list_all2 R (concat (map (\<lambda>l. leaf_key l # collect_value_tokens (leaf_val l)) ls)) toks \<Longrightarrow>
   \<exists>ls'. load_leaves (map (cached_leaf_of tx) ls) (toks @ rest) A = (Inr (rest, A\<lparr>leaves := leaves A @ ls'\<rparr>) :: 'r cache_error + _)
     \<and> list_all2 (same_leaf R) ls ls'"
proof (induction ls arbitrary: toks A)
  case (Cons l ls)
  then obtain k vs us where toks: "toks = k # vs @ us" "R (leaf_key l) k"
    "list_all2 R (collect_value_tokens (leaf_val l)) vs"
    "list_all2 R (concat (map (\<lambda>l. leaf_key l # collect_value_tokens (leaf_val l)) ls)) us"
    by (auto simp: list_all2_Cons1 list_all2_append1)
  from load_value [OF toks(3)] obtain v' where v':
    "archived_value_to_value (cached_value_of tx (leaf_val l)) (vs @ us @ rest) = (Inr (v', us @ rest) :: 'r cache_error + _)"
    "same_value R (leaf_val l) v'" by blast
  define l' where "l' = \<lparr>leaf_key = k, leaf_val = v', leaf_op = leaf_op l, leaf_pos = leaf_pos l,
    leaf_val_pos = leaf_val_pos l, leaf_color = leaf_color l\<rparr>"
  from Cons.IH [OF toks(4), of "A\<lparr>leaves := leaves A @ [l']\<rparr>"] obtain ls' where
    "load_leaves (map (cached_leaf_of tx) ls) (us @ rest) (A\<lparr>leaves := leaves A @ [l']\<rparr>)
      = (Inr (rest, A\<lparr>leaves := leaves A @ l' # ls'\<rparr>) :: 'r cache_error + _)" "list_all2 (same_leaf R) ls ls'" by auto
  then show ?case
    using toks(2) v'
    by (intro exI [of _ "l' # ls'"])
      (simp add: toks(1) cached_leaf_of_def [of _ l] push_leaf_def l'_def same_leaf_def [of _ l])
qed simp

lemma load_leaf_values_same:
  "list_all2 R (concat (map (\<lambda>lv. collect_value_tokens (lv_value lv)) ls)) toks \<Longrightarrow>
   \<exists>ls'. load_leaf_values (map (cached_leaf_value_of tx) ls) (toks @ rest) A
       = (Inr (rest, A\<lparr>leaf_values := leaf_values A @ ls'\<rparr>) :: 'r cache_error + _)
     \<and> list_all2 (same_leaf_value R) ls ls'"
proof (induction ls arbitrary: toks A)
  case (Cons l ls)
  then obtain vs us where toks: "toks = vs @ us" "list_all2 R (collect_value_tokens (lv_value l)) vs"
    "list_all2 R (concat (map (\<lambda>lv. collect_value_tokens (lv_value lv)) ls)) us"
    by (auto simp: list_all2_append1)
  from load_value [OF toks(2)] obtain v' where v':
    "archived_value_to_value (cached_value_of tx (lv_value l)) (vs @ us @ rest) = (Inr (v', us @ rest) :: 'r cache_error + _)"
    "same_value R (lv_value l) v'" by blast
  define l' where "l' = \<lparr>lv_value = v', lv_pos = lv_pos l, lv_color = lv_color l\<rparr>"
  from Cons.IH [OF toks(3), of "A\<lparr>leaf_values := leaf_values A @ [l']\<rparr>"] obtain ls' where
    "load_leaf_values (map (cached_leaf_value_of tx) ls) (us @ rest) (A\<lparr>leaf_values := leaf_values A @ [l']\<rparr>)
      = (Inr (rest, A\<lparr>leaf_values := leaf_values A @ l' # ls'\<rparr>) :: 'r cache_error + _)" "list_all2 (same_leaf_value R) ls ls'" by auto
  then show ?case
    using v'
    by (intro exI [of _ "l' # ls'"])
      (simp add: toks(1) cached_leaf_value_of_def [of _ l] push_leaf_value_def l'_def same_leaf_value_def [of _ l])
qed simp

lemma load_comments_eq:
  "load_comments cs A = A\<lparr>comments := comments A @ map (\<lambda>c.
     \<lparr>comment_range_of = \<lparr>cr_start = cc_text_start c, cr_end = cc_text_end c\<rparr>,
      comment_pos = cached_to_range (cc_start_line c) (cc_start_col c) (cc_end_line c) (cc_end_col c)\<rparr>) cs\<rparr>"
  by (induction cs arbitrary: A) (simp_all add: push_comment_def)


lemma intern_batch_kept:
  assumes "lowercase_ok E" "table_ok E T" "table_size T + 2 * length ss \<le> 2 ^ 25"
  shows "\<exists>toks T'. intern_batch E h ss T = Some (toks, T') \<and> table_ok E T'
     \<and> list_all2 (\<lambda>s tok. get_string None T' (tok_normal tok) = Some s
          \<and> get_string None T' (tok_lower tok) = Some (env_lowercase E s)) ss toks"
proof -
  have "\<exists>toks T'. run_intern (intern E h) ss T = Some (toks, T') \<and> table_ok E T'
     \<and> (\<forall>i x. get_string None T i = Some x \<longrightarrow> get_string None T' i = Some x)
     \<and> list_all2 (\<lambda>s tok. get_string None T' (tok_normal tok) = Some s
          \<and> get_string None T' (tok_lower tok) = Some (env_lowercase E s)) ss toks"
    using assms(2,3)
  proof (induction ss arbitrary: T)
    case (Cons s ss)
    then obtain tok T1 where i: "intern E h s T = Some (tok, T1)" "table_size T1 \<le> table_size T + 2"
      using intern_total_aux [OF assms(1) Cons.prems(1), of h s] by auto
    have g: "table_ok E T1" "table_grows T T1" using intern_grows [OF assms(1) Cons.prems(1) i(1)] .
    obtain toks T' where r: "run_intern (intern E h) ss T1 = Some (toks, T')" "table_ok E T'"
      "\<forall>i x. get_string None T1 i = Some x \<longrightarrow> get_string None T' i = Some x"
      "list_all2 (\<lambda>s tok. get_string None T' (tok_normal tok) = Some s
          \<and> get_string None T' (tok_lower tok) = Some (env_lowercase E s)) ss toks"
      using Cons.IH [OF g(1)] Cons.prems(2) i(2) by auto
    have "get_string None T1 (tok_normal tok) = Some s" "get_string None T1 (tok_lower tok) = Some (env_lowercase E s)"
      using intern_resolves_aux [OF assms(1) Cons.prems(1) i(1)] by blast+
    then show ?case using i(1) r get_string_grows [OF g(2)] by auto
  qed simp
  then show ?thesis unfolding intern_batch_run [OF assms(1,2)] by blast
qed

definition token_kept :: "text_env \<Rightarrow> string_table \<Rightarrow> string_table \<Rightarrow> string_tokens \<Rightarrow> string_tokens \<Rightarrow> bool" where
  "token_kept E T T' t t' \<longleftrightarrow>
     (\<exists>s. get_string None T (tok_normal t) = Some s \<and> get_string None T' (tok_normal t') = Some s
        \<and> get_string None T' (tok_lower t') = Some (env_lowercase E s))"

lemma cached_strings_of: "cached_strings (cached_of tx A root) = map tx (arena_tokens A)"
proof -
  have v: "collect_archived_value_strings (cached_value_of tx v) = map tx (collect_value_tokens v)" for v
    by (cases v) simp_all
  show ?thesis
    by (simp add: cached_strings_def arena_tokens_def cached_leaf_of_def cached_leaf_value_of_def v map_concat comp_def)
qed

lemma arena_tokens_resolve: "arena_good E T A \<Longrightarrow> t \<in> set (arena_tokens A) \<Longrightarrow> tokens_resolve E T t"
proof -
  assume A: "arena_good E T A" and t: "t \<in> set (arena_tokens A)"
  have v: "t \<in> set (collect_value_tokens v) \<Longrightarrow> value_resolves E T v \<Longrightarrow> tokens_resolve E T t" for v
    by (cases v) auto
  from A t show ?thesis
    by (auto simp: arena_tokens_def arena_good_def leaf_good_def leaf_value_good_def dest: v)
qed

lemma arena_tokens_length: "length (arena_tokens A) \<le> 2 * length (leaves A) + length (leaf_values A)"
proof -
  have v: "length (collect_value_tokens v) \<le> 1" for v by (cases v) auto
  have "length (concat (map (\<lambda>l. leaf_key l # collect_value_tokens (leaf_val l)) ls)) \<le> 2 * length ls" for ls
    using v by (induction ls) (auto intro: add_mono order_trans)
  moreover have "length (concat (map (\<lambda>l. collect_value_tokens (lv_value l)) ls)) \<le> length ls" for ls
  proof (induction ls)
    case (Cons l ls)
    with v [of "lv_value l"] show ?case by simp
  qed simp
  ultimately show ?thesis unfolding arena_tokens_def length_append by (intro add_mono)
qed

lemma build_arena_same:
  assumes "list_all2 R (arena_tokens A) toks"
    and "list_all2 (\<lambda>c t. comment_text A c = Some t \<and> t \<noteq> []) (comments A) ts"
  shows "\<exists>B. build_arena (cached_of tx A root) toks = (Inr (B, root) :: 'r cache_error + _) \<and> same_arena R A B"
proof -
  from assms(1) obtain us vs where toks: "toks = us @ vs @ []"
    "list_all2 R (concat (map (\<lambda>l. leaf_key l # collect_value_tokens (leaf_val l)) (leaves A))) us"
    "list_all2 R (concat (map (\<lambda>lv. collect_value_tokens (lv_value lv)) (leaf_values A))) vs"
    by (auto simp: arena_tokens_def list_all2_append1)
  from comments_tile [OF assms(2), of "[]" "[]"] obtain ccs where ccs:
    "comments_to_cached A (comments A) [] = (ccs, concat ts)"
    "list_all2 (\<lambda>c u. byte_slice (concat ts) (cc_text_start c) (cc_text_end c) = Some u) ccs ts"
    "list_all2 (\<lambda>c cc. comment_pos c = cached_to_range (cc_start_line cc) (cc_start_col cc) (cc_end_line cc) (cc_end_col cc)) (comments A) ccs"
    by auto
  define pool where "pool = (if concat ts = [] then None else Some (concat ts))"
  let ?A = "Arena_new\<lparr>comment_pool := pool\<rparr>"
  obtain ls where ls: "load_leaves (map (cached_leaf_of tx) (leaves A)) (us @ vs @ []) ?A
      = (Inr (vs @ [], ?A\<lparr>leaves := ls\<rparr>) :: 'r cache_error + _)" "list_all2 (same_leaf R) (leaves A) ls"
    using load_leaves_same [OF toks(2), of tx "vs @ []" ?A] by (auto simp: Arena_new_def)
  obtain lvs where lvs: "load_leaf_values (map (cached_leaf_value_of tx) (leaf_values A)) (vs @ []) (?A\<lparr>leaves := ls\<rparr>)
      = (Inr ([], ?A\<lparr>leaves := ls, leaf_values := lvs\<rparr>) :: 'r cache_error + _)"
      "list_all2 (same_leaf_value R) (leaf_values A) lvs"
    using load_leaf_values_same [OF toks(3), of tx "[]" "?A\<lparr>leaves := ls\<rparr>"] by (auto simp: Arena_new_def)
  let ?B = "load_comments ccs (?A\<lparr>leaves := ls, leaf_values := lvs\<rparr>)"
  have "build_arena (cached_of tx A root) toks = (Inr (?B, root) :: 'r cache_error + _)"
    unfolding build_arena_def Let_def cached_of_simps ccs(1) fst_conv snd_conv pool_def [symmetric] toks(1)
      ls(1) sum.case prod.case lvs(1)
    by (simp add: children_from_archived_def comp_def)
  moreover have "list_all2 (\<lambda>c d. comment_pos d = comment_pos c \<and> comment_text ?B d = comment_text A c) (comments A) (comments ?B)"
  proof (rule list_all2_all_nthI)
    show len: "length (comments A) = length (comments ?B)"
      using ccs(3) by (simp add: load_comments_eq Arena_new_def list_all2_lengthD)
    fix i assume i: "i < length (comments A)"
    then have i': "i < length ccs" "i < length ts"
      using list_all2_lengthD [OF ccs(3)] list_all2_lengthD [OF assms(2)] by simp_all
    have t: "comment_text A (comments A ! i) = Some (ts ! i)" "ts ! i \<noteq> []"
      using list_all2_nthD [OF assms(2) i] by simp_all
    then have "concat ts \<noteq> []" using i'(2) nth_mem by fastforce
    then have p: "pool = Some (concat ts)" by (simp add: pool_def)
    then show "comment_pos (comments ?B ! i) = comment_pos (comments A ! i)
        \<and> comment_text ?B (comments ?B ! i) = comment_text A (comments A ! i)"
      unfolding comment_text_def [of ?B] t(1)
      using list_all2_nthD [OF ccs(3) i] list_all2_nthD [OF ccs(2) i'(1)] i'
      by (simp add: load_comments_eq Arena_new_def p)
  qed
  ultimately show ?thesis
    using ls(2) lvs(2) by (auto simp: same_arena_def load_comments_eq)
qed


lemma cached_and_loaded:
  assumes "lowercase_ok E" and "table_ok E T"
    and "parse_string_with_comment_mode E h mode input T = Some (f, T1)"
    and "table_ok E T2"
    and "table_size T2 + 2 * (2 * length (leaves (pf_arena f)) + length (leaf_values (pf_arena f))) \<le> 2 ^ 25"
  shows "\<exists>cached A T3. arena_to_cached (pf_arena f) (root_children f) T1 = Some cached
     \<and> archived_to_arena E h' cached T2 = Some (Inr (A, root_children f) :: 'r cache_error + _, T3)
     \<and> table_ok E T3 \<and> same_arena (token_kept E T1 T3) (pf_arena f) A"
proof -
  let ?A = "pf_arena f" let ?c = "cached_of (token_text T1) ?A (root_children f)"
  have T1: "table_ok E T1" and good: "arena_good E T1 ?A" using parsed_arena [OF assms(1-3)] by simp_all
  obtain ts where ts: "list_all2 (\<lambda>c t. comment_text ?A c = Some t \<and> t \<noteq> []) (comments ?A) ts"
  proof -
    from parsed_comments [OF assms(3)] obtain ts where "list_all2 (\<lambda>c t. comment_text ?A c = Some t \<and> t \<noteq> []
        \<and> hd t = asc CHR ''#'' \<and> 10 \<notin> set t) (comments ?A) ts" by blast
    then have "list_all2 (\<lambda>c t. comment_text ?A c = Some t \<and> t \<noteq> []) (comments ?A) ts" by (rule list_all2_mono) simp
    then show thesis by (rule that)
  qed
  have "table_size T2 + 2 * length (cached_strings ?c) \<le> 2 ^ 25"
    using assms(5) arena_tokens_length [of ?A] by (simp add: cached_strings_of)
  from intern_batch_kept [OF assms(1,4) this, of h'] obtain toks T3 where
    T3: "intern_batch E h' (cached_strings ?c) T2 = Some (toks, T3)" "table_ok E T3"
      "list_all2 (\<lambda>s tok. get_string None T3 (tok_normal tok) = Some s
          \<and> get_string None T3 (tok_lower tok) = Some (env_lowercase E s)) (cached_strings ?c) toks"
    by blast
  have "list_all2 (token_kept E T1 T3) (arena_tokens ?A) toks"
    using T3(3) unfolding cached_strings_of list.rel_map
  proof (rule list.rel_mono_strong)
    fix t t' :: string_tokens
    assume t: "t \<in> set (arena_tokens ?A)" and r: "get_string None T3 (tok_normal t') = Some (token_text T1 t)
        \<and> get_string None T3 (tok_lower t') = Some (env_lowercase E (token_text T1 t))"
    from arena_tokens_resolve [OF good t] show "token_kept E T1 T3 t t'"
      using r by (auto simp: token_kept_def tokens_resolve_def token_text_def resolver_get_eq [OF T1, of _ None])
  qed
  from build_arena_same [OF this ts] obtain B where
    B: "build_arena ?c toks = (Inr (B, root_children f) :: 'r cache_error + _)" "same_arena (token_kept E T1 T3) ?A B"
    by blast
  have "archived_to_arena E h' ?c T2 = Some (Inr (B, root_children f) :: 'r cache_error + _, T3)"
    using arena_tree_checked [OF parsed_tree [OF assms(3)], where 'r = 'r] cached_pool_checked [OF ts, where 'r = 'r] T3(1) B(1)
    by (simp add: archived_to_arena_def)
  with B(2) T3(2) arena_to_cached_eq show ?thesis by blast
qed

section \<open>What any accepted file loads to\<close>

text \<open>
  \<open>child_walks A k child\<close>: a walk from the child meets indices in range only, and no more than \<open>k\<close>
  clauses inside each other.
\<close>

fun child_walks :: "arena \<Rightarrow> nat \<Rightarrow> child \<Rightarrow> bool" where
  "child_walks A k (CComment i) \<longleftrightarrow> i < length (comments A)"
| "child_walks A k (CLeaf i) \<longleftrightarrow> i < length (leaves A) \<and>
     (case leaf_val (leaves A ! i) of
        VClause cs \<Rightarrow> (case k of 0 \<Rightarrow> False | Suc k' \<Rightarrow> list_all (child_walks A k') cs)
      | _ \<Rightarrow> True)"
| "child_walks A k (CLeafValue i) \<longleftrightarrow> i < length (leaf_values A) \<and>
     (case lv_value (leaf_values A ! i) of
        VClause cs \<Rightarrow> (case k of 0 \<Rightarrow> False | Suc k' \<Rightarrow> list_all (child_walks A k') cs)
      | _ \<Rightarrow> True)"

declare child_walks.simps(2,3) [simp del]

text \<open>The values of a loaded arena against those of the file.\<close>

fun value_loaded :: "(string_tokens \<Rightarrow> bool) \<Rightarrow> cached_value \<Rightarrow> pvalue \<Rightarrow> bool" where
  "value_loaded P (CachedValue_String s) v \<longleftrightarrow> (\<exists>t. v = VString t \<and> P t)"
| "value_loaded P (CachedValue_QString s) v \<longleftrightarrow> (\<exists>t. v = VQString t \<and> P t)"
| "value_loaded P (CachedValue_Float f) v \<longleftrightarrow> v = VFloat f"
| "value_loaded P (CachedValue_Int i) v \<longleftrightarrow> v = VInt i"
| "value_loaded P (CachedValue_Bool b) v \<longleftrightarrow> v = VBool b"
| "value_loaded P (CachedValue_Clause cs) v \<longleftrightarrow> v = VClause (map child_from_archived cs)"

lemma value_loads:
  assumes "list_all P toks" "length toks = length (collect_archived_value_strings v)"
  shows "\<exists>v'. archived_value_to_value v (toks @ rest) = (Inr (v', rest) :: 'r cache_error + _) \<and> value_loaded P v v'"
  using assms by (cases v; cases toks) (auto simp: with_token_def children_from_archived_def)

lemma split_length: "length xs = n + m \<Longrightarrow> \<exists>ys zs. xs = ys @ zs \<and> length ys = n \<and> length zs = m"
  by (intro exI [of _ "take n xs"] exI [of _ "drop n xs"]) simp

lemma leaves_load:
  assumes "list_all P toks" "length toks = length (concat (map (\<lambda>l. cl_key l # collect_archived_value_strings (cl_value l)) ls))"
  shows "\<exists>ls'. load_leaves ls (toks @ rest) A = (Inr (rest, A\<lparr>leaves := leaves A @ ls'\<rparr>) :: 'r cache_error + _)
     \<and> list_all2 (\<lambda>l l'. P (leaf_key l') \<and> value_loaded P (cl_value l) (leaf_val l')) ls ls'"
  using assms
proof (induction ls arbitrary: toks A)
  case (Cons l ls)
  then obtain k us where toks: "toks = k # us" "P k" "list_all P us"
    "length us = length (collect_archived_value_strings (cl_value l))
      + length (concat (map (\<lambda>l. cl_key l # collect_archived_value_strings (cl_value l)) ls))"
    by (cases toks) auto
  from split_length [OF toks(4)] obtain vs ws where us: "us = vs @ ws"
    "length vs = length (collect_archived_value_strings (cl_value l))"
    "length ws = length (concat (map (\<lambda>l. cl_key l # collect_archived_value_strings (cl_value l)) ls))" by blast
  obtain v' where v': "archived_value_to_value (cl_value l) (vs @ ws @ rest) = (Inr (v', ws @ rest) :: 'r cache_error + _)"
    "value_loaded P (cl_value l) v'"
    using value_loads [of P vs "cl_value l" "ws @ rest"] us toks(3) by auto
  define l' where "l' = \<lparr>leaf_key = k, leaf_val = v', leaf_op = archived_op_to_op (cl_op l),
    leaf_pos = cached_to_range (cl_start_line l) (cl_start_col l) (cl_end_line l) (cl_end_col l),
    leaf_val_pos = cached_to_range (cl_value_start_line l) (cl_value_start_col l)
      (cl_value_end_line l) (cl_value_end_col l),
    leaf_color = map_option archived_color_prefix (cl_color_prefix l)\<rparr>"
  from Cons.IH [of ws "A\<lparr>leaves := leaves A @ [l']\<rparr>"] us toks(3) obtain ls' where
    "load_leaves ls (ws @ rest) (A\<lparr>leaves := leaves A @ [l']\<rparr>) = (Inr (rest, A\<lparr>leaves := leaves A @ l' # ls'\<rparr>) :: 'r cache_error + _)"
    "list_all2 (\<lambda>l l'. P (leaf_key l') \<and> value_loaded P (cl_value l) (leaf_val l')) ls ls'" by auto
  then show ?case
    using toks(2) v' by (intro exI [of _ "l' # ls'"]) (simp add: toks(1) us(1) push_leaf_def l'_def)
qed simp

lemma leaf_values_load:
  assumes "list_all P toks" "length toks = length (concat (map (\<lambda>l. collect_archived_value_strings (clv_value l)) ls))"
  shows "\<exists>ls'. load_leaf_values ls (toks @ rest) A = (Inr (rest, A\<lparr>leaf_values := leaf_values A @ ls'\<rparr>) :: 'r cache_error + _)
     \<and> list_all2 (\<lambda>l l'. value_loaded P (clv_value l) (lv_value l')) ls ls'"
  using assms
proof (induction ls arbitrary: toks A)
  case (Cons l ls)
  then have "length toks = length (collect_archived_value_strings (clv_value l))
      + length (concat (map (\<lambda>l. collect_archived_value_strings (clv_value l)) ls))" by simp
  from split_length [OF this] obtain vs ws where us: "toks = vs @ ws"
    "length vs = length (collect_archived_value_strings (clv_value l))"
    "length ws = length (concat (map (\<lambda>l. collect_archived_value_strings (clv_value l)) ls))" by blast
  obtain v' where v': "archived_value_to_value (clv_value l) (vs @ ws @ rest) = (Inr (v', ws @ rest) :: 'r cache_error + _)"
    "value_loaded P (clv_value l) v'"
    using value_loads [of P vs "clv_value l" "ws @ rest"] us Cons.prems(1) by auto
  define l' where "l' = \<lparr>lv_value = v',
    lv_pos = cached_to_range (clv_start_line l) (clv_start_col l) (clv_end_line l) (clv_end_col l),
    lv_color = map_option archived_color_prefix (clv_color_prefix l)\<rparr>"
  from Cons.IH [of ws "A\<lparr>leaf_values := leaf_values A @ [l']\<rparr>"] us Cons.prems(1) obtain ls' where
    "load_leaf_values ls (ws @ rest) (A\<lparr>leaf_values := leaf_values A @ [l']\<rparr>)
       = (Inr (rest, A\<lparr>leaf_values := leaf_values A @ l' # ls'\<rparr>) :: 'r cache_error + _)"
    "list_all2 (\<lambda>l l'. value_loaded P (clv_value l) (lv_value l')) ls ls'" by auto
  then show ?case
    using v' by (intro exI [of _ "l' # ls'"]) (simp add: us(1) push_leaf_value_def l'_def)
qed simp


definition arena_loaded :: "(string_tokens \<Rightarrow> bool) \<Rightarrow> cached_file \<Rightarrow> arena \<Rightarrow> bool" where
  "arena_loaded P cached A \<longleftrightarrow>
     list_all2 (\<lambda>l l'. P (leaf_key l') \<and> value_loaded P (cl_value l) (leaf_val l')) (cf_leaves cached) (leaves A)
     \<and> list_all2 (\<lambda>l l'. value_loaded P (clv_value l) (lv_value l')) (cf_leaf_values cached) (leaf_values A)
     \<and> list_all2 (\<lambda>c c'. comment_range_of c' = \<lparr>cr_start = cc_text_start c, cr_end = cc_text_end c\<rparr>)
         (cf_comments cached) (comments A)
     \<and> comment_pool A = (if cf_comment_text_pool cached = [] then None else Some (cf_comment_text_pool cached))"

lemma build_arena_loaded:
  assumes "list_all P toks" "length toks = length (cached_strings cached)"
  shows "\<exists>A. build_arena cached toks
      = (Inr (A, map child_from_archived (cf_root_children cached)) :: 'r cache_error + _) \<and> arena_loaded P cached A"
proof -
  from split_length [OF assms(2) [unfolded cached_strings_def length_append]] obtain us vs where toks: "toks = us @ vs @ []"
    "length us = length (concat (map (\<lambda>l. cl_key l # collect_archived_value_strings (cl_value l)) (cf_leaves cached)))"
    "length vs = length (concat (map (\<lambda>lv. collect_archived_value_strings (clv_value lv)) (cf_leaf_values cached)))"
    by auto
  have P: "list_all P us" "list_all P vs" using assms(1) toks(1) by simp_all
  define pool where "pool = (if cf_comment_text_pool cached = [] then None else Some (cf_comment_text_pool cached))"
  let ?A = "Arena_new\<lparr>comment_pool := pool\<rparr>"
  obtain ls where ls: "load_leaves (cf_leaves cached) (us @ vs @ []) ?A
      = (Inr (vs @ [], ?A\<lparr>leaves := ls\<rparr>) :: 'r cache_error + _)"
    "list_all2 (\<lambda>l l'. P (leaf_key l') \<and> value_loaded P (cl_value l) (leaf_val l')) (cf_leaves cached) ls"
    using leaves_load [OF P(1) toks(2), of "vs @ []" ?A] by (auto simp: Arena_new_def)
  obtain lvs where lvs: "load_leaf_values (cf_leaf_values cached) (vs @ []) (?A\<lparr>leaves := ls\<rparr>)
      = (Inr ([], ?A\<lparr>leaves := ls, leaf_values := lvs\<rparr>) :: 'r cache_error + _)"
    "list_all2 (\<lambda>l l'. value_loaded P (clv_value l) (lv_value l')) (cf_leaf_values cached) lvs"
    using leaf_values_load [OF P(2) toks(3), of "[]" "?A\<lparr>leaves := ls\<rparr>"] by (auto simp: Arena_new_def)
  let ?B = "load_comments (cf_comments cached) (?A\<lparr>leaves := ls, leaf_values := lvs\<rparr>)"
  have "build_arena cached toks = (Inr (?B, map child_from_archived (cf_root_children cached)) :: 'r cache_error + _)"
    unfolding build_arena_def Let_def pool_def [symmetric] toks(1) ls(1) sum.case prod.case lvs(1)
    by (simp add: children_from_archived_def)
  moreover have "arena_loaded P cached ?B"
    using ls(2) lvs(2)
    by (simp add: arena_loaded_def load_comments_eq Arena_new_def pool_def list_all2_conv_all_nth)
  ultimately show ?thesis by blast
qed

lemma loaded_clause:
  assumes "arena_loaded P cached A"
  shows "node_in cached n \<longleftrightarrow> (case n of NodeLeaf i \<Rightarrow> i < length (leaves A) | NodeLeafValue i \<Rightarrow> i < length (leaf_values A))"
    and "node_in cached n \<Longrightarrow> node_pvalue A n = VClause ds \<Longrightarrow>
      \<exists>cs. archived_clause_children cached n = Some (Some cs) \<and> ds = map child_from_archived cs"
proof -
  have len: "length (cf_leaves cached) = length (leaves A)" "length (cf_leaf_values cached) = length (leaf_values A)"
    using assms by (auto simp: arena_loaded_def dest: list_all2_lengthD)
  then show "node_in cached n \<longleftrightarrow> (case n of NodeLeaf i \<Rightarrow> i < length (leaves A) | NodeLeafValue i \<Rightarrow> i < length (leaf_values A))"
    by (cases n) (auto simp: node_in_def list_get_def)
  have v: "\<exists>cs. v = CachedValue_Clause cs \<and> ds = map child_from_archived cs" if "value_loaded P v (VClause ds)" for v
    using that by (cases v) auto
  assume n: "node_in cached n" "node_pvalue A n = VClause ds"
  then have "value_loaded P (case n of NodeLeaf i \<Rightarrow> cl_value (cf_leaves cached ! i)
      | NodeLeafValue i \<Rightarrow> clv_value (cf_leaf_values cached ! i)) (VClause ds)"
    using assms len by (cases n) (auto simp: arena_loaded_def node_in_def list_get_def list_all2_conv_all_nth split: if_splits)
  from v [OF this] n(1) show "\<exists>cs. archived_clause_children cached n = Some (Some cs) \<and> ds = map child_from_archived cs"
    unfolding node_value_clause by (cases n) (auto simp: node_in_def list_get_def split: if_splits)
qed

lemma walks_step:
  assumes A: "arena_loaded P cached A" and n: "child_node ch = Some n" "node_in cached n" "nests cached k n"
    and ih: "\<And>k' cs. k = Suc k' \<Longrightarrow> archived_clause_children cached n = Some (Some cs) \<Longrightarrow>
      list_all (child_nests cached k') cs \<Longrightarrow> list_all (child_walks A k') (map child_from_archived cs)"
  shows "child_walks A k (child_from_archived ch)"
proof -
  have clause: "\<exists>k'. k = Suc k' \<and> list_all (child_walks A k') ds" if v: "node_pvalue A n = VClause ds" for ds
  proof -
    obtain cs where cs: "archived_clause_children cached n = Some (Some cs)" "ds = map child_from_archived cs"
      using loaded_clause(2) [OF A n(2) v] by blast
    with n(3) show ?thesis using ih by (auto simp: nests_clause [OF cs(1)])
  qed
  show ?thesis
    using loaded_clause(1) [OF A, of n] n(1,2) clause
    by (cases ch) (auto simp: child_walks.simps split: pvalue.split nat.split)
qed

lemma loaded_walks:
  assumes A: "arena_loaded P cached A" and B: "bounds_ok cached"
    and C: "\<And>n cs i. archived_clause_children cached n = Some (Some cs) \<Longrightarrow> CachedChild_Comment i \<in> set cs \<Longrightarrow> i < length (comments A)"
  shows "child_nests cached k ch \<Longrightarrow> (\<And>n. child_node ch = Some n \<Longrightarrow> node_in cached n) \<Longrightarrow>
    (\<And>i. ch = CachedChild_Comment i \<Longrightarrow> i < length (comments A)) \<Longrightarrow> child_walks A k (child_from_archived ch)"
proof (induction k arbitrary: ch)
  case 0
  show ?case
  proof (cases "child_node ch")
    case None
    with 0 show ?thesis by (cases ch) auto
  next
    case (Some n)
    with 0 show ?thesis by (intro walks_step [OF A Some]) (auto simp: child_nests_def)
  qed
next
  case (Suc k)
  show ?case
  proof (cases "child_node ch")
    case None
    with Suc.prems show ?thesis by (cases ch) auto
  next
    case (Some n)
    have sub: "list_all (child_walks A k) (map child_from_archived cs)"
      if "archived_clause_children cached n = Some (Some cs)" "list_all (child_nests cached k) cs" for cs
      using that B C [OF that(1)] unfolding bounds_ok_def list_all_iff by (auto intro!: Suc.IH)
    show ?thesis
      using Suc.prems Some sub by (intro walks_step [OF A Some]) (auto simp: child_nests_def)
  qed
qed

text \<open>Strings and comments of a loaded arena.\<close>

fun value_strings_ok :: "(string_tokens \<Rightarrow> bool) \<Rightarrow> pvalue \<Rightarrow> bool" where
  "value_strings_ok P (VString t) = P t"
| "value_strings_ok P (VQString t) = P t"
| "value_strings_ok P _ = True"

definition arena_usable :: "(string_tokens \<Rightarrow> bool) \<Rightarrow> arena \<Rightarrow> child list \<Rightarrow> bool" where
  "arena_usable P A roots \<longleftrightarrow>
     list_all (child_walks A 257) roots
     \<and> list_all (\<lambda>l. P (leaf_key l) \<and> value_strings_ok P (leaf_val l)) (leaves A)
     \<and> list_all (\<lambda>l. value_strings_ok P (lv_value l)) (leaf_values A)
     \<and> list_all (\<lambda>c. \<exists>t. comment_text A c = Some t \<and> t \<noteq> []) (comments A)"

lemma value_loaded_strings: "value_loaded P v v' \<Longrightarrow> value_strings_ok P v'"
  by (cases v) auto

lemma slice_between:
  assumes "drop_bytes a s \<noteq> None" "drop_bytes b s \<noteq> None" "a < b"
  shows "\<exists>t. byte_slice s a b = Some t \<and> t \<noteq> []"
proof -
  from assms(1,2) obtain r z where rz: "drop_bytes a s = Some r" "drop_bytes b s = Some z" by auto
  from drop_bytes_SomeD [OF rz(1)] obtain p where p: "s = p @ r" "blen p = a" by blast
  from drop_bytes_SomeD [OF rz(2)] obtain q where q: "s = q @ z" "blen q = b" by blast
  from p(1) q(1) have "p @ r = q @ z" by simp
  then consider t where "q = p @ t" "r = t @ z" | t where "p = q @ t"
    by (auto simp: append_eq_append_conv2)
  then show ?thesis
  proof cases
    case 1
    from 1 p(2) q(2) have e: "b = blen p + blen t" by simp
    with byte_slice_middle [of p t z] p assms(3) 1 show ?thesis by auto
  next
    case 2
    then have "blen p = blen q + blen t" by simp
    with p(2) q(2) assms(3) show ?thesis by simp
  qed
qed

lemma pool_loop_slices:
  "comment_pool_loop pool carried cs = (Inr stop :: 'r cache_error + nat) \<Longrightarrow>
   list_all (\<lambda>c. \<exists>t. byte_slice pool (cc_text_start c) (cc_text_end c) = Some t \<and> t \<noteq> []) cs"
proof (induction cs arbitrary: carried)
  case (Cons c cs)
  then have "drop_bytes (cc_text_start c) pool \<noteq> None" "drop_bytes (cc_text_end c) pool \<noteq> None"
    "cc_text_start c < cc_text_end c" "comment_pool_loop pool (cc_text_end c) cs = (Inr stop :: 'r cache_error + nat)"
    by (auto simp: Let_def split: if_splits)
  then show ?case using slice_between Cons.IH by simp
qed simp

lemma loaded_comments:
  assumes "arena_loaded P cached A" "validate_archived_comment_pool cached = (Inr () :: 'r cache_error + unit)"
  shows "list_all (\<lambda>c. \<exists>t. comment_text A c = Some t \<and> t \<noteq> []) (comments A)"
proof -
  let ?pool = "cf_comment_text_pool cached"
  from assms(2) obtain stop where "comment_pool_loop ?pool 0 (cf_comments cached) = (Inr stop :: 'r cache_error + nat)"
    by (auto simp: validate_archived_comment_pool_def split: sum.splits)
  note sl = pool_loop_slices [OF this]
  have "\<exists>t. comment_text A (comments A ! i) = Some t \<and> t \<noteq> []" if i: "i < length (comments A)" for i
  proof -
    from assms(1) i have r: "i < length (cf_comments cached)"
      "comment_range_of (comments A ! i) = \<lparr>cr_start = cc_text_start (cf_comments cached ! i), cr_end = cc_text_end (cf_comments cached ! i)\<rparr>"
      "comment_pool A = (if ?pool = [] then None else Some ?pool)"
      by (auto simp: arena_loaded_def list_all2_conv_all_nth)
    from sl r(1) obtain t where t: "byte_slice ?pool (cc_text_start (cf_comments cached ! i)) (cc_text_end (cf_comments cached ! i)) = Some t"
      "t \<noteq> []" by (auto simp: list_all_length)
    then have "?pool \<noteq> []" by (auto dest: byte_slice_SomeD)
    with r t show ?thesis by (simp add: comment_text_def)
  qed
  then show ?thesis by (simp add: list_all_length)
qed

lemma placed_comments:
  "children_placed (cf_counts cached) owner cs \<Longrightarrow> CachedChild_Comment i \<in> set cs \<Longrightarrow> i < length (cf_comments cached)"
  by (auto simp: children_placed_def list_all_iff cf_counts_def)

lemma loaded_usable:
  assumes A: "arena_loaded P cached A"
    and b: "validate_archived_child_bounds cached = (Inr () :: 'r cache_error + unit)"
    and d: "validate_archived_clause_depth cached = Some (Inr () :: 'r cache_error + unit)"
    and p: "validate_archived_comment_pool cached = (Inr () :: 'r cache_error + unit)"
  shows "arena_usable P A (map child_from_archived (cf_root_children cached))"
proof -
  note bounds = b [unfolded child_bounds_iff]
  have len: "length (cf_comments cached) = length (comments A)" using A by (auto simp: arena_loaded_def dest: list_all2_lengthD)
  have nests: "nests cached 257 n" if "node_in cached n" for n
    using d that depth_check_exact [OF child_bounds_ok [OF b], where 'r = 'r]
    by (auto simp: list_all_iff archived_nodes_in split: if_splits)
  have "child_walks A 257 (child_from_archived ch)" if ch: "ch \<in> set (cf_root_children cached)" for ch
  proof -
    have c1: "i < length (comments A)" if "archived_clause_children cached n = Some (Some cs)" "CachedChild_Comment i \<in> set cs" for n cs i
      using bounds that placed_comments len by fastforce
    have n: "node_in cached n" if "child_node ch = Some n" for n
      using bounds placed_nodes ch that by blast
    have c2: "child_nests cached 257 ch"
      using nests n by (auto simp: child_nests_def split: option.split)
    have c3: "i < length (comments A)" if "ch = CachedChild_Comment i" for i
      using bounds placed_comments ch that len by fastforce
    show ?thesis
      by (rule loaded_walks [OF A child_bounds_ok [OF b] c1 c2 n c3])
  qed
  then have "list_all (child_walks A 257) (map child_from_archived (cf_root_children cached))"
    by (auto simp: list_all_iff)
  moreover have "list_all (\<lambda>l. P (leaf_key l) \<and> value_strings_ok P (leaf_val l)) (leaves A)"
    "list_all (\<lambda>l. value_strings_ok P (lv_value l)) (leaf_values A)"
    using A by (auto simp: arena_loaded_def list_all2_conv_all_nth list_all_length intro: value_loaded_strings)
  ultimately show ?thesis using loaded_comments [OF A p] by (simp add: arena_usable_def)
qed

lemma sample_parse:
  obtains f T1 where
    "parse_string_with_comment_mode ascii_env None Preserve (str ''a={b} #d'') StringTable_new = Some (f, T1)"
    "table_size StringTable_new + 2 * (2 * length (leaves (pf_arena f)) + length (leaf_values (pf_arena f))) \<le> 2 ^ 25"
proof -
  let ?t = "str ''a={b} #d''"
  obtain f T1 where p: "parse_string_with_comment_mode ascii_env None Preserve ?t StringTable_new = Some (f, T1)"
    using parse_small_total [of ?t None Preserve] by auto
  have "case parse_string_with_comment_mode ascii_env None Preserve ?t StringTable_new of None \<Rightarrow> False
      | Some (f, T1) \<Rightarrow> length (leaves (pf_arena f)) = 1 \<and> length (leaf_values (pf_arena f)) = 1"
    by code_simp
  with p that [OF p] show thesis by (simp add: table_size_new)
qed

section \<open>Properties\<close>

text \<open>
  C24. The depth check of a cached file decides the nesting of its clauses: for every file whose
  child indices are in range, cyclic files included, the search ends without a panic, accepts when
  no clause lies more than 257 clauses deep below any entry, and otherwise rejects the file.
\<close>

theorem clause_depth_check:
  assumes "validate_archived_child_bounds cached = (Inr () :: 'r cache_error + unit)"
  shows "(validate_archived_clause_depth cached :: ('r cache_error + unit) option) =
    Some (if list_all (nests cached 257) (archived_nodes cached) then Inr ()
          else Inl (cache_rejected (str ''cache clause nesting too deep'')))"
  using depth_check_exact [OF child_bounds_ok [OF assms]] unfolding too_deep_def .

text \<open>Two clauses that hold each other, through a leaf and a leaf value.\<close>

definition cyclic_file :: cached_file where
  "cyclic_file =
     \<lparr>cf_root_children = [CachedChild_Leaf 0],
      cf_leaves = [\<lparr>cl_key = str ''a'', cl_value = CachedValue_Clause [CachedChild_LeafValue 0], cl_op = CachedEquals,
        cl_start_line = 1, cl_start_col = 0, cl_end_line = 1, cl_end_col = 9, cl_value_start_line = 1,
        cl_value_start_col = 4, cl_value_end_line = 1, cl_value_end_col = 9, cl_color_prefix = None\<rparr>],
      cf_leaf_values = [\<lparr>clv_value = CachedValue_Clause [CachedChild_Leaf 0], clv_start_line = 1, clv_start_col = 5,
        clv_end_line = 1, clv_end_col = 8, clv_color_prefix = None\<rparr>],
      cf_comments = [], cf_comment_text_pool = []\<rparr>"

lemma cyclic_file_nests: "\<not> nests cyclic_file k (NodeLeaf 0) \<and> \<not> nests cyclic_file k (NodeLeafValue 0)"
proof (induction k)
  case (Suc k)
  then show ?case
    by (subst (1 2) nests.simps) (simp add: archived_clause_children_def list_get_def cyclic_file_def)
qed (subst (1 2) nests.simps, simp add: archived_clause_children_def list_get_def cyclic_file_def)

theorem clause_depth_check_witness:
  "(validate_archived_clause_depth cyclic_file :: (unit cache_error + unit) option)
     = Some (Inl (cache_rejected (str ''cache clause nesting too deep'')))"
proof -
  have "validate_archived_child_bounds cyclic_file = (Inr () :: unit cache_error + unit)" by code_simp
  moreover have "\<not> list_all (nests cyclic_file 257) (archived_nodes cyclic_file)"
    using cyclic_file_nests [of 257] by (simp add: archived_nodes_def cyclic_file_def)
  ultimately show ?thesis using clause_depth_check [where 'r = unit, of cyclic_file] by simp
qed

text \<open>
  C23. The cache keeps a parsed file: what is written for a file that parsed, in any text and any
  comment mode, is accepted by every check of the loader, and loading it over any well-formed
  string table with room gives the same tree: the same root children, keys, values, operators,
  positions, colors and comment texts, with ids that resolve in the new table to the strings the
  old ids stood for, and to their lowercase forms.
\<close>

theorem cache_roundtrip:
  assumes "lowercase_ok E" and "table_ok E T"
    and "parse_string_with_comment_mode E h mode input T = Some (f, T1)"
    and "table_ok E T2"
    and "table_size T2 + 2 * (2 * length (leaves (pf_arena f)) + length (leaf_values (pf_arena f))) \<le> 2 ^ 25"
  shows "\<exists>cached A T3. arena_to_cached (pf_arena f) (root_children f) T1 = Some cached
     \<and> archived_to_arena E h' cached T2 = Some (Inr (A, root_children f) :: 'r cache_error + _, T3)
     \<and> table_ok E T3 \<and> same_arena (token_kept E T1 T3) (pf_arena f) A"
  using assms by (rule cached_and_loaded)

theorem cache_roundtrip_witness:
  "\<exists>f T1 cached A T3.
     parse_string_with_comment_mode ascii_env None Preserve (str ''a={b} #d'') StringTable_new = Some (f, T1)
     \<and> arena_to_cached (pf_arena f) (root_children f) T1 = Some cached
     \<and> archived_to_arena ascii_env None cached StringTable_new = Some (Inr (A, root_children f) :: unit cache_error + _, T3)
     \<and> same_arena (token_kept ascii_env T1 T3) (pf_arena f) A"
proof -
  obtain f T1 where p: "parse_string_with_comment_mode ascii_env None Preserve (str ''a={b} #d'') StringTable_new = Some (f, T1)"
    "table_size StringTable_new + 2 * (2 * length (leaves (pf_arena f)) + length (leaf_values (pf_arena f))) \<le> 2 ^ 25"
    by (rule sample_parse)
  from cache_roundtrip [OF ascii_env_ok table_ok_new p(1) table_ok_new p(2), where 'r = unit, of None] p(1) show ?thesis by blast
qed


text \<open>
  C22. Loading is safe on any file: whatever a cached file holds, well written or damaged, the loader
  returns (no panic, given room in the string table), and if it accepts, the arena can be used
  without further checks: every child index met from the roots is in range and no walk meets more
  than 257 clauses inside each other, every key and string resolves to a text and its lowercase
  form, and every comment has a non-empty text.
\<close>

theorem accepted_file_usable:
  assumes "lowercase_ok E" and "table_ok E T"
    and "table_size T + 2 * length (cached_strings cached) \<le> 2 ^ 25"
  shows "\<exists>r T'. archived_to_arena E h cached T = Some (r :: 'r cache_error + (arena \<times> child list), T') \<and> table_ok E T'
     \<and> (\<forall>A roots. r = Inr (A, roots) \<longrightarrow> arena_usable (tokens_resolve E T') A roots)"
proof (cases "validate_archived_child_bounds cached :: 'r cache_error + unit")
  case (Inl e)
  then show ?thesis using assms(2) by (auto simp: archived_to_arena_def)
next
  case b: (Inr u)
  obtain d where d: "(validate_archived_clause_depth cached :: ('r cache_error + unit) option) = Some d"
    using depth_check_exact [OF child_bounds_ok, of cached, where 'r = 'r] b by auto
  show ?thesis
  proof (cases "d = Inr () \<and> validate_archived_comment_pool cached = (Inr () :: 'r cache_error + unit)")
    case False
    then show ?thesis using assms(2) b d by (auto simp: archived_to_arena_def split: sum.split)
  next
    case True
    obtain toks T' where t: "intern_batch E h (cached_strings cached) T = Some (toks, T')" "table_ok E T'"
      "list_all2 (\<lambda>s tok. get_string None T' (tok_normal tok) = Some s
          \<and> get_string None T' (tok_lower tok) = Some (env_lowercase E s)) (cached_strings cached) toks"
      using intern_batch_kept [OF assms] by blast
    then have "list_all (tokens_resolve E T') toks" "length toks = length (cached_strings cached)"
      by (auto simp: list_all2_conv_all_nth list_all_length tokens_resolve_def)
    from build_arena_loaded [OF this] obtain A where A:
      "build_arena cached toks = (Inr (A, map child_from_archived (cf_root_children cached)) :: 'r cache_error + _)"
      "arena_loaded (tokens_resolve E T') cached A" by blast
    have "arena_usable (tokens_resolve E T') A (map child_from_archived (cf_root_children cached))"
      by (rule loaded_usable [OF A(2), where 'r = 'r]) (use True b d in simp_all)
    with True b d t A(1) show ?thesis by (simp add: archived_to_arena_def)
  qed
qed

theorem accepted_file_usable_witness:
  "\<exists>r T'. archived_to_arena ascii_env None cyclic_file StringTable_new = Some (r :: unit cache_error + _, T') \<and> table_ok ascii_env T'"
  using accepted_file_usable [OF ascii_env_ok table_ok_new, where 'r = unit, of cyclic_file None]
  by (auto simp: table_size_new cached_strings_def cyclic_file_def)

end
