(* ===== verification/Cache_Store.thy ===== *)
theory Cache_Store
  imports Cache_Properties "HOL-Library.List_Lexorder" "HOL-Library.Product_Lexorder"
begin

text \<open>
  The parse cache on disk: \<^verbatim>\<open>engine/crates/cache/src/io.rs\<close> (capped reads, capped decompression,
  atomic writes, the two file formats) and the entries of \<^verbatim>\<open>workspace.rs\<close> (keys, storing,
  loading, eviction).

  The file system is a map from paths to nodes together with a schedule of faults: every
  operation takes one tick, and a tick may carry a fault, with the number of bytes that a write
  got through before it.  The statements hold for every schedule.  \<^verbatim>\<open>rkyv\<close> and \<^verbatim>\<open>zstd\<close>
  are a record of functions, \<open>codec\<close>; what the code relies on is \<open>codec_ok\<close>.  The model is of a
  Unix host.
\<close>

section \<open>The file system\<close>

type_synonym path = ustr
type_synonym bytes = "8 word list"

datatype fs_node = RegularFile bytes | OtherNode

datatype fault = Fault io_kind nat

record metadata =
  md_modified :: "(u64 \<times> u32) option"
  md_len :: u64
  md_dev :: u64
  md_ino :: u64
  md_ctime :: u64
  md_ctime_nsec :: u64

record fs =
  fs_files :: "path \<Rightarrow> fs_node option"
  fs_time :: nat
  fs_fault :: "nat \<Rightarrow> fault option"
  fs_stat :: "nat \<Rightarrow> path \<Rightarrow> metadata option"
  fs_temp_id :: nat
  fs_pid :: nat

definition tick :: "fs \<Rightarrow> fault option \<times> fs" where
  "tick s = (fs_fault s (fs_time s), s\<lparr>fs_time := fs_time s + 1\<rparr>)"

definition put_file :: "path \<Rightarrow> fs_node option \<Rightarrow> fs \<Rightarrow> fs" where
  "put_file p node s = s\<lparr>fs_files := (fs_files s)(p := node)\<rparr>"

definition file_create :: "path \<Rightarrow> fs \<Rightarrow> (io_kind + unit) \<times> fs" where
  "file_create p s =
     (case tick s of
        (Some (Fault k n), s) \<Rightarrow> (Inl k, s)
      | (None, s) \<Rightarrow>
          if fs_files s p = Some OtherNode then (Inl OtherIo, s) else (Inr (), put_file p (Some (RegularFile [])) s))"

definition file_write_all :: "path \<Rightarrow> bytes \<Rightarrow> fs \<Rightarrow> (io_kind + unit) \<times> fs" where
  "file_write_all p data s =
     (case (tick s, fs_files s p) of
        ((Some (Fault k n), s), Some (RegularFile old)) \<Rightarrow> (Inl k, put_file p (Some (RegularFile (old @ take n data))) s)
      | ((Some (Fault k n), s), _) \<Rightarrow> (Inl k, s)
      | ((None, s), Some (RegularFile old)) \<Rightarrow> (Inr (), put_file p (Some (RegularFile (old @ data))) s)
      | ((None, s), _) \<Rightarrow> (Inl OtherIo, s))"

definition fs_rename :: "path \<Rightarrow> path \<Rightarrow> fs \<Rightarrow> (io_kind + unit) \<times> fs" where
  "fs_rename p q s =
     (case tick s of
        (Some (Fault k n), s) \<Rightarrow> (Inl k, s)
      | (None, s) \<Rightarrow>
          (case fs_files s p of
             None \<Rightarrow> (Inl NotFoundIo, s)
           | Some node \<Rightarrow>
               if fs_files s q = Some OtherNode then (Inl OtherIo, s)
               else (Inr (), put_file q (Some node) (put_file p None s))))"

definition fs_remove_file :: "path \<Rightarrow> fs \<Rightarrow> (io_kind + unit) \<times> fs" where
  "fs_remove_file p s =
     (case tick s of
        (Some (Fault k n), s) \<Rightarrow> (Inl k, s)
      | (None, s) \<Rightarrow>
          (case fs_files s p of
             None \<Rightarrow> (Inl NotFoundIo, s)
           | Some OtherNode \<Rightarrow> (Inl OtherIo, s)
           | Some (RegularFile _) \<Rightarrow> (Inr (), put_file p None s)))"

definition fs_metadata :: "path \<Rightarrow> fs \<Rightarrow> metadata option \<times> fs" where
  "fs_metadata p s = (case tick s of (_, s') \<Rightarrow> (fs_stat s (fs_time s) p, s'))"

section \<open>Capped reads\<close>

definition MAX_ARCHIVE_FILE_BYTES :: nat where "MAX_ARCHIVE_FILE_BYTES = 64 * 1024 * 1024"
definition MAX_ARCHIVE_DECODED_BYTES :: nat where "MAX_ARCHIVE_DECODED_BYTES = 128 * 1024 * 1024"
definition MAX_ERRORS_FILE_BYTES :: nat where "MAX_ERRORS_FILE_BYTES = 16 * 1024 * 1024"

definition read_capped :: "path \<Rightarrow> nat \<Rightarrow> fs \<Rightarrow> (io_kind + bytes) \<times> fs" where
  "read_capped p max_bytes s =
     (case tick s of
        (Some (Fault k n), s) \<Rightarrow> (Inl k, s)
      | (None, s) \<Rightarrow>
          (case fs_files s p of
             None \<Rightarrow> (Inl NotFoundIo, s)
           | Some OtherNode \<Rightarrow> (Inl InvalidInput, s)
           | Some (RegularFile content) \<Rightarrow>
               (let data = take (min (max_bytes + 1) (2 ^ 64 - 1)) content in
                if length data > max_bytes then (Inl InvalidData, s) else (Inr data, s))))"

record capped_writer =
  cw_inner :: bytes
  cw_remaining :: nat
  cw_max :: nat

definition CappedWriter_write :: "bytes \<Rightarrow> capped_writer \<Rightarrow> io_kind + (nat \<times> capped_writer)" where
  "CappedWriter_write buf w =
     (if length buf > cw_remaining w then Inl InvalidData
      else Inr (length buf, w\<lparr>cw_inner := cw_inner w @ buf, cw_remaining := cw_remaining w - length buf\<rparr>))"

text \<open>
  The external libraries.  \<open>zstd_decode\<close> gives the pieces the decoder hands to its writer, in order, and
  the error it ends with.
\<close>

record 'r codec =
  rkyv_to_bytes :: "cached_file \<Rightarrow> 'r + bytes"
  rkyv_access :: "bytes \<Rightarrow> 'r + cached_file"
  errors_to_bytes :: "cached_errors \<Rightarrow> 'r + bytes"
  errors_from_bytes :: "bytes \<Rightarrow> 'r + cached_errors"
  zstd_encode :: "bytes \<Rightarrow> io_kind + bytes"
  frame_content_size :: "bytes \<Rightarrow> nat option"
  zstd_decode :: "bytes \<Rightarrow> bytes list \<times> io_kind option"

fun copy_decode :: "bytes list \<times> io_kind option \<Rightarrow> capped_writer \<Rightarrow> io_kind option \<times> capped_writer" where
  "copy_decode ([], outcome) w = (outcome, w)"
| "copy_decode (piece # pieces, outcome) w =
     (case CappedWriter_write piece w of
        Inl k \<Rightarrow> (Some k, w)
      | Inr (_, w) \<Rightarrow> copy_decode (pieces, outcome) w)"

definition decode_capped :: "'r codec \<Rightarrow> bytes \<Rightarrow> nat \<Rightarrow> bytes \<Rightarrow> io_kind option \<times> bytes" where
  "decode_capped C compressed max_bytes out =
     (if (case frame_content_size C compressed of Some declared \<Rightarrow> declared > max_bytes | None \<Rightarrow> False)
      then (Some InvalidData, out)
      else
        (let (outcome, w) = copy_decode (zstd_decode C compressed)
             \<lparr>cw_inner = out, cw_remaining = max_bytes, cw_max = max_bytes\<rparr> in
         (outcome, cw_inner w)))"

section \<open>Atomic writes\<close>

definition temp_path :: "path \<Rightarrow> fs \<Rightarrow> path \<times> fs" where
  "temp_path p s =
     (p @ str ''.tmp-'' @ show_nat (fs_pid s) @ str ''-'' @ show_nat (fs_temp_id s),
      s\<lparr>fs_temp_id := fs_temp_id s + 1\<rparr>)"

definition write_atomically ::
  "path \<Rightarrow> (path \<Rightarrow> fs \<Rightarrow> (io_kind + unit) \<times> fs) \<Rightarrow> fs \<Rightarrow> (io_kind + unit) \<times> fs" where
  "write_atomically p write s =
     (let (temp, s) = temp_path p s;
          (write_result, s) = (case file_create temp s of (Inl k, s) \<Rightarrow> (Inl k, s) | (Inr _, s) \<Rightarrow> write temp s) in
      case write_result of
        Inl error \<Rightarrow> (let (_, s) = fs_remove_file temp s in (Inl error, s))
      | Inr _ \<Rightarrow>
          (case fs_rename temp p s of
             (Inl error, s) \<Rightarrow> (let (_, s) = fs_remove_file temp s in (Inl error, s))
           | (Inr _, s) \<Rightarrow> (Inr (), s)))"

fun write_pieces :: "bytes list \<Rightarrow> path \<Rightarrow> fs \<Rightarrow> (io_kind + unit) \<times> fs" where
  "write_pieces [] p s = (Inr (), s)"
| "write_pieces (piece # pieces) p s =
     (case file_write_all p piece s of (Inl k, s) \<Rightarrow> (Inl k, s) | (Inr _, s) \<Rightarrow> write_pieces pieces p s)"

section \<open>The file formats\<close>

definition CACHE_MAGIC :: bytes where "CACHE_MAGIC = [67, 87, 66, 0]"
definition FORMAT_VERSION :: "8 word" where "FORMAT_VERSION = 6"
definition ERRORS_MAGIC :: bytes where "ERRORS_MAGIC = [67, 87, 69, 0]"
definition ERRORS_FORMAT_VERSION :: "8 word" where "ERRORS_FORMAT_VERSION = 3"

definition serialize_to_file :: "'r codec \<Rightarrow> cached_file \<Rightarrow> path \<Rightarrow> fs \<Rightarrow> ('r cache_error + unit) \<times> fs" where
  "serialize_to_file C cached p s =
     (case rkyv_to_bytes C cached of
        Inl e \<Rightarrow> (Inl (CacheError_Serialize e), s)
      | Inr bytes \<Rightarrow>
          (case zstd_encode C bytes of
             Inl e \<Rightarrow> (Inl (CacheError_Compression e), s)
           | Inr compressed \<Rightarrow>
               map_prod (map_sum CacheError_Io id) id
                 (write_atomically p (write_pieces [CACHE_MAGIC, [FORMAT_VERSION], compressed]) s)))"

definition bad_header :: "bytes \<Rightarrow> 8 word \<Rightarrow> bytes \<Rightarrow> bool" where
  "bad_header magic version data \<longleftrightarrow>
     length data < length magic + 1 \<or> take (length magic) data \<noteq> magic \<or> data ! length magic \<noteq> version"

definition read_archive_bytes :: "'r codec \<Rightarrow> path \<Rightarrow> fs \<Rightarrow> ('r cache_error + bytes) \<times> fs" where
  "read_archive_bytes C p s =
     (case read_capped p MAX_ARCHIVE_FILE_BYTES s of
        (Inl k, s) \<Rightarrow> (Inl (CacheError_Io k), s)
      | (Inr data, s) \<Rightarrow>
          if bad_header CACHE_MAGIC FORMAT_VERSION data
          then (Inl (CacheError_Deserialize (str ''incompatible or missing cache header'') None), s)
          else
            (case decode_capped C (drop (length CACHE_MAGIC + 1) data) MAX_ARCHIVE_DECODED_BYTES [] of
               (Some k, _) \<Rightarrow> (Inl (CacheError_Compression k), s)
             | (None, aligned) \<Rightarrow> (Inr aligned, s)))"

definition with_archived_file :: "'r codec \<Rightarrow> path \<Rightarrow> (cached_file \<Rightarrow> 'a) \<Rightarrow> fs \<Rightarrow> ('r cache_error + 'a) \<times> fs" where
  "with_archived_file C p f s =
     (case read_archive_bytes C p s of
        (Inl e, s) \<Rightarrow> (Inl e, s)
      | (Inr bytes, s) \<Rightarrow>
          (case rkyv_access C bytes of
             Inl e \<Rightarrow> (Inl (CacheError_Deserialize (str ''rkyv access failed'') (Some e)), s)
           | Inr archived \<Rightarrow> (Inr (f archived), s)))"

definition serialize_errors_to_file :: "'r codec \<Rightarrow> cached_errors \<Rightarrow> path \<Rightarrow> fs \<Rightarrow> ('r cache_error + unit) \<times> fs" where
  "serialize_errors_to_file C cached p s =
     (case errors_to_bytes C cached of
        Inl e \<Rightarrow> (Inl (CacheError_Serialize e), s)
      | Inr bytes \<Rightarrow>
          map_prod (map_sum CacheError_Io id) id
            (write_atomically p (write_pieces [ERRORS_MAGIC, [ERRORS_FORMAT_VERSION], bytes]) s))"

definition read_errors_from_file :: "'r codec \<Rightarrow> path \<Rightarrow> fs \<Rightarrow> ('r cache_error + cached_errors) \<times> fs" where
  "read_errors_from_file C p s =
     (case read_capped p MAX_ERRORS_FILE_BYTES s of
        (Inl k, s) \<Rightarrow> (Inl (CacheError_Io k), s)
      | (Inr data, s) \<Rightarrow>
          if bad_header ERRORS_MAGIC ERRORS_FORMAT_VERSION data
          then (Inl (CacheError_Deserialize (str ''incompatible or missing error-cache header'') None), s)
          else
            (case errors_from_bytes C (drop (length ERRORS_MAGIC + 1) data) of
               Inl e \<Rightarrow> (Inl (CacheError_Deserialize (str ''error-cache rkyv access failed'') (Some e)), s)
             | Inr cached \<Rightarrow> (Inr cached, s)))"


section \<open>Keys\<close>

text \<open>\<^verbatim>\<open>to_le_bytes\<close>, and the hexadecimal digits of a 64-bit number.\<close>

definition le_bytes :: "nat \<Rightarrow> 'a::len word \<Rightarrow> bytes" where
  "le_bytes n w = map (\<lambda>i. ucast (drop_bit (8 * i) w)) [0..<n]"

definition hex_digit :: "nat \<Rightarrow> uchar" where
  "hex_digit d = (if d < 10 then 48 + d else 87 + d)"

definition hex16 :: "u64 \<Rightarrow> ustr" where
  "hex16 w = map (\<lambda>i. hex_digit (unat w div 16 ^ (15 - i) mod 16)) [0..<16]"

fun fnv1a :: "bytes \<Rightarrow> u64 \<Rightarrow> u64" where
  "fnv1a [] hash = hash"
| "fnv1a (b # bytes) hash = fnv1a bytes ((hash XOR ucast b) * 0x100000001b3)"

definition FNV_OFFSET :: u64 where "FNV_OFFSET = 0xcbf29ce484222325"

definition str_bytes :: "ustr \<Rightarrow> bytes" where
  "str_bytes s = map of_nat (utf8_bytes s)"

definition content_hash :: "ustr \<Rightarrow> u64" where
  "content_hash text = fnv1a (str_bytes text) FNV_OFFSET"

definition CACHE_VERSION :: u32 where "CACHE_VERSION = 11"

text \<open>\<^verbatim>\<open>fingerprint\<close>, for a workspace root that has been made canonical or absolute.\<close>

definition fingerprint :: "ustr \<Rightarrow> path \<Rightarrow> ustr \<Rightarrow> u64" where
  "fingerprint language workspace_root locale =
     (let sep = fnv1a [0x1e];
          h = sep (fnv1a (str_bytes language) FNV_OFFSET);
          h = sep (fnv1a (str_bytes workspace_root) h);
          h = sep (fnv1a (str_bytes locale) h) in
      fnv1a (le_bytes 4 CACHE_VERSION) h)"

record source_meta =
  sm_content_hash :: u64
  sm_inline_ignored :: "(nat \<times> ustr set) list"

definition SourceMeta_new :: "ustr \<Rightarrow> (nat \<times> ustr set) list \<Rightarrow> source_meta" where
  "SourceMeta_new text ignored = \<lparr>sm_content_hash = content_hash text, sm_inline_ignored = ignored\<rparr>"

definition cached_source_from :: "source_meta \<Rightarrow> cached_source" where
  "cached_source_from meta =
     \<lparr>cs_content_hash = sm_content_hash meta,
      cs_inline_ignored = sort_key fst
        (map (\<lambda>(line, codes). (line, sorted_list_of_set codes)) (sm_inline_ignored meta))\<rparr>"

definition source_meta_from :: "cached_source \<Rightarrow> source_meta" where
  "source_meta_from cached =
     \<lparr>sm_content_hash = cs_content_hash cached,
      sm_inline_ignored = fold (\<lambda>(line, codes). AList.update line (set codes)) (cs_inline_ignored cached) []\<rparr>"

record source_cache_key =
  sk_hash :: u64

text \<open>\<^verbatim>\<open>std::path::absolute\<close> and the lossy conversion to a string are the argument \<open>absolute\<close>.\<close>

definition source_cache_key_from_metadata :: "(path \<Rightarrow> ustr) \<Rightarrow> path \<Rightarrow> metadata \<Rightarrow> source_cache_key" where
  "source_cache_key_from_metadata absolute p m =
     (let hash = fnv1a (str_bytes (absolute p)) FNV_OFFSET;
          hash = fnv1a [0x1e] hash;
          hash = fnv1a (le_bytes 8 (md_len m)) hash;
          hash = (case md_modified m of
             Some (secs, nanos) \<Rightarrow> fnv1a (le_bytes 4 nanos) (fnv1a (le_bytes 8 secs) hash)
           | None \<Rightarrow> fnv1a (replicate 12 0) hash);
          hash = fnv1a (le_bytes 8 (md_dev m)) hash;
          hash = fnv1a (le_bytes 8 (md_ino m)) hash;
          hash = fnv1a (le_bytes 8 (md_ctime m)) hash;
          hash = fnv1a (le_bytes 8 (md_ctime_nsec m)) hash in
      \<lparr>sk_hash = hash\<rparr>)"

definition fetch_source_key :: "(path \<Rightarrow> ustr) \<Rightarrow> path \<Rightarrow> fs \<Rightarrow> source_cache_key option \<times> fs" where
  "fetch_source_key absolute p s =
     (case fs_metadata p s of (m, s) \<Rightarrow> (map_option (source_cache_key_from_metadata absolute p) m, s))"

section \<open>Entries\<close>

definition path_join :: "path \<Rightarrow> ustr \<Rightarrow> path" where
  "path_join dir name = dir @ asc CHR ''/'' # name"

definition workspace_cache_dir :: "path \<Rightarrow> u64 \<Rightarrow> path" where
  "workspace_cache_dir cache_dir fp = path_join (path_join cache_dir (str ''parse-cache'')) (hex16 fp)"

definition file_cache_path :: "path \<Rightarrow> u64 \<Rightarrow> path" where
  "file_cache_path dir hash = path_join dir (hex16 hash @ str ''.cwb'')"

definition error_cache_path :: "path \<Rightarrow> u64 \<Rightarrow> path" where
  "error_cache_path dir hash = path_join dir (hex16 hash @ str ''.cwe'')"

text \<open>
  Loading an entry: \<open>None\<close> outside is a panic of the conversion, inside it is a cache miss.  The table is
  returned with what was interned.
\<close>

definition load_hash ::
  "text_env \<Rightarrow> 'r codec \<Rightarrow> path \<Rightarrow> u64 \<Rightarrow> u64 \<Rightarrow> handle \<Rightarrow> bool \<Rightarrow> fs \<Rightarrow> string_table
   \<Rightarrow> ((parsed_file \<times> source_meta option) option \<times> fs \<times> string_table) option" where
  "load_hash E C cache_dir fp hash h load_errors s T =
     (let dir = workspace_cache_dir cache_dir fp in
      case with_archived_file C (file_cache_path dir hash)
          (\<lambda>archived. archived_to_arena E h archived T :: (('r cache_error + _) \<times> _) option) s of
        (Inl error, s) \<Rightarrow> Some (None, s, T)
      | (Inr None, s) \<Rightarrow> None
      | (Inr (Some (Inl error, T)), s) \<Rightarrow> Some (None, s, T)
      | (Inr (Some (Inr (arena, roots), T)), s) \<Rightarrow>
          if load_errors then
            (case read_errors_from_file C (error_cache_path dir hash) s of
               (Inl error, s) \<Rightarrow> Some (None, s, T)
             | (Inr errors, s) \<Rightarrow>
                 Some (Some (ParsedFile_new arena roots (cached_errors_to_parse errors),
                             map_option source_meta_from (ce_source errors)), s, T))
          else Some (Some (ParsedFile_new arena roots [], None), s, T))"

definition store_hash ::
  "'r codec \<Rightarrow> path \<Rightarrow> u64 \<Rightarrow> u64 \<Rightarrow> parsed_file \<Rightarrow> source_meta option \<Rightarrow> string_table \<Rightarrow> fs \<Rightarrow> fs option" where
  "store_hash C cache_dir fp hash parsed source T s =
     (let dir = workspace_cache_dir cache_dir fp; p = file_cache_path dir hash in
      map_option (\<lambda>cached.
        case serialize_to_file C cached p s of
          (Inl error, s) \<Rightarrow> s
        | (Inr _, s) \<Rightarrow>
            (let error_path = error_cache_path dir hash;
                 errors = errors_to_cached (pf_errors parsed) (map_option cached_source_from source) in
             case serialize_errors_to_file C errors error_path s of
               (Inl error, s) \<Rightarrow> snd (fs_remove_file error_path (snd (fs_remove_file p s)))
             | (Inr _, s) \<Rightarrow> s))
        (arena_to_cached (pf_arena parsed) (root_children parsed) T))"

text \<open>\<^verbatim>\<open>load\<close>, \<^verbatim>\<open>load_for_index\<close> and \<^verbatim>\<open>store\<close>, by the hash of the text.\<close>

definition load_inner where
  "load_inner E C cache_dir fp text h load_errors s T =
     map_option (\<lambda>(r, s, T). (map_option fst r, s, T))
       (load_hash E C cache_dir fp (content_hash text) h load_errors s T)"

definition cache_load where
  "cache_load E C cache_dir fp text h s T = load_inner E C cache_dir fp text h True s T"

definition cache_load_for_index where
  "cache_load_for_index E C cache_dir fp text h s T = load_inner E C cache_dir fp text h False s T"

definition cache_store where
  "cache_store C cache_dir fp text parsed T s = store_hash C cache_dir fp (content_hash text) parsed None T s"

text \<open>Entries under the metadata of their source.\<close>

definition load_keyed where
  "load_keyed E C absolute cache_dir fp source_path key h load_errors s T =
     (case load_hash E C cache_dir fp (sk_hash key) h load_errors s T of
        None \<Rightarrow> None
      | Some (None, s, T) \<Rightarrow> Some (None, s, T)
      | Some (Some loaded, s, T) \<Rightarrow>
          (case fetch_source_key absolute source_path s of
             (now, s) \<Rightarrow> Some (if now = Some key then Some loaded else None, s, T)))"

definition load_path_inner where
  "load_path_inner E C absolute cache_dir fp source_path h load_errors s T =
     (case fetch_source_key absolute source_path s of
        (None, s) \<Rightarrow> Some (None, s, T)
      | (Some key, s) \<Rightarrow>
          map_option (\<lambda>(r, s, T). (map_option (\<lambda>(parsed, source). (parsed, key, source)) r, s, T))
            (load_keyed E C absolute cache_dir fp source_path key h load_errors s T))"

definition load_path_with_key where
  "load_path_with_key E C absolute cache_dir fp source_path key h s T =
     map_option (\<lambda>(r, s, T). (Option.bind r (\<lambda>(parsed, source). map_option (Pair parsed) source), s, T))
       (load_keyed E C absolute cache_dir fp source_path key h True s T)"

definition load_path where
  "load_path E C absolute cache_dir fp source_path h s T =
     map_option (\<lambda>(r, s, T).
         (Option.bind r (\<lambda>(parsed, key, source). map_option (\<lambda>m. (parsed, key, m)) source), s, T))
       (load_path_inner E C absolute cache_dir fp source_path h True s T)"

definition load_path_for_index where
  "load_path_for_index E C absolute cache_dir fp source_path h s T =
     map_option (\<lambda>(r, s, T). (map_option (\<lambda>(parsed, key, source). (parsed, key)) r, s, T))
       (load_path_inner E C absolute cache_dir fp source_path h False s T)"

definition store_path where
  "store_path C absolute cache_dir fp source_path source_key parsed source T s =
     (case fetch_source_key absolute source_path s of
        (now, s) \<Rightarrow>
          if now = Some source_key
          then store_hash C cache_dir fp (sk_hash source_key) parsed (Some source) T s
          else Some s)"

section \<open>Eviction\<close>

text \<open>
  An entry of the cache: its modification time, the bytes of its files, its path.  \<^verbatim>\<open>ratio\<close> is the
  rounded product with \<^verbatim>\<open>PRUNE_TARGET_RATIO\<close>, 0.8.
\<close>

type_synonym cache_entry = "nat \<times> nat \<times> path"

definition with_extension :: "path \<Rightarrow> ustr \<Rightarrow> path" where
  "with_extension p ext =
     (let name = rev (takeWhile (\<lambda>c. c \<noteq> asc CHR ''/'') (rev p));
          suffix = takeWhile (\<lambda>c. c \<noteq> asc CHR ''.'') (rev name) in
      if asc CHR ''.'' \<in> set (tl name) then take (length p - length suffix) p @ ext
      else p @ asc CHR ''.'' # ext)"

fun prune_loop ::
  "nat \<Rightarrow> nat \<Rightarrow> nat \<Rightarrow> nat \<Rightarrow> cache_entry list \<Rightarrow> fs \<Rightarrow> cache_entry list \<times> fs" where
  "prune_loop target_count target_bytes cur_count cur_bytes [] s = ([], s)"
| "prune_loop target_count target_bytes cur_count cur_bytes ((mtime, sz, p) # entries) s =
     (if cur_count \<le> target_count \<and> cur_bytes \<le> target_bytes
      then (let (kept, s) = prune_loop target_count target_bytes cur_count cur_bytes entries s in ((mtime, sz, p) # kept, s))
      else
        (case fs_remove_file p s of
           (Inl _, s) \<Rightarrow>
             (let (kept, s) = prune_loop target_count target_bytes cur_count cur_bytes entries s in ((mtime, sz, p) # kept, s))
         | (Inr _, s) \<Rightarrow>
             (let s = snd (fs_remove_file (with_extension p (str ''cwe'')) s) in
              prune_loop target_count target_bytes (cur_count - 1) (cur_bytes - sz) entries s)))"

definition saturating_total :: "cache_entry list \<Rightarrow> nat" where
  "saturating_total entries = foldl (\<lambda>total (_, sz, _). min (total + sz) (2 ^ 64 - 1)) 0 entries"

definition prune_entries :: "(nat \<Rightarrow> nat) \<Rightarrow> cache_entry list \<Rightarrow> nat \<Rightarrow> nat \<Rightarrow> fs \<Rightarrow> cache_entry list \<times> fs" where
  "prune_entries ratio entries max_entries max_bytes s =
     (let total_bytes = saturating_total entries in
      if length entries \<le> max_entries \<and> total_bytes \<le> max_bytes then (entries, s)
      else prune_loop (ratio max_entries) (ratio max_bytes) (length entries) total_bytes (sort_key fst entries) s)"

end
