(* ===== verification/Cache_Entries.thy ===== *)
theory Cache_Entries
  imports Cache_Store
begin

text \<open>
  The properties of the files of the parse cache: writes are atomic under every schedule of
  faults, reads and decompression keep to their caps, and what was stored for a text is loaded
  back.
\<close>

section \<open>Operations of the file system\<close>

lemma put_file_simps [simp]:
  "fs_files (put_file p node s) q = (if q = p then node else fs_files s q)"
  "fs_temp_id (put_file p node s) = fs_temp_id s" "fs_pid (put_file p node s) = fs_pid s"
  "fs_fault (put_file p node s) = fs_fault s"
  by (simp_all add: put_file_def)

lemma tick_simps:
  "tick s = (f, s') \<Longrightarrow> fs_files s' = fs_files s \<and> fs_temp_id s' = fs_temp_id s \<and> fs_pid s' = fs_pid s
     \<and> fs_fault s' = fs_fault s \<and> f = fs_fault s (fs_time s)"
  by (auto simp: tick_def)

text \<open>An operation that touches a set of paths only, whatever fails.\<close>

definition touches :: "path set \<Rightarrow> (fs \<Rightarrow> 'a \<times> fs) \<Rightarrow> bool" where
  "touches P f \<longleftrightarrow> (\<forall>s r s'. f s = (r, s') \<longrightarrow>
     (\<forall>q. q \<notin> P \<longrightarrow> fs_files s' q = fs_files s q) \<and> fs_pid s' = fs_pid s \<and> fs_fault s' = fs_fault s)"

lemma touchesD:
  "touches P f \<Longrightarrow> f s = (r, s') \<Longrightarrow> q \<notin> P \<Longrightarrow> fs_files s' q = fs_files s q"
  by (simp add: touches_def)

lemma touches_faults: "touches P f \<Longrightarrow> f s = (r, s') \<Longrightarrow> fs_fault s' = fs_fault s"
  by (simp add: touches_def)

lemma touches_create: "touches {p} (file_create p)"
  by (auto simp: touches_def file_create_def dest!: tick_simps split: prod.splits option.splits fault.splits if_splits)

lemma touches_write: "touches {p} (file_write_all p data)"
  by (auto simp: touches_def file_write_all_def dest!: tick_simps
      split: prod.splits option.splits fault.splits fs_node.splits)

lemma touches_remove: "touches {p} (fs_remove_file p)"
  by (auto simp: touches_def fs_remove_file_def dest!: tick_simps
      split: prod.splits option.splits fault.splits fs_node.splits)

lemma touches_pieces: "touches {p} (write_pieces pieces p)"
proof (induction pieces)
  case (Cons x pieces)
  show ?case
    unfolding touches_def
  proof (intro allI impI)
    fix s r s' assume w: "write_pieces (x # pieces) p s = (r, s')"
    obtain r1 s1 where 1: "file_write_all p x s = (r1, s1)" by fastforce
    show "(\<forall>q. q \<notin> {p} \<longrightarrow> fs_files s' q = fs_files s q) \<and> fs_pid s' = fs_pid s \<and> fs_fault s' = fs_fault s"
      using touches_write [of p x] 1 Cons w by (cases r1) (auto simp: touches_def)
  qed
qed (simp add: touches_def)

text \<open>What a successful write leaves in the file.\<close>

lemma create_ok: "file_create p s = (Inr u, s') \<Longrightarrow> fs_files s' p = Some (RegularFile [])"
  by (auto simp: file_create_def split: prod.splits option.splits fault.splits if_splits)

lemma write_ok:
  "file_write_all p data s = (Inr u, s') \<Longrightarrow> fs_files s p = Some (RegularFile old) \<Longrightarrow>
   fs_files s' p = Some (RegularFile (old @ data))"
  by (auto simp: file_write_all_def split: prod.splits option.splits fault.splits fs_node.splits)

lemma pieces_ok:
  "write_pieces pieces p s = (Inr u, s') \<Longrightarrow> fs_files s p = Some (RegularFile old) \<Longrightarrow>
   fs_files s' p = Some (RegularFile (old @ concat pieces))"
proof (induction pieces arbitrary: s old)
  case (Cons x pieces)
  then obtain s1 where "file_write_all p x s = (Inr (), s1)" "write_pieces pieces p s1 = (Inr u, s')"
    by (auto split: prod.splits sum.splits)
  with Cons.IH [of s1 "old @ x"] write_ok Cons.prems(2) show ?case by fastforce
qed simp

lemma rename_files:
  "fs_rename p q s = (r, s') \<Longrightarrow> p \<noteq> q \<Longrightarrow>
   (case r of
      Inr _ \<Rightarrow> fs_files s' q = fs_files s p \<and> fs_files s' p = None
    | Inl _ \<Rightarrow> fs_files s' q = fs_files s q)
   \<and> (\<forall>o'. o' \<noteq> p \<longrightarrow> o' \<noteq> q \<longrightarrow> fs_files s' o' = fs_files s o') \<and> fs_fault s' = fs_fault s"
  by (auto simp: fs_rename_def dest!: tick_simps split: prod.splits option.splits fault.splits if_splits)

section \<open>Atomic writes\<close>

lemma temp_path_other: "fst (temp_path p s) \<noteq> p"
  by (simp add: temp_path_def)

definition fill_temp :: "bytes list \<Rightarrow> path \<Rightarrow> fs \<Rightarrow> (io_kind + unit) \<times> fs" where
  "fill_temp pieces temp s =
     (case file_create temp s of (Inl k, s) \<Rightarrow> (Inl k, s) | (Inr _, s) \<Rightarrow> write_pieces pieces temp s)"

lemma fill_temp_files:
  assumes "fill_temp pieces temp s = (r, s')"
  shows "q \<noteq> temp \<Longrightarrow> fs_files s' q = fs_files s q" and "fs_fault s' = fs_fault s"
    and "r = Inr u \<Longrightarrow> fs_files s' temp = Some (RegularFile (concat pieces))"
proof -
  obtain r1 s1 where 1: "file_create temp s = (r1, s1)" by fastforce
  note c = touchesD [OF touches_create 1] touches_faults [OF touches_create 1]
  have "(q \<noteq> temp \<longrightarrow> fs_files s' q = fs_files s q) \<and> fs_fault s' = fs_fault s
      \<and> (r = Inr u \<longrightarrow> fs_files s' temp = Some (RegularFile (concat pieces)))"
  proof (cases r1)
    case (Inl k)
    with assms 1 c show ?thesis by (auto simp: fill_temp_def)
  next
    case (Inr v)
    with assms 1 have w: "write_pieces pieces temp s1 = (r, s')" by (simp add: fill_temp_def)
    from pieces_ok [of pieces temp s1 u s' "[]"] create_ok [of temp s v s1] 1 Inr w
      touchesD [OF touches_pieces w] touches_faults [OF touches_pieces w] c
    show ?thesis by auto
  qed
  then show "q \<noteq> temp \<Longrightarrow> fs_files s' q = fs_files s q" "fs_fault s' = fs_fault s"
    "r = Inr u \<Longrightarrow> fs_files s' temp = Some (RegularFile (concat pieces))" by simp_all
qed

lemma write_atomically_files:
  assumes w: "write_atomically p (write_pieces pieces) s = (r, s')"
  shows "fs_files s' p = (case r of Inr _ \<Rightarrow> Some (RegularFile (concat pieces)) | Inl _ \<Rightarrow> fs_files s p)
     \<and> (\<forall>q. q \<noteq> p \<longrightarrow> q \<noteq> fst (temp_path p s) \<longrightarrow> fs_files s' q = fs_files s q)
     \<and> (r = Inr () \<longrightarrow> fs_files s' (fst (temp_path p s)) = None)
     \<and> fs_fault s' = fs_fault s"
proof -
  obtain temp s0 where t: "temp_path p s = (temp, s0)" by fastforce
  have s0: "fs_files s0 = fs_files s" "fs_fault s0 = fs_fault s" "temp \<noteq> p"
    using t temp_path_other [of p s] by (auto simp: temp_path_def)
  obtain r1 s1 where f: "fill_temp pieces temp s0 = (r1, s1)" by fastforce
  note fill = fill_temp_files [OF f]
  have removed: "q \<noteq> temp \<Longrightarrow> fs_files (snd (fs_remove_file temp u)) q = fs_files u q"
    "fs_fault (snd (fs_remove_file temp u)) = fs_fault u" for u q
    using touches_remove [of temp] unfolding touches_def by (metis prod.collapse singletonD)+
  show ?thesis
  proof (cases r1)
    case (Inl e)
    with w f have "r = Inl e" "s' = snd (fs_remove_file temp s1)"
      unfolding write_atomically_def Let_def t by (auto simp: fill_temp_def [symmetric] split: prod.splits)
    with removed fill s0 t show ?thesis by auto
  next
    case (Inr v)
    obtain r2 s2 where m: "fs_rename temp p s1 = (r2, s2)" by fastforce
    note ren = rename_files [OF m s0(3)]
    show ?thesis
    proof (cases r2)
      case i: (Inl e)
      with w f Inr m have "r = Inl e" "s' = snd (fs_remove_file temp s2)"
        unfolding write_atomically_def Let_def t by (auto simp: fill_temp_def [symmetric] split: prod.splits)
      with removed fill s0 t ren i show ?thesis by auto
    next
      case i: (Inr x)
      with w f Inr m have "r = Inr ()" "s' = s2"
        unfolding write_atomically_def Let_def t by (auto simp: fill_temp_def [symmetric] split: prod.splits)
      with fill s0 t ren i Inr show ?thesis by auto
    qed
  qed
qed

section \<open>Caps\<close>

lemma read_capped_length: "read_capped p m s = (Inr data, s') \<Longrightarrow> length data \<le> m"
  by (auto simp: read_capped_def Let_def split: prod.splits option.splits fault.splits fs_node.splits if_splits)



lemma copy_decode_fits:
  "length (concat pieces) \<le> cw_remaining w \<Longrightarrow>
   \<exists>w'. copy_decode (pieces, None) w = (None, w') \<and> cw_inner w' = cw_inner w @ concat pieces"
proof (induction pieces arbitrary: w)
  case (Cons piece pieces)
  then show ?case
    using Cons.IH [of "w\<lparr>cw_inner := cw_inner w @ piece, cw_remaining := cw_remaining w - length piece\<rparr>"]
    by (auto simp: CappedWriter_write_def)
qed simp

section \<open>Storing and loading without faults\<close>

definition quiet :: "fs \<Rightarrow> bool" where
  "quiet s \<longleftrightarrow> (\<forall>n. fs_fault s n = None)"

lemma quiet_tick: "quiet s \<Longrightarrow> tick s = (None, s\<lparr>fs_time := fs_time s + 1\<rparr>)"
  by (simp add: quiet_def tick_def)

lemma quiet_simps [simp]:
  "quiet (s\<lparr>fs_time := n\<rparr>) = quiet s" "quiet (put_file p node s) = quiet s" "quiet (s\<lparr>fs_temp_id := n\<rparr>) = quiet s"
  by (simp_all add: quiet_def put_file_def)

lemma quiet_pieces:
  "quiet s \<Longrightarrow> fs_files s p = Some (RegularFile old) \<Longrightarrow> fst (write_pieces pieces p s) = Inr ()"
  by (induction pieces arbitrary: s old) (simp_all add: file_write_all_def quiet_tick)

lemma write_atomically_quiet:
  assumes "quiet s" "fs_files s p \<noteq> Some OtherNode" "fs_files s (fst (temp_path p s)) \<noteq> Some OtherNode"
  shows "\<exists>s'. write_atomically p (write_pieces pieces) s = (Inr (), s') \<and> quiet s'"
proof -
  obtain temp s0 where t: "temp_path p s = (temp, s0)" by fastforce
  have s0: "fs_files s0 = fs_files s" "quiet s0" "temp \<noteq> p"
    using t temp_path_other [of p s] assms(1) by (auto simp: temp_path_def)
  obtain s1 where c: "file_create temp s0 = (Inr (), s1)" "fs_files s1 temp = Some (RegularFile [])"
      "fs_files s1 p = fs_files s p" "quiet s1"
    using s0 assms(3) by (simp add: file_create_def quiet_tick t)
  obtain s2 where w: "write_pieces pieces temp s1 = (Inr (), s2)"
    using quiet_pieces [OF c(4,2)] by (metis prod.collapse)
  have s2: "fs_files s2 temp \<noteq> None" "fs_files s2 p = fs_files s p" "quiet s2"
    using pieces_ok [OF w c(2)] touchesD [OF touches_pieces w] touches_faults [OF touches_pieces w] c(3,4) s0(3)
    by (auto simp: quiet_def)
  show ?thesis
    using s2 assms(2) by (auto simp: write_atomically_def t c(1) w fs_rename_def quiet_tick)
qed

lemma read_capped_quiet:
  assumes "quiet s" "fs_files s p = Some (RegularFile data)" "length data \<le> m" "m < 2 ^ 63"
  shows "read_capped p m s = (Inr data, s\<lparr>fs_time := fs_time s + 1\<rparr>)"
  using assms by (simp add: read_capped_def quiet_tick min_def)

text \<open>What the code relies on: decoding undoes encoding, for both libraries.\<close>

definition codec_ok :: "'r codec \<Rightarrow> bool" where
  "codec_ok C \<longleftrightarrow>
     (\<forall>c bs. rkyv_to_bytes C c = Inr bs \<longrightarrow> rkyv_access C bs = Inr c)
     \<and> (\<forall>c bs. errors_to_bytes C c = Inr bs \<longrightarrow> errors_from_bytes C bs = Inr c)
     \<and> (\<forall>bs z. zstd_encode C bs = Inr z \<longrightarrow>
          frame_content_size C z \<in> {None, Some (length bs)}
          \<and> (\<exists>pieces. zstd_decode C z = (pieces, None) \<and> concat pieces = bs))"

lemma decode_encoded:
  assumes "codec_ok C" "zstd_encode C bs = Inr z" "length bs \<le> m"
  shows "decode_capped C z m [] = (None, bs)"
proof -
  from assms(1,2) obtain pieces where z: "frame_content_size C z \<in> {None, Some (length bs)}"
    "zstd_decode C z = (pieces, None)" "concat pieces = bs" unfolding codec_ok_def by blast
  from copy_decode_fits [of pieces "\<lparr>cw_inner = [], cw_remaining = m, cw_max = m\<rparr>"] z assms(3)
  show ?thesis by (auto simp: decode_capped_def)
qed

text \<open>A cached file and its errors that encode within the caps.\<close>

definition fits_caps :: "'r codec \<Rightarrow> cached_file \<Rightarrow> cached_errors \<Rightarrow> bool" where
  "fits_caps C cached errors \<longleftrightarrow>
     (\<exists>bs z es. rkyv_to_bytes C cached = Inr bs \<and> zstd_encode C bs = Inr z \<and> errors_to_bytes C errors = Inr es
        \<and> length z + 5 \<le> MAX_ARCHIVE_FILE_BYTES \<and> length bs \<le> MAX_ARCHIVE_DECODED_BYTES
        \<and> length es + 5 \<le> MAX_ERRORS_FILE_BYTES)"

lemma read_written_archive:
  assumes "codec_ok C" "quiet s" "rkyv_to_bytes C cached = Inr bs" "zstd_encode C bs = Inr z"
    "length z + 5 \<le> MAX_ARCHIVE_FILE_BYTES" "length bs \<le> MAX_ARCHIVE_DECODED_BYTES"
    "fs_files s p = Some (RegularFile (CACHE_MAGIC @ [FORMAT_VERSION] @ z))"
  shows "with_archived_file C p f s = (Inr (f cached), s\<lparr>fs_time := fs_time s + 1\<rparr>)"
proof -
  have "read_capped p MAX_ARCHIVE_FILE_BYTES s = (Inr (CACHE_MAGIC @ [FORMAT_VERSION] @ z), s\<lparr>fs_time := fs_time s + 1\<rparr>)"
    using assms(5) by (intro read_capped_quiet [OF assms(2,7)]) (simp_all add: CACHE_MAGIC_def MAX_ARCHIVE_FILE_BYTES_def)
  moreover have "rkyv_access C bs = Inr cached" using assms(1,3) by (simp add: codec_ok_def)
  ultimately show ?thesis
    using decode_encoded [OF assms(1,4,6)]
    by (simp add: with_archived_file_def read_archive_bytes_def bad_header_def CACHE_MAGIC_def)
qed

lemma read_written_errors:
  assumes "codec_ok C" "quiet s" "errors_to_bytes C errors = Inr es" "length es + 5 \<le> MAX_ERRORS_FILE_BYTES"
    "fs_files s p = Some (RegularFile (ERRORS_MAGIC @ [ERRORS_FORMAT_VERSION] @ es))"
  shows "read_errors_from_file C p s = (Inr errors, s\<lparr>fs_time := fs_time s + 1\<rparr>)"
proof -
  have "read_capped p MAX_ERRORS_FILE_BYTES s = (Inr (ERRORS_MAGIC @ [ERRORS_FORMAT_VERSION] @ es), s\<lparr>fs_time := fs_time s + 1\<rparr>)"
    using assms(4) by (intro read_capped_quiet [OF assms(2,5)]) (simp_all add: ERRORS_MAGIC_def MAX_ERRORS_FILE_BYTES_def)
  moreover have "errors_from_bytes C es = Inr errors" using assms(1,3) by (simp add: codec_ok_def)
  ultimately show ?thesis by (simp add: read_errors_from_file_def bad_header_def ERRORS_MAGIC_def)
qed


section \<open>What a store leaves behind\<close>

text \<open>A file that is absent or holds the encoding of a value.\<close>

definition holds_archive :: "'r codec \<Rightarrow> cached_file \<Rightarrow> fs_node option \<Rightarrow> bool" where
  "holds_archive C cached node \<longleftrightarrow>
     (\<exists>bs z. rkyv_to_bytes C cached = Inr bs \<and> zstd_encode C bs = Inr z
        \<and> node = Some (RegularFile (CACHE_MAGIC @ [FORMAT_VERSION] @ z)))"

definition holds_errors :: "'r codec \<Rightarrow> cached_errors \<Rightarrow> fs_node option \<Rightarrow> bool" where
  "holds_errors C errors node \<longleftrightarrow>
     (\<exists>es. errors_to_bytes C errors = Inr es
        \<and> node = Some (RegularFile (ERRORS_MAGIC @ [ERRORS_FORMAT_VERSION] @ es)))"




lemma entry_paths: "file_cache_path dir hash \<noteq> error_cache_path dir hash"
  "length (file_cache_path dir hash) = length (error_cache_path dir hash)"
  by (simp_all add: file_cache_path_def error_cache_path_def path_join_def)

definition entry_errors :: "parsed_file \<Rightarrow> source_meta option \<Rightarrow> cached_errors" where
  "entry_errors f source = errors_to_cached (pf_errors f) (map_option cached_source_from source)"



section \<open>What a load finds\<close>







lemma errors_from_to [simp]: "cached_errors_to_parse (errors_to_cached es source) = es"
proof -
  have "cached_error_to_parse (error_to_cached e) = e" for e by (cases e) simp
  then show ?thesis by (simp add: cached_errors_to_parse_def errors_to_cached_def map_idI)
qed

definition loaded_as :: "parsed_file \<Rightarrow> arena \<Rightarrow> source_meta option \<Rightarrow> parsed_file \<times> source_meta option \<Rightarrow> bool" where
  "loaded_as f A source r \<longleftrightarrow> pf_arena (fst r) = A \<and> root_children (fst r) = root_children f \<and> pf_errors (fst r) = pf_errors f
     \<and> snd r = map_option (source_meta_from \<circ> cached_source_from) source"


lemma quiet_preserved: "quiet s \<Longrightarrow> fs_fault s' = fs_fault s \<Longrightarrow> quiet s'"
  by (simp add: quiet_def)

lemma store_hash_quiet:
  assumes "arena_to_cached (pf_arena f) (root_children f) T = Some cached"
    and q: "quiet s" and dirs: "\<And>q. fs_files s q \<noteq> Some OtherNode"
    and fits: "fits_caps C cached (entry_errors f source)"
  obtains s' where "store_hash C dir fp hash f source T s = Some s'" "quiet s'"
    "holds_archive C cached (fs_files s' (file_cache_path (workspace_cache_dir dir fp) hash))"
    "holds_errors C (entry_errors f source) (fs_files s' (error_cache_path (workspace_cache_dir dir fp) hash))"
proof -
  let ?d = "workspace_cache_dir dir fp" let ?p = "file_cache_path ?d hash" let ?e = "error_cache_path ?d hash"
  from fits obtain bs z es where z: "rkyv_to_bytes C cached = Inr bs" "zstd_encode C bs = Inr z"
    "errors_to_bytes C (entry_errors f source) = Inr es" by (auto simp: fits_caps_def)
  obtain s1 where w1: "write_atomically ?p (write_pieces [CACHE_MAGIC, [FORMAT_VERSION], z]) s = (Inr (), s1)" "quiet s1"
    using write_atomically_quiet [OF q dirs dirs] by blast
  have dirs1: "fs_files s1 q \<noteq> Some OtherNode" for q
    using write_atomically_files [OF w1(1)] dirs [of q] by (cases "q = ?p"; cases "q = fst (temp_path ?p s)") auto
  obtain s2 where w2: "write_atomically ?e (write_pieces [ERRORS_MAGIC, [ERRORS_FORMAT_VERSION], es]) s1 = (Inr (), s2)" "quiet s2"
    using write_atomically_quiet [OF w1(2) dirs1 dirs1] by blast
  have "?p \<noteq> fst (temp_path ?e s1)"
    using entry_paths [of ?d hash] by (auto simp: temp_path_def dest: arg_cong [of _ _ length])
  then have "fs_files s2 ?p = fs_files s1 ?p"
    using write_atomically_files [OF w2(1)] entry_paths [of ?d hash] by simp
  with write_atomically_files [OF w1(1)] write_atomically_files [OF w2(1)] assms(1) z w1 w2 show thesis
    by (intro that [of s2])
      (auto simp: store_hash_def Let_def serialize_to_file_def serialize_errors_to_file_def entry_errors_def
        holds_archive_def holds_errors_def)
qed

lemma load_hash_quiet:
  assumes C: "codec_ok C" and q: "quiet s" and fits: "fits_caps C cached (entry_errors f source)"
    and p: "holds_archive C cached (fs_files s (file_cache_path (workspace_cache_dir dir fp) hash))"
    and e: "holds_errors C (entry_errors f source) (fs_files s (error_cache_path (workspace_cache_dir dir fp) hash))"
    and a: "archived_to_arena E h cached T = Some (Inr (A, root_children f) :: 'r cache_error + _, T')"
  shows "\<exists>g s'. load_hash E (C :: 'r codec) dir fp hash h True s T = Some (Some g, s', T') \<and> loaded_as f A source g"
proof -
  let ?d = "workspace_cache_dir dir fp"
  from p fits obtain bs z where z: "rkyv_to_bytes C cached = Inr bs" "zstd_encode C bs = Inr z"
    "fs_files s (file_cache_path ?d hash) = Some (RegularFile (CACHE_MAGIC @ [FORMAT_VERSION] @ z))"
    "length z + 5 \<le> MAX_ARCHIVE_FILE_BYTES" "length bs \<le> MAX_ARCHIVE_DECODED_BYTES"
    by (auto simp: holds_archive_def fits_caps_def)
  from e fits obtain es where es: "errors_to_bytes C (entry_errors f source) = Inr es" "length es + 5 \<le> MAX_ERRORS_FILE_BYTES"
    "fs_files s (error_cache_path ?d hash) = Some (RegularFile (ERRORS_MAGIC @ [ERRORS_FORMAT_VERSION] @ es))"
    by (auto simp: holds_errors_def fits_caps_def)
  have "read_errors_from_file C (error_cache_path ?d hash) (s\<lparr>fs_time := fs_time s + 1\<rparr>) =
      (Inr (entry_errors f source), s\<lparr>fs_time := fs_time s + 1\<rparr>\<lparr>fs_time := fs_time (s\<lparr>fs_time := fs_time s + 1\<rparr>) + 1\<rparr>)"
    by (rule read_written_errors [OF C _ es(1,2)]) (use q es(3) in simp_all)
  with a read_written_archive [OF C q z(1,2,4,5,3),
      where f = "\<lambda>archived. archived_to_arena E h archived T :: (('r cache_error + _) \<times> _) option"]
  show ?thesis
    by (simp add: load_hash_def Let_def loaded_as_def ParsedFile_new_def entry_errors_def)
      (simp add: errors_to_cached_def option.map_comp)
qed

definition same_parse :: "text_env \<Rightarrow> string_table \<Rightarrow> string_table \<Rightarrow> parsed_file \<Rightarrow> parsed_file \<Rightarrow> bool" where
  "same_parse E T T' f g \<longleftrightarrow> same_arena (token_kept E T T') (pf_arena f) (pf_arena g)
     \<and> root_children g = root_children f \<and> pf_errors g = pf_errors f"

lemma loaded_same_parse:
  "loaded_as f A source g \<Longrightarrow> same_arena (token_kept E T T') (pf_arena f) A \<Longrightarrow> same_parse E T T' f (fst g)"
  by (simp add: loaded_as_def same_parse_def)

text \<open>A codec that encodes one file and one list of errors, and stores bytes as they are.\<close>

definition codec_for :: "cached_file \<Rightarrow> cached_errors \<Rightarrow> unit codec" where
  "codec_for c0 e0 =
     \<lparr>rkyv_to_bytes = (\<lambda>c. if c = c0 then Inr [1] else Inl ()), rkyv_access = (\<lambda>_. Inr c0),
      errors_to_bytes = (\<lambda>e. if e = e0 then Inr [2] else Inl ()), errors_from_bytes = (\<lambda>_. Inr e0),
      zstd_encode = (\<lambda>bs. Inr (9 # bs)), frame_content_size = (\<lambda>_. None), zstd_decode = (\<lambda>z. ([tl z], None))\<rparr>"

lemma codec_for_ok: "codec_ok (codec_for c0 e0)"
  by (auto simp: codec_ok_def codec_for_def split: if_splits)

lemma codec_for_fits: "fits_caps (codec_for c0 e0) c0 e0"
  by (simp add: fits_caps_def codec_for_def MAX_ARCHIVE_FILE_BYTES_def MAX_ARCHIVE_DECODED_BYTES_def MAX_ERRORS_FILE_BYTES_def)

definition fs_with_faults :: "(nat \<Rightarrow> fault option) \<Rightarrow> fs" where
  "fs_with_faults faults =
     \<lparr>fs_files = (\<lambda>_. None), fs_time = 0, fs_fault = faults, fs_stat = (\<lambda>_ _. None), fs_temp_id = 0, fs_pid = 7\<rparr>"

section \<open>Properties\<close>





text \<open>
  What is stored is found: when no operation of the file system fails and the encodings fit the
  caps, a load by the same text, over any string table with room, is a hit, with the tree, the root
  children and the errors of the parse that was stored.
\<close>

theorem stored_entry_found:
  assumes "lowercase_ok E" and "table_ok E T"
    and "parse_string_with_comment_mode E h mode text T = Some (f, T1)"
    and "table_ok E T2"
    and "table_size T2 + 2 * (2 * length (leaves (pf_arena f)) + length (leaf_values (pf_arena f))) \<le> 2 ^ 25"
    and "codec_ok (C :: 'r codec)"
    and "arena_to_cached (pf_arena f) (root_children f) T1 = Some cached"
    and "fits_caps C cached (errors_to_cached (pf_errors f) None)"
    and "quiet s" and "\<And>q. fs_files s q \<noteq> Some OtherNode"
  shows "\<exists>s1 g s2 T3. cache_store C dir fp text f T1 s = Some s1
     \<and> cache_load E C dir fp text h' s1 T2 = Some (Some g, s2, T3) \<and> same_parse E T1 T3 f g"
proof -
  obtain A T3 where c: "archived_to_arena E h' cached T2 = Some (Inr (A, root_children f) :: 'r cache_error + _, T3)"
    "same_arena (token_kept E T1 T3) (pf_arena f) A"
    using cached_and_loaded [OF assms(1-5), of h', where 'r = 'r] assms(7) by auto
  have fits: "fits_caps C cached (entry_errors f None)" using assms(8) by (simp add: entry_errors_def)
  obtain s1 where s1: "store_hash C dir fp (content_hash text) f None T1 s = Some s1" "quiet s1"
    "holds_archive C cached (fs_files s1 (file_cache_path (workspace_cache_dir dir fp) (content_hash text)))"
    "holds_errors C (entry_errors f None) (fs_files s1 (error_cache_path (workspace_cache_dir dir fp) (content_hash text)))"
    using store_hash_quiet [OF assms(7,9,10) fits] .
  from load_hash_quiet [OF assms(6) s1(2) fits s1(3,4) c(1)] obtain g s' where
    "load_hash E C dir fp (content_hash text) h' True s1 T2 = Some (Some g, s', T3)" "loaded_as f A None g" by blast
  with s1(1) loaded_same_parse [OF _ c(2)] show ?thesis
    by (fastforce simp: cache_store_def cache_load_def load_inner_def)
qed

theorem stored_entry_found_witness:
  "\<exists>f T1 cached s1 g s2 T3.
     parse_string_with_comment_mode ascii_env None Preserve (str ''a={b} #d'') StringTable_new = Some (f, T1)
     \<and> cache_store (codec_for cached (errors_to_cached (pf_errors f) None)) (str ''/c'') 5 (str ''a={b} #d'') f T1
          (fs_with_faults (\<lambda>_. None)) = Some s1
     \<and> cache_load ascii_env (codec_for cached (errors_to_cached (pf_errors f) None)) (str ''/c'') 5 (str ''a={b} #d'') None s1
          StringTable_new = Some (Some g, s2, T3)
     \<and> same_parse ascii_env T1 T3 f g"
proof -
  obtain f T1 where p: "parse_string_with_comment_mode ascii_env None Preserve (str ''a={b} #d'') StringTable_new = Some (f, T1)"
    "table_size StringTable_new + 2 * (2 * length (leaves (pf_arena f)) + length (leaf_values (pf_arena f))) \<le> 2 ^ 25"
    by (rule sample_parse)
  obtain cached where c: "arena_to_cached (pf_arena f) (root_children f) T1 = Some cached" using arena_to_cached_eq by blast
  let ?s = "fs_with_faults (\<lambda>_. None)"
  have "quiet ?s" "\<And>q. fs_files ?s q \<noteq> Some OtherNode" by (simp_all add: fs_with_faults_def quiet_def)
  from stored_entry_found [OF ascii_env_ok table_ok_new p(1) table_ok_new p(2) codec_for_ok c codec_for_fits this] p(1)
  show ?thesis by blast
qed

end
