(* ===== verification/Suggest.thy ===== *)
theory Suggest
  imports Prelude
begin

text \<open>
  The did-you-mean suggestions of the validator, \<^verbatim>\<open>engine/crates/validation/src/rule_core/suggest.rs\<close>:
  the edit distance of two names, computed row by row with an early exit, and the choice among
  the names a block allows.  \<open>one_edit\<close> is a single insertion, deletion or replacement, and
  \<open>bounded_distance\<close> is shown to be the least number of such edits.
\<close>

section \<open>The code\<close>

definition MAX_DISTANCE :: nat where "MAX_DISTANCE = 2"
definition MIN_CANDIDATE_LEN :: nat where "MIN_CANDIDATE_LEN = 3"

text \<open>
  A cell of the row \<open>cur\<close> and the least cell so far, \<open>x\<close> being the character of the row.  The
  rows are as long as the second text and one more, so each index is in range.
\<close>

definition distance_cell :: "uchar \<Rightarrow> ustr \<Rightarrow> nat list \<Rightarrow> nat \<Rightarrow> nat list \<times> nat \<Rightarrow> nat list \<times> nat" where
  "distance_cell x b prev j = (\<lambda>(cur, row_min).
     let cost = of_bool (x \<noteq> b ! (j - 1));
         v = min (min (prev ! j + 1) (cur ! (j - 1) + 1)) (prev ! (j - 1) + cost)
     in (cur[j := v], min row_min v))"

fun distance_rows :: "nat \<Rightarrow> ustr \<Rightarrow> ustr \<Rightarrow> nat \<Rightarrow> nat list \<Rightarrow> nat list \<Rightarrow> nat option \<times> nat list \<times> nat list" where
  "distance_rows i [] b limit prev cur =
     (if prev ! length b \<le> limit then Some (prev ! length b) else None, prev, cur)"
| "distance_rows i (x # a) b limit prev cur =
     (let (cur, row_min) = fold (distance_cell x b prev) [1..<length b + 1] (cur[0 := i], i) in
      if row_min > limit then (None, prev, cur) else distance_rows (i + 1) a b limit cur prev)"

text \<open>\<^verbatim>\<open>Vec::resize(n, 0)\<close>, and \<^verbatim>\<open>bounded_distance\<close> with its two scratch rows as state.\<close>

definition resize_zero :: "nat \<Rightarrow> nat list \<Rightarrow> nat list" where
  "resize_zero n xs = take n xs @ replicate (n - length xs) 0"

definition bounded_distance ::
  "ustr \<Rightarrow> ustr \<Rightarrow> nat \<Rightarrow> nat list \<Rightarrow> nat list \<Rightarrow> nat option \<times> nat list \<times> nat list" where
  "bounded_distance a b limit prev cur =
     (let n = length a; m = length b in
      if n - m + (m - n) > limit then (None, prev, cur)
      else distance_rows 1 a b limit [0..<m + 1] (resize_zero (m + 1) cur))"

record suggest_state =
  sg_key :: ustr
  sg_prev :: "nat list"
  sg_cur :: "nat list"
  sg_best :: "(ustr \<times> nat) option"
  sg_tied :: bool

definition suggest_step :: "ustr \<Rightarrow> ustr \<Rightarrow> suggest_state \<Rightarrow> suggest_state" where
  "suggest_step key cand s =
     (let key_len = length key; cand_len = length cand in
      if cand_len < MIN_CANDIDATE_LEN \<or> key_len - cand_len + (cand_len - key_len) > MAX_DISTANCE then s
      else
        let s = (if sg_key s = [] then s\<lparr>sg_key := to_ascii_lowercase key\<rparr> else s);
            (r, prev, cur) = bounded_distance (sg_key s) (to_ascii_lowercase cand) MAX_DISTANCE (sg_prev s) (sg_cur s);
            s = s\<lparr>sg_prev := prev, sg_cur := cur\<rparr>
        in case r of
             None \<Rightarrow> s
           | Some d \<Rightarrow>
               (case sg_best s of
                  Some (bstr, bd) \<Rightarrow>
                    if d < bd then s\<lparr>sg_best := Some (cand, d), sg_tied := False\<rparr>
                    else if d = bd \<and> \<not> eq_ignore_ascii_case cand bstr then s\<lparr>sg_tied := True\<rparr>
                    else s
                | None \<Rightarrow> s\<lparr>sg_best := Some (cand, d)\<rparr>))"

definition best_suggestion :: "ustr \<Rightarrow> ustr list \<Rightarrow> ustr option" where
  "best_suggestion key candidates =
     (let s = fold (suggest_step key) candidates
                \<lparr>sg_key = [], sg_prev = [], sg_cur = [], sg_best = None, sg_tied = False\<rparr>
      in case sg_best s of Some (cand, _) \<Rightarrow> if \<not> sg_tied s then Some cand else None | None \<Rightarrow> None)"

section \<open>Edits\<close>

inductive one_edit :: "'a list \<Rightarrow> 'a list \<Rightarrow> bool" where
  edit_insert: "one_edit (p @ s) (p @ x # s)"
| edit_delete: "one_edit (p @ x # s) (p @ s)"
| edit_replace: "one_edit (p @ x # s) (p @ y # s)"

fun lev :: "'a list \<Rightarrow> 'a list \<Rightarrow> nat" where
  "lev [] ys = length ys"
| "lev xs [] = length xs"
| "lev (x # xs) (y # ys) =
     min (min (lev xs (y # ys) + 1) (lev (x # xs) ys + 1)) (lev xs ys + of_bool (x \<noteq> y))"

lemma lev_Nil2 [simp]: "lev xs [] = length xs"
  by (cases xs) auto

lemma lev_same [simp]: "lev xs xs = 0"
  by (induction xs) auto

lemma lev_Cons1: "lev (x # xs) ys \<le> Suc (lev xs ys)"
  by (cases ys) auto

lemma lev_Cons2: "lev xs (y # ys) \<le> Suc (lev xs ys)"
  by (cases xs) auto

lemma lev_drop: "lev xs ys \<le> Suc (lev (x # xs) ys)"
proof (induction ys)
  case (Cons y ys)
  then show ?case using lev_Cons2 [of xs y ys] by auto
qed simp

lemma lev_replace: "lev (x # xs) ys \<le> Suc (lev (z # xs) ys)"
  by (induction ys) (auto simp: min_def)

lemma lev_under_Cons:
  assumes "\<And>ys. lev xs ys \<le> Suc (lev zs ys)" shows "lev (q # xs) ys \<le> Suc (lev (q # zs) ys)"
proof (induction ys)
  case Nil
  then show ?case using assms [of "[]"] by simp
next
  case (Cons y ys)
  then show ?case using assms [of "y # ys"] assms [of ys] by auto
qed

lemma lev_one_edit: "one_edit a b \<Longrightarrow> lev a c \<le> Suc (lev b c)"
proof (induction rule: one_edit.induct)
  case (edit_insert p s x)
  show ?case by (induction p arbitrary: c) (auto intro: lev_drop lev_under_Cons)
next
  case (edit_delete p x s)
  show ?case by (induction p arbitrary: c) (auto intro: lev_Cons1 lev_under_Cons)
next
  case (edit_replace p x s y)
  show ?case by (induction p arbitrary: c) (auto intro: lev_replace lev_under_Cons)
qed

lemma lev_edits: "(one_edit ^^ k) a b \<Longrightarrow> lev a b \<le> k"
proof (induction k arbitrary: a)
  case (Suc k)
  then obtain a' where "one_edit a a'" "(one_edit ^^ k) a' b" by (blast elim: relpowp_Suc_E2)
  with Suc.IH lev_one_edit [of a a' b] show ?case by force
qed simp

lemma one_edit_Cons: "one_edit a b \<Longrightarrow> one_edit (q # a) (q # b)"
  by (induction rule: one_edit.induct) (metis append_Cons one_edit.intros)+

lemma edits_Cons: "(one_edit ^^ k) a b \<Longrightarrow> (one_edit ^^ k) (q # a) (q # b)"
  by (induction k arbitrary: b) (auto intro: one_edit_Cons)

lemma edits_insert: "(one_edit ^^ k) a b \<Longrightarrow> (one_edit ^^ Suc k) a (y # b)"
  using edit_insert [of "[]" b y] by auto

lemma edits_delete: "(one_edit ^^ k) a b \<Longrightarrow> (one_edit ^^ Suc k) (x # a) b"
  using edit_delete [of "[]" x a] relpowp_Suc_I2 [of one_edit "x # a" a k b] by simp

lemma edits_replace: "(one_edit ^^ k) a b \<Longrightarrow> (one_edit ^^ (k + of_bool (x \<noteq> y))) (x # a) (y # b)"
  using edit_replace [of "[]" x a y] edits_Cons [of k a b y] relpowp_Suc_I2 [of one_edit "x # a" "y # a" k "y # b"]
  by auto

lemma edits_lev: "(one_edit ^^ lev a b) a b"
proof (induction a b rule: lev.induct)
  case (1 ys)
  show ?case by (induction ys) (auto simp del: relpowp.simps intro: edits_insert, simp)
next
  case (2 x xs)
  have "(one_edit ^^ length zs) zs []" for zs :: "'a list"
    by (induction zs) (auto simp del: relpowp.simps intro: edits_delete, simp)
  from this [of "x # xs"] show ?case by (simp del: relpowp.simps)
next
  case (3 x xs y ys)
  note edits = edits_delete [OF 3(1)] edits_insert [OF 3(2)] edits_replace [OF 3(3)]
  then show ?case by (simp add: min_def del: relpowp.simps)
qed

definition edit_distance :: "'a list \<Rightarrow> 'a list \<Rightarrow> nat" where
  "edit_distance a b = (LEAST k. (one_edit ^^ k) a b)"

lemma edit_distance_lev: "edit_distance a b = lev a b"
  unfolding edit_distance_def by (rule Least_equality) (auto intro: edits_lev lev_edits)

lemma one_edit_rev: "one_edit a b \<Longrightarrow> one_edit (rev a) (rev b)"
proof (induction rule: one_edit.induct)
  case (edit_insert p s x) then show ?case using one_edit.edit_insert [of "rev s" "rev p" x] by simp
next
  case (edit_delete p x s) then show ?case using one_edit.edit_delete [of "rev s" x "rev p"] by simp
next
  case (edit_replace p x s y) then show ?case using one_edit.edit_replace [of "rev s" x "rev p" y] by simp
qed

lemma edits_rev: "(one_edit ^^ k) a b \<Longrightarrow> (one_edit ^^ k) (rev a) (rev b)"
  by (induction k arbitrary: b) (auto intro: one_edit_rev)

lemma lev_rev: "lev (rev a) (rev b) = lev a b"
proof (rule antisym)
  show "lev (rev a) (rev b) \<le> lev a b" by (rule lev_edits, rule edits_rev, rule edits_lev)
  show "lev a b \<le> lev (rev a) (rev b)" using edits_rev [OF edits_lev, of "rev a" "rev b"] by (auto intro: lev_edits)
qed

lemma lev_length: "length a - length b + (length b - length a) \<le> lev a b"
  by (induction a b rule: lev.induct) auto

section \<open>The rows\<close>

text \<open>\<open>cell a b i j\<close> is the distance of the first \<open>i\<close> characters of \<open>a\<close> and the first \<open>j\<close> of \<open>b\<close>.\<close>

definition cell :: "'a list \<Rightarrow> 'a list \<Rightarrow> nat \<Rightarrow> nat \<Rightarrow> nat" where
  "cell a b i j = lev (rev (take i a)) (rev (take j b))"

lemma cell_0 [simp]: "j \<le> length b \<Longrightarrow> cell a b 0 j = j"
  by (simp add: cell_def)

lemma cell_column_0 [simp]: "i \<le> length a \<Longrightarrow> cell a b i 0 = i"
  by (simp add: cell_def)

lemma cell_Suc:
  assumes "i < length a" "j < length b"
  shows "cell a b (Suc i) (Suc j) =
    min (min (cell a b i (Suc j) + 1) (cell a b (Suc i) j + 1)) (cell a b i j + of_bool (a ! i \<noteq> b ! j))"
  using assms by (simp add: cell_def take_Suc_conv_app_nth)

lemma cell_all: "cell a b (length a) (length b) = lev a b"
  by (simp add: cell_def lev_rev)

definition is_row :: "'a list \<Rightarrow> 'a list \<Rightarrow> nat \<Rightarrow> nat list \<Rightarrow> bool" where
  "is_row a b i row \<longleftrightarrow> row = map (cell a b i) [0..<length b + 1]"

lemma is_row_nth: "is_row a b i row \<Longrightarrow> j \<le> length b \<Longrightarrow> row ! j = cell a b i j"
  by (auto simp: is_row_def simp del: upt_Suc)

lemma row_cells:
  assumes row: "is_row a b i prev" and i: "i < length a" and len: "length cur = length b + 1" and j: "j \<le> length b"
  shows "let (cur', row_min) = fold (distance_cell (a ! i) b prev) [1..<j + 1] (cur[0 := Suc i], Suc i) in
    length cur' = length b + 1 \<and> (\<forall>k \<le> j. cur' ! k = cell a b (Suc i) k) \<and>
    row_min = Min (cell a b (Suc i) ` {..j})"
  using j
proof (induction j)
  case 0
  then show ?case using i len by simp
next
  case (Suc j)
  obtain cur' row_min where step: "fold (distance_cell (a ! i) b prev) [1..<j + 1] (cur[0 := Suc i], Suc i) = (cur', row_min)"
    by fastforce
  with Suc have IH: "length cur' = length b + 1" "\<forall>k \<le> j. cur' ! k = cell a b (Suc i) k"
    "row_min = Min (cell a b (Suc i) ` {..j})" by auto
  have v: "min (min (prev ! Suc j + 1) (cur' ! j + 1)) (prev ! j + of_bool (a ! i \<noteq> b ! j)) = cell a b (Suc i) (Suc j)"
    using Suc.prems IH(2) is_row_nth [OF row] by (simp add: cell_Suc i)
  have "Min (cell a b (Suc i) ` {..Suc j}) = min row_min (cell a b (Suc i) (Suc j))"
    by (simp add: atMost_Suc IH(3) min.commute)
  moreover have "fold (distance_cell (a ! i) b prev) [1..<Suc j + 1] (cur[0 := Suc i], Suc i) =
      (cur'[Suc j := cell a b (Suc i) (Suc j)], min row_min (cell a b (Suc i) (Suc j)))"
    using step v by (simp add: distance_cell_def Let_def)
  moreover have "cur'[Suc j := cell a b (Suc i) (Suc j)] ! k = cell a b (Suc i) k" if "k \<le> Suc j" for k
    using that IH(1,2) Suc.prems by (cases "k = Suc j") auto
  ultimately show ?case using IH(1) by (simp del: upt_Suc)
qed

lemma next_row:
  assumes "is_row a b i prev" "i < length a" "length cur = length b + 1"
  shows "\<exists>cur'. fold (distance_cell (a ! i) b prev) [1..<length b + 1] (cur[0 := Suc i], Suc i) =
    (cur', Min (cell a b (Suc i) ` {..length b})) \<and> is_row a b (Suc i) cur'"
proof -
  obtain cur' row_min where step: "fold (distance_cell (a ! i) b prev) [1..<length b + 1] (cur[0 := Suc i], Suc i) = (cur', row_min)"
    by fastforce
  with row_cells [OF assms, of "length b"] have "length cur' = length b + 1" "\<forall>k \<le> length b. cur' ! k = cell a b (Suc i) k"
    "row_min = Min (cell a b (Suc i) ` {..length b})" by auto
  moreover from this have "is_row a b (Suc i) cur'" unfolding is_row_def by (intro nth_equalityI) (auto simp del: upt_Suc)
  ultimately show ?thesis using step by simp
qed

text \<open>No later cell is below the least cell of a row: the early exit is right.\<close>

lemma cell_lower_step:
  assumes low: "\<forall>j \<le> length b. r \<le> cell a b i j" and i: "i < length a"
  shows "j \<le> length b \<Longrightarrow> r \<le> cell a b (Suc i) j"
proof (induction j)
  case 0
  then show ?case using low [rule_format, of 0] i by simp
next
  case (Suc j)
  then show ?case using low [rule_format, of j] low [rule_format, of "Suc j"] by (simp add: cell_Suc i)
qed

lemma cell_lower:
  assumes "\<forall>j \<le> length b. r \<le> cell a b i j" "i \<le> k" "k \<le> length a"
  shows "\<forall>j \<le> length b. r \<le> cell a b k j"
  using assms(2,3)
proof (induction k)
  case 0
  then show ?case using assms(1) by simp
next
  case (Suc k)
  then show ?case using assms(1) cell_lower_step [of b r a k] by (cases "i = Suc k") auto
qed

lemma distance_rows_result:
  assumes "is_row a b i prev" "length cur = length b + 1" "i \<le> length a"
  shows "fst (distance_rows (Suc i) (drop i a) b limit prev cur) = (if lev a b \<le> limit then Some (lev a b) else None)"
  using assms
proof (induction "length a - i" arbitrary: i prev cur)
  case 0
  then show ?case using is_row_nth [of a b i prev "length b"] cell_all [of a b] by simp
next
  case (Suc n)
  then have i: "i < length a" by simp
  then have d: "drop i a = a ! i # drop (Suc i) a" by (simp add: Cons_nth_drop_Suc)
  obtain cur' where row: "fold (distance_cell (a ! i) b prev) [1..<length b + 1] (cur[0 := Suc i], Suc i) =
      (cur', Min (cell a b (Suc i) ` {..length b}))" and cur': "is_row a b (Suc i) cur'"
    using next_row [OF Suc.prems(1) i Suc.prems(2)] by blast
  let ?r = "Min (cell a b (Suc i) ` {..length b})"
  show ?case
  proof (cases "limit < ?r")
    case True
    have "\<forall>j \<le> length b. ?r \<le> cell a b (Suc i) j" by simp
    from cell_lower [OF this, of "length a"] i have "?r \<le> lev a b" by (metis Suc_leI cell_all order_refl)
    with True have "\<not> lev a b \<le> limit" by linarith
    with True row show ?thesis by (simp add: d del: upt_Suc Min_gr_iff)
  next
    case False
    have "fst (distance_rows (Suc (Suc i)) (drop (Suc i) a) b limit cur' prev) = (if lev a b \<le> limit then Some (lev a b) else None)"
    proof (rule Suc.hyps)
      show "n = length a - Suc i" using Suc.hyps(2) by simp
      show "length prev = length b + 1" using Suc.prems(1) by (simp add: is_row_def)
    qed (use cur' i in auto)
    moreover obtain r where r: "r = ?r" by simp
    ultimately show ?thesis using False row unfolding r [symmetric] by (simp add: d del: upt_Suc)
  qed
qed

lemma bounded_distance_lev:
  "fst (bounded_distance a b limit prev cur) = (if lev a b \<le> limit then Some (lev a b) else None)"
proof -
  have "is_row a b 0 [0..<length b + 1]" by (auto simp: is_row_def intro!: nth_equalityI simp del: upt_Suc)
  moreover have "length (resize_zero (length b + 1) cur) = length b + 1" by (auto simp: resize_zero_def)
  ultimately show ?thesis
    using distance_rows_result [of a b 0 "[0..<length b + 1]" "resize_zero (length b + 1) cur" limit]
      order_trans [OF lev_length, of a b limit]
    by (auto simp: bounded_distance_def Let_def simp del: upt_Suc)
qed

section \<open>The choice\<close>

text \<open>\<open>close_to key cand d\<close>: the candidate is long enough and \<open>d \<le> 2\<close> edits away, in any letter case.\<close>

definition close_to :: "ustr \<Rightarrow> ustr \<Rightarrow> nat \<Rightarrow> bool" where
  "close_to key cand d \<longleftrightarrow> MIN_CANDIDATE_LEN \<le> length cand \<and> d \<le> MAX_DISTANCE \<and>
     d = edit_distance (to_ascii_lowercase key) (to_ascii_lowercase cand)"

lemma suggest_step_cases:
  assumes key: "sg_key s = [] \<or> sg_key s = to_ascii_lowercase key"
  shows "sg_key (suggest_step key cand s) \<in> {[], to_ascii_lowercase key} \<and>
    (sg_best (suggest_step key cand s), sg_tied (suggest_step key cand s)) =
      (if \<exists>d. close_to key cand d then
         (let d = edit_distance (to_ascii_lowercase key) (to_ascii_lowercase cand) in
          case sg_best s of
            None \<Rightarrow> (Some (cand, d), sg_tied s)
          | Some (bstr, bd) \<Rightarrow>
              if d < bd then (Some (cand, d), False)
              else (Some (bstr, bd), sg_tied s \<or> d = bd \<and> \<not> eq_ignore_ascii_case cand bstr))
       else (sg_best s, sg_tied s))"
proof -
  let ?k = "to_ascii_lowercase key" and ?c = "to_ascii_lowercase cand"
  obtain r prev cur where b: "bounded_distance ?k ?c MAX_DISTANCE (sg_prev s) (sg_cur s) = (r, prev, cur)"
    by (cases "bounded_distance ?k ?c MAX_DISTANCE (sg_prev s) (sg_cur s)")
  with bounded_distance_lev [of ?k ?c MAX_DISTANCE "sg_prev s" "sg_cur s"]
  have r: "r = (if edit_distance ?k ?c \<le> MAX_DISTANCE then Some (edit_distance ?k ?c) else None)"
    by (simp add: edit_distance_lev)
  have near: "(\<exists>d. close_to key cand d) \<longleftrightarrow> MIN_CANDIDATE_LEN \<le> length cand \<and> edit_distance ?k ?c \<le> MAX_DISTANCE"
    by (auto simp: close_to_def)
  have len: "length key - length cand + (length cand - length key) \<le> edit_distance ?k ?c"
    using lev_length [of ?k ?c] by (simp add: edit_distance_lev)
  have k: "(if sg_key s = [] then s\<lparr>sg_key := ?k\<rparr> else s) = s\<lparr>sg_key := ?k\<rparr>" using key by auto
  show ?thesis
  proof (cases "length cand < MIN_CANDIDATE_LEN \<or> length key - length cand + (length cand - length key) > MAX_DISTANCE")
    case True
    then have "\<not> (\<exists>d. close_to key cand d)" using near len by auto
    then show ?thesis using key True by (auto simp: suggest_step_def)
  next
    case False
    then show ?thesis using near r b
      by (auto simp: suggest_step_def Let_def k split: option.split prod.split)
  qed
qed

text \<open>What the scan knows after some candidates: the first of the closest ones, and whether another is as close.\<close>

definition scan_ok :: "ustr \<Rightarrow> ustr list \<Rightarrow> (ustr \<times> nat) option \<Rightarrow> bool \<Rightarrow> bool" where
  "scan_ok key seen best tied \<longleftrightarrow>
     (case best of
        None \<Rightarrow> \<not> tied \<and> (\<forall>c \<in> set seen. \<forall>d. \<not> close_to key c d)
      | Some (c, d) \<Rightarrow> close_to key c d \<and>
          (\<exists>pre post. seen = pre @ c # post \<and> (\<forall>c' \<in> set pre. \<forall>d'. close_to key c' d' \<longrightarrow> d < d') \<and>
             (\<forall>c' \<in> set post. \<forall>d'. close_to key c' d' \<longrightarrow> d \<le> d') \<and>
             (tied \<longleftrightarrow> (\<exists>c' \<in> set post. close_to key c' d \<and> \<not> eq_ignore_ascii_case c' c))))"

lemma close_to_unique: "close_to key c d \<Longrightarrow> close_to key c d' \<Longrightarrow> d = d'"
  by (simp add: close_to_def)

lemma scan_ok_least:
  assumes "scan_ok key seen (Some (b, bd)) tied" "c \<in> set seen" "close_to key c d"
  shows "bd \<le> d"
proof -
  obtain pre post where "seen = pre @ b # post" "\<forall>c' \<in> set pre. \<forall>d'. close_to key c' d' \<longrightarrow> bd < d'"
    "\<forall>c' \<in> set post. \<forall>d'. close_to key c' d' \<longrightarrow> bd \<le> d'" "close_to key b bd"
    using assms(1) by (auto simp: scan_ok_def)
  note found = this
  from found(1) assms(2) consider "c = b" | "c \<in> set pre" | "c \<in> set post" by auto
  then show ?thesis
  proof cases
    case 1
    then show ?thesis using found(4) assms(3) close_to_unique by blast
  qed (use found assms(3) in \<open>auto intro: less_imp_le\<close>)
qed

lemma scan_ok_better:
  assumes "scan_ok key seen best tied" "close_to key cand d" "\<forall>bstr bd. best = Some (bstr, bd) \<longrightarrow> d < bd"
  shows "scan_ok key (seen @ [cand]) (Some (cand, d)) False"
proof -
  have "d < d'" if "c' \<in> set seen" "close_to key c' d'" for c' d'
  proof (cases best)
    case None
    with assms(1) that show ?thesis by (auto simp: scan_ok_def)
  next
    case (Some p)
    then obtain b bd where "best = Some (b, bd)" by (cases p) auto
    with assms(1,3) that scan_ok_least [of key seen b bd tied c' d'] show ?thesis by fastforce
  qed
  then have "seen @ [cand] = seen @ cand # [] \<and> (\<forall>c' \<in> set seen. \<forall>d'. close_to key c' d' \<longrightarrow> d < d')" by blast
  then show ?thesis using assms(2) by (auto simp: scan_ok_def intro: exI [of _ seen] exI [of _ "[]"])
qed

lemma scan_ok_keep:
  assumes "scan_ok key seen (Some (b, bd)) tied" "\<forall>d. close_to key cand d \<longrightarrow> bd \<le> d"
  shows "scan_ok key (seen @ [cand]) (Some (b, bd)) (tied \<or> close_to key cand bd \<and> \<not> eq_ignore_ascii_case cand b)"
proof -
  obtain pre post where "seen = pre @ b # post" "\<forall>c' \<in> set pre. \<forall>d'. close_to key c' d' \<longrightarrow> bd < d'"
    "\<forall>c' \<in> set post. \<forall>d'. close_to key c' d' \<longrightarrow> bd \<le> d'"
    "tied \<longleftrightarrow> (\<exists>c' \<in> set post. close_to key c' bd \<and> \<not> eq_ignore_ascii_case c' b)" "close_to key b bd"
    using assms(1) by (auto simp: scan_ok_def)
  then have "close_to key b bd \<and> seen @ [cand] = pre @ b # (post @ [cand]) \<and>
      (\<forall>c' \<in> set pre. \<forall>d'. close_to key c' d' \<longrightarrow> bd < d') \<and>
      (\<forall>c' \<in> set (post @ [cand]). \<forall>d'. close_to key c' d' \<longrightarrow> bd \<le> d') \<and>
      ((tied \<or> close_to key cand bd \<and> \<not> eq_ignore_ascii_case cand b) \<longleftrightarrow>
        (\<exists>c' \<in> set (post @ [cand]). close_to key c' bd \<and> \<not> eq_ignore_ascii_case c' b))"
    using assms(2) by auto
  then show ?thesis unfolding scan_ok_def by (simp only: option.case prod.case) blast
qed

lemma scan_ok_skip: "scan_ok key seen None tied \<Longrightarrow> \<forall>d. \<not> close_to key cand d \<Longrightarrow> scan_ok key (seen @ [cand]) None tied"
  by (auto simp: scan_ok_def)

lemma suggest_scan:
  "let s = fold (suggest_step key) cands \<lparr>sg_key = [], sg_prev = [], sg_cur = [], sg_best = None, sg_tied = False\<rparr>
   in (sg_key s = [] \<or> sg_key s = to_ascii_lowercase key) \<and> scan_ok key cands (sg_best s) (sg_tied s)"
proof (induction cands rule: rev_induct)
  case Nil
  then show ?case by (simp add: scan_ok_def)
next
  case (snoc cand cands)
  define s where "s = fold (suggest_step key) cands \<lparr>sg_key = [], sg_prev = [], sg_cur = [], sg_best = None, sg_tied = False\<rparr>"
  define d where "d = edit_distance (to_ascii_lowercase key) (to_ascii_lowercase cand)"
  from snoc have key: "sg_key s = [] \<or> sg_key s = to_ascii_lowercase key" and ok: "scan_ok key cands (sg_best s) (sg_tied s)"
    by (simp_all add: s_def Let_def)
  have only: "close_to key cand d' \<Longrightarrow> d' = d" for d' by (simp add: close_to_def d_def)
  note step = suggest_step_cases [OF key, of cand, folded d_def]
  have "scan_ok key (cands @ [cand]) (sg_best (suggest_step key cand s)) (sg_tied (suggest_step key cand s))"
  proof (cases "close_to key cand d")
    case False
    then have far: "\<not> close_to key cand d'" for d' using only by blast
    with step have "sg_best (suggest_step key cand s) = sg_best s" "sg_tied (suggest_step key cand s) = sg_tied s" by auto
    with far ok show ?thesis
      using scan_ok_skip [of key cands "sg_tied s" cand] scan_ok_keep [of key cands _ _ "sg_tied s" cand]
      by (cases "sg_best s") auto
  next
    case near: True
    then have ex: "\<exists>d. close_to key cand d" by blast
    note step = step [THEN conjunct2, unfolded if_P [OF ex] Let_def]
    show ?thesis
    proof (cases "sg_best s")
      case None
      with near step ok have "sg_best (suggest_step key cand s) = Some (cand, d)" "\<not> sg_tied (suggest_step key cand s)"
        by (auto simp: Let_def scan_ok_def)
      with scan_ok_better [OF ok near] None show ?thesis by auto
    next
      case (Some p)
      then obtain b bd where b: "sg_best s = Some (b, bd)" by (cases p) auto
      show ?thesis
      proof (cases "d < bd")
        case True
        with near step b have "sg_best (suggest_step key cand s) = Some (cand, d)" "\<not> sg_tied (suggest_step key cand s)"
          by (auto simp: Let_def)
        with scan_ok_better [OF ok near] b True show ?thesis by auto
      next
        case False
        with near step b have "sg_best (suggest_step key cand s) = Some (b, bd)"
          "sg_tied (suggest_step key cand s) \<longleftrightarrow> sg_tied s \<or> d = bd \<and> \<not> eq_ignore_ascii_case cand b"
          by (auto simp: Let_def)
        note new = this
        have same: "close_to key cand bd \<longleftrightarrow> d = bd" using near only by blast
        have "\<forall>d'. close_to key cand d' \<longrightarrow> bd \<le> d'"
        proof (intro allI impI)
          fix d' assume "close_to key cand d'"
          then show "bd \<le> d'" using only [of d'] False by simp
        qed
        with scan_ok_keep [of key cands b bd "sg_tied s" cand] ok [unfolded b]
        show ?thesis unfolding new same by blast
      qed
    qed
  qed
  with step show ?case by (simp add: s_def [symmetric] Let_def)
qed

section \<open>Properties\<close>

text \<open>
  C37.  \<^verbatim>\<open>bounded_distance\<close> gives the least number of single-character insertions, deletions and
  replacements that turn one text into the other when that is within the limit, and nothing
  otherwise, whatever the scratch rows held: the early exit on a row never loses a result.
\<close>

theorem bounded_distance_least:
  "fst (bounded_distance a b limit prev cur) = Some d \<longleftrightarrow>
     d \<le> limit \<and> (one_edit ^^ d) a b \<and> (\<forall>k. (one_edit ^^ k) a b \<longrightarrow> d \<le> k)"
proof -
  have "d = lev a b" if "(one_edit ^^ d) a b" "\<forall>k. (one_edit ^^ k) a b \<longrightarrow> d \<le> k"
    using that lev_edits [of d a b] edits_lev [of a b] by (simp add: antisym)
  then show ?thesis by (auto simp: bounded_distance_lev edits_lev lev_edits)
qed

lemma bounded_distance_least_witness:
  "fst (bounded_distance (str ''cont'') (str ''count'') 2 [7] []) = Some 1 \<and>
   (one_edit ^^ 1) (str ''cont'') (str ''count'')"
proof -
  have run: "fst (bounded_distance (str ''cont'') (str ''count'') 2 [7] []) = Some 1" by code_simp
  show ?thesis using run bounded_distance_least [of "str ''cont''" "str ''count''" 2 "[7]" "[]" 1] by simp
qed

text \<open>
   A name is suggested exactly when it is the first of the closest candidates (at least three
  characters long and at most two edits away, without regard to ASCII case) and every candidate
  as close spells the same name: a tie between different names suggests none.
\<close>

theorem best_suggestion_iff:
  "best_suggestion key cands = Some c \<longleftrightarrow>
     (\<exists>d pre post. cands = pre @ c # post \<and> close_to key c d \<and>
        (\<forall>c' \<in> set pre. \<forall>d'. close_to key c' d' \<longrightarrow> d < d') \<and>
        (\<forall>c' \<in> set post. \<forall>d'. close_to key c' d' \<longrightarrow> d < d' \<or> d = d' \<and> eq_ignore_ascii_case c' c))"
  (is "_ \<longleftrightarrow> ?chosen")
proof -
  define s where "s = fold (suggest_step key) cands \<lparr>sg_key = [], sg_prev = [], sg_cur = [], sg_best = None, sg_tied = False\<rparr>"
  have ok: "scan_ok key cands (sg_best s) (sg_tied s)" using suggest_scan [of key cands] by (simp add: s_def Let_def)
  have best: "best_suggestion key cands = Some c \<longleftrightarrow> (\<exists>d. sg_best s = Some (c, d)) \<and> \<not> sg_tied s"
    by (auto simp: best_suggestion_def s_def Let_def split: option.split)
  show ?thesis
  proof
    assume "best_suggestion key cands = Some c"
    with best obtain d where "sg_best s = Some (c, d)" "\<not> sg_tied s" by blast
    with ok show ?chosen by (fastforce simp: scan_ok_def le_less)
  next
    assume ?chosen
    then obtain d pre post where c: "cands = pre @ c # post" "close_to key c d"
      "\<forall>c' \<in> set pre. \<forall>d'. close_to key c' d' \<longrightarrow> d < d'"
      "\<forall>c' \<in> set post. \<forall>d'. close_to key c' d' \<longrightarrow> d < d' \<or> d = d' \<and> eq_ignore_ascii_case c' c" by blast
    then obtain b bd where b: "sg_best s = Some (b, bd)" using ok by (cases "sg_best s") (auto simp: scan_ok_def)
    with ok obtain pre' post' where b': "close_to key b bd" "cands = pre' @ b # post'"
      "\<forall>c' \<in> set pre'. \<forall>d'. close_to key c' d' \<longrightarrow> bd < d'"
      "\<forall>c' \<in> set post'. \<forall>d'. close_to key c' d' \<longrightarrow> bd \<le> d'"
      "sg_tied s \<longleftrightarrow> (\<exists>c' \<in> set post'. close_to key c' bd \<and> \<not> eq_ignore_ascii_case c' b)" by (auto simp: scan_ok_def)
    have "pre' @ b # post' = pre @ c # post" using b'(2) c(1) by simp
    then consider "pre' = pre" "b = c" "post' = post" | us where "pre = pre' @ b # us" | us where "pre' = pre @ c # us"
      by (auto simp: append_eq_append_conv2 Cons_eq_append_conv append_eq_Cons_conv)
    then show "best_suggestion key cands = Some c"
    proof cases
      case 1
      then have "d = bd" using b'(1) c(2) close_to_unique by blast
      with 1 b'(5) c(4) have "\<not> sg_tied s" by fastforce
      then show ?thesis using best b 1 by simp
    next
      case 2
      have "c \<in> set post'" using 2 b'(2) c(1) by auto
      with 2 b' c show ?thesis by fastforce
    next
      case 3
      with b' c have "bd < d" by auto
      moreover have "b \<in> set post" using 3 b'(2) c(1) by auto
      ultimately show ?thesis using c(4) b'(1) by fastforce
    qed
  qed
qed

lemma best_suggestion_iff_witness:
  "best_suggestion (str ''cont'') (map str [''name'', ''count'', ''COUNT'']) = Some (str ''count'') \<and>
   (\<exists>d. close_to (str ''cont'') (str ''count'') d)"
proof -
  have run: "best_suggestion (str ''cont'') (map str [''name'', ''count'', ''COUNT'']) = Some (str ''count'')" by code_simp
  show ?thesis
    using run best_suggestion_iff [of "str ''cont''" "map str [''name'', ''count'', ''COUNT'']" "str ''count''"] by blast
qed

end
