(* ===== verification/Path_Match.thy ===== *)
theory Path_Match
  imports Prelude
begin

text \<open>
  Which files the paths of a type cover, \<^verbatim>\<open>engine/crates/index/src/path_match.rs\<close>, with the options
  \<^verbatim>\<open>PathOptions\<close> and their normalisation from \<^verbatim>\<open>rules/src/rules_types.rs\<close> and the validator's own
  test of \<^verbatim>\<open>validation/src/resolve.rs\<close>.  Positions are counted in characters: a slash is one byte
  and never part of another character.  The segments of a path are \<open>split_char\<close> at its slashes.
\<close>

abbreviation slash :: uchar where "slash \<equiv> asc CHR ''/''"
abbreviation backslash :: uchar where "backslash \<equiv> 92"

text \<open>\<^verbatim>\<open>s.replace('\\', "/")\<close>.\<close>

definition forward_slashes :: "ustr \<Rightarrow> ustr" where
  "forward_slashes s = map (\<lambda>c. if c = backslash then slash else c) s"

record path_options =
  po_paths :: "ustr list"
  po_path_strict :: bool
  po_path_file :: "ustr option"
  po_path_extension :: "ustr option"
  po_paths_lower :: "ustr list"
  po_path_file_lower :: "ustr option"
  po_path_ext_lower :: "ustr option"

definition normalize_path_lower :: "ustr \<Rightarrow> ustr" where
  "normalize_path_lower p =
     (if backslash \<in> set p
      then to_ascii_lowercase (trim_matches (\<lambda>c. c = slash) (forward_slashes p))
      else to_ascii_lowercase (trim_matches (\<lambda>c. c = slash) p))"

definition normalize_path_options :: "path_options \<Rightarrow> path_options" where
  "normalize_path_options opts = opts\<lparr>
     po_paths_lower := map normalize_path_lower (po_paths opts),
     po_path_file_lower := map_option to_ascii_lowercase (po_path_file opts),
     po_path_ext_lower := map_option (\<lambda>s. let s = to_ascii_lowercase s in
       case strip_prefix (str ''.'') s of Some t \<Rightarrow> t | None \<Rightarrow> s) (po_path_extension opts)\<rparr>"

section \<open>Segments\<close>

text \<open>\<^verbatim>\<open>str::find\<close> of a string, as a character position.\<close>

fun find_str :: "ustr \<Rightarrow> ustr \<Rightarrow> nat option" where
  "find_str n [] = (if n = [] then Some 0 else None)"
| "find_str n (c # cs) = (if prefix n (c # cs) then Some 0 else map_option Suc (find_str n cs))"

lemma find_str_SomeD: "find_str n h = Some k \<Longrightarrow> k \<le> length h \<and> prefix n (drop k h) \<and> (\<forall>j < k. \<not> prefix n (drop j h))"
proof (induction h arbitrary: k)
  case (Cons c h)
  show ?case
  proof (cases "prefix n (c # h)")
    case False
    with Cons.prems obtain k' where k: "k = Suc k'" "find_str n h = Some k'" by auto
    with Cons.IH False show ?thesis by (auto simp: less_Suc_eq_0_disj)
  qed (use Cons.prems in simp)
qed (auto split: if_splits)

lemma find_str_NoneD: "find_str n h = None \<Longrightarrow> \<not> prefix n (drop j h)"
proof (induction h arbitrary: j)
  case (Cons c h)
  then show ?case by (cases j) (auto split: if_splits)
qed (auto split: if_splits)

text \<open>The loop of \<^verbatim>\<open>path_contains_segment\<close>, from the position \<open>start\<close>.\<close>

function segment_scan :: "ustr \<Rightarrow> ustr \<Rightarrow> nat \<Rightarrow> bool" where
  "segment_scan h n start =
     (case find_str n (drop start h) of
        None \<Rightarrow> False
      | Some pos \<Rightarrow>
          (let at = start + pos;
               left_ok = (at = 0 \<or> h ! (at - 1) = slash);
               right = at + length n;
               right_ok = (right = length h \<or> (right < length h \<and> h ! right = slash))
           in if left_ok \<and> right_ok then True
              else if at + 1 \<ge> length h then False
              else segment_scan h n (at + 1)))"
  by pat_completeness auto
termination by (relation "measure (\<lambda>(h, n, start). length h - start)") auto

declare segment_scan.simps [simp del]

definition path_contains_segment :: "ustr \<Rightarrow> ustr \<Rightarrow> bool" where
  "path_contains_segment haystack needle \<longleftrightarrow> (if needle = [] then True else segment_scan haystack needle 0)"

definition is_absolute_normalized :: "ustr \<Rightarrow> bool" where
  "is_absolute_normalized dir \<longleftrightarrow>
     prefix [slash] dir \<or>
     (case dir of a # b # c # _ \<Rightarrow> is_ascii_alphabetic a \<and> b = asc CHR '':'' \<and> c = slash | _ \<Rightarrow> False)"

definition dir_matches_pattern :: "ustr \<Rightarrow> ustr \<Rightarrow> bool \<Rightarrow> bool" where
  "dir_matches_pattern dir pat strict \<longleftrightarrow>
     (if strict then
        if dir = pat then True
        else if is_absolute_normalized dir
        then length dir > length pat \<and> suffix pat dir \<and> dir ! (length dir - length pat - 1) = slash
        else (case strip_prefix (str ''dlc/'') dir of
                None \<Rightarrow> False
              | Some rest \<Rightarrow>
                  (case split_once slash rest of
                     Some (i, tail) \<Rightarrow> i \<noteq> [] \<and> tail = pat
                   | None \<Rightarrow> False))
      else path_contains_segment dir pat)"

section \<open>Files\<close>

record normalized_path =
  np_dir_lower :: ustr
  np_basename_lower :: ustr

text \<open>\<^verbatim>\<open>rfind\<close> of a character, \<^verbatim>\<open>rsplit(c).next()\<close>.\<close>

definition rfind_char :: "uchar \<Rightarrow> ustr \<Rightarrow> nat option" where
  "rfind_char x s =
     (if x \<in> set s then Some (length s - 1 - length (takeWhile (\<lambda>c. c \<noteq> x) (rev s))) else None)"

definition last_piece :: "uchar \<Rightarrow> ustr \<Rightarrow> ustr" where
  "last_piece x s = last (split_char x s)"

definition NormalizedPath_new :: "ustr \<Rightarrow> normalized_path" where
  "NormalizedPath_new logical_path =
     (let norm = forward_slashes logical_path;
          dir = (case rfind_char slash norm of Some idx \<Rightarrow> take idx norm | None \<Rightarrow> [])
      in \<lparr>np_dir_lower = to_ascii_lowercase dir,
          np_basename_lower = to_ascii_lowercase (last_piece slash norm)\<rparr>)"

definition check_ext :: "ustr \<Rightarrow> ustr \<Rightarrow> bool" where
  "check_ext basename ext \<longleftrightarrow> (ext \<noteq> [] \<longrightarrow> last_piece (asc CHR ''.'') basename = ext)"

definition check_path_dir_norm :: "path_options \<Rightarrow> normalized_path \<Rightarrow> bool" where
  "check_path_dir_norm opts np =
     (let basename = np_basename_lower np; dir = np_dir_lower np;
          wrong_file = (case po_path_file_lower opts of
            Some pf \<Rightarrow> basename \<noteq> pf
          | None \<Rightarrow> (case po_path_file opts of Some pf \<Rightarrow> basename \<noteq> to_ascii_lowercase pf | None \<Rightarrow> False));
          wrong_ext = (case po_path_ext_lower opts of
            Some ext \<Rightarrow> \<not> check_ext basename ext
          | None \<Rightarrow> (case po_path_extension opts of
              Some ext \<Rightarrow>
                (let ext = to_ascii_lowercase ext;
                     ext = (case strip_prefix (str ''.'') ext of Some t \<Rightarrow> t | None \<Rightarrow> ext)
                 in \<not> check_ext basename ext)
            | None \<Rightarrow> False))
      in if wrong_file then False
         else if wrong_ext then False
         else if po_paths opts = [] then True
         else if po_paths_lower opts = []
         then list_ex (\<lambda>p. dir_matches_pattern dir
                (to_ascii_lowercase (trim_matches (\<lambda>c. c = slash) (forward_slashes p))) (po_path_strict opts)) (po_paths opts)
         else list_ex (\<lambda>pat. dir_matches_pattern dir pat (po_path_strict opts)) (po_paths_lower opts))"

definition check_path_dir :: "path_options \<Rightarrow> ustr \<Rightarrow> bool" where
  "check_path_dir opts logical_path = check_path_dir_norm opts (NormalizedPath_new logical_path)"

text \<open>
  The validator's test, one turn of the loop of \<^verbatim>\<open>path_candidates_for_file\<close>: the weight with which a
  file with this lower-case path is a candidate of a type with these options, if it is one.
\<close>

definition strip_suffix :: "ustr \<Rightarrow> ustr \<Rightarrow> ustr option" where
  "strip_suffix p s = map_option rev (strip_prefix (rev p) (rev s))"

definition trim_end_char :: "uchar \<Rightarrow> ustr \<Rightarrow> ustr" where
  "trim_end_char x s = rev (dropWhile (\<lambda>c. c = x) (rev s))"

definition candidate_dir :: "ustr \<Rightarrow> ustr" where
  "candidate_dir path = trim_end_char slash (case strip_suffix (last_piece slash path) path of Some d \<Rightarrow> d | None \<Rightarrow> path)"

definition pattern_weight :: "ustr \<Rightarrow> path_options \<Rightarrow> nat \<Rightarrow> nat" where
  "pattern_weight dir opts bonus =
     fold (\<lambda>p best. if dir_matches_pattern dir p (po_path_strict opts)
                    then (let w = blen p + bonus in if w > best then w else best) else best)
          (po_paths_lower opts) 0"

definition candidate_weight :: "ustr \<Rightarrow> path_options \<Rightarrow> nat option" where
  "candidate_weight file_path_lower opts =
     (let path = forward_slashes file_path_lower;
          basename = last_piece slash path;
          ext = last_piece (asc CHR ''.'') basename;
          bonus = (if po_path_file opts \<noteq> None then 1000 else 0);
          w = pattern_weight (candidate_dir path) opts bonus
      in if (case po_path_file_lower opts of Some pf \<Rightarrow> basename \<noteq> pf | None \<Rightarrow> False) then None
         else if (case po_path_ext_lower opts of Some req \<Rightarrow> ext \<noteq> req | None \<Rightarrow> False) then None
         else if w > 0 then Some w else None)"

section \<open>Lemmas\<close>

text \<open>An occurrence bounded by slashes or the ends of the text.\<close>

definition segment_at :: "ustr \<Rightarrow> ustr \<Rightarrow> nat \<Rightarrow> bool" where
  "segment_at h n k \<longleftrightarrow> k \<le> length h \<and> prefix n (drop k h) \<and> (k = 0 \<or> h ! (k - 1) = slash) \<and>
     (k + length n = length h \<or> (k + length n < length h \<and> h ! (k + length n) = slash))"

lemma segment_scan_iff: "n \<noteq> [] \<Longrightarrow> segment_scan h n start \<longleftrightarrow> (\<exists>k \<ge> start. segment_at h n k)"
proof (induction h n start rule: segment_scan.induct)
  case (1 h n start)
  show ?case
  proof (cases "find_str n (drop start h)")
    case None
    have "\<not> segment_at h n k" if "start \<le> k" for k
      using find_str_NoneD [OF None, of "k - start"] that by (simp add: segment_at_def)
    then show ?thesis by (subst segment_scan.simps) (auto simp: None)
  next
    case (Some pos)
    let ?at = "start + pos"
    from find_str_SomeD [OF Some] have found: "pos \<le> length (drop start h)" "prefix n (drop ?at h)"
      "\<And>j. j < pos \<Longrightarrow> \<not> prefix n (drop (start + j) h)"
      by (auto simp: add.commute)
    have at: "?at \<le> length h"
    proof (cases "start \<le> length h")
      case False
      with found(2) "1.prems" show ?thesis by simp
    qed (use found(1) in simp)
    let ?ok = "(?at = 0 \<or> h ! (?at - 1) = slash) \<and> (?at + length n = length h \<or> (?at + length n < length h \<and> h ! (?at + length n) = slash))"
    have here: "segment_at h n ?at \<longleftrightarrow> ?ok" using found(2) at by (simp add: segment_at_def)
    have first: "?at \<le> k" if "segment_at h n k" "start \<le> k" for k
    proof (rule ccontr)
      assume "\<not> ?at \<le> k"
      with that(2) found(3) [of "k - start"] have "\<not> prefix n (drop k h)" by simp
      with that(1) show False by (simp add: segment_at_def)
    qed
    show ?thesis
    proof (cases ?ok)
      case True
      then have "segment_at h n ?at" using here by blast
      moreover have "segment_scan h n start" using True by (subst segment_scan.simps) (simp add: Some Let_def)
      ultimately show ?thesis using le_add1 by blast
    next
      case False
      have beyond: "k > ?at" if "segment_at h n k" "start \<le> k" for k
        using first [OF that] here False that(1) le_neq_implies_less [of ?at k] by metis
      show ?thesis
      proof (cases "?at + 1 \<ge> length h")
        case True
        have "\<not> segment_at h n k" if "start \<le> k" for k
        proof
          assume s: "segment_at h n k"
          with beyond that have "?at + 1 \<le> k" by fastforce
          with s True "1.prems" show False by (simp add: segment_at_def)
        qed
        moreover have "segment_scan h n start \<longleftrightarrow> False"
          by (subst segment_scan.simps) (simp only: Some option.case Let_def if_not_P [OF False] if_P [OF True])
        ultimately show ?thesis by blast
      next
        case more: False
        have IH: "segment_scan h n (?at + 1) \<longleftrightarrow> (\<exists>k \<ge> ?at + 1. segment_at h n k)"
          using "1.IH" [OF Some refl refl refl refl False] more "1.prems" by simp
        have "segment_scan h n start \<longleftrightarrow> segment_scan h n (?at + 1)"
          by (subst segment_scan.simps) (simp only: Some option.case Let_def if_not_P [OF False] if_not_P [OF more])
        also have "\<dots> \<longleftrightarrow> (\<exists>k \<ge> start. segment_at h n k)"
          unfolding IH using beyond by (metis Suc_eq_plus1 Suc_leI le_add1 le_trans)
        finally show ?thesis .
      qed
    qed
  qed
qed

lemma segment_at_iff:
  "(\<exists>k. segment_at h n k) \<longleftrightarrow>
     (\<exists>pre post. h = pre @ n @ post \<and> (pre = [] \<or> last pre = slash) \<and> (post = [] \<or> hd post = slash))"
proof
  assume "\<exists>k. segment_at h n k"
  then obtain k post where k: "k \<le> length h" "drop k h = n @ post" "k = 0 \<or> h ! (k - 1) = slash"
    "k + length n = length h \<or> (k + length n < length h \<and> h ! (k + length n) = slash)"
    by (auto simp: segment_at_def prefix_def)
  have h: "h = take k h @ n @ post" using k(2) by (metis append_take_drop_id)
  have len: "length h = k + length n + length post" using k(1,2) by (metis add.assoc add_diff_inverse_nat length_append length_drop not_less)
  have "take k h = [] \<or> last (take k h) = slash"
    using k(1,3) by (cases k) (auto simp: take_Suc_conv_app_nth)
  moreover have "post = [] \<or> hd post = slash"
  proof (cases post)
    case (Cons c cs)
    have "h ! (k + length n) = (n @ post) ! length n"
      using k(1) by (simp flip: k(2))
    then show ?thesis using k(4) len Cons by simp
  qed simp
  ultimately show "\<exists>pre post. h = pre @ n @ post \<and> (pre = [] \<or> last pre = slash) \<and> (post = [] \<or> hd post = slash)"
    using h by blast
next
  assume "\<exists>pre post. h = pre @ n @ post \<and> (pre = [] \<or> last pre = slash) \<and> (post = [] \<or> hd post = slash)"
  then obtain pre post where h: "h = pre @ n @ post" "pre = [] \<or> last pre = slash" "post = [] \<or> hd post = slash" by blast
  then have "segment_at h n (length pre)"
    by (cases pre rule: rev_cases; cases post) (auto simp: segment_at_def nth_append)
  then show "\<exists>k. segment_at h n k" by blast
qed

abbreviation segments :: "ustr \<Rightarrow> ustr list" where "segments \<equiv> split_char slash"

lemma bounded_iff_segments:
  "(\<exists>pre post. h = pre @ n @ post \<and> (pre = [] \<or> last pre = slash) \<and> (post = [] \<or> hd post = slash)) \<longleftrightarrow>
   sublist (segments n) (segments h)"
proof
  assume "\<exists>pre post. h = pre @ n @ post \<and> (pre = [] \<or> last pre = slash) \<and> (post = [] \<or> hd post = slash)"
  then obtain pre post where h: "h = pre @ n @ post" "pre = [] \<or> last pre = slash" "post = [] \<or> hd post = slash" by blast
  have pre: "\<exists>A. segments (pre @ s) = A @ segments s" for s
    using h(2) by (cases pre rule: rev_cases) (auto simp: split_char_append)
  have post: "\<exists>B. segments (n @ post) = segments n @ B"
    using h(3) by (cases post) (auto simp: split_char_append)
  obtain A where "segments h = A @ segments (n @ post)" using pre [of "n @ post"] h(1) by auto
  with post show "sublist (segments n) (segments h)" by (auto simp: sublist_def)
next
  assume "sublist (segments n) (segments h)"
  then obtain A B where "segments h = A @ segments n @ B" by (auto simp: sublist_def)
  then have h: "h = join [slash] (A @ segments n @ B)" by (metis join_split_char)
  let ?pre = "if A = [] then [] else join [slash] A @ [slash]" and ?post = "if B = [] then [] else slash # join [slash] B"
  have "join [slash] (segments n @ B) = n @ ?post" using join_append [of "segments n" B "[slash]"] by simp
  then have "h = ?pre @ n @ ?post" using h join_append [of A "segments n @ B" "[slash]"] by simp
  moreover have "?pre = [] \<or> last ?pre = slash" "?post = [] \<or> hd ?post = slash" by simp_all
  ultimately show "\<exists>pre post. h = pre @ n @ post \<and> (pre = [] \<or> last pre = slash) \<and> (post = [] \<or> hd post = slash)"
    by blast
qed

lemma path_contains_segment_iff_aux: "path_contains_segment h n \<longleftrightarrow> n = [] \<or> sublist (segments n) (segments h)"
  unfolding path_contains_segment_def
  using segment_scan_iff [of n h 0] segment_at_iff [of h n] bounded_iff_segments [of h n] by auto

text \<open>A strict pattern: the directory itself, an absolute directory that ends in it, or \<^verbatim>\<open>dlc/<id>/<pattern>\<close>.\<close>

definition strictly_covers :: "ustr \<Rightarrow> ustr \<Rightarrow> bool" where
  "strictly_covers pat dir \<longleftrightarrow>
     dir = pat \<or>
     (if is_absolute_normalized dir then (\<exists>pre. dir = pre @ slash # pat)
      else (\<exists>i. i \<noteq> [] \<and> slash \<notin> set i \<and> dir = str ''dlc/'' @ i @ slash # pat))"

lemma suffix_after_slash:
  "(length dir > length pat \<and> suffix pat dir \<and> dir ! (length dir - length pat - 1) = slash) \<longleftrightarrow> (\<exists>pre. dir = pre @ slash # pat)"
proof
  assume "length dir > length pat \<and> suffix pat dir \<and> dir ! (length dir - length pat - 1) = slash"
  moreover from this obtain pre where "dir = pre @ pat" by (auto simp: suffix_def)
  moreover from calculation have "pre \<noteq> []" by auto
  ultimately have "dir = butlast pre @ slash # pat"
    by (cases pre rule: rev_cases) (auto simp: nth_append)
  then show "\<exists>pre. dir = pre @ slash # pat" by blast
qed (auto simp: suffix_def nth_append)

lemma dir_matches_pattern_iff:
  "dir_matches_pattern dir pat strict \<longleftrightarrow>
     (if strict then strictly_covers pat dir else pat = [] \<or> sublist (segments pat) (segments dir))"
proof (cases strict)
  case True
  have "(case strip_prefix (str ''dlc/'') dir of None \<Rightarrow> False
         | Some rest \<Rightarrow> (case split_once slash rest of Some (i, tail) \<Rightarrow> i \<noteq> [] \<and> tail = pat | None \<Rightarrow> False)) \<longleftrightarrow>
        (\<exists>i. i \<noteq> [] \<and> slash \<notin> set i \<and> dir = str ''dlc/'' @ i @ slash # pat)" (is "?code \<longleftrightarrow> ?spec")
  proof
    assume ?code
    then obtain rest i where r: "strip_prefix (str ''dlc/'') dir = Some rest" "split_once slash rest = Some (i, pat)" "i \<noteq> []"
      by (auto split: option.splits)
    from split_once_SomeD [OF r(2)] r(1,3) show ?spec by (auto simp only: strip_prefix_eq_Some)
  next
    assume ?spec
    then obtain i where i: "i \<noteq> []" "slash \<notin> set i" "dir = str ''dlc/'' @ i @ slash # pat" by blast
    then have "strip_prefix (str ''dlc/'') dir = Some (i @ slash # pat)" by (simp only: strip_prefix_eq_Some)
    with i split_once_append [OF i(2), of pat] show ?code by simp
  qed
  then show ?thesis
    using True suffix_after_slash [of pat dir]
    by (simp only: dir_matches_pattern_def strictly_covers_def if_True split: if_split) blast
qed (simp add: dir_matches_pattern_def path_contains_segment_iff_aux)

subsection \<open>The validator's test\<close>

lemma pattern_weight_pos:
  "0 < pattern_weight dir opts bonus \<longleftrightarrow>
     (\<exists>p \<in> set (po_paths_lower opts). dir_matches_pattern dir p (po_path_strict opts) \<and> 0 < blen p + bonus)"
proof -
  have "0 < fold (\<lambda>p best. if dir_matches_pattern dir p (po_path_strict opts)
                    then (let w = blen p + bonus in if w > best then w else best) else best) ps b \<longleftrightarrow>
      0 < b \<or> (\<exists>p \<in> set ps. dir_matches_pattern dir p (po_path_strict opts) \<and> 0 < blen p + bonus)" for ps b
    by (induction ps arbitrary: b) (auto simp: Let_def)
  from this [of "po_paths_lower opts" 0] show ?thesis by (simp add: pattern_weight_def)
qed

lemma last_piece_decomp:
  "(x \<notin> set s \<and> last_piece x s = s) \<or>
   (\<exists>a. s = a @ x # last_piece x s \<and> rfind_char x s = Some (length a) \<and> x \<notin> set (last_piece x s))"
proof (cases "x \<in> set s")
  case True
  then obtain a b where s: "s = a @ x # b" "x \<notin> set b" by (meson split_list_last)
  have "last_piece x s = b" by (simp add: last_piece_def s(1) split_char_append split_char_none [OF s(2)])
  moreover have "takeWhile (\<lambda>c. c \<noteq> x) (rev s) = rev b" using s by (simp add: takeWhile_append)
  ultimately show ?thesis using s by (auto simp: rfind_char_def)
qed (simp add: last_piece_def split_char_none)

lemma strip_suffix_append [simp]: "strip_suffix p (a @ p) = Some a"
proof -
  have "strip_prefix (rev p) (rev p @ rev a) = Some (rev a)" by (simp only: strip_prefix_eq_Some)
  then show ?thesis by (simp add: strip_suffix_def)
qed

lemma trim_end_char_append:
  "trim_end_char x (a @ [x]) = trim_end_char x a" "a = [] \<or> last a \<noteq> x \<Longrightarrow> trim_end_char x a = a"
  by (simp add: trim_end_char_def) (cases a rule: rev_cases, auto simp: trim_end_char_def)

lemma forward_slashes_id: "backslash \<notin> set s \<Longrightarrow> forward_slashes s = s"
  by (induction s) (auto simp: forward_slashes_def)

lemma forward_slashes_none [simp]: "backslash \<notin> set (forward_slashes s)"
  by (auto simp: forward_slashes_def)

text \<open>The directory of a path without an empty segment before its file name is the same for both.\<close>

definition plain_dir :: "ustr \<Rightarrow> bool" where
  "plain_dir path \<longleftrightarrow> (\<forall>a b. path = a @ slash # b \<longrightarrow> slash \<notin> set b \<longrightarrow> a = [] \<or> last a \<noteq> slash)"

lemma last_slash_unique:
  fixes x :: uchar
  assumes "x \<notin> set b" "x \<notin> set d" and e: "a @ x # b = c @ x # d" shows "a = c"
proof -
  from arg_cong [OF e, of rev] have "rev b @ x # rev a = rev d @ x # rev c" by simp
  moreover have "x \<notin> set (rev b)" "x \<notin> set (rev d)" using assms(1,2) by simp_all
  ultimately have "rev a = rev c" by (metis split_once_append option.inject prod.inject)
  then show ?thesis by simp
qed

lemma plain_dirI: "slash \<notin> set b \<Longrightarrow> a = [] \<or> last a \<noteq> slash \<Longrightarrow> plain_dir (a @ slash # b)"
  unfolding plain_dir_def using last_slash_unique by metis

lemma candidate_dir_eq:
  assumes "plain_dir path"
  shows "candidate_dir path = (case rfind_char slash path of Some idx \<Rightarrow> take idx path | None \<Rightarrow> [])"
proof (cases "slash \<in> set path")
  case False
  then have "rfind_char slash path = None" "last_piece slash path = path"
    by (simp_all add: rfind_char_def last_piece_def split_char_none)
  then show ?thesis using strip_suffix_append [of path "[]"] by (simp add: candidate_dir_def trim_end_char_def)
next
  case True
  with last_piece_decomp [of slash path] obtain a where
    a: "path = a @ slash # last_piece slash path" "rfind_char slash path = Some (length a)" "slash \<notin> set (last_piece slash path)"
    by blast
  have "candidate_dir path = trim_end_char slash (a @ [slash])"
    using strip_suffix_append [of "last_piece slash path" "a @ [slash]"] a(1) by (simp add: candidate_dir_def)
  also have "\<dots> = a" using assms a(1,3) unfolding trim_end_char_append(1) plain_dir_def by (blast intro: trim_end_char_append(2))
  finally show ?thesis using a(1,2) by (metis append_eq_conv_conj option.simps(5))
qed

lemma blen_pos [simp]: "0 < blen p \<longleftrightarrow> p \<noteq> []"
  using blen_eq_0_iff [of p] by linarith

section \<open>Properties\<close>

text \<open>The options as the configuration gives them, before \<^verbatim>\<open>reindex\<close> fills the lower-case fields.\<close>

definition raw_options :: "path_options \<Rightarrow> bool" where
  "raw_options opts \<longleftrightarrow> po_paths_lower opts = [] \<and> po_path_file_lower opts = None \<and> po_path_ext_lower opts = None"

definition pattern_of :: "ustr \<Rightarrow> ustr" where
  "pattern_of p = to_ascii_lowercase (trim_matches (\<lambda>c. c = slash) (forward_slashes p))"

definition extension_of :: "ustr \<Rightarrow> ustr" where
  "extension_of e = (case strip_prefix (str ''.'') (to_ascii_lowercase e) of Some t \<Rightarrow> t | None \<Rightarrow> to_ascii_lowercase e)"

lemma normalize_path_lower_eq: "normalize_path_lower p = pattern_of p"
  by (simp add: normalize_path_lower_def pattern_of_def forward_slashes_id)

lemma normalize_fields:
  "po_paths (normalize_path_options opts) = po_paths opts"
  "po_path_strict (normalize_path_options opts) = po_path_strict opts"
  "po_path_file (normalize_path_options opts) = po_path_file opts"
  "po_path_extension (normalize_path_options opts) = po_path_extension opts"
  "po_paths_lower (normalize_path_options opts) = map pattern_of (po_paths opts)"
  "po_path_file_lower (normalize_path_options opts) = map_option to_ascii_lowercase (po_path_file opts)"
  "po_path_ext_lower (normalize_path_options opts) = map_option extension_of (po_path_extension opts)"
  by (auto simp: normalize_path_options_def normalize_path_lower_eq fun_eq_iff extension_of_def Let_def
      intro!: option.map_cong)

definition covers :: "path_options \<Rightarrow> ustr \<Rightarrow> ustr \<Rightarrow> bool" where
  "covers opts dir basename \<longleftrightarrow>
     (case po_path_file opts of Some f \<Rightarrow> basename = to_ascii_lowercase f | None \<Rightarrow> True) \<and>
     (case po_path_extension opts of
        Some e \<Rightarrow> extension_of e = [] \<or> last (split_char (asc CHR ''.'') basename) = extension_of e | None \<Rightarrow> True) \<and>
     (po_paths opts = [] \<or>
      (\<exists>p \<in> set (po_paths opts).
         if po_path_strict opts then strictly_covers (pattern_of p) dir
         else pattern_of p = [] \<or> sublist (segments (pattern_of p)) (segments dir)))"

lemma check_path_dir_norm_iff:
  "check_path_dir_norm opts np \<longleftrightarrow>
     (case po_path_file_lower opts of Some pf \<Rightarrow> np_basename_lower np = pf
      | None \<Rightarrow> (case po_path_file opts of Some pf \<Rightarrow> np_basename_lower np = to_ascii_lowercase pf | None \<Rightarrow> True)) \<and>
     (case po_path_ext_lower opts of Some ext \<Rightarrow> check_ext (np_basename_lower np) ext
      | None \<Rightarrow> (case po_path_extension opts of Some ext \<Rightarrow> check_ext (np_basename_lower np) (extension_of ext) | None \<Rightarrow> True)) \<and>
     (po_paths opts = [] \<or>
      (\<exists>p \<in> set (if po_paths_lower opts = [] then map pattern_of (po_paths opts) else po_paths_lower opts).
         dir_matches_pattern (np_dir_lower np) p (po_path_strict opts)))"
  unfolding check_path_dir_norm_def Let_def extension_of_def pattern_of_def
  by (cases "po_path_file_lower opts"; cases "po_path_file opts"; cases "po_path_ext_lower opts"; cases "po_path_extension opts")
    (simp_all add: list_ex_iff)

lemma check_ext_iff: "check_ext b e \<longleftrightarrow> e = [] \<or> last (split_char (asc CHR ''.'') b) = e"
  by (auto simp: check_ext_def last_piece_def)

lemma check_covers:
  assumes "raw_options opts" and "opts' = opts \<or> opts' = normalize_path_options opts"
  shows "check_path_dir_norm opts' np \<longleftrightarrow> covers opts (np_dir_lower np) (np_basename_lower np)"
  using assms(2)
proof
  assume [simp]: "opts' = opts"
  show ?thesis using assms(1)
    by (cases "po_path_extension opts")
      (simp_all add: check_path_dir_norm_iff covers_def raw_options_def check_ext_iff dir_matches_pattern_iff)
next
  assume [simp]: "opts' = normalize_path_options opts"
  show ?thesis
    by (simp add: check_path_dir_norm_iff covers_def check_ext_iff normalize_fields dir_matches_pattern_iff split: option.split)
qed

text \<open>
  C38.  \<^verbatim>\<open>check_path_dir\<close> accepts a file exactly when the file name and extension the type asks for
  match and some pattern of the type covers its directory: a strict pattern is the directory
  itself, its end under an absolute directory, or \<^verbatim>\<open>dlc/<id>/<pattern>\<close>; any other pattern is a run
  of whole segments of the directory.  Options that went through \<^verbatim>\<open>reindex\<close> and options that did
  not give the same answer.
\<close>

theorem check_path_dir_covers:
  assumes "raw_options opts"
  shows "(check_path_dir opts path \<longleftrightarrow>
      covers opts (np_dir_lower (NormalizedPath_new path)) (np_basename_lower (NormalizedPath_new path))) \<and>
    (check_path_dir (normalize_path_options opts) path \<longleftrightarrow> check_path_dir opts path)"
  using check_covers [OF assms] by (simp_all add: check_path_dir_def)

definition sample_options :: "ustr list \<Rightarrow> bool \<Rightarrow> ustr option \<Rightarrow> path_options" where
  "sample_options paths strict ext = \<lparr>po_paths = paths, po_path_strict = strict, po_path_file = None, po_path_extension = ext,
     po_paths_lower = [], po_path_file_lower = None, po_path_ext_lower = None\<rparr>"

lemma raw_sample_options: "raw_options (sample_options paths strict ext)"
  by (simp add: raw_options_def sample_options_def)

lemma check_path_dir_covers_witness:
  "check_path_dir (sample_options [str ''common/foo''] True None) (str ''dlc/dlc022/common/foo/a.txt'') \<and>
   \<not> check_path_dir (normalize_path_options (sample_options [str ''common/foo''] True None)) (str ''not_dlc/common/foo/a.txt'')"
proof -
  have "check_path_dir (sample_options [str ''common/foo''] True None) (str ''dlc/dlc022/common/foo/a.txt'')"
    "\<not> check_path_dir (sample_options [str ''common/foo''] True None) (str ''not_dlc/common/foo/a.txt'')" by code_simp+
  then show ?thesis using check_path_dir_covers [OF raw_sample_options] by blast
qed

text \<open>
   A file whose path is in lower case and has no empty segment before its name is a candidate of
  a type for the validator exactly when the indexer takes it for the same type, for a type with
  at least one path, no empty pattern and no empty extension.
\<close>

theorem candidate_iff_indexed:
  assumes "raw_options opts" and "po_paths opts \<noteq> []" and "\<forall>p \<in> set (po_paths opts). pattern_of p \<noteq> []"
    and "\<forall>e. po_path_extension opts = Some e \<longrightarrow> extension_of e \<noteq> []"
    and "to_ascii_lowercase path = path" and "plain_dir (forward_slashes path)"
  shows "candidate_weight path (normalize_path_options opts) \<noteq> None \<longleftrightarrow> check_path_dir (normalize_path_options opts) path"
proof -
  let ?f = "forward_slashes path"
  have lower: "to_ascii_lowercase ?f = ?f"
  proof -
    have "to_ascii_lowercase ?f = forward_slashes (to_ascii_lowercase path)"
      by (auto simp: forward_slashes_def ascii_lower_def is_ascii_uppercase_def)
    with assms(5) show ?thesis by simp
  qed
  have part: "to_ascii_lowercase (take k ?f) = take k ?f" for k
    using lower by (metis take_map)
  have base: "to_ascii_lowercase (last_piece slash ?f) = last_piece slash ?f"
  proof -
    consider "last_piece slash ?f = ?f" | a where "?f = a @ slash # last_piece slash ?f" using last_piece_decomp by blast
    then show ?thesis
    proof cases
      case 2
      then have "\<forall>c \<in> set (last_piece slash ?f). c \<in> set ?f" by (metis in_set_conv_decomp list.set_intros(2) UnCI set_append)
      moreover have "\<forall>c \<in> set ?f. ascii_lower c = c" using lower by (metis in_set_conv_nth nth_map)
      ultimately show ?thesis by (simp add: map_idI)
    qed (use lower in metis)
  qed
  have np: "np_dir_lower (NormalizedPath_new path) = candidate_dir ?f" "np_basename_lower (NormalizedPath_new path) = last_piece slash ?f"
    using base part by (auto simp: NormalizedPath_new_def Let_def candidate_dir_eq [OF assms(6)] split: option.split)
  show ?thesis
    unfolding check_path_dir_def check_covers [OF assms(1) disjI2 [OF refl]] np covers_def candidate_weight_def Let_def
    using assms(2-4)
    by (cases "po_path_file opts"; cases "po_path_extension opts")
      (auto simp: normalize_fields pattern_weight_pos dir_matches_pattern_iff last_piece_def)
qed

lemma candidate_iff_indexed_witness:
  "candidate_weight (str ''dlc/x/common/foo/a.txt'') (normalize_path_options (sample_options [str ''game/'', str ''/Common''] False (Some (str ''.TXT'')))) \<noteq> None \<and>
   check_path_dir (normalize_path_options (sample_options [str ''game/'', str ''/Common''] False (Some (str ''.TXT'')))) (str ''dlc/x/common/foo/a.txt'')"
proof -
  let ?o = "sample_options [str ''game/'', str ''/Common''] False (Some (str ''.TXT''))" and ?p = "str ''dlc/x/common/foo/a.txt''"
  have run: "check_path_dir (normalize_path_options ?o) ?p" by code_simp
  have "pattern_of (str ''game/'') \<noteq> []" "pattern_of (str ''/Common'') \<noteq> []" "extension_of (str ''.TXT'') \<noteq> []"
    "to_ascii_lowercase ?p = ?p" by code_simp+
  moreover have "plain_dir (forward_slashes ?p)"
  proof -
    have "forward_slashes ?p = str ''dlc/x/common/foo'' @ slash # str ''a.txt''" by code_simp
    moreover have "slash \<notin> set (str ''a.txt'')" by code_simp
    moreover have "last (str ''dlc/x/common/foo'') \<noteq> slash" by code_simp
    ultimately show ?thesis by (metis plain_dirI)
  qed
  ultimately have "candidate_weight ?p (normalize_path_options ?o) \<noteq> None \<longleftrightarrow> check_path_dir (normalize_path_options ?o) ?p"
    by (intro candidate_iff_indexed raw_sample_options) (simp_all add: sample_options_def)
  with run show ?thesis by blast
qed

text \<open>Without those conditions the two differ: an empty extension asks the validator for a name that ends in a dot.\<close>

lemma empty_extension_diverges:
  "check_path_dir (normalize_path_options (sample_options [str ''common''] False (Some []))) (str ''common/a.txt'') \<and>
   candidate_weight (str ''common/a.txt'') (normalize_path_options (sample_options [str ''common''] False (Some []))) = None"
  by code_simp

lemma no_paths_diverge:
  "check_path_dir (normalize_path_options (sample_options [] False (Some (str ''txt'')))) (str ''common/a.txt'') \<and>
   candidate_weight (str ''common/a.txt'') (normalize_path_options (sample_options [] False (Some (str ''txt'')))) = None"
  by code_simp

end
