(* ===== verification/File_Index.thy ===== *)
theory File_Index
  imports Path_Match
begin

text \<open>
  The index of the files under the game roots, \<^verbatim>\<open>FileIndex\<close> of
  \<^verbatim>\<open>engine/crates/index/src/type_index.rs\<close>: the layer the workspace supplies over the one parent
  mods and the base game supply, with the spelling on disk of each path.  A hash set is a set
  and a hash map a map.  \<open>layered\<close> is the abstract index: the two layers as sets of keys.
\<close>

section \<open>The code\<close>

record file_index =
  fi_files :: "ustr set"
  fi_files_exact :: "ustr \<Rightarrow> ustr option"
  fi_case_sensitive :: bool
  fi_owned :: "ustr set"
  fi_overridden :: "ustr set"

definition file_index_empty :: file_index where
  "file_index_empty = \<lparr>fi_files = {}, fi_files_exact = Map.empty, fi_case_sensitive = False, fi_owned = {}, fi_overridden = {}\<rparr>"

definition file_index_is_empty :: "file_index \<Rightarrow> bool" where
  "file_index_is_empty s \<longleftrightarrow> fi_files s = {}"

definition set_case_sensitive :: "bool \<Rightarrow> file_index \<Rightarrow> file_index" where
  "set_case_sensitive b s = s\<lparr>fi_case_sensitive := b\<rparr>"

text \<open>\<^verbatim>\<open>split(['/', '\\']).filter(|s| !s.is_empty())\<close>.\<close>

definition path_words :: "ustr \<Rightarrow> ustr list" where
  "path_words path = filter (\<lambda>s. s \<noteq> []) (split_char slash (forward_slashes path))"

definition contains_ci :: "ustr \<Rightarrow> file_index \<Rightarrow> bool" where
  "contains_ci path s \<longleftrightarrow> join [slash] (map to_ascii_lowercase (path_words (trim path))) \<in> fi_files s"

definition contains_exact :: "ustr \<Rightarrow> file_index \<Rightarrow> bool" where
  "contains_exact path s =
     (let norm = join [slash] (path_words (trim path)); norm_ci = to_ascii_lowercase norm in
      case fi_files_exact s norm_ci of Some orig \<Rightarrow> orig = norm | None \<Rightarrow> norm_ci \<in> fi_files s)"

definition file_contains :: "ustr \<Rightarrow> file_index \<Rightarrow> bool" where
  "file_contains path s = (if fi_case_sensitive s then contains_exact path s else contains_ci path s)"

definition on_disk_case :: "ustr \<Rightarrow> file_index \<Rightarrow> ustr option" where
  "on_disk_case path s =
     (let norm = join [slash] (path_words (trim path)) in
      case fi_files_exact s (to_ascii_lowercase norm) of
        None \<Rightarrow> None
      | Some orig \<Rightarrow> if orig \<noteq> norm then Some orig else None)"

definition file_insert :: "ustr \<Rightarrow> file_index \<Rightarrow> file_index" where
  "file_insert path s =
     (let norm = forward_slashes path; ci = to_ascii_lowercase norm; s = s\<lparr>fi_files := insert ci (fi_files s)\<rparr>
      in if fi_case_sensitive s then s\<lparr>fi_files_exact := (fi_files_exact s)(ci \<mapsto> norm)\<rparr> else s)"

definition claim_workspace :: "ustr \<Rightarrow> file_index \<Rightarrow> bool \<times> file_index" where
  "claim_workspace path s =
     (let spelling = forward_slashes path; norm = to_ascii_lowercase spelling;
          fresh = (norm \<notin> fi_files s);
          s = s\<lparr>fi_files := insert norm (fi_files s)\<rparr>;
          s = (if \<not> fresh \<and> norm \<notin> fi_owned s then s\<lparr>fi_overridden := insert norm (fi_overridden s)\<rparr> else s);
          s = s\<lparr>fi_owned := insert norm (fi_owned s)\<rparr>
      in if fi_case_sensitive s \<and> fi_files_exact s norm \<noteq> Some spelling
         then (True, s\<lparr>fi_files_exact := (fi_files_exact s)(norm \<mapsto> spelling)\<rparr>)
         else (fresh, s))"

definition is_workspace_owned :: "ustr \<Rightarrow> file_index \<Rightarrow> bool" where
  "is_workspace_owned path s \<longleftrightarrow> to_ascii_lowercase (forward_slashes path) \<in> fi_owned s"

definition is_workspace_claimed :: "ustr \<Rightarrow> file_index \<Rightarrow> bool" where
  "is_workspace_claimed path s =
     (let spelling = forward_slashes path; norm = to_ascii_lowercase spelling in
      if norm \<notin> fi_owned s then False
      else \<not> fi_case_sensitive s \<or> fi_files_exact s norm = Some spelling)"

definition release_workspace :: "ustr \<Rightarrow> file_index \<Rightarrow> bool \<times> file_index" where
  "release_workspace path s =
     (let norm = to_ascii_lowercase (forward_slashes path) in
      if norm \<notin> fi_owned s then (False, s)
      else
        (let s = s\<lparr>fi_owned := fi_owned s - {norm}\<rparr>;
             s = s\<lparr>fi_files_exact := (fi_files_exact s)(norm := None)\<rparr>
         in if norm \<in> fi_overridden s then (False, s\<lparr>fi_overridden := fi_overridden s - {norm}\<rparr>)
            else (True, s\<lparr>fi_files := fi_files s - {norm}\<rparr>)))"

definition add_path :: "ustr \<Rightarrow> file_index \<Rightarrow> file_index" where
  "add_path path s =
     (let ci = to_ascii_lowercase path;
          s = (if ci \<in> fi_owned s then s\<lparr>fi_overridden := insert ci (fi_overridden s)\<rparr> else s);
          s = (if fi_case_sensitive s \<and> fi_files_exact s ci = None
               then s\<lparr>fi_files_exact := (fi_files_exact s)(ci \<mapsto> path)\<rparr> else s)
      in s\<lparr>fi_files := insert ci (fi_files s)\<rparr>)"

definition add_paths :: "ustr list \<Rightarrow> file_index \<Rightarrow> file_index" where
  "add_paths paths s = fold add_path paths s"

text \<open>\<^verbatim>\<open>rsplit_once('/')\<close>, and the folders above a key as the loop of \<^verbatim>\<open>workspace_owned_under\<close> visits them.\<close>

definition rsplit_once :: "uchar \<Rightarrow> ustr \<Rightarrow> (ustr \<times> ustr) option" where
  "rsplit_once x s = map_option (\<lambda>i. (take i s, drop (i + 1) s)) (rfind_char x s)"

lemma rsplit_once_shorter: "rsplit_once x s = Some (head, tail) \<Longrightarrow> length head < length s"
  by (cases s) (auto simp: rsplit_once_def rfind_char_def split: if_splits)

function under_folder :: "ustr set \<Rightarrow> ustr \<Rightarrow> bool" where
  "under_folder dirs parent =
     (case rsplit_once slash parent of
        None \<Rightarrow> False
      | Some (head, _) \<Rightarrow> if head \<in> dirs then True else under_folder dirs head)"
  by pat_completeness auto
termination by (relation "measure (length \<circ> snd)") (auto dest: rsplit_once_shorter)

declare under_folder.simps [simp del]

definition workspace_owned_under :: "ustr list \<Rightarrow> file_index \<Rightarrow> ustr set" where
  "workspace_owned_under dirs s =
     (let dirs = {d \<in> set (map (\<lambda>dir. to_ascii_lowercase (trim_matches (\<lambda>c. c = slash) (forward_slashes dir))) dirs). d \<noteq> []}
      in {key \<in> fi_owned s. under_folder dirs key})"

definition resolve_relative :: "ustr \<Rightarrow> ustr \<Rightarrow> file_index \<Rightarrow> bool" where
  "resolve_relative referencing_file v s =
     (let segs = map to_ascii_lowercase (path_words referencing_file) in
      if length segs < 2 then False
      else
        case find (\<lambda>start. join [slash] (drop start segs) \<in> fi_files s) [0..<length segs - 1] of
          None \<Rightarrow> False
        | Some start \<Rightarrow>
            (let dir = take (length segs - 1 - start) (drop start segs);
                 sibling = (if dir = [] then v else join [slash] dir @ slash # v)
             in contains_ci sibling s))"

section \<open>Layers\<close>

datatype file_index_event = Claim ustr | Release ustr | AddPaths "ustr list"

fun file_index_step :: "file_index_event \<Rightarrow> file_index \<Rightarrow> file_index" where
  "file_index_step (Claim p) s = snd (claim_workspace p s)"
| "file_index_step (Release p) s = snd (release_workspace p s)"
| "file_index_step (AddPaths ps) s = add_paths ps s"

text \<open>The workspace layer and the layer below it, as sets of keys.\<close>

type_synonym layered = "ustr set \<times> ustr set"

definition file_key :: "ustr \<Rightarrow> ustr" where
  "file_key p = to_ascii_lowercase (forward_slashes p)"

fun layered_step :: "file_index_event \<Rightarrow> layered \<Rightarrow> layered" where
  "layered_step (Claim p) (W, L) = (insert (file_key p) W, L)"
| "layered_step (Release p) (W, L) = (W - {file_key p}, L)"
| "layered_step (AddPaths ps) (W, L) = (W, L \<union> to_ascii_lowercase ` set ps)"

definition refines :: "file_index \<Rightarrow> layered \<Rightarrow> bool" where
  "refines s WL \<longleftrightarrow>
     (case WL of (W, L) \<Rightarrow> fi_owned s = W \<and> fi_files s = W \<union> L \<and> fi_overridden s = W \<inter> L) \<and>
     dom (fi_files_exact s) \<subseteq> fi_files s \<and>
     (\<forall>k orig. fi_files_exact s k = Some orig \<longrightarrow> to_ascii_lowercase orig = k)"

lemma refines_empty: "refines (set_case_sensitive b file_index_empty) ({}, {})"
  by (simp add: refines_def file_index_empty_def set_case_sensitive_def)

lemma refines_claim:
  assumes "refines s (W, L)"
  shows "refines (snd (claim_workspace p s)) (insert (file_key p) W, L)"
  using assms by (auto simp: refines_def claim_workspace_def Let_def file_key_def)

lemma claim_result:
  "refines s (W, L) \<Longrightarrow>
   fst (claim_workspace p s) \<longleftrightarrow>
     file_key p \<notin> W \<union> L \<or> (fi_case_sensitive s \<and> fi_files_exact s (file_key p) \<noteq> Some (forward_slashes p))"
  by (auto simp: refines_def claim_workspace_def Let_def file_key_def)

lemma refines_release:
  assumes "refines s (W, L)"
  shows "refines (snd (release_workspace p s)) (W - {file_key p}, L)"
  using assms by (auto simp: refines_def release_workspace_def Let_def file_key_def)

lemma release_result:
  "refines s (W, L) \<Longrightarrow> fst (release_workspace p s) \<longleftrightarrow> file_key p \<in> W - L"
  by (auto simp: refines_def release_workspace_def Let_def file_key_def)

lemma refines_add_path:
  "refines s (W, L) \<Longrightarrow> refines (add_path p s) (W, insert (to_ascii_lowercase p) L)"
  by (auto simp: refines_def add_path_def Let_def)

lemma refines_add_paths: "refines s (W, L) \<Longrightarrow> refines (add_paths ps s) (W, L \<union> to_ascii_lowercase ` set ps)"
proof (induction ps arbitrary: s L)
  case (Cons p ps)
  have "insert (to_ascii_lowercase p) L \<union> to_ascii_lowercase ` set ps = L \<union> to_ascii_lowercase ` set (p # ps)" by auto
  with Cons.IH [OF refines_add_path [OF Cons.prems, of p]] show ?case by (simp add: add_paths_def)
qed (simp add: add_paths_def)

lemma refines_step: "refines s WL \<Longrightarrow> refines (file_index_step e s) (layered_step e WL)"
  by (cases e; cases WL) (auto simp: refines_claim refines_release refines_add_paths)

lemma refines_run: "refines s WL \<Longrightarrow> refines (fold file_index_step es s) (fold layered_step es WL)"
  by (induction es arbitrary: s WL) (auto simp: refines_step)

lemma case_sensitive_step: "fi_case_sensitive (file_index_step e s) = fi_case_sensitive s"
proof -
  have "fi_case_sensitive (add_path p s) = fi_case_sensitive s" for p s by (simp add: add_path_def Let_def)
  then have "fi_case_sensitive (add_paths ps s) = fi_case_sensitive s" for ps
    by (induction ps arbitrary: s) (auto simp: add_paths_def)
  then show ?thesis by (cases e) (auto simp: claim_workspace_def release_workspace_def Let_def)
qed

lemma case_sensitive_run: "fi_case_sensitive (fold file_index_step es s) = fi_case_sensitive s"
  by (induction es arbitrary: s) (auto simp: case_sensitive_step)

text \<open>The key of a reference.\<close>

definition reference_key :: "ustr \<Rightarrow> ustr" where
  "reference_key path = to_ascii_lowercase (join [slash] (path_words (trim path)))"

lemma join_lower: "join [slash] (map to_ascii_lowercase ws) = to_ascii_lowercase (join [slash] ws)"
proof (induction ws rule: induct_list012)
  case (3 x y zs)
  then show ?case by (simp add: ascii_lower_def is_ascii_uppercase_def)
qed auto

lemma contains_ci_key: "contains_ci path s \<longleftrightarrow> reference_key path \<in> fi_files s"
  by (simp only: contains_ci_def reference_key_def join_lower)

lemma contains_exact_key:
  assumes "refines s WL"
  shows "contains_exact path s \<longleftrightarrow> reference_key path \<in> fi_files s \<and>
    (\<forall>orig. fi_files_exact s (reference_key path) = Some orig \<longrightarrow> orig = join [slash] (path_words (trim path)))"
  using assms by (auto simp: contains_exact_def reference_key_def Let_def refines_def split: option.split)

section \<open>Properties\<close>

text \<open>
  C40.  The file index refines two layers.  After any sequence of workspace claims, releases and
  additions of lower-layer paths, a reference resolves exactly when its key is in one of the
  layers, and, when case counts, is spelt as the file recorded for it; a claim reports whether
  the key is new (or its spelling), and a release whether the key has left the index, which is
  not so while the lower layer still has the file.
\<close>

theorem file_index_refines_layers:
  assumes "s = fold file_index_step es (set_case_sensitive b file_index_empty)"
    and "(W, L) = fold layered_step es ({}, {})"
  shows "(file_contains path s \<longleftrightarrow> reference_key path \<in> W \<union> L \<and>
      (b \<longrightarrow> (\<forall>orig. fi_files_exact s (reference_key path) = Some orig \<longrightarrow> orig = join [slash] (path_words (trim path))))) \<and>
    (fst (claim_workspace p s) \<longleftrightarrow>
      file_key p \<notin> W \<union> L \<or> (b \<and> fi_files_exact s (file_key p) \<noteq> Some (forward_slashes p))) \<and>
    (fst (release_workspace p s) \<longleftrightarrow> file_key p \<in> W - L)"
proof -
  have ref: "refines s (W, L)" unfolding assms by (rule refines_run [OF refines_empty])
  have b: "fi_case_sensitive s = b" unfolding assms(1) case_sensitive_run by (simp add: set_case_sensitive_def)
  have files: "fi_files s = W \<union> L" using ref by (simp add: refines_def)
  show ?thesis
    using claim_result [OF ref, of p] release_result [OF ref, of p] contains_exact_key [OF ref, of path] contains_ci_key [of path s]
    by (simp add: file_contains_def b files)
qed

lemma file_index_refines_layers_witness:
  "\<exists>s. s = fold file_index_step [AddPaths [str ''gfx/x.dds''], Claim (str ''GFX/x.dds'')] (set_case_sensitive True file_index_empty) \<and>
     file_contains (str ''GFX//x.dds'') s \<and> \<not> file_contains (str ''gfx/x.dds'') s \<and> \<not> fst (release_workspace (str ''gfx/x.dds'') s)"
proof -
  let ?es = "[AddPaths [str ''gfx/x.dds''], Claim (str ''GFX/x.dds'')]"
  define s where "s = fold file_index_step ?es (set_case_sensitive True file_index_empty)"
  have L: "({str ''gfx/x.dds''}, {str ''gfx/x.dds''}) = fold layered_step ?es ({}, {})" by code_simp
  have exact: "fi_files_exact s (str ''gfx/x.dds'') = Some (str ''GFX/x.dds'')" unfolding s_def by code_simp
  have keys: "reference_key (str ''GFX//x.dds'') = str ''gfx/x.dds''" "reference_key (str ''gfx/x.dds'') = str ''gfx/x.dds''"
    "join [slash] (path_words (trim (str ''GFX//x.dds''))) = str ''GFX/x.dds''"
    "join [slash] (path_words (trim (str ''gfx/x.dds''))) = str ''gfx/x.dds''" "str ''GFX/x.dds'' \<noteq> str ''gfx/x.dds''"
    "file_key (str ''gfx/x.dds'') = str ''gfx/x.dds''" by code_simp+
  note layers = file_index_refines_layers [OF s_def L]
  have "file_contains (str ''GFX//x.dds'') s \<and> \<not> file_contains (str ''gfx/x.dds'') s \<and> \<not> fst (release_workspace (str ''gfx/x.dds'') s)"
    using layers [of "str ''GFX//x.dds''" "str ''gfx/x.dds''"] layers [of "str ''gfx/x.dds''" "str ''gfx/x.dds''"] exact keys by simp
  then show ?thesis using s_def by blast
qed

end
