(* ===== verification/Name_Index.thy ===== *)
theory Name_Index
  imports Prelude
begin

text \<open>
  The counted name indexes of \<^verbatim>\<open>engine/crates/index/src\<close>: \<^verbatim>\<open>dec_ref\<close> of \<^verbatim>\<open>lib.rs\<close>, the per-file
  indexes \<^verbatim>\<open>NamedValueIndex\<close> (\<^verbatim>\<open>dynamic_values.rs\<close>), \<^verbatim>\<open>ScriptedLocIndex\<close> and \<^verbatim>\<open>ScriptedGuiIndex\<close>, and
  \<^verbatim>\<open>VarIndex\<close> (\<^verbatim>\<open>type_index.rs\<close>).  A name is counted once for each file and occurrence that
  declares it, and re-indexing a file takes back what the file had contributed.  The locale
  \<open>per_file_index\<close> is the contract of such an index: after any history, a name is known exactly
  when the last version of some file declares it.  A hash map is an association list with
  distinct keys.
\<close>

section \<open>Reference counts\<close>

type_synonym 'k counts = "('k \<times> nat) list"

definition inc_ref :: "'k \<Rightarrow> 'k counts \<Rightarrow> 'k counts" where
  "inc_ref k m = AList.update k ((case map_of m k of Some n \<Rightarrow> n | None \<Rightarrow> 0) + 1) m"

definition dec_ref :: "'k \<Rightarrow> 'k counts \<Rightarrow> 'k counts" where
  "dec_ref k m =
     (case map_of m k of
        None \<Rightarrow> m
      | Some n \<Rightarrow> if n - 1 = 0 then AList.delete k m else AList.update k (n - 1) m)"

definition ref_count :: "'k counts \<Rightarrow> 'k \<Rightarrow> nat" where
  "ref_count m k = (case map_of m k of Some n \<Rightarrow> n | None \<Rightarrow> 0)"

definition counts_ok :: "'k counts \<Rightarrow> bool" where
  "counts_ok m \<longleftrightarrow> distinct (map fst m) \<and> (\<forall>k. map_of m k \<noteq> Some 0)"

named_theorems count_simps \<open>rewriting of reference counts\<close>

lemma counts_ok_Nil [simp, intro]: "counts_ok []"
  by (simp add: counts_ok_def)

lemma ref_count_Nil [count_simps]: "ref_count [] k = 0"
  by (simp add: ref_count_def)

lemma ref_count_inc [count_simps]: "ref_count (inc_ref k m) = (ref_count m)(k := ref_count m k + 1)"
  by (auto simp: ref_count_def inc_ref_def update_conv' split: option.split)

lemma ref_count_dec [count_simps]:
  "counts_ok m \<Longrightarrow> ref_count (dec_ref k m) = (ref_count m)(k := ref_count m k - 1)"
  by (auto simp: ref_count_def dec_ref_def update_conv' delete_conv' fun_eq_iff split: option.split)

lemma counts_ok_inc [inv_intros]: "counts_ok m \<Longrightarrow> counts_ok (inc_ref k m)"
  by (auto simp: counts_ok_def inc_ref_def update_conv' distinct_update simp del: map_of_eq_Some_iff Some_eq_map_of_iff split: option.split)

lemma counts_ok_dec [inv_intros]: "counts_ok m \<Longrightarrow> counts_ok (dec_ref k m)"
  by (auto simp: counts_ok_def dec_ref_def update_conv' delete_conv' distinct_update distinct_delete simp del: map_of_eq_Some_iff Some_eq_map_of_iff split: option.split if_splits)

text \<open>A counted name is present: the subtraction of \<open>dec_ref\<close> never meets a zero.\<close>

lemma ref_count_pos: "counts_ok m \<Longrightarrow> 0 < ref_count m k \<longleftrightarrow> map_of m k \<noteq> None"
  unfolding counts_ok_def ref_count_def by (cases "map_of m k") (auto simp del: map_of_eq_Some_iff Some_eq_map_of_iff intro: gr0I)

text \<open>A counter: what counted lists of names rely on.\<close>

locale counter =
  fixes ok :: "'m \<Rightarrow> bool" and inc :: "'k \<Rightarrow> 'm \<Rightarrow> 'm" and dec :: "'k \<Rightarrow> 'm \<Rightarrow> 'm" and cnt :: "'m \<Rightarrow> 'k \<Rightarrow> nat"
  assumes inc_ok: "ok m \<Longrightarrow> ok (inc k m)" and dec_ok: "ok m \<Longrightarrow> ok (dec k m)"
    and cnt_inc: "ok m \<Longrightarrow> cnt (inc k m) = (cnt m)(k := cnt m k + 1)"
    and cnt_dec: "ok m \<Longrightarrow> cnt (dec k m) = (cnt m)(k := cnt m k - 1)"
begin

lemma fold_inc: "ok m \<Longrightarrow> ok (fold inc ks m) \<and> cnt (fold inc ks m) k = cnt m k + count_list ks k"
  by (induction ks arbitrary: m) (auto simp: cnt_inc inc_ok)

lemma fold_dec: "ok m \<Longrightarrow> ok (fold dec ks m) \<and> cnt (fold dec ks m) k = cnt m k - count_list ks k"
  by (induction ks arbitrary: m) (auto simp: cnt_dec dec_ok)

end

interpretation flat: counter counts_ok inc_ref dec_ref ref_count
  by unfold_locales (auto intro: inv_intros simp: count_simps)

text \<open>Files with the names they contribute, and a counter that adds them up.\<close>

definition held_by :: "('u \<times> 'k list) list \<Rightarrow> 'u \<Rightarrow> 'k list" where
  "held_by per_file u = (case map_of per_file u of Some ks \<Rightarrow> ks | None \<Rightarrow> [])"

definition files_counted :: "('m \<Rightarrow> bool) \<Rightarrow> ('m \<Rightarrow> 'k \<Rightarrow> nat) \<Rightarrow> 'm \<Rightarrow> ('u \<times> 'k list) list \<Rightarrow> bool" where
  "files_counted ok cnt m per_file \<longleftrightarrow> ok m \<and> distinct (map fst per_file) \<and>
     (\<forall>k. cnt m k = (\<Sum>(u, ks)\<leftarrow>per_file. count_list ks k))"

lemma sum_list_delete:
  "distinct (map fst xs) \<Longrightarrow> map_of xs u = Some ks \<Longrightarrow>
   (\<Sum>(u, ks)\<leftarrow>xs. g ks :: nat) = g ks + (\<Sum>(u, ks)\<leftarrow>AList.delete u xs. g ks)"
proof (induction xs)
  case (Cons x xs)
  obtain v vs where x: "x = (v, vs)" by (cases x)
  show ?case
  proof (cases "v = u")
    case True
    with Cons.prems x have "AList.delete u xs = xs" "ks = vs" by (auto simp: delete_id)
    with True x show ?thesis by simp
  next
    case False
    with Cons x show ?thesis by simp
  qed
qed simp

lemma sum_list_update_new:
  "map_of xs u = None \<Longrightarrow> (\<Sum>(u, ks)\<leftarrow>AList.update u ks xs. g ks :: nat) = g ks + (\<Sum>(u, ks)\<leftarrow>xs. g ks)"
  by (induction xs) (auto split: if_splits)

lemma held_by_update [simp]: "held_by (AList.update u ks pf) = (held_by pf)(u := ks)"
  by (auto simp: held_by_def update_conv' fun_eq_iff)

lemma held_by_delete [simp]: "held_by (AList.delete u pf) = (held_by pf)(u := [])"
  by (auto simp: held_by_def delete_conv' fun_eq_iff)

lemma held_by_None: "map_of pf u = None \<Longrightarrow> (held_by pf)(u := []) = held_by pf"
  by (auto simp: held_by_def fun_eq_iff)

lemma files_counted_known:
  assumes "files_counted ok cnt m per_file"
  shows "0 < cnt m k \<longleftrightarrow> (\<exists>u. k \<in> set (held_by per_file u))"
proof -
  have pos: "0 < count_list ks k \<longleftrightarrow> k \<in> set ks" for ks using count_list_0_iff [of ks k] by (metis neq0_conv)
  have "0 < cnt m k \<longleftrightarrow> 0 < (\<Sum>(u, ks)\<leftarrow>per_file. count_list ks k)" using assms by (simp add: files_counted_def)
  also have "\<dots> \<longleftrightarrow> (\<exists>(u, ks) \<in> set per_file. k \<in> set ks)"
    unfolding neq0_conv [symmetric] sum_list_eq_0_iff by (force simp: pos)
  also have "\<dots> \<longleftrightarrow> (\<exists>u. k \<in> set (held_by per_file u))"
    using assms by (fastforce simp: held_by_def files_counted_def split: option.splits)
  finally show ?thesis .
qed

context counter
begin

lemma counted_remove:
  assumes "files_counted ok cnt m per_file" "map_of per_file u = Some flat"
  shows "files_counted ok cnt (fold dec flat m) (AList.delete u per_file)"
  using assms fold_dec [of m flat] sum_list_delete [of per_file u flat "\<lambda>ks. count_list ks _"]
  by (auto simp: files_counted_def distinct_delete)

lemma counted_add:
  assumes "files_counted ok cnt m per_file" "map_of per_file u = None"
  shows "files_counted ok cnt (fold inc flat m) (AList.update u flat per_file)"
  using assms fold_inc [of m flat] sum_list_update_new [of per_file u "\<lambda>ks. count_list ks _" flat]
  by (auto simp: files_counted_def distinct_update)

end

section \<open>The contract of a per-file index\<close>

datatype 'i file_event = Merge ustr 'i | Remove ustr

fun apply_event :: "(ustr \<Rightarrow> 'i \<Rightarrow> 's \<Rightarrow> 's) \<Rightarrow> (ustr \<Rightarrow> 's \<Rightarrow> 's) \<Rightarrow> 'i file_event \<Rightarrow> 's \<Rightarrow> 's" where
  "apply_event merge remove (Merge u xs) s = merge u xs s"
| "apply_event merge remove (Remove u) s = remove u s"

text \<open>What each file declares after an event: its last version.\<close>

fun event_names :: "('i \<Rightarrow> 'k list) \<Rightarrow> 'i file_event \<Rightarrow> (ustr \<Rightarrow> 'k list) \<Rightarrow> ustr \<Rightarrow> 'k list" where
  "event_names names (Merge u xs) f = f(u := names xs)"
| "event_names names (Remove u) f = f(u := [])"

definition declared_by :: "('i \<Rightarrow> 'k list) \<Rightarrow> 'i file_event list \<Rightarrow> ustr \<Rightarrow> 'k list" where
  "declared_by names es = fold (event_names names) es (\<lambda>_. [])"

text \<open>
  \<open>names\<close> lists the keys of the items of a file, \<open>holds s u\<close> what the index has recorded for a
  file.
\<close>

locale per_file_index =
  fixes ok :: "'s \<Rightarrow> bool"
    and merge :: "ustr \<Rightarrow> 'i \<Rightarrow> 's \<Rightarrow> 's"
    and remove :: "ustr \<Rightarrow> 's \<Rightarrow> 's"
    and known :: "'s \<Rightarrow> 'k \<Rightarrow> bool"
    and names :: "'i \<Rightarrow> 'k list"
    and holds :: "'s \<Rightarrow> ustr \<Rightarrow> 'k list"
  assumes merge_ok: "ok s \<Longrightarrow> ok (merge u xs s)"
    and remove_ok: "ok s \<Longrightarrow> ok (remove u s)"
    and holds_merge: "ok s \<Longrightarrow> holds (merge u xs s) = (holds s)(u := names xs)"
    and holds_remove: "ok s \<Longrightarrow> holds (remove u s) = (holds s)(u := [])"
    and known_iff: "ok s \<Longrightarrow> known s k \<longleftrightarrow> (\<exists>u. k \<in> set (holds s u))"
begin

lemma event_ok: "ok s \<Longrightarrow> ok (apply_event merge remove e s)"
  by (cases e) (auto intro: merge_ok remove_ok)

lemma event_holds: "ok s \<Longrightarrow> holds (apply_event merge remove e s) = event_names names e (holds s)"
  by (cases e) (auto simp: holds_merge holds_remove)

lemma history_ok: "ok s \<Longrightarrow> ok (fold (apply_event merge remove) es s)"
  by (induction es arbitrary: s) (auto intro: event_ok)

lemma history_holds:
  "ok s \<Longrightarrow> holds (fold (apply_event merge remove) es s) = fold (event_names names) es (holds s)"
  by (induction es arbitrary: s) (auto simp: event_ok event_holds)

lemma history_known:
  assumes "ok s" and "holds s = (\<lambda>_. [])"
  shows "known (fold (apply_event merge remove) es s) k \<longleftrightarrow> (\<exists>u. k \<in> set (declared_by names es u))"
  using assms by (simp add: known_iff history_ok history_holds declared_by_def)

lemma merge_again: "ok s \<Longrightarrow> known (merge u xs (merge u ys s)) k \<longleftrightarrow> known (merge u xs s) k"
  by (simp add: known_iff merge_ok holds_merge)

end

section \<open>Names of scripted localisation and interfaces\<close>

text \<open>\<^verbatim>\<open>ScriptedLocIndex\<close>.\<close>

record scripted_loc_index =
  sl_names :: "ustr counts"
  sl_per_file :: "(ustr \<times> ustr list) list"
  sl_vanilla_names :: "ustr list"

definition scripted_loc_empty :: scripted_loc_index where
  "scripted_loc_empty = \<lparr>sl_names = [], sl_per_file = [], sl_vanilla_names = []\<rparr>"

definition scripted_loc_remove_file :: "ustr \<Rightarrow> scripted_loc_index \<Rightarrow> scripted_loc_index" where
  "scripted_loc_remove_file file_uri s =
     (case map_of (sl_per_file s) file_uri of
        None \<Rightarrow> s
      | Some flat \<Rightarrow> s\<lparr>sl_per_file := AList.delete file_uri (sl_per_file s), sl_names := fold dec_ref flat (sl_names s)\<rparr>)"

definition scripted_loc_merge_file :: "ustr \<Rightarrow> ustr list \<Rightarrow> scripted_loc_index \<Rightarrow> scripted_loc_index" where
  "scripted_loc_merge_file file_uri ns s =
     (let s = scripted_loc_remove_file file_uri s in
      if ns = [] then s
      else (let flat = map to_ascii_lowercase ns
            in s\<lparr>sl_names := fold inc_ref flat (sl_names s), sl_per_file := AList.update file_uri flat (sl_per_file s)\<rparr>))"

definition scripted_loc_set_vanilla_names :: "ustr list \<Rightarrow> scripted_loc_index \<Rightarrow> scripted_loc_index" where
  "scripted_loc_set_vanilla_names ns s = s\<lparr>sl_vanilla_names := map to_ascii_lowercase (filter (\<lambda>n. n \<noteq> []) ns)\<rparr>"

definition scripted_loc_is_empty :: "scripted_loc_index \<Rightarrow> bool" where
  "scripted_loc_is_empty s \<longleftrightarrow> sl_names s = [] \<and> sl_vanilla_names s = []"

definition scripted_loc_contains :: "scripted_loc_index \<Rightarrow> ustr \<Rightarrow> bool" where
  "scripted_loc_contains s name =
     (let lower = to_ascii_lowercase name in map_of (sl_names s) lower \<noteq> None \<or> lower \<in> set (sl_vanilla_names s))"

definition scripted_loc_ok :: "scripted_loc_index \<Rightarrow> bool" where
  "scripted_loc_ok s \<longleftrightarrow> files_counted counts_ok ref_count (sl_names s) (sl_per_file s)"

definition scripted_loc_known :: "scripted_loc_index \<Rightarrow> ustr \<Rightarrow> bool" where
  "scripted_loc_known s k \<longleftrightarrow> map_of (sl_names s) k \<noteq> None"

lemma scripted_loc_remove:
  assumes "scripted_loc_ok s"
  shows "scripted_loc_ok (scripted_loc_remove_file u s) \<and>
    held_by (sl_per_file (scripted_loc_remove_file u s)) = (held_by (sl_per_file s))(u := []) \<and>
    map_of (sl_per_file (scripted_loc_remove_file u s)) u = None"
proof (cases "map_of (sl_per_file s) u")
  case None
  then show ?thesis using assms by (simp add: scripted_loc_remove_file_def held_by_None)
next
  case (Some flat)
  then show ?thesis using assms flat.counted_remove [of "sl_names s" "sl_per_file s" u flat]
    by (simp add: scripted_loc_remove_file_def scripted_loc_ok_def delete_conv')
qed

lemma scripted_loc_merge:
  assumes "scripted_loc_ok s"
  shows "scripted_loc_ok (scripted_loc_merge_file u ns s) \<and>
    held_by (sl_per_file (scripted_loc_merge_file u ns s)) = (held_by (sl_per_file s))(u := map to_ascii_lowercase ns)"
  using scripted_loc_remove [OF assms, of u]
    flat.counted_add [of "sl_names (scripted_loc_remove_file u s)" "sl_per_file (scripted_loc_remove_file u s)" u "map to_ascii_lowercase ns"]
  by (auto simp: scripted_loc_merge_file_def Let_def scripted_loc_ok_def)

lemma held_by_Nil [simp]: "held_by [] = (\<lambda>_. [])"
  by (simp add: held_by_def fun_eq_iff)

lemma scripted_loc_ok_empty: "scripted_loc_ok scripted_loc_empty"
  by (simp add: scripted_loc_ok_def scripted_loc_empty_def files_counted_def count_simps)

interpretation scripted_loc: per_file_index scripted_loc_ok scripted_loc_merge_file scripted_loc_remove_file
  scripted_loc_known "map to_ascii_lowercase" "\<lambda>s. held_by (sl_per_file s)"
proof
  fix s k assume "scripted_loc_ok s"
  then show "scripted_loc_known s k \<longleftrightarrow> (\<exists>u. k \<in> set (held_by (sl_per_file s) u))"
    using files_counted_known [of counts_ok ref_count "sl_names s" "sl_per_file s" k] ref_count_pos [of "sl_names s" k]
    by (simp add: scripted_loc_ok_def scripted_loc_known_def files_counted_def)
qed (auto simp: scripted_loc_merge scripted_loc_remove)

text \<open>\<^verbatim>\<open>ScriptedGuiIndex\<close> has the same fields, and the same code line by line.\<close>

type_synonym scripted_gui_index = scripted_loc_index

definition scripted_gui_merge_file :: "ustr \<Rightarrow> ustr list \<Rightarrow> scripted_gui_index \<Rightarrow> scripted_gui_index" where
  "scripted_gui_merge_file = scripted_loc_merge_file"

definition scripted_gui_remove_file :: "ustr \<Rightarrow> scripted_gui_index \<Rightarrow> scripted_gui_index" where
  "scripted_gui_remove_file = scripted_loc_remove_file"

definition scripted_gui_set_vanilla_names :: "ustr list \<Rightarrow> scripted_gui_index \<Rightarrow> scripted_gui_index" where
  "scripted_gui_set_vanilla_names = scripted_loc_set_vanilla_names"

definition scripted_gui_contains :: "scripted_gui_index \<Rightarrow> ustr \<Rightarrow> bool" where
  "scripted_gui_contains = scripted_loc_contains"

lemma scripted_loc_contains_vanilla:
  "scripted_loc_contains (scripted_loc_set_vanilla_names vs s) name \<longleftrightarrow>
     scripted_loc_known s (to_ascii_lowercase name)
     \<or> to_ascii_lowercase name \<in> set (map to_ascii_lowercase (filter (\<lambda>n. n \<noteq> []) vs))"
  by (simp add: scripted_loc_contains_def scripted_loc_set_vanilla_names_def scripted_loc_known_def Let_def)

section \<open>Values by name\<close>

text \<open>\<^verbatim>\<open>NamedValueIndex\<close>: complex enums and value sets.\<close>

type_synonym values_by_name = "(ustr \<times> ustr counts) list"

record named_value_index =
  nv_by_name :: values_by_name
  nv_per_file :: "(ustr \<times> (ustr \<times> ustr) list) list"

definition named_value_empty :: named_value_index where
  "named_value_empty = \<lparr>nv_by_name = [], nv_per_file = []\<rparr>"

fun inc_value :: "ustr \<times> ustr \<Rightarrow> values_by_name \<Rightarrow> values_by_name" where
  "inc_value (name, v) m = AList.update name (inc_ref v (case map_of m name of Some vals \<Rightarrow> vals | None \<Rightarrow> [])) m"

fun dec_value :: "ustr \<times> ustr \<Rightarrow> values_by_name \<Rightarrow> values_by_name" where
  "dec_value (name, v) m =
     (case map_of m name of
        None \<Rightarrow> m
      | Some vals \<Rightarrow>
          (let vals = dec_ref v vals in if vals = [] then AList.delete name m else AList.update name vals m))"

definition named_value_remove_file :: "ustr \<Rightarrow> named_value_index \<Rightarrow> named_value_index" where
  "named_value_remove_file file_uri s =
     (case map_of (nv_per_file s) file_uri of
        None \<Rightarrow> s
      | Some flat \<Rightarrow> s\<lparr>nv_per_file := AList.delete file_uri (nv_per_file s), nv_by_name := fold dec_value flat (nv_by_name s)\<rparr>)"

text \<open>The items are a hash map, here in the order of its iteration.\<close>

definition flat_items :: "(ustr \<times> ustr list) list \<Rightarrow> (ustr \<times> ustr) list" where
  "flat_items items = concat (map (\<lambda>(name, vs). map (Pair name) vs) items)"

definition named_value_merge_file :: "ustr \<Rightarrow> (ustr \<times> ustr list) list \<Rightarrow> named_value_index \<Rightarrow> named_value_index" where
  "named_value_merge_file file_uri items s =
     (let s = named_value_remove_file file_uri s; flat = flat_items items;
          s = s\<lparr>nv_by_name := fold inc_value flat (nv_by_name s)\<rparr>
      in if flat \<noteq> [] then s\<lparr>nv_per_file := AList.update file_uri flat (nv_per_file s)\<rparr> else s)"

definition named_value_values :: "named_value_index \<Rightarrow> ustr \<Rightarrow> ustr list" where
  "named_value_values s name = (case map_of (nv_by_name s) name of Some m \<Rightarrow> map fst m | None \<Rightarrow> [])"

definition named_value_contains :: "named_value_index \<Rightarrow> ustr \<Rightarrow> ustr \<Rightarrow> bool" where
  "named_value_contains s name v =
     (case map_of (nv_by_name s) name of Some m \<Rightarrow> map_of m v \<noteq> None | None \<Rightarrow> False)"

definition named_value_is_empty :: "named_value_index \<Rightarrow> bool" where
  "named_value_is_empty s \<longleftrightarrow> nv_by_name s = []"

definition named_value_export :: "named_value_index \<Rightarrow> (ustr \<times> ustr list) list" where
  "named_value_export s = map (\<lambda>(name, vals). (name, map fst vals)) (nv_by_name s)"

fun value_count :: "values_by_name \<Rightarrow> ustr \<times> ustr \<Rightarrow> nat" where
  "value_count m (name, v) = (case map_of m name of Some vals \<Rightarrow> ref_count vals v | None \<Rightarrow> 0)"

definition values_ok :: "values_by_name \<Rightarrow> bool" where
  "values_ok m \<longleftrightarrow> distinct (map fst m) \<and> (\<forall>name vals. map_of m name = Some vals \<longrightarrow> counts_ok vals \<and> vals \<noteq> [])"

lemma values_ok_Nil [simp, intro]: "values_ok []"
  by (simp add: values_ok_def)

lemma inc_ref_not_Nil [simp]: "inc_ref k m \<noteq> []"
proof -
  have "map_of (inc_ref k m) k \<noteq> None" by (simp add: inc_ref_def update_conv')
  then show ?thesis by (metis map_of.simps(1))
qed

lemma values_okD: "values_ok m \<Longrightarrow> map_of m name = Some vals \<Longrightarrow> counts_ok vals"
  by (auto simp: values_ok_def)

lemma value_count_inc: "values_ok m \<Longrightarrow> value_count (inc_value nv m) = (value_count m)(nv := value_count m nv + 1)"
  by (cases nv) (auto simp: fun_eq_iff update_conv' count_simps split: option.split)

lemma value_count_dec:
  assumes "values_ok m" shows "value_count (dec_value nv m) = (value_count m)(nv := value_count m nv - 1)"
proof -
  obtain name v where nv: "nv = (name, v)" by (cases nv)
  show ?thesis
  proof (cases "map_of m name")
    case None
    then show ?thesis by (auto simp: nv fun_eq_iff)
  next
    case (Some vals)
    then have cnt: "ref_count (dec_ref v vals) = (ref_count vals)(v := ref_count vals v - 1)"
      using values_okD [OF assms] by (simp add: count_simps)
    have "value_count (dec_value nv m) (n', v') = ((value_count m)(nv := value_count m nv - 1)) (n', v')" for n' v'
      using fun_cong [OF cnt, of v'] Some
      by (auto simp: nv Let_def update_conv' delete_conv' ref_count_Nil split: if_splits)
    then show ?thesis by (auto simp: fun_eq_iff)
  qed
qed

lemma values_ok_inc: "values_ok m \<Longrightarrow> values_ok (inc_value nv m)"
  by (cases nv) (auto simp: values_ok_def update_conv' distinct_update simp del: map_of_eq_Some_iff Some_eq_map_of_iff
      intro!: counts_ok_inc split: option.split if_splits)

lemma values_ok_dec: "values_ok m \<Longrightarrow> values_ok (dec_value nv m)"
  by (cases nv) (auto simp: values_ok_def Let_def update_conv' delete_conv' distinct_update distinct_delete
      simp del: map_of_eq_Some_iff Some_eq_map_of_iff intro!: counts_ok_dec split: option.split if_splits)

interpretation nested: counter values_ok inc_value dec_value value_count
  by unfold_locales (auto intro: values_ok_inc values_ok_dec simp: value_count_inc value_count_dec)

definition named_value_ok :: "named_value_index \<Rightarrow> bool" where
  "named_value_ok s \<longleftrightarrow> files_counted values_ok value_count (nv_by_name s) (nv_per_file s)"

lemma named_value_remove:
  assumes "named_value_ok s"
  shows "named_value_ok (named_value_remove_file u s) \<and>
    held_by (nv_per_file (named_value_remove_file u s)) = (held_by (nv_per_file s))(u := []) \<and>
    map_of (nv_per_file (named_value_remove_file u s)) u = None"
proof (cases "map_of (nv_per_file s) u")
  case None
  then show ?thesis using assms by (simp add: named_value_remove_file_def held_by_None)
next
  case (Some flat)
  then show ?thesis using assms nested.counted_remove [of "nv_by_name s" "nv_per_file s" u flat]
    by (simp add: named_value_remove_file_def named_value_ok_def delete_conv')
qed

lemma named_value_merge:
  assumes "named_value_ok s"
  shows "named_value_ok (named_value_merge_file u items s) \<and>
    held_by (nv_per_file (named_value_merge_file u items s)) = (held_by (nv_per_file s))(u := flat_items items)"
  using named_value_remove [OF assms, of u]
    nested.counted_add [of "nv_by_name (named_value_remove_file u s)" "nv_per_file (named_value_remove_file u s)" u "flat_items items"]
  by (auto simp: named_value_merge_file_def Let_def named_value_ok_def)

definition named_value_known :: "named_value_index \<Rightarrow> ustr \<times> ustr \<Rightarrow> bool" where
  "named_value_known s nv = named_value_contains s (fst nv) (snd nv)"

lemma values_known: "values_ok m \<Longrightarrow> (case map_of m name of Some vals \<Rightarrow> map_of vals v \<noteq> None | None \<Rightarrow> False) \<longleftrightarrow> 0 < value_count m (name, v)"
  by (cases "map_of m name") (simp_all add: ref_count_pos values_okD)

lemma named_value_count: "named_value_ok s \<Longrightarrow> named_value_known s nv \<longleftrightarrow> 0 < value_count (nv_by_name s) nv"
  using values_known [where m = "nv_by_name s" and name = "fst nv" and v = "snd nv"]
  by (simp add: named_value_known_def named_value_contains_def named_value_ok_def files_counted_def)

lemma named_value_ok_empty: "named_value_ok named_value_empty"
  by (simp add: named_value_ok_def named_value_empty_def files_counted_def)

interpretation named_value: per_file_index named_value_ok named_value_merge_file named_value_remove_file
  named_value_known flat_items "\<lambda>s. held_by (nv_per_file s)"
proof
  fix s nv assume "named_value_ok s"
  then show "named_value_known s nv \<longleftrightarrow> (\<exists>u. nv \<in> set (held_by (nv_per_file s) u))"
    using files_counted_known [of values_ok value_count "nv_by_name s" "nv_per_file s" nv] named_value_count
    by (simp add: named_value_ok_def)
qed (auto simp: named_value_merge named_value_remove)

section \<open>Variables\<close>

record var_index =
  vi_names :: "ustr counts"
  vi_vanilla_names :: "ustr list"

definition var_empty :: var_index where
  "var_empty = \<lparr>vi_names = [], vi_vanilla_names = []\<rparr>"

definition var_is_empty :: "var_index \<Rightarrow> bool" where
  "var_is_empty s \<longleftrightarrow> vi_names s = [] \<and> vi_vanilla_names s = []"

text \<open>The vanilla names are a set, a list without repetitions.\<close>

definition var_len :: "var_index \<Rightarrow> nat" where
  "var_len s = length (vi_names s) + length (filter (\<lambda>v. map_of (vi_names s) v = None) (vi_vanilla_names s))"

definition var_normalize :: "ustr \<Rightarrow> ustr" where
  "var_normalize raw =
     (let s = trim_matches (\<lambda>c. c = asc CHR ''\"'') (trim raw);
          before_amp = hd (split_char (asc CHR ''@'') s);
          last_seg = last (split_char (asc CHR ''.'') before_amp);
          core = takeWhile (\<lambda>c. c \<noteq> asc CHR ''?'' \<and> c \<noteq> asc CHR ''^'') last_seg
      in to_ascii_lowercase (trim core))"

definition var_add_name :: "ustr \<Rightarrow> var_index \<Rightarrow> var_index" where
  "var_add_name raw s =
     (let n = var_normalize raw in if n \<noteq> [] then s\<lparr>vi_names := inc_ref n (vi_names s)\<rparr> else s)"

definition var_remove_name :: "ustr \<Rightarrow> var_index \<Rightarrow> var_index" where
  "var_remove_name raw s = s\<lparr>vi_names := dec_ref (var_normalize raw) (vi_names s)\<rparr>"

definition var_contains :: "var_index \<Rightarrow> ustr \<Rightarrow> bool" where
  "var_contains s raw =
     (let n = var_normalize raw in map_of (vi_names s) n \<noteq> None \<or> n \<in> set (vi_vanilla_names s))"

definition var_set_vanilla_names :: "ustr list \<Rightarrow> var_index \<Rightarrow> var_index" where
  "var_set_vanilla_names names s =
     s\<lparr>vi_vanilla_names := fold (\<lambda>raw vs. let n = var_normalize raw in if n \<noteq> [] then List.insert n vs else vs) names []\<rparr>"

definition var_clear_vanilla_names :: "var_index \<Rightarrow> var_index" where
  "var_clear_vanilla_names s = s\<lparr>vi_vanilla_names := []\<rparr>"

definition var_merge :: "var_index \<Rightarrow> var_index \<Rightarrow> var_index" where
  "var_merge other s =
     s\<lparr>vi_names := fold (\<lambda>(name, count) m. AList.update name (ref_count m name + count) m) (vi_names other) (vi_names s)\<rparr>"

definition var_all_names :: "var_index \<Rightarrow> ustr list" where
  "var_all_names s = map fst (vi_names s) @ filter (\<lambda>k. map_of (vi_names s) k = None) (vi_vanilla_names s)"

definition var_ok :: "var_index \<Rightarrow> bool" where
  "var_ok s \<longleftrightarrow> counts_ok (vi_names s) \<and> distinct (vi_vanilla_names s) \<and>
     map_of (vi_names s) [] = None \<and> [] \<notin> set (vi_vanilla_names s)"

lemma map_of_inc_ref: "map_of (inc_ref n m) k = (if k = n then Some (ref_count m n + 1) else map_of m k)"
  by (simp add: inc_ref_def update_conv' ref_count_def)

lemma ref_count_None: "map_of m k = None \<Longrightarrow> ref_count m k = 0"
  by (simp add: ref_count_def)

lemma var_ok_add: "var_ok s \<Longrightarrow> var_ok (var_add_name raw s)"
  by (auto simp: var_ok_def var_add_name_def Let_def map_of_inc_ref intro: counts_ok_inc)

lemma dec_ref_absent: "map_of m k = None \<Longrightarrow> map_of (dec_ref n m) k = None"
  by (auto simp: dec_ref_def update_conv' delete_conv' split: option.split)

lemma var_ok_remove: "var_ok s \<Longrightarrow> var_ok (var_remove_name raw s)"
  by (auto simp: var_ok_def var_remove_name_def dec_ref_absent intro: counts_ok_dec)

lemma vanilla_fold:
  "distinct vs \<and> [] \<notin> set vs \<Longrightarrow>
   (let r = fold (\<lambda>raw vs. let n = var_normalize raw in if n \<noteq> [] then List.insert n vs else vs) names vs
    in distinct r \<and> [] \<notin> set r \<and> set r = set vs \<union> (var_normalize ` set names - {[]}))"
  by (induction names arbitrary: vs) (auto simp: Let_def)

lemma var_ok_vanilla: "var_ok s \<Longrightarrow> var_ok (var_set_vanilla_names names s)"
  using vanilla_fold [of "[]" names] by (auto simp: var_ok_def var_set_vanilla_names_def Let_def)

lemma var_vanilla_known:
  "var_ok s \<Longrightarrow> var_contains (var_set_vanilla_names names s) raw \<longleftrightarrow>
     0 < ref_count (vi_names s) (var_normalize raw) \<or> (var_normalize raw \<noteq> [] \<and> var_normalize raw \<in> var_normalize ` set names)"
  using vanilla_fold [of "[]" names] ref_count_pos [of "vi_names s" "var_normalize raw"]
  by (auto simp: var_contains_def var_set_vanilla_names_def Let_def var_ok_def)

lemma var_len_card: "var_ok s \<Longrightarrow> var_len s = card (set (var_all_names s))"
proof -
  assume "var_ok s"
  then have "distinct (var_all_names s)"
    by (auto simp: var_ok_def counts_ok_def var_all_names_def map_of_eq_None_iff)
  then have "card (set (var_all_names s)) = length (var_all_names s)" by (rule distinct_card)
  then show ?thesis by (simp add: var_len_def var_all_names_def)
qed

section \<open>Properties\<close>

text \<open>
  C39.  After any sequence of files merged, merged again and removed, a value belongs to a named set
  exactly when the last version of some file declares it: re-indexing a file takes back all that
  its earlier version had contributed, and nothing of other files.
\<close>

theorem named_values_follow_files:
  "named_value_contains (fold (apply_event named_value_merge_file named_value_remove_file) es named_value_empty) name v \<longleftrightarrow>
     (\<exists>u. (name, v) \<in> set (declared_by flat_items es u))"
  using named_value.history_known [OF named_value_ok_empty, of es "(name, v)"]
  by (simp add: named_value_empty_def named_value_known_def)

text \<open>
   After any such sequence, and with any base-game names set beside it, a scripted localisation
  name is known, in any letter case, exactly when the last version of some file declares it or
  the base game does.
\<close>

theorem scripted_loc_follows_files:
  "scripted_loc_contains (scripted_loc_set_vanilla_names vs
       (fold (apply_event scripted_loc_merge_file scripted_loc_remove_file) es scripted_loc_empty)) name \<longleftrightarrow>
     (\<exists>u. to_ascii_lowercase name \<in> set (declared_by (map to_ascii_lowercase) es u)) \<or>
     (name \<noteq> [] \<and> (\<exists>n \<in> set vs. eq_ignore_ascii_case n name))"
proof -
  have "to_ascii_lowercase name \<in> set (map to_ascii_lowercase (filter (\<lambda>n. n \<noteq> []) vs)) \<longleftrightarrow>
      name \<noteq> [] \<and> (\<exists>n \<in> set vs. eq_ignore_ascii_case n name)"
    by (auto simp: eq_ignore_ascii_case_def image_iff)
  moreover have "sl_per_file scripted_loc_empty = []" by (simp add: scripted_loc_empty_def)
  ultimately show ?thesis
    using scripted_loc.history_known [OF scripted_loc_ok_empty, of es "to_ascii_lowercase name"]
    unfolding scripted_loc_contains_vanilla by simp
qed

end
