(* ===== verification/Type_Index.thy ===== *)
theory Type_Index
  imports File_Index Name_Index
begin

text \<open>
  The index of type instances, \<^verbatim>\<open>engine/crates/index/src/type_index.rs\<close> and \<^verbatim>\<open>derived.rs\<close>: which
  names each type of the configuration has, in which files, kept up to date as files are merged
  and removed one by one.  The instances of a type are one vector; two further tables hold
  positions into it, by file and by name, so that a file can be removed without a scan; counts
  answer whether a name is known at all.

  A hash map is an association list with distinct keys, in the order of its iteration; a map
  from types to sets of names is a set of pairs.  A panic of the source (an index out of range)
  is \<open>None\<close>.  Line numbers are natural numbers.
\<close>

section \<open>Instances\<close>

record source_location =
  loc_line :: nat
  loc_col :: nat
  loc_end :: "nat \<times> nat"

record type_instance =
  ti_name :: ustr
  ti_location :: source_location
  ti_primary_loc_key :: "ustr option"
  ti_required_loc_keys :: "ustr list"

definition is_subtype_key :: "ustr \<Rightarrow> bool" where
  "is_subtype_key type_name \<longleftrightarrow> asc CHR ''.'' \<in> set type_name"

definition alist_get :: "'v \<Rightarrow> ('k \<times> 'v) list \<Rightarrow> 'k \<Rightarrow> 'v" where
  "alist_get d m k = (case map_of m k of Some v \<Rightarrow> v | None \<Rightarrow> d)"

section \<open>Derived names\<close>

record inherited_subtype =
  is_subtype :: ustr
  is_name :: ustr
  is_location :: source_location
  is_via_type :: ustr
  is_via_name :: ustr

record duplicate_archetype =
  da_type_name :: ustr
  da_name :: ustr
  da_source :: ustr
  da_location :: source_location

record derived_names =
  dn_inherited :: "inherited_subtype list"
  dn_duplicates :: "duplicate_archetype list"

record inherited =
  in_uri :: ustr
  in_name :: ustr
  in_location :: source_location
  in_via_type :: ustr
  in_via_lower :: ustr

record duplicate =
  du_uri :: ustr
  du_name_lower :: ustr
  du_source_lower :: ustr
  du_location :: source_location

record derived_index =
  di_inherited :: "(ustr \<times> (ustr \<times> inherited list) list) list"
  di_duplicates :: "(ustr \<times> duplicate list) list"

definition derived_is_empty :: "derived_index \<Rightarrow> bool" where
  "derived_is_empty d \<longleftrightarrow> di_inherited d = [] \<and> di_duplicates d = []"

definition push_inherited :: "ustr \<Rightarrow> inherited_subtype \<Rightarrow> derived_index \<Rightarrow> derived_index" where
  "push_inherited uri r d =
     (let by_name = alist_get [] (di_inherited d) (is_subtype r);
          key = to_ascii_lowercase (is_name r);
          record = \<lparr>in_uri = uri, in_name = is_name r, in_location = is_location r, in_via_type = is_via_type r,
                    in_via_lower = to_ascii_lowercase (is_via_name r)\<rparr>
      in d\<lparr>di_inherited := AList.update (is_subtype r)
             (AList.update key (alist_get [] by_name key @ [record]) by_name) (di_inherited d)\<rparr>)"

definition push_duplicate :: "ustr \<Rightarrow> duplicate_archetype \<Rightarrow> derived_index \<Rightarrow> derived_index" where
  "push_duplicate uri r d =
     (let record = \<lparr>du_uri = uri, du_name_lower = to_ascii_lowercase (da_name r),
                    du_source_lower = to_ascii_lowercase (da_source r), du_location = da_location r\<rparr>
      in d\<lparr>di_duplicates := AList.update (da_type_name r)
             (alist_get [] (di_duplicates d) (da_type_name r) @ [record]) (di_duplicates d)\<rparr>)"

definition derived_merge :: "ustr \<Rightarrow> derived_names \<Rightarrow> derived_index \<Rightarrow> derived_index" where
  "derived_merge uri names d =
     (if dn_inherited names = [] \<and> dn_duplicates names = [] then d
      else fold (push_duplicate uri) (dn_duplicates names) (fold (push_inherited uri) (dn_inherited names) d))"

definition retain_inherited :: "(ustr \<Rightarrow> bool) \<Rightarrow> (ustr \<times> inherited list) list \<Rightarrow> (ustr \<times> inherited list) list" where
  "retain_inherited removed by_name =
     filter (\<lambda>(_, rs). rs \<noteq> []) (map (\<lambda>(n, rs). (n, filter (\<lambda>r. \<not> removed (in_uri r)) rs)) by_name)"

definition derived_remove_files :: "(ustr \<Rightarrow> bool) \<Rightarrow> derived_index \<Rightarrow> derived_index" where
  "derived_remove_files removed d =
     (if derived_is_empty d then d
      else \<lparr>di_inherited = filter (\<lambda>(_, by_name). by_name \<noteq> [])
              (map (\<lambda>(t, by_name). (t, retain_inherited removed by_name)) (di_inherited d)),
            di_duplicates = filter (\<lambda>(_, rs). rs \<noteq> [])
              (map (\<lambda>(t, rs). (t, filter (\<lambda>r. \<not> removed (du_uri r)) rs)) (di_duplicates d))\<rparr>)"

definition base_type :: "ustr \<Rightarrow> ustr" where
  "base_type t = (case split_once (asc CHR ''.'') t of Some (base, _) \<Rightarrow> base | None \<Rightarrow> t)"

definition duplicate_sources :: "ustr \<Rightarrow> ustr \<Rightarrow> derived_index \<Rightarrow> ustr list" where
  "duplicate_sources type_name name d =
     List.map_filter (\<lambda>r. case strip_prefix (du_name_lower r) name of
         None \<Rightarrow> None
       | Some rest \<Rightarrow> if rest \<noteq> [] then Some (du_source_lower r @ rest) else None)
       (alist_get [] (di_duplicates d) (base_type type_name))"

definition derived_contains :: "ustr \<Rightarrow> ustr \<Rightarrow> (ustr \<Rightarrow> ustr \<Rightarrow> bool) \<Rightarrow> derived_index \<Rightarrow> bool" where
  "derived_contains type_name name known d \<longleftrightarrow>
     list_ex (\<lambda>r. known (in_via_type r) (in_via_lower r)) (alist_get [] (alist_get [] (di_inherited d) type_name) name)
     \<or> list_ex (\<lambda>source. known type_name source) (duplicate_sources type_name name d)"

text \<open>
  \<^verbatim>\<open>materialize\<close>: the plain instances, by file and type, that stand for the derived names; a name
  is stored once.  \<open>derived_names_of\<close> lists the calls of its closure \<^verbatim>\<open>push\<close> in their order.
\<close>

type_synonym materialized = "(ustr \<times> (ustr \<times> type_instance list) list) list"

definition push_materialized ::
    "(ustr \<Rightarrow> ustr \<Rightarrow> bool) \<Rightarrow> (ustr \<Rightarrow> ustr \<Rightarrow> bool) \<Rightarrow> ustr \<times> ustr \<times> ustr \<times> source_location \<Rightarrow>
     materialized \<times> (ustr \<times> ustr) set \<Rightarrow> materialized \<times> (ustr \<times> ustr) set" where
  "push_materialized is_declared contains = (\<lambda>(uri, type_name, name, location) (out, seen).
     let lower = to_ascii_lowercase name in
     if is_declared type_name lower \<or> \<not> contains type_name lower \<or> (type_name, lower) \<in> seen then (out, seen)
     else
       (let per_type = alist_get [] out uri;
            inst = \<lparr>ti_name = name, ti_location = location, ti_primary_loc_key = None, ti_required_loc_keys = []\<rparr>
        in (AList.update uri (AList.update type_name (alist_get [] per_type type_name @ [inst]) per_type) out,
            insert (type_name, lower) seen)))"

definition inherited_pushes :: "derived_index \<Rightarrow> (ustr \<times> ustr \<times> ustr \<times> source_location) list" where
  "inherited_pushes d =
     [(in_uri r, subtype, in_name r, in_location r). (subtype, by_name) \<leftarrow> di_inherited d, (_, records) \<leftarrow> by_name, r \<leftarrow> records]"

definition duplicate_pushes ::
    "ustr list \<Rightarrow> (ustr \<Rightarrow> ustr list) \<Rightarrow> derived_index \<Rightarrow> (ustr \<times> ustr \<times> ustr \<times> source_location) list" where
  "duplicate_pushes type_names declared d =
     [(du_uri r, key, du_name_lower r @ rest, du_location r).
        (base, duplicates) \<leftarrow> di_duplicates d, r \<leftarrow> duplicates,
        rest \<leftarrow> filter (\<lambda>rest. rest \<noteq> []) (List.map_filter (strip_prefix (du_source_lower r)) (declared base)),
        key \<leftarrow> filter (\<lambda>t. base_type t = base) type_names]"

definition derived_materialize ::
    "ustr list \<Rightarrow> (ustr \<Rightarrow> ustr list) \<Rightarrow> (ustr \<Rightarrow> ustr \<Rightarrow> bool) \<Rightarrow> (ustr \<Rightarrow> ustr \<Rightarrow> bool) \<Rightarrow> derived_index \<Rightarrow> materialized" where
  "derived_materialize type_names declared is_declared contains d =
     fst (fold (push_materialized is_declared contains) (inherited_pushes d @ duplicate_pushes type_names declared d) ([], {}))"

section \<open>The index\<close>

record name_refs =
  nr_total :: nat
  nr_workspace :: nat
  nr_positions :: "nat list"

definition no_refs :: name_refs where
  "no_refs = \<lparr>nr_total = 0, nr_workspace = 0, nr_positions = []\<rparr>"

definition refs_add :: "bool \<Rightarrow> nat \<Rightarrow> name_refs \<Rightarrow> name_refs" where
  "refs_add base_game position r =
     r\<lparr>nr_total := nr_total r + 1, nr_workspace := nr_workspace r + of_bool (\<not> base_game),
       nr_positions := nr_positions r @ [position]\<rparr>"

text \<open>\<^verbatim>\<open>release\<close>: the counts go down without wrapping; the name is gone when none is left.\<close>

definition refs_release :: "bool \<Rightarrow> name_refs \<Rightarrow> bool \<times> name_refs" where
  "refs_release base_game r =
     (let r = r\<lparr>nr_total := nr_total r - 1, nr_workspace := nr_workspace r - of_bool (\<not> base_game)\<rparr>
      in (nr_total r = 0, r))"

type_synonym name_set = "(ustr \<times> name_refs) list"

definition release_name :: "ustr \<Rightarrow> bool \<Rightarrow> name_set \<Rightarrow> bool \<times> name_set" where
  "release_name name base_game names =
     (case map_of names name of
        None \<Rightarrow> (False, names)
      | Some refs \<Rightarrow>
          (let (gone, refs) = refs_release base_game refs in
           if gone then (True, AList.delete name names) else (False, AList.update name refs names)))"

text \<open>\<^verbatim>\<open>Vec::swap_remove\<close>, within range, and \<^verbatim>\<open>iter().position\<close>.\<close>

definition swap_remove :: "nat \<Rightarrow> 'a list \<Rightarrow> 'a list" where
  "swap_remove i xs = butlast (xs[i := last xs])"

fun index_of :: "'a \<Rightarrow> 'a list \<Rightarrow> nat option" where
  "index_of x [] = None"
| "index_of x (y # ys) = (if x = y then Some 0 else map_option Suc (index_of x ys))"

definition release_name_at :: "ustr \<Rightarrow> bool \<Rightarrow> nat \<Rightarrow> name_set \<Rightarrow> bool \<times> name_set" where
  "release_name_at name base_game position names =
     (case map_of names name of
        None \<Rightarrow> (False, names)
      | Some refs \<Rightarrow>
          (let refs = (case index_of position (nr_positions refs) of
                         Some slot \<Rightarrow> refs\<lparr>nr_positions := swap_remove slot (nr_positions refs)\<rparr> | None \<Rightarrow> refs);
               (gone, refs) = refs_release base_game refs
           in (gone, if gone then AList.delete name names else AList.update name refs names)))"

record file_replacement_changes =
  fr_file_uri :: ustr
  fr_touched :: "((ustr \<times> ustr) \<times> bool) list"

type_synonym type_map = "(ustr \<times> (ustr \<times> type_instance) list) list"
type_synonym position_map = "(ustr \<times> (ustr \<times> nat list) list) list"

record type_index =
  tx_map :: type_map
  tx_name_counts :: "ustr counts"
  tx_instance_sets :: "(ustr \<times> name_set) list"
  tx_changed :: "(ustr \<times> ustr) set"
  tx_dirty :: "(ustr \<times> ustr) set"
  tx_file_replacement :: "file_replacement_changes option"
  tx_base_game_uris :: "ustr set"
  tx_file_positions :: position_map
  tx_derived :: derived_index
  tx_file_index :: file_index
  tx_var_index :: var_index
  tx_scripted_loc_index :: scripted_loc_index
  tx_scripted_gui_index :: scripted_gui_index
  tx_complete :: bool
  tx_complex_enum_values :: named_value_index
  tx_value_set_values :: named_value_index

definition TypeIndex_new :: type_index where
  "TypeIndex_new = \<lparr>tx_map = [], tx_name_counts = [], tx_instance_sets = [], tx_changed = {}, tx_dirty = {},
     tx_file_replacement = None, tx_base_game_uris = {}, tx_file_positions = [],
     tx_derived = \<lparr>di_inherited = [], di_duplicates = []\<rparr>, tx_file_index = file_index_empty, tx_var_index = var_empty,
     tx_scripted_loc_index = scripted_loc_empty, tx_scripted_gui_index = scripted_loc_empty, tx_complete = False,
     tx_complex_enum_values = named_value_empty, tx_value_set_values = named_value_empty\<rparr>"

subsection \<open>Lookups\<close>

definition DERIVATION_DEPTH :: nat where "DERIVATION_DEPTH = 4"

definition ascii_lowercase_if_needed :: "ustr \<Rightarrow> ustr" where
  "ascii_lowercase_if_needed s = (if list_ex is_ascii_uppercase s then to_ascii_lowercase s else s)"

definition contains_declared :: "ustr \<Rightarrow> ustr \<Rightarrow> type_index \<Rightarrow> bool" where
  "contains_declared type_name lower s \<longleftrightarrow>
     (case map_of (tx_instance_sets s) type_name of None \<Rightarrow> False | Some names \<Rightarrow> map_of names lower \<noteq> None)"

fun contains_lower :: "ustr \<Rightarrow> ustr \<Rightarrow> nat \<Rightarrow> type_index \<Rightarrow> bool" where
  "contains_lower type_name lower 0 s \<longleftrightarrow> contains_declared type_name lower s"
| "contains_lower type_name lower (Suc depth) s \<longleftrightarrow>
     contains_declared type_name lower s \<or>
     (\<not> derived_is_empty (tx_derived s)
      \<and> derived_contains type_name lower (\<lambda>t n. contains_lower t n depth s) (tx_derived s))"

definition type_contains :: "ustr \<Rightarrow> ustr \<Rightarrow> type_index \<Rightarrow> bool" where
  "type_contains type_name instance s = contains_lower type_name (ascii_lowercase_if_needed instance) DERIVATION_DEPTH s"

definition workspace_definition_count :: "ustr \<Rightarrow> ustr \<Rightarrow> type_index \<Rightarrow> nat" where
  "workspace_definition_count type_name instance s =
     (case map_of (tx_instance_sets s) type_name of
        None \<Rightarrow> 0
      | Some names \<Rightarrow>
          (case map_of names (ascii_lowercase_if_needed instance) of Some r \<Rightarrow> nr_workspace r | None \<Rightarrow> 0))"

definition index_is_any_instance :: "ustr \<Rightarrow> type_index \<Rightarrow> bool" where
  "index_is_any_instance name s \<longleftrightarrow> map_of (tx_name_counts s) (ascii_lowercase_if_needed name) \<noteq> None"

definition instances :: "ustr \<Rightarrow> type_index \<Rightarrow> (ustr \<times> type_instance) list" where
  "instances type_name s = alist_get [] (tx_map s) type_name"

text \<open>The lookups that follow positions; \<open>None\<close> where a position is out of range.\<close>

definition entries_at :: "'a list \<Rightarrow> nat list \<Rightarrow> 'a list option" where
  "entries_at xs ps = (if list_all (\<lambda>i. i < length xs) ps then Some (map (nth xs) ps) else None)"

fun concat_options :: "'a list option list \<Rightarrow> 'a list option" where
  "concat_options [] = Some []"
| "concat_options (x # xs) = do { a \<leftarrow> x; b \<leftarrow> concat_options xs; Some (a @ b) }"

definition instances_in_file :: "ustr \<Rightarrow> type_index \<Rightarrow> (ustr \<times> type_instance) list option" where
  "instances_in_file file_uri s =
     (case map_of (tx_file_positions s) file_uri of
        None \<Rightarrow> Some []
      | Some type_positions \<Rightarrow>
          concat_options (map (\<lambda>(type_name, positions).
            if is_subtype_key type_name then Some []
            else case map_of (tx_map s) type_name of
                   None \<Rightarrow> Some []
                 | Some entries \<Rightarrow> map_option (map (\<lambda>(_, inst). (type_name, inst))) (entries_at entries positions))
            type_positions))"

definition instance_locations :: "ustr \<Rightarrow> type_index \<Rightarrow> (ustr \<times> source_location) list option" where
  "instance_locations name s =
     (let name = ascii_lowercase_if_needed name in
      concat_options (map (\<lambda>(type_name, entries).
        case map_of (alist_get [] (tx_instance_sets s) type_name) name of
          None \<Rightarrow> Some []
        | Some refs \<Rightarrow> map_option (map (\<lambda>(uri, inst). (uri, ti_location inst))) (entries_at entries (sort (nr_positions refs))))
        (tx_map s)))"

definition primary_loc_key :: "ustr \<Rightarrow> ustr \<Rightarrow> type_index \<Rightarrow> ustr option option" where
  "primary_loc_key type_name name s =
     (case map_of (tx_map s) type_name of
        None \<Rightarrow> Some None
      | Some entries \<Rightarrow>
          (case map_of (alist_get [] (tx_instance_sets s) type_name) (ascii_lowercase_if_needed name) of
             None \<Rightarrow> Some None
           | Some refs \<Rightarrow>
               (if list_all (\<lambda>i. i < length entries) (nr_positions refs)
                then (case sort (filter (\<lambda>i. ti_primary_loc_key (snd (entries ! i)) \<noteq> None) (nr_positions refs)) of
                        [] \<Rightarrow> Some None
                      | i # _ \<Rightarrow> Some (ti_primary_loc_key (snd (entries ! i))))
                else None)))"

definition instance_at :: "ustr \<Rightarrow> ustr \<Rightarrow> ustr \<Rightarrow> nat \<Rightarrow> nat \<Rightarrow> type_index \<Rightarrow> type_instance option option" where
  "instance_at file_uri type_name name line col s =
     (case map_of (alist_get [] (tx_file_positions s) file_uri) type_name of
        None \<Rightarrow> Some None
      | Some positions \<Rightarrow>
          (case map_of (tx_map s) type_name of
             None \<Rightarrow> Some None
           | Some entries \<Rightarrow>
               map_option (\<lambda>es. find (\<lambda>i. loc_line (ti_location i) = line \<and> loc_col (ti_location i) = col \<and> ti_name i = name) (map snd es))
                 (entries_at entries positions)))"

definition is_instance_at :: "ustr \<Rightarrow> ustr \<Rightarrow> ustr \<Rightarrow> nat \<Rightarrow> nat \<Rightarrow> type_index \<Rightarrow> bool option" where
  "is_instance_at type_name uri name line col s =
     (case map_of (alist_get [] (tx_file_positions s) uri) type_name of
        None \<Rightarrow> Some False
      | Some positions \<Rightarrow>
          (case map_of (tx_map s) type_name of
             None \<Rightarrow> Some False
           | Some entries \<Rightarrow>
               map_option (list_ex (\<lambda>(_, inst). loc_line (ti_location inst) = line \<and> loc_col (ti_location inst) = col
                   \<and> eq_ignore_ascii_case (ti_name inst) name))
                 (entries_at entries positions)))"

definition instance_type_names_in_file :: "ustr \<Rightarrow> ustr \<Rightarrow> ustr \<Rightarrow> source_location \<Rightarrow> type_index \<Rightarrow> ustr list option" where
  "instance_type_names_in_file file_uri base_type_name name location s =
     concat_options (map (\<lambda>(type_name, positions).
       if type_name \<noteq> base_type_name
          \<and> \<not> (case strip_prefix base_type_name type_name of None \<Rightarrow> False | Some rest \<Rightarrow> starts_with rest (str ''.''))
       then Some []
       else case map_of (tx_map s) type_name of
              None \<Rightarrow> Some []
            | Some entries \<Rightarrow>
                map_option (\<lambda>es. if list_ex (\<lambda>(_, inst). ti_name inst = name \<and> loc_line (ti_location inst) = loc_line location
                      \<and> loc_col (ti_location inst) = loc_col location) es then [type_name] else [])
                  (entries_at entries positions))
       (alist_get [] (tx_file_positions s) file_uri))"

definition loc_bindable_names :: "type_index \<Rightarrow> ustr list" where
  "loc_bindable_names s = map fst (tx_name_counts s) @ var_all_names (tx_var_index s)"

subsection \<open>The journal of names\<close>

definition toggle_instance_name :: "ustr \<Rightarrow> bool \<Rightarrow> ustr \<Rightarrow> type_index \<Rightarrow> type_index" where
  "toggle_instance_name type_name added lower_name s =
     (case tx_file_replacement s of
        Some fr \<Rightarrow>
          (case map_of (fr_touched fr) (type_name, lower_name) of
             Some _ \<Rightarrow> s
           | None \<Rightarrow> s\<lparr>tx_file_replacement := Some (fr\<lparr>fr_touched := AList.update (type_name, lower_name) (\<not> added) (fr_touched fr)\<rparr>)\<rparr>)
      | None \<Rightarrow> s\<lparr>tx_changed := insert (type_name, lower_name) (tx_changed s)\<rparr>)"

text \<open>\<^verbatim>\<open>take_instance_name_changes\<close>, its sorted list as a set.\<close>

definition take_instance_name_changes :: "type_index \<Rightarrow> (ustr \<times> ustr) set \<times> type_index" where
  "take_instance_name_changes s = (tx_changed s \<union> tx_dirty s, s\<lparr>tx_changed := {}, tx_dirty := {}\<rparr>)"

definition has_instance_name_changes :: "type_index \<Rightarrow> bool" where
  "has_instance_name_changes s \<longleftrightarrow> tx_changed s \<noteq> {} \<or> tx_dirty s \<noteq> {}"

definition has_pending_instance_name_change :: "ustr \<Rightarrow> ustr \<Rightarrow> type_index \<Rightarrow> bool" where
  "has_pending_instance_name_change type_name lower_name s \<longleftrightarrow>
     (type_name, lower_name) \<in> tx_changed s \<or> (type_name, lower_name) \<in> tx_dirty s"

definition mark_instance_name_dirty :: "ustr \<Rightarrow> ustr \<Rightarrow> type_index \<Rightarrow> type_index" where
  "mark_instance_name_dirty type_name lower_name s = s\<lparr>tx_dirty := insert (type_name, lower_name) (tx_dirty s)\<rparr>"

definition begin_file_replacement :: "ustr \<Rightarrow> type_index \<Rightarrow> type_index" where
  "begin_file_replacement file_uri s = s\<lparr>tx_file_replacement := Some \<lparr>fr_file_uri = file_uri, fr_touched = []\<rparr>\<rparr>"

definition finish_file_replacement :: "ustr \<Rightarrow> type_index \<Rightarrow> type_index" where
  "finish_file_replacement file_uri s =
     (case tx_file_replacement s of
        None \<Rightarrow> s
      | Some fr \<Rightarrow>
          s\<lparr>tx_file_replacement := None,
            tx_changed := tx_changed s \<union> set (map fst (filter (\<lambda>((t, n), was_present). type_contains t n s \<noteq> was_present) (fr_touched fr)))\<rparr>)"

subsection \<open>Merging\<close>

type_synonym merge_state = "ustr counts \<times> name_set \<times> (ustr \<times> type_instance) list \<times> nat list \<times> ustr list"

definition merge_instance :: "ustr \<Rightarrow> bool \<Rightarrow> bool \<Rightarrow> type_instance \<Rightarrow> merge_state \<Rightarrow> merge_state" where
  "merge_instance uri base_game subtype_key inst = (\<lambda>(name_counts, names, entry, positions, added).
     let lower = to_ascii_lowercase (ti_name inst);
         name_counts = (if subtype_key then name_counts else inc_ref lower name_counts);
         position = length entry;
         refs = alist_get no_refs names lower;
         added = (if nr_total refs = 0 then added @ [lower] else added)
     in (name_counts, AList.update lower (refs_add base_game position refs) names, entry @ [(uri, inst)],
         positions @ [position], added))"

definition merge_type :: "ustr \<Rightarrow> bool \<Rightarrow> ustr \<times> type_instance list \<Rightarrow> type_index \<Rightarrow> type_index" where
  "merge_type uri base_game = (\<lambda>(type_name, insts) s.
     let by_type = alist_get [] (tx_file_positions s) uri;
         (name_counts, names, entry, positions, added) =
           fold (merge_instance uri base_game (is_subtype_key type_name)) insts
             (tx_name_counts s, alist_get [] (tx_instance_sets s) type_name, alist_get [] (tx_map s) type_name,
              alist_get [] by_type type_name, []);
         s = s\<lparr>tx_name_counts := name_counts,
               tx_instance_sets := AList.update type_name names (tx_instance_sets s),
               tx_map := AList.update type_name entry (tx_map s),
               tx_file_positions := AList.update uri (AList.update type_name positions by_type) (tx_file_positions s)\<rparr>
     in fold (toggle_instance_name type_name True) added s)"

definition merge_from :: "ustr \<Rightarrow> (ustr \<times> type_instance list) list \<Rightarrow> bool \<Rightarrow> type_index \<Rightarrow> type_index" where
  "merge_from file_uri per_type base_game s =
     fold (merge_type file_uri base_game) per_type
       (if base_game then s\<lparr>tx_base_game_uris := insert file_uri (tx_base_game_uris s)\<rparr> else s)"

definition merge_workspace :: "ustr \<Rightarrow> (ustr \<times> type_instance list) list \<Rightarrow> type_index \<Rightarrow> type_index" where
  "merge_workspace file_uri per_type s = merge_from file_uri per_type False s"

definition merge_base_game :: "ustr \<Rightarrow> (ustr \<times> type_instance list) list \<Rightarrow> type_index \<Rightarrow> type_index" where
  "merge_base_game file_uri per_type s = merge_from file_uri per_type True s"

text \<open>The batch of the base game: each entry brings its own file.\<close>

type_synonym base_merge_state =
  "ustr counts \<times> name_set \<times> (ustr \<times> type_instance) list \<times> position_map \<times> ustr set \<times> ustr list"

definition merge_base_instance :: "ustr \<Rightarrow> ustr \<times> type_instance \<Rightarrow> base_merge_state \<Rightarrow> base_merge_state" where
  "merge_base_instance type_name = (\<lambda>(uri, inst) (name_counts, names, entry, file_positions, base_uris, added).
     let lower = to_ascii_lowercase (ti_name inst);
         name_counts = (if is_subtype_key type_name then name_counts else inc_ref lower name_counts);
         pos = length entry;
         refs = alist_get no_refs names lower;
         added = (if nr_total refs = 0 then added @ [lower] else added);
         type_positions = alist_get [] file_positions uri;
         type_positions = AList.update type_name (alist_get [] type_positions type_name @ [pos]) type_positions
     in (name_counts, AList.update lower (refs_add True pos refs) names, entry @ [(uri, inst)],
         AList.update uri type_positions file_positions, insert uri base_uris, added))"

definition merge_base_type :: "ustr \<times> (ustr \<times> type_instance) list \<Rightarrow> type_index \<Rightarrow> type_index" where
  "merge_base_type = (\<lambda>(type_name, insts) s.
     let (name_counts, names, entry, file_positions, base_uris, added) =
           fold (merge_base_instance type_name) insts
             (tx_name_counts s, alist_get [] (tx_instance_sets s) type_name, alist_get [] (tx_map s) type_name,
              tx_file_positions s, tx_base_game_uris s, []);
         s = s\<lparr>tx_name_counts := name_counts,
               tx_instance_sets := AList.update type_name names (tx_instance_sets s),
               tx_map := AList.update type_name entry (tx_map s),
               tx_file_positions := file_positions, tx_base_game_uris := base_uris\<rparr>
     in fold (toggle_instance_name type_name True) added s)"

definition merge_base_game_with_uris :: "(ustr \<times> (ustr \<times> type_instance) list) list \<Rightarrow> type_index \<Rightarrow> type_index" where
  "merge_base_game_with_uris per_type s = fold merge_base_type per_type s"

definition materialize_derived :: "type_index \<Rightarrow> type_index" where
  "materialize_derived s =
     fold (\<lambda>(uri, per_type). merge_workspace uri per_type)
       (derived_materialize (map fst (tx_instance_sets s))
          (\<lambda>t. map fst (alist_get [] (tx_instance_sets s) t))
          (\<lambda>t n. contains_declared t n s) (\<lambda>t n. type_contains t n s) (tx_derived s)) s"

definition merge_derived :: "ustr \<Rightarrow> derived_names \<Rightarrow> type_index \<Rightarrow> type_index" where
  "merge_derived file_uri names s = s\<lparr>tx_derived := derived_merge file_uri names (tx_derived s)\<rparr>"

subsection \<open>Removing\<close>

text \<open>\<^verbatim>\<open>*slot = index\<close> for the first position that is \<open>last\<close>.\<close>

definition repoint :: "nat \<Rightarrow> nat \<Rightarrow> nat list \<Rightarrow> nat list" where
  "repoint old new ps = (case index_of old ps of Some slot \<Rightarrow> ps[slot := new] | None \<Rightarrow> ps)"

definition swap_remove_instance :: "ustr \<Rightarrow> nat \<Rightarrow> type_index \<Rightarrow> type_index option" where
  "swap_remove_instance type_name index s =
     (case map_of (tx_map s) type_name of
        None \<Rightarrow> Some s
      | Some v \<Rightarrow>
          if index \<ge> length v then None
          else
            (let last_index = length v - 1; v = swap_remove index v;
                 s = s\<lparr>tx_map := AList.update type_name v (tx_map s)\<rparr>
             in if index = last_index then Some s
                else
                  (let (moved_uri, moved) = v ! index;
                       s = (case map_of (tx_file_positions s) moved_uri of
                              None \<Rightarrow> s
                            | Some by_type \<Rightarrow>
                                (case map_of by_type type_name of
                                   None \<Rightarrow> s
                                 | Some positions \<Rightarrow>
                                     s\<lparr>tx_file_positions := AList.update moved_uri
                                         (AList.update type_name (repoint last_index index positions) by_type) (tx_file_positions s)\<rparr>));
                       lower = ascii_lowercase_if_needed (ti_name moved)
                   in Some
                     (case map_of (tx_instance_sets s) type_name of
                        None \<Rightarrow> s
                      | Some names \<Rightarrow>
                          (case map_of names lower of
                             None \<Rightarrow> s
                           | Some refs \<Rightarrow>
                               s\<lparr>tx_instance_sets := AList.update type_name
                                   (AList.update lower (refs\<lparr>nr_positions := repoint last_index index (nr_positions refs)\<rparr>) names)
                                   (tx_instance_sets s)\<rparr>)))))"

definition remove_instance :: "ustr \<Rightarrow> bool \<Rightarrow> nat \<Rightarrow> type_index \<Rightarrow> type_index option" where
  "remove_instance type_name base_game index s =
     (case map_of (tx_map s) type_name of
        None \<Rightarrow> Some s
      | Some v \<Rightarrow>
          if index \<ge> length v then None
          else
            (let lower = to_ascii_lowercase (ti_name (snd (v ! index)));
                 s = (if is_subtype_key type_name then s else s\<lparr>tx_name_counts := dec_ref lower (tx_name_counts s)\<rparr>);
                 (removed_name, s) = (case map_of (tx_instance_sets s) type_name of
                    None \<Rightarrow> (False, s)
                  | Some names \<Rightarrow>
                      (let (gone, names) = release_name_at lower base_game index names
                       in (gone, s\<lparr>tx_instance_sets := AList.update type_name names (tx_instance_sets s)\<rparr>)));
                 s = (if removed_name then toggle_instance_name type_name False lower s else s)
             in swap_remove_instance type_name index s))"

fun remove_positions :: "ustr \<Rightarrow> bool \<Rightarrow> nat list \<Rightarrow> type_index \<Rightarrow> type_index option" where
  "remove_positions type_name base_game [] s = Some s"
| "remove_positions type_name base_game (i # is) s =
     Option.bind (remove_instance type_name base_game i s) (remove_positions type_name base_game is)"

definition drop_empty_type :: "ustr \<Rightarrow> type_index \<Rightarrow> type_index" where
  "drop_empty_type type_name s =
     (if map_of (tx_map s) type_name = Some []
      then s\<lparr>tx_map := AList.delete type_name (tx_map s), tx_instance_sets := AList.delete type_name (tx_instance_sets s)\<rparr>
      else s)"

fun remove_types :: "bool \<Rightarrow> (ustr \<times> nat list) list \<Rightarrow> type_index \<Rightarrow> type_index option" where
  "remove_types base_game [] s = Some s"
| "remove_types base_game ((type_name, positions) # tps) s =
     Option.bind (remove_positions type_name base_game (rev (sort positions)) s)
       (\<lambda>s. remove_types base_game tps (drop_empty_type type_name s))"

definition remove_file :: "ustr \<Rightarrow> type_index \<Rightarrow> type_index option" where
  "remove_file file_uri s =
     (let s = s\<lparr>tx_complex_enum_values := named_value_remove_file file_uri (tx_complex_enum_values s),
                tx_value_set_values := named_value_remove_file file_uri (tx_value_set_values s),
                tx_scripted_loc_index := scripted_loc_remove_file file_uri (tx_scripted_loc_index s),
                tx_scripted_gui_index := scripted_gui_remove_file file_uri (tx_scripted_gui_index s),
                tx_derived := derived_remove_files (\<lambda>uri. uri = file_uri) (tx_derived s)\<rparr>
      in case map_of (tx_file_positions s) file_uri of
           None \<Rightarrow> Some s
         | Some type_positions \<Rightarrow>
             (let base_game = (file_uri \<in> tx_base_game_uris s);
                  s = s\<lparr>tx_file_positions := AList.delete file_uri (tx_file_positions s),
                        tx_base_game_uris := tx_base_game_uris s - {file_uri}\<rparr>
              in remove_types base_game type_positions s))"

text \<open>
  \<^verbatim>\<open>remove_files\<close>, a batch: the survivors of every type close up, and both tables of positions are
  built again.  \<open>forget_entry\<close> is the body of \<^verbatim>\<open>retain\<close> for an entry that goes.
\<close>

type_synonym forget_state = "ustr counts \<times> name_set \<times> ustr list"

definition forget_entry :: "ustr set \<Rightarrow> bool \<Rightarrow> ustr \<times> type_instance \<Rightarrow> forget_state \<Rightarrow> forget_state" where
  "forget_entry base_uris subtype_key = (\<lambda>(uri, inst) (name_counts, names, gone).
     let lower = to_ascii_lowercase (ti_name inst);
         name_counts = (if subtype_key then name_counts else dec_ref lower name_counts);
         (was_last, names) = release_name lower (uri \<in> base_uris) names
     in (name_counts, names, if was_last then gone @ [lower] else gone))"

definition remove_files_type :: "ustr set \<Rightarrow> ustr set \<Rightarrow> ustr \<times> (ustr \<times> type_instance) list \<Rightarrow>
    ustr counts \<times> (ustr \<times> name_set) list \<times> type_map \<times> (ustr \<times> ustr) list \<Rightarrow>
    ustr counts \<times> (ustr \<times> name_set) list \<times> type_map \<times> (ustr \<times> ustr) list" where
  "remove_files_type uris base_uris = (\<lambda>(type_name, entries) (name_counts, sets, kept, changes).
     let (name_counts, names, gone) =
           fold (forget_entry base_uris (is_subtype_key type_name)) (filter (\<lambda>(uri, _). uri \<in> uris) entries)
             (name_counts, alist_get [] sets type_name, [])
     in (name_counts, if map_of sets type_name = None then sets else AList.update type_name names sets,
         kept @ [(type_name, filter (\<lambda>(uri, _). uri \<notin> uris) entries)], changes @ map (Pair type_name) gone))"

definition reindex_entry :: "ustr \<Rightarrow> nat \<times> ustr \<times> type_instance \<Rightarrow> position_map \<times> name_set \<Rightarrow> position_map \<times> name_set" where
  "reindex_entry type_name = (\<lambda>(i, uri, inst) (file_positions, names).
     let by_type = alist_get [] file_positions uri;
         lower = ascii_lowercase_if_needed (ti_name inst)
     in (AList.update uri (AList.update type_name (alist_get [] by_type type_name @ [i]) by_type) file_positions,
         case map_of names lower of
           None \<Rightarrow> names
         | Some refs \<Rightarrow> AList.update lower (refs\<lparr>nr_positions := nr_positions refs @ [i]\<rparr>) names))"

definition reindex_type :: "ustr \<times> (ustr \<times> type_instance) list \<Rightarrow>
    position_map \<times> (ustr \<times> name_set) list \<Rightarrow> position_map \<times> (ustr \<times> name_set) list" where
  "reindex_type = (\<lambda>(type_name, entries) (file_positions, sets).
     let names = map (\<lambda>(n, refs). (n, refs\<lparr>nr_positions := []\<rparr>)) (alist_get [] sets type_name);
         (file_positions, names) = fold (reindex_entry type_name) (enumerate 0 entries) (file_positions, names)
     in (file_positions, if map_of sets type_name = None then sets else AList.update type_name names sets))"

definition remove_files :: "ustr set \<Rightarrow> type_index \<Rightarrow> type_index" where
  "remove_files uris s =
     (if uris = {} then s
      else
        (let (name_counts, sets, kept, changes) =
               fold (remove_files_type uris (tx_base_game_uris s)) (tx_map s) (tx_name_counts s, tx_instance_sets s, [], []);
             kept = filter (\<lambda>(_, v). v \<noteq> []) kept;
             sets = filter (\<lambda>(_, names). names \<noteq> []) sets;
             s = s\<lparr>tx_derived := derived_remove_files (\<lambda>uri. uri \<in> uris) (tx_derived s),
                   tx_name_counts := name_counts, tx_map := kept, tx_instance_sets := sets,
                   tx_base_game_uris := tx_base_game_uris s - uris\<rparr>;
             s = fold (\<lambda>(type_name, lower). toggle_instance_name type_name False lower) changes s;
             (file_positions, sets) = fold reindex_type (tx_map s) ([], tx_instance_sets s)
         in s\<lparr>tx_file_positions := file_positions, tx_instance_sets := sets\<rparr>))"

end
