(* ===== verification/Type_Index_Ok.thy ===== *)
theory Type_Index_Ok
  imports Type_Index "HOL-Library.Multiset"
begin

text \<open>
  The invariant of the type index and that merging and removing files keep it.  \<open>type_ok\<close> is the
  invariant of one type: the two position tables point at exactly the entries of a file and of
  a name, also while \<open>swap_remove\<close> moves entries about.  \<open>moved_to\<close> is the one fact about such a
  move that everything follows from: the positions afterwards are the positions before, without
  the removed one, with the last one renamed.
\<close>

named_theorems ix_simps \<open>the tables of the index after an operation\<close>

section \<open>Removal by swapping\<close>

lemma length_swap_remove [simp]: "length (swap_remove i xs) = length xs - 1"
  by (simp add: swap_remove_def)

lemma nth_swap_remove:
  assumes "i < length xs" "k < length xs - 1"
  shows "swap_remove i xs ! k = (if k = i then xs ! (length xs - 1) else xs ! k)"
proof -
  have "xs \<noteq> []" using assms(1) by auto
  then show ?thesis using assms by (auto simp: swap_remove_def nth_butlast last_conv_nth)
qed

lemma mset_swap_remove: "i < length xs \<Longrightarrow> add_mset (xs ! i) (mset (swap_remove i xs)) = mset xs"
proof -
  assume i: "i < length xs"
  then obtain ys z where xs: "xs = ys @ [z]" by (cases xs rule: rev_cases) auto
  show ?thesis
  proof (cases "i = length ys")
    case False
    with i xs have k: "i < length ys" by simp
    then have "swap_remove i xs = ys[i := z]" by (simp add: swap_remove_def xs list_update_append)
    moreover have "mset ys = add_mset (ys ! i) (mset ys - {#ys ! i#})" using k by (simp add: insert_DiffM)
    ultimately show ?thesis using k by (simp add: xs nth_append mset_update)
  qed (simp add: xs swap_remove_def)
qed

lemma set_swap_remove_distinct:
  assumes "distinct xs" "i < length xs"
  shows "distinct (swap_remove i xs) \<and> set (swap_remove i xs) = set xs - {xs ! i}"
proof -
  have m: "add_mset (xs ! i) (mset (swap_remove i xs)) = mset xs" by (rule mset_swap_remove [OF assms(2)])
  then have "mset (xs ! i # swap_remove i xs) = mset xs" by simp
  then have "distinct (xs ! i # swap_remove i xs)" using assms(1) mset_eq_imp_distinct_iff by blast
  moreover have "set xs = insert (xs ! i) (set (swap_remove i xs))"
    using arg_cong [OF m, of set_mset] by simp
  ultimately show ?thesis by auto
qed

lemma index_of_Some: "index_of x xs = Some k \<Longrightarrow> k < length xs \<and> xs ! k = x"
  by (induction xs arbitrary: k) (auto split: if_splits)

lemma index_of_None: "index_of x xs = None \<longleftrightarrow> x \<notin> set xs"
  by (induction xs) auto

definition moved_to :: "nat \<Rightarrow> nat \<Rightarrow> nat \<Rightarrow> nat" where
  "moved_to old new i = (if i = old then new else i)"

lemma repoint_positions:
  assumes "distinct ps" "new \<notin> set ps"
  shows "distinct (repoint old new ps) \<and> set (repoint old new ps) = moved_to old new ` set ps"
proof (cases "index_of old ps")
  case None
  then have "old \<notin> set ps" by (simp add: index_of_None)
  then have "moved_to old new ` set ps = set ps" by (auto simp: moved_to_def)
  with None assms show ?thesis by (simp add: repoint_def)
next
  case (Some k)
  then have k: "k < length ps" "ps ! k = old" using index_of_Some by fastforce+
  have "set (ps[k := new]) = insert new (set ps - {old})"
    using set_update_distinct [OF assms(1) k(1), of new] k(2) by simp
  moreover have "moved_to old new ` set ps = insert new (set ps - {old})"
    using k by (auto simp: moved_to_def image_iff)
  ultimately show ?thesis using Some assms k distinct_list_update [of ps new k]
    by (simp add: repoint_def)
qed

text \<open>The positions of the entries with a property.\<close>

definition places :: "('a \<Rightarrow> bool) \<Rightarrow> 'a list \<Rightarrow> nat set" where
  "places Q xs = {i. i < length xs \<and> Q (xs ! i)}"

lemma finite_places [simp]: "finite (places Q xs)"
  by (simp add: places_def)

lemma places_append: "places Q (xs @ [x]) = places Q xs \<union> (if Q x then {length xs} else {})"
  by (auto simp: places_def nth_append less_Suc_eq)

lemma places_cong: "(\<And>x. x \<in> set xs \<Longrightarrow> Q x = R x) \<Longrightarrow> places Q xs = places R xs"
  by (auto simp: places_def)

lemma places_swap_remove:
  assumes "i < length xs"
  shows "places Q (swap_remove i xs) = moved_to (length xs - 1) i ` (places Q xs - {i})"
proof
  show "places Q (swap_remove i xs) \<subseteq> moved_to (length xs - 1) i ` (places Q xs - {i})"
  proof
    fix k assume "k \<in> places Q (swap_remove i xs)"
    then have k: "k < length xs - 1" "Q (swap_remove i xs ! k)" by (auto simp: places_def)
    show "k \<in> moved_to (length xs - 1) i ` (places Q xs - {i})"
    proof (cases "k = i")
      case True
      with k assms have "length xs - 1 \<in> places Q xs - {i}" by (auto simp: places_def nth_swap_remove)
      then show ?thesis using True by (force simp: moved_to_def)
    next
      case False
      with k assms have "k \<in> places Q xs - {i}" by (auto simp: places_def nth_swap_remove)
      then show ?thesis using k(1) by (force simp: moved_to_def)
    qed
  qed
next
  show "moved_to (length xs - 1) i ` (places Q xs - {i}) \<subseteq> places Q (swap_remove i xs)"
    using assms by (auto simp: places_def moved_to_def nth_swap_remove split: if_splits)
qed

lemma moved_to_inj: "inj_on (moved_to old new) (A - {new})"
  by (auto simp: inj_on_def moved_to_def split: if_splits)

lemma card_places_swap_remove:
  assumes "i < length xs"
  shows "card (places Q (swap_remove i xs)) = card (places Q xs - {i})"
  unfolding places_swap_remove [OF assms] by (rule card_image) (rule moved_to_inj)

lemma moved_to_absent: "old \<notin> A \<Longrightarrow> moved_to old new ` A = A"
  by (auto simp: moved_to_def)

section \<open>One type\<close>

definition lname :: "ustr \<times> type_instance \<Rightarrow> ustr" where
  "lname e = to_ascii_lowercase (ti_name (snd e))"

type_synonym type_entries = "(ustr \<times> type_instance) list"

text \<open>\<open>GB\<close> are the files that belong to the base game.\<close>

definition name_ok :: "ustr set \<Rightarrow> type_entries \<Rightarrow> ustr \<Rightarrow> name_refs option \<Rightarrow> bool" where
  "name_ok GB es n r \<longleftrightarrow>
     (case r of
        None \<Rightarrow> places (\<lambda>e. lname e = n) es = {}
      | Some r \<Rightarrow> distinct (nr_positions r) \<and> set (nr_positions r) = places (\<lambda>e. lname e = n) es \<and>
          nr_total r = card (places (\<lambda>e. lname e = n) es) \<and> 0 < nr_total r \<and>
          nr_workspace r = card (places (\<lambda>e. lname e = n \<and> fst e \<notin> GB) es))"

definition names_ok :: "ustr set \<Rightarrow> type_entries \<Rightarrow> name_set \<Rightarrow> bool" where
  "names_ok GB es names \<longleftrightarrow> distinct (map fst names) \<and> (\<forall>n. name_ok GB es n (map_of names n))"

text \<open>\<open>gone\<close> is the file being removed, which has no positions any more.\<close>

definition positions_ok :: "ustr option \<Rightarrow> type_entries \<Rightarrow> (ustr \<Rightarrow> nat list) \<Rightarrow> bool" where
  "positions_ok gone es P \<longleftrightarrow>
     (\<forall>u. distinct (P u) \<and> set (P u) = (if gone = Some u then {} else places (\<lambda>e. fst e = u) es))"

lemma names_ok_Nil [simp]: "names_ok GB [] []"
  by (simp add: names_ok_def name_ok_def places_def)

lemma positions_ok_Nil [simp]: "positions_ok gone [] (\<lambda>u. [])"
  by (simp add: positions_ok_def places_def)

lemma places_empty_iff: "places Q xs = {} \<longleftrightarrow> (\<forall>x \<in> set xs. \<not> Q x)"
  by (auto simp: places_def all_set_conv_all_nth)

lemma names_ok_contains: "names_ok GB es names \<Longrightarrow> map_of names n \<noteq> None \<longleftrightarrow> (\<exists>e \<in> set es. lname e = n)"
proof -
  assume "names_ok GB es names"
  then have "name_ok GB es n (map_of names n)" by (simp add: names_ok_def)
  moreover have "0 < card (places (\<lambda>e. lname e = n) es) \<longleftrightarrow> places (\<lambda>e. lname e = n) es \<noteq> {}" by (simp add: card_gt_0_iff)
  ultimately show ?thesis by (auto simp: name_ok_def places_empty_iff split: option.splits)
qed

lemma names_ok_empty: "names_ok GB [] names \<longleftrightarrow> names = []"
proof
  assume ok: "names_ok GB [] names"
  show "names = []"
  proof (rule ccontr)
    assume "names \<noteq> []"
    then obtain n r ns where "names = (n, r) # ns" by (cases names) auto
    then have "map_of names n \<noteq> None" by simp
    with names_ok_contains [OF ok] show False by simp
  qed
qed simp

subsection \<open>Merging an instance\<close>

lemma map_of_update [ix_simps]: "map_of (AList.update k v m) k' = (if k' = k then Some v else map_of m k')"
  by (simp add: update_conv')

lemma map_of_delete [ix_simps]: "map_of (AList.delete k m) k' = (if k' = k then None else map_of m k')"
  by (simp add: delete_conv')

lemma alist_get_update [ix_simps]: "alist_get d (AList.update k v m) k' = (if k' = k then v else alist_get d m k')"
  by (simp add: alist_get_def map_of_update)

lemma alist_get_delete [ix_simps]: "alist_get d (AList.delete k m) k' = (if k' = k then d else alist_get d m k')"
  by (simp add: alist_get_def map_of_delete)

lemma name_ok_get:
  assumes "names_ok GB es names"
  shows "distinct (nr_positions (alist_get no_refs names n)) \<and>
    set (nr_positions (alist_get no_refs names n)) = places (\<lambda>e. lname e = n) es \<and>
    nr_total (alist_get no_refs names n) = card (places (\<lambda>e. lname e = n) es) \<and>
    nr_workspace (alist_get no_refs names n) = card (places (\<lambda>e. lname e = n \<and> fst e \<notin> GB) es)"
proof -
  have ok: "name_ok GB es n (map_of names n)" using assms by (simp add: names_ok_def)
  have sub: "places (\<lambda>e. lname e = n \<and> fst e \<notin> GB) es \<subseteq> places (\<lambda>e. lname e = n) es" by (auto simp: places_def)
  show ?thesis
  proof (cases "map_of names n")
    case None
    with ok sub show ?thesis by (auto simp: name_ok_def alist_get_def no_refs_def)
  next
    case (Some r)
    with ok show ?thesis by (simp add: name_ok_def alist_get_def)
  qed
qed

lemma card_places_append: "card (places Q (xs @ [x])) = card (places Q xs) + of_bool (Q x)"
proof -
  have "length xs \<notin> places Q xs" by (simp add: places_def)
  then show ?thesis by (simp add: places_append)
qed

lemma names_ok_merge:
  assumes "names_ok GB es names" and "base = (u \<in> GB)"
  shows "names_ok GB (es @ [(u, inst)])
    (AList.update (lname (u, inst)) (refs_add base (length es) (alist_get no_refs names (lname (u, inst)))) names)"
    (is "names_ok GB ?es (AList.update ?n ?r names)")
proof -
  have "name_ok GB ?es ?n (Some ?r)"
    using name_ok_get [OF assms(1), of ?n] assms(2)
    by (auto simp: name_ok_def refs_add_def card_places_append, auto simp: places_append, auto simp: places_def)
  moreover have "name_ok GB ?es n (map_of names n)" if "n \<noteq> ?n" for n
  proof -
    have "places (\<lambda>e. lname e = n) ?es = places (\<lambda>e. lname e = n) es"
      "places (\<lambda>e. lname e = n \<and> fst e \<notin> GB) ?es = places (\<lambda>e. lname e = n \<and> fst e \<notin> GB) es"
      using that by (auto simp: places_append)
    moreover have "name_ok GB es n (map_of names n)" using assms(1) by (simp add: names_ok_def)
    ultimately show ?thesis unfolding name_ok_def by (cases "map_of names n") simp_all
  qed
  ultimately show ?thesis using assms(1) by (simp add: names_ok_def distinct_update ix_simps)
qed

lemma positions_ok_merge:
  assumes "positions_ok None es P" shows "positions_ok None (es @ [(u, inst)]) (P(u := P u @ [length es]))"
  using assms by (auto simp: positions_ok_def places_append) (auto simp: places_def)

subsection \<open>Removing an instance\<close>

text \<open>Between the release of a name and the move of the last entry, position \<open>i\<close> is taken back.\<close>

definition name_mid :: "ustr set \<Rightarrow> type_entries \<Rightarrow> nat \<Rightarrow> ustr \<Rightarrow> name_refs option \<Rightarrow> bool" where
  "name_mid GB es i n r \<longleftrightarrow>
     (case r of
        None \<Rightarrow> places (\<lambda>e. lname e = n) es - {i} = {}
      | Some r \<Rightarrow> distinct (nr_positions r) \<and> set (nr_positions r) = places (\<lambda>e. lname e = n) es - {i} \<and>
          nr_total r = card (places (\<lambda>e. lname e = n) es - {i}) \<and> 0 < nr_total r \<and>
          nr_workspace r = card (places (\<lambda>e. lname e = n \<and> fst e \<notin> GB) es - {i}))"

lemma release_name_at_mid:
  assumes ok: "names_ok GB es names" and i: "i < length es" and base: "base = (fst (es ! i) \<in> GB)"
    and rel: "release_name_at (lname (es ! i)) base i names = (gone, names')"
  shows "distinct (map fst names') \<and> (\<forall>n. name_mid GB es i n (map_of names' n)) \<and>
    (gone \<longleftrightarrow> places (\<lambda>e. lname e = lname (es ! i)) es = {i})"
proof -
  let ?n = "lname (es ! i)" let ?A = "places (\<lambda>e. lname e = ?n) es" and ?W = "places (\<lambda>e. lname e = ?n \<and> fst e \<notin> GB) es"
  have mem: "i \<in> ?A" using i by (simp add: places_def)
  have "map_of names ?n \<noteq> None" using names_ok_contains [OF ok, of ?n] i by auto
  then obtain r where r: "map_of names ?n = Some r" by auto
  with ok have rok: "distinct (nr_positions r)" "set (nr_positions r) = ?A" "nr_total r = card ?A" "nr_workspace r = card ?W"
    by (auto simp: names_ok_def name_ok_def dest!: spec [of _ ?n])
  obtain k where k: "index_of i (nr_positions r) = Some k" using mem rok(2) index_of_None [of i "nr_positions r"] by auto
  have kp: "k < length (nr_positions r)" "nr_positions r ! k = i" using index_of_Some [OF k] by auto
  define r' where "r' = snd (refs_release base (r\<lparr>nr_positions := swap_remove k (nr_positions r)\<rparr>))"
  have W: "i \<in> ?W \<longleftrightarrow> \<not> base" using i base by (simp add: places_def)
  have r': "distinct (nr_positions r')" "set (nr_positions r') = ?A - {i}" "nr_total r' = card (?A - {i})"
    "nr_workspace r' = card (?W - {i})"
    using set_swap_remove_distinct [OF rok(1) kp(1)] kp(2) rok mem W
    by (auto simp: r'_def refs_release_def card_Diff_singleton_if)
  have "release_name_at ?n base i names =
      (nr_total r' = 0, if nr_total r' = 0 then AList.delete ?n names else AList.update ?n r' names)"
    unfolding release_name_at_def r k option.case r'_def by (simp add: refs_release_def Let_def)
  with rel have both: "(gone, names') =
      (nr_total r' = 0, if nr_total r' = 0 then AList.delete ?n names else AList.update ?n r' names)" by (rule trans [OF sym])
  then have gone: "gone \<longleftrightarrow> nr_total r' = 0" by (rule Pair_inject)
  have names': "names' = (if gone then AList.delete ?n names else AList.update ?n r' names)"
    using both unfolding gone by (rule Pair_inject)
  have zero: "nr_total r' = 0 \<longleftrightarrow> ?A - {i} = {}" unfolding r'(3) by simp
  have "name_mid GB es i n (map_of names' n)" for n
  proof (cases "n = ?n")
    case True
    have "name_mid GB es i ?n (if gone then None else Some r')"
      using gone r' zero by (cases gone) (simp_all add: name_mid_def card_gt_0_iff)
    moreover have "map_of names' ?n = (if gone then None else Some r')" unfolding names' by (simp add: ix_simps)
    ultimately show ?thesis unfolding True by simp
  next
    case False
    then have "i \<notin> places (\<lambda>e. lname e = n) es" "i \<notin> places (\<lambda>e. lname e = n \<and> fst e \<notin> GB) es" by (auto simp: places_def)
    moreover have "name_ok GB es n (map_of names n)" using ok by (simp add: names_ok_def)
    moreover have "map_of names' n = map_of names n" unfolding names' using False by (simp add: ix_simps)
    ultimately show ?thesis unfolding name_mid_def name_ok_def by (cases "map_of names n") simp_all
  qed
  moreover have "distinct (map fst names')" using ok unfolding names' by (simp add: names_ok_def distinct_update distinct_delete)
  moreover have "gone \<longleftrightarrow> ?A = {i}" using gone zero mem by auto
  ultimately show ?thesis by blast
qed

definition repoint_name :: "nat \<Rightarrow> nat \<Rightarrow> ustr \<Rightarrow> name_set \<Rightarrow> name_set" where
  "repoint_name old new n names =
     (case map_of names n of
        None \<Rightarrow> names
      | Some refs \<Rightarrow> AList.update n (refs\<lparr>nr_positions := repoint old new (nr_positions refs)\<rparr>) names)"

lemma names_ok_move:
  assumes mid: "\<forall>n. name_mid GB es i n (map_of names n)" and d: "distinct (map fst names)" and i: "i < length es"
  shows "names_ok GB (swap_remove i es)
    (if i = length es - 1 then names else repoint_name (length es - 1) i (lname (es ! (length es - 1))) names)"
proof -
  let ?last = "length es - 1" let ?n = "lname (es ! ?last)"
  let ?names = "if i = ?last then names else repoint_name ?last i ?n names"
  have final: "name_ok GB (swap_remove i es) n (Some (r\<lparr>nr_positions := ps\<rparr>))"
    if r: "name_mid GB es i n (Some r)" and ps: "distinct ps" "set ps = moved_to ?last i ` (places (\<lambda>e. lname e = n) es - {i})" for n r ps
  proof -
    have "set ps = places (\<lambda>e. lname e = n) (swap_remove i es)" unfolding ps(2) by (simp only: places_swap_remove [OF i])
    then show ?thesis using r ps(1) by (simp add: name_mid_def name_ok_def card_places_swap_remove [OF i])
  qed
  have "name_ok GB (swap_remove i es) n (map_of ?names n)" for n
  proof (cases "map_of names n")
    case None
    from None mid have "places (\<lambda>e. lname e = n) es - {i} = {}" by (auto simp: name_mid_def dest!: spec [of _ n])
    then have "places (\<lambda>e. lname e = n) (swap_remove i es) = {}" unfolding places_swap_remove [OF i] by simp
    moreover have "map_of ?names n = None" using None by (auto simp: repoint_name_def ix_simps split: option.split)
    ultimately show ?thesis by (simp add: name_ok_def)
  next
    case (Some r)
    with mid have r: "name_mid GB es i n (Some r)" by metis
    then have pos: "distinct (nr_positions r)" "set (nr_positions r) = places (\<lambda>e. lname e = n) es - {i}" by (auto simp: name_mid_def)
    show ?thesis
    proof (cases "i \<noteq> ?last \<and> n = ?n")
      case True
      then have "map_of ?names n = Some (r\<lparr>nr_positions := repoint ?last i (nr_positions r)\<rparr>)"
        using Some by (auto simp: repoint_name_def ix_simps)
      moreover have "distinct (repoint ?last i (nr_positions r))"
        "set (repoint ?last i (nr_positions r)) = moved_to ?last i ` (places (\<lambda>e. lname e = n) es - {i})"
        using repoint_positions [OF pos(1), of i ?last] pos(2) by auto
      ultimately show ?thesis using final [OF r] by simp
    next
      case False
      then have "?last \<notin> places (\<lambda>e. lname e = n) es - {i}" by (auto simp: places_def)
      then have "moved_to ?last i ` (places (\<lambda>e. lname e = n) es - {i}) = places (\<lambda>e. lname e = n) es - {i}" by (rule moved_to_absent)
      moreover have "map_of ?names n = Some (r\<lparr>nr_positions := nr_positions r\<rparr>)"
        using False Some by (auto simp: repoint_name_def ix_simps split: option.split)
      ultimately show ?thesis using final [OF r pos(1)] pos(2) by simp
    qed
  qed
  moreover have "distinct (map fst ?names)" using d by (simp add: repoint_name_def distinct_update split: option.split)
  ultimately show ?thesis by (simp add: names_ok_def)
qed

lemma positions_ok_move:
  assumes ok: "positions_ok (Some u) es P" and i: "i < length es" and gone: "fst (es ! i) = u"
    and P': "\<And>v. v \<noteq> u \<Longrightarrow> P' v = (if i \<noteq> length es - 1 \<and> v = fst (es ! (length es - 1)) then repoint (length es - 1) i (P v) else P v)"
    and Pu: "P' u = []"
  shows "positions_ok (Some u) (swap_remove i es) P'"
proof -
  let ?last = "length es - 1"
  have "distinct (P' v) \<and> set (P' v) = places (\<lambda>e. fst e = v) (swap_remove i es)" if v: "v \<noteq> u" for v
  proof -
    have pos: "distinct (P v)" "set (P v) = places (\<lambda>e. fst e = v) es" using ok v by (auto simp: positions_ok_def)
    have i_out: "i \<notin> places (\<lambda>e. fst e = v) es" using gone v by (auto simp: places_def)
    show ?thesis
    proof (cases "i \<noteq> ?last \<and> v = fst (es ! ?last)")
      case True
      then show ?thesis using repoint_positions [OF pos(1), of i ?last] pos(2) i_out P' [OF v]
        by (simp add: places_swap_remove [OF i])
    next
      case False
      then have "?last \<notin> places (\<lambda>e. fst e = v) es - {i}" by (auto simp: places_def)
      then have "moved_to ?last i ` (places (\<lambda>e. fst e = v) es - {i}) = places (\<lambda>e. fst e = v) es - {i}" by (rule moved_to_absent)
      moreover have "P' v = P v" by (simp only: P' [OF v] if_not_P [OF False])
      ultimately show ?thesis using pos i_out by (simp add: places_swap_remove [OF i])
    qed
  qed
  then show ?thesis using Pu by (auto simp: positions_ok_def)
qed

end
