(* ===== verification/Type_Index_Files.thy ===== *)
theory Type_Index_Files
  imports Type_Index_Ok
begin

text \<open>
  The whole index over histories of files.  \<open>index_ok\<close> puts the invariants of the types together
  with the counts of names and the marks of the base game; every operation keeps it, and the
  entries of a type change as a multiset does, which is all that the lookups depend on.
\<close>

section \<open>Views\<close>

definition names_of :: "ustr \<Rightarrow> type_index \<Rightarrow> name_set" where
  "names_of t s = alist_get [] (tx_instance_sets s) t"

definition positions_of :: "ustr \<Rightarrow> type_index \<Rightarrow> ustr \<Rightarrow> nat list" where
  "positions_of t s = (\<lambda>u. alist_get [] (alist_get [] (tx_file_positions s) u) t)"

lemmas view_defs = instances_def names_of_def positions_of_def

text \<open>How often a name counts for a type, and the table of counts.\<close>

definition name_uses :: "ustr \<Rightarrow> ustr \<Rightarrow> type_entries \<Rightarrow> nat" where
  "name_uses n t es = (if is_subtype_key t then 0 else count (image_mset lname (mset es)) n)"

definition counted :: "ustr counts \<Rightarrow> (ustr \<Rightarrow> type_entries) \<Rightarrow> bool" where
  "counted c E \<longleftrightarrow> counts_ok c \<and>
     (\<exists>K. finite K \<and> (\<forall>t. t \<notin> K \<longrightarrow> E t = []) \<and> (\<forall>n. ref_count c n = (\<Sum>t\<in>K. name_uses n t (E t))))"

lemma name_uses_Nil [simp]: "name_uses n t [] = 0"
  by (simp add: name_uses_def)

lemma counted_change:
  assumes "counted c E" "counts_ok c'"
    and change: "\<And>n. ref_count c' n + name_uses n t (E t) = ref_count c n + name_uses n t es"
  shows "counted c' (E(t := es))"
proof -
  obtain K where K: "finite K" "\<forall>t. t \<notin> K \<longrightarrow> E t = []" "\<forall>n. ref_count c n = (\<Sum>t\<in>K. name_uses n t (E t))"
    using assms(1) by (auto simp: counted_def)
  have "ref_count c' n = (\<Sum>x\<in>insert t K. name_uses n x ((E(t := es)) x))" for n
  proof -
    have old: "(\<Sum>x\<in>K. name_uses n x (E x)) = name_uses n t (E t) + (\<Sum>x\<in>K - {t}. name_uses n x (E x))"
      using K(1,2) by (cases "t \<in> K") (simp_all add: sum.remove)
    have "(\<Sum>x\<in>insert t K. name_uses n x ((E(t := es)) x)) = name_uses n t es + (\<Sum>x\<in>K - {t}. name_uses n x (E x))"
      using K(1) by (simp add: sum.insert_remove)
    then show ?thesis using change [of n] K(3) old by simp
  qed
  moreover have "finite (insert t K)" "\<forall>x. x \<notin> insert t K \<longrightarrow> (E(t := es)) x = []" using K by auto
  ultimately show ?thesis unfolding counted_def using assms(2) by blast
qed

lemma counted_pos:
  assumes "counted c E"
  shows "map_of c n \<noteq> None \<longleftrightarrow> (\<exists>t. \<not> is_subtype_key t \<and> (\<exists>e \<in> set (E t). lname e = n))"
proof -
  obtain K where K: "finite K" "\<forall>t. t \<notin> K \<longrightarrow> E t = []" "ref_count c n = (\<Sum>t\<in>K. name_uses n t (E t))"
    using assms by (auto simp: counted_def)
  have use: "0 < name_uses n t (E t) \<longleftrightarrow> \<not> is_subtype_key t \<and> (\<exists>e \<in> set (E t). lname e = n)" for t
    by (auto simp: name_uses_def count_greater_zero_iff)
  have "map_of c n \<noteq> None \<longleftrightarrow> 0 < (\<Sum>t\<in>K. name_uses n t (E t))"
    using assms ref_count_pos [of c n] K(3) by (simp add: counted_def)
  also have "\<dots> \<longleftrightarrow> (\<exists>t\<in>K. 0 < name_uses n t (E t))" 
    unfolding neq0_conv [symmetric] sum_eq_0_iff [OF K(1)] by simp
  also have "\<dots> \<longleftrightarrow> (\<exists>t. \<not> is_subtype_key t \<and> (\<exists>e \<in> set (E t). lname e = n))"
    unfolding use using K(2) by (metis empty_iff empty_set)
  finally show ?thesis .
qed

section \<open>The invariant\<close>

definition keys_ok :: "type_index \<Rightarrow> bool" where
  "keys_ok s \<longleftrightarrow> distinct (map fst (tx_map s)) \<and> distinct (map fst (tx_instance_sets s)) \<and>
     distinct (map fst (tx_file_positions s)) \<and> (\<forall>u. distinct (map fst (alist_get [] (tx_file_positions s) u)))"

definition base_ok :: "ustr set \<Rightarrow> type_index \<Rightarrow> bool" where
  "base_ok GB s \<longleftrightarrow> tx_base_game_uris s \<subseteq> GB \<and>
     (\<forall>u \<in> GB. map_of (tx_file_positions s) u \<noteq> None \<longrightarrow> u \<in> tx_base_game_uris s)"

definition tables_ok :: "ustr set \<Rightarrow> ustr option \<Rightarrow> type_index \<Rightarrow> bool" where
  "tables_ok GB gone s \<longleftrightarrow>
     (\<forall>t. names_ok GB (instances t s) (names_of t s) \<and> positions_ok gone (instances t s) (positions_of t s))"

definition index_ok :: "ustr set \<Rightarrow> ustr option \<Rightarrow> type_index \<Rightarrow> bool" where
  "index_ok GB gone s \<longleftrightarrow> keys_ok s \<and> base_ok GB s \<and> tables_ok GB gone s \<and>
     counted (tx_name_counts s) (\<lambda>t. instances t s)"

lemma alist_get_Nil [ix_simps]: "alist_get d [] k = d"
  by (simp add: alist_get_def)

lemma index_ok_new: "index_ok GB None TypeIndex_new"
proof -
  have "counted [] (\<lambda>t. [])" by (auto simp: counted_def ref_count_def intro: exI [of _ "{}"])
  then show ?thesis
    by (simp add: index_ok_def TypeIndex_new_def keys_ok_def base_ok_def tables_ok_def view_defs ix_simps positions_ok_def places_def)
qed

text \<open>The journal of names is apart from the tables.\<close>

definition same_tables :: "type_index \<Rightarrow> type_index \<Rightarrow> bool" where
  "same_tables s s' \<longleftrightarrow> tx_map s' = tx_map s \<and> tx_instance_sets s' = tx_instance_sets s \<and>
     tx_file_positions s' = tx_file_positions s \<and> tx_name_counts s' = tx_name_counts s \<and>
     tx_base_game_uris s' = tx_base_game_uris s \<and> tx_derived s' = tx_derived s"

lemma same_tables_toggle: "same_tables s (toggle_instance_name t b n s)"
  by (simp add: same_tables_def toggle_instance_name_def split: option.split)

lemma same_tables_toggles: "same_tables s (fold (toggle_instance_name t b) ns s)"
proof (induction ns arbitrary: s)
  case (Cons n ns)
  from Cons.IH [of "toggle_instance_name t b n s"] same_tables_toggle [of s t b n]
  show ?case by (simp add: same_tables_def)
qed (simp add: same_tables_def)

lemmas toggled_tables [ix_simps] = same_tables_toggles [unfolded same_tables_def] same_tables_toggle [unfolded same_tables_def]

lemma index_ok_cong:
  assumes "tx_map s' = tx_map s" "tx_instance_sets s' = tx_instance_sets s" "tx_file_positions s' = tx_file_positions s"
    "tx_name_counts s' = tx_name_counts s" "tx_base_game_uris s' = tx_base_game_uris s"
  shows "index_ok GB gone s' = index_ok GB gone s"
  using assms by (simp add: index_ok_def keys_ok_def base_ok_def tables_ok_def view_defs cong: if_cong)

text \<open>An operation on one type: what it must establish for the invariant to go on.\<close>

lemma index_ok_one_type:
  assumes ok: "index_ok GB gone s" and keys: "keys_ok s'" and base: "base_ok GB s'"
    and inst: "\<And>x. instances x s' = (if x = t then es else instances x s)"
    and others: "\<And>x. x \<noteq> t \<Longrightarrow> names_of x s' = names_of x s \<and> positions_of x s' = positions_of x s"
    and at_t: "names_ok GB es (names_of t s')" "positions_ok gone es (positions_of t s')"
    and counts: "counts_ok (tx_name_counts s')"
      "\<And>n. ref_count (tx_name_counts s') n + name_uses n t (instances t s) = ref_count (tx_name_counts s) n + name_uses n t es"
  shows "index_ok GB gone s'"
proof -
  have "tables_ok GB gone s'" unfolding tables_ok_def
  proof (rule allI)
    fix x show "names_ok GB (instances x s') (names_of x s') \<and> positions_ok gone (instances x s') (positions_of x s')"
      using at_t others [of x] inst [of x] ok by (cases "x = t") (simp_all add: index_ok_def tables_ok_def)
  qed
  moreover have "counted (tx_name_counts s') (\<lambda>x. instances x s')"
  proof -
    have "counted (tx_name_counts s) (\<lambda>x. instances x s)" using ok by (simp add: index_ok_def)
    from counted_change [OF this counts] have "counted (tx_name_counts s') ((\<lambda>x. instances x s)(t := es))" .
    moreover have "(\<lambda>x. instances x s)(t := es) = (\<lambda>x. instances x s')" using inst by auto
    ultimately show ?thesis by simp
  qed
  ultimately show ?thesis using keys base by (simp add: index_ok_def)
qed

lemma index_ok_one [dest]:
  assumes "index_ok GB gone s"
  shows "names_ok GB (instances t s) (names_of t s)" "positions_ok gone (instances t s) (positions_of t s)"
    "counts_ok (tx_name_counts s)" "keys_ok s" "base_ok GB s" "counted (tx_name_counts s) (\<lambda>t. instances t s)"
  using assms by (auto simp: index_ok_def tables_ok_def counted_def)

section \<open>The journal\<close>

text \<open>What an operation on the index leaves alone.\<close>

definition same_journal :: "type_index \<Rightarrow> type_index \<Rightarrow> bool" where
  "same_journal s s' \<longleftrightarrow> tx_changed s' = tx_changed s \<and> tx_dirty s' = tx_dirty s \<and>
     tx_file_replacement s' = tx_file_replacement s \<and> tx_derived s' = tx_derived s"

lemma same_journal_trans: "same_journal a b \<Longrightarrow> same_journal b c \<Longrightarrow> same_journal a c"
  by (simp add: same_journal_def)

lemma same_journal_toggle: "same_journal s s' \<Longrightarrow> same_journal (toggle_instance_name t b n s) (toggle_instance_name t b n s')"
  by (auto simp: same_journal_def toggle_instance_name_def split: option.split)

lemma same_journal_toggles:
  "same_journal s s' \<Longrightarrow> same_journal (fold (toggle_instance_name t b) ns s) (fold (toggle_instance_name t b) ns s')"
  by (induction ns arbitrary: s s') (auto intro: same_journal_toggle)

lemma lname_lower: "to_ascii_lowercase (lname e) = lname e"
  by (simp add: lname_def)

definition has_name :: "type_index \<Rightarrow> ustr \<Rightarrow> ustr \<Rightarrow> bool" where
  "has_name s t n \<longleftrightarrow> n \<in> lname ` set (instances t s)"

text \<open>
  The journal between two drains, from the changes \<open>c0\<close> and the names \<open>m0\<close> at the start: outside a
  replacement it has every name that came or went; within one, a touched name has its first
  membership on record, and an untouched one still has it.
\<close>

definition journal_ok :: "(ustr \<times> ustr) set \<Rightarrow> (ustr \<Rightarrow> ustr \<Rightarrow> bool) \<Rightarrow> type_index \<Rightarrow> bool" where
  "journal_ok c0 m0 s \<longleftrightarrow>
     (case tx_file_replacement s of
        None \<Rightarrow> c0 \<subseteq> tx_changed s \<and> (\<forall>t n. has_name s t n \<noteq> m0 t n \<longrightarrow> (t, n) \<in> tx_changed s)
      | Some fr \<Rightarrow> tx_changed s = c0 \<and> distinct (map fst (fr_touched fr)) \<and>
          (\<forall>t n. case map_of (fr_touched fr) (t, n) of Some b \<Rightarrow> b = m0 t n \<and> to_ascii_lowercase n = n | None \<Rightarrow> has_name s t n = m0 t n))"

lemma journal_ok_cong:
  assumes "\<And>x. instances x s' = instances x s" "tx_changed s' = tx_changed s" "tx_file_replacement s' = tx_file_replacement s"
  shows "journal_ok c0 m0 s' = journal_ok c0 m0 s"
proof -
  have "has_name s' = has_name s" by (simp add: has_name_def assms(1) fun_eq_iff)
  then show ?thesis unfolding journal_ok_def assms(2,3) by (simp only:)
qed

text \<open>Names that come, or go, together.\<close>

definition toggles :: "bool \<Rightarrow> (ustr \<times> ustr) list \<Rightarrow> type_index \<Rightarrow> type_index" where
  "toggles added ps s = fold (\<lambda>(t, n). toggle_instance_name t added n) ps s"

lemma toggles_one_type: "fold (toggle_instance_name t added) ns s = toggles added (map (Pair t) ns) s"
  by (induction ns arbitrary: s) (auto simp: toggles_def)

definition touched_by :: "bool \<Rightarrow> (ustr \<times> ustr) list \<Rightarrow> ((ustr \<times> ustr) \<times> bool) list \<Rightarrow> ((ustr \<times> ustr) \<times> bool) list" where
  "touched_by added ps touched =
     fold (\<lambda>k m. case map_of m k of Some _ \<Rightarrow> m | None \<Rightarrow> AList.update k (\<not> added) m) ps touched"

lemma touched_by_lookup:
  "map_of (touched_by added ps m) k =
     (case map_of m k of Some b \<Rightarrow> Some b | None \<Rightarrow> if k \<in> set ps then Some (\<not> added) else None)"
proof (induction ps arbitrary: m)
  case (Cons p ps)
  show ?case
  proof (cases "map_of m p")
    case None
    then show ?thesis using Cons.IH [of "AList.update p (\<not> added) m"]
      by (auto simp: touched_by_def ix_simps split: option.split if_splits)
  next
    case (Some b)
    then show ?thesis using Cons.IH [of m] by (auto simp: touched_by_def split: option.split)
  qed
qed (simp add: touched_by_def split: option.split)

lemma touched_by_distinct: "distinct (map fst m) \<Longrightarrow> distinct (map fst (touched_by added ps m))"
  by (induction ps arbitrary: m) (auto simp: touched_by_def distinct_update split: option.split)

lemma toggles_replacement:
  "tx_file_replacement s = Some fr \<Longrightarrow>
   tx_file_replacement (toggles added ps s) = Some (fr\<lparr>fr_touched := touched_by added ps (fr_touched fr)\<rparr>) \<and>
   tx_changed (toggles added ps s) = tx_changed s"
proof (induction ps arbitrary: s fr)
  case (Cons p ps)
  obtain t n where p: "p = (t, n)" by (cases p)
  let ?fr = "fr\<lparr>fr_touched := touched_by added [p] (fr_touched fr)\<rparr>"
  have "tx_file_replacement (toggle_instance_name t added n s) = Some ?fr \<and> tx_changed (toggle_instance_name t added n s) = tx_changed s"
    using Cons.prems by (auto simp: p toggle_instance_name_def touched_by_def split: option.split)
  then show ?case using Cons.IH [of "toggle_instance_name t added n s" ?fr] by (simp add: p touched_by_def toggles_def)
qed (simp add: touched_by_def toggles_def)

lemma toggles_plain:
  "tx_file_replacement s = None \<Longrightarrow>
   tx_file_replacement (toggles added ps s) = None \<and> tx_changed (toggles added ps s) = tx_changed s \<union> set ps"
  by (induction ps arbitrary: s) (auto simp: toggles_def toggle_instance_name_def)

lemma journal_ok_toggles:
  assumes ok: "journal_ok c0 m0 s" and same: "same_journal (toggles added ps s) s'"
    and flip: "\<And>x n. has_name s' x n \<noteq> has_name s x n \<Longrightarrow> (x, n) \<in> set ps"
    and old: "\<And>x n. (x, n) \<in> set ps \<Longrightarrow> has_name s x n = (\<not> added) \<and> to_ascii_lowercase n = n"
  shows "journal_ok c0 m0 s'"
proof (cases "tx_file_replacement s")
  case None
  have "tx_changed s' = tx_changed s \<union> set ps" "tx_file_replacement s' = None"
    using toggles_plain [OF None, of added ps] same by (simp_all add: same_journal_def)
  then show ?thesis using ok None flip by (simp add: journal_ok_def) blast
next
  case (Some fr)
  let ?touched = "touched_by added ps (fr_touched fr)"
  have s': "tx_changed s' = tx_changed s" "tx_file_replacement s' = Some (fr\<lparr>fr_touched := ?touched\<rparr>)"
    using toggles_replacement [OF Some, of added ps] same by (simp_all add: same_journal_def)
  have "case map_of ?touched (x, n) of Some b \<Rightarrow> b = m0 x n \<and> to_ascii_lowercase n = n | None \<Rightarrow> has_name s' x n = m0 x n" for x n
  proof -
    have J: "case map_of (fr_touched fr) (x, n) of Some b \<Rightarrow> b = m0 x n \<and> to_ascii_lowercase n = n | None \<Rightarrow> has_name s x n = m0 x n"
      using ok Some by (simp add: journal_ok_def)
    show ?thesis
    proof (cases "map_of (fr_touched fr) (x, n)")
      case None
      with J have h: "has_name s x n = m0 x n" by simp
      show ?thesis
      proof (cases "(x, n) \<in> set ps")
        case True
        then have "map_of ?touched (x, n) = Some (\<not> added)" using None by (simp add: touched_by_lookup)
        moreover have "m0 x n = (\<not> added)" "to_ascii_lowercase n = n" using True old h by blast+
        ultimately show ?thesis by simp
      next
        case False
        then have "map_of ?touched (x, n) = None" using None by (simp add: touched_by_lookup)
        moreover have "has_name s' x n = m0 x n" using False flip [of x n] h by blast
        ultimately show ?thesis by simp
      qed
    next
      case (Some b)
      then show ?thesis using J by (simp add: touched_by_lookup)
    qed
  qed
  then show ?thesis using ok Some s' by (simp add: journal_ok_def touched_by_distinct)
qed

lemma toggles_tables [ix_simps]:
  "tx_map (toggles b ps s) = tx_map s" "tx_instance_sets (toggles b ps s) = tx_instance_sets s"
  "tx_file_positions (toggles b ps s) = tx_file_positions s" "tx_name_counts (toggles b ps s) = tx_name_counts s"
  "tx_base_game_uris (toggles b ps s) = tx_base_game_uris s"
proof -
  have "same_tables s (toggles b ps s)"
  proof (induction ps arbitrary: s)
    case (Cons p ps)
    obtain t n where p: "p = (t, n)" by (cases p)
    from Cons.IH [of "toggle_instance_name t b n s"] same_tables_toggle [of s t b n]
    show ?case by (simp add: same_tables_def toggles_def p)
  qed (simp add: same_tables_def toggles_def)
  then show "tx_map (toggles b ps s) = tx_map s" "tx_instance_sets (toggles b ps s) = tx_instance_sets s"
    "tx_file_positions (toggles b ps s) = tx_file_positions s" "tx_name_counts (toggles b ps s) = tx_name_counts s"
    "tx_base_game_uris (toggles b ps s) = tx_base_game_uris s" by (simp_all add: same_tables_def)
qed

lemma toggles_frame: "tx_derived (toggles b ps s) = tx_derived s \<and> tx_dirty (toggles b ps s) = tx_dirty s \<and>
    (tx_file_replacement (toggles b ps s) = None \<longleftrightarrow> tx_file_replacement s = None)"
  by (induction ps arbitrary: s) (auto simp: toggles_def toggle_instance_name_def split: option.splits)

text \<open>What every operation keeps, whatever it changes.\<close>

definition change_step :: "ustr set \<Rightarrow> type_index \<Rightarrow> type_index \<Rightarrow> bool" where
  "change_step GB s s' \<longleftrightarrow> index_ok GB None s' \<and> tx_dirty s' = tx_dirty s \<and>
     (tx_file_replacement s' = None \<longleftrightarrow> tx_file_replacement s = None) \<and>
     (\<forall>c0 m0. journal_ok c0 m0 s \<longrightarrow> journal_ok c0 m0 s')"

lemma change_step_refl: "index_ok GB None s \<Longrightarrow> change_step GB s s"
  by (simp add: change_step_def)

lemma change_step_trans: "change_step GB a b \<Longrightarrow> change_step GB b c \<Longrightarrow> change_step GB a c"
  by (auto simp: change_step_def)

section \<open>Merging\<close>

lemma lname_Pair: "to_ascii_lowercase (ti_name inst) = lname (u, inst)"
  by (simp add: lname_def)

lemma names_ok_fresh:
  assumes "names_ok GB es names" shows "nr_total (alist_get no_refs names n) = 0 \<longleftrightarrow> n \<notin> lname ` set es"
proof -
  have "nr_total (alist_get no_refs names n) = card (places (\<lambda>e. lname e = n) es)" using name_ok_get [OF assms, of n] by simp
  then show ?thesis by (auto simp: places_empty_iff)
qed

definition uses_more :: "bool \<Rightarrow> type_entries \<Rightarrow> ustr \<Rightarrow> nat" where
  "uses_more subtype_key es n = (if subtype_key then 0 else count (image_mset lname (mset es)) n)"

lemma merge_instance_step:
  "merge_instance u base sub inst (c, names, es, ps, added) =
     (let n = lname (u, inst) in
      (if sub then c else inc_ref n c, AList.update n (refs_add base (length es) (alist_get no_refs names n)) names,
       es @ [(u, inst)], ps @ [length es], if nr_total (alist_get no_refs names n) = 0 then added @ [n] else added))"
  by (simp add: merge_instance_def lname_def Let_def)

lemma merge_instances:
  assumes "names_ok GB es names" "positions_ok None es (P(u := ps))" "base = (u \<in> GB)" "counts_ok c"
    and "fold (merge_instance u base sub) insts (c, names, es, ps, added) = (c', names', es', ps', added')"
  shows "es' = es @ map (Pair u) insts \<and> names_ok GB es' names' \<and> positions_ok None es' (P(u := ps')) \<and> counts_ok c' \<and>
    (\<forall>n. ref_count c' n = ref_count c n + uses_more sub (map (Pair u) insts) n) \<and>
    set added' = set added \<union> (lname ` set es' - lname ` set es)"
  using assms
proof (induction insts arbitrary: c names es ps added)
  case Nil
  then show ?case by (auto simp: uses_more_def)
next
  case (Cons inst insts)
  let ?n = "lname (u, inst)" and ?es = "es @ [(u, inst)]"
  let ?c = "if sub then c else inc_ref ?n c"
  let ?names = "AList.update ?n (refs_add base (length es) (alist_get no_refs names ?n)) names"
  let ?added = "if nr_total (alist_get no_refs names ?n) = 0 then added @ [?n] else added"
  have step: "fold (merge_instance u base sub) insts (?c, ?names, ?es, ps @ [length es], ?added) = (c', names', es', ps', added')"
    using Cons.prems(5) by (simp only: fold.simps comp_apply merge_instance_step Let_def)
  have names: "names_ok GB ?es ?names" by (rule names_ok_merge [OF Cons.prems(1,3)])
  have pos: "positions_ok None ?es (P(u := ps @ [length es]))"
    using positions_ok_merge [OF Cons.prems(2), of u inst] by (simp only: fun_upd_upd fun_upd_same)
  have c: "counts_ok ?c" using Cons.prems(4) by (simp add: counts_ok_inc)
  have added: "set ?added = set added \<union> (lname ` set ?es - lname ` set es)"
    using names_ok_fresh [OF Cons.prems(1), of ?n] by auto
  note IH = Cons.IH [OF names pos Cons.prems(3) c step]
  have sub: "lname ` set es \<subseteq> lname ` set ?es" "lname ` set ?es \<subseteq> lname ` set es'" using IH by auto
  have "set added' = set ?added \<union> (lname ` set es' - lname ` set ?es)" using IH by (elim conjE)
  then have "set added' = set added \<union> (lname ` set es' - lname ` set es)"
    unfolding added by (rule trans) (use sub in blast)
  moreover have "ref_count c' n = ref_count c n + uses_more sub (map (Pair u) (inst # insts)) n" for n
  proof -
    have "ref_count ?c n = ref_count c n + uses_more sub [(u, inst)] n" by (simp add: uses_more_def count_simps)
    moreover have "uses_more sub (map (Pair u) (inst # insts)) n = uses_more sub [(u, inst)] n + uses_more sub (map (Pair u) insts) n"
      by (simp add: uses_more_def)
    moreover have "ref_count c' n = ref_count ?c n + uses_more sub (map (Pair u) insts) n" using IH by blast
    ultimately show ?thesis by simp
  qed
  moreover have "es' = es @ map (Pair u) (inst # insts)" using IH by simp
  moreover have "names_ok GB es' names'" "positions_ok None es' (P(u := ps'))" "counts_ok c'" using IH by blast+
  ultimately show ?case by blast
qed

text \<open>A merged type: its entries grow by those of the file, its journal by the names that are new.\<close>

lemma merged_names_change:
  assumes ok: "index_ok GB None s'" and inst: "\<And>x. instances x s' = (if x = t then instances t s @ new else instances x s)"
    and added: "set added = lname ` set (instances t s @ new) - lname ` set (instances t s)"
    and eq: "s' = fold (toggle_instance_name t True) added s1" and same: "same_journal s s1"
  shows "change_step GB s s' \<and> tx_derived s' = tx_derived s"
proof -
  have j: "same_journal (toggles True (map (Pair t) added) s) s'"
    unfolding eq toggles_one_type [symmetric] by (rule same_journal_toggles [OF same])
  have "journal_ok c0 m0 s'" if "journal_ok c0 m0 s" for c0 m0
  proof (rule journal_ok_toggles [OF that j])
    show "(x, n) \<in> set (map (Pair t) added)" if "has_name s' x n \<noteq> has_name s x n" for x n
      using that inst [of x] added by (auto simp: has_name_def split: if_splits)
    show "has_name s x n = (\<not> True) \<and> to_ascii_lowercase n = n" if "(x, n) \<in> set (map (Pair t) added)" for x n
      using that added by (auto simp: has_name_def lname_lower)
  qed
  then show ?thesis using ok j toggles_frame [of True "map (Pair t) added" s] by (auto simp only: change_step_def same_journal_def)
qed

lemma merge_type_ok:
  assumes ok: "index_ok GB None s" and base: "base = (u \<in> GB)" and marked: "u \<in> GB \<Longrightarrow> u \<in> tx_base_game_uris s"
  shows "change_step GB s (merge_type u base (t, insts) s) \<and>
    instances x (merge_type u base (t, insts) s) = (if x = t then instances t s @ map (Pair u) insts else instances x s) \<and>
    tx_base_game_uris (merge_type u base (t, insts) s) = tx_base_game_uris s \<and>
    tx_derived (merge_type u base (t, insts) s) = tx_derived s"
proof -
  let ?by = "alist_get [] (tx_file_positions s) u"
  obtain c names es ps added where f: "fold (merge_instance u base (is_subtype_key t)) insts
      (tx_name_counts s, names_of t s, instances t s, positions_of t s u, []) = (c, names, es, ps, added)"
    using prod_cases5 by blast
  have "positions_ok None (instances t s) ((positions_of t s)(u := positions_of t s u))" using index_ok_one(2) [OF ok, of t] by simp
  note m = merge_instances [OF index_ok_one(1) [OF ok] this base index_ok_one(3) [OF ok] f]
  let ?s = "s\<lparr>tx_name_counts := c, tx_instance_sets := AList.update t names (tx_instance_sets s),
      tx_map := AList.update t es (tx_map s),
      tx_file_positions := AList.update u (AList.update t ps ?by) (tx_file_positions s)\<rparr>"
  have eq: "merge_type u base (t, insts) s = fold (toggle_instance_name t True) added ?s"
    using f by (simp add: merge_type_def view_defs Let_def)
  have inst: "instances x ?s = (if x = t then es else instances x s)" for x by (simp add: instances_def ix_simps)
  have "index_ok GB None ?s"
  proof (rule index_ok_one_type [OF ok, where t = t and es = es])
    show "keys_ok ?s" using index_ok_one(4) [OF ok] by (simp add: keys_ok_def distinct_update ix_simps)
    show "base_ok GB ?s" using index_ok_one(5) [OF ok] marked by (auto simp: base_ok_def ix_simps)
    show "instances x ?s = (if x = t then es else instances x s)" for x by (rule inst)
    show "names_of x ?s = names_of x s \<and> positions_of x ?s = positions_of x s" if "x \<noteq> t" for x
      using that by (auto simp: names_of_def positions_of_def ix_simps)
    have "names_ok GB es names" using m by blast
    then show "names_ok GB es (names_of t ?s)" by (simp add: names_of_def ix_simps)
    have "positions_of t ?s = (positions_of t s)(u := ps)" by (auto simp: positions_of_def ix_simps)
    moreover have "positions_ok None es ((positions_of t s)(u := ps))" using m by blast
    ultimately show "positions_ok None es (positions_of t ?s)" by simp
    show "counts_ok (tx_name_counts ?s)" using m by simp
    show "ref_count (tx_name_counts ?s) n + name_uses n t (instances t s) = ref_count (tx_name_counts s) n + name_uses n t es" for n
      using m by (simp add: name_uses_def uses_more_def)
  qed
  then have ok': "index_ok GB None (merge_type u base (t, insts) s)" unfolding eq
    by (subst index_ok_cong [of _ ?s]) (simp_all add: ix_simps)
  have inst': "instances x (merge_type u base (t, insts) s) = (if x = t then instances t s @ map (Pair u) insts else instances x s)" for x
    unfolding eq using inst [of x] m by (simp add: instances_def ix_simps)
  have "set added = lname ` set es - lname ` set (instances t s)" "es = instances t s @ map (Pair u) insts" using m by auto
  then have "change_step GB s (merge_type u base (t, insts) s) \<and> tx_derived (merge_type u base (t, insts) s) = tx_derived s"
    by (intro merged_names_change [OF ok' inst' _ eq]) (simp_all add: same_journal_def)
  then show ?thesis using inst' by (simp add: eq ix_simps)
qed

text \<open>The entries of the types as multisets, and how a file adds to them.\<close>

type_synonym index_content = "ustr \<Rightarrow> (ustr \<times> type_instance) multiset"

definition content :: "type_index \<Rightarrow> index_content" where
  "content s = (\<lambda>t. mset (instances t s))"

definition add_entries :: "ustr \<Rightarrow> (ustr \<times> type_instance) list \<Rightarrow> index_content \<Rightarrow> index_content" where
  "add_entries t es A = A(t := A t + mset es)"

lemma content_add:
  "(\<And>x. instances x s' = (if x = t then instances t s @ es else instances x s)) \<Longrightarrow> content s' = add_entries t es (content s)"
  by (auto simp: content_def add_entries_def)

lemma merge_types_ok:
  assumes "index_ok GB None s" "base = (u \<in> GB)" "u \<in> GB \<Longrightarrow> u \<in> tx_base_game_uris s"
  shows "change_step GB s (fold (merge_type u base) pt s) \<and> tx_derived (fold (merge_type u base) pt s) = tx_derived s \<and>
    content (fold (merge_type u base) pt s) = fold (\<lambda>(t, insts). add_entries t (map (Pair u) insts)) pt (content s)"
  using assms
proof (induction pt arbitrary: s)
  case Nil
  then show ?case by (simp add: change_step_refl)
next
  case (Cons p pt)
  obtain t insts where p: "p = (t, insts)" by (cases p)
  let ?s = "merge_type u base p s"
  note m = merge_type_ok [OF Cons.prems, of t insts, folded p]
  have c: "content ?s = add_entries t (map (Pair u) insts) (content s)"
    by (rule content_add) (use m in blast)
  have step: "change_step GB s ?s" and b: "tx_base_game_uris ?s = tx_base_game_uris s" and d: "tx_derived ?s = tx_derived s"
    using m by blast+
  have ok: "index_ok GB None ?s" using step by (simp add: change_step_def)
  have "u \<in> GB \<Longrightarrow> u \<in> tx_base_game_uris ?s" using Cons.prems(3) b by simp
  from Cons.IH [OF ok Cons.prems(2) this]
  show ?case using change_step_trans [OF step] by (simp add: p [symmetric] d c) (simp add: p)
qed

lemma index_merge_from_ok:
  assumes ok: "index_ok GB None s" and base: "base = (u \<in> GB)"
  shows "change_step GB s (merge_from u pt base s) \<and> tx_derived (merge_from u pt base s) = tx_derived s \<and>
    content (merge_from u pt base s) = fold (\<lambda>(t, insts). add_entries t (map (Pair u) insts)) pt (content s)"
proof -
  let ?s = "if base then s\<lparr>tx_base_game_uris := insert u (tx_base_game_uris s)\<rparr> else s"
  have inst: "instances x ?s = instances x s" for x by (simp add: instances_def)
  have "index_ok GB None ?s" using ok base
    by (auto simp: index_ok_def keys_ok_def base_ok_def tables_ok_def view_defs)
  moreover from this have "change_step GB s ?s" using journal_ok_cong [OF inst] by (simp add: change_step_def)
  moreover have "u \<in> GB \<Longrightarrow> u \<in> tx_base_game_uris ?s" using base by simp
  moreover have "content ?s = content s" "tx_derived ?s = tx_derived s" by (simp_all add: content_def inst)
  ultimately show ?thesis using merge_types_ok [OF _ base, of ?s pt] change_step_trans [of GB s ?s]
    unfolding merge_from_def by metis
qed

subsection \<open>The batch of the base game\<close>

definition positions_in :: "position_map \<Rightarrow> ustr \<Rightarrow> ustr \<Rightarrow> nat list" where
  "positions_in FP t = (\<lambda>u. alist_get [] (alist_get [] FP u) t)"

definition position_keys_ok :: "position_map \<Rightarrow> bool" where
  "position_keys_ok FP \<longleftrightarrow> distinct (map fst FP) \<and> (\<forall>u. distinct (map fst (alist_get [] FP u)))"

definition add_position :: "ustr \<Rightarrow> ustr \<Rightarrow> nat \<Rightarrow> position_map \<Rightarrow> position_map" where
  "add_position u t i FP = AList.update u (AList.update t (positions_in FP t u @ [i]) (alist_get [] FP u)) FP"

lemma positions_in_add: "positions_in (add_position u t i FP) x = (if x = t then (positions_in FP t)(u := positions_in FP t u @ [i]) else positions_in FP x)"
  by (auto simp: positions_in_def add_position_def ix_simps)

lemma position_keys_ok_add: "position_keys_ok FP \<Longrightarrow> position_keys_ok (add_position u t i FP)"
  by (auto simp: position_keys_ok_def add_position_def distinct_update ix_simps)

lemma map_of_add_position: "map_of (add_position u t i FP) v = None \<longleftrightarrow> v \<noteq> u \<and> map_of FP v = None"
  by (simp add: add_position_def ix_simps)

lemma merge_base_instance_step:
  "merge_base_instance t (u, inst) (c, names, es, FP, B, added) =
     (let n = lname (u, inst) in
      (if is_subtype_key t then c else inc_ref n c, AList.update n (refs_add True (length es) (alist_get no_refs names n)) names,
       es @ [(u, inst)], add_position u t (length es) FP, insert u B, if nr_total (alist_get no_refs names n) = 0 then added @ [n] else added))"
  by (simp add: merge_base_instance_def lname_def add_position_def positions_in_def Let_def)

lemma names_grow:
  assumes "E \<subseteq> F" "F \<subseteq> G" "A = A0 \<union> (F - E)" "B = A \<union> (G - F)" shows "B = A0 \<union> (G - (E :: 'a set))"
  using assms by blast

lemma uses_more_Cons: "uses_more sub (e # es) n = uses_more sub [e] n + uses_more sub es n"
  by (simp add: uses_more_def)

lemma merge_base_instances:
  assumes "names_ok GB es names" "positions_ok None es (positions_in FP t)" "counts_ok c" "position_keys_ok FP"
    and "\<forall>e \<in> set insts. fst e \<in> GB"
    and "fold (merge_base_instance t) insts (c, names, es, FP, B, added) = (c', names', es', FP', B', added')"
  shows "es' = es @ insts \<and> names_ok GB es' names' \<and> positions_ok None es' (positions_in FP' t) \<and> counts_ok c' \<and>
    position_keys_ok FP' \<and> (\<forall>x. x \<noteq> t \<longrightarrow> positions_in FP' x = positions_in FP x) \<and>
    (\<forall>u. map_of FP' u = None \<longleftrightarrow> map_of FP u = None \<and> u \<notin> fst ` set insts) \<and> B' = B \<union> fst ` set insts \<and>
    (\<forall>n. ref_count c' n = ref_count c n + uses_more (is_subtype_key t) insts n) \<and>
    set added' = set added \<union> (lname ` set es' - lname ` set es)"
  using assms
proof (induction insts arbitrary: c names es FP B added)
  case Nil
  then show ?case by (auto simp: uses_more_def)
next
  case (Cons e insts)
  obtain u inst where e: "e = (u, inst)" by (cases e)
  let ?n = "lname (u, inst)" and ?es = "es @ [(u, inst)]" and ?FP = "add_position u t (length es) FP"
  let ?c = "if is_subtype_key t then c else inc_ref ?n c"
  let ?names = "AList.update ?n (refs_add True (length es) (alist_get no_refs names ?n)) names"
  let ?added = "if nr_total (alist_get no_refs names ?n) = 0 then added @ [?n] else added"
  have step: "fold (merge_base_instance t) insts (?c, ?names, ?es, ?FP, insert u B, ?added) = (c', names', es', FP', B', added')"
    using Cons.prems(6) by (simp only: e fold.simps comp_apply merge_base_instance_step Let_def)
  have GB: "True = (u \<in> GB)" "\<forall>e \<in> set insts. fst e \<in> GB" using Cons.prems(5) by (auto simp: e)
  have names: "names_ok GB ?es ?names" by (rule names_ok_merge [OF Cons.prems(1) GB(1)])
  have pos: "positions_ok None ?es (positions_in ?FP t)"
    using positions_ok_merge [OF Cons.prems(2), of u inst] by (simp only: positions_in_add if_True simp_thms)
  have c: "counts_ok ?c" using Cons.prems(3) by (simp add: counts_ok_inc)
  have added: "set ?added = set added \<union> (lname ` set ?es - lname ` set es)"
    using names_ok_fresh [OF Cons.prems(1), of ?n] by auto
  note IH = Cons.IH [OF names pos c position_keys_ok_add [OF Cons.prems(4)] GB(2) step]
  have es': "es' = es @ e # insts" using IH by (simp add: e)
  have "set added' = set added \<union> (lname ` set es' - lname ` set es)"
    by (rule names_grow [OF _ _ added]) (use IH es' in auto)
  moreover have "ref_count c' n = ref_count c n + uses_more (is_subtype_key t) (e # insts) n" for n
  proof -
    have "ref_count ?c n = ref_count c n + uses_more (is_subtype_key t) [e] n" by (simp add: e uses_more_def count_simps)
    moreover have "ref_count c' n = ref_count ?c n + uses_more (is_subtype_key t) insts n" using IH by blast
    ultimately show ?thesis by (simp add: uses_more_Cons [of _ e insts])
  qed
  moreover have "positions_in FP' x = positions_in FP x" if "x \<noteq> t" for x
  proof -
    have "positions_in FP' x = positions_in ?FP x" using IH that by blast
    then show ?thesis using that by (simp add: positions_in_add)
  qed
  moreover have "map_of FP' v = None \<longleftrightarrow> map_of FP v = None \<and> v \<notin> fst ` set (e # insts)" for v
  proof -
    have "map_of FP' v = None \<longleftrightarrow> map_of ?FP v = None \<and> v \<notin> fst ` set insts" using IH by blast
    then show ?thesis by (auto simp: map_of_add_position e)
  qed
  moreover have "B' = B \<union> fst ` set (e # insts)" using IH by (auto simp: e)
  moreover have "names_ok GB es' names'" "positions_ok None es' (positions_in FP' t)" "counts_ok c'" "position_keys_ok FP'"
    using IH by blast+
  ultimately show ?case using es' by blast
qed

lemma merge_base_type_ok:
  assumes ok: "index_ok GB None s" and GB: "\<forall>e \<in> set insts. fst e \<in> GB"
  shows "change_step GB s (merge_base_type (t, insts) s) \<and> tx_derived (merge_base_type (t, insts) s) = tx_derived s \<and>
    content (merge_base_type (t, insts) s) = add_entries t insts (content s)"
proof -
  let ?s' = "merge_base_type (t, insts) s"
  obtain c names es FP B added where f: "fold (merge_base_instance t) insts
      (tx_name_counts s, names_of t s, instances t s, tx_file_positions s, tx_base_game_uris s, []) = (c, names, es, FP, B, added)"
    using prod_cases6 by blast
  have p: "positions_in (tx_file_positions s) x = positions_of x s" for x by (simp add: positions_in_def positions_of_def)
  have k: "position_keys_ok (tx_file_positions s)" using index_ok_one(4) [OF ok] by (simp add: keys_ok_def position_keys_ok_def)
  note m = merge_base_instances [OF index_ok_one(1) [OF ok] index_ok_one(2) [OF ok, of t, folded p] index_ok_one(3) [OF ok] k GB f]
  let ?s = "s\<lparr>tx_name_counts := c, tx_instance_sets := AList.update t names (tx_instance_sets s),
      tx_map := AList.update t es (tx_map s), tx_file_positions := FP, tx_base_game_uris := B\<rparr>"
  have eq: "?s' = fold (toggle_instance_name t True) added ?s"
    using f by (simp add: merge_base_type_def view_defs Let_def)
  have inst: "instances x ?s = (if x = t then es else instances x s)" for x by (simp add: instances_def ix_simps)
  have es: "es = instances t s @ insts" using m by blast
  have pos: "positions_of x ?s = positions_in FP x" for x by (simp add: positions_of_def positions_in_def)
  have "index_ok GB None ?s"
  proof (rule index_ok_one_type [OF ok, where t = t and es = es])
    have "position_keys_ok FP" using m by blast
    then show "keys_ok ?s" using index_ok_one(4) [OF ok] by (simp add: keys_ok_def position_keys_ok_def distinct_update)
    have "B = tx_base_game_uris s \<union> fst ` set insts" "\<forall>u. map_of FP u = None \<longleftrightarrow> map_of (tx_file_positions s) u = None \<and> u \<notin> fst ` set insts"
      using m by blast+
    then show "base_ok GB ?s" using index_ok_one(5) [OF ok] GB unfolding base_ok_def by simp blast
    show "instances x ?s = (if x = t then es else instances x s)" for x by (rule inst)
    show "names_of x ?s = names_of x s \<and> positions_of x ?s = positions_of x s" if "x \<noteq> t" for x
      using that m unfolding pos by (simp add: names_of_def p ix_simps)
    have "names_ok GB es names" "positions_ok None es (positions_in FP t)" using m by blast+
    then show "names_ok GB es (names_of t ?s)" "positions_ok None es (positions_of t ?s)"
      unfolding pos by (simp_all add: names_of_def ix_simps)
    show "counts_ok (tx_name_counts ?s)" using m by simp
    show "ref_count (tx_name_counts ?s) n + name_uses n t (instances t s) = ref_count (tx_name_counts s) n + name_uses n t es" for n
      using m by (simp add: name_uses_def uses_more_def)
  qed
  then have ok': "index_ok GB None ?s'" unfolding eq by (subst index_ok_cong [of _ ?s]) (simp_all add: ix_simps)
  have inst': "instances x ?s' = (if x = t then instances t s @ insts else instances x s)" for x
    unfolding eq using inst [of x] es by (simp add: instances_def ix_simps)
  have "set added = lname ` set es - lname ` set (instances t s)" using m by auto
  then have "change_step GB s ?s' \<and> tx_derived ?s' = tx_derived s"
    by (intro merged_names_change [OF ok' inst' _ eq]) (simp_all add: es same_journal_def)
  then show ?thesis using content_add [OF inst'] by blast
qed

lemma merge_base_game_with_uris_ok:
  assumes "index_ok GB None s" "\<forall>(t, insts) \<in> set pt. \<forall>e \<in> set insts. fst e \<in> GB"
  shows "change_step GB s (merge_base_game_with_uris pt s) \<and> tx_derived (merge_base_game_with_uris pt s) = tx_derived s \<and>
    content (merge_base_game_with_uris pt s) = fold (\<lambda>(t, insts). add_entries t insts) pt (content s)"
  using assms
proof (induction pt arbitrary: s)
  case Nil
  then show ?case by (simp add: merge_base_game_with_uris_def change_step_refl)
next
  case (Cons p pt)
  obtain t insts where p: "p = (t, insts)" by (cases p)
  have "\<forall>e \<in> set insts. fst e \<in> GB" using Cons.prems(2) p by auto
  note m = merge_base_type_ok [OF Cons.prems(1) this, of t, folded p]
  have step: "change_step GB s (merge_base_type p s)" using m by blast
  then have ok: "index_ok GB None (merge_base_type p s)" by (simp add: change_step_def)
  have "change_step GB (merge_base_type p s) (merge_base_game_with_uris pt (merge_base_type p s)) \<and>
      tx_derived (merge_base_game_with_uris pt (merge_base_type p s)) = tx_derived (merge_base_type p s) \<and>
      content (merge_base_game_with_uris pt (merge_base_type p s)) = fold (\<lambda>(t, insts). add_entries t insts) pt (content (merge_base_type p s))"
    by (rule Cons.IH [OF ok]) (use Cons.prems(2) in auto)
  moreover have "merge_base_game_with_uris (p # pt) s = merge_base_game_with_uris pt (merge_base_type p s)"
    by (simp add: merge_base_game_with_uris_def)
  ultimately show ?case using m change_step_trans [OF step] by (simp add: p)
qed

section \<open>Removing\<close>

lemma ascii_lowercase_if_needed [simp]: "ascii_lowercase_if_needed s = to_ascii_lowercase s"
  by (auto simp: ascii_lowercase_if_needed_def list_ex_iff intro!: map_idI [symmetric] ascii_lower_not_upper)

lemma repoint_Nil [simp]: "repoint a b [] = []"
  by (simp add: repoint_def)

lemma repoint_name_Nil [simp]: "repoint_name a b n [] = []"
  by (simp add: repoint_name_def)

lemma alist_get_Some: "map_of m k = Some v \<Longrightarrow> alist_get d m k = v"
  by (simp add: alist_get_def)

lemma alist_get_None: "map_of m k = None \<Longrightarrow> alist_get d m k = d"
  by (simp add: alist_get_def)

definition same_files :: "type_index \<Rightarrow> type_index \<Rightarrow> bool" where
  "same_files s s' \<longleftrightarrow> tx_base_game_uris s' = tx_base_game_uris s \<and>
     (\<forall>u. map_of (tx_file_positions s') u = None \<longleftrightarrow> map_of (tx_file_positions s) u = None)"

text \<open>\<^verbatim>\<open>swap_remove_instance\<close> on the views: both position tables follow the entry that moved.\<close>

lemma swap_remove_instance_views:
  assumes es: "map_of (tx_map s) t = Some es" and i: "i < length es" and keys: "keys_ok s"
  shows "\<exists>s'. swap_remove_instance t i s = Some s' \<and> tx_map s' = AList.update t (swap_remove i es) (tx_map s) \<and>
    names_of t s' = (if i = length es - 1 then names_of t s else repoint_name (length es - 1) i (lname (es ! (length es - 1))) (names_of t s)) \<and>
    positions_of t s' = (\<lambda>u. if i \<noteq> length es - 1 \<and> u = fst (es ! (length es - 1)) then repoint (length es - 1) i (positions_of t s u)
                            else positions_of t s u) \<and>
    (\<forall>x. x \<noteq> t \<longrightarrow> names_of x s' = names_of x s \<and> positions_of x s' = positions_of x s) \<and>
    tx_name_counts s' = tx_name_counts s \<and> keys_ok s' \<and> same_files s s' \<and> same_journal s s'"
proof (cases "i = length es - 1")
  case True
  let ?s = "s\<lparr>tx_map := AList.update t (swap_remove i es) (tx_map s)\<rparr>"
  have "swap_remove_instance t i s = Some ?s" using es i True by (simp add: swap_remove_instance_def Let_def)
  then show ?thesis using True keys
    by (auto simp: names_of_def positions_of_def keys_ok_def distinct_update same_files_def same_journal_def)
next
  case False
  let ?last = "length es - 1"
  let ?mu = "fst (es ! ?last)" and ?n = "lname (es ! ?last)"
  have nth: "swap_remove i es ! i = es ! ?last" using i False nth_swap_remove [of i es i] by simp
  define FP where "FP = (case map_of (tx_file_positions s) ?mu of None \<Rightarrow> tx_file_positions s
     | Some by_type \<Rightarrow> (case map_of by_type t of None \<Rightarrow> tx_file_positions s
        | Some ps \<Rightarrow> AList.update ?mu (AList.update t (repoint ?last i ps) by_type) (tx_file_positions s)))"
  define IS where "IS = (case map_of (tx_instance_sets s) t of None \<Rightarrow> tx_instance_sets s
     | Some names \<Rightarrow> (case map_of names ?n of None \<Rightarrow> tx_instance_sets s
        | Some r \<Rightarrow> AList.update t (AList.update ?n (r\<lparr>nr_positions := repoint ?last i (nr_positions r)\<rparr>) names) (tx_instance_sets s)))"
  let ?s = "s\<lparr>tx_map := AList.update t (swap_remove i es) (tx_map s), tx_file_positions := FP, tx_instance_sets := IS\<rparr>"
  have run: "swap_remove_instance t i s = Some ?s"
    using es i False nth by (cases "es ! ?last") (simp add: swap_remove_instance_def FP_def IS_def lname_def Let_def split: option.split)
  have P: "alist_get [] (alist_get [] FP u) x =
      (if x = t \<and> u = ?mu then repoint ?last i (positions_of t s u) else positions_of x s u)" for u x
  proof (cases "map_of (tx_file_positions s) ?mu")
    case None
    then have "FP = tx_file_positions s" "positions_of t s ?mu = []" by (simp_all add: FP_def positions_of_def alist_get_def)
    then show ?thesis by (auto simp: positions_of_def)
  next
    case (Some by_type)
    then show ?thesis
      by (cases "map_of by_type t") (simp_all add: FP_def positions_of_def ix_simps alist_get_Some alist_get_None)
  qed
  have N: "alist_get [] IS x = (if x = t then repoint_name ?last i ?n (names_of t s) else names_of x s)" for x
  proof (cases "map_of (tx_instance_sets s) t")
    case None
    then have "IS = tx_instance_sets s" "names_of t s = []" by (simp_all add: IS_def names_of_def alist_get_def)
    then show ?thesis by (simp add: names_of_def)
  next
    case (Some names)
    then show ?thesis
      by (cases "map_of names ?n") (simp_all add: IS_def names_of_def repoint_name_def ix_simps alist_get_Some)
  qed
  have D: "map_of FP u = None \<longleftrightarrow> map_of (tx_file_positions s) u = None" for u
    by (auto simp: FP_def ix_simps split: option.split)
  have K: "keys_ok ?s"
    using keys by (auto simp: keys_ok_def FP_def IS_def distinct_update ix_simps alist_get_Some split: option.split dest: spec [of _ ?mu])
  have names: "names_of x ?s = (if x = t then repoint_name ?last i ?n (names_of t s) else names_of x s)" for x
    using N [of x] by (simp add: names_of_def)
  have pos: "positions_of x ?s = (\<lambda>u. if x = t \<and> u = ?mu then repoint ?last i (positions_of t s u) else positions_of x s u)" for x
    using P [of _ x] by (auto simp: positions_of_def [of x ?s])
  have "same_files s ?s" "same_journal s ?s" using D by (simp_all add: same_files_def same_journal_def)
  with run K names pos False show ?thesis by (intro exI [of _ ?s]) auto
qed

lemma image_mset_swap_remove:
  assumes "i < length es"
  shows "count (image_mset lname (mset es)) n = count (image_mset lname (mset (swap_remove i es))) n + of_bool (lname (es ! i) = n)"
  unfolding mset_swap_remove [OF assms, symmetric] by simp

lemma lname_counted:
  assumes "index_ok GB gone s" "e \<in> set (instances t s)" "\<not> is_subtype_key t"
  shows "0 < ref_count (tx_name_counts s) (lname e)"
proof -
  have c: "counted (tx_name_counts s) (\<lambda>t. instances t s)" using assms(1) by (rule index_ok_one)
  have "map_of (tx_name_counts s) (lname e) \<noteq> None" unfolding counted_pos [OF c] using assms(2,3) by blast
  moreover have "counts_ok (tx_name_counts s)" using c by (simp add: counted_def)
  ultimately show ?thesis by (simp add: ref_count_pos)
qed

text \<open>
  Removing one entry of the file that goes: the journal gains the name if it was the last of its
  name, and everything else follows from the move.
\<close>

lemma remove_instance_ok:
  assumes ok: "index_ok GB (Some u) s" and i: "i < length (instances t s)" and u: "fst (instances t s ! i) = u"
    and base: "base = (u \<in> GB)" and out: "map_of (tx_file_positions s) u = None"
  shows "\<exists>s'. remove_instance t base i s = Some s' \<and> index_ok GB (Some u) s' \<and>
    (\<forall>x. instances x s' = (if x = t then swap_remove i (instances t s) else instances x s)) \<and> same_files s s' \<and>
    same_journal (fold (toggle_instance_name t False)
      (if places (\<lambda>e. lname e = lname (instances t s ! i)) (instances t s) = {i} then [lname (instances t s ! i)] else []) s) s'"
proof -
  let ?es = "instances t s"
  let ?n = "lname (?es ! i)"
  have es: "map_of (tx_map s) t = Some ?es" using i by (auto simp: instances_def alist_get_def split: option.splits)
  have "names_of t s \<noteq> []"
    using names_ok_contains [OF index_ok_one(1) [OF ok, of t], of ?n] i by (auto intro!: bexI [of _ "?es ! i"])
  then obtain names where names: "map_of (tx_instance_sets s) t = Some names" "names_of t s = names"
    by (auto simp: names_of_def alist_get_def split: option.splits)
  obtain gone names' where rel: "release_name_at ?n base i names = (gone, names')" by (cases "release_name_at ?n base i names")
  have base': "base = (fst (?es ! i) \<in> GB)" using base u by simp
  note mid = release_name_at_mid [OF index_ok_one(1) [OF ok, of t, unfolded names(2)] i base' rel]
  define c where "c = (if is_subtype_key t then tx_name_counts s else dec_ref ?n (tx_name_counts s))"
  define s1 where "s1 = s\<lparr>tx_name_counts := c, tx_instance_sets := AList.update t names' (tx_instance_sets s)\<rparr>"
  define s2 where "s2 = (if gone then toggle_instance_name t False ?n s1 else s1)"
  have run: "remove_instance t base i s = swap_remove_instance t i s2"
    using es i names rel by (simp add: remove_instance_def s1_def s2_def c_def lname_def Let_def)
  have frame: "tx_map s2 = tx_map s" "tx_instance_sets s2 = AList.update t names' (tx_instance_sets s)"
    "tx_file_positions s2 = tx_file_positions s" "tx_base_game_uris s2 = tx_base_game_uris s" "tx_name_counts s2 = c"
    by (simp_all add: s2_def s1_def ix_simps)
  have keys2: "keys_ok s2" using index_ok_one(4) [OF ok] by (simp add: keys_ok_def frame distinct_update)
  have es2: "map_of (tx_map s2) t = Some ?es" using es frame by simp
  obtain s' where s': "swap_remove_instance t i s2 = Some s'"
    and m: "tx_map s' = AList.update t (swap_remove i ?es) (tx_map s2)"
    and nt: "names_of t s' = (if i = length ?es - 1 then names_of t s2 else repoint_name (length ?es - 1) i (lname (?es ! (length ?es - 1))) (names_of t s2))"
    and pt: "positions_of t s' = (\<lambda>v. if i \<noteq> length ?es - 1 \<and> v = fst (?es ! (length ?es - 1)) then repoint (length ?es - 1) i (positions_of t s2 v)
                            else positions_of t s2 v)"
    and oth: "\<forall>x. x \<noteq> t \<longrightarrow> names_of x s' = names_of x s2 \<and> positions_of x s' = positions_of x s2"
    and cnt2: "tx_name_counts s' = tx_name_counts s2" and keys': "keys_ok s'" and files: "same_files s2 s'" and journal: "same_journal s2 s'"
    using swap_remove_instance_views [OF es2 i keys2] by (elim exE conjE) (rule that)
  have cnt: "tx_name_counts s' = c" using cnt2 frame by simp
  have inst: "instances x s' = (if x = t then swap_remove i ?es else instances x s)" for x
    by (simp add: instances_def m frame ix_simps)
  have nt2: "names_of t s2 = names'" by (simp add: names_of_def frame ix_simps)
  have pos2: "positions_of x s2 = positions_of x s" for x by (simp add: positions_of_def frame)
  have files': "same_files s s'" using files frame by (simp add: same_files_def)
  have "index_ok GB (Some u) s'"
  proof (rule index_ok_one_type [OF ok keys' _ inst])
    show "base_ok GB s'" using index_ok_one(5) [OF ok] files' by (simp add: base_ok_def same_files_def)
    show "names_of x s' = names_of x s \<and> positions_of x s' = positions_of x s" if "x \<noteq> t" for x
      using that oth pos2 by (simp add: names_of_def frame ix_simps)
    show "names_ok GB (swap_remove i ?es) (names_of t s')"
      unfolding nt nt2 by (rule names_ok_move) (use mid i in blast)+
    show "positions_ok (Some u) (swap_remove i ?es) (positions_of t s')"
    proof (rule positions_ok_move [OF index_ok_one(2) [OF ok, of t] i u])
      show "positions_of t s' v = (if i \<noteq> length ?es - 1 \<and> v = fst (?es ! (length ?es - 1))
          then repoint (length ?es - 1) i (positions_of t s v) else positions_of t s v)" for v
        by (simp add: pt pos2)
      have "positions_of t s u = []" using out by (simp add: positions_of_def alist_get_def)
      then show "positions_of t s' u = []" unfolding pt pos2 by auto
    qed
    show "counts_ok (tx_name_counts s')" using index_ok_one(3) [OF ok] by (simp add: cnt c_def counts_ok_dec)
    show "ref_count (tx_name_counts s') n + name_uses n t ?es = ref_count (tx_name_counts s) n + name_uses n t (swap_remove i ?es)" for n
    proof (cases "is_subtype_key t")
      case False
      have "0 < ref_count (tx_name_counts s) ?n" using lname_counted [OF ok _ False, of "?es ! i"] i by simp
      then show ?thesis using False index_ok_one(3) [OF ok]
        by (auto simp: cnt c_def count_simps name_uses_def image_mset_swap_remove [OF i])
    qed (simp add: cnt c_def name_uses_def)
  qed
  moreover have "same_journal (fold (toggle_instance_name t False) (if places (\<lambda>e. lname e = ?n) ?es = {i} then [?n] else []) s) s'"
  proof -
    have "same_journal s s1" by (simp add: same_journal_def s1_def)
    from same_journal_toggles [OF this, of t False "if gone then [?n] else []"] journal
    have "same_journal (fold (toggle_instance_name t False) (if gone then [?n] else []) s) s'"
      unfolding s2_def by (auto intro: same_journal_trans split: if_splits)
    moreover have "gone \<longleftrightarrow> places (\<lambda>e. lname e = ?n) ?es = {i}" using mid by blast
    ultimately show ?thesis by simp
  qed
  ultimately show ?thesis using run s' inst files' by (intro exI [of _ s'] conjI) simp_all
qed

subsection \<open>Removing a file\<close>

abbreviation in_file :: "ustr \<Rightarrow> type_entries \<Rightarrow> nat set" where
  "in_file u es \<equiv> places (\<lambda>e. fst e = u) es"

definition drop_file :: "ustr \<Rightarrow> (ustr \<times> type_instance) multiset \<Rightarrow> (ustr \<times> type_instance) multiset" where
  "drop_file u A = filter_mset (\<lambda>e. fst e \<noteq> u) A"

lemma drop_file_none: "in_file u es = {} \<Longrightarrow> drop_file u (mset es) = mset es"
  by (auto simp: drop_file_def places_empty_iff filter_mset_eq_conv)

lemma drop_file_swap_remove:
  assumes "i < length es" "fst (es ! i) = u"
  shows "drop_file u (mset (swap_remove i es)) = drop_file u (mset es)"
  unfolding mset_swap_remove [OF assms(1), symmetric] using assms(2) by (simp add: drop_file_def)

lemma in_file_swap_remove:
  assumes "in_file u es = insert i A" "\<forall>j \<in> A. j < i"
  shows "in_file u (swap_remove i es) = A"
proof -
  have i: "i < length es" and A: "A = in_file u es - {i}" using assms by (auto simp: places_def)
  have "length es - 1 \<notin> A" using assms i by fastforce
  then show ?thesis unfolding places_swap_remove [OF i] A [symmetric] by (rule moved_to_absent)
qed

lemma removed_name_flip:
  assumes i: "i < length (instances t s)"
    and inst: "\<forall>x. instances x s' = (if x = t then swap_remove i (instances t s) else instances x s)"
    and diff: "has_name s' x n \<noteq> has_name s x n"
  shows "x = t \<and> n = lname (instances t s ! i) \<and> places (\<lambda>e. lname e = n) (instances t s) = {i}"
proof -
  let ?es = "instances t s"
  have x: "x = t" using diff inst by (auto simp: has_name_def split: if_splits)
  have "set ?es = insert (?es ! i) (set (swap_remove i ?es))"
    using arg_cong [OF mset_swap_remove [OF i], of set_mset] by simp
  then have n: "n = lname (?es ! i)" "n \<notin> lname ` set (swap_remove i ?es)"
    using diff inst x by (auto simp: has_name_def)
  then have "places (\<lambda>e. lname e = n) (swap_remove i ?es) = {}" unfolding places_empty_iff by (metis imageI)
  then have "places (\<lambda>e. lname e = n) ?es - {i} = {}" unfolding places_swap_remove [OF i] by simp
  moreover have "i \<in> places (\<lambda>e. lname e = n) ?es" using i n(1) by (simp add: places_def)
  ultimately show ?thesis using x n(1) by blast
qed

text \<open>What one stage of the removal of a file \<open>u\<close> keeps.\<close>

definition removal_stage :: "ustr set \<Rightarrow> ustr \<Rightarrow> type_index \<Rightarrow> type_index \<Rightarrow> bool" where
  "removal_stage GB u s s' \<longleftrightarrow> index_ok GB (Some u) s' \<and> map_of (tx_file_positions s') u = None \<and>
     tx_derived s' = tx_derived s \<and> tx_dirty s' = tx_dirty s \<and>
     (tx_file_replacement s' = None \<longleftrightarrow> tx_file_replacement s = None) \<and>
     (\<forall>c0 m0. journal_ok c0 m0 s \<longrightarrow> journal_ok c0 m0 s')"

lemma removal_stage_trans: "removal_stage GB u a b \<Longrightarrow> removal_stage GB u b c \<Longrightarrow> removal_stage GB u a c"
  by (auto simp: removal_stage_def)

lemma remove_instance_stage:
  assumes ok: "index_ok GB (Some u) s" and i: "i < length (instances t s)" and u: "fst (instances t s ! i) = u"
    and base: "base = (u \<in> GB)" and out: "map_of (tx_file_positions s) u = None"
  shows "\<exists>s'. remove_instance t base i s = Some s' \<and> removal_stage GB u s s' \<and>
    (\<forall>x. instances x s' = (if x = t then swap_remove i (instances t s) else instances x s))"
proof -
  let ?ns = "if places (\<lambda>e. lname e = lname (instances t s ! i)) (instances t s) = {i} then [lname (instances t s ! i)] else []"
  obtain s' where s': "remove_instance t base i s = Some s'" "index_ok GB (Some u) s'" "same_files s s'"
      "\<forall>x. instances x s' = (if x = t then swap_remove i (instances t s) else instances x s)"
    and j: "same_journal (toggles False (map (Pair t) ?ns) s) s'"
    using remove_instance_ok [OF assms] unfolding toggles_one_type by blast
  have "journal_ok c0 m0 s'" if "journal_ok c0 m0 s" for c0 m0
  proof (rule journal_ok_toggles [OF that j])
    show "(x, n) \<in> set (map (Pair t) ?ns)" if "has_name s' x n \<noteq> has_name s x n" for x n
      using removed_name_flip [OF i s'(4) that] by auto
    show "has_name s x n = (\<not> False) \<and> to_ascii_lowercase n = n" if "(x, n) \<in> set (map (Pair t) ?ns)" for x n
      using that i by (auto simp: has_name_def lname_lower split: if_splits)
  qed
  moreover have "map_of (tx_file_positions s') u = None" using s'(3) out by (simp add: same_files_def)
  moreover have "tx_derived s' = tx_derived s \<and> tx_dirty s' = tx_dirty s \<and> (tx_file_replacement s' = None \<longleftrightarrow> tx_file_replacement s = None)"
    using j toggles_frame [of False "map (Pair t) ?ns" s] by (auto simp only: same_journal_def)
  ultimately have "removal_stage GB u s s'" using s'(2) by (simp add: removal_stage_def)
  then show ?thesis using s' by blast
qed

lemma removal_stage_refl: "index_ok GB (Some u) s \<Longrightarrow> map_of (tx_file_positions s) u = None \<Longrightarrow> removal_stage GB u s s"
  by (simp add: removal_stage_def)

lemma remove_positions_ok:
  assumes "index_ok GB (Some u) s" "map_of (tx_file_positions s) u = None" "base = (u \<in> GB)"
    and "sorted_wrt (>) ps" "set ps = in_file u (instances t s)"
  shows "\<exists>s'. remove_positions t base ps s = Some s' \<and> removal_stage GB u s s' \<and>
    (\<forall>x. x \<noteq> t \<longrightarrow> instances x s' = instances x s) \<and> mset (instances t s') = drop_file u (mset (instances t s))"
  using assms
proof (induction ps arbitrary: s)
  case Nil
  then show ?case by (simp add: drop_file_none removal_stage_refl)
next
  case (Cons i ps)
  let ?es = "instances t s"
  have "i \<in> in_file u ?es" using Cons.prems(5) by (metis list.set_intros(1))
  then have i: "i < length ?es" "fst (?es ! i) = u" by (auto simp: places_def)
  obtain s1 where s1: "remove_instance t base i s = Some s1" "removal_stage GB u s s1"
      "\<forall>x. instances x s1 = (if x = t then swap_remove i ?es else instances x s)"
    using remove_instance_stage [OF Cons.prems(1) i Cons.prems(3,2)] by blast
  have st: "index_ok GB (Some u) s1" "map_of (tx_file_positions s1) u = None" using s1(2) by (auto simp: removal_stage_def)
  have "in_file u (swap_remove i ?es) = set ps"
    by (rule in_file_swap_remove) (use Cons.prems(4,5) in auto)
  then have "set ps = in_file u (instances t s1)" using s1(3) by simp
  then obtain s2 where s2: "remove_positions t base ps s1 = Some s2" "removal_stage GB u s1 s2"
      "\<forall>x. x \<noteq> t \<longrightarrow> instances x s2 = instances x s1" "mset (instances t s2) = drop_file u (mset (instances t s1))"
    using Cons.IH [OF st Cons.prems(3)] Cons.prems(4) by auto
  have "mset (instances t s2) = drop_file u (mset ?es)" using s2(4) s1(3) drop_file_swap_remove [OF i] by simp
  then show ?case using s1 s2 removal_stage_trans [OF s1(2) s2(2)] by auto
qed

lemma drop_empty_type_ok:
  assumes ok: "index_ok GB (Some u) s" and out: "map_of (tx_file_positions s) u = None"
  shows "removal_stage GB u s (drop_empty_type t s) \<and> (\<forall>x. instances x (drop_empty_type t s) = instances x s)"
proof (cases "map_of (tx_map s) t = Some []")
  case True
  let ?s = "drop_empty_type t s"
  have s': "?s = s\<lparr>tx_map := AList.delete t (tx_map s), tx_instance_sets := AList.delete t (tx_instance_sets s)\<rparr>"
    using True by (simp add: drop_empty_type_def)
  have inst: "instances x ?s = instances x s" for x using True by (auto simp: s' instances_def ix_simps alist_get_Some)
  have "instances t s = []" using True by (simp add: instances_def alist_get_Some)
  then have "names_of t s = []" using index_ok_one(1) [OF ok, of t] by (simp add: names_ok_empty)
  then have names: "names_of x ?s = names_of x s" for x by (simp add: s' names_of_def ix_simps)
  have pos: "positions_of x ?s = positions_of x s" for x by (simp add: s' positions_of_def)
  have "keys_ok ?s" using index_ok_one(4) [OF ok] by (simp add: s' keys_ok_def distinct_delete)
  moreover have "base_ok GB ?s" using index_ok_one(5) [OF ok] by (simp add: s' base_ok_def)
  ultimately have "index_ok GB (Some u) ?s"
    using ok by (simp add: index_ok_def tables_ok_def inst names pos) (simp add: s')
  moreover have "journal_ok c0 m0 ?s = journal_ok c0 m0 s" for c0 m0
    by (rule journal_ok_cong [OF inst]) (simp_all add: s')
  ultimately show ?thesis using inst out by (simp add: removal_stage_def) (simp add: s')
next
  case False
  then have "drop_empty_type t s = s" by (simp add: drop_empty_type_def)
  then show ?thesis using removal_stage_refl [OF ok out] by simp
qed

lemma sorted_descending: "distinct ps \<Longrightarrow> sorted_wrt (>) (rev (sort ps))"
  by (simp add: sorted_wrt_rev strict_sorted_iff)

lemma remove_types_ok:
  assumes "index_ok GB (Some u) s" "map_of (tx_file_positions s) u = None" "base = (u \<in> GB)" "distinct (map fst tps)"
    and "\<forall>(t, ps) \<in> set tps. distinct ps \<and> set ps = in_file u (instances t s)"
  shows "\<exists>s'. remove_types base tps s = Some s' \<and> removal_stage GB u s s' \<and>
    (\<forall>x. mset (instances x s') = (if x \<in> fst ` set tps then drop_file u (mset (instances x s)) else mset (instances x s)))"
  using assms
proof (induction tps arbitrary: s)
  case Nil
  then show ?case by (simp add: removal_stage_refl)
next
  case (Cons tp tps)
  obtain t ps where tp: "tp = (t, ps)" by (cases tp)
  have ps: "distinct ps" "set ps = in_file u (instances t s)" using Cons.prems(5) tp by auto
  then have "set (rev (sort ps)) = in_file u (instances t s)" by simp
  then obtain s1 where s1: "remove_positions t base (rev (sort ps)) s = Some s1" "removal_stage GB u s s1"
      "\<forall>x. x \<noteq> t \<longrightarrow> instances x s1 = instances x s" "mset (instances t s1) = drop_file u (mset (instances t s))"
    using remove_positions_ok [OF Cons.prems(1-3) sorted_descending [OF ps(1)]] by blast
  have st1: "index_ok GB (Some u) s1" "map_of (tx_file_positions s1) u = None" using s1(2) by (auto simp: removal_stage_def)
  let ?s2 = "drop_empty_type t s1"
  have drop: "removal_stage GB u s1 ?s2" "\<forall>x. instances x ?s2 = instances x s1" using drop_empty_type_ok [OF st1, of t] by auto
  have st2: "index_ok GB (Some u) ?s2" "map_of (tx_file_positions ?s2) u = None" using drop(1) by (auto simp: removal_stage_def)
  have "t \<notin> fst ` set tps" and dist: "distinct (map fst tps)" using Cons.prems(4) tp by auto
  then have rest: "\<forall>(x, ps) \<in> set tps. distinct ps \<and> set ps = in_file u (instances x ?s2)"
    using Cons.prems(5) s1(3) drop(2) by (fastforce simp: image_iff)
  obtain s' where s': "remove_types base tps ?s2 = Some s'" "removal_stage GB u ?s2 s'"
      "\<forall>x. mset (instances x s') = (if x \<in> fst ` set tps then drop_file u (mset (instances x ?s2)) else mset (instances x ?s2))"
    using Cons.IH [OF st2 Cons.prems(3) dist rest] by blast
  have "removal_stage GB u s s'" using s1(2) drop(1) s'(2) by (blast intro: removal_stage_trans)
  moreover have "remove_types base (tp # tps) s = Some s'" using s1(1) s'(1) by (simp add: tp)
  moreover have "mset (instances x s') = (if x \<in> fst ` set (tp # tps) then drop_file u (mset (instances x s)) else mset (instances x s))" for x
    using s'(3) drop(2) s1(3,4) \<open>t \<notin> fst ` set tps\<close> tp by (cases "x = t") auto
  ultimately show ?case by blast
qed

lemma positions_ok_absent: "positions_ok None es P \<Longrightarrow> P u = [] \<Longrightarrow> in_file u es = {}"
  by (auto simp: positions_ok_def dest!: spec [of _ u])

text \<open>A whole removal: it never panics, the index is in order again, and exactly the entries of the file are gone.\<close>

lemma remove_file_ok:
  assumes ok: "index_ok GB None s"
  shows "\<exists>s'. remove_file u s = Some s' \<and> change_step GB s s' \<and> content s' = (\<lambda>t. drop_file u (content s t)) \<and>
    tx_derived s' = derived_remove_files (\<lambda>v. v = u) (tx_derived s)"
proof -
  define s0 where "s0 = s\<lparr>tx_complex_enum_values := named_value_remove_file u (tx_complex_enum_values s),
                tx_value_set_values := named_value_remove_file u (tx_value_set_values s),
                tx_scripted_loc_index := scripted_loc_remove_file u (tx_scripted_loc_index s),
                tx_scripted_gui_index := scripted_gui_remove_file u (tx_scripted_gui_index s),
                tx_derived := derived_remove_files (\<lambda>v. v = u) (tx_derived s)\<rparr>"
  have fields: "tx_map s0 = tx_map s" "tx_instance_sets s0 = tx_instance_sets s" "tx_file_positions s0 = tx_file_positions s"
    "tx_name_counts s0 = tx_name_counts s" "tx_base_game_uris s0 = tx_base_game_uris s" "tx_changed s0 = tx_changed s"
    "tx_dirty s0 = tx_dirty s" "tx_file_replacement s0 = tx_file_replacement s"
    "tx_derived s0 = derived_remove_files (\<lambda>v. v = u) (tx_derived s)"
    by (simp_all add: s0_def)
  have inst0: "instances x s0 = instances x s" for x by (simp add: instances_def fields)
  have pos: "positions_ok None (instances t s) (positions_of t s)" for t using ok by (rule index_ok_one)
  show ?thesis
  proof (cases "map_of (tx_file_positions s) u")
    case None
    have "remove_file u s = Some s0" using None by (simp add: remove_file_def s0_def Let_def)
    moreover have "in_file u (instances t s) = {}" for t
      using positions_ok_absent [OF pos] None by (simp add: positions_of_def alist_get_def)
    then have "content s0 = (\<lambda>t. drop_file u (content s t))" by (simp add: content_def inst0 drop_file_none)
    moreover have "index_ok GB None s0" using ok by (subst index_ok_cong [of _ s]) (simp_all add: fields)
    then have "change_step GB s s0" using journal_ok_cong [of s0 s] by (simp add: change_step_def inst0 fields)
    ultimately show ?thesis using fields by auto
  next
    case (Some tps)
    let ?s1 = "s0\<lparr>tx_file_positions := AList.delete u (tx_file_positions s), tx_base_game_uris := tx_base_game_uris s - {u}\<rparr>"
    have run: "remove_file u s = remove_types (u \<in> tx_base_game_uris s) tps ?s1"
      using Some by (simp add: remove_file_def s0_def Let_def)
    have base: "(u \<in> tx_base_game_uris s) = (u \<in> GB)"
      using index_ok_one(5) [OF ok] Some by (auto simp: base_ok_def)
    have inst1: "instances x ?s1 = instances x s" for x using inst0 [of x] by (simp add: instances_def)
    have pos1: "positions_of x ?s1 = (positions_of x s)(u := [])" for x by (auto simp: positions_of_def ix_simps)
    have names1: "names_of x ?s1 = names_of x s" for x by (simp add: names_of_def fields)
    have "keys_ok ?s1" using index_ok_one(4) [OF ok] by (auto simp: keys_ok_def fields distinct_delete ix_simps)
    moreover have "base_ok GB ?s1" using index_ok_one(5) [OF ok] by (auto simp: base_ok_def ix_simps)
    moreover have "tables_ok GB (Some u) ?s1"
      using index_ok_one(1) [OF ok] pos by (simp add: tables_ok_def inst1 pos1 names1 positions_ok_def)
    moreover have "counted (tx_name_counts ?s1) (\<lambda>t. instances t ?s1)" using index_ok_one(6) [OF ok] by (simp add: inst1 fields)
    ultimately have ok1: "index_ok GB (Some u) ?s1" by (simp add: index_ok_def)
    have out1: "map_of (tx_file_positions ?s1) u = None" by (simp add: ix_simps)
    have tps: "distinct (map fst tps)" using index_ok_one(4) [OF ok] Some by (auto simp: keys_ok_def alist_get_Some dest: spec [of _ u])
    have P: "positions_of t s u = alist_get [] tps t" for t using Some by (simp add: positions_of_def alist_get_Some)
    have each: "\<forall>(t, ps) \<in> set tps. distinct ps \<and> set ps = in_file u (instances t ?s1)"
    proof (intro ballI, clarify)
      fix t ps assume "(t, ps) \<in> set tps"
      then have "alist_get [] tps t = ps" using tps by (simp add: alist_get_Some)
      moreover have "distinct (positions_of t s u) \<and> set (positions_of t s u) = in_file u (instances t s)"
        using pos [of t] by (simp add: positions_ok_def)
      ultimately show "distinct ps \<and> set ps = in_file u (instances t ?s1)" unfolding P inst1 by simp
    qed
    obtain s' where s': "remove_types (u \<in> tx_base_game_uris s) tps ?s1 = Some s'" "removal_stage GB u ?s1 s'"
      "\<forall>x. mset (instances x s') = (if x \<in> fst ` set tps then drop_file u (mset (instances x ?s1)) else mset (instances x ?s1))"
      using remove_types_ok [OF ok1 out1 base tps each] by blast
    have absent: "in_file u (instances t s) = {}" if "t \<notin> fst ` set tps" for t
    proof (rule positions_ok_absent [OF pos])
      have "map_of tps t = None" using that by (simp add: map_of_eq_None_iff)
      then show "positions_of t s u = []" unfolding P by (rule alist_get_None)
    qed
    then have c: "content s' = (\<lambda>t. drop_file u (content s t))"
      using s'(3) by (auto simp: content_def inst1 drop_file_none)
    have "index_ok GB None s'"
    proof -
      have ok': "index_ok GB (Some u) s'" and out': "map_of (tx_file_positions s') u = None" using s'(2) by (auto simp: removal_stage_def)
      have "positions_ok None (instances t s') (positions_of t s')" for t
      proof -
        have "mset (instances t s') = drop_file u (mset (instances t s))" using c by (metis content_def)
        then have "set (instances t s') = {e \<in> set (instances t s). fst e \<noteq> u}" by (metis drop_file_def set_mset_filter set_mset_mset)
        then have "in_file u (instances t s') = {}" by (auto simp: places_empty_iff)
        moreover have "positions_of t s' u = []" using out' by (simp add: positions_of_def alist_get_def)
        ultimately show ?thesis using index_ok_one(2) [OF ok', of t] by (auto simp: positions_ok_def)
      qed
      then show ?thesis using ok' by (simp add: index_ok_def tables_ok_def)
    qed
    moreover have "journal_ok c0 m0 ?s1 = journal_ok c0 m0 s" for c0 m0
      by (rule journal_ok_cong [OF inst1]) (simp_all add: fields)
    ultimately have "change_step GB s s'" using s'(2) by (simp add: removal_stage_def change_step_def fields)
    then show ?thesis using run s'(1,2) c by (auto simp: removal_stage_def fields)
  qed
qed

end
