(* ===== verification/Type_Index_Batch.thy ===== *)
theory Type_Index_Batch
  imports Type_Index_Files
begin

text \<open>
  The batch removal \<^verbatim>\<open>remove_files\<close>.  The names of a type are first counted down without regard to
  positions (\<open>tally\<close>), then both tables of positions are built again from the entries that are
  left; the result is an index in order, with the same content as after removing the files one
  by one.
\<close>

section \<open>Counts without positions\<close>

definition tally_at :: "ustr set \<Rightarrow> (ustr \<times> type_instance) multiset \<Rightarrow> ustr \<Rightarrow> name_refs option \<Rightarrow> bool" where
  "tally_at GB A n r \<longleftrightarrow>
     (case r of
        None \<Rightarrow> n \<notin> lname ` set_mset A
      | Some r \<Rightarrow> nr_total r = size (filter_mset (\<lambda>e. lname e = n) A) \<and> 0 < nr_total r \<and>
          nr_workspace r = size (filter_mset (\<lambda>e. lname e = n \<and> fst e \<notin> GB) A))"

definition tally :: "ustr set \<Rightarrow> (ustr \<times> type_instance) multiset \<Rightarrow> name_set \<Rightarrow> bool" where
  "tally GB A names \<longleftrightarrow> distinct (map fst names) \<and> (\<forall>n. tally_at GB A n (map_of names n))"

definition names_point :: "type_entries \<Rightarrow> name_set \<Rightarrow> bool" where
  "names_point es names \<longleftrightarrow>
     (\<forall>n r. map_of names n = Some r \<longrightarrow> distinct (nr_positions r) \<and> set (nr_positions r) = places (\<lambda>e. lname e = n) es)"

lemma card_places: "card (places Q es) = size (filter_mset Q (mset es))"
proof -
  have "size (filter_mset Q (mset es)) = length (filter Q es)" by (simp flip: mset_filter)
  then show ?thesis by (simp add: places_def length_filter_conv_card)
qed

lemma name_ok_tally_at:
  "name_ok GB es n r \<longleftrightarrow> tally_at GB (mset es) n r \<and>
     (\<forall>q. r = Some q \<longrightarrow> distinct (nr_positions q) \<and> set (nr_positions q) = places (\<lambda>e. lname e = n) es)"
  by (cases r) (auto simp: name_ok_def tally_at_def card_places places_empty_iff)

lemma names_ok_tally: "names_ok GB es names \<longleftrightarrow> tally GB (mset es) names \<and> names_point es names"
  by (auto simp: names_ok_def tally_def names_point_def name_ok_tally_at)

lemma tally_empty: "tally GB {#} names \<Longrightarrow> names = []"
proof (rule ccontr)
  assume t: "tally GB {#} names" and "names \<noteq> []"
  then obtain n r ns where "names = (n, r) # ns" by (cases names) auto
  moreover have "tally_at GB {#} n (map_of names n)" using t by (simp add: tally_def)
  ultimately show False by (auto simp: tally_at_def)
qed

lemma tally_Nil: "tally GB A [] \<Longrightarrow> A = {#}"
  by (simp add: tally_def tally_at_def)

lemma size_filter_0: "size (filter_mset P A) = 0 \<longleftrightarrow> (\<forall>x \<in># A. \<not> P x)"
  by (induction A) auto

lemma tally_release:
  assumes t: "tally GB (add_mset e A) names" and base: "base = (fst e \<in> GB)"
    and rel: "release_name (lname e) base names = (gone, names')"
  shows "tally GB A names' \<and> (gone \<longleftrightarrow> lname e \<notin> lname ` set_mset A)"
proof -
  let ?n = "lname e"
  have at: "tally_at GB (add_mset e A) n (map_of names n)" for n using t by (simp add: tally_def)
  obtain r where r: "map_of names ?n = Some r" using at [of ?n] by (cases "map_of names ?n") (auto simp: tally_at_def)
  define r' where "r' = snd (refs_release base r)"
  have r': "nr_total r' = size (filter_mset (\<lambda>x. lname x = ?n) A)"
    "nr_workspace r' = size (filter_mset (\<lambda>x. lname x = ?n \<and> fst x \<notin> GB) A)"
    using at [of ?n] base by (auto simp: r tally_at_def r'_def refs_release_def Let_def)
  have zero: "nr_total r' = 0 \<longleftrightarrow> ?n \<notin> lname ` set_mset A"
    
  proof -
    have "nr_total r' = 0 \<longleftrightarrow> (\<forall>x \<in># A. lname x \<noteq> ?n)" unfolding r'(1) by (rule size_filter_0)
    then show ?thesis by (metis imageE imageI)
  qed
  have "release_name ?n base names = (nr_total r' = 0, if nr_total r' = 0 then AList.delete ?n names else AList.update ?n r' names)"
    unfolding release_name_def r option.case r'_def by (simp add: refs_release_def Let_def)
  with rel have both: "(gone, names') =
      (nr_total r' = 0, if nr_total r' = 0 then AList.delete ?n names else AList.update ?n r' names)" by (rule trans [OF sym])
  then have gone: "gone \<longleftrightarrow> nr_total r' = 0" by (rule Pair_inject)
  have names': "names' = (if gone then AList.delete ?n names else AList.update ?n r' names)"
    using both unfolding gone by (rule Pair_inject)
  have "tally_at GB A n (map_of names' n)" for n
  proof (cases "n = ?n")
    case True
    have "map_of names' ?n = (if gone then None else Some r')" unfolding names' by (simp add: ix_simps)
    moreover have "tally_at GB A ?n (if gone then None else Some r')"
    proof (cases gone)
      case True
      then have "?n \<notin> lname ` set_mset A" using gone zero by blast
      with True show ?thesis by (simp add: tally_at_def)
    next
      case False
      then have "0 < nr_total r'" using gone by simp
      with False r' show ?thesis by (simp add: tally_at_def)
    qed
    ultimately show ?thesis unfolding True by simp
  next
    case False
    have "map_of names' n = map_of names n" unfolding names' using False by (simp add: ix_simps)
    then show ?thesis using at [of n] False unfolding tally_at_def by (cases "map_of names n") auto
  qed
  moreover have "distinct (map fst names')" using t unfolding names' by (simp add: tally_def distinct_update distinct_delete)
  ultimately show ?thesis using gone zero by (simp add: tally_def)
qed

lemma forget_entry_step:
  "release_name (lname e) (fst e \<in> B) names = (gone, names') \<Longrightarrow>
   forget_entry B sub e (c, names, g) = (if sub then c else dec_ref (lname e) c, names', if gone then g @ [lname e] else g)"
  by (cases e) (simp add: forget_entry_def lname_def Let_def)

lemma forget_entries:
  assumes "tally GB (mset es + A) names" "\<forall>e \<in> set es. (fst e \<in> B) = (fst e \<in> GB)" "counts_ok c"
    "\<forall>n. uses_more sub es n \<le> ref_count c n"
    "fold (forget_entry B sub) es (c, names, g) = (c', names', g')"
  shows "tally GB A names' \<and> counts_ok c' \<and> (\<forall>n. ref_count c' n + uses_more sub es n = ref_count c n) \<and>
    set g' = set g \<union> (lname ` set es - lname ` set_mset A)"
  using assms
proof (induction es arbitrary: c names g)
  case Nil
  then show ?case by (auto simp: uses_more_def)
next
  case (Cons e es)
  obtain gone names1 where rel: "release_name (lname e) (fst e \<in> B) names = (gone, names1)"
    by (cases "release_name (lname e) (fst e \<in> B) names")
  let ?c = "if sub then c else dec_ref (lname e) c" and ?g = "if gone then g @ [lname e] else g"
  have step: "fold (forget_entry B sub) es (?c, names1, ?g) = (c', names', g')"
    using Cons.prems(5) by (simp only: fold.simps comp_apply forget_entry_step [OF rel])
  have "tally GB (add_mset e (mset es + A)) names" using Cons.prems(1) by simp
  note one = tally_release [OF this _ rel]
  have base: "(fst e \<in> B) = (fst e \<in> GB)" using Cons.prems(2) by simp
  have t: "tally GB (mset es + A) names1" and gone: "gone \<longleftrightarrow> lname e \<notin> lname ` set_mset (mset es + A)"
    using one [OF base] by blast+
  have c: "counts_ok ?c" using Cons.prems(3) by (simp add: counts_ok_dec)
  have cn: "ref_count ?c n + uses_more sub [e] n = ref_count c n" for n
    using Cons.prems(3) Cons.prems(4) [rule_format, of n] by (auto simp: uses_more_def count_simps)
  have "uses_more sub es n \<le> ref_count ?c n" for n
    using cn [of n] Cons.prems(4) [rule_format, of n] by (simp add: uses_more_Cons [of sub e es])
  then have IH: "tally GB A names' \<and> counts_ok c' \<and> (\<forall>n. ref_count c' n + uses_more sub es n = ref_count ?c n) \<and>
      set g' = set ?g \<union> (lname ` set es - lname ` set_mset A)"
    using Cons.IH [OF t _ c _ step] Cons.prems(2) by simp
  have "ref_count c' n + uses_more sub (e # es) n = ref_count c n" for n
  proof -
    have "ref_count c' n + uses_more sub es n = ref_count ?c n" using IH by blast
    then show ?thesis using cn [of n] by (simp add: uses_more_Cons [of sub e es])
  qed
  moreover have "set g' = set ?g \<union> (lname ` set es - lname ` set_mset A)" using IH by blast
  then have "set g' = set g \<union> (lname ` set (e # es) - lname ` set_mset A)" using gone by (auto split: if_splits)
  ultimately show ?case using IH by blast
qed

section \<open>The entries that go\<close>

lemma counted_ge: "counted c E \<Longrightarrow> name_uses n t (E t) \<le> ref_count c n"
proof -
  assume "counted c E"
  then obtain K where K: "finite K" "\<forall>t. t \<notin> K \<longrightarrow> E t = []" "ref_count c n = (\<Sum>t\<in>K. name_uses n t (E t))"
    by (auto simp: counted_def)
  show ?thesis
  proof (cases "t \<in> K")
    case True
    then show ?thesis unfolding K(3) by (rule member_le_sum) (use K(1) in simp_all)
  qed (use K(2) in simp)
qed

abbreviation stays :: "ustr set \<Rightarrow> ustr \<times> type_instance \<Rightarrow> bool" where
  "stays uris \<equiv> (\<lambda>(uri, _). uri \<notin> uris)"

abbreviation goes_away :: "ustr set \<Rightarrow> ustr \<times> type_instance \<Rightarrow> bool" where
  "goes_away uris \<equiv> (\<lambda>(uri, _). uri \<in> uris)"

lemma mset_stays: "mset (filter (goes_away uris) es) + mset (filter (stays uris) es) = mset es"
proof -
  have "stays uris = (\<lambda>e. \<not> goes_away uris e)" by auto
  then show ?thesis by simp
qed

lemma names_gone: "lname ` set (filter (goes_away uris) es) - lname ` set (filter (stays uris) es) =
    lname ` set es - lname ` set (filter (stays uris) es)"
  by auto

lemma remove_types_batch:
  assumes "distinct (map fst m)" "distinct (map fst sets)" "counted c E"
    and "\<forall>(t, es) \<in> set m. E t = es \<and> tally GB (mset es) (alist_get [] sets t) \<and> (\<forall>e \<in> set es. (fst e \<in> B) = (fst e \<in> GB))"
    and "fold (remove_files_type uris B) m (c, sets, kept, ch) = (c', sets', kept', ch')"
  shows "distinct (map fst sets') \<and> counted c' (\<lambda>t. if t \<in> fst ` set m then filter (stays uris) (E t) else E t) \<and>
    (\<forall>(t, es) \<in> set m. tally GB (mset (filter (stays uris) es)) (alist_get [] sets' t)) \<and>
    (\<forall>t. t \<notin> fst ` set m \<longrightarrow> alist_get [] sets' t = alist_get [] sets t) \<and>
    kept' = kept @ map (\<lambda>(t, es). (t, filter (stays uris) es)) m \<and>
    set ch' = set ch \<union> {(t, n). \<exists>es. (t, es) \<in> set m \<and> n \<in> lname ` set es - lname ` set (filter (stays uris) es)}"
  using assms
proof (induction m arbitrary: c sets kept ch E)
  case Nil
  then show ?case by auto
next
  case (Cons p m)
  obtain t es where p: "p = (t, es)" by (cases p)
  let ?go = "filter (goes_away uris) es" and ?stay = "filter (stays uris) es" and ?names = "alist_get [] sets t"
  have t: "E t = es" "tally GB (mset es) ?names" "\<forall>e \<in> set es. (fst e \<in> B) = (fst e \<in> GB)" using Cons.prems(4) by (auto simp: p)
  have fresh: "t \<notin> fst ` set m" "distinct (map fst m)" using Cons.prems(1) by (auto simp: p)
  obtain c1 names gone where f: "fold (forget_entry B (is_subtype_key t)) ?go (c, ?names, []) = (c1, names, gone)"
    using prod_cases3 by blast
  have uses: "uses_more (is_subtype_key t) ?go n + name_uses n t ?stay = name_uses n t es" for n
  proof -
    have m: "mset es = mset ?go + mset ?stay" by (rule mset_stays [symmetric])
    have "count (image_mset lname (mset es)) n = count (image_mset lname (mset ?go)) n + count (image_mset lname (mset ?stay)) n"
      by (subst m) (simp only: image_mset_union count_union)
    then show ?thesis by (simp only: uses_more_def name_uses_def split: if_split) simp
  qed
  have "uses_more (is_subtype_key t) ?go n \<le> ref_count c n" for n
    using counted_ge [OF Cons.prems(3), of n t] uses [of n] by (simp add: t(1))
  moreover have "tally GB (mset ?go + mset ?stay) ?names" using t(2) by (simp only: mset_stays)
  moreover have "counts_ok c" using Cons.prems(3) by (simp add: counted_def)
  ultimately have fe: "tally GB (mset ?stay) names" "counts_ok c1" "\<forall>n. ref_count c1 n + uses_more (is_subtype_key t) ?go n = ref_count c n"
    "set gone = lname ` set es - lname ` set ?stay"
    using forget_entries [of GB ?go "mset ?stay" ?names B c "is_subtype_key t" "[]" c1 names gone] f t(3) names_gone [of uris es]
    by (simp_all only: set_mset_mset set_filter) (auto)
  let ?sets = "if map_of sets t = None then sets else AList.update t names sets"
  have step: "fold (remove_files_type uris B) m (c1, ?sets, kept @ [(t, ?stay)], ch @ map (Pair t) gone) = (c', sets', kept', ch')"
    using Cons.prems(5) f by (simp add: p remove_files_type_def)
  have get: "alist_get [] ?sets x = (if x = t then names else alist_get [] sets x)" for x
  proof (cases "map_of sets t")
    case None
    then have "?names = []" by (simp add: alist_get_def)
    with t(2) have "es = []" using tally_Nil by fastforce
    then have "names = []" using f \<open>?names = []\<close> by simp
    then show ?thesis using None \<open>?names = []\<close> by simp
  qed (simp add: ix_simps)
  have sets: "distinct (map fst ?sets)" using Cons.prems(2) by (simp add: distinct_update)
  have counted: "counted c1 (E(t := ?stay))"
  proof (rule counted_change [OF Cons.prems(3) fe(2)])
    fix n
    have "ref_count c1 n + uses_more (is_subtype_key t) ?go n = ref_count c n" using fe(3) by blast
    then show "ref_count c1 n + name_uses n t (E t) = ref_count c n + name_uses n t ?stay" using uses [of n] t(1) by simp
  qed
  have rest: "\<forall>(x, es) \<in> set m. (E(t := ?stay)) x = es \<and> tally GB (mset es) (alist_get [] ?sets x) \<and> (\<forall>e \<in> set es. (fst e \<in> B) = (fst e \<in> GB))"
  proof (intro ballI, clarify)
    fix x xs assume x: "(x, xs) \<in> set m"
    then have "x \<noteq> t" using fresh(1) by force
    then show "(E(t := ?stay)) x = xs \<and> tally GB (mset xs) (alist_get [] ?sets x) \<and> (\<forall>e \<in> set xs. (fst e \<in> B) = (fst e \<in> GB))"
      using Cons.prems(4) x unfolding get by (simp add: case_prod_beta) fastforce
  qed
  note IH = Cons.IH [OF fresh(2) sets counted rest step]
  have "(\<lambda>x. if x \<in> fst ` set m then filter (stays uris) ((E(t := ?stay)) x) else (E(t := ?stay)) x) =
      (\<lambda>x. if x \<in> fst ` set (p # m) then filter (stays uris) (E x) else E x)"
    using fresh(1) t(1) by (auto simp: p)
  then have "counted c' (\<lambda>x. if x \<in> fst ` set (p # m) then filter (stays uris) (E x) else E x)" using IH by simp
  moreover have "tally GB (mset ?stay) (alist_get [] sets' t)" using IH fresh(1) fe(1) get [of t] by simp
  then have "\<forall>(x, es) \<in> set (p # m). tally GB (mset (filter (stays uris) es)) (alist_get [] sets' x)" using IH by (auto simp: p)
  moreover have "alist_get [] sets' x = alist_get [] sets x" if "x \<notin> fst ` set (p # m)" for x using that IH get [of x] by (simp add: p)
  moreover have "set ch' = set ch \<union> {(x, n). \<exists>es. (x, es) \<in> set (p # m) \<and> n \<in> lname ` set es - lname ` set (filter (stays uris) es)}"
  proof -
    have "set ch' = set (ch @ map (Pair t) gone) \<union> {(x, n). \<exists>es. (x, es) \<in> set m \<and> n \<in> lname ` set es - lname ` set (filter (stays uris) es)}"
      using IH by blast
    then show ?thesis using fe(4) by (auto simp: p)
  qed
  ultimately show ?case using IH by (simp add: p)
qed

section \<open>The tables of positions, built again\<close>

lemma reindex_entries:
  assumes "tally GB (mset (es1 @ es2)) names" "names_point es1 names" "positions_ok None es1 (positions_in FP t)" "position_keys_ok FP"
    "fold (reindex_entry t) (enumerate (length es1) es2) (FP, names) = (FP', names')"
  shows "names_ok GB (es1 @ es2) names' \<and> positions_ok None (es1 @ es2) (positions_in FP' t) \<and> position_keys_ok FP' \<and>
    (\<forall>x. x \<noteq> t \<longrightarrow> positions_in FP' x = positions_in FP x) \<and> (\<forall>u. map_of FP' u = None \<longleftrightarrow> map_of FP u = None \<and> u \<notin> fst ` set es2)"
  using assms
proof (induction es2 arbitrary: es1 FP names)
  case Nil
  then show ?case by (simp add: names_ok_tally)
next
  case (Cons e es2)
  obtain u inst where e: "e = (u, inst)" by (cases e)
  let ?n = "lname e" and ?es = "es1 @ [e]" and ?FP = "add_position u t (length es1) FP"
  have at: "tally_at GB (mset (es1 @ e # es2)) n (map_of names n)" for n using Cons.prems(1) by (simp add: tally_def)
  obtain r where r: "map_of names ?n = Some r" using at [of ?n] by (cases "map_of names ?n") (auto simp: tally_at_def)
  let ?r = "r\<lparr>nr_positions := nr_positions r @ [length es1]\<rparr>"
  let ?names = "AList.update ?n ?r names"
  have low: "ascii_lowercase_if_needed (ti_name inst) = ?n" by (simp add: e lname_def)
  have "reindex_entry t (length es1, e) (FP, names) = (?FP, ?names)"
    using r low by (simp add: e reindex_entry_def add_position_def positions_in_def Let_def)
  then have step: "fold (reindex_entry t) (enumerate (length ?es) es2) (?FP, ?names) = (FP', names')"
    using Cons.prems(5) by simp
  have "tally GB (mset (?es @ es2)) ?names"
    using Cons.prems(1) at [of ?n] r by (auto simp: tally_def ix_simps distinct_update tally_at_def)
  moreover have "names_point ?es ?names" unfolding names_point_def
  proof (intro allI impI)
    fix n q assume q: "map_of ?names n = Some q"
    show "distinct (nr_positions q) \<and> set (nr_positions q) = places (\<lambda>e. lname e = n) ?es"
    proof (cases "n = ?n")
      case True
      have "distinct (nr_positions r) \<and> set (nr_positions r) = places (\<lambda>e. lname e = ?n) es1"
        using Cons.prems(2) r by (simp add: names_point_def)
      moreover have "q = ?r" using q True by (simp add: ix_simps)
      moreover have "length es1 \<notin> places (\<lambda>e. lname e = ?n) es1" by (simp add: places_def)
      ultimately show ?thesis using True by (simp add: places_append)
    next
      case False
      then show ?thesis using q Cons.prems(2) by (simp add: ix_simps names_point_def places_append)
    qed
  qed
  moreover have "positions_ok None ?es (positions_in ?FP t)"
    using positions_ok_merge [OF Cons.prems(3), of u inst] by (simp only: e positions_in_add if_True simp_thms)
  ultimately have IH: "names_ok GB (?es @ es2) names' \<and> positions_ok None (?es @ es2) (positions_in FP' t) \<and> position_keys_ok FP' \<and>
    (\<forall>x. x \<noteq> t \<longrightarrow> positions_in FP' x = positions_in ?FP x) \<and> (\<forall>v. map_of FP' v = None \<longleftrightarrow> map_of ?FP v = None \<and> v \<notin> fst ` set es2)"
    by (rule Cons.IH [OF _ _ _ position_keys_ok_add [OF Cons.prems(4)] step])
  have "map_of FP' v = None \<longleftrightarrow> map_of FP v = None \<and> v \<notin> fst ` set (e # es2)" for v
  proof -
    have "map_of FP' v = None \<longleftrightarrow> map_of ?FP v = None \<and> v \<notin> fst ` set es2" using IH by blast
    then show ?thesis by (auto simp: map_of_add_position e)
  qed
  moreover have "positions_in FP' x = positions_in FP x" if "x \<noteq> t" for x
  proof -
    have "positions_in FP' x = positions_in ?FP x" using IH that by blast
    then show ?thesis using that by (simp add: positions_in_add)
  qed
  ultimately show ?case using IH by simp
qed

lemma tally_clear:
  assumes "tally GB A names"
  shows "tally GB A (map (\<lambda>(n, refs). (n, refs\<lparr>nr_positions := []\<rparr>)) names) \<and>
    names_point [] (map (\<lambda>(n, refs). (n, refs\<lparr>nr_positions := []\<rparr>)) names)"
proof -
  let ?names = "map (\<lambda>(n, refs). (n, refs\<lparr>nr_positions := []\<rparr>)) names"
  have get: "map_of ?names n = map_option (\<lambda>r. r\<lparr>nr_positions := []\<rparr>) (map_of names n)" for n
    by (induction names) auto
  have "map fst ?names = map fst names" by auto
  then have "distinct (map fst ?names)" using assms by (simp only: tally_def)
  moreover have "tally_at GB A n (map_of ?names n)" for n
    using assms unfolding get by (cases "map_of names n") (auto simp: tally_def tally_at_def dest: spec [of _ n])
  moreover have "names_point [] ?names" by (auto simp: names_point_def get places_def)
  ultimately show ?thesis by (simp only: tally_def) blast
qed

lemma reindex_types:
  assumes "distinct (map fst m)" "distinct (map fst sets)" "position_keys_ok FP"
    and "\<forall>(t, es) \<in> set m. tally GB (mset es) (alist_get [] sets t) \<and> positions_in FP t = (\<lambda>u. [])"
    and "fold reindex_type m (FP, sets) = (FP', sets')"
  shows "(\<forall>(t, es) \<in> set m. names_ok GB es (alist_get [] sets' t) \<and> positions_ok None es (positions_in FP' t)) \<and>
    (\<forall>t. t \<notin> fst ` set m \<longrightarrow> alist_get [] sets' t = alist_get [] sets t \<and> positions_in FP' t = positions_in FP t) \<and>
    distinct (map fst sets') \<and> position_keys_ok FP' \<and>
    (\<forall>u. map_of FP' u = None \<longleftrightarrow> map_of FP u = None \<and> (\<forall>(t, es) \<in> set m. u \<notin> fst ` set es))"
  using assms
proof (induction m arbitrary: FP sets)
  case Nil
  then show ?case by simp
next
  case (Cons p m)
  obtain t es where p: "p = (t, es)" by (cases p)
  let ?names = "alist_get [] sets t"
  let ?cleared = "map (\<lambda>(n, refs). (n, refs\<lparr>nr_positions := []\<rparr>)) ?names"
  have t: "tally GB (mset es) ?names" "positions_in FP t = (\<lambda>u. [])" using Cons.prems(4) by (auto simp: p)
  have fresh: "t \<notin> fst ` set m" "distinct (map fst m)" using Cons.prems(1) by (auto simp: p)
  obtain FP1 names where f: "fold (reindex_entry t) (enumerate 0 es) (FP, ?cleared) = (FP1, names)" by fastforce
  have clear: "tally GB (mset ([] @ es)) ?cleared" "names_point [] ?cleared" using tally_clear [OF t(1)] by simp_all
  have none: "positions_ok None [] (positions_in FP t)" by (simp add: t(2))
  have f': "fold (reindex_entry t) (enumerate (length []) es) (FP, ?cleared) = (FP1, names)" using f by simp
  note one = reindex_entries [OF clear none Cons.prems(3) f', unfolded append_Nil]
  let ?sets = "if map_of sets t = None then sets else AList.update t names sets"
  have step: "fold reindex_type m (FP1, ?sets) = (FP', sets')"
    using Cons.prems(5) f by (simp add: p reindex_type_def Let_def)
  have get: "alist_get [] ?sets x = (if x = t then names else alist_get [] sets x)" for x
  proof (cases "map_of sets t")
    case None
    then have "?names = []" by (simp add: alist_get_def)
    with t(1) have "es = []" using tally_Nil by fastforce
    then have "names = []" using f \<open>?names = []\<close> by simp
    then show ?thesis using None \<open>?names = []\<close> by simp
  qed (simp add: ix_simps)
  have sets: "distinct (map fst ?sets)" using Cons.prems(2) by (simp add: distinct_update)
  have pos: "positions_in FP1 x = positions_in FP x" if "x \<noteq> t" for x using one that by blast
  have keys: "position_keys_ok FP1" using one by blast
  have rest: "\<forall>(x, es) \<in> set m. tally GB (mset es) (alist_get [] ?sets x) \<and> positions_in FP1 x = (\<lambda>u. [])"
  proof (intro ballI, clarify)
    fix x xs assume x: "(x, xs) \<in> set m"
    then have "x \<noteq> t" using fresh(1) by force
    then show "tally GB (mset xs) (alist_get [] ?sets x) \<and> positions_in FP1 x = (\<lambda>u. [])"
      using Cons.prems(4) x pos unfolding get by (simp add: case_prod_beta) fastforce
  qed
  note IH = Cons.IH [OF fresh(2) sets keys rest step]
  have at_t: "alist_get [] sets' t = names" "positions_in FP' t = positions_in FP1 t" using IH fresh(1) get [of t] by simp_all
  have "names_ok GB es names" "positions_ok None es (positions_in FP1 t)" using one by blast+
  then have "\<forall>(x, es) \<in> set (p # m). names_ok GB es (alist_get [] sets' x) \<and> positions_ok None es (positions_in FP' x)"
    using IH at_t by (auto simp: p)
  moreover have "alist_get [] sets' x = alist_get [] sets x \<and> positions_in FP' x = positions_in FP x" if "x \<notin> fst ` set (p # m)" for x
    using that IH get [of x] pos [of x] by (simp add: p)
  moreover have "map_of FP' u = None \<longleftrightarrow> map_of FP u = None \<and> (\<forall>(t, es) \<in> set (p # m). u \<notin> fst ` set es)" for u
  proof -
    have "map_of FP' u = None \<longleftrightarrow> map_of FP1 u = None \<and> (\<forall>(t, es) \<in> set m. u \<notin> fst ` set es)" using IH by blast
    moreover have "map_of FP1 u = None \<longleftrightarrow> map_of FP u = None \<and> u \<notin> fst ` set es" using one by blast
    ultimately show ?thesis by (auto simp: p)
  qed
  ultimately show ?case using IH by blast
qed

section \<open>The batch removal\<close>

lemma alist_get_absent: "t \<notin> fst ` set m \<Longrightarrow> alist_get d m t = d"
proof -
  assume "t \<notin> fst ` set m"
  then have "map_of m t = None" by (simp add: map_of_eq_None_iff)
  then show ?thesis by (rule alist_get_None)
qed

lemma alist_get_Cons: "alist_get d ((k, v) # m) t = (if t = k then v else alist_get d m t)"
  by (simp add: alist_get_def)

lemma alist_get_filter:
  "distinct (map fst m) \<Longrightarrow> alist_get [] (filter (\<lambda>(_, v). v \<noteq> []) m) t = alist_get [] m t"
proof (induction m)
  case (Cons p m)
  obtain k v where p: "p = (k, v)" by (cases p)
  have "alist_get [] m k = []" using Cons.prems by (intro alist_get_absent) (simp add: p)
  then show ?case using Cons by (cases "v = []") (simp_all add: p alist_get_Cons)
qed simp

lemma same_journal_pairs: "same_journal s s' \<Longrightarrow> same_journal (toggles b ps s) (toggles b ps s')"
  by (induction ps arbitrary: s s') (auto simp: toggles_def intro: same_journal_toggle)

lemma map_keep: "map_of (map (\<lambda>(t, es). (t, f es)) m) t = map_option f (map_of m t)"
  by (induction m) auto

lemma indexed_file:
  assumes ok: "index_ok GB None s" and e: "e \<in> set (instances t s)"
  shows "map_of (tx_file_positions s) (fst e) \<noteq> None" "(fst e \<in> tx_base_game_uris s) = (fst e \<in> GB)"
proof -
  have "in_file (fst e) (instances t s) \<noteq> {}" using e by (auto simp: places_empty_iff)
  then have "positions_of t s (fst e) \<noteq> []" using positions_ok_absent [OF index_ok_one(2) [OF ok, of t], of "fst e"] by blast
  then show p: "map_of (tx_file_positions s) (fst e) \<noteq> None" 
    by (cases "map_of (tx_file_positions s) (fst e)") (auto simp: positions_of_def alist_get_def)
  show "(fst e \<in> tx_base_game_uris s) = (fst e \<in> GB)" using index_ok_one(5) [OF ok] p by (auto simp: base_ok_def)
qed

lemma remove_files_ok:
  assumes ok: "index_ok GB None s"
  shows "change_step GB s (remove_files uris s) \<and> content (remove_files uris s) = (\<lambda>t. filter_mset (\<lambda>e. fst e \<notin> uris) (content s t))"
proof (cases "uris = {}")
  case True
  then show ?thesis using ok by (simp add: remove_files_def change_step_refl)
next
  case False
  let ?stay = "filter (stays uris)" and ?B = "tx_base_game_uris s"
  obtain c sets kept ch where f: "fold (remove_files_type uris ?B) (tx_map s) (tx_name_counts s, tx_instance_sets s, [], []) = (c, sets, kept, ch)"
    using prod_cases4 by blast
  define kept1 where "kept1 = filter (\<lambda>(_, v). v \<noteq> []) kept"
  define sets1 where "sets1 = filter (\<lambda>(_, names :: name_set). names \<noteq> []) sets"
  define s0 where "s0 = s\<lparr>tx_derived := derived_remove_files (\<lambda>uri. uri \<in> uris) (tx_derived s)\<rparr>"
  define s1 where "s1 = s0\<lparr>tx_name_counts := c, tx_map := kept1, tx_instance_sets := sets1, tx_base_game_uris := ?B - uris\<rparr>"
  obtain FP sets2 where r: "fold reindex_type kept1 ([], sets1) = (FP, sets2)" by fastforce
  let ?s = "(toggles False ch s1)\<lparr>tx_file_positions := FP, tx_instance_sets := sets2\<rparr>"
  have run: "remove_files uris s = ?s"
    using False f r by (simp add: remove_files_def kept1_def [symmetric] sets1_def [symmetric] s1_def s0_def toggles_def [symmetric] toggles_tables)
  have keys: "distinct (map fst (tx_map s))" "distinct (map fst (tx_instance_sets s))"
    using index_ok_one(4) [OF ok] by (auto simp: keys_ok_def)
  have each: "\<forall>(t, es) \<in> set (tx_map s). instances t s = es \<and> tally GB (mset es) (alist_get [] (tx_instance_sets s) t) \<and>
      (\<forall>e \<in> set es. (fst e \<in> ?B) = (fst e \<in> GB))"
  proof (intro ballI, clarify)
    fix t es assume "(t, es) \<in> set (tx_map s)"
    then have es: "instances t s = es" using keys(1) by (simp add: instances_def alist_get_Some)
    have "tally GB (mset es) (names_of t s)" using index_ok_one(1) [OF ok, of t] by (simp add: es names_ok_tally)
    then show "instances t s = es \<and> tally GB (mset es) (alist_get [] (tx_instance_sets s) t) \<and> (\<forall>e \<in> set es. (fst e \<in> ?B) = (fst e \<in> GB))"
      using indexed_file(2) [OF ok, of _ t] es by (simp add: names_of_def)
  qed
  note b = remove_types_batch [OF keys index_ok_one(6) [OF ok] each f]
  have kept: "kept = map (\<lambda>(t, es). (t, ?stay es)) (tx_map s)" using b by simp
  have kept_keys: "distinct (map fst kept)" using keys(1) by (simp add: kept comp_def case_prod_beta)
  have inst1: "alist_get [] kept1 t = ?stay (instances t s)" for t
    unfolding kept1_def alist_get_filter [OF kept_keys] by (auto simp: kept instances_def alist_get_def map_keep split: option.split)
  have sets1: "alist_get [] sets1 t = alist_get [] sets t" for t
    unfolding sets1_def by (rule alist_get_filter) (use b in blast)
  have names: "tally GB (mset (alist_get [] kept1 t)) (alist_get [] sets1 t)" for t
  proof (cases "map_of (tx_map s) t")
    case None
    then have none: "t \<notin> fst ` set (tx_map s)" "instances t s = []"
      by (simp add: map_of_eq_None_iff, simp add: instances_def alist_get_None)
    have "names_of t s = []" using index_ok_one(1) [OF ok, of t] by (simp add: none names_ok_empty)
    moreover have "alist_get [] sets t = alist_get [] (tx_instance_sets s) t" using b none(1) by blast
    ultimately show ?thesis using index_ok_one(1) [OF ok, of t] by (simp add: inst1 none sets1 names_of_def names_ok_tally)
  next
    case (Some es)
    then have "(t, es) \<in> set (tx_map s)" by (rule map_of_SomeD)
    then have "tally GB (mset (?stay es)) (alist_get [] sets t)" using b by blast
    moreover have "instances t s = es" using Some by (simp add: instances_def alist_get_Some)
    ultimately show ?thesis unfolding inst1 sets1 by simp
  qed
  have keys1: "distinct (map fst kept1)" using kept_keys unfolding kept1_def by (rule distinct_map_filter)
  have skeys1: "distinct (map fst sets1)" unfolding sets1_def by (rule distinct_map_filter) (use b in blast)
  have in_kept: "alist_get [] kept1 t = es" if "(t, es) \<in> set kept1" for t es using that keys1 by (simp add: alist_get_Some)
  have "\<forall>(t, es) \<in> set kept1. tally GB (mset es) (alist_get [] sets1 t) \<and> positions_in [] t = (\<lambda>u. [])"
    using names in_kept by (auto simp: positions_in_def alist_get_Nil)
  note re = reindex_types [OF keys1 skeys1 _ this r]
  have "position_keys_ok []" by (simp add: position_keys_ok_def alist_get_Nil)
  note re = re [OF this]
  have inst: "instances t ?s = ?stay (instances t s)" for t
    using inst1 [of t] by (simp add: instances_def toggles_tables s1_def)
  have tables: "names_ok GB (instances t ?s) (names_of t ?s) \<and> positions_ok None (instances t ?s) (positions_of t ?s)" for t
  proof -
    have v: "names_of t ?s = alist_get [] sets2 t" "positions_of t ?s = positions_in FP t" by (simp_all add: names_of_def positions_of_def positions_in_def)
    show ?thesis
    proof (cases "t \<in> fst ` set kept1")
      case True
      then obtain es where es: "(t, es) \<in> set kept1" by auto
      then have "instances t ?s = es" using in_kept inst1 inst by simp
      then show ?thesis using re es unfolding v by (simp only: case_prod_beta) fastforce
    next
      case False
      then have none: "alist_get [] kept1 t = []" by (rule alist_get_absent)
      then have "alist_get [] sets1 t = []" using names [of t] by (simp add: tally_empty)
      moreover have "alist_get [] sets2 t = alist_get [] sets1 t \<and> positions_in FP t = positions_in [] t" using re False by blast
      moreover have "instances t ?s = []" using none inst1 inst by simp
      ultimately show ?thesis unfolding v by (simp add: positions_in_def alist_get_Nil)
    qed
  qed
  have "index_ok GB None ?s" unfolding index_ok_def
  proof (intro conjI)
    show "keys_ok ?s" using re keys1 by (simp add: keys_ok_def toggles_tables s1_def position_keys_ok_def)
    show "tables_ok GB None ?s" using tables by (simp add: tables_ok_def)
    have "(\<lambda>t. if t \<in> fst ` set (tx_map s) then ?stay (instances t s) else instances t s) = (\<lambda>t. ?stay (instances t s))"
      by (auto simp: instances_def alist_get_absent fun_eq_iff)
    then have "counted c (\<lambda>t. ?stay (instances t s))" using b by simp
    then show "counted (tx_name_counts ?s) (\<lambda>t. instances t ?s)" unfolding inst by (simp add: toggles_tables s1_def)
    show "base_ok GB ?s" unfolding base_ok_def
    proof (intro conjI ballI impI)
      show "tx_base_game_uris ?s \<subseteq> GB" using index_ok_one(5) [OF ok] by (auto simp: base_ok_def toggles_tables s1_def)
      fix u assume u: "u \<in> GB" "map_of (tx_file_positions ?s) u \<noteq> None"
      then have "\<not> (\<forall>(t, es) \<in> set kept1. u \<notin> fst ` set es)" using re by simp
      then obtain t es e where "(t, es) \<in> set kept1" "e \<in> set es" "fst e = u" by auto
      then have "e \<in> set (instances t s)" "u \<notin> uris" using in_kept inst1 [of t] by auto
      then show "u \<in> tx_base_game_uris ?s" using indexed_file(2) [OF ok, of e t] u(1) \<open>fst e = u\<close> by (simp add: toggles_tables s1_def)
    qed
  qed
  moreover have j: "same_journal (toggles False ch s0) ?s"
    using same_journal_pairs [of s0 s1 False ch] by (simp add: same_journal_def s1_def)
  have "journal_ok c0 m0 ?s" if "journal_ok c0 m0 s" for c0 m0
  proof (rule journal_ok_toggles [OF _ j])
    have inst0: "instances x s0 = instances x s" for x by (simp add: s0_def instances_def)
    then show "journal_ok c0 m0 s0" using that by (subst journal_ok_cong [OF inst0]) (simp_all add: s0_def)
    have ch: "set ch = {(t, n). \<exists>es. (t, es) \<in> set (tx_map s) \<and> n \<in> lname ` set es - lname ` set (?stay es)}" using b by simp
    have es: "instances t s = es" if "(t, es) \<in> set (tx_map s)" for t es
      using bspec [OF each that] by simp
    show "(x, n) \<in> set ch" if "has_name ?s x n \<noteq> has_name s0 x n" for x n
    proof -
      have n: "n \<in> lname ` set (instances x s) - lname ` set (?stay (instances x s))"
        using that unfolding has_name_def inst inst0 by auto
      then have "instances x s \<noteq> []" by auto
      then obtain es where "map_of (tx_map s) x = Some es" by (cases "map_of (tx_map s) x") (auto simp: instances_def alist_get_def)
      then have mem: "(x, es) \<in> set (tx_map s)" by (rule map_of_SomeD)
      show ?thesis unfolding ch using n es [OF mem] mem by (intro CollectI case_prodI exI [of _ es] conjI) simp_all
    qed
    show "has_name s0 x n = (\<not> False) \<and> to_ascii_lowercase n = n" if "(x, n) \<in> set ch" for x n
    proof -
      obtain es where mem: "(x, es) \<in> set (tx_map s)" and n: "n \<in> lname ` set es" using \<open>(x, n) \<in> set ch\<close> unfolding ch by auto
      then have "to_ascii_lowercase n = n" by (auto simp: lname_lower)
      then show ?thesis using es [OF mem] n unfolding has_name_def inst0 by simp
    qed
  qed
  ultimately have "change_step GB s ?s" using j toggles_frame [of False ch s0] by (simp add: change_step_def same_journal_def s0_def)
  moreover have "content ?s t = filter_mset (\<lambda>e. fst e \<notin> uris) (content s t)" for t
  proof -
    have "stays uris = (\<lambda>e. fst e \<notin> uris)" by auto
    then show ?thesis unfolding content_def inst by simp
  qed
  ultimately show ?thesis unfolding run by blast
qed

end
