(* ===== verification/Rule_Types.thy ===== *)
theory Rule_Types
  imports Complex_Main Path_Match Scope_Rules Type_Index
begin

text \<open>
  The rules of a game configuration, \<^verbatim>\<open>engine/crates/rules/src/rules_types.rs\<close>: the data of a
  rule set and the indexes \<^verbatim>\<open>reindex\<close> derives from it.  A bound of type \<^verbatim>\<open>f64\<close> is the rational
  it denotes.  A hash map is an association list and a hash set a set.  The cache of candidate
  indexes, keyed by the address of a rule body, is not part of the record: a lookup in it yields
  what \<open>RuleBodyCandidateIndex_from_rules\<close> builds from the same body (\<open>Rule_Matching\<close>).  Neither are the
  fields of a rule set that no modelled operation reads (scope inputs, folders, categories of
  modifiers, positions of definitions).
\<close>

section \<open>Rules\<close>

datatype marker = ColourField | IrCountryTag

datatype type_type =
    TypeSimple ustr
  | TypeComplex (tt_prefix: ustr) (tt_name: ustr) (tt_suffix: ustr)

datatype value_type =
    VT_Enum ustr
  | VT_Float rat rat
  | VT_Bool
  | VT_Int int int
  | VT_Percent
  | VT_Date
  | VT_DateTime
  | VT_Ck2Dna
  | VT_Ck2DnaProperty
  | VT_IrFamilyName
  | VT_StlNameFormat ustr
  | VT_MathExpr

datatype new_field =
    ValueField value_type
  | SpecificField ustr
  | ScalarField
  | TypeField type_type
  | ScopeField "ustr list"
  | LocalisationField bool bool
  | FilepathField "ustr option" "ustr option"
  | IconField ustr
  | AliasValueKeysField ustr
  | AliasField ustr
  | SingleAliasField ustr
  | VariableSetField ustr
  | VariableGetField ustr
  | VariableField bool bool rat rat
  | ValueScopeMarkerField bool rat rat
  | ValueScopeField bool rat rat
  | MarkerField marker
  | IgnoreMarkerField
  | IgnoreField new_field

datatype severity = Error | Warning | Information | Hint

datatype reference_detail = Outgoing ustr | Incoming ustr

text \<open>\<^verbatim>\<open>Options\<close>; its two scope options are the record \<open>rule_options\<close> of \<open>Scope_Rules\<close>.\<close>

record options = rule_options +
  opt_min :: int
  opt_max :: int
  opt_strict_min :: bool
  opt_leafvalue :: bool
  opt_description :: "ustr option"
  opt_severity :: "severity option"
  opt_required_scopes :: "ustr list"
  opt_comparison :: bool
  opt_reference_details :: "reference_detail option"
  opt_error_if_only_match :: "ustr option"
  opt_default_bool :: "bool option"

definition options_default :: options where
  "options_default = \<lparr>opt_push_scope = None, opt_replace_scopes = None, opt_min = 0, opt_max = 1000,
     opt_strict_min = True, opt_leafvalue = False, opt_description = None, opt_severity = None,
     opt_required_scopes = [], opt_comparison = False, opt_reference_details = None,
     opt_error_if_only_match = None, opt_default_bool = None\<rparr>"

datatype rule_type =
    NodeRule new_field "(rule_type \<times> options) list"
  | LeafRule new_field new_field
  | LeafValueRule new_field
  | ValueClauseRule "(rule_type \<times> options) list"
  | SubtypeRule ustr bool "(rule_type \<times> options) list"

type_synonym new_rule = "rule_type \<times> options"

fun sub_rules :: "rule_type \<Rightarrow> new_rule list" where
  "sub_rules (NodeRule _ rules) = rules"
| "sub_rules (ValueClauseRule rules) = rules"
| "sub_rules (SubtypeRule _ _ rules) = rules"
| "sub_rules _ = []"

lemma sub_rules_smaller [termination_simp]: "r \<in> set rules \<Longrightarrow> size (fst r) < Suc (size_list (size_prod size (\<lambda>_. 0)) rules)"
  by (induction rules) (auto simp: less_Suc_eq_le prod.size_gen split: prod.splits)

definition base_name :: "type_type \<Rightarrow> ustr" where
  "base_name t =
     (let name = (case t of TypeSimple n \<Rightarrow> n | TypeComplex _ n _ \<Rightarrow> n)
      in case split_once (asc CHR ''.'') name of Some (base, _) \<Rightarrow> base | None \<Rightarrow> name)"

section \<open>Types, enums and the rule set\<close>

datatype skip_root_key = SpecificKey ustr | AnyKey | MultipleKeys "ustr list" bool

record type_localisation =
  tl_name :: ustr
  tl_prefix :: ustr
  tl_suffix :: ustr
  tl_required :: bool
  tl_optional :: bool
  tl_explicit_field :: "ustr option"
  tl_replace_scopes :: "replace_scopes option"
  tl_primary :: bool

definition is_required_name_derived :: "type_localisation \<Rightarrow> bool" where
  "is_required_name_derived l \<longleftrightarrow> tl_required l \<and> \<not> tl_optional l \<and> tl_explicit_field l = None"

definition required_explicit_field :: "type_localisation \<Rightarrow> ustr option" where
  "required_explicit_field l =
     (if \<not> tl_required l \<or> tl_optional l then None else tl_explicit_field l)"

definition derived_key :: "type_localisation \<Rightarrow> ustr \<Rightarrow> ustr" where
  "derived_key l name = tl_prefix l @ name @ tl_suffix l"

record type_modifier =
  tm_prefix :: ustr
  tm_suffix :: ustr
  tm_is_template :: bool
  tm_category :: ustr
  tm_documentation :: "ustr option"
  tm_explicit :: bool

record subtype_definition =
  st_name :: ustr
  st_display_name :: "ustr option"
  st_abbreviation :: "ustr option"
  st_rules :: "new_rule list"
  st_type_key_field :: "ustr option"
  st_starts_with :: "ustr option"
  st_push_scope :: "ustr option"
  st_localisation :: "type_localisation list"
  st_only_if_not :: "ustr list"
  st_modifiers :: "type_modifier list"
  st_type_key_filter :: "ustr list"

record type_definition =
  td_name :: ustr
  td_name_field :: "ustr option"
  td_path_options :: path_options
  td_subtypes :: "subtype_definition list"
  td_type_key_filter :: "(ustr list \<times> bool) option"
  td_skip_root_key :: "skip_root_key list"
  td_starts_with :: "ustr option"
  td_type_per_file :: bool
  td_key_prefix :: "ustr option"
  td_warning_only :: bool
  td_unique :: bool
  td_should_be_referenced :: bool
  td_localisation :: "type_localisation list"
  td_graph_related_types :: "ustr list"
  td_modifiers :: "type_modifier list"

record enum_definition =
  en_key :: ustr
  en_description :: ustr
  en_values :: "ustr list"

datatype name_tree_entry =
    NameLeaf ustr bool
  | NameNode ustr "name_tree_entry list option"    \<comment> \<open>\<open>None\<close> is \<^verbatim>\<open>ComplexEnumNameTree::Empty\<close>\<close>
  | BareName

record complex_enum_def =
  ce_name :: ustr
  ce_description :: ustr
  ce_path_options :: path_options
  ce_name_tree :: "name_tree_entry list option"
  ce_start_from_root :: bool

datatype root_rule = AliasRule ustr new_rule | SingleAliasRule ustr new_rule | TypeRule ustr new_rule

datatype pattern_kind = PatternType | PatternEnum | PatternValue

record parsed_alias_pattern =
  pa_alias_idx :: nat
  pa_prefix :: ustr
  pa_suffix :: ustr
  pa_kind :: pattern_kind
  pa_placeholder_name :: ustr

record alias_pattern_buckets =
  pb_unprefixed :: "nat list"
  pb_by_first_byte :: "(nat \<times> nat list) list"

record alias_category_index =
  ac_plain_alias_indices :: "nat list"
  ac_parsed_patterns :: "parsed_alias_pattern list"
  ac_scope_field_idx :: "nat option"
  ac_pattern_buckets :: alias_pattern_buckets

record type_reference_rule =
  tr_ref_type :: ustr
  tr_root_type :: "ustr option"

datatype key_group = KeyGroup (kg_key: ustr) (kg_leaf_rule_indices: "nat list")
  (kg_node_rule_indices: "nat list") (kg_node_rule_groups: "key_group list list")

record rule_set =
  rl_types :: "type_definition list"
  rl_aliases :: "(ustr \<times> new_rule) list"
  rl_single_aliases :: "(ustr \<times> new_rule) list"
  rl_enums :: "enum_definition list"
  rl_complex_enums :: "complex_enum_def list"
  rl_root_rules :: "root_rule list"
  rl_values :: "(ustr \<times> ustr list) list"
  rl_modifiers :: "(ustr \<times> ustr) list"
  rl_scope_links :: "ustr set"
  rl_link_inputs :: "link_input list"
  rl_localisation_commands :: "ustr list"
  rl_alias_exact :: "(ustr \<times> (ustr \<times> nat list) list) list"
  rl_alias_categories :: "(ustr \<times> alias_category_index) list"
  rl_type_by_name :: "(ustr \<times> nat) list"
  rl_enum_by_name :: "(ustr \<times> nat) list"
  rl_type_rules_idx :: "(ustr \<times> nat) list"
  rl_root_type_rules_idx :: "(ustr \<times> nat list) list"
  rl_type_reference_rules :: "(ustr \<times> type_reference_rule list) list"
  rl_value_set_effects :: "(ustr \<times> ustr) list"
  rl_value_set_effect_fields :: "(ustr \<times> (ustr \<times> ustr) list) list"
  rl_enum_values_lower :: "ustr set list"
  rl_enum_has_at :: "bool list"
  rl_value_sets :: "(ustr \<times> ustr set) list"
  rl_builtin_variable_bases :: "ustr set"
  rl_pretriggers :: "(ustr \<times> ustr set) list"
  rl_subtype_rule_key_groups :: "key_group list list list"
  rl_supplies_scripted_effect_params :: bool

definition RuleSet_new :: rule_set where
  "RuleSet_new = \<lparr>rl_types = [], rl_aliases = [], rl_single_aliases = [], rl_enums = [], rl_complex_enums = [],
     rl_root_rules = [], rl_values = [], rl_modifiers = [], rl_scope_links = {}, rl_link_inputs = [], rl_localisation_commands = [],
     rl_alias_exact = [], rl_alias_categories = [], rl_type_by_name = [], rl_enum_by_name = [],
     rl_type_rules_idx = [], rl_root_type_rules_idx = [], rl_type_reference_rules = [],
     rl_value_set_effects = [], rl_value_set_effect_fields = [], rl_enum_values_lower = [],
     rl_enum_has_at = [], rl_value_sets = [], rl_builtin_variable_bases = {}, rl_pretriggers = [],
     rl_subtype_rule_key_groups = [], rl_supplies_scripted_effect_params = False\<rparr>"

section \<open>Alias patterns\<close>

text \<open>\<^verbatim>\<open>rest[i..].find(c)\<close>, as a position of the whole text.\<close>

definition find_char_from :: "nat \<Rightarrow> uchar \<Rightarrow> ustr \<Rightarrow> nat option" where
  "find_char_from i c s = map_option ((+) i) (find_str [c] (drop i s))"

definition span_of :: "nat \<Rightarrow> nat \<Rightarrow> ustr \<Rightarrow> ustr" where
  "span_of a b s = take (b - a) (drop a s)"

definition alias_markers :: "(ustr \<times> pattern_kind) list" where
  "alias_markers = [(str ''value_set['', PatternValue), (str ''complex_enum['', PatternEnum),
     (str ''value['', PatternValue), (str ''enum['', PatternEnum)]"

text \<open>
  The loop over the markers: \<open>None\<close> where the \<^verbatim>\<open>?\<close> on a missing bracket leaves the function.  A
  marker found is its place, the start of its name, the place of the bracket, and its kind.
\<close>

fun find_marker :: "ustr \<Rightarrow> (ustr \<times> pattern_kind) list \<Rightarrow> (nat \<times> nat \<times> nat \<times> pattern_kind) option
    \<Rightarrow> (nat \<times> nat \<times> nat \<times> pattern_kind) option option" where
  "find_marker rest [] found = Some found"
| "find_marker rest ((marker, kind) # ms) found =
     (case find_str marker rest of
        None \<Rightarrow> find_marker rest ms found
      | Some opening \<Rightarrow>
          (let inner = opening + length marker
           in case find_char_from inner (asc CHR '']'') rest of
                None \<Rightarrow> None
              | Some close \<Rightarrow>
                  (let earlier = (case found of None \<Rightarrow> True | Some (o', _) \<Rightarrow> opening < o')
                   in find_marker rest ms (if earlier then Some (opening, inner, close, kind) else found))))"

definition parse_alias_pattern :: "ustr \<Rightarrow> nat \<Rightarrow> parsed_alias_pattern option" where
  "parse_alias_pattern rest alias_idx =
     (let pattern = (\<lambda>opening inner close kind. \<lparr>pa_alias_idx = alias_idx, pa_prefix = take opening rest,
            pa_suffix = drop (close + 1) rest, pa_kind = kind, pa_placeholder_name = span_of inner close rest\<rparr>)
      in case find_str (str ''<'') rest of
           Some opening \<Rightarrow>
             (case find_char_from opening (asc CHR ''>'') rest of
                None \<Rightarrow> None
              | Some close \<Rightarrow> Some (pattern opening (opening + 1) close PatternType))
         | None \<Rightarrow>
             (case find_marker rest alias_markers None of
                Some (Some (opening, inner, close, kind)) \<Rightarrow> Some (pattern opening inner close kind)
              | _ \<Rightarrow> None))"

text \<open>The first byte of a text.\<close>

definition first_byte :: "ustr \<Rightarrow> nat option" where
  "first_byte s = (case s of [] \<Rightarrow> None | c # _ \<Rightarrow> Some (hd (utf8_char c)))"

definition push_at :: "'k \<Rightarrow> 'v \<Rightarrow> ('k \<times> 'v list) list \<Rightarrow> ('k \<times> 'v list) list" where
  "push_at k v m = AList.update k (alist_get [] m k @ [v]) m"

definition add_pattern_bucket :: "nat \<times> parsed_alias_pattern \<Rightarrow> alias_pattern_buckets \<Rightarrow> alias_pattern_buckets" where
  "add_pattern_bucket = (\<lambda>(idx, pattern) b.
     case first_byte (pa_prefix pattern) of
       Some first \<Rightarrow> b\<lparr>pb_by_first_byte := push_at first idx (pb_by_first_byte b)\<rparr>
     | None \<Rightarrow> b\<lparr>pb_unprefixed := pb_unprefixed b @ [idx]\<rparr>)"

definition empty_buckets :: alias_pattern_buckets where
  "empty_buckets = \<lparr>pb_unprefixed = [], pb_by_first_byte = []\<rparr>"

definition buckets_for_patterns :: "parsed_alias_pattern list \<Rightarrow> alias_pattern_buckets" where
  "buckets_for_patterns patterns = fold add_pattern_bucket (List.enumerate 0 patterns) empty_buckets"

text \<open>
  \<^verbatim>\<open>AliasPatternCandidates::next\<close>, run to its end: the merge of two index lists.  An index out of
  range ends the iteration, as \<^verbatim>\<open>get(idx)\<close> then yields nothing.
\<close>

fun merge_candidates :: "parsed_alias_pattern list \<Rightarrow> nat list \<Rightarrow> nat list \<Rightarrow> parsed_alias_pattern list" where
  "merge_candidates ps (a # as) (b # bs) =
     (if a < b then (if a < length ps then ps ! a # merge_candidates ps as (b # bs) else [])
      else (if b < length ps then ps ! b # merge_candidates ps (a # as) bs else []))"
| "merge_candidates ps (a # as) [] = (if a < length ps then ps ! a # merge_candidates ps as [] else [])"
| "merge_candidates ps [] (b # bs) = (if b < length ps then ps ! b # merge_candidates ps [] bs else [])"
| "merge_candidates ps [] [] = []"

definition buckets_patterns_for_key :: "alias_pattern_buckets \<Rightarrow> parsed_alias_pattern list \<Rightarrow> ustr \<Rightarrow> parsed_alias_pattern list" where
  "buckets_patterns_for_key b patterns key =
     merge_candidates patterns (pb_unprefixed b)
       (case first_byte key of None \<Rightarrow> [] | Some first \<Rightarrow> alist_get [] (pb_by_first_byte b) first)"

definition patterns_for_key :: "alias_category_index \<Rightarrow> ustr \<Rightarrow> parsed_alias_pattern list" where
  "patterns_for_key cat key = buckets_patterns_for_key (ac_pattern_buckets cat) (ac_parsed_patterns cat) key"

definition empty_category :: alias_category_index where
  "empty_category = \<lparr>ac_plain_alias_indices = [], ac_parsed_patterns = [], ac_scope_field_idx = None,
     ac_pattern_buckets = empty_buckets\<rparr>"

section \<open>Reindexing\<close>

subsection \<open>Enums\<close>

type_synonym enum_state = "enum_definition list \<times> (ustr \<times> nat) list \<times> ustr set list"

text \<open>One value of the enum at \<^verbatim>\<open>idx\<close>: kept unless it spells a value already there.\<close>

definition add_enum_value :: "nat \<Rightarrow> ustr \<Rightarrow> enum_state \<Rightarrow> enum_state" where
  "add_enum_value idx v = (\<lambda>(enums, by_name, lowers).
     if to_ascii_lowercase v \<in> lowers ! idx then (enums, by_name, lowers)
     else (enums[idx := (enums ! idx)\<lparr>en_values := en_values (enums ! idx) @ [v]\<rparr>], by_name,
           lowers[idx := insert (to_ascii_lowercase v) (lowers ! idx)]))"

definition open_enum :: "enum_definition \<Rightarrow> enum_state \<Rightarrow> nat \<times> enum_state" where
  "open_enum e = (\<lambda>(enums, by_name, lowers).
     case map_of by_name (en_key e) of
       Some idx \<Rightarrow> (idx, enums, by_name, lowers)
     | None \<Rightarrow> (length enums, enums @ [e\<lparr>en_values := []\<rparr>], AList.update (en_key e) (length enums) by_name, lowers @ [{}]))"

definition add_enum :: "enum_definition \<Rightarrow> enum_state \<Rightarrow> enum_state" where
  "add_enum e st = (let (idx, st) = open_enum e st in fold (add_enum_value idx) (en_values e) st)"

definition merge_enums :: "enum_definition list \<Rightarrow> enum_state" where
  "merge_enums es = fold add_enum es ([], [], [])"

definition reindex_enums :: "rule_set \<Rightarrow> rule_set" where
  "reindex_enums rl =
     (let (enums, by_name, lowers) = merge_enums (rl_enums rl)
      in rl\<lparr>rl_enums := enums, rl_enum_by_name := by_name, rl_enum_values_lower := lowers\<rparr>)"

subsection \<open>Aliases\<close>

definition value_set_ns :: "new_field \<Rightarrow> ustr option" where
  "value_set_ns f = (case f of VariableSetField ns \<Rightarrow> Some ns | _ \<Rightarrow> None)"

definition or_else :: "'a option \<Rightarrow> 'a option \<Rightarrow> 'a option" where
  "or_else a b = (case a of Some x \<Rightarrow> Some x | None \<Rightarrow> b)"

text \<open>\<^verbatim>\<open>find_map\<close>.\<close>

fun find_map :: "('a \<Rightarrow> 'b option) \<Rightarrow> 'a list \<Rightarrow> 'b option" where
  "find_map f [] = None"
| "find_map f (x # xs) = (case f x of Some y \<Rightarrow> Some y | None \<Rightarrow> find_map f xs)"

lemma find_map_cong [fundef_cong]: "xs = ys \<Longrightarrow> (\<And>x. x \<in> set ys \<Longrightarrow> f x = g x) \<Longrightarrow> find_map f xs = find_map g ys"
  by (induction ys arbitrary: xs) (auto split: option.split)

fun first_value_set_ns :: "rule_type \<Rightarrow> ustr option" where
  "first_value_set_ns (LeafRule left right) = or_else (value_set_ns left) (value_set_ns right)"
| "first_value_set_ns (LeafValueRule right) = value_set_ns right"
| "first_value_set_ns (NodeRule left rules) =
     or_else (value_set_ns left) (find_map (\<lambda>r. first_value_set_ns (fst r)) rules)"
| "first_value_set_ns (ValueClauseRule rules) = find_map (\<lambda>r. first_value_set_ns (fst r)) rules"
| "first_value_set_ns (SubtypeRule _ _ rules) = find_map (\<lambda>r. first_value_set_ns (fst r)) rules"

definition own_binding_fields :: "new_field \<Rightarrow> new_rule list \<Rightarrow> (ustr \<times> ustr) list" where
  "own_binding_fields left rules =
     (case left of
        SpecificField key \<Rightarrow>
          List.map_filter (\<lambda>(rt, _). case rt of LeafValueRule (VariableSetField ns) \<Rightarrow> Some (to_ascii_lowercase key, ns) | _ \<Rightarrow> None) rules
      | _ \<Rightarrow> [])"

fun collect_binding_fields :: "rule_type \<Rightarrow> (ustr \<times> ustr) list" where
  "collect_binding_fields (LeafRule left right) =
     (case (left, right) of (SpecificField key, VariableSetField ns) \<Rightarrow> [(to_ascii_lowercase key, ns)] | _ \<Rightarrow> [])"
| "collect_binding_fields (NodeRule left rules) =
     own_binding_fields left rules @ concat (map (\<lambda>r. collect_binding_fields (fst r)) rules)"
| "collect_binding_fields (ValueClauseRule rules) = concat (map (\<lambda>r. collect_binding_fields (fst r)) rules)"
| "collect_binding_fields (SubtypeRule _ _ rules) = concat (map (\<lambda>r. collect_binding_fields (fst r)) rules)"
| "collect_binding_fields (LeafValueRule _) = []"

definition add_to_set_at :: "'k \<Rightarrow> 'v \<Rightarrow> ('k \<times> 'v set) list \<Rightarrow> ('k \<times> 'v set) list" where
  "add_to_set_at k v m = AList.update k (insert v (alist_get {} m k)) m"

text \<open>The part of the turn for the alias \<^verbatim>\<open>name\<close> that fills the tables of triggers and bindings.\<close>

definition index_pretrigger :: "ustr \<Rightarrow> ustr \<Rightarrow> rule_set \<Rightarrow> rule_set" where
  "index_pretrigger cat key rl =
     (case strip_suffix (str ''_pre_trigger'') cat of
        Some scope \<Rightarrow> rl\<lparr>rl_pretriggers := add_to_set_at (to_ascii_lowercase scope) (to_ascii_lowercase key) (rl_pretriggers rl)\<rparr>
      | None \<Rightarrow> rl)"

definition index_bindings :: "ustr \<Rightarrow> ustr \<Rightarrow> rule_type \<Rightarrow> rule_set \<Rightarrow> rule_set" where
  "index_bindings cat key rule rl =
     (if cat = str ''effect'' \<or> cat = str ''trigger'' then
        (let lower = to_ascii_lowercase key;
             rl = (case first_value_set_ns rule of
                     Some ns \<Rightarrow> rl\<lparr>rl_value_set_effects := or_insert lower ns (rl_value_set_effects rl)\<rparr>
                   | None \<Rightarrow> rl);
             fields = collect_binding_fields rule
         in if fields = [] then rl
            else rl\<lparr>rl_value_set_effect_fields :=
                   AList.update lower (alist_get [] (rl_value_set_effect_fields rl) lower @ fields) (rl_value_set_effect_fields rl)\<rparr>)
      else rl)"

definition push_exact :: "ustr \<Rightarrow> ustr \<Rightarrow> nat \<Rightarrow> (ustr \<times> (ustr \<times> nat list) list) list \<Rightarrow> (ustr \<times> (ustr \<times> nat list) list) list" where
  "push_exact cat key i m = AList.update cat (push_at key i (alist_get [] m cat)) m"

definition index_exact :: "ustr \<Rightarrow> ustr \<Rightarrow> nat \<Rightarrow> (ustr \<times> (ustr \<times> nat list) list) list \<Rightarrow> (ustr \<times> (ustr \<times> nat list) list) list" where
  "index_exact cat key i m =
     (let m = push_exact cat key i m; lower_cat = to_ascii_lowercase cat; lower_key = to_ascii_lowercase key
      in if lower_cat \<noteq> cat \<or> lower_key \<noteq> key then push_exact lower_cat lower_key i m else m)"

definition index_category :: "ustr \<Rightarrow> nat \<Rightarrow> alias_category_index \<Rightarrow> alias_category_index" where
  "index_category rest i entry =
     (if rest = str ''scope_field'' then entry\<lparr>ac_scope_field_idx := Some i\<rparr>
      else case parse_alias_pattern rest i of
             Some parsed \<Rightarrow> entry\<lparr>ac_parsed_patterns := ac_parsed_patterns entry @ [parsed]\<rparr>
           | None \<Rightarrow> entry\<lparr>ac_plain_alias_indices := ac_plain_alias_indices entry @ [i]\<rparr>)"

definition index_alias :: "nat \<times> ustr \<times> new_rule \<Rightarrow> rule_set \<Rightarrow> rule_set" where
  "index_alias = (\<lambda>(i, name, rule, _) rl.
     case split_once (asc CHR '':'') name of
       None \<Rightarrow> rl
     | Some (cat, key) \<Rightarrow>
         (let rl = index_bindings cat key rule (index_pretrigger cat key rl);
              rl = rl\<lparr>rl_alias_exact := index_exact cat key i (rl_alias_exact rl)\<rparr>
          in rl\<lparr>rl_alias_categories :=
                 AList.update cat (index_category key i (alist_get empty_category (rl_alias_categories rl) cat)) (rl_alias_categories rl)\<rparr>))"

definition fill_buckets :: "alias_category_index \<Rightarrow> alias_category_index" where
  "fill_buckets c = c\<lparr>ac_pattern_buckets := buckets_for_patterns (ac_parsed_patterns c)\<rparr>"

definition reindex_aliases :: "rule_set \<Rightarrow> rule_set" where
  "reindex_aliases rl =
     (let rl = rl\<lparr>rl_alias_exact := [], rl_alias_categories := [], rl_pretriggers := [],
                 rl_value_set_effects := [], rl_value_set_effect_fields := []\<rparr>;
          rl = fold index_alias (List.enumerate 0 (rl_aliases rl)) rl
      in rl\<lparr>rl_alias_categories := map (\<lambda>(c, entry). (c, fill_buckets entry)) (rl_alias_categories rl)\<rparr>)"

subsection \<open>Types, values and references\<close>

definition first_index_by :: "('a \<Rightarrow> 'k option) \<Rightarrow> 'a list \<Rightarrow> ('k \<times> nat) list" where
  "first_index_by key xs =
     fold (\<lambda>(i, x) m. case key x of Some k \<Rightarrow> or_insert k i m | None \<Rightarrow> m) (List.enumerate 0 xs) []"

definition indices_by :: "('a \<Rightarrow> 'k option) \<Rightarrow> 'a list \<Rightarrow> ('k \<times> nat list) list" where
  "indices_by key xs =
     fold (\<lambda>(i, x) m. case key x of Some k \<Rightarrow> push_at k i m | None \<Rightarrow> m) (List.enumerate 0 xs) []"

definition has_at :: "enum_definition \<Rightarrow> bool" where
  "has_at e = list_ex (\<lambda>v. starts_with v (str ''@'')) (en_values e)"

text \<open>\<^verbatim>\<open>m.split('@').next()\<close>.\<close>

definition variable_base :: "ustr \<Rightarrow> ustr" where
  "variable_base m = (case split_char (asc CHR ''@'') m of base # _ \<Rightarrow> base | [] \<Rightarrow> m)"

definition type_rule_name :: "root_rule \<Rightarrow> ustr option" where
  "type_rule_name r = (case r of TypeRule name _ \<Rightarrow> Some name | _ \<Rightarrow> None)"

definition root_rule_body :: "root_rule \<Rightarrow> new_rule" where
  "root_rule_body r = (case r of AliasRule _ rule \<Rightarrow> rule | SingleAliasRule _ rule \<Rightarrow> rule | TypeRule _ rule \<Rightarrow> rule)"

definition reference_roots :: "rule_set \<Rightarrow> (ustr option \<times> new_rule) list" where
  "reference_roots rl =
     map (\<lambda>r. (type_rule_name r, root_rule_body r)) (rl_root_rules rl)
     @ map (\<lambda>(_, rule). (None, rule)) (rl_aliases rl @ rl_single_aliases rl)"

definition references_of :: "ustr option \<times> new_rule \<Rightarrow> (ustr \<times> type_reference_rule) list" where
  "references_of = (\<lambda>(root_type, rule_type, _).
     case rule_type of
       NodeRule _ rules \<Rightarrow>
         List.map_filter (\<lambda>(inner, _). case inner of
           LeafRule (SpecificField key) (TypeField (TypeSimple ref_type)) \<Rightarrow>
             Some (to_ascii_lowercase key, \<lparr>tr_ref_type = ref_type, tr_root_type = root_type\<rparr>)
         | _ \<Rightarrow> None) rules
     | _ \<Rightarrow> [])"

definition collect_references :: "rule_set \<Rightarrow> (ustr \<times> type_reference_rule list) list" where
  "collect_references rl =
     fold (\<lambda>(key, r). push_at key r) (concat (map references_of (reference_roots rl))) []"

subsection \<open>Key groups of subtypes\<close>

definition specific_key :: "rule_type \<Rightarrow> (ustr \<times> bool) option" where
  "specific_key rule =
     (case rule of
        LeafRule (SpecificField key) _ \<Rightarrow> Some (key, True)
      | NodeRule (SpecificField key) _ \<Rightarrow> Some (key, False)
      | _ \<Rightarrow> None)"

definition add_index :: "bool \<Rightarrow> nat \<Rightarrow> key_group \<Rightarrow> key_group" where
  "add_index is_leaf i g =
     (case g of KeyGroup key ls ns gs \<Rightarrow> if is_leaf then KeyGroup key (ls @ [i]) ns gs else KeyGroup key ls (ns @ [i]) gs)"

definition add_to_group :: "nat \<times> new_rule \<Rightarrow> key_group list \<times> (ustr \<times> nat) list \<Rightarrow> key_group list \<times> (ustr \<times> nat) list" where
  "add_to_group = (\<lambda>(rule_index, rule, _) (groups, group_by_key).
     case specific_key rule of
       None \<Rightarrow> (groups, group_by_key)
     | Some (key, is_leaf) \<Rightarrow>
         (let (group_index, groups, group_by_key) =
                (case map_of group_by_key key of
                   Some gi \<Rightarrow> (gi, groups, group_by_key)
                 | None \<Rightarrow> (length groups, groups @ [KeyGroup key [] [] []], AList.update key (length groups) group_by_key))
          in (groups[group_index := add_index is_leaf rule_index (groups ! group_index)], group_by_key)))"

text \<open>The recursion is on the nested bodies; an index of the second loop is in range.\<close>

function build_subtype_rule_key_groups :: "new_rule list \<Rightarrow> key_group list" where
  "build_subtype_rule_key_groups rules =
     map (\<lambda>g. case g of KeyGroup key ls ns _ \<Rightarrow>
            KeyGroup key ls ns
              (map (\<lambda>i. if i < length rules
                        then (case fst (rules ! i) of NodeRule _ inner \<Rightarrow> build_subtype_rule_key_groups inner | _ \<Rightarrow> [])
                        else []) ns))
       (fst (fold add_to_group (List.enumerate 0 rules) ([], [])))"
  by pat_completeness auto
termination
proof (relation "measure (size_list (size_prod size (\<lambda>_. 0)))", goal_cases)
  case (2 rules g key ls ns gs i left inner)
  have "rules ! i \<in> set rules" using 2(4) by simp
  from sub_rules_smaller [OF this] 2(5) show ?case by simp
qed simp

declare build_subtype_rule_key_groups.simps [simp del]

definition subtype_groups :: "type_definition \<Rightarrow> key_group list list" where
  "subtype_groups td =
     map (\<lambda>st. if st_type_key_filter st = [] \<and> st_type_key_field st = None
               then build_subtype_rule_key_groups (st_rules st) else []) (td_subtypes td)"

subsection \<open>The engine's own enum\<close>

definition SCRIPTED_EFFECT_PARAMS :: ustr where
  "SCRIPTED_EFFECT_PARAMS = str ''scripted_effect_params''"

definition is_enum_field :: "ustr \<Rightarrow> new_field \<Rightarrow> bool" where
  "is_enum_field name f = (case f of ValueField (VT_Enum used) \<Rightarrow> used = name | _ \<Rightarrow> False)"

fun rule_uses_enum :: "rule_type \<Rightarrow> ustr \<Rightarrow> bool" where
  "rule_uses_enum (LeafRule left right) name \<longleftrightarrow> is_enum_field name left \<or> is_enum_field name right"
| "rule_uses_enum (LeafValueRule right) name \<longleftrightarrow> is_enum_field name right"
| "rule_uses_enum (NodeRule left rules) name \<longleftrightarrow>
     is_enum_field name left \<or> list_ex (\<lambda>r. rule_uses_enum (fst r) name) rules"
| "rule_uses_enum (ValueClauseRule rules) name \<longleftrightarrow> list_ex (\<lambda>r. rule_uses_enum (fst r) name) rules"
| "rule_uses_enum (SubtypeRule _ _ rules) name \<longleftrightarrow> list_ex (\<lambda>r. rule_uses_enum (fst r) name) rules"

definition uses_undefined_enum :: "ustr \<Rightarrow> rule_set \<Rightarrow> bool" where
  "uses_undefined_enum name rl \<longleftrightarrow>
     map_of (rl_enum_by_name rl) name = None
     \<and> \<not> list_ex (\<lambda>d. ce_name d = name) (rl_complex_enums rl)
     \<and> list_ex (\<lambda>r. rule_uses_enum (fst r) name)
         (map snd (rl_aliases rl @ rl_single_aliases rl) @ map root_rule_body (rl_root_rules rl))"

subsection \<open>All of it\<close>

definition reindex_rest :: "rule_set \<Rightarrow> rule_set" where
  "reindex_rest rl =
     (let rl = rl\<lparr>rl_types := map (\<lambda>td. td\<lparr>td_path_options := normalize_path_options (td_path_options td)\<rparr>) (rl_types rl),
                 rl_complex_enums := map (\<lambda>ce. ce\<lparr>ce_path_options := normalize_path_options (ce_path_options ce)\<rparr>) (rl_complex_enums rl)\<rparr>;
          rl = rl\<lparr>rl_type_by_name := first_index_by (\<lambda>td. Some (td_name td)) (rl_types rl),
                 rl_enum_has_at := map has_at (rl_enums rl),
                 rl_value_sets := map (\<lambda>(k, vs). (k, set (map to_ascii_lowercase vs))) (rl_values rl),
                 rl_builtin_variable_bases :=
                   (case map_of (rl_values rl) (str ''variable'') of
                      Some members \<Rightarrow> set (map (\<lambda>m. to_ascii_lowercase (variable_base m)) members)
                    | None \<Rightarrow> {}),
                 rl_type_rules_idx := first_index_by type_rule_name (rl_root_rules rl),
                 rl_root_type_rules_idx := indices_by type_rule_name (rl_root_rules rl),
                 rl_type_reference_rules := collect_references rl,
                 rl_subtype_rule_key_groups := map subtype_groups (rl_types rl)\<rparr>
      in rl\<lparr>rl_supplies_scripted_effect_params := uses_undefined_enum SCRIPTED_EFFECT_PARAMS rl\<rparr>)"

definition reindex :: "rule_set \<Rightarrow> rule_set" where
  "reindex rl = reindex_rest (reindex_aliases (reindex_enums rl))"

section \<open>Lookups\<close>

text \<open>\<^verbatim>\<open>type_reference_rules_for_key\<close>.\<close>

definition type_reference_rules_for_key :: "rule_set \<Rightarrow> ustr \<Rightarrow> type_reference_rule list option" where
  "type_reference_rules_for_key rl key = map_of (rl_type_reference_rules rl) (ascii_lowercase_if_needed key)"

text \<open>
  The indexes come from \<open>rl_enum_by_name\<close> and are in range (\<open>enum_index_in_range\<close> in
  \<open>Rule_Index\<close>); elsewhere the source would panic.
\<close>

definition enum_values_contains_ci :: "rule_set \<Rightarrow> nat \<Rightarrow> ustr \<Rightarrow> bool" where
  "enum_values_contains_ci rl idx v \<longleftrightarrow>
     (if idx < length (rl_enum_values_lower rl) then ascii_lowercase_if_needed v \<in> rl_enum_values_lower rl ! idx
      else list_ex (\<lambda>e. eq_ignore_ascii_case e v) (en_values (rl_enums rl ! idx)))"

definition enum_has_at_constant :: "rule_set \<Rightarrow> nat \<Rightarrow> bool" where
  "enum_has_at_constant rl idx \<longleftrightarrow>
     (if idx < length (rl_enum_has_at rl) then rl_enum_has_at rl ! idx else has_at (rl_enums rl ! idx))"

definition value_set_lookup :: "rule_set \<Rightarrow> ustr \<Rightarrow> ustr \<Rightarrow> bool option" where
  "value_set_lookup rl name v =
     (let fallback = (case map_of (rl_values rl) name of
            Some vs \<Rightarrow> if vs = [] then None else Some (list_ex (\<lambda>m. eq_ignore_ascii_case m v) vs)
          | None \<Rightarrow> None)
      in case map_of (rl_value_sets rl) name of
           Some s \<Rightarrow> if s \<noteq> {} then Some (ascii_lowercase_if_needed v \<in> s) else fallback
         | None \<Rightarrow> fallback)"

definition is_builtin_variable_base :: "rule_set \<Rightarrow> ustr \<Rightarrow> bool" where
  "is_builtin_variable_base rl base =
     (if rl_builtin_variable_bases rl = {} then
        (case map_of (rl_values rl) (str ''variable'') of
           Some members \<Rightarrow> list_ex (\<lambda>m. eq_ignore_ascii_case (variable_base m) base) members
         | None \<Rightarrow> False)
      else if \<not> list_ex is_ascii_uppercase base then base \<in> rl_builtin_variable_bases rl
      else to_ascii_lowercase base \<in> rl_builtin_variable_bases rl)"

end
