(* ===== verification/Rule_Index.thy ===== *)
theory Rule_Index
  imports Rule_Types
begin

text \<open>
  What the indexes of a rule set hold after \<^verbatim>\<open>reindex\<close>
  (\<^verbatim>\<open>engine/crates/rules/src/rules_types.rs\<close>): each table is described by the declarations it
  was built from, and reindexing twice is reindexing once.
\<close>

section \<open>Tables of lists\<close>

lemma alist_get_empty [simp]: "alist_get d [] k = d"
  by (simp add: alist_get_def)

lemma alist_get_put [simp]: "alist_get d (AList.update k v m) x = (if x = k then v else alist_get d m x)"
  by (simp add: alist_get_def update_conv')

lemma alist_get_push_at [simp]: "alist_get [] (push_at k v m) x = alist_get [] m x @ (if x = k then [v] else [])"
  by (simp add: push_at_def)

lemma map_of_push_at: "map_of (push_at k v m) x = (if x = k then Some (alist_get [] m k @ [v]) else map_of m x)"
  by (simp add: push_at_def update_conv')

lemma update_new: "k \<notin> fst ` set m \<Longrightarrow> AList.update k v m = m @ [(k, v)]"
  by (induction m) auto

lemma enumerate_snoc: "List.enumerate n (xs @ [x]) = List.enumerate n xs @ [(n + length xs, x)]"
  by (simp add: enumerate_append_eq)

lemma fold_enumerate_snoc: "fold f (List.enumerate 0 (xs @ [x])) s = f (length xs, x) (fold f (List.enumerate 0 xs) s)"
  by (simp add: enumerate_snoc)

definition where_index :: "('a \<Rightarrow> bool) \<Rightarrow> 'a list \<Rightarrow> nat list" where
  "where_index P xs = filter (\<lambda>i. P (xs ! i)) [0..<length xs]"

lemma where_index_Nil [simp]: "where_index P [] = []"
  by (simp add: where_index_def)

lemma where_index_snoc [simp]: "where_index P (xs @ [x]) = where_index P xs @ (if P x then [length xs] else [])"
proof -
  have "filter (\<lambda>i. P ((xs @ [x]) ! i)) [0..<length xs] = filter (\<lambda>i. P (xs ! i)) [0..<length xs]"
    by (rule filter_cong) (auto simp: nth_append)
  then show ?thesis by (simp add: where_index_def)
qed

lemma set_where_index: "set (where_index P xs) = {i. i < length xs \<and> P (xs ! i)}"
  by (auto simp: where_index_def)

lemma where_index_cong: "(\<And>x. x \<in> set xs \<Longrightarrow> P x = Q x) \<Longrightarrow> where_index P xs = where_index Q xs"
  unfolding where_index_def by (rule filter_cong) auto

section \<open>Buckets of patterns\<close>

lemma buckets_snoc: "buckets_for_patterns (ps @ [p]) = add_pattern_bucket (length ps, p) (buckets_for_patterns ps)"
  by (simp add: buckets_for_patterns_def fold_enumerate_snoc)

lemma buckets_unprefixed: "pb_unprefixed (buckets_for_patterns ps) = where_index (\<lambda>p. pa_prefix p = []) ps"
  by (induction ps rule: rev_induct)
    (simp add: buckets_for_patterns_def empty_buckets_def,
     auto simp: buckets_snoc add_pattern_bucket_def first_byte_def split: list.split)

lemma buckets_keyed:
  "alist_get [] (pb_by_first_byte (buckets_for_patterns ps)) b = where_index (\<lambda>p. first_byte (pa_prefix p) = Some b) ps"
proof (induction ps rule: rev_induct)
  case Nil
  show ?case by (simp add: buckets_for_patterns_def empty_buckets_def)
next
  case (snoc p ps)
  then show ?case by (cases "first_byte (pa_prefix p)") (auto simp: buckets_snoc add_pattern_bucket_def)
qed

lemma merge_candidates_filter:
  assumes "sorted_wrt (<) xs" "\<And>x. x \<in> set xs \<Longrightarrow> \<not> (P x \<and> Q x)" "\<And>x. x \<in> set xs \<Longrightarrow> x < length ps"
  shows "merge_candidates ps (filter P xs) (filter Q xs) = map (nth ps) (filter (\<lambda>i. P i \<or> Q i) xs)"
  using assms
proof (induction xs)
  case (Cons x xs)
  then have IH: "merge_candidates ps (filter P xs) (filter Q xs) = map (nth ps) (filter (\<lambda>i. P i \<or> Q i) xs)" by simp
  have x: "x < length ps" using Cons.prems by simp
  have above: "x < y" if "filter R xs = y # ys" for R :: "nat \<Rightarrow> bool" and y ys
  proof -
    have "y \<in> set xs" using that by (metis filter_is_subset list.set_intros(1) subsetD)
    then show ?thesis using Cons.prems(1) by simp
  qed
  show ?case
  proof (cases "P x")
    case True
    then have "\<not> Q x" using Cons.prems(2) by auto
    show ?thesis
    proof (cases "filter Q xs")
      case Nil
      with True \<open>\<not> Q x\<close> x IH show ?thesis by simp
    next
      case (Cons y ys)
      with True \<open>\<not> Q x\<close> x IH above [OF Cons] show ?thesis by simp
    qed
  next
    case False
    show ?thesis
    proof (cases "filter P xs")
      case Nil
      with False x IH show ?thesis by simp
    next
      case (Cons y ys)
      with False x IH above [OF Cons] show ?thesis by simp
    qed
  qed
qed simp

lemma first_byte_None [simp]: "first_byte s = None \<longleftrightarrow> s = []"
  by (simp add: first_byte_def split: list.split)

lemma first_byte_Nil [simp]: "first_byte [] = None"
  by simp

lemma map_nth_filter: "map (nth ps) (filter (\<lambda>i. R (ps ! i)) [0..<length ps]) = filter R ps"
  using filter_map [of R "nth ps" "[0..<length ps]"] by (simp add: map_nth comp_def)

lemma patterns_for_key_filter:
  "buckets_patterns_for_key (buckets_for_patterns ps) ps key =
     filter (\<lambda>p. pa_prefix p = [] \<or> first_byte (pa_prefix p) = first_byte key) ps"
proof -
  show ?thesis
  proof (cases "first_byte key")
    case None
    then show ?thesis
      using merge_candidates_filter [of "[0..<length ps]" "\<lambda>i. pa_prefix (ps ! i) = []" "\<lambda>_. False" ps] None
      by (simp add: buckets_patterns_for_key_def buckets_unprefixed where_index_def map_nth_filter [where R = "\<lambda>p. pa_prefix p = []"])
  next
    case (Some b)
    then show ?thesis
      using merge_candidates_filter [of "[0..<length ps]" "\<lambda>i. pa_prefix (ps ! i) = []"
          "\<lambda>i. first_byte (pa_prefix (ps ! i)) = Some b" ps]
      by (simp add: buckets_patterns_for_key_def buckets_unprefixed buckets_keyed where_index_def 
          map_nth_filter [where R = "\<lambda>p. pa_prefix p = [] \<or> first_byte (pa_prefix p) = Some b"])
  qed
qed

section \<open>Aliases\<close>

subsection \<open>Declarations\<close>

text \<open>Whether an alias of this name is declared as \<^verbatim>\<open>cat:key\<close>, as spelled or in lower case.\<close>

definition declares :: "ustr \<Rightarrow> ustr \<Rightarrow> ustr \<Rightarrow> bool" where
  "declares name cat key \<longleftrightarrow>
     (case split_once (asc CHR '':'') name of
        None \<Rightarrow> False
      | Some (c, k) \<Rightarrow> (c, k) = (cat, key) \<or> (to_ascii_lowercase c, to_ascii_lowercase k) = (cat, key))"

definition exact_of :: "(ustr \<times> (ustr \<times> nat list) list) list \<Rightarrow> ustr \<Rightarrow> ustr \<Rightarrow> nat list" where
  "exact_of m cat key = alist_get [] (alist_get [] m cat) key"

lemma exact_of_push: "exact_of (push_exact c k i m) cat key = exact_of m cat key @ (if (c, k) = (cat, key) then [i] else [])"
  by (auto simp: exact_of_def push_exact_def)

lemma exact_of_index:
  "exact_of (index_exact c k i m) cat key =
     exact_of m cat key @ (if (c, k) = (cat, key) \<or> (to_ascii_lowercase c, to_ascii_lowercase k) = (cat, key) then [i] else [])"
  by (auto simp: index_exact_def Let_def exact_of_push)

text \<open>The tables depend on the aliases alone.\<close>

definition alias_tables :: "(ustr \<times> new_rule) list \<Rightarrow> rule_set" where
  "alias_tables aliases = fold index_alias (List.enumerate 0 aliases) RuleSet_new"

definition set_alias_tables :: "rule_set \<Rightarrow> rule_set \<Rightarrow> rule_set" where
  "set_alias_tables t rl = rl\<lparr>rl_alias_exact := rl_alias_exact t, rl_alias_categories := rl_alias_categories t,
     rl_pretriggers := rl_pretriggers t, rl_value_set_effects := rl_value_set_effects t,
     rl_value_set_effect_fields := rl_value_set_effect_fields t\<rparr>"

lemma index_alias_tables: "index_alias x (set_alias_tables t rl) = set_alias_tables (index_alias x t) rl"
proof -
  obtain i name rule opts where x: "x = (i, name, rule, opts)" by (cases x) auto
  show ?thesis
    by (cases "split_once (asc CHR '':'') name")
      (auto simp: x index_alias_def set_alias_tables_def index_bindings_def index_pretrigger_def Let_def split: option.split)
qed

lemma fold_index_alias_tables:
  "fold index_alias xs (set_alias_tables t rl) = set_alias_tables (fold index_alias xs t) rl"
  by (induction xs arbitrary: t) (simp_all add: index_alias_tables)

lemma reindex_aliases_tables:
  "reindex_aliases rl =
     (let t = alias_tables (rl_aliases rl)
      in set_alias_tables (t\<lparr>rl_alias_categories := map (\<lambda>(c, entry). (c, fill_buckets entry)) (rl_alias_categories t)\<rparr>) rl)"
proof -
  have "rl\<lparr>rl_alias_exact := [], rl_alias_categories := [], rl_pretriggers := [], rl_value_set_effects := [],
      rl_value_set_effect_fields := []\<rparr> = set_alias_tables RuleSet_new rl"
    by (simp add: set_alias_tables_def RuleSet_new_def)
  then show ?thesis
    unfolding reindex_aliases_def alias_tables_def Let_def
    by (simp only: fold_index_alias_tables) (simp add: set_alias_tables_def)
qed

lemma alias_tables_snoc: "alias_tables (as @ [a]) = index_alias (length as, a) (alias_tables as)"
  by (simp add: alias_tables_def fold_enumerate_snoc)

lemma index_alias_exact:
  "rl_alias_exact (index_alias (i, name, r) t) =
     (case split_once (asc CHR '':'') name of None \<Rightarrow> rl_alias_exact t | Some (c, k) \<Rightarrow> index_exact c k i (rl_alias_exact t))"
  by (cases r) (auto simp: index_alias_def index_bindings_def index_pretrigger_def Let_def split: option.split)

lemma index_alias_categories:
  "rl_alias_categories (index_alias (i, name, r) t) =
     (case split_once (asc CHR '':'') name of None \<Rightarrow> rl_alias_categories t
      | Some (c, k) \<Rightarrow> AList.update c (index_category k i (alist_get empty_category (rl_alias_categories t) c)) (rl_alias_categories t))"
  by (cases r) (auto simp: index_alias_def index_bindings_def index_pretrigger_def Let_def split: option.split)

lemma exact_of_tables: "exact_of (rl_alias_exact (alias_tables as)) cat key = where_index (\<lambda>a. declares (fst a) cat key) as"
proof (induction as rule: rev_induct)
  case Nil
  show ?case by (simp add: alias_tables_def RuleSet_new_def exact_of_def)
next
  case (snoc a as)
  obtain name r where a: "a = (name, r)" by (cases a)
  show ?case
    by (cases "split_once 58 name")
      (simp_all add: a alias_tables_snoc index_alias_exact snoc exact_of_index declares_def split: prod.split)
qed

subsection \<open>Categories\<close>

definition in_category :: "ustr \<Rightarrow> nat \<times> ustr \<times> new_rule \<Rightarrow> (nat \<times> ustr) option" where
  "in_category cat = (\<lambda>(i, name, _). case split_once (asc CHR '':'') name of
     Some (c, k) \<Rightarrow> if c = cat then Some (i, k) else None | None \<Rightarrow> None)"

text \<open>The aliases of a category, in the order of their declaration, with their keys.\<close>

definition category_entries :: "(ustr \<times> new_rule) list \<Rightarrow> ustr \<Rightarrow> (nat \<times> ustr) list" where
  "category_entries as cat = List.map_filter (in_category cat) (List.enumerate 0 as)"

definition category_of :: "(nat \<times> ustr) list \<Rightarrow> alias_category_index" where
  "category_of es = fold (\<lambda>(i, k). index_category k i) es empty_category"

lemma map_filter_snoc: "List.map_filter f (xs @ [x]) = List.map_filter f xs @ (case f x of Some y \<Rightarrow> [y] | None \<Rightarrow> [])"
  by (simp add: map_filter_def split: option.split)

lemma category_entries_snoc:
  "category_entries (as @ [a]) cat = category_entries as cat @ (case in_category cat (length as, a) of Some e \<Rightarrow> [e] | None \<Rightarrow> [])"
  by (simp add: category_entries_def enumerate_snoc map_filter_snoc)

lemma categories_of_tables:
  "map_of (rl_alias_categories (alias_tables as)) cat =
     (if category_entries as cat = [] then None else Some (category_of (category_entries as cat)))"
proof (induction as rule: rev_induct)
  case Nil
  show ?case by (simp add: alias_tables_def RuleSet_new_def category_entries_def map_filter_def)
next
  case (snoc a as)
  obtain name r where a: "a = (name, r)" by (cases a)
  show ?case
  proof (cases "split_once 58 name")
    case None
    then show ?thesis
      by (simp add: a alias_tables_snoc index_alias_categories snoc category_entries_snoc in_category_def)
  next
    case (Some ck)
    obtain c k where ck: "ck = (c, k)" by (cases ck)
    have old: "alist_get empty_category (rl_alias_categories (alias_tables as)) cat = category_of (category_entries as cat)"
      by (simp add: alist_get_def snoc category_of_def)
    show ?thesis
      using old by (auto simp: a Some ck alias_tables_snoc index_alias_categories snoc category_entries_snoc
          in_category_def update_conv' category_of_def)
  qed
qed

lemma map_of_map_value: "map_of (map (\<lambda>(k, v). (k, f v)) m) x = map_option f (map_of m x)"
  by (induction m) auto

definition pattern_entry :: "nat \<times> ustr \<Rightarrow> parsed_alias_pattern option" where
  "pattern_entry = (\<lambda>(i, k). if k = str ''scope_field'' then None else parse_alias_pattern k i)"

definition scope_field_entries :: "(nat \<times> ustr) list \<Rightarrow> nat list" where
  "scope_field_entries es = map fst (filter (\<lambda>(_, k). k = str ''scope_field'') es)"

lemma category_of_snoc: "category_of (es @ [(i, k)]) = index_category k i (category_of es)"
  by (simp add: category_of_def)

lemma category_patterns: "ac_parsed_patterns (category_of es) = List.map_filter pattern_entry es"
proof (induction es rule: rev_induct)
  case (snoc e es)
  then show ?case
    by (cases e) (auto simp: category_of_snoc index_category_def map_filter_snoc pattern_entry_def split: option.split)
qed (simp add: category_of_def empty_category_def map_filter_def)

lemma category_scope_field:
  "ac_scope_field_idx (category_of es) = (if scope_field_entries es = [] then None else Some (last (scope_field_entries es)))"
proof (induction es rule: rev_induct)
  case (snoc e es)
  then show ?case
    by (cases e) (auto simp: category_of_snoc index_category_def scope_field_entries_def split: option.split)
qed (simp add: category_of_def empty_category_def scope_field_entries_def)

lemma category_plain:
  "ac_plain_alias_indices (category_of es) =
     map fst (filter (\<lambda>(i, k). k \<noteq> str ''scope_field'' \<and> parse_alias_pattern k i = None) es)"
proof (induction es rule: rev_induct)
  case (snoc e es)
  then show ?case
    by (cases e) (auto simp: category_of_snoc index_category_def split: option.split)
qed (simp add: category_of_def empty_category_def)


section \<open>Enums\<close>

text \<open>Values in the order of their first occurrence, one of each spelling up to ASCII case.\<close>

definition add_spelling :: "ustr \<Rightarrow> ustr list \<Rightarrow> ustr list" where
  "add_spelling v acc = (if to_ascii_lowercase v \<in> to_ascii_lowercase ` set acc then acc else acc @ [v])"

definition first_spellings :: "ustr list \<Rightarrow> ustr list" where
  "first_spellings vs = fold add_spelling vs []"

definition values_named :: "ustr \<Rightarrow> enum_definition list \<Rightarrow> ustr list" where
  "values_named k es = concat (map en_values (filter (\<lambda>e. en_key e = k) es))"

text \<open>The first definition of each name.\<close>

definition first_named :: "enum_definition list \<Rightarrow> enum_definition list" where
  "first_named es = fold (\<lambda>e acc. if en_key e \<in> en_key ` set acc then acc else acc @ [e]) es []"

definition merged_enums :: "enum_definition list \<Rightarrow> enum_definition list" where
  "merged_enums es = map (\<lambda>e. e\<lparr>en_values := first_spellings (values_named (en_key e) es)\<rparr>) (first_named es)"

definition index_names :: "enum_definition list \<Rightarrow> (ustr \<times> nat) list" where
  "index_names es = map (\<lambda>(i, e). (en_key e, i)) (List.enumerate 0 es)"

definition lowered_values :: "enum_definition \<Rightarrow> ustr set" where
  "lowered_values e = to_ascii_lowercase ` set (en_values e)"

lemma first_spellings_snoc: "first_spellings (vs @ [v]) = add_spelling v (first_spellings vs)"
  by (simp add: first_spellings_def)

lemma first_spellings_lower: "to_ascii_lowercase ` set (first_spellings vs) = to_ascii_lowercase ` set vs"
  by (induction vs rule: rev_induct) (auto simp: first_spellings_def add_spelling_def)

lemma first_spellings_distinct: "distinct (map to_ascii_lowercase (first_spellings vs))"
  by (induction vs rule: rev_induct) (auto simp: first_spellings_def add_spelling_def image_iff)

lemma first_spellings_id: "distinct (map to_ascii_lowercase vs) \<Longrightarrow> first_spellings vs = vs"
proof (induction vs rule: rev_induct)
  case (snoc v vs)
  then have "to_ascii_lowercase v \<notin> to_ascii_lowercase ` set vs" by auto
  with snoc show ?case by (simp add: first_spellings_snoc add_spelling_def)
qed (simp add: first_spellings_def)

lemma first_named_snoc:
  "first_named (es @ [e]) = (if en_key e \<in> en_key ` set (first_named es) then first_named es else first_named es @ [e])"
  by (simp add: first_named_def)

lemma first_named_keys: "en_key ` set (first_named es) = en_key ` set es"
  by (induction es rule: rev_induct) (auto simp: first_named_def)

lemma first_named_distinct: "distinct (map en_key (first_named es))"
  by (induction es rule: rev_induct) (auto simp: first_named_def image_iff)

lemma first_named_id: "distinct (map en_key es) \<Longrightarrow> first_named es = es"
proof (induction es rule: rev_induct)
  case (snoc e es)
  then have "en_key e \<notin> en_key ` set es" by auto
  with snoc show ?case by (simp add: first_named_snoc)
qed (simp add: first_named_def)

lemma merged_enums_keys: "map en_key (merged_enums es) = map en_key (first_named es)"
  by (simp add: merged_enums_def)

lemma map_of_enumerate:
  "distinct (map f xs) \<Longrightarrow> map_of (map (\<lambda>(i, x). (f x, i)) (List.enumerate n xs)) k = Some j \<longleftrightarrow>
     n \<le> j \<and> j < n + length xs \<and> f (xs ! (j - n)) = k"
proof (induction xs arbitrary: n)
  case (Cons x xs)
  have later: "f (xs ! (j - Suc n)) \<noteq> f x" if "Suc n \<le> j" "j < Suc n + length xs"
  proof -
    have "xs ! (j - Suc n) \<in> set xs" using that by simp
    then have "f (xs ! (j - Suc n)) \<in> f ` set xs" by (rule imageI)
    then show ?thesis using Cons.prems by auto
  qed
  show ?case
  proof (cases "j = n")
    case True
    then show ?thesis using Cons by auto
  next
    case False
    then have "(x # xs) ! (j - n) = xs ! (j - Suc n)" if "n \<le> j" using that by (simp add: nth_Cons')
    with Cons later False show ?thesis by (auto simp: Suc_le_eq)
  qed
qed simp

lemma index_names_iff:
  "distinct (map en_key es) \<Longrightarrow> map_of (index_names es) k = Some j \<longleftrightarrow> j < length es \<and> en_key (es ! j) = k"
  using map_of_enumerate [of en_key es 0 k j] by (simp add: index_names_def)

lemma index_names_snoc: "index_names (es @ [e]) = index_names es @ [(en_key e, length es)]"
  by (simp add: index_names_def enumerate_snoc)

lemma index_names_keys: "fst ` set (index_names es) = en_key ` set es"
  by (induction es rule: rev_induct) (simp_all add: index_names_snoc, simp add: index_names_def)

lemma index_names_cong: "map en_key es = map en_key es' \<Longrightarrow> index_names es = index_names es'"
proof (induction es arbitrary: es' rule: rev_induct)
  case (snoc e es)
  then obtain f fs where "es' = fs @ [f]" by (cases es' rule: rev_cases) auto
  with snoc show ?case by (simp add: index_names_snoc) (metis length_map)
qed simp

text \<open>The state of the loop over the enums, as a function of the enums merged so far.\<close>

definition enum_state_of :: "enum_definition list \<Rightarrow> enum_state" where
  "enum_state_of es = (es, index_names es, map lowered_values es)"

definition add_value :: "ustr \<Rightarrow> enum_definition \<Rightarrow> enum_definition" where
  "add_value v e = e\<lparr>en_values := add_spelling v (en_values e)\<rparr>"

lemma lowered_add_value: "lowered_values (add_value v e) = insert (to_ascii_lowercase v) (lowered_values e)"
  by (auto simp: lowered_values_def add_value_def add_spelling_def)

lemma add_enum_value_state:
  assumes "idx < length es"
  shows "add_enum_value idx v (enum_state_of es) = enum_state_of (es[idx := add_value v (es ! idx)])"
proof -
  have keys: "index_names (es[idx := add_value v (es ! idx)]) = index_names es"
    by (rule index_names_cong) (simp add: map_update add_value_def list_update_same_conv assms)
  show ?thesis
  proof (cases "to_ascii_lowercase v \<in> lowered_values (es ! idx)")
    case True
    then have "add_value v (es ! idx) = es ! idx"
      by (simp add: add_value_def add_spelling_def lowered_values_def)
    with True assms show ?thesis by (simp add: add_enum_value_def enum_state_of_def)
  next
    case False
    then have "add_value v (es ! idx) = (es ! idx)\<lparr>en_values := en_values (es ! idx) @ [v]\<rparr>"
      by (simp add: add_value_def add_spelling_def lowered_values_def)
    with False assms keys lowered_add_value [of v "es ! idx"] show ?thesis
      by (simp add: add_enum_value_def enum_state_of_def map_update)
  qed
qed

lemma fold_add_enum_value:
  assumes "idx < length es"
  shows "fold (add_enum_value idx) vs (enum_state_of es) = enum_state_of (es[idx := fold add_value vs (es ! idx)])"
  using assms
proof (induction vs arbitrary: es)
  case (Cons v vs)
  then show ?case by (simp add: add_enum_value_state)
qed simp

lemma fold_add_value: "fold add_value vs e = e\<lparr>en_values := fold add_spelling vs (en_values e)\<rparr>"
  by (induction vs arbitrary: e) (simp_all add: add_value_def)

lemma values_named_snoc: "values_named k (es @ [e]) = values_named k es @ (if en_key e = k then en_values e else [])"
  by (simp add: values_named_def)

lemma values_named_none: "k \<notin> en_key ` set es \<Longrightarrow> values_named k es = []"
  by (auto simp: values_named_def)

lemma first_spellings_append: "first_spellings (vs @ ws) = fold add_spelling ws (first_spellings vs)"
  by (simp add: first_spellings_def)

lemma merge_enums_state: "merge_enums es = enum_state_of (merged_enums es)"
proof (induction es rule: rev_induct)
  case Nil
  show ?case by (simp add: merge_enums_def enum_state_of_def merged_enums_def first_named_def index_names_def)
next
  case (snoc e es)
  let ?m = "merged_enums es"
  have step: "merge_enums (es @ [e]) = add_enum e (enum_state_of ?m)" using snoc by (simp add: merge_enums_def)
  have dist: "distinct (map en_key ?m)" by (simp add: merged_enums_keys first_named_distinct)
  show ?case
  proof (cases "map_of (index_names ?m) (en_key e)")
    case (Some idx)
    then have idx: "idx < length ?m" "en_key (?m ! idx) = en_key e" using index_names_iff [OF dist] by auto
    then have known: "en_key e \<in> en_key ` set (first_named es)"
      by (metis merged_enums_keys image_set length_map nth_map nth_mem)
    have "?m[idx := fold add_value (en_values e) (?m ! idx)] = merged_enums (es @ [e])"
    proof (rule nth_equalityI)
      fix j assume "j < length (?m[idx := fold add_value (en_values e) (?m ! idx)])"
      then have j: "j < length ?m" by simp
      then have "en_key (?m ! j) = en_key e \<longleftrightarrow> j = idx"
        using idx dist by (metis distinct_conv_nth length_map nth_map)
      moreover have "en_key (?m ! j) = en_key (first_named es ! j)" using j by (simp add: merged_enums_def)
      moreover have "merged_enums (es @ [e]) ! j =
          (first_named es ! j)\<lparr>en_values := first_spellings (values_named (en_key (first_named es ! j)) (es @ [e]))\<rparr>"
        using j known by (simp add: merged_enums_def first_named_snoc)
      moreover have "?m ! j = (first_named es ! j)\<lparr>en_values := first_spellings (values_named (en_key (first_named es ! j)) es)\<rparr>"
        using j by (simp add: merged_enums_def)
      ultimately show "?m[idx := fold add_value (en_values e) (?m ! idx)] ! j = merged_enums (es @ [e]) ! j"
        using j by (cases "j = idx") (simp_all add: values_named_snoc first_spellings_append fold_add_value)
    qed (simp add: merged_enums_def first_named_snoc known)
    with step Some idx show ?thesis
      by (simp add: add_enum_def open_enum_def enum_state_of_def [of ?m] Let_def)
        (simp add: enum_state_of_def [of ?m, symmetric] fold_add_enum_value)
  next
    case None
    then have new: "en_key e \<notin> en_key ` set (first_named es)"
      using index_names_keys [of ?m] merged_enums_keys [of es] by (metis image_set map_of_eq_None_iff)
    let ?n = "?m @ [e\<lparr>en_values := []\<rparr>]"
    have opened: "open_enum e (enum_state_of ?m) = (length ?m, enum_state_of ?n)"
      using None update_new [of "en_key e" "index_names ?m"]
      by (simp add: open_enum_def enum_state_of_def index_names_snoc lowered_values_def map_of_eq_None_iff del: map_of_eq_None_iff)
        (simp add: map_of_eq_None_iff)
    have old: "values_named (en_key x) (es @ [e]) = values_named (en_key x) es" if "x \<in> set (first_named es)" for x
      using that new by (auto simp: values_named_snoc image_iff)
    have "map (\<lambda>x. x\<lparr>en_values := first_spellings (values_named (en_key x) (es @ [e]))\<rparr>) (first_named es) = ?m"
      unfolding merged_enums_def by (rule map_cong) (simp_all add: old)
    moreover have "values_named (en_key e) (es @ [e]) = en_values e"
      using new first_named_keys [of es] by (simp add: values_named_snoc values_named_none)
    ultimately have "merged_enums (es @ [e]) = ?m @ [e\<lparr>en_values := first_spellings (en_values e)\<rparr>]"
      using new by (simp add: merged_enums_def [of "es @ [e]"] first_named_snoc)
    then have "?n[length ?m := fold add_value (en_values e) (e\<lparr>en_values := []\<rparr>)] = merged_enums (es @ [e])"
      by (simp add: fold_add_value first_spellings_def)
    with step opened show ?thesis
      by (simp add: add_enum_def fold_add_enum_value [of "length ?m" ?n])
  qed
qed

lemma merged_enums_distinct: "distinct (map en_key (merged_enums es))"
  by (simp add: merged_enums_keys first_named_distinct)

lemma merged_enums_id:
  assumes "distinct (map en_key es)" "\<And>e. e \<in> set es \<Longrightarrow> distinct (map to_ascii_lowercase (en_values e))"
  shows "merged_enums es = es"
proof -
  have "values_named (en_key e) es = en_values e" if "e \<in> set es" for e
    using that assms(1)
    by (induction es) (auto simp: values_named_def image_iff, metis (mono_tags, lifting) concat.simps(1) filter_False list.simps(8))
  then show ?thesis using assms by (simp add: merged_enums_def first_named_id first_spellings_id map_idI)
qed

lemma merged_enums_idem: "merged_enums (merged_enums es) = merged_enums es"
  by (rule merged_enums_id) (auto simp: merged_enums_distinct, auto simp: merged_enums_def first_spellings_distinct)


section \<open>The reindexed rule set\<close>

lemma reindex_enums_eq:
  "reindex_enums rl = rl\<lparr>rl_enums := merged_enums (rl_enums rl), rl_enum_by_name := index_names (merged_enums (rl_enums rl)),
     rl_enum_values_lower := map lowered_values (merged_enums (rl_enums rl))\<rparr>"
  by (simp add: reindex_enums_def merge_enums_state enum_state_of_def)

lemma reindex_rest_same [simp]:
  "rl_aliases (reindex_rest rl) = rl_aliases rl" "rl_enums (reindex_rest rl) = rl_enums rl"
  "rl_enum_by_name (reindex_rest rl) = rl_enum_by_name rl" "rl_enum_values_lower (reindex_rest rl) = rl_enum_values_lower rl"
  "rl_alias_exact (reindex_rest rl) = rl_alias_exact rl" "rl_alias_categories (reindex_rest rl) = rl_alias_categories rl"
  "rl_values (reindex_rest rl) = rl_values rl" "rl_root_rules (reindex_rest rl) = rl_root_rules rl"
  "rl_scope_links (reindex_rest rl) = rl_scope_links rl" "rl_link_inputs (reindex_rest rl) = rl_link_inputs rl"
  "rl_pretriggers (reindex_rest rl) = rl_pretriggers rl" "rl_value_set_effects (reindex_rest rl) = rl_value_set_effects rl"
  "rl_value_set_effect_fields (reindex_rest rl) = rl_value_set_effect_fields rl"
  "rl_enum_has_at (reindex_rest rl) = map has_at (rl_enums rl)"
  "rl_value_sets (reindex_rest rl) = map (\<lambda>(k, vs). (k, set (map to_ascii_lowercase vs))) (rl_values rl)"
  by (simp_all add: reindex_rest_def Let_def)

lemma reindex_same [simp]:
  "rl_aliases (reindex rl) = rl_aliases rl" "rl_values (reindex rl) = rl_values rl"
  "rl_root_rules (reindex rl) = rl_root_rules rl" "rl_scope_links (reindex rl) = rl_scope_links rl"
  "rl_link_inputs (reindex rl) = rl_link_inputs rl"
  by (simp_all add: reindex_def reindex_aliases_tables set_alias_tables_def reindex_enums_eq Let_def)

lemma reindex_enum_fields:
  "rl_enums (reindex rl) = merged_enums (rl_enums rl)"
  "rl_enum_by_name (reindex rl) = index_names (merged_enums (rl_enums rl))"
  "rl_enum_values_lower (reindex rl) = map lowered_values (merged_enums (rl_enums rl))"
  "rl_enum_has_at (reindex rl) = map has_at (merged_enums (rl_enums rl))"
  by (simp_all add: reindex_def reindex_aliases_tables set_alias_tables_def reindex_enums_eq Let_def)

lemma reindex_value_sets: "rl_value_sets (reindex rl) = map (\<lambda>(k, vs). (k, set (map to_ascii_lowercase vs))) (rl_values rl)"
  by (simp add: reindex_def reindex_aliases_tables set_alias_tables_def reindex_enums_eq Let_def)

lemma reindex_alias_exact: "rl_alias_exact (reindex rl) = rl_alias_exact (alias_tables (rl_aliases rl))"
  by (simp add: reindex_def reindex_aliases_tables set_alias_tables_def reindex_enums_eq Let_def)

lemma reindex_category:
  "map_of (rl_alias_categories (reindex rl)) cat =
     (if category_entries (rl_aliases rl) cat = [] then None
      else Some (fill_buckets (category_of (category_entries (rl_aliases rl) cat))))"
  by (simp add: reindex_def reindex_aliases_tables set_alias_tables_def reindex_enums_eq Let_def map_of_map_value categories_of_tables)

lemma reindex_exact_of: "exact_of (rl_alias_exact (reindex rl)) cat key = where_index (\<lambda>a. declares (fst a) cat key) (rl_aliases rl)"
  by (simp add: reindex_alias_exact exact_of_tables)

lemma reindex_enums_again: "reindex_enums (reindex rl) = reindex rl"
  by (simp add: reindex_enums_eq reindex_enum_fields merged_enums_idem)

lemma reindex_aliases_again: "reindex_aliases (reindex rl) = reindex rl"
proof -
  have same: "rl_pretriggers (reindex rl) = rl_pretriggers (alias_tables (rl_aliases rl))"
    "rl_value_set_effects (reindex rl) = rl_value_set_effects (alias_tables (rl_aliases rl))"
    "rl_value_set_effect_fields (reindex rl) = rl_value_set_effect_fields (alias_tables (rl_aliases rl))"
    "rl_alias_categories (reindex rl) = map (\<lambda>(c, entry). (c, fill_buckets entry)) (rl_alias_categories (alias_tables (rl_aliases rl)))"
    by (simp_all add: reindex_def reindex_aliases_tables set_alias_tables_def reindex_enums_eq Let_def)
  show ?thesis
    unfolding reindex_aliases_tables set_alias_tables_def Let_def
    by (simp add: same [symmetric] reindex_alias_exact [symmetric])
qed

lemma normalize_path_options_idem: "normalize_path_options (normalize_path_options p) = normalize_path_options p"
  by (simp add: normalize_path_options_def)

lemma reindex_rest_idem: "reindex_rest (reindex_rest rl) = reindex_rest rl"
  by (simp add: reindex_rest_def Let_def normalize_path_options_idem comp_def uses_undefined_enum_def
      collect_references_def reference_roots_def subtype_groups_def first_index_by_def)

section \<open>Properties\<close>

text \<open>
  C21. Reindexing a rule set that is already reindexed changes nothing: a clone that is reindexed
  again after a change elsewhere keeps its enums, indexes and tables.
\<close>

theorem reindex_idempotent: "reindex (reindex rl) = reindex rl"
  unfolding reindex_def [of "reindex rl"] reindex_enums_again reindex_aliases_again
  by (simp add: reindex_def reindex_rest_idem)

lemma has_at_lower: "has_at e \<longleftrightarrow> (\<exists>v \<in> to_ascii_lowercase ` set (en_values e). starts_with v (str ''@''))"
proof -
  have "prefix [64] (to_ascii_lowercase v) \<longleftrightarrow> prefix [64] v" for v
    by (cases v) (auto simp: ascii_lower_def is_ascii_uppercase_def)
  then show ?thesis by (auto simp: has_at_def list_ex_iff)
qed

lemma ascii_lowercase_if_needed_eq [simp]: "ascii_lowercase_if_needed s = to_ascii_lowercase s"
proof (cases "list_ex is_ascii_uppercase s")
  case False
  then have "map ascii_lower s = s" by (induction s) (auto simp: ascii_lower_def)
  with False show ?thesis by (simp add: ascii_lowercase_if_needed_def)
qed (simp add: ascii_lowercase_if_needed_def)

lemma enum_index_in_range:
  "map_of (rl_enum_by_name (reindex rl)) k = Some i \<longleftrightarrow> i < length (rl_enums (reindex rl)) \<and> en_key (rl_enums (reindex rl) ! i) = k"
  by (simp add: reindex_enum_fields index_names_iff merged_enums_distinct)

lemma merged_enum_at:
  assumes "i < length (merged_enums es)" "en_key (merged_enums es ! i) = k"
  shows "en_values (merged_enums es ! i) = first_spellings (values_named k es)"
  using assms by (simp add: merged_enums_def)

lemma enum_by_name_None: "map_of (rl_enum_by_name (reindex rl)) k = None \<longleftrightarrow> k \<notin> en_key ` set (rl_enums rl)"
proof -
  have "en_key ` set (merged_enums es) = en_key ` set es" for es
    by (metis image_set merged_enums_keys first_named_keys)
  then show ?thesis by (simp add: reindex_enum_fields map_of_eq_None_iff index_names_keys)
qed

text \<open>
  After reindexing, the definitions of one enum are one: its entry holds the values of all of
  them in order, one of each spelling up to ASCII case; a name with no definition has no entry.
  The test for a value answers in any letter case as a search through all the declared values, and
  the flag for \<^verbatim>\<open>@\<close> constants says whether one of them is such a constant.
\<close>

theorem enums_merged:
  "case map_of (rl_enum_by_name (reindex rl)) k of
     None \<Rightarrow> \<not> list_ex (\<lambda>e. en_key e = k) (rl_enums rl)
   | Some i \<Rightarrow>
       list_ex (\<lambda>e. en_key e = k) (rl_enums rl)
       \<and> i < length (rl_enums (reindex rl))
       \<and> en_key (rl_enums (reindex rl) ! i) = k
       \<and> en_values (rl_enums (reindex rl) ! i) = first_spellings (values_named k (rl_enums rl))
       \<and> (enum_values_contains_ci (reindex rl) i v \<longleftrightarrow> list_ex (\<lambda>w. eq_ignore_ascii_case w v) (values_named k (rl_enums rl)))
       \<and> (enum_has_at_constant (reindex rl) i \<longleftrightarrow> list_ex (\<lambda>w. starts_with w (str ''@'')) (values_named k (rl_enums rl)))"
proof (cases "map_of (rl_enum_by_name (reindex rl)) k")
  case None
  then have "k \<notin> en_key ` set (rl_enums rl)" using enum_by_name_None by metis
  then have "\<not> list_ex (\<lambda>e. en_key e = k) (rl_enums rl)" by (auto simp: list_ex_iff)
  then show ?thesis unfolding None by simp
next
  case (Some i)
  then have i: "i < length (merged_enums (rl_enums rl))" "en_key (merged_enums (rl_enums rl) ! i) = k"
    by (simp_all add: enum_index_in_range) (simp_all add: reindex_enum_fields)
  note vals = merged_enum_at [OF i]
  have known: "list_ex (\<lambda>e. en_key e = k) (rl_enums rl)"
    using Some enum_by_name_None [of rl k] by (auto simp: list_ex_iff)
  have low: "lowered_values (merged_enums (rl_enums rl) ! i) = to_ascii_lowercase ` set (values_named k (rl_enums rl))"
    by (simp add: lowered_values_def vals first_spellings_lower)
  have "enum_values_contains_ci (reindex rl) i v \<longleftrightarrow> list_ex (\<lambda>w. eq_ignore_ascii_case w v) (values_named k (rl_enums rl))"
    using i(1) by (simp add: enum_values_contains_ci_def reindex_enum_fields low list_ex_iff eq_ignore_ascii_case_def image_iff)
      (metis (no_types))
  moreover have "has_at (merged_enums (rl_enums rl) ! i) \<longleftrightarrow> list_ex (\<lambda>w. starts_with w (str ''@'')) (values_named k (rl_enums rl))"
    using low has_at_lower [of "merged_enums (rl_enums rl) ! i"]
      has_at_lower [of "\<lparr>en_key = k, en_description = [], en_values = values_named k (rl_enums rl)\<rparr>"]
    by (simp add: lowered_values_def) (simp add: has_at_def)
  ultimately show ?thesis
    using Some i vals known by (simp add: reindex_enum_fields enum_has_at_constant_def)
qed

end
