(* ===== verification/Rule_Matching.thy ===== *)
theory Rule_Matching
  imports Rule_Index Paradox_Parser
begin

text \<open>
  Which rules a key may use, \<^verbatim>\<open>engine/crates/validation/src/rule_core/matching.rs\<close>, with the
  tests of \<^verbatim>\<open>validation/src/common.rs\<close> it calls.  The hasher of a rule body's index is a parameter:
  it is fed the lower-case bytes of a key, so it is a function of the key in ASCII lower case.
  The \<^verbatim>\<open>f64\<close> of a text is the rational it denotes, an infinity or no number; rounding is not
  modelled.
\<close>

section \<open>Shapes of keys\<close>

definition unquote :: "ustr \<Rightarrow> ustr" where
  "unquote s = (case Option.bind (strip_prefix [34] s) (strip_suffix [34]) of Some t \<Rightarrow> t | None \<Rightarrow> s)"

text \<open>Comparison of bytes up to ASCII case is comparison of characters up to ASCII case.\<close>

definition starts_with_ci :: "ustr \<Rightarrow> ustr \<Rightarrow> bool" where
  "starts_with_ci s p = starts_with (to_ascii_lowercase s) (to_ascii_lowercase p)"

definition ends_with_ci :: "ustr \<Rightarrow> ustr \<Rightarrow> bool" where
  "ends_with_ci s p = ends_with (to_ascii_lowercase s) (to_ascii_lowercase p)"

definition parse_i32 :: "ustr \<Rightarrow> int option" where
  "parse_i32 s = (case parse_i64 s of Some v \<Rightarrow> if - (2 ^ 31) \<le> v \<and> v < 2 ^ 31 then Some v else None | None \<Rightarrow> None)"

text \<open>\<^verbatim>\<open>str::parse::<f64>\<close>.\<close>

datatype float_value = Finite rat | Infinite bool | NotANumber

definition scaled :: "nat \<Rightarrow> int \<Rightarrow> rat" where
  "scaled digits e = (if 0 \<le> e then of_nat digits * 10 ^ nat e else of_nat digits / 10 ^ nat (- e))"

definition parse_exponent :: "ustr \<Rightarrow> int option" where
  "parse_exponent s =
     (let (neg, ds) = split_sign s
      in if ds \<noteq> [] \<and> list_all is_ascii_digit ds
         then Some (if neg then - int (digits_value ds) else int (digits_value ds)) else None)"

definition is_exponent_mark :: "uchar \<Rightarrow> bool" where
  "is_exponent_mark c \<longleftrightarrow> c = asc CHR ''e'' \<or> c = asc CHR ''E''"

definition parse_number :: "ustr \<Rightarrow> rat option" where
  "parse_number body =
     (let mantissa = takeWhile (\<lambda>c. \<not> is_exponent_mark c) body; rest = dropWhile (\<lambda>c. \<not> is_exponent_mark c) body;
          (whole, frac) = (case split_once (asc CHR ''.'') mantissa of Some parts \<Rightarrow> parts | None \<Rightarrow> (mantissa, []))
      in if whole @ frac = [] \<or> \<not> list_all is_ascii_digit (whole @ frac) then None
         else case (case rest of [] \<Rightarrow> Some 0 | _ # es \<Rightarrow> parse_exponent es) of
                None \<Rightarrow> None
              | Some e \<Rightarrow> Some (scaled (digits_value (whole @ frac)) (e - int (length frac))))"

definition parse_float :: "ustr \<Rightarrow> float_value option" where
  "parse_float s =
     (let (neg, body) = split_sign s
      in if eq_ignore_ascii_case body (str ''inf'') \<or> eq_ignore_ascii_case body (str ''infinity'') then Some (Infinite neg)
         else if eq_ignore_ascii_case body (str ''nan'') then Some NotANumber
         else map_option (\<lambda>r. Finite (if neg then - r else r)) (parse_number body))"

definition is_date_shape :: "ustr \<Rightarrow> bool" where
  "is_date_shape s \<longleftrightarrow>
     (case split_char (asc CHR ''.'') s of
        [y, m, d] \<Rightarrow> parse_i32 y \<noteq> None \<and> parse_u32 m \<noteq> None \<and> parse_u32 d \<noteq> None
      | _ \<Rightarrow> False)"

definition is_datetime_shape :: "ustr \<Rightarrow> bool" where
  "is_datetime_shape s \<longleftrightarrow>
     (case split_char (asc CHR ''.'') s of
        [_, _, _] \<Rightarrow> is_date_shape s
      | [y, m, d, h] \<Rightarrow> parse_i32 y \<noteq> None \<and> parse_u32 m \<noteq> None \<and> parse_u32 d \<noteq> None \<and> parse_u32 h \<noteq> None
      | _ \<Rightarrow> False)"

definition enum_is_authoritative :: "enum_definition \<Rightarrow> bool" where
  "enum_is_authoritative def = (length (en_values def) > 5)"

definition enum_contains :: "rule_set \<Rightarrow> ustr \<Rightarrow> ustr \<Rightarrow> bool" where
  "enum_contains rl enum_name v =
     (case map_of (rl_enum_by_name rl) enum_name of
        Some idx \<Rightarrow>
          if en_values (rl_enums rl ! idx) \<noteq> [] then
            (if enum_values_contains_ci rl idx v then True
             else if enum_has_at_constant rl idx then True
             else if enum_is_authoritative (rl_enums rl ! idx) then v \<noteq> []
             else False)
          else True
      | None \<Rightarrow> True)"

section \<open>Keys that name a scope\<close>

definition scope_command_keywords :: "ustr list" where
  "scope_command_keywords = map str [''THIS'', ''ROOT'', ''PREV'', ''FROM'', ''FROMFROM'', ''FROMFROMFROM'',
     ''FROMFROMFROMFROM'', ''PREVPREV'', ''PREVPREVPREV'', ''OWNER'', ''CONTROLLER'', ''CAPITAL'', ''OVERLORD'']"

definition looks_like_scope_command :: "ustr \<Rightarrow> bool" where
  "looks_like_scope_command key =
     (if list_ex (eq_ignore_ascii_case key) scope_command_keywords then True
      else if asc CHR ''.'' \<in> set key \<or> asc CHR '':'' \<in> set key then True
      else if key \<noteq> [] \<and> list_all is_ascii_digit key then True
      else 2 \<le> blen key \<and> blen key \<le> 4
           \<and> list_all (\<lambda>c. is_ascii_uppercase c \<or> is_ascii_digit c) key \<and> list_ex is_ascii_uppercase key)"

definition value_set_name :: "ustr \<Rightarrow> ustr option" where
  "value_set_name data_source =
     map_option trim (Option.bind (strip_prefix (str ''value['') data_source) (strip_suffix (str '']'')))"

definition is_from_data_value_set_member :: "ustr \<Rightarrow> rule_set \<Rightarrow> type_index \<Rightarrow> bool" where
  "is_from_data_value_set_member key rl ti =
     (if named_value_is_empty (tx_value_set_values ti) then False
      else list_ex (\<lambda>s. named_value_contains (tx_value_set_values ti) s key)
             (List.map_filter value_set_name (concat (map li_data_source (filter li_from_data (rl_link_inputs rl))))))"

definition scope_links_contains :: "rule_set \<Rightarrow> ustr \<Rightarrow> bool" where
  "scope_links_contains rl key = (ascii_lowercase_if_needed key \<in> rl_scope_links rl)"

definition is_scope_key :: "ustr \<Rightarrow> rule_set \<Rightarrow> type_index option \<Rightarrow> bool" where
  "is_scope_key key rl ti \<longleftrightarrow>
     looks_like_scope_command key \<or> scope_links_contains rl key
     \<or> (case ti of Some idx \<Rightarrow> index_is_any_instance key idx \<or> is_from_data_value_set_member key rl idx | None \<Rightarrow> False)"

section \<open>Patterns\<close>

datatype pattern_match = No | Confident | PermissiveOnly

definition classify_pattern_match :: "parsed_alias_pattern \<Rightarrow> ustr \<Rightarrow> rule_set \<Rightarrow> type_index option \<Rightarrow> pattern_match" where
  "classify_pattern_match pat key rl ti =
     (let pre = pa_prefix pat; suf = pa_suffix pat
      in if blen key < blen pre + blen suf \<or> \<not> starts_with key pre \<or> \<not> ends_with key suf then No
         else
           (let middle = span_of (length pre) (length key - length suf) key; name = pa_placeholder_name pat
            in case pa_kind pat of
                 PatternType \<Rightarrow>
                   (let base = (case split_char (asc CHR ''.'') name of b # _ \<Rightarrow> b | [] \<Rightarrow> name)
                    in if (case ti of Some idx \<Rightarrow> type_contains base middle idx | None \<Rightarrow> False) then Confident else No)
               | PatternEnum \<Rightarrow>
                   (case map_of (rl_enum_by_name rl) name of
                      Some idx \<Rightarrow>
                        if en_values (rl_enums rl ! idx) \<noteq> []
                        then (if enum_values_contains_ci rl idx middle \<or> enum_has_at_constant rl idx
                                 \<or> enum_is_authoritative (rl_enums rl ! idx)
                              then Confident else No)
                        else PermissiveOnly
                    | None \<Rightarrow> PermissiveOnly)
               | PatternValue \<Rightarrow>
                   (case value_set_lookup rl name middle of
                      Some is_member \<Rightarrow> if is_member then Confident else No
                    | None \<Rightarrow> PermissiveOnly)))"

definition parsed_pattern_matches :: "parsed_alias_pattern \<Rightarrow> ustr \<Rightarrow> rule_set \<Rightarrow> type_index option \<Rightarrow> bool \<Rightarrow> bool" where
  "parsed_pattern_matches pat key rl ti permissive =
     (case classify_pattern_match pat key rl ti of Confident \<Rightarrow> True | PermissiveOnly \<Rightarrow> permissive | No \<Rightarrow> False)"

section \<open>Fields\<close>

definition strip_affix_ci :: "ustr \<Rightarrow> ustr \<Rightarrow> ustr \<Rightarrow> ustr option" where
  "strip_affix_ci key pre suf =
     (if blen key \<le> blen pre + blen suf then None
      else if \<not> starts_with_ci key pre \<or> \<not> ends_with_ci key suf then None
      else Some (span_of (length pre) (length key - length suf) key))"

definition type_instance_known_or_lenient :: "ustr \<Rightarrow> ustr \<Rightarrow> type_index option \<Rightarrow> bool" where
  "type_instance_known_or_lenient type_name lookup ti =
     (case ti of
        None \<Rightarrow> True
      | Some idx \<Rightarrow> if \<not> tx_complete idx \<or> instances type_name idx = [] then True else type_contains type_name lookup idx)"

definition supplied_enum_has_key :: "ustr \<Rightarrow> ustr \<Rightarrow> rule_set \<Rightarrow> type_index option \<Rightarrow> bool" where
  "supplied_enum_has_key enum_name key rl ti =
     (if enum_name \<noteq> SCRIPTED_EFFECT_PARAMS \<or> \<not> rl_supplies_scripted_effect_params rl \<or> asc CHR ''$'' \<in> set key then True
      else case ti of
             None \<Rightarrow> True
           | Some idx \<Rightarrow>
               if \<not> tx_complete idx then True
               else (let params = tx_complex_enum_values idx; values = named_value_values params enum_name
                     in values = [] \<or> named_value_contains params enum_name key
                        \<or> list_ex (\<lambda>param. eq_ignore_ascii_case param key) values))"

definition type_field_matches_key :: "type_type \<Rightarrow> ustr \<Rightarrow> type_index option \<Rightarrow> bool" where
  "type_field_matches_key tt key ti =
     (if starts_with key (str ''@'') \<or> starts_with key (str ''['') \<or> asc CHR ''$'' \<in> set key then True
      else case tt of
             TypeSimple name \<Rightarrow> type_instance_known_or_lenient name key ti
           | TypeComplex pre name suf \<Rightarrow>
               (case strip_affix_ci key pre suf of
                  Some middle \<Rightarrow> type_instance_known_or_lenient name middle ti
                | None \<Rightarrow> False))"

text \<open>\<^verbatim>\<open>alias_exact().get(category).is_some_and(|m| m.contains_key(key))\<close>.\<close>

definition alias_exact_has :: "rule_set \<Rightarrow> ustr \<Rightarrow> ustr \<Rightarrow> bool" where
  "alias_exact_has rl category key =
     (case map_of (rl_alias_exact rl) category of Some m \<Rightarrow> map_of m key \<noteq> None | None \<Rightarrow> False)"

definition alias_field_matches_key :: "ustr \<Rightarrow> ustr \<Rightarrow> rule_set \<Rightarrow> type_index option \<Rightarrow> bool" where
  "alias_field_matches_key category key rl ti =
     (if alias_exact_has rl category key then True
      else if list_ex is_ascii_uppercase key \<and> alias_exact_has rl category (to_ascii_lowercase key) then True
      else case map_of (rl_alias_categories rl) category of
             None \<Rightarrow> True
           | Some cat \<Rightarrow>
               if list_ex (\<lambda>pat. parsed_pattern_matches pat key rl ti True) (patterns_for_key cat key) then True
               else ac_scope_field_idx cat \<noteq> None \<and> is_scope_key key rl ti)"

fun field_matches_key :: "new_field \<Rightarrow> ustr \<Rightarrow> rule_set \<Rightarrow> type_index option \<Rightarrow> bool" where
  "field_matches_key (SpecificField s) key rl ti = eq_ignore_ascii_case s key"
| "field_matches_key (AliasField category) key rl ti = alias_field_matches_key category key rl ti"
| "field_matches_key (SingleAliasField alias_name) key rl ti = (alias_name = key)"
| "field_matches_key (IgnoreField inner) key rl ti = field_matches_key inner key rl ti"
| "field_matches_key IgnoreMarkerField key rl ti = True"
| "field_matches_key ScalarField key rl ti = True"
| "field_matches_key (ValueField v) key rl ti =
     (case v of
        VT_Enum enum_name \<Rightarrow>
          (case map_of (rl_enum_by_name rl) enum_name of
             Some idx \<Rightarrow>
               (let def = rl_enums rl ! idx
                in if en_values def = [] then True
                   else if enum_values_contains_ci rl idx key then True
                   else if enum_has_at_constant rl idx then True
                   else enum_is_authoritative def)
           | None \<Rightarrow> supplied_enum_has_key enum_name key rl ti)
      | VT_Int _ _ \<Rightarrow> parse_i64 key \<noteq> None
      | VT_Float _ _ \<Rightarrow> parse_float key \<noteq> None
      | VT_Percent \<Rightarrow> parse_float key \<noteq> None
      | VT_Date \<Rightarrow> is_date_shape key
      | VT_DateTime \<Rightarrow> is_datetime_shape key
      | _ \<Rightarrow> False)"
| "field_matches_key (TypeField tt) key rl ti = type_field_matches_key tt key ti"
| "field_matches_key (MarkerField _) key rl ti = False"
| "field_matches_key _ key rl ti = True"

section \<open>Candidates\<close>

definition get_rule_key :: "rule_type \<Rightarrow> ustr option" where
  "get_rule_key r =
     (case r of
        LeafRule (SpecificField s) _ \<Rightarrow> Some s
      | NodeRule (SpecificField s) _ \<Rightarrow> Some s
      | _ \<Rightarrow> None)"

definition rule_matches_leaf_key :: "rule_type \<Rightarrow> ustr \<Rightarrow> rule_set \<Rightarrow> type_index option \<Rightarrow> bool" where
  "rule_matches_leaf_key r key rl ti =
     (case r of
        LeafRule left _ \<Rightarrow> field_matches_key left key rl ti
      | NodeRule left _ \<Rightarrow> field_matches_key left key rl ti
      | _ \<Rightarrow> False)"

text \<open>\<^verbatim>\<open>name.eq_ignore_ascii_case(key)\<close> for the key of a rule that has one.\<close>

definition key_is :: "ustr \<Rightarrow> rule_type \<Rightarrow> bool" where
  "key_is key r = (case get_rule_key r of Some name \<Rightarrow> eq_ignore_ascii_case name key | None \<Rightarrow> False)"

definition RULE_BODY_INDEX_MIN_RULES :: nat where "RULE_BODY_INDEX_MIN_RULES = 8"

record 'h rule_body_candidate_index =
  ci_specific_by_hash :: "('h \<times> nat list) list"
  ci_non_specific :: "nat list"

definition rule_body_key_hash :: "(ustr \<Rightarrow> 'h) \<Rightarrow> ustr \<Rightarrow> 'h" where
  "rule_body_key_hash h key = h (to_ascii_lowercase key)"

definition index_rule :: "(ustr \<Rightarrow> 'h) \<Rightarrow> nat \<times> new_rule \<Rightarrow> 'h rule_body_candidate_index \<Rightarrow> 'h rule_body_candidate_index" where
  "index_rule h = (\<lambda>(rule_index, rule_type, _) index.
     let specific_key = (case rule_type of
           LeafRule (SpecificField key) _ \<Rightarrow> Some key
         | NodeRule (SpecificField key) _ \<Rightarrow> Some key
         | _ \<Rightarrow> None)
     in case specific_key of
          Some key \<Rightarrow> index\<lparr>ci_specific_by_hash := push_at (rule_body_key_hash h key) rule_index (ci_specific_by_hash index)\<rparr>
        | None \<Rightarrow> index\<lparr>ci_non_specific := ci_non_specific index @ [rule_index]\<rparr>)"

definition RuleBodyCandidateIndex_from_rules :: "(ustr \<Rightarrow> 'h) \<Rightarrow> new_rule list \<Rightarrow> 'h rule_body_candidate_index" where
  "RuleBodyCandidateIndex_from_rules h body =
     fold (index_rule h) (List.enumerate 0 body) \<lparr>ci_specific_by_hash = [], ci_non_specific = []\<rparr>"

definition specific_indices_for_key :: "(ustr \<Rightarrow> 'h) \<Rightarrow> 'h rule_body_candidate_index \<Rightarrow> ustr \<Rightarrow> nat list" where
  "specific_indices_for_key h index key = alist_get [] (ci_specific_by_hash index) (rule_body_key_hash h key)"

definition indexed_matching_candidates ::
  "(ustr \<Rightarrow> 'h) \<Rightarrow> 'h rule_body_candidate_index \<Rightarrow> new_rule list \<Rightarrow> ustr \<Rightarrow> rule_set \<Rightarrow> type_index option \<Rightarrow> new_rule list" where
  "indexed_matching_candidates h index rules key rl ti =
     (let specific = filter (\<lambda>rule. key_is key (fst rule)) (map (nth rules) (specific_indices_for_key h index key))
      in if specific \<noteq> [] then specific
         else filter (\<lambda>rule. rule_matches_leaf_key (fst rule) key rl ti) (map (nth rules) (ci_non_specific index)))"

text \<open>The loop shared by the linear scan and the scan of borrowed rules.\<close>

definition split_candidate :: "ustr \<Rightarrow> new_rule \<Rightarrow> new_rule list \<times> new_rule list \<Rightarrow> new_rule list \<times> new_rule list" where
  "split_candidate key rule = (\<lambda>(specific, fallback).
     case get_rule_key (fst rule) of
       Some name \<Rightarrow> if eq_ignore_ascii_case name key then (specific @ [rule], fallback) else (specific, fallback)
     | None \<Rightarrow> (specific, fallback @ [rule]))"

definition matching_candidates_from_refs :: "new_rule list \<Rightarrow> ustr \<Rightarrow> rule_set \<Rightarrow> type_index option \<Rightarrow> new_rule list" where
  "matching_candidates_from_refs rules key rl ti =
     (let (specific, fallback) = fold (split_candidate key) rules ([], [])
      in if specific \<noteq> [] then specific
         else filter (\<lambda>rule. rule_matches_leaf_key (fst rule) key rl ti) fallback)"

definition matching_candidates :: "(ustr \<Rightarrow> 'h) \<Rightarrow> new_rule list \<Rightarrow> ustr \<Rightarrow> rule_set \<Rightarrow> type_index option \<Rightarrow> new_rule list" where
  "matching_candidates h rules key rl ti =
     (if length rules > RULE_BODY_INDEX_MIN_RULES
      then indexed_matching_candidates h (RuleBodyCandidateIndex_from_rules h rules) rules key rl ti
      else (let (specific, fallback) = fold (split_candidate key) rules ([], [])
            in if specific \<noteq> [] then specific
               else filter (\<lambda>rule. rule_matches_leaf_key (fst rule) key rl ti) fallback))"

section \<open>The candidates of a key\<close>

lemma index_rule_eq:
  "index_rule h (i, rule) index =
     (case get_rule_key (fst rule) of
        Some key \<Rightarrow> index\<lparr>ci_specific_by_hash := push_at (rule_body_key_hash h key) i (ci_specific_by_hash index)\<rparr>
      | None \<Rightarrow> index\<lparr>ci_non_specific := ci_non_specific index @ [i]\<rparr>)"
  by (cases rule) (simp add: index_rule_def get_rule_key_def split: rule_type.split new_field.split)

lemma from_rules_snoc:
  "RuleBodyCandidateIndex_from_rules h (rules @ [r]) = index_rule h (length rules, r) (RuleBodyCandidateIndex_from_rules h rules)"
  by (simp add: RuleBodyCandidateIndex_from_rules_def fold_enumerate_snoc)

lemma from_rules_empty: "RuleBodyCandidateIndex_from_rules h [] = \<lparr>ci_specific_by_hash = [], ci_non_specific = []\<rparr>"
  by (simp add: RuleBodyCandidateIndex_from_rules_def)

lemma from_rules_specific:
  "specific_indices_for_key h (RuleBodyCandidateIndex_from_rules h rules) key =
     where_index (\<lambda>r. map_option (rule_body_key_hash h) (get_rule_key (fst r)) = Some (rule_body_key_hash h key)) rules"
proof (induction rules rule: rev_induct)
  case (snoc r rules)
  then show ?case
    by (cases "get_rule_key (fst r)") (auto simp: specific_indices_for_key_def from_rules_snoc index_rule_eq)
qed (simp add: specific_indices_for_key_def from_rules_empty)

lemma from_rules_non_specific:
  "ci_non_specific (RuleBodyCandidateIndex_from_rules h rules) = where_index (\<lambda>r. get_rule_key (fst r) = None) rules"
proof (induction rules rule: rev_induct)
  case (snoc r rules)
  then show ?case by (cases "get_rule_key (fst r)") (auto simp: from_rules_snoc index_rule_eq)
qed (simp add: from_rules_empty)

lemma map_where_index: "map (nth xs) (where_index P xs) = filter P xs"
  by (simp add: where_index_def map_nth_filter)

lemma split_candidates:
  "fold (split_candidate key) rules (s, f) =
     (s @ filter (\<lambda>r. key_is key (fst r)) rules, f @ filter (\<lambda>r. get_rule_key (fst r) = None) rules)"
  by (induction rules arbitrary: s f) (auto simp: split_candidate_def key_is_def split: option.split)

definition candidates_spec :: "new_rule list \<Rightarrow> ustr \<Rightarrow> rule_set \<Rightarrow> type_index option \<Rightarrow> new_rule list" where
  "candidates_spec rules key rl ti =
     (let specific = filter (\<lambda>r. key_is key (fst r)) rules
      in if specific \<noteq> [] then specific
         else filter (\<lambda>r. get_rule_key (fst r) = None \<and> rule_matches_leaf_key (fst r) key rl ti) rules)"

lemma same_key_same_hash: "key_is key r \<Longrightarrow> map_option (rule_body_key_hash h) (get_rule_key r) = Some (rule_body_key_hash h key)"
  by (auto simp: key_is_def rule_body_key_hash_def eq_ignore_ascii_case_def split: option.splits)

lemma indexed_candidates_spec:
  "indexed_matching_candidates h (RuleBodyCandidateIndex_from_rules h rules) rules key rl ti = candidates_spec rules key rl ti"
proof -
  have specific: "filter (\<lambda>r. key_is key (fst r)) (filter (\<lambda>r. map_option (rule_body_key_hash h) (get_rule_key (fst r)) = Some (rule_body_key_hash h key)) rules)
      = filter (\<lambda>r. key_is key (fst r)) rules"
    unfolding filter_filter by (rule filter_cong) (metis same_key_same_hash)+
  show ?thesis
    unfolding indexed_matching_candidates_def candidates_spec_def from_rules_specific from_rules_non_specific
      map_where_index specific Let_def
    by (simp add: conj_commute)
qed

lemma refs_candidates_spec: "matching_candidates_from_refs rules key rl ti = candidates_spec rules key rl ti"
  by (simp add: matching_candidates_from_refs_def candidates_spec_def split_candidates filter_filter conj_commute)

lemma plain_candidates_spec: "matching_candidates h rules key rl ti = candidates_spec rules key rl ti"
  by (simp add: matching_candidates_def indexed_candidates_spec split_candidates candidates_spec_def filter_filter conj_commute Let_def)

text \<open>
  C15. The candidates of a key in a rule body are the rules with that specific key, up to ASCII case
  and in the order of the body; only where there is none are they the other rules whose left field
  takes the key.  The index by hash used for wide bodies, the linear scan of short ones and the scan of
  borrowed rules agree on this, whatever the hasher.
\<close>

theorem matching_candidates_eq:
  "matching_candidates h rules key rl ti = candidates_spec rules key rl ti
   \<and> matching_candidates_from_refs rules key rl ti = candidates_spec rules key rl ti"
  by (simp add: refs_candidates_spec plain_candidates_spec)

end
