(* ===== verification/Rule_Overloads.thy ===== *)
theory Rule_Overloads
  imports Rule_Matching
begin

text \<open>
  The aliases a key may stand for, \<^verbatim>\<open>alias_overloads_with_confidence\<close> of
  \<^verbatim>\<open>engine/crates/validation/src/rule_core/alias.rs\<close>, and what they are in terms of the aliases a
  configuration declares.
\<close>

section \<open>The lookup\<close>

type_synonym overloads = "(new_rule \<times> bool) list"

definition EQUIVALENT_OVERLOAD_SCAN_CAP :: nat where "EQUIVALENT_OVERLOAD_SCAN_CAP = 32"

text \<open>\<^verbatim>\<open>*existing_confident |= confident\<close> at the first equal rule.\<close>

fun raise_confidence :: "new_rule \<Rightarrow> bool \<Rightarrow> overloads \<Rightarrow> overloads" where
  "raise_confidence rule confident [] = []"
| "raise_confidence rule confident ((existing, c) # os) =
     (if existing = rule then (existing, c \<or> confident) # os else (existing, c) # raise_confidence rule confident os)"

definition push_overload :: "bool \<Rightarrow> new_rule \<Rightarrow> bool \<Rightarrow> overloads \<Rightarrow> overloads" where
  "push_overload coalesce_equivalent rule confident os =
     (if coalesce_equivalent \<and> length os < EQUIVALENT_OVERLOAD_SCAN_CAP \<and> list_ex (\<lambda>(existing, _). existing = rule) os
      then raise_confidence rule confident os
      else os @ [(rule, confident)])"

definition alias_rule :: "rule_set \<Rightarrow> nat \<Rightarrow> new_rule" where
  "alias_rule rl i = snd (rl_aliases rl ! i)"

definition push_exact_aliases :: "bool \<Rightarrow> rule_set \<Rightarrow> ustr \<Rightarrow> ustr \<Rightarrow> overloads \<Rightarrow> overloads" where
  "push_exact_aliases coalesce rl category key os =
     (case Option.bind (map_of (rl_alias_exact rl) category) (\<lambda>m. map_of m key) of
        Some idxs \<Rightarrow> fold (\<lambda>i. push_overload coalesce (alias_rule rl i) True) idxs os
      | None \<Rightarrow> os)"

definition push_pattern :: "bool \<Rightarrow> rule_set \<Rightarrow> type_index option \<Rightarrow> ustr \<Rightarrow> parsed_alias_pattern \<Rightarrow> overloads \<Rightarrow> overloads" where
  "push_pattern coalesce rl ti key pat os =
     (case classify_pattern_match pat key rl ti of
        Confident \<Rightarrow> push_overload coalesce (alias_rule rl (pa_alias_idx pat)) True os
      | PermissiveOnly \<Rightarrow> push_overload coalesce (alias_rule rl (pa_alias_idx pat)) False os
      | No \<Rightarrow> os)"

definition push_category :: "bool \<Rightarrow> rule_set \<Rightarrow> type_index option \<Rightarrow> ustr \<Rightarrow> alias_category_index \<Rightarrow> overloads \<Rightarrow> overloads" where
  "push_category coalesce rl ti key cat os =
     (let os = fold (push_pattern coalesce rl ti key) (patterns_for_key cat key) os
      in case ac_scope_field_idx cat of
           Some sf_idx \<Rightarrow> if is_scope_key key rl ti then push_overload coalesce (alias_rule rl sf_idx) True os else os
         | None \<Rightarrow> os)"

definition alias_overloads_with_confidence ::
  "rule_set \<Rightarrow> type_index option \<Rightarrow> ustr \<Rightarrow> ustr \<Rightarrow> bool \<Rightarrow> overloads" where
  "alias_overloads_with_confidence rl ti category key coalesce =
     (let os = push_exact_aliases coalesce rl category key [];
          os = (if os = [] \<and> list_ex is_ascii_uppercase key
                then push_exact_aliases coalesce rl category (to_ascii_lowercase key) os else os)
      in case map_of (rl_alias_categories rl) category of
           Some cat \<Rightarrow> push_category coalesce rl ti key cat os
         | None \<Rightarrow> os)"

definition alias_overloads :: "rule_set \<Rightarrow> type_index option \<Rightarrow> ustr \<Rightarrow> ustr \<Rightarrow> new_rule list" where
  "alias_overloads rl ti category key = map fst (alias_overloads_with_confidence rl ti category key False)"

section \<open>In terms of the declarations\<close>

definition pattern_overload :: "rule_set \<Rightarrow> type_index option \<Rightarrow> ustr \<Rightarrow> parsed_alias_pattern \<Rightarrow> (new_rule \<times> bool) option" where
  "pattern_overload rl ti key pat =
     (case classify_pattern_match pat key rl ti of
        No \<Rightarrow> None
      | Confident \<Rightarrow> Some (alias_rule rl (pa_alias_idx pat), True)
      | PermissiveOnly \<Rightarrow> Some (alias_rule rl (pa_alias_idx pat), False))"

text \<open>The aliases declared for the exact key, else for the key in lower case.\<close>

definition exact_declared :: "rule_set \<Rightarrow> ustr \<Rightarrow> ustr \<Rightarrow> nat list" where
  "exact_declared rl category key =
     (let exact = where_index (\<lambda>a. declares (fst a) category key) (rl_aliases rl)
      in if exact = [] \<and> list_ex is_ascii_uppercase key
         then where_index (\<lambda>a. declares (fst a) category (to_ascii_lowercase key)) (rl_aliases rl) else exact)"

definition overloads_spec :: "rule_set \<Rightarrow> type_index option \<Rightarrow> ustr \<Rightarrow> ustr \<Rightarrow> overloads" where
  "overloads_spec rl ti category key =
     (let es = category_entries (rl_aliases rl) category; sf = scope_field_entries es
      in map (\<lambda>i. (alias_rule rl i, True)) (exact_declared rl category key)
         @ List.map_filter (pattern_overload (reindex rl) ti key) (List.map_filter pattern_entry es)
         @ (if sf \<noteq> [] \<and> is_scope_key key (reindex rl) ti then [(alias_rule rl (last sf), True)] else []))"

lemma alias_rule_reindex [simp]: "alias_rule (reindex rl) i = alias_rule rl i"
  by (simp add: alias_rule_def)

definition push_overloads :: "bool \<Rightarrow> overloads \<Rightarrow> overloads \<Rightarrow> overloads" where
  "push_overloads coalesce = fold (\<lambda>(r, c). push_overload coalesce r c)"

lemma push_overloads_none [simp]: "push_overloads co [] os = os"
  by (simp add: push_overloads_def)

lemma raise_confidence_Nil [simp]: "raise_confidence r c os = [] \<longleftrightarrow> os = []"
  by (cases os) (auto split: if_splits)

lemma push_overloads_plain: "push_overloads False xs os = os @ xs"
  by (induction xs arbitrary: os) (auto simp: push_overloads_def push_overload_def)

lemma push_overloads_append: "push_overloads co (xs @ ys) os = push_overloads co ys (push_overloads co xs os)"
  by (simp add: push_overloads_def)

lemma fold_push_index: "fold (\<lambda>i. push_overload co (f i) True) is os = push_overloads co (map (\<lambda>i. (f i, True)) is) os"
  by (induction "is" arbitrary: os) (simp_all add: push_overloads_def)

lemma fold_push_pattern:
  "fold (push_pattern co rl ti key) ps os = push_overloads co (List.map_filter (pattern_overload rl ti key) ps) os"
  by (induction ps arbitrary: os)
    (auto simp: push_overloads_def push_pattern_def pattern_overload_def map_filter_simps split: pattern_match.split)

lemma push_exact_eq:
  "push_exact_aliases co rl category key os =
     push_overloads co (map (\<lambda>i. (alias_rule rl i, True)) (exact_of (rl_alias_exact rl) category key)) os"
  by (auto simp: push_exact_aliases_def exact_of_def alist_get_def fold_push_index push_overloads_def split: option.split)

lemma push_overloads_Nil: "push_overloads co xs [] = [] \<longleftrightarrow> xs = []"
proof -
  have "os \<noteq> [] \<Longrightarrow> push_overloads co ys os \<noteq> []" for os and ys
  proof (induction ys arbitrary: os)
    case (Cons y ys)
    have "push_overload co (fst y) (snd y) os \<noteq> []"
      using Cons.prems by (simp add: push_overload_def)
    with Cons.IH show ?case by (simp add: push_overloads_def case_prod_beta)
  qed (simp add: push_overloads_def)
  then show ?thesis by (cases xs) (auto simp: push_overloads_def push_overload_def)
qed

text \<open>The buckets leave out only patterns that do not match.\<close>

lemma dropped_patterns_do_not_match:
  assumes "classify_pattern_match pat key rl ti \<noteq> No"
  shows "pa_prefix pat = [] \<or> first_byte (pa_prefix pat) = first_byte key"
proof -
  from assms have "prefix (pa_prefix pat) key"
    by (simp add: classify_pattern_match_def Let_def split: if_splits)
  then show ?thesis by (cases "pa_prefix pat"; cases key) (auto simp: first_byte_def)
qed

lemma map_filter_filter: "(\<And>x. x \<in> set xs \<Longrightarrow> \<not> P x \<Longrightarrow> f x = None) \<Longrightarrow> List.map_filter f (filter P xs) = List.map_filter f xs"
  by (induction xs) (auto simp: map_filter_simps split: option.split)

lemma patterns_for_key_complete:
  "List.map_filter (pattern_overload rl ti key) (patterns_for_key (fill_buckets cat) key) =
   List.map_filter (pattern_overload rl ti key) (ac_parsed_patterns cat)"
proof -
  have "pattern_overload rl ti key p = None" if "\<not> (pa_prefix p = [] \<or> first_byte (pa_prefix p) = first_byte key)" for p
    using that dropped_patterns_do_not_match [of p key rl ti] by (auto simp: pattern_overload_def split: pattern_match.split)
  then show ?thesis
    by (simp add: patterns_for_key_def fill_buckets_def patterns_for_key_filter) (rule map_filter_filter, blast)
qed

lemma overloads_pushed:
  "alias_overloads_with_confidence (reindex rl) ti category key co = push_overloads co (overloads_spec rl ti category key) []"
proof -
  let ?es = "category_entries (rl_aliases rl) category"
  have exact: "(let os = push_exact_aliases co (reindex rl) category key [];
          os = (if os = [] \<and> list_ex is_ascii_uppercase key
                then push_exact_aliases co (reindex rl) category (to_ascii_lowercase key) os else os) in os)
      = push_overloads co (map (\<lambda>i. (alias_rule rl i, True)) (exact_declared rl category key)) []"
    by (simp add: push_exact_eq reindex_exact_of push_overloads_Nil exact_declared_def Let_def)
  have sf: "ac_scope_field_idx (fill_buckets (category_of ?es)) =
      (if scope_field_entries ?es = [] then None else Some (last (scope_field_entries ?es)))"
    by (simp add: fill_buckets_def category_scope_field)
  have none: "List.map_filter f (List.map_filter pattern_entry ?es) = [] \<and> scope_field_entries ?es = []" if "?es = []" for f
    using that by (simp add: map_filter_simps scope_field_entries_def)
  show ?thesis
    using exact none sf
    by (simp add: alias_overloads_with_confidence_def overloads_spec_def Let_def reindex_category push_overloads_append
        push_category_def fold_push_pattern patterns_for_key_complete category_patterns)
      (simp add: push_overloads_def)
qed

text \<open>
  C14. The overloads of a key in a category are the aliases the configuration declares for it: those
  declared as the key (as spelled, or in lower case, or, where there is none, for the key in lower
  case), then the aliases of the category whose pattern takes the key, in the order of their
  declaration and each with its confidence, then the last \<^verbatim>\<open>scope_field\<close> alias if the key names a
  scope.  The indexes built by \<^verbatim>\<open>reindex\<close>, the buckets of patterns among them, lose none.
\<close>

theorem overloads_declared:
  "alias_overloads_with_confidence (reindex rl) ti category key False = overloads_spec rl ti category key"
  by (simp add: overloads_pushed push_overloads_plain)

section \<open>Coalescing\<close>

definition confident_rules :: "overloads \<Rightarrow> new_rule set" where
  "confident_rules os = {r. (r, True) \<in> set os}"

lemma raise_confidence_map: "map fst (raise_confidence r c os) = map fst os"
  by (induction r c os rule: raise_confidence.induct) auto

lemma raise_confidence_set:
  "r \<in> fst ` set os \<Longrightarrow> (x, True) \<in> set (raise_confidence r c os) \<longleftrightarrow> (x, True) \<in> set os \<or> (c \<and> x = r)"
  by (induction r c os rule: raise_confidence.induct) auto

definition coalesced :: "overloads \<Rightarrow> overloads \<Rightarrow> bool" where
  "coalesced full os \<longleftrightarrow> set (map fst os) = set (map fst full) \<and> confident_rules os = confident_rules full
     \<and> length os \<le> length full \<and> distinct (map fst (take EQUIVALENT_OVERLOAD_SCAN_CAP os))"

lemma list_ex_fst: "list_ex (\<lambda>(e, _). e = r) os \<longleftrightarrow> r \<in> fst ` set os"
  by (induction os) auto

lemma push_overload_coalesced:
  assumes "coalesced full os"
  shows "coalesced (full @ [(r, c)]) (push_overload True r c os)"
proof (cases "length os < EQUIVALENT_OVERLOAD_SCAN_CAP \<and> r \<in> fst ` set os")
  case True
  then have eq: "push_overload True r c os = raise_confidence r c os" by (simp add: push_overload_def list_ex_fst)
  have names: "map fst (raise_confidence r c os) = map fst os" by (rule raise_confidence_map)
  then have len: "length (raise_confidence r c os) = length os" by (metis length_map)
  have "fst ` set (raise_confidence r c os) = fst ` set os" using names by (metis image_set)
  moreover have "confident_rules (raise_confidence r c os) = confident_rules full \<union> (if c then {r} else {})"
    using assms True raise_confidence_set [of r os] by (auto simp: coalesced_def confident_rules_def)
  moreover have "map fst (take n (raise_confidence r c os)) = map fst (take n os)" for n by (metis names take_map)
  moreover have "confident_rules (full @ [(r, c)]) = confident_rules full \<union> (if c then {r} else {})"
    by (auto simp: confident_rules_def)
  moreover have "fst ` set os = fst ` set full" "r \<in> fst ` set full" "length os \<le> length full"
      "distinct (map fst (take EQUIVALENT_OVERLOAD_SCAN_CAP os))"
    using assms True by (simp_all add: coalesced_def)
  ultimately show ?thesis unfolding eq coalesced_def by (simp add: len insert_absorb)
next
  case False
  then have eq: "push_overload True r c os = os @ [(r, c)]" by (auto simp: push_overload_def list_ex_fst)
  have "distinct (map fst (take EQUIVALENT_OVERLOAD_SCAN_CAP (os @ [(r, c)])))"
  proof (cases "length os < EQUIVALENT_OVERLOAD_SCAN_CAP")
    case True
    with False assms show ?thesis by (auto simp: coalesced_def)
  next
    case False
    with assms show ?thesis by (simp add: coalesced_def)
  qed
  with assms show ?thesis unfolding eq coalesced_def by (auto simp: confident_rules_def)
qed

lemma push_overloads_coalesced: "coalesced full os \<Longrightarrow> coalesced (full @ xs) (push_overloads True xs os)"
proof (induction xs arbitrary: full os)
  case (Cons x xs)
  obtain r c where "x = (r, c)" by (cases x)
  with Cons.IH [OF push_overload_coalesced [OF Cons.prems, of r c]] show ?case by (simp add: push_overloads_def)
qed (simp add: push_overloads_def)

text \<open>
  C20. Coalescing equivalent overloads changes neither which rules a key may stand for nor which of them
  are confident matches; it only makes the list shorter, and its first 32 rules are pairwise
  different.
\<close>

theorem coalesced_overloads:
  "coalesced (alias_overloads_with_confidence (reindex rl) ti category key False)
     (alias_overloads_with_confidence (reindex rl) ti category key True)"
  using push_overloads_coalesced [of "[]" "[]" "overloads_spec rl ti category key"]
  by (simp add: overloads_pushed push_overloads_plain coalesced_def confident_rules_def)

section \<open>Alias fields\<close>

text \<open>No list of the table is empty.\<close>

definition lists_nonempty :: "(ustr \<times> (ustr \<times> nat list) list) list \<Rightarrow> bool" where
  "lists_nonempty m \<longleftrightarrow> (\<forall>c inner k is. map_of m c = Some inner \<longrightarrow> map_of inner k = Some is \<longrightarrow> is \<noteq> [])"

lemma lists_nonempty_push: "lists_nonempty m \<Longrightarrow> lists_nonempty (push_exact c k i m)"
  unfolding lists_nonempty_def
proof (intro allI impI)
  fix c' inner k' "is"
  assume ok: "\<forall>c inner k is. map_of m c = Some inner \<longrightarrow> map_of inner k = Some is \<longrightarrow> is \<noteq> []"
    and inner: "map_of (push_exact c k i m) c' = Some inner" and "is": "map_of inner k' = Some is"
  show "is \<noteq> []"
  proof (cases "c' = c \<and> k' \<noteq> k")
    case True
    with inner "is" have "map_of (alist_get [] m c) k' = Some is"
      by (auto simp: push_exact_def update_conv' map_of_push_at)
    with ok show ?thesis by (cases "map_of m c") (auto simp: alist_get_def)
  next
    case False
    with inner "is" ok show ?thesis
      by (cases "c' = c") (auto simp: push_exact_def update_conv' map_of_push_at)
  qed
qed

lemma exact_lists_nonempty: "lists_nonempty (rl_alias_exact (alias_tables as))"
proof (induction as rule: rev_induct)
  case Nil
  show ?case by (simp add: alias_tables_def RuleSet_new_def lists_nonempty_def)
next
  case (snoc a as)
  then show ?case
    by (cases a) (simp add: alias_tables_snoc index_alias_exact index_exact_def Let_def lists_nonempty_push split: option.split prod.split)
qed

lemma alias_exact_has_iff: "alias_exact_has (reindex rl) category key \<longleftrightarrow> exact_of (rl_alias_exact (reindex rl)) category key \<noteq> []"
  using exact_lists_nonempty [of "rl_aliases rl"]
  by (auto simp: alias_exact_has_def exact_of_def alist_get_def reindex_alias_exact lists_nonempty_def split: option.split)

lemma pattern_matches_iff: "parsed_pattern_matches pat key rl ti True \<longleftrightarrow> pattern_overload rl ti key pat \<noteq> None"
  by (auto simp: parsed_pattern_matches_def pattern_overload_def split: pattern_match.split)

lemma map_filter_Nil: "List.map_filter f xs = [] \<longleftrightarrow> \<not> list_ex (\<lambda>x. f x \<noteq> None) xs"
  by (induction xs) (auto simp: map_filter_simps split: option.split)

text \<open>
  C19. A field of an alias category refuses a key exactly when the category declares aliases and none of
  them stands for the key.  So what the matching of a leaf accepts in a declared category, the
  validation of the alias can check, and nothing else is accepted there.
\<close>

theorem alias_field_has_overload:
  "\<not> field_matches_key (AliasField category) key (reindex rl) ti \<longleftrightarrow>
     category_entries (rl_aliases rl) category \<noteq> [] \<and> alias_overloads (reindex rl) ti category key = []"
proof -
  let ?es = "category_entries (rl_aliases rl) category"
  have patterns: "list_ex (\<lambda>pat. parsed_pattern_matches pat key (reindex rl) ti True)
        (patterns_for_key (fill_buckets (category_of ?es)) key) \<longleftrightarrow>
      List.map_filter (pattern_overload (reindex rl) ti key) (List.map_filter pattern_entry ?es) \<noteq> []"
    unfolding category_patterns [symmetric] patterns_for_key_complete [symmetric]
    by (simp add: map_filter_Nil pattern_matches_iff)
  have scope: "ac_scope_field_idx (fill_buckets (category_of ?es)) =
      (if scope_field_entries ?es = [] then None else Some (last (scope_field_entries ?es)))"
    by (simp add: fill_buckets_def category_scope_field)
  show ?thesis
    by (auto simp: alias_field_matches_key_def alias_exact_has_iff reindex_exact_of reindex_category patterns scope
        alias_overloads_def overloads_pushed push_overloads_plain overloads_spec_def exact_declared_def Let_def)
qed

end
