(* ===== verification/Rule_Check.thy ===== *)
theory Rule_Check
  imports Rule_Overloads Loc_Pipeline Suggest
begin

text \<open>
  The checks of the rule validator that look at one leaf or one block without descending:
  \<^verbatim>\<open>engine/crates/validation/src/common.rs\<close>, \<^verbatim>\<open>ctx.rs\<close>, \<^verbatim>\<open>loc_field.rs\<close> and the parts of
  \<^verbatim>\<open>rule_core/leaf.rs\<close> and \<^verbatim>\<open>rule_core/children.rs\<close> that do not recurse.  A function that pushes
  onto \<^verbatim>\<open>errors\<close> returns what it pushes.  Of the context of a run, the inline scripts, the tracking of
  uses and the cancellation flag are absent: the run modelled has none of them.  The rendering of
  floating-point numbers (which is also compared with texts), the derived \<^verbatim>\<open>Debug\<close> texts and the
  catalogue of translated titles are parameters.
\<close>

section \<open>Errors\<close>

record related_span =
  rs_message :: ustr
  rs_line :: nat
  rs_col :: nat
  rs_end :: "nat \<times> nat"

record validation_error =
  ve_message :: ustr
  ve_severity :: error_severity
  ve_line :: nat
  ve_col :: nat
  ve_file :: ustr
  ve_code :: "ustr option"
  ve_fix :: "suggested_fix option"
  ve_end :: "(nat \<times> nat) option"
  ve_related :: "related_span list"

record rendering =
  rd_pipeline :: pipeline_env                             \<comment> \<open>messages of the error codes\<close>
  rd_title :: "ustr \<Rightarrow> ustr list \<Rightarrow> ustr"                     \<comment> \<open>titles of fixes, by key and arguments\<close>
  rd_decimal :: "decimal \<Rightarrow> ustr"                           \<comment> \<open>\<^verbatim>\<open>f64::to_string\<close>\<close>
  rd_bound :: "rat \<Rightarrow> ustr"
  rd_value_type :: "value_type \<Rightarrow> ustr"                     \<comment> \<open>derived \<^verbatim>\<open>Debug\<close>\<close>
  rd_type_type :: "type_type \<Rightarrow> ustr"
  rd_field :: "new_field \<Rightarrow> ustr"
  rd_scopes :: "ustr list \<Rightarrow> ustr"

text \<open>What a run of the validator does not change.\<close>

record vctx =
  vc_render :: rendering
  vc_env :: text_env
  vc_ast :: parsed_file
  vc_rules :: rule_set
  vc_handle :: handle
  vc_table :: string_table
  vc_file_path :: ustr
  vc_game :: "game option"
  vc_type_index :: "type_index option"
  vc_modifier_keys :: "ustr set option"
  vc_loc_index :: "loc_index option"
  vc_extra_loc_keys :: "ustr set option"
  vc_scope_checks :: bool
  vc_var_checks :: bool

definition message_of :: "vctx \<Rightarrow> error_code \<Rightarrow> ustr list \<Rightarrow> ustr" where
  "message_of V code args = ErrorCode_format (rd_pipeline (vc_render V)) code args"

definition from_code_with :: "vctx \<Rightarrow> error_code \<Rightarrow> error_severity \<Rightarrow> nat \<times> nat \<Rightarrow> ustr \<Rightarrow> validation_error" where
  "from_code_with V code sev pos message = \<lparr>ve_message = message, ve_severity = sev, ve_line = fst pos, ve_col = snd pos,
     ve_file = vc_file_path V, ve_code = Some (ec_id code), ve_fix = None, ve_end = None, ve_related = []\<rparr>"

definition from_code :: "vctx \<Rightarrow> error_code \<Rightarrow> nat \<times> nat \<Rightarrow> ustr list \<Rightarrow> validation_error" where
  "from_code V code pos args = from_code_with V code (ec_severity code) pos (message_of V code args)"

definition with_fix :: "suggested_fix \<Rightarrow> validation_error \<Rightarrow> validation_error" where
  "with_fix fix err = err\<lparr>ve_fix := Some fix\<rparr>"

definition line_col :: "source_pos \<Rightarrow> nat \<times> nat" where
  "line_col p = (pos_line p, pos_col p)"

definition with_end :: "source_pos \<Rightarrow> validation_error \<Rightarrow> validation_error" where
  "with_end p err = err\<lparr>ve_end := Some (line_col p)\<rparr>"

definition with_related :: "ustr \<Rightarrow> source_range \<Rightarrow> validation_error \<Rightarrow> validation_error" where
  "with_related message rng err = err\<lparr>ve_related := ve_related err @ [\<lparr>rs_message = message,
     rs_line = pos_line (range_start rng), rs_col = pos_col (range_start rng), rs_end = line_col (range_end rng)\<rparr>]\<rparr>"

definition leaf_start :: "leaf \<Rightarrow> nat \<times> nat" where
  "leaf_start l = line_col (range_start (leaf_pos l))"

definition leaf_end :: "leaf \<Rightarrow> source_pos" where
  "leaf_end l = range_end (leaf_pos l)"

definition plain_code :: "string \<Rightarrow> error_severity \<Rightarrow> string \<Rightarrow> error_code" where
  "plain_code name sev template = \<lparr>ec_id = str name, ec_severity = sev, ec_template = str template\<rparr>"

definition CW100_MISSING_LOCALISATION :: error_code where
  "CW100_MISSING_LOCALISATION = plain_code ''CW100'' SevWarning ''Localisation key {} is not defined for {}''"
definition CW104_INCORRECT_TRIGGER_SCOPE :: error_code where
  "CW104_INCORRECT_TRIGGER_SCOPE = plain_code ''CW104'' SevError ''{} trigger used in incorrect scope. In {} but expected {}''"
definition CW105_INCORRECT_EFFECT_SCOPE :: error_code where
  "CW105_INCORRECT_EFFECT_SCOPE = plain_code ''CW105'' SevError ''{} effect used in incorrect scope. In {} but expected {}''"
definition CW106_INCORRECT_SCOPE_SCOPE :: error_code where
  "CW106_INCORRECT_SCOPE_SCOPE = plain_code ''CW106'' SevError ''{} scope command used in incorrect scope. In {} but expected {}''"
definition CW113_MISSING_FILE :: error_code where
  "CW113_MISSING_FILE = plain_code ''CW113'' SevError ''File {} not found, this is case sensitive''"
definition CW122_LOC_KEY_IN_INLINE :: error_code where
  "CW122_LOC_KEY_IN_INLINE = plain_code ''CW122'' SevInformation
     ''Localisation key {} should not be quoted when used inline, this can cause unexpected behaviour''"
definition CW222_UNDEFINED_EVENT :: error_code where
  "CW222_UNDEFINED_EVENT = plain_code ''CW222'' SevWarning ''The event id {} is not defined''"
definition CW235_ZERO_MODIFIER :: error_code where
  "CW235_ZERO_MODIFIER = \<lparr>ec_id = str ''CW235'', ec_severity = SevWarning,
     ec_template = str ''Modifier {} has value 0. Modifiers are additive so likely doesn'' @ [39] @ str ''t do anything''\<rparr>"
definition CW240_UNEXPECTED_VALUE :: error_code where
  "CW240_UNEXPECTED_VALUE = plain_code ''CW240'' SevError ''{}''"
definition CW242_WRONG_NUMBER :: error_code where
  "CW242_WRONG_NUMBER = plain_code ''CW242'' SevWarning ''{}''"
definition CW243_code :: error_code where
  "CW243_code = plain_code ''CW243'' SevError ''Target \"{}\" has incorrect scope. Is {} but expect {}''"
definition CW244_code :: error_code where
  "CW244_code = plain_code ''CW244'' SevError ''{} is not a target. Expected a target in scope(s) {}''"
definition CW245_code :: error_code where
  "CW245_code = plain_code ''CW245'' SevError ''Error in target. Link {} was used in scope {} but expected {}''"
definition CW246_UNSET_VARIABLE :: error_code where
  "CW246_UNSET_VARIABLE = plain_code ''CW246'' SevWarning ''The variable {} has not been set''"
definition CW247_RULE_WRONG_SCOPE :: error_code where
  "CW247_RULE_WRONG_SCOPE = plain_code ''CW247'' SevError ''Trigger/Effect/Modifier {} used in wrong scope. In {} but expect {}''"
definition CW248_INVALID_SCOPE_COMMAND :: error_code where
  "CW248_INVALID_SCOPE_COMMAND = plain_code ''CW248'' SevError ''Invalid scope command {}''"
definition CW262_UNEXPECTED_PROPERTY_NODE :: error_code where
  "CW262_UNEXPECTED_PROPERTY_NODE = plain_code ''CW262'' SevError ''{}''"
definition CW263_UNEXPECTED_PROPERTY_LEAF :: error_code where
  "CW263_UNEXPECTED_PROPERTY_LEAF = plain_code ''CW263'' SevError ''{}''"
definition CW264_UNEXPECTED_PROPERTY_LEAF_VALUE :: error_code where
  "CW264_UNEXPECTED_PROPERTY_LEAF_VALUE = plain_code ''CW264'' SevWarning ''{}''"
definition CW265_UNEXPECTED_PROPERTY_VALUE_CLAUSE :: error_code where
  "CW265_UNEXPECTED_PROPERTY_VALUE_CLAUSE = plain_code ''CW265'' SevWarning ''{}''"
definition CW267_UNEXPECTED_ALIAS_KEY_VALUE :: error_code where
  "CW267_UNEXPECTED_ALIAS_KEY_VALUE = plain_code ''CW267'' SevError ''Expected a {} value, got {}''"
definition CW270_VARIABLE_TOO_SMALL :: error_code where
  "CW270_VARIABLE_TOO_SMALL = plain_code ''CW270'' SevWarning ''Value too small, only 3 decimal places are supported in this context''"
definition CW271_VARIABLE_INT_ONLY :: error_code where
  "CW271_VARIABLE_INT_ONLY = plain_code ''CW271'' SevWarning ''Expected an integer''"
definition CW272_FROM_RULES_CUSTOM_ERROR :: error_code where
  "CW272_FROM_RULES_CUSTOM_ERROR = plain_code ''CW272'' SevError ''{}''"
definition CW277_ALIAS_BRANCH_LIMIT :: error_code where
  "CW277_ALIAS_BRANCH_LIMIT = plain_code ''CW277'' SevWarning ''Validation stopped after reaching the alias branch limit''"
definition CW282_REDUNDANT_DEFAULT_BOOL :: error_code where
  "CW282_REDUNDANT_DEFAULT_BOOL = plain_code ''CW282'' SevInformation ''This is the default value ({}) and can be omitted''"
definition CW500_TYPE_NOT_FOUND :: error_code where
  "CW500_TYPE_NOT_FOUND = \<lparr>ec_id = str ''CW500'', ec_severity = SevError,
     ec_template = str ''Type '' @ [39] @ str ''{}'' @ [39] @ str '' not found''\<rparr>"

definition severity_to_error :: "severity \<Rightarrow> error_severity" where
  "severity_to_error s = (case s of Error \<Rightarrow> SevError | Warning \<Rightarrow> SevWarning | Information \<Rightarrow> SevInformation | Hint \<Rightarrow> SevHint)"

definition quoted :: "ustr \<Rightarrow> ustr" where
  "quoted s = [39] @ s @ [39]"

section \<open>Texts and values\<close>

definition text_of_token :: "vctx \<Rightarrow> string_tokens \<Rightarrow> ustr option" where
  "text_of_token V t = get_string (vc_handle V) (vc_table V) (tok_normal t)"

definition key_text :: "vctx \<Rightarrow> leaf \<Rightarrow> ustr" where
  "key_text V l = (case text_of_token V (leaf_key l) of Some s \<Rightarrow> s | None \<Rightarrow> [])"

definition key_token_end :: "vctx \<Rightarrow> leaf \<Rightarrow> ustr \<Rightarrow> source_pos" where
  "key_token_end V l key =
     range_end (key_token_range (range_start (leaf_pos l))
       (case text_of_token V (leaf_key l) of Some s \<Rightarrow> length s | None \<Rightarrow> length key))"

text \<open>\<^verbatim>\<open>key_text\<close> as the traversal sees it: without its quotes.\<close>

definition leaf_key_unquoted :: "vctx \<Rightarrow> leaf \<Rightarrow> ustr" where
  "leaf_key_unquoted V l = (case text_of_token V (leaf_key l) of Some s \<Rightarrow> unquote s | None \<Rightarrow> [])"

definition show_int :: "int \<Rightarrow> ustr" where
  "show_int i = (if i < 0 then str ''-'' @ show_nat (nat (- i)) else show_nat (nat i))"

definition leaf_value_to_string :: "vctx \<Rightarrow> pvalue \<Rightarrow> ustr" where
  "leaf_value_to_string V v =
     (case v of
        VString t \<Rightarrow> (case text_of_token V t of Some s \<Rightarrow> s | None \<Rightarrow> [])
      | VQString t \<Rightarrow> (case text_of_token V t of Some s \<Rightarrow> s | None \<Rightarrow> [])
      | VFloat f \<Rightarrow> rd_decimal (vc_render V) f
      | VInt i \<Rightarrow> show_int i
      | VBool b \<Rightarrow> if b then str ''true'' else str ''false''
      | VClause _ \<Rightarrow> str ''{...}'')"

definition value_text :: "pvalue \<Rightarrow> string_tokens option" where
  "value_text v = (case v of VString t \<Rightarrow> Some t | VQString t \<Rightarrow> Some t | _ \<Rightarrow> None)"

text \<open>\<^verbatim>\<open>with_match_text\<close> for a test: false where the token does not resolve.\<close>

definition match_text :: "ustr \<Rightarrow> ustr" where
  "match_text s = (if blen s \<ge> 2 \<and> starts_with s [34] \<and> ends_with s [34] then butlast (tl s) else s)"

definition with_match_text :: "vctx \<Rightarrow> string_tokens \<Rightarrow> (ustr \<Rightarrow> bool) \<Rightarrow> bool" where
  "with_match_text V t f = (case text_of_token V t of Some s \<Rightarrow> f (match_text s) | None \<Rightarrow> False)"

definition with_string :: "vctx \<Rightarrow> string_tokens \<Rightarrow> (ustr \<Rightarrow> bool) \<Rightarrow> bool" where
  "with_string V t f = (case text_of_token V t of Some s \<Rightarrow> f s | None \<Rightarrow> False)"

definition decimal_value :: "decimal \<Rightarrow> rat" where
  "decimal_value d = (if dec_negative d then - scaled (dec_digits d) (- int (dec_scale d)) else scaled (dec_digits d) (- int (dec_scale d)))"

definition in_bounds :: "rat \<Rightarrow> rat \<Rightarrow> rat \<Rightarrow> bool" where
  "in_bounds lo hi v \<longleftrightarrow> lo \<le> v \<and> v \<le> hi"

definition float_in_bounds :: "rat \<Rightarrow> rat \<Rightarrow> float_value \<Rightarrow> bool" where
  "float_in_bounds lo hi f = (case f of Finite v \<Rightarrow> in_bounds lo hi v | _ \<Rightarrow> False)"

text \<open>
  \<^verbatim>\<open>decimal_places\<close>.  An exponent that is not an \<^verbatim>\<open>i64\<close> counts as the least or the greatest one;
  the result saturates at the greatest \<^verbatim>\<open>usize\<close>.
\<close>

definition split_exponent :: "ustr \<Rightarrow> ustr \<times> ustr" where
  "split_exponent s =
     (case dropWhile (\<lambda>c. \<not> is_exponent_mark c) s of
        [] \<Rightarrow> (s, str ''0'')
      | _ # es \<Rightarrow> (takeWhile (\<lambda>c. \<not> is_exponent_mark c) s, es))"

definition decimal_places :: "ustr \<Rightarrow> nat" where
  "decimal_places s =
     (let (mantissa, exp_text) = split_exponent s;
          exponent = (case parse_i64 exp_text of
              Some e \<Rightarrow> e | None \<Rightarrow> if starts_with exp_text (str ''-'') then - (2 ^ 63) else 2 ^ 63 - 1);
          fractional = (case split_once (asc CHR ''.'') mantissa of Some (_, fr) \<Rightarrow> blen fr | None \<Rightarrow> 0);
          digits = filter is_ascii_digit mantissa;
          significant = rev (dropWhile (\<lambda>c. c = asc CHR ''0'') (rev digits))
      in if significant = [] then 0
         else min (2 ^ 64 - 1) (nat (int fractional - int (length digits - length significant) - exponent)))"

definition value_is_zero :: "pvalue \<Rightarrow> bool" where
  "value_is_zero v = (case v of VInt n \<Rightarrow> n = 0 | VFloat f \<Rightarrow> decimal_value f = 0 | _ \<Rightarrow> False)"

definition get_leaf :: "vctx \<Rightarrow> nat \<Rightarrow> leaf option" where
  "get_leaf V i = (let ls = leaves (pf_arena (vc_ast V)) in if i < length ls then Some (ls ! i) else None)"

definition get_leaf_value :: "vctx \<Rightarrow> nat \<Rightarrow> leaf_value option" where
  "get_leaf_value V i = (let ls = leaf_values (pf_arena (vc_ast V)) in if i < length ls then Some (ls ! i) else None)"

text \<open>\<^verbatim>\<open>child_start_pos\<close> and \<^verbatim>\<open>child_key_matches\<close>; the outer \<open>None\<close> is an index out of range.\<close>

definition child_start_pos :: "vctx \<Rightarrow> child \<Rightarrow> (nat \<times> nat) option option" where
  "child_start_pos V c =
     (case c of
        CLeaf i \<Rightarrow> map_option (\<lambda>l. Some (leaf_start l)) (get_leaf V i)
      | CLeafValue i \<Rightarrow> map_option (\<lambda>lv. Some (line_col (range_start (lv_pos lv)))) (get_leaf_value V i)
      | CComment _ \<Rightarrow> Some None)"

definition leaf_has_key :: "vctx \<Rightarrow> ustr \<Rightarrow> leaf \<Rightarrow> bool" where
  "leaf_has_key V key l = with_string V (leaf_key l) (\<lambda>s. eq_ignore_ascii_case (unquote s) (unquote key))"

definition child_key_matches :: "vctx \<Rightarrow> ustr \<Rightarrow> child \<Rightarrow> bool option" where
  "child_key_matches V key c =
     (case c of CLeaf i \<Rightarrow> map_option (leaf_has_key V key) (get_leaf V i) | _ \<Rightarrow> Some False)"

section \<open>Values of fields\<close>

definition is_ascii_hexdigit :: "uchar \<Rightarrow> bool" where
  "is_ascii_hexdigit c \<longleftrightarrow> is_ascii_digit c \<or> (97 \<le> c \<and> c \<le> 102) \<or> (65 \<le> c \<and> c \<le> 70)"

definition value_type_matches :: "vctx \<Rightarrow> value_type \<Rightarrow> pvalue \<Rightarrow> bool" where
  "value_type_matches V vt v =
     (case (vt, value_text v) of
        (VT_Bool, Some t) \<Rightarrow> with_match_text V t (\<lambda>s. eq_ignore_ascii_case s (str ''yes'') \<or> eq_ignore_ascii_case s (str ''no''))
      | (VT_Int lo hi, Some t) \<Rightarrow> with_match_text V t (\<lambda>s. case parse_i64 s of Some n \<Rightarrow> lo \<le> n \<and> n \<le> hi | None \<Rightarrow> False)
      | (VT_Float lo hi, Some t) \<Rightarrow> with_match_text V t (\<lambda>s. case parse_float s of Some f \<Rightarrow> float_in_bounds lo hi f | None \<Rightarrow> False)
      | (VT_Enum name, Some t) \<Rightarrow> with_match_text V t (enum_contains (vc_rules V) name)
      | (VT_Percent, Some t) \<Rightarrow> with_match_text V t (\<lambda>s. ends_with s (str ''%'') \<or> parse_float s \<noteq> None)
      | (VT_Date, Some t) \<Rightarrow> with_match_text V t is_date_shape
      | (VT_DateTime, Some t) \<Rightarrow> with_match_text V t is_datetime_shape
      | (VT_Ck2Dna, Some t) \<Rightarrow> with_match_text V t (\<lambda>s. blen s = 32 \<and> list_all is_ascii_hexdigit s)
      | (VT_Ck2DnaProperty, Some t) \<Rightarrow> with_match_text V t (\<lambda>s. (blen s = 8 \<or> blen s = 32) \<and> list_all is_ascii_hexdigit s)
      | (VT_IrFamilyName, Some t) \<Rightarrow> True
      | (VT_StlNameFormat _, Some t) \<Rightarrow> True
      | (VT_MathExpr, _) \<Rightarrow> True
      | (_, None) \<Rightarrow>
          (case (vt, v) of
             (VT_Bool, VBool _) \<Rightarrow> True
           | (VT_Int lo hi, VInt n) \<Rightarrow> lo \<le> n \<and> n \<le> hi
           | (VT_Float lo hi, VFloat f) \<Rightarrow> in_bounds lo hi (decimal_value f)
           | (VT_Float lo hi, VInt n) \<Rightarrow> in_bounds lo hi (of_int n)
           | (VT_Enum name, VInt n) \<Rightarrow> enum_contains (vc_rules V) name (show_int n)
           | (VT_Enum name, VFloat f) \<Rightarrow> enum_contains (vc_rules V) name (rd_decimal (vc_render V) f)
           | (VT_Percent, VFloat _) \<Rightarrow> True
           | (VT_Percent, VInt _) \<Rightarrow> True
           | _ \<Rightarrow> False))"

definition is_number :: "pvalue \<Rightarrow> bool" where
  "is_number v = (case v of VInt _ \<Rightarrow> True | VFloat _ \<Rightarrow> True | _ \<Rightarrow> False)"

definition is_clause :: "pvalue \<Rightarrow> bool" where
  "is_clause v = (case v of VClause _ \<Rightarrow> True | _ \<Rightarrow> False)"

definition is_dynamic_text :: "ustr \<Rightarrow> bool" where
  "is_dynamic_text s \<longleftrightarrow> starts_with s (str ''@'') \<or> contains_str s (str ''$$'') \<or> starts_with s (str ''['')"

definition field_matches_value :: "vctx \<Rightarrow> new_field \<Rightarrow> pvalue \<Rightarrow> bool" where
  "field_matches_value V field v =
     (if (case value_text v of Some t \<Rightarrow> with_match_text V t is_dynamic_text | None \<Rightarrow> False) then True
      else case field of
        ValueField vt \<Rightarrow> value_type_matches V vt v
      | ScalarField \<Rightarrow> True
      | SpecificField s \<Rightarrow>
          (case v of
             VString t \<Rightarrow> with_string V t (\<lambda>text. eq_ignore_ascii_case (unquote text) s)
           | VQString t \<Rightarrow> with_string V t (\<lambda>text. eq_ignore_ascii_case (unquote text) s)
           | VBool b \<Rightarrow> (s = str ''yes'' \<and> b) \<or> (s = str ''no'' \<and> \<not> b)
           | VInt i \<Rightarrow> s = show_int i
           | VFloat f \<Rightarrow> s = rd_decimal (vc_render V) f
           | VClause _ \<Rightarrow> True)
      | TypeField _ \<Rightarrow> (case value_text v of Some t \<Rightarrow> with_string V t (\<lambda>s. s \<noteq> []) | None \<Rightarrow> is_number v)
      | ScopeField _ \<Rightarrow> (case value_text v of Some t \<Rightarrow> with_string V t (\<lambda>s. s \<noteq> []) | None \<Rightarrow> is_number v)
      | VariableField _ _ lo hi \<Rightarrow>
          (case v of
             VFloat f \<Rightarrow> in_bounds lo hi (decimal_value f)
           | VInt n \<Rightarrow> in_bounds lo hi (of_int n)
           | VBool _ \<Rightarrow> True
           | VClause _ \<Rightarrow> False
           | VString t \<Rightarrow> with_match_text V t (\<lambda>s. case parse_float s of Some f \<Rightarrow> float_in_bounds lo hi f | None \<Rightarrow> True)
           | VQString t \<Rightarrow> with_match_text V t (\<lambda>s. case parse_float s of Some f \<Rightarrow> float_in_bounds lo hi f | None \<Rightarrow> True))
      | LocalisationField _ _ \<Rightarrow> value_text v \<noteq> None \<or> is_clause v
      | FilepathField _ _ \<Rightarrow> value_text v \<noteq> None
      | IconField _ \<Rightarrow> value_text v \<noteq> None
      | VariableGetField _ \<Rightarrow> True
      | VariableSetField _ \<Rightarrow> True
      | ValueScopeField _ _ _ \<Rightarrow> is_number v \<or> value_text v \<noteq> None
      | ValueScopeMarkerField _ _ _ \<Rightarrow> is_number v \<or> value_text v \<noteq> None
      | AliasValueKeysField _ \<Rightarrow> value_text v \<noteq> None
      | AliasField _ \<Rightarrow> is_clause v \<or> value_text v \<noteq> None
      | SingleAliasField _ \<Rightarrow> is_clause v \<or> value_text v \<noteq> None
      | MarkerField _ \<Rightarrow> True
      | IgnoreMarkerField \<Rightarrow> True
      | IgnoreField _ \<Rightarrow> True)"

definition field_to_description :: "vctx \<Rightarrow> new_field \<Rightarrow> ustr" where
  "field_to_description V field =
     (let R = vc_render V in
      case field of
        ValueField vt \<Rightarrow> rd_value_type R vt
      | ScalarField \<Rightarrow> str ''any value''
      | SpecificField s \<Rightarrow> quoted s
      | TypeField tt \<Rightarrow> rd_type_type R tt
      | VariableField _ _ lo hi \<Rightarrow> str ''a number between '' @ rd_bound R lo @ str '' and '' @ rd_bound R hi
      | ScopeField scopes \<Rightarrow> str ''scope '' @ rd_scopes R scopes
      | LocalisationField synced _ \<Rightarrow> str ''localisation (synced='' @ (if synced then str ''true'' else str ''false'') @ str '')''
      | _ \<Rightarrow> str ''unknown field type'')"


section \<open>The state of a run\<close>

definition ALIAS_BRANCH_BUDGET :: nat where "ALIAS_BRANCH_BUDGET = 65536"
definition ALIAS_MEMO_ARM_AFTER :: nat where "ALIAS_MEMO_ARM_AFTER = ALIAS_BRANCH_BUDGET div 2"
definition ALIAS_MEMO_ENTRIES :: nat where "ALIAS_MEMO_ENTRIES = 4096"
definition ALIAS_MEMO_ENTRY_ERRORS :: nat where "ALIAS_MEMO_ENTRY_ERRORS = 128"

record alias_branch_budget =
  ab_remaining :: nat
  ab_exhaustion :: "(source_pos \<times> source_pos option) option"

definition budget_default :: alias_branch_budget where
  "budget_default = \<lparr>ab_remaining = ALIAS_BRANCH_BUDGET, ab_exhaustion = None\<rparr>"

definition budget_reserve :: "nat \<Rightarrow> source_pos \<Rightarrow> source_pos option \<Rightarrow> alias_branch_budget \<Rightarrow> bool \<times> alias_branch_budget" where
  "budget_reserve branches pos e b =
     (if branches \<le> ab_remaining b then (True, b\<lparr>ab_remaining := ab_remaining b - branches\<rparr>)
      else (False, b\<lparr>ab_exhaustion := (case ab_exhaustion b of Some x \<Rightarrow> Some x | None \<Rightarrow> Some (pos, e))\<rparr>))"

definition budget_spent :: "alias_branch_budget \<Rightarrow> nat" where
  "budget_spent b = ALIAS_BRANCH_BUDGET - ab_remaining b"

text \<open>\<^verbatim>\<open>ScopeKey\<close> is a saved context; a memo key is also the place of the leaf and the loop variables.\<close>

record alias_memo_key =
  mk_category :: ustr
  mk_key :: ustr
  mk_span :: source_range
  mk_scope :: "saved_context option"
  mk_loop_vars :: "ustr list"

record vstate =
  vs_scope :: "scope_context option"
  vs_loop_vars :: "ustr list"
  vs_budget :: alias_branch_budget
  vs_memo :: "(alias_memo_key \<times> validation_error list) list"

definition stop_traversal :: "vstate \<Rightarrow> bool" where
  "stop_traversal S \<longleftrightarrow> ab_exhaustion (vs_budget S) \<noteq> None"

definition reserve_alias_branches :: "nat \<Rightarrow> source_pos \<Rightarrow> source_pos option \<Rightarrow> vstate \<Rightarrow> bool \<times> vstate" where
  "reserve_alias_branches branches pos e S =
     (let (accepted, b) = budget_reserve branches pos e (vs_budget S) in (accepted, S\<lparr>vs_budget := b\<rparr>))"

definition alias_memo_key_of :: "ustr \<Rightarrow> ustr \<Rightarrow> leaf \<Rightarrow> vstate \<Rightarrow> alias_memo_key option" where
  "alias_memo_key_of category key l S =
     (if budget_spent (vs_budget S) < ALIAS_MEMO_ARM_AFTER then None
      else Some \<lparr>mk_category = category, mk_key = key, mk_span = leaf_pos l,
                 mk_scope = map_option save_context (vs_scope S), mk_loop_vars = vs_loop_vars S\<rparr>)"

definition alias_memo_store :: "alias_memo_key \<Rightarrow> validation_error list \<Rightarrow> vstate \<Rightarrow> vstate" where
  "alias_memo_store k es S =
     (if length (vs_memo S) \<ge> ALIAS_MEMO_ENTRIES \<or> length es > ALIAS_MEMO_ENTRY_ERRORS then S
      else S\<lparr>vs_memo := AList.update k es (vs_memo S)\<rparr>)"

definition is_loop_var :: "ustr \<Rightarrow> vstate \<Rightarrow> bool" where
  "is_loop_var name S = (var_normalize name \<in> set (vs_loop_vars S))"

text \<open>\<^verbatim>\<open>saved = scope_context.as_ref().map(|sc| sc.save())\<close>, and restoring it.\<close>

definition save_scope :: "vstate \<Rightarrow> saved_context option" where
  "save_scope S = map_option save_context (vs_scope S)"

definition restore_scope :: "saved_context option \<Rightarrow> vstate \<Rightarrow> vstate" where
  "restore_scope saved S =
     (case (saved, vs_scope S) of (Some sv, Some sc) \<Rightarrow> S\<lparr>vs_scope := Some (restore_context sv sc)\<rparr> | _ \<Rightarrow> S)"

definition map_scope :: "(scope_context \<Rightarrow> scope_context) \<Rightarrow> vstate \<Rightarrow> vstate" where
  "map_scope f S = S\<lparr>vs_scope := map_option f (vs_scope S)\<rparr>"

section \<open>Checks of a leaf\<close>

definition strip_quotes :: "ustr \<Rightarrow> ustr" where
  "strip_quotes s = trim_matches (\<lambda>c. c = 34) s"

definition escape_quotes :: "ustr \<Rightarrow> ustr" where
  "escape_quotes s = concat (map (\<lambda>c. if c = backslash \<or> c = 34 then [backslash, c] else [c]) s)"

definition report_unexpected_value :: "vctx \<Rightarrow> leaf \<Rightarrow> new_field \<Rightarrow> validation_error" where
  "report_unexpected_value V l right =
     (let actual = leaf_value_to_string V (leaf_val l);
          err = with_end (leaf_end l) (from_code V CW240_UNEXPECTED_VALUE (leaf_start l)
                  [str ''Field '' @ quoted (key_text V l) @ str '' has value '' @ quoted actual @ str '', expected '' @ field_to_description V right])
      in case right of
           ValueField (VT_Enum enum_name) \<Rightarrow>
             (case Option.bind (map_of (rl_enum_by_name (vc_rules V)) enum_name)
                     (\<lambda>idx. best_suggestion (unquote actual) (en_values (rl_enums (vc_rules V) ! idx))) of
                Some cand \<Rightarrow>
                  with_fix (SuggestedFix_replace (rd_title (vc_render V) (str ''ActionDidYouMean'') [cand]) (leaf_val_pos l)
                    ([34] @ escape_quotes cand @ [34])) err
              | None \<Rightarrow> err)
         | _ \<Rightarrow> err)"

definition is_builtin_variable :: "rule_set \<Rightarrow> ustr \<Rightarrow> bool" where
  "is_builtin_variable rl token = is_builtin_variable_base rl (variable_base token)"

text \<open>\<^verbatim>\<open>v.split(['?', '^']).next().unwrap_or(v).trim()\<close>.\<close>

definition variable_core :: "ustr \<Rightarrow> ustr" where
  "variable_core v = trim (takeWhile (\<lambda>c. c \<noteq> asc CHR ''?'' \<and> c \<noteq> asc CHR ''^'') v)"

text \<open>No index knows the variable and it is neither built in nor bound by a loop.\<close>

definition unset_variable :: "vctx \<Rightarrow> vstate \<Rightarrow> ustr \<Rightarrow> bool" where
  "unset_variable V S core \<longleftrightarrow>
     \<not> is_builtin_variable (vc_rules V) core \<and> \<not> is_loop_var core S
     \<and> (case vc_type_index V of
          Some idx \<Rightarrow> \<not> var_is_empty (tx_var_index idx) \<and> \<not> var_contains (tx_var_index idx) core
        | None \<Rightarrow> False)"

definition check_variable_get :: "vctx \<Rightarrow> vstate \<Rightarrow> ustr \<Rightarrow> ustr \<Rightarrow> nat \<times> nat \<Rightarrow> source_pos \<Rightarrow> validation_error list" where
  "check_variable_get V S namespace raw pos e =
     (if \<not> vc_var_checks V \<or> namespace \<noteq> str ''variable'' then []
      else
        (let v = trim (strip_quotes raw)
         in if v = [] \<or> starts_with v (str ''@'') \<or> starts_with v (str ''['') \<or> asc CHR ''$'' \<in> set v \<or> asc CHR '':'' \<in> set v then []
            else
              (let core = variable_core v
               in if core = [] then []
                  else if unset_variable V S core
                  then [with_end e (from_code V CW246_UNSET_VARIABLE pos [core])]
                  else [])))"

definition texture_sibling_exists :: "ustr \<Rightarrow> file_index \<Rightarrow> bool" where
  "texture_sibling_exists candidate fi =
     (let sibling = (\<lambda>swap. let low = to_ascii_lowercase candidate in take (length low - 4) low @ swap)
      in if ends_with_ci candidate (str ''.dds'') then file_contains (sibling (str ''.tga'')) fi
         else if ends_with_ci candidate (str ''.tga'') then file_contains (sibling (str ''.dds'')) fi
         else False)"

definition type_name_of :: "type_type \<Rightarrow> ustr" where
  "type_name_of tt = (case tt of TypeSimple n \<Rightarrow> n | TypeComplex _ n _ \<Rightarrow> n)"

definition strip_if :: "(ustr \<Rightarrow> ustr \<Rightarrow> ustr option) \<Rightarrow> ustr \<Rightarrow> ustr \<Rightarrow> ustr" where
  "strip_if strip affix v = (if affix = [] then v else case strip affix v of Some w \<Rightarrow> w | None \<Rightarrow> v)"

text \<open>The value looked up and whether it is an instance; with an affix, stripped, as it is or completed.\<close>

definition resolve_type_value :: "type_index \<Rightarrow> type_type \<Rightarrow> ustr \<Rightarrow> ustr \<times> bool" where
  "resolve_type_value idx tt value_str =
     (case tt of
        TypeComplex pre name suf \<Rightarrow>
          (let v = strip_if strip_suffix suf (strip_if strip_prefix pre value_str)
           in (v, type_contains name v idx \<or> type_contains name value_str idx \<or> type_contains name (pre @ value_str @ suf) idx))
      | TypeSimple name \<Rightarrow> (value_str, type_contains name value_str idx))"

definition type_field_errors :: "vctx \<Rightarrow> leaf \<Rightarrow> type_type \<Rightarrow> validation_error list" where
  "type_field_errors V l tt =
     (let value_str = unquote (leaf_value_to_string V (leaf_val l)); type_name = type_name_of tt
      in if value_str = [] then []
         else if starts_with value_str (str ''['') then []
         else case vc_type_index V of
                None \<Rightarrow> []
              | Some idx \<Rightarrow>
                  if \<not> is_subtype_key type_name \<and> tx_complete idx \<and> instances type_name idx \<noteq> [] then
                    (let (lookup_value, resolved) = resolve_type_value idx tt value_str
                     in if resolved then []
                        else
                          (let is_event = (type_name = str ''event'' \<or> starts_with type_name (str ''event.''));
                               (code, message) =
                                 (if is_event then (CW222_UNDEFINED_EVENT, message_of V CW222_UNDEFINED_EVENT [lookup_value])
                                  else (CW500_TYPE_NOT_FOUND, str ''Field '' @ quoted (key_text V l) @ str '' references '' @ quoted lookup_value
                                          @ str '' which is not a known instance of type '' @ quoted type_name))
                           in [with_end (leaf_end l) (from_code_with V code (ec_severity code) (leaf_start l) message)]))
                  else [])"

definition filepath_errors :: "vctx \<Rightarrow> leaf \<Rightarrow> ustr option \<Rightarrow> ustr option \<Rightarrow> validation_error list" where
  "filepath_errors V l pre extension =
     (case vc_type_index V of
        None \<Rightarrow> []
      | Some idx \<Rightarrow>
          (let fi = tx_file_index idx;
               v = trim (strip_quotes (leaf_value_to_string V (leaf_val l)));
               dynamic = (v = [] \<or> asc CHR ''$'' \<in> set v \<or> asc CHR ''['' \<in> set v \<or> asc CHR ''<'' \<in> set v);
               rel_value = (case extension of
                   Some ext \<Rightarrow> if ext \<noteq> [] \<and> \<not> ends_with_ci v ext then v @ ext else v | None \<Rightarrow> v);
               candidate = (case pre of Some p \<Rightarrow> if \<not> starts_with_ci v p then p @ rel_value else rel_value | None \<Rightarrow> rel_value);
               asset_relative = (ends_with_ci (vc_file_path V) (str ''.asset'') \<and> resolve_relative (vc_file_path V) rel_value fi)
           in if file_index_is_empty fi \<or> dynamic then []
              else if \<not> file_contains candidate fi \<and> \<not> texture_sibling_exists candidate fi \<and> \<not> asset_relative then
                (let err = with_end (leaf_end l) (from_code V CW113_MISSING_FILE (leaf_start l) [candidate])
                 in [case on_disk_case candidate fi of
                       Some on_disk \<Rightarrow> with_related (str ''indexed as '' @ on_disk) (leaf_pos l) err
                     | None \<Rightarrow> err])
              else []))"

text \<open>\<^verbatim>\<open>f.fract() != 0.0\<close>: not a whole number; the fraction of an infinity or of no number is no number.\<close>

definition has_fraction :: "float_value \<Rightarrow> bool" where
  "has_fraction f = (case f of Finite v \<Rightarrow> v \<noteq> of_int \<lfloor>v\<rfloor> | _ \<Rightarrow> True)"

definition variable_field_errors :: "vctx \<Rightarrow> vstate \<Rightarrow> leaf \<Rightarrow> bool \<Rightarrow> bool \<Rightarrow> validation_error list" where
  "variable_field_errors V S l is_int is_32bit =
     (let v = trim (strip_quotes (leaf_value_to_string V (leaf_val l)));
          is_bool = ((case leaf_val l of VBool _ \<Rightarrow> True | _ \<Rightarrow> False)
             \<or> eq_ignore_ascii_case v (str ''yes'') \<or> eq_ignore_ascii_case v (str ''no''));
          bypass = (v = [] \<or> starts_with v (str ''@'') \<or> starts_with v (str ''['') \<or> asc CHR ''$'' \<in> set v \<or> is_bool);
          core = variable_core v;
          report = (\<lambda>code args. [with_end (leaf_end l) (from_code V code (leaf_start l) args)])
      in if (case leaf_val l of VInt _ \<Rightarrow> True | _ \<Rightarrow> False) \<or> bypass then []
         else case parse_float core of
                Some f \<Rightarrow>
                  if is_int \<and> has_fraction f then report CW271_VARIABLE_INT_ONLY []
                  else if is_32bit \<and> decimal_places core > 3 then report CW270_VARIABLE_TOO_SMALL []
                  else []
              | None \<Rightarrow>
                  if vc_var_checks V \<and> asc CHR ''.'' \<notin> set core \<and> asc CHR '':'' \<notin> set core
                     \<and> \<not> (case vs_scope S of Some sc \<Rightarrow> resolves_as_scope_key sc core | None \<Rightarrow> False)
                     \<and> unset_variable V S core
                  then report CW246_UNSET_VARIABLE [core] else [])"

subsection \<open>Localisation keys\<close>

definition loc_scope_data_of :: "vctx \<Rightarrow> scope_context option \<Rightarrow> loc_scope_data" where
  "loc_scope_data_of V sc =
     (let ti = vc_type_index V;
          vars = (case ti of Some i \<Rightarrow> if var_is_empty (tx_var_index i) then None else Some (tx_var_index i) | None \<Rightarrow> None);
          has_loc = (case ti of Some i \<Rightarrow> instances (str ''scripted_loc'') i \<noteq> [] \<or> \<not> scripted_loc_is_empty (tx_scripted_loc_index i) | None \<Rightarrow> False);
          has_gui = (case ti of Some i \<Rightarrow> \<not> scripted_loc_is_empty (tx_scripted_gui_index i) | None \<Rightarrow> False)
      in loc_scope_data_default\<lparr>lsd_game := vc_game V,
           lsd_terminal_commands := rl_localisation_commands (vc_rules V),
           lsd_registry := map_option ctx_registry sc,
           lsd_scripted_variables := map_option (\<lambda>v name. is_builtin_variable (vc_rules V) name \<or> var_contains v name) vars,
           lsd_scripted_locs := (if has_loc then Some (\<lambda>name. case ti of Some i \<Rightarrow>
               type_contains (str ''scripted_loc'') name i \<or> scripted_loc_contains (tx_scripted_loc_index i) name | None \<Rightarrow> False) else None),
           lsd_scripted_guis := (if has_gui then Some (\<lambda>name. case ti of Some i \<Rightarrow>
               scripted_gui_contains (tx_scripted_gui_index i) name | None \<Rightarrow> False) else None)\<rparr>)"

definition loc_command_error :: "vctx \<Rightarrow> leaf \<Rightarrow> ustr \<Rightarrow> scope_context option \<Rightarrow> loc_command_diagnostic \<Rightarrow> validation_error" where
  "loc_command_error V l lkey sc diag =
     (let (code, message) = loc_command_parts (rd_pipeline (vc_render V)) diag lkey (map_option ctx_registry sc)
      in with_end (leaf_end l) (from_code_with V code (ec_severity code) (leaf_start l) message))"

definition lower_loc_key :: "vctx \<Rightarrow> ustr \<Rightarrow> ustr" where
  "lower_loc_key V s = (if list_all is_ascii s then to_ascii_lowercase s else env_lowercase (vc_env V) s)"

definition check_loc_key ::
  "vctx \<Rightarrow> leaf \<Rightarrow> ustr \<Rightarrow> bool \<Rightarrow> bool \<Rightarrow> bool \<Rightarrow> scope_context option \<Rightarrow> validation_error list" where
  "check_loc_key V l key_raw was_quoted synced is_inline sc =
     (if key_raw = [] \<or> asc CHR '' '' \<in> set key_raw \<or> (asc CHR ''['' \<in> set key_raw \<and> asc CHR '']'' \<in> set key_raw)
         \<or> asc CHR ''$'' \<in> set key_raw \<or> starts_with key_raw (str ''@'') then []
      else case vc_loc_index V of
        None \<Rightarrow> []
      | Some idx \<Rightarrow>
          (let key_lower = lower_loc_key V key_raw;
               in_overlay = (case vc_extra_loc_keys V of Some e \<Rightarrow> key_lower \<in> e | None \<Rightarrow> False);
               found = exists_any idx key_lower \<or> in_overlay;
               missing = (\<lambda>lang. with_end (leaf_end l) (from_code V CW100_MISSING_LOCALISATION (leaf_start l) [key_raw, lang]));
               unquoted_fix = (\<lambda>err. if is_bare_string_value (vc_env V) key_raw
                   then with_fix (SuggestedFix_replace (rd_title (vc_render V) (str ''ActionRemoveUnnecessaryQuotes'') []) (leaf_val_pos l) key_raw) err
                   else err);
               keys =
                 (if is_inline then
                    (if was_quoted \<and> found
                     then [unquoted_fix (with_end (leaf_end l) (from_code V CW122_LOC_KEY_IN_INLINE (leaf_start l) [key_raw]))]
                     else if \<not> was_quoted \<and> \<not> found then [missing (str ''any language'')] else [])
                  else if synced \<and> \<not> in_overlay then map (\<lambda>lang. missing (lang_display lang)) (missing_synced_languages idx key_lower)
                  else if \<not> found then [missing (str ''any language'')] else []);
               commands =
                 (case (found, lx_entries idx key_lower) of
                    (True, Some entry) \<Rightarrow>
                      map (loc_command_error V l key_raw sc)
                        (validate_loc_commands entry (case sc of Some c \<Rightarrow> current c | None \<Rightarrow> SCOPE_ANY) (loc_scope_data_of V sc))
                  | _ \<Rightarrow> [])
           in keys @ commands))"

definition validate_localisation_field :: "vctx \<Rightarrow> leaf \<Rightarrow> bool \<Rightarrow> bool \<Rightarrow> scope_context option \<Rightarrow> validation_error list" where
  "validate_localisation_field V l synced is_inline sc =
     (if is_clause (leaf_val l) then []
      else check_loc_key V l (strip_quotes (leaf_value_to_string V (leaf_val l)))
             (case leaf_val l of VQString _ \<Rightarrow> True | _ \<Rightarrow> False) synced is_inline sc)"

subsection \<open>Scope targets\<close>

definition scope_error_code_of :: "scope_error_code \<Rightarrow> error_code" where
  "scope_error_code_of c = (case c of CW243_TARGET_WRONG_SCOPE \<Rightarrow> CW243_code | CW244_INVALID_TARGET \<Rightarrow> CW244_code | CW245_ERROR_IN_TARGET \<Rightarrow> CW245_code)"

definition scope_error_of :: "vctx \<Rightarrow> scope_error \<Rightarrow> validation_error" where
  "scope_error_of V e = with_end (se_end e) (from_code V (scope_error_code_of (se_code e)) (line_col (se_start e)) (se_args e))"

end
