(* ===== verification/Rule_Block.thy ===== *)
theory Rule_Block
  imports Rule_Check
begin

text \<open>
  The rules of one block and their cardinalities: \<^verbatim>\<open>BlockRules\<close>, \<^verbatim>\<open>enforce_cardinality\<close> and the
  flattening of nested subtype rules, \<^verbatim>\<open>engine/crates/validation/src/rule_core/children.rs\<close> and
  \<^verbatim>\<open>subtype_merge.rs\<close>.  The hasher of the table of keys is a parameter, as in \<open>Rule_Matching\<close>.
  Counts are natural numbers: the source's \<^verbatim>\<open>i32\<close> does not wrap for files below four gigabytes.
\<close>

section \<open>The rules of a block\<close>

record key_card =
  cd_key :: ustr
  cd_min :: int
  cd_max :: int
  cd_strict_min :: bool
  cd_severity :: error_severity
  cd_count :: nat

record 'h block_rules =
  bk_cards :: "key_card list"
  bk_by_key :: "('h \<times> nat list) list"
  bk_candidate_index :: "'h rule_body_candidate_index option"
  bk_leafvalue :: bool
  bk_valueclause :: bool

definition position_of_key :: "ustr \<Rightarrow> key_card list \<Rightarrow> nat option" where
  "position_of_key key cards = find (\<lambda>i. eq_ignore_ascii_case (cd_key (cards ! i)) key) [0..<length cards]"

definition card_index :: "(ustr \<Rightarrow> 'h) \<Rightarrow> 'h block_rules \<Rightarrow> ustr \<Rightarrow> nat option" where
  "card_index h b key =
     (if bk_by_key b = [] then position_of_key key (bk_cards b)
      else case map_of (bk_by_key b) (rule_body_key_hash h key) of
             None \<Rightarrow> None
           | Some bucket \<Rightarrow>
               find (\<lambda>i. i < length (bk_cards b) \<and> eq_ignore_ascii_case (cd_key (bk_cards b ! i)) key) bucket)"

definition rule_severity :: "options \<Rightarrow> error_severity" where
  "rule_severity opts = (case opt_severity opts of Some s \<Rightarrow> severity_to_error s | None \<Rightarrow> SevWarning)"

definition new_card :: "ustr \<Rightarrow> options \<Rightarrow> key_card" where
  "new_card key opts = \<lparr>cd_key = key, cd_min = opt_min opts, cd_max = opt_max opts,
     cd_strict_min = opt_strict_min opts, cd_severity = rule_severity opts, cd_count = 0\<rparr>"

definition merge_card :: "options \<Rightarrow> key_card \<Rightarrow> key_card" where
  "merge_card opts c = c\<lparr>cd_min := min (cd_min c) (opt_min opts), cd_max := max (cd_max c) (opt_max opts),
     cd_strict_min := cd_strict_min c \<and> opt_strict_min opts\<rparr>"

definition note_shape :: "rule_type \<Rightarrow> 'h block_rules \<Rightarrow> 'h block_rules" where
  "note_shape rule b =
     (case rule of
        LeafValueRule _ \<Rightarrow> b\<lparr>bk_leafvalue := True\<rparr>
      | ValueClauseRule _ \<Rightarrow> b\<lparr>bk_valueclause := True\<rparr>
      | _ \<Rightarrow> b)"

definition add_block_rule :: "(ustr \<Rightarrow> 'h) \<Rightarrow> bool \<Rightarrow> new_rule \<Rightarrow> 'h block_rules \<Rightarrow> 'h block_rules" where
  "add_block_rule h use_map = (\<lambda>(rule_type, opts) b.
     let b = note_shape rule_type b
     in case get_rule_key rule_type of
          None \<Rightarrow> b
        | Some key \<Rightarrow>
            (case card_index h b key of
               Some i \<Rightarrow> b\<lparr>bk_cards := (bk_cards b)[i := merge_card opts (bk_cards b ! i)]\<rparr>
             | None \<Rightarrow>
                 b\<lparr>bk_by_key := (if use_map then push_at (rule_body_key_hash h key) (length (bk_cards b)) (bk_by_key b) else bk_by_key b),
                   bk_cards := bk_cards b @ [new_card key opts]\<rparr>))"

definition BlockRules_of :: "(ustr \<Rightarrow> 'h) \<Rightarrow> new_rule list \<Rightarrow> 'h block_rules" where
  "BlockRules_of h rules =
     (let use_map = length rules > RULE_BODY_INDEX_MIN_RULES
      in fold (add_block_rule h use_map) rules
           \<lparr>bk_cards = [], bk_by_key = [],
            bk_candidate_index = (if use_map then Some (RuleBodyCandidateIndex_from_rules h rules) else None),
            bk_leafvalue = False, bk_valueclause = False\<rparr>)"

definition block_any :: "'h block_rules \<Rightarrow> bool" where
  "block_any b \<longleftrightarrow> bk_cards b \<noteq> [] \<or> bk_leafvalue b \<or> bk_valueclause b"

definition block_matching_candidates ::
  "(ustr \<Rightarrow> 'h) \<Rightarrow> 'h block_rules \<Rightarrow> new_rule list \<Rightarrow> ustr \<Rightarrow> rule_set \<Rightarrow> type_index option \<Rightarrow> new_rule list" where
  "block_matching_candidates h b rules key rl ti =
     (case bk_candidate_index b of
        None \<Rightarrow> matching_candidates h rules key rl ti
      | Some index \<Rightarrow> indexed_matching_candidates h index rules key rl ti)"

text \<open>\<^verbatim>\<open>if any_keyed && let Some(i) = block.card_index(key) { block.cards[i].count += 1 }\<close>.\<close>

definition count_key :: "(ustr \<Rightarrow> 'h) \<Rightarrow> ustr \<Rightarrow> 'h block_rules \<Rightarrow> 'h block_rules" where
  "count_key h key b =
     (if bk_cards b \<noteq> [] then
        (case card_index h b key of
           Some i \<Rightarrow> b\<lparr>bk_cards := (bk_cards b)[i := (bk_cards b ! i)\<lparr>cd_count := cd_count (bk_cards b ! i) + 1\<rparr>]\<rparr>
         | None \<Rightarrow> b)
      else b)"

section \<open>Subtype rules\<close>

fun flatten_nested_subtype_rules :: "new_rule list \<Rightarrow> new_rule list" where
  "flatten_nested_subtype_rules rules =
     concat (map (\<lambda>r. case fst r of SubtypeRule _ _ inner \<Rightarrow> flatten_nested_subtype_rules inner | _ \<Rightarrow> [r]) rules)"

declare flatten_nested_subtype_rules.simps [simp del]

definition is_subtype_rule :: "rule_type \<Rightarrow> bool" where
  "is_subtype_rule r = (case r of SubtypeRule _ _ _ \<Rightarrow> True | _ \<Rightarrow> False)"

definition flat_rules :: "new_rule list \<Rightarrow> new_rule list" where
  "flat_rules rules = (if list_ex (\<lambda>r. is_subtype_rule (fst r)) rules then flatten_nested_subtype_rules rules else rules)"

section \<open>Cardinalities\<close>

text \<open>\<^verbatim>\<open>children.iter().find_map(..)\<close> and \<^verbatim>\<open>find(..)\<close> over fallible tests; the outer \<open>None\<close> is a panic.\<close>

fun find_map_opt :: "('a \<Rightarrow> 'b option option) \<Rightarrow> 'a list \<Rightarrow> 'b option option" where
  "find_map_opt f [] = Some None"
| "find_map_opt f (x # xs) =
     (case f x of None \<Rightarrow> None | Some (Some y) \<Rightarrow> Some (Some y) | Some None \<Rightarrow> find_map_opt f xs)"

fun find_opt :: "('a \<Rightarrow> bool option) \<Rightarrow> 'a list \<Rightarrow> 'a option option" where
  "find_opt f [] = Some None"
| "find_opt f (x # xs) =
     (case f x of None \<Rightarrow> None | Some True \<Rightarrow> Some (Some x) | Some False \<Rightarrow> find_opt f xs)"

definition block_position :: "vctx \<Rightarrow> child list \<Rightarrow> nat \<times> nat \<Rightarrow> (nat \<times> nat) option" where
  "block_position V children pos =
     (if pos \<noteq> (0, 0) then Some pos
      else map_option (\<lambda>found. case found of Some p \<Rightarrow> p | None \<Rightarrow> pos) (find_map_opt (child_start_pos V) children))"

text \<open>The place of the first child with a key, else the block's.\<close>

definition key_position :: "vctx \<Rightarrow> child list \<Rightarrow> ustr \<Rightarrow> nat \<times> nat \<Rightarrow> (nat \<times> nat) option" where
  "key_position V children key pos =
     do { found \<leftarrow> find_opt (child_key_matches V key) children;
          case found of
            None \<Rightarrow> Some pos
          | Some c \<Rightarrow> map_option (\<lambda>p. case p of Some q \<Rightarrow> q | None \<Rightarrow> pos) (child_start_pos V c) }"

definition times_message :: "ustr \<Rightarrow> nat \<Rightarrow> string \<Rightarrow> int \<Rightarrow> ustr" where
  "times_message what c bound n = what @ str '' appears '' @ show_nat c @ str '' time(s), expected at '' @ str bound @ str '' '' @ show_int n"

definition card_errors :: "vctx \<Rightarrow> child list \<Rightarrow> nat \<times> nat \<Rightarrow> key_card \<Rightarrow> validation_error list option" where
  "card_errors V children pos c =
     (let what = str ''Field '' @ quoted (cd_key c);
          few = (if int (cd_count c) < cd_min c \<and> cd_strict_min c
                 then [from_code_with V CW242_WRONG_NUMBER (cd_severity c) pos (times_message what (cd_count c) ''least'' (cd_min c))]
                 else [])
      in if int (cd_count c) > cd_max c then
           map_option (\<lambda>q. few @ [from_code_with V CW242_WRONG_NUMBER (cd_severity c) q (times_message what (cd_count c) ''most'' (cd_max c))])
             (key_position V children (cd_key c) pos)
         else Some few)"

definition count_errors :: "vctx \<Rightarrow> nat \<times> nat \<Rightarrow> options \<Rightarrow> ustr \<Rightarrow> nat \<Rightarrow> validation_error list" where
  "count_errors V pos opts what c =
     (if int c < opt_min opts \<and> opt_strict_min opts
      then [from_code_with V CW242_WRONG_NUMBER (rule_severity opts) pos (times_message what c ''least'' (opt_min opts))] else [])
     @ (if int c > opt_max opts
        then [from_code_with V CW242_WRONG_NUMBER (rule_severity opts) pos (times_message what c ''most'' (opt_max opts))] else [])"

text \<open>
  The counts are kept for every rule of the block, and only in a block with a rule of that shape
  (\<^verbatim>\<open>leafvalue_counts[rule_idx]\<close> is then in range).
\<close>

definition shape_errors :: "vctx \<Rightarrow> nat \<times> nat \<Rightarrow> nat list \<Rightarrow> nat list \<Rightarrow> nat \<times> new_rule \<Rightarrow> validation_error list" where
  "shape_errors V pos leafvalue_counts valueclause_counts = (\<lambda>(i, rule, opts).
     case rule of
       LeafValueRule right \<Rightarrow> count_errors V pos opts (str ''LeafValue '' @ rd_field (vc_render V) right) (leafvalue_counts ! i)
     | ValueClauseRule _ \<Rightarrow> count_errors V pos opts (str ''ValueClause'') (valueclause_counts ! i)
     | _ \<Rightarrow> [])"

fun concat_opt :: "'a list option list \<Rightarrow> 'a list option" where
  "concat_opt [] = Some []"
| "concat_opt (x # xs) = do { a \<leftarrow> x; b \<leftarrow> concat_opt xs; Some (a @ b) }"

definition enforce_cardinality ::
  "vctx \<Rightarrow> child list \<Rightarrow> new_rule list \<Rightarrow> 'h block_rules \<Rightarrow> nat \<times> nat \<Rightarrow> nat list \<Rightarrow> nat list \<Rightarrow> validation_error list option" where
  "enforce_cardinality V children rules b block_pos leafvalue_counts valueclause_counts =
     (if \<not> block_any b then Some []
      else do {
        pos \<leftarrow> block_position V children block_pos;
        keyed \<leftarrow> concat_opt (map (card_errors V children pos) (bk_cards b));
        Some (keyed @ concat (map (shape_errors V pos leafvalue_counts valueclause_counts) (List.enumerate 0 rules))) })"

section \<open>The table of keys\<close>

text \<open>
  The cards of a block, described without hashing: one card for each key up to ASCII case, in the
  order of first occurrence, with the least minimum, the greatest maximum and a strict minimum only if
  all its rules have one.
\<close>

definition keyed_rules :: "new_rule list \<Rightarrow> (ustr \<times> options) list" where
  "keyed_rules rules = List.map_filter (\<lambda>(r, opts). map_option (\<lambda>key. (key, opts)) (get_rule_key r)) rules"

definition add_card :: "ustr \<times> options \<Rightarrow> key_card list \<Rightarrow> key_card list" where
  "add_card = (\<lambda>(key, opts) cards. case position_of_key key cards of
     Some i \<Rightarrow> cards[i := merge_card opts (cards ! i)] | None \<Rightarrow> cards @ [new_card key opts])"

definition cards_spec :: "new_rule list \<Rightarrow> key_card list" where
  "cards_spec rules = fold add_card (keyed_rules rules) []"

definition hashed :: "(ustr \<Rightarrow> 'h) \<Rightarrow> key_card list \<Rightarrow> ('h \<times> nat list) list \<Rightarrow> bool" where
  "hashed h cards m \<longleftrightarrow> (\<forall>x. alist_get [] m x = where_index (\<lambda>c. rule_body_key_hash h (cd_key c) = x) cards)
     \<and> (m = [] \<longrightarrow> cards = [])"

lemma find_filter: "find P xs = find P (filter Q xs)" if "\<And>x. x \<in> set xs \<Longrightarrow> P x \<Longrightarrow> Q x"
  using that by (induction xs) auto

lemma find_cong': "(\<And>x. x \<in> set xs \<Longrightarrow> P x = Q x) \<Longrightarrow> find P xs = find Q xs"
  by (induction xs) auto

lemma same_key_hash: "eq_ignore_ascii_case a b \<Longrightarrow> rule_body_key_hash h a = rule_body_key_hash h b"
  by (simp add: eq_ignore_ascii_case_def rule_body_key_hash_def)

lemma card_index_hashed:
  assumes "hashed h (bk_cards b) (bk_by_key b)"
  shows "card_index h b key = position_of_key key (bk_cards b)"
proof (cases "bk_by_key b = []")
  case False
  let ?x = "rule_body_key_hash h key" and ?cards = "bk_cards b"
  have "position_of_key key ?cards = find (\<lambda>i. eq_ignore_ascii_case (cd_key (?cards ! i)) key) (where_index (\<lambda>c. rule_body_key_hash h (cd_key c) = ?x) ?cards)"
    unfolding position_of_key_def where_index_def by (rule find_filter) (simp add: same_key_hash)
  also have "\<dots> = find (\<lambda>i. i < length ?cards \<and> eq_ignore_ascii_case (cd_key (?cards ! i)) key) (where_index (\<lambda>c. rule_body_key_hash h (cd_key c) = ?x) ?cards)"
    by (rule find_cong') (simp add: set_where_index)
  also have "where_index (\<lambda>c. rule_body_key_hash h (cd_key c) = ?x) ?cards = alist_get [] (bk_by_key b) ?x"
    using assms by (simp add: hashed_def)
  finally show ?thesis
    using False by (simp add: card_index_def alist_get_def split: option.split)
qed (simp add: card_index_def)

lemma position_of_key_SomeD: "position_of_key key cards = Some i \<Longrightarrow> i < length cards \<and> eq_ignore_ascii_case (cd_key (cards ! i)) key"
  by (auto simp: position_of_key_def find_Some_iff)

lemma where_index_map: "where_index P (map f xs) = where_index (P \<circ> f) xs"
  by (auto simp: where_index_def intro: filter_cong)

lemma hashed_keys: "hashed h cards m \<longleftrightarrow>
   (\<forall>x. alist_get [] m x = where_index (\<lambda>k. rule_body_key_hash h k = x) (map cd_key cards)) \<and> (m = [] \<longrightarrow> map cd_key cards = [])"
  by (simp add: hashed_def where_index_map comp_def)

definition block_ok :: "(ustr \<Rightarrow> 'h) \<Rightarrow> bool \<Rightarrow> 'h block_rules \<Rightarrow> bool" where
  "block_ok h use_map b \<longleftrightarrow> (if use_map then hashed h (bk_cards b) (bk_by_key b) else bk_by_key b = [])"

lemma card_index_ok: "block_ok h use_map b \<Longrightarrow> card_index h b key = position_of_key key (bk_cards b)"
  by (cases use_map) (simp_all add: block_ok_def card_index_hashed, simp add: card_index_def)

lemma note_shape_same [simp]:
  "bk_cards (note_shape r b) = bk_cards b" "bk_by_key (note_shape r b) = bk_by_key b"
  "bk_candidate_index (note_shape r b) = bk_candidate_index b"
  by (simp_all add: note_shape_def split: rule_type.split)

lemma block_ok_note [simp]: "block_ok h use_map (note_shape r b) = block_ok h use_map b"
  by (simp add: block_ok_def)

lemma same_keys_ok: "map cd_key cards = map cd_key (bk_cards b) \<Longrightarrow> block_ok h use_map (b\<lparr>bk_cards := cards\<rparr>) = block_ok h use_map b"
  by (simp add: block_ok_def hashed_keys)

lemma list_update_keys: "i < length cs \<Longrightarrow> cd_key c = cd_key (cs ! i) \<Longrightarrow> map cd_key (cs[i := c]) = map cd_key cs"
  by (simp add: map_update list_update_same_conv)

lemma merge_card_key [simp]: "cd_key (merge_card opts c) = cd_key c"
  by (simp add: merge_card_def)

lemma add_block_rule_ok:
  assumes "block_ok h use_map b"
  shows "block_ok h use_map (add_block_rule h use_map r b)
    \<and> bk_cards (add_block_rule h use_map r b) = fold add_card (keyed_rules [r]) (bk_cards b)"
proof -
  obtain rt opts where r: "r = (rt, opts)" by (cases r)
  show ?thesis
  proof (cases "get_rule_key rt")
    case None
    with assms show ?thesis by (simp add: r add_block_rule_def keyed_rules_def map_filter_simps)
  next
    case key: (Some key)
    let ?b = "note_shape rt b"
    have ci: "card_index h ?b key = position_of_key key (bk_cards b)"
      using card_index_ok [of h use_map ?b key] assms by simp
    show ?thesis
    proof (cases "position_of_key key (bk_cards b)")
      case (Some i)
      then have i: "i < length (bk_cards b)" using position_of_key_SomeD by blast
      have keys: "map cd_key ((bk_cards b)[i := merge_card opts (bk_cards b ! i)]) = map cd_key (bk_cards b)"
        by (rule list_update_keys [OF i]) simp
      from same_keys_ok [of "(bk_cards b)[i := merge_card opts (bk_cards b ! i)]" ?b h use_map] keys assms
      show ?thesis by (simp add: r add_block_rule_def key ci Some keyed_rules_def map_filter_simps add_card_def)
    next
      case None
      have "block_ok h use_map (?b\<lparr>bk_by_key := (if use_map then push_at (rule_body_key_hash h key) (length (bk_cards b)) (bk_by_key b) else bk_by_key b),
               bk_cards := bk_cards b @ [new_card key opts]\<rparr>)"
        using assms by (auto simp: block_ok_def hashed_def new_card_def push_at_def update_conv' split: if_splits)
      then show ?thesis by (cases use_map) (simp_all add: r add_block_rule_def Let_def key ci None keyed_rules_def map_filter_simps add_card_def)
    qed
  qed
qed

lemma keyed_rules_append: "keyed_rules (rs @ rs') = keyed_rules rs @ keyed_rules rs'"
  by (simp add: keyed_rules_def List.map_filter_def)

lemma fold_block_rules:
  "block_ok h use_map b \<Longrightarrow> block_ok h use_map (fold (add_block_rule h use_map) rules b)
     \<and> bk_cards (fold (add_block_rule h use_map) rules b) = fold add_card (keyed_rules rules) (bk_cards b)"
proof (induction rules arbitrary: b)
  case (Cons r rules)
  from add_block_rule_ok [OF Cons.prems, of r] Cons.IH [of "add_block_rule h use_map r b"]
  show ?case using keyed_rules_append [of "[r]" rules] by simp
qed (simp add: keyed_rules_def map_filter_simps)

lemma block_ok_start: "block_ok h use_map \<lparr>bk_cards = [], bk_by_key = [], bk_candidate_index = ci, bk_leafvalue = l, bk_valueclause = v\<rparr>"
  by (simp add: block_ok_def hashed_def alist_get_def where_index_def)

lemma BlockRules_ok: "\<exists>use_map. block_ok h use_map (BlockRules_of h rules)"
  and BlockRules_cards: "bk_cards (BlockRules_of h rules) = cards_spec rules"
  using fold_block_rules [OF block_ok_start] unfolding BlockRules_of_def cards_spec_def Let_def by fastforce+

lemma add_block_rule_candidates [simp]: "bk_candidate_index (add_block_rule h use_map r b) = bk_candidate_index b"
  by (cases r) (simp add: add_block_rule_def Let_def split: option.split)

lemma fold_block_candidates [simp]:
  "bk_candidate_index (fold (add_block_rule h use_map) rules b) = bk_candidate_index b"
  by (induction rules arbitrary: b) simp_all

lemma BlockRules_candidates:
  "bk_candidate_index (BlockRules_of h rules)
     = (if length rules > RULE_BODY_INDEX_MIN_RULES then Some (RuleBodyCandidateIndex_from_rules h rules) else None)"
  by (simp add: BlockRules_of_def Let_def)

lemma block_candidates_spec:
  "bk_candidate_index b = bk_candidate_index (BlockRules_of h rules) \<Longrightarrow>
   block_matching_candidates h b rules key rl ti = candidates_spec rules key rl ti"
  by (simp add: block_matching_candidates_def BlockRules_candidates plain_candidates_spec indexed_candidates_spec)

subsection \<open>What a card holds\<close>

fun add_first :: "ustr \<Rightarrow> ustr list \<Rightarrow> ustr list" where
  "add_first k ks = (if list_ex (\<lambda>x. eq_ignore_ascii_case x k) ks then ks else ks @ [k])"

declare add_first.simps [simp del]

definition first_keys :: "new_rule list \<Rightarrow> ustr list" where
  "first_keys rules = fold add_first (map fst (keyed_rules rules)) []"

definition options_of :: "new_rule list \<Rightarrow> ustr \<Rightarrow> options list" where
  "options_of rules k = map snd (filter (\<lambda>(x, _). eq_ignore_ascii_case k x) (keyed_rules rules))"

definition key_card_of :: "new_rule list \<Rightarrow> ustr list \<Rightarrow> ustr \<Rightarrow> key_card" where
  "key_card_of rules ks k =
     (let os = options_of rules k
      in \<lparr>cd_key = k, cd_min = Min (set (map opt_min os)), cd_max = Max (set (map opt_max os)),
          cd_strict_min = list_all opt_strict_min os, cd_severity = rule_severity (hd os),
          cd_count = length (filter (eq_ignore_ascii_case k) ks)\<rparr>)"

lemma eqi: "eq_ignore_ascii_case a b \<longleftrightarrow> to_ascii_lowercase a = to_ascii_lowercase b"
  by (simp add: eq_ignore_ascii_case_def)

lemma keyed_rules_snoc:
  "keyed_rules (rs @ [r]) = keyed_rules rs @ (case get_rule_key (fst r) of Some k \<Rightarrow> [(k, snd r)] | None \<Rightarrow> [])"
  by (cases r) (simp add: keyed_rules_append, simp add: keyed_rules_def map_filter_simps split: option.split)

lemma add_first_distinct: "distinct (map to_ascii_lowercase ks) \<Longrightarrow> distinct (map to_ascii_lowercase (add_first k ks))"
  by (auto simp: add_first.simps list_ex_iff eqi)

lemma first_keys_distinct: "distinct (map to_ascii_lowercase (first_keys rules))"
proof -
  have "distinct (map to_ascii_lowercase ks) \<Longrightarrow> distinct (map to_ascii_lowercase (fold add_first xs ks))" for xs ks
    by (induction xs arbitrary: ks) (simp_all add: add_first_distinct)
  then show ?thesis by (simp add: first_keys_def)
qed

lemma first_keys_keyed: "set (first_keys rules) \<subseteq> fst ` set (keyed_rules rules)"
proof -
  have "set (fold add_first xs ks) \<subseteq> set ks \<union> set xs" for xs ks
    by (induction xs arbitrary: ks) (auto simp: add_first.simps split: if_splits, fastforce)
  from this [of "map fst (keyed_rules rules)" "[]"] show ?thesis by (simp add: first_keys_def)
qed

lemma options_of_first: "k \<in> set (first_keys rules) \<Longrightarrow> options_of rules k \<noteq> []"
  using first_keys_keyed [of rules] by (force simp: options_of_def filter_empty_conv eqi)

lemma position_of_key_map:
  "position_of_key key (map f ks) = find (\<lambda>i. to_ascii_lowercase (ks ! i) = to_ascii_lowercase key) [0..<length ks]"
  if "\<And>k. cd_key (f k) = k"
  unfolding position_of_key_def by (simp add: that eqi) (rule find_cong', simp add: that)

lemma position_None: "find (\<lambda>i. f (ks ! i) = x) [0..<length ks] = None \<longleftrightarrow> x \<notin> f ` set ks"
  by (simp add: find_None_iff image_iff) (metis in_set_conv_nth)

lemma find_position_Some:
  assumes "distinct (map f ks)"
  shows "find (\<lambda>i. f (ks ! i) = x) [0..<length ks] = Some i \<longleftrightarrow> i < length ks \<and> f (ks ! i) = x"
proof
  assume "i < length ks \<and> f (ks ! i) = x"
  then have i: "i < length ks" "f (ks ! i) = x" by auto
  with position_None [of f ks x] obtain j where j: "find (\<lambda>i. f (ks ! i) = x) [0..<length ks] = Some j"
    by fastforce
  then have "j < length ks" "f (ks ! j) = x" by (auto simp: find_Some_iff)
  with i assms have "i = j" by (metis distinct_conv_nth length_map nth_map)
  with j show "find (\<lambda>i. f (ks ! i) = x) [0..<length ks] = Some i" by simp
qed (auto simp: find_Some_iff)

lemma card_of_key [simp]: "cd_key (key_card_of rules ks k) = k"
  by (simp add: key_card_of_def Let_def)

text \<open>Changing the one element at a position of a list without repetitions changes one value of the map.\<close>

lemma map_update_at:
  assumes "distinct (map f ks)" "i < length ks" "g' (ks ! i) = c" "\<And>k. k \<in> set ks \<Longrightarrow> f k \<noteq> f (ks ! i) \<Longrightarrow> g' k = g k"
  shows "(map g ks)[i := c] = map g' ks"
proof (rule nth_equalityI)
  fix j assume "j < length ((map g ks)[i := c])"
  then have j: "j < length ks" by simp
  show "(map g ks)[i := c] ! j = map g' ks ! j"
  proof (cases "j = i")
    case False
    then have "f (ks ! j) \<noteq> f (ks ! i)" using assms(1,2) j by (metis distinct_conv_nth length_map nth_map)
    with False j assms(4) [of "ks ! j"] show ?thesis by simp
  qed (use assms(2,3) in simp)
qed simp

lemma options_of_snoc:
  "options_of (rs @ [r]) k = options_of rs k @ (case get_rule_key (fst r) of
     Some x \<Rightarrow> if to_ascii_lowercase k = to_ascii_lowercase x then [snd r] else [] | None \<Rightarrow> [])"
  by (simp add: options_of_def keyed_rules_snoc eqi split: option.split)

lemma first_keys_snoc:
  "first_keys (rs @ [r]) = (case get_rule_key (fst r) of
     Some x \<Rightarrow> if to_ascii_lowercase x \<in> to_ascii_lowercase ` set (first_keys rs) then first_keys rs else first_keys rs @ [x]
   | None \<Rightarrow> first_keys rs)"
  by (auto simp: first_keys_def keyed_rules_snoc add_first.simps list_ex_iff eqi image_iff split: option.split)

lemma cards_spec_snoc: "cards_spec (rs @ [r]) = (case get_rule_key (fst r) of
    Some k \<Rightarrow> add_card (k, snd r) (cards_spec rs) | None \<Rightarrow> cards_spec rs)"
  by (simp add: cards_spec_def keyed_rules_snoc split: option.split)

lemma options_of_fresh: "to_ascii_lowercase k \<notin> to_ascii_lowercase ` set (first_keys rs) \<Longrightarrow> options_of rs k = []"
proof (induction rs rule: rev_induct)
  case (snoc r rs)
  then show ?case by (auto simp: options_of_snoc first_keys_snoc split: option.splits if_splits)
qed (simp add: options_of_def keyed_rules_def map_filter_simps)

lemma card_of_merge:
  assumes "options_of rs k \<noteq> []" "get_rule_key (fst r) = Some x" "to_ascii_lowercase k = to_ascii_lowercase x"
  shows "key_card_of (rs @ [r]) [] k = merge_card (snd r) (key_card_of rs [] k)"
  using assms by (simp add: key_card_of_def options_of_snoc merge_card_def Let_def min.commute max.commute)

lemma cards_spec_eq: "cards_spec rules = map (key_card_of rules []) (first_keys rules)"
proof (induction rules rule: rev_induct)
  case Nil
  show ?case by (simp add: cards_spec_def first_keys_def keyed_rules_def map_filter_simps)
next
  case (snoc r rs)
  show ?case
  proof (cases "get_rule_key (fst r)")
    case None
    then show ?thesis by (simp add: cards_spec_snoc first_keys_snoc snoc key_card_of_def options_of_snoc)
  next
    case key: (Some x)
    let ?ks = "first_keys rs" and ?f = to_ascii_lowercase
    have other: "?f k \<noteq> ?f x \<Longrightarrow> key_card_of (rs @ [r]) [] k = key_card_of rs [] k" for k
      by (simp add: key_card_of_def options_of_snoc key)
    have pos: "position_of_key x (map (key_card_of rs []) ?ks) = find (\<lambda>i. ?f (?ks ! i) = ?f x) [0..<length ?ks]"
      by (rule position_of_key_map) simp
    show ?thesis
    proof (cases "find (\<lambda>i. ?f (?ks ! i) = ?f x) [0..<length ?ks]")
      case None
      with position_None [of ?f ?ks "?f x"] have fresh: "?f x \<notin> ?f ` set ?ks" by simp
      then have "map (key_card_of (rs @ [r]) []) ?ks = map (key_card_of rs []) ?ks" by (intro map_cong refl other) (metis image_eqI)
      moreover have "key_card_of (rs @ [r]) [] x = new_card x (snd r)"
        using options_of_fresh [OF fresh] by (simp add: key_card_of_def options_of_snoc key new_card_def Let_def)
      ultimately show ?thesis using fresh by (simp add: cards_spec_snoc first_keys_snoc key snoc add_card_def pos None)
    next
      case (Some i)
      with find_position_Some [OF first_keys_distinct] have i: "i < length ?ks" "?f (?ks ! i) = ?f x" by blast+
      then have mem: "?f x \<in> ?f ` set ?ks" by (metis image_eqI nth_mem)
      have "(map (key_card_of rs []) ?ks)[i := merge_card (snd r) (key_card_of rs [] (?ks ! i))] = map (key_card_of (rs @ [r]) []) ?ks"
        by (rule map_update_at [OF first_keys_distinct i(1)])
          (use card_of_merge [OF options_of_first [OF nth_mem [OF i(1)]] key i(2)] other i(2) in auto)
      with i mem show ?thesis by (simp add: cards_spec_snoc first_keys_snoc key snoc add_card_def pos Some)
    qed
  qed
qed

definition counted_block :: "(ustr \<Rightarrow> 'h) \<Rightarrow> new_rule list \<Rightarrow> ustr list \<Rightarrow> 'h block_rules" where
  "counted_block h rules ks = fold (count_key h) ks (BlockRules_of h rules)"

lemma count_key_ok:
  assumes "block_ok h use_map b"
  shows "block_ok h use_map (count_key h k b)"
proof (cases "bk_cards b = [] \<or> card_index h b k = None")
  case False
  then obtain i where i: "card_index h b k = Some i" by auto
  then have "i < length (bk_cards b)" using card_index_ok [OF assms] position_of_key_SomeD by metis
  then have "block_ok h use_map (b\<lparr>bk_cards := (bk_cards b)[i := (bk_cards b ! i)\<lparr>cd_count := cd_count (bk_cards b ! i) + 1\<rparr>]\<rparr>)"
    using assms by (subst same_keys_ok) (simp_all add: list_update_keys)
  with i False show ?thesis by (simp add: count_key_def)
qed (use assms in \<open>auto simp: count_key_def\<close>)

lemma counted_ok: "\<exists>use_map. block_ok h use_map (counted_block h rules ks)"
proof -
  obtain m where "block_ok h m (BlockRules_of h rules)" using BlockRules_ok by blast
  then have "block_ok h m (counted_block h rules ks)"
    unfolding counted_block_def by (induction ks rule: rev_induct) (simp_all add: count_key_ok)
  then show ?thesis ..
qed

lemma count_key_same [simp]:
  "bk_candidate_index (count_key h k b) = bk_candidate_index b"
  "bk_leafvalue (count_key h k b) = bk_leafvalue b" "bk_valueclause (count_key h k b) = bk_valueclause b"
  by (simp_all add: count_key_def split: option.split)

lemma counted_same [simp]:
  "bk_candidate_index (counted_block h rules ks) = bk_candidate_index (BlockRules_of h rules)"
  "bk_leafvalue (counted_block h rules ks) = bk_leafvalue (BlockRules_of h rules)"
  "bk_valueclause (counted_block h rules ks) = bk_valueclause (BlockRules_of h rules)"
  unfolding counted_block_def by (induction ks rule: rev_induct) simp_all

lemma key_card_of_snoc:
  "key_card_of rules (ks @ [k]) x = (if to_ascii_lowercase x = to_ascii_lowercase k
     then (key_card_of rules ks x)\<lparr>cd_count := cd_count (key_card_of rules ks x) + 1\<rparr> else key_card_of rules ks x)"
  by (simp add: key_card_of_def Let_def eqi)

lemma counted_cards: "bk_cards (counted_block h rules ks) = map (key_card_of rules ks) (first_keys rules)"
proof (induction ks rule: rev_induct)
  case Nil
  show ?case by (simp add: counted_block_def BlockRules_cards cards_spec_eq)
next
  case (snoc k ks)
  let ?b = "counted_block h rules ks" and ?f = to_ascii_lowercase and ?fk = "first_keys rules"
  obtain m where ok: "block_ok h m ?b" using counted_ok by blast
  have pos: "card_index h ?b k = find (\<lambda>i. ?f (?fk ! i) = ?f k) [0..<length ?fk]"
    unfolding card_index_ok [OF ok] snoc by (rule position_of_key_map) simp
  have step: "bk_cards (counted_block h rules (ks @ [k])) = bk_cards (count_key h k ?b)" by (simp add: counted_block_def)
  show ?case
  proof (cases "find (\<lambda>i. ?f (?fk ! i) = ?f k) [0..<length ?fk]")
    case None
    with position_None [of ?f ?fk "?f k"] have "?f k \<notin> ?f ` set ?fk" by simp
    then have "map (key_card_of rules (ks @ [k])) ?fk = map (key_card_of rules ks) ?fk"
      by (intro map_cong refl) (simp add: key_card_of_snoc, metis image_eqI)
    then show ?thesis unfolding step by (simp add: count_key_def pos None snoc)
  next
    case (Some i)
    with find_position_Some [OF first_keys_distinct] have i: "i < length ?fk" "?f (?fk ! i) = ?f k" by blast+
    have "(map (key_card_of rules ks) ?fk)[i := (key_card_of rules ks (?fk ! i))\<lparr>cd_count := cd_count (key_card_of rules ks (?fk ! i)) + 1\<rparr>]
        = map (key_card_of rules (ks @ [k])) ?fk"
      by (rule map_update_at [OF first_keys_distinct i(1)]) (use i(2) in \<open>auto simp: key_card_of_snoc\<close>)
    with i show ?thesis unfolding step by (auto simp: count_key_def pos Some snoc)
  qed
qed

text \<open>
  The table of a block has one card for each key of its rules, up to ASCII case and in the order of
  the rules, whatever the hasher and whether the table is scanned or hashed: the least minimum and the
  greatest maximum of the rules of that key, a strict minimum only if all have one, the severity of
  the first, and, after the keys of the children are counted_block, how often that key occurs among them.
  Candidates looked up through the table are those of the specification.
\<close>

theorem block_table_exact:
  "bk_cards (counted_block h rules ks) = map (key_card_of rules ks) (first_keys rules)
   \<and> distinct (map to_ascii_lowercase (first_keys rules))
   \<and> block_matching_candidates h (counted_block h rules ks) rules key rl ti = candidates_spec rules key rl ti"
  by (simp add: counted_cards first_keys_distinct block_candidates_spec)

section \<open>Silence of the cardinality check\<close>

definition within_bounds :: "options \<Rightarrow> nat \<Rightarrow> bool" where
  "within_bounds opts c \<longleftrightarrow> (opt_strict_min opts \<longrightarrow> opt_min opts \<le> int c) \<and> int c \<le> opt_max opts"

definition card_within :: "key_card \<Rightarrow> bool" where
  "card_within c \<longleftrightarrow> (cd_strict_min c \<longrightarrow> cd_min c \<le> int (cd_count c)) \<and> int (cd_count c) \<le> cd_max c"

definition shape_within :: "nat list \<Rightarrow> nat list \<Rightarrow> nat \<times> new_rule \<Rightarrow> bool" where
  "shape_within lvs vcs = (\<lambda>(i, rule, opts). case rule of
     LeafValueRule _ \<Rightarrow> within_bounds opts (lvs ! i) | ValueClauseRule _ \<Rightarrow> within_bounds opts (vcs ! i) | _ \<Rightarrow> True)"

lemma count_errors_Nil: "count_errors V pos opts what c = [] \<longleftrightarrow> within_bounds opts c"
  by (auto simp: count_errors_def within_bounds_def)

lemma shape_errors_Nil: "shape_errors V pos lvs vcs r = [] \<longleftrightarrow> shape_within lvs vcs r"
  by (auto simp: shape_errors_def shape_within_def count_errors_Nil split: prod.split rule_type.split)

lemma card_errors_Nil: "card_errors V children pos c = Some [] \<longleftrightarrow> card_within c"
  by (auto simp: card_errors_def card_within_def Let_def split: if_splits)

lemma concat_opt_Nil: "concat_opt xs = Some [] \<longleftrightarrow> (\<forall>x \<in> set xs. x = Some [])"
proof (induction xs)
  case (Cons x xs)
  then show ?case by (cases x; cases "concat_opt xs") auto
qed simp

definition is_leafvalue :: "new_rule \<Rightarrow> bool" where
  "is_leafvalue r = (case fst r of LeafValueRule _ \<Rightarrow> True | _ \<Rightarrow> False)"

definition is_valueclause :: "new_rule \<Rightarrow> bool" where
  "is_valueclause r = (case fst r of ValueClauseRule _ \<Rightarrow> True | _ \<Rightarrow> False)"

lemma add_block_rule_flags:
  "bk_leafvalue (add_block_rule h m r b) \<longleftrightarrow> bk_leafvalue b \<or> is_leafvalue r"
  "bk_valueclause (add_block_rule h m r b) \<longleftrightarrow> bk_valueclause b \<or> is_valueclause r"
proof -
  have "bk_leafvalue (add_block_rule h m r b) = bk_leafvalue (note_shape (fst r) b)"
    "bk_valueclause (add_block_rule h m r b) = bk_valueclause (note_shape (fst r) b)"
    by (cases r; simp add: add_block_rule_def Let_def split: option.split)+
  then show "bk_leafvalue (add_block_rule h m r b) \<longleftrightarrow> bk_leafvalue b \<or> is_leafvalue r"
    "bk_valueclause (add_block_rule h m r b) \<longleftrightarrow> bk_valueclause b \<or> is_valueclause r"
    by (cases "fst r"; simp add: note_shape_def is_leafvalue_def is_valueclause_def)+
qed

lemma BlockRules_flags:
  "bk_leafvalue (BlockRules_of h rules) = list_ex is_leafvalue rules"
  "bk_valueclause (BlockRules_of h rules) = list_ex is_valueclause rules"
proof -
  have "bk_leafvalue (fold (add_block_rule h m) rules b) = (bk_leafvalue b \<or> list_ex is_leafvalue rules)
      \<and> bk_valueclause (fold (add_block_rule h m) rules b) = (bk_valueclause b \<or> list_ex is_valueclause rules)" for m b
    by (induction rules arbitrary: b) (simp_all add: add_block_rule_flags disj_assoc)
  then show "bk_leafvalue (BlockRules_of h rules) = list_ex is_leafvalue rules"
    "bk_valueclause (BlockRules_of h rules) = list_ex is_valueclause rules"
    by (simp_all add: BlockRules_of_def Let_def)
qed

lemma enumerate_snd: "r \<in> set (List.enumerate n xs) \<Longrightarrow> snd r \<in> set xs"
  by (simp add: in_set_enumerate_eq) (metis less_diff_conv2 nth_mem)

lemma other_shape_within: "\<not> is_leafvalue (snd r) \<Longrightarrow> \<not> is_valueclause (snd r) \<Longrightarrow> shape_within lvs vcs r"
  by (cases r; cases "fst (snd r)"; cases "snd r") (auto simp: shape_within_def is_leafvalue_def is_valueclause_def)

lemma not_any_within:
  assumes "\<not> block_any (counted_block h rules ks)"
  shows "first_keys rules = [] \<and> (\<forall>r \<in> set (List.enumerate n rules). shape_within lvs vcs r)"
proof -
  from assms have "first_keys rules = []" "\<forall>r\<in>set rules. \<not> is_leafvalue r \<and> \<not> is_valueclause r"
    by (auto simp: block_any_def counted_cards BlockRules_flags list_ex_iff)
  then show ?thesis by (blast intro: other_shape_within dest: enumerate_snd)
qed

text \<open>
  C18. The cardinality check of a block whose place is known is silent exactly when every key of its rules
  occurs among the counted_block keys as often as its card allows, and every rule for bare values or clauses
  has a count in its bounds; a minimum that is not strict is never asked for.
\<close>

theorem cardinality_silent_iff:
  assumes "pos \<noteq> (0, 0)"
  shows "enforce_cardinality V children rules (counted_block h rules ks) pos lvs vcs = Some []
    \<longleftrightarrow> (\<forall>k \<in> set (first_keys rules). card_within (key_card_of rules ks k))
       \<and> (\<forall>r \<in> set (List.enumerate 0 rules). shape_within lvs vcs r)"
proof (cases "block_any (counted_block h rules ks)")
  case True
  have "enforce_cardinality V children rules (counted_block h rules ks) pos lvs vcs = Some [] \<longleftrightarrow>
      concat_opt (map (card_errors V children pos) (bk_cards (counted_block h rules ks))) = Some []
      \<and> (\<forall>r \<in> set (List.enumerate 0 rules). shape_errors V pos lvs vcs r = [])"
    using assms True by (cases "concat_opt (map (card_errors V children pos) (bk_cards (counted_block h rules ks)))")
      (auto simp: enforce_cardinality_def block_position_def)
  then show ?thesis by (simp add: concat_opt_Nil card_errors_Nil shape_errors_Nil counted_cards)
qed (use not_any_within [of h rules ks 0] in \<open>simp add: enforce_cardinality_def\<close>)

definition sample_rules :: "new_rule list" where
  "sample_rules = [(LeafRule (SpecificField (str ''a'')) ScalarField, options_default\<lparr>opt_min := 1, opt_max := 1\<rparr>)]"

theorem cardinality_silent_iff_witness:
  "\<forall>V. enforce_cardinality V [] sample_rules (counted_block (\<lambda>x. x) sample_rules [str ''A'']) (1, 0) [] [] = Some []
     \<and> enforce_cardinality V [] sample_rules (counted_block (\<lambda>x. x) sample_rules []) (1, 0) [] [] \<noteq> Some []"
  by (simp add: cardinality_silent_iff)
    (simp add: sample_rules_def first_keys_def keyed_rules_def map_filter_simps get_rule_key_def add_first.simps card_within_def
      key_card_of_def Let_def options_of_def shape_within_def options_default_def eqi ascii_lower_def is_ascii_uppercase_def)

end
