(* ===== verification/Rule_Validate.thy ===== *)
theory Rule_Validate
  imports Rule_Block "HOL-Library.List_Lexorder"
begin

text \<open>
  The traversal of the rule validator: \<^verbatim>\<open>validate_children\<close>, \<^verbatim>\<open>validate_leaf\<close>,
  \<^verbatim>\<open>validate_alias_usage\<close> and what they call,
  \<^verbatim>\<open>engine/crates/validation/src/rule_core/children.rs\<close>, \<^verbatim>\<open>leaf.rs\<close> and \<^verbatim>\<open>alias.rs\<close>.
  The recursion goes through \<^verbatim>\<open>validate_children\<close> on the children of a clause and through
  \<^verbatim>\<open>validate_alias_usage\<close>: the functions take the two as parameters \<open>rec\<close> and \<open>usage\<close>, and
  \<open>validate_children\<close> closes the knot with a bound on the nesting.  A result is the errors pushed and
  the state after, or \<open>None\<close> where the source panics or the bound is reached.
\<close>

type_synonym outcome = "(validation_error list \<times> vstate) option"

type_synonym recurse = "child list \<Rightarrow> new_rule list \<Rightarrow> nat \<times> nat \<Rightarrow> vstate \<Rightarrow> outcome"

type_synonym alias_usage = "ustr \<Rightarrow> ustr \<Rightarrow> leaf \<Rightarrow> vstate \<Rightarrow> outcome"

definition instance_names :: "vctx \<Rightarrow> ustr list option" where
  "instance_names V = map_option (\<lambda>idx. map fst (tx_name_counts idx)) (vc_type_index V)"

lemma is_any_instance_names: "is_any_instance (map fst (tx_name_counts idx)) name = index_is_any_instance name idx"
proof -
  have "\<not> list_ex is_ascii_uppercase name \<Longrightarrow> to_ascii_lowercase name = name"
    by (induction name) (auto simp: ascii_lower_def)
  then show ?thesis
    unfolding is_any_instance_def index_is_any_instance_def ascii_lowercase_if_needed_eq map_of_eq_None_iff by simp
qed

text \<open>\<^verbatim>\<open>enter_block_scope\<close> where the run has a scope context.\<close>

definition enter_scope :: "vctx \<Rightarrow> ustr \<Rightarrow> options \<Rightarrow> bool \<Rightarrow> vstate \<Rightarrow> vstate" where
  "enter_scope V key opts numeric_state_ok =
     map_scope (enter_block_scope key (rule_options.truncate opts) (vc_game V) numeric_state_ok (instance_names V))"

section \<open>Math clauses\<close>

definition rule_right_is_math_expr :: "rule_type \<Rightarrow> bool" where
  "rule_right_is_math_expr r = (case r of LeafRule _ (ValueField VT_MathExpr) \<Rightarrow> True | _ \<Rightarrow> False)"

definition math_clause_rules :: "new_rule list" where
  "math_clause_rules =
     (let many = options_default\<lparr>opt_min := 0, opt_max := 2 ^ 31 - 1\<rparr>
      in [(LeafRule (SpecificField (str ''value'')) (ValueField VT_MathExpr), many),
          (LeafRule (SpecificField (str ''tooltip'')) ScalarField, many),
          (LeafRule (AliasField (str ''mathexpr'')) (AliasField (str ''mathexpr'')), many)])"

definition validate_math_clause :: "recurse \<Rightarrow> child list \<Rightarrow> nat \<times> nat \<Rightarrow> vstate \<Rightarrow> outcome" where
  "validate_math_clause rec children pos S = rec children math_clause_rules pos S"

section \<open>A leaf and a rule\<close>

text \<open>The end of \<^verbatim>\<open>validate_leaf\<close>: a scope target is checked first, on the live context.\<close>

definition scope_target_errors :: "vctx \<Rightarrow> leaf \<Rightarrow> new_field \<Rightarrow> vstate \<Rightarrow> validation_error list \<times> vstate" where
  "scope_target_errors V l right S =
     (case (right, vs_scope S) of
        (ScopeField expected, Some sc) \<Rightarrow>
          (if vc_scope_checks V then
             (let (errors, sc1) = validate_scope_target (leaf_value_to_string V (leaf_val l)) expected l [] sc
              in (map (scope_error_of V) errors, S\<lparr>vs_scope := Some sc1\<rparr>))
           else ([], S))
      | _ \<Rightarrow> ([], S))"

definition unexpected_value :: "vctx \<Rightarrow> leaf \<Rightarrow> new_field \<Rightarrow> validation_error list" where
  "unexpected_value V l right = (if field_matches_value V right (leaf_val l) then [] else [report_unexpected_value V l right])"

definition validate_leaf :: "vctx \<Rightarrow> recurse \<Rightarrow> leaf \<Rightarrow> rule_type \<Rightarrow> vstate \<Rightarrow> outcome" where
  "validate_leaf V rec l rule S =
     (case rule of
        LeafRule _ right \<Rightarrow>
          (if right = ValueField VT_MathExpr then
             (case leaf_val l of
                VClause children \<Rightarrow>
                  map_option (\<lambda>(es, S1). (es, restore_scope (save_scope S) S1))
                    (validate_math_clause rec children (leaf_start l) S)
              | _ \<Rightarrow> Some ([], S))
           else case right of
             LocalisationField synced is_inline \<Rightarrow> Some (validate_localisation_field V l synced is_inline (vs_scope S), S)
           | TypeField tt \<Rightarrow> Some (type_field_errors V l tt, S)
           | FilepathField pre extension \<Rightarrow> Some (filepath_errors V l pre extension, S)
           | VariableField is_int is_32bit _ _ \<Rightarrow>
               Some (variable_field_errors V S l is_int is_32bit
                     @ (if is_clause (leaf_val l) then [] else unexpected_value V l right), S)
           | VariableGetField ns \<Rightarrow>
               Some (check_variable_get V S ns (leaf_value_to_string V (leaf_val l)) (leaf_start l) (leaf_end l), S)
           | _ \<Rightarrow>
               (let (errors, S1) = scope_target_errors V l right S in Some (errors @ unexpected_value V l right, S1)))
      | _ \<Rightarrow> Some ([], S))"

definition rule_left_is_ignore :: "rule_type \<Rightarrow> bool" where
  "rule_left_is_ignore r = (case r of LeafRule (IgnoreField _) _ \<Rightarrow> True | NodeRule (IgnoreField _) _ \<Rightarrow> True | _ \<Rightarrow> False)"

definition wrong_scope_errors :: "vctx \<Rightarrow> leaf \<Rightarrow> ustr \<Rightarrow> options \<Rightarrow> vstate \<Rightarrow> validation_error list" where
  "wrong_scope_errors V l key opts S =
     (case vs_scope S of
        None \<Rightarrow> []
      | Some sc \<Rightarrow>
          if opt_required_scopes opts \<noteq> [] \<and> \<not> scope_matches_required (current sc) (ctx_registry sc) (opt_required_scopes opts)
          then [with_end (key_token_end V l key) (from_code V CW247_RULE_WRONG_SCOPE (leaf_start l)
                  [key, name_of (ctx_registry sc) (current sc), join (str '' or '') (opt_required_scopes opts)])]
          else [])"

definition default_bool_errors :: "vctx \<Rightarrow> leaf \<Rightarrow> options \<Rightarrow> validation_error list" where
  "default_bool_errors V l opts =
     (case opt_default_bool opts of
        None \<Rightarrow> []
      | Some dflt \<Rightarrow>
          (let v = trim (strip_quotes (leaf_value_to_string V (leaf_val l)));
               is_default =
                 (if eq_ignore_ascii_case v (str ''yes'') \<or> eq_ignore_ascii_case v (str ''true'') then dflt
                  else if eq_ignore_ascii_case v (str ''no'') \<or> eq_ignore_ascii_case v (str ''false'') then \<not> dflt
                  else False)
           in if is_default
              then [with_end (leaf_end l) (with_fix (SuggestedFix_delete (rd_title (vc_render V) (str ''ActionRemoveRedundantDefault'') []) (leaf_pos l))
                     (from_code V CW282_REDUNDANT_DEFAULT_BOOL (leaf_start l) [v]))]
              else []))"

definition expected_value_error :: "vctx \<Rightarrow> ustr \<Rightarrow> leaf \<Rightarrow> ustr \<Rightarrow> validation_error" where
  "expected_value_error V what l key = with_end (key_token_end V l key)
     (from_code V CW267_UNEXPECTED_ALIAS_KEY_VALUE (leaf_start l) [what, leaf_value_to_string V (leaf_val l)])"

text \<open>The category of a rule whose left field is an alias.\<close>

definition aliased_category :: "rule_type \<Rightarrow> ustr option" where
  "aliased_category r =
     (case r of LeafRule (AliasField category) _ \<Rightarrow> Some category | NodeRule (AliasField category) _ \<Rightarrow> Some category | _ \<Rightarrow> None)"

definition validate_leaf_against_rule ::
  "vctx \<Rightarrow> alias_usage \<Rightarrow> recurse \<Rightarrow> leaf \<Rightarrow> ustr \<Rightarrow> rule_type \<Rightarrow> options \<Rightarrow> vstate \<Rightarrow> outcome" where
  "validate_leaf_against_rule V usage rec l key rule opts S =
     (if stop_traversal S then Some ([], S)
      else if rule_left_is_ignore rule then Some ([], S)
      else
        map_option (\<lambda>(es, S1). (wrong_scope_errors V l key opts S @ es, S1))
          (case aliased_category rule of
             Some category \<Rightarrow> usage category key l S
           | None \<Rightarrow>
               (case rule of
                  LeafRule _ _ \<Rightarrow> map_option (\<lambda>(es, S1). (es @ default_bool_errors V l opts, S1)) (validate_leaf V rec l rule S)
                | NodeRule _ inner_rules \<Rightarrow>
                    (case leaf_val l of
                       VClause children \<Rightarrow>
                         map_option (\<lambda>(es, S1). (es, restore_scope (save_scope S) S1))
                           (rec children inner_rules (leaf_start l) (enter_scope V key opts False S))
                     | _ \<Rightarrow> Some ([expected_value_error V key l key], S))
                | _ \<Rightarrow> Some ([], S))))"

section \<open>Choice of a candidate\<close>

definition shorter :: "validation_error list option \<Rightarrow> validation_error list \<Rightarrow> validation_error list option" where
  "shorter best temp = (case best of Some b \<Rightarrow> if length b \<le> length temp then Some b else Some temp | None \<Rightarrow> Some temp)"

definition verdict :: "validation_error list option \<Rightarrow> validation_error option \<Rightarrow> validation_error list" where
  "verdict best only_match = (case only_match of Some custom \<Rightarrow> [custom] | None \<Rightarrow> (case best of Some b \<Rightarrow> b | None \<Rightarrow> []))"

text \<open>
  The loop of \<^verbatim>\<open>pick_best_candidate\<close> and of the overloads of an alias.  The first looks at the
  traversal's stop before and after each candidate, the second does not: \<open>stop\<close>.
\<close>

fun pick_loop ::
  "(vstate \<Rightarrow> bool) \<Rightarrow> ('c \<Rightarrow> vstate \<Rightarrow> outcome) \<Rightarrow> ('c \<Rightarrow> validation_error option) \<Rightarrow> 'c list
   \<Rightarrow> validation_error list option \<Rightarrow> validation_error option \<Rightarrow> vstate \<Rightarrow> outcome" where
  "pick_loop stop validate_one only_match_error [] best only_match S = Some (verdict best only_match, S)"
| "pick_loop stop validate_one only_match_error (c # cs) best only_match S =
     (if stop S then Some ([], S)
      else case validate_one c S of
        None \<Rightarrow> None
      | Some (temp, S1) \<Rightarrow>
          if stop S1 then Some ([], S1)
          else if temp = [] then
            (case only_match_error c of
               Some custom \<Rightarrow>
                 pick_loop stop validate_one only_match_error cs best
                   (case only_match of Some x \<Rightarrow> Some x | None \<Rightarrow> Some custom) S1
             | None \<Rightarrow> Some ([], S1))
          else pick_loop stop validate_one only_match_error cs (shorter best temp) only_match S1)"

definition only_match_error :: "vctx \<Rightarrow> leaf \<Rightarrow> ustr \<Rightarrow> options \<Rightarrow> validation_error option" where
  "only_match_error V l key opts =
     map_option (\<lambda>msg. with_end (key_token_end V l key)
         (from_code_with V CW272_FROM_RULES_CUSTOM_ERROR
           (case opt_severity opts of Some s \<Rightarrow> severity_to_error s | None \<Rightarrow> SevError) (leaf_start l) msg))
       (opt_error_if_only_match opts)"

section \<open>Aliases\<close>

definition loop_var_default :: "ustr \<Rightarrow> ustr option" where
  "loop_var_default key =
     (if key = str ''value'' then Some (str ''v'') else if key = str ''index'' then Some (str ''i'')
      else if key = str ''break'' then Some (str ''break'') else None)"

definition loop_vars_named :: "vctx \<Rightarrow> ustr \<Rightarrow> child \<Rightarrow> ustr list option" where
  "loop_vars_named V key child =
     (case child of
        CLeaf i \<Rightarrow>
          map_option (\<lambda>l. let norm = var_normalize (leaf_value_to_string V (leaf_val l))
              in if with_string V (leaf_key l) (\<lambda>s. eq_ignore_ascii_case (unquote s) key) \<and> norm \<noteq> [] then [norm] else [])
            (get_leaf V i)
      | _ \<Rightarrow> Some [])"

definition collect_loop_vars :: "vctx \<Rightarrow> new_rule list \<Rightarrow> child list \<Rightarrow> ustr list option" where
  "collect_loop_vars V alias_inner children =
     concat_opt (map (\<lambda>(rule, _). case rule of
         LeafRule (SpecificField key) (VariableSetField _) \<Rightarrow>
           (case loop_var_default key of
              Some dflt \<Rightarrow> map_option ((#) (var_normalize dflt)) (concat_opt (map (loop_vars_named V key) children))
            | None \<Rightarrow> Some [])
       | _ \<Rightarrow> Some []) alias_inner)"

text \<open>A dotted key is tried as a scope command; the context is put back.\<close>

definition scope_command_errors :: "vctx \<Rightarrow> leaf \<Rightarrow> ustr \<Rightarrow> vstate \<Rightarrow> validation_error list \<times> vstate" where
  "scope_command_errors V l key S =
     (case vs_scope S of
        None \<Rightarrow> ([], S)
      | Some sc \<Rightarrow>
          if vc_scope_checks V \<and> asc CHR ''.'' \<in> set key \<and> \<not> looks_like_data_ref key \<and> \<not> registry_is_empty (ctx_registry sc) then
            (let (result, sc1) = change_scope key sc;
                 S1 = S\<lparr>vs_scope := Some (restore_context (save_context sc) sc1)\<rparr>
             in (if result = NotFound
                 then [with_end (key_token_end V l key) (from_code V CW248_INVALID_SCOPE_COMMAND (leaf_start l) [key])] else [], S1))
          else ([], S))"

definition alias_scope_code :: "ustr \<Rightarrow> error_code" where
  "alias_scope_code category =
     (if category = str ''trigger'' then CW104_INCORRECT_TRIGGER_SCOPE
      else if category = str ''effect'' then CW105_INCORRECT_EFFECT_SCOPE
      else CW106_INCORRECT_SCOPE_SCOPE)"

definition alias_scope_errors :: "vctx \<Rightarrow> ustr \<Rightarrow> ustr \<Rightarrow> leaf \<Rightarrow> overloads \<Rightarrow> vstate \<Rightarrow> validation_error list" where
  "alias_scope_errors V category key l overloads S =
     (case vs_scope S of
        None \<Rightarrow> []
      | Some sc \<Rightarrow>
          (let reg = ctx_registry sc;
               confident = filter snd overloads
           in if vc_scope_checks V \<and> category \<noteq> str ''modifier'' \<and> confident \<noteq> []
                \<and> \<not> list_ex (\<lambda>((_, opts), _). scope_matches_required (current sc) reg (opt_required_scopes opts)) confident
              then [with_end (key_token_end V l key) (from_code V (alias_scope_code category) (leaf_start l)
                     [key, name_of reg (current sc),
                      join (str '' or '') (remdups_adj (sort (concat (map (\<lambda>((_, opts), _). opt_required_scopes opts) confident))))])]
              else []))"

text \<open>One overload; a rule that is neither of a leaf nor of a node is passed over.\<close>

definition validate_overload :: "vctx \<Rightarrow> recurse \<Rightarrow> ustr \<Rightarrow> ustr \<Rightarrow> leaf \<Rightarrow> new_rule \<Rightarrow> vstate \<Rightarrow> outcome" where
  "validate_overload V rec category key l = (\<lambda>(rule, opts) S.
     case rule of
       NodeRule _ alias_inner \<Rightarrow>
         (case leaf_val l of
            VClause children \<Rightarrow>
              (let S1 = enter_scope V key opts True S
               in case collect_loop_vars V alias_inner children of
                    None \<Rightarrow> None
                  | Some seeded \<Rightarrow>
                      map_option (\<lambda>(es, S2). (es, restore_scope (save_scope S)
                          (S2\<lparr>vs_loop_vars := take (length (vs_loop_vars S)) (vs_loop_vars S2)\<rparr>)))
                        (rec children alias_inner (leaf_start l) (S1\<lparr>vs_loop_vars := vs_loop_vars S1 @ seeded\<rparr>)))
          | _ \<Rightarrow> Some ([expected_value_error V category l key], S))
     | _ \<Rightarrow> validate_leaf V rec l rule S)"

definition tried_overload :: "rule_type \<Rightarrow> bool" where
  "tried_overload r = (case r of LeafRule _ _ \<Rightarrow> True | NodeRule _ _ \<Rightarrow> True | _ \<Rightarrow> False)"

definition math_overload :: "leaf \<Rightarrow> overloads \<Rightarrow> rule_type option" where
  "math_overload l overloads =
     (if is_clause (leaf_val l) then map_option (fst \<circ> fst) (find (\<lambda>((rule, _), _). rule_right_is_math_expr rule) overloads)
      else None)"

text \<open>What follows the reservation of the branches.\<close>

definition check_overloads :: "vctx \<Rightarrow> recurse \<Rightarrow> ustr \<Rightarrow> ustr \<Rightarrow> leaf \<Rightarrow> overloads \<Rightarrow> vstate \<Rightarrow> outcome" where
  "check_overloads V rec category key l overloads S =
     (let (command_errors, S1) = scope_command_errors V l key S;
          checked = command_errors @ alias_scope_errors V category key l overloads S1
      in map_option (\<lambda>(es, S2). (checked @ es, S2))
           (case math_overload l overloads of
              Some rule \<Rightarrow> validate_leaf V rec l rule S1
            | None \<Rightarrow>
                pick_loop (\<lambda>_. False) (validate_overload V rec category key l) (\<lambda>(_, opts). only_match_error V l key opts)
                  (filter (\<lambda>(rule, _). tried_overload rule) (map fst overloads)) None None S1))"

definition key_overloads :: "vctx \<Rightarrow> ustr \<Rightarrow> ustr \<Rightarrow> overloads" where
  "key_overloads V category key = alias_overloads_with_confidence (vc_rules V) (vc_type_index V) category key True"

definition reserve_overloads :: "vctx \<Rightarrow> ustr \<Rightarrow> leaf \<Rightarrow> overloads \<Rightarrow> vstate \<Rightarrow> bool \<times> vstate" where
  "reserve_overloads V key l overloads S =
     (if length overloads > 1
      then reserve_alias_branches (length overloads) (range_start (leaf_pos l)) (Some (key_token_end V l key)) S
      else (True, S))"

definition validate_alias_usage_uncached :: "vctx \<Rightarrow> recurse \<Rightarrow> alias_usage" where
  "validate_alias_usage_uncached V rec category key l S =
     (if stop_traversal S then Some ([], S)
      else
        (let overloads = key_overloads V category key
         in if overloads = [] then Some ([], S)
            else
              (let (accepted, S1) = reserve_overloads V key l overloads S
               in if accepted then check_overloads V rec category key l overloads S1 else Some ([], S1))))"

definition validate_alias_usage :: "vctx \<Rightarrow> recurse \<Rightarrow> alias_usage" where
  "validate_alias_usage V rec category key l S =
     (case alias_memo_key_of category key l S of
        None \<Rightarrow> validate_alias_usage_uncached V rec category key l S
      | Some memo_key \<Rightarrow>
          (case map_of (vs_memo S) memo_key of
             Some es \<Rightarrow> Some (es, S)
           | None \<Rightarrow>
               map_option (\<lambda>(es, S1). (es, if stop_traversal S1 then S1 else alias_memo_store memo_key es S1))
                 (validate_alias_usage_uncached V rec category key l S)))"

section \<open>The children of a block\<close>

definition INLINE_SCRIPT :: ustr where "INLINE_SCRIPT = str ''inline_script''"
definition MODIFIER_ALIAS :: ustr where "MODIFIER_ALIAS = str ''modifier''"

definition candidates_are_modifier_alias_only :: "new_rule list \<Rightarrow> bool" where
  "candidates_are_modifier_alias_only cands \<longleftrightarrow> cands \<noteq> []
     \<and> list_all (\<lambda>(rule, _). case rule of
         LeafRule (AliasField category) _ \<Rightarrow> category = MODIFIER_ALIAS
       | NodeRule (AliasField category) _ \<Rightarrow> category = MODIFIER_ALIAS
       | _ \<Rightarrow> False) cands"

definition key_is_modifier :: "vctx \<Rightarrow> ustr \<Rightarrow> bool" where
  "key_is_modifier V key = (case vc_modifier_keys V of Some mk \<Rightarrow> lower_loc_key V key \<in> mk | None \<Rightarrow> False)"

definition push_zero_modifier :: "vctx \<Rightarrow> leaf \<Rightarrow> ustr \<Rightarrow> validation_error" where
  "push_zero_modifier V l key = with_end (leaf_end l) (from_code V CW235_ZERO_MODIFIER (leaf_start l) [key])"

definition unexpected_field_error :: "vctx \<Rightarrow> new_rule list \<Rightarrow> leaf \<Rightarrow> ustr \<Rightarrow> validation_error" where
  "unexpected_field_error V rules l key =
     (let is_block = is_clause (leaf_val l);
          (msg, code) = (if is_block then (str ''Unexpected block '' @ quoted key, CW262_UNEXPECTED_PROPERTY_NODE)
                         else (str ''Unexpected field '' @ quoted key, CW263_UNEXPECTED_PROPERTY_LEAF));
          err = with_end (if is_block then key_token_end V l key else leaf_end l) (from_code_with V code SevError (leaf_start l) msg)
      in case best_suggestion key (List.map_filter (\<lambda>(rule, _). get_rule_key rule) rules) of
           Some cand \<Rightarrow>
             with_fix (SuggestedFix_replace (rd_title (vc_render V) (str ''ActionDidYouMean'') [cand])
               \<lparr>range_start = range_start (leaf_pos l), range_end = key_token_end V l key\<rparr> cand) err
         | None \<Rightarrow> err)"

definition unmatched_leaf_errors :: "vctx \<Rightarrow> new_rule list \<Rightarrow> leaf \<Rightarrow> ustr \<Rightarrow> validation_error list" where
  "unmatched_leaf_errors V rules l key =
     (let is_modifier = key_is_modifier V key
      in (if is_modifier \<and> value_is_zero (leaf_val l) then [push_zero_modifier V l key] else [])
         @ (if \<not> is_modifier \<and> \<not> starts_with key (str ''@'') then [unexpected_field_error V rules l key] else []))"

definition matched_leaf_errors :: "vctx \<Rightarrow> new_rule list \<Rightarrow> leaf \<Rightarrow> ustr \<Rightarrow> validation_error list" where
  "matched_leaf_errors V cands l key =
     (if value_is_zero (leaf_val l) \<and> candidates_are_modifier_alias_only cands \<and> key_is_modifier V key
      then [push_zero_modifier V l key] else [])"

text \<open>A leaf and the candidates found for its key.\<close>

definition validate_candidates ::
  "vctx \<Rightarrow> alias_usage \<Rightarrow> recurse \<Rightarrow> new_rule list \<Rightarrow> leaf \<Rightarrow> ustr \<Rightarrow> new_rule list \<Rightarrow> vstate \<Rightarrow> outcome" where
  "validate_candidates V usage rec rules l key cands S =
     (if is_clause (leaf_val l) \<and> list_ex (\<lambda>(rule, _). rule_right_is_math_expr rule) cands
      then validate_math_clause rec (clause_children (leaf_val l)) (leaf_start l) S
      else if cands = [] then Some (unmatched_leaf_errors V rules l key, S)
      else
        map_option (\<lambda>(es, S1). (matched_leaf_errors V cands l key @ es, S1))
          (pick_loop stop_traversal (\<lambda>(rule, opts). validate_leaf_against_rule V usage rec l key rule opts)
             (\<lambda>(_, opts). only_match_error V l key opts) cands None None S))"

definition first_valueclause :: "new_rule list \<Rightarrow> new_rule list option" where
  "first_valueclause rules =
     map_option (\<lambda>r. case fst r of ValueClauseRule inner \<Rightarrow> inner | _ \<Rightarrow> []) (find is_valueclause rules)"

definition leafvalue_matches :: "vctx \<Rightarrow> pvalue \<Rightarrow> new_rule \<Rightarrow> bool" where
  "leafvalue_matches V v r = (case fst r of LeafValueRule right \<Rightarrow> field_matches_value V right v | _ \<Rightarrow> False)"

definition bare_value_errors :: "vctx \<Rightarrow> new_rule list \<Rightarrow> leaf_value \<Rightarrow> vstate \<Rightarrow> validation_error list" where
  "bare_value_errors V rules lv S =
     (let pos = line_col (range_start (lv_pos lv)); stop_pos = range_end (lv_pos lv); raw = leaf_value_to_string V (lv_value lv)
      in case find (leafvalue_matches V (lv_value lv)) rules of
           Some (LeafValueRule (VariableGetField ns), _) \<Rightarrow> check_variable_get V S ns raw pos stop_pos
         | Some _ \<Rightarrow> []
         | None \<Rightarrow> [with_end stop_pos (from_code V CW264_UNEXPECTED_PROPERTY_LEAF_VALUE pos [str ''Unexpected bare value '' @ quoted raw])])"

definition validate_leaf_value :: "vctx \<Rightarrow> recurse \<Rightarrow> new_rule list \<Rightarrow> leaf_value \<Rightarrow> vstate \<Rightarrow> outcome" where
  "validate_leaf_value V rec rules lv S =
     (case lv_value lv of
        VClause children \<Rightarrow>
          (case first_valueclause rules of
             Some inner \<Rightarrow> rec children inner (line_col (range_start (lv_pos lv))) S
           | None \<Rightarrow>
               Some ([with_end (range_end (lv_pos lv)) (from_code V CW265_UNEXPECTED_PROPERTY_VALUE_CLAUSE
                        (line_col (range_start (lv_pos lv))) [str ''Unexpected value clause '' @ quoted (str ''{...}'')])], S))
      | _ \<Rightarrow> Some (bare_value_errors V rules lv S, S))"

record 'h block_run =
  br_block :: "'h block_rules"
  br_leafvalues :: "nat list"
  br_valueclauses :: "nat list"
  br_errors :: "validation_error list"
  br_state :: vstate

definition bump :: "(new_rule \<Rightarrow> bool) \<Rightarrow> new_rule list \<Rightarrow> nat list \<Rightarrow> nat list" where
  "bump P rules cs = map2 (\<lambda>r n. if P r then n + 1 else n) rules cs"

definition push_errors :: "validation_error list \<times> vstate \<Rightarrow> 'h block_run \<Rightarrow> 'h block_run" where
  "push_errors = (\<lambda>(es, S) r. r\<lparr>br_errors := br_errors r @ es, br_state := S\<rparr>)"

text \<open>
  A leaf.  A call of an inline script is passed over: the run has no scripts, and
  \<^verbatim>\<open>expand_inline_script_call\<close> returns at once.
\<close>

definition leaf_step ::
  "vctx \<Rightarrow> (ustr \<Rightarrow> 'h) \<Rightarrow> alias_usage \<Rightarrow> recurse \<Rightarrow> new_rule list \<Rightarrow> leaf \<Rightarrow> 'h block_run \<Rightarrow> 'h block_run option" where
  "leaf_step V h usage rec rules l r =
     (let key = leaf_key_unquoted V l
      in if eq_ignore_ascii_case key INLINE_SCRIPT then Some r
         else
           (let block = count_key h key (br_block r);
                cands = block_matching_candidates h block rules key (vc_rules V) (vc_type_index V)
            in map_option (\<lambda>out. push_errors out (r\<lparr>br_block := block\<rparr>))
                 (validate_candidates V usage rec rules l key cands (br_state r))))"

definition leaf_value_step ::
  "vctx \<Rightarrow> recurse \<Rightarrow> new_rule list \<Rightarrow> leaf_value \<Rightarrow> 'h block_run \<Rightarrow> 'h block_run option" where
  "leaf_value_step V rec rules lv r =
     (let r1 = (if is_clause (lv_value lv)
                then (if bk_valueclause (br_block r)
                      then r\<lparr>br_valueclauses := bump is_valueclause rules (br_valueclauses r)\<rparr> else r)
                else if bk_leafvalue (br_block r)
                then r\<lparr>br_leafvalues := bump (leafvalue_matches V (lv_value lv)) rules (br_leafvalues r)\<rparr> else r)
      in map_option (\<lambda>out. push_errors out r1) (validate_leaf_value V rec rules lv (br_state r)))"

definition child_step ::
  "vctx \<Rightarrow> (ustr \<Rightarrow> 'h) \<Rightarrow> alias_usage \<Rightarrow> recurse \<Rightarrow> new_rule list \<Rightarrow> child \<Rightarrow> 'h block_run \<Rightarrow> 'h block_run option" where
  "child_step V h usage rec rules c r =
     (case c of
        CLeaf i \<Rightarrow> Option.bind (get_leaf V i) (\<lambda>l. leaf_step V h usage rec rules l r)
      | CLeafValue i \<Rightarrow> Option.bind (get_leaf_value V i) (\<lambda>lv. leaf_value_step V rec rules lv r)
      | CComment _ \<Rightarrow> Some r)"

fun child_loop :: "('s \<Rightarrow> bool) \<Rightarrow> (child \<Rightarrow> 's \<Rightarrow> 's option) \<Rightarrow> child list \<Rightarrow> 's \<Rightarrow> 's option" where
  "child_loop stop each [] r = Some r"
| "child_loop stop each (c # cs) r =
     (if stop r then Some r
      else case each c r of None \<Rightarrow> None | Some r1 \<Rightarrow> child_loop stop each cs r1)"

definition count_and_validate_children ::
  "vctx \<Rightarrow> (ustr \<Rightarrow> 'h) \<Rightarrow> alias_usage \<Rightarrow> recurse \<Rightarrow> child list \<Rightarrow> new_rule list \<Rightarrow> 'h block_rules \<Rightarrow> vstate \<Rightarrow> 'h block_run option" where
  "count_and_validate_children V h usage rec children rules block S =
     child_loop (\<lambda>r. stop_traversal (br_state r)) (child_step V h usage rec rules) children
       \<lparr>br_block = block,
        br_leafvalues = (if bk_leafvalue block then replicate (length rules) 0 else []),
        br_valueclauses = (if bk_valueclause block then replicate (length rules) 0 else []),
        br_errors = [], br_state = S\<rparr>"

definition validate_block :: "vctx \<Rightarrow> (ustr \<Rightarrow> 'h) \<Rightarrow> alias_usage \<Rightarrow> recurse \<Rightarrow> recurse" where
  "validate_block V h usage rec children unflattened pos S =
     (if stop_traversal S then Some ([], S)
      else
        (let rules = flat_rules unflattened
         in case count_and_validate_children V h usage rec children rules (BlockRules_of h rules) S of
              None \<Rightarrow> None
            | Some r \<Rightarrow>
                if stop_traversal (br_state r) then Some (br_errors r, br_state r)
                else
                  map_option (\<lambda>es. (br_errors r @ es, br_state r))
                    (enforce_cardinality V children rules (br_block r) pos (br_leafvalues r) (br_valueclauses r))))"

primrec validate_children :: "vctx \<Rightarrow> (ustr \<Rightarrow> 'h) \<Rightarrow> nat \<Rightarrow> recurse" where
  "validate_children V h 0 = (\<lambda>children rules pos S. None)"
| "validate_children V h (Suc n) =
     validate_block V h (validate_alias_usage V (validate_children V h n)) (validate_children V h n)"

end
