(* ===== verification/Rule_Traversal.thy ===== *)
theory Rule_Traversal
  imports Rule_Validate
begin

text \<open>
  What a traversal does to the state of a run.  A relation between the state before and after that is
  kept by the few operations on the state holds of every function of the validator; its instance here
  says that the scope context and the loop variables come back as they were, that the budget for alias
  branches only falls, that an exhausted budget stays as it is and that the memo stays within
  its bounds.
\<close>

section \<open>Relations a traversal keeps\<close>

definition frame_kept :: "vstate \<Rightarrow> vstate \<Rightarrow> bool" where
  "frame_kept S S' \<longleftrightarrow> vs_scope S' = vs_scope S \<and> vs_loop_vars S' = vs_loop_vars S"

definition runs_in :: "(vstate \<Rightarrow> vstate \<Rightarrow> bool) \<Rightarrow> (vstate \<Rightarrow> outcome) \<Rightarrow> bool" where
  "runs_in R f \<longleftrightarrow> (\<forall>S es S'. f S = Some (es, S') \<longrightarrow> R S S')"

lemma runs_inI: "(\<And>S es S'. f S = Some (es, S') \<Longrightarrow> R S S') \<Longrightarrow> runs_in R f"
  by (simp add: runs_in_def)

lemma runs_inD: "runs_in R f \<Longrightarrow> f S = Some (es, S') \<Longrightarrow> R S S'"
  by (simp add: runs_in_def)

locale run_relation =
  fixes R :: "vstate \<Rightarrow> vstate \<Rightarrow> bool"
  assumes same: "R S S"
    and trans: "R S S1 \<Longrightarrow> R S1 S2 \<Longrightarrow> R S S2"
    and frame: "R S S' \<Longrightarrow> frame_kept S S'"
    and reserved: "reserve_alias_branches n p e S = (accepted, S') \<Longrightarrow> R S S'"
    and stored: "R S (alias_memo_store k es S)"
    and scoped: "R (S\<lparr>vs_scope := sc, vs_loop_vars := lv\<rparr>) S1
      \<Longrightarrow> R S (S1\<lparr>vs_scope := vs_scope S, vs_loop_vars := vs_loop_vars S\<rparr>)"

interpretation registry: context_invariant "\<lambda>ctx. ctx_registry ctx = reg" for reg
proof unfold_locales
  show "ctx_registry ctx = reg \<Longrightarrow> ctx_registry (snd (change_scope key ctx)) = reg" for ctx key
    using change_scope_move [of ctx key] by (simp add: sound_move_def same_frame_def)
qed (simp_all add: apply_replace_scope_fields)

lemma enter_block_registry [simp]: "ctx_registry (enter_block_scope key opts g numeric names ctx) = ctx_registry ctx"
  by (rule registry.ok_enter_block) simp

lemma restore_same_registry: "ctx_registry sc1 = ctx_registry sc \<Longrightarrow> restore_context (save_context sc) sc1 = sc"
  by (simp add: restore_context_def save_context_def)

lemma restore_frame: "frame_kept S S' \<Longrightarrow> restore_scope (save_scope S) S' = S'"
  by (cases S'; cases "vs_scope S") (auto simp: frame_kept_def restore_scope_def save_scope_def restore_same_registry)

text \<open>A block is entered, traversed and left.\<close>

lemma restore_entered:
  assumes "frame_kept (enter_scope V key opts numeric S\<lparr>vs_loop_vars := lv\<rparr>) S'"
  shows "restore_scope (save_scope S) (S'\<lparr>vs_loop_vars := lv'\<rparr>) = S'\<lparr>vs_scope := vs_scope S, vs_loop_vars := lv'\<rparr>"
  using assms by (cases "vs_scope S") (auto simp: frame_kept_def restore_scope_def save_scope_def enter_scope_def map_scope_def restore_same_registry)

lemma restore_entered_plain:
  assumes "frame_kept (enter_scope V key opts numeric S) S'"
  shows "restore_scope (save_scope S) S' = S'\<lparr>vs_scope := vs_scope S, vs_loop_vars := vs_loop_vars S\<rparr>"
proof -
  have "S'\<lparr>vs_loop_vars := vs_loop_vars S\<rparr> = S'" "enter_scope V key opts numeric S\<lparr>vs_loop_vars := vs_loop_vars S\<rparr> = enter_scope V key opts numeric S"
    using assms by (simp_all add: frame_kept_def enter_scope_def map_scope_def)
  with restore_entered [of "vs_loop_vars S" V key opts numeric S S' "vs_loop_vars S"] assms show ?thesis by simp
qed

lemma scope_target_state [simp]: "snd (scope_target_errors V l right S) = S"
proof (cases "vs_scope S")
  case (Some sc)
  have "sc1 = sc" if "validate_scope_target target expected l [] sc = (es, sc1)" for target expected es sc1
    using validate_scope_target_context [of target expected l "[]" sc] that by simp
  with Some show ?thesis by (auto simp: scope_target_errors_def split: new_field.split prod.split)
qed (simp add: scope_target_errors_def split: new_field.split)

lemma scope_command_state [simp]: "snd (scope_command_errors V l key S) = S"
proof (cases "vs_scope S")
  case (Some sc)
  have "ctx_registry (snd (change_scope key sc)) = ctx_registry sc"
    using change_scope_move [of sc key] by (simp add: sound_move_def same_frame_def)
  with Some show ?thesis by (auto simp: scope_command_errors_def Let_def restore_same_registry split: prod.splits)
qed (simp add: scope_command_errors_def)

subsection \<open>A leaf that is not a math clause does not change the state\<close>

definition math_children :: "leaf \<Rightarrow> rule_type \<Rightarrow> child list option" where
  "math_children l rule = (case (rule, leaf_val l) of
     (LeafRule _ right, VClause children) \<Rightarrow> if right = ValueField VT_MathExpr then Some children else None | _ \<Rightarrow> None)"

lemma validate_leaf_math:
  "math_children l rule = Some children \<Longrightarrow> validate_leaf V rec l rule S =
     map_option (\<lambda>(es, S1). (es, restore_scope (save_scope S) S1)) (validate_math_clause rec children (leaf_start l) S)"
  by (auto simp: math_children_def validate_leaf_def split: rule_type.splits pvalue.splits if_splits)

definition plain_leaf_errors :: "vctx \<Rightarrow> leaf \<Rightarrow> rule_type \<Rightarrow> vstate \<Rightarrow> validation_error list" where
  "plain_leaf_errors V l rule S = (case validate_leaf V (\<lambda>_ _ _ _. None) l rule S of Some (es, _) \<Rightarrow> es | None \<Rightarrow> [])"

lemma validate_leaf_plain:
  assumes "math_children l rule = None"
  shows "validate_leaf V rec l rule S = Some (plain_leaf_errors V l rule S, S)"
proof -
  have "\<exists>es. \<forall>rec. validate_leaf V rec l rule S = Some (es, S)"
  proof (cases rule)
    case (LeafRule left right)
    show ?thesis
    proof (cases "right = ValueField VT_MathExpr")
      case True
      with assms LeafRule show ?thesis by (simp add: validate_leaf_def math_children_def split: pvalue.splits)
    next
      case False
      have "\<exists>es. scope_target_errors V l right S = (es, S)" using scope_target_state [of V l right S] by (metis prod.collapse)
      with False LeafRule show ?thesis by (auto simp: validate_leaf_def split: new_field.split)
    qed
  qed (simp_all add: validate_leaf_def)
  then show ?thesis by (auto simp: plain_leaf_errors_def)
qed

section \<open>Every function keeps the relation\<close>

context run_relation
begin

definition ok :: "recurse \<Rightarrow> bool" where
  "ok rec \<longleftrightarrow> (\<forall>children rules pos. runs_in R (rec children rules pos))"

lemma okD: "ok rec \<Longrightarrow> rec children rules pos S = Some (es, S') \<Longrightarrow> R S S'"
  unfolding ok_def runs_in_def by blast

lemma left_block:
  assumes "R (enter_scope V key opts numeric S) S1" shows "R S (restore_scope (save_scope S) S1)"
proof -
  have "enter_scope V key opts numeric S = S\<lparr>vs_scope := vs_scope (enter_scope V key opts numeric S), vs_loop_vars := vs_loop_vars S\<rparr>"
    by (simp add: enter_scope_def map_scope_def)
  with assms have "R S (S1\<lparr>vs_scope := vs_scope S, vs_loop_vars := vs_loop_vars S\<rparr>)" by (metis scoped)
  then show ?thesis using restore_entered_plain [OF frame [OF assms]] by simp
qed

lemma left_alias_block:
  assumes "R (enter_scope V key opts numeric S\<lparr>vs_loop_vars := vs_loop_vars S @ seeded\<rparr>) S1"
  shows "R S (restore_scope (save_scope S) (S1\<lparr>vs_loop_vars := take (length (vs_loop_vars S)) (vs_loop_vars S1)\<rparr>))"
proof -
  have "vs_loop_vars S1 = vs_loop_vars S @ seeded" using frame [OF assms] by (simp add: frame_kept_def)
  then show ?thesis
    using restore_entered [OF frame [OF assms]] assms
      scoped [of "vs_loop_vars S @ seeded" "vs_scope (enter_scope V key opts numeric S)" S S1]
    by (simp add: enter_scope_def map_scope_def)
qed

lemma leaf_ok:
  assumes "ok rec" "validate_leaf V rec l rule S = Some (es, S')"
  shows "R S S'"
proof (cases "math_children l rule")
  case (Some children)
  with assms(2) obtain S1 where "validate_math_clause rec children (leaf_start l) S = Some (es, S1)" "S' = restore_scope (save_scope S) S1"
    by (auto simp: validate_leaf_math)
  then show ?thesis using okD [OF assms(1)] restore_frame [OF frame] by (auto simp: validate_math_clause_def)
qed (use assms(2) validate_leaf_plain [of l rule V rec S] same in auto)

lemma overload_ok:
  assumes "ok rec" "validate_overload V rec category key l r S = Some (es, S')"
  shows "R S S'"
proof (cases "\<exists>left inner. fst r = NodeRule left inner")
  case True
  then obtain left inner opts where r: "r = (NodeRule left inner, opts)" by (cases r) auto
  show ?thesis
  proof (cases "leaf_val l")
    case (VClause children)
    with assms(2) obtain seeded S1 where
      "rec children inner (leaf_start l) (enter_scope V key opts True S\<lparr>vs_loop_vars := vs_loop_vars S @ seeded\<rparr>) = Some (es, S1)"
      "S' = restore_scope (save_scope S) (S1\<lparr>vs_loop_vars := take (length (vs_loop_vars S)) (vs_loop_vars S1)\<rparr>)"
      by (auto simp: r validate_overload_def Let_def enter_scope_def map_scope_def split: option.splits)
    then show ?thesis using left_alias_block [OF okD [OF assms(1)]] by simp
  qed (use assms(2) in \<open>simp_all add: r validate_overload_def same\<close>)
next
  case False
  with assms(2) have "validate_leaf V rec l (fst r) S = Some (es, S')"
    by (cases r; cases "fst r") (auto simp: validate_overload_def)
  then show ?thesis by (rule leaf_ok [OF assms(1)])
qed

lemma pick_ok:
  assumes "\<And>c S es S'. validate_one c S = Some (es, S') \<Longrightarrow> R S S'"
  shows "pick_loop stop validate_one only_match cs best om S = Some (es, S') \<Longrightarrow> R S S'"
proof (induction cs arbitrary: best om S)
  case (Cons c cs)
  show ?case
  proof (cases "stop S \<or> validate_one c S = None")
    case False
    then obtain temp S1 where one: "validate_one c S = Some (temp, S1)" by auto
    with Cons False show ?thesis
      using assms [OF one] trans by (auto split: if_splits option.splits)
  qed (use Cons.prems same in \<open>auto split: if_splits\<close>)
qed (simp add: same)

lemma check_ok:
  assumes "ok rec" "check_overloads V rec category key l os S = Some (es, S')"
  shows "R S S'"
proof -
  obtain ce where "scope_command_errors V l key S = (ce, S)" using scope_command_state [of V l key S] by (metis prod.collapse)
  with assms(2) show ?thesis
    using leaf_ok [OF assms(1)] pick_ok [of "validate_overload V rec category key l", OF overload_ok [OF assms(1)]]
    by (auto simp: check_overloads_def split: option.splits)
qed

lemma uncached_ok:
  assumes "ok rec" "validate_alias_usage_uncached V rec category key l S = Some (es, S')"
  shows "R S S'"
proof (cases "stop_traversal S \<or> key_overloads V category key = []")
  case False
  obtain accepted S1 where r: "reserve_overloads V key l (key_overloads V category key) S = (accepted, S1)" by fastforce
  then have "R S S1" by (auto simp: reserve_overloads_def same split: if_splits intro: reserved)
  then show ?thesis
    using assms(2) False r check_ok [OF assms(1)] trans
    by (auto simp: validate_alias_usage_uncached_def split: if_splits)
qed (use assms(2) same in \<open>auto simp: validate_alias_usage_uncached_def Let_def split: if_splits\<close>)

lemma usage_ok:
  assumes "ok rec" "validate_alias_usage V rec category key l S = Some (es, S')"
  shows "R S S'"
proof (cases "alias_memo_key_of category key l S")
  case None
  with assms uncached_ok show ?thesis by (simp add: validate_alias_usage_def)
next
  case (Some k)
  with assms(2) show ?thesis
    using uncached_ok [OF assms(1)] trans stored same
    by (auto simp: validate_alias_usage_def split: option.splits) blast+
qed

lemma against_rule_ok:
  assumes "ok rec" and usage: "\<And>category key l S es S'. usage category key l S = Some (es, S') \<Longrightarrow> R S S'"
    and "validate_leaf_against_rule V usage rec l key rule opts S = Some (es, S')"
  shows "R S S'"
proof (cases "stop_traversal S \<or> rule_left_is_ignore rule \<or> aliased_category rule \<noteq> None")
  case False
  show ?thesis
  proof (cases rule)
    case (NodeRule left inner)
    show ?thesis
    proof (cases "leaf_val l")
      case (VClause children)
      with False assms(3) NodeRule obtain es1 S1 where
        "rec children inner (leaf_start l) (enter_scope V key opts False S) = Some (es1, S1)" "S' = restore_scope (save_scope S) S1"
        by (auto simp: validate_leaf_against_rule_def)
      then show ?thesis using left_block [OF okD [OF assms(1)]] by simp
    qed (use assms(3) False same NodeRule in \<open>auto simp: validate_leaf_against_rule_def\<close>)
  next
    case (LeafRule left right)
    with False assms(3) show ?thesis
      using leaf_ok [OF assms(1)] by (auto simp: validate_leaf_against_rule_def)
  qed (use assms(3) False same in \<open>auto simp: validate_leaf_against_rule_def\<close>)
qed (use assms(3) same usage in \<open>auto simp: validate_leaf_against_rule_def split: if_splits\<close>)

lemma candidates_ok:
  assumes "ok rec" and usage: "\<And>category key l S es S'. usage category key l S = Some (es, S') \<Longrightarrow> R S S'"
    and "validate_candidates V usage rec rules l key cands S = Some (es, S')"
  shows "R S S'"
proof -
  have one: "(case c of (rule, opts) \<Rightarrow> validate_leaf_against_rule V usage rec l key rule opts) S = Some (es, S') \<Longrightarrow> R S S'" for c S es S'
    using against_rule_ok [OF assms(1) usage] by (cases c) auto
  show ?thesis
    using assms(3) okD [OF assms(1)] same pick_ok [OF one]
    by (auto simp: validate_candidates_def validate_math_clause_def split: if_splits)
qed

lemma leaf_value_ok:
  assumes "ok rec" "validate_leaf_value V rec rules lv S = Some (es, S')"
  shows "R S S'"
  using assms(2) okD [OF assms(1)] same by (auto simp: validate_leaf_value_def split: pvalue.splits option.splits)

lemma child_ok:
  assumes "ok rec" and usage: "\<And>category key l S es S'. usage category key l S = Some (es, S') \<Longrightarrow> R S S'"
    and "child_step V h usage rec rules c r = Some r'"
  shows "R (br_state r) (br_state r')"
proof (cases c)
  case (CLeaf i)
  with assms(3) same candidates_ok [OF assms(1) usage] show ?thesis
    by (auto simp: child_step_def leaf_step_def Let_def push_errors_def bind_eq_Some_conv split: if_splits)
next
  case (CLeafValue i)
  with assms(3) obtain lv es S1 where "validate_leaf_value V rec rules lv (br_state r) = Some (es, S1)" "br_state r' = S1"
    by (auto simp: child_step_def leaf_value_step_def Let_def push_errors_def bind_eq_Some_conv)
  then show ?thesis using leaf_value_ok [OF assms(1)] by simp
qed (use assms(3) same in \<open>simp add: child_step_def\<close>)

lemma loop_ok:
  assumes "\<And>c r r'. each c r = Some r' \<Longrightarrow> R (br_state r) (br_state r')"
  shows "child_loop stop each cs r = Some r' \<Longrightarrow> R (br_state r) (br_state r')"
proof (induction cs arbitrary: r)
  case (Cons c cs)
  show ?case
  proof (cases "stop r")
    case False
    with Cons.prems obtain r1 where "each c r = Some r1" "child_loop stop each cs r1 = Some r'"
      by (auto split: option.splits)
    then show ?thesis using assms Cons.IH trans by blast
  qed (use Cons.prems same in simp)
qed (simp add: same)

lemma block_kept:
  assumes "ok rec" and usage: "\<And>category key l S es S'. usage category key l S = Some (es, S') \<Longrightarrow> R S S'"
  shows "ok (validate_block V h usage rec)"
proof -
  have "R S S'" if "validate_block V h usage rec children rules pos S = Some (es, S')" for children rules pos S es S'
  proof (cases "stop_traversal S")
    case False
    with that obtain r where r: "count_and_validate_children V h usage rec children (flat_rules rules) (BlockRules_of h (flat_rules rules)) S = Some r"
      "S' = br_state r"
      by (auto simp: validate_block_def Let_def split: option.splits if_splits)
    from loop_ok [OF child_ok [OF assms(1) usage] r(1) [unfolded count_and_validate_children_def]] r(2)
    show ?thesis by simp
  qed (use that same in \<open>simp add: validate_block_def\<close>)
  then show ?thesis by (simp add: ok_def runs_in_def)
qed

lemma children_ok: "ok (validate_children V h n)"
proof (induction n)
  case (Suc n)
  show ?case unfolding validate_children.simps by (rule block_kept [OF Suc usage_ok [OF Suc]])
qed (simp add: ok_def runs_in_def)

lemma traversal: "validate_children V h n children rules pos S = Some (es, S') \<Longrightarrow> R S S'"
  by (rule okD [OF children_ok])

end

section \<open>The state after a traversal\<close>

definition memo_bounded :: "vstate \<Rightarrow> bool" where
  "memo_bounded S \<longleftrightarrow> length (vs_memo S) \<le> ALIAS_MEMO_ENTRIES \<and> distinct (map fst (vs_memo S))
     \<and> (\<forall>(k, es) \<in> set (vs_memo S). length es \<le> ALIAS_MEMO_ENTRY_ERRORS)"

definition run_of :: "vstate \<Rightarrow> vstate \<Rightarrow> bool" where
  "run_of S S' \<longleftrightarrow> frame_kept S S' \<and> ab_remaining (vs_budget S') \<le> ab_remaining (vs_budget S)
     \<and> (stop_traversal S \<longrightarrow> ab_exhaustion (vs_budget S') = ab_exhaustion (vs_budget S))
     \<and> (memo_bounded S \<longrightarrow> memo_bounded S')"

lemma update_length: "length (AList.update k v xs) \<le> Suc (length xs)"
  by (induction xs) auto

lemma update_entries: "x \<in> set (AList.update k v xs) \<Longrightarrow> x = (k, v) \<or> x \<in> set xs"
  by (induction xs) (auto split: if_splits)

lemma store_bounded: "memo_bounded S \<Longrightarrow> memo_bounded (alias_memo_store k es S)"
  unfolding memo_bounded_def alias_memo_store_def
  using update_length [of k es "vs_memo S"] distinct_update [of "vs_memo S" k es] update_entries [of _ k es "vs_memo S"]
  by (auto dest: bspec) (fastforce dest: bspec)

lemma memo_bounded_state [simp]:
  "memo_bounded (S\<lparr>vs_budget := b\<rparr>) = memo_bounded S" "memo_bounded (S\<lparr>vs_scope := sc\<rparr>) = memo_bounded S"
  "memo_bounded (S\<lparr>vs_loop_vars := lv\<rparr>) = memo_bounded S"
  by (simp_all add: memo_bounded_def)

lemma stop_state [simp]:
  "stop_traversal (S\<lparr>vs_scope := sc\<rparr>) = stop_traversal S" "stop_traversal (S\<lparr>vs_loop_vars := lv\<rparr>) = stop_traversal S"
  "stop_traversal (S\<lparr>vs_memo := m\<rparr>) = stop_traversal S"
  by (simp_all add: stop_traversal_def)

lemma store_fields [simp]:
  "vs_scope (alias_memo_store k es S) = vs_scope S" "vs_loop_vars (alias_memo_store k es S) = vs_loop_vars S"
  "vs_budget (alias_memo_store k es S) = vs_budget S"
  by (simp_all add: alias_memo_store_def)

lemma run_of_trans: "run_of S S1 \<Longrightarrow> run_of S1 S2 \<Longrightarrow> run_of S S2"
  unfolding run_of_def frame_kept_def stop_traversal_def by (metis le_trans)

lemma run_of_reserved:
  assumes "reserve_alias_branches n p e S = (accepted, S')"
  shows "run_of S S'"
proof (cases "n \<le> ab_remaining (vs_budget S)")
  case True
  with assms show ?thesis by (auto simp: run_of_def frame_kept_def reserve_alias_branches_def budget_reserve_def)
next
  case False
  with assms have "S' = S\<lparr>vs_budget := snd (budget_reserve n p e (vs_budget S))\<rparr>"
    by (simp add: reserve_alias_branches_def split: prod.splits)
  with False show ?thesis by (simp add: run_of_def frame_kept_def budget_reserve_def stop_traversal_def split: option.split)
qed

interpretation run: run_relation run_of
proof unfold_locales
  show "run_of S S" for S by (simp add: run_of_def frame_kept_def)
  show "run_of S (alias_memo_store k es S)" for S k es
    using store_bounded [of S k es] by (simp add: run_of_def frame_kept_def)
  show "run_of S (S1\<lparr>vs_scope := vs_scope S, vs_loop_vars := vs_loop_vars S\<rparr>)"
    if "run_of (S\<lparr>vs_scope := sc, vs_loop_vars := lv\<rparr>) S1" for S sc lv S1
    using that by (simp add: run_of_def frame_kept_def)
  show "frame_kept S S'" if "run_of S S'" for S S' using that by (simp add: run_of_def)
qed (fact run_of_trans run_of_reserved)+

end
