(* ===== verification/Rule_Total.thy ===== *)
theory Rule_Total
  imports Rule_Traversal
begin

text \<open>
  The traversal of a tree of children returns: with a bound of one more than the depth of the tree no
  index is out of range and the bound is not reached, whatever the rules, the options of the
  run and the state.
\<close>

definition child_known :: "vctx \<Rightarrow> child \<Rightarrow> bool" where
  "child_known V c = (case c of CLeaf i \<Rightarrow> get_leaf V i \<noteq> None | CLeafValue i \<Rightarrow> get_leaf_value V i \<noteq> None | CComment _ \<Rightarrow> True)"

text \<open>What is below a child: the children of its value.\<close>

definition below :: "vctx \<Rightarrow> child \<Rightarrow> child list" where
  "below V c = (case c of
       CLeaf i \<Rightarrow> (case get_leaf V i of Some l \<Rightarrow> clause_children (leaf_val l) | None \<Rightarrow> [])
     | CLeafValue i \<Rightarrow> (case get_leaf_value V i of Some lv \<Rightarrow> clause_children (lv_value lv) | None \<Rightarrow> [])
     | CComment _ \<Rightarrow> [])"

primrec nested :: "vctx \<Rightarrow> nat \<Rightarrow> child list \<Rightarrow> bool" where
  "nested V 0 cs \<longleftrightarrow> cs = []"
| "nested V (Suc k) cs \<longleftrightarrow> (\<forall>c \<in> set cs. child_known V c \<and> nested V k (below V c))"

lemma nested_known: "nested V k cs \<Longrightarrow> list_all (child_known V) cs"
  by (cases k) (simp_all add: list_all_iff)

lemma nested_Nil [simp]: "nested V k []"
  by (cases k) simp_all

lemma arena_tree_nested: "arena_tree k A cs s s' \<Longrightarrow> A = pf_arena (vc_ast V) \<Longrightarrow> nested V k cs"
  by (induction rule: arena_tree.induct) (auto simp: child_known_def below_def get_leaf_def get_leaf_value_def)

section \<open>Cardinalities\<close>

definition succeeds :: "'a option \<Rightarrow> bool" where
  "succeeds x \<longleftrightarrow> x \<noteq> None"

lemma succeeds_simps [simp]:
  "succeeds (Some x)" "\<not> succeeds None" "succeeds (map_option f o1) = succeeds o1"
  by (simp_all add: succeeds_def)

lemma succeeds_bind: "succeeds x \<Longrightarrow> (\<And>y. x = Some y \<Longrightarrow> succeeds (g y)) \<Longrightarrow> succeeds (case x of None \<Rightarrow> None | Some y \<Rightarrow> g y)"
  by (cases x) simp_all

lemma succeeds_Bind: "succeeds x \<Longrightarrow> (\<And>y. x = Some y \<Longrightarrow> succeeds (g y)) \<Longrightarrow> succeeds (Option.bind x g)"
  by (cases x) simp_all

lemma find_map_opt_total: "(\<And>x. x \<in> set xs \<Longrightarrow> succeeds (f x)) \<Longrightarrow> succeeds (find_map_opt f xs)"
  unfolding succeeds_def by (induction xs) (auto split: option.split)

lemma find_opt_total: "(\<And>x. x \<in> set xs \<Longrightarrow> succeeds (f x)) \<Longrightarrow> succeeds (find_opt f xs)"
  by (induction xs) (auto intro!: succeeds_bind split: bool.split)

lemma find_opt_member: "find_opt f xs = Some (Some x) \<Longrightarrow> x \<in> set xs"
  by (induction xs) (auto split: option.splits bool.splits)

lemma concat_opt_total: "(\<And>x. x \<in> set xs \<Longrightarrow> succeeds x) \<Longrightarrow> succeeds (concat_opt xs)"
  by (induction xs) (auto intro!: succeeds_Bind)

lemma start_pos_total: "child_known V c \<Longrightarrow> succeeds (child_start_pos V c)"
  by (auto simp: child_known_def child_start_pos_def split: child.splits)

lemma key_matches_total: "child_known V c \<Longrightarrow> succeeds (child_key_matches V key c)"
  by (auto simp: child_known_def child_key_matches_def split: child.splits)

lemma key_position_total:
  assumes "list_all (child_known V) children"
  shows "succeeds (key_position V children key pos)"
  unfolding key_position_def
proof (rule succeeds_Bind)
  show "succeeds (find_opt (child_key_matches V key) children)"
    by (rule find_opt_total) (use assms key_matches_total in \<open>auto simp: list_all_iff\<close>)
  show "succeeds (case found of None \<Rightarrow> Some pos | Some c \<Rightarrow> map_option (\<lambda>p. case p of None \<Rightarrow> pos | Some q \<Rightarrow> q) (child_start_pos V c))"
    if "find_opt (child_key_matches V key) children = Some found" for found
    using that find_opt_member [of "child_key_matches V key" children] assms start_pos_total [of V]
    by (auto simp: list_all_iff split: option.split)
qed

lemma enforce_total:
  assumes "list_all (child_known V) children"
  shows "succeeds (enforce_cardinality V children rules b pos lvs vcs)"
proof -
  have "succeeds (find_map_opt (child_start_pos V) children)"
    by (rule find_map_opt_total) (use assms start_pos_total in \<open>auto simp: list_all_iff\<close>)
  then have "succeeds (block_position V children pos)" by (simp add: block_position_def)
  moreover have "succeeds (concat_opt (map (card_errors V children q) (bk_cards b)))" for q
    by (rule concat_opt_total) (use key_position_total [OF assms, of _ q] in \<open>auto simp: card_errors_def Let_def\<close>)
  ultimately show ?thesis unfolding enforce_cardinality_def by (auto intro!: succeeds_Bind)
qed

section \<open>Functions of the traversal\<close>

definition total_on :: "child list \<Rightarrow> recurse \<Rightarrow> bool" where
  "total_on cs rec \<longleftrightarrow> (\<forall>rules p q S. succeeds (rec cs rules (p, q) S))"

lemma total_onD: "total_on cs rec \<Longrightarrow> succeeds (rec cs rules pos S)"
  by (cases pos) (simp add: total_on_def)

lemma pick_total: "(\<And>c S. succeeds (validate_one c S)) \<Longrightarrow> succeeds (pick_loop stop validate_one only_match cs best om S)"
proof (induction cs arbitrary: best om S)
  case (Cons c cs)
  from Cons.prems [of c S] obtain temp S1 where "validate_one c S = Some (temp, S1)" by (auto simp: succeeds_def)
  with Cons show ?case by (simp split: option.split)
qed simp

text \<open>What is below a leaf is known and can be traversed.\<close>

definition leaf_ready :: "vctx \<Rightarrow> recurse \<Rightarrow> leaf \<Rightarrow> bool" where
  "leaf_ready V rec l \<longleftrightarrow> total_on (clause_children (leaf_val l)) rec \<and> list_all (child_known V) (clause_children (leaf_val l))"

lemma clause_total: "leaf_ready V rec l \<Longrightarrow> leaf_val l = VClause children \<Longrightarrow> succeeds (rec children rules pos S)"
  by (rule total_onD) (simp add: leaf_ready_def)

lemma leaf_total:
  assumes "leaf_ready V rec l" shows "succeeds (validate_leaf V rec l rule S)"
proof (cases "math_children l rule")
  case (Some children)
  then have "leaf_val l = VClause children" by (auto simp: math_children_def split: rule_type.splits pvalue.splits if_splits)
  with Some show ?thesis using clause_total [OF assms] by (simp add: validate_leaf_math validate_math_clause_def)
qed (simp add: validate_leaf_plain)

lemma loop_vars_total:
  assumes "list_all (child_known V) children" shows "succeeds (collect_loop_vars V inner children)"
proof -
  have "succeeds (concat_opt (map (loop_vars_named V key) children))" for key
    by (rule concat_opt_total) (use assms in \<open>auto simp: list_all_iff loop_vars_named_def child_known_def succeeds_def split: child.splits\<close>)
  then show ?thesis
    unfolding collect_loop_vars_def
    by (intro concat_opt_total) (auto split: rule_type.splits new_field.splits option.splits)
qed

lemma overload_total:
  assumes "leaf_ready V rec l" shows "succeeds (validate_overload V rec category key l r S)"
proof (cases r)
  case (Pair rule opts)
  show ?thesis
  proof (cases rule)
    case (NodeRule left inner)
    show ?thesis
    proof (cases "leaf_val l")
      case (VClause children)
      then have "succeeds (collect_loop_vars V inner children)" using assms by (simp add: leaf_ready_def loop_vars_total)
      with clause_total [OF assms VClause, of _ "leaf_start l"] show ?thesis
        by (auto simp: Pair NodeRule VClause validate_overload_def Let_def intro!: succeeds_bind)
    qed (simp_all add: Pair NodeRule validate_overload_def)
  qed (simp_all add: leaf_total [OF assms] Pair validate_overload_def)
qed

lemma check_total:
  assumes "leaf_ready V rec l" shows "succeeds (check_overloads V rec category key l os S)"
  unfolding check_overloads_def
  by (simp add: leaf_total [OF assms] pick_total [of "validate_overload V rec category key l", OF overload_total [OF assms]] split: prod.split option.split)

lemma usage_total:
  assumes "leaf_ready V rec l" shows "succeeds (validate_alias_usage V rec category key l S)"
proof -
  have "succeeds (validate_alias_usage_uncached V rec category key l S)"
    by (simp add: validate_alias_usage_uncached_def Let_def check_total [OF assms] split: prod.split)
  then show ?thesis by (simp add: validate_alias_usage_def split: option.split)
qed

lemma against_rule_total:
  assumes "leaf_ready V rec l"
  shows "succeeds (validate_leaf_against_rule V (validate_alias_usage V rec) rec l key rule opts S)"
  using leaf_total [OF assms] clause_total [OF assms] usage_total [OF assms]
  by (simp add: validate_leaf_against_rule_def split: option.split rule_type.split pvalue.split)

lemma candidates_total:
  assumes "leaf_ready V rec l"
  shows "succeeds (validate_candidates V (validate_alias_usage V rec) rec rules l key cands S)"
proof -
  have "succeeds ((case c of (rule, opts) \<Rightarrow> validate_leaf_against_rule V (validate_alias_usage V rec) rec l key rule opts) S)" for c S
    by (cases c) (simp add: against_rule_total [OF assms])
  moreover have "succeeds (rec (clause_children (leaf_val l)) rs pos S)" for rs pos S
    using assms by (simp add: leaf_ready_def total_onD)
  ultimately show ?thesis by (simp add: validate_candidates_def validate_math_clause_def pick_total)
qed

lemma leaf_value_total:
  assumes "total_on (clause_children (lv_value lv)) rec"
  shows "succeeds (validate_leaf_value V rec rules lv S)"
proof (cases "lv_value lv")
  case (VClause children)
  then have "succeeds (rec children rs pos S)" for rs pos using total_onD [OF assms] by simp
  with VClause show ?thesis by (simp add: validate_leaf_value_def split: option.split)
qed (simp_all add: validate_leaf_value_def)

lemma child_step_total:
  assumes "total_on (below V c) rec" "child_known V c" "list_all (child_known V) (below V c)"
  shows "succeeds (child_step V h (validate_alias_usage V rec) rec rules c r)"
proof (cases c)
  case (CLeaf i)
  with assms obtain l where l: "get_leaf V i = Some l" by (auto simp: child_known_def)
  with assms CLeaf have "leaf_ready V rec l" by (simp add: leaf_ready_def below_def)
  from l CLeaf candidates_total [OF this] show ?thesis by (simp add: child_step_def leaf_step_def Let_def)
next
  case (CLeafValue i)
  with assms obtain lv where lv: "get_leaf_value V i = Some lv" by (auto simp: child_known_def)
  with assms CLeafValue leaf_value_total show ?thesis by (simp add: child_step_def leaf_value_step_def Let_def below_def)
qed (simp add: child_step_def)

lemma child_loop_total:
  "(\<And>c r. c \<in> set cs \<Longrightarrow> succeeds (each c r)) \<Longrightarrow> succeeds (child_loop stop each cs r)"
  by (induction cs arbitrary: r) (auto intro!: succeeds_bind)

lemma validate_children_total: "nested V k cs \<Longrightarrow> succeeds (validate_children V h (Suc k) cs rules pos S)"
proof (induction k arbitrary: cs rules pos S)
  case 0
  then show ?case
    by (auto simp: validate_block_def Let_def count_and_validate_children_def enforce_total)
next
  case (Suc k)
  let ?rec = "validate_children V h (Suc k)"
  have step: "succeeds (child_step V h (validate_alias_usage V ?rec) ?rec rs c r)" if "c \<in> set cs" for c rs r
    by (rule child_step_total) (use Suc that nested_known in \<open>auto simp: total_on_def simp del: validate_children.simps\<close>)
  have "list_all (child_known V) cs" using Suc.prems nested_known by blast
  then show ?case
    unfolding validate_children.simps(2) [of V h "Suc k"] validate_block_def Let_def count_and_validate_children_def
    by (auto simp del: validate_children.simps simp: enforce_total intro!: succeeds_bind child_loop_total step)
qed

end
