(* ===== verification/Rule_Plain.thy ===== *)
theory Rule_Plain
  imports Rule_Validate
begin

text \<open>
  The traversal of a block without its tables: the keys of the children are kept as a list, the
  candidates are those of the specification and the cards are computed from the rules and the keys.
  The block of the source is this one, whatever the hasher and whichever of its two ways
  of looking keys up it takes.
\<close>

record plain_run =
  pr_keys :: "ustr list"
  pr_leafvalues :: "nat list"
  pr_valueclauses :: "nat list"
  pr_errors :: "validation_error list"
  pr_state :: vstate

definition plain_push :: "validation_error list \<times> vstate \<Rightarrow> plain_run \<Rightarrow> plain_run" where
  "plain_push = (\<lambda>(es, S) r. r\<lparr>pr_errors := pr_errors r @ es, pr_state := S\<rparr>)"

definition plain_leaf :: "vctx \<Rightarrow> alias_usage \<Rightarrow> recurse \<Rightarrow> new_rule list \<Rightarrow> leaf \<Rightarrow> plain_run \<Rightarrow> plain_run option" where
  "plain_leaf V usage rec rules l r =
     (let key = leaf_key_unquoted V l
      in if eq_ignore_ascii_case key INLINE_SCRIPT then Some r
         else
           map_option (\<lambda>out. plain_push out (r\<lparr>pr_keys := pr_keys r @ [key]\<rparr>))
             (validate_candidates V usage rec rules l key (candidates_spec rules key (vc_rules V) (vc_type_index V)) (pr_state r)))"

definition plain_leaf_value :: "vctx \<Rightarrow> recurse \<Rightarrow> new_rule list \<Rightarrow> leaf_value \<Rightarrow> plain_run \<Rightarrow> plain_run option" where
  "plain_leaf_value V rec rules lv r =
     (let r1 = (if is_clause (lv_value lv)
                then (if list_ex is_valueclause rules then r\<lparr>pr_valueclauses := bump is_valueclause rules (pr_valueclauses r)\<rparr> else r)
                else if list_ex is_leafvalue rules
                then r\<lparr>pr_leafvalues := bump (leafvalue_matches V (lv_value lv)) rules (pr_leafvalues r)\<rparr> else r)
      in map_option (\<lambda>out. plain_push out r1) (validate_leaf_value V rec rules lv (pr_state r)))"

definition plain_child :: "vctx \<Rightarrow> alias_usage \<Rightarrow> recurse \<Rightarrow> new_rule list \<Rightarrow> child \<Rightarrow> plain_run \<Rightarrow> plain_run option" where
  "plain_child V usage rec rules c r =
     (case c of
        CLeaf i \<Rightarrow> Option.bind (get_leaf V i) (\<lambda>l. plain_leaf V usage rec rules l r)
      | CLeafValue i \<Rightarrow> Option.bind (get_leaf_value V i) (\<lambda>lv. plain_leaf_value V rec rules lv r)
      | CComment _ \<Rightarrow> Some r)"

definition plain_cardinality ::
  "vctx \<Rightarrow> child list \<Rightarrow> new_rule list \<Rightarrow> ustr list \<Rightarrow> nat \<times> nat \<Rightarrow> nat list \<Rightarrow> nat list \<Rightarrow> validation_error list option" where
  "plain_cardinality V children rules keys block_pos lvs vcs =
     (if first_keys rules = [] \<and> \<not> list_ex is_leafvalue rules \<and> \<not> list_ex is_valueclause rules then Some []
      else do {
        pos \<leftarrow> block_position V children block_pos;
        keyed \<leftarrow> concat_opt (map (\<lambda>k. card_errors V children pos (key_card_of rules keys k)) (first_keys rules));
        Some (keyed @ concat (map (shape_errors V pos lvs vcs) (List.enumerate 0 rules))) })"

definition plain_block :: "vctx \<Rightarrow> alias_usage \<Rightarrow> recurse \<Rightarrow> recurse" where
  "plain_block V usage rec children unflattened pos S =
     (if stop_traversal S then Some ([], S)
      else
        (let rules = flat_rules unflattened
         in case child_loop (\<lambda>r. stop_traversal (pr_state r)) (plain_child V usage rec rules) children
                \<lparr>pr_keys = [],
                 pr_leafvalues = (if list_ex is_leafvalue rules then replicate (length rules) 0 else []),
                 pr_valueclauses = (if list_ex is_valueclause rules then replicate (length rules) 0 else []),
                 pr_errors = [], pr_state = S\<rparr> of
              None \<Rightarrow> None
            | Some r \<Rightarrow>
                if stop_traversal (pr_state r) then Some (pr_errors r, pr_state r)
                else
                  map_option (\<lambda>es. (pr_errors r @ es, pr_state r))
                    (plain_cardinality V children rules (pr_keys r) pos (pr_leafvalues r) (pr_valueclauses r))))"

section \<open>The tables do not matter\<close>

definition hashed_run :: "(ustr \<Rightarrow> 'h) \<Rightarrow> new_rule list \<Rightarrow> plain_run \<Rightarrow> 'h block_run" where
  "hashed_run h rules r = \<lparr>br_block = counted_block h rules (pr_keys r), br_leafvalues = pr_leafvalues r,
     br_valueclauses = pr_valueclauses r, br_errors = pr_errors r, br_state = pr_state r\<rparr>"

lemma hashed_push: "push_errors out (hashed_run h rules r) = hashed_run h rules (plain_push out r)"
  by (cases out) (simp add: push_errors_def hashed_run_def plain_push_def)

lemma count_counted: "count_key h key (counted_block h rules keys) = counted_block h rules (keys @ [key])"
  by (simp add: counted_block_def)

lemma hashed_leaf:
  "leaf_step V h usage rec rules l (hashed_run h rules r) = map_option (hashed_run h rules) (plain_leaf V usage rec rules l r)"
proof (cases "eq_ignore_ascii_case (leaf_key_unquoted V l) INLINE_SCRIPT")
  case False
  let ?key = "leaf_key_unquoted V l"
  have "hashed_run h rules r\<lparr>br_block := counted_block h rules (pr_keys r @ [?key])\<rparr> = hashed_run h rules (r\<lparr>pr_keys := pr_keys r @ [?key]\<rparr>)"
    by (simp add: hashed_run_def)
  with False show ?thesis
    by (simp add: leaf_step_def plain_leaf_def Let_def count_counted hashed_push option.map_comp comp_def
        block_candidates_spec hashed_run_def [of h rules r] flip: hashed_push)
qed (simp add: leaf_step_def plain_leaf_def)

lemma hashed_leaf_value:
  "leaf_value_step V rec rules lv (hashed_run h rules r) = map_option (hashed_run h rules) (plain_leaf_value V rec rules lv r)"
  by (simp add: leaf_value_step_def plain_leaf_value_def Let_def option.map_comp comp_def flip: hashed_push)
    (simp add: hashed_run_def BlockRules_flags)

lemma hashed_child:
  "child_step V h usage rec rules c (hashed_run h rules r) = map_option (hashed_run h rules) (plain_child V usage rec rules c r)"
proof (cases c)
  case (CLeaf i)
  then show ?thesis by (cases "get_leaf V i") (simp_all add: child_step_def plain_child_def hashed_leaf)
next
  case (CLeafValue i)
  then show ?thesis by (cases "get_leaf_value V i") (simp_all add: child_step_def plain_child_def hashed_leaf_value)
qed (simp add: child_step_def plain_child_def)

lemma loop_map:
  assumes "\<And>c r. each c (f r) = map_option f (each' c r)" "\<And>r. stop (f r) = stop' r"
  shows "child_loop stop each cs (f r) = map_option f (child_loop stop' each' cs r)"
  by (induction cs arbitrary: r) (auto simp: assms split: option.split)

lemma hashed_cardinality:
  "enforce_cardinality V children rules (counted_block h rules keys) pos lvs vcs = plain_cardinality V children rules keys pos lvs vcs"
  by (simp add: enforce_cardinality_def plain_cardinality_def block_any_def counted_cards BlockRules_flags comp_def)

lemma validate_block_plain: "validate_block V h usage rec = plain_block V usage rec"
proof (intro ext)
  fix children unflattened pos S
  let ?rules = "flat_rules unflattened"
  let ?start = "\<lparr>pr_keys = [], pr_leafvalues = (if list_ex is_leafvalue ?rules then replicate (length ?rules) 0 else []),
      pr_valueclauses = (if list_ex is_valueclause ?rules then replicate (length ?rules) 0 else []), pr_errors = [], pr_state = S\<rparr>"
  have "count_and_validate_children V h usage rec children ?rules (BlockRules_of h ?rules) S =
      child_loop (\<lambda>r. stop_traversal (br_state r)) (child_step V h usage rec ?rules) children (hashed_run h ?rules ?start)"
    by (simp add: count_and_validate_children_def hashed_run_def counted_block_def BlockRules_flags)
  also have "\<dots> = map_option (hashed_run h ?rules) (child_loop (\<lambda>r. stop_traversal (pr_state r)) (plain_child V usage rec ?rules) children ?start)"
    by (rule loop_map, rule hashed_child, simp add: hashed_run_def)
  finally show "validate_block V h usage rec children unflattened pos S = plain_block V usage rec children unflattened pos S"
    by (simp add: validate_block_def plain_block_def Let_def hashed_run_def hashed_cardinality split: option.split)
qed

lemma hasher_irrelevant: "validate_children V h n = validate_children V h' n"
  by (induction n) (simp_all add: validate_block_plain)

end
