(* ===== verification/Rule_Memo.thy ===== *)
theory Rule_Memo
  imports Rule_Traversal Rule_Plain
begin

text \<open>
  The memo and the budget of alias branches against a validator that has neither.  The reference takes
  every alias afresh and reserves nothing; the memo of a run is right when each entry holds
  what the reference reports for its key; and a run that is not stopped keeps its memo right and
  reports what the reference reports.
\<close>

section \<open>The reference\<close>

definition alias_usage_ideal :: "vctx \<Rightarrow> recurse \<Rightarrow> alias_usage" where
  "alias_usage_ideal V rec category key l S =
     (let overloads = key_overloads V category key
      in if overloads = [] then Some ([], S) else check_overloads V rec category key l overloads S)"

primrec validate_ideal :: "vctx \<Rightarrow> (ustr \<Rightarrow> 'h) \<Rightarrow> nat \<Rightarrow> recurse" where
  "validate_ideal V h 0 = (\<lambda>children rules pos S. None)"
| "validate_ideal V h (Suc n) = validate_block V h (alias_usage_ideal V (validate_ideal V h n)) (validate_ideal V h n)"

text \<open>The same without tables of keys: no hasher is left.\<close>

primrec reference_children :: "vctx \<Rightarrow> nat \<Rightarrow> recurse" where
  "reference_children V 0 = (\<lambda>children rules pos S. None)"
| "reference_children V (Suc n) = plain_block V (alias_usage_ideal V (reference_children V n)) (reference_children V n)"

lemma ideal_reference: "validate_ideal V h n = reference_children V n"
  by (induction n) (simp_all add: validate_block_plain)

text \<open>The state the reference runs in: nothing spent, nothing remembered.\<close>

definition ideal :: "vstate \<Rightarrow> vstate" where
  "ideal S = S\<lparr>vs_budget := budget_default, vs_memo := []\<rparr>"

lemma ideal_fields [simp]:
  "vs_scope (ideal S) = vs_scope S" "vs_loop_vars (ideal S) = vs_loop_vars S" "\<not> stop_traversal (ideal S)"
  "is_loop_var n (ideal S) = is_loop_var n S" "save_scope (ideal S) = save_scope S"
  by (simp_all add: ideal_def stop_traversal_def budget_default_def is_loop_var_def save_scope_def)

lemma ideal_eqI: "vs_scope S = vs_scope S' \<Longrightarrow> vs_loop_vars S = vs_loop_vars S' \<Longrightarrow> ideal S = ideal S'"
  by (cases S; cases S') (simp add: ideal_def)

lemma ideal_frame: "frame_kept S S' \<Longrightarrow> ideal S' = ideal S"
  by (rule ideal_eqI) (simp_all add: frame_kept_def)

lemma ideal_moves:
  "enter_scope V key opts numeric (ideal S) = ideal (enter_scope V key opts numeric S)"
  "restore_scope sv (ideal S) = ideal (restore_scope sv S)"
  "ideal S\<lparr>vs_loop_vars := lv\<rparr> = ideal (S\<lparr>vs_loop_vars := lv\<rparr>)"
  by (simp_all add: ideal_def enter_scope_def map_scope_def restore_scope_def split: option.split)

text \<open>A bounded computation settles on a value when every large enough bound gives it.\<close>

definition settles :: "(nat \<Rightarrow> 'a option) \<Rightarrow> 'a \<Rightarrow> bool" where
  "settles f r \<longleftrightarrow> (\<exists>m. \<forall>n \<ge> m. f n = Some r)"

lemma settles_const [simp, intro]: "settles (\<lambda>_. Some r) r"
  by (simp add: settles_def)

lemma settles_map: "settles f r \<Longrightarrow> g r = s \<Longrightarrow> settles (\<lambda>n. map_option g (f n)) s"
  by (auto simp: settles_def)

lemma settles_bind:
  assumes "settles f a" "settles (\<lambda>n. g n a) r"
  shows "settles (\<lambda>n. case f n of None \<Rightarrow> None | Some x \<Rightarrow> g n x) r"
proof -
  obtain m1 m2 where "\<forall>n\<ge>m1. f n = Some a" "\<forall>n\<ge>m2. g n a = Some r" using assms by (auto simp: settles_def)
  then have "\<forall>n\<ge>max m1 m2. (case f n of None \<Rightarrow> None | Some x \<Rightarrow> g n x) = Some r" by simp
  then show ?thesis unfolding settles_def by blast
qed

lemma settles_shift: "settles (\<lambda>n. f (Suc n)) r \<Longrightarrow> settles f r"
  unfolding settles_def by (metis Suc_le_D Suc_le_mono)

section \<open>A right memo\<close>

definition known_leaf :: "vctx \<Rightarrow> leaf \<Rightarrow> bool" where
  "known_leaf V l \<longleftrightarrow> l \<in> set (leaves (pf_arena (vc_ast V)))"

definition spans_unique :: "vctx \<Rightarrow> bool" where
  "spans_unique V \<longleftrightarrow> inj_on leaf_pos (set (leaves (pf_arena (vc_ast V))))"

definition has_registry :: "scope_registry option \<Rightarrow> vstate \<Rightarrow> bool" where
  "has_registry reg S \<longleftrightarrow> map_option ctx_registry (vs_scope S) = reg"

definition key_fits :: "alias_memo_key \<Rightarrow> leaf \<Rightarrow> vstate \<Rightarrow> bool" where
  "key_fits k l S \<longleftrightarrow> mk_span k = leaf_pos l \<and> mk_scope k = save_scope S \<and> mk_loop_vars k = vs_loop_vars S"

definition memo_right :: "vctx \<Rightarrow> (ustr \<Rightarrow> 'h) \<Rightarrow> scope_registry option \<Rightarrow> vstate \<Rightarrow> bool" where
  "memo_right V h reg S \<longleftrightarrow> (\<forall>(k, es) \<in> set (vs_memo S). \<forall>l S0. known_leaf V l \<longrightarrow> has_registry reg S0 \<longrightarrow> key_fits k l S0 \<longrightarrow>
     settles (\<lambda>n. alias_usage_ideal V (validate_ideal V h n) (mk_category k) (mk_key k) l (ideal S0)) (es, ideal S0))"

definition good :: "vctx \<Rightarrow> (ustr \<Rightarrow> 'h) \<Rightarrow> scope_registry option \<Rightarrow> vstate \<Rightarrow> bool" where
  "good V h reg S \<longleftrightarrow> spans_unique V \<and> has_registry reg S \<and> memo_right V h reg S"

lemma key_fits_unique:
  assumes "spans_unique V" "known_leaf V l" "known_leaf V l'" "has_registry reg S" "has_registry reg S'"
    and "key_fits k l S" "key_fits k l' S'"
  shows "l' = l \<and> ideal S' = ideal S"
proof -
  have "vs_scope S' = vs_scope S"
    using assms(4-7) by (cases "vs_scope S"; cases "vs_scope S'")
      (auto simp: has_registry_def key_fits_def save_scope_def save_context_def)
  then have "ideal S' = ideal S" using assms(6,7) by (intro ideal_eqI) (simp_all add: key_fits_def)
  moreover have "l' = l" using assms by (auto simp: key_fits_def spans_unique_def known_leaf_def inj_on_def)
  ultimately show ?thesis by simp
qed

lemma good_state:
  "good V h reg (S\<lparr>vs_budget := b\<rparr>) = good V h reg S" "good V h reg (S\<lparr>vs_loop_vars := lv\<rparr>) = good V h reg S"
  by (simp_all add: good_def has_registry_def memo_right_def)

lemma good_enter: "good V h reg (enter_scope W key opts numeric S) = good V h reg S"
  by (simp add: good_def has_registry_def memo_right_def enter_scope_def map_scope_def option.map_comp comp_def)

lemma good_restore: "good V h reg (restore_scope sv S) = good V h reg S"
  by (auto simp: good_def has_registry_def memo_right_def restore_scope_def restore_context_def split: option.split)

lemma good_store:
  assumes "good V h reg S" "known_leaf V l" "has_registry reg S0" "key_fits k l S0"
    and "settles (\<lambda>n. alias_usage_ideal V (validate_ideal V h n) (mk_category k) (mk_key k) l (ideal S0)) (es, ideal S0)"
  shows "good V h reg (alias_memo_store k es S)"
proof -
  have "memo_right V h reg (S\<lparr>vs_memo := AList.update k es (vs_memo S)\<rparr>)"
    unfolding memo_right_def
  proof (safe)
    fix k' es' l' S'
    assume mem: "(k', es') \<in> set (vs_memo (S\<lparr>vs_memo := AList.update k es (vs_memo S)\<rparr>))"
      and l': "known_leaf V l'" "has_registry reg S'" "key_fits k' l' S'"
    show "settles (\<lambda>n. alias_usage_ideal V (validate_ideal V h n) (mk_category k') (mk_key k') l' (ideal S')) (es', ideal S')"
    proof (cases "(k', es') = (k, es)")
      case True
      with key_fits_unique [of V l l' reg S0 S' k] assms l' show ?thesis by (simp add: good_def)
    next
      case False
      with mem have "(k', es') \<in> set (vs_memo S)" using update_entries by fastforce
      with assms(1) l' show ?thesis unfolding good_def memo_right_def by fast
    qed
  qed
  with assms(1) show ?thesis by (auto simp: good_def alias_memo_store_def has_registry_def)
qed

lemma good_reserved: "reserve_alias_branches n p e S = (accepted, S1) \<Longrightarrow> good V h reg S1 = good V h reg S"
  by (auto simp: reserve_alias_branches_def good_state split: prod.splits)

section \<open>Simulation\<close>

definition sim :: "vctx \<Rightarrow> (ustr \<Rightarrow> 'h) \<Rightarrow> scope_registry option \<Rightarrow> (vstate \<Rightarrow> outcome) \<Rightarrow> (nat \<Rightarrow> vstate \<Rightarrow> outcome) \<Rightarrow> bool" where
  "sim V h reg f g \<longleftrightarrow> (\<forall>S es S'. good V h reg S \<longrightarrow> f S = Some (es, S') \<longrightarrow> \<not> stop_traversal S' \<longrightarrow>
     good V h reg S' \<and> settles (\<lambda>n. g n (ideal S)) (es, ideal S))"

lemma simI:
  "(\<And>S es S'. good V h reg S \<Longrightarrow> f S = Some (es, S') \<Longrightarrow> \<not> stop_traversal S' \<Longrightarrow>
     good V h reg S' \<and> settles (\<lambda>n. g n (ideal S)) (es, ideal S)) \<Longrightarrow> sim V h reg f g"
  unfolding sim_def by blast

lemma simD:
  "sim V h reg f g \<Longrightarrow> good V h reg S \<Longrightarrow> f S = Some (es, S') \<Longrightarrow> \<not> stop_traversal S' \<Longrightarrow>
     good V h reg S' \<and> settles (\<lambda>n. g n (ideal S)) (es, ideal S)"
  unfolding sim_def by blast

text \<open>The two recursions: the run's and the bounded ones of the reference.\<close>

definition twins :: "vctx \<Rightarrow> (ustr \<Rightarrow> 'h) \<Rightarrow> scope_registry option \<Rightarrow> recurse \<Rightarrow> (nat \<Rightarrow> recurse) \<Rightarrow> bool" where
  "twins V h reg rec grec \<longleftrightarrow> run.ok rec \<and> (\<forall>children rules p q. sim V h reg (rec children rules (p, q)) (\<lambda>n. grec n children rules (p, q)))"

lemma twinsD: "twins V h reg rec grec \<Longrightarrow> sim V h reg (rec children rules pos) (\<lambda>n. grec n children rules pos)"
  by (cases pos) (simp add: twins_def)

lemma twins_ok: "twins V h reg rec grec \<Longrightarrow> run.ok rec"
  by (simp add: twins_def)

lemma not_stopped_before: "run_of S S' \<Longrightarrow> \<not> stop_traversal S' \<Longrightarrow> \<not> stop_traversal S"
  by (auto simp: run_of_def stop_traversal_def)

lemma ideal_run: "run_of S S' \<Longrightarrow> ideal S' = ideal S"
  by (rule ideal_frame) (simp add: run_of_def)

lemma stop_restore [simp]: "stop_traversal (restore_scope sv S) = stop_traversal S"
  by (simp add: restore_scope_def stop_traversal_def split: option.split)

text \<open>A block that is entered and left.\<close>

lemma sim_entered:
  assumes "twins V h reg rec grec" "good V h reg S" "rec children rules pos (enter_scope V key opts numeric S) = Some (es, S1)"
    and "\<not> stop_traversal S1"
  shows "good V h reg (restore_scope (save_scope S) S1)
    \<and> settles (\<lambda>n. map_option (\<lambda>(es, S1). (es, restore_scope (save_scope S) S1))
        (grec n children rules pos (enter_scope V key opts numeric (ideal S)))) (es, ideal S)"
proof -
  let ?E = "enter_scope V key opts numeric S"
  have run: "run_of ?E S1" using run.okD [OF twins_ok [OF assms(1)] assms(3)] .
  have "restore_scope (save_scope S) (ideal ?E) = ideal S"
    using ideal_run [OF run.left_block [OF run]] ideal_run [OF run] by (metis ideal_moves(2))
  with simD [OF twinsD [OF assms(1)] _ assms(3,4)] assms(2) show ?thesis
    by (auto simp: good_enter good_restore ideal_moves(1) intro: settles_map)
qed

lemma plain_leaf_ideal [simp]: "plain_leaf_errors V l rule (ideal S) = plain_leaf_errors V l rule S"
proof -
  have var: "unset_variable V (ideal S) core = unset_variable V S core" for core by (simp add: unset_variable_def)
  have "check_variable_get V (ideal S) ns raw pos e = check_variable_get V S ns raw pos e" for ns raw pos e
    by (simp only: check_variable_get_def var)
  moreover have "variable_field_errors V (ideal S) l a b = variable_field_errors V S l a b" for a b
    by (simp only: variable_field_errors_def var ideal_fields)
  moreover define target where "target right = fst (scope_target_errors V l right S)" for right
  have "scope_target_errors V l right S = (target right, S)" for right
    unfolding target_def by (metis prod.collapse scope_target_state)
  moreover have "fst (scope_target_errors V l right (ideal S)) = target right" for right
    unfolding target_def by (simp add: scope_target_errors_def split: new_field.split option.split prod.split)
  then have "scope_target_errors V l right (ideal S) = (target right, ideal S)" for right
    by (metis prod.collapse scope_target_state)
  ultimately show ?thesis
    by (cases rule) (simp_all add: plain_leaf_errors_def validate_leaf_def validate_math_clause_def split: new_field.split pvalue.split)
qed

lemma sim_leaf:
  assumes "twins V h reg rec grec"
  shows "sim V h reg (validate_leaf V rec l rule) (\<lambda>n. validate_leaf V (grec n) l rule)"
proof (rule simI)
  fix S es S'
  assume good: "good V h reg S" and res: "validate_leaf V rec l rule S = Some (es, S')" and alive: "\<not> stop_traversal S'"
  show "good V h reg S' \<and> settles (\<lambda>n. validate_leaf V (grec n) l rule (ideal S)) (es, ideal S)"
  proof (cases "math_children l rule")
    case None
    with res good show ?thesis by (auto simp: validate_leaf_plain)
  next
    case (Some children)
    with res obtain S1 where one: "rec children math_clause_rules (leaf_start l) S = Some (es, S1)" "S' = restore_scope (save_scope S) S1"
      by (auto simp: validate_leaf_math validate_math_clause_def)
    have run: "run_of S S1" using run.okD [OF twins_ok [OF assms] one(1)] .
    then have S': "S' = S1" using one(2) restore_frame run.frame by blast
    have "restore_scope (save_scope S) (ideal S) = ideal S" using restore_frame [OF run.frame [OF run]] ideal_run [OF run] by (metis ideal_moves(2))
    with simD [OF twinsD [OF assms] good one(1)] alive S' show ?thesis
      by (auto simp: validate_leaf_math [OF Some] validate_math_clause_def intro: settles_map)
  qed
qed

lemma sim_overload:
  assumes "twins V h reg rec grec"
  shows "sim V h reg (validate_overload V rec category key l r) (\<lambda>n. validate_overload V (grec n) category key l r)"
proof (cases "\<exists>left inner opts. r = (NodeRule left inner, opts)")
  case False
  then have "validate_overload V rec category key l r = validate_leaf V rec l (fst r)" for rec
    by (cases r; cases "fst r") (auto simp: validate_overload_def fun_eq_iff)
  with sim_leaf [OF assms, of l "fst r"] show ?thesis by simp
next
  case True
  then obtain left inner opts where r: "r = (NodeRule left inner, opts)" by blast
  show ?thesis
  proof (rule simI)
    fix S es S'
    assume good: "good V h reg S" and res: "validate_overload V rec category key l r S = Some (es, S')" and alive: "\<not> stop_traversal S'"
    show "good V h reg S' \<and> settles (\<lambda>n. validate_overload V (grec n) category key l r (ideal S)) (es, ideal S)"
    proof (cases "leaf_val l")
      case (VClause children)
      let ?E = "\<lambda>seeded S. enter_scope V key opts True S\<lparr>vs_loop_vars := vs_loop_vars S @ seeded\<rparr>"
      let ?leave = "\<lambda>S1. restore_scope (save_scope S) (S1\<lparr>vs_loop_vars := take (length (vs_loop_vars S)) (vs_loop_vars S1)\<rparr>)"
      have vars: "vs_loop_vars (enter_scope V key opts True S) = vs_loop_vars S" for S
        by (simp add: enter_scope_def map_scope_def)
      from res VClause obtain seeded S1 where seeded: "collect_loop_vars V inner children = Some seeded"
        and one: "rec children inner (leaf_start l) (?E seeded S) = Some (es, S1)" and S': "S' = ?leave S1"
        by (auto simp: r validate_overload_def Let_def vars split: option.splits)
      have run: "run_of (?E seeded S) S1" using run.okD [OF twins_ok [OF assms] one] .
      have alive1: "\<not> stop_traversal S1" using alive S' by simp
      have "run_of S (?leave S1)" by (rule run.left_alias_block [OF run])
      then have "ideal (?leave S1) = ideal S" by (rule ideal_run)
      moreover have "ideal (?leave S1) = ?leave (ideal (?E seeded S))"
      proof -
        have lv: "vs_loop_vars S1 = vs_loop_vars (?E seeded S)" using run.frame [OF run] by (simp add: frame_kept_def)
        have "ideal (S1\<lparr>vs_loop_vars := v\<rparr>) = ideal (?E seeded S)\<lparr>vs_loop_vars := v\<rparr>" for v
          using ideal_run [OF run] by (metis ideal_moves(3))
        then show ?thesis by (simp only: ideal_moves(2) [symmetric] lv ideal_fields)
      qed
      moreover have "?E seeded (ideal S) = ideal (?E seeded S)" by (simp add: ideal_moves)
      moreover have "good V h reg (?E seeded S)" using good by (simp add: good_state good_enter)
      note simD [OF twinsD [OF assms] this one alive1]
      ultimately show ?thesis
        by (auto simp: S' r VClause seeded validate_overload_def Let_def vars good_restore good_state intro: settles_map)
    qed (use res good in \<open>auto simp: r validate_overload_def\<close>)
  qed
qed

lemma sim_pick:
  assumes one: "\<And>c. sim V h reg (validate_one c) (\<lambda>n. gval n c)"
    and run: "\<And>c S es S'. validate_one c S = Some (es, S') \<Longrightarrow> run_of S S'"
    and stop: "\<And>S. stop S \<Longrightarrow> stop_traversal S"
  shows "sim V h reg (pick_loop stop validate_one only_match cs best om) (\<lambda>n. pick_loop stop (gval n) only_match cs best om)"
proof (induction cs arbitrary: best om)
  case Nil
  show ?case by (rule simI) auto
next
  case (Cons c cs)
  have picked: "pick_loop stop validate_one only_match cs best om S = Some (es, S') \<Longrightarrow> run_of S S'" for cs best om S es S'
    by (rule run.pick_ok) (use run in auto)
  show ?case
  proof (rule simI)
    fix S es S'
    assume good: "good V h reg S" and res: "pick_loop stop validate_one only_match (c # cs) best om S = Some (es, S')"
      and alive: "\<not> stop_traversal S'"
    have "run_of S S'" using res by (rule picked)
    then have s0: "\<not> stop S" using not_stopped_before alive stop by blast
    then obtain temp S1 where v: "validate_one c S = Some (temp, S1)" using res by (auto split: option.splits)
    let ?om = "case om of Some x \<Rightarrow> Some x | None \<Rightarrow> only_match c"
    have tail: "run_of S1 S'"
      using res s0 v run.same [of S1] by (auto split: if_splits option.splits dest: picked)
    then have s1: "\<not> stop_traversal S1" using not_stopped_before alive by blast
    have first: "good V h reg S1 \<and> settles (\<lambda>n. gval n c (ideal S)) (temp, ideal S)" by (rule simD [OF one good v s1])
    have same: "ideal S1 = ideal S" by (rule ideal_run [OF run [OF v]])
    have i: "\<not> stop (ideal S)" using stop ideal_fields(3) by blast
    have step: "settles (\<lambda>n. if stop (ideal S) then Some ([], ideal S) else case gval n c (ideal S) of None \<Rightarrow> None
        | Some (temp, S1) \<Rightarrow> G n temp S1) r" if "settles (\<lambda>n. G n temp (ideal S)) r" for G r
      using i settles_bind [OF conjunct2 [OF first], of "\<lambda>n x. case x of (temp, S1) \<Rightarrow> G n temp S1" r] that by simp
    show "good V h reg S' \<and> settles (\<lambda>n. pick_loop stop (gval n) only_match (c # cs) best om (ideal S)) (es, ideal S)"
    proof (cases "temp = [] \<and> only_match c = None")
      case True
      with res s0 v s1 stop have "es = []" "S' = S1" by (auto split: if_splits)
      with True first i show ?thesis unfolding pick_loop.simps by (intro conjI step) simp_all
    next
      case False
      have "pick_loop stop validate_one only_match cs (if temp = [] then best else shorter best temp)
          (if temp = [] then ?om else om) S1 = Some (es, S')"
        using res s0 v s1 stop False by (auto split: if_splits option.splits)
      from simD [OF Cons.IH conjunct1 [OF first] this alive] False same i show ?thesis
        unfolding pick_loop.simps
        by (intro conjI step) (auto split: option.splits if_splits)
    qed
  qed
qed

lemma sim_map:
  assumes "sim V h reg f g" and "good V h reg S" and "map_option (\<lambda>(es, S1). (pre @ es @ post, S1)) (f S) = Some (es, S')"
    and "\<not> stop_traversal S'"
  shows "good V h reg S' \<and> settles (\<lambda>n. map_option (\<lambda>(es, S1). (pre @ es @ post, S1)) (g n (ideal S))) (es, ideal S)"
  using assms(3) simD [OF assms(1,2) _ assms(4)] by (auto intro: settles_map)

lemmas sim_prepend = sim_map [where post = "[]", simplified append_Nil2]

lemma sim_check:
  assumes "twins V h reg rec grec"
  shows "sim V h reg (check_overloads V rec category key l os) (\<lambda>n. check_overloads V (grec n) category key l os)"
proof (rule simI)
  fix S es S'
  assume good: "good V h reg S" and res: "check_overloads V rec category key l os S = Some (es, S')" and alive: "\<not> stop_traversal S'"
  define ce where "ce = fst (scope_command_errors V l key S)"
  have ce: "scope_command_errors V l key S = (ce, S)" unfolding ce_def by (metis prod.collapse scope_command_state)
  have "fst (scope_command_errors V l key (ideal S)) = ce"
    by (simp add: ce_def scope_command_errors_def Let_def split: option.split prod.split)
  then have cei: "scope_command_errors V l key (ideal S) = (ce, ideal S)" by (metis prod.collapse scope_command_state)
  have ae: "alias_scope_errors V category key l os (ideal S) = alias_scope_errors V category key l os S"
    by (simp add: alias_scope_errors_def)
  have pick: "sim V h reg (pick_loop (\<lambda>_. False) (validate_overload V rec category key l) om cs b o1)
      (\<lambda>n. pick_loop (\<lambda>_. False) (validate_overload V (grec n) category key l) om cs b o1)" for om cs b o1
    by (rule sim_pick [OF sim_overload [OF assms]]) (auto dest: run.overload_ok [OF twins_ok [OF assms]])
  show "good V h reg S' \<and> settles (\<lambda>n. check_overloads V (grec n) category key l os (ideal S)) (es, ideal S)"
  proof (cases "math_overload l os")
    case None
    from sim_prepend [OF pick good _ alive, where pre = "ce @ alias_scope_errors V category key l os S"] res None ce cei ae
    show ?thesis by (simp add: check_overloads_def)
  next
    case (Some rule)
    from sim_prepend [OF sim_leaf [OF assms] good _ alive, where pre = "ce @ alias_scope_errors V category key l os S"] res Some ce cei ae
    show ?thesis by (simp add: check_overloads_def)
  qed
qed

lemma sim_uncached:
  assumes "twins V h reg rec grec"
  shows "sim V h reg (validate_alias_usage_uncached V rec category key l) (\<lambda>n. alias_usage_ideal V (grec n) category key l)"
proof (rule simI)
  fix S es S'
  assume good: "good V h reg S" and res: "validate_alias_usage_uncached V rec category key l S = Some (es, S')"
    and alive: "\<not> stop_traversal S'"
  let ?os = "key_overloads V category key"
  have s0: "\<not> stop_traversal S"
    by (rule not_stopped_before [OF run.uncached_ok [OF twins_ok [OF assms] res] alive])
  show "good V h reg S' \<and> settles (\<lambda>n. alias_usage_ideal V (grec n) category key l (ideal S)) (es, ideal S)"
  proof (cases "?os = []")
    case True
    with res s0 good show ?thesis by (auto simp: validate_alias_usage_uncached_def alias_usage_ideal_def)
  next
    case False
    obtain accepted S1 where r: "reserve_overloads V key l ?os S = (accepted, S1)" by fastforce
    have accepted
    proof (rule ccontr)
      assume "\<not> accepted"
      with r res s0 False have "S' = S1" by (auto simp: validate_alias_usage_uncached_def)
      moreover have "stop_traversal S1"
        using r \<open>\<not> accepted\<close> by (auto simp: reserve_overloads_def reserve_alias_branches_def budget_reserve_def stop_traversal_def
            split: if_splits option.splits)
      ultimately show False using alive by simp
    qed
    with res s0 False r have res1: "check_overloads V rec category key l ?os S1 = Some (es, S')"
      by (simp add: validate_alias_usage_uncached_def)
    have "good V h reg S1" "ideal S1 = ideal S"
      using r good by (auto simp: reserve_overloads_def split: if_splits intro: iffD2 [OF good_reserved] ideal_run [OF run_of_reserved])
    with simD [OF sim_check [OF assms] _ res1 alive] False show ?thesis by (simp add: alias_usage_ideal_def)
  qed
qed

lemma usage_good:
  assumes "twins V h reg (validate_children V h k) (validate_ideal V h)" and "known_leaf V l"
  shows "sim V h reg (validate_alias_usage V (validate_children V h k) category key l) (\<lambda>n. alias_usage_ideal V (validate_ideal V h n) category key l)"
proof (rule simI)
  fix S es S'
  assume good: "good V h reg S" and res: "validate_alias_usage V (validate_children V h k) category key l S = Some (es, S')"
    and alive: "\<not> stop_traversal S'"
  show "good V h reg S' \<and> settles (\<lambda>n. alias_usage_ideal V (validate_ideal V h n) category key l (ideal S)) (es, ideal S)"
  proof (cases "alias_memo_key_of category key l S")
    case None
    with res have "validate_alias_usage_uncached V (validate_children V h k) category key l S = Some (es, S')"
      by (simp add: validate_alias_usage_def)
    from simD [OF sim_uncached [OF assms(1)] good this alive] show ?thesis .
  next
    case (Some mk)
    then have mk: "mk_category mk = category" "mk_key mk = key" "key_fits mk l S"
      by (auto simp: alias_memo_key_of_def key_fits_def save_scope_def split: if_splits)
    have reg: "has_registry reg S" using good by (simp add: good_def)
    show ?thesis
    proof (cases "map_of (vs_memo S) mk")
      case None
      with res Some obtain S1 where one: "validate_alias_usage_uncached V (validate_children V h k) category key l S = Some (es, S1)"
        and S': "S' = (if stop_traversal S1 then S1 else alias_memo_store mk es S1)"
        by (auto simp: validate_alias_usage_def)
      have "\<not> stop_traversal S1" using alive S' by auto
      with simD [OF sim_uncached [OF assms(1)] good one this] S' mk reg assms(2) show ?thesis
        by (auto intro!: good_store [of V h reg S1 l S mk])
    next
      case (Some es')
      with res \<open>alias_memo_key_of category key l S = Some mk\<close> have e: "es' = es" "S' = S" by (simp_all add: validate_alias_usage_def)
      from Some have "(mk, es) \<in> set (vs_memo S)" by (simp add: map_of_SomeD e)
      with good reg assms(2) mk show ?thesis unfolding good_def memo_right_def e by fast
    qed
  qed
qed

lemma sim_against_rule:
  assumes "twins V h reg rec grec"
    and usage: "\<And>category key. sim V h reg (usage category key l) (\<lambda>n. gusage n category key l)"
    and usage_run: "\<And>category key l S es S'. usage category key l S = Some (es, S') \<Longrightarrow> run_of S S'"
  shows "sim V h reg (validate_leaf_against_rule V usage rec l key rule opts)
    (\<lambda>n. validate_leaf_against_rule V (gusage n) (grec n) l key rule opts)"
proof (rule simI)
  fix S es S'
  assume good: "good V h reg S" and res: "validate_leaf_against_rule V usage rec l key rule opts S = Some (es, S')"
    and alive: "\<not> stop_traversal S'"
  have s0: "\<not> stop_traversal S"
    by (rule not_stopped_before [OF run.against_rule_ok [OF twins_ok [OF assms(1)] usage_run res] alive])
  have we: "wrong_scope_errors V l key opts (ideal S) = wrong_scope_errors V l key opts S"
    by (simp add: wrong_scope_errors_def)
  show "good V h reg S' \<and> settles (\<lambda>n. validate_leaf_against_rule V (gusage n) (grec n) l key rule opts (ideal S)) (es, ideal S)"
  proof (cases "rule_left_is_ignore rule")
    case True
    with res s0 good show ?thesis by (auto simp: validate_leaf_against_rule_def)
  next
    case ignore: False
    show ?thesis
    proof (cases "aliased_category rule")
      case (Some category)
      from sim_prepend [OF usage good _ alive, where pre = "wrong_scope_errors V l key opts S"] res s0 ignore Some we
      show ?thesis by (simp add: validate_leaf_against_rule_def)
    next
      case None
      show ?thesis
      proof (cases rule)
        case (NodeRule left inner)
        show ?thesis
        proof (cases "leaf_val l")
          case (VClause children)
          with res s0 ignore None NodeRule obtain es1 S1 where one: "rec children inner (leaf_start l) (enter_scope V key opts False S) = Some (es1, S1)"
            "es = wrong_scope_errors V l key opts S @ es1" "S' = restore_scope (save_scope S) S1"
            by (auto simp: validate_leaf_against_rule_def)
          from sim_entered [OF assms(1) good one(1)] alive one(2,3) s0 ignore None NodeRule VClause we show ?thesis
            by (auto simp: validate_leaf_against_rule_def intro: settles_map)
        qed (use res s0 ignore None NodeRule good we in \<open>auto simp: validate_leaf_against_rule_def\<close>)
      next
        case (LeafRule left right)
        from sim_map [OF sim_leaf [OF assms(1)] good _ alive, where pre = "wrong_scope_errors V l key opts S" and post = "default_bool_errors V l opts"]
          res s0 ignore None LeafRule we
        show ?thesis by (simp add: validate_leaf_against_rule_def option.map_comp comp_def split_def)
      qed (use res s0 ignore None good we in \<open>auto simp: validate_leaf_against_rule_def\<close>)
    qed
  qed
qed

definition twin_usage :: "vctx \<Rightarrow> (ustr \<Rightarrow> 'h) \<Rightarrow> scope_registry option \<Rightarrow> alias_usage \<Rightarrow> (nat \<Rightarrow> alias_usage) \<Rightarrow> bool" where
  "twin_usage V h reg usage gusage \<longleftrightarrow> (\<forall>category key l. runs_in run_of (usage category key l)
     \<and> (known_leaf V l \<longrightarrow> sim V h reg (usage category key l) (\<lambda>n. gusage n category key l)))"

lemma twin_usage_run: "twin_usage V h reg usage gusage \<Longrightarrow> usage category key l S = Some (es, S') \<Longrightarrow> run_of S S'"
  by (auto simp: twin_usage_def runs_in_def)

lemma sim_candidates:
  assumes "twins V h reg rec grec" "twin_usage V h reg usage gusage" "known_leaf V l"
  shows "sim V h reg (validate_candidates V usage rec rules l key cands) (\<lambda>n. validate_candidates V (gusage n) (grec n) rules l key cands)"
proof (rule simI)
  fix S es S'
  assume good: "good V h reg S" and res: "validate_candidates V usage rec rules l key cands S = Some (es, S')"
    and alive: "\<not> stop_traversal S'"
  let ?one = "\<lambda>(rule, opts). validate_leaf_against_rule V usage rec l key rule opts"
  let ?gone = "\<lambda>n (rule, opts). validate_leaf_against_rule V (gusage n) (grec n) l key rule opts"
  have one: "sim V h reg (?one c) (\<lambda>n. ?gone n c)" for c
    using sim_against_rule [OF assms(1) _ twin_usage_run [OF assms(2)]] assms(2,3) by (cases c) (simp add: twin_usage_def)
  have runs: "?one c S = Some (es, S') \<Longrightarrow> run_of S S'" for c S es S'
    by (cases c) (auto intro: run.against_rule_ok [OF twins_ok [OF assms(1)] twin_usage_run [OF assms(2)]])
  have pick: "sim V h reg (pick_loop stop_traversal ?one om cs b o1) (\<lambda>n. pick_loop stop_traversal (?gone n) om cs b o1)" for om cs b o1
    by (rule sim_pick [OF one runs])
  consider (math) "is_clause (leaf_val l) \<and> list_ex (\<lambda>(rule, _). rule_right_is_math_expr rule) cands"
    | (none) "\<not> (is_clause (leaf_val l) \<and> list_ex (\<lambda>(rule, _). rule_right_is_math_expr rule) cands)" "cands = []"
    | (some) "\<not> (is_clause (leaf_val l) \<and> list_ex (\<lambda>(rule, _). rule_right_is_math_expr rule) cands)" "cands \<noteq> []"
    by blast
  then show "good V h reg S' \<and> settles (\<lambda>n. validate_candidates V (gusage n) (grec n) rules l key cands (ideal S)) (es, ideal S)"
  proof cases
    case math
    then show ?thesis using simD [OF twinsD [OF assms(1)] good _ alive] res by (simp add: validate_candidates_def validate_math_clause_def)
  next
    case none
    with res good show ?thesis by (auto simp: validate_candidates_def)
  next
    case some
    have "map_option (\<lambda>(es, S1). (matched_leaf_errors V cands l key @ es, S1))
        (pick_loop stop_traversal ?one (\<lambda>(_, opts). only_match_error V l key opts) cands None None S) = Some (es, S')"
      using res some unfolding validate_candidates_def by (simp only: if_False)
    from sim_prepend [OF pick good this alive] some
    show ?thesis unfolding validate_candidates_def by (simp only: if_False)
  qed
qed

lemma sim_leaf_value:
  assumes "twins V h reg rec grec"
  shows "sim V h reg (validate_leaf_value V rec rules lv) (\<lambda>n. validate_leaf_value V (grec n) rules lv)"
proof (rule simI)
  fix S es S'
  assume good: "good V h reg S" and res: "validate_leaf_value V rec rules lv S = Some (es, S')" and alive: "\<not> stop_traversal S'"
  have var: "check_variable_get V (ideal S) ns raw pos e = check_variable_get V S ns raw pos e" for ns raw pos e
    by (simp only: check_variable_get_def unset_variable_def ideal_fields)
  have bare: "bare_value_errors V rules lv (ideal S) = bare_value_errors V rules lv S"
    by (simp only: bare_value_errors_def var)
  show "good V h reg S' \<and> settles (\<lambda>n. validate_leaf_value V (grec n) rules lv (ideal S)) (es, ideal S)"
  proof (cases "\<exists>children inner. lv_value lv = VClause children \<and> first_valueclause rules = Some inner")
    case True
    then show ?thesis using simD [OF twinsD [OF assms, of _ _ "line_col (range_start (lv_pos lv))"] good _ alive] res
      by (auto simp: validate_leaf_value_def)
  next
    case False
    with res good bare show ?thesis by (auto simp: validate_leaf_value_def split: pvalue.splits option.splits)
  qed
qed

definition idealise :: "'h block_run \<Rightarrow> 'h block_run" where
  "idealise r = r\<lparr>br_state := ideal (br_state r)\<rparr>"

lemma push_idealise:
  "ideal S1 = ideal (br_state r) \<Longrightarrow> push_errors (es, ideal (br_state r)) (idealise r) = idealise (push_errors (es, S1) r)"
  by (simp add: push_errors_def idealise_def)

text \<open>Pushing the errors of a simulated check onto a run of a block.\<close>

lemma settles_push:
  assumes "sim V h reg f g" "good V h reg (br_state r)" "map_option (\<lambda>out. push_errors out r) (f (br_state r)) = Some r1"
    and "\<not> stop_traversal (br_state r1)" and runs: "\<And>es S'. f (br_state r) = Some (es, S') \<Longrightarrow> run_of (br_state r) S'"
  shows "good V h reg (br_state r1)
    \<and> settles (\<lambda>n. map_option (\<lambda>out. push_errors out (idealise r)) (g n (ideal (br_state r)))) (idealise r1)"
proof -
  from assms(3) obtain es S1 where f: "f (br_state r) = Some (es, S1)" and r1: "r1 = push_errors (es, S1) r" by auto
  have alive: "\<not> stop_traversal S1" using assms(4) r1 by (simp add: push_errors_def)
  from simD [OF assms(1,2) f alive] have "good V h reg S1" "settles (\<lambda>n. g n (ideal (br_state r))) (es, ideal (br_state r))" by blast+
  with ideal_run [OF runs [OF f]] show ?thesis
    by (auto simp: r1 push_errors_def idealise_def intro: settles_map)
qed

lemma sim_child:
  assumes "twins V h reg rec grec" "twin_usage V h reg usage gusage"
    and "good V h reg (br_state r)" "child_step V h usage rec rules c r = Some r1" "\<not> stop_traversal (br_state r1)"
  shows "good V h reg (br_state r1)
    \<and> settles (\<lambda>n. child_step V h (gusage n) (grec n) rules c (idealise r)) (idealise r1)"
proof (cases c)
  case (CLeaf i)
  with assms(4) obtain l where l: "get_leaf V i = Some l" and step: "leaf_step V h usage rec rules l r = Some r1"
    by (auto simp: child_step_def bind_eq_Some_conv)
  have known: "known_leaf V l" using l by (auto simp: get_leaf_def known_leaf_def Let_def split: if_splits)
  let ?key = "leaf_key_unquoted V l"
  show ?thesis
  proof (cases "eq_ignore_ascii_case ?key INLINE_SCRIPT")
    case True
    with step assms(3) CLeaf l show ?thesis by (auto simp: child_step_def leaf_step_def Let_def)
  next
    case False
    define b where "b = count_key h ?key (br_block r)"
    define cands where "cands = block_matching_candidates h b rules ?key (vc_rules V) (vc_type_index V)"
    have "map_option (\<lambda>out. push_errors out (r\<lparr>br_block := b\<rparr>)) (validate_candidates V usage rec rules l ?key cands (br_state (r\<lparr>br_block := b\<rparr>))) = Some r1"
      using step False by (simp add: leaf_step_def Let_def b_def cands_def)
    from settles_push [OF sim_candidates [OF assms(1,2) known] _ this assms(5)] assms(3)
    have "good V h reg (br_state r1) \<and> settles (\<lambda>n. map_option (\<lambda>out. push_errors out (idealise (r\<lparr>br_block := b\<rparr>)))
        (validate_candidates V (gusage n) (grec n) rules l ?key cands (ideal (br_state r)))) (idealise r1)"
      using run.candidates_ok [OF twins_ok [OF assms(1)] twin_usage_run [OF assms(2)]] by simp
    moreover have "child_step V h (gusage n) (grec n) rules c (idealise r) =
        map_option (\<lambda>out. push_errors out (idealise (r\<lparr>br_block := b\<rparr>))) (validate_candidates V (gusage n) (grec n) rules l ?key cands (ideal (br_state r)))" for n
      using False CLeaf l by (cases r) (simp add: child_step_def leaf_step_def Let_def b_def cands_def idealise_def)
    ultimately show ?thesis by simp
  qed
next
  case (CLeafValue i)
  with assms(4) obtain lv where lv: "get_leaf_value V i = Some lv" and step: "leaf_value_step V rec rules lv r = Some r1"
    by (auto simp: child_step_def bind_eq_Some_conv)
  define r0 where "r0 = (if is_clause (lv_value lv)
      then (if bk_valueclause (br_block r) then r\<lparr>br_valueclauses := bump is_valueclause rules (br_valueclauses r)\<rparr> else r)
      else if bk_leafvalue (br_block r) then r\<lparr>br_leafvalues := bump (leafvalue_matches V (lv_value lv)) rules (br_leafvalues r)\<rparr> else r)"
  have st: "br_state r0 = br_state r" by (simp add: r0_def)
  have "map_option (\<lambda>out. push_errors out r0) (validate_leaf_value V rec rules lv (br_state r0)) = Some r1"
    using step unfolding leaf_value_step_def Let_def r0_def [symmetric] st .
  from settles_push [OF sim_leaf_value [OF assms(1)] _ this assms(5)] assms(3) st
  have "good V h reg (br_state r1) \<and> settles (\<lambda>n. map_option (\<lambda>out. push_errors out (idealise r0))
      (validate_leaf_value V (grec n) rules lv (ideal (br_state r)))) (idealise r1)"
    using run.leaf_value_ok [OF twins_ok [OF assms(1)]] by simp
  moreover have "child_step V h (gusage n) (grec n) rules c (idealise r) =
      map_option (\<lambda>out. push_errors out (idealise r0)) (validate_leaf_value V (grec n) rules lv (ideal (br_state r)))" for n
    using CLeafValue lv by (cases r) (simp add: child_step_def leaf_value_step_def Let_def r0_def idealise_def)
  ultimately show ?thesis by simp
next
  case (CComment i)
  with assms(3,4) show ?thesis by (auto simp: child_step_def)
qed

lemma sim_loop:
  assumes "twins V h reg rec grec" "twin_usage V h reg usage gusage"
  shows "good V h reg (br_state r) \<Longrightarrow> child_loop (\<lambda>r. stop_traversal (br_state r)) (child_step V h usage rec rules) cs r = Some r1
    \<Longrightarrow> \<not> stop_traversal (br_state r1) \<Longrightarrow> good V h reg (br_state r1)
      \<and> settles (\<lambda>n. child_loop (\<lambda>r. stop_traversal (br_state r)) (child_step V h (gusage n) (grec n) rules) cs (idealise r)) (idealise r1)"
proof (induction cs arbitrary: r)
  case (Cons c cs)
  have runs: "child_step V h usage rec rules c r = Some r1 \<Longrightarrow> run_of (br_state r) (br_state r1)" for c r r1
    by (rule run.child_ok [OF twins_ok [OF assms(1)] twin_usage_run [OF assms(2)]])
  have "run_of (br_state r) (br_state r1)" by (rule run.loop_ok [OF runs Cons.prems(2)])
  then have s0: "\<not> stop_traversal (br_state r)" using not_stopped_before Cons.prems(3) by blast
  with Cons.prems(2) obtain r0 where one: "child_step V h usage rec rules c r = Some r0"
    and tail: "child_loop (\<lambda>r. stop_traversal (br_state r)) (child_step V h usage rec rules) cs r0 = Some r1"
    by (auto split: option.splits)
  have "run_of (br_state r0) (br_state r1)" by (rule run.loop_ok [OF runs tail])
  then have "\<not> stop_traversal (br_state r0)" using not_stopped_before Cons.prems(3) by blast
  from sim_child [OF assms Cons.prems(1) one this] Cons.IH [OF _ tail Cons.prems(3)]
  have first: "settles (\<lambda>n. child_step V h (gusage n) (grec n) rules c (idealise r)) (idealise r0)"
    and rest: "good V h reg (br_state r1)
      \<and> settles (\<lambda>n. child_loop (\<lambda>r. stop_traversal (br_state r)) (child_step V h (gusage n) (grec n) rules) cs (idealise r0)) (idealise r1)"
    by blast+
  have "\<not> stop_traversal (br_state (idealise r))" by (simp add: idealise_def)
  with rest show ?case
    using settles_bind [OF first, of "\<lambda>n r. child_loop (\<lambda>r. stop_traversal (br_state r)) (child_step V h (gusage n) (grec n) rules) cs r" "idealise r1"]
    by simp
qed auto

lemma twins_block:
  assumes "twins V h reg rec grec" "twin_usage V h reg usage gusage"
  shows "sim V h reg (validate_block V h usage rec children rules pos) (\<lambda>n. validate_block V h (gusage n) (grec n) children rules pos)"
proof (rule simI)
  fix S es S'
  assume good: "good V h reg S" and res: "validate_block V h usage rec children rules pos S = Some (es, S')" and alive: "\<not> stop_traversal S'"
  let ?rules = "flat_rules rules"
  have runs: "run.ok (validate_block V h usage rec)"
    by (rule run.block_kept [OF twins_ok [OF assms(1)] twin_usage_run [OF assms(2)]])
  have s0: "\<not> stop_traversal S" by (rule not_stopped_before [OF run.okD [OF runs res] alive])
  from res s0 obtain r where r: "count_and_validate_children V h usage rec children ?rules (BlockRules_of h ?rules) S = Some r"
    by (auto simp: validate_block_def Let_def split: option.splits)
  have out: "map_option (\<lambda>es. (br_errors r @ es, br_state r))
      (enforce_cardinality V children ?rules (br_block r) pos (br_leafvalues r) (br_valueclauses r)) = Some (es, S')"
    and S': "S' = br_state r"
    using res s0 r alive by (auto simp: validate_block_def Let_def split: if_splits)
  have "good V h reg (br_state r)
      \<and> settles (\<lambda>n. count_and_validate_children V h (gusage n) (grec n) children ?rules (BlockRules_of h ?rules) (ideal S)) (idealise r)"
    using sim_loop [OF assms _ r [unfolded count_and_validate_children_def]] good alive S'
    by (simp add: count_and_validate_children_def idealise_def)
  moreover have "ideal (br_state r) = ideal S" using ideal_run [OF run.okD [OF runs res]] S' by simp
  ultimately show "good V h reg S' \<and> settles (\<lambda>n. validate_block V h (gusage n) (grec n) children rules pos (ideal S)) (es, ideal S)"
    using out S' settles_bind [of "\<lambda>n. count_and_validate_children V h (gusage n) (grec n) children ?rules (BlockRules_of h ?rules) (ideal S)" "idealise r"
        "\<lambda>n r. if stop_traversal (br_state r) then Some (br_errors r, br_state r) else map_option (\<lambda>es. (br_errors r @ es, br_state r))
              (enforce_cardinality V children ?rules (br_block r) pos (br_leafvalues r) (br_valueclauses r))" "(es, ideal S)"]
    by (auto simp: validate_block_def Let_def idealise_def)
qed

lemma twins_children: "twins V h reg (validate_children V h k) (validate_ideal V h)"
proof (induction k)
  case 0
  show ?case by (simp add: twins_def sim_def run.ok_def runs_in_def)
next
  case (Suc k)
  have usage: "twin_usage V h reg (validate_alias_usage V (validate_children V h k)) (\<lambda>n. alias_usage_ideal V (validate_ideal V h n))"
    using usage_good [OF Suc] run.usage_ok [OF twins_ok [OF Suc]] by (auto simp: twin_usage_def runs_in_def)
  show ?case unfolding twins_def
  proof (intro conjI allI)
    show "run.ok (validate_children V h (Suc k))" by (rule run.children_ok)
    show "sim V h reg (validate_children V h (Suc k) children rules (p, q)) (\<lambda>n. validate_ideal V h n children rules (p, q))" for children rules p q
    proof (rule simI)
      fix S es S'
      assume "good V h reg S" "validate_children V h (Suc k) children rules (p, q) S = Some (es, S')" "\<not> stop_traversal S'"
      with simD [OF twins_block [OF Suc usage]]
      have "good V h reg S' \<and> settles (\<lambda>n. validate_ideal V h (Suc n) children rules (p, q) (ideal S)) (es, ideal S)"
        by simp
      then show "good V h reg S' \<and> settles (\<lambda>n. validate_ideal V h n children rules (p, q) (ideal S)) (es, ideal S)"
        using settles_shift [of "\<lambda>n. validate_ideal V h n children rules (p, q) (ideal S)"] by blast
    qed
  qed
qed

lemma run_matches_reference:
  assumes "spans_unique V" "vs_memo S = []" "validate_children V h k children rules pos S = Some (es, S')" "\<not> stop_traversal S'"
  shows "\<exists>m. \<forall>n \<ge> m. reference_children V n children rules pos (ideal S) = Some (es, ideal S)"
proof -
  have "good V h (map_option ctx_registry (vs_scope S)) S"
    using assms(1,2) by (simp add: good_def has_registry_def memo_right_def)
  from simD [OF twinsD [OF twins_children] this assms(3,4)] show ?thesis by (simp add: settles_def ideal_reference)
qed

end
