(* ===== verification/Rule_Choice.thy ===== *)
theory Rule_Choice
  imports Rule_Validate
begin

text \<open>
  What the choice among candidates reports: \<^verbatim>\<open>pick_best_candidate\<close> and the loop over the
  overloads of an alias, against a description without accumulators.
\<close>

text \<open>The results of the candidates in turn, up to and including the first clean one without a message of its own.\<close>

fun tried :: "('c \<Rightarrow> vstate \<Rightarrow> outcome) \<Rightarrow> ('c \<Rightarrow> validation_error option) \<Rightarrow> 'c list \<Rightarrow> vstate
    \<Rightarrow> ((validation_error list \<times> validation_error option) list \<times> vstate) option" where
  "tried validate_one only_match [] S = Some ([], S)"
| "tried validate_one only_match (c # cs) S =
     (case validate_one c S of
        None \<Rightarrow> None
      | Some (temp, S1) \<Rightarrow>
          if temp = [] \<and> only_match c = None then Some ([([], None)], S1)
          else map_option (\<lambda>(ts, S2). ((temp, only_match c) # ts, S2)) (tried validate_one only_match cs S1))"

definition shortest :: "'a list list \<Rightarrow> 'a list" where
  "shortest ls = (case filter (\<lambda>t. \<forall>u \<in> set ls. length t \<le> length u) ls of t # _ \<Rightarrow> t | [] \<Rightarrow> [])"

definition messages :: "('a list \<times> 'b option) list \<Rightarrow> 'b list" where
  "messages ts = List.map_filter (\<lambda>(temp, custom). if temp = [] then custom else None) ts"

definition failed :: "('a list \<times> 'b option) list \<Rightarrow> 'a list list" where
  "failed ts = filter (\<lambda>temp. temp \<noteq> []) (map fst ts)"

definition choice :: "('a list \<times> 'a option) list \<Rightarrow> 'a list" where
  "choice ts = (if ([], None) \<in> set ts then [] else case messages ts of custom # _ \<Rightarrow> [custom] | [] \<Rightarrow> shortest (failed ts))"

lemma shorter_fold: "fold (\<lambda>t b. shorter b t) ls None = (if ls = [] then None else Some (shortest ls))"
proof (induction ls rule: rev_induct)
  case (snoc x ls)
  show ?case
  proof (cases "ls = []")
    case False
    obtain t ts where f: "filter (\<lambda>t. \<forall>u \<in> set ls. length t \<le> length u) ls = t # ts"
    proof (cases "filter (\<lambda>t. \<forall>u \<in> set ls. length t \<le> length u) ls")
      case Nil
      have "\<exists>t \<in> set ls. \<forall>u \<in> set ls. length t \<le> length u"
        using False by (metis (no_types, lifting) arg_min_list_in f_arg_min_list_f finite_set image_iff Min_le list.set_map)
      with Nil show ?thesis by (auto simp: filter_empty_conv)
    qed (use that in blast)
    then have t: "shortest ls = t" by (simp add: shortest_def)
    have min: "\<forall>u \<in> set ls. length t \<le> length u" using filter_eq_ConsD [OF f] by blast
    show ?thesis
    proof (cases "length t \<le> length x")
      case True
      have mem: "t \<in> set ls" using filter_eq_ConsD [OF f] by auto
      have "filter (\<lambda>v. \<forall>u \<in> set (ls @ [x]). length v \<le> length u) ls = filter (\<lambda>v. \<forall>u \<in> set ls. length v \<le> length u) ls"
      proof (rule filter_cong)
        fix v assume "v \<in> set ls"
        show "(\<forall>u \<in> set (ls @ [x]). length v \<le> length u) = (\<forall>u \<in> set ls. length v \<le> length u)"
          using le_trans [OF _ True, of "length v"] mem by auto
      qed simp
      then have "shortest (ls @ [x]) = t" by (simp add: shortest_def f)
      with snoc False t True show ?thesis by (simp add: shorter_def)
    next
      case less: False
      have none: "filter (\<lambda>v. \<forall>u \<in> set (ls @ [x]). length v \<le> length u) ls = []"
        using min less by (auto simp: filter_empty_conv)
      have "\<forall>u \<in> set (ls @ [x]). length x \<le> length u" using min less by auto
      with none have "shortest (ls @ [x]) = x" by (simp add: shortest_def)
      with snoc False t less show ?thesis by (simp add: shorter_def)
    qed
  qed (simp add: shorter_def shortest_def)
qed simp

lemma pick_tried:
  assumes persists: "\<And>c S es S'. validate_one c S = Some (es, S') \<Longrightarrow> stop S \<Longrightarrow> stop S'"
  shows "pick_loop stop validate_one only_match cs best om S = Some (es, S') \<Longrightarrow> \<not> stop S' \<Longrightarrow>
    \<exists>ts. tried validate_one only_match cs S = Some (ts, S')
      \<and> es = (if ([], None) \<in> set ts then []
              else verdict (fold (\<lambda>t b. shorter b t) (failed ts) best)
                     (case om of Some custom \<Rightarrow> Some custom | None \<Rightarrow> (case messages ts of custom # _ \<Rightarrow> Some custom | [] \<Rightarrow> None)))"
proof (induction cs arbitrary: best om S)
  case Nil
  then show ?case by (auto simp: failed_def messages_def map_filter_simps split: option.split)
next
  case (Cons c cs)
  show ?case
  proof (cases "validate_one c S")
    case None
    with Cons.prems show ?thesis by (auto split: if_splits)
  next
    case (Some r)
    obtain temp S1 where r: "r = (temp, S1)" by (cases r)
    have alive: "\<not> stop S" "\<not> stop S1" using Cons.prems Some r persists by (auto split: if_splits)
    show ?thesis
    proof (cases "temp = [] \<and> only_match c = None")
      case True
      with Cons.prems Some r alive show ?thesis by auto
    next
      case False
      let ?best = "if temp = [] then best else shorter best temp"
      let ?om = "if temp = [] then (case om of Some x \<Rightarrow> Some x | None \<Rightarrow> only_match c) else om"
      have "pick_loop stop validate_one only_match cs ?best ?om S1 = Some (es, S')"
        using Cons.prems(1) Some r alive False by (auto split: if_splits option.splits)
      from Cons.IH [OF this Cons.prems(2)] obtain ts where ts: "tried validate_one only_match cs S1 = Some (ts, S')"
        "es = (if ([], None) \<in> set ts then [] else verdict (fold (\<lambda>t b. shorter b t) (failed ts) ?best)
           (case ?om of Some custom \<Rightarrow> Some custom | None \<Rightarrow> (case messages ts of custom # _ \<Rightarrow> Some custom | [] \<Rightarrow> None)))"
        by blast
      have "tried validate_one only_match (c # cs) S = Some ((temp, only_match c) # ts, S')"
        using Some r False ts(1) by (simp del: de_Morgan_conj)
      moreover have "([], None) \<in> set ((temp, only_match c) # ts) \<longleftrightarrow> ([], None) \<in> set ts" using False by auto
      moreover have "fold (\<lambda>t b. shorter b t) (failed ((temp, only_match c) # ts)) best = fold (\<lambda>t b. shorter b t) (failed ts) ?best"
        by (simp add: failed_def)
      moreover have "(case om of Some custom \<Rightarrow> Some custom | None \<Rightarrow> (case messages ((temp, only_match c) # ts) of custom # _ \<Rightarrow> Some custom | [] \<Rightarrow> None))
          = (case ?om of Some custom \<Rightarrow> Some custom | None \<Rightarrow> (case messages ts of custom # _ \<Rightarrow> Some custom | [] \<Rightarrow> None))"
        using False by (auto simp: messages_def map_filter_simps split: option.split)
      ultimately show ?thesis using ts(2) by (intro exI [of _ "(temp, only_match c) # ts"]) simp
    qed
  qed
qed

lemma pick_choice:
  assumes persists: "\<And>c S es S'. validate_one c S = Some (es, S') \<Longrightarrow> stop S \<Longrightarrow> stop S'"
    and res: "pick_loop stop validate_one only_match cs None None S = Some (es, S')" and alive: "\<not> stop S'"
  shows "\<exists>ts. tried validate_one only_match cs S = Some (ts, S') \<and> es = choice ts"
proof -
  have "\<exists>ts. tried validate_one only_match cs S = Some (ts, S')
      \<and> es = (if ([], None) \<in> set ts then [] else verdict (fold (\<lambda>t b. shorter b t) (failed ts) None)
         (case None of Some custom \<Rightarrow> Some custom | None \<Rightarrow> (case messages ts of custom # _ \<Rightarrow> Some custom | [] \<Rightarrow> None)))"
    by (rule pick_tried [OF persists res alive])
  moreover have "(if ([], None) \<in> set ts then [] else verdict (fold (\<lambda>t b. shorter b t) (failed ts) None)
       (case None of Some custom \<Rightarrow> Some custom | None \<Rightarrow> (case messages ts of custom # _ \<Rightarrow> Some custom | [] \<Rightarrow> None))) = choice ts" for ts
    by (simp add: choice_def verdict_def shorter_fold split: list.split) (simp add: shortest_def)
  ultimately show ?thesis by simp
qed

end
