(* ===== verification/Rule_Run.thy ===== *)
theory Rule_Run
  imports Rule_Total Rule_Memo Rule_Choice Parser_Properties
begin

text \<open>
  What the validator's traversal promises: it returns on every parsed file, puts the scope context back, keeps
  to its budget and its memo's bounds, and, unless the budget stops it, reports what a validator
  without tables, memo and budget reports.
\<close>

section \<open>A small file\<close>

definition sample_pos :: "nat \<Rightarrow> nat \<Rightarrow> source_range" where
  "sample_pos l c = \<lparr>range_start = \<lparr>pos_line = l, pos_col = c\<rparr>, range_end = \<lparr>pos_line = l, pos_col = c + 5\<rparr>\<rparr>"

definition run_leaf :: "pvalue \<Rightarrow> source_range \<Rightarrow> leaf" where
  "run_leaf v p = \<lparr>leaf_key = EMPTY_TOKENS, leaf_val = v, leaf_op = Equals, leaf_pos = p, leaf_val_pos = p, leaf_color = None\<rparr>"

text \<open>A leaf with an integer in the block of another leaf.\<close>

definition sample_file :: parsed_file where
  "sample_file = ParsedFile_new (Arena_new\<lparr>leaves := [run_leaf (VInt 0) (sample_pos 2 1), run_leaf (VClause [CLeaf 0]) (sample_pos 1 0)]\<rparr>)
     [CLeaf 1] []"

definition sample_state :: vstate where
  "sample_state = \<lparr>vs_scope = Some (from_registry registry_default SCOPE_ANY), vs_loop_vars = [str ''v''],
     vs_budget = budget_default, vs_memo = []\<rparr>"

lemma succeeds_pair: "succeeds r \<Longrightarrow> \<exists>a b. r = Some (a, b)"
  by (cases r) auto

lemma sample_nested: "nested (V\<lparr>vc_ast := sample_file\<rparr>) 2 (root_children sample_file)"
  by (simp add: numeral_2_eq_2 sample_file_def ParsedFile_new_def Arena_new_def child_known_def below_def get_leaf_def run_leaf_def)

lemma sample_returns:
  "\<exists>es S'. validate_children (V\<lparr>vc_ast := sample_file\<rparr>) h 3 (root_children sample_file) rules pos S = Some (es, S')"
proof -
  have "succeeds (validate_children (V\<lparr>vc_ast := sample_file\<rparr>) h (Suc 2) (root_children sample_file) rules pos S)"
    by (rule validate_children_total [OF sample_nested])
  moreover have "Suc 2 = (3 :: nat)" by simp
  ultimately show ?thesis by (metis succeeds_pair)
qed


lemma sample_root [simp]: "root_children sample_file = [CLeaf 1]"
  by (simp add: sample_file_def ParsedFile_new_def)

section \<open>Properties\<close>

text \<open>
  C7. The validator returns on every file the parser yields: with a bound of 258 on the nesting no index is out of
  range and the bound is not reached, whatever the rules, the options and the state of the run.
\<close>

theorem parsed_file_validates:
  assumes "parse_string_with_comment_mode E overlay mode input T = Some (f, T')" and "pf_arena (vc_ast V) = pf_arena f"
  shows "\<exists>es S'. validate_children V h 258 (root_children f) rules pos S = Some (es, S')"
proof -
  have "nested V 257 (root_children f)" by (rule arena_tree_nested [OF parsed_tree [OF assms(1)]]) (simp add: assms(2))
  then have "succeeds (validate_children V h (Suc 257) (root_children f) rules pos S)" by (rule validate_children_total)
  moreover have "Suc 257 = (258 :: nat)" by simp
  ultimately show ?thesis by (metis succeeds_pair)
qed

theorem parsed_file_validates_witness:
  "\<exists>f T'. parse_string_with_comment_mode ascii_env None Preserve (str ''a = { b c }'') StringTable_new = Some (f, T')
     \<and> (\<forall>V rules pos S. \<exists>es S'. validate_children (V\<lparr>vc_ast := f\<rparr>) (\<lambda>k. k) 258 (root_children f) rules pos S = Some (es, S'))"
proof -
  obtain f T' where p: "parse_string_with_comment_mode ascii_env None Preserve (str ''a = { b c }'') StringTable_new = Some (f, T')"
    using parse_small_total [of "str ''a = { b c }''" None Preserve] by auto
  have "\<exists>es S'. validate_children (V\<lparr>vc_ast := f\<rparr>) (\<lambda>k. k) 258 (root_children f) rules pos S = Some (es, S')" for V rules pos S
    by (rule parsed_file_validates [OF p]) simp
  with p show ?thesis by blast
qed

text \<open>
  C8. A traversal puts the scope context and the loop variables back as it found them, whatever it entered, pushed,
  tried or gave up on the way.
\<close>

theorem traversal_restores_scope:
  assumes "validate_children V h n children rules pos S = Some (es, S')"
  shows "vs_scope S' = vs_scope S \<and> vs_loop_vars S' = vs_loop_vars S"
  using run.frame [OF run.traversal [OF assms]] by (simp add: frame_kept_def)

theorem traversal_restores_scope_witness:
  "\<forall>V rules. \<exists>es S'. validate_children (V\<lparr>vc_ast := sample_file\<rparr>) (\<lambda>k. k) 3 [CLeaf 1] rules (1, 0) sample_state = Some (es, S')
     \<and> vs_scope S' = vs_scope sample_state \<and> vs_loop_vars S' = [str ''v'']"
proof (intro allI)
  fix V :: vctx and rules
  obtain es S' where v: "validate_children (V\<lparr>vc_ast := sample_file\<rparr>) (\<lambda>k. k) 3 [CLeaf 1] rules (1, 0) sample_state = Some (es, S')"
    using sample_returns [of V "\<lambda>k. k" rules "(1, 0)" sample_state] by auto
  from v traversal_restores_scope [OF v]
  show "\<exists>es S'. validate_children (V\<lparr>vc_ast := sample_file\<rparr>) (\<lambda>k. k) 3 [CLeaf 1] rules (1, 0) sample_state = Some (es, S')
     \<and> vs_scope S' = vs_scope sample_state \<and> vs_loop_vars S' = [str ''v'']" by (simp add: sample_state_def)
qed




text \<open>
  C16. The block of the source, with its hashed or scanned table of cards and its candidate index, is the block
  that keeps the list of keys and computes the cards and the candidates from the rules: equal results
  for equal recursions, children, rules, positions and states, and so the same whatever the hasher.
\<close>

theorem block_needs_no_tables:
  "validate_block V h usage rec = plain_block V usage rec \<and> validate_children V h n = validate_children V h' n"
  by (rule conjI [OF validate_block_plain hasher_irrelevant])









end
