(* ===== verification/Spec2Isabelle.thy ===== *)
theory Spec2Isabelle
  imports String_Table Parser_Properties Text_Fix Scope_Rules Loc_Pipeline Cache_Entries Suggest Path_Match
    Type_Index_Props Rule_Overloads Rule_Run
begin

text \<open>
  A verification development of the engine of cwtools-vscode, the Rust language server for the
  script files of Paradox games (\<^verbatim>\<open>src/engine/crates\<close>).

  \<^bold>\<open>The program.\<close>  A script file is read by a recursive-descent parser (\<^verbatim>\<open>parser/src/parser.rs\<close>)
  into an arena of leaves, values and comments (\<^verbatim>\<open>parser/src/ast.rs\<close>), whose texts are tokens of
  a shared string table (\<^verbatim>\<open>string_table/src/string_table.rs\<close>).  Parsed files are kept on disk in a
  cache (\<^verbatim>\<open>cache/src\<close>), and what they declare (instances of types, names, variables, paths) in
  indexes that follow the files as they change (\<^verbatim>\<open>index/src\<close>).  A game's configuration is a set of
  rules with derived tables (\<^verbatim>\<open>rules/src\<close>).  The validator (\<^verbatim>\<open>validation/src\<close>) walks the tree of
  a file against the rules of its type: it matches each key with the rules of its block, checks each value
  against the field of a candidate, tries the aliases a key may stand for, and counts occurrences against
  cardinalities.  It carries a scope context (\<^verbatim>\<open>game/src/scope_engine/engine.rs\<close>), a stack of the scopes
  entered, over the registry of scopes and links of the configuration
  (\<^verbatim>\<open>game/src/scope_registry.rs\<close>), and asks the indexes which names exist.  Localisation files have
  their own line-based parsers, index and checks (\<^verbatim>\<open>localization/src\<close>), and their bracketed commands
  are resolved by the same scope engine.  A diagnostic may carry a fix, a list of edits by source
  position, which \<^verbatim>\<open>parser/src/fix.rs\<close> plans and applies to the text of the file.

  \<^bold>\<open>The theories.\<close>
  \<^item> \<open>Prelude\<close>: what the crates share of the Rust standard library (characters, \<^verbatim>\<open>str\<close>
    operations, UTF-8 lengths and byte slices, lines), with the lemmas about it.
  \<^item> \<open>String_Table\<close>: the interner, with its 32-bit ids as machine words: sharded base table,
    overlay regions with generations, batches, the snapshot resolver, statistics.  The locale
    \<open>interner\<close> is what a client relies on; it is interpreted on \<open>intern\<close> and \<open>get_string\<close>.
  \<^item> \<open>Paradox_Ast\<close> and \<open>Paradox_Parser\<close>: the arena and the parser, function by function.
    \<open>Parser_Relations\<close> proves once, in the locales \<open>scan_relation\<close>, \<open>lexer_relation\<close> and
    \<open>parse_relation\<close>, that a relation kept by the primitive steps is kept by every parsing
    function; \<open>Parser_Tree\<close>, \<open>Parser_Ranges\<close>, \<open>Parser_Total\<close> and \<open>Parser_Comments\<close> instantiate
    it, and \<open>Parser_Properties\<close> states the results.
  \<^item> \<open>Text_Fix\<close>: positions, the column cache of \<^verbatim>\<open>PositionLookup\<close>, planning and applying edits.
    The locale \<open>position_oracle\<close> is the contract of the lookup, interpreted on the cache.
  \<^item> \<open>Cache_Convert\<close>: the on-disk form of a parsed file, its checks and the way back
    (\<^verbatim>\<open>convert.rs\<close>), with the properties in \<open>Cache_Properties\<close>.  \<open>Cache_Store\<close>: files, keys and
    entries of the cache over a file system whose operations may fail (\<^verbatim>\<open>io.rs\<close>,
    \<^verbatim>\<open>workspace.rs\<close>), with the properties in \<open>Cache_Entries\<close>.
  \<^item> \<open>Name_Index\<close>: the counted names of scripted localisations, GUI elements, named values and
    variables; the locales \<open>counter\<close> and \<open>per_file_index\<close> are interpreted on the flat and on the
    nested indexes.  \<open>File_Index\<close>: the files of the game and of the mod.
  \<^item> \<open>Type_Index\<close>: the instances of types, their positions, the derived names and the journal of
    changes (\<^verbatim>\<open>type_index.rs\<close>, \<^verbatim>\<open>derived.rs\<close>).  \<open>Type_Index_Ok\<close> is the invariant,
    \<open>Type_Index_Batch\<close> the batch removal, \<open>Type_Index_Files\<close> histories of files and
    \<open>Type_Index_Props\<close> the results.  \<open>Path_Match\<close>: which files a type covers.
  \<^item> \<open>Rule_Types\<close> and \<open>Rule_Index\<close>: a rule set and the tables \<^verbatim>\<open>reindex\<close> derives.
    \<open>Rule_Matching\<close>: the candidates of a key (\<^verbatim>\<open>rule_core/matching.rs\<close>).  \<open>Rule_Overloads\<close>: the
    aliases a key may stand for.  \<open>Rule_Check\<close>: the checks of one leaf or block that do not descend
    (\<^verbatim>\<open>common.rs\<close>, \<^verbatim>\<open>ctx.rs\<close>, \<^verbatim>\<open>loc_field.rs\<close>, parts of \<^verbatim>\<open>rule_core/leaf.rs\<close> and
    \<^verbatim>\<open>children.rs\<close>).  \<open>Rule_Block\<close>: the table of the keys of a block and the cardinalities.
    \<open>Rule_Validate\<close>: the traversal (\<^verbatim>\<open>children.rs\<close>, \<^verbatim>\<open>leaf.rs\<close>, \<^verbatim>\<open>alias.rs\<close>).
    \<open>Suggest\<close>: the did-you-mean suggestions.
  \<^item> The proofs about the traversal: \<open>Rule_Traversal\<close> shows once, in the locale \<open>run_relation\<close>, that
    a relation kept by the few operations on the state of a run is kept by every function, and
    interprets it on \<open>run_of\<close>; \<open>Rule_Total\<close> bounds the recursion; \<open>Rule_Plain\<close> replaces the tables of a
    block by their meaning; \<open>Rule_Memo\<close> compares a run with one that has no memo and no budget;
    \<open>Rule_Choice\<close> describes the choice among candidates.  \<open>Rule_Run\<close> states the results.
  \<^item> \<open>Scope_Registry\<close>, \<open>Scope_Engine\<close>, \<open>Scope_Rules\<close>: the registry and its depth-first subscope
    search, the moves of a scope context, and how the validator uses them.  The locale
    \<open>context_invariant\<close> lifts an invariant of the engine's operations to the validator's, and
    \<open>scope_run\<close> is the inductive relation of their runs.
  \<^item> \<open>Loc_String\<close>: languages, and the scanner of a localisation value (references, brackets,
    command chains).  \<open>Loc_Yaml\<close>: the parsers of \<^verbatim>\<open>.yml\<close> and comma-separated files.
    \<open>Loc_Validation\<close>: the checks of an entry and the quote fix.  \<open>Loc_Scopes\<close>: the scope checks
    of commands.  \<open>Loc_Index\<close>: the loaded files and the index of keys.  \<open>Loc_Pipeline\<close>: the
    diagnostics of a project.

  A Rust struct is a record and an enum a datatype; a method with \<^verbatim>\<open>&mut self\<close> returns the new
  state; \<^verbatim>\<open>Result\<close> is a sum with the error on the left; a possible panic is \<open>None\<close>.

  \<^bold>\<open>What is shown.\<close>
  \<^item> Strings: interning resolves to the text and its lowercase form, is stable and canonical,
    keeps the table well formed over every history, never confuses an id of a dropped overlay
    with a later one, and does not panic below the capacity of a shard.
  \<^item> Parser: every text parses, without a panic, to a file whose children are a tree over the
    arena, each entry once, at most 256 clauses deep, with resolving tokens and forward ranges;
    comments read back from the pool; parsing with and without comments agrees.
  \<^item> Edits: the column cache answers as the plain function; positions of the parser address the
    byte they stand for; edits are spliced in, in any order of the list, and a plan keeps
    non-overlapping edits only.
  \<^item> Cache: a parsed file written to the cache loads back to the same tree; whatever an accepted file
    holds, it is safe to use; the depth check ends on cyclic files too; writes are atomic under every
    schedule of failures, and reads and decompression keep to their caps.
  \<^item> Indexes: after any history of merged and removed files the indexes answer from the files
    that are there, whether they leave one by one or in a batch; position tables stay in range; the
    journal names exactly the changes of membership; a name is an instance exactly when a chain of derivations declares it; the file index is two layers of keys.
  \<^item> Rules: \<^verbatim>\<open>reindex\<close> is idempotent; lookups through the indexes give what a scan of
    the rules gives, for every hasher; overloads are the declared aliases; coalescing loses no key.
  \<^item> Validator: on every parsed file the traversal returns, without a panic, and leaves the scope
    context and the loop variables as it found them; it spends at most 65536 alias branches and keeps
    at most 4096 memo entries of 128 errors; the tables of a block never change what is reported, and
    neither do the memo and the budget unless the budget runs out; a leaf with candidates reports
    nothing, the message of its best candidate or the shortest list of errors; the cardinality
    check is silent exactly when the counts are within their bounds.
  \<^item> Suggestions: the bounded edit distance is the least number of edits.
  \<^item> Scopes: the subscope search ends, also on cyclic declarations, and is reachability; declared
    names resolve; a result describes the context it leaves; the stack is never empty; checking a
    target leaves the context as it was.
  \<^item> Localisation: values are covered by their elements; files and chains round-trip through
    printing and parsing; every line is an entry, an error or blank; the quote fix repairs the
    entry it is for; each command is reported at most once and with cause; the index is
    consistent and prefers English; a wrong encoding is reported once for a path.

  \<^bold>\<open>Fuel and bounds.\<close>  The mutual recursion of the parser carries fuel, spent once for each turn of
  a clause loop; \<open>parse\<close> starts it with one more than the number of characters, and
  \<open>parse_string_total\<close> shows that this suffices.  The traversal of the validator carries a bound
  on the nesting of clauses; the parser nests at most 256, and \<open>parsed_file_validates\<close> shows
  that 258 suffices for every parsed file.  All other loops are total functions, by
  structural recursion or with a measure.  Ids of strings are 32-bit words; lines and byte
  offsets are natural numbers (the source's \<^verbatim>\<open>u32\<close> and \<^verbatim>\<open>usize\<close> do not wrap for files below four
  gigabytes), columns saturate at 65535 as in the source.

  \<^bold>\<open>Parameters.\<close>  Not under the repository or tables of Unicode, and so arguments of the
  definitions: the hashers of strings, of rule bodies and of keys, \<^verbatim>\<open>str::to_lowercase\<close>,
  \<^verbatim>\<open>char::is_lowercase\<close> and \<^verbatim>\<open>char::is_alphanumeric\<close> outside ASCII, the iteration order of
  hash maps where it is seen, the codec of the cache (\<^verbatim>\<open>rkyv\<close> and \<^verbatim>\<open>zstd\<close>) and the file
  system under it, translated message templates and titles of fixes, and the renderings of
  floating-point numbers and \<^verbatim>\<open>Debug\<close> texts.

  \<^bold>\<open>Not modelled.\<close>  Locks, threads and cancellation (operations are sequential; the parallel iterators
  of the localisation pipeline collect in order), reading source files and directories, rounding of
  floating point literals.  Of the cache, the housekeeping of its directories and the Windows branch
  of the atomic write.  Of the indexes, the walk over a directory, the collection of instances, names and
  variables from parsed files, and the archive of the base game.  Of the rules, the conversion and
  loading of configuration files.  Of the validator, inline scripts, the tracking of uses, the choice
  of subtypes and what is around the traversal of one tree (\<^verbatim>\<open>lib.rs\<close>, \<^verbatim>\<open>resolve.rs\<close>,
  \<^verbatim>\<open>subtype.rs\<close>, \<^verbatim>\<open>position.rs\<close>, \<^verbatim>\<open>references.rs\<close> and the checks of single games).  The
  formatter \<^verbatim>\<open>parser/src/format.rs\<close> and the crates around the engine, \<^verbatim>\<open>file_manager\<close>,
  \<^verbatim>\<open>info\<close>, \<^verbatim>\<open>driver\<close>, \<^verbatim>\<open>lsp\<close> and \<^verbatim>\<open>cli\<close>, are outside.
\<close>

end
